(* ===== verification/Octo_Prelude.thy ===== *)
theory Octo_Prelude
  imports Main "HOL-Library.AList"
begin

text \<open>
  Shared vocabulary of the development: Python's insertion-ordered dictionaries and deques,
  results of fallible code, futures, reachability of step relations, and the generic lemmas
  the components use on them.

  Conventions. A UUID is an opaque identity and is a natural number. A Python string is a
  list of code points (\<open>ustr\<close>), because several components count code points and UTF-8
  bytes separately. A dictionary is an association list in insertion order. A raised
  exception is the \<open>Inl\<close> of a sum. A mutable object that several places share is an index
  into a store (a list of records) of the state that owns it.
\<close>

named_theorems dict_simps "lookup, update and deletion laws of ordered dictionaries"

type_synonym uuid = nat
type_synonym ustr = "nat list"
type_synonym 'a deque = "'a list"
type_synonym ('k, 'v) dict = "('k \<times> 'v) list"

text \<open>A future: pending, a result, an exception, or cancelled.\<close>

datatype ('e, 'a) py_future = Pending | Result 'a | Raised 'e | Cancelled

definition future_done :: "('e, 'a) py_future \<Rightarrow> bool" where
  "future_done f \<longleftrightarrow> f \<noteq> Pending"

section \<open>Sequencing of fallible code\<close>

definition bind_result :: "'e + 'a \<Rightarrow> ('a \<Rightarrow> 'e + 'b) \<Rightarrow> 'e + 'b" where
  "bind_result r f = (case r of Inl e \<Rightarrow> Inl e | Inr x \<Rightarrow> f x)"

definition guard_result :: "bool \<Rightarrow> 'e \<Rightarrow> 'e + unit" where
  "guard_result ok e = (if ok then Inr () else Inl e)"

fun map_result :: "('a \<Rightarrow> 'e + 'b) \<Rightarrow> 'a list \<Rightarrow> 'e + 'b list" where
  "map_result f [] = Inr []"
| "map_result f (x # xs) =
     bind_result (f x) (\<lambda>y. bind_result (map_result f xs) (\<lambda>ys. Inr (y # ys)))"

lemma bind_result_simps [simp]:
  "bind_result (Inl e) f = Inl e"
  "bind_result (Inr x) f = f x"
  by (simp_all add: bind_result_def)

lemma bind_result_Inr_iff:
  "bind_result r f = Inr y \<longleftrightarrow> (\<exists>x. r = Inr x \<and> f x = Inr y)"
  by (cases r) auto

lemma bind_result_Inl_iff:
  "bind_result r f = Inl e \<longleftrightarrow> r = Inl e \<or> (\<exists>x. r = Inr x \<and> f x = Inl e)"
  by (cases r) auto

lemma guard_result_Inr_iff [simp]: "guard_result ok e = Inr u \<longleftrightarrow> ok"
  by (simp add: guard_result_def)

lemma guard_result_Inl_iff [simp]: "guard_result ok e = Inl e' \<longleftrightarrow> \<not> ok \<and> e' = e"
  by (auto simp: guard_result_def)

lemma map_result_Inr_length: "map_result f xs = Inr ys \<Longrightarrow> length ys = length xs"
  by (induction xs arbitrary: ys) (auto simp: bind_result_Inr_iff)

lemma map_result_Inr_nth:
  "map_result f xs = Inr ys \<Longrightarrow> i < length xs \<Longrightarrow> f (xs ! i) = Inr (ys ! i)"
proof (induction xs arbitrary: ys i)
  case Nil
  then show ?case by simp
next
  case (Cons x xs)
  then show ?case by (cases i) (auto simp: bind_result_Inr_iff)
qed

section \<open>Dictionaries in insertion order\<close>

definition dict_get :: "('k, 'v) dict \<Rightarrow> 'k \<Rightarrow> 'v option" where
  "dict_get d k = map_of d k"

definition dict_get_default :: "('k, 'v) dict \<Rightarrow> 'k \<Rightarrow> 'v \<Rightarrow> 'v" where
  "dict_get_default d k v = (case dict_get d k of None \<Rightarrow> v | Some w \<Rightarrow> w)"

definition dict_set :: "'k \<Rightarrow> 'v \<Rightarrow> ('k, 'v) dict \<Rightarrow> ('k, 'v) dict" where
  "dict_set k v d = AList.update k v d"

definition dict_del :: "'k \<Rightarrow> ('k, 'v) dict \<Rightarrow> ('k, 'v) dict" where
  "dict_del k d = AList.delete k d"

definition dict_keys :: "('k, 'v) dict \<Rightarrow> 'k list" where
  "dict_keys d = map fst d"

definition dict_values :: "('k, 'v) dict \<Rightarrow> 'v list" where
  "dict_values d = map snd d"

definition dict_wf :: "('k, 'v) dict \<Rightarrow> bool" where
  "dict_wf d \<longleftrightarrow> distinct (map fst d)"

lemma dict_get_empty [simp, dict_simps]: "dict_get [] k = None"
  by (simp add: dict_get_def)

lemma dict_get_Cons [dict_simps]:
  "dict_get ((k, v) # d) k' = (if k' = k then Some v else dict_get d k')"
  by (simp add: dict_get_def)

lemma dict_get_set [simp, dict_simps]:
  "dict_get (dict_set k v d) k' = (if k' = k then Some v else dict_get d k')"
  by (simp add: dict_get_def dict_set_def update_conv')

lemma dict_get_del [simp, dict_simps]:
  "dict_get (dict_del k d) k' = (if k' = k then None else dict_get d k')"
  by (simp add: dict_get_def dict_del_def delete_conv')

lemma dict_get_default_set [simp, dict_simps]:
  "dict_get_default (dict_set k v d) k' x = (if k' = k then v else dict_get_default d k' x)"
  by (simp add: dict_get_default_def)

lemma dict_get_default_del [simp, dict_simps]:
  "dict_get_default (dict_del k d) k' x = (if k' = k then x else dict_get_default d k' x)"
  by (simp add: dict_get_default_def)

lemma dict_get_default_empty [simp, dict_simps]: "dict_get_default [] k x = x"
  by (simp add: dict_get_default_def)

lemma dict_wf_empty [simp]: "dict_wf []"
  by (simp add: dict_wf_def)

lemma dict_wf_set [simp]: "dict_wf d \<Longrightarrow> dict_wf (dict_set k v d)"
  by (simp add: dict_wf_def dict_set_def distinct_update)

lemma dict_wf_del [simp]: "dict_wf d \<Longrightarrow> dict_wf (dict_del k d)"
  by (simp add: dict_wf_def dict_del_def distinct_delete)

lemma dict_keys_set_set [simp]: "set (dict_keys (dict_set k v d)) = insert k (set (dict_keys d))"
  by (simp add: dict_keys_def dict_set_def dom_update)

lemma dict_keys_del_set [simp]: "set (dict_keys (dict_del k d)) = set (dict_keys d) - {k}"
  by (simp add: dict_keys_def dict_del_def delete_keys flip: set_map)

lemma dict_keys_iff: "k \<in> set (dict_keys d) \<longleftrightarrow> dict_get d k \<noteq> None"
  by (simp add: dict_keys_def dict_get_def map_of_eq_None_iff)

lemma dict_get_NoneD: "k \<notin> set (dict_keys d) \<Longrightarrow> dict_get d k = None"
  by (simp add: dict_keys_iff)

lemma dict_set_fresh: "k \<notin> set (dict_keys d) \<Longrightarrow> dict_set k v d = d @ [(k, v)]"
  by (induction d) (auto simp: dict_set_def dict_keys_def)

lemma dict_keys_set: 
  "dict_keys (dict_set k v d) = (if k \<in> set (dict_keys d) then dict_keys d else dict_keys d @ [k])"
  by (simp add: dict_set_def dict_keys_def update_keys)

lemma dict_keys_del: "dict_keys (dict_del k d) = removeAll k (dict_keys d)"
  by (simp add: dict_del_def dict_keys_def delete_keys)

lemma dict_wf_get_iff: "dict_wf d \<Longrightarrow> dict_get d k = Some v \<longleftrightarrow> (k, v) \<in> set d"
  by (simp add: dict_wf_def dict_get_def)

lemma dict_get_in: "dict_get d k = Some v \<Longrightarrow> (k, v) \<in> set d"
  by (simp add: dict_get_def map_of_SomeD)

lemma dict_wf_distinct_keys: "dict_wf d \<Longrightarrow> distinct (dict_keys d)"
  by (simp add: dict_wf_def dict_keys_def)

lemma dict_get_induct_Cons [simp]: "dict_wf (p # d) \<longleftrightarrow> fst p \<notin> set (dict_keys d) \<and> dict_wf d"
  by (simp add: dict_wf_def dict_keys_def)

subsection \<open>Sums over the values of a dictionary\<close>

definition dict_sum :: "('v \<Rightarrow> 'n::comm_monoid_add) \<Rightarrow> ('k, 'v) dict \<Rightarrow> 'n" where
  "dict_sum f d = sum_list (map (\<lambda>p. f (snd p)) d)"

lemma dict_sum_empty [simp]: "dict_sum f [] = 0"
  by (simp add: dict_sum_def)

lemma dict_sum_Cons [simp]: "dict_sum f (p # d) = f (snd p) + dict_sum f d"
  by (simp add: dict_sum_def)

lemma dict_sum_set_fresh:
  "dict_get d k = None \<Longrightarrow> dict_sum f (dict_set k v d) = dict_sum f d + f v"
proof (induction d)
  case Nil
  then show ?case by (simp add: dict_set_def)
next
  case (Cons p d)
  then show ?case
    by (cases p) (auto simp: dict_set_def dict_get_def add.assoc split: if_splits)
qed

lemma dict_sum_set_old:
  "dict_get d k = Some w \<Longrightarrow> dict_sum f (dict_set k v d) + f w = dict_sum f d + f v"
proof (induction d)
  case Nil
  then show ?case by simp
next
  case (Cons p d)
  then show ?case
    by (cases p) (auto simp: dict_set_def dict_get_def ac_simps split: if_splits)
qed

lemma dict_del_absent: "k \<notin> set (dict_keys d) \<Longrightarrow> dict_del k d = d"
  by (simp add: dict_del_def dict_keys_def)

lemma dict_sum_del:
  "dict_wf d \<Longrightarrow> dict_get d k = Some w \<Longrightarrow> dict_sum f (dict_del k d) + f w = dict_sum f d"
proof (induction d)
  case Nil
  then show ?case by simp
next
  case (Cons p d)
  then have "fst p \<noteq> k \<or> dict_del k d = d"
    by (auto simp: dict_del_absent)
  with Cons show ?case
    by (cases p) (auto simp: dict_del_def dict_get_def ac_simps split: if_splits)
qed

lemma dict_sum_del_le:
  fixes f :: "'v \<Rightarrow> nat"
  shows "dict_sum f (dict_del k d) \<le> dict_sum f d"
  by (induction d) (auto simp: dict_del_def)

lemma dict_sum_del_le_get:
  fixes f :: "'v \<Rightarrow> nat"
  shows "dict_get d k = Some w \<Longrightarrow> dict_sum f (dict_del k d) + f w \<le> dict_sum f d"
proof (induction d)
  case Nil
  then show ?case by simp
next
  case (Cons p d)
  then show ?case
    using dict_sum_del_le [of f k d]
    by (cases p) (auto simp: dict_del_def dict_get_def split: if_splits)
qed

subsection \<open>The contract of a dictionary\<close>

text \<open>
  What the components rely on when they keep state in a dictionary: a lookup after an
  insertion or a deletion, and that keys stay unique. The association lists above provide it.
\<close>

locale ordered_dict =
  fixes get :: "'d \<Rightarrow> 'k \<Rightarrow> 'v option"
    and put :: "'k \<Rightarrow> 'v \<Rightarrow> 'd \<Rightarrow> 'd"
    and del :: "'k \<Rightarrow> 'd \<Rightarrow> 'd"
    and keys :: "'d \<Rightarrow> 'k list"
    and wf :: "'d \<Rightarrow> bool"
  assumes get_put: "get (put k v d) k' = (if k' = k then Some v else get d k')"
    and get_del: "get (del k d) k' = (if k' = k then None else get d k')"
    and keys_iff: "k \<in> set (keys d) \<longleftrightarrow> get d k \<noteq> None"
    and wf_put: "wf d \<Longrightarrow> wf (put k v d)"
    and wf_del: "wf d \<Longrightarrow> wf (del k d)"
    and wf_keys: "wf d \<Longrightarrow> distinct (keys d)"
begin

lemma put_then_del: "get (del k (put k v d)) k' = get (del k d) k'"
  by (simp add: get_put get_del)

lemma keys_after_put: "set (keys (put k v d)) = insert k (set (keys d))"
  by (auto simp: keys_iff get_put split: if_splits)

lemma keys_after_del: "set (keys (del k d)) = set (keys d) - {k}"
  by (auto simp: keys_iff get_del split: if_splits)

lemma size_after_put:
  assumes "wf d"
  shows "length (keys (put k v d)) =
    (if get d k = None then Suc (length (keys d)) else length (keys d))"
proof -
  have "length (keys (put k v d)) = card (insert k (set (keys d)))"
    using wf_keys [OF wf_put [OF assms]] by (metis distinct_card keys_after_put)
  moreover have "length (keys d) = card (set (keys d))"
    using wf_keys [OF assms] by (simp add: distinct_card)
  ultimately show ?thesis
    using keys_iff [of k d] by (auto simp: insert_absorb)
qed

lemma size_after_del:
  assumes "wf d" and "get d k = Some v"
  shows "Suc (length (keys (del k d))) = length (keys d)"
proof -
  have "length (keys (del k d)) = card (set (keys d) - {k})"
    using wf_keys [OF wf_del [OF assms(1)]] by (metis distinct_card keys_after_del)
  moreover have "length (keys d) = card (set (keys d))"
    using wf_keys [OF assms(1)] by (simp add: distinct_card)
  moreover have "k \<in> set (keys d)"
    using assms(2) by (simp add: keys_iff)
  ultimately show ?thesis
    by (metis List.finite_set card.remove)
qed

end

interpretation pydict: ordered_dict dict_get dict_set dict_del dict_keys dict_wf
  by unfold_locales (simp_all add: dict_keys_iff dict_wf_distinct_keys)

lemma dict_length_set:
  "dict_wf d \<Longrightarrow> length (dict_set k v d) = (if dict_get d k = None then Suc (length d) else length d)"
  using pydict.size_after_put [of d k v] by (simp add: dict_keys_def)

lemma dict_length_del:
  "dict_wf d \<Longrightarrow> dict_get d k = Some v \<Longrightarrow> Suc (length (dict_del k d)) = length d"
  using pydict.size_after_del [of d k v] by (simp add: dict_keys_def)

section \<open>Reachability and invariants\<close>

inductive reachable :: "('s \<Rightarrow> bool) \<Rightarrow> ('s \<Rightarrow> 's \<Rightarrow> bool) \<Rightarrow> 's \<Rightarrow> bool"
  for init :: "'s \<Rightarrow> bool" and step :: "'s \<Rightarrow> 's \<Rightarrow> bool" where
  reach_start: "init s \<Longrightarrow> reachable init step s"
| reach_step: "reachable init step s \<Longrightarrow> step s t \<Longrightarrow> reachable init step t"

text \<open>
  The contract of an inductive invariant: it holds at the start and every step keeps it.
  Every state machine of the development is an instance.
\<close>

locale inductive_invariant =
  fixes init :: "'s \<Rightarrow> bool"
    and step :: "'s \<Rightarrow> 's \<Rightarrow> bool"
    and inv :: "'s \<Rightarrow> bool"
  assumes inv_init: "init s \<Longrightarrow> inv s"
    and inv_step: "inv s \<Longrightarrow> step s t \<Longrightarrow> inv t"
begin

lemma inv_reachable: "reachable init step s \<Longrightarrow> inv s"
proof (induction rule: reachable.induct)
  case (reach_start s)
  then show ?case by (rule inv_init)
next
  case (reach_step s t)
  then show ?case by (blast intro: inv_step)
qed

lemma inv_trace: "inv s \<Longrightarrow> step\<^sup>*\<^sup>* s t \<Longrightarrow> inv t"
  by (rotate_tac, induction rule: rtranclp_induct) (auto intro: inv_step)

end

section \<open>Lists\<close>

lemma filter_length_append1 [simp]:
  "length (filter P (xs @ [x])) = length (filter P xs) + (if P x then 1 else 0)"
  by simp

lemma length_filter_update:
  assumes "i < length xs"
  shows "length (filter P (xs[i := x])) + (if P (xs ! i) then 1 else 0) =
    length (filter P xs) + (if P x then 1 else 0)"
  using assms
proof (induction xs arbitrary: i)
  case Nil
  then show ?case by simp
next
  case (Cons y ys)
  then show ?case
  proof (cases i)
    case (Suc j)
    with Cons have "length (filter P (ys[j := x])) + (if P (ys ! j) then 1 else 0) =
      length (filter P ys) + (if P x then 1 else 0)" by simp
    with Suc show ?thesis by simp
  qed simp
qed

lemma nth_list_update_if: "j < length xs \<Longrightarrow> (xs[i := x]) ! j = (if i = j then x else xs ! j)"
  by (auto simp: nth_list_update)

lemma remove1_eq_Nil_iff: "remove1 x xs = [] \<longleftrightarrow> xs = [] \<or> xs = [x]"
  by (cases xs) auto

lemma set_remove1_distinct: "distinct xs \<Longrightarrow> set (remove1 x xs) = set xs - {x}"
  by (rule set_remove1_eq)

lemma sum_list_ge_elem: "x \<in> set xs \<Longrightarrow> f x \<le> (sum_list (map f xs) :: nat)"
  by (induction xs) auto

lemma count_list_remove1:
  "x \<in> set xs \<Longrightarrow> count_list (remove1 x xs) y + (if y = x then 1 else 0) = count_list xs y"
  by (induction xs) auto

lemma count_list_append1 [simp]:
  "count_list (xs @ [x]) y = count_list xs y + (if y = x then 1 else 0)"
  by (induction xs) auto

end
