(* ===== verification/Fair_Admission.thy ===== *)
theory Fair_Admission
  imports Octo_Prelude
begin

text \<open>
  Fair admission of device transfers: \<open>FairTransferAdmission\<close> and \<open>TransferLease\<close> of
  \<open>src/server/src/openctopus_server/devices/transfer_admission.py\<close>.

  The state holds the counters, one FIFO of waiters per user and the round-robin queue of
  users. Waiters and leases are objects with identity, so the state has a store of each and
  the queues and futures hold indices. Each method body under \<open>self._lock\<close> is one atomic
  step; \<open>aclose\<close> first marks its lease closed and then schedules \<open>_release\<close> as a task,
  which the state keeps in \<open>fa_release_tasks\<close> until it gets the lock.
\<close>

datatype fa_error =
    FaValueError
  | TransferBusyError

record fa_waiter =
  w_user :: uuid
  w_future :: "(unit, nat) py_future"
  w_queued :: bool

record transfer_lease =
  lease_user :: uuid
  lease_closed :: bool

record fair_admission =
  fa_max :: int
  fa_max_user :: int
  fa_timeout :: int
  fa_active :: int
  fa_by_user :: "(uuid, int) dict"
  fa_waiters :: "(uuid, nat deque) dict"
  fa_rr :: "uuid deque"
  fa_waiter_objs :: "fa_waiter list"
  fa_leases :: "transfer_lease list"
  fa_release_tasks :: "uuid list"

definition fa_new :: "int \<Rightarrow> int \<Rightarrow> int \<Rightarrow> fa_error + fair_admission" where
  "fa_new max_concurrency max_per_user queue_timeout =
     (if max_concurrency < 1 then Inl FaValueError
      else if \<not> (1 \<le> max_per_user \<and> max_per_user \<le> max_concurrency) then Inl FaValueError
      else if queue_timeout \<le> 0 then Inl FaValueError
      else Inr \<lparr>fa_max = max_concurrency, fa_max_user = max_per_user, fa_timeout = queue_timeout,
                fa_active = 0, fa_by_user = [], fa_waiters = [], fa_rr = [],
                fa_waiter_objs = [], fa_leases = [], fa_release_tasks = []\<rparr>)"

definition fa_waiting_count :: "fair_admission \<Rightarrow> int" where
  "fa_waiting_count s = dict_sum (\<lambda>q. int (length q)) (fa_waiters s)"

definition can_grant_locked :: "fair_admission \<Rightarrow> uuid \<Rightarrow> bool" where
  "can_grant_locked s u \<longleftrightarrow>
     fa_active s < fa_max s \<and> dict_get_default (fa_by_user s) u 0 < fa_max_user s"

definition grant_locked :: "fair_admission \<Rightarrow> uuid \<Rightarrow> nat \<times> fair_admission" where
  "grant_locked s u =
     (length (fa_leases s),
      s\<lparr>fa_active := fa_active s + 1,
        fa_by_user := dict_set u (dict_get_default (fa_by_user s) u 0 + 1) (fa_by_user s),
        fa_leases := fa_leases s @ [\<lparr>lease_user = u, lease_closed = False\<rparr>]\<rparr>)"

text \<open>
  The granting branch of the drain loop: pop the first waiter of the user, grant a lease,
  rotate the user behind the others while it still has waiters, and complete the future.
\<close>

definition drain_grant :: "fair_admission \<Rightarrow> uuid \<Rightarrow> nat \<Rightarrow> nat deque \<Rightarrow> uuid deque \<Rightarrow> fair_admission" where
  "drain_grant s u w queue rr =
     (let s1 = s\<lparr>fa_waiter_objs := (fa_waiter_objs s)[w := (fa_waiter_objs s ! w)\<lparr>w_queued := False\<rparr>]\<rparr>;
          (lease, s2) = grant_locked s1 u;
          s3 = (if queue \<noteq> []
                then s2\<lparr>fa_waiters := dict_set u queue (fa_waiters s2), fa_rr := rr @ [u]\<rparr>
                else s2\<lparr>fa_waiters := dict_del u (fa_waiters s2), fa_rr := rr\<rparr>)
      in if future_done (w_future (fa_waiter_objs s3 ! w)) then s3
         else s3\<lparr>fa_waiter_objs :=
                (fa_waiter_objs s3)[w := (fa_waiter_objs s3 ! w)\<lparr>w_future := Result lease\<rparr>]\<rparr>)"

function drain_loop :: "fair_admission \<Rightarrow> nat \<Rightarrow> fair_admission" where
  "drain_loop s blocked =
     (case fa_rr s of
        [] \<Rightarrow> s
      | u # rr \<Rightarrow>
          if fa_active s < fa_max s \<and> blocked < length (fa_rr s) then
            (case dict_get (fa_waiters s) u of
               None \<Rightarrow> drain_loop (s\<lparr>fa_waiters := dict_del u (fa_waiters s), fa_rr := rr\<rparr>) 0
             | Some [] \<Rightarrow> drain_loop (s\<lparr>fa_waiters := dict_del u (fa_waiters s), fa_rr := rr\<rparr>) 0
             | Some (w # queue) \<Rightarrow>
                 if \<not> can_grant_locked s u then drain_loop (s\<lparr>fa_rr := rr @ [u]\<rparr>) (Suc blocked)
                 else drain_loop (drain_grant s u w queue rr) 0)
          else s)"
  by pat_completeness auto

lemma drain_grant_waiters:
  "fa_waiters (drain_grant s u w queue rr) =
     (if queue \<noteq> [] then dict_set u queue (fa_waiters s) else dict_del u (fa_waiters s))"
  by (simp add: drain_grant_def grant_locked_def Let_def)

lemma drain_grant_fewer_waiters:
  assumes "dict_get (fa_waiters s) u = Some (w # queue)"
  shows "dict_sum length (fa_waiters (drain_grant s u w queue rr)) < dict_sum length (fa_waiters s)"
  using dict_sum_set_old [OF assms, of length queue] dict_sum_del_le_get [OF assms, of length]
  by (auto simp: drain_grant_waiters)

termination drain_loop
  by (relation "measures [\<lambda>(s, b). dict_sum length (fa_waiters s), \<lambda>(s, b). length (fa_rr s),
       \<lambda>(s, b). length (fa_rr s) - b]")
    (auto simp: drain_grant_fewer_waiters intro: le_neq_implies_less dict_sum_del_le)

declare drain_loop.simps [simp del]

definition drain_locked :: "fair_admission \<Rightarrow> fair_admission" where
  "drain_locked s = (if fa_rr s = [] then s else drain_loop s 0)"

datatype acquired = AcquiredLease nat | AcquiredWaiter nat

text \<open>
  \<open>acquire\<close> up to the point where it awaits its waiter's future: an immediate lease, a
  queued waiter (whose future the drain may already have completed), or \<open>TransferBusyError\<close>.
\<close>

definition fa_acquire :: "uuid \<Rightarrow> fair_admission \<Rightarrow> fa_error + (acquired \<times> fair_admission)" where
  "fa_acquire u s =
     (if can_grant_locked s u \<and> fa_rr s = []
      then (let (lease, s') = grant_locked s u in Inr (AcquiredLease lease, s'))
      else if (case dict_get (fa_waiters s) u of None \<Rightarrow> False
                | Some queue \<Rightarrow> int (length queue) \<ge> fa_max_user s)
              \<or> fa_waiting_count s \<ge> fa_max s
      then Inl TransferBusyError
      else (let w = length (fa_waiter_objs s);
                queue = dict_get_default (fa_waiters s) u [];
                s1 = s\<lparr>fa_waiter_objs := fa_waiter_objs s @
                          [\<lparr>w_user = u, w_future = Pending, w_queued = True\<rparr>],
                       fa_waiters := dict_set u (queue @ [w]) (fa_waiters s),
                       fa_rr := (if u \<in> set (fa_rr s) then fa_rr s else fa_rr s @ [u])\<rparr>
            in Inr (AcquiredWaiter w, drain_locked s1)))"

definition fa_remove_waiter :: "nat \<Rightarrow> fair_admission \<Rightarrow> fair_admission" where
  "fa_remove_waiter w s =
     (let u = w_user (fa_waiter_objs s ! w);
          s1 = s\<lparr>fa_waiter_objs := (fa_waiter_objs s)[w := (fa_waiter_objs s ! w)\<lparr>w_queued := False\<rparr>]\<rparr>
      in case dict_get (fa_waiters s1) u of
           None \<Rightarrow> s1
         | Some queue \<Rightarrow>
             (let queue' = remove1 w queue in
              if queue' = [] then s1\<lparr>fa_waiters := dict_del u (fa_waiters s1),
                                     fa_rr := remove1 u (fa_rr s1)\<rparr>
              else s1\<lparr>fa_waiters := dict_set u queue' (fa_waiters s1)\<rparr>))"

definition fa_cleanup_locked :: "nat \<Rightarrow> fair_admission \<Rightarrow> nat option \<times> fair_admission" where
  "fa_cleanup_locked w s =
     (let s1 = (if w_queued (fa_waiter_objs s ! w) then drain_locked (fa_remove_waiter w s) else s)
      in case w_future (fa_waiter_objs s1 ! w) of
           Result lease \<Rightarrow> (Some lease, s1)
         | Pending \<Rightarrow> (None, s1\<lparr>fa_waiter_objs :=
                 (fa_waiter_objs s1)[w := (fa_waiter_objs s1 ! w)\<lparr>w_future := Cancelled\<rparr>]\<rparr>)
         | _ \<Rightarrow> (None, s1))"

definition lease_aclose :: "nat \<Rightarrow> fair_admission \<Rightarrow> fair_admission" where
  "lease_aclose l s =
     (if lease_closed (fa_leases s ! l) then s
      else s\<lparr>fa_leases := (fa_leases s)[l := (fa_leases s ! l)\<lparr>lease_closed := True\<rparr>],
             fa_release_tasks := fa_release_tasks s @ [lease_user (fa_leases s ! l)]\<rparr>)"

definition fa_cleanup_waiter :: "nat \<Rightarrow> fair_admission \<Rightarrow> fair_admission" where
  "fa_cleanup_waiter w s =
     (case fa_cleanup_locked w s of
        (None, s') \<Rightarrow> s'
      | (Some lease, s') \<Rightarrow> lease_aclose lease s')"

definition fa_release :: "uuid \<Rightarrow> fair_admission \<Rightarrow> fair_admission" where
  "fa_release u s =
     (let s1 = s\<lparr>fa_active := max 0 (fa_active s - 1)\<rparr>;
          current = dict_get_default (fa_by_user s1) u 0;
          s2 = (if current \<le> 1 then s1\<lparr>fa_by_user := dict_del u (fa_by_user s1)\<rparr>
                else s1\<lparr>fa_by_user := dict_set u (current - 1) (fa_by_user s1)\<rparr>)
      in drain_locked s2)"

definition fa_run_release :: "uuid \<Rightarrow> fair_admission \<Rightarrow> fair_admission" where
  "fa_run_release u s = fa_release u (s\<lparr>fa_release_tasks := remove1 u (fa_release_tasks s)\<rparr>)"

text \<open>
  \<open>TransferLease.validate\<close>: the lease is of this admission (\<open>same_owner\<close>), of this user and
  still open, and the slot id is a version-7 UUID.
\<close>

definition lease_validate :: "bool \<Rightarrow> transfer_lease \<Rightarrow> uuid \<Rightarrow> nat option \<Rightarrow> fa_error + unit" where
  "lease_validate same_owner l user_id slot_version =
     (if \<not> same_owner \<or> lease_user l \<noteq> user_id \<or> lease_closed l then Inl FaValueError
      else if slot_version \<noteq> Some 7 then Inl FaValueError
      else Inr ())"

inductive fa_step :: "fair_admission \<Rightarrow> fair_admission \<Rightarrow> bool" where
  fa_acquire_ok: "fa_acquire u s = Inr (r, t) \<Longrightarrow> fa_step s t"
| fa_acquire_busy: "fa_acquire u s = Inl e \<Longrightarrow> fa_step s s"
| fa_give_up: "w < length (fa_waiter_objs s) \<Longrightarrow> fa_step s (fa_cleanup_waiter w s)"
| fa_close: "l < length (fa_leases s) \<Longrightarrow> fa_step s (lease_aclose l s)"
| fa_release_task: "u \<in> set (fa_release_tasks s) \<Longrightarrow> fa_step s (fa_run_release u s)"

definition fa_initial :: "fair_admission \<Rightarrow> bool" where
  "fa_initial s \<longleftrightarrow> (\<exists>m k t. fa_new m k t = Inr s)"

abbreviation fa_reachable :: "fair_admission \<Rightarrow> bool" where
  "fa_reachable \<equiv> reachable fa_initial fa_step"

section \<open>The invariant\<close>

definition open_of :: "fair_admission \<Rightarrow> uuid \<Rightarrow> nat" where
  "open_of s u = length (filter (\<lambda>l. lease_user l = u \<and> \<not> lease_closed l) (fa_leases s))"

definition open_all :: "fair_admission \<Rightarrow> nat" where
  "open_all s = length (filter (\<lambda>l. \<not> lease_closed l) (fa_leases s))"

lemma open_frame [simp]:
  "open_of (s\<lparr>fa_active := n\<rparr>) u = open_of s u" "open_all (s\<lparr>fa_active := n\<rparr>) = open_all s"
  "open_of (s\<lparr>fa_by_user := d\<rparr>) u = open_of s u" "open_all (s\<lparr>fa_by_user := d\<rparr>) = open_all s"
  "open_of (s\<lparr>fa_release_tasks := ts\<rparr>) u = open_of s u"
  "open_all (s\<lparr>fa_release_tasks := ts\<rparr>) = open_all s"
  by (simp_all add: open_of_def open_all_def)

text \<open>Capacity: the counters count exactly the open leases and the releases under way.\<close>

definition fa_counts :: "fair_admission \<Rightarrow> bool" where
  "fa_counts s \<longleftrightarrow>
     1 \<le> fa_max_user s \<and> fa_max_user s \<le> fa_max s \<and>
     fa_active s = int (open_all s) + int (length (fa_release_tasks s)) \<and>
     fa_active s \<le> fa_max s \<and>
     (\<forall>u. dict_get_default (fa_by_user s) u 0 = int (open_of s u) + int (count_list (fa_release_tasks s) u)) \<and>
     (\<forall>u. dict_get_default (fa_by_user s) u 0 \<le> fa_max_user s)"

lemma fa_countsD:
  assumes "fa_counts s"
  shows "1 \<le> fa_max_user s" and "fa_max_user s \<le> fa_max s"
    and "fa_active s = int (open_all s) + int (length (fa_release_tasks s))"
    and "fa_active s \<le> fa_max s"
    and "dict_get_default (fa_by_user s) u 0 = int (open_of s u) + int (count_list (fa_release_tasks s) u)"
    and "dict_get_default (fa_by_user s) u 0 \<le> fa_max_user s"
  using assms unfolding fa_counts_def by blast+

text \<open>The queues: the round-robin users are the users with waiters, each once.\<close>

definition fa_queues :: "fair_admission \<Rightarrow> bool" where
  "fa_queues s \<longleftrightarrow>
     dict_wf (fa_waiters s) \<and> distinct (fa_rr s) \<and>
     set (fa_rr s) = set (dict_keys (fa_waiters s)) \<and>
     (\<forall>u q. dict_get (fa_waiters s) u = Some q \<longrightarrow>
        q \<noteq> [] \<and> distinct q \<and> int (length q) \<le> fa_max_user s) \<and>
     fa_waiting_count s \<le> fa_max s"

text \<open>
  The objects: a waiter is queued exactly while it stands in its user's FIFO, and then its
  future is pending; a completed future holds an existing lease of the waiter's user.
\<close>

definition fa_objects :: "fair_admission \<Rightarrow> bool" where
  "fa_objects s \<longleftrightarrow>
     (\<forall>u q. dict_get (fa_waiters s) u = Some q \<longrightarrow> (\<forall>w \<in> set q.
        w < length (fa_waiter_objs s) \<and> w_user (fa_waiter_objs s ! w) = u \<and>
        w_queued (fa_waiter_objs s ! w))) \<and>
     (\<forall>w < length (fa_waiter_objs s).
        (w_queued (fa_waiter_objs s ! w) \<longrightarrow>
           w_future (fa_waiter_objs s ! w) = Pending \<and>
           (\<exists>q. dict_get (fa_waiters s) (w_user (fa_waiter_objs s ! w)) = Some q \<and> w \<in> set q)) \<and>
        (\<forall>l. w_future (fa_waiter_objs s ! w) = Result l \<longrightarrow>
           l < length (fa_leases s) \<and> lease_user (fa_leases s ! l) = w_user (fa_waiter_objs s ! w)))"

definition fa_struct :: "fair_admission \<Rightarrow> bool" where
  "fa_struct s \<longleftrightarrow> fa_counts s \<and> fa_queues s \<and> fa_objects s"

text \<open>Work conservation: no user with a waiter could be granted a lease.\<close>

definition fa_drained :: "fair_admission \<Rightarrow> bool" where
  "fa_drained s \<longleftrightarrow> (\<forall>u \<in> set (fa_rr s). \<not> can_grant_locked s u)"

definition fa_inv :: "fair_admission \<Rightarrow> bool" where
  "fa_inv s \<longleftrightarrow> fa_struct s \<and> fa_drained s"

lemma fa_inv_struct: "fa_inv s \<Longrightarrow> fa_struct s"
  by (simp add: fa_inv_def)

lemma drain_grant_eq:
  assumes "w < length (fa_waiter_objs s)" and "w_future (fa_waiter_objs s ! w) = Pending"
  shows "drain_grant s u w queue rr =
    s\<lparr>fa_active := fa_active s + 1,
      fa_by_user := dict_set u (dict_get_default (fa_by_user s) u 0 + 1) (fa_by_user s),
      fa_leases := fa_leases s @ [\<lparr>lease_user = u, lease_closed = False\<rparr>],
      fa_waiters := (if queue \<noteq> [] then dict_set u queue (fa_waiters s) else dict_del u (fa_waiters s)),
      fa_rr := (if queue \<noteq> [] then rr @ [u] else rr),
      fa_waiter_objs := (fa_waiter_objs s)[w :=
        (fa_waiter_objs s ! w)\<lparr>w_queued := False, w_future := Result (length (fa_leases s))\<rparr>]\<rparr>"
  using assms by (simp add: drain_grant_def grant_locked_def Let_def future_done_def)

lemma drain_grant_counts:
  assumes "fa_counts s" and "can_grant_locked s u"
    and "w < length (fa_waiter_objs s)" and "w_future (fa_waiter_objs s ! w) = Pending"
  shows "fa_counts (drain_grant s u w queue rr)"
  using assms
  by (auto simp: fa_counts_def drain_grant_eq open_of_def open_all_def can_grant_locked_def)

lemma fa_waiting_count_nat: "fa_waiting_count s = int (dict_sum length (fa_waiters s))"
proof -
  have "dict_sum (\<lambda>q. int (length q)) d = int (dict_sum length d)" for d :: "(uuid, nat list) dict"
    by (induction d) auto
  then show ?thesis by (simp add: fa_waiting_count_def)
qed

lemma drain_grant_queues:
  assumes "fa_queues s" and "fa_rr s = u # rr" and "dict_get (fa_waiters s) u = Some (w # queue)"
    and "w < length (fa_waiter_objs s)" and "w_future (fa_waiter_objs s ! w) = Pending"
  shows "fa_queues (drain_grant s u w queue rr)"
proof -
  have less: "dict_sum length (fa_waiters (drain_grant s u w queue rr)) < dict_sum length (fa_waiters s)"
    using assms(3) by (rule drain_grant_fewer_waiters)
  have head: "distinct (w # queue)" "int (length (w # queue)) \<le> fa_max_user s"
    using assms(1,3) unfolding fa_queues_def by blast+
  have keys: "set (u # rr) = set (dict_keys (fa_waiters s))" "distinct (u # rr)"
    using assms(1,2) by (simp_all add: fa_queues_def)
  have "set rr = set (dict_keys (fa_waiters s)) - {u}"
    using keys by auto
  moreover have "u \<in> set (dict_keys (fa_waiters s))" "insert u (set (dict_keys (fa_waiters s))) = insert u (set rr)"
    using keys by auto
  ultimately show ?thesis
    using assms less head keys
    by (auto simp: fa_queues_def drain_grant_eq fa_waiting_count_nat)
qed

lemma fa_objects_queueD:
  assumes "fa_objects s" and "dict_get (fa_waiters s) u = Some q" and "w \<in> set q"
  shows "w < length (fa_waiter_objs s)" and "w_user (fa_waiter_objs s ! w) = u"
    and "w_queued (fa_waiter_objs s ! w)"
  using assms unfolding fa_objects_def by blast+

lemma fa_objects_queuedD:
  assumes "fa_objects s" and "w < length (fa_waiter_objs s)" and "w_queued (fa_waiter_objs s ! w)"
  obtains q where "w_future (fa_waiter_objs s ! w) = Pending"
    and "dict_get (fa_waiters s) (w_user (fa_waiter_objs s ! w)) = Some q" and "w \<in> set q"
  using assms unfolding fa_objects_def by blast

lemma fa_objects_resultD:
  assumes "fa_objects s" and "w < length (fa_waiter_objs s)" and "w_future (fa_waiter_objs s ! w) = Result l"
  shows "l < length (fa_leases s)" and "lease_user (fa_leases s ! l) = w_user (fa_waiter_objs s ! w)"
  using assms unfolding fa_objects_def by blast+

lemma fa_objectsI:
  assumes "\<And>u q w. dict_get (fa_waiters s) u = Some q \<Longrightarrow> w \<in> set q \<Longrightarrow>
      w < length (fa_waiter_objs s) \<and> w_user (fa_waiter_objs s ! w) = u \<and> w_queued (fa_waiter_objs s ! w)"
    and "\<And>w. w < length (fa_waiter_objs s) \<Longrightarrow> w_queued (fa_waiter_objs s ! w) \<Longrightarrow>
      w_future (fa_waiter_objs s ! w) = Pending \<and>
      (\<exists>q. dict_get (fa_waiters s) (w_user (fa_waiter_objs s ! w)) = Some q \<and> w \<in> set q)"
    and "\<And>w l. w < length (fa_waiter_objs s) \<Longrightarrow> w_future (fa_waiter_objs s ! w) = Result l \<Longrightarrow>
      l < length (fa_leases s) \<and> lease_user (fa_leases s ! l) = w_user (fa_waiter_objs s ! w)"
  shows "fa_objects s"
  unfolding fa_objects_def using assms by blast

lemma fa_queues_queueD:
  assumes "fa_queues s" and "dict_get (fa_waiters s) u = Some q"
  shows "q \<noteq> []" and "distinct q" and "int (length q) \<le> fa_max_user s"
  using assms unfolding fa_queues_def by blast+

lemma drain_grant_objects:
  assumes obj: "fa_objects s" and que: "fa_queues s"
    and get: "dict_get (fa_waiters s) u = Some (w # queue)"
  shows "fa_objects (drain_grant s u w queue rr)"
proof -
  note w = fa_objects_queueD [OF obj get list.set_intros(1)]
  have pending: "w_future (fa_waiter_objs s ! w) = Pending"
    using fa_objects_queuedD [OF obj w(1,3)] by blast
  have dist: "w \<notin> set queue"
    using fa_queues_queueD(2) [OF que get] by simp
  have other: "w \<notin> set q" if "dict_get (fa_waiters s) u' = Some q" "u' \<noteq> u" for u' q
    using fa_objects_queueD(2) [OF obj that(1), of w] w(2) that(2) by blast
  show ?thesis
  proof (rule fa_objectsI, goal_cases)
    case (1 u' q w')
    then have "u' \<noteq> u \<and> dict_get (fa_waiters s) u' = Some q \<or> u' = u \<and> q = queue \<and> queue \<noteq> []"
      by (auto simp: drain_grant_waiters split: if_splits)
    then have "w' \<noteq> w \<and> w' < length (fa_waiter_objs s) \<and> w_user (fa_waiter_objs s ! w') = u' \<and>
        w_queued (fa_waiter_objs s ! w')"
      using fa_objects_queueD [OF obj _ \<open>w' \<in> set q\<close>, of u'] fa_objects_queueD [OF obj get, of w']
        other dist \<open>w' \<in> set q\<close> by auto
    then show ?case by (simp add: drain_grant_eq [OF w(1) pending])
  next
    case (2 w')
    then have w': "w' \<noteq> w" "w' < length (fa_waiter_objs s)" "w_queued (fa_waiter_objs s ! w')"
      by (cases "w' = w"; simp add: drain_grant_eq [OF w(1) pending] w(1))+
    with obj obtain q where "w_future (fa_waiter_objs s ! w') = Pending"
      and "dict_get (fa_waiters s) (w_user (fa_waiter_objs s ! w')) = Some q" "w' \<in> set q"
      by (blast elim: fa_objects_queuedD)
    with w' show ?case
      using get by (auto simp: drain_grant_eq [OF w(1) pending])
  next
    case (3 w' l)
    then show ?case
      using fa_objects_resultD [OF obj, of w' l] w(2)
      by (cases "w' = w") (auto simp: drain_grant_eq [OF w(1) pending] nth_append)
  qed
qed

text \<open>One pass of the drain loop, with the case split the invariant allows.\<close>

lemma drain_grant_struct:
  assumes "fa_struct s" and "fa_rr s = u # rr" and "dict_get (fa_waiters s) u = Some (w # queue)"
    and "can_grant_locked s u"
  shows "fa_struct (drain_grant s u w queue rr)"
proof -
  have s: "fa_counts s" "fa_queues s" "fa_objects s"
    using assms(1) by (simp_all add: fa_struct_def)
  note w = fa_objects_queueD [OF s(3) assms(3) list.set_intros(1)]
  have pending: "w_future (fa_waiter_objs s ! w) = Pending"
    using fa_objects_queuedD [OF s(3) w(1,3)] by blast
  show ?thesis
    using drain_grant_counts [OF s(1) assms(4) w(1) pending]
      drain_grant_queues [OF s(2) assms(2,3) w(1) pending]
      drain_grant_objects [OF s(3,2) assms(3)]
    by (simp add: fa_struct_def)
qed

lemma fa_counts_frame [simp]:
  "fa_counts (s\<lparr>fa_rr := x\<rparr>) = fa_counts s"
  "fa_counts (s\<lparr>fa_waiters := y\<rparr>) = fa_counts s"
  "fa_counts (s\<lparr>fa_waiter_objs := z\<rparr>) = fa_counts s"
  by (simp_all add: fa_counts_def open_of_def open_all_def)

lemma fa_objects_frame [simp]:
  "fa_objects (s\<lparr>fa_rr := x\<rparr>) = fa_objects s"
  "fa_objects (s\<lparr>fa_active := n\<rparr>) = fa_objects s"
  "fa_objects (s\<lparr>fa_by_user := d\<rparr>) = fa_objects s"
  "fa_objects (s\<lparr>fa_release_tasks := ts\<rparr>) = fa_objects s"
  by (simp_all add: fa_objects_def)

lemma fa_queues_frame [simp]:
  "fa_queues (s\<lparr>fa_active := n\<rparr>) = fa_queues s"
  "fa_queues (s\<lparr>fa_by_user := d\<rparr>) = fa_queues s"
  "fa_queues (s\<lparr>fa_leases := ls\<rparr>) = fa_queues s"
  "fa_queues (s\<lparr>fa_release_tasks := ts\<rparr>) = fa_queues s"
  "fa_queues (s\<lparr>fa_waiter_objs := ws\<rparr>) = fa_queues s"
  by (simp_all add: fa_queues_def fa_waiting_count_def)

lemma rotate_struct: "fa_struct s \<Longrightarrow> fa_rr s = u # rr \<Longrightarrow> fa_struct (s\<lparr>fa_rr := rr @ [u]\<rparr>)"
  by (auto simp: fa_struct_def fa_queues_def fa_waiting_count_def)

lemma fa_rr_has_waiter:
  assumes "fa_queues s" and "u \<in> set (fa_rr s)"
  obtains w queue where "dict_get (fa_waiters s) u = Some (w # queue)"
proof -
  from assms obtain q where q: "dict_get (fa_waiters s) u = Some q"
    unfolding fa_queues_def by (auto simp: dict_keys_iff)
  with fa_queues_queueD(1) [OF assms(1) q] that show thesis by (cases q) auto
qed

lemma drain_loop_correct:
  assumes "fa_struct s" and "b \<le> length (fa_rr s)"
    and "\<forall>u \<in> set (drop (length (fa_rr s) - b) (fa_rr s)). \<not> can_grant_locked s u"
  shows "fa_struct (drain_loop s b) \<and> fa_drained (drain_loop s b)"
  using assms
proof (induction s b rule: drain_loop.induct)
  case (1 s b)
  show ?case
  proof (cases "fa_rr s")
    case Nil
    with "1.prems" show ?thesis by (simp add: drain_loop.simps fa_drained_def)
  next
    case (Cons u rr)
    have queues: "fa_queues s" using "1.prems"(1) by (simp add: fa_struct_def)
    obtain w queue where get: "dict_get (fa_waiters s) u = Some (w # queue)"
      using fa_rr_has_waiter [OF queues, of u] Cons by auto
    consider (stop) "\<not> (fa_active s < fa_max s \<and> b < length (fa_rr s))"
      | (rotate) "fa_active s < fa_max s" "b < length (fa_rr s)" "\<not> can_grant_locked s u"
      | (grant) "fa_active s < fa_max s" "b < length (fa_rr s)" "can_grant_locked s u"
      by blast
    then show ?thesis
    proof cases
      case stop
      then have "fa_drained s"
        using "1.prems"(2,3) Cons by (auto simp: fa_drained_def can_grant_locked_def)
      with stop "1.prems"(1) Cons show ?thesis by (auto simp: drain_loop.simps [of s b])
    next
      case rotate
      let ?s = "s\<lparr>fa_rr := rr @ [u]\<rparr>"
      have "drop (length (fa_rr s) - b) (fa_rr s) = drop (length rr - b) rr"
        using Cons rotate(2) by (simp add: Suc_diff_le)
      moreover have "can_grant_locked ?s v = can_grant_locked s v" for v
        by (simp add: can_grant_locked_def)
      moreover have "length (fa_rr ?s) - Suc b = length rr - b"
        by simp
      ultimately have "\<forall>v \<in> set (drop (length (fa_rr ?s) - Suc b) (fa_rr ?s)). \<not> can_grant_locked ?s v"
        using "1.prems"(3) rotate(3) by auto
      then have "fa_struct (drain_loop ?s (Suc b)) \<and> fa_drained (drain_loop ?s (Suc b))"
        using "1.IH"(3) [OF Cons _ get] rotate Cons rotate_struct [OF "1.prems"(1) Cons] by auto
      with rotate Cons get show ?thesis by (simp add: drain_loop.simps [of s b])
    next
      case grant
      then have "fa_struct (drain_loop (drain_grant s u w queue rr) 0) \<and>
          fa_drained (drain_loop (drain_grant s u w queue rr) 0)"
        using "1.IH"(4) [OF Cons _ get] Cons drain_grant_struct [OF "1.prems"(1) Cons get] by auto
      with grant Cons get show ?thesis by (simp add: drain_loop.simps [of s b])
    qed
  qed
qed

lemma drain_locked_inv: "fa_struct s \<Longrightarrow> fa_inv (drain_locked s)"
  using drain_loop_correct [of s 0] by (simp add: drain_locked_def fa_inv_def fa_drained_def)

section \<open>Every operation keeps the invariant\<close>

lemma fa_new_inv: "fa_initial s \<Longrightarrow> fa_inv s"
  by (auto simp: fa_initial_def fa_new_def fa_inv_def fa_struct_def fa_drained_def fa_counts_def
      fa_queues_def fa_objects_def open_of_def open_all_def fa_waiting_count_def dict_keys_def
      split: if_splits)

lemma grant_locked_counts:
  "fa_counts s \<Longrightarrow> can_grant_locked s u \<Longrightarrow> fa_counts (snd (grant_locked s u))"
  by (auto simp: grant_locked_def fa_counts_def open_of_def open_all_def can_grant_locked_def)

lemma grant_locked_objects: "fa_objects s \<Longrightarrow> fa_objects (snd (grant_locked s u))"
  unfolding grant_locked_def snd_conv
  by (rule fa_objectsI) (auto simp: nth_append dest: fa_objects_queueD elim: fa_objects_queuedD
      dest: fa_objects_resultD)

lemma acquire_immediate_inv:
  assumes "fa_inv s" and "can_grant_locked s u" and "fa_rr s = []"
  shows "fa_inv (snd (grant_locked s u))"
  using assms grant_locked_counts [of s u] grant_locked_objects [of s u]
  by (auto simp: fa_inv_def fa_struct_def fa_drained_def fa_queues_def grant_locked_def fa_waiting_count_def)

definition fa_enqueue :: "uuid \<Rightarrow> fair_admission \<Rightarrow> fair_admission" where
  "fa_enqueue u s =
     s\<lparr>fa_waiter_objs := fa_waiter_objs s @ [\<lparr>w_user = u, w_future = Pending, w_queued = True\<rparr>],
       fa_waiters := dict_set u (dict_get_default (fa_waiters s) u [] @ [length (fa_waiter_objs s)]) (fa_waiters s),
       fa_rr := (if u \<in> set (fa_rr s) then fa_rr s else fa_rr s @ [u])\<rparr>"

lemma fa_acquire_cases:
  assumes "fa_acquire u s = Inr (r, t)"
  obtains (immediate) "can_grant_locked s u" "fa_rr s = []" "r = AcquiredLease (length (fa_leases s))"
      "t = snd (grant_locked s u)"
    | (queued) "\<not> (can_grant_locked s u \<and> fa_rr s = [])"
      "\<And>q. dict_get (fa_waiters s) u = Some q \<Longrightarrow> int (length q) < fa_max_user s"
      "fa_waiting_count s < fa_max s"
      "r = AcquiredWaiter (length (fa_waiter_objs s))" "t = drain_locked (fa_enqueue u s)"
  using assms
  by (auto simp: fa_acquire_def grant_locked_def fa_enqueue_def Let_def not_le split: if_splits option.splits)

lemma fa_enqueue_queues:
  assumes "fa_queues s" and "fa_objects s" and "1 \<le> fa_max_user s"
    and "\<And>q. dict_get (fa_waiters s) u = Some q \<Longrightarrow> int (length q) < fa_max_user s"
    and "fa_waiting_count s < fa_max s"
  shows "fa_queues (fa_enqueue u s)"
proof -
  let ?q = "dict_get_default (fa_waiters s) u []"
  have len: "int (length ?q) < fa_max_user s" "distinct ?q"
    using assms(3,4) fa_queues_queueD(2) [OF assms(1)]
    by (auto simp: dict_get_default_def split: option.splits)
  have fresh: "length (fa_waiter_objs s) \<notin> set ?q"
    using fa_objects_queueD(1) [OF assms(2), of u _ "length (fa_waiter_objs s)"]
    by (cases "dict_get (fa_waiters s) u") (auto simp: dict_get_default_def)
  have "dict_sum length (fa_waiters (fa_enqueue u s)) = Suc (dict_sum length (fa_waiters s))"
  proof (cases "dict_get (fa_waiters s) u")
    case None
    then show ?thesis
      by (simp add: fa_enqueue_def dict_get_default_def dict_sum_set_fresh)
  next
    case (Some q)
    then show ?thesis
      using dict_sum_set_old [OF Some, of length "q @ [length (fa_waiter_objs s)]"]
      by (simp add: fa_enqueue_def dict_get_default_def)
  qed
  then show ?thesis
    using assms(1,5) len fresh
    by (auto simp: fa_queues_def fa_enqueue_def fa_waiting_count_nat)
qed

lemma fa_enqueue_objects:
  assumes "fa_objects s"
  shows "fa_objects (fa_enqueue u s)"
proof (rule fa_objectsI, goal_cases)
  case (1 u' q w)
  show ?case
  proof (cases "dict_get (fa_waiters s) u' = Some q")
    case True
    then show ?thesis
      using fa_objects_queueD [OF assms True \<open>w \<in> set q\<close>] by (simp add: fa_enqueue_def nth_append)
  next
    case False
    with 1 have u: "u' = u" "q = dict_get_default (fa_waiters s) u [] @ [length (fa_waiter_objs s)]"
      by (auto simp: fa_enqueue_def split: if_splits)
    show ?thesis
    proof (cases "w = length (fa_waiter_objs s)")
      case False
      with u 1 obtain q' where q': "dict_get (fa_waiters s) u = Some q'" "w \<in> set q'"
        by (auto simp: dict_get_default_def split: option.splits)
      show ?thesis
        using fa_objects_queueD [OF assms q'] u by (simp add: fa_enqueue_def nth_append)
    qed (use u in \<open>simp add: fa_enqueue_def\<close>)
  qed
next
  case (2 w)
  then show ?case
    by (cases "w < length (fa_waiter_objs s)")
      (auto simp: fa_enqueue_def nth_append dict_get_default_def less_Suc_eq elim!: fa_objects_queuedD [OF assms])
next
  case (3 w l)
  then show ?case
    using fa_objects_resultD [OF assms, of w l]
    by (cases "w < length (fa_waiter_objs s)") (auto simp: fa_enqueue_def nth_append less_Suc_eq)
qed

lemma fa_acquire_inv:
  assumes "fa_inv s" and "fa_acquire u s = Inr (r, t)"
  shows "fa_inv t"
  using assms(2)
proof (cases rule: fa_acquire_cases)
  case immediate
  with assms(1) show ?thesis by (simp add: acquire_immediate_inv)
next
  case queued
  have s: "fa_counts s" "fa_queues s" "fa_objects s"
    using assms(1) by (simp_all add: fa_inv_def fa_struct_def)
  have "fa_counts (fa_enqueue u s)"
    using s(1) by (simp add: fa_enqueue_def)
  moreover have "1 \<le> fa_max_user s" using s(1) by (simp add: fa_counts_def)
  ultimately have "fa_struct (fa_enqueue u s)"
    using fa_enqueue_queues [OF s(2,3) _ queued(2,3)] fa_enqueue_objects [OF s(3)]
    by (simp add: fa_struct_def)
  then show ?thesis unfolding queued(5) by (rule drain_locked_inv)
qed

lemma drain_grant_objs:
  "length (fa_waiter_objs (drain_grant s u w queue rr)) = length (fa_waiter_objs s)"
  "\<not> w_queued (fa_waiter_objs s ! v) \<Longrightarrow> \<not> w_queued (fa_waiter_objs (drain_grant s u w queue rr) ! v)"
proof -
  show "length (fa_waiter_objs (drain_grant s u w queue rr)) = length (fa_waiter_objs s)"
    by (simp add: drain_grant_def grant_locked_def Let_def)
  assume "\<not> w_queued (fa_waiter_objs s ! v)"
  then show "\<not> w_queued (fa_waiter_objs (drain_grant s u w queue rr) ! v)"
    by (cases "v = w \<and> w < length (fa_waiter_objs s)")
      (auto simp: drain_grant_def grant_locked_def Let_def not_less list_update_beyond)
qed

text \<open>A property that each of the loop's three updates keeps holds after the loop.\<close>

lemma drain_loop_preserves:
  assumes "P s"
    and skip: "\<And>s d rr. P s \<Longrightarrow> P (s\<lparr>fa_waiters := d, fa_rr := rr\<rparr>)"
    and rot: "\<And>s rr. P s \<Longrightarrow> P (s\<lparr>fa_rr := rr\<rparr>)"
    and grant: "\<And>s u w queue rr. P s \<Longrightarrow> P (drain_grant s u w queue rr)"
  shows "P (drain_loop s b)"
  using assms(1)
proof (induction s b rule: drain_loop.induct)
  case (1 s b)
  show ?case
  proof (cases "fa_rr s")
    case Nil
    with "1.prems" show ?thesis by (simp add: drain_loop.simps)
  next
    case (Cons u rr)
    show ?thesis
    proof (cases "fa_active s < fa_max s \<and> b < length (fa_rr s)")
      case False
      with Cons "1.prems" show ?thesis by (auto simp: drain_loop.simps [of s b])
    next
      case True
      consider "dict_get (fa_waiters s) u = None" | "dict_get (fa_waiters s) u = Some []"
        | w q where "dict_get (fa_waiters s) u = Some (w # q)"
        by (metis list.exhaust option.exhaust)
      then show ?thesis
        using 1(1-4) [OF Cons True] "1.prems" Cons True
        by cases (auto simp: drain_loop.simps [of s b] skip rot grant)
    qed
  qed
qed

lemma drain_loop_objs:
  "length (fa_waiter_objs (drain_loop s b)) = length (fa_waiter_objs s) \<and>
   (\<not> w_queued (fa_waiter_objs s ! v) \<longrightarrow> \<not> w_queued (fa_waiter_objs (drain_loop s b) ! v))"
  by (rule drain_loop_preserves) (simp_all add: drain_grant_objs)

lemma drain_locked_objs:
  "length (fa_waiter_objs (drain_locked s)) = length (fa_waiter_objs s)"
  "\<not> w_queued (fa_waiter_objs s ! v) \<Longrightarrow> \<not> w_queued (fa_waiter_objs (drain_locked s) ! v)"
  using drain_loop_objs [of s 0 v] by (auto simp: drain_locked_def)

lemma fa_remove_waiter_queues:
  assumes que: "fa_queues s" and get: "dict_get (fa_waiters s) u = Some q" and w: "w \<in> set q"
    and u: "w_user (fa_waiter_objs s ! w) = u"
  shows "fa_queues (fa_remove_waiter w s)"
proof -
  note q = fa_queues_queueD [OF que get]
  have wf: "dict_wf (fa_waiters s)" "distinct (fa_rr s)" "set (fa_rr s) = set (dict_keys (fa_waiters s))"
    "fa_waiting_count s \<le> fa_max s"
    using que by (simp_all add: fa_queues_def)
  have others: "q' \<noteq> [] \<and> distinct q' \<and> int (length q') \<le> fa_max_user s"
    if "dict_get (fa_waiters s) u' = Some q'" for u' q'
    using fa_queues_queueD [OF que that] by simp
  show ?thesis
  proof (cases "remove1 w q = []")
    case True
    moreover have "dict_sum length (dict_del u (fa_waiters s)) \<le> dict_sum length (fa_waiters s)"
      by (rule dict_sum_del_le)
    ultimately show ?thesis
      using wf others u get
      by (auto simp: fa_remove_waiter_def Let_def fa_queues_def fa_waiting_count_nat)
  next
    case False
    have "dict_sum length (dict_set u (remove1 w q) (fa_waiters s)) \<le> dict_sum length (fa_waiters s)"
      using dict_sum_set_old [OF get, of length "remove1 w q"] w by (simp add: length_remove1)
    moreover have "u \<in> set (dict_keys (fa_waiters s))"
      using get by (simp add: dict_keys_iff)
    moreover have "int (length (remove1 w q)) \<le> fa_max_user s"
      using q(3) w by (simp add: length_remove1)
    ultimately show ?thesis
      using False wf others u get q(2)
      by (auto simp: fa_remove_waiter_def Let_def fa_queues_def fa_waiting_count_nat)
  qed
qed

lemma fa_remove_waiter_objs:
  "fa_waiter_objs (fa_remove_waiter w s) =
     (fa_waiter_objs s)[w := (fa_waiter_objs s ! w)\<lparr>w_queued := False\<rparr>]"
  "fa_leases (fa_remove_waiter w s) = fa_leases s"
  by (simp_all add: fa_remove_waiter_def Let_def split: option.split)

lemma fa_remove_waiter_get:
  assumes "dict_get (fa_waiters s) (w_user (fa_waiter_objs s ! w)) = Some q"
  shows "dict_get (fa_waiters (fa_remove_waiter w s)) u' =
    (if u' = w_user (fa_waiter_objs s ! w)
     then (if remove1 w q = [] then None else Some (remove1 w q)) else dict_get (fa_waiters s) u')"
  using assms by (simp add: fa_remove_waiter_def Let_def)

lemma fa_remove_waiter_objects:
  assumes obj: "fa_objects s" and que: "fa_queues s" and len: "w < length (fa_waiter_objs s)"
    and get: "dict_get (fa_waiters s) (w_user (fa_waiter_objs s ! w)) = Some q"
  shows "fa_objects (fa_remove_waiter w s)"
proof (rule fa_objectsI, goal_cases)
  case (1 u' q' w')
  have dist: "distinct q" by (rule fa_queues_queueD(2) [OF que get])
  from 1 obtain q'' where "dict_get (fa_waiters s) u' = Some q''" "w' \<in> set q''" "w' \<noteq> w"
    using dist get fa_objects_queueD(2) [OF obj, of u' q' w']
    by (auto simp: fa_remove_waiter_get [OF get] split: if_splits)
  then show ?case
    using fa_objects_queueD [OF obj, of u' q'' w'] by (simp add: fa_remove_waiter_objs)
next
  case (2 w')
  then have w': "w' \<noteq> w" "w' < length (fa_waiter_objs s)" "w_queued (fa_waiter_objs s ! w')"
    using len by (cases "w' = w"; simp add: fa_remove_waiter_objs)+
  with obj obtain q' where q': "w_future (fa_waiter_objs s ! w') = Pending"
    "dict_get (fa_waiters s) (w_user (fa_waiter_objs s ! w')) = Some q'" "w' \<in> set q'"
    by (blast elim: fa_objects_queuedD)
  have "w' \<in> set (remove1 w q)" if "w_user (fa_waiter_objs s ! w') = w_user (fa_waiter_objs s ! w)"
    using that q' get w'(1) by (simp add: in_set_remove1)
  then have "remove1 w q \<noteq> []" if "w_user (fa_waiter_objs s ! w') = w_user (fa_waiter_objs s ! w)"
    using that by fastforce
  with q' w' get show ?case
    by (auto simp: fa_remove_waiter_objs fa_remove_waiter_get [OF get] in_set_remove1)
next
  case (3 w' l)
  then show ?case
    using fa_objects_resultD [OF obj, of w' l] len
    by (cases "w' = w") (auto simp: fa_remove_waiter_objs)
qed

lemma fa_remove_waiter_struct:
  assumes "fa_struct s" and "w < length (fa_waiter_objs s)" and "w_queued (fa_waiter_objs s ! w)"
  shows "fa_struct (fa_remove_waiter w s)"
proof -
  have s: "fa_counts s" "fa_queues s" "fa_objects s"
    using assms(1) by (simp_all add: fa_struct_def)
  obtain q where q: "dict_get (fa_waiters s) (w_user (fa_waiter_objs s ! w)) = Some q" "w \<in> set q"
    using fa_objects_queuedD [OF s(3) assms(2,3)] by blast
  have "fa_counts (fa_remove_waiter w s)"
    using s(1) by (simp add: fa_remove_waiter_def Let_def split: option.split)
  then show ?thesis
    using fa_remove_waiter_queues [OF s(2) q refl] fa_remove_waiter_objects [OF s(3,2) assms(2) q(1)]
    by (simp add: fa_struct_def)
qed

lemma lease_aclose_inv:
  assumes "fa_inv s" and "l < length (fa_leases s)"
  shows "fa_inv (lease_aclose l s)"
proof (cases "lease_closed (fa_leases s ! l)")
  case True
  with assms(1) show ?thesis by (simp add: lease_aclose_def)
next
  case False
  let ?l = "(fa_leases s ! l)\<lparr>lease_closed := True\<rparr>"
  have all: "Suc (length (filter (\<lambda>l. \<not> lease_closed l) ((fa_leases s)[l := ?l]))) = open_all s"
    using length_filter_update [OF assms(2), of "\<lambda>l. \<not> lease_closed l" ?l] False
    by (simp add: open_all_def)
  have of: "length (filter (\<lambda>l. lease_user l = u \<and> \<not> lease_closed l) ((fa_leases s)[l := ?l])) +
      (if u = lease_user (fa_leases s ! l) then 1 else 0) = open_of s u" for u
    using length_filter_update [OF assms(2), of "\<lambda>l. lease_user l = u \<and> \<not> lease_closed l" ?l] False
    by (auto simp: open_of_def split: if_splits)
  have open_of': "int (open_of (lease_aclose l s) u) + (if u = lease_user (fa_leases s ! l) then 1 else 0) =
      int (open_of s u)" for u
    using of [of u] False by (simp add: open_of_def lease_aclose_def split: if_splits)
  have open_all': "int (open_all (lease_aclose l s)) + 1 = int (open_all s)"
    using all False by (simp add: open_all_def lease_aclose_def)
  have counts: "fa_counts s" using assms(1) by (simp add: fa_inv_def fa_struct_def)
  have "fa_counts (lease_aclose l s)"
    unfolding fa_counts_def
  proof (intro conjI allI)
    fix u
    show "dict_get_default (fa_by_user (lease_aclose l s)) u 0 = int (open_of (lease_aclose l s) u) +
        int (count_list (fa_release_tasks (lease_aclose l s)) u)"
      using fa_countsD(5) [OF counts, of u] open_of' [of u] False
      by (simp add: lease_aclose_def split: if_splits)
  qed (use counts open_all' False in \<open>auto simp: fa_counts_def lease_aclose_def\<close>)
  moreover have "fa_objects (lease_aclose l s)"
    using assms False by (auto simp: lease_aclose_def fa_inv_def fa_struct_def fa_objects_def nth_list_update)
  ultimately show ?thesis
    using assms(1) False
    by (simp add: fa_inv_def fa_struct_def fa_drained_def can_grant_locked_def lease_aclose_def)
qed

lemma cancel_future_inv:
  assumes "fa_inv s" and "w < length (fa_waiter_objs s)" and "\<not> w_queued (fa_waiter_objs s ! w)"
  shows "fa_inv (s\<lparr>fa_waiter_objs :=
    (fa_waiter_objs s)[w := (fa_waiter_objs s ! w)\<lparr>w_future := Cancelled\<rparr>]\<rparr>)" (is "fa_inv ?t")
proof -
  have obj: "fa_objects s" using assms(1) by (simp add: fa_inv_def fa_struct_def)
  have notin: "w \<notin> set q" if "dict_get (fa_waiters s) u = Some q" for u q
    using fa_objects_queueD(3) [OF obj that, of w] assms(3) by blast
  have "fa_objects ?t"
  proof (rule fa_objectsI, goal_cases)
    case (1 u q w')
    then show ?case
      using notin [of u q] fa_objects_queueD [OF obj, of u q w'] by (cases "w' = w") auto
  next
    case (2 w')
    then show ?case
      using assms(2,3) fa_objects_queuedD [OF obj, of w'] by (cases "w' = w") auto
  next
    case (3 w' l)
    then show ?case
      using assms(2) fa_objects_resultD [OF obj, of w' l] by (cases "w' = w") auto
  qed
  then show ?thesis
    using assms(1) by (simp add: fa_inv_def fa_struct_def fa_drained_def can_grant_locked_def)
qed

lemma fa_cleanup_locked_inv:
  assumes "fa_inv s" and "w < length (fa_waiter_objs s)" and "fa_cleanup_locked w s = (r, t)"
  shows "fa_inv t" and "\<And>l. r = Some l \<Longrightarrow> l < length (fa_leases t)"
proof -
  define s1 where
    "s1 = (if w_queued (fa_waiter_objs s ! w) then drain_locked (fa_remove_waiter w s) else s)"
  have s1: "fa_inv s1" "w < length (fa_waiter_objs s1)" "\<not> w_queued (fa_waiter_objs s1 ! w)"
    using assms(1,2) fa_remove_waiter_struct [of s w]
    by (auto simp: s1_def drain_locked_inv drain_locked_objs fa_remove_waiter_objs fa_inv_struct)
  have t: "(r, t) = (case w_future (fa_waiter_objs s1 ! w) of
      Result lease \<Rightarrow> (Some lease, s1)
    | Pending \<Rightarrow> (None, s1\<lparr>fa_waiter_objs :=
          (fa_waiter_objs s1)[w := (fa_waiter_objs s1 ! w)\<lparr>w_future := Cancelled\<rparr>]\<rparr>)
    | _ \<Rightarrow> (None, s1))"
    using assms(3) unfolding fa_cleanup_locked_def s1_def [symmetric] Let_def by (rule sym)
  from t show "fa_inv t"
    using s1 cancel_future_inv [OF s1] by (auto split: py_future.splits)
  have "fa_objects s1" using s1(1) by (simp add: fa_inv_def fa_struct_def)
  with t show "l < length (fa_leases t)" if "r = Some l" for l
    using that s1(2) by (auto split: py_future.splits dest: fa_objects_resultD)
qed

lemma fa_cleanup_waiter_inv:
  assumes "fa_inv s" and "w < length (fa_waiter_objs s)"
  shows "fa_inv (fa_cleanup_waiter w s)"
proof -
  obtain r t where rt: "fa_cleanup_locked w s = (r, t)" by (cases "fa_cleanup_locked w s")
  show ?thesis
    using fa_cleanup_locked_inv [OF assms rt]
    by (cases r) (simp_all add: fa_cleanup_waiter_def rt lease_aclose_inv)
qed

definition fa_release_counts :: "uuid \<Rightarrow> fair_admission \<Rightarrow> fair_admission" where
  "fa_release_counts u s =
     (let current = dict_get_default (fa_by_user s) u 0 in
      s\<lparr>fa_active := max 0 (fa_active s - 1),
        fa_by_user := (if current \<le> 1 then dict_del u (fa_by_user s)
                       else dict_set u (current - 1) (fa_by_user s))\<rparr>)"

lemma fa_release_eq: "fa_release u s = drain_locked (fa_release_counts u s)"
  by (simp add: fa_release_def fa_release_counts_def Let_def)

lemma fa_release_counts_struct:
  assumes "fa_struct s" and "u \<in> set (fa_release_tasks s)"
  shows "fa_struct (fa_release_counts u (s\<lparr>fa_release_tasks := remove1 u (fa_release_tasks s)\<rparr>))"
    (is "fa_struct ?t")
proof -
  have counts: "fa_counts s" using assms(1) by (simp add: fa_struct_def)
  have len: "Suc (length (remove1 u (fa_release_tasks s))) = length (fa_release_tasks s)"
    using assms(2) length_pos_if_in_set [OF assms(2)] by (simp add: length_remove1)
  have opens: "open_of ?t v = open_of s v" "open_all ?t = open_all s" for v
    by (simp_all add: open_of_def open_all_def fa_release_counts_def Let_def)
  have cnt: "count_list (remove1 u (fa_release_tasks s)) v + (if v = u then 1 else 0) =
      count_list (fa_release_tasks s) v" for v
    using assms(2) by (rule count_list_remove1)
  have by_user: "dict_get_default (fa_by_user ?t) v 0 = int (open_of ?t v) +
      int (count_list (fa_release_tasks ?t) v)" for v
  proof -
    show ?thesis
      using fa_countsD(5) [OF counts, of v] cnt [of v] by (auto simp: opens fa_release_counts_def Let_def split: if_splits)
  qed
  have bound: "dict_get_default (fa_by_user ?t) v 0 \<le> fa_max_user ?t" for v
  proof -
    show ?thesis using fa_countsD(1) [OF counts] fa_countsD(6) [OF counts, of v] by (auto simp: fa_release_counts_def Let_def)
  qed
  have "fa_counts ?t"
    unfolding fa_counts_def
    using counts len by_user bound by (auto simp: opens fa_counts_def fa_release_counts_def Let_def)
  then show ?thesis
    using assms(1) by (simp add: fa_struct_def fa_release_counts_def Let_def)
qed

lemma fa_run_release_inv:
  assumes "fa_inv s" and "u \<in> set (fa_release_tasks s)"
  shows "fa_inv (fa_run_release u s)"
  using assms fa_release_counts_struct [of s u]
  by (simp add: fa_run_release_def fa_release_eq drain_locked_inv fa_inv_struct)

lemma fa_step_inv: "fa_inv s \<Longrightarrow> fa_step s t \<Longrightarrow> fa_inv t"
  by (erule fa_step.cases)
    (auto simp: fa_acquire_inv fa_cleanup_waiter_inv lease_aclose_inv fa_run_release_inv)

interpretation fa_machine: inductive_invariant fa_initial fa_step fa_inv
  by unfold_locales (auto intro: fa_new_inv fa_step_inv)

section \<open>No waiter is forgotten\<close>

text \<open>Every waiter but possibly \<open>x\<close> is still queued or its future is completed.\<close>

definition fa_no_orphan :: "nat option \<Rightarrow> fair_admission \<Rightarrow> bool" where
  "fa_no_orphan x s \<longleftrightarrow> (\<forall>w < length (fa_waiter_objs s). Some w \<noteq> x \<longrightarrow>
     w_queued (fa_waiter_objs s ! w) \<or> future_done (w_future (fa_waiter_objs s ! w)))"

lemma drain_grant_no_orphan: "fa_no_orphan x s \<Longrightarrow> fa_no_orphan x (drain_grant s u w queue rr)"
  by (auto simp: fa_no_orphan_def drain_grant_def grant_locked_def Let_def nth_list_update_if future_done_def)

lemma drain_locked_no_orphan: "fa_no_orphan x s \<Longrightarrow> fa_no_orphan x (drain_locked s)"
proof -
  assume "fa_no_orphan x s"
  then have "fa_no_orphan x (drain_loop s 0)"
    by (rule drain_loop_preserves) (simp_all add: drain_grant_no_orphan, simp_all add: fa_no_orphan_def)
  with \<open>fa_no_orphan x s\<close> show ?thesis by (simp add: drain_locked_def)
qed

lemma fa_remove_waiter_no_orphan:
  "fa_no_orphan None s \<Longrightarrow> fa_no_orphan (Some w) (fa_remove_waiter w s)"
  by (auto simp: fa_no_orphan_def fa_remove_waiter_objs)

lemma fa_cleanup_waiter_no_orphan:
  assumes "fa_no_orphan None s" and "w < length (fa_waiter_objs s)"
  shows "fa_no_orphan None (fa_cleanup_waiter w s)"
proof -
  define s1 where
    "s1 = (if w_queued (fa_waiter_objs s ! w) then drain_locked (fa_remove_waiter w s) else s)"
  have "fa_no_orphan (Some w) s1"
    using assms fa_remove_waiter_no_orphan drain_locked_no_orphan
    by (auto simp: s1_def) (auto simp: fa_no_orphan_def)
  then show ?thesis
    unfolding fa_cleanup_waiter_def fa_cleanup_locked_def s1_def [symmetric] Let_def
    by (cases "w_future (fa_waiter_objs s1 ! w)")
      (auto simp: fa_no_orphan_def lease_aclose_def nth_list_update_if future_done_def)
qed

lemma fa_step_no_orphan: "fa_no_orphan None s \<Longrightarrow> fa_step s t \<Longrightarrow> fa_no_orphan None t"
proof (erule fa_step.cases, goal_cases)
  case (1 u s' r t')
  then have "fa_acquire u s = Inr (r, t)" by simp
  then show ?case
  proof (cases rule: fa_acquire_cases)
    case queued
    have "fa_no_orphan None (fa_enqueue u s)"
      using 1 by (auto simp: fa_no_orphan_def fa_enqueue_def nth_append)
    with queued show ?thesis by (simp add: drain_locked_no_orphan)
  qed (use 1 in \<open>simp add: fa_no_orphan_def grant_locked_def\<close>)
next
  case (5 u s')
  then show ?case
    by (auto simp: fa_run_release_def fa_release_eq intro!: drain_locked_no_orphan)
      (simp add: fa_no_orphan_def fa_release_counts_def Let_def)
next
  case (4 l s')
  then show ?case by (auto simp: fa_no_orphan_def lease_aclose_def)
qed (auto simp: fa_cleanup_waiter_no_orphan)

lemma fa_new_no_orphan: "fa_initial s \<Longrightarrow> fa_no_orphan None s"
  by (auto simp: fa_initial_def fa_new_def fa_no_orphan_def split: if_splits)

interpretation fa_waiters_kept: inductive_invariant fa_initial fa_step "fa_no_orphan None"
  by unfold_locales (auto intro: fa_step_no_orphan fa_new_no_orphan)

section \<open>Properties\<close>

text \<open>
  C1. In every reachable state the transfer counters are exact and bounded: the number of
  active slots is the number of open leases plus the releases under way, it never exceeds the
  global limit, and the same holds per user with the per-user limit. So no lease is lost and
  no slot is counted twice, whatever the order of acquires, timeouts, cancellations, closes
  and releases.
\<close>

theorem fair_admission_capacity:
  assumes "fa_reachable s"
  shows "fa_active s = int (open_all s) + int (length (fa_release_tasks s)) \<and>
    0 \<le> fa_active s \<and> fa_active s \<le> fa_max s \<and>
    (\<forall>u. dict_get_default (fa_by_user s) u 0 =
         int (open_of s u) + int (count_list (fa_release_tasks s) u)) \<and>
    (\<forall>u. dict_get_default (fa_by_user s) u 0 \<le> fa_max_user s)"
proof -
  have "fa_counts s"
    using fa_machine.inv_reachable [OF assms] by (simp add: fa_inv_def fa_struct_def)
  note fa_countsD [OF this]
  then show ?thesis by fastforce
qed

text \<open>
  A concrete run: one slot, user 5 holds it, user 6 waits. It instantiates the properties.
\<close>

definition fa_demo :: fair_admission where
  "fa_demo = \<lparr>fa_max = 1, fa_max_user = 1, fa_timeout = 1000, fa_active = 1, fa_by_user = [(5, 1)],
     fa_waiters = [(6, [0])], fa_rr = [6],
     fa_waiter_objs = [\<lparr>w_user = 6, w_future = Pending, w_queued = True\<rparr>],
     fa_leases = [\<lparr>lease_user = 5, lease_closed = False\<rparr>], fa_release_tasks = []\<rparr>"

lemma fa_demo_reachable: "fa_reachable fa_demo"
proof -
  let ?s0 = "\<lparr>fa_max = 1, fa_max_user = 1, fa_timeout = 1000, fa_active = 0, fa_by_user = [],
     fa_waiters = [], fa_rr = [], fa_waiter_objs = [], fa_leases = [], fa_release_tasks = []\<rparr>"
  let ?s1 = "?s0\<lparr>fa_active := 1, fa_by_user := [(5, 1)],
     fa_leases := [\<lparr>lease_user = 5, lease_closed = False\<rparr>]\<rparr>"
  have "fa_new 1 1 1000 = Inr ?s0" by (simp add: fa_new_def)
  then have "fa_reachable ?s0" by (intro reach_start) (auto simp: fa_initial_def)
  moreover have "fa_acquire 5 ?s0 = Inr (AcquiredLease 0, ?s1)"
    by (simp add: fa_acquire_def can_grant_locked_def grant_locked_def dict_set_def)
  ultimately have "fa_reachable ?s1" by (blast intro: reach_step fa_acquire_ok)
  moreover have "fa_acquire 6 ?s1 = Inr (AcquiredWaiter 0, fa_demo)"
    by (simp add: fa_acquire_def can_grant_locked_def drain_locked_def drain_loop.simps
        fa_waiting_count_def dict_set_def fa_demo_def)
  ultimately show ?thesis by (blast intro: reach_step fa_acquire_ok)
qed

theorem fair_admission_capacity_witness:
  "fa_active fa_demo = int (open_all fa_demo) \<and> fa_active fa_demo = 1 \<and> fa_active fa_demo \<le> fa_max fa_demo \<and>
   dict_get_default (fa_by_user fa_demo) 5 0 = int (open_of fa_demo 5)"
  using fair_admission_capacity [OF fa_demo_reachable] by (simp add: fa_demo_def)

text \<open>
  C2. Admission is work-conserving and no waiter is forgotten: in every reachable state a
  waiter that is still queued belongs to a user who cannot be granted a slot right now and
  stands in that user's queue, and a waiter that is no longer queued has a completed future.
  The waiting line is bounded by the same limits as the slots.
\<close>

theorem fair_admission_work_conserving:
  assumes "fa_reachable s" and "w < length (fa_waiter_objs s)"
  shows "fa_waiting_count s \<le> fa_max s \<and>
    (if w_queued (fa_waiter_objs s ! w)
     then \<not> can_grant_locked s (w_user (fa_waiter_objs s ! w)) \<and>
       w_future (fa_waiter_objs s ! w) = Pending \<and>
       w \<in> set (dict_get_default (fa_waiters s) (w_user (fa_waiter_objs s ! w)) [])
     else future_done (w_future (fa_waiter_objs s ! w)))"
proof -
  have inv: "fa_inv s" by (rule fa_machine.inv_reachable [OF assms(1)])
  have parts: "fa_objects s" "fa_queues s" "fa_drained s"
    using inv by (simp_all add: fa_inv_def fa_struct_def)
  have count: "fa_waiting_count s \<le> fa_max s" using parts(2) by (simp add: fa_queues_def)
  show ?thesis
  proof (cases "w_queued (fa_waiter_objs s ! w)")
    case True
    then obtain q where q: "w_future (fa_waiter_objs s ! w) = Pending" "w \<in> set q"
      "dict_get (fa_waiters s) (w_user (fa_waiter_objs s ! w)) = Some q"
      using fa_objects_queuedD [OF parts(1) assms(2)] by blast
    then have "w_user (fa_waiter_objs s ! w) \<in> set (fa_rr s)"
      using parts(2) by (simp add: fa_queues_def dict_keys_iff)
    with parts(3) True q count show ?thesis by (simp add: fa_drained_def dict_get_default_def)
  next
    case False
    with fa_waiters_kept.inv_reachable [OF assms(1)] assms(2) count show ?thesis
      by (auto simp: fa_no_orphan_def)
  qed
qed

theorem fair_admission_work_conserving_witness:
  "w_queued (fa_waiter_objs fa_demo ! 0) \<and> \<not> can_grant_locked fa_demo 6 \<and>
   w_future (fa_waiter_objs fa_demo ! 0) = Pending \<and> fa_waiting_count fa_demo \<le> 1"
  using fair_admission_work_conserving [OF fa_demo_reachable, of 0]
  by (simp add: fa_demo_def)

end
