(* ===== verification/Error_Codes.thy ===== *)
theory Error_Codes
  imports Octo_Prelude
begin

text \<open>
  The error vocabulary of the server: \<open>errors/codes.py\<close>, \<open>errors/exceptions.py\<close> and the HTTP
  mapping of \<open>errors/http.py\<close>. \<open>ErrorCode\<close> is a \<open>StrEnum\<close>, so a member is its string value;
  \<open>error_code_members\<close> lists the members in the order of the source, and each member has an
  abbreviation of the same name. The exceptions of the tools carry a code and a message; the
  components keep the code, which is what callers branch on.
\<close>

section \<open>\<open>ErrorCode\<close>\<close>

datatype error_code = ErrorCode string

fun error_value :: "error_code \<Rightarrow> string" where
  "error_value (ErrorCode v) = v"

abbreviation DEVICE_NOT_FOUND :: error_code where "DEVICE_NOT_FOUND \<equiv> ErrorCode ''device_not_found''"
abbreviation DEVICE_INVALID_REQUEST :: error_code where "DEVICE_INVALID_REQUEST \<equiv> ErrorCode ''device_invalid_request''"
abbreviation DEVICE_NAME_TAKEN :: error_code where "DEVICE_NAME_TAKEN \<equiv> ErrorCode ''device_name_taken''"
abbreviation DEVICE_CONFIG_CONFLICT :: error_code where "DEVICE_CONFIG_CONFLICT \<equiv> ErrorCode ''device_config_conflict''"
abbreviation DEVICE_OFFLINE :: error_code where "DEVICE_OFFLINE \<equiv> ErrorCode ''device_offline''"
abbreviation WORKSPACE_NOT_FOUND :: error_code where "WORKSPACE_NOT_FOUND \<equiv> ErrorCode ''workspace_not_found''"
abbreviation WORKSPACE_PERMISSION_DENIED :: error_code where "WORKSPACE_PERMISSION_DENIED \<equiv> ErrorCode ''workspace_permission_denied''"
abbreviation WORKSPACE_SYMLINK_ESCAPE :: error_code where "WORKSPACE_SYMLINK_ESCAPE \<equiv> ErrorCode ''workspace_symlink_escape''"
abbreviation WORKSPACE_SOFT_LOCKED :: error_code where "WORKSPACE_SOFT_LOCKED \<equiv> ErrorCode ''workspace_soft_locked''"
abbreviation WORKSPACE_UPLOAD_TOO_LARGE :: error_code where "WORKSPACE_UPLOAD_TOO_LARGE \<equiv> ErrorCode ''workspace_upload_too_large''"
abbreviation WORKSPACE_QUOTA_EXCEEDED :: error_code where "WORKSPACE_QUOTA_EXCEEDED \<equiv> ErrorCode ''workspace_quota_exceeded''"
abbreviation WORKSPACE_INVALID_SKILL_FORMAT :: error_code where "WORKSPACE_INVALID_SKILL_FORMAT \<equiv> ErrorCode ''workspace_invalid_skill_format''"
abbreviation WORKSPACE_BLOCKED_PATH :: error_code where "WORKSPACE_BLOCKED_PATH \<equiv> ErrorCode ''workspace_blocked_path''"
abbreviation WORKSPACE_FILE_TOO_LARGE_TO_EDIT :: error_code where "WORKSPACE_FILE_TOO_LARGE_TO_EDIT \<equiv> ErrorCode ''workspace_file_too_large_to_edit''"
abbreviation WORKSPACE_DIRECTORY_TOO_LARGE :: error_code where "WORKSPACE_DIRECTORY_TOO_LARGE \<equiv> ErrorCode ''workspace_directory_too_large''"
abbreviation WORKSPACE_FILE_CHANGED :: error_code where "WORKSPACE_FILE_CHANGED \<equiv> ErrorCode ''workspace_file_changed''"
abbreviation WORKSPACE_STORAGE_UNAVAILABLE :: error_code where "WORKSPACE_STORAGE_UNAVAILABLE \<equiv> ErrorCode ''workspace_storage_unavailable''"
abbreviation WORKSPACE_STORAGE_ERROR :: error_code where "WORKSPACE_STORAGE_ERROR \<equiv> ErrorCode ''workspace_storage_error''"
abbreviation WORKSPACE_TRANSFER_BUSY :: error_code where "WORKSPACE_TRANSFER_BUSY \<equiv> ErrorCode ''workspace_transfer_busy''"
abbreviation WORKSPACE_TRANSFER_TIMEOUT :: error_code where "WORKSPACE_TRANSFER_TIMEOUT \<equiv> ErrorCode ''workspace_transfer_timeout''"
abbreviation WORKSPACE_TRANSFER_INTEGRITY_FAILED :: error_code where "WORKSPACE_TRANSFER_INTEGRITY_FAILED \<equiv> ErrorCode ''workspace_transfer_integrity_failed''"
abbreviation WORKSPACE_INVALID_REQUEST :: error_code where "WORKSPACE_INVALID_REQUEST \<equiv> ErrorCode ''workspace_invalid_request''"
abbreviation WORKSPACE_REF_CONFLICT :: error_code where "WORKSPACE_REF_CONFLICT \<equiv> ErrorCode ''workspace_ref_conflict''"
abbreviation TOOL_AMBIGUOUS_EDIT :: error_code where "TOOL_AMBIGUOUS_EDIT \<equiv> ErrorCode ''tool_ambiguous_edit''"
abbreviation TOOL_NO_MATCH :: error_code where "TOOL_NO_MATCH \<equiv> ErrorCode ''tool_no_match''"
abbreviation TOOL_IS_DIRECTORY :: error_code where "TOOL_IS_DIRECTORY \<equiv> ErrorCode ''tool_is_directory''"
abbreviation TOOL_IS_FILE :: error_code where "TOOL_IS_FILE \<equiv> ErrorCode ''tool_is_file''"
abbreviation TOOL_NOT_A_DIRECTORY :: error_code where "TOOL_NOT_A_DIRECTORY \<equiv> ErrorCode ''tool_not_a_directory''"
abbreviation TOOL_INVALID_NOTEBOOK :: error_code where "TOOL_INVALID_NOTEBOOK \<equiv> ErrorCode ''tool_invalid_notebook''"
abbreviation TOOL_CELL_INDEX_OUT_OF_RANGE :: error_code where "TOOL_CELL_INDEX_OUT_OF_RANGE \<equiv> ErrorCode ''tool_cell_index_out_of_range''"
abbreviation TOOL_INVALID_ARGS :: error_code where "TOOL_INVALID_ARGS \<equiv> ErrorCode ''tool_invalid_args''"
abbreviation TOOL_NOT_ALLOWED :: error_code where "TOOL_NOT_ALLOWED \<equiv> ErrorCode ''tool_not_allowed''"
abbreviation TOOL_INVALID_REGEX :: error_code where "TOOL_INVALID_REGEX \<equiv> ErrorCode ''tool_invalid_regex''"
abbreviation TOOL_INVALID_GLOB :: error_code where "TOOL_INVALID_GLOB \<equiv> ErrorCode ''tool_invalid_glob''"
abbreviation TOOL_EXEC_TIMEOUT :: error_code where "TOOL_EXEC_TIMEOUT \<equiv> ErrorCode ''tool_exec_timeout''"
abbreviation TOOL_EXEC_FAILED :: error_code where "TOOL_EXEC_FAILED \<equiv> ErrorCode ''tool_exec_failed''"
abbreviation TOOL_EXEC_SESSION_NOT_FOUND :: error_code where "TOOL_EXEC_SESSION_NOT_FOUND \<equiv> ErrorCode ''tool_exec_session_not_found''"
abbreviation TOOL_EXEC_STDIN_CLOSED :: error_code where "TOOL_EXEC_STDIN_CLOSED \<equiv> ErrorCode ''tool_exec_stdin_closed''"
abbreviation TOOL_EXEC_INTERRUPT_FAILED :: error_code where "TOOL_EXEC_INTERRUPT_FAILED \<equiv> ErrorCode ''tool_exec_interrupt_failed''"
abbreviation TOOL_SHELL_UNAVAILABLE :: error_code where "TOOL_SHELL_UNAVAILABLE \<equiv> ErrorCode ''tool_shell_unavailable''"
abbreviation TOOL_PTY_UNAVAILABLE :: error_code where "TOOL_PTY_UNAVAILABLE \<equiv> ErrorCode ''tool_pty_unavailable''"
abbreviation TOOL_SHELL_LOGIN_UNSUPPORTED :: error_code where "TOOL_SHELL_LOGIN_UNSUPPORTED \<equiv> ErrorCode ''tool_shell_login_unsupported''"
abbreviation TOOL_CLIENT_SHUTTING_DOWN :: error_code where "TOOL_CLIENT_SHUTTING_DOWN \<equiv> ErrorCode ''tool_client_shutting_down''"
abbreviation TOOL_CONTENT_CONVERSION_BUSY :: error_code where "TOOL_CONTENT_CONVERSION_BUSY \<equiv> ErrorCode ''tool_content_conversion_busy''"
abbreviation TOOL_CONTENT_CONVERSION_RESOURCE_EXCEEDED :: error_code where "TOOL_CONTENT_CONVERSION_RESOURCE_EXCEEDED \<equiv> ErrorCode ''tool_content_conversion_resource_exceeded''"
abbreviation TOOL_CONTENT_CONVERSION_FAILED :: error_code where "TOOL_CONTENT_CONVERSION_FAILED \<equiv> ErrorCode ''tool_content_conversion_failed''"
abbreviation TOOL_COMMAND_DENIED :: error_code where "TOOL_COMMAND_DENIED \<equiv> ErrorCode ''tool_command_denied''"
abbreviation TOOL_ENV_NOT_ALLOWED :: error_code where "TOOL_ENV_NOT_ALLOWED \<equiv> ErrorCode ''tool_env_not_allowed''"
abbreviation TOOL_CWD_OUTSIDE_WORKSPACE :: error_code where "TOOL_CWD_OUTSIDE_WORKSPACE \<equiv> ErrorCode ''tool_cwd_outside_workspace''"
abbreviation TOOL_PATH_OUTSIDE_WORKSPACE :: error_code where "TOOL_PATH_OUTSIDE_WORKSPACE \<equiv> ErrorCode ''tool_path_outside_workspace''"
abbreviation TOOL_DEVICE_UNREACHABLE :: error_code where "TOOL_DEVICE_UNREACHABLE \<equiv> ErrorCode ''tool_device_unreachable''"
abbreviation TOOL_DEVICE_BUSY :: error_code where "TOOL_DEVICE_BUSY \<equiv> ErrorCode ''tool_device_busy''"
abbreviation TOOL_EXECUTION_OUTCOME_UNKNOWN :: error_code where "TOOL_EXECUTION_OUTCOME_UNKNOWN \<equiv> ErrorCode ''tool_execution_outcome_unknown''"
abbreviation TOOL_CHANNEL_NOT_CONFIGURED :: error_code where "TOOL_CHANNEL_NOT_CONFIGURED \<equiv> ErrorCode ''tool_channel_not_configured''"
abbreviation TOOL_CHANNEL_RETRY_REQUIRES_NEW_TURN :: error_code where "TOOL_CHANNEL_RETRY_REQUIRES_NEW_TURN \<equiv> ErrorCode ''tool_channel_retry_requires_new_turn''"
abbreviation TOOL_CHANNEL_MEDIA_SIZE_UNKNOWN :: error_code where "TOOL_CHANNEL_MEDIA_SIZE_UNKNOWN \<equiv> ErrorCode ''tool_channel_media_size_unknown''"
abbreviation TOOL_UNSUPPORTED_MEDIA :: error_code where "TOOL_UNSUPPORTED_MEDIA \<equiv> ErrorCode ''tool_unsupported_media''"
abbreviation TOOL_DELIVERY_FAILED :: error_code where "TOOL_DELIVERY_FAILED \<equiv> ErrorCode ''tool_delivery_failed''"
abbreviation TOOL_INVALID_SCHEDULE :: error_code where "TOOL_INVALID_SCHEDULE \<equiv> ErrorCode ''tool_invalid_schedule''"
abbreviation TOOL_MISSING_REQUIRED_FIELD :: error_code where "TOOL_MISSING_REQUIRED_FIELD \<equiv> ErrorCode ''tool_missing_required_field''"
abbreviation TOOL_DB_ERROR :: error_code where "TOOL_DB_ERROR \<equiv> ErrorCode ''tool_db_error''"
abbreviation TOOL_CRON_JOB_NOT_FOUND :: error_code where "TOOL_CRON_JOB_NOT_FOUND \<equiv> ErrorCode ''tool_cron_job_not_found''"
abbreviation TOOL_MCP_UNAVAILABLE :: error_code where "TOOL_MCP_UNAVAILABLE \<equiv> ErrorCode ''tool_mcp_unavailable''"
abbreviation TOOL_MCP_BUSY :: error_code where "TOOL_MCP_BUSY \<equiv> ErrorCode ''tool_mcp_busy''"
abbreviation TOOL_MCP_ERROR :: error_code where "TOOL_MCP_ERROR \<equiv> ErrorCode ''tool_mcp_error''"
abbreviation TOOL_MCP_MESSAGE_TOO_LARGE :: error_code where "TOOL_MCP_MESSAGE_TOO_LARGE \<equiv> ErrorCode ''tool_mcp_message_too_large''"
abbreviation TOOL_MCP_INVALID_RESULT :: error_code where "TOOL_MCP_INVALID_RESULT \<equiv> ErrorCode ''tool_mcp_invalid_result''"
abbreviation TOOL_RESULT_TOO_LARGE :: error_code where "TOOL_RESULT_TOO_LARGE \<equiv> ErrorCode ''tool_result_too_large''"
abbreviation NETWORK_SSRF_BLOCKED :: error_code where "NETWORK_SSRF_BLOCKED \<equiv> ErrorCode ''network_ssrf_blocked''"
abbreviation NETWORK_DNS_FAILED :: error_code where "NETWORK_DNS_FAILED \<equiv> ErrorCode ''network_dns_failed''"
abbreviation NETWORK_TIMEOUT :: error_code where "NETWORK_TIMEOUT \<equiv> ErrorCode ''network_timeout''"
abbreviation NETWORK_HTTP_ERROR :: error_code where "NETWORK_HTTP_ERROR \<equiv> ErrorCode ''network_http_error''"
abbreviation PROTOCOL_MALFORMED_FRAME :: error_code where "PROTOCOL_MALFORMED_FRAME \<equiv> ErrorCode ''protocol_malformed_frame''"
abbreviation PROTOCOL_UNKNOWN_TYPE :: error_code where "PROTOCOL_UNKNOWN_TYPE \<equiv> ErrorCode ''protocol_unknown_type''"
abbreviation PROTOCOL_VERSION_MISMATCH :: error_code where "PROTOCOL_VERSION_MISMATCH \<equiv> ErrorCode ''protocol_version_mismatch''"
abbreviation PROTOCOL_TRANSFER_UNKNOWN_ID :: error_code where "PROTOCOL_TRANSFER_UNKNOWN_ID \<equiv> ErrorCode ''protocol_transfer_unknown_id''"
abbreviation MCP_WITHIN_SERVER_COLLISION :: error_code where "MCP_WITHIN_SERVER_COLLISION \<equiv> ErrorCode ''mcp_within_server_collision''"
abbreviation MCP_SCHEMA_COLLISION :: error_code where "MCP_SCHEMA_COLLISION \<equiv> ErrorCode ''mcp_schema_collision''"
abbreviation MCP_OWNER_SCHEMA_LIMIT :: error_code where "MCP_OWNER_SCHEMA_LIMIT \<equiv> ErrorCode ''mcp_owner_schema_limit''"
abbreviation MCP_NAME_RESERVED_BY_SERVER :: error_code where "MCP_NAME_RESERVED_BY_SERVER \<equiv> ErrorCode ''mcp_name_reserved_by_server''"
abbreviation MCP_SERVER_SCHEMA_LIMIT :: error_code where "MCP_SERVER_SCHEMA_LIMIT \<equiv> ErrorCode ''mcp_server_schema_limit''"
abbreviation MCP_SPAWN_FAILED :: error_code where "MCP_SPAWN_FAILED \<equiv> ErrorCode ''mcp_spawn_failed''"
abbreviation MCP_MESSAGE_TOO_LARGE :: error_code where "MCP_MESSAGE_TOO_LARGE \<equiv> ErrorCode ''mcp_message_too_large''"
abbreviation MCP_SECRET_TRANSPORT_INSECURE :: error_code where "MCP_SECRET_TRANSPORT_INSECURE \<equiv> ErrorCode ''mcp_secret_transport_insecure''"
abbreviation AUTH_UNAUTHORIZED :: error_code where "AUTH_UNAUTHORIZED \<equiv> ErrorCode ''auth_unauthorized''"
abbreviation AUTH_LAST_ADMIN_REQUIRED :: error_code where "AUTH_LAST_ADMIN_REQUIRED \<equiv> ErrorCode ''auth_last_admin_required''"
abbreviation AUTH_EMAIL_TAKEN :: error_code where "AUTH_EMAIL_TAKEN \<equiv> ErrorCode ''auth_email_taken''"
abbreviation AUTH_INVALID_CREDENTIALS :: error_code where "AUTH_INVALID_CREDENTIALS \<equiv> ErrorCode ''auth_invalid_credentials''"
abbreviation AUTH_FORBIDDEN :: error_code where "AUTH_FORBIDDEN \<equiv> ErrorCode ''auth_forbidden''"
abbreviation USER_NOT_FOUND :: error_code where "USER_NOT_FOUND \<equiv> ErrorCode ''user_not_found''"
abbreviation CONFIG_VALIDATION_FAILED :: error_code where "CONFIG_VALIDATION_FAILED \<equiv> ErrorCode ''config_validation_failed''"
abbreviation SERVER_MCP_CONFIG_CONFLICT :: error_code where "SERVER_MCP_CONFIG_CONFLICT \<equiv> ErrorCode ''server_mcp_config_conflict''"
abbreviation CHANNEL_NOT_SUPPORTED :: error_code where "CHANNEL_NOT_SUPPORTED \<equiv> ErrorCode ''channel_not_supported''"
abbreviation CHANNEL_CONFIG_NOT_FOUND :: error_code where "CHANNEL_CONFIG_NOT_FOUND \<equiv> ErrorCode ''channel_config_not_found''"
abbreviation CHANNEL_CREDENTIALS_INVALID :: error_code where "CHANNEL_CREDENTIALS_INVALID \<equiv> ErrorCode ''channel_credentials_invalid''"
abbreviation CHANNEL_CREDENTIALS_UNVERIFIED :: error_code where "CHANNEL_CREDENTIALS_UNVERIFIED \<equiv> ErrorCode ''channel_credentials_unverified''"
abbreviation CHANNEL_BOT_ALREADY_BOUND :: error_code where "CHANNEL_BOT_ALREADY_BOUND \<equiv> ErrorCode ''channel_bot_already_bound''"
abbreviation CHANNEL_PAIRING_UNAVAILABLE :: error_code where "CHANNEL_PAIRING_UNAVAILABLE \<equiv> ErrorCode ''channel_pairing_unavailable''"
abbreviation NOT_FOUND :: error_code where "NOT_FOUND \<equiv> ErrorCode ''not_found''"
abbreviation INVALID_MESSAGE_CONTENT :: error_code where "INVALID_MESSAGE_CONTENT \<equiv> ErrorCode ''invalid_message_content''"
abbreviation INVALID_CURSOR :: error_code where "INVALID_CURSOR \<equiv> ErrorCode ''invalid_cursor''"
abbreviation INVALID_REQUEST :: error_code where "INVALID_REQUEST \<equiv> ErrorCode ''invalid_request''"
abbreviation SESSION_INVALID_REQUEST :: error_code where "SESSION_INVALID_REQUEST \<equiv> ErrorCode ''session_invalid_request''"
abbreviation CRON_INVALID_SCHEDULE :: error_code where "CRON_INVALID_SCHEDULE \<equiv> ErrorCode ''cron_invalid_schedule''"
abbreviation CRON_JOB_NOT_FOUND :: error_code where "CRON_JOB_NOT_FOUND \<equiv> ErrorCode ''cron_job_not_found''"
abbreviation TIMEZONE_INVALID :: error_code where "TIMEZONE_INVALID \<equiv> ErrorCode ''timezone_invalid''"
abbreviation PROVIDER_NOT_CONFIGURED :: error_code where "PROVIDER_NOT_CONFIGURED \<equiv> ErrorCode ''provider_not_configured''"
abbreviation PROVIDER_UNAVAILABLE :: error_code where "PROVIDER_UNAVAILABLE \<equiv> ErrorCode ''provider_unavailable''"
abbreviation PROVIDER_PROTOCOL_ERROR :: error_code where "PROVIDER_PROTOCOL_ERROR \<equiv> ErrorCode ''provider_protocol_error''"
abbreviation CHAT_STREAM_BUSY :: error_code where "CHAT_STREAM_BUSY \<equiv> ErrorCode ''chat_stream_busy''"
abbreviation SERVER_RESTART :: error_code where "SERVER_RESTART \<equiv> ErrorCode ''server_restart''"
abbreviation USER_CANCELLED :: error_code where "USER_CANCELLED \<equiv> ErrorCode ''user_cancelled''"

definition error_code_members :: "(string \<times> error_code) list" where
  "error_code_members = [
    (''DEVICE_NOT_FOUND'', DEVICE_NOT_FOUND),
    (''DEVICE_INVALID_REQUEST'', DEVICE_INVALID_REQUEST),
    (''DEVICE_NAME_TAKEN'', DEVICE_NAME_TAKEN),
    (''DEVICE_CONFIG_CONFLICT'', DEVICE_CONFIG_CONFLICT),
    (''DEVICE_OFFLINE'', DEVICE_OFFLINE),
    (''WORKSPACE_NOT_FOUND'', WORKSPACE_NOT_FOUND),
    (''WORKSPACE_PERMISSION_DENIED'', WORKSPACE_PERMISSION_DENIED),
    (''WORKSPACE_SYMLINK_ESCAPE'', WORKSPACE_SYMLINK_ESCAPE),
    (''WORKSPACE_SOFT_LOCKED'', WORKSPACE_SOFT_LOCKED),
    (''WORKSPACE_UPLOAD_TOO_LARGE'', WORKSPACE_UPLOAD_TOO_LARGE),
    (''WORKSPACE_QUOTA_EXCEEDED'', WORKSPACE_QUOTA_EXCEEDED),
    (''WORKSPACE_INVALID_SKILL_FORMAT'', WORKSPACE_INVALID_SKILL_FORMAT),
    (''WORKSPACE_BLOCKED_PATH'', WORKSPACE_BLOCKED_PATH),
    (''WORKSPACE_FILE_TOO_LARGE_TO_EDIT'', WORKSPACE_FILE_TOO_LARGE_TO_EDIT),
    (''WORKSPACE_DIRECTORY_TOO_LARGE'', WORKSPACE_DIRECTORY_TOO_LARGE),
    (''WORKSPACE_FILE_CHANGED'', WORKSPACE_FILE_CHANGED),
    (''WORKSPACE_STORAGE_UNAVAILABLE'', WORKSPACE_STORAGE_UNAVAILABLE),
    (''WORKSPACE_STORAGE_ERROR'', WORKSPACE_STORAGE_ERROR),
    (''WORKSPACE_TRANSFER_BUSY'', WORKSPACE_TRANSFER_BUSY),
    (''WORKSPACE_TRANSFER_TIMEOUT'', WORKSPACE_TRANSFER_TIMEOUT),
    (''WORKSPACE_TRANSFER_INTEGRITY_FAILED'', WORKSPACE_TRANSFER_INTEGRITY_FAILED),
    (''WORKSPACE_INVALID_REQUEST'', WORKSPACE_INVALID_REQUEST),
    (''WORKSPACE_REF_CONFLICT'', WORKSPACE_REF_CONFLICT),
    (''TOOL_AMBIGUOUS_EDIT'', TOOL_AMBIGUOUS_EDIT),
    (''TOOL_NO_MATCH'', TOOL_NO_MATCH),
    (''TOOL_IS_DIRECTORY'', TOOL_IS_DIRECTORY),
    (''TOOL_IS_FILE'', TOOL_IS_FILE),
    (''TOOL_NOT_A_DIRECTORY'', TOOL_NOT_A_DIRECTORY),
    (''TOOL_INVALID_NOTEBOOK'', TOOL_INVALID_NOTEBOOK),
    (''TOOL_CELL_INDEX_OUT_OF_RANGE'', TOOL_CELL_INDEX_OUT_OF_RANGE),
    (''TOOL_INVALID_ARGS'', TOOL_INVALID_ARGS),
    (''TOOL_NOT_ALLOWED'', TOOL_NOT_ALLOWED),
    (''TOOL_INVALID_REGEX'', TOOL_INVALID_REGEX),
    (''TOOL_INVALID_GLOB'', TOOL_INVALID_GLOB),
    (''TOOL_EXEC_TIMEOUT'', TOOL_EXEC_TIMEOUT),
    (''TOOL_EXEC_FAILED'', TOOL_EXEC_FAILED),
    (''TOOL_EXEC_SESSION_NOT_FOUND'', TOOL_EXEC_SESSION_NOT_FOUND),
    (''TOOL_EXEC_STDIN_CLOSED'', TOOL_EXEC_STDIN_CLOSED),
    (''TOOL_EXEC_INTERRUPT_FAILED'', TOOL_EXEC_INTERRUPT_FAILED),
    (''TOOL_SHELL_UNAVAILABLE'', TOOL_SHELL_UNAVAILABLE),
    (''TOOL_PTY_UNAVAILABLE'', TOOL_PTY_UNAVAILABLE),
    (''TOOL_SHELL_LOGIN_UNSUPPORTED'', TOOL_SHELL_LOGIN_UNSUPPORTED),
    (''TOOL_CLIENT_SHUTTING_DOWN'', TOOL_CLIENT_SHUTTING_DOWN),
    (''TOOL_CONTENT_CONVERSION_BUSY'', TOOL_CONTENT_CONVERSION_BUSY),
    (''TOOL_CONTENT_CONVERSION_RESOURCE_EXCEEDED'', TOOL_CONTENT_CONVERSION_RESOURCE_EXCEEDED),
    (''TOOL_CONTENT_CONVERSION_FAILED'', TOOL_CONTENT_CONVERSION_FAILED),
    (''TOOL_COMMAND_DENIED'', TOOL_COMMAND_DENIED),
    (''TOOL_ENV_NOT_ALLOWED'', TOOL_ENV_NOT_ALLOWED),
    (''TOOL_CWD_OUTSIDE_WORKSPACE'', TOOL_CWD_OUTSIDE_WORKSPACE),
    (''TOOL_PATH_OUTSIDE_WORKSPACE'', TOOL_PATH_OUTSIDE_WORKSPACE),
    (''TOOL_DEVICE_UNREACHABLE'', TOOL_DEVICE_UNREACHABLE),
    (''TOOL_DEVICE_BUSY'', TOOL_DEVICE_BUSY),
    (''TOOL_EXECUTION_OUTCOME_UNKNOWN'', TOOL_EXECUTION_OUTCOME_UNKNOWN),
    (''TOOL_CHANNEL_NOT_CONFIGURED'', TOOL_CHANNEL_NOT_CONFIGURED),
    (''TOOL_CHANNEL_RETRY_REQUIRES_NEW_TURN'', TOOL_CHANNEL_RETRY_REQUIRES_NEW_TURN),
    (''TOOL_CHANNEL_MEDIA_SIZE_UNKNOWN'', TOOL_CHANNEL_MEDIA_SIZE_UNKNOWN),
    (''TOOL_UNSUPPORTED_MEDIA'', TOOL_UNSUPPORTED_MEDIA),
    (''TOOL_DELIVERY_FAILED'', TOOL_DELIVERY_FAILED),
    (''TOOL_INVALID_SCHEDULE'', TOOL_INVALID_SCHEDULE),
    (''TOOL_MISSING_REQUIRED_FIELD'', TOOL_MISSING_REQUIRED_FIELD),
    (''TOOL_DB_ERROR'', TOOL_DB_ERROR),
    (''TOOL_CRON_JOB_NOT_FOUND'', TOOL_CRON_JOB_NOT_FOUND),
    (''TOOL_MCP_UNAVAILABLE'', TOOL_MCP_UNAVAILABLE),
    (''TOOL_MCP_BUSY'', TOOL_MCP_BUSY),
    (''TOOL_MCP_ERROR'', TOOL_MCP_ERROR),
    (''TOOL_MCP_MESSAGE_TOO_LARGE'', TOOL_MCP_MESSAGE_TOO_LARGE),
    (''TOOL_MCP_INVALID_RESULT'', TOOL_MCP_INVALID_RESULT),
    (''TOOL_RESULT_TOO_LARGE'', TOOL_RESULT_TOO_LARGE),
    (''NETWORK_SSRF_BLOCKED'', NETWORK_SSRF_BLOCKED),
    (''NETWORK_DNS_FAILED'', NETWORK_DNS_FAILED),
    (''NETWORK_TIMEOUT'', NETWORK_TIMEOUT),
    (''NETWORK_HTTP_ERROR'', NETWORK_HTTP_ERROR),
    (''PROTOCOL_MALFORMED_FRAME'', PROTOCOL_MALFORMED_FRAME),
    (''PROTOCOL_UNKNOWN_TYPE'', PROTOCOL_UNKNOWN_TYPE),
    (''PROTOCOL_VERSION_MISMATCH'', PROTOCOL_VERSION_MISMATCH),
    (''PROTOCOL_TRANSFER_UNKNOWN_ID'', PROTOCOL_TRANSFER_UNKNOWN_ID),
    (''MCP_WITHIN_SERVER_COLLISION'', MCP_WITHIN_SERVER_COLLISION),
    (''MCP_SCHEMA_COLLISION'', MCP_SCHEMA_COLLISION),
    (''MCP_OWNER_SCHEMA_LIMIT'', MCP_OWNER_SCHEMA_LIMIT),
    (''MCP_NAME_RESERVED_BY_SERVER'', MCP_NAME_RESERVED_BY_SERVER),
    (''MCP_SERVER_SCHEMA_LIMIT'', MCP_SERVER_SCHEMA_LIMIT),
    (''MCP_SPAWN_FAILED'', MCP_SPAWN_FAILED),
    (''MCP_MESSAGE_TOO_LARGE'', MCP_MESSAGE_TOO_LARGE),
    (''MCP_SECRET_TRANSPORT_INSECURE'', MCP_SECRET_TRANSPORT_INSECURE),
    (''AUTH_UNAUTHORIZED'', AUTH_UNAUTHORIZED),
    (''AUTH_LAST_ADMIN_REQUIRED'', AUTH_LAST_ADMIN_REQUIRED),
    (''AUTH_EMAIL_TAKEN'', AUTH_EMAIL_TAKEN),
    (''AUTH_INVALID_CREDENTIALS'', AUTH_INVALID_CREDENTIALS),
    (''AUTH_FORBIDDEN'', AUTH_FORBIDDEN),
    (''USER_NOT_FOUND'', USER_NOT_FOUND),
    (''CONFIG_VALIDATION_FAILED'', CONFIG_VALIDATION_FAILED),
    (''SERVER_MCP_CONFIG_CONFLICT'', SERVER_MCP_CONFIG_CONFLICT),
    (''CHANNEL_NOT_SUPPORTED'', CHANNEL_NOT_SUPPORTED),
    (''CHANNEL_CONFIG_NOT_FOUND'', CHANNEL_CONFIG_NOT_FOUND),
    (''CHANNEL_CREDENTIALS_INVALID'', CHANNEL_CREDENTIALS_INVALID),
    (''CHANNEL_CREDENTIALS_UNVERIFIED'', CHANNEL_CREDENTIALS_UNVERIFIED),
    (''CHANNEL_BOT_ALREADY_BOUND'', CHANNEL_BOT_ALREADY_BOUND),
    (''CHANNEL_PAIRING_UNAVAILABLE'', CHANNEL_PAIRING_UNAVAILABLE),
    (''NOT_FOUND'', NOT_FOUND),
    (''INVALID_MESSAGE_CONTENT'', INVALID_MESSAGE_CONTENT),
    (''INVALID_CURSOR'', INVALID_CURSOR),
    (''INVALID_REQUEST'', INVALID_REQUEST),
    (''SESSION_INVALID_REQUEST'', SESSION_INVALID_REQUEST),
    (''CRON_INVALID_SCHEDULE'', CRON_INVALID_SCHEDULE),
    (''CRON_JOB_NOT_FOUND'', CRON_JOB_NOT_FOUND),
    (''TIMEZONE_INVALID'', TIMEZONE_INVALID),
    (''PROVIDER_NOT_CONFIGURED'', PROVIDER_NOT_CONFIGURED),
    (''PROVIDER_UNAVAILABLE'', PROVIDER_UNAVAILABLE),
    (''PROVIDER_PROTOCOL_ERROR'', PROVIDER_PROTOCOL_ERROR),
    (''CHAT_STREAM_BUSY'', CHAT_STREAM_BUSY),
    (''SERVER_RESTART'', SERVER_RESTART),
    (''USER_CANCELLED'', USER_CANCELLED)]"

section \<open>The exception classes\<close>

datatype error_class = WorkspaceError | DeviceError | ToolError | NetworkError | ProtocolError
  | McpError | AuthError | ConfigError | ChatError

record openoctopus_error =
  exc_class :: error_class
  exc_code :: error_code
  exc_message :: string
  exc_headers :: "(string, string) dict option"

text \<open>Only \<open>WorkspaceError\<close> takes headers; the constructor copies them.\<close>

definition workspace_error :: "error_code \<Rightarrow> string \<Rightarrow> (string, string) dict option \<Rightarrow> openoctopus_error" where
  "workspace_error code message headers =
     \<lparr>exc_class = WorkspaceError, exc_code = code, exc_message = message, exc_headers = headers\<rparr>"

definition plain_error :: "error_class \<Rightarrow> error_code \<Rightarrow> string \<Rightarrow> openoctopus_error" where
  "plain_error cls code message =
     \<lparr>exc_class = cls, exc_code = code, exc_message = message, exc_headers = None\<rparr>"

section \<open>The HTTP mapping\<close>


record json_response =
  status_code :: nat
  content_code :: string
  content_message :: string
  response_headers :: "(string, string) dict option"

definition json_error :: "nat \<Rightarrow> error_code \<Rightarrow> string \<Rightarrow> json_response" where
  "json_error status code message =
     \<lparr>status_code = status, content_code = error_value code, content_message = message,
      response_headers = None\<rparr>"





record starlette_http_exception =
  http_status_code :: nat
  http_headers :: "(string, string) dict option"

text \<open>\<open>exc.headers and "Allow" in exc.headers\<close>: an absent or empty mapping has no \<open>Allow\<close>.\<close>

definition allow_header :: "(string, string) dict option \<Rightarrow> (string, string) dict option" where
  "allow_header headers =
     (case headers of
        None \<Rightarrow> None
      | Some d \<Rightarrow> map_option (\<lambda>v. [(''Allow'', v)]) (dict_get d ''Allow''))"

definition http_exception_handler :: "starlette_http_exception \<Rightarrow> json_response" where
  "http_exception_handler exc =
     (if http_status_code exc = 404 then json_error 404 NOT_FOUND ''Route not found''
      else if http_status_code exc = 405 then
        (json_error 405 INVALID_REQUEST ''Method not allowed'')
          \<lparr>response_headers := allow_header (http_headers exc)\<rparr>
      else (json_error (http_status_code exc) INVALID_REQUEST ''Request failed'')
          \<lparr>response_headers := http_headers exc\<rparr>)"

text \<open>A validation error is the location path of the offending value, strings and indices.\<close>

datatype loc_item = LocName string | LocIndex nat





section \<open>The tables\<close>





section \<open>Properties of the handlers\<close>







end
