(* ===== verification/Py_Strings.thy ===== *)
theory Py_Strings
  imports Octo_Prelude "HOL-Library.Sublist"
begin

text \<open>
  The Python string operations the sources use, on lists of code points: \<open>find\<close>, \<open>count\<close>,
  \<open>replace\<close>, \<open>startswith\<close>, \<open>split\<close>, \<open>strip\<close>, \<open>splitlines\<close>, \<open>join\<close>, and the length of
  the UTF-8 encoding. Each is executable, with the laws its callers rely on.
\<close>

named_theorems size_simps "sizes of UTF-8 encodings of composed strings"

definition ustr_of :: "string \<Rightarrow> ustr" where
  "ustr_of s = map of_char s"

section \<open>Searching\<close>

definition py_startswith :: "'a list \<Rightarrow> 'a list \<Rightarrow> bool" where
  "py_startswith xs p \<longleftrightarrow> take (length p) xs = p"

fun py_index :: "'a list \<Rightarrow> 'a list \<Rightarrow> nat option" where
  "py_index needle [] = (if needle = [] then Some 0 else None)"
| "py_index needle (x # xs) =
     (if py_startswith (x # xs) needle then Some 0 else map_option Suc (py_index needle xs))"

text \<open>\<open>str.find(needle, start)\<close>: the first index at or after \<open>start\<close>, or \<open>-1\<close>.\<close>

definition py_find :: "'a list \<Rightarrow> 'a list \<Rightarrow> nat \<Rightarrow> int" where
  "py_find text needle start =
     (if length text < start then -1
      else case py_index needle (drop start text) of
             None \<Rightarrow> -1 | Some i \<Rightarrow> int (start + i))"

definition py_contains :: "'a list \<Rightarrow> 'a list \<Rightarrow> bool" where
  "py_contains text needle \<longleftrightarrow> py_index needle text \<noteq> None"

lemma py_startswith_iff: "py_startswith xs p \<longleftrightarrow> (\<exists>ys. xs = p @ ys)"
  by (metis append_eq_conv_conj append_take_drop_id py_startswith_def)

lemma py_startswith_append [simp]: "py_startswith (p @ ys) p"
  by (simp add: py_startswith_iff)

lemma py_index_Some:
  "py_index n xs = Some i \<Longrightarrow> \<exists>post. xs = take i xs @ n @ post \<and> i + length n \<le> length xs"
proof (induction xs arbitrary: i)
  case Nil
  then show ?case by (auto split: if_splits)
next
  case (Cons x xs)
  show ?case
  proof (cases "py_startswith (x # xs) n")
    case True
    then obtain ys where "x # xs = n @ ys" by (auto simp: py_startswith_iff)
    moreover have "i = 0" using True Cons.prems by simp
    moreover have "length n \<le> length (x # xs)" using calculation(1) by (metis le_add1 length_append)
    ultimately show ?thesis by simp
  next
    case False
    with Cons.prems obtain j where j: "py_index n xs = Some j" "i = Suc j" by auto
    then show ?thesis using Cons.IH [OF j(1)] by auto
  qed
qed

lemma py_index_Some_split:
  "py_index n xs = Some i \<Longrightarrow> xs = take i xs @ n @ drop (i + length n) xs"
proof -
  assume "py_index n xs = Some i"
  then obtain post where p: "xs = take i xs @ n @ post" "i + length n \<le> length xs"
    using py_index_Some by blast
  then have len: "length (take i xs) = i" by simp
  have "drop (i + length n) xs = drop (i + length n) (take i xs @ n @ post)"
    using p(1) by (rule arg_cong)
  also have "\<dots> = post" using len by simp
  finally show ?thesis using p(1) by simp
qed

lemma py_index_bound: "py_index n xs = Some i \<Longrightarrow> i + length n \<le> length xs"
  using py_index_Some by blast

lemma py_index_shrinks:
  "py_index n xs = Some i \<Longrightarrow> n \<noteq> [] \<Longrightarrow> length xs - (i + length n) < length xs"
proof -
  assume "py_index n xs = Some i" and "n \<noteq> []"
  then have "i + length n \<le> length xs" "0 < length n" by (simp_all add: py_index_bound)
  then show ?thesis by linarith
qed

lemma py_index_None: "py_index n xs = None \<Longrightarrow> xs \<noteq> pre @ n @ post"
proof (induction xs arbitrary: pre)
  case Nil
  then show ?case by (auto split: if_splits)
next
  case (Cons x xs)
  then show ?case by (cases pre) (auto simp: py_startswith_iff split: if_splits)
qed

lemma py_index_least:
  "py_index n xs = Some i \<Longrightarrow> xs = pre @ n @ post \<Longrightarrow> i \<le> length pre"
proof (induction xs arbitrary: i pre)
  case Nil
  then show ?case by (auto split: if_splits)
next
  case (Cons x xs)
  show ?case
  proof (cases "py_startswith (x # xs) n")
    case False
    with Cons.prems obtain j pre' where "py_index n xs = Some j" "i = Suc j" "pre = x # pre'"
      "xs = pre' @ n @ post"
      by (cases pre) (auto simp: py_startswith_iff)
    with Cons.IH show ?thesis by auto
  next
    case True
    with Cons.prems(1) show ?thesis by simp
  qed
qed

lemma py_contains_iff: "py_contains text n \<longleftrightarrow> (\<exists>pre post. text = pre @ n @ post)"
proof
  assume "py_contains text n"
  then obtain i where "py_index n text = Some i" by (auto simp: py_contains_def)
  then show "\<exists>pre post. text = pre @ n @ post"
    using py_index_Some_split by blast
next
  assume "\<exists>pre post. text = pre @ n @ post"
  then show "py_contains text n"
    using py_index_None [of n "text"] by (cases "py_index n text") (auto simp: py_contains_def)
qed

text \<open>
  The contract of \<open>find\<close> its callers use: a non-negative result is the first occurrence at
  or after the start, a negative one means there is none.
\<close>

lemma py_find_nonneg:
  assumes "py_find text n start \<ge> 0"
  shows "start \<le> nat (py_find text n start)"
    and "text = take (nat (py_find text n start)) text @ n @ drop (nat (py_find text n start) + length n) text"
    and "nat (py_find text n start) + length n \<le> length text"
proof -
  from assms obtain i where i: "py_index n (drop start text) = Some i"
    "py_find text n start = int (start + i)" "start \<le> length text"
    by (auto simp: py_find_def split: if_splits option.splits)
  show "start \<le> nat (py_find text n start)" using i(2) by simp
  show "nat (py_find text n start) + length n \<le> length text"
    using py_index_bound [OF i(1)] i(2,3) by simp
  have split: "drop start text = take i (drop start text) @ n @ drop (i + length n) (drop start text)"
    by (rule py_index_Some_split [OF i(1)])
  have "text = take start text @ drop start text" by simp
  also have "\<dots> = take start text @ take i (drop start text) @ n @ drop (i + length n) (drop start text)"
    using split by (rule arg_cong)
  also have "\<dots> = take (start + i) text @ n @ drop (start + i + length n) text"
  proof -
    have "drop (i + length n) (drop start text) = drop (start + i + length n) text"
      by (simp add: algebra_simps)
    then show ?thesis by (simp only: take_add append_assoc)
  qed
  finally show "text = take (nat (py_find text n start)) text @ n @
      drop (nat (py_find text n start) + length n) text"
    using i(2) by (simp only: nat_int)
qed

section \<open>Counting and replacing\<close>

text \<open>Non-overlapping occurrences from the left, as \<open>str.count\<close> and \<open>str.replace\<close> see them.\<close>

function py_count :: "'a list \<Rightarrow> 'a list \<Rightarrow> nat" where
  "py_count needle text =
     (if needle = [] then Suc (length text)
      else case py_index needle text of
             None \<Rightarrow> 0
           | Some i \<Rightarrow> Suc (py_count needle (drop (i + length needle) text)))"
  by pat_completeness auto
termination
  by (relation "measure (\<lambda>(n, t). length t)") (auto dest: py_index_shrinks)

function py_replace :: "'a list \<Rightarrow> 'a list \<Rightarrow> 'a list \<Rightarrow> 'a list" where
  "py_replace old new text =
     (if old = [] then concat (map (\<lambda>c. new @ [c]) text) @ new
      else case py_index old text of
             None \<Rightarrow> text
           | Some i \<Rightarrow> take i text @ new @ py_replace old new (drop (i + length old) text))"
  by pat_completeness auto
termination
  by (relation "measure (\<lambda>(old, new, t). length t)") (auto dest: py_index_shrinks)

declare py_count.simps [simp del] py_replace.simps [simp del]

lemma py_count_eq_0_iff: "n \<noteq> [] \<Longrightarrow> py_count n text = 0 \<longleftrightarrow> \<not> py_contains text n"
  by (subst py_count.simps) (auto simp: py_contains_def split: option.split)

lemma py_replace_none: "old \<noteq> [] \<Longrightarrow> \<not> py_contains text old \<Longrightarrow> py_replace old new text = text"
  by (subst py_replace.simps) (auto simp: py_contains_def)

lemma py_index_single: "py_index [c] (x # xs) = (if x = c then Some 0 else map_option Suc (py_index [c] xs))"
  by (auto simp: py_startswith_def)

lemma py_index_single_append: "c \<notin> set pre \<Longrightarrow> py_index [c] (pre @ c # post) = Some (length pre)"
  by (induction pre) (auto simp: py_startswith_def)

lemma py_index_single_None: "py_index [c] xs = None \<longleftrightarrow> c \<notin> set xs"
  by (induction xs) (auto simp: py_startswith_def)

lemma py_index_single_notin: "py_index [c] t = Some i \<Longrightarrow> c \<notin> set (take i t)"
proof (induction t arbitrary: i)
  case (Cons x t)
  then show ?case by (auto simp: py_startswith_def split: if_splits)
qed simp

text \<open>For a one-character needle both are the obvious recursions on the text.\<close>

lemma py_count_single: "py_count [c] t = count_list t c"
proof (induction "[c]" t rule: py_count.induct)
  case (1 t)
  show ?case
  proof (cases "py_index [c] t")
    case None
    then have "c \<notin> set t" by (simp add: py_index_single_None)
    with None show ?thesis by (subst py_count.simps) (simp add: count_list_0_iff)
  next
    case (Some i)
    have "c \<notin> set (take i t)" using Some by (rule py_index_single_notin)
    then have "count_list (take i t) c = 0" by (simp add: count_list_0_iff)
    moreover have "count_list t c = count_list (take i t @ [c] @ drop (i + length [c]) t) c"
      using py_index_Some_split [OF Some] by simp
    ultimately have "count_list t c = Suc (count_list (drop (i + length [c]) t) c)" by simp
    with 1 Some show ?thesis by (subst py_count.simps) simp
  qed
qed

lemma py_replace_single: "py_replace [c] new t = concat (map (\<lambda>x. if x = c then new else [x]) t)"
proof (induction "[c]" new t rule: py_replace.induct)
  case (1 new t)
  show ?case
  proof (cases "py_index [c] t")
    case None
    then have "c \<notin> set t" by (simp add: py_index_single_None)
    then have "concat (map (\<lambda>x. if x = c then new else [x]) t) = t"
      by (induction t) auto
    with None show ?thesis by (subst py_replace.simps) simp
  next
    case (Some i)
    have notin: "c \<notin> set (take i t)" using Some by (rule py_index_single_notin)
    have "concat (map (\<lambda>x. if x = c then new else [x]) xs) = xs" if "c \<notin> set xs" for xs
      using that by (induction xs) auto
    then have "concat (map (\<lambda>x. if x = c then new else [x]) (take i t @ [c] @ drop (i + length [c]) t)) =
      take i t @ new @ concat (map (\<lambda>x. if x = c then new else [x]) (drop (i + length [c]) t))"
      using notin by simp
    with 1 Some py_index_Some_split [OF Some] show ?thesis
      by (subst py_replace.simps) simp
  qed
qed

section \<open>UTF-8 sizes\<close>

definition utf8_character_size :: "nat \<Rightarrow> nat" where
  "utf8_character_size codepoint =
     (if codepoint \<le> 127 then 1 else if codepoint \<le> 2047 then 2
      else if codepoint \<le> 65535 then 3 else 4)"

definition py_isascii :: "ustr \<Rightarrow> bool" where
  "py_isascii s \<longleftrightarrow> list_all (\<lambda>c. c < 128) s"

text \<open>The bytes of the UTF-8 encoding; code points above the Unicode range do not occur.\<close>

definition utf8_encode_char :: "nat \<Rightarrow> nat list" where
  "utf8_encode_char c =
     (if c \<le> 127 then [c]
      else if c \<le> 2047 then [192 + c div 64, 128 + c mod 64]
      else if c \<le> 65535 then [224 + c div 4096, 128 + (c div 64) mod 64, 128 + c mod 64]
      else [240 + c div 262144, 128 + (c div 4096) mod 64, 128 + (c div 64) mod 64, 128 + c mod 64])"

definition utf8_encode :: "ustr \<Rightarrow> nat list" where
  "utf8_encode s = concat (map utf8_encode_char s)"

lemma length_utf8_encode_char [simp]: "length (utf8_encode_char c) = utf8_character_size c"
  by (simp add: utf8_encode_char_def utf8_character_size_def)

lemma length_utf8_encode: "length (utf8_encode s) = sum_list (map utf8_character_size s)"
  by (induction s) (simp_all add: utf8_encode_def)

section \<open>White space and lines\<close>

definition py_isspace_char :: "nat \<Rightarrow> bool" where
  "py_isspace_char c \<longleftrightarrow>
     (9 \<le> c \<and> c \<le> 13) \<or> (28 \<le> c \<and> c \<le> 32) \<or> c = 133 \<or> c = 160 \<or> c = 5760 \<or>
     (8192 \<le> c \<and> c \<le> 8202) \<or> c = 8232 \<or> c = 8233 \<or> c = 8239 \<or> c = 8287 \<or> c = 12288"

definition py_lstrip :: "ustr \<Rightarrow> ustr" where
  "py_lstrip s = dropWhile py_isspace_char s"

definition py_rstrip :: "ustr \<Rightarrow> ustr" where
  "py_rstrip s = rev (dropWhile py_isspace_char (rev s))"

definition py_strip :: "ustr \<Rightarrow> ustr" where
  "py_strip s = py_rstrip (py_lstrip s)"

definition py_is_linebreak :: "nat \<Rightarrow> bool" where
  "py_is_linebreak c \<longleftrightarrow> c \<in> {10, 11, 12, 13, 28, 29, 30, 133, 8232, 8233}"

text \<open>\<open>str.splitlines\<close>: a carriage return before a line feed is one line break.\<close>

fun py_splitlines_acc :: "ustr \<Rightarrow> ustr \<Rightarrow> ustr list" where
  "py_splitlines_acc cur [] = (if cur = [] then [] else [rev cur])"
| "py_splitlines_acc cur (c # cs) =
     (if py_is_linebreak c
      then rev cur # py_splitlines_acc [] (if c = 13 \<and> cs \<noteq> [] \<and> hd cs = 10 then tl cs else cs)
      else py_splitlines_acc (c # cur) cs)"

definition py_splitlines :: "ustr \<Rightarrow> ustr list" where
  "py_splitlines s = py_splitlines_acc [] s"

text \<open>\<open>str.split(sep)\<close> for a one-character separator, and \<open>sep.join\<close>.\<close>

fun py_split_acc :: "'a \<Rightarrow> 'a list \<Rightarrow> 'a list \<Rightarrow> 'a list list" where
  "py_split_acc sep cur [] = [rev cur]"
| "py_split_acc sep cur (c # cs) =
     (if c = sep then rev cur # py_split_acc sep [] cs else py_split_acc sep (c # cur) cs)"

definition py_split :: "'a \<Rightarrow> 'a list \<Rightarrow> 'a list list" where
  "py_split sep s = py_split_acc sep [] s"

fun py_join :: "'a list \<Rightarrow> 'a list list \<Rightarrow> 'a list" where
  "py_join sep [] = []"
| "py_join sep [x] = x"
| "py_join sep (x # xs) = x @ sep @ py_join sep xs"

lemma py_join_Cons: "xs \<noteq> [] \<Longrightarrow> py_join sep (x # xs) = x @ sep @ py_join sep xs"
  by (cases xs) auto

lemma py_split_acc_nonempty [simp]: "py_split_acc sep cur s \<noteq> []"
  by (induction s arbitrary: cur) auto

lemma py_join_split_acc: "py_join [sep] (py_split_acc sep cur s) = rev cur @ s"
  by (induction s arbitrary: cur) (simp_all add: py_join_Cons)

lemma py_join_split: "py_join [sep] (py_split sep s) = s"
  by (simp add: py_split_def py_join_split_acc)

lemma py_split_nonempty [simp]: "py_split sep s \<noteq> []"
  by (simp add: py_split_def)

lemma py_split_acc_no_sep: "sep \<notin> set cur \<Longrightarrow> \<forall>x \<in> set (py_split_acc sep cur s). sep \<notin> set x"
proof (induction s arbitrary: cur)
  case (Cons c s)
  show ?case using Cons.prems Cons.IH [of "[]"] Cons.IH [of "c # cur"] by (cases "c = sep") simp_all
qed simp

lemma py_split_no_sep: "x \<in> set (py_split sep s) \<Longrightarrow> sep \<notin> set x"
  using py_split_acc_no_sep [of sep "[]" s] by (auto simp: py_split_def)

lemma py_split_acc_plain: "sep \<notin> set s \<Longrightarrow> py_split_acc sep cur s = [rev cur @ s]"
  by (induction s arbitrary: cur) auto

lemma py_split_acc_append: "py_split_acc sep cur (s @ sep # t) =
    py_split_acc sep cur s @ py_split_acc sep [] t"
  by (induction s arbitrary: cur) auto

lemma py_split_join:
  "xs \<noteq> [] \<Longrightarrow> \<forall>x \<in> set xs. sep \<notin> set x \<Longrightarrow> py_split sep (py_join [sep] xs) = xs"
proof (induction xs)
  case (Cons x xs)
  then show ?case
    by (cases xs) (simp_all add: py_split_def py_split_acc_plain py_split_acc_append)
qed simp

end
