(* ===== verification/Kmp_Search.thy ===== *)
theory Kmp_Search
  imports Octo_Prelude "HOL-Library.Sublist" "HOL-Library.While_Combinator"
begin

text \<open>
  The Knuth-Morris-Pratt search that \<open>_trimmed_matches\<close> and \<open>_kmp_prefix\<close> of
  \<open>workspace/text_edit.py\<close> run over trimmed lines. The table entry of a length is the longest
  proper border of that prefix, and one step of the search keeps the longest prefix of the
  pattern that ends the input read so far.
\<close>

text \<open>The fallback loop of Knuth, Morris and Pratt, shared by the table and the search.\<close>

definition kmp_fallback :: "'a list \<Rightarrow> nat list \<Rightarrow> 'a \<Rightarrow> nat \<Rightarrow> nat" where
  "kmp_fallback tokens table token matched =
     while (\<lambda>k. 0 < k \<and> tokens ! k \<noteq> token) (\<lambda>k. table ! (k - 1)) matched"

definition kmp_advance :: "'a list \<Rightarrow> nat list \<Rightarrow> 'a \<Rightarrow> nat \<Rightarrow> nat" where
  "kmp_advance tokens table token matched =
     (let k = kmp_fallback tokens table token matched
      in if tokens ! k = token then k + 1 else k)"

fun kmp_prefix_loop :: "'a list \<Rightarrow> nat list \<Rightarrow> nat list \<Rightarrow> nat \<Rightarrow> nat list" where
  "kmp_prefix_loop tokens [] table matched = table"
| "kmp_prefix_loop tokens (index # rest) table matched =
     (let matched' = kmp_advance tokens table (tokens ! index) matched
      in kmp_prefix_loop tokens rest (table[index := matched']) matched')"

definition kmp_prefix :: "'a list \<Rightarrow> nat list" where
  "kmp_prefix tokens =
     kmp_prefix_loop tokens [1..<length tokens] (replicate (length tokens) 0) 0"

section \<open>Longest matching prefixes\<close>

definition longest :: "'a list \<Rightarrow> nat \<Rightarrow> 'a list \<Rightarrow> nat \<Rightarrow> bool" where
  "longest w m t k \<longleftrightarrow> k \<le> m \<and> suffix (take k w) t \<and> (\<forall>j \<le> m. suffix (take j w) t \<longrightarrow> j \<le> k)"

definition border_table :: "'a list \<Rightarrow> nat list \<Rightarrow> nat \<Rightarrow> bool" where
  "border_table w table i \<longleftrightarrow>
     (\<forall>k. 1 \<le> k \<and> k \<le> i \<longrightarrow> longest w (k - 1) (take k w) (table ! (k - 1)))"

lemma longestD:
  assumes "longest w m t k"
  shows "k \<le> m" "suffix (take k w) t" "j \<le> m \<Longrightarrow> suffix (take j w) t \<Longrightarrow> j \<le> k"
  using assms by (auto simp: longest_def)

lemma border_tableD:
  "border_table w table i \<Longrightarrow> 0 < k \<Longrightarrow> k \<le> i \<Longrightarrow> longest w (k - 1) (take k w) (table ! (k - 1))"
  by (simp add: border_table_def)

lemma suffix_take_Suc:
  assumes "i < length w"
  shows "suffix (take (Suc i) w) (t @ [x]) \<longleftrightarrow> w ! i = x \<and> suffix (take i w) t"
  using assms by (auto simp: take_Suc_conv_app_nth suffix_def)

lemma kmp_fallback_correct:
  assumes table: "border_table w table k"
    and best: "longest w m t k" and len: "m < length w"
    and r_def: "r = kmp_fallback w table x k"
  shows "r \<le> m \<and> suffix (take r w) t \<and> (r = 0 \<or> w ! r = x) \<and>
    (\<forall>j \<le> m. suffix (take j w) t \<and> w ! j = x \<longrightarrow> j \<le> r)"
proof -
  define inv where "inv i \<longleftrightarrow> i \<le> k \<and> suffix (take i w) t \<and>
    (\<forall>j \<le> m. suffix (take j w) t \<and> w ! j = x \<longrightarrow> j \<le> i)" for i
  have km: "k \<le> m" by (rule longestD [OF best])
  have step: "inv (table ! (i - 1)) \<and> table ! (i - 1) < i" if i: "inv i" "0 < i" "w ! i \<noteq> x" for i
  proof -
    have ik: "i \<le> k" "suffix (take i w) t" using i(1) by (auto simp: inv_def)
    have il: "i \<le> length w" using ik(1) km len by simp
    have b: "longest w (i - 1) (take i w) (table ! (i - 1))"
      using border_tableD [OF table i(2) ik(1)] .
    have "j \<le> table ! (i - 1)" if j: "j \<le> m" "suffix (take j w) t" "w ! j = x" for j
    proof -
      have "j \<le> i" using i(1) j by (auto simp: inv_def)
      moreover have "j \<noteq> i" using i(3) j(3) by auto
      ultimately have "j \<le> i - 1" by simp
      moreover have "suffix (take j w) (take i w)"
        using suffix_length_suffix [OF j(2) ik(2)] \<open>j \<le> i\<close> il by simp
      ultimately show ?thesis by (rule longestD(3) [OF b])
    qed
    moreover have "suffix (take (table ! (i - 1)) w) t"
      using longestD(2) [OF b] ik(2) by (rule suffix_order.trans)
    ultimately show ?thesis using longestD(1) [OF b] ik(1) i(2) by (auto simp: inv_def)
  qed
  have "inv r \<and> (r = 0 \<or> w ! r = x)"
    unfolding r_def kmp_fallback_def
  proof (rule while_rule [where P = inv and r = "measure id"])
    show "inv k" using best by (auto simp: inv_def longest_def)
  qed (use step in auto)
  then show ?thesis using km by (auto simp: inv_def)
qed

lemma kmp_advance_correct:
  assumes table: "border_table w table k"
    and best: "longest w m t k" and len: "m < length w"
  shows "longest w (Suc m) (t @ [x]) (kmp_advance w table x k)"
proof -
  define r where "r = kmp_fallback w table x k"
  have r: "r \<le> m" "suffix (take r w) t" "r = 0 \<or> w ! r = x"
    "\<And>j. j \<le> m \<Longrightarrow> suffix (take j w) t \<Longrightarrow> w ! j = x \<Longrightarrow> j \<le> r"
    using kmp_fallback_correct [OF assms r_def] by blast+
  define a where "a = kmp_advance w table x k"
  have a: "a = (if w ! r = x then Suc r else r)"
    by (simp add: a_def kmp_advance_def r_def Let_def)
  have "suffix (take a w) (t @ [x])"
    using r(1-3) a len suffix_take_Suc [of r w t x] by (cases "w ! r = x") simp_all
  moreover have "j \<le> a" if j: "j \<le> Suc m" "suffix (take j w) (t @ [x])" for j
  proof (cases j)
    case (Suc i)
    then have "w ! i = x \<and> suffix (take i w) t"
      using j len suffix_take_Suc [of i w t x] by simp
    moreover from this have "i \<le> r" using r(4) j Suc by simp
    ultimately show ?thesis using r(3) a Suc by (cases "w ! r = x") auto
  qed simp
  ultimately show ?thesis using r(1) a by (auto simp: longest_def a_def [symmetric])
qed

section \<open>The table\<close>

lemma longest_border:
  assumes "0 < i" "i \<le> length w"
  shows "longest w (i - 1) (take i w) k \<longleftrightarrow> longest w (i - 1) (drop 1 (take i w)) k"
proof -
  have "suffix (take j w) (take i w) \<longleftrightarrow> suffix (take j w) (drop 1 (take i w))" if "j \<le> i - 1" for j
  proof -
    have "take i w = [hd w] @ drop 1 (take i w)" using assms by (cases w) (auto simp: take_Cons')
    then have eq: "take i w = hd w # drop 1 (take i w)" by simp
    have "suffix (take j w) (hd w # drop 1 (take i w)) \<longleftrightarrow> suffix (take j w) (drop 1 (take i w))"
    proof -
      have "length (take j w) \<noteq> length (hd w # drop 1 (take i w))" using that assms by simp
      then show ?thesis by (metis suffix_Cons)
    qed
    then show ?thesis using eq by simp
  qed
  then show ?thesis unfolding longest_def by auto
qed

lemma kmp_prefix_loop_correct:
  assumes "border_table w table i" and "0 < i" and "i \<le> length w" and "length table = length w"
    and "longest w (i - 1) (take i w) matched"
  shows "border_table w (kmp_prefix_loop w [i..<length w] table matched) (length w) \<and>
    length (kmp_prefix_loop w [i..<length w] table matched) = length w"
  using assms
proof (induction "length w - i" arbitrary: i table matched)
  case 0
  then show ?case by simp
next
  case (Suc d)
  then have i: "i < length w" by simp
  define m' where "m' = kmp_advance w table (w ! i) matched"
  define table' where "table' = table[i := m']"
  have "longest w (Suc (i - 1)) (drop 1 (take i w) @ [w ! i]) m'"
    unfolding m'_def
  proof (rule kmp_advance_correct)
    show "longest w (i - 1) (drop 1 (take i w)) matched"
      using Suc.prems longest_border by blast
    have "matched \<le> i" using longestD(1) [OF Suc.prems(5)] by simp
    with Suc.prems(1) show "border_table w table matched"
      by (auto simp: border_table_def)
  qed (use i in simp)
  moreover have "drop 1 (take i w) @ [w ! i] = drop 1 (take (Suc i) w)"
    using i Suc.prems(2) by (simp add: take_Suc_conv_app_nth)
  ultimately have best: "longest w (Suc i - 1) (take (Suc i) w) m'"
    using longest_border [of "Suc i" w m'] i Suc.prems(2) by simp
  have "border_table w table' (Suc i)"
    unfolding border_table_def
  proof (intro allI impI)
    fix k
    assume k: "1 \<le> k \<and> k \<le> Suc i"
    show "longest w (k - 1) (take k w) (table' ! (k - 1))"
    proof (cases "k = Suc i")
      case True
      then show ?thesis using best i Suc.prems(4) by (simp add: table'_def)
    next
      case False
      then have "i \<noteq> k - 1" using k by auto
      then have "table' ! (k - 1) = table ! (k - 1)" by (simp add: table'_def)
      then show ?thesis
        using k False border_tableD [OF Suc.prems(1), of k] by simp
    qed
  qed
  then have "border_table w (kmp_prefix_loop w [Suc i..<length w] table' m') (length w) \<and>
    length (kmp_prefix_loop w [Suc i..<length w] table' m') = length w"
    using Suc.hyps(1) [of "Suc i" table' m'] Suc.hyps(2) Suc.prems best i
    by (simp add: table'_def)
  moreover have "[i..<length w] = i # [Suc i..<length w]" using i by (rule upt_conv_Cons)
  ultimately show ?case by (simp add: Let_def m'_def table'_def)
qed

text \<open>Every entry of the table is the longest proper border of its prefix.\<close>

lemma kmp_prefix_correct:
  assumes "w \<noteq> []"
  shows "border_table w (kmp_prefix w) (length w)"
proof -
  define tb :: "nat list" where "tb = replicate (length w) 0"
  have "longest w (1 - 1) (take 1 w) 0" by (simp add: longest_def)
  moreover have "border_table w tb 1"
  proof -
    have "longest w (k - 1) (take k w) (tb ! (k - 1))" if "1 \<le> k \<and> k \<le> 1" for k
    proof -
      have "k = 1" using that by simp
      then show ?thesis using assms by (simp add: longest_def tb_def)
    qed
    then show ?thesis by (simp add: border_table_def)
  qed
  ultimately show ?thesis
    using kmp_prefix_loop_correct [of w tb 1 0] assms
    by (simp add: kmp_prefix_def tb_def Suc_le_eq)
qed

section \<open>One step of the search\<close>

definition kmp_next :: "'a list \<Rightarrow> nat list \<Rightarrow> 'a \<Rightarrow> nat \<Rightarrow> nat" where
  "kmp_next w table x k =
     (let a = kmp_advance w table x k in if a = length w then table ! (a - 1) else a)"

text \<open>
  The state of the search is the longest proper prefix of the pattern that ends the input; a
  step reports a match exactly when the whole pattern ends the input.
\<close>

lemma kmp_search_step:
  assumes table: "border_table w table (length w)" and w: "w \<noteq> []"
    and best: "longest w (length w - 1) t k"
  shows "(kmp_advance w table x k = length w \<longleftrightarrow> suffix w (t @ [x])) \<and>
    longest w (length w - 1) (t @ [x]) (kmp_next w table x k)"
proof -
  define a where "a = kmp_advance w table x k"
  have "border_table w table k"
    using table longestD(1) [OF best] by (auto simp: border_table_def)
  from kmp_advance_correct [OF this best, of x] have a: "longest w (length w) (t @ [x]) a"
    using w by (simp add: a_def)
  have iff: "a = length w \<longleftrightarrow> suffix w (t @ [x])"
  proof
    assume "a = length w"
    then show "suffix w (t @ [x])" using longestD(2) [OF a] by (simp only: take_all order_refl)
  next
    assume "suffix w (t @ [x])"
    then have "length w \<le> a" using longestD(3) [OF a, of "length w"] by (simp only: take_all order_refl)
    then show "a = length w" using longestD(1) [OF a] by simp
  qed
  have "longest w (length w - 1) (t @ [x]) (table ! (length w - 1))" if full: "a = length w"
  proof -
    have b: "longest w (length w - 1) w (table ! (length w - 1))"
      using border_tableD [OF table, of "length w"] w by simp
    have sw: "suffix w (t @ [x])" using iff full by simp
    have "suffix (take j w) (t @ [x]) \<longleftrightarrow> suffix (take j w) w" for j
      using suffix_length_suffix [of "take j w" "t @ [x]" w] sw
      by (metis length_take min.cobounded1 suffix_order.trans)
    then show ?thesis using b unfolding longest_def by simp
  qed
  moreover have "longest w (length w - 1) (t @ [x]) a" if "a \<noteq> length w"
    using a that by (auto simp: longest_def)
  ultimately have "longest w (length w - 1) (t @ [x]) (kmp_next w table x k)"
    unfolding kmp_next_def a_def [symmetric] Let_def by (cases "a = length w") simp_all
  with iff show ?thesis unfolding a_def by (rule conjI)
qed

end
