(* ===== verification/Text_Edit.thy ===== *)
theory Text_Edit
  imports Py_Strings Error_Codes Kmp_Search
begin

text \<open>
  The text editor behind the \<open>edit_file\<close> tool (\<open>workspace/text_edit.py\<close>): an edit is looked up
  exactly, then line by line with surrounding white space trimmed (a Knuth-Morris-Pratt
  search over lines), then with typographic quotes normalised; the selected matches are
  replaced, the size of the result is projected before it is built, and CRLF line endings
  are restored. Strings are lists of code points; a \<open>ToolError\<close> is its \<open>ErrorCode\<close>.

  The lemmas show that the projected size is the exact UTF-8 size of the text that is built,
  that the line search finds the windows a naive search finds, and what the replaced text is.
\<close>

datatype match_level = EXACT | TRIMMED | NORMALIZED

record text_edit_result =
  res_text :: ustr
  replacements :: nat
  res_match_level :: "match_level option"
  created :: bool

record edit_match =
  m_start :: nat
  m_end :: nat
  m_line :: nat

definition MAX_FUZZY_MATCH_CANDIDATES :: nat where
  "MAX_FUZZY_MATCH_CANDIDATES = 1000"

definition MAX_TEXT_EDIT_BYTES :: int where
  "MAX_TEXT_EDIT_BYTES = 8 * 1024 * 1024"

definition py_slice :: "'a list \<Rightarrow> nat \<Rightarrow> nat \<Rightarrow> 'a list" where
  "py_slice xs a b = take (b - a) (drop a xs)"

section \<open>Sizes\<close>

definition utf8_size :: "ustr \<Rightarrow> int" where
  "utf8_size value =
     (if py_isascii value then int (length value)
      else sum_list (map (\<lambda>c. int (utf8_character_size c)) value))"

definition rendered_utf8_size :: "ustr \<Rightarrow> bool \<Rightarrow> int" where
  "rendered_utf8_size value restore_crlf =
     (if restore_crlf then utf8_size value + int (py_count [10] value) else utf8_size value)"

fun utf8_size_chars :: "ustr \<Rightarrow> bool \<Rightarrow> int \<Rightarrow> int" where
  "utf8_size_chars [] restore_crlf tot = tot"
| "utf8_size_chars (character # rest) restore_crlf tot =
     utf8_size_chars rest restore_crlf
       (tot + int (utf8_character_size character) +
        (if restore_crlf \<and> character = 10 then 1 else 0))"

definition utf8_size_range :: "ustr \<Rightarrow> nat \<Rightarrow> nat \<Rightarrow> bool \<Rightarrow> int" where
  "utf8_size_range value start stop restore_crlf =
     utf8_size_chars (py_slice value start stop) restore_crlf 0"

definition ensure_output_size :: "int \<Rightarrow> error_code + unit" where
  "ensure_output_size sz = guard_result (sz \<le> MAX_TEXT_EDIT_BYTES) WORKSPACE_FILE_TOO_LARGE_TO_EDIT"

section \<open>Arguments\<close>

definition validate_selectors ::
  "bool \<Rightarrow> int option \<Rightarrow> int option \<Rightarrow> int option \<Rightarrow> error_code + unit" where
  "validate_selectors replace_all occurrence line_hint expected_replacements =
     (if (case occurrence of None \<Rightarrow> False | Some n \<Rightarrow> n < 1) then Inl TOOL_INVALID_ARGS
      else if (case line_hint of None \<Rightarrow> False | Some n \<Rightarrow> n < 1) then Inl TOOL_INVALID_ARGS
      else if (case expected_replacements of None \<Rightarrow> False | Some n \<Rightarrow> n < 1) then Inl TOOL_INVALID_ARGS
      else if replace_all \<and> occurrence \<noteq> None then Inl TOOL_INVALID_ARGS
      else if replace_all \<and> line_hint \<noteq> None then Inl TOOL_INVALID_ARGS
      else if occurrence \<noteq> None \<and> line_hint \<noteq> None then Inl TOOL_INVALID_ARGS
      else Inr ())"

definition check_expected :: "int option \<Rightarrow> nat \<Rightarrow> error_code + unit" where
  "check_expected expected actual =
     (case expected of
        None \<Rightarrow> Inr ()
      | Some n \<Rightarrow> if n \<noteq> int actual then Inl TOOL_INVALID_ARGS else Inr ())"

definition normalize_line_endings :: "ustr \<Rightarrow> ustr" where
  "normalize_line_endings value = py_replace [13] [10] (py_replace [13, 10] [10] value)"

section \<open>Exact edits\<close>

fun exact_occurrence_loop :: "ustr \<Rightarrow> ustr \<Rightarrow> nat \<Rightarrow> int \<Rightarrow> int \<Rightarrow> int" where
  "exact_occurrence_loop text needle 0 search_from found = found"
| "exact_occurrence_loop text needle (Suc n) search_from found =
     (let found' = py_find text needle (nat search_from)
      in exact_occurrence_loop text needle n (found' + int (length needle)) found')"

definition exact_occurrence_start :: "ustr \<Rightarrow> ustr \<Rightarrow> int \<Rightarrow> int" where
  "exact_occurrence_start text needle occurrence =
     exact_occurrence_loop text needle (nat occurrence) 0 (-1)"

text \<open>
  The two loops over the occurrences of a needle. A needle is never empty here: an empty
  \<open>old_text\<close> is refused before, and normalising line endings keeps a string non-empty.
\<close>

function nearest_exact_loop ::
  "ustr \<Rightarrow> ustr \<Rightarrow> int \<Rightarrow> nat \<Rightarrow> nat \<Rightarrow> nat \<Rightarrow> int \<Rightarrow> int option \<Rightarrow> bool \<Rightarrow> int \<times> bool" where
  "nearest_exact_loop text needle line_hint search_from line_cursor line best_start best_distance tied =
     (let found = py_find text needle search_from
      in if found < 0 \<or> needle = [] then (best_start, tied)
         else let line' = line + py_count [10] (py_slice text line_cursor (nat found));
                  distance = abs (int line' - line_hint)
              in if best_distance = None \<or> distance < the best_distance
                 then nearest_exact_loop text needle line_hint (nat found + length needle) (nat found)
                        line' found (Some distance) False
                 else nearest_exact_loop text needle line_hint (nat found + length needle) (nat found)
                        line' best_start best_distance
                        (if Some distance = best_distance then True else tied))"
  by pat_completeness auto

function iter_substring_loop :: "ustr \<Rightarrow> ustr \<Rightarrow> nat \<Rightarrow> nat \<Rightarrow> nat \<Rightarrow> edit_match list" where
  "iter_substring_loop text needle search_from line_cursor line =
     (let found = py_find text needle search_from
      in if found < 0 \<or> needle = [] then []
         else let line' = line + py_count [10] (py_slice text line_cursor (nat found))
              in \<lparr>m_start = nat found, m_end = nat found + length needle, m_line = line'\<rparr> #
                 iter_substring_loop text needle (nat found + length needle) (nat found) line')"
  by pat_completeness auto

lemma py_find_progress:
  assumes "\<not> (py_find t needle from < 0 \<or> needle = [])"
  shows "length t - (nat (py_find t needle from) + length needle) < length t - from"
  using assms py_find_nonneg [of t needle "from"] by (cases needle) auto

termination nearest_exact_loop
  by (relation "measure (\<lambda>(t, n, h, s, _). length t - s)") (auto intro: py_find_progress)

termination iter_substring_loop
  by (relation "measure (\<lambda>(t, n, s, _). length t - s)") (auto intro: py_find_progress)

declare nearest_exact_loop.simps [simp del] iter_substring_loop.simps [simp del]

definition nearest_exact_start :: "ustr \<Rightarrow> ustr \<Rightarrow> int \<Rightarrow> error_code + int" where
  "nearest_exact_start text needle line_hint =
     (let (best_start, tied) = nearest_exact_loop text needle line_hint 0 0 1 (-1) None False
      in if tied then Inl TOOL_AMBIGUOUS_EDIT else Inr best_start)"

definition exact_start :: "ustr \<Rightarrow> ustr \<Rightarrow> nat \<Rightarrow> int option \<Rightarrow> int option \<Rightarrow> error_code + int" where
  "exact_start text old_text count occurrence line_hint =
     (case occurrence of
        Some n \<Rightarrow> if n > int count then Inl TOOL_NO_MATCH
                  else Inr (exact_occurrence_start text old_text n)
      | None \<Rightarrow>
          (case line_hint of
             Some h \<Rightarrow> nearest_exact_start text old_text h
           | None \<Rightarrow> if count > 1 then Inl TOOL_AMBIGUOUS_EDIT
                     else Inr (py_find text old_text 0)))"

definition apply_exact_edit ::
  "ustr \<Rightarrow> ustr \<Rightarrow> ustr \<Rightarrow> bool \<Rightarrow> int option \<Rightarrow> int option \<Rightarrow> int option \<Rightarrow> int \<Rightarrow> bool \<Rightarrow>
   error_code + text_edit_result option" where
  "apply_exact_edit text old_text new_text replace_all occurrence line_hint expected_replacements
     current_size restore_crlf =
     (let count = py_count old_text text
      in if count = 0 then Inr None
         else if replace_all then
           bind_result (check_expected expected_replacements count) (\<lambda>_.
           bind_result (ensure_output_size (current_size + int count *
                          (rendered_utf8_size new_text restore_crlf -
                           rendered_utf8_size old_text restore_crlf))) (\<lambda>_.
           Inr (Some \<lparr>res_text = py_replace old_text new_text text, replacements = count,
                      res_match_level = Some EXACT, created = False\<rparr>)))
         else
           bind_result (exact_start text old_text count occurrence line_hint) (\<lambda>start.
           bind_result (check_expected expected_replacements 1) (\<lambda>_.
           bind_result (ensure_output_size (current_size - rendered_utf8_size old_text restore_crlf +
                          rendered_utf8_size new_text restore_crlf)) (\<lambda>_.
           Inr (Some \<lparr>res_text = take (nat start) text @ new_text @
                                 drop (nat start + length old_text) text,
                      replacements = 1, res_match_level = Some EXACT, created = False\<rparr>)))))"

section \<open>Trimmed line matches\<close>

definition is_line_break :: "nat \<Rightarrow> bool" where
  "is_line_break c \<longleftrightarrow> c \<in> {10, 11, 12, 28, 29, 30, 133, 8232, 8233}"

fun line_records_loop :: "ustr \<Rightarrow> ustr \<Rightarrow> nat \<Rightarrow> nat \<Rightarrow> bool \<Rightarrow> (nat \<times> nat \<times> ustr) list" where
  "line_records_loop text [] index start found_line =
     (if start < length text \<or> \<not> found_line then [(start, length text, drop start text)] else [])"
| "line_records_loop text (character # rest) index start found_line =
     (if \<not> is_line_break character then line_records_loop text rest (index + 1) start found_line
      else let stop = (if character = 10 then index else index + 1)
           in (start, stop, py_slice text start stop) #
              line_records_loop text rest (index + 1) (index + 1) True)"

definition line_records :: "ustr \<Rightarrow> (nat \<times> nat \<times> ustr) list" where
  "line_records text = line_records_loop text text 0 0 False"

text \<open>A line of the window: start, end, trimmed token, line number. The window keeps the last lines.\<close>

type_synonym window_line = "nat \<times> nat \<times> ustr \<times> nat"

definition window_append :: "nat \<Rightarrow> window_line list \<Rightarrow> window_line \<Rightarrow> window_line list" where
  "window_append maxlen window x =
     (let w = window @ [x] in drop (length w - maxlen) w)"

fun trimmed_loop ::
  "ustr list \<Rightarrow> nat list \<Rightarrow> (nat \<times> nat \<times> ustr) list \<Rightarrow> nat \<Rightarrow> nat \<Rightarrow> window_line list \<Rightarrow>
   edit_match list" where
  "trimmed_loop wanted table [] line_number matched window = []"
| "trimmed_loop wanted table ((start, stop, body) # rest) line_number matched window =
     (let token = py_strip body;
          window' = window_append (length wanted) window (start, stop, token, line_number);
          matched' = kmp_advance wanted table token matched
      in if matched' = length wanted
         then \<lparr>m_start = fst (hd window'), m_end = fst (snd (last window')),
               m_line = snd (snd (snd (hd window')))\<rparr> #
              trimmed_loop wanted table rest (line_number + 1) (table ! (matched' - 1)) window'
         else trimmed_loop wanted table rest (line_number + 1) matched' window')"

fun bounded_loop :: "edit_match list \<Rightarrow> edit_match list \<Rightarrow> error_code + edit_match list" where
  "bounded_loop bounded [] = Inr bounded"
| "bounded_loop bounded (m # rest) =
     (if length bounded = MAX_FUZZY_MATCH_CANDIDATES then Inl TOOL_AMBIGUOUS_EDIT
      else bounded_loop (bounded @ [m]) rest)"

definition bounded_fuzzy_matches :: "edit_match list \<Rightarrow> error_code + edit_match list" where
  "bounded_fuzzy_matches matches = bounded_loop [] matches"

definition trimmed_matches :: "ustr \<Rightarrow> ustr \<Rightarrow> error_code + edit_match list" where
  "trimmed_matches text needle =
     (let old_lines = py_splitlines needle
      in if old_lines = [] then Inr []
         else let wanted = map py_strip old_lines
              in bounded_fuzzy_matches
                   (trimmed_loop wanted (kmp_prefix wanted) (line_records text) 1 0 []))"

section \<open>Matches with normalised quotes\<close>

definition quote_normalization :: "nat \<Rightarrow> nat" where
  "quote_normalization c =
     (if c = 8216 \<or> c = 8217 then 39 else if c = 8220 \<or> c = 8221 then 34 else c)"

definition iter_substring_matches :: "ustr \<Rightarrow> ustr \<Rightarrow> edit_match list" where
  "iter_substring_matches text needle = iter_substring_loop text needle 0 0 1"

definition normalized_matches :: "ustr \<Rightarrow> ustr \<Rightarrow> error_code + edit_match list" where
  "normalized_matches text needle =
     bounded_fuzzy_matches (iter_substring_matches (map quote_normalization text)
       (map quote_normalization needle))"

section \<open>Selection\<close>

definition line_distance :: "int \<Rightarrow> edit_match \<Rightarrow> int" where
  "line_distance line_hint m = abs (int (m_line m) - line_hint)"

definition select_matches ::
  "edit_match list \<Rightarrow> bool \<Rightarrow> int option \<Rightarrow> int option \<Rightarrow> error_code + edit_match list" where
  "select_matches matches replace_all occurrence line_hint =
     (if replace_all then Inr matches
      else case occurrence of
        Some n \<Rightarrow> if n > int (length matches) then Inl TOOL_NO_MATCH
                  else Inr [matches ! nat (n - 1)]
      | None \<Rightarrow>
        (case line_hint of
           Some h \<Rightarrow>
             (let distances = map (line_distance h) matches;
                  nearest_distance = fold min (tl distances) (hd distances);
                  nearest = filter (\<lambda>m. line_distance h m = nearest_distance) matches
              in if length nearest = 1 then Inr nearest else Inl TOOL_AMBIGUOUS_EDIT)
         | None \<Rightarrow> if length matches > 1 then Inl TOOL_AMBIGUOUS_EDIT else Inr matches))"

section \<open>Indentation and quote style of the replacement\<close>

definition leading_whitespace :: "ustr \<Rightarrow> ustr" where
  "leading_whitespace value = take (length value - length (py_lstrip value)) value"

fun splitline_loop :: "ustr \<Rightarrow> ustr \<Rightarrow> nat \<Rightarrow> nat \<Rightarrow> ustr list" where
  "splitline_loop value [] index start = (if start < length value then [drop start value] else [])"
| "splitline_loop value (character # rest) index start =
     (if \<not> is_line_break character then splitline_loop value rest (index + 1) start
      else py_slice value start index # splitline_loop value rest (index + 1) (index + 1))"

definition splitline_values :: "ustr \<Rightarrow> ustr list" where
  "splitline_values value = splitline_loop value value 0 0"

fun base_indentation_loop :: "ustr list \<Rightarrow> ustr option \<Rightarrow> ustr option" where
  "base_indentation_loop [] smallest = smallest"
| "base_indentation_loop (line # rest) smallest =
     (if py_strip line = [] then base_indentation_loop rest smallest
      else let indent = leading_whitespace line
           in if smallest = None \<or> length indent < length (the smallest)
              then base_indentation_loop rest (Some indent)
              else base_indentation_loop rest smallest)"

definition base_indentation :: "ustr \<Rightarrow> ustr" where
  "base_indentation value =
     (case base_indentation_loop (splitline_values value) None of None \<Rightarrow> [] | Some s \<Rightarrow> s)"

function newline_values_from :: "ustr \<Rightarrow> nat \<Rightarrow> ustr list" where
  "newline_values_from value start =
     (let stop = py_find value [10] start
      in if stop < 0 then [drop start value]
         else py_slice value start (nat stop) # newline_values_from value (nat stop + 1))"
  by pat_completeness auto
termination
  by (relation "measure (\<lambda>(v, s). length v - s)")
    (auto dest: py_find_progress [of _ "[10]", simplified])

declare newline_values_from.simps [simp del]

definition newline_values :: "ustr \<Rightarrow> ustr list" where
  "newline_values value = newline_values_from value 0"

definition indented_line :: "ustr \<Rightarrow> ustr \<Rightarrow> ustr \<Rightarrow> ustr" where
  "indented_line old_indent target_indent line =
     (if line = [] then []
      else target_indent @
        (if old_indent \<noteq> [] \<and> py_startswith line old_indent then drop (length old_indent) line
         else line))"

fun indentation_loop :: "ustr \<Rightarrow> ustr \<Rightarrow> nat \<Rightarrow> ustr list \<Rightarrow> ustr" where
  "indentation_loop old_indent target_indent index [] = []"
| "indentation_loop old_indent target_indent index (line # rest) =
     (if index \<noteq> 0 then [10] else []) @ indented_line old_indent target_indent line @
     indentation_loop old_indent target_indent (index + 1) rest"

definition apply_target_indentation :: "ustr \<Rightarrow> ustr \<Rightarrow> ustr \<Rightarrow> ustr" where
  "apply_target_indentation old_text new_text matched_text =
     indentation_loop (base_indentation old_text) (base_indentation matched_text) 0
       (newline_values new_text)"

fun indented_size_loop :: "ustr \<Rightarrow> int \<Rightarrow> bool \<Rightarrow> nat \<Rightarrow> ustr list \<Rightarrow> int \<Rightarrow> int" where
  "indented_size_loop old_indent target_indent_size restore_crlf index [] tot = tot"
| "indented_size_loop old_indent target_indent_size restore_crlf index (line # rest) tot =
     (let tot1 = (if index \<noteq> 0 then tot + (if restore_crlf then 2 else 1) else tot)
      in if line = [] then
           indented_size_loop old_indent target_indent_size restore_crlf (index + 1) rest tot1
         else indented_size_loop old_indent target_indent_size restore_crlf (index + 1) rest
           (tot1 + target_indent_size +
            (if old_indent \<noteq> [] \<and> py_startswith line old_indent
             then utf8_size_range line (length old_indent) (length line) False
             else utf8_size line)))"

definition indented_replacement_size :: "ustr \<Rightarrow> ustr \<Rightarrow> ustr \<Rightarrow> bool \<Rightarrow> int" where
  "indented_replacement_size old_text new_text matched_text restore_crlf =
     indented_size_loop (base_indentation old_text) (utf8_size (base_indentation matched_text))
       restore_crlf 0 (newline_values new_text) 0"

fun quote_styles_loop :: "ustr \<Rightarrow> ustr \<Rightarrow> ustr \<Rightarrow> ustr \<times> ustr" where
  "quote_styles_loop [] doubles singles = (doubles, singles)"
| "quote_styles_loop (character # rest) doubles singles =
     (if character = 8220 \<or> character = 8221 \<or> character = 34
      then quote_styles_loop rest (doubles @ [character]) singles
      else if character = 8216 \<or> character = 8217 \<or> character = 39
      then quote_styles_loop rest doubles (singles @ [character])
      else quote_styles_loop rest doubles singles)"

definition quote_styles :: "ustr \<Rightarrow> ustr \<times> ustr" where
  "quote_styles matched_text = quote_styles_loop matched_text [] []"

fun render_quote_loop :: "ustr \<Rightarrow> ustr \<Rightarrow> ustr \<Rightarrow> nat \<Rightarrow> nat \<Rightarrow> ustr" where
  "render_quote_loop [] doubles singles di si = []"
| "render_quote_loop (character # rest) doubles singles di si =
     (if character = 34 \<and> doubles \<noteq> []
      then doubles ! min di (length doubles - 1) # render_quote_loop rest doubles singles (di + 1) si
      else if character = 39 \<and> singles \<noteq> []
      then singles ! min si (length singles - 1) # render_quote_loop rest doubles singles di (si + 1)
      else character # render_quote_loop rest doubles singles di si)"

definition render_quote_style :: "ustr \<Rightarrow> ustr \<Rightarrow> ustr \<Rightarrow> ustr" where
  "render_quote_style new_text doubles singles = render_quote_loop new_text doubles singles 0 0"

definition apply_target_quote_style :: "ustr \<Rightarrow> ustr \<Rightarrow> ustr" where
  "apply_target_quote_style new_text matched_text =
     (let (doubles, singles) = quote_styles matched_text
      in render_quote_style new_text doubles singles)"

fun quote_size_loop :: "ustr \<Rightarrow> ustr \<Rightarrow> ustr \<Rightarrow> bool \<Rightarrow> nat \<Rightarrow> nat \<Rightarrow> int \<Rightarrow> int" where
  "quote_size_loop [] doubles singles restore_crlf di si tot = tot"
| "quote_size_loop (character # rest) doubles singles restore_crlf di si tot =
     (let (rendered, di', si') =
            (if character = 34 \<and> doubles \<noteq> []
             then (doubles ! min di (length doubles - 1), di + 1, si)
             else if character = 39 \<and> singles \<noteq> []
             then (singles ! min si (length singles - 1), di, si + 1)
             else (character, di, si))
      in quote_size_loop rest doubles singles restore_crlf di' si'
           (tot + int (utf8_character_size rendered) +
            (if restore_crlf \<and> rendered = 10 then 1 else 0)))"

definition quote_style_replacement_size :: "ustr \<Rightarrow> ustr \<Rightarrow> bool \<Rightarrow> int" where
  "quote_style_replacement_size new_text matched_text restore_crlf =
     (let (doubles, singles) = quote_styles matched_text
      in quote_size_loop new_text doubles singles restore_crlf 0 0 0)"

section \<open>Pieces\<close>

definition piece_before :: "nat \<Rightarrow> nat \<Rightarrow> ustr \<Rightarrow> ustr list" where
  "piece_before start position piece =
     (if position + length piece \<le> start then [piece]
      else if position < start then [take (start - position) piece] else [])"

definition piece_after :: "nat \<Rightarrow> nat \<Rightarrow> ustr \<Rightarrow> ustr list" where
  "piece_after stop position piece =
     (if position \<ge> stop then [piece]
      else if position + length piece > stop then [drop (stop - position) piece] else [])"

fun splice_loop ::
  "ustr list \<Rightarrow> nat \<Rightarrow> nat \<Rightarrow> nat \<Rightarrow> ustr list \<Rightarrow> ustr list \<Rightarrow> ustr list \<times> ustr list" where
  "splice_loop [] start stop position pre suf = (pre, suf)"
| "splice_loop (piece # rest) start stop position pre suf =
     splice_loop rest start stop (position + length piece)
       (pre @ piece_before start position piece) (suf @ piece_after stop position piece)"

definition splice_pieces :: "ustr list \<Rightarrow> nat \<Rightarrow> nat \<Rightarrow> ustr \<Rightarrow> ustr list" where
  "splice_pieces pieces start stop replacement =
     (let (pre, suf) = splice_loop pieces start stop 0 [] [] in pre @ [replacement] @ suf)"

definition piece_overlap_size :: "nat \<Rightarrow> nat \<Rightarrow> bool \<Rightarrow> nat \<Rightarrow> ustr \<Rightarrow> int" where
  "piece_overlap_size start stop restore_crlf position piece =
     (let overlap_start = max start position;
          overlap_end = min stop (position + length piece)
      in if overlap_start < overlap_end
         then utf8_size_range piece (overlap_start - position) (overlap_end - position) restore_crlf
         else 0)"

fun pieces_range_loop :: "ustr list \<Rightarrow> nat \<Rightarrow> nat \<Rightarrow> bool \<Rightarrow> nat \<Rightarrow> int \<Rightarrow> int" where
  "pieces_range_loop [] start stop restore_crlf position tot = tot"
| "pieces_range_loop (piece # rest) start stop restore_crlf position tot =
     pieces_range_loop rest start stop restore_crlf (position + length piece)
       (tot + piece_overlap_size start stop restore_crlf position piece)"

definition pieces_range_size :: "ustr list \<Rightarrow> nat \<Rightarrow> nat \<Rightarrow> bool \<Rightarrow> int" where
  "pieces_range_size pieces start stop restore_crlf =
     pieces_range_loop pieces start stop restore_crlf 0 0"

definition fuzzy_replacement_size :: "match_level \<Rightarrow> ustr \<Rightarrow> ustr \<Rightarrow> ustr \<Rightarrow> bool \<Rightarrow> int" where
  "fuzzy_replacement_size level old_text new_text matched_text restore_crlf =
     (if level = TRIMMED then indented_replacement_size old_text new_text matched_text restore_crlf
      else quote_style_replacement_size new_text matched_text restore_crlf)"

definition fuzzy_replacement :: "match_level \<Rightarrow> ustr \<Rightarrow> ustr \<Rightarrow> ustr \<Rightarrow> ustr" where
  "fuzzy_replacement level old_text new_text matched_text =
     (if level = TRIMMED then apply_target_indentation old_text new_text matched_text
      else apply_target_quote_style new_text matched_text)"

fun fuzzy_loop ::
  "ustr \<Rightarrow> ustr \<Rightarrow> ustr \<Rightarrow> match_level \<Rightarrow> bool \<Rightarrow> edit_match list \<Rightarrow> ustr list \<Rightarrow> int \<Rightarrow>
   error_code + ustr list" where
  "fuzzy_loop text old_text new_text level restore_crlf [] pieces current_size = Inr pieces"
| "fuzzy_loop text old_text new_text level restore_crlf (m # rest) pieces current_size =
     (let matched_text = py_slice text (m_start m) (m_end m);
          removed_size = pieces_range_size pieces (m_start m) (m_end m) restore_crlf;
          replacement_size = fuzzy_replacement_size level old_text new_text matched_text restore_crlf;
          projected_size = current_size - removed_size + replacement_size
      in bind_result (ensure_output_size projected_size) (\<lambda>_.
           fuzzy_loop text old_text new_text level restore_crlf rest
             (splice_pieces pieces (m_start m) (m_end m)
                (fuzzy_replacement level old_text new_text matched_text))
             projected_size))"

definition apply_fuzzy_replacements ::
  "ustr \<Rightarrow> ustr \<Rightarrow> ustr \<Rightarrow> edit_match list \<Rightarrow> match_level \<Rightarrow> int \<Rightarrow> bool \<Rightarrow> error_code + ustr" where
  "apply_fuzzy_replacements text old_text new_text selected level current_size restore_crlf =
     bind_result (fuzzy_loop text old_text new_text level restore_crlf (rev selected) [text] current_size)
       (\<lambda>pieces. Inr (concat pieces))"

section \<open>The edit\<close>

definition fuzzy_matches :: "ustr \<Rightarrow> ustr \<Rightarrow> error_code + edit_match list \<times> match_level" where
  "fuzzy_matches text old_text =
     bind_result (trimmed_matches text old_text) (\<lambda>matches.
       if matches \<noteq> [] then Inr (matches, TRIMMED)
       else bind_result (normalized_matches text old_text) (\<lambda>matches.
         if matches = [] then Inl TOOL_NO_MATCH else Inr (matches, NORMALIZED)))"

definition restore_line_endings :: "bool \<Rightarrow> ustr \<Rightarrow> ustr" where
  "restore_line_endings restore_crlf edited =
     (if restore_crlf then py_replace [10] [13, 10] edited else edited)"

definition edit_existing ::
  "ustr \<Rightarrow> ustr \<Rightarrow> ustr \<Rightarrow> bool \<Rightarrow> int option \<Rightarrow> int option \<Rightarrow> int option \<Rightarrow>
   error_code + text_edit_result" where
  "edit_existing text old_text new_text replace_all occurrence line_hint expected_replacements =
     (let restore_crlf = py_contains text [13, 10];
          normalized_text = normalize_line_endings text;
          normalized_old = normalize_line_endings old_text;
          normalized_new = normalize_line_endings new_text;
          current_size = rendered_utf8_size normalized_text restore_crlf
      in bind_result (apply_exact_edit normalized_text normalized_old normalized_new replace_all
                        occurrence line_hint expected_replacements current_size restore_crlf) (\<lambda>exact.
         case exact of
           Some r \<Rightarrow> Inr (r\<lparr>res_text := restore_line_endings restore_crlf (res_text r)\<rparr>)
         | None \<Rightarrow>
             bind_result (fuzzy_matches normalized_text normalized_old) (\<lambda>(matches, level).
             bind_result (select_matches matches replace_all occurrence line_hint) (\<lambda>selected.
             bind_result (check_expected expected_replacements (length selected)) (\<lambda>_.
             bind_result (apply_fuzzy_replacements normalized_text normalized_old normalized_new
                            selected level current_size restore_crlf) (\<lambda>edited.
             Inr \<lparr>res_text = restore_line_endings restore_crlf edited,
                  replacements = length selected, res_match_level = Some level,
                  created = False\<rparr>))))))"

definition apply_text_edit ::
  "ustr option \<Rightarrow> ustr \<Rightarrow> ustr \<Rightarrow> bool \<Rightarrow> int option \<Rightarrow> int option \<Rightarrow> int option \<Rightarrow>
   error_code + text_edit_result" where
  "apply_text_edit text old_text new_text replace_all occurrence line_hint expected_replacements =
     bind_result (validate_selectors replace_all occurrence line_hint expected_replacements) (\<lambda>_.
       case text of
         None \<Rightarrow>
           if old_text \<noteq> [] then Inl TOOL_NO_MATCH
           else bind_result (check_expected expected_replacements 0) (\<lambda>_.
                bind_result (ensure_output_size (utf8_size new_text)) (\<lambda>_.
                Inr \<lparr>res_text = new_text, replacements = 0, res_match_level = None,
                     created = True\<rparr>))
       | Some t \<Rightarrow>
           if old_text = [] then Inl TOOL_INVALID_ARGS
           else edit_existing t old_text new_text replace_all occurrence line_hint
                  expected_replacements)"

section \<open>Sizes are sums of character costs\<close>

definition char_cost :: "bool \<Rightarrow> nat \<Rightarrow> int" where
  "char_cost crlf c = int (utf8_character_size c) + (if crlf \<and> c = 10 then 1 else 0)"

definition text_cost :: "bool \<Rightarrow> ustr \<Rightarrow> int" where
  "text_cost crlf s = sum_list (map (char_cost crlf) s)"

lemma text_cost_simps [simp]:
  "text_cost b [] = 0"
  "text_cost b (c # s) = char_cost b c + text_cost b s"
  "text_cost b (s @ t) = text_cost b s + text_cost b t"
  by (simp_all add: text_cost_def)

lemma text_cost_no_newline: "10 \<notin> set s \<Longrightarrow> text_cost b s = text_cost False s"
  by (induction s) (auto simp: char_cost_def)

lemma utf8_size_cost [size_simps]: "utf8_size s = text_cost False s"
proof -
  have "py_isascii s \<Longrightarrow> text_cost False s = int (length s)"
    by (induction s) (auto simp: py_isascii_def char_cost_def utf8_character_size_def)
  moreover have "sum_list (map (\<lambda>c. int (utf8_character_size c)) s) = text_cost False s"
    by (induction s) (simp_all add: char_cost_def)
  ultimately show ?thesis by (simp add: utf8_size_def)
qed

lemma text_cost_crlf: "text_cost True s = text_cost False s + int (count_list s 10)"
  by (induction s) (auto simp: char_cost_def)

lemma rendered_utf8_size_cost [size_simps]: "rendered_utf8_size s b = text_cost b s"
  by (simp add: rendered_utf8_size_def utf8_size_cost text_cost_crlf py_count_single)

lemma utf8_size_chars_cost: "utf8_size_chars s b t = t + text_cost b s"
  by (induction s arbitrary: t) (auto simp: char_cost_def)

lemma utf8_size_range_cost [size_simps]: "utf8_size_range v s e b = text_cost b (py_slice v s e)"
  by (simp add: utf8_size_range_def utf8_size_chars_cost)

lemma length_utf8_encode_cost: "int (length (utf8_encode s)) = text_cost False s"
  by (induction s) (simp_all add: utf8_encode_def char_cost_def)

lemma restore_line_endings_cost:
  "int (length (utf8_encode (restore_line_endings b s))) = text_cost b s"
proof (cases b)
  case True
  have "text_cost False (concat (map (\<lambda>x. if x = 10 then [13, 10] else [x]) s)) = text_cost True s"
    by (induction s) (auto simp: char_cost_def utf8_character_size_def)
  with True show ?thesis
    by (simp add: restore_line_endings_def length_utf8_encode_cost py_replace_single)
qed (simp add: restore_line_endings_def length_utf8_encode_cost)

lemma text_cost_split:
  assumes "s \<le> e"
  shows "text_cost b t = text_cost b (take s t) + text_cost b (py_slice t s e) + text_cost b (drop e t)"
proof -
  have "drop s t = take (e - s) (drop s t) @ drop e t"
    using assms append_take_drop_id [of "e - s" "drop s t"] by simp
  then have "t = take s t @ py_slice t s e @ drop e t"
    unfolding py_slice_def by (metis append_take_drop_id)
  then have "text_cost b t = text_cost b (take s t @ py_slice t s e @ drop e t)" by (rule arg_cong)
  then show ?thesis by simp
qed

subsection \<open>Pieces\<close>

lemma splice_loop_concat:
  "splice_loop ps s e p pre suf = (a, c) \<Longrightarrow>
   concat a = concat pre @ take (s - p) (concat ps) \<and> concat c = concat suf @ drop (e - p) (concat ps)"
proof (induction ps arbitrary: p pre suf)
  case (Cons x ps)
  have "concat (piece_before s p x) @ take (s - (p + length x)) (concat ps) = take (s - p) (x @ concat ps)"
    by (auto simp: piece_before_def)
  moreover have "concat (piece_after e p x) @ drop (e - (p + length x)) (concat ps) = drop (e - p) (x @ concat ps)"
    by (auto simp: piece_after_def)
  ultimately show ?case using Cons by fastforce
qed simp

lemma splice_pieces_concat:
  "concat (splice_pieces ps s e r) = take s (concat ps) @ r @ drop e (concat ps)"
  using splice_loop_concat [of ps s e 0 "[]" "[]"]
  by (cases "splice_loop ps s e 0 [] []") (auto simp: splice_pieces_def)

lemma piece_overlap_cost:
  "piece_overlap_size s e b p x = text_cost b (py_slice x (s - p) (e - p))"
proof -
  have "min e (p + length x) - p - (max s p - p) = min (e - p - (s - p)) (length x - (s - p))" by arith
  moreover have "max s p - p = s - p" by simp
  moreover have "py_slice x (s - p) (e - p) = []" if "\<not> max s p < min e (p + length x)"
    using that by (auto simp: py_slice_def)
  ultimately show ?thesis
    by (auto simp: piece_overlap_size_def Let_def size_simps py_slice_def min_def)
qed

lemma py_slice_append:
  "py_slice (x @ y) a b = py_slice x a b @ py_slice y (a - length x) (b - length x)"
  by (cases "length x \<le> a") (auto simp: py_slice_def)

lemma pieces_range_loop_cost:
  "pieces_range_loop ps s e b p t = t + text_cost b (py_slice (concat ps) (s - p) (e - p))"
proof (induction ps arbitrary: p t)
  case Nil
  then show ?case by (simp add: py_slice_def)
next
  case (Cons x ps)
  then show ?case by (simp add: piece_overlap_cost py_slice_append)
qed

lemma pieces_range_size_cost [size_simps]:
  "pieces_range_size ps s e b = text_cost b (py_slice (concat ps) s e)"
  by (simp add: pieces_range_size_def pieces_range_loop_cost)

subsection \<open>Replacements\<close>

lemma newline_values_from_split:
  "start \<le> length v \<Longrightarrow> newline_values_from v start = py_split 10 (drop start v)"
proof (induction v start rule: newline_values_from.induct)
  case (1 v start)
  show ?case
  proof (cases "py_index [10] (drop start v)")
    case None
    then have "10 \<notin> set (drop start v)" by (simp add: py_index_single_None)
    with None 1 show ?thesis
      by (subst newline_values_from.simps) (simp add: py_find_def py_split_def py_split_acc_plain)
  next
    case (Some i)
    define w where "w = drop start v"
    have w: "py_index [10] w = Some i" "start + i + 1 \<le> length v"
      using Some py_index_bound [OF Some] 1(2) by (simp_all add: w_def)
    have found: "py_find v [10] start = int (start + i)"
      using Some 1(2) by (simp add: py_find_def)
    have next_line: "newline_values_from v (start + i + 1) = py_split 10 (drop (i + 1) w)"
      using 1 found w(2) by (simp add: w_def add.commute nat_add_distrib)
    have "10 \<notin> set (take i w)" using w(1) by (rule py_index_single_notin)
    moreover have "w = take i w @ 10 # drop (i + 1) w"
      using py_index_Some_split [OF w(1)] by simp
    ultimately have "py_split 10 w = take i w # py_split 10 (drop (i + 1) w)"
      by (metis append.left_neutral append_Cons py_split_acc_append py_split_acc_plain py_split_def
          rev.simps(1))
    moreover have "newline_values_from v start = take i w # newline_values_from v (start + i + 1)"
      using found by (subst newline_values_from.simps) (simp add: py_slice_def w_def nat_add_distrib)
    ultimately show ?thesis using next_line by (simp add: w_def)
  qed
qed

lemma newline_values_split: "newline_values value = py_split 10 value"
  by (simp add: newline_values_def newline_values_from_split)

lemma indentation_loop_join:
  "indentation_loop old target index lines =
     (if index \<noteq> 0 \<and> lines \<noteq> [] then [10] else []) @ py_join [10] (map (indented_line old target) lines)"
proof (induction lines arbitrary: index)
  case (Cons x lines)
  then show ?case by (cases lines) auto
qed simp

text \<open>The rendering of a replacement is a map over its lines.\<close>

lemma apply_target_indentation_lines:
  "apply_target_indentation old_text new_text matched_text =
     py_join [10] (map (indented_line (base_indentation old_text) (base_indentation matched_text))
       (py_split 10 new_text))"
  by (simp add: apply_target_indentation_def newline_values_split indentation_loop_join)

lemma indented_size_loop_cost:
  assumes "\<forall>x \<in> set lines. 10 \<notin> set x" and "10 \<notin> set target"
  shows "indented_size_loop old (text_cost False target) b index lines t =
    t + text_cost b (indentation_loop old target index lines)"
  using assms(1)
proof (induction lines arbitrary: index t)
  case (Cons x lines)
  have x: "10 \<notin> set x" using Cons.prems by simp
  have x': "10 \<notin> set (drop n x)" for n using x by (meson in_set_dropD)
  have slice: "py_slice x n (length x) = drop n x" for n by (simp add: py_slice_def)
  have target: "text_cost b target = text_cost False target"
    using assms(2) by (rule text_cost_no_newline)
  have costs: "text_cost b x = text_cost False x" "text_cost b (drop n x) = text_cost False (drop n x)" for n
    using x x' text_cost_no_newline by blast+
  have newline: "char_cost b 10 = (if b then 2 else 1)"
    by (simp add: char_cost_def utf8_character_size_def)
  show ?case
    using Cons by (simp add: Let_def indented_line_def size_simps slice target costs newline)
qed simp

lemma splitline_loop_no_break:
  assumes "value = done @ rest" and "index = length done" and "start \<le> index"
    and "\<forall>c \<in> set (drop start done). \<not> is_line_break c"
  shows "\<forall>x \<in> set (splitline_loop value rest index start). \<forall>c \<in> set x. \<not> is_line_break c"
  using assms
proof (induction rest arbitrary: "done" index start)
  case Nil
  then show ?case by auto
next
  case (Cons c rest)
  have shift: "value = (done @ [c]) @ rest" "index + 1 = length (done @ [c])"
    using Cons.prems by simp_all
  show ?case
  proof (cases "is_line_break c")
    case True
    have "py_slice value start index = drop start done"
      using Cons.prems by (simp add: py_slice_def)
    moreover have "\<forall>x \<in> set (splitline_loop value rest (index + 1) (index + 1)).
        \<forall>c \<in> set x. \<not> is_line_break c"
      by (rule Cons.IH [OF shift]) (use Cons.prems in auto)
    ultimately show ?thesis using True Cons.prems by simp
  next
    case False
    have "\<forall>x \<in> set (splitline_loop value rest (index + 1) start). \<forall>c \<in> set x. \<not> is_line_break c"
      by (rule Cons.IH [OF shift]) (use Cons.prems False in auto)
    with False show ?thesis by simp
  qed
qed

lemma splitline_values_no_break:
  "x \<in> set (splitline_values v) \<Longrightarrow> c \<in> set x \<Longrightarrow> \<not> is_line_break c"
  using splitline_loop_no_break [of v "[]" v 0 0] by (auto simp: splitline_values_def)

lemma base_indentation_loop_chars:
  assumes "\<forall>x \<in> set lines. 10 \<notin> set x"
    and "\<forall>s. smallest = Some s \<longrightarrow> 10 \<notin> set s"
    and "base_indentation_loop lines smallest = Some s"
  shows "10 \<notin> set s"
  using assms
proof (induction lines arbitrary: smallest)
  case (Cons x lines)
  have "10 \<notin> set (leading_whitespace x)"
    using Cons.prems(1) by (auto simp: leading_whitespace_def dest: in_set_takeD)
  with Cons show ?case
    by (cases "smallest = None \<or> length (leading_whitespace x) < length (the smallest)";
        cases "py_strip x = []") (auto simp: Let_def)
qed simp

lemma base_indentation_no_newline: "10 \<notin> set (base_indentation v)"
proof (cases "base_indentation_loop (splitline_values v) None")
  case (Some s)
  have "\<forall>x \<in> set (splitline_values v). 10 \<notin> set x"
    using splitline_values_no_break [of _ v 10] by (auto simp: is_line_break_def)
  from base_indentation_loop_chars [OF this _ Some] Some show ?thesis
    by (simp add: base_indentation_def)
qed (simp add: base_indentation_def)

lemma indented_replacement_size_cost:
  "indented_replacement_size old_text new_text matched_text b =
     text_cost b (apply_target_indentation old_text new_text matched_text)"
proof -
  have "\<forall>x \<in> set (newline_values new_text). 10 \<notin> set x"
    by (auto simp: newline_values_split dest: py_split_no_sep)
  then show ?thesis
    unfolding indented_replacement_size_def apply_target_indentation_def
    by (simp add: utf8_size_cost indented_size_loop_cost base_indentation_no_newline)
qed

lemma quote_size_loop_cost:
  "quote_size_loop s ds ss b di si t = t + text_cost b (render_quote_loop s ds ss di si)"
  by (induction s arbitrary: di si t) (simp_all add: char_cost_def Let_def)

lemma quote_style_replacement_size_cost:
  "quote_style_replacement_size new_text matched_text b =
     text_cost b (apply_target_quote_style new_text matched_text)"
  by (simp add: quote_style_replacement_size_def apply_target_quote_style_def render_quote_style_def
      quote_size_loop_cost split: prod.split)

text \<open>The projected size of a replacement is the size of the replacement that is rendered.\<close>

lemma fuzzy_replacement_size_cost [size_simps]:
  "fuzzy_replacement_size level old_text new_text matched_text b =
     text_cost b (fuzzy_replacement level old_text new_text matched_text)"
  by (simp add: fuzzy_replacement_size_def fuzzy_replacement_def indented_replacement_size_cost
      quote_style_replacement_size_cost)

section \<open>The line search finds the naive windows\<close>

definition numbered_lines :: "nat \<Rightarrow> (nat \<times> nat \<times> ustr) list \<Rightarrow> window_line list" where
  "numbered_lines n recs = map (\<lambda>(i, (s, e, b)). (s, e, py_strip b, i)) (enumerate n recs)"

definition line_token :: "window_line \<Rightarrow> ustr" where
  "line_token l = fst (snd (snd l))"

definition window_match :: "window_line \<Rightarrow> window_line \<Rightarrow> edit_match" where
  "window_match first final =
     \<lparr>m_start = fst first, m_end = fst (snd final), m_line = snd (snd (snd first))\<rparr>"

text \<open>
  The reference: for every line in order, the window of as many lines as the pattern has that
  ends at it, whenever the trimmed lines of the window are the trimmed lines of the pattern.
\<close>

definition naive_windows :: "ustr list \<Rightarrow> window_line list \<Rightarrow> nat list \<Rightarrow> edit_match list" where
  "naive_windows wanted ls ends =
     map (\<lambda>e. window_match (ls ! (e + 1 - length wanted)) (ls ! e))
       (filter (\<lambda>e. length wanted \<le> e + 1 \<and>
          map line_token (py_slice ls (e + 1 - length wanted) (e + 1)) = wanted) ends)"

lemma numbered_lines_Cons [simp]:
  "numbered_lines n ((s, e, b) # recs) = (s, e, py_strip b, n) # numbered_lines (Suc n) recs"
  by (simp add: numbered_lines_def)

lemma naive_windows_Cons:
  "naive_windows wanted ls (e # es) =
     (if length wanted \<le> e + 1 \<and>
         map line_token (py_slice ls (e + 1 - length wanted) (e + 1)) = wanted
      then [window_match (ls ! (e + 1 - length wanted)) (ls ! e)] else []) @ naive_windows wanted ls es"
  by (simp add: naive_windows_def)

lemma length_numbered_lines [simp]: "length (numbered_lines n recs) = length recs"
  by (simp add: numbered_lines_def)

lemma suffix_iff_drop: "suffix w t \<longleftrightarrow> length w \<le> length t \<and> drop (length t - length w) t = w"
proof
  assume "suffix w t"
  then obtain zs where "t = zs @ w" by (auto simp: suffix_def)
  then show "length w \<le> length t \<and> drop (length t - length w) t = w" by simp
next
  assume "length w \<le> length t \<and> drop (length t - length w) t = w"
  then show "suffix w t" by (metis suffix_drop)
qed

lemma suffix_window:
  assumes "e < length ls"
  shows "suffix wanted (map line_token (take (Suc e) ls)) \<longleftrightarrow>
    length wanted \<le> e + 1 \<and>
    map line_token (py_slice ls (e + 1 - length wanted) (e + 1)) = wanted"
proof -
  have eq: "py_slice ls (e + 1 - n) (e + 1) = drop (e + 1 - n) (take (Suc e) ls)" for n
    by (simp add: py_slice_def drop_take)
  have len: "length (map line_token (take (Suc e) ls)) = e + 1" using assms by simp
  show ?thesis unfolding suffix_iff_drop len by (simp only: eq drop_map)
qed

lemma window_append_seen:
  "window_append n (drop (length seen - n) seen) x = drop (length (seen @ [x]) - n) (seen @ [x])"
  if "0 < n"
proof (cases "length seen < n")
  case True
  with that show ?thesis by (simp add: window_append_def Let_def)
next
  case False
  with that show ?thesis by (simp add: window_append_def Let_def Suc_diff_le)
qed

lemma trimmed_loop_naive:
  assumes "wanted \<noteq> []" and "border_table wanted table (length wanted)"
    and "longest wanted (length wanted - 1) (map line_token seen) k"
  shows "trimmed_loop wanted table recs (Suc (length seen)) k
      (drop (length seen - length wanted) seen) =
    naive_windows wanted (seen @ numbered_lines (Suc (length seen)) recs)
      [length seen..<length seen + length recs]"
  using assms(3)
proof (induction recs arbitrary: seen k)
  case Nil
  then show ?case by (simp add: naive_windows_def)
next
  case (Cons r recs)
  obtain s e b where r: "r = (s, e, b)" by (cases r)
  define n where "n = length wanted"
  define x where "x = (s, e, py_strip b, Suc (length seen))"
  define seen' where "seen' = seen @ [x]"
  define ls where "ls = seen @ numbered_lines (Suc (length seen)) (r # recs)"
  have ls: "ls = seen' @ numbered_lines (Suc (length seen')) recs"
    by (simp add: ls_def r x_def seen'_def)
  have length_seen': "length seen' = Suc (length seen)" by (simp add: seen'_def)
  have n: "0 < n" using assms(1) by (simp add: n_def)
  have token: "line_token x = py_strip b" by (simp add: x_def line_token_def)
  define k' where "k' = kmp_next wanted table (py_strip b) k"
  have step: "kmp_advance wanted table (py_strip b) k = n \<longleftrightarrow> suffix wanted (map line_token seen')"
    "longest wanted (n - 1) (map line_token seen') k'"
    using kmp_search_step [OF assms(2,1) Cons.prems, of "py_strip b"]
    by (simp_all add: n_def seen'_def token k'_def)
  have IH: "trimmed_loop wanted table recs (Suc (length seen')) k' (drop (length seen' - n) seen') =
    naive_windows wanted ls [length seen'..<length seen' + length recs]"
    unfolding ls n_def by (rule Cons.IH) (use step(2) in \<open>simp add: n_def\<close>)
  have window: "window_append n (drop (length seen - n) seen) x = drop (length seen' - n) seen'"
    unfolding seen'_def using n by (rule window_append_seen)
  have take_ls: "take (Suc (length seen)) ls = seen'" by (simp add: ls seen'_def)
  have cond: "suffix wanted (map line_token seen') \<longleftrightarrow> n \<le> length seen + 1 \<and>
    map line_token (py_slice ls (length seen + 1 - n) (length seen + 1)) = wanted"
    using suffix_window [of "length seen" ls wanted] take_ls
    by (simp add: ls seen'_def n_def)
  have split: "[length seen..<length seen + length (r # recs)] =
    length seen # [length seen'..<length seen' + length recs]"
    using upt_conv_Cons [of "length seen" "length seen + length (r # recs)"] by (simp add: seen'_def)
  have matched: "window_match (hd (drop (length seen' - n) seen')) (last (drop (length seen' - n) seen')) =
    window_match (ls ! (length seen + 1 - n)) (ls ! length seen)" if "n \<le> length seen + 1"
  proof -
    have "drop (length seen' - n) seen' \<noteq> []" using n by (simp add: seen'_def)
    moreover have "length seen' - n < length seen'" using n by (simp add: seen'_def)
    ultimately show ?thesis
      using n by (simp add: hd_drop_conv_nth last_drop ls nth_append) (simp add: seen'_def)
  qed
  define W where "W = drop (length seen' - n) seen'"
  have "trimmed_loop wanted table (r # recs) (Suc (length seen)) k (drop (length seen - n) seen) =
    (if suffix wanted (map line_token seen') then [window_match (hd W) (last W)] else []) @
    trimmed_loop wanted table recs (Suc (length seen')) k' W"
    using step(1) window [folded W_def]
    by (simp add: r Let_def n_def [symmetric] x_def [symmetric] window_match_def
        k'_def kmp_next_def length_seen' split: if_splits)
  then show ?case
    unfolding ls_def [symmetric] split naive_windows_Cons n_def [symmetric]
    using IH cond matched by (simp add: W_def)
qed

section \<open>Occurrences\<close>

lemma py_find_cases:
  assumes "from \<le> length t"
  obtains "py_index n (drop from t) = None" "py_find t n from = -1"
  | i where "py_index n (drop from t) = Some i" "py_find t n from = int (from + i)"
  using assms by (cases "py_index n (drop from t)") (auto simp: py_find_def)

lemma iter_substring_None:
  assumes "n \<noteq> []" "from \<le> length t" "py_index n (drop from t) = None"
  shows "iter_substring_loop t n from c l = []"
  using assms by (subst iter_substring_loop.simps) (simp add: py_find_def)

lemma iter_substring_Some:
  assumes "n \<noteq> []" "from \<le> length t" "py_index n (drop from t) = Some i"
  shows "iter_substring_loop t n from c l =
    (let line = l + py_count [10] (py_slice t c (from + i))
     in \<lparr>m_start = from + i, m_end = from + i + length n, m_line = line\<rparr> #
        iter_substring_loop t n (from + i + length n) (from + i) line)"
  using assms by (subst iter_substring_loop.simps) (simp add: py_find_def Let_def nat_add_distrib)

lemma occurrence_bound:
  assumes "from \<le> length t" "py_index n (drop from t) = Some i"
  shows "from + i + length n \<le> length t"
  using py_index_bound [OF assms(2)] assms(1) by simp

text \<open>Induction over the occurrences of a needle from a position on.\<close>

lemma occurrence_induct [consumes 2, case_names None Some]:
  assumes "n \<noteq> []" "from \<le> length t"
    and none: "\<And>from. from \<le> length t \<Longrightarrow> py_index n (drop from t) = None \<Longrightarrow> P from"
    and some: "\<And>from i. from \<le> length t \<Longrightarrow> py_index n (drop from t) = Some i \<Longrightarrow>
      P (from + i + length n) \<Longrightarrow> P from"
  shows "P from"
  using assms(2)
proof (induction "length t - from" arbitrary: "from" rule: less_induct)
  case less
  show ?case
  proof (cases "py_index n (drop from t)")
    case None
    with less.prems show ?thesis by (rule none)
  next
    case (Some i)
    have pos: "0 < length n" using assms(1) by simp
    note bound = occurrence_bound [OF less.prems Some]
    have "P (from + i + length n)"
      by (rule less.hyps) (use pos bound in linarith)+
    with less.prems Some show ?thesis by (rule some)
  qed
qed

lemma length_iter_substring:
  assumes "n \<noteq> []" "from \<le> length t"
  shows "length (iter_substring_loop t n from c l) = py_count n (drop from t)"
  using assms
proof (induction arbitrary: c l rule: occurrence_induct)
  case (None "from")
  then show ?case using assms(1) by (subst py_count.simps) (simp add: iter_substring_None)
next
  case (Some "from" i)
  then show ?case
    using assms(1) by (subst py_count.simps) (simp add: iter_substring_Some Let_def ac_simps)
qed

lemma exact_occurrence_loop_nth:
  assumes "n \<noteq> []" "from \<le> length t" "k < length (iter_substring_loop t n from c l)"
  shows "exact_occurrence_loop t n (Suc k) (int from) f = int (m_start (iter_substring_loop t n from c l ! k))"
  using assms
proof (induction arbitrary: k c l f rule: occurrence_induct)
  case (None "from")
  then show ?case using assms(1) by (simp add: iter_substring_None)
next
  case (Some "from" i)
  have find: "py_find t n (nat (int from)) = int (from + i)" using Some by (simp add: py_find_def)
  show ?case
  proof (cases k)
    case 0
    then show ?thesis using Some assms(1) find by (simp add: iter_substring_Some Let_def)
  next
    case (Suc k')
    define l' where "l' = l + py_count [10] (py_slice t c (from + i))"
    have ms: "iter_substring_loop t n from c l = \<lparr>m_start = from + i, m_end = from + i + length n, m_line = l'\<rparr> #
        iter_substring_loop t n (from + i + length n) (from + i) l'"
      using Some assms(1) by (simp add: iter_substring_Some Let_def l'_def)
    have "exact_occurrence_loop t n (Suc k') (int (from + i + length n)) (int (from + i)) =
      int (m_start (iter_substring_loop t n (from + i + length n) (from + i) l' ! k'))"
      by (rule Some.IH) (use Some.prems ms Suc in auto)
    then show ?thesis using ms find Suc by (simp add: Let_def)
  qed
qed

lemma iter_substring_in:
  assumes "n \<noteq> []" "from \<le> length t" "m \<in> set (iter_substring_loop t n from c l)"
  shows "m_end m = m_start m + length n \<and> m_end m \<le> length t \<and> from \<le> m_start m \<and>
    py_slice t (m_start m) (m_end m) = n"
  using assms
proof (induction arbitrary: c l rule: occurrence_induct)
  case (None "from")
  then show ?case using assms(1) by (simp add: iter_substring_None)
next
  case (Some "from" i)
  have bound: "from + i + length n \<le> length t"
    using Some.hyps by (rule occurrence_bound)
  have "drop (from + i) t = drop i (take i (drop from t) @ n @ drop (i + length n) (drop from t))"
    using arg_cong [OF py_index_Some_split [OF Some.hyps(2)], of "drop i"] by (simp add: add.commute)
  moreover have "i \<le> length (drop from t)" using bound by simp
  ultimately have "py_slice t (from + i) (from + i + length n) = n" by (simp add: py_slice_def)
  then show ?case
    using Some.IH [of "from + i" "l + py_count [10] (py_slice t c (from + i))"] Some.prems bound
      iter_substring_Some [OF assms(1) Some.hyps, of c l]
    by (auto simp: Let_def)
qed

subsection \<open>The nearest occurrence\<close>

fun near_fold :: "int \<Rightarrow> edit_match list \<Rightarrow> int \<Rightarrow> int option \<Rightarrow> bool \<Rightarrow> int \<times> bool" where
  "near_fold h [] best bd tied = (best, tied)"
| "near_fold h (m # ms) best bd tied =
     (if bd = None \<or> line_distance h m < the bd
      then near_fold h ms (int (m_start m)) (Some (line_distance h m)) False
      else near_fold h ms best bd (if Some (line_distance h m) = bd then True else tied))"

lemma nearest_exact_loop_fold:
  assumes "n \<noteq> []" "from \<le> length t"
  shows "nearest_exact_loop t n h from c l best bd tied =
    near_fold h (iter_substring_loop t n from c l) best bd tied"
  using assms
proof (induction arbitrary: c l best bd tied rule: occurrence_induct)
  case (None "from")
  then show ?case
    using assms(1) by (subst nearest_exact_loop.simps) (simp add: py_find_def iter_substring_None)
next
  case (Some "from" i)
  then show ?case
    using assms(1)
    by (subst nearest_exact_loop.simps)
      (simp add: py_find_def iter_substring_Some Let_def nat_add_distrib line_distance_def)
qed

definition at_distance :: "int \<Rightarrow> int \<Rightarrow> edit_match list \<Rightarrow> edit_match list" where
  "at_distance h d ms = filter (\<lambda>m. line_distance h m = d) ms"

lemma at_distance_less:
  "\<forall>m \<in> set ms. d < line_distance h m \<Longrightarrow> at_distance h d ms = []"
  by (auto simp: at_distance_def filter_empty_conv)

lemma near_fold_seen:
  assumes "at_distance h d seen = m0 # others" "\<forall>m \<in> set seen. d \<le> line_distance h m"
  shows "\<exists>d' m1 others'. at_distance h d' (seen @ ms) = m1 # others' \<and>
    (\<forall>m \<in> set (seen @ ms). d' \<le> line_distance h m) \<and>
    near_fold h ms (int (m_start m0)) (Some d) (others \<noteq> []) = (int (m_start m1), others' \<noteq> [])"
  using assms
proof (induction ms arbitrary: seen d m0 others)
  case Nil
  then show ?case by auto
next
  case (Cons x ms)
  consider "line_distance h x < d" | "line_distance h x = d" | "d < line_distance h x" by linarith
  then show ?case
  proof cases
    case 1
    have "at_distance h (line_distance h x) (seen @ [x]) = [x]"
      using at_distance_less [of seen "line_distance h x" h] Cons.prems(2) 1
      by (fastforce simp: at_distance_def)
    from Cons.IH [OF this] 1 Cons.prems(2) show ?thesis by fastforce
  next
    case 2
    then have "at_distance h d (seen @ [x]) = m0 # (others @ [x])"
      using Cons.prems(1) by (simp add: at_distance_def)
    from Cons.IH [OF this] 2 Cons.prems(2) show ?thesis by fastforce
  next
    case 3
    then have "at_distance h d (seen @ [x]) = m0 # others"
      using Cons.prems(1) by (simp add: at_distance_def)
    from Cons.IH [OF this] 3 Cons.prems(2) show ?thesis by fastforce
  qed
qed

lemma fold_min_least:
  fixes x :: "'a::linorder"
  shows "fold min xs x \<in> set (x # xs) \<and> (\<forall>y \<in> set (x # xs). fold min xs x \<le> y)"
proof (induction xs arbitrary: x)
  case (Cons a xs)
  show ?case using Cons.IH [of "min a x"] by (auto simp: min_def split: if_splits)
qed simp

text \<open>Remembering the best distance while scanning selects what filtering by the minimum selects.\<close>

lemma near_fold_select:
  assumes "ms \<noteq> []"
  shows "(\<exists>m \<in> set ms. select_matches ms False None (Some h) = Inr [m] \<and>
      near_fold h ms (-1) None False = (int (m_start m), False)) \<or>
    select_matches ms False None (Some h) = Inl TOOL_AMBIGUOUS_EDIT \<and>
      snd (near_fold h ms (-1) None False)"
proof -
  obtain x xs where ms: "ms = x # xs" using assms by (cases ms) auto
  define d where "d = fold min (tl (map (line_distance h) ms)) (hd (map (line_distance h) ms))"
  have d: "\<forall>m \<in> set ms. d \<le> line_distance h m" "\<exists>m \<in> set ms. line_distance h m = d"
    using fold_min_least [of "map (line_distance h) xs" "line_distance h x"]
    by (auto simp: d_def ms)
  have "at_distance h (line_distance h x) [x] = [x]" by (simp add: at_distance_def)
  from near_fold_seen [OF this, of xs] obtain d' m1 others' where
    m1: "at_distance h d' ms = m1 # others'" "\<forall>m \<in> set ms. d' \<le> line_distance h m"
      "near_fold h ms (-1) None False = (int (m_start m1), others' \<noteq> [])"
    by (auto simp: ms)
  have "m1 \<in> set (at_distance h d' ms)" using m1(1) by simp
  then have "line_distance h m1 = d'" "m1 \<in> set ms" by (auto simp: at_distance_def)
  then have "d' = d" using d m1(2) by force
  with m1(1) have nearest: "filter (\<lambda>m. line_distance h m = d) ms = m1 # others'"
    by (simp add: at_distance_def)
  then have sel: "select_matches ms False None (Some h) =
      (if others' = [] then Inr [m1] else Inl TOOL_AMBIGUOUS_EDIT)"
    by (simp add: select_matches_def Let_def d_def [symmetric])
  show ?thesis
    unfolding sel m1(3) using \<open>m1 \<in> set ms\<close> by (cases "others' = []") simp_all
qed

section \<open>Replacing a list of matches\<close>

definition splice_all :: "ustr \<Rightarrow> edit_match list \<Rightarrow> ustr \<Rightarrow> ustr" where
  "splice_all new ms t = foldr (\<lambda>m acc. take (m_start m) acc @ new @ drop (m_end m) acc) ms t"

lemma splice_all_iter:
  assumes "n \<noteq> []" "from \<le> length t"
  shows "splice_all new (iter_substring_loop t n from c l) t = take from t @ py_replace n new (drop from t)"
  using assms
proof (induction arbitrary: c l rule: occurrence_induct)
  case (None "from")
  then show ?case
    using assms(1) by (subst py_replace.simps) (simp add: iter_substring_None splice_all_def)
next
  case (Some "from" i)
  define f where "f = from + i"
  define rest where "rest = py_replace n new (drop (f + length n) t)"
  have bound: "f + length n \<le> length t"
    using occurrence_bound [OF Some.hyps] by (simp add: f_def)
  have "splice_all new (iter_substring_loop t n from c l) t =
    take f (take (f + length n) t @ rest) @ new @ drop (f + length n) (take (f + length n) t @ rest)"
    using Some.IH [of f "l + py_count [10] (py_slice t c f)"] iter_substring_Some [OF assms(1) Some.hyps, of c l]
    by (simp add: splice_all_def Let_def f_def rest_def)
  also have "\<dots> = take f t @ new @ rest" using bound by simp
  also have "\<dots> = take from t @ take i (drop from t) @ new @ rest" by (simp add: f_def take_add)
  also have "\<dots> = take from t @ py_replace n new (drop from t)"
    using Some assms(1) by (subst py_replace.simps) (simp add: rest_def f_def ac_simps)
  finally show ?case .
qed

lemma text_cost_replace:
  assumes "n \<noteq> []"
  shows "text_cost b (py_replace n new t) =
    text_cost b t + int (py_count n t) * (text_cost b new - text_cost b n)"
  using assms
proof (induction n new t rule: py_replace.induct)
  case (1 n new t)
  show ?case
  proof (cases "py_index n t")
    case None
    then show ?thesis
      using 1 by (subst py_replace.simps, subst py_count.simps) simp
  next
    case (Some i)
    define rest where "rest = drop (i + length n) t"
    have rest: "text_cost b (py_replace n new rest) =
      text_cost b rest + int (py_count n rest) * (text_cost b new - text_cost b n)"
      using 1 Some by (simp add: rest_def)
    have t: "text_cost b t = text_cost b (take i t @ n @ rest)"
      using arg_cong [OF py_index_Some_split [OF Some], of "text_cost b"] by (simp add: rest_def)
    have "py_replace n new t = take i t @ new @ py_replace n new rest"
      using Some 1 by (subst py_replace.simps) (simp add: rest_def)
    moreover have "py_count n t = Suc (py_count n rest)"
      using Some 1 by (subst py_count.simps) (simp add: rest_def)
    ultimately show ?thesis using rest t by (simp add: algebra_simps)
  qed
qed

lemma splice_one_cost:
  assumes "py_slice t s e = n" "s \<le> e"
  shows "text_cost b (take s t @ new @ drop e t) = text_cost b t - text_cost b n + text_cost b new"
  using text_cost_split [OF assms(2), of b t] assms(1) by simp

subsection \<open>The exact edit is selection and replacement\<close>

definition reference_exact_edit ::
  "ustr \<Rightarrow> ustr \<Rightarrow> ustr \<Rightarrow> bool \<Rightarrow> int option \<Rightarrow> int option \<Rightarrow> int option \<Rightarrow> bool \<Rightarrow>
   error_code + text_edit_result option" where
  "reference_exact_edit t old new replace_all occurrence line_hint expected crlf =
     (let ms = iter_substring_matches t old
      in if ms = [] then Inr None
         else bind_result (select_matches ms replace_all occurrence line_hint) (\<lambda>sel.
              bind_result (check_expected expected (length sel)) (\<lambda>_.
              bind_result (ensure_output_size (text_cost crlf (splice_all new sel t))) (\<lambda>_.
              Inr (Some \<lparr>res_text = splice_all new sel t, replacements = length sel,
                         res_match_level = Some EXACT, created = False\<rparr>)))))"

lemma validate_selectors_Inr:
  assumes "validate_selectors ra occ hint exp = Inr ()"
  shows "ra \<Longrightarrow> occ = None" "ra \<Longrightarrow> hint = None" "occ \<noteq> None \<Longrightarrow> hint = None"
    "occ = Some k \<Longrightarrow> 1 \<le> k"
  using assms by (auto simp: validate_selectors_def split: if_splits)

lemma exact_start_select:
  assumes "n \<noteq> []" "iter_substring_matches t n \<noteq> []" "\<And>k. occ = Some k \<Longrightarrow> 1 \<le> k"
  shows "(\<exists>m \<in> set (iter_substring_matches t n).
      exact_start t n (py_count n t) occ hint = Inr (int (m_start m)) \<and>
      select_matches (iter_substring_matches t n) False occ hint = Inr [m]) \<or>
    (\<exists>e. exact_start t n (py_count n t) occ hint = Inl e \<and>
      select_matches (iter_substring_matches t n) False occ hint = Inl e)"
proof -
  define ms where "ms = iter_substring_matches t n"
  have len: "length ms = py_count n t"
    using length_iter_substring [OF assms(1), of 0 t] by (simp add: ms_def iter_substring_matches_def)
  have ms: "ms \<noteq> []" using assms(2) by (simp add: ms_def)
  have nth: "exact_occurrence_start t n k = int (m_start (ms ! nat (k - 1)))"
    if "1 \<le> k" "k \<le> int (length ms)" for k
  proof -
    define j where "j = nat (k - 1)"
    have j: "k = int (Suc j)" using that(1) by (simp add: j_def)
    have "j < length (iter_substring_loop t n 0 0 1)"
      using that(2) j by (simp add: ms_def iter_substring_matches_def)
    from exact_occurrence_loop_nth [OF assms(1) _ this, of "-1"]
    have "exact_occurrence_loop t n (Suc j) 0 (- 1) = int (m_start (ms ! j))"
      by (simp only: ms_def iter_substring_matches_def of_nat_0 le0)
    moreover have "nat k = Suc j" using j by simp
    ultimately show ?thesis by (simp only: exact_occurrence_start_def j_def [symmetric])
  qed
  show ?thesis
    unfolding ms_def [symmetric]
  proof (cases occ)
    case (Some k)
    have k: "1 \<le> k" using assms(3) Some by simp
    show "(\<exists>m \<in> set ms. exact_start t n (py_count n t) occ hint = Inr (int (m_start m)) \<and>
        select_matches ms False occ hint = Inr [m]) \<or>
      (\<exists>e. exact_start t n (py_count n t) occ hint = Inl e \<and> select_matches ms False occ hint = Inl e)"
    proof (cases "k \<le> int (length ms)")
      case True
      then have "ms ! nat (k - 1) \<in> set ms" using k by (intro nth_mem) linarith
      with True show ?thesis
        using nth [OF k True] Some len by (auto simp: exact_start_def select_matches_def)
    qed (use Some len in \<open>simp add: exact_start_def select_matches_def\<close>)
  next
    case None
    show "(\<exists>m \<in> set ms. exact_start t n (py_count n t) occ hint = Inr (int (m_start m)) \<and>
        select_matches ms False occ hint = Inr [m]) \<or>
      (\<exists>e. exact_start t n (py_count n t) occ hint = Inl e \<and> select_matches ms False occ hint = Inl e)"
    proof (cases hint)
      case (Some h)
      obtain best tied where fold: "near_fold h ms (-1) None False = (best, tied)" by fastforce
      have start: "exact_start t n (py_count n t) occ hint = (if tied then Inl TOOL_AMBIGUOUS_EDIT else Inr best)"
        using fold nearest_exact_loop_fold [OF assms(1), of 0 t h 0 1 "-1" None False] None Some
        by (simp add: exact_start_def nearest_exact_start_def ms_def iter_substring_matches_def)
      show ?thesis
        using near_fold_select [OF ms, of h]
        unfolding start fold snd_conv prod.inject unfolding None Some by (cases tied) auto
    next
      case hint: None
      show ?thesis
      proof (cases "length ms > 1")
        case False
        with ms obtain m where m: "ms = [m]" by (cases ms) auto
        have "exact_occurrence_start t n 1 = int (m_start m)" using nth [of 1] m by simp
        then have "py_find t n 0 = int (m_start m)"
          by (simp add: exact_occurrence_start_def Let_def)
        then show ?thesis
          using None hint m len by (simp add: exact_start_def select_matches_def)
      qed (use None hint len in \<open>simp add: exact_start_def select_matches_def\<close>)
    qed
  qed
qed

lemma apply_exact_edit_reference:
  assumes "old \<noteq> []" "validate_selectors replace_all occurrence line_hint expected = Inr ()"
  shows "apply_exact_edit t old new replace_all occurrence line_hint expected
      (rendered_utf8_size t crlf) crlf =
    reference_exact_edit t old new replace_all occurrence line_hint expected crlf"
proof -
  define ms where "ms = iter_substring_matches t old"
  have len: "length ms = py_count old t"
    using length_iter_substring [OF assms(1), of 0 t] by (simp add: ms_def iter_substring_matches_def)
  have count: "py_count old t \<noteq> 0 \<longleftrightarrow> ms \<noteq> []" using len by (metis length_0_conv)
  have replaced: "splice_all new ms t = py_replace old new t"
    using splice_all_iter [OF assms(1), of 0 t new 0 1] by (simp add: ms_def iter_substring_matches_def)
  show ?thesis
  proof (cases "ms = []")
    case True
    then show ?thesis
      using len by (simp add: apply_exact_edit_def reference_exact_edit_def ms_def [symmetric])
  next
    case False
    show ?thesis
    proof (cases replace_all)
      case True
      then show ?thesis
        using False count len replaced text_cost_replace [OF assms(1), of crlf new t]
        by (simp add: apply_exact_edit_def reference_exact_edit_def ms_def [symmetric] Let_def
            select_matches_def size_simps)
    next
      case one: False
      have occ: "\<And>k. occurrence = Some k \<Longrightarrow> 1 \<le> k"
        using validate_selectors_Inr(4) [OF assms(2)] by blast
      have "iter_substring_matches t old \<noteq> []" using False by (simp add: ms_def)
      from exact_start_select [where occ = occurrence and hint = line_hint, OF assms(1) this occ]
      consider m where "m \<in> set ms"
          "exact_start t old (py_count old t) occurrence line_hint = Inr (int (m_start m))"
          "select_matches ms False occurrence line_hint = Inr [m]"
        | e where "exact_start t old (py_count old t) occurrence line_hint = Inl e"
          "select_matches ms False occurrence line_hint = Inl e"
        by (auto simp: ms_def)
      then show ?thesis
      proof cases
        case 1
        have m: "m_end m = m_start m + length old" "py_slice t (m_start m) (m_end m) = old"
          using iter_substring_in [OF assms(1) _ 1(1) [unfolded ms_def iter_substring_matches_def]]
          by auto
        then have cost: "text_cost crlf (splice_all new [m] t) =
            text_cost crlf t - text_cost crlf old + text_cost crlf new"
          using splice_one_cost [of t "m_start m" "m_end m" old crlf new] by (simp add: splice_all_def)
        have spliced: "take (m_start m) t @ new @ drop (m_start m + length old) t = splice_all new [m] t"
          using m(1) by (simp add: splice_all_def)
        from 1 one False count show ?thesis
          by (simp add: apply_exact_edit_def reference_exact_edit_def ms_def [symmetric] Let_def
              size_simps spliced cost)
      next
        case 2
        with one False count show ?thesis
          by (simp add: apply_exact_edit_def reference_exact_edit_def ms_def [symmetric] Let_def)
      qed
    qed
  qed
qed

text \<open>
  C4. Exact edits are a lookup, a selection and a replacement: for a non-empty needle and valid
  selectors, \<open>_apply_exact_edit\<close> finds the occurrences from left to right, selects among them
  exactly as the fuzzy path does (all, the n-th, the one nearest to the line hint, or the
  only one, with the same errors), replaces precisely the selected ones, and the size it
  checks is the UTF-8 size of that text with its line endings restored. The streaming
  searches, \<open>str.replace\<close> and the projected size are thereby shown to agree with the reference.
\<close>

theorem exact_edit_reference:
  assumes "old \<noteq> []" "validate_selectors replace_all occurrence line_hint expected = Inr ()"
  shows "apply_exact_edit t old new replace_all occurrence line_hint expected
      (rendered_utf8_size t crlf) crlf =
    reference_exact_edit t old new replace_all occurrence line_hint expected crlf"
  using assms by (rule apply_exact_edit_reference)

section \<open>Positions of fuzzy matches\<close>

definition records_ok :: "ustr \<Rightarrow> nat \<Rightarrow> (nat \<times> nat \<times> ustr) list \<Rightarrow> bool" where
  "records_ok text start recs \<longleftrightarrow>
     (\<forall>(s, e, body) \<in> set recs. start \<le> s \<and> s \<le> e \<and> e \<le> length text \<and> body = py_slice text s e) \<and>
     sorted_wrt (\<lambda>(s, e, b) (s', e', b'). e \<le> s') recs"

lemma records_ok_Cons:
  "records_ok text start ((s, e, body) # recs) \<longleftrightarrow>
     start \<le> s \<and> s \<le> e \<and> e \<le> length text \<and> body = py_slice text s e \<and>
     records_ok text start recs \<and> (\<forall>(s', e', b') \<in> set recs. e \<le> s')"
  by (auto simp: records_ok_def)

lemma records_ok_mono: "records_ok text b recs \<Longrightarrow> a \<le> b \<Longrightarrow> records_ok text a recs"
  by (auto simp: records_ok_def)

lemma line_records_loop_ok:
  assumes "length text = index + length rest" "start \<le> index"
  shows "records_ok text start (line_records_loop text rest index start found)"
  using assms
proof (induction rest arbitrary: index start found)
  case Nil
  then show ?case by (auto simp: records_ok_def py_slice_def)
next
  case (Cons c rest)
  show ?case
  proof (cases "is_line_break c")
    case True
    define e where "e = (if c = 10 then index else index + 1)"
    have e: "start \<le> e" "e \<le> index + 1" "e \<le> length text" using Cons.prems by (auto simp: e_def)
    have "records_ok text (index + 1) (line_records_loop text rest (index + 1) (index + 1) True)"
      by (rule Cons.IH) (use Cons.prems in auto)
    then have "records_ok text start ((start, e, py_slice text start e) #
        line_records_loop text rest (index + 1) (index + 1) True)"
      using e Cons.prems records_ok_mono [of "text" "index + 1" _ start]
      by (fastforce simp: records_ok_Cons records_ok_def)
    then show ?thesis using True by (simp add: e_def Let_def)
  next
    case False
    with Cons show ?thesis by simp
  qed
qed

lemma line_records_ok: "records_ok text 0 (line_records text)"
  unfolding line_records_def by (rule line_records_loop_ok) simp_all

lemma numbered_lines_nth:
  "i < length recs \<Longrightarrow> numbered_lines n recs ! i =
     (fst (recs ! i), fst (snd (recs ! i)), py_strip (snd (snd (recs ! i))), n + i)"
  by (auto simp: numbered_lines_def nth_enumerate_eq split: prod.split)

lemma records_ok_span:
  assumes "records_ok text 0 recs" "i \<le> j" "j < length recs"
  shows "fst (recs ! i) \<le> fst (snd (recs ! j)) \<and> fst (snd (recs ! j)) \<le> length text"
proof -
  have each: "fst (recs ! k) \<le> fst (snd (recs ! k)) \<and> fst (snd (recs ! k)) \<le> length text"
    if "k < length recs" for k
    using assms(1) nth_mem [OF that] by (auto simp: records_ok_def)
  show ?thesis
  proof (cases "i = j")
    case False
    then have "fst (snd (recs ! i)) \<le> fst (recs ! j)"
      using assms sorted_wrt_nth_less [of _ recs i j] by (fastforce simp: records_ok_def)
    with each [of i] each [of j] assms show ?thesis by simp
  qed (use each assms in auto)
qed

lemma bounded_loop_Inr: "bounded_loop acc ms = Inr r \<longleftrightarrow>
    r = acc @ ms \<and> (ms = [] \<or> length acc + length ms \<le> MAX_FUZZY_MATCH_CANDIDATES \<or> MAX_FUZZY_MATCH_CANDIDATES < length acc)"
proof (induction ms arbitrary: acc)
  case (Cons m ms)
  show ?case
    using Cons.IH [of "acc @ [m]"] by (auto split: if_splits)
qed auto

lemma bounded_fuzzy_matches_Inr:
  "bounded_fuzzy_matches ms = Inr r \<longleftrightarrow> r = ms \<and> length ms \<le> MAX_FUZZY_MATCH_CANDIDATES"
  by (auto simp: bounded_fuzzy_matches_def bounded_loop_Inr MAX_FUZZY_MATCH_CANDIDATES_def)

lemma bounded_fuzzy_matches_eq:
  "bounded_fuzzy_matches ms =
     (if length ms \<le> MAX_FUZZY_MATCH_CANDIDATES then Inr ms else Inl TOOL_AMBIGUOUS_EDIT)"
proof (cases "bounded_fuzzy_matches ms")
  case (Inl e)
  have "bounded_loop acc xs = Inl e' \<Longrightarrow> e' = TOOL_AMBIGUOUS_EDIT" for acc xs e'
    by (induction xs arbitrary: acc) (auto split: if_splits)
  then show ?thesis
    using Inl bounded_fuzzy_matches_Inr [of ms ms] by (auto simp: bounded_fuzzy_matches_def)
qed (use bounded_fuzzy_matches_Inr in auto)

lemma trimmed_loop_start:
  assumes "wanted \<noteq> []"
  shows "trimmed_loop wanted (kmp_prefix wanted) recs 1 0 [] =
    naive_windows wanted (numbered_lines 1 recs) [0..<length recs]"
  using trimmed_loop_naive [OF assms kmp_prefix_correct [OF assms], of "[]" 0 recs]
  by (simp add: longest_def assms)

lemma trimmed_match_span:
  assumes "trimmed_matches text needle = Inr ms" "m \<in> set ms"
  shows "m_start m \<le> m_end m \<and> m_end m \<le> length text"
proof -
  define wanted where "wanted = map py_strip (py_splitlines needle)"
  define recs where "recs = line_records text"
  have "py_splitlines needle \<noteq> []" using assms by (auto simp: trimmed_matches_def)
  then have w: "wanted \<noteq> []" by (simp add: wanted_def)
  have "m \<in> set (naive_windows wanted (numbered_lines 1 recs) [0..<length recs])"
    using assms w trimmed_loop_start [OF w, of recs]
    by (simp add: trimmed_matches_def wanted_def recs_def bounded_fuzzy_matches_Inr Let_def)
  then obtain e where e: "e < length recs" "length wanted \<le> e + 1"
    "m = window_match (numbered_lines 1 recs ! (e + 1 - length wanted)) (numbered_lines 1 recs ! e)"
    by (auto simp: naive_windows_def)
  have "e + 1 - length wanted \<le> e" using w by (cases wanted) auto
  with e records_ok_span [OF line_records_ok, of "e + 1 - length wanted" e "text"] show ?thesis
    by (simp add: window_match_def numbered_lines_nth recs_def)
qed

lemma normalized_match_span:
  assumes "normalized_matches text needle = Inr ms" "m \<in> set ms" "needle \<noteq> []"
  shows "m_start m \<le> m_end m \<and> m_end m \<le> length text"
  using assms iter_substring_in [of "map quote_normalization needle" 0 "map quote_normalization text" m 0 1]
  by (auto simp: normalized_matches_def bounded_fuzzy_matches_Inr iter_substring_matches_def)

lemma fuzzy_matches_span:
  assumes "fuzzy_matches text old = Inr (ms, level)" "old \<noteq> []"
  shows "ms \<noteq> [] \<and> (\<forall>m \<in> set ms. m_start m \<le> m_end m \<and> m_end m \<le> length text)"
  using assms trimmed_match_span [of "text" old] normalized_match_span [of "text" old]
  by (auto simp: fuzzy_matches_def bind_result_Inr_iff split: if_splits)

lemma select_matches_subset:
  assumes "select_matches ms ra occ hint = Inr sel" "ms \<noteq> []" "\<And>k. occ = Some k \<Longrightarrow> 1 \<le> k"
  shows "sel \<noteq> [] \<and> set sel \<subseteq> set ms"
  using assms by (auto simp: select_matches_def Let_def split: if_splits option.splits
      intro!: nth_mem)

section \<open>The projected size\<close>

lemma fuzzy_loop_size:
  assumes "fuzzy_loop text old new level b ms pieces (text_cost b (concat pieces)) = Inr pieces'"
    and "\<forall>m \<in> set ms. m_start m \<le> m_end m"
    and "ms \<noteq> [] \<or> text_cost b (concat pieces) \<le> MAX_TEXT_EDIT_BYTES"
  shows "text_cost b (concat pieces') \<le> MAX_TEXT_EDIT_BYTES"
  using assms
proof (induction ms arbitrary: pieces)
  case Nil
  then show ?case by simp
next
  case (Cons m ms)
  define matched where "matched = py_slice text (m_start m) (m_end m)"
  define r where "r = fuzzy_replacement level old new matched"
  define pieces1 where "pieces1 = splice_pieces pieces (m_start m) (m_end m) r"
  have "text_cost b (concat pieces1) = text_cost b (concat pieces) -
      pieces_range_size pieces (m_start m) (m_end m) b +
      fuzzy_replacement_size level old new matched b"
    using text_cost_split [of "m_start m" "m_end m" b "concat pieces"] Cons.prems(2)
    by (simp add: pieces1_def splice_pieces_concat size_simps r_def)
  then have "text_cost b (concat pieces1) \<le> MAX_TEXT_EDIT_BYTES"
    "fuzzy_loop text old new level b ms pieces1 (text_cost b (concat pieces1)) = Inr pieces'"
    using Cons.prems(1)
    by (auto simp: Let_def bind_result_Inr_iff ensure_output_size_def matched_def [symmetric]
        r_def [symmetric] pieces1_def [symmetric])
  then show ?case using Cons.IH Cons.prems(2) by simp
qed

lemma apply_fuzzy_replacements_size:
  assumes "apply_fuzzy_replacements text old new sel level (text_cost b text) b = Inr edited"
    and "sel \<noteq> []" "\<forall>m \<in> set sel. m_start m \<le> m_end m"
  shows "text_cost b edited \<le> MAX_TEXT_EDIT_BYTES"
  using assms fuzzy_loop_size [of "text" old new level b "rev sel" "[text]"]
  by (auto simp: apply_fuzzy_replacements_def bind_result_Inr_iff)

lemma reference_exact_edit_size:
  "reference_exact_edit t old new ra occ hint exp b = Inr (Some r) \<Longrightarrow>
   text_cost b (res_text r) \<le> MAX_TEXT_EDIT_BYTES"
  by (auto simp: reference_exact_edit_def Let_def bind_result_Inr_iff ensure_output_size_def
      split: if_splits)

lemma py_replace_nonempty: "old \<noteq> [] \<Longrightarrow> new \<noteq> [] \<Longrightarrow> t \<noteq> [] \<Longrightarrow> py_replace old new t \<noteq> []"
  by (subst py_replace.simps) (auto split: option.splits)

lemma normalize_nonempty [simp]: "s \<noteq> [] \<Longrightarrow> normalize_line_endings s \<noteq> []"
  by (simp add: normalize_line_endings_def py_replace_nonempty)

section \<open>Properties of the edit\<close>

text \<open>
  No edit produces a file above the limit: whenever \<open>apply_text_edit\<close> returns, on the
  creating, exact, trimmed and normalised paths and with any selectors, the UTF-8 encoding
  of the returned text has at most 8 MiB. The size is computed before the text is built, so
  this rests on the projected sizes being exact.
\<close>

theorem edit_size_bound:
  assumes "apply_text_edit text old new replace_all occurrence line_hint expected = Inr r"
  shows "int (length (utf8_encode (res_text r))) \<le> MAX_TEXT_EDIT_BYTES"
proof (cases "text")
  case None
  with assms show ?thesis
    by (auto simp: apply_text_edit_def bind_result_Inr_iff ensure_output_size_def utf8_size_cost
        length_utf8_encode_cost split: if_splits)
next
  case (Some t)
  define b where "b = py_contains t [13, 10]"
  define nt where "nt = normalize_line_endings t"
  define no where "no = normalize_line_endings old"
  define nn where "nn = normalize_line_endings new"
  have valid: "validate_selectors replace_all occurrence line_hint expected = Inr ()" and old: "old \<noteq> []"
    and edit: "edit_existing t old new replace_all occurrence line_hint expected = Inr r"
    using assms Some by (auto simp: apply_text_edit_def bind_result_Inr_iff split: if_splits)
  have no: "no \<noteq> []" using old by (simp add: no_def)
  from edit obtain exact where
    exact: "reference_exact_edit nt no nn replace_all occurrence line_hint expected b = Inr exact"
    and rest: "(case exact of
           Some r \<Rightarrow> Inr (r\<lparr>res_text := restore_line_endings b (res_text r)\<rparr>)
         | None \<Rightarrow>
             bind_result (fuzzy_matches nt no) (\<lambda>(matches, level).
             bind_result (select_matches matches replace_all occurrence line_hint) (\<lambda>selected.
             bind_result (check_expected expected (length selected)) (\<lambda>_.
             bind_result (apply_fuzzy_replacements nt no nn selected level (text_cost b nt) b) (\<lambda>edited.
             Inr \<lparr>res_text = restore_line_endings b edited,
                  replacements = length selected, res_match_level = Some level,
                  created = False\<rparr>))))) = Inr r"
    unfolding edit_existing_def Let_def b_def [symmetric] nt_def [symmetric] no_def [symmetric]
      nn_def [symmetric]
    unfolding apply_exact_edit_reference [OF no valid] unfolding rendered_utf8_size_cost
    by (auto simp: bind_result_Inr_iff)
  show ?thesis
  proof (cases exact)
    case (Some r0)
    then show ?thesis
      using reference_exact_edit_size [OF exact [unfolded Some]] rest
      by (auto simp: restore_line_endings_cost)
  next
    case None
    with rest obtain ms level sel edited where f: "fuzzy_matches nt no = Inr (ms, level)"
      "select_matches ms replace_all occurrence line_hint = Inr sel"
      "apply_fuzzy_replacements nt no nn sel level (text_cost b nt) b = Inr edited"
      "res_text r = restore_line_endings b edited"
      by (auto simp: bind_result_Inr_iff)
    have "sel \<noteq> [] \<and> set sel \<subseteq> set ms"
      using select_matches_subset [OF f(2)] fuzzy_matches_span [OF f(1) no]
        validate_selectors_Inr(4) [OF valid] by blast
    then have "text_cost b edited \<le> MAX_TEXT_EDIT_BYTES"
      using apply_fuzzy_replacements_size [OF f(3)] fuzzy_matches_span [OF f(1) no] by blast
    then show ?thesis using f(4) by (simp add: restore_line_endings_cost)
  qed
qed

text \<open>
  C5. The trimmed search is complete and sound: with the Knuth-Morris-Pratt table and the
  bounded window of lines it reports exactly the windows of consecutive lines whose trimmed
  texts equal the trimmed lines of the pattern, overlapping ones included, in order, each with
  the position of its first and last line and its line number; and it raises only when
  there are more than a thousand.
\<close>

theorem trimmed_matches_naive:
  "trimmed_matches t needle =
     (let wanted = map py_strip (py_splitlines needle);
          windows = naive_windows wanted (numbered_lines 1 (line_records t))
                      [0..<length (line_records t)]
      in if wanted = [] then Inr []
         else if length windows \<le> MAX_FUZZY_MATCH_CANDIDATES then Inr windows
         else Inl TOOL_AMBIGUOUS_EDIT)"
  using trimmed_loop_start [of "map py_strip (py_splitlines needle)" "line_records t"]
  by (simp add: trimmed_matches_def Let_def bounded_fuzzy_matches_eq)

subsection \<open>Line endings\<close>

lemma normalize_no_cr: "13 \<notin> set (normalize_line_endings s)"
  by (auto simp: normalize_line_endings_def py_replace_single)

lemma normalize_id: "13 \<notin> set s \<Longrightarrow> normalize_line_endings s = s"
proof -
  assume no: "13 \<notin> set s"
  then have "py_replace [13, 10] [10] s = s"
    by (intro py_replace_none) (auto simp: py_contains_iff)
  moreover have "py_replace [13] [10] s = s"
    using no by (intro py_replace_none) (auto simp: py_contains_iff)
  ultimately show ?thesis by (simp add: normalize_line_endings_def)
qed

lemma py_replace_set: "set (py_replace old new t) \<subseteq> set new \<union> set t"
proof (induction old new t rule: py_replace.induct)
  case (1 old new t)
  show ?case
  proof (cases "old = [] \<or> py_index old t = None")
    case True
    then show ?thesis by (subst py_replace.simps) auto
  next
    case False
    then obtain i where "old \<noteq> []" "py_index old t = Some i" by auto
    with 1 show ?thesis
      by (subst py_replace.simps) (auto dest: in_set_takeD in_set_dropD)
  qed
qed

lemma splice_all_set: "set (splice_all new ms t) \<subseteq> set new \<union> set t"
  unfolding splice_all_def
  by (induction ms) (auto dest: in_set_takeD in_set_dropD)

lemma indented_line_set: "set (indented_line old target x) \<subseteq> set target \<union> set x"
  by (auto simp: indented_line_def dest: in_set_dropD)

lemma py_join_set: "set (py_join sep xs) \<subseteq> set sep \<union> \<Union> (set ` set xs)"
  by (induction sep xs rule: py_join.induct) auto

lemma py_slice_set: "set (py_slice t a b) \<subseteq> set t"
  by (auto simp: py_slice_def dest: in_set_takeD in_set_dropD)

lemma splitline_loop_set:
  assumes "x \<in> set (splitline_loop v rest index start)" shows "set x \<subseteq> set v"
  using assms
  by (induction rest arbitrary: index start)
    (use py_slice_set in \<open>fastforce split: if_splits dest: in_set_dropD\<close>)+

lemma base_indentation_loop_set:
  assumes "base_indentation_loop xs smallest = Some s"
    and "\<forall>x \<in> set xs. set x \<subseteq> A" "\<forall>s. smallest = Some s \<longrightarrow> set s \<subseteq> A"
  shows "set s \<subseteq> A"
  using assms
proof (induction xs arbitrary: smallest)
  case (Cons x xs)
  have "set (leading_whitespace x) \<subseteq> A"
    using Cons.prems(2) by (auto simp: leading_whitespace_def dest: in_set_takeD)
  with Cons show ?case
    by (cases "smallest = None \<or> length (leading_whitespace x) < length (the smallest)";
        cases "py_strip x = []") (auto simp: Let_def)
qed simp

lemma base_indentation_set: "set (base_indentation v) \<subseteq> set v"
proof (cases "base_indentation_loop (splitline_values v) None")
  case (Some s)
  have "\<forall>x \<in> set (splitline_values v). set x \<subseteq> set v"
    unfolding splitline_values_def using splitline_loop_set by blast
  from base_indentation_loop_set [OF Some this] Some show ?thesis
    by (simp add: base_indentation_def)
qed (simp add: base_indentation_def)

lemma py_split_set: "x \<in> set (py_split sep v) \<Longrightarrow> set x \<subseteq> set v"
proof -
  have "x \<in> set (py_split_acc sep cur v) \<Longrightarrow> set x \<subseteq> set cur \<union> set v" for cur
    by (induction v arbitrary: cur) (fastforce split: if_splits)+
  then show "x \<in> set (py_split sep v) \<Longrightarrow> set x \<subseteq> set v"
    by (fastforce simp: py_split_def)
qed

lemma apply_target_indentation_set:
  "set (apply_target_indentation old new matched) \<subseteq> {10} \<union> set new \<union> set matched"
proof -
  have "set (indented_line (base_indentation old) (base_indentation matched) x) \<subseteq> set new \<union> set matched"
    if "x \<in> set (py_split 10 new)" for x
    using indented_line_set [of "base_indentation old" "base_indentation matched" x]
      base_indentation_set [of matched] py_split_set [OF that] by blast
  then show ?thesis
    using py_join_set [of "[10]" "map (indented_line (base_indentation old) (base_indentation matched)) (py_split 10 new)"]
    unfolding apply_target_indentation_lines by fastforce
qed

lemma quote_styles_loop_set:
  "quote_styles_loop m ds ss = (a, b) \<Longrightarrow> set a \<union> set b \<subseteq> set ds \<union> set ss \<union> set m"
  by (induction m arbitrary: ds ss) (fastforce split: if_splits)+

lemma render_quote_loop_set:
  "set (render_quote_loop s ds ss di si) \<subseteq> set s \<union> set ds \<union> set ss"
proof (induction s arbitrary: di si)
  case (Cons c s)
  have "ds \<noteq> [] \<Longrightarrow> ds ! min di (length ds - 1) \<in> set ds" "ss \<noteq> [] \<Longrightarrow> ss ! min si (length ss - 1) \<in> set ss"
    by (intro nth_mem; cases ds; cases ss; simp)+
  then show ?case using Cons.IH [of "di + 1" si] Cons.IH [of di "si + 1"] Cons.IH [of di si] by auto
qed simp

lemma fuzzy_replacement_set:
  "set (fuzzy_replacement level old new matched) \<subseteq> {10} \<union> set new \<union> set matched"
proof -
  obtain ds ss where q: "quote_styles matched = (ds, ss)" by fastforce
  have "set ds \<union> set ss \<subseteq> set matched"
    using quote_styles_loop_set [of matched "[]" "[]"] q by (simp add: quote_styles_def)
  then have "set (apply_target_quote_style new matched) \<subseteq> set new \<union> set matched"
    using render_quote_loop_set [of new ds ss 0 0] q
    by (auto simp: apply_target_quote_style_def render_quote_style_def)
  then show ?thesis
    using apply_target_indentation_set [of old new matched] by (auto simp: fuzzy_replacement_def)
qed

lemma fuzzy_loop_set:
  "fuzzy_loop t old new level b ms pieces size0 = Inr pieces' \<Longrightarrow>
   set (concat pieces') \<subseteq> {10} \<union> set new \<union> set t \<union> set (concat pieces)"
proof (induction ms arbitrary: pieces size0)
  case (Cons m ms)
  define r where "r = fuzzy_replacement level old new (py_slice t (m_start m) (m_end m))"
  define pieces1 where "pieces1 = splice_pieces pieces (m_start m) (m_end m) r"
  obtain size1 where "fuzzy_loop t old new level b ms pieces1 size1 = Inr pieces'"
    using Cons.prems by (auto simp: Let_def bind_result_Inr_iff pieces1_def r_def)
  then have "set (concat pieces') \<subseteq> {10} \<union> set new \<union> set t \<union> set (concat pieces1)"
    by (rule Cons.IH)
  moreover have "set r \<subseteq> {10} \<union> set new \<union> set t"
    using fuzzy_replacement_set [of level old new "py_slice t (m_start m) (m_end m)"]
      py_slice_set [of t "m_start m" "m_end m"] by (auto simp: r_def)
  moreover have "set (concat pieces1) \<subseteq> set (concat pieces) \<union> set r"
    using splice_pieces_concat [of pieces "m_start m" "m_end m" r]
    by (auto simp del: set_concat simp: pieces1_def dest: in_set_takeD in_set_dropD)
  ultimately show ?case by blast
qed auto

lemma apply_exact_edit_set:
  "apply_exact_edit t old new ra occ hint exp size0 b = Inr (Some r) \<Longrightarrow>
   set (res_text r) \<subseteq> set new \<union> set t"
  using py_replace_set [of old new t]
  by (auto simp: apply_exact_edit_def Let_def bind_result_Inr_iff split: if_splits
      dest: in_set_takeD in_set_dropD)

text \<open>
  Line endings come out uniform: editing a file that contains a CRLF gives a text that is
  the CRLF rendering of a text without carriage returns, so every line feed follows a
  carriage return and every carriage return precedes a line feed; editing any other file
  gives a text without carriage returns. This covers the exact and both fuzzy paths and any
  carriage returns in the pattern and the replacement.
\<close>

theorem edit_line_endings:
  assumes "apply_text_edit (Some t) old new replace_all occurrence line_hint expected = Inr r"
  shows "\<exists>edited. 13 \<notin> set edited \<and>
    res_text r = (if py_contains t [13, 10]
                  then concat (map (\<lambda>c. if c = 10 then [13, 10] else [c]) edited) else edited)"
proof -
  define b where "b = py_contains t [13, 10]"
  have "\<exists>edited. 13 \<notin> set edited \<and> res_text r = restore_line_endings b edited"
  proof -
    have edit: "edit_existing t old new replace_all occurrence line_hint expected = Inr r"
      using assms by (auto simp: apply_text_edit_def bind_result_Inr_iff split: if_splits)
    have no_cr: "13 \<notin> set edited"
      if "set edited \<subseteq> {10} \<union> set (normalize_line_endings new) \<union> set (normalize_line_endings t)" for edited
      using that normalize_no_cr [of new] normalize_no_cr [of t] by auto
    from edit consider r0 where
        "apply_exact_edit (normalize_line_endings t) (normalize_line_endings old)
           (normalize_line_endings new) replace_all occurrence line_hint expected
           (rendered_utf8_size (normalize_line_endings t) b) b = Inr (Some r0)"
        "r = r0\<lparr>res_text := restore_line_endings b (res_text r0)\<rparr>"
      | sel level edited where
        "apply_fuzzy_replacements (normalize_line_endings t) (normalize_line_endings old)
           (normalize_line_endings new) sel level (rendered_utf8_size (normalize_line_endings t) b) b
         = Inr edited" "res_text r = restore_line_endings b edited"
      unfolding edit_existing_def Let_def b_def [symmetric]
      by (auto simp: bind_result_Inr_iff split: option.splits)
    then show ?thesis
    proof cases
      case 1
      have "13 \<notin> set (res_text r0)"
        using apply_exact_edit_set [OF 1(1)] by (intro no_cr) auto
      with 1(2) show ?thesis by auto
    next
      case 2
      have "13 \<notin> set edited"
        using 2(1) by (intro no_cr)
          (auto simp: apply_fuzzy_replacements_def bind_result_Inr_iff dest!: fuzzy_loop_set)
      with 2(2) show ?thesis by auto
    qed
  qed
  then show ?thesis
    unfolding b_def [symmetric] restore_line_endings_def py_replace_single by auto
qed

section \<open>Witnesses\<close>

lemmas text_edit_eval = apply_text_edit_def edit_existing_def validate_selectors_def check_expected_def
  normalize_line_endings_def py_contains_def py_startswith_def py_find_def py_replace.simps
  py_count.simps py_slice_def utf8_size_def rendered_utf8_size_def ensure_output_size_def
  MAX_TEXT_EDIT_BYTES_def py_isascii_def utf8_character_size_def apply_exact_edit_def exact_start_def
  exact_occurrence_start_def nearest_exact_start_def nearest_exact_loop.simps iter_substring_loop.simps
  iter_substring_matches_def select_matches_def line_distance_def restore_line_endings_def
  guard_result_def utf8_size_range_def splice_pieces_def piece_before_def piece_after_def
  pieces_range_size_def piece_overlap_size_def fuzzy_replacement_size_def fuzzy_replacement_def
  indented_replacement_size_def apply_target_indentation_def base_indentation_def
  splitline_values_def newline_values_def newline_values_from.simps indented_line_def
  leading_whitespace_def is_line_break_def line_records_def trimmed_matches_def py_splitlines_def
  py_is_linebreak_def py_strip_def py_lstrip_def py_rstrip_def py_isspace_char_def kmp_prefix_def
  kmp_advance_def kmp_fallback_def while_unfold window_append_def bounded_fuzzy_matches_def
  MAX_FUZZY_MATCH_CANDIDATES_def fuzzy_matches_def apply_fuzzy_replacements_def Let_def upt_rec
  reference_exact_edit_def splice_all_def text_cost_def char_cost_def

lemma demo_exact_edit:
  "apply_text_edit (Some [97, 13, 10, 98]) [98] [99, 10] False None (Some 2) (Some 1) =
     Inr \<lparr>res_text = [97, 13, 10, 99, 13, 10], replacements = 1, res_match_level = Some EXACT,
          created = False\<rparr>"
  by (simp add: text_edit_eval)

theorem exact_edit_reference_witness:
  "apply_exact_edit [97, 98, 97] [97] [99] False (Some 2) None None (rendered_utf8_size [97, 98, 97] True) True =
   reference_exact_edit [97, 98, 97] [97] [99] False (Some 2) None None True \<and>
   reference_exact_edit [97, 98, 97] [97] [99] False (Some 2) None None True =
     Inr (Some \<lparr>res_text = [97, 98, 99], replacements = 1, res_match_level = Some EXACT,
                created = False\<rparr>)"
proof
  have "validate_selectors False (Some 2) None None = Inr ()" by (simp add: text_edit_eval)
  then show "apply_exact_edit [97, 98, 97] [97] [99] False (Some 2) None None
      (rendered_utf8_size [97, 98, 97] True) True =
    reference_exact_edit [97, 98, 97] [97] [99] False (Some 2) None None True"
    using exact_edit_reference [of "[97]" False "Some 2" None None "[97, 98, 97]" "[99]" True] by simp
qed (simp add: text_edit_eval)

theorem edit_size_bound_witness:
  "int (length (utf8_encode [97, 13, 10, 99, 13, 10])) \<le> MAX_TEXT_EDIT_BYTES"
  using edit_size_bound [OF demo_exact_edit] by simp

theorem edit_line_endings_witness:
  "\<exists>edited :: ustr. 13 \<notin> set edited \<and>
    [97, 13, 10, 99, 13, 10] = (if py_contains [97, 13, 10, 98 :: nat] [13, 10]
      then concat (map (\<lambda>c. if c = 10 then [13, 10] else [c]) edited) else edited)"
  using edit_line_endings [OF demo_exact_edit] by simp

section \<open>Overlapping trimmed matches\<close>

text \<open>
  The trimmed search reports overlapping windows, and with \<open>replace_all\<close> each of them is
  replaced in the text as the later replacements left it. On three equal indented lines and
  a two-line pattern the second window is replaced first, and the first window then cuts
  into that replacement: of two replacements reported, the result holds one whole and the
  last line of the other. (The exact and the normalised path search on after a match, so
  their matches never overlap.)
\<close>

theorem overlapping_replace_all:
  "apply_text_edit (Some [32, 97, 10, 32, 97, 10, 32, 97]) [97, 10, 97] [98, 10, 99] True None None None =
     Inr \<lparr>res_text = [32, 98, 10, 32, 99, 10, 32, 99], replacements = 2,
          res_match_level = Some TRIMMED, created = False\<rparr>"
  by (simp add: text_edit_eval)

end
