(* ===== verification/Py_Json.thy ===== *)
theory Py_Json
  imports Py_Strings "HOL-Library.List_Lexorder"
begin

text \<open>
  Python values as \<open>json.dumps\<close> sees them, and \<open>json.dumps\<close> itself with the options the
  sources use (no ASCII escaping, compact separators, keys sorted by code points). Decimal
  numerals, string escapes and the sizes of both are part of it. The text of a float is a
  parameter of the value, since the sources never depend on its digits.
\<close>

section \<open>Decimal numerals\<close>

fun nat_digits :: "nat \<Rightarrow> nat list" where
  "nat_digits n = (if n < 10 then [48 + n] else nat_digits (n div 10) @ [48 + n mod 10])"

declare nat_digits.simps [simp del]

definition py_str_int :: "int \<Rightarrow> ustr" where
  "py_str_int i = (if i < 0 then 45 # nat_digits (nat (- i)) else nat_digits (nat i))"

lemma nat_digits_ascii: "d \<in> set (nat_digits n) \<Longrightarrow> 48 \<le> d \<and> d \<le> 57"
proof (induction n rule: nat_digits.induct)
  case (1 n)
  show ?case
  proof (cases "n < 10")
    case True
    then show ?thesis using 1 by (simp add: nat_digits.simps [of n])
  next
    case False
    then show ?thesis using 1 by (auto simp: nat_digits.simps [of n])
  qed
qed

lemma nat_digits_nonempty [simp]: "nat_digits n \<noteq> []"
  by (subst nat_digits.simps) simp

lemma length_nat_digits: "n < 10 ^ k \<Longrightarrow> 0 < k \<Longrightarrow> length (nat_digits n) \<le> k"
proof (induction k arbitrary: n)
  case (Suc k)
  show ?case
  proof (cases "n < 10")
    case True
    then show ?thesis by (subst nat_digits.simps) simp
  next
    case False
    then have "0 < k" using Suc.prems by (cases k) auto
    moreover have "n div 10 < 10 ^ k" using Suc.prems(1) by (simp add: less_mult_imp_div_less mult.commute)
    ultimately have "length (nat_digits (n div 10)) \<le> k" by (rule Suc.IH [rotated])
    with False show ?thesis by (subst nat_digits.simps) simp
  qed
qed simp

fun digits_value :: "nat list \<Rightarrow> nat \<Rightarrow> nat" where
  "digits_value [] acc = acc"
| "digits_value (d # ds) acc = digits_value ds (10 * acc + (d - 48))"

lemma digits_value_append: "digits_value (xs @ ys) acc = digits_value ys (digits_value xs acc)"
  by (induction xs arbitrary: acc) auto

lemma digits_value_nat_digits: "digits_value (nat_digits n) 0 = n"
proof (induction n rule: nat_digits.induct)
  case (1 n)
  then show ?case by (subst nat_digits.simps) (auto simp: digits_value_append)
qed

lemma nat_digits_inject: "nat_digits m = nat_digits n \<longleftrightarrow> m = n"
  by (metis digits_value_nat_digits)

section \<open>JSON values\<close>

datatype json = JNull | JBool bool | JInt int | JFloat ustr | JStr ustr
  | JList "json list" | JObj "(ustr \<times> json) list"

definition hex_digit :: "nat \<Rightarrow> nat" where
  "hex_digit d = (if d < 10 then 48 + d else 87 + d)"

definition json_escape :: "nat \<Rightarrow> ustr" where
  "json_escape c =
     (if c = 34 then [92, 34] else if c = 92 then [92, 92]
      else if c = 10 then [92, 110] else if c = 13 then [92, 114] else if c = 9 then [92, 116]
      else if c = 12 then [92, 102] else if c = 8 then [92, 98]
      else if c < 32 then [92, 117, 48, 48, hex_digit (c div 16), hex_digit (c mod 16)]
      else [c])"

definition json_string :: "ustr \<Rightarrow> ustr" where
  "json_string s = [34] @ concat (map json_escape s) @ [34]"

definition json_list_text :: "ustr list \<Rightarrow> ustr" where
  "json_list_text xs = [91] @ py_join [44] xs @ [93]"

definition json_member :: "ustr \<times> ustr \<Rightarrow> ustr" where
  "json_member kv = json_string (fst kv) @ [58] @ snd kv"

definition json_object_text :: "(ustr \<times> ustr) list \<Rightarrow> ustr" where
  "json_object_text kvs = [123] @ py_join [44] (map json_member (sort_key fst kvs)) @ [125]"

fun json_dumps :: "json \<Rightarrow> ustr" where
  "json_dumps JNull = ustr_of ''null''"
| "json_dumps (JBool b) = (if b then ustr_of ''true'' else ustr_of ''false'')"
| "json_dumps (JInt i) = py_str_int i"
| "json_dumps (JFloat repr) = repr"
| "json_dumps (JStr s) = json_string s"
| "json_dumps (JList xs) = json_list_text (map json_dumps xs)"
| "json_dumps (JObj kvs) = json_object_text (map (\<lambda>(k, v). (k, json_dumps v)) kvs)"

lemma insort_key_map: "insort_key f (g x) (map g xs) = map g (insort_key (\<lambda>y. f (g y)) x xs)"
  by (induction xs) auto

lemma sort_key_map: "sort_key f (map g xs) = map g (sort_key (\<lambda>y. f (g y)) xs)"
  by (induction xs) (simp_all add: insort_key_map)

section \<open>Encoding\<close>

text \<open>
  \<open>str.encode("utf-8")\<close> refuses surrogates. A Python string holds code points up to 0x10FFFF.
\<close>

definition utf8_encodable :: "ustr \<Rightarrow> bool" where
  "utf8_encodable s \<longleftrightarrow> list_all (\<lambda>c. \<not> (55296 \<le> c \<and> c \<le> 57343) \<and> c \<le> 1114111) s"

lemma utf8_encode_append [simp]: "utf8_encode (s @ t) = utf8_encode s @ utf8_encode t"
  by (simp add: utf8_encode_def)

lemma utf8_encode_Nil [simp]: "utf8_encode [] = []"
  by (simp add: utf8_encode_def)

lemma utf8_encode_Cons: "utf8_encode (c # s) = utf8_encode_char c @ utf8_encode s"
  by (simp add: utf8_encode_def)

lemma utf8_encode_ascii: "py_isascii s \<Longrightarrow> utf8_encode s = s"
  by (induction s) (auto simp: utf8_encode_Cons utf8_encode_char_def py_isascii_def)

lemma utf8_encode_join:
  "utf8_encode (py_join sep xs) = py_join (utf8_encode sep) (map utf8_encode xs)"
  by (induction sep xs rule: py_join.induct) auto

lemma length_py_join:
  "length (py_join sep xs) = sum_list (map length xs) + length sep * (length xs - 1)"
  by (induction sep xs rule: py_join.induct) auto

lemma length_utf8_le: "length (utf8_encode s) \<le> 4 * length s"
  by (induction s) (auto simp: utf8_encode_Cons utf8_character_size_def)

lemma length_json_escape: "length (utf8_encode (json_escape c)) \<le> 6"
  by (auto simp: json_escape_def utf8_encode_def utf8_encode_char_def hex_digit_def)

lemma length_json_string: "length (utf8_encode (json_string s)) \<le> 6 * length s + 2"
proof -
  have "length (utf8_encode (concat (map json_escape s))) \<le> 6 * length s"
  proof (induction s)
    case (Cons c s)
    then show ?case using length_json_escape [of c] by simp
  qed simp
  then show ?thesis
    by (simp add: json_string_def utf8_encode_def utf8_encode_char_def)
qed

lemma py_str_int_ascii: "py_isascii (py_str_int i)"
  using nat_digits_ascii by (fastforce simp: py_isascii_def py_str_int_def list_all_iff)

subsection \<open>The encoding determines the string\<close>

definition utf8_lead_size :: "nat \<Rightarrow> nat" where
  "utf8_lead_size b = (if b < 128 then 1 else if b < 224 then 2 else if b < 240 then 3 else 4)"

lemma utf8_lead_size_encode:
  assumes "c \<le> 1114111"
  shows "utf8_encode_char c \<noteq> [] \<and> utf8_lead_size (hd (utf8_encode_char c)) = length (utf8_encode_char c)"
  using assms by (auto simp: utf8_encode_char_def utf8_lead_size_def)

fun utf8_decode_char :: "nat list \<Rightarrow> nat" where
  "utf8_decode_char [a] = a"
| "utf8_decode_char [a, b] = (a - 192) * 64 + (b - 128)"
| "utf8_decode_char [a, b, c] = (a - 224) * 4096 + (b - 128) * 64 + (c - 128)"
| "utf8_decode_char [a, b, c, d] =
     (a - 240) * 262144 + (b - 128) * 4096 + (c - 128) * 64 + (d - 128)"
| "utf8_decode_char _ = 0"

lemma utf8_decode_encode_char: "utf8_decode_char (utf8_encode_char c) = c"
proof -
  have 1: "c = c div 64 * 64 + c mod 64" by simp
  have 2: "c div 64 = c div 4096 * 64 + c div 64 mod 64"
    using div_mult_mod_eq [of "c div 64" 64] by (simp only: div_mult2_eq [symmetric]) simp
  have 3: "c div 4096 = c div 262144 * 64 + c div 4096 mod 64"
    using div_mult_mod_eq [of "c div 4096" 64] by (simp only: div_mult2_eq [symmetric]) simp
  have two: "c div 4096 * 4096 + c div 64 mod 64 * 64 + c mod 64 = c"
    using 1 2 by linarith
  have three: "c div 262144 * 262144 + c div 4096 mod 64 * 4096 + c div 64 mod 64 * 64 + c mod 64 = c"
    using 1 2 3 by linarith
  show ?thesis by (simp add: utf8_encode_char_def two three)
qed

lemma utf8_encode_char_inject: "utf8_encode_char c = utf8_encode_char d \<Longrightarrow> c = d"
  by (metis utf8_decode_encode_char)

lemma utf8_encode_inject:
  assumes "utf8_encodable s" "utf8_encodable t" "utf8_encode s = utf8_encode t"
  shows "s = t"
  using assms
proof (induction s arbitrary: t)
  case Nil
  then show ?case
    using utf8_lead_size_encode by (cases t) (auto simp: utf8_encode_Cons utf8_encodable_def)
next
  case (Cons c s)
  then obtain d t' where t: "t = d # t'"
    using utf8_lead_size_encode [of c] by (cases t) (auto simp: utf8_encode_Cons utf8_encodable_def)
  have cd: "c \<le> 1114111" "d \<le> 1114111" using Cons.prems t by (auto simp: utf8_encodable_def)
  have eq: "utf8_encode_char c @ utf8_encode s = utf8_encode_char d @ utf8_encode t'"
    using Cons.prems(3) t by (simp add: utf8_encode_Cons)
  have "hd (utf8_encode_char c) = hd (utf8_encode_char d)"
    using arg_cong [OF eq, of hd] utf8_lead_size_encode [OF cd(1)] utf8_lead_size_encode [OF cd(2)]
    by simp
  then have "length (utf8_encode_char c) = length (utf8_encode_char d)"
    using utf8_lead_size_encode [OF cd(1)] utf8_lead_size_encode [OF cd(2)] by metis
  with eq have "utf8_encode_char c = utf8_encode_char d" "utf8_encode s = utf8_encode t'"
    by (auto dest: append_eq_append_conv [THEN iffD1, rotated])
  then show ?case
    using Cons.IH [of t'] Cons.prems t utf8_encode_char_inject by (auto simp: utf8_encodable_def)
qed

end
