(* ===== verification/Directory_Contract.thy ===== *)
theory Directory_Contract
  imports Py_Json
begin

text \<open>
  The directory-transfer contract shared by the server and its devices
  (\<open>directory_contract.py\<close>): canonical JSON, the validated models of manifest entries,
  manifests and manifest pages, the byte strings that are hashed, the split of a manifest
  into pages, and the destination collision keys. A pydantic model is a record with a
  validation function that returns the record or the error it raises. SHA-256 and the
  Unicode case folding of the destination platform are parameters.
\<close>

datatype contract_error = ValueError | DirectoryContractError | StructError | UnicodeError

definition MAX_DIRECTORY_ENTRIES :: nat where "MAX_DIRECTORY_ENTRIES = 10000"
definition MAX_DIRECTORY_MANIFEST_BYTES :: nat where "MAX_DIRECTORY_MANIFEST_BYTES = 5 * 1024 * 1024"
definition MAX_DIRECTORY_PAGE_ITEMS :: nat where "MAX_DIRECTORY_PAGE_ITEMS = 256"
definition MAX_DIRECTORY_PAGE_BYTES :: nat where "MAX_DIRECTORY_PAGE_BYTES = 256 * 1024"
definition MAX_DIRECTORY_INTEGER :: int where "MAX_DIRECTORY_INTEGER = 2 ^ 63 - 1"

definition MANIFEST_PREFIX :: "nat list" where
  "MANIFEST_PREFIX = ustr_of ''openoctopus-directory-manifest-v1'' @ [0]"

definition CONTENT_PREFIX :: "nat list" where
  "CONTENT_PREFIX = ustr_of ''openoctopus-directory-content-v1'' @ [0]"

section \<open>Canonical JSON\<close>

text \<open>A Python value: a model is the dictionary of its fields, a float its finiteness and text.\<close>

datatype py_value = PyNone | PyBool bool | PyInt int | PyFloat bool ustr | PyStr ustr
  | PyDict "(py_value \<times> py_value) list" | PyList "py_value list" | PyTuple "py_value list"
  | PyModel "(ustr \<times> py_value) list" | PyOther

fun is_py_str :: "py_value \<Rightarrow> bool" where
  "is_py_str (PyStr s) = True"
| "is_py_str _ = False"

fun py_str_value :: "py_value \<Rightarrow> ustr" where
  "py_str_value (PyStr s) = s"
| "py_str_value _ = []"

fun normalized_json :: "py_value \<Rightarrow> contract_error + json"
  and normalized_list :: "py_value list \<Rightarrow> contract_error + json list"
  and normalized_items :: "(py_value \<times> py_value) list \<Rightarrow> contract_error + (ustr \<times> json) list"
  and normalized_fields :: "(ustr \<times> py_value) list \<Rightarrow> contract_error + (ustr \<times> json) list" where
  "normalized_json PyNone = Inr JNull"
| "normalized_json (PyBool b) = Inr (JBool b)"
| "normalized_json (PyInt i) = Inr (JInt i)"
| "normalized_json (PyFloat is_fin repr) =
     (if is_fin then Inr (JFloat repr) else Inl DirectoryContractError)"
| "normalized_json (PyStr s) = Inr (JStr s)"
| "normalized_json (PyDict kvs) =
     (if \<not> list_all (\<lambda>(k, v). is_py_str k) kvs then Inl DirectoryContractError
      else bind_result (normalized_items kvs) (\<lambda>ks. Inr (JObj ks)))"
| "normalized_json (PyList xs) = bind_result (normalized_list xs) (\<lambda>ys. Inr (JList ys))"
| "normalized_json (PyTuple xs) = bind_result (normalized_list xs) (\<lambda>ys. Inr (JList ys))"
| "normalized_json (PyModel fs) = bind_result (normalized_fields fs) (\<lambda>ks. Inr (JObj ks))"
| "normalized_json PyOther = Inl DirectoryContractError"
| "normalized_list [] = Inr []"
| "normalized_list (x # xs) =
     bind_result (normalized_json x) (\<lambda>y. bind_result (normalized_list xs) (\<lambda>ys. Inr (y # ys)))"
| "normalized_items [] = Inr []"
| "normalized_items ((k, x) # xs) =
     bind_result (normalized_json x) (\<lambda>y.
       bind_result (normalized_items xs) (\<lambda>ys. Inr ((py_str_value k, y) # ys)))"
| "normalized_fields [] = Inr []"
| "normalized_fields ((k, x) # xs) =
     bind_result (normalized_json x) (\<lambda>y. bind_result (normalized_fields xs) (\<lambda>ys. Inr ((k, y) # ys)))"

definition canonical_json_bytes :: "py_value \<Rightarrow> contract_error + nat list" where
  "canonical_json_bytes value =
     (case normalized_json value of
        Inl e \<Rightarrow> Inl DirectoryContractError
      | Inr j \<Rightarrow> if utf8_encodable (json_dumps j) then Inr (utf8_encode (json_dumps j))
                 else Inl DirectoryContractError)"

section \<open>Field validation\<close>

definition validate_relative_path :: "ustr \<Rightarrow> contract_error + ustr" where
  "validate_relative_path value =
     (if 0 \<in> set value \<or> py_startswith value [47] then Inl ValueError
      else if list_ex (\<lambda>c. c \<in> {[], [46], [46, 46]}) (py_split 47 value) then Inl ValueError
      else if \<not> utf8_encodable value then Inl ValueError
      else Inr value)"

definition validate_visible_ascii :: "ustr \<Rightarrow> contract_error + ustr" where
  "validate_visible_ascii value =
     (if \<not> py_isascii value \<or> list_ex (\<lambda>c. \<not> (33 \<le> c \<and> c \<le> 126)) value then Inl ValueError
      else Inr value)"

definition sha256_pattern :: "ustr \<Rightarrow> bool" where
  "sha256_pattern s \<longleftrightarrow> length s = 64 \<and> list_all (\<lambda>c. (48 \<le> c \<and> c \<le> 57) \<or> (97 \<le> c \<and> c \<le> 102)) s"

definition bounded_str :: "nat \<Rightarrow> ustr \<Rightarrow> contract_error + ustr" where
  "bounded_str max_length s =
     (if 1 \<le> length s \<and> length s \<le> max_length then Inr s else Inl ValueError)"

definition bounded_int :: "int \<Rightarrow> int \<Rightarrow> int \<Rightarrow> contract_error + int" where
  "bounded_int lo hi i = (if lo \<le> i \<and> i \<le> hi then Inr i else Inl ValueError)"

record manifest_entry =
  e_path :: ustr
  e_size :: int
  e_fingerprint :: ustr

definition validate_entry :: "manifest_entry \<Rightarrow> contract_error + manifest_entry" where
  "validate_entry e =
     bind_result (bounded_str 4096 (e_path e)) (\<lambda>_.
     bind_result (validate_relative_path (e_path e)) (\<lambda>_.
     bind_result (bounded_int 0 MAX_DIRECTORY_INTEGER (e_size e)) (\<lambda>_.
     bind_result (bounded_str 512 (e_fingerprint e)) (\<lambda>_.
     bind_result (validate_visible_ascii (e_fingerprint e)) (\<lambda>_. Inr e)))))"

definition validate_identity :: "ustr option \<Rightarrow> contract_error + ustr option" where
  "validate_identity identity =
     (case identity of
        None \<Rightarrow> Inr None
      | Some s \<Rightarrow> bind_result (bounded_str 512 s) (\<lambda>_.
                  bind_result (validate_visible_ascii s) (\<lambda>_. Inr (Some s))))"

record manifest_directory =
  d_path :: ustr
  d_identity :: "ustr option"

definition validate_directory :: "manifest_directory \<Rightarrow> contract_error + manifest_directory" where
  "validate_directory d =
     bind_result (bounded_str 4096 (d_path d)) (\<lambda>_.
     bind_result (validate_relative_path (d_path d)) (\<lambda>_.
     bind_result (validate_identity (d_identity d)) (\<lambda>_. Inr d)))"

record content_entry =
  c_path :: ustr
  c_size :: int
  c_sha256 :: ustr

definition validate_content_entry :: "content_entry \<Rightarrow> contract_error + content_entry" where
  "validate_content_entry e =
     bind_result (bounded_str 4096 (c_path e)) (\<lambda>_.
     bind_result (validate_relative_path (c_path e)) (\<lambda>_.
     bind_result (bounded_int 0 MAX_DIRECTORY_INTEGER (c_size e)) (\<lambda>_.
     if sha256_pattern (c_sha256 e) then Inr e else Inl ValueError)))"

section \<open>The hashed bytes\<close>

fun be_bytes :: "nat \<Rightarrow> nat \<Rightarrow> nat list" where
  "be_bytes 0 n = []"
| "be_bytes (Suc w) n = be_bytes w (n div 256) @ [n mod 256]"

definition struct_pack :: "nat \<Rightarrow> int \<Rightarrow> contract_error + nat list" where
  "struct_pack w n =
     (if 0 \<le> n \<and> n < 256 ^ w then Inr (be_bytes w (nat n)) else Inl StructError)"

definition ascii_encode :: "ustr \<Rightarrow> contract_error + nat list" where
  "ascii_encode s = (if py_isascii s then Inr s else Inl UnicodeError)"

definition encode_optional_identity :: "ustr option \<Rightarrow> contract_error + nat list" where
  "encode_optional_identity identity =
     (case identity of
        None \<Rightarrow> struct_pack 2 0
      | Some s \<Rightarrow>
          bind_result (ascii_encode s) (\<lambda>encoded.
          bind_result (struct_pack 2 (int (length encoded) + 1)) (\<lambda>size_bytes.
          Inr (size_bytes @ encoded))))"

definition encode_directory_item :: "manifest_directory \<Rightarrow> contract_error + nat list \<times> nat list" where
  "encode_directory_item d =
     (let path = utf8_encode (d_path d)
      in bind_result (struct_pack 4 (int (length path))) (\<lambda>size_bytes.
         bind_result (encode_optional_identity (d_identity d)) (\<lambda>identity_bytes.
         Inr (path, [68] @ size_bytes @ path @ identity_bytes))))"

definition encode_file_item :: "manifest_entry \<Rightarrow> contract_error + nat list \<times> nat list" where
  "encode_file_item e =
     (let path = utf8_encode (e_path e)
      in bind_result (ascii_encode (e_fingerprint e)) (\<lambda>fingerprint.
         bind_result (struct_pack 4 (int (length path))) (\<lambda>path_size.
         bind_result (struct_pack 8 (e_size e)) (\<lambda>size_bytes.
         bind_result (struct_pack 2 (int (length fingerprint))) (\<lambda>fingerprint_size.
         Inr (path, [70] @ path_size @ path @ size_bytes @ fingerprint_size @ fingerprint))))))"

definition manifest_digest_input ::
  "ustr option \<Rightarrow> manifest_directory list \<Rightarrow> manifest_entry list \<Rightarrow> contract_error + nat list" where
  "manifest_digest_input root_identity directories entries =
     bind_result (map_result encode_directory_item directories) (\<lambda>dirs.
     bind_result (map_result encode_file_item entries) (\<lambda>files.
     bind_result (encode_optional_identity root_identity) (\<lambda>root.
     Inr (MANIFEST_PREFIX @ [82] @ root @ concat (map snd (sort_key fst (dirs @ files)))))))"

definition directory_manifest_sha256 ::
  "(nat list \<Rightarrow> ustr) \<Rightarrow> ustr option \<Rightarrow> manifest_directory list \<Rightarrow> manifest_entry list \<Rightarrow>
   contract_error + ustr" where
  "directory_manifest_sha256 sha256 root_identity directories entries =
     bind_result (manifest_digest_input root_identity directories entries) (\<lambda>bytes. Inr (sha256 bytes))"

definition hex_value :: "nat \<Rightarrow> nat" where
  "hex_value c = (if 48 \<le> c \<and> c \<le> 57 then c - 48 else c - 87)"

fun bytes_fromhex :: "ustr \<Rightarrow> nat list" where
  "bytes_fromhex (a # b # s) = (16 * hex_value a + hex_value b) # bytes_fromhex s"
| "bytes_fromhex _ = []"

definition encode_content_item :: "content_entry \<Rightarrow> contract_error + nat list" where
  "encode_content_item e =
     (let path = utf8_encode (c_path e)
      in bind_result (struct_pack 4 (int (length path))) (\<lambda>path_size.
         bind_result (struct_pack 8 (c_size e)) (\<lambda>size_bytes.
         Inr (path_size @ path @ size_bytes @ bytes_fromhex (c_sha256 e)))))"

definition content_digest_input :: "content_entry list \<Rightarrow> contract_error + nat list" where
  "content_digest_input entries =
     bind_result (map_result encode_content_item
                    (sort_key (\<lambda>e. utf8_encode (c_path e)) entries)) (\<lambda>items.
     Inr (CONTENT_PREFIX @ concat items))"

definition directory_content_sha256 ::
  "(nat list \<Rightarrow> ustr) \<Rightarrow> content_entry list \<Rightarrow> contract_error + ustr" where
  "directory_content_sha256 sha256 entries =
     bind_result (content_digest_input entries) (\<lambda>bytes. Inr (sha256 bytes))"

section \<open>The manifest\<close>

record directory_manifest =
  root_identity :: "ustr option"
  scanned_entries :: int
  total_bytes :: int
  directories :: "manifest_directory list"
  entries :: "manifest_entry list"
  manifest_sha256 :: ustr

definition py_optional_str :: "ustr option \<Rightarrow> py_value" where
  "py_optional_str s = (case s of None \<Rightarrow> PyNone | Some v \<Rightarrow> PyStr v)"

definition dump_directory :: "manifest_directory \<Rightarrow> (ustr \<times> py_value) list" where
  "dump_directory d =
     [(ustr_of ''relative_path'', PyStr (d_path d)),
      (ustr_of ''identity'', py_optional_str (d_identity d))]"

definition dump_entry :: "manifest_entry \<Rightarrow> (ustr \<times> py_value) list" where
  "dump_entry e =
     [(ustr_of ''relative_path'', PyStr (e_path e)), (ustr_of ''size'', PyInt (e_size e)),
      (ustr_of ''fingerprint'', PyStr (e_fingerprint e))]"

definition dump_manifest :: "directory_manifest \<Rightarrow> (ustr \<times> py_value) list" where
  "dump_manifest m =
     [(ustr_of ''version'', PyInt 1), (ustr_of ''root_identity'', py_optional_str (root_identity m)),
      (ustr_of ''scanned_entries'', PyInt (scanned_entries m)),
      (ustr_of ''total_bytes'', PyInt (total_bytes m)),
      (ustr_of ''directories'', PyTuple (map (\<lambda>d. PyModel (dump_directory d)) (directories m))),
      (ustr_of ''entries'', PyTuple (map (\<lambda>e. PyModel (dump_entry e)) (entries m))),
      (ustr_of ''manifest_sha256'', PyStr (manifest_sha256 m))]"

definition parent_paths :: "ustr \<Rightarrow> ustr list" where
  "parent_paths relative_path =
     (let components = py_split 47 relative_path
      in map (\<lambda>n. py_join [47] (take n components)) [1..<length components])"

definition validate_manifest_contract ::
  "(nat list \<Rightarrow> ustr) \<Rightarrow> directory_manifest \<Rightarrow> contract_error + directory_manifest" where
  "validate_manifest_contract sha256 m =
     (let directory_paths = map (\<lambda>d. utf8_encode (d_path d)) (directories m);
          entry_paths = map (\<lambda>e. utf8_encode (e_path e)) (entries m);
          directory_names = map d_path (directories m);
          all_paths = directory_names @ map e_path (entries m);
          size_sum = sum_list (map e_size (entries m))
      in if scanned_entries m \<noteq> int (length (directories m) + length (entries m)) then Inl ValueError
         else if directory_paths \<noteq> sort directory_paths \<or> entry_paths \<noteq> sort entry_paths
         then Inl ValueError
         else if length (remdups directory_paths) \<noteq> length directory_paths \<or>
                 length (remdups entry_paths) \<noteq> length entry_paths then Inl ValueError
         else if list_ex (\<lambda>p. p \<in> set entry_paths) directory_paths then Inl ValueError
         else if list_ex (\<lambda>p. list_ex (\<lambda>q. q \<notin> set directory_names) (parent_paths p)) all_paths
         then Inl ValueError
         else if list_ex (\<lambda>d. (d_identity d = None) \<noteq> (root_identity m = None)) (directories m)
         then Inl ValueError
         else if size_sum > MAX_DIRECTORY_INTEGER \<or> total_bytes m \<noteq> size_sum then Inl ValueError
         else bind_result (directory_manifest_sha256 sha256 (root_identity m) (directories m) (entries m)) (\<lambda>expected.
              if manifest_sha256 m \<noteq> expected then Inl ValueError
              else bind_result (canonical_json_bytes (PyModel (dump_manifest m))) (\<lambda>bytes.
              if length bytes > MAX_DIRECTORY_MANIFEST_BYTES then Inl ValueError else Inr m)))"

definition validate_manifest ::
  "(nat list \<Rightarrow> ustr) \<Rightarrow> directory_manifest \<Rightarrow> contract_error + directory_manifest" where
  "validate_manifest sha256 m =
     bind_result (validate_identity (root_identity m)) (\<lambda>_.
     bind_result (bounded_int 1 (int MAX_DIRECTORY_ENTRIES) (scanned_entries m)) (\<lambda>_.
     bind_result (bounded_int 0 MAX_DIRECTORY_INTEGER (total_bytes m)) (\<lambda>_.
     if length (directories m) > MAX_DIRECTORY_ENTRIES then Inl ValueError
     else if entries m = [] \<or> length (entries m) > MAX_DIRECTORY_ENTRIES then Inl ValueError
     else if \<not> sha256_pattern (manifest_sha256 m) then Inl ValueError
     else bind_result (map_result validate_directory (directories m)) (\<lambda>_.
          bind_result (map_result validate_entry (entries m)) (\<lambda>_.
          validate_manifest_contract sha256 m)))))"

definition create_directory_manifest ::
  "(nat list \<Rightarrow> ustr) \<Rightarrow> ustr option \<Rightarrow> manifest_directory list \<Rightarrow> manifest_entry list \<Rightarrow>
   contract_error + directory_manifest" where
  "create_directory_manifest sha256 root ds es =
     (let sorted_directories = sort_key (\<lambda>d. utf8_encode (d_path d)) ds;
          sorted_entries = sort_key (\<lambda>e. utf8_encode (e_path e)) es
      in bind_result (directory_manifest_sha256 sha256 root sorted_directories sorted_entries) (\<lambda>digest.
         validate_manifest sha256
           \<lparr>root_identity = root,
            scanned_entries = int (length sorted_directories + length sorted_entries),
            total_bytes = sum_list (map e_size sorted_entries),
            directories = sorted_directories, entries = sorted_entries, manifest_sha256 = digest\<rparr>))"

section \<open>Pages\<close>

datatype manifest_item = DirectoryItem manifest_directory | FileItem manifest_entry

fun item_path :: "manifest_item \<Rightarrow> ustr" where
  "item_path (DirectoryItem d) = d_path d"
| "item_path (FileItem e) = e_path e"

fun dump_item :: "manifest_item \<Rightarrow> (ustr \<times> py_value) list" where
  "dump_item (DirectoryItem d) = dump_directory d @ [(ustr_of ''kind'', PyStr (ustr_of ''directory''))]"
| "dump_item (FileItem e) = dump_entry e @ [(ustr_of ''kind'', PyStr (ustr_of ''file''))]"

record manifest_page =
  page_offset :: nat
  page_next :: "nat option"
  page_items :: "manifest_item list"

definition dump_page :: "manifest_page \<Rightarrow> (ustr \<times> py_value) list" where
  "dump_page p =
     [(ustr_of ''offset'', PyInt (int (page_offset p))),
      (ustr_of ''next_offset'', (case page_next p of None \<Rightarrow> PyNone | Some n \<Rightarrow> PyInt (int n))),
      (ustr_of ''items'', PyTuple (map (\<lambda>i. PyModel (dump_item i)) (page_items p)))]"

definition validate_page :: "manifest_page \<Rightarrow> contract_error + manifest_page" where
  "validate_page p =
     (let paths = map (\<lambda>i. utf8_encode (item_path i)) (page_items p)
      in if page_offset p > MAX_DIRECTORY_ENTRIES then Inl ValueError
         else if (case page_next p of None \<Rightarrow> False | Some n \<Rightarrow> n < 1 \<or> n > MAX_DIRECTORY_ENTRIES)
         then Inl ValueError
         else if page_items p = [] \<or> length (page_items p) > MAX_DIRECTORY_PAGE_ITEMS then Inl ValueError
         else if page_offset p + length (page_items p) > MAX_DIRECTORY_ENTRIES then Inl ValueError
         else if (case page_next p of None \<Rightarrow> False
                  | Some n \<Rightarrow> n \<noteq> page_offset p + length (page_items p)) then Inl ValueError
         else if paths \<noteq> sort paths \<or> length (remdups paths) \<noteq> length paths then Inl ValueError
         else bind_result (canonical_json_bytes (PyModel (dump_page p))) (\<lambda>bytes.
              if length bytes > MAX_DIRECTORY_PAGE_BYTES then Inl ValueError else Inr p))"

definition page_encoded_size :: "nat list list \<Rightarrow> nat \<Rightarrow> nat option \<Rightarrow> nat" where
  "page_encoded_size item_bytes offset next_offset =
     length (ustr_of ''{\"items\":['') + sum_list (map length item_bytes) + (length item_bytes - 1) +
     length (ustr_of ''],\"next_offset\":'') +
     length (case next_offset of None \<Rightarrow> ustr_of ''null'' | Some n \<Rightarrow> py_str_int (int n)) +
     length (ustr_of '',\"offset\":'') + length (py_str_int (int offset)) + length (ustr_of ''}'')"

definition following_offset :: "nat \<Rightarrow> nat \<Rightarrow> nat option" where
  "following_offset stop total_items = (if stop < total_items then Some stop else None)"

text \<open>The inner loop: take items while they fit in the page.\<close>

fun fill_page ::
  "nat \<Rightarrow> nat \<Rightarrow> manifest_item list \<Rightarrow> manifest_item list \<Rightarrow> nat list list \<Rightarrow>
   contract_error + manifest_item list" where
  "fill_page offset total_items [] taken taken_bytes = Inr taken"
| "fill_page offset total_items (candidate # rest) taken taken_bytes =
     (if \<not> length taken < MAX_DIRECTORY_PAGE_ITEMS then Inr taken
      else bind_result (canonical_json_bytes (PyModel (dump_item candidate))) (\<lambda>candidate_bytes.
           if page_encoded_size (taken_bytes @ [candidate_bytes]) offset
                (following_offset (offset + (length taken + 1)) total_items) > MAX_DIRECTORY_PAGE_BYTES
           then Inr taken
           else fill_page offset total_items rest (taken @ [candidate]) (taken_bytes @ [candidate_bytes])))"

lemma fill_page_bound:
  "fill_page off n rest taken bs = Inr r \<Longrightarrow> \<exists>k. r = taken @ take k rest \<and> k \<le> length rest"
proof (induction rest arbitrary: taken bs)
  case (Cons c rest)
  show ?case
  proof (cases "r = taken")
    case True
    then show ?thesis by (intro exI [of _ 0]) simp
  next
    case False
    with Cons.prems obtain bs' where "fill_page off n rest (taken @ [c]) bs' = Inr r"
      by (auto simp: bind_result_Inr_iff split: if_splits)
    from Cons.IH [OF this] obtain k where "r = (taken @ [c]) @ take k rest" "k \<le> length rest" by auto
    then show ?thesis by (intro exI [of _ "Suc k"]) simp
  qed
qed simp

function split_pages ::
  "manifest_item list \<Rightarrow> nat \<Rightarrow> contract_error + manifest_page list" where
  "split_pages items offset =
     (if offset < length items then
        case fill_page offset (length items) (drop offset items) [] [] of
          Inl e \<Rightarrow> Inl e
        | Inr taken \<Rightarrow>
            if taken = [] then Inl DirectoryContractError
            else bind_result (validate_page
                    \<lparr>page_offset = offset,
                     page_next = following_offset (offset + length taken) (length items),
                     page_items = taken\<rparr>) (\<lambda>page.
                 bind_result (split_pages items (offset + length taken)) (\<lambda>pages.
                 Inr (page # pages)))
      else Inr [])"
  by pat_completeness auto
termination
proof (relation "measure (\<lambda>(items, offset). length items - offset)", goal_cases)
  case (2 items offset taken page)
  then have "0 < length taken" by simp
  then have "length items - (offset + length taken) < length items - offset"
    using 2(1) by linarith
  then show ?case by simp
qed simp

declare split_pages.simps [simp del]

definition manifest_items :: "directory_manifest \<Rightarrow> manifest_item list" where
  "manifest_items m =
     sort_key (\<lambda>i. utf8_encode (item_path i))
       (map DirectoryItem (directories m) @ map FileItem (entries m))"

definition split_manifest_pages :: "directory_manifest \<Rightarrow> contract_error + manifest_page list" where
  "split_manifest_pages m = split_pages (manifest_items m) 0"

section \<open>Destination collision keys\<close>

datatype destination_platform = Linux | Macos | Windows

definition destination_key ::
  "(ustr \<Rightarrow> ustr) \<Rightarrow> ustr \<Rightarrow> destination_platform \<Rightarrow> nat list list" where
  "destination_key nfc_casefold path platform =
     (let components = py_split 47 path;
          folded = (if platform = Macos \<or> platform = Windows then map nfc_casefold components else components)
      in map utf8_encode folded)"

fun parent_key_loop ::
  "nat list list \<Rightarrow> ustr list \<Rightarrow> nat list \<Rightarrow> (nat list list, ustr) dict \<Rightarrow>
   contract_error + (nat list list, ustr) dict" where
  "parent_key_loop key components [] sources = Inr sources"
| "parent_key_loop key components (n # ns) sources =
     (let parent_key = take n key; parent_source = py_join [47] (take n components)
      in case dict_get sources parent_key of
           None \<Rightarrow> parent_key_loop key components ns (dict_set parent_key parent_source sources)
         | Some previous \<Rightarrow>
             if previous \<noteq> parent_source then Inl DirectoryContractError
             else parent_key_loop key components ns sources)"

text \<open>The derived parent keys are the keys of the dictionary of their sources.\<close>

fun collision_loop ::
  "(ustr \<Rightarrow> ustr) \<Rightarrow> destination_platform \<Rightarrow> manifest_entry list \<Rightarrow> nat list list list \<Rightarrow>
   (nat list list, ustr) dict \<Rightarrow>
   contract_error + nat list list list \<times> (nat list list, ustr) dict" where
  "collision_loop folded platform [] file_keys sources = Inr (file_keys, sources)"
| "collision_loop folded platform (e # es) file_keys sources =
     (let key = destination_key folded (e_path e) platform
      in bind_result (parent_key_loop key (py_split 47 (e_path e)) [1..<length key] sources) (\<lambda>sources'.
         collision_loop folded platform es (file_keys @ [key]) sources'))"

definition destination_collision_keys ::
  "(ustr \<Rightarrow> ustr) \<Rightarrow> directory_manifest \<Rightarrow> destination_platform \<Rightarrow>
   contract_error + nat list list list" where
  "destination_collision_keys nfc_casefold m platform =
     bind_result (collision_loop nfc_casefold platform (entries m) [] []) (\<lambda>(file_keys, sources).
     if length (remdups file_keys) \<noteq> length file_keys then Inl DirectoryContractError
     else if list_ex (\<lambda>k. k \<in> set (dict_keys sources)) file_keys then Inl DirectoryContractError
     else Inr file_keys)"

section \<open>Valid items\<close>

fun item_valid :: "manifest_item \<Rightarrow> bool" where
  "item_valid (DirectoryItem d) \<longleftrightarrow> validate_directory d = Inr d"
| "item_valid (FileItem e) \<longleftrightarrow> validate_entry e = Inr e"

lemma validate_relative_path_Inr:
  "validate_relative_path p = Inr q \<longleftrightarrow> q = p \<and> 0 \<notin> set p \<and> \<not> py_startswith p [47] \<and>
     (\<forall>c \<in> set (py_split 47 p). c \<notin> {[], [46], [46, 46]}) \<and> utf8_encodable p"
  by (auto simp: validate_relative_path_def list_ex_iff)

lemma validate_visible_ascii_Inr:
  "validate_visible_ascii s = Inr t \<longleftrightarrow> t = s \<and> (\<forall>c \<in> set s. 33 \<le> c \<and> c \<le> 126)"
proof -
  have "py_isascii s" if "\<forall>c \<in> set s. 33 \<le> c \<and> c \<le> 126"
    using that by (fastforce simp: py_isascii_def list_all_iff)
  then show ?thesis by (auto simp: validate_visible_ascii_def list_ex_iff)
qed

lemma visible_ascii:
  assumes "\<forall>c \<in> set s. 33 \<le> c \<and> c \<le> (126 :: nat)"
  shows "py_isascii s" "utf8_encodable s"
  using assms by (fastforce simp: py_isascii_def utf8_encodable_def list_all_iff)+

lemma bounded_str_Inr: "bounded_str n s = Inr t \<longleftrightarrow> t = s \<and> 1 \<le> length s \<and> length s \<le> n"
  by (auto simp: bounded_str_def)

lemma bounded_int_Inr: "bounded_int lo hi i = Inr j \<longleftrightarrow> j = i \<and> lo \<le> i \<and> i \<le> hi"
  by (auto simp: bounded_int_def)

definition identity_ok :: "ustr option \<Rightarrow> bool" where
  "identity_ok identity \<longleftrightarrow>
     (\<forall>s. identity = Some s \<longrightarrow> 1 \<le> length s \<and> length s \<le> 512 \<and> (\<forall>c \<in> set s. 33 \<le> c \<and> c \<le> 126))"

lemma validate_identity_Inr: "validate_identity i = Inr j \<longleftrightarrow> j = i \<and> identity_ok i"
  by (auto simp: validate_identity_def identity_ok_def bind_result_Inr_iff bounded_str_Inr
      validate_visible_ascii_Inr split: option.splits)

definition path_ok :: "ustr \<Rightarrow> bool" where
  "path_ok p \<longleftrightarrow> 1 \<le> length p \<and> length p \<le> 4096 \<and> validate_relative_path p = Inr p"

lemma path_ok_encodable: "path_ok p \<Longrightarrow> utf8_encodable p"
  by (simp add: path_ok_def validate_relative_path_Inr)

lemma validate_directory_Inr:
  "validate_directory d = Inr d' \<longleftrightarrow> d' = d \<and> path_ok (d_path d) \<and> identity_ok (d_identity d)"
  by (auto simp: validate_directory_def path_ok_def bind_result_Inr_iff bounded_str_Inr
      validate_identity_Inr validate_relative_path_Inr)

definition entry_ok :: "manifest_entry \<Rightarrow> bool" where
  "entry_ok e \<longleftrightarrow> path_ok (e_path e) \<and> 0 \<le> e_size e \<and> e_size e \<le> MAX_DIRECTORY_INTEGER \<and>
     1 \<le> length (e_fingerprint e) \<and> length (e_fingerprint e) \<le> 512 \<and>
     (\<forall>c \<in> set (e_fingerprint e). 33 \<le> c \<and> c \<le> 126)"

lemma validate_entry_Inr: "validate_entry e = Inr e' \<longleftrightarrow> e' = e \<and> entry_ok e"
  by (auto simp: validate_entry_def entry_ok_def path_ok_def bind_result_Inr_iff bounded_str_Inr
      bounded_int_Inr validate_visible_ascii_Inr validate_relative_path_Inr)

lemma map_result_validate:
  assumes "\<And>x y. f x = Inr y \<longleftrightarrow> y = x \<and> P x"
  shows "map_result f xs = Inr ys \<longleftrightarrow> ys = xs \<and> (\<forall>x \<in> set xs. P x)"
  by (induction xs arbitrary: ys) (auto simp: bind_result_Inr_iff assms)

section \<open>Sizes of canonical JSON\<close>

lemma utf8_encodable_simps [simp]:
  "utf8_encodable []"
  "utf8_encodable (s @ t) \<longleftrightarrow> utf8_encodable s \<and> utf8_encodable t"
  "utf8_encodable (c # s) \<longleftrightarrow> \<not> (55296 \<le> c \<and> c \<le> 57343) \<and> c \<le> 1114111 \<and> utf8_encodable s"
  by (auto simp: utf8_encodable_def)

lemma utf8_encodable_concat: "utf8_encodable (concat xs) \<longleftrightarrow> (\<forall>x \<in> set xs. utf8_encodable x)"
  by (induction xs) auto

lemma utf8_encodable_join:
  "utf8_encodable sep \<Longrightarrow> utf8_encodable (py_join sep xs) \<longleftrightarrow> (\<forall>x \<in> set xs. utf8_encodable x)"
  by (induction sep xs rule: py_join.induct) auto

lemma utf8_encodable_ascii: "py_isascii s \<Longrightarrow> utf8_encodable s"
  by (fastforce simp: py_isascii_def utf8_encodable_def list_all_iff)

lemma utf8_encodable_escape: "utf8_encodable (json_escape c) \<longleftrightarrow> utf8_encodable [c]"
  by (auto simp: json_escape_def utf8_encodable_def hex_digit_def)

lemma utf8_encodable_json_string: "utf8_encodable (json_string s) \<longleftrightarrow> utf8_encodable s"
proof -
  have "utf8_encodable (concat (map json_escape s)) \<longleftrightarrow> utf8_encodable s"
    by (induction s) (auto simp: utf8_encodable_escape)
  moreover have "utf8_encodable [34]" by (simp add: utf8_encodable_def)
  ultimately show ?thesis by (simp add: json_string_def)
qed

fun optional_json :: "ustr option \<Rightarrow> json" where
  "optional_json None = JNull"
| "optional_json (Some s) = JStr s"

fun item_json :: "manifest_item \<Rightarrow> json" where
  "item_json (DirectoryItem d) =
     JObj [(ustr_of ''relative_path'', JStr (d_path d)), (ustr_of ''identity'', optional_json (d_identity d)),
           (ustr_of ''kind'', JStr (ustr_of ''directory''))]"
| "item_json (FileItem e) =
     JObj [(ustr_of ''relative_path'', JStr (e_path e)), (ustr_of ''size'', JInt (e_size e)),
           (ustr_of ''fingerprint'', JStr (e_fingerprint e)), (ustr_of ''kind'', JStr (ustr_of ''file''))]"

lemma normalized_item: "normalized_json (PyModel (dump_item i)) = Inr (item_json i)"
  by (cases i) (simp_all add: dump_directory_def dump_entry_def py_optional_str_def split: option.split)

definition item_text :: "manifest_item \<Rightarrow> ustr" where
  "item_text i = json_dumps (item_json i)"

lemma canonical_item:
  "canonical_json_bytes (PyModel (dump_item i)) =
     (if utf8_encodable (item_text i) then Inr (utf8_encode (item_text i)) else Inl DirectoryContractError)"
  unfolding canonical_json_bytes_def normalized_item by (simp add: item_text_def)

lemma normalized_list_map:
  "(\<And>x. x \<in> set xs \<Longrightarrow> normalized_json (f x) = Inr (g x)) \<Longrightarrow>
   normalized_list (map f xs) = Inr (map g xs)"
  by (induction xs) auto

lemma ascii_literals:
  "py_isascii (ustr_of ''null'')" "py_isascii (ustr_of ''relative_path'')" "py_isascii (ustr_of ''identity'')"
  "py_isascii (ustr_of ''kind'')" "py_isascii (ustr_of ''directory'')" "py_isascii (ustr_of ''file'')"
  "py_isascii (ustr_of ''size'')" "py_isascii (ustr_of ''fingerprint'')"
  by (simp_all add: py_isascii_def ustr_of_def)

lemma item_text_directory:
  "item_text (DirectoryItem d) = [123] @ py_join [44]
     [json_string (ustr_of ''identity'') @ [58] @ json_dumps (optional_json (d_identity d)),
      json_string (ustr_of ''kind'') @ [58] @ json_string (ustr_of ''directory''),
      json_string (ustr_of ''relative_path'') @ [58] @ json_string (d_path d)] @ [125]"
  by (simp add: item_text_def json_object_text_def json_member_def ustr_of_def)

lemma item_text_file:
  "item_text (FileItem e) = [123] @ py_join [44]
     [json_string (ustr_of ''fingerprint'') @ [58] @ json_string (e_fingerprint e),
      json_string (ustr_of ''kind'') @ [58] @ json_string (ustr_of ''file''),
      json_string (ustr_of ''relative_path'') @ [58] @ json_string (e_path e),
      json_string (ustr_of ''size'') @ [58] @ py_str_int (e_size e)] @ [125]"
  by (simp add: item_text_def json_object_text_def json_member_def ustr_of_def)

lemma length_literal_string: "py_isascii s \<Longrightarrow> length (utf8_encode (json_string s)) \<le> 6 * length s + 2"
  by (rule length_json_string)

lemma length_str_int: "0 \<le> i \<Longrightarrow> i < 10 ^ k \<Longrightarrow> 0 < k \<Longrightarrow> length (py_str_int i) \<le> k"
  using length_nat_digits [of "nat i" k] by (simp add: py_str_int_def nat_less_iff)

lemma item_valid_ok:
  "item_valid (DirectoryItem d) \<longleftrightarrow> path_ok (d_path d) \<and> identity_ok (d_identity d)"
  "item_valid (FileItem e) \<longleftrightarrow> entry_ok e"
  by (simp_all add: validate_directory_Inr validate_entry_Inr)

lemma item_valid_path: "item_valid i \<Longrightarrow> path_ok (item_path i)"
  by (cases i) (auto simp: item_valid_ok entry_ok_def simp del: item_valid.simps)

lemma item_text_encodable: "item_valid i \<Longrightarrow> utf8_encodable (item_text i)"
proof (cases i)
  case (DirectoryItem d)
  moreover assume "item_valid i"
  ultimately have d: "path_ok (d_path d)" "identity_ok (d_identity d)"
    by (simp_all add: item_valid_ok del: item_valid.simps)
  have "utf8_encodable (json_dumps (optional_json (d_identity d)))"
    using d(2) ascii_literals(1)
    by (cases "d_identity d")
      (auto simp: utf8_encodable_json_string identity_ok_def visible_ascii utf8_encodable_ascii)
  with d DirectoryItem show ?thesis
    by (simp add: item_text_directory utf8_encodable_json_string utf8_encodable_ascii ascii_literals
        path_ok_encodable)
next
  case (FileItem e)
  moreover assume "item_valid i"
  ultimately have e: "entry_ok e" by (simp add: item_valid_ok del: item_valid.simps)
  then have "utf8_encodable (e_fingerprint e)" "utf8_encodable (e_path e)"
    by (auto simp: entry_ok_def path_ok_encodable intro: visible_ascii)
  with FileItem show ?thesis
    by (simp add: item_text_file utf8_encodable_json_string utf8_encodable_ascii ascii_literals
        py_str_int_ascii)
qed

lemma utf8_singletons [simp]:
  "c < 128 \<Longrightarrow> utf8_encode [c] = [c]"
  by (simp add: utf8_encode_def utf8_encode_char_def)

lemma length_literals:
  "length (ustr_of ''identity'') = 8" "length (ustr_of ''kind'') = 4" "length (ustr_of ''directory'') = 9"
  "length (ustr_of ''relative_path'') = 13" "length (ustr_of ''fingerprint'') = 11"
  "length (ustr_of ''file'') = 4" "length (ustr_of ''size'') = 4" "length (ustr_of ''null'') = 4"
  by (simp_all add: ustr_of_def)

lemma length_utf8_Cons: "c < 128 \<Longrightarrow> length (utf8_encode (c # s)) = Suc (length (utf8_encode s))"
  by (simp add: utf8_encode_Cons utf8_character_size_def)

text \<open>An item of a valid manifest takes at most 28 700 bytes: a page always has room for one.\<close>

lemma item_text_bound:
  assumes "item_valid i"
  shows "length (utf8_encode (item_text i)) \<le> 28700"
proof (cases i)
  case (DirectoryItem d)
  with assms have d: "length (d_path d) \<le> 4096" "identity_ok (d_identity d)"
    by (simp_all add: item_valid_ok path_ok_def del: item_valid.simps)
  have "length (utf8_encode (json_dumps (optional_json (d_identity d)))) \<le> 3074"
  proof (cases "d_identity d")
    case None
    then show ?thesis by (simp add: utf8_encode_ascii ascii_literals length_literals)
  next
    case (Some s)
    then show ?thesis using d(2) length_json_string [of s] by (auto simp: identity_ok_def)
  qed
  then show ?thesis
    using DirectoryItem d(1) length_json_string [of "d_path d"]
      length_json_string [of "ustr_of ''identity''"] length_json_string [of "ustr_of ''kind''"]
      length_json_string [of "ustr_of ''directory''"] length_json_string [of "ustr_of ''relative_path''"]
    by (simp add: item_text_directory length_literals length_utf8_Cons)
next
  case (FileItem e)
  with assms have e: "length (e_path e) \<le> 4096" "length (e_fingerprint e) \<le> 512"
    "0 \<le> e_size e" "e_size e \<le> MAX_DIRECTORY_INTEGER"
    by (simp_all add: item_valid_ok entry_ok_def path_ok_def del: item_valid.simps)
  have "length (utf8_encode (py_str_int (e_size e))) \<le> 19"
    using length_str_int [of "e_size e" 19] e(3,4)
    by (simp add: utf8_encode_ascii py_str_int_ascii MAX_DIRECTORY_INTEGER_def)
  then show ?thesis
    using FileItem e(1,2) length_json_string [of "e_path e"] length_json_string [of "e_fingerprint e"]
      length_json_string [of "ustr_of ''fingerprint''"] length_json_string [of "ustr_of ''kind''"]
      length_json_string [of "ustr_of ''file''"] length_json_string [of "ustr_of ''relative_path''"]
      length_json_string [of "ustr_of ''size''"]
    by (simp add: item_text_file length_literals length_utf8_Cons)
qed

section \<open>The size of a page is projected exactly\<close>

fun next_json :: "nat option \<Rightarrow> json" where
  "next_json None = JNull"
| "next_json (Some n) = JInt (int n)"

definition page_text :: "manifest_page \<Rightarrow> ustr" where
  "page_text p = [123] @ py_join [44]
     [json_string (ustr_of ''items'') @ [58] @ json_list_text (map item_text (page_items p)),
      json_string (ustr_of ''next_offset'') @ [58] @ json_dumps (next_json (page_next p)),
      json_string (ustr_of ''offset'') @ [58] @ py_str_int (int (page_offset p))] @ [125]"

lemma canonical_page:
  "canonical_json_bytes (PyModel (dump_page p)) =
     (if utf8_encodable (page_text p) then Inr (utf8_encode (page_text p)) else Inl DirectoryContractError)"
proof -
  define j where "j = JObj [(ustr_of ''offset'', JInt (int (page_offset p))),
    (ustr_of ''next_offset'', next_json (page_next p)),
    (ustr_of ''items'', JList (map item_json (page_items p)))]"
  have "normalized_list (map (\<lambda>i. PyModel (dump_item i)) (page_items p)) = Inr (map item_json (page_items p))"
    using normalized_item by (intro normalized_list_map)
  then have "normalized_json (PyModel (dump_page p)) = Inr j"
    by (simp add: dump_page_def j_def split: option.split)
  moreover have "json_dumps j = page_text p"
    by (simp add: j_def page_text_def json_object_text_def json_member_def ustr_of_def item_text_def [abs_def] comp_def)
  ultimately show ?thesis by (simp add: canonical_json_bytes_def)
qed

lemma next_json_ascii: "py_isascii (json_dumps (next_json n))"
  by (cases n) (simp_all add: ascii_literals py_str_int_ascii)

lemma page_text_encodable:
  "utf8_encodable (page_text p) \<longleftrightarrow> (\<forall>i \<in> set (page_items p). utf8_encodable (item_text i))"
proof -
  have "utf8_encodable (json_string (ustr_of s))" if "py_isascii (ustr_of s)" for s
    using that by (simp add: utf8_encodable_json_string utf8_encodable_ascii)
  moreover have "py_isascii (ustr_of ''items'')" "py_isascii (ustr_of ''next_offset'')"
    "py_isascii (ustr_of ''offset'')"
    by (simp_all add: py_isascii_def ustr_of_def)
  ultimately show ?thesis
    by (simp add: page_text_def json_list_text_def utf8_encodable_join utf8_encodable_ascii
        py_str_int_ascii next_json_ascii)
qed

lemma length_page_text:
  "length (utf8_encode (page_text p)) =
     page_encoded_size (map (\<lambda>i. utf8_encode (item_text i)) (page_items p)) (page_offset p) (page_next p)"
proof -
  have lits: "length (utf8_encode (json_string (ustr_of ''items''))) = 7"
    "length (utf8_encode (json_string (ustr_of ''next_offset''))) = 13"
    "length (utf8_encode (json_string (ustr_of ''offset''))) = 8"
    by (simp_all add: json_string_def ustr_of_def json_escape_def utf8_encode_def utf8_encode_char_def)
  have lits2: "length (ustr_of ''{\"items\":['') = 10" "length (ustr_of ''],\"next_offset\":'') = 16"
    "length (ustr_of '',\"offset\":'') = 10" "length (ustr_of ''}'') = 1"
    by (simp_all add: ustr_of_def)
  have "length (utf8_encode (json_list_text (map item_text (page_items p)))) =
    2 + sum_list (map length (map (\<lambda>i. utf8_encode (item_text i)) (page_items p))) + (length (page_items p) - 1)"
    by (simp add: json_list_text_def utf8_encode_join length_py_join length_utf8_Cons comp_def)
  moreover have "length (case page_next p of None \<Rightarrow> ustr_of ''null'' | Some n \<Rightarrow> py_str_int (int n)) =
    length (utf8_encode (json_dumps (next_json (page_next p))))"
    by (cases "page_next p") (simp_all add: utf8_encode_ascii ascii_literals py_str_int_ascii)
  ultimately show ?thesis
    by (simp add: page_text_def page_encoded_size_def lits lits2 length_utf8_Cons utf8_encode_ascii
        py_str_int_ascii)
qed

section \<open>Splitting a manifest\<close>

abbreviation item_key :: "manifest_item \<Rightarrow> nat list" where
  "item_key i \<equiv> utf8_encode (item_path i)"

abbreviation item_bytes :: "manifest_item \<Rightarrow> nat list" where
  "item_bytes i \<equiv> utf8_encode (item_text i)"

lemma page_encoded_size_single:
  assumes "length b \<le> 28700" "offset < 10 ^ 5" "following = None \<or> following = Some k \<and> k < 10 ^ 5"
  shows "page_encoded_size [b] offset following \<le> MAX_DIRECTORY_PAGE_BYTES"
proof -
  have five: "length (py_str_int (int n)) \<le> 5" if "n < 10 ^ 5" for n
    using length_str_int [of "int n" 5] that by simp
  show ?thesis
    using assms five [of offset] five [of k] by (auto simp: page_encoded_size_def MAX_DIRECTORY_PAGE_BYTES_def ustr_of_def
        split: option.split)
qed

lemma fill_page_correct:
  assumes "\<forall>i \<in> set rest. item_valid i"
    and "bs = map item_bytes taken" and "length taken \<le> MAX_DIRECTORY_PAGE_ITEMS"
    and "taken \<noteq> [] \<Longrightarrow>
      page_encoded_size bs offset (following_offset (offset + length taken) n) \<le> MAX_DIRECTORY_PAGE_BYTES"
  shows "\<exists>k. fill_page offset n rest taken bs = Inr (taken @ take k rest) \<and> k \<le> length rest \<and>
    length taken + k \<le> MAX_DIRECTORY_PAGE_ITEMS \<and>
    (taken @ take k rest \<noteq> [] \<longrightarrow>
      page_encoded_size (map item_bytes (taken @ take k rest)) offset
        (following_offset (offset + length taken + k) n) \<le> MAX_DIRECTORY_PAGE_BYTES)"
  using assms
proof (induction rest arbitrary: taken bs)
  case Nil
  then show ?case by (intro exI [of _ 0]) auto
next
  case (Cons c rest)
  show ?case
  proof (cases "length taken < MAX_DIRECTORY_PAGE_ITEMS \<and>
      page_encoded_size (bs @ [item_bytes c]) offset (following_offset (offset + (length taken + 1)) n)
        \<le> MAX_DIRECTORY_PAGE_BYTES")
    case False
    then have "fill_page offset n (c # rest) taken bs = Inr taken"
      using Cons.prems(1) by (auto simp: canonical_item item_text_encodable)
    then show ?thesis using Cons.prems by (intro exI [of _ 0]) auto
  next
    case True
    have step: "fill_page offset n (c # rest) taken bs =
        fill_page offset n rest (taken @ [c]) (bs @ [item_bytes c])"
      using True Cons.prems(1) by (simp add: canonical_item item_text_encodable)
    from True Cons.prems obtain k where
      "fill_page offset n rest (taken @ [c]) (bs @ [item_bytes c]) = Inr ((taken @ [c]) @ take k rest)"
      "k \<le> length rest" "length (taken @ [c]) + k \<le> MAX_DIRECTORY_PAGE_ITEMS"
      "page_encoded_size (map item_bytes ((taken @ [c]) @ take k rest)) offset
        (following_offset (offset + length (taken @ [c]) + k) n) \<le> MAX_DIRECTORY_PAGE_BYTES"
      using Cons.IH [of "bs @ [item_bytes c]" "taken @ [c]"] by auto
    then show ?thesis using step by (intro exI [of _ "Suc k"]) simp
  qed
qed

lemma fill_page_start:
  assumes "\<forall>i \<in> set items. item_valid i" "offset < length items" "length items \<le> MAX_DIRECTORY_ENTRIES"
  obtains k where "fill_page offset (length items) (drop offset items) [] [] = Inr (take k (drop offset items))"
    "0 < k" "offset + k \<le> length items" "k \<le> MAX_DIRECTORY_PAGE_ITEMS"
    "page_encoded_size (map item_bytes (take k (drop offset items))) offset
      (following_offset (offset + k) (length items)) \<le> MAX_DIRECTORY_PAGE_BYTES"
proof -
  define n where "n = length items"
  obtain c rest where drop_eq: "drop offset items = c # rest"
    using assms(2) by (metis drop_eq_Nil list.exhaust not_less)
  have "c \<in> set items" using drop_eq by (metis in_set_dropD list.set_intros(1))
  then have c: "item_valid c" using assms(1) by blast
  have lens: "offset < 10 ^ 5" "offset + 1 < 10 ^ 5"
    using assms(2,3) by (simp_all add: MAX_DIRECTORY_ENTRIES_def)
  have fit: "page_encoded_size [item_bytes c] offset (following_offset (offset + 1) n) \<le> MAX_DIRECTORY_PAGE_BYTES"
    by (rule page_encoded_size_single [OF item_text_bound [OF c] lens(1)])
      (use lens(2) in \<open>auto simp: following_offset_def\<close>)
  have one: "(0::nat) < MAX_DIRECTORY_PAGE_ITEMS" by (simp add: MAX_DIRECTORY_PAGE_ITEMS_def)
  have "fill_page offset n (drop offset items) [] [] = fill_page offset n rest [c] [item_bytes c]"
    using c one fit by (simp add: drop_eq canonical_item item_text_encodable)
  moreover have "\<forall>i \<in> set rest. item_valid i"
    using drop_eq assms(1) by (metis in_set_dropD list.set_intros(2))
  ultimately obtain k where k: "fill_page offset n (drop offset items) [] [] = Inr (c # take k rest)"
    "k \<le> length rest" "Suc k \<le> MAX_DIRECTORY_PAGE_ITEMS"
    "page_encoded_size (map item_bytes (c # take k rest)) offset
      (following_offset (offset + 1 + k) n) \<le> MAX_DIRECTORY_PAGE_BYTES"
    using fill_page_correct [of rest "[item_bytes c]" "[c]" offset n] fit one by auto
  have "offset + Suc k \<le> length items"
    using k(2) arg_cong [OF drop_eq, of length] by simp
  then show thesis
    using that [of "Suc k"] k drop_eq by (simp add: n_def)
qed

lemma sorted_distinct_slice:
  assumes "sorted (map f xs)" "distinct (map f xs)"
  shows "sorted (map f (take k (drop n xs))) \<and> distinct (map f (take k (drop n xs)))"
  using assms by (simp add: take_map [symmetric] drop_map [symmetric] sorted_wrt_take sorted_wrt_drop)

lemma distinct_remdups_length: "distinct xs \<Longrightarrow> length (remdups xs) = length xs"
  by (simp add: distinct_remdups_id)

lemma validate_page_ok:
  assumes "\<forall>i \<in> set (page_items p). item_valid i" "page_items p \<noteq> []"
    and "length (page_items p) \<le> MAX_DIRECTORY_PAGE_ITEMS"
    and "page_offset p + length (page_items p) \<le> total_items" "total_items \<le> MAX_DIRECTORY_ENTRIES"
    and "page_next p = following_offset (page_offset p + length (page_items p)) total_items"
    and "sorted (map item_key (page_items p))" "distinct (map item_key (page_items p))"
    and "page_encoded_size (map item_bytes (page_items p)) (page_offset p) (page_next p) \<le> MAX_DIRECTORY_PAGE_BYTES"
  shows "validate_page p = Inr p"
proof -
  have "canonical_json_bytes (PyModel (dump_page p)) = Inr (utf8_encode (page_text p))"
    using assms(1) by (simp add: canonical_page page_text_encodable item_text_encodable)
  moreover have "0 < length (page_items p)" using assms(2) by simp
  ultimately show ?thesis
    using assms
    by (auto simp: validate_page_def Let_def length_page_text sorted_sort_id distinct_remdups_length
        following_offset_def split: if_splits)
qed

text \<open>What a list of pages is: consecutive slices of the items from an offset on.\<close>

fun pages_from :: "manifest_item list \<Rightarrow> nat \<Rightarrow> manifest_page list \<Rightarrow> bool" where
  "pages_from items offset [] \<longleftrightarrow> offset = length items"
| "pages_from items offset (p # ps) \<longleftrightarrow>
     page_offset p = offset \<and> page_items p \<noteq> [] \<and>
     page_next p = (if ps = [] then None else Some (offset + length (page_items p))) \<and>
     page_items p = take (length (page_items p)) (drop offset items) \<and>
     validate_page p = Inr p \<and> pages_from items (offset + length (page_items p)) ps"

lemma pages_from_concat: "pages_from items offset ps \<Longrightarrow> concat (map page_items ps) = drop offset items"
proof (induction ps arbitrary: offset)
  case (Cons p ps)
  then have "concat (map page_items ps) = drop (length (page_items p)) (drop offset items)"
    by (simp add: add.commute)
  moreover have "page_items p = take (length (page_items p)) (drop offset items)" using Cons.prems by simp
  ultimately show ?case by (metis append_take_drop_id concat.simps(2) list.simps(9))
qed simp

lemma split_pages_correct:
  assumes "\<forall>i \<in> set items. item_valid i" "length items \<le> MAX_DIRECTORY_ENTRIES"
    and "sorted (map item_key items)" "distinct (map item_key items)" "offset \<le> length items"
  shows "\<exists>pages. split_pages items offset = Inr pages \<and> pages_from items offset pages"
  using assms(5)
proof (induction "length items - offset" arbitrary: offset rule: less_induct)
  case less
  show ?case
  proof (cases "offset < length items")
    case False
    with less.prems show ?thesis by (subst split_pages.simps) simp
  next
    case True
    obtain k where k: "fill_page offset (length items) (drop offset items) [] [] = Inr (take k (drop offset items))"
      "0 < k" "offset + k \<le> length items" "k \<le> MAX_DIRECTORY_PAGE_ITEMS"
      "page_encoded_size (map item_bytes (take k (drop offset items))) offset
        (following_offset (offset + k) (length items)) \<le> MAX_DIRECTORY_PAGE_BYTES"
      using fill_page_start [OF assms(1) True assms(2)] by blast
    define taken where "taken = take k (drop offset items)"
    have len: "length taken = k" "taken \<noteq> []" using k(2,3) True by (auto simp: taken_def)
    define p where "p = \<lparr>page_offset = offset,
      page_next = following_offset (offset + k) (length items), page_items = taken\<rparr>"
    have "\<forall>i \<in> set taken. item_valid i"
      using assms(1) by (auto simp: taken_def dest: in_set_takeD in_set_dropD)
    then have valid: "validate_page p = Inr p"
      using k len sorted_distinct_slice [OF assms(3,4), of k offset] assms(2)
      by (intro validate_page_ok [where total_items = "length items"]) (simp_all add: p_def taken_def)
    obtain pages where pages: "split_pages items (offset + k) = Inr pages" "pages_from items (offset + k) pages"
    proof -
      have "length items - (offset + k) < length items - offset" using k(2) True by linarith
      from less.hyps [OF this k(3)] show thesis using that by blast
    qed
    have "pages = [] \<longleftrightarrow> offset + k = length items"
      using pages k(3) by (cases pages) (auto simp: split_pages.simps [of items "offset + k"] split: if_splits)
    then have "pages_from items offset (p # pages)"
      using valid pages(2) len k(3) by (simp add: p_def following_offset_def taken_def)
    moreover have "split_pages items offset = Inr (p # pages)"
      using True k(1) valid pages(1) len
      by (subst split_pages.simps) (simp add: taken_def [symmetric] p_def [symmetric])
    ultimately show ?thesis by blast
  qed
qed

subsection \<open>Valid manifests\<close>

definition manifest_ok :: "directory_manifest \<Rightarrow> bool" where
  "manifest_ok m \<longleftrightarrow>
     identity_ok (root_identity m) \<and>
     (\<forall>d \<in> set (directories m). path_ok (d_path d) \<and> identity_ok (d_identity d)) \<and>
     (\<forall>e \<in> set (entries m). entry_ok e) \<and>
     scanned_entries m = int (length (directories m) + length (entries m)) \<and>
     length (directories m) + length (entries m) \<le> MAX_DIRECTORY_ENTRIES \<and>
     total_bytes m = sum_list (map e_size (entries m)) \<and>
     sorted (map (\<lambda>d. utf8_encode (d_path d)) (directories m)) \<and>
     sorted (map (\<lambda>e. utf8_encode (e_path e)) (entries m)) \<and>
     distinct (map (\<lambda>d. utf8_encode (d_path d)) (directories m)) \<and>
     distinct (map (\<lambda>e. utf8_encode (e_path e)) (entries m)) \<and>
     set (map (\<lambda>d. utf8_encode (d_path d)) (directories m)) \<inter>
       set (map (\<lambda>e. utf8_encode (e_path e)) (entries m)) = {} \<and>
     (\<forall>p \<in> set (map d_path (directories m) @ map e_path (entries m)).
        set (parent_paths p) \<subseteq> set (map d_path (directories m)))"

lemma remdups_length_distinct: "length (remdups xs) = length xs \<longleftrightarrow> distinct xs"
  by (metis distinct_remdups_length length_remdups_card_conv card_distinct)

lemma sort_eq_sorted: "xs = sort xs \<longleftrightarrow> sorted xs"
  by (metis sorted_sort sorted_sort_id)

lemma validate_manifest_ok:
  assumes "validate_manifest sha256 m = Inr m'"
  shows "m' = m \<and> manifest_ok m \<and>
    directory_manifest_sha256 sha256 (root_identity m) (directories m) (entries m) = Inr (manifest_sha256 m)"
proof -
  from assms have dirs: "\<forall>d \<in> set (directories m). path_ok (d_path d) \<and> identity_ok (d_identity d)"
    and ents: "\<forall>e \<in> set (entries m). entry_ok e"
    and ident: "identity_ok (root_identity m)"
    and bound: "scanned_entries m \<le> int MAX_DIRECTORY_ENTRIES"
    and contract: "validate_manifest_contract sha256 m = Inr m'"
    by (auto simp: validate_manifest_def bind_result_Inr_iff validate_identity_Inr bounded_int_Inr
        map_result_validate [of validate_directory, OF validate_directory_Inr]
        map_result_validate [of validate_entry, OF validate_entry_Inr] split: if_splits)
  from contract have c: "m' = m"
    "scanned_entries m = int (length (directories m) + length (entries m))"
    "sorted (map (\<lambda>d. utf8_encode (d_path d)) (directories m))"
    "sorted (map (\<lambda>e. utf8_encode (e_path e)) (entries m))"
    "distinct (map (\<lambda>d. utf8_encode (d_path d)) (directories m))"
    "distinct (map (\<lambda>e. utf8_encode (e_path e)) (entries m))"
    "set (map (\<lambda>d. utf8_encode (d_path d)) (directories m)) \<inter>
       set (map (\<lambda>e. utf8_encode (e_path e)) (entries m)) = {}"
    "\<forall>p \<in> set (map d_path (directories m) @ map e_path (entries m)).
        set (parent_paths p) \<subseteq> set (map d_path (directories m))"
    "total_bytes m = sum_list (map e_size (entries m))"
    "directory_manifest_sha256 sha256 (root_identity m) (directories m) (entries m) = Inr (manifest_sha256 m)"
    unfolding validate_manifest_contract_def Let_def sort_eq_sorted remdups_length_distinct
      list_ex_iff bind_result_Inr_iff
    by (simp_all split: if_splits add: bind_result_Inr_iff) blast+
  with dirs ents ident bound show ?thesis by (simp add: manifest_ok_def)
qed

lemma manifest_items_valid:
  assumes "manifest_ok m"
  shows "\<forall>i \<in> set (manifest_items m). item_valid i"
  using assms
  by (auto simp: manifest_items_def manifest_ok_def item_valid_ok simp del: item_valid.simps)

lemma manifest_items_keys:
  assumes "manifest_ok m"
  shows "sorted (map item_key (manifest_items m)) \<and> distinct (map item_key (manifest_items m)) \<and>
    length (manifest_items m) \<le> MAX_DIRECTORY_ENTRIES"
proof -
  define xs where "xs = map DirectoryItem (directories m) @ map FileItem (entries m)"
  have keys: "map item_key xs = map (\<lambda>d. utf8_encode (d_path d)) (directories m) @
      map (\<lambda>e. utf8_encode (e_path e)) (entries m)"
    by (simp add: xs_def comp_def)
  have "distinct (map item_key xs)" using assms unfolding keys by (simp add: manifest_ok_def)
  then have "distinct (map item_key (sort_key item_key xs))" by (simp add: distinct_map)
  moreover have "sorted (map item_key (sort_key item_key xs))" by (rule sorted_sort_key)
  moreover have "length xs \<le> MAX_DIRECTORY_ENTRIES" using assms by (simp add: xs_def manifest_ok_def)
  ultimately show ?thesis by (simp add: manifest_items_def xs_def [symmetric])
qed

section \<open>Properties of the contract\<close>

text \<open>
  C6. Paging never fails and loses nothing: a manifest that passed validation is always split
  into pages. The pages are valid (1 to 256 items, at most 256 KiB of canonical JSON, sorted
  unique paths, a next offset that follows the page), they continue one another from
  offset 0, only the last has no next offset, and together they hold exactly the manifest's
  directories and files in path order.
\<close>

theorem split_manifest_complete:
  assumes "validate_manifest sha256 m = Inr m'"
  shows "\<exists>pages. split_manifest_pages m = Inr pages \<and>
    pages_from (manifest_items m) 0 pages \<and>
    concat (map page_items pages) = manifest_items m \<and>
    (\<forall>p \<in> set pages. validate_page p = Inr p)"
proof -
  have ok: "manifest_ok m" using validate_manifest_ok [OF assms] by blast
  obtain pages where pages: "split_manifest_pages m = Inr pages" "pages_from (manifest_items m) 0 pages"
    using split_pages_correct [of "manifest_items m" 0] manifest_items_valid [OF ok]
      manifest_items_keys [OF ok] by (auto simp: split_manifest_pages_def)
  have "\<forall>p \<in> set ps. validate_page p = Inr p" if "pages_from items n ps" for items n ps
    using that by (induction items n ps rule: pages_from.induct) auto
  with pages pages_from_concat [OF pages(2)] show ?thesis by auto
qed

subsection \<open>The digest input determines the manifest\<close>

lemma length_be_bytes [simp]: "length (be_bytes w n) = w"
  by (induction w arbitrary: n) auto

lemma be_bytes_inject:
  "be_bytes w m = be_bytes w n \<Longrightarrow> m < 256 ^ w \<Longrightarrow> n < 256 ^ w \<Longrightarrow> m = n"
proof (induction w arbitrary: m n)
  case (Suc w)
  then have "m div 256 = n div 256"
    by (intro Suc.IH) (simp_all add: less_mult_imp_div_less mult.commute)
  moreover have "m mod 256 = n mod 256" using Suc.prems by simp
  ultimately show ?case by (metis div_mult_mod_eq)
qed simp

lemma append_same_length: "length a = length b \<Longrightarrow> a @ x = b @ y \<longleftrightarrow> a = b \<and> x = y"
  by simp

definition identity_bytes :: "ustr option \<Rightarrow> nat list" where
  "identity_bytes i = (case i of None \<Rightarrow> be_bytes 2 0 | Some s \<Rightarrow> be_bytes 2 (length s + 1) @ s)"

fun digest_item :: "manifest_item \<Rightarrow> nat list" where
  "digest_item (DirectoryItem d) =
     [68] @ be_bytes 4 (length (utf8_encode (d_path d))) @ utf8_encode (d_path d) @ identity_bytes (d_identity d)"
| "digest_item (FileItem e) =
     [70] @ be_bytes 4 (length (utf8_encode (e_path e))) @ utf8_encode (e_path e) @
     be_bytes 8 (nat (e_size e)) @ be_bytes 2 (length (e_fingerprint e)) @ e_fingerprint e"

lemma path_bytes_bound: "path_ok p \<Longrightarrow> length (utf8_encode p) < 256 ^ 4"
  using length_utf8_le [of p] by (simp add: path_ok_def)

lemma encode_identity_ok: "identity_ok i \<Longrightarrow> encode_optional_identity i = Inr (identity_bytes i)"
  by (auto simp: encode_optional_identity_def identity_bytes_def identity_ok_def struct_pack_def
      ascii_encode_def visible_ascii nat_add_distrib split: option.split)

lemma encode_directory_ok:
  assumes "path_ok (d_path d)" "identity_ok (d_identity d)"
  shows "encode_directory_item d = Inr (item_key (DirectoryItem d), digest_item (DirectoryItem d))"
  using assms path_bytes_bound [OF assms(1)]
  by (simp add: encode_directory_item_def encode_identity_ok struct_pack_def Let_def)

lemma encode_file_ok:
  assumes "entry_ok e"
  shows "encode_file_item e = Inr (item_key (FileItem e), digest_item (FileItem e))"
  using assms path_bytes_bound [of "e_path e"]
  by (simp add: encode_file_item_def struct_pack_def Let_def ascii_encode_def visible_ascii
      entry_ok_def MAX_DIRECTORY_INTEGER_def)

lemma map_result_map: "(\<And>x. x \<in> set xs \<Longrightarrow> f x = Inr (g x)) \<Longrightarrow> map_result f xs = Inr (map g xs)"
  by (induction xs) auto

lemma manifest_digest_input_ok:
  assumes "manifest_ok m"
  shows "manifest_digest_input (root_identity m) (directories m) (entries m) =
    Inr (MANIFEST_PREFIX @ [82] @ identity_bytes (root_identity m) @
      concat (map digest_item (manifest_items m)))"
proof -
  have dirs: "map_result encode_directory_item (directories m) =
      Inr (map (\<lambda>d. (item_key (DirectoryItem d), digest_item (DirectoryItem d))) (directories m))"
    using assms encode_directory_ok by (intro map_result_map) (simp add: manifest_ok_def)
  have files: "map_result encode_file_item (entries m) =
      Inr (map (\<lambda>e. (item_key (FileItem e), digest_item (FileItem e))) (entries m))"
    using assms encode_file_ok by (intro map_result_map) (simp add: manifest_ok_def)
  define xs where "xs = map DirectoryItem (directories m) @ map FileItem (entries m)"
  have "map (\<lambda>d. (item_key (DirectoryItem d), digest_item (DirectoryItem d))) (directories m) @
      map (\<lambda>e. (item_key (FileItem e), digest_item (FileItem e))) (entries m) =
      map (\<lambda>i. (item_key i, digest_item i)) xs"
    by (simp add: xs_def)
  then have "map snd (sort_key fst (map (\<lambda>d. (item_key (DirectoryItem d), digest_item (DirectoryItem d))) (directories m) @
      map (\<lambda>e. (item_key (FileItem e), digest_item (FileItem e))) (entries m))) =
      map digest_item (manifest_items m)"
    by (simp only: sort_key_map) (simp add: manifest_items_def xs_def)
  moreover have "encode_optional_identity (root_identity m) = Inr (identity_bytes (root_identity m))"
    using assms by (intro encode_identity_ok) (simp add: manifest_ok_def)
  ultimately show ?thesis
    unfolding manifest_digest_input_def dirs files bind_result_simps by simp
qed

lemma sized_inject:
  assumes "be_bytes w (length a) @ a @ x = be_bytes w (length b) @ b @ y"
    and "length a < 256 ^ w" "length b < 256 ^ w"
  shows "a = b \<and> x = y"
proof -
  have "be_bytes w (length a) = be_bytes w (length b) \<and> a @ x = b @ y"
    using assms(1) by (simp add: append_same_length)
  then show ?thesis using be_bytes_inject [OF _ assms(2,3)] by auto
qed

lemma identity_bytes_inject:
  assumes "identity_bytes i @ x = identity_bytes j @ y" "identity_ok i" "identity_ok j"
  shows "i = j \<and> x = y"
proof -
  define n where "n k = (case k of None \<Rightarrow> 0 | Some s \<Rightarrow> length s + 1)" for k :: "ustr option"
  have split: "identity_bytes k = be_bytes 2 (n k) @ (case k of None \<Rightarrow> [] | Some s \<Rightarrow> s)" for k
    by (simp add: identity_bytes_def n_def split: option.split)
  have bound: "identity_ok k \<Longrightarrow> n k < 256 ^ 2" for k
    by (auto simp: n_def identity_ok_def split: option.split)
  have eq: "be_bytes 2 (n i) = be_bytes 2 (n j)"
    "(case i of None \<Rightarrow> [] | Some s \<Rightarrow> s) @ x = (case j of None \<Rightarrow> [] | Some s \<Rightarrow> s) @ y"
    using assms(1) by (simp_all add: split append_same_length)
  have "n i = n j" using be_bytes_inject [OF eq(1)] bound assms(2,3) by blast
  then show ?thesis using eq(2) by (cases i; cases j) (auto simp: n_def)
qed

lemma digest_item_inject:
  assumes "digest_item i @ x = digest_item j @ y" "item_valid i" "item_valid j"
  shows "i = j \<and> x = y"
proof (cases i; cases j)
  fix d d'
  assume ij: "i = DirectoryItem d" "j = DirectoryItem d'"
  then have ok: "path_ok (d_path d)" "identity_ok (d_identity d)" "path_ok (d_path d')" "identity_ok (d_identity d')"
    using assms(2,3) by (simp_all add: item_valid_ok del: item_valid.simps)
  have "be_bytes 4 (length (utf8_encode (d_path d))) @ utf8_encode (d_path d) @ identity_bytes (d_identity d) @ x =
    be_bytes 4 (length (utf8_encode (d_path d'))) @ utf8_encode (d_path d') @ identity_bytes (d_identity d') @ y"
    using assms(1) ij by simp
  from sized_inject [OF this] have "utf8_encode (d_path d) = utf8_encode (d_path d')"
    "identity_bytes (d_identity d) @ x = identity_bytes (d_identity d') @ y"
    using path_bytes_bound ok by blast+
  then show ?thesis
    using identity_bytes_inject ok utf8_encode_inject path_ok_encodable ij
    by (metis manifest_directory.equality old.unit.exhaust)
next
  fix e e'
  assume ij: "i = FileItem e" "j = FileItem e'"
  then have ok: "entry_ok e" "entry_ok e'" "path_ok (e_path e)" "path_ok (e_path e')"
    using assms(2,3) by (simp_all add: item_valid_ok entry_ok_def del: item_valid.simps)
  define r where "r e x = be_bytes 8 (nat (e_size e)) @ be_bytes 2 (length (e_fingerprint e)) @ e_fingerprint e @ x" for e :: manifest_entry and x
  have "be_bytes 4 (length (utf8_encode (e_path e))) @ utf8_encode (e_path e) @ r e x =
    be_bytes 4 (length (utf8_encode (e_path e'))) @ utf8_encode (e_path e') @ r e' y"
    using assms(1) ij by (simp add: r_def)
  from sized_inject [OF this] have p: "e_path e = e_path e'" and r: "r e x = r e' y"
    using path_bytes_bound ok utf8_encode_inject path_ok_encodable by blast+
  from r have "be_bytes 8 (nat (e_size e)) = be_bytes 8 (nat (e_size e'))"
    and f: "be_bytes 2 (length (e_fingerprint e)) @ e_fingerprint e @ x =
      be_bytes 2 (length (e_fingerprint e')) @ e_fingerprint e' @ y"
    by (simp_all add: r_def append_same_length)
  then have "nat (e_size e) = nat (e_size e')"
    using ok(1,2) by (intro be_bytes_inject [of 8]) (simp_all add: entry_ok_def MAX_DIRECTORY_INTEGER_def nat_less_iff)
  then have s: "e_size e = e_size e'" using ok(1,2) by (auto simp: entry_ok_def)
  have "e_fingerprint e = e_fingerprint e' \<and> x = y"
    using sized_inject [OF f] ok(1,2) by (simp add: entry_ok_def)
  with p s ij show ?thesis by simp
qed (use assms(1) in simp_all)

lemma concat_digest_inject:
  assumes "concat (map digest_item xs) = concat (map digest_item ys)"
    and "\<forall>i \<in> set xs. item_valid i" "\<forall>i \<in> set ys. item_valid i"
  shows "xs = ys"
  using assms
proof (induction xs arbitrary: ys)
  case Nil
  then show ?case by (cases ys) (auto elim: digest_item.elims)
next
  case (Cons i xs)
  then obtain j zs where ys: "ys = j # zs" by (cases ys; cases i) auto
  with Cons.prems have "i = j \<and> concat (map digest_item xs) = concat (map digest_item zs)"
    by (intro digest_item_inject) auto
  with Cons ys show ?case by auto
qed

lemma manifest_items_parts:
  assumes "manifest_ok m"
  shows "map DirectoryItem (directories m) = filter (\<lambda>i. \<exists>d. i = DirectoryItem d) (manifest_items m) \<and>
    map FileItem (entries m) = filter (\<lambda>i. \<exists>e. i = FileItem e) (manifest_items m)"
proof -
  have dirs: "sorted (map item_key (map DirectoryItem (directories m)))"
    and files: "sorted (map item_key (map FileItem (entries m)))"
    using assms by (simp_all add: manifest_ok_def comp_def)
  have "filter (\<lambda>i. \<exists>d. i = DirectoryItem d) (map DirectoryItem (directories m) @ map FileItem (entries m)) =
      map DirectoryItem (directories m)"
    by (auto simp: filter_empty_conv)
  moreover have "filter (\<lambda>i. \<exists>e. i = FileItem e) (map DirectoryItem (directories m) @ map FileItem (entries m)) =
      map FileItem (entries m)"
    by (auto simp: filter_empty_conv)
  ultimately show ?thesis
    using dirs files by (simp only: manifest_items_def filter_sort sort_key_id_if_sorted)
qed

text \<open>
  C7. The hashed bytes are injective: two different manifests that pass validation give
  different inputs to SHA-256. Tags, lengths and optional identities are encoded so that
  neither moving bytes between fields nor reordering, adding or dropping entries can go
  unnoticed, so \<open>manifest_sha256\<close> identifies a manifest as far as SHA-256 has no collisions.
\<close>

theorem manifest_digest_injective:
  assumes "validate_manifest sha256 m1 = Inr m1'" "validate_manifest sha256 m2 = Inr m2'" "m1 \<noteq> m2"
  shows "manifest_digest_input (root_identity m1) (directories m1) (entries m1) \<noteq>
    manifest_digest_input (root_identity m2) (directories m2) (entries m2)"
proof
  assume eq: "manifest_digest_input (root_identity m1) (directories m1) (entries m1) =
    manifest_digest_input (root_identity m2) (directories m2) (entries m2)"
  have ok: "manifest_ok m1" "manifest_ok m2"
    using validate_manifest_ok [OF assms(1)] validate_manifest_ok [OF assms(2)] by simp_all
  have "identity_bytes (root_identity m1) @ concat (map digest_item (manifest_items m1)) =
    identity_bytes (root_identity m2) @ concat (map digest_item (manifest_items m2))"
    using eq unfolding manifest_digest_input_ok [OF ok(1)] manifest_digest_input_ok [OF ok(2)] by simp
  moreover have "identity_ok (root_identity m1)" "identity_ok (root_identity m2)"
    using ok by (simp_all add: manifest_ok_def)
  ultimately have root: "root_identity m1 = root_identity m2"
    and "concat (map digest_item (manifest_items m1)) = concat (map digest_item (manifest_items m2))"
    using identity_bytes_inject by blast+
  then have items: "manifest_items m1 = manifest_items m2"
    using manifest_items_valid ok by (intro concat_digest_inject) auto
  have "map DirectoryItem (directories m1) = map DirectoryItem (directories m2)"
    "map FileItem (entries m1) = map FileItem (entries m2)"
    using manifest_items_parts [OF ok(1)] manifest_items_parts [OF ok(2)] items by simp_all
  then have parts: "directories m1 = directories m2" "entries m1 = entries m2"
    by (simp_all add: inj_map_eq_map inj_on_def)
  have "manifest_sha256 m1 = manifest_sha256 m2"
    using validate_manifest_ok [OF assms(1)] validate_manifest_ok [OF assms(2)] root parts by simp
  then have "m1 = m2"
    using root parts ok by (simp add: manifest_ok_def)
  with assms(3) show False by contradiction
qed

section \<open>Collision keys\<close>

lemma parent_key_loop_keys:
  assumes "parent_key_loop key comps ns sources = Inr sources'"
  shows "set (dict_keys sources') = set (dict_keys sources) \<union> (\<lambda>n. take n key) ` set ns"
  using assms
proof (induction ns arbitrary: sources)
  case (Cons n ns)
  show ?case
  proof (cases "dict_get sources (take n key)")
    case None
    with Cons show ?thesis by (auto simp: Let_def)
  next
    case (Some previous)
    then have "take n key \<in> set (dict_keys sources)" by (simp add: dict_keys_iff)
    with Cons Some show ?thesis by (auto simp: Let_def split: if_splits)
  qed
qed simp

lemma collision_loop_keys:
  assumes "collision_loop f platform es ks sources = Inr (ks', sources')"
  shows "ks' = ks @ map (\<lambda>e. destination_key f (e_path e) platform) es \<and>
    set (dict_keys sources') = set (dict_keys sources) \<union>
      (\<Union>e \<in> set es. (\<lambda>n. take n (destination_key f (e_path e) platform)) `
         {1..<length (destination_key f (e_path e) platform)})"
  using assms
proof (induction es arbitrary: ks sources)
  case (Cons e es)
  define key where "key = destination_key f (e_path e) platform"
  from Cons.prems obtain s1 where s1: "parent_key_loop key (py_split 47 (e_path e)) [1..<length key] sources = Inr s1"
    "collision_loop f platform es (ks @ [key]) s1 = Inr (ks', sources')"
    by (auto simp: Let_def bind_result_Inr_iff key_def)
  from Cons.IH [OF s1(2)] parent_key_loop_keys [OF s1(1)] show ?case
    by (auto simp: key_def)
qed simp

text \<open>
  Accepted keys never collide: when \<open>destination_collision_keys\<close> returns, it returns one
  key per file in order, the keys are pairwise different, and no file's key is a proper
  prefix of another's, so on the destination platform no file overwrites another and none
  stands where another needs a directory, whatever case folding the platform applies.
\<close>

theorem collision_keys_disjoint:
  assumes "destination_collision_keys nfc_casefold m platform = Inr keys"
  shows "keys = map (\<lambda>e. destination_key nfc_casefold (e_path e) platform) (entries m) \<and>
    distinct keys \<and>
    (\<forall>i < length keys. \<forall>j < length keys. \<forall>n. 0 < n \<and> n < length (keys ! j) \<longrightarrow>
       keys ! i \<noteq> take n (keys ! j))"
proof -
  obtain sources where loop: "collision_loop nfc_casefold platform (entries m) [] [] = Inr (keys, sources)"
    and dist: "distinct keys" and free: "\<forall>k \<in> set keys. k \<notin> set (dict_keys sources)"
    using assms unfolding destination_collision_keys_def remdups_length_distinct
    by (auto simp: bind_result_Inr_iff list_ex_iff split: if_splits)
  note c = collision_loop_keys [OF loop]
  have "keys ! i \<noteq> take n (keys ! j)" if "i < length keys" "j < length keys" "0 < n" "n < length (keys ! j)" for i j n
  proof
    assume eq: "keys ! i = take n (keys ! j)"
    have "j < length (entries m)" using c that(2) by simp
    then have "entries m ! j \<in> set (entries m)" "keys ! j = destination_key nfc_casefold (e_path (entries m ! j)) platform"
      using c by auto
    then have "take n (keys ! j) \<in> set (dict_keys sources)"
      using c that(3,4) by (auto simp: dict_keys_def intro!: bexI [of _ "entries m ! j"] imageI)
    moreover have "keys ! i \<in> set keys" using that(1) by simp
    ultimately show False using free eq by simp
  qed
  with c dist show ?thesis by simp
qed

lemma utf8_encode_map_inject:
  assumes "\<forall>x \<in> set xs. utf8_encodable x" "\<forall>y \<in> set ys. utf8_encodable y"
    and "map utf8_encode xs = map utf8_encode ys"
  shows "xs = ys"
  using assms
proof (induction xs arbitrary: ys)
  case (Cons x xs)
  then show ?case by (cases ys) (auto intro: utf8_encode_inject)
qed simp

lemma utf8_encodable_split: "utf8_encodable s \<Longrightarrow> x \<in> set (py_split 47 s) \<Longrightarrow> utf8_encodable x"
proof -
  assume "utf8_encodable s" and x: "x \<in> set (py_split 47 s)"
  then have "utf8_encodable (py_join [47] (py_split 47 s))" by (simp add: py_join_split)
  moreover have "utf8_encodable [47]" by (simp add: utf8_encodable_def)
  ultimately show ?thesis using x by (simp add: utf8_encodable_join)
qed

text \<open>On Linux the recorded sources are what the parent keys encode.\<close>

definition sources_ok :: "(nat list list, ustr) dict \<Rightarrow> bool" where
  "sources_ok sources \<longleftrightarrow> (\<forall>k src. dict_get sources k = Some src \<longrightarrow>
     (\<exists>comps. (\<forall>c \<in> set comps. utf8_encodable c) \<and> k = map utf8_encode comps \<and> src = py_join [47] comps))"

lemma parent_key_loop_linux:
  assumes "sources_ok sources" "\<forall>c \<in> set comps. utf8_encodable c" "key = map utf8_encode comps"
  shows "\<exists>sources'. parent_key_loop key comps ns sources = Inr sources' \<and> sources_ok sources'"
  using assms(1)
proof (induction ns arbitrary: sources)
  case (Cons n ns)
  have enc: "\<forall>c \<in> set (take n comps). utf8_encodable c" using assms(2) by (meson in_set_takeD)
  have tk: "take n key = map utf8_encode (take n comps)" using assms(3) by (simp add: take_map)
  show ?case
  proof (cases "dict_get sources (take n key)")
    case None
    have "sources_ok (dict_set (take n key) (py_join [47] (take n comps)) sources)"
      using Cons.prems enc tk by (auto simp: sources_ok_def)
    from Cons.IH [OF this] None show ?thesis by (simp add: Let_def)
  next
    case (Some previous)
    with Cons.prems obtain comps' where comps': "\<forall>c \<in> set comps'. utf8_encodable c"
      "take n key = map utf8_encode comps'" "previous = py_join [47] comps'"
      unfolding sources_ok_def by blast
    have "comps' = take n comps"
      by (rule utf8_encode_map_inject [OF comps'(1) enc]) (use comps'(2) tk in metis)
    with comps'(3) have "previous = py_join [47] (take n comps)" by simp
    with Cons.IH [OF Cons.prems] Some show ?thesis by (simp add: Let_def)
  qed
qed simp

lemma collision_loop_linux:
  assumes "sources_ok sources" "\<forall>e \<in> set es. utf8_encodable (e_path e)"
  shows "\<exists>r. collision_loop f Linux es ks sources = Inr r"
  using assms
proof (induction es arbitrary: ks sources)
  case (Cons e es)
  define key where "key = destination_key f (e_path e) Linux"
  have "key = map utf8_encode (py_split 47 (e_path e))" by (simp add: key_def destination_key_def)
  then obtain s1 where "parent_key_loop key (py_split 47 (e_path e)) [1..<length key] sources = Inr s1"
    "sources_ok s1"
    using parent_key_loop_linux [of sources "py_split 47 (e_path e)" key "[1..<length key]"] Cons.prems
      utf8_encodable_split [of "e_path e"] by (meson list.set_intros(1))
  with Cons show ?case by (simp add: Let_def key_def)
qed simp

text \<open>
  On Linux, where names are compared byte by byte, the collision check accepts every
  manifest that passed validation: unique paths, disjoint files and directories, and
  directories for all parents leave nothing to collide.
\<close>

theorem collision_keys_linux:
  assumes "validate_manifest sha256 m = Inr m'"
  shows "\<exists>keys. destination_collision_keys nfc_casefold m Linux = Inr keys"
proof -
  have ok: "manifest_ok m" using validate_manifest_ok [OF assms] by blast
  have enc: "\<forall>e \<in> set (entries m). utf8_encodable (e_path e)" "\<forall>d \<in> set (directories m). utf8_encodable (d_path d)"
    using ok path_ok_encodable by (auto simp: manifest_ok_def entry_ok_def)
  have "sources_ok []" by (simp add: sources_ok_def)
  then obtain keys sources where loop: "collision_loop nfc_casefold Linux (entries m) [] [] = Inr (keys, sources)"
    using collision_loop_linux [OF _ enc(1)] by fastforce
  note c = collision_loop_keys [OF loop]
  have key: "destination_key nfc_casefold p Linux = map utf8_encode (py_split 47 p)" for p
    by (simp add: destination_key_def)
  have same: "p = q" if "destination_key nfc_casefold p Linux = destination_key nfc_casefold q Linux"
    "utf8_encodable p" "utf8_encodable q" for p q
    using that utf8_encode_map_inject [of "py_split 47 p" "py_split 47 q"]
    by (metis key py_join_split utf8_encodable_split)
  have "distinct (map (\<lambda>e. utf8_encode (e_path e)) (entries m))" using ok by (simp add: manifest_ok_def)
  then have "distinct (map (\<lambda>e. destination_key nfc_casefold (e_path e) Linux) (entries m))"
  proof -
    assume d: "distinct (map (\<lambda>e. utf8_encode (e_path e)) (entries m))"
    have "inj_on (\<lambda>e. destination_key nfc_casefold (e_path e) Linux) (set (entries m))"
    proof (rule inj_onI)
      fix a b
      assume a: "a \<in> set (entries m)" and b: "b \<in> set (entries m)"
        and "destination_key nfc_casefold (e_path a) Linux = destination_key nfc_casefold (e_path b) Linux"
      then have "e_path a = e_path b" using same enc(1) by blast
      with d a b show "a = b" unfolding distinct_map inj_on_def by simp
    qed
    with d show ?thesis by (simp add: distinct_map)
  qed
  then have dist: "distinct keys" using c by simp
  have "k \<notin> set (dict_keys sources)" if k: "k \<in> set keys" for k
  proof
    assume "k \<in> set (dict_keys sources)"
    with c obtain e n where e: "e \<in> set (entries m)" "1 \<le> n" "n < length (py_split 47 (e_path e))"
      "k = take n (destination_key nfc_casefold (e_path e) Linux)"
      by (auto simp: dict_keys_def key)
    define q where "q = py_join [47] (take n (py_split 47 (e_path e)))"
    have "q \<in> set (parent_paths (e_path e))"
      using e(2,3) by (auto simp: q_def parent_paths_def Let_def)
    moreover have "set (parent_paths (e_path e)) \<subseteq> set (map d_path (directories m))"
      using e(1) ok by (simp add: manifest_ok_def)
    ultimately have q: "q \<in> set (map d_path (directories m))" by blast
    have "py_split 47 q = take n (py_split 47 (e_path e))"
      unfolding q_def using e(2,3) by (intro py_split_join) (auto dest: in_set_takeD py_split_no_sep)
    then have "k = destination_key nfc_casefold q Linux" using e(4) by (simp add: key take_map)
    moreover obtain e' where e': "e' \<in> set (entries m)" "k = destination_key nfc_casefold (e_path e') Linux"
      using k c by auto
    ultimately have "e_path e' = q" using same q enc by auto
    then have "utf8_encode q \<in> set (map (\<lambda>d. utf8_encode (d_path d)) (directories m))"
      "utf8_encode q \<in> set (map (\<lambda>e. utf8_encode (e_path e)) (entries m))"
      using q e'(1) by auto
    with ok show False unfolding manifest_ok_def by blast
  qed
  then show ?thesis
    using loop dist by (simp add: destination_collision_keys_def remdups_length_distinct list_ex_iff)
qed

section \<open>Witnesses\<close>

definition demo_sha :: "nat list \<Rightarrow> ustr" where
  "demo_sha bytes = replicate 64 48"

definition demo_manifest :: "int \<Rightarrow> directory_manifest" where
  "demo_manifest n =
     \<lparr>root_identity = None, scanned_entries = 2, total_bytes = n,
      directories = [\<lparr>d_path = [100], d_identity = None\<rparr>],
      entries = [\<lparr>e_path = [100, 47, 97], e_size = n, e_fingerprint = [102]\<rparr>],
      manifest_sha256 = replicate 64 48\<rparr>"

lemmas contract_eval = demo_sha_def demo_manifest_def validate_manifest_def validate_identity_def
  bounded_int_def MAX_DIRECTORY_ENTRIES_def MAX_DIRECTORY_INTEGER_def sha256_pattern_def
  validate_directory_def validate_entry_def bounded_str_def validate_relative_path_def
  py_startswith_def py_split_def utf8_encodable_def validate_visible_ascii_def py_isascii_def
  validate_manifest_contract_def Let_def utf8_encode_def utf8_encode_char_def parent_paths_def
  directory_manifest_sha256_def manifest_digest_input_def encode_directory_item_def
  encode_file_item_def struct_pack_def encode_optional_identity_def ascii_encode_def
  canonical_json_bytes_def dump_manifest_def dump_directory_def dump_entry_def
  py_optional_str_def ustr_of_def json_object_text_def json_member_def json_string_def
  json_escape_def json_list_text_def py_str_int_def nat_digits.simps hex_digit_def
  MAX_DIRECTORY_MANIFEST_BYTES_def

lemma be_bytes_numeral: "be_bytes (numeral k) n = be_bytes (pred_numeral k) (n div 256) @ [n mod 256]"
  by (simp only: numeral_eq_Suc [of k] be_bytes.simps)

lemma list_all_replicate: "list_all P (replicate n x) \<longleftrightarrow> n = 0 \<or> P x"
  by (induction n) auto

lemma demo_manifest_valid:
  "validate_manifest demo_sha (demo_manifest 1) = Inr (demo_manifest 1)"
  "validate_manifest demo_sha (demo_manifest 2) = Inr (demo_manifest 2)"
  by (simp_all add: contract_eval be_bytes_numeral list_all_replicate)

theorem split_manifest_complete_witness:
  "\<exists>pages. split_manifest_pages (demo_manifest 1) = Inr pages \<and>
    pages_from (manifest_items (demo_manifest 1)) 0 pages \<and>
    concat (map page_items pages) = manifest_items (demo_manifest 1) \<and>
    (\<forall>p \<in> set pages. validate_page p = Inr p)"
  by (rule split_manifest_complete [OF demo_manifest_valid(1)])

theorem manifest_digest_injective_witness:
  "manifest_digest_input (root_identity (demo_manifest 1)) (directories (demo_manifest 1))
     (entries (demo_manifest 1)) \<noteq>
   manifest_digest_input (root_identity (demo_manifest 2)) (directories (demo_manifest 2))
     (entries (demo_manifest 2))"
  by (rule manifest_digest_injective [OF demo_manifest_valid]) (simp add: demo_manifest_def)

theorem collision_keys_disjoint_witness:
  "[[[100], [97]]] = map (\<lambda>e. destination_key (\<lambda>s. s) (e_path e) Macos) (entries (demo_manifest 1)) \<and>
   distinct [[[100], [97 :: nat]]]"
proof -
  have "destination_collision_keys (\<lambda>s. s) (demo_manifest 1) Macos = Inr [[[100], [97]]]"
    by (simp add: demo_manifest_def destination_collision_keys_def destination_key_def py_split_def
        utf8_encode_def utf8_encode_char_def Let_def upt_rec dict_keys_def dict_set_def)
  from collision_keys_disjoint [OF this] show ?thesis by blast
qed

theorem collision_keys_linux_witness:
  "\<exists>keys. destination_collision_keys (\<lambda>s. s) (demo_manifest 1) Linux = Inr keys"
  by (rule collision_keys_linux [OF demo_manifest_valid(1)])

end
