(* ===== verification/Lease_Exclusion.thy ===== *)
theory Lease_Exclusion
  imports Octo_Prelude
begin

text \<open>
  What the lease managers have in common: a set of active reservations that grows only by a
  reservation that conflicts with none of them. Mutual exclusion follows once for all
  managers that keep this contract.
\<close>

locale exclusive_activation = inductive_invariant init step wf
  for init :: "'s \<Rightarrow> bool" and step :: "'s \<Rightarrow> 's \<Rightarrow> bool" and wf :: "'s \<Rightarrow> bool" +
  fixes active :: "'s \<Rightarrow> nat set"
    and conflict :: "'s \<Rightarrow> nat \<Rightarrow> nat \<Rightarrow> bool"
  assumes start: "init s \<Longrightarrow> active s = {}"
    and sym: "conflict s i j \<longleftrightarrow> conflict s j i"
    and stable: "wf s \<Longrightarrow> step s t \<Longrightarrow> i \<in> active s \<Longrightarrow> j \<in> active s \<Longrightarrow>
      conflict t i j \<longleftrightarrow> conflict s i j"
    and activates: "wf s \<Longrightarrow> step s t \<Longrightarrow>
      active t \<subseteq> active s \<or>
      (\<exists>i. active t \<subseteq> insert i (active s) \<and> (\<forall>j \<in> active s. \<not> conflict t i j))"
begin

definition exclusive :: "'s \<Rightarrow> bool" where
  "exclusive s \<longleftrightarrow> (\<forall>i \<in> active s. \<forall>j \<in> active s. i \<noteq> j \<longrightarrow> \<not> conflict s i j)"

lemma exclusive_step:
  assumes "wf s" "exclusive s" "step s t"
  shows "exclusive t"
proof -
  have old: "\<not> conflict t i j" if "i \<in> active s" "j \<in> active s" "i \<noteq> j" for i j
    using assms(2) that stable [OF assms(1,3) that(1,2)] by (simp add: exclusive_def)
  have "\<not> conflict t i j" if ij: "i \<in> active t" "j \<in> active t" "i \<noteq> j" for i j
    using activates [OF assms(1,3)]
  proof
    assume "active t \<subseteq> active s"
    then show ?thesis using old ij by blast
  next
    assume "\<exists>k. active t \<subseteq> insert k (active s) \<and> (\<forall>j \<in> active s. \<not> conflict t k j)"
    then obtain k where k: "active t \<subseteq> insert k (active s)" "\<forall>j \<in> active s. \<not> conflict t k j"
      by blast
    then show ?thesis using old ij sym [of t i j] by blast
  qed
  then show ?thesis by (simp add: exclusive_def)
qed

end

sublocale exclusive_activation \<subseteq> excl: inductive_invariant init step "\<lambda>s. wf s \<and> exclusive s"
proof
  fix s t
  show "init s \<Longrightarrow> wf s \<and> exclusive s" by (simp add: inv_init start exclusive_def)
  show "wf s \<and> exclusive s \<Longrightarrow> step s t \<Longrightarrow> wf t \<and> exclusive t"
    by (blast intro: inv_step exclusive_step)
qed

context exclusive_activation
begin

lemma mutual_exclusion:
  "reachable init step s \<Longrightarrow> i \<in> active s \<Longrightarrow> j \<in> active s \<Longrightarrow> i \<noteq> j \<Longrightarrow> \<not> conflict s i j"
  using excl.inv_reachable [of s] by (simp add: exclusive_def)

end

end
