(* ===== verification/Subtree_Leases.thy ===== *)
theory Subtree_Leases
  imports Lease_Exclusion
begin

text \<open>
  The server's subtree leases (\<open>SubtreeLeaseManager\<close> of \<open>workspace/locks.py\<close>). A reservation
  is an object, so the manager's lists hold indices into a store. Each critical section
  under the condition's lock is one step. \<open>sm_notified\<close> holds the waiters that
  \<open>notify_all\<close> has woken and that have not yet re-entered the lock, in the order the
  condition wakes them; the other pending reservations are asleep on the condition.
\<close>

record subtree_reservation =
  sr_target :: nat
  sr_prefix :: "ustr list"
  sr_owner :: nat

record subtree_manager =
  sm_store :: "subtree_reservation list"
  sm_pending :: "nat list"
  sm_active :: "nat list"
  sm_notified :: "nat list"

definition sm_new :: subtree_manager where
  "sm_new = \<lparr>sm_store = [], sm_pending = [], sm_active = [], sm_notified = []\<rparr>"

definition prefix_contains :: "ustr list \<Rightarrow> ustr list \<Rightarrow> bool" where
  "prefix_contains ancestor descendant \<longleftrightarrow>
     length ancestor \<le> length descendant \<and> take (length ancestor) descendant = ancestor"

definition subtree_reservations_overlap :: "subtree_reservation \<Rightarrow> subtree_reservation \<Rightarrow> bool" where
  "subtree_reservations_overlap r1 r2 \<longleftrightarrow>
     sr_target r1 = sr_target r2 \<and>
     (prefix_contains (sr_prefix r1) (sr_prefix r2) \<or> prefix_contains (sr_prefix r2) (sr_prefix r1))"

definition canonical_component :: "ustr \<Rightarrow> bool" where
  "canonical_component c \<longleftrightarrow> c \<notin> {[], [46], [46, 46]} \<and> 47 \<notin> set c \<and> 0 \<notin> set c"

definition validate_canonical_prefix :: "ustr list \<Rightarrow> bool" where
  "validate_canonical_prefix p \<longleftrightarrow> list_all canonical_component p"

text \<open>The reservations before \<open>i\<close> in the pending list (all of them when it is not pending).\<close>

definition earlier :: "nat \<Rightarrow> nat list \<Rightarrow> nat list" where
  "earlier i xs = takeWhile (\<lambda>j. j \<noteq> i) xs"

definition subtree_blocked :: "subtree_manager \<Rightarrow> nat \<Rightarrow> bool" where
  "subtree_blocked s i =
     (let r = sm_store s ! i;
          overlapping = filter (\<lambda>a. subtree_reservations_overlap r (sm_store s ! a)) (sm_active s)
      in if list_ex (\<lambda>a. sr_owner (sm_store s ! a) \<noteq> sr_owner r) overlapping then True
         else if list_ex (\<lambda>a. sr_owner (sm_store s ! a) = sr_owner r \<and>
                   prefix_contains (sr_prefix (sm_store s ! a)) (sr_prefix r)) overlapping then False
         else list_ex (\<lambda>p. subtree_reservations_overlap r (sm_store s ! p)) (earlier i (sm_pending s)))"

definition notify_all :: "subtree_manager \<Rightarrow> subtree_manager" where
  "notify_all s =
     s\<lparr>sm_notified := sm_notified s @ filter (\<lambda>i. i \<notin> set (sm_notified s)) (sm_pending s)\<rparr>"

definition activate :: "nat \<Rightarrow> subtree_manager \<Rightarrow> subtree_manager" where
  "activate i s =
     s\<lparr>sm_pending := remove1 i (sm_pending s), sm_active := sm_active s @ [i],
       sm_notified := remove1 i (sm_notified s)\<rparr>"

definition drop_pending :: "nat \<Rightarrow> subtree_manager \<Rightarrow> subtree_manager" where
  "drop_pending i s =
     notify_all (s\<lparr>sm_pending := remove1 i (sm_pending s), sm_notified := remove1 i (sm_notified s)\<rparr>)"

datatype acquire_outcome = InvalidPrefix | LeaseBusy | LeaseWaiting nat | LeaseAcquired nat

text \<open>\<open>acquire\<close> up to the point where it returns, raises or goes to sleep.\<close>

definition sm_acquire ::
  "nat \<Rightarrow> ustr list \<Rightarrow> nat \<Rightarrow> bool \<Rightarrow> subtree_manager \<Rightarrow> acquire_outcome \<times> subtree_manager" where
  "sm_acquire target pre owner wait s =
     (if \<not> validate_canonical_prefix pre then (InvalidPrefix, s)
      else let i = length (sm_store s);
               s1 = s\<lparr>sm_store := sm_store s @ [\<lparr>sr_target = target, sr_prefix = pre, sr_owner = owner\<rparr>],
                      sm_pending := sm_pending s @ [i]\<rparr>
           in if subtree_blocked s1 i
              then (if wait then (LeaseWaiting i, s1) else (LeaseBusy, drop_pending i s1))
              else (LeaseAcquired i, activate i s1))"

text \<open>The first woken waiter re-enters the lock: it becomes active or sleeps again.\<close>

definition sm_wake :: "subtree_manager \<Rightarrow> subtree_manager" where
  "sm_wake s =
     (case sm_notified s of
        [] \<Rightarrow> s
      | i # rest \<Rightarrow> if subtree_blocked s i then s\<lparr>sm_notified := rest\<rparr> else activate i s)"

definition sm_cancel :: "nat \<Rightarrow> subtree_manager \<Rightarrow> subtree_manager" where
  "sm_cancel i s = (if i \<in> set (sm_pending s) then drop_pending i s else s)"

definition sm_release :: "nat \<Rightarrow> subtree_manager \<Rightarrow> subtree_manager" where
  "sm_release i s =
     (if i \<notin> set (sm_active s) then s
      else notify_all (s\<lparr>sm_active := remove1 i (sm_active s)\<rparr>))"

inductive sm_step :: "subtree_manager \<Rightarrow> subtree_manager \<Rightarrow> bool" where
  sm_acquire_step: "sm_acquire target pre owner wait s = (out, t) \<Longrightarrow> sm_step s t"
| sm_wake_step: "sm_step s (sm_wake s)"
| sm_cancel_step: "sm_step s (sm_cancel i s)"
| sm_release_step: "sm_step s (sm_release i s)"

abbreviation sm_reachable :: "subtree_manager \<Rightarrow> bool" where
  "sm_reachable \<equiv> reachable (\<lambda>s. s = sm_new) sm_step"

section \<open>Structure\<close>

definition sm_wf :: "subtree_manager \<Rightarrow> bool" where
  "sm_wf s \<longleftrightarrow>
     distinct (sm_pending s) \<and> distinct (sm_active s) \<and> distinct (sm_notified s) \<and>
     set (sm_pending s) \<inter> set (sm_active s) = {} \<and>
     set (sm_notified s) \<subseteq> set (sm_pending s) \<and>
     set (sm_pending s) \<union> set (sm_active s) \<subseteq> {..<length (sm_store s)}"

lemma notify_all_fields [simp]:
  "sm_store (notify_all s) = sm_store s" "sm_pending (notify_all s) = sm_pending s"
  "sm_active (notify_all s) = sm_active s"
  "set (sm_notified (notify_all s)) = set (sm_notified s) \<union> set (sm_pending s)"
  by (auto simp: notify_all_def)

lemma activate_fields [simp]:
  "sm_store (activate i s) = sm_store s" "sm_pending (activate i s) = remove1 i (sm_pending s)"
  "sm_active (activate i s) = sm_active s @ [i]" "sm_notified (activate i s) = remove1 i (sm_notified s)"
  by (simp_all add: activate_def)

lemma drop_pending_fields [simp]:
  "sm_store (drop_pending i s) = sm_store s" "sm_pending (drop_pending i s) = remove1 i (sm_pending s)"
  "sm_active (drop_pending i s) = sm_active s"
  by (simp_all add: drop_pending_def)

lemma notify_all_wf: "sm_wf s \<Longrightarrow> sm_wf (notify_all s)"
  by (auto simp: sm_wf_def notify_all_def)

lemma drop_pending_wf: "sm_wf s \<Longrightarrow> sm_wf (drop_pending i s)"
  unfolding drop_pending_def by (rule notify_all_wf) (auto simp: sm_wf_def)

lemma activate_wf: "sm_wf s \<Longrightarrow> i \<in> set (sm_pending s) \<Longrightarrow> sm_wf (activate i s)"
  by (auto simp: sm_wf_def)

lemma sm_acquire_cases:
  assumes "sm_acquire target pre owner wait s = (out, t)"
  obtains (unchanged) "t = s"
  | (queued) i s1 where "i = length (sm_store s)"
      "s1 = s\<lparr>sm_store := sm_store s @ [\<lparr>sr_target = target, sr_prefix = pre, sr_owner = owner\<rparr>],
              sm_pending := sm_pending s @ [i]\<rparr>"
      "subtree_blocked s1 i \<and> (t = s1 \<or> t = drop_pending i s1) \<or> \<not> subtree_blocked s1 i \<and> t = activate i s1"
  using assms by (auto simp: sm_acquire_def Let_def split: if_splits)

lemma enqueue_wf:
  "sm_wf s \<Longrightarrow> sm_wf (s\<lparr>sm_store := sm_store s @ [r], sm_pending := sm_pending s @ [length (sm_store s)]\<rparr>)"
  by (auto simp: sm_wf_def)

lemma sm_step_wf: "sm_wf s \<Longrightarrow> sm_step s t \<Longrightarrow> sm_wf t"
proof (erule sm_step.cases, goal_cases)
  case (1 target pre owner wait s' out t')
  then have s: "sm_wf s'" and acq: "sm_acquire target pre owner wait s' = (out, t')" by simp_all
  from acq have "sm_wf t'"
  proof (cases rule: sm_acquire_cases)
    case (queued i s1)
    then have "sm_wf s1" "i \<in> set (sm_pending s1)" using enqueue_wf [OF s] by simp_all
    then show ?thesis using queued(3) by (auto intro: drop_pending_wf activate_wf)
  qed (simp add: s)
  with 1 show ?case by simp
next
  case (2 s')
  then show ?case
    by (auto simp: sm_wake_def split: list.split intro!: activate_wf) (auto simp: sm_wf_def)
next
  case (3 s' i)
  then show ?case by (simp add: sm_cancel_def drop_pending_wf)
next
  case (4 s' i)
  then show ?case by (auto simp: sm_release_def intro!: notify_all_wf) (auto simp: sm_wf_def)
qed

section \<open>Mutual exclusion\<close>

definition lease_conflict :: "subtree_manager \<Rightarrow> nat \<Rightarrow> nat \<Rightarrow> bool" where
  "lease_conflict s i j \<longleftrightarrow>
     subtree_reservations_overlap (sm_store s ! i) (sm_store s ! j) \<and>
     sr_owner (sm_store s ! i) \<noteq> sr_owner (sm_store s ! j)"

lemma overlap_sym: "subtree_reservations_overlap a b \<longleftrightarrow> subtree_reservations_overlap b a"
  by (auto simp: subtree_reservations_overlap_def)

lemma not_blocked_no_conflict:
  "\<not> subtree_blocked s i \<Longrightarrow> j \<in> set (sm_active s) \<Longrightarrow> \<not> lease_conflict s i j"
  by (auto simp: subtree_blocked_def Let_def lease_conflict_def list_ex_iff split: if_splits)

lemma sm_step_store:
  assumes "sm_step s t"
  shows "\<exists>xs. sm_store t = sm_store s @ xs"
  using assms
proof cases
  case (sm_acquire_step target pre owner wait out)
  from sm_acquire_step show ?thesis by (cases rule: sm_acquire_cases) auto
qed (auto simp: sm_wake_def sm_cancel_def sm_release_def split: list.split)

lemma lease_conflict_stable:
  assumes "sm_wf s" "sm_step s t" "i \<in> set (sm_active s)" "j \<in> set (sm_active s)"
  shows "lease_conflict t i j \<longleftrightarrow> lease_conflict s i j"
proof -
  obtain xs where "sm_store t = sm_store s @ xs" using sm_step_store [OF assms(2)] by blast
  moreover have "i < length (sm_store s)" "j < length (sm_store s)"
    using assms(1,3,4) by (auto simp: sm_wf_def)
  ultimately show ?thesis by (simp add: lease_conflict_def nth_append)
qed

lemma sm_step_activates:
  assumes "sm_step s t"
  shows "set (sm_active t) \<subseteq> set (sm_active s) \<or>
    (\<exists>i. set (sm_active t) \<subseteq> insert i (set (sm_active s)) \<and>
      (\<forall>j \<in> set (sm_active s). \<not> lease_conflict t i j))"
  using assms
proof cases
  case (sm_acquire_step target pre owner wait out)
  from sm_acquire_step show ?thesis
  proof (cases rule: sm_acquire_cases)
    case (queued i s1)
    show ?thesis
    proof (cases "subtree_blocked s1 i")
      case False
      then have "\<forall>j \<in> set (sm_active s1). \<not> lease_conflict s1 i j"
        using not_blocked_no_conflict by blast
      then show ?thesis using queued False by (auto simp: lease_conflict_def)
    qed (use queued in auto)
  qed simp
next
  case sm_wake_step
  show ?thesis
  proof (cases "sm_notified s")
    case (Cons i rest)
    then show ?thesis
      using not_blocked_no_conflict [of s i] sm_wake_step
      by (cases "subtree_blocked s i") (auto simp: sm_wake_def lease_conflict_def)
  qed (use sm_wake_step in \<open>simp add: sm_wake_def\<close>)
next
  case (sm_cancel_step i)
  then show ?thesis by (simp add: sm_cancel_def)
next
  case (sm_release_step i)
  then show ?thesis by (auto simp: sm_release_def dest: notin_set_remove1)
qed

interpretation subtree: exclusive_activation "\<lambda>s. s = sm_new" sm_step sm_wf
  "\<lambda>s. set (sm_active s)" lease_conflict
proof
  fix s t i j
  show "s = sm_new \<Longrightarrow> sm_wf s" by (simp add: sm_new_def sm_wf_def)
  show "sm_wf s \<Longrightarrow> sm_step s t \<Longrightarrow> sm_wf t" by (rule sm_step_wf)
  show "s = sm_new \<Longrightarrow> set (sm_active s) = {}" by (simp add: sm_new_def)
  show "lease_conflict s i j \<longleftrightarrow> lease_conflict s j i"
    using overlap_sym by (auto simp: lease_conflict_def)
  show "sm_wf s \<Longrightarrow> sm_step s t \<Longrightarrow> i \<in> set (sm_active s) \<Longrightarrow> j \<in> set (sm_active s) \<Longrightarrow>
      lease_conflict t i j \<longleftrightarrow> lease_conflict s i j"
    by (rule lease_conflict_stable)
  show "sm_wf s \<Longrightarrow> sm_step s t \<Longrightarrow> set (sm_active t) \<subseteq> set (sm_active s) \<or>
      (\<exists>i. set (sm_active t) \<subseteq> insert i (set (sm_active s)) \<and>
        (\<forall>j \<in> set (sm_active s). \<not> lease_conflict t i j))"
    by (rule sm_step_activates)
qed

section \<open>Waking\<close>

definition own_overlap :: "subtree_manager \<Rightarrow> nat \<Rightarrow> bool" where
  "own_overlap s i \<longleftrightarrow> (\<exists>j \<in> set (sm_active s).
     subtree_reservations_overlap (sm_store s ! i) (sm_store s ! j) \<and>
     sr_owner (sm_store s ! j) = sr_owner (sm_store s ! i))"

definition sleepers_blocked :: "subtree_manager \<Rightarrow> bool" where
  "sleepers_blocked s \<longleftrightarrow> (\<forall>i \<in> set (sm_pending s). i \<in> set (sm_notified s) \<or>
     subtree_blocked s i \<or> own_overlap s i)"

lemma blocked_iff:
  "subtree_blocked s i \<longleftrightarrow>
     (\<exists>j \<in> set (sm_active s). lease_conflict s i j) \<or>
     \<not> (\<exists>j \<in> set (sm_active s). subtree_reservations_overlap (sm_store s ! i) (sm_store s ! j) \<and>
          sr_owner (sm_store s ! j) = sr_owner (sm_store s ! i) \<and>
          prefix_contains (sr_prefix (sm_store s ! j)) (sr_prefix (sm_store s ! i))) \<and>
     (\<exists>p \<in> set (earlier i (sm_pending s)). subtree_reservations_overlap (sm_store s ! i) (sm_store s ! p))"
  by (auto simp: subtree_blocked_def Let_def lease_conflict_def list_ex_iff)

lemma earlier_remove1: "i \<noteq> b \<Longrightarrow> set (earlier i xs) - {b} \<subseteq> set (earlier i (remove1 b xs))"
  by (induction xs) (auto simp: earlier_def)

text \<open>A blocked reservation stays blocked when another becomes active, or shares its owner.\<close>

lemma activate_keeps_blocked:
  assumes "subtree_blocked s i \<or> own_overlap s i" "i \<noteq> b"
  shows "subtree_blocked (activate b s) i \<or> own_overlap (activate b s) i"
proof (cases "own_overlap (activate b s) i")
  case False
  then have no_own: "\<not> own_overlap s i"
    and b: "\<not> (subtree_reservations_overlap (sm_store s ! i) (sm_store s ! b) \<and>
        sr_owner (sm_store s ! b) = sr_owner (sm_store s ! i))"
    by (auto simp: own_overlap_def)
  have sub: "set (earlier i (sm_pending s)) - {b} \<subseteq> set (earlier i (remove1 b (sm_pending s)))"
    using assms(2) by (rule earlier_remove1)
  from assms no_own have "subtree_blocked s i" by simp
  then have "subtree_blocked (activate b s) i"
    unfolding blocked_iff using b sub no_own False
    by (auto simp: lease_conflict_def own_overlap_def)
  then show ?thesis by simp
qed simp

lemma earlier_snoc:
  "i \<in> set xs \<Longrightarrow> earlier i (xs @ [x]) = earlier i xs"
  by (induction xs) (auto simp: earlier_def)

lemma enqueue_keeps_blocked:
  assumes "sm_wf s" "i \<in> set (sm_pending s)"
    and "s1 = s\<lparr>sm_store := sm_store s @ [r], sm_pending := sm_pending s @ [length (sm_store s)]\<rparr>"
  shows "subtree_blocked s1 i \<longleftrightarrow> subtree_blocked s i" "own_overlap s1 i \<longleftrightarrow> own_overlap s i"
proof -
  have len: "i < length (sm_store s)" "\<forall>j \<in> set (sm_active s). j < length (sm_store s)"
    "\<forall>j \<in> set (earlier i (sm_pending s)). j < length (sm_store s)"
    using assms(1,2) by (auto simp: sm_wf_def earlier_def dest: set_takeWhileD)
  show "own_overlap s1 i \<longleftrightarrow> own_overlap s i"
    using len assms(3) by (auto simp: own_overlap_def nth_append)
  show "subtree_blocked s1 i \<longleftrightarrow> subtree_blocked s i"
    unfolding blocked_iff using len assms(3) earlier_snoc [OF assms(2)]
    by (auto simp: lease_conflict_def nth_append)
qed

lemma notify_all_sleepers: "sleepers_blocked (notify_all s)"
  by (simp add: sleepers_blocked_def)

lemma sm_step_sleepers:
  assumes "sm_wf s \<and> sleepers_blocked s" "sm_step s t"
  shows "sm_wf t \<and> sleepers_blocked t"
proof
  show "sm_wf t" using assms sm_step_wf by blast
  have wf: "sm_wf s" and sl: "sleepers_blocked s" using assms(1) by simp_all
  have activated: "sleepers_blocked (activate b u)" if "sleepers_blocked u" "sm_wf u" for b u
    using that activate_keeps_blocked [of u _ b]
    by (auto simp: sleepers_blocked_def sm_wf_def)
  from assms(2) show "sleepers_blocked t"
  proof cases
    case (sm_acquire_step target pre owner wait out)
    from sm_acquire_step show ?thesis
    proof (cases rule: sm_acquire_cases)
      case (queued i s1)
      have keep: "\<forall>k \<in> set (sm_pending s). k \<in> set (sm_notified s1) \<or> subtree_blocked s1 k \<or> own_overlap s1 k"
        using sl enqueue_keeps_blocked [OF wf _ queued(2) [unfolded queued(1)]] queued(2)
        by (auto simp: sleepers_blocked_def)
      show ?thesis
      proof (cases "subtree_blocked s1 i")
        case True
        then have "sleepers_blocked s1" using keep queued(2) by (auto simp: sleepers_blocked_def)
        with True queued(3) show ?thesis by (auto simp: drop_pending_def notify_all_sleepers)
      next
        case False
        have s1: "set (sm_pending s1) = insert i (set (sm_pending s))" using queued(2) by simp
        have "\<forall>k \<in> set (sm_pending (activate i s1)). k \<in> set (sm_notified (activate i s1)) \<or>
            subtree_blocked (activate i s1) k \<or> own_overlap (activate i s1) k"
        proof
          fix k
          assume k: "k \<in> set (sm_pending (activate i s1))"
          have "sm_wf s1" unfolding queued(2) queued(1) by (rule enqueue_wf [OF wf])
          then have "k \<noteq> i" "k \<in> set (sm_pending s)"
            using k s1 by (auto simp: sm_wf_def)
          with keep activate_keeps_blocked [of s1 k i] show
            "k \<in> set (sm_notified (activate i s1)) \<or>
            subtree_blocked (activate i s1) k \<or> own_overlap (activate i s1) k"
            by (auto simp: in_set_remove1)
        qed
        with False queued(3) show ?thesis by (simp add: sleepers_blocked_def)
      qed
    qed (simp add: sl)
  next
    case sm_wake_step
    show ?thesis
    proof (cases "sm_notified s")
      case (Cons i rest)
      have frame: "subtree_blocked (s\<lparr>sm_notified := rest\<rparr>) k = subtree_blocked s k"
        "own_overlap (s\<lparr>sm_notified := rest\<rparr>) k = own_overlap s k" for k
        by (simp_all add: subtree_blocked_def own_overlap_def)
      show ?thesis
        using sl Cons sm_wake_step activated [OF sl wf, of i]
        by (auto simp: sm_wake_def sleepers_blocked_def frame)
    qed (use sl sm_wake_step in \<open>simp add: sm_wake_def\<close>)
  next
    case (sm_cancel_step i)
    then show ?thesis using sl by (simp add: sm_cancel_def drop_pending_def notify_all_sleepers)
  next
    case (sm_release_step i)
    then show ?thesis using sl by (simp add: sm_release_def notify_all_sleepers)
  qed
qed

interpretation subtree_sleepers: inductive_invariant "\<lambda>s. s = sm_new" sm_step
  "\<lambda>s. sm_wf s \<and> sleepers_blocked s"
proof
  fix s t
  show "s = sm_new \<Longrightarrow> sm_wf s \<and> sleepers_blocked s"
    by (simp add: sm_new_def sm_wf_def sleepers_blocked_def)
  show "sm_wf s \<and> sleepers_blocked s \<Longrightarrow> sm_step s t \<Longrightarrow> sm_wf t \<and> sleepers_blocked t"
    by (rule sm_step_sleepers)
qed

section \<open>Properties\<close>

text \<open>
  C8. Subtree leases exclude one another: in every reachable state of the manager two active
  leases whose prefixes contain one another within the same target belong to the same owner.
\<close>

theorem subtree_mutual_exclusion:
  assumes "sm_reachable s" "i \<in> set (sm_active s)" "j \<in> set (sm_active s)" "i \<noteq> j"
    and "subtree_reservations_overlap (sm_store s ! i) (sm_store s ! j)"
  shows "sr_owner (sm_store s ! i) = sr_owner (sm_store s ! j)"
  using subtree.mutual_exclusion [OF assms(1-4)] assms(5) by (simp add: lease_conflict_def)

text \<open>
  C9. No waiter sleeps behind another operation without cause: in every reachable state a
  pending reservation that has not been woken is blocked, or it overlaps an active lease of
  its own owner, whose release will wake it.
\<close>

theorem subtree_no_lost_wakeup:
  assumes "sm_reachable s" "i \<in> set (sm_pending s)" "i \<notin> set (sm_notified s)" "\<not> subtree_blocked s i"
  shows "\<exists>j \<in> set (sm_active s). subtree_reservations_overlap (sm_store s ! i) (sm_store s ! j) \<and>
    sr_owner (sm_store s ! j) = sr_owner (sm_store s ! i)"
  using subtree_sleepers.inv_reachable [OF assms(1)] assms(2-4)
  by (auto simp: sleepers_blocked_def own_overlap_def)

subsection \<open>A lost wake-up within one owner\<close>

text \<open>
  An execution of six steps: owner 1 holds the root, owner 2 waits for \<open>a\<close>; owner 1 releases,
  which wakes that waiter; before it runs, owner 2 asks for \<open>a/b\<close>, which is blocked by the
  earlier pending request and goes to sleep; then the first waiter becomes active.
\<close>

definition lost_1 :: subtree_manager where "lost_1 = snd (sm_acquire 0 [] 1 True sm_new)"
definition lost_2 :: subtree_manager where "lost_2 = snd (sm_acquire 0 [[97]] 2 True lost_1)"
definition lost_3 :: subtree_manager where "lost_3 = sm_release 0 lost_2"
definition lost_4 :: subtree_manager where "lost_4 = snd (sm_acquire 0 [[97], [98]] 2 True lost_3)"
definition lost_5 :: subtree_manager where "lost_5 = sm_wake lost_4"

lemma sm_acquire_reachable:
  "sm_reachable s \<Longrightarrow> sm_reachable (snd (sm_acquire target pre owner wait s))"
  by (erule reach_step, rule sm_acquire_step [of target pre owner wait _ "fst (sm_acquire target pre owner wait s)"])
    simp

lemma sm_wake_reachable: "sm_reachable s \<Longrightarrow> sm_reachable (sm_wake s)"
  by (erule reach_step) (rule sm_wake_step)

lemma sm_release_reachable: "sm_reachable s \<Longrightarrow> sm_reachable (sm_release i s)"
  by (erule reach_step) (rule sm_release_step)

lemma sm_new_reachable: "sm_reachable sm_new"
  by (rule reach_start) simp

lemma lost_reachable: "sm_reachable lost_5"
  unfolding lost_5_def lost_4_def lost_3_def lost_2_def lost_1_def
  by (intro sm_acquire_reachable sm_wake_reachable sm_release_reachable sm_new_reachable)

lemmas subtree_eval = sm_new_def sm_acquire_def validate_canonical_prefix_def canonical_component_def
  subtree_blocked_def subtree_reservations_overlap_def prefix_contains_def earlier_def activate_def
  notify_all_def drop_pending_def sm_release_def sm_wake_def sm_cancel_def Let_def

lemma lost_5_eq:
  "lost_5 = \<lparr>sm_store = [\<lparr>sr_target = 0, sr_prefix = [], sr_owner = 1\<rparr>,
      \<lparr>sr_target = 0, sr_prefix = [[97]], sr_owner = 2\<rparr>,
      \<lparr>sr_target = 0, sr_prefix = [[97], [98]], sr_owner = 2\<rparr>],
    sm_pending = [2], sm_active = [1], sm_notified = []\<rparr>"
  by (simp add: lost_5_def lost_4_def lost_3_def lost_2_def lost_1_def subtree_eval)

text \<open>
  Activation does not notify: there is a reachable state in which a pending reservation is
  not blocked, has not been woken, and no wake-up is under way. It is covered by an active
  lease of its own owner and would be admitted at once if it were woken, but it sleeps until
  some lease is released. (The client's \<open>PathLocks\<close> notifies when a reservation becomes active.)
\<close>

theorem subtree_activation_lost_wakeup:
  "\<exists>s i. sm_reachable s \<and> i \<in> set (sm_pending s) \<and> sm_notified s = [] \<and> \<not> subtree_blocked s i"
  using lost_reachable
  by (intro exI [of _ lost_5] exI [of _ 2]) (simp add: lost_5_eq subtree_eval)

theorem subtree_no_lost_wakeup_witness:
  "\<exists>j \<in> set (sm_active lost_5). subtree_reservations_overlap (sm_store lost_5 ! 2) (sm_store lost_5 ! j) \<and>
    sr_owner (sm_store lost_5 ! j) = sr_owner (sm_store lost_5 ! 2)"
  by (rule subtree_no_lost_wakeup [OF lost_reachable]) (simp_all add: lost_5_eq subtree_eval)

text \<open>Two overlapping leases of one owner are active together.\<close>

definition joined_demo :: subtree_manager where
  "joined_demo = snd (sm_acquire 0 [[97], [98]] 2 False (snd (sm_acquire 0 [[97]] 2 True sm_new)))"

lemma joined_reachable: "sm_reachable joined_demo"
  unfolding joined_demo_def
  by (intro sm_acquire_reachable sm_new_reachable)

lemma joined_eq:
  "joined_demo = \<lparr>sm_store = [\<lparr>sr_target = 0, sr_prefix = [[97]], sr_owner = 2\<rparr>,
      \<lparr>sr_target = 0, sr_prefix = [[97], [98]], sr_owner = 2\<rparr>],
    sm_pending = [], sm_active = [0, 1], sm_notified = []\<rparr>"
  by (simp add: joined_demo_def subtree_eval)

theorem subtree_mutual_exclusion_witness:
  "sr_owner (sm_store joined_demo ! 0) = sr_owner (sm_store joined_demo ! 1)"
  by (rule subtree_mutual_exclusion [OF joined_reachable]) (simp_all add: joined_eq subtree_eval)

end
