(* ===== verification/Path_Locks.thy ===== *)
theory Path_Locks
  imports Lease_Exclusion Py_Strings "HOL-Library.List_Lexorder" "HOL-Library.Product_Lexorder"
begin

text \<open>
  The client's in-process path locks (\<open>tools/locks.py\<close>). Reservations are objects, so the
  lists hold indices into a store; each critical section under the condition's lock is one
  step. \<open>pl_notified\<close> holds the woken waiters that have not re-entered the lock yet, and
  \<open>pl_leaving\<close> the reservations whose \<open>finally\<close> clause has created its cleanup task, with
  the \<open>acquired\<close> flag it was created with. \<open>os.path\<close> is the POSIX one; the normal form
  \<open>normcase (abspath (normpath path))\<close> depends on the working directory and is a parameter.
\<close>

section \<open>Paths\<close>

fun common_prefix :: "'a list \<Rightarrow> 'a list \<Rightarrow> 'a list" where
  "common_prefix (x # xs) (y # ys) = (if x = y then x # common_prefix xs ys else [])"
| "common_prefix _ _ = []"

definition path_components :: "ustr \<Rightarrow> ustr list" where
  "path_components p = filter (\<lambda>c. c \<noteq> [] \<and> c \<noteq> [46]) (py_split 47 p)"

text \<open>\<open>os.path.commonpath\<close> of two paths; \<open>None\<close> is the \<open>ValueError\<close> for mixed paths.\<close>

definition commonpath :: "ustr \<Rightarrow> ustr \<Rightarrow> ustr option" where
  "commonpath a b =
     (if py_startswith a [47] \<noteq> py_startswith b [47] then None
      else Some ((if py_startswith a [47] then [47] else []) @
                 py_join [47] (common_prefix (path_components a) (path_components b))))"

definition is_ancestor :: "ustr \<Rightarrow> ustr \<Rightarrow> bool" where
  "is_ancestor parent child \<longleftrightarrow> commonpath parent child = Some parent"

fun compact_loop :: "ustr list \<Rightarrow> ustr list \<Rightarrow> ustr list" where
  "compact_loop compacted [] = compacted"
| "compact_loop compacted (p # ps) =
     (if \<not> list_ex (\<lambda>parent. is_ancestor parent p) compacted then compact_loop (compacted @ [p]) ps
      else compact_loop compacted ps)"

definition compact_paths :: "(ustr \<Rightarrow> ustr) \<Rightarrow> ustr list \<Rightarrow> ustr list" where
  "compact_paths canon paths =
     compact_loop [] (sort_key (\<lambda>p. (py_count [47] p, p)) (remdups (map canon paths)))"

section \<open>Reservations\<close>

record path_reservation =
  pr_paths :: "ustr list"
  pr_owner :: "nat option"
  pr_exclusive :: bool

definition reservations_overlap :: "path_reservation \<Rightarrow> path_reservation \<Rightarrow> bool" where
  "reservations_overlap r1 r2 \<longleftrightarrow>
     list_ex (\<lambda>p. list_ex (\<lambda>q. is_ancestor p q \<or> is_ancestor q p) (pr_paths r2)) (pr_paths r1)"

definition reservations_can_join :: "path_reservation \<Rightarrow> path_reservation \<Rightarrow> bool" where
  "reservations_can_join r1 r2 \<longleftrightarrow>
     pr_owner r1 \<noteq> None \<and> pr_owner r1 = pr_owner r2 \<and> (pr_exclusive r1 \<or> pr_exclusive r2)"

definition reservations_conflict :: "path_reservation \<Rightarrow> path_reservation \<Rightarrow> bool" where
  "reservations_conflict r1 r2 \<longleftrightarrow> reservations_overlap r1 r2 \<and> \<not> reservations_can_join r1 r2"

record path_locks =
  pl_locks :: "(ustr, int) dict"
  pl_store :: "path_reservation list"
  pl_pending :: "nat list"
  pl_active :: "nat list"
  pl_notified :: "nat list"
  pl_leaving :: "(nat \<times> bool) list"

definition pl_new :: path_locks where
  "pl_new = \<lparr>pl_locks = [], pl_store = [], pl_pending = [], pl_active = [], pl_notified = [], pl_leaving = []\<rparr>"

definition pl_blocked :: "path_locks \<Rightarrow> nat \<Rightarrow> bool" where
  "pl_blocked s i \<longleftrightarrow>
     list_ex (\<lambda>a. reservations_conflict (pl_store s ! i) (pl_store s ! a)) (pl_active s) \<or>
     list_ex (\<lambda>p. reservations_conflict (pl_store s ! i) (pl_store s ! p))
       (takeWhile (\<lambda>j. j \<noteq> i) (pl_pending s))"

definition has_exclusive_conflict :: "path_locks \<Rightarrow> nat \<Rightarrow> bool" where
  "has_exclusive_conflict s i \<longleftrightarrow>
     list_ex (\<lambda>a. pr_exclusive (pl_store s ! a) \<and>
       reservations_conflict (pl_store s ! i) (pl_store s ! a)) (pl_active s)"

definition pl_notify_all :: "path_locks \<Rightarrow> path_locks" where
  "pl_notify_all s =
     s\<lparr>pl_notified := pl_notified s @
        filter (\<lambda>i. i \<notin> set (pl_notified s) \<and> i \<notin> fst ` set (pl_leaving s)) (pl_pending s)\<rparr>"

definition add_reference :: "ustr \<Rightarrow> (ustr, int) dict \<Rightarrow> (ustr, int) dict" where
  "add_reference p locks = dict_set p (dict_get_default locks p 0 + 1) locks"

text \<open>Dropping the references of a reservation; \<open>None\<close> is the \<open>KeyError\<close> of a missing entry.\<close>

fun drop_references :: "ustr list \<Rightarrow> (ustr, int) dict \<Rightarrow> (ustr, int) dict option" where
  "drop_references [] locks = Some locks"
| "drop_references (p # ps) locks =
     (case dict_get locks p of
        None \<Rightarrow> None
      | Some n \<Rightarrow> drop_references ps (if n - 1 = 0 then dict_del p locks else dict_set p (n - 1) locks))"

text \<open>The loop under the lock: become active, fail fast on an exclusive conflict, or sleep.\<close>

definition pl_try :: "nat \<Rightarrow> path_locks \<Rightarrow> path_locks" where
  "pl_try i s =
     (if \<not> pl_blocked s i
      then pl_notify_all (s\<lparr>pl_pending := remove1 i (pl_pending s), pl_active := pl_active s @ [i]\<rparr>)
      else if has_exclusive_conflict s i then s\<lparr>pl_leaving := pl_leaving s @ [(i, False)]\<rparr>
      else s)"

definition pl_hold ::
  "(ustr \<Rightarrow> ustr) \<Rightarrow> ustr list \<Rightarrow> nat option \<Rightarrow> bool \<Rightarrow> path_locks \<Rightarrow> path_locks" where
  "pl_hold canon paths owner excl s =
     (let requested = compact_paths canon paths
      in if requested = [] then s
         else let i = length (pl_store s)
              in pl_try i (s\<lparr>pl_locks := fold add_reference requested (pl_locks s),
                   pl_store := pl_store s @
                     [\<lparr>pr_paths = requested, pr_owner = owner, pr_exclusive = excl\<rparr>],
                   pl_pending := pl_pending s @ [i]\<rparr>))"

definition pl_wake :: "path_locks \<Rightarrow> path_locks" where
  "pl_wake s =
     (case pl_notified s of [] \<Rightarrow> s | i # rest \<Rightarrow> pl_try i (s\<lparr>pl_notified := rest\<rparr>))"

text \<open>A waiter is cancelled, or the body of an acquired reservation ends: its cleanup starts.\<close>

definition pl_cancel :: "nat \<Rightarrow> path_locks \<Rightarrow> path_locks" where
  "pl_cancel i s =
     (if i \<in> set (pl_pending s) \<and> i \<notin> fst ` set (pl_leaving s)
      then s\<lparr>pl_notified := remove1 i (pl_notified s), pl_leaving := pl_leaving s @ [(i, False)]\<rparr> else s)"

definition pl_exit :: "nat \<Rightarrow> path_locks \<Rightarrow> path_locks" where
  "pl_exit i s =
     (if i \<in> set (pl_active s) \<and> i \<notin> fst ` set (pl_leaving s)
      then s\<lparr>pl_leaving := pl_leaving s @ [(i, True)]\<rparr> else s)"

definition release_reservation :: "nat \<Rightarrow> bool \<Rightarrow> path_locks \<Rightarrow> path_locks option" where
  "release_reservation i acquired s =
     (case drop_references (pr_paths (pl_store s ! i)) (pl_locks s) of
        None \<Rightarrow> None
      | Some locks \<Rightarrow>
          if acquired \<and> i \<notin> set (pl_active s) \<or> \<not> acquired \<and> i \<notin> set (pl_pending s) then None
          else Some (pl_notify_all
             (s\<lparr>pl_active := (if acquired then remove1 i (pl_active s) else pl_active s),
                pl_pending := (if acquired then pl_pending s else remove1 i (pl_pending s)),
                pl_locks := locks, pl_leaving := remove1 (i, acquired) (pl_leaving s)\<rparr>)))"

inductive pl_step :: "(ustr \<Rightarrow> ustr) \<Rightarrow> path_locks \<Rightarrow> path_locks \<Rightarrow> bool" for canon where
  pl_hold_step: "pl_step canon s (pl_hold canon paths owner excl s)"
| pl_wake_step: "pl_step canon s (pl_wake s)"
| pl_cancel_step: "pl_step canon s (pl_cancel i s)"
| pl_exit_step: "pl_step canon s (pl_exit i s)"
| pl_cleanup_step: "(i, acquired) \<in> set (pl_leaving s) \<Longrightarrow> release_reservation i acquired s = Some t \<Longrightarrow>
    pl_step canon s t"

abbreviation pl_reachable :: "(ustr \<Rightarrow> ustr) \<Rightarrow> path_locks \<Rightarrow> bool" where
  "pl_reachable canon \<equiv> reachable (\<lambda>s. s = pl_new) (pl_step canon)"

section \<open>Compacted paths\<close>

lemma compact_loop_acc: "\<exists>xs. compact_loop acc ps = acc @ xs \<and> set xs \<subseteq> set ps"
proof (induction ps arbitrary: acc)
  case (Cons p ps)
  from Cons.IH [of "acc @ [p]"] Cons.IH [of acc] show ?case by (auto split: if_splits)
qed simp

lemma compact_loop_covers:
  assumes "p \<in> set ps \<or> p \<in> set acc"
    and "\<forall>q \<in> set ps. is_ancestor q q" "\<forall>q \<in> set acc. is_ancestor q q"
  shows "\<exists>q \<in> set (compact_loop acc ps). is_ancestor q p"
  using assms
proof (induction ps arbitrary: acc)
  case (Cons x ps)
  show ?case
  proof (cases "list_ex (\<lambda>parent. is_ancestor parent x) acc")
    case True
    then obtain q where q: "q \<in> set acc" "is_ancestor q x" by (auto simp: list_ex_iff)
    obtain xs where "compact_loop acc ps = acc @ xs" using compact_loop_acc by blast
    then have "p = x \<Longrightarrow> ?thesis" using True q by auto
    moreover have "p \<noteq> x \<Longrightarrow> ?thesis" using Cons.IH [of acc] Cons.prems True by simp
    ultimately show ?thesis by blast
  next
    case False
    with Cons.IH [of "acc @ [x]"] Cons.prems show ?thesis by auto
  qed
qed auto

lemma compact_loop_antichain:
  assumes "\<forall>i < length acc. \<forall>j < length acc. i < j \<longrightarrow> \<not> is_ancestor (acc ! i) (acc ! j)"
  shows "\<forall>i < length (compact_loop acc ps). \<forall>j < length (compact_loop acc ps).
    i < j \<longrightarrow> \<not> is_ancestor (compact_loop acc ps ! i) (compact_loop acc ps ! j)"
  using assms
proof (induction ps arbitrary: acc)
  case (Cons p ps)
  show ?case
  proof (cases "list_ex (\<lambda>parent. is_ancestor parent p) acc")
    case False
    have "\<forall>i < length (acc @ [p]). \<forall>j < length (acc @ [p]). i < j \<longrightarrow>
        \<not> is_ancestor ((acc @ [p]) ! i) ((acc @ [p]) ! j)"
      using Cons.prems False by (auto simp: nth_append less_Suc_eq list_ex_iff)
    from Cons.IH [OF this] False show ?thesis by simp
  next
    case True
    with Cons show ?thesis by simp
  qed
qed simp

lemma compact_loop_distinct: "distinct (acc @ ps) \<Longrightarrow> distinct (compact_loop acc ps)"
  by (induction ps arbitrary: acc) auto

lemma compact_paths_distinct: "distinct (compact_paths canon paths)"
  unfolding compact_paths_def by (rule compact_loop_distinct) simp

section \<open>Structure and references\<close>

definition registered :: "path_locks \<Rightarrow> nat list" where
  "registered s = pl_pending s @ pl_active s"

definition pl_wf :: "path_locks \<Rightarrow> bool" where
  "pl_wf s \<longleftrightarrow>
     distinct (registered s) \<and> set (registered s) \<subseteq> {..<length (pl_store s)} \<and>
     distinct (pl_notified s) \<and> set (pl_notified s) \<subseteq> set (pl_pending s) \<and>
     distinct (map fst (pl_leaving s)) \<and>
     set (pl_notified s) \<inter> fst ` set (pl_leaving s) = {} \<and>
     (\<forall>i a. (i, a) \<in> set (pl_leaving s) \<longrightarrow> (if a then i \<in> set (pl_active s) else i \<in> set (pl_pending s))) \<and>
     (\<forall>r \<in> set (pl_store s). distinct (pr_paths r))"

definition reference_count :: "path_locks \<Rightarrow> ustr \<Rightarrow> nat" where
  "reference_count s p = length (filter (\<lambda>i. p \<in> set (pr_paths (pl_store s ! i))) (registered s))"

definition locks_match :: "(ustr, int) dict \<Rightarrow> (ustr \<Rightarrow> nat) \<Rightarrow> bool" where
  "locks_match locks f \<longleftrightarrow> (\<forall>p. dict_get locks p = (if f p = 0 then None else Some (int (f p))))"

definition pl_inv :: "path_locks \<Rightarrow> bool" where
  "pl_inv s \<longleftrightarrow> pl_wf s \<and> locks_match (pl_locks s) (reference_count s) \<and>
     (\<forall>i \<in> set (pl_pending s). i \<in> set (pl_notified s) \<or> i \<in> fst ` set (pl_leaving s) \<or> pl_blocked s i)"

lemma pl_wfD:
  assumes "pl_wf s"
  shows "distinct (registered s)" "set (registered s) \<subseteq> {..<length (pl_store s)}"
    "distinct (pl_notified s)" "set (pl_notified s) \<subseteq> set (pl_pending s)"
    "distinct (map fst (pl_leaving s))" "set (pl_notified s) \<inter> fst ` set (pl_leaving s) = {}"
    "(i, a) \<in> set (pl_leaving s) \<Longrightarrow> (if a then i \<in> set (pl_active s) else i \<in> set (pl_pending s))"
    "r \<in> set (pl_store s) \<Longrightarrow> distinct (pr_paths r)"
  using assms unfolding pl_wf_def by blast+

lemma add_references_match:
  assumes "locks_match locks f" "distinct ps"
  shows "locks_match (fold add_reference ps locks) (\<lambda>p. f p + (if p \<in> set ps then 1 else 0))"
  using assms
proof (induction ps arbitrary: locks f)
  case (Cons p ps)
  have "locks_match (add_reference p locks) (\<lambda>q. f q + (if q = p then 1 else 0))"
    using Cons.prems(1) by (auto simp: locks_match_def add_reference_def dict_get_default_def)
  from Cons.IH [OF this] Cons.prems(2) show ?case
    by (auto simp: locks_match_def)
qed (simp add: locks_match_def)

lemma drop_references_match:
  assumes "locks_match locks f" "distinct ps" "\<forall>p \<in> set ps. 0 < f p"
  shows "\<exists>locks'. drop_references ps locks = Some locks' \<and>
    locks_match locks' (\<lambda>p. f p - (if p \<in> set ps then 1 else 0))"
  using assms
proof (induction ps arbitrary: locks f)
  case (Cons p ps)
  define g where "g q = f q - (if q = p then 1 else 0)" for q
  define l where "l = (if int (f p) - 1 = 0 then dict_del p locks else dict_set p (int (f p) - 1) locks)"
  have get: "dict_get locks p = Some (int (f p))" using Cons.prems by (simp add: locks_match_def)
  have "locks_match l g"
    using Cons.prems(1,3) by (auto simp: locks_match_def l_def g_def of_nat_diff)
  moreover have "\<forall>q \<in> set ps. 0 < g q" using Cons.prems(2,3) by (auto simp: g_def)
  ultimately obtain locks' where "drop_references ps l = Some locks'"
    "locks_match locks' (\<lambda>q. g q - (if q \<in> set ps then 1 else 0))"
    using Cons.IH [of l g] Cons.prems(2) by auto
  moreover have "(\<lambda>q. g q - (if q \<in> set ps then 1 else 0)) = (\<lambda>q. f q - (if q \<in> set (p # ps) then 1 else 0))"
    using Cons.prems(2) by (auto simp: g_def fun_eq_iff)
  ultimately show ?case using get by (simp add: l_def)
qed simp

lemma pl_notify_fields [simp]:
  "pl_locks (pl_notify_all s) = pl_locks s" "pl_store (pl_notify_all s) = pl_store s"
  "pl_pending (pl_notify_all s) = pl_pending s" "pl_active (pl_notify_all s) = pl_active s"
  "pl_leaving (pl_notify_all s) = pl_leaving s"
  "set (pl_notified (pl_notify_all s)) =
     set (pl_notified s) \<union> (set (pl_pending s) - fst ` set (pl_leaving s))"
  by (auto simp: pl_notify_all_def)

lemma pl_notify_wf: "pl_wf s \<Longrightarrow> pl_wf (pl_notify_all s)"
  by (auto simp: pl_wf_def registered_def pl_notify_all_def)

lemma pl_notify_inv:
  assumes "pl_wf s" "locks_match (pl_locks s) (reference_count s)"
  shows "pl_inv (pl_notify_all s)"
proof -
  have "reference_count (pl_notify_all s) = reference_count s"
    by (simp add: reference_count_def registered_def fun_eq_iff)
  then show ?thesis using pl_notify_wf [OF assms(1)] assms(2) by (auto simp: pl_inv_def)
qed

lemma reference_count_perm:
  assumes "pl_store t = pl_store s" "distinct (registered s)" "distinct (registered t)"
    and "set (registered t) = set (registered s)"
  shows "reference_count t = reference_count s"
proof
  fix p
  define P where "P i \<longleftrightarrow> p \<in> set (pr_paths (pl_store s ! i))" for i
  have "length (filter P xs) = card (set (filter P xs))" if "distinct xs" for xs
    using distinct_card [OF distinct_filter [OF that, of P]] by simp
  then show "reference_count t p = reference_count s p"
    using assms by (simp add: reference_count_def P_def [symmetric])
qed

section \<open>Every step keeps the invariant\<close>

lemma pl_try_inv:
  assumes wf: "pl_wf s" and locks: "locks_match (pl_locks s) (reference_count s)"
    and i: "i \<in> set (pl_pending s)" "i \<notin> set (pl_notified s)" "i \<notin> fst ` set (pl_leaving s)"
    and sleep: "\<forall>k \<in> set (pl_pending s). k \<noteq> i \<longrightarrow>
      k \<in> set (pl_notified s) \<or> k \<in> fst ` set (pl_leaving s) \<or> pl_blocked s k"
  shows "pl_inv (pl_try i s)"
proof (cases "pl_blocked s i")
  case False
  define t where "t = s\<lparr>pl_pending := remove1 i (pl_pending s), pl_active := pl_active s @ [i]\<rparr>"
  have reg: "distinct (registered t)" "set (registered t) = set (registered s)"
    using wf i(1) by (auto simp: t_def registered_def pl_wf_def)
  have leaving: "(i, a) \<notin> set (pl_leaving s)" for a using i(3) by (force simp: image_iff)
  have "pl_wf t"
    using wf reg i leaving
    by (auto simp: pl_wf_def t_def registered_def)
  moreover have "reference_count t = reference_count s"
    using reg wf by (intro reference_count_perm) (simp_all add: t_def pl_wf_def)
  ultimately have "pl_inv (pl_notify_all t)" using locks by (intro pl_notify_inv) (simp_all add: t_def)
  then show ?thesis using False by (simp add: pl_try_def t_def)
next
  case True
  have frame: "reference_count (s\<lparr>pl_leaving := l\<rparr>) = reference_count s"
    "pl_blocked (s\<lparr>pl_leaving := l\<rparr>) k = pl_blocked s k" for l k
    by (simp_all add: reference_count_def registered_def pl_blocked_def fun_eq_iff)
  have "pl_wf (s\<lparr>pl_leaving := pl_leaving s @ [(i, False)]\<rparr>)"
    using wf i by (auto simp: pl_wf_def registered_def)
  then show ?thesis
    using True wf locks sleep by (auto simp: pl_try_def pl_inv_def frame)
qed

lemma reference_count_enqueue:
  assumes "pl_wf s"
    and "t = s\<lparr>pl_locks := l, pl_store := pl_store s @ [r], pl_pending := pl_pending s @ [length (pl_store s)]\<rparr>"
  shows "reference_count t = (\<lambda>p. reference_count s p + (if p \<in> set (pr_paths r) then 1 else 0))"
proof
  fix p
  have "filter (\<lambda>i. p \<in> set (pr_paths ((pl_store s @ [r]) ! i))) xs =
      filter (\<lambda>i. p \<in> set (pr_paths (pl_store s ! i))) xs"
    if "set xs \<subseteq> {..<length (pl_store s)}" for xs
    using that by (intro filter_cong) (auto simp: nth_append)
  then show "reference_count t p = reference_count s p + (if p \<in> set (pr_paths r) then 1 else 0)"
    using assms by (simp add: reference_count_def registered_def pl_wf_def)
qed

lemma takeWhile_snoc: "i \<in> set xs \<Longrightarrow> takeWhile (\<lambda>j. j \<noteq> i) (xs @ ys) = takeWhile (\<lambda>j. j \<noteq> i) xs"
  by (induction xs) auto

lemma pl_hold_inv:
  assumes "pl_inv s"
  shows "pl_inv (pl_hold canon paths owner excl s)"
proof (cases "compact_paths canon paths = []")
  case False
  define r where "r = \<lparr>pr_paths = compact_paths canon paths, pr_owner = owner, pr_exclusive = excl\<rparr>"
  define i where "i = length (pl_store s)"
  define t where "t = s\<lparr>pl_locks := fold add_reference (pr_paths r) (pl_locks s),
    pl_store := pl_store s @ [r], pl_pending := pl_pending s @ [i]\<rparr>"
  have wf: "pl_wf s" and locks: "locks_match (pl_locks s) (reference_count s)"
    and sleep: "\<forall>i \<in> set (pl_pending s). i \<in> set (pl_notified s) \<or> i \<in> fst ` set (pl_leaving s) \<or> pl_blocked s i"
    using assms by (simp_all add: pl_inv_def)
  have fresh: "i \<notin> set (registered s)" using wf by (auto simp: pl_wf_def i_def)
  have left: "fst ` set (pl_leaving s) \<subseteq> set (registered s)"
  proof
    fix k
    assume "k \<in> fst ` set (pl_leaving s)"
    then obtain a where "(k, a) \<in> set (pl_leaving s)" by auto
    then have "if a then k \<in> set (pl_active s) else k \<in> set (pl_pending s)"
      using wf unfolding pl_wf_def by blast
    then show "k \<in> set (registered s)" by (cases a) (simp_all add: registered_def)
  qed
  have "pl_wf t"
    using wf fresh compact_paths_distinct [of canon paths]
    unfolding pl_wf_def registered_def t_def i_def r_def
    by (simp add: subset_eq less_Suc_eq)
  moreover have "locks_match (pl_locks t) (reference_count t)"
    using add_references_match [OF locks compact_paths_distinct [of canon paths]]
      reference_count_enqueue [OF wf, where t = t and r = r and l = "fold add_reference (pr_paths r) (pl_locks s)"]
    by (simp add: t_def r_def i_def)
  moreover have same: "pl_blocked t k = pl_blocked s k" if "k \<in> set (pl_pending s)" for k
  proof -
    have lt: "\<forall>j \<in> set (registered s). j < length (pl_store s)" using wf by (auto simp: pl_wf_def)
    have "\<forall>j \<in> set (takeWhile (\<lambda>j. j \<noteq> k) (pl_pending s)). j < length (pl_store s)"
      using lt by (auto simp: registered_def dest: set_takeWhileD)
    then show ?thesis
      using lt that by (auto simp: pl_blocked_def t_def takeWhile_snoc nth_append list_ex_iff registered_def)
  qed
  moreover have "i \<in> set (pl_pending t)" by (simp add: t_def)
  moreover have "i \<notin> set (pl_notified t)" "i \<notin> fst ` set (pl_leaving t)"
    using fresh left wf by (auto simp: t_def registered_def pl_wf_def)
  moreover have "\<forall>k \<in> set (pl_pending t). k \<noteq> i \<longrightarrow>
      k \<in> set (pl_notified t) \<or> k \<in> fst ` set (pl_leaving t) \<or> pl_blocked t k"
  proof (intro ballI impI)
    fix k
    assume "k \<in> set (pl_pending t)" "k \<noteq> i"
    then have k: "k \<in> set (pl_pending s)" by (simp add: t_def)
    show "k \<in> set (pl_notified t) \<or> k \<in> fst ` set (pl_leaving t) \<or> pl_blocked t k"
      unfolding same [OF k] using sleep k by (simp add: t_def)
  qed
  ultimately have "pl_inv (pl_try i t)" by (intro pl_try_inv)
  then show ?thesis using False by (simp add: pl_hold_def Let_def t_def r_def i_def)
qed (use assms in \<open>simp add: pl_hold_def\<close>)

lemma pl_wake_inv:
  assumes "pl_inv s"
  shows "pl_inv (pl_wake s)"
proof (cases "pl_notified s")
  case (Cons i rest)
  define t where "t = s\<lparr>pl_notified := rest\<rparr>"
  have s: "pl_wf s" "locks_match (pl_locks s) (reference_count s)"
    "\<forall>i \<in> set (pl_pending s). i \<in> set (pl_notified s) \<or> i \<in> fst ` set (pl_leaving s) \<or> pl_blocked s i"
    using assms by (simp_all add: pl_inv_def)
  have frame: "reference_count t = reference_count s" "pl_blocked t k = pl_blocked s k" for k
    by (simp_all add: t_def reference_count_def registered_def pl_blocked_def fun_eq_iff)
  have "pl_wf t" using s(1) Cons by (auto simp: pl_wf_def registered_def t_def)
  moreover have "i \<in> set (pl_pending t)" "i \<notin> set (pl_notified t)" "i \<notin> fst ` set (pl_leaving t)"
    using s(1) Cons by (auto simp: pl_wf_def t_def)
  moreover have "\<forall>k \<in> set (pl_pending t). k \<noteq> i \<longrightarrow>
      k \<in> set (pl_notified t) \<or> k \<in> fst ` set (pl_leaving t) \<or> pl_blocked t k"
    using s(3) Cons frame(2) by (auto simp: t_def)
  moreover have "locks_match (pl_locks t) (reference_count t)"
    using s(2) frame(1) by (simp add: t_def)
  ultimately have "pl_inv (pl_try i t)" by (intro pl_try_inv)
  then show ?thesis using Cons by (simp add: pl_wake_def t_def)
qed (use assms in \<open>simp add: pl_wake_def\<close>)

lemma pl_cancel_inv: "pl_inv s \<Longrightarrow> pl_inv (pl_cancel i s)"
proof -
  assume inv: "pl_inv s"
  have frame: "reference_count (s\<lparr>pl_notified := n, pl_leaving := l\<rparr>) = reference_count s"
    "pl_blocked (s\<lparr>pl_notified := n, pl_leaving := l\<rparr>) k = pl_blocked s k" for n l k
    by (simp_all add: reference_count_def registered_def pl_blocked_def fun_eq_iff)
  have "pl_wf (pl_cancel i s)"
    using inv by (auto simp: pl_inv_def pl_wf_def registered_def pl_cancel_def split: if_splits)
  then show ?thesis
    using inv by (auto simp: pl_inv_def pl_cancel_def frame)
qed

lemma pl_exit_inv: "pl_inv s \<Longrightarrow> pl_inv (pl_exit i s)"
proof -
  assume inv: "pl_inv s"
  have frame: "reference_count (s\<lparr>pl_leaving := l\<rparr>) = reference_count s"
    "pl_blocked (s\<lparr>pl_leaving := l\<rparr>) k = pl_blocked s k" for l k
    by (simp_all add: reference_count_def registered_def pl_blocked_def fun_eq_iff)
  have "set (pl_notified s) \<inter> set (pl_active s) = {}"
    using inv by (auto simp: pl_inv_def pl_wf_def registered_def)
  then have "pl_wf (pl_exit i s)"
    using inv by (auto simp: pl_inv_def pl_wf_def registered_def pl_exit_def split: if_splits)
  then show ?thesis
    using inv by (auto simp: pl_inv_def pl_exit_def frame)
qed

lemma reference_count_remove:
  assumes "distinct (registered s)" "i \<in> set (registered s)" "set (registered t) = set (registered s) - {i}"
    and "distinct (registered t)" "pl_store t = pl_store s"
  shows "reference_count t = (\<lambda>p. reference_count s p - (if p \<in> set (pr_paths (pl_store s ! i)) then 1 else 0))"
proof
  fix p
  define P where "P k \<longleftrightarrow> p \<in> set (pr_paths (pl_store s ! k))" for k
  have card: "length (filter P xs) = card {k \<in> set xs. P k}" if "distinct xs" for xs
    using distinct_card [OF distinct_filter [OF that, of P]] by simp
  have "{k \<in> set (registered t). P k} = {k \<in> set (registered s). P k} - (if P i then {i} else {})"
    using assms(3) by auto
  then have "card {k \<in> set (registered t). P k} = card {k \<in> set (registered s). P k} - (if P i then 1 else 0)"
    using assms(2) by (auto simp: card_Diff_singleton)
  then show "reference_count t p = reference_count s p - (if p \<in> set (pr_paths (pl_store s ! i)) then 1 else 0)"
    using card [OF assms(1)] card [OF assms(4)] assms(5)
    by (simp add: reference_count_def P_def [symmetric])
qed

lemma release_reservation_inv:
  assumes "pl_inv s" "(i, a) \<in> set (pl_leaving s)"
  shows "\<exists>t. release_reservation i a s = Some t \<and> pl_inv t"
proof -
  have wf: "pl_wf s" and locks: "locks_match (pl_locks s) (reference_count s)"
    using assms(1) by (simp_all add: pl_inv_def)
  have i: "if a then i \<in> set (pl_active s) else i \<in> set (pl_pending s)"
    by (rule pl_wfD(7) [OF wf assms(2)])
  have reg: "distinct (registered s)" "i \<in> set (registered s)"
    using pl_wfD(1) [OF wf] i by (cases a; simp add: registered_def)+
  define ps where "ps = pr_paths (pl_store s ! i)"
  have "i < length (pl_store s)" using pl_wfD(2) [OF wf] reg(2) by blast
  then have dist: "distinct ps" unfolding ps_def by (intro pl_wfD(8) [OF wf] nth_mem)
  have pos: "\<forall>p \<in> set ps. 0 < reference_count s p"
    using reg(2) by (auto simp: reference_count_def ps_def filter_empty_conv)
  obtain l where l: "drop_references ps (pl_locks s) = Some l"
    "locks_match l (\<lambda>p. reference_count s p - (if p \<in> set ps then 1 else 0))"
    using drop_references_match [OF locks dist pos] by blast
  define t where "t = s\<lparr>pl_active := (if a then remove1 i (pl_active s) else pl_active s),
      pl_pending := (if a then pl_pending s else remove1 i (pl_pending s)),
      pl_locks := l, pl_leaving := remove1 (i, a) (pl_leaving s)\<rparr>"
  have regt: "set (registered t) = set (registered s) - {i}" "distinct (registered t)"
    using reg i by (auto simp: registered_def t_def)
  have dl: "distinct (pl_leaving s)" using pl_wfD(5) [OF wf] by (simp add: distinct_map)
  have left: "set (pl_leaving t) = set (pl_leaving s) - {(i, a)}" using dl by (simp add: t_def)
  have only: "b = a" if "(i, b) \<in> set (pl_leaving s)" for b
    using eq_key_imp_eq_value [OF pl_wfD(5) [OF wf] that assms(2)] .
  have wft: "pl_wf t"
    unfolding pl_wf_def
  proof (intro conjI)
    show "distinct (registered t)" by (rule regt)
    show "set (registered t) \<subseteq> {..<length (pl_store t)}"
      using regt(1) pl_wfD(2) [OF wf] by (auto simp: t_def)
    show "distinct (pl_notified t)" using pl_wfD(3) [OF wf] by (simp add: t_def)
    have "i \<in> fst ` set (pl_leaving s)" using assms(2) by force
    then have "set (pl_notified s) \<subseteq> set (pl_pending s) - {i}"
      using pl_wfD(4,6) [OF wf] by blast
    then show "set (pl_notified t) \<subseteq> set (pl_pending t)"
      using reg(1) by (auto simp: t_def registered_def)
    show "distinct (map fst (pl_leaving t))"
      using pl_wfD(5) [OF wf] left dl by (auto simp: t_def distinct_map inj_on_def)
    show "set (pl_notified t) \<inter> fst ` set (pl_leaving t) = {}"
      using pl_wfD(6) [OF wf] left by (auto simp: t_def)
    show "\<forall>k b. (k, b) \<in> set (pl_leaving t) \<longrightarrow> (if b then k \<in> set (pl_active t) else k \<in> set (pl_pending t))"
    proof (intro allI impI)
      fix k b
      assume "(k, b) \<in> set (pl_leaving t)"
      then have kb: "(k, b) \<in> set (pl_leaving s)" "(k, b) \<noteq> (i, a)" using left by auto
      then have "k \<noteq> i" using only by auto
      with pl_wfD(7) [OF wf kb(1)] show "if b then k \<in> set (pl_active t) else k \<in> set (pl_pending t)"
        by (cases b; cases a) (simp_all add: t_def)
    qed
    show "\<forall>r \<in> set (pl_store t). distinct (pr_paths r)" using pl_wfD(8) [OF wf] by (simp add: t_def)
  qed
  have "locks_match (pl_locks t) (reference_count t)"
    using l(2) reference_count_remove [OF reg regt] by (simp add: t_def ps_def)
  with wft have "pl_inv (pl_notify_all t)" by (rule pl_notify_inv)
  moreover have "release_reservation i a s = Some (pl_notify_all t)"
    using l(1) i by (cases a) (simp_all add: release_reservation_def ps_def t_def)
  ultimately show ?thesis by blast
qed

lemma pl_step_inv: "pl_inv s \<Longrightarrow> pl_step canon s t \<Longrightarrow> pl_inv t"
  by (erule pl_step.cases)
    (auto simp: pl_hold_inv pl_wake_inv pl_cancel_inv pl_exit_inv dest: release_reservation_inv)

lemma pl_new_inv: "pl_inv pl_new"
  by (simp add: pl_inv_def pl_new_def pl_wf_def registered_def locks_match_def reference_count_def)

section \<open>Mutual exclusion\<close>

definition path_conflict :: "path_locks \<Rightarrow> nat \<Rightarrow> nat \<Rightarrow> bool" where
  "path_conflict s i j \<longleftrightarrow> reservations_conflict (pl_store s ! i) (pl_store s ! j)"

lemma reservations_conflict_sym: "reservations_conflict a b \<longleftrightarrow> reservations_conflict b a"
  by (auto simp: reservations_conflict_def reservations_overlap_def reservations_can_join_def list_ex_iff)

lemma not_blocked_free: "\<not> pl_blocked s i \<Longrightarrow> j \<in> set (pl_active s) \<Longrightarrow> \<not> path_conflict s i j"
  by (auto simp: pl_blocked_def path_conflict_def list_ex_iff)

lemma pl_try_store [simp]: "pl_store (pl_try i s) = pl_store s"
  by (simp add: pl_try_def)

lemma pl_try_active:
  "pl_active (pl_try i s) = (if pl_blocked s i then pl_active s else pl_active s @ [i])"
  by (simp add: pl_try_def)

lemma pl_step_store:
  assumes "pl_step canon s t"
  shows "\<exists>xs. pl_store t = pl_store s @ xs"
  using assms
  by cases (auto simp: pl_hold_def pl_wake_def pl_cancel_def pl_exit_def release_reservation_def Let_def
      split: list.splits option.splits if_splits)

lemma pl_step_active:
  assumes "pl_step canon s t"
  shows "set (pl_active t) \<subseteq> set (pl_active s) \<or>
    (\<exists>i. set (pl_active t) \<subseteq> insert i (set (pl_active s)) \<and> (\<forall>j \<in> set (pl_active s). \<not> path_conflict t i j))"
proof -
  have attempt: "set (pl_active (pl_try i u)) \<subseteq> set (pl_active s) \<or>
    (\<exists>k. set (pl_active (pl_try i u)) \<subseteq> insert k (set (pl_active s)) \<and>
      (\<forall>j \<in> set (pl_active s). \<not> path_conflict (pl_try i u) k j))" if "pl_active u = pl_active s" for i u
    using not_blocked_free [of u i] that by (auto simp: pl_try_active path_conflict_def)
  from assms show ?thesis
  proof cases
    case (pl_hold_step paths owner excl)
    show ?thesis
      unfolding pl_hold_step pl_hold_def Let_def using attempt by auto
  next
    case pl_wake_step
    then show ?thesis using attempt by (auto simp: pl_wake_def split: list.split)
  next
    case (pl_cancel_step i)
    then show ?thesis by (simp add: pl_cancel_def)
  next
    case (pl_exit_step i)
    then show ?thesis by (simp add: pl_exit_def)
  next
    case (pl_cleanup_step i a)
    then show ?thesis
      by (auto simp: release_reservation_def split: option.splits if_splits dest: notin_set_remove1)
  qed
qed

interpretation path_locks: exclusive_activation "\<lambda>s. s = pl_new" "pl_step canon" pl_inv
  "\<lambda>s. set (pl_active s)" path_conflict for canon
proof
  fix s t i j
  show "s = pl_new \<Longrightarrow> pl_inv s" by (simp add: pl_new_inv)
  show "pl_inv s \<Longrightarrow> pl_step canon s t \<Longrightarrow> pl_inv t" by (rule pl_step_inv)
  show "s = pl_new \<Longrightarrow> set (pl_active s) = {}" by (simp add: pl_new_def)
  show "path_conflict s i j \<longleftrightarrow> path_conflict s j i"
    using reservations_conflict_sym by (simp add: path_conflict_def)
  show "pl_inv s \<Longrightarrow> pl_step canon s t \<Longrightarrow> i \<in> set (pl_active s) \<Longrightarrow> j \<in> set (pl_active s) \<Longrightarrow>
      path_conflict t i j \<longleftrightarrow> path_conflict s i j"
  proof -
    assume inv: "pl_inv s" and step: "pl_step canon s t" and ij: "i \<in> set (pl_active s)" "j \<in> set (pl_active s)"
    obtain xs where "pl_store t = pl_store s @ xs" using pl_step_store [OF step] by blast
    moreover have "i < length (pl_store s)" "j < length (pl_store s)"
      using inv ij by (auto simp: pl_inv_def pl_wf_def registered_def)
    ultimately show "path_conflict t i j \<longleftrightarrow> path_conflict s i j"
      by (simp add: path_conflict_def nth_append)
  qed
  show "pl_inv s \<Longrightarrow> pl_step canon s t \<Longrightarrow> set (pl_active t) \<subseteq> set (pl_active s) \<or>
      (\<exists>i. set (pl_active t) \<subseteq> insert i (set (pl_active s)) \<and> (\<forall>j \<in> set (pl_active s). \<not> path_conflict t i j))"
    by (rule pl_step_active)
qed

section \<open>Properties\<close>

text \<open>
  C10. Path locks exclude one another: in every reachable state two reservations that are held
  at the same time and have a path of one at or below a path of the other belong to the
  same named owner, and at least one of them reserves the subtree exclusively.
\<close>

theorem path_locks_exclusion:
  assumes "pl_reachable canon s" "i \<in> set (pl_active s)" "j \<in> set (pl_active s)" "i \<noteq> j"
    and "reservations_overlap (pl_store s ! i) (pl_store s ! j)"
  shows "reservations_can_join (pl_store s ! i) (pl_store s ! j)"
  using path_locks.mutual_exclusion [OF assms(1-4)] assms(5)
  by (simp add: path_conflict_def reservations_conflict_def)

text \<open>
  No waiter is forgotten and no entry leaks: in every reachable state a pending reservation
  that is neither woken nor being cleaned up is blocked, the reference count of every path is
  the number of registered reservations of that path, with no entry for an unreferenced
  path, and a cleanup that is due always succeeds.
\<close>

theorem path_locks_bookkeeping:
  assumes "pl_reachable canon s"
  shows "(\<forall>i \<in> set (pl_pending s). i \<in> set (pl_notified s) \<or> i \<in> fst ` set (pl_leaving s) \<or> pl_blocked s i) \<and>
    (\<forall>p. dict_get (pl_locks s) p =
      (if reference_count s p = 0 then None else Some (int (reference_count s p)))) \<and>
    (\<forall>(i, a) \<in> set (pl_leaving s). \<exists>t. release_reservation i a s = Some t)"
  using path_locks.inv_reachable [OF assms] release_reservation_inv [of s]
  by (fastforce simp: pl_inv_def locks_match_def)

definition pl_demo :: path_locks where
  "pl_demo = pl_hold id [[47, 97, 47, 98]] (Some 7) False (pl_hold id [[47, 97]] (Some 7) True pl_new)"

lemma pl_hold_reachable: "pl_reachable canon s \<Longrightarrow> pl_reachable canon (pl_hold canon paths owner excl s)"
  by (erule reach_step) (rule pl_hold_step)

lemma pl_demo_reachable: "pl_reachable id pl_demo"
  unfolding pl_demo_def by (intro pl_hold_reachable reach_start) simp

lemma pl_demo_eq:
  "pl_active pl_demo = [0, 1]" "pl_leaving pl_demo = []" "pl_pending pl_demo = []"
  "pl_store pl_demo = [\<lparr>pr_paths = [[47, 97]], pr_owner = Some 7, pr_exclusive = True\<rparr>,
     \<lparr>pr_paths = [[47, 97, 47, 98]], pr_owner = Some 7, pr_exclusive = False\<rparr>]"
  by (simp_all add: pl_demo_def pl_hold_def pl_new_def pl_try_def pl_blocked_def pl_notify_all_def
      compact_paths_def reservations_conflict_def reservations_overlap_def reservations_can_join_def
      is_ancestor_def commonpath_def path_components_def py_split_def py_startswith_def Let_def)

theorem path_locks_exclusion_witness:
  "reservations_can_join (pl_store pl_demo ! 0) (pl_store pl_demo ! 1)"
  by (rule path_locks_exclusion [OF pl_demo_reachable])
    (simp_all add: pl_demo_eq reservations_overlap_def is_ancestor_def commonpath_def
      path_components_def py_split_def py_startswith_def)

theorem path_locks_bookkeeping_witness:
  "dict_get (pl_locks pl_demo) [47, 97] =
     (if reference_count pl_demo [47, 97] = 0 then None else Some (int (reference_count pl_demo [47, 97])))"
  using path_locks_bookkeeping [OF pl_demo_reachable] by blast

end
