(* ===== verification/Keyed_Entries.thy ===== *)
theory Keyed_Entries
  imports Octo_Prelude
begin

text \<open>
  Lease-counted keyed entries: \<open>KeyedLockManager\<close> of \<open>workspace/locks.py\<close> and \<open>_KeyedPool\<close>,
  \<open>KeyedAdmission\<close> and \<open>KeyedDirectionalAdmission\<close> of \<open>admission.py\<close>. Both keep a dictionary
  from keys to entry objects, count how many users hold a reference to an entry, and evict an
  entry with its last user. The first part proves the table of entries correct once; the
  components then add what an entry guards: a mutex, or a semaphore behind a global one.

  An entry is an index into a store. A use of the component is a record with its phase; the
  code between two awaits is one step. Semaphores and locks are their counters: an acquisition
  is enabled when the counter allows it.
\<close>

section \<open>The table of entries\<close>

text \<open>\<open>n k e\<close> is the number of live uses of entry \<open>e\<close> under key \<open>k\<close>.\<close>

definition table_ok :: "('k, nat) dict \<Rightarrow> (nat \<Rightarrow> int) \<Rightarrow> ('k \<Rightarrow> nat \<Rightarrow> nat) \<Rightarrow> bool" where
  "table_ok entries leases n \<longleftrightarrow>
     (\<forall>k e. dict_get entries k = Some e \<longrightarrow> leases e = int (n k e) \<and> 0 < n k e) \<and>
     (\<forall>k e. 0 < n k e \<longrightarrow> dict_get entries k = Some e) \<and>
     (\<forall>k k' e. dict_get entries k = Some e \<and> dict_get entries k' = Some e \<longrightarrow> k = k')"

lemma table_okD:
  assumes "table_ok entries leases n"
  shows "dict_get entries k = Some e \<Longrightarrow> leases e = int (n k e)"
    and "dict_get entries k = Some e \<Longrightarrow> 0 < n k e"
    and "0 < n k e \<Longrightarrow> dict_get entries k = Some e"
    and "dict_get entries k = Some e \<Longrightarrow> dict_get entries k' = Some e \<Longrightarrow> k = k'"
  using assms unfolding table_ok_def by blast+

lemma table_okI:
  assumes "\<And>k e. dict_get entries k = Some e \<Longrightarrow> leases e = int (n k e)"
    and "\<And>k e. dict_get entries k = Some e \<Longrightarrow> 0 < n k e"
    and "\<And>k e. 0 < n k e \<Longrightarrow> dict_get entries k = Some e"
    and "\<And>k k' e. dict_get entries k = Some e \<Longrightarrow> dict_get entries k' = Some e \<Longrightarrow> k = k'"
  shows "table_ok entries leases n"
  using assms unfolding table_ok_def by blast

lemma table_ok_join:
  assumes ok: "table_ok entries leases n" and get: "dict_get entries k = Some e"
    and n': "n' = (\<lambda>k' e'. n k' e' + (if k' = k \<and> e' = e then 1 else 0))"
    and l': "leases' = leases(e := leases e + 1)"
  shows "table_ok entries leases' n'"
proof (rule table_okI)
  fix k' e'
  assume get': "dict_get entries k' = Some e'"
  show "leases' e' = int (n' k' e')"
    using table_okD(1) [OF ok get'] table_okD(4) [OF ok get', of k] get get' by (auto simp: n' l')
  show "0 < n' k' e'" using table_okD(2) [OF ok get'] by (simp add: n')
next
  fix k' e'
  assume "0 < n' k' e'"
  then show "dict_get entries k' = Some e'"
    using table_okD(3) [OF ok, of k' e'] get by (auto simp: n' split: if_splits)
next
  fix k1 k2 e'
  assume "dict_get entries k1 = Some e'" "dict_get entries k2 = Some e'"
  then show "k1 = k2" by (rule table_okD(4) [OF ok])
qed

lemma table_ok_fresh:
  assumes ok: "table_ok entries leases n" and none: "dict_get entries k = None"
    and fresh: "\<And>k'. dict_get entries k' \<noteq> Some e"
    and n': "n' = (\<lambda>k' e'. n k' e' + (if k' = k \<and> e' = e then 1 else 0))" and l': "leases' = leases(e := 1)"
  shows "table_ok (dict_set k e entries) leases' n'"
proof (rule table_okI)
  fix k' e'
  have zero: "n k e = 0" using table_okD(3) [OF ok, of k e] none by auto
  assume get': "dict_get (dict_set k e entries) k' = Some e'"
  show "leases' e' = int (n' k' e')" "0 < n' k' e'"
    using get' zero table_okD(1,2) [OF ok, of k' e'] fresh [of k'] by (auto simp: n' l' split: if_splits)
next
  fix k' e'
  assume "0 < n' k' e'"
  then show "dict_get (dict_set k e entries) k' = Some e'"
    using table_okD(3) [OF ok, of k' e'] none by (auto simp: n' split: if_splits)
next
  fix k1 k2 e'
  assume "dict_get (dict_set k e entries) k1 = Some e'" "dict_get (dict_set k e entries) k2 = Some e'"
  then show "k1 = k2"
    using table_okD(4) [OF ok, of k1 e' k2] fresh [of k1] fresh [of k2] by (auto split: if_splits)
qed

lemma table_ok_leave:
  assumes ok: "table_ok entries leases n" and pos: "0 < n k e"
    and n': "n' = (\<lambda>k' e'. n k' e' - (if k' = k \<and> e' = e then 1 else 0))"
    and l': "leases' = leases(e := leases e - 1)"
  shows "table_ok (if leases' e = 0 then dict_del k entries else entries) leases' n'"
proof -
  have get: "dict_get entries k = Some e" using table_okD(3) [OF ok pos] .
  have l: "leases e = int (n k e)" using table_okD(1) [OF ok get] .
  have one: "leases' e = 0 \<longleftrightarrow> n k e = 1" using l pos by (auto simp: l')
  show ?thesis
  proof (rule table_okI)
    fix k' e'
    assume "dict_get (if leases' e = 0 then dict_del k entries else entries) k' = Some e'"
    then have get': "dict_get entries k' = Some e'" and k: "n k e = 1 \<Longrightarrow> k' \<noteq> k"
      unfolding one by (auto split: if_splits)
    have same: "e' = e \<Longrightarrow> k' = k" using table_okD(4) [OF ok get'] get by blast
    then have many: "e' = e \<Longrightarrow> 1 < n k e" using k pos by force
    show "leases' e' = int (n' k' e')" "0 < n' k' e'"
      using table_okD(1,2) [OF ok get'] same many by (auto simp: n' l')
  next
    fix k' e'
    assume less: "0 < n' k' e'"
    then have "0 < n k' e'" by (auto simp: n' split: if_splits)
    then have get': "dict_get entries k' = Some e'" by (rule table_okD(3) [OF ok])
    moreover have "n k e = 1 \<Longrightarrow> k' \<noteq> k" using less get get' by (auto simp: n')
    ultimately show "dict_get (if leases' e = 0 then dict_del k entries else entries) k' = Some e'"
      unfolding one by auto
  next
    fix k1 k2 e'
    assume "dict_get (if leases' e = 0 then dict_del k entries else entries) k1 = Some e'"
      "dict_get (if leases' e = 0 then dict_del k entries else entries) k2 = Some e'"
    then show "k1 = k2" using table_okD(4) [OF ok, of k1 e' k2] by (auto split: if_splits)
  qed
qed

text \<open>Counting the live uses in a list of records.\<close>

definition uses :: "('h \<Rightarrow> bool) \<Rightarrow> ('h \<Rightarrow> 'k) \<Rightarrow> ('h \<Rightarrow> nat) \<Rightarrow> 'h list \<Rightarrow> 'k \<Rightarrow> nat \<Rightarrow> nat" where
  "uses live key ent hs k e = length (filter (\<lambda>h. live h \<and> key h = k \<and> ent h = e) hs)"

lemma uses_append: "uses live key ent (hs @ [h]) k e =
    uses live key ent hs k e + (if live h \<and> key h = k \<and> ent h = e then 1 else 0)"
  by (simp add: uses_def)

lemma uses_update_same:
  assumes "i < length hs" "live h \<longleftrightarrow> live (hs ! i)" "key h = key (hs ! i)" "ent h = ent (hs ! i)"
  shows "uses live key ent (hs[i := h]) = uses live key ent hs"
  using length_filter_update [OF assms(1), of "\<lambda>h. live h \<and> key h = _ \<and> ent h = _" h] assms(2-4)
  by (simp add: uses_def fun_eq_iff)

lemma uses_update_end:
  assumes "i < length hs" "live (hs ! i)" "\<not> live h"
  shows "uses live key ent (hs[i := h]) =
    (\<lambda>k e. uses live key ent hs k e - (if k = key (hs ! i) \<and> e = ent (hs ! i) then 1 else 0))"
proof (intro ext)
  fix k e
  show "uses live key ent (hs[i := h]) k e =
    uses live key ent hs k e - (if k = key (hs ! i) \<and> e = ent (hs ! i) then 1 else 0)"
    using length_filter_update [OF assms(1), of "\<lambda>h. live h \<and> key h = k \<and> ent h = e" h] assms(2,3)
    by (auto simp: uses_def)
qed

lemma length_filter_pos: "i < length hs \<Longrightarrow> P (hs ! i) \<Longrightarrow> 0 < length (filter P hs)"
  using nth_mem [of i hs] by (auto simp: filter_empty_conv simp del: nth_mem)

lemma uses_pos: "i < length hs \<Longrightarrow> live (hs ! i) \<Longrightarrow> 0 < uses live key ent hs (key (hs ! i)) (ent (hs ! i))"
  unfolding uses_def by (rule length_filter_pos) simp_all

section \<open>\<open>KeyedLockManager\<close>\<close>

record lock_entry =
  le_locked :: bool
  le_leases :: int

datatype hold_phase = HoldWaiting | HoldLocked | HoldLeaving | HoldDone

record keyed_hold =
  h_key :: nat
  h_entry :: nat
  h_phase :: hold_phase

record keyed_lock_manager =
  kl_entries :: "(nat, nat) dict"
  kl_objs :: "lock_entry list"
  kl_holds :: "keyed_hold list"

definition kl_new :: keyed_lock_manager where
  "kl_new = \<lparr>kl_entries = [], kl_objs = [], kl_holds = []\<rparr>"

text \<open>\<open>hold\<close> up to its lock: find or create the entry and count the lease.\<close>

definition kl_enter :: "nat \<Rightarrow> keyed_lock_manager \<Rightarrow> keyed_lock_manager" where
  "kl_enter key s =
     (case dict_get (kl_entries s) key of
        None \<Rightarrow> s\<lparr>kl_objs := kl_objs s @ [\<lparr>le_locked = False, le_leases = 1\<rparr>],
                  kl_entries := dict_set key (length (kl_objs s)) (kl_entries s),
                  kl_holds := kl_holds s @ [\<lparr>h_key = key, h_entry = length (kl_objs s), h_phase = HoldWaiting\<rparr>]\<rparr>
      | Some e \<Rightarrow> s\<lparr>kl_objs := (kl_objs s)[e := (kl_objs s ! e)\<lparr>le_leases := le_leases (kl_objs s ! e) + 1\<rparr>],
                    kl_holds := kl_holds s @ [\<lparr>h_key = key, h_entry = e, h_phase = HoldWaiting\<rparr>]\<rparr>)"

definition set_phase :: "nat \<Rightarrow> hold_phase \<Rightarrow> keyed_lock_manager \<Rightarrow> keyed_lock_manager" where
  "set_phase i p s = s\<lparr>kl_holds := (kl_holds s)[i := (kl_holds s ! i)\<lparr>h_phase := p\<rparr>]\<rparr>"

definition set_locked :: "nat \<Rightarrow> bool \<Rightarrow> keyed_lock_manager \<Rightarrow> keyed_lock_manager" where
  "set_locked e b s = s\<lparr>kl_objs := (kl_objs s)[e := (kl_objs s ! e)\<lparr>le_locked := b\<rparr>]\<rparr>"

definition kl_lock :: "nat \<Rightarrow> keyed_lock_manager \<Rightarrow> keyed_lock_manager" where
  "kl_lock i s =
     (let h = kl_holds s ! i
      in if h_phase h = HoldWaiting \<and> \<not> le_locked (kl_objs s ! h_entry h)
         then set_phase i HoldLocked (set_locked (h_entry h) True s) else s)"

text \<open>The body ends and unlocks, or the wait for the lock is cancelled; the cleanup is next.\<close>

definition kl_leave :: "nat \<Rightarrow> keyed_lock_manager \<Rightarrow> keyed_lock_manager" where
  "kl_leave i s =
     (let h = kl_holds s ! i
      in if h_phase h = HoldLocked then set_phase i HoldLeaving (set_locked (h_entry h) False s)
         else if h_phase h = HoldWaiting then set_phase i HoldLeaving s else s)"

definition kl_release :: "nat \<Rightarrow> keyed_lock_manager \<Rightarrow> keyed_lock_manager" where
  "kl_release i s =
     (let h = kl_holds s ! i; e = h_entry h;
          s1 = set_phase i HoldDone
                 (s\<lparr>kl_objs := (kl_objs s)[e := (kl_objs s ! e)\<lparr>le_leases := le_leases (kl_objs s ! e) - 1\<rparr>]\<rparr>)
      in if h_phase h \<noteq> HoldLeaving then s
         else if le_leases (kl_objs s1 ! e) = 0 \<and> \<not> le_locked (kl_objs s1 ! e)
         then s1\<lparr>kl_entries := dict_del (h_key h) (kl_entries s1)\<rparr> else s1)"

inductive kl_step :: "keyed_lock_manager \<Rightarrow> keyed_lock_manager \<Rightarrow> bool" where
  kl_enter_step: "kl_step s (kl_enter key s)"
| kl_lock_step: "i < length (kl_holds s) \<Longrightarrow> kl_step s (kl_lock i s)"
| kl_leave_step: "i < length (kl_holds s) \<Longrightarrow> kl_step s (kl_leave i s)"
| kl_release_step: "i < length (kl_holds s) \<Longrightarrow> kl_step s (kl_release i s)"

abbreviation kl_reachable :: "keyed_lock_manager \<Rightarrow> bool" where
  "kl_reachable \<equiv> reachable (\<lambda>s. s = kl_new) kl_step"

abbreviation hold_live :: "keyed_hold \<Rightarrow> bool" where
  "hold_live h \<equiv> h_phase h \<noteq> HoldDone"

definition lockers :: "keyed_lock_manager \<Rightarrow> nat \<Rightarrow> nat" where
  "lockers s e = length (filter (\<lambda>h. h_phase h = HoldLocked \<and> h_entry h = e) (kl_holds s))"

definition kl_inv :: "keyed_lock_manager \<Rightarrow> bool" where
  "kl_inv s \<longleftrightarrow>
     table_ok (kl_entries s) (\<lambda>e. le_leases (kl_objs s ! e)) (uses hold_live h_key h_entry (kl_holds s)) \<and>
     (\<forall>h \<in> set (kl_holds s). h_entry h < length (kl_objs s)) \<and>
     (\<forall>e < length (kl_objs s). lockers s e = (if le_locked (kl_objs s ! e) then 1 else 0))"

lemma kl_invD:
  assumes "kl_inv s"
  shows "table_ok (kl_entries s) (\<lambda>e. le_leases (kl_objs s ! e)) (uses hold_live h_key h_entry (kl_holds s))"
    "h \<in> set (kl_holds s) \<Longrightarrow> h_entry h < length (kl_objs s)"
    "e < length (kl_objs s) \<Longrightarrow> lockers s e = (if le_locked (kl_objs s ! e) then 1 else 0)"
  using assms unfolding kl_inv_def by blast+

lemma kl_entry_bound: "kl_inv s \<Longrightarrow> dict_get (kl_entries s) k = Some e \<Longrightarrow> e < length (kl_objs s)"
proof -
  assume inv: "kl_inv s" and "dict_get (kl_entries s) k = Some e"
  then have "0 < uses hold_live h_key h_entry (kl_holds s) k e"
    using table_okD(2) [OF kl_invD(1)] by blast
  then have "filter (\<lambda>h. hold_live h \<and> h_key h = k \<and> h_entry h = e) (kl_holds s) \<noteq> []"
    by (simp add: uses_def)
  then obtain h where "h \<in> set (kl_holds s)" "h_entry h = e" by (auto simp: filter_empty_conv)
  then show ?thesis using kl_invD(2) [OF inv] by auto
qed

lemma lockers_append: "lockers (s\<lparr>kl_objs := os, kl_entries := d, kl_holds := kl_holds s @ [h]\<rparr>) e =
    lockers s e + (if h_phase h = HoldLocked \<and> h_entry h = e then 1 else 0)"
  by (simp add: lockers_def)

lemma kl_enter_inv:
  assumes inv: "kl_inv s"
  shows "kl_inv (kl_enter key s)"
proof (cases "dict_get (kl_entries s) key")
  case None
  define e where "e = length (kl_objs s)"
  define t where "t = kl_enter key s"
  have t: "kl_entries t = dict_set key e (kl_entries s)"
    "kl_objs t = kl_objs s @ [\<lparr>le_locked = False, le_leases = 1\<rparr>]"
    "kl_holds t = kl_holds s @ [\<lparr>h_key = key, h_entry = e, h_phase = HoldWaiting\<rparr>]"
    using None by (simp_all add: t_def kl_enter_def e_def)
  have unused: "dict_get (kl_entries s) k \<noteq> Some e" for k
    using kl_entry_bound [OF inv, of k e] by (auto simp: e_def)
  have "lockers s e = 0"
    using kl_invD(2) [OF inv] by (fastforce simp: lockers_def e_def filter_empty_conv)
  moreover have "lockers t = lockers s" by (simp add: lockers_def t fun_eq_iff)
  ultimately have locked: "\<forall>e' < length (kl_objs t). lockers t e' = (if le_locked (kl_objs t ! e') then 1 else 0)"
    using kl_invD(3) [OF inv] by (auto simp: t e_def nth_append less_Suc_eq)
  have "table_ok (kl_entries t) ((\<lambda>e. le_leases (kl_objs s ! e))(e := 1))
      (\<lambda>k' e'. uses hold_live h_key h_entry (kl_holds s) k' e' + (if k' = key \<and> e' = e then 1 else 0))"
    unfolding t by (rule table_ok_fresh [OF kl_invD(1) [OF inv] None unused]) simp_all
  moreover have "uses hold_live h_key h_entry (kl_holds t) =
      (\<lambda>k' e'. uses hold_live h_key h_entry (kl_holds s) k' e' + (if k' = key \<and> e' = e then 1 else 0))"
    by (auto simp: t uses_append fun_eq_iff)
  ultimately have tab: "table_ok (kl_entries t) ((\<lambda>e. le_leases (kl_objs s ! e))(e := 1))
      (uses hold_live h_key h_entry (kl_holds t))" by simp
  have "table_ok (kl_entries t) (\<lambda>e. le_leases (kl_objs t ! e)) (uses hold_live h_key h_entry (kl_holds t))"
  proof -
    have "le_leases (kl_objs t ! e') = ((\<lambda>e. le_leases (kl_objs s ! e))(e := 1)) e'"
      if "dict_get (kl_entries t) k = Some e'" for k e'
      using that kl_entry_bound [OF inv, of k e'] by (auto simp: t e_def nth_append split: if_splits)
    with tab show ?thesis unfolding table_ok_def by metis
  qed
  moreover have "\<forall>h \<in> set (kl_holds t). h_entry h < length (kl_objs t)"
    using kl_invD(2) [OF inv] by (auto simp: t e_def less_Suc_eq)
  ultimately show ?thesis using locked by (simp add: kl_inv_def t_def)
next
  case (Some e)
  define t where "t = kl_enter key s"
  have e: "e < length (kl_objs s)" using kl_entry_bound [OF inv Some] .
  have t: "kl_entries t = kl_entries s"
    "kl_objs t = (kl_objs s)[e := (kl_objs s ! e)\<lparr>le_leases := le_leases (kl_objs s ! e) + 1\<rparr>]"
    "kl_holds t = kl_holds s @ [\<lparr>h_key = key, h_entry = e, h_phase = HoldWaiting\<rparr>]"
    using Some by (simp_all add: t_def kl_enter_def)
  have "(\<lambda>x. le_leases (kl_objs t ! x)) = (\<lambda>x. le_leases (kl_objs s ! x))(e := le_leases (kl_objs s ! e) + 1)"
    using e by (auto simp: t fun_eq_iff nth_list_update)
  moreover have "uses hold_live h_key h_entry (kl_holds t) =
      (\<lambda>k' e'. uses hold_live h_key h_entry (kl_holds s) k' e' + (if k' = key \<and> e' = e then 1 else 0))"
    by (auto simp: t uses_append fun_eq_iff)
  ultimately have "table_ok (kl_entries t) (\<lambda>e. le_leases (kl_objs t ! e)) (uses hold_live h_key h_entry (kl_holds t))"
    using table_ok_join [OF kl_invD(1) [OF inv] Some] by (simp add: t(1))
  moreover have "lockers t = lockers s" by (simp add: lockers_def t fun_eq_iff)
  ultimately show ?thesis
    using kl_invD(2,3) [OF inv] e by (auto simp: kl_inv_def t_def [symmetric] t nth_list_update)
qed

lemma set_phase_fields [simp]:
  "kl_entries (set_phase i p s) = kl_entries s" "kl_objs (set_phase i p s) = kl_objs s"
  "kl_holds (set_phase i p s) = (kl_holds s)[i := (kl_holds s ! i)\<lparr>h_phase := p\<rparr>]"
  by (simp_all add: set_phase_def)

lemma set_locked_fields [simp]:
  "kl_entries (set_locked e b s) = kl_entries s" "kl_holds (set_locked e b s) = kl_holds s"
  "kl_objs (set_locked e b s) = (kl_objs s)[e := (kl_objs s ! e)\<lparr>le_locked := b\<rparr>]"
  by (simp_all add: set_locked_def)

lemma lockers_set_phase:
  assumes "i < length (kl_holds s)"
  shows "lockers (set_phase i p s) e +
      (if h_phase (kl_holds s ! i) = HoldLocked \<and> h_entry (kl_holds s ! i) = e then 1 else 0) =
    lockers s e + (if p = HoldLocked \<and> h_entry (kl_holds s ! i) = e then 1 else 0)"
  using length_filter_update [OF assms, of "\<lambda>h. h_phase h = HoldLocked \<and> h_entry h = e"
      "(kl_holds s ! i)\<lparr>h_phase := p\<rparr>"]
  by (simp add: lockers_def)

lemma lockers_set_locked [simp]: "lockers (set_locked e b s) = lockers s"
  by (simp add: lockers_def fun_eq_iff)

lemma holds_bound_update:
  "\<forall>h \<in> set hs. h_entry h < n \<Longrightarrow> i < length hs \<Longrightarrow> \<forall>h \<in> set (hs[i := (hs ! i)\<lparr>h_phase := p\<rparr>]). h_entry h < n"
  by (auto dest!: set_update_subset_insert [THEN subsetD])

text \<open>Locking and unlocking keep the table; only the phase of one hold and one lock change.\<close>

lemma kl_phase_inv:
  assumes inv: "kl_inv s" and i: "i < length (kl_holds s)"
    and e: "e = h_entry (kl_holds s ! i)"
    and live: "hold_live (kl_holds s ! i)" "p \<noteq> HoldDone"
    and t: "t = set_phase i p (set_locked e b s)"
    and b: "int (lockers s e) - (if h_phase (kl_holds s ! i) = HoldLocked then 1 else 0) +
      (if p = HoldLocked then 1 else 0) = (if b then 1 else 0)"
  shows "kl_inv t"
proof -
  have eb: "e < length (kl_objs s)" using kl_invD(2) [OF inv] i e by simp
  have leases: "le_leases (kl_objs t ! x) = le_leases (kl_objs s ! x)" for x
    using eb by (cases "x = e") (simp_all add: t)
  have "uses hold_live h_key h_entry (kl_holds t) = uses hold_live h_key h_entry (kl_holds s)"
    using uses_update_same [OF i, of hold_live "(kl_holds s ! i)\<lparr>h_phase := p\<rparr>" h_key h_entry] live
    by (simp add: t)
  then have "table_ok (kl_entries t) (\<lambda>e. le_leases (kl_objs t ! e)) (uses hold_live h_key h_entry (kl_holds t))"
    using kl_invD(1) [OF inv] by (simp add: leases) (simp add: t)
  moreover have "\<forall>h \<in> set (kl_holds t). h_entry h < length (kl_objs t)"
    using holds_bound_update [of "kl_holds s" "length (kl_objs s)" i p] kl_invD(2) [OF inv] i by (simp add: t)
  moreover have "lockers t x = (if le_locked (kl_objs t ! x) then 1 else 0)" if "x < length (kl_objs t)" for x
  proof (cases "x = e")
    case True
    then show ?thesis
      using lockers_set_phase [of i "set_locked e b s" p e] i e b eb
      by (auto simp: t split: if_splits)
  next
    case False
    then show ?thesis
      using lockers_set_phase [of i "set_locked e b s" p x] kl_invD(3) [OF inv, of x] i e that
      by (simp add: t)
  qed
  ultimately show ?thesis by (simp add: kl_inv_def)
qed

lemma kl_lock_inv:
  assumes inv: "kl_inv s" and i: "i < length (kl_holds s)"
  shows "kl_inv (kl_lock i s)"
proof (cases "h_phase (kl_holds s ! i) = HoldWaiting \<and> \<not> le_locked (kl_objs s ! h_entry (kl_holds s ! i))")
  case True
  then have "lockers s (h_entry (kl_holds s ! i)) = 0"
    using kl_invD(3) [OF inv, of "h_entry (kl_holds s ! i)"] kl_invD(2) [OF inv] i by simp
  with True show ?thesis
    by (intro kl_phase_inv [OF inv i, where p = HoldLocked and b = True])
      (simp_all add: kl_lock_def Let_def)
next
  case False
  with inv show ?thesis by (auto simp: kl_lock_def Let_def)
qed

lemma set_locked_same:
  "b = le_locked (kl_objs s ! e) \<Longrightarrow> set_locked e b s = s"
  by (simp add: set_locked_def)

lemma kl_leave_inv:
  assumes inv: "kl_inv s" and i: "i < length (kl_holds s)"
  shows "kl_inv (kl_leave i s)"
proof -
  define e where "e = h_entry (kl_holds s ! i)"
  have n: "lockers s e = (if le_locked (kl_objs s ! e) then 1 else 0)"
    using kl_invD(3) [OF inv] kl_invD(2) [OF inv] i by (simp add: e_def)
  consider "h_phase (kl_holds s ! i) = HoldLocked" | "h_phase (kl_holds s ! i) = HoldWaiting"
    | "h_phase (kl_holds s ! i) \<notin> {HoldLocked, HoldWaiting}" by blast
  then show ?thesis
  proof cases
    case 1
    have "0 < lockers s e"
      unfolding lockers_def using i 1 by (intro length_filter_pos [of i]) (simp_all add: e_def)
    then have "lockers s e = 1" using n by (simp split: if_splits)
    with 1 show ?thesis
      by (intro kl_phase_inv [OF inv i e_def, where p = HoldLeaving and b = False])
        (simp_all add: kl_leave_def Let_def e_def)
  next
    case 2
    with n show ?thesis
      by (intro kl_phase_inv [OF inv i e_def, where p = HoldLeaving and b = "le_locked (kl_objs s ! e)"])
        (simp_all add: kl_leave_def Let_def set_locked_same)
  next
    case 3
    with inv show ?thesis by (auto simp: kl_leave_def Let_def)
  qed
qed

lemma kl_release_inv:
  assumes inv: "kl_inv s" and i: "i < length (kl_holds s)"
  shows "kl_inv (kl_release i s)"
proof (cases "h_phase (kl_holds s ! i) = HoldLeaving")
  case True
  define k where "k = h_key (kl_holds s ! i)"
  define e where "e = h_entry (kl_holds s ! i)"
  define n where "n = uses hold_live h_key h_entry (kl_holds s)"
  define leases where "leases x = le_leases (kl_objs s ! x)" for x
  define leases' where "leases' = leases(e := leases e - 1)"
  define s1 where "s1 = set_phase i HoldDone
     (s\<lparr>kl_objs := (kl_objs s)[e := (kl_objs s ! e)\<lparr>le_leases := le_leases (kl_objs s ! e) - 1\<rparr>]\<rparr>)"
  have eb: "e < length (kl_objs s)" using kl_invD(2) [OF inv] i by (simp add: e_def)
  have ok: "table_ok (kl_entries s) leases n"
    using kl_invD(1) [OF inv] by (simp add: n_def leases_def [abs_def])
  have pos: "0 < n k e" unfolding n_def k_def e_def using i True by (intro uses_pos) simp_all
  have leases1: "(\<lambda>x. le_leases (kl_objs s1 ! x)) = leases'"
    using eb by (auto simp: s1_def leases'_def leases_def fun_eq_iff nth_list_update)
  have uses1: "uses hold_live h_key h_entry (kl_holds s1) =
      (\<lambda>k' e'. n k' e' - (if k' = k \<and> e' = e then 1 else 0))"
    using uses_update_end [OF i, of hold_live "(kl_holds s ! i)\<lparr>h_phase := HoldDone\<rparr>" h_key h_entry] True
    by (simp add: s1_def n_def k_def e_def)
  have lockers1: "lockers s1 = lockers s"
  proof
    fix x
    show "lockers s1 x = lockers s x"
      using length_filter_update [OF i, of "\<lambda>h. h_phase h = HoldLocked \<and> h_entry h = x"
          "(kl_holds s ! i)\<lparr>h_phase := HoldDone\<rparr>"] True
      by (simp add: lockers_def s1_def)
  qed
  have locked1: "le_locked (kl_objs s1 ! x) = le_locked (kl_objs s ! x)" for x
    using eb by (cases "x = e") (simp_all add: s1_def)
  have unlocked: "\<not> le_locked (kl_objs s1 ! e)" if zero: "leases' e = 0"
  proof
    assume "le_locked (kl_objs s1 ! e)"
    then have "lockers s e = 1" using kl_invD(3) [OF inv eb] locked1 by simp
    then have "filter (\<lambda>h. h_phase h = HoldLocked \<and> h_entry h = e) (kl_holds s) \<noteq> []"
      by (auto simp: lockers_def)
    then obtain j where j: "j < length (kl_holds s)" "h_phase (kl_holds s ! j) = HoldLocked"
      "h_entry (kl_holds s ! j) = e"
      by (auto simp: filter_empty_conv in_set_conv_nth)
    have "0 < n (h_key (kl_holds s ! j)) e"
      using uses_pos [of j "kl_holds s" hold_live h_key h_entry] j by (simp add: n_def)
    then have "h_key (kl_holds s ! j) = k"
      using table_okD(3) [OF ok] table_okD(4) [OF ok] pos by blast
    moreover have "n k e = 1" using zero table_okD(1) [OF ok table_okD(3) [OF ok pos]]
      by (simp add: leases'_def)
    ultimately have "uses hold_live h_key h_entry (kl_holds s1) k e = 0" using uses1 by simp
    moreover have "j \<noteq> i" using j(2) True by auto
    ultimately show False
      using uses_pos [of j "kl_holds s1" hold_live h_key h_entry] j \<open>h_key (kl_holds s ! j) = k\<close>
      by (simp add: s1_def)
  qed
  define d where "d = (if leases' e = 0 then dict_del k (kl_entries s) else kl_entries s)"
  have rel: "kl_release i s = s1\<lparr>kl_entries := d\<rparr>"
  proof -
    have "le_leases (kl_objs s1 ! e) = leases' e" using leases1 by (rule fun_cong)
    moreover have "kl_entries s1 = kl_entries s" by (simp add: s1_def)
    ultimately have "kl_release i s =
      (if leases' e = 0 \<and> \<not> le_locked (kl_objs s1 ! e) then s1\<lparr>kl_entries := dict_del k (kl_entries s)\<rparr> else s1)"
      unfolding kl_release_def Let_def e_def [symmetric] k_def [symmetric] s1_def [symmetric]
      using True by simp
    then show ?thesis using unlocked \<open>kl_entries s1 = kl_entries s\<close> by (auto simp: d_def)
  qed
  have tab: "table_ok d leases' (\<lambda>k' e'. n k' e' - (if k' = k \<and> e' = e then 1 else 0))"
    unfolding d_def by (rule table_ok_leave [OF ok pos refl leases'_def])
  have "\<forall>h \<in> set (kl_holds s1). h_entry h < length (kl_objs s1)"
    using holds_bound_update [of "kl_holds s" "length (kl_objs s)" i HoldDone] kl_invD(2) [OF inv] i
    by (simp add: s1_def)
  moreover have "lockers (s1\<lparr>kl_entries := d\<rparr>) = lockers s"
    unfolding lockers1 [symmetric] by (simp add: lockers_def fun_eq_iff)
  moreover have "length (kl_objs s1) = length (kl_objs s)" by (simp add: s1_def)
  ultimately show ?thesis
    unfolding rel kl_inv_def using tab kl_invD(3) [OF inv]
    by (simp add: leases1 uses1 locked1)
next
  case False
  with inv show ?thesis by (simp add: kl_release_def Let_def)
qed

lemma kl_step_inv: "kl_inv s \<Longrightarrow> kl_step s t \<Longrightarrow> kl_inv t"
  by (erule kl_step.cases) (simp_all add: kl_enter_inv kl_lock_inv kl_leave_inv kl_release_inv)

interpretation keyed_locks: inductive_invariant "\<lambda>s. s = kl_new" kl_step kl_inv
proof
  fix s t
  show "s = kl_new \<Longrightarrow> kl_inv s"
    by (simp add: kl_inv_def kl_new_def table_ok_def uses_def)
  show "kl_inv s \<Longrightarrow> kl_step s t \<Longrightarrow> kl_inv t" by (rule kl_step_inv)
qed

text \<open>
  A keyed lock is held by one user at a time, and the table neither splits nor leaks: in
  every reachable state two users inside \<open>hold\<close> of the same key are the same user, users of
  one key share one entry however entries are evicted in between, and the table has an
  entry for a key exactly while somebody uses it.
\<close>

theorem keyed_lock_exclusion:
  assumes "kl_reachable s"
  shows "(\<forall>i < length (kl_holds s). \<forall>j < length (kl_holds s).
      h_phase (kl_holds s ! i) = HoldLocked \<and> h_phase (kl_holds s ! j) = HoldLocked \<and>
      h_key (kl_holds s ! i) = h_key (kl_holds s ! j) \<longrightarrow> i = j) \<and>
    (\<forall>k. k \<in> set (dict_keys (kl_entries s)) \<longleftrightarrow>
      (\<exists>h \<in> set (kl_holds s). h_phase h \<noteq> HoldDone \<and> h_key h = k))"
proof
  have inv: "kl_inv s" using keyed_locks.inv_reachable [OF assms] .
  note ok = kl_invD(1) [OF inv]
  have entry: "dict_get (kl_entries s) (h_key (kl_holds s ! i)) = Some (h_entry (kl_holds s ! i))"
    if "i < length (kl_holds s)" "hold_live (kl_holds s ! i)" for i
    using table_okD(3) [OF ok uses_pos [of i "kl_holds s" hold_live h_key h_entry, OF that]] .
  show "\<forall>i < length (kl_holds s). \<forall>j < length (kl_holds s).
      h_phase (kl_holds s ! i) = HoldLocked \<and> h_phase (kl_holds s ! j) = HoldLocked \<and>
      h_key (kl_holds s ! i) = h_key (kl_holds s ! j) \<longrightarrow> i = j"
  proof (intro allI impI, rule ccontr)
    fix i j
    assume i: "i < length (kl_holds s)" and j: "j < length (kl_holds s)" and ne: "i \<noteq> j"
      and ph: "h_phase (kl_holds s ! i) = HoldLocked \<and> h_phase (kl_holds s ! j) = HoldLocked \<and>
        h_key (kl_holds s ! i) = h_key (kl_holds s ! j)"
    define e where "e = h_entry (kl_holds s ! i)"
    have ej: "h_entry (kl_holds s ! j) = e" using entry [OF i] entry [OF j] ph by (simp add: e_def)
    define P where "P h \<longleftrightarrow> h_phase h = HoldLocked \<and> h_entry h = e" for h :: keyed_hold
    have "length (filter P ((kl_holds s)[i := (kl_holds s ! i)\<lparr>h_phase := HoldDone\<rparr>])) + 1 =
      length (filter P (kl_holds s))"
      using length_filter_update [OF i, of P "(kl_holds s ! i)\<lparr>h_phase := HoldDone\<rparr>"] ph
      by (simp add: P_def e_def)
    moreover have "0 < length (filter P ((kl_holds s)[i := (kl_holds s ! i)\<lparr>h_phase := HoldDone\<rparr>]))"
      using j ne ph ej by (intro length_filter_pos [of j]) (simp_all add: P_def)
    moreover have "length (filter P (kl_holds s)) \<le> 1"
    proof -
      have "e < length (kl_objs s)" using kl_invD(2) [OF inv] i by (simp add: e_def)
      from kl_invD(3) [OF inv this] show ?thesis by (simp add: lockers_def P_def [abs_def])
    qed
    ultimately show False by linarith
  qed
  show "\<forall>k. k \<in> set (dict_keys (kl_entries s)) \<longleftrightarrow>
      (\<exists>h \<in> set (kl_holds s). h_phase h \<noteq> HoldDone \<and> h_key h = k)"
  proof
    fix k
    show "k \<in> set (dict_keys (kl_entries s)) \<longleftrightarrow> (\<exists>h \<in> set (kl_holds s). h_phase h \<noteq> HoldDone \<and> h_key h = k)"
    proof
      assume "k \<in> set (dict_keys (kl_entries s))"
      then obtain e where "dict_get (kl_entries s) k = Some e" by (auto simp: dict_keys_iff)
      from table_okD(2) [OF ok this]
      show "\<exists>h \<in> set (kl_holds s). h_phase h \<noteq> HoldDone \<and> h_key h = k"
        by (auto simp: uses_def filter_empty_conv)
    next
      assume "\<exists>h \<in> set (kl_holds s). h_phase h \<noteq> HoldDone \<and> h_key h = k"
      then obtain i where "i < length (kl_holds s)" "hold_live (kl_holds s ! i)" "h_key (kl_holds s ! i) = k"
        by (auto simp: in_set_conv_nth)
      then show "k \<in> set (dict_keys (kl_entries s))" using entry [of i] by (simp add: dict_keys_iff)
    qed
  qed
qed

definition kl_demo :: keyed_lock_manager where
  "kl_demo = kl_lock 0 (kl_enter 5 (kl_enter 5 kl_new))"

lemma kl_demo_reachable: "kl_reachable kl_demo"
proof -
  have "kl_reachable kl_new" by (rule reach_start) simp
  then have "kl_reachable (kl_enter 5 kl_new)" by (rule reach_step) (rule kl_enter_step)
  then have 1: "kl_reachable (kl_enter 5 (kl_enter 5 kl_new))"
    by (rule reach_step) (rule kl_enter_step)
  show ?thesis
    unfolding kl_demo_def by (rule reach_step [OF 1], rule kl_lock_step) (simp add: kl_enter_def kl_new_def)
qed

theorem keyed_lock_exclusion_witness:
  "h_phase (kl_holds kl_demo ! 0) = HoldLocked \<and> h_phase (kl_holds kl_demo ! 1) = HoldWaiting \<and>
   (5 \<in> set (dict_keys (kl_entries kl_demo)) \<longleftrightarrow>
      (\<exists>h \<in> set (kl_holds kl_demo). h_phase h \<noteq> HoldDone \<and> h_key h = 5))"
proof -
  have "h_phase (kl_holds kl_demo ! 0) = HoldLocked" "h_phase (kl_holds kl_demo ! 1) = HoldWaiting"
    by (simp_all add: kl_demo_def kl_lock_def kl_enter_def kl_new_def set_phase_def set_locked_def)
  then show ?thesis using keyed_lock_exclusion [OF kl_demo_reachable] by blast
qed

end
