(* ===== verification/Keyed_Admission.thy ===== *)
theory Keyed_Admission
  imports Keyed_Entries
begin

text \<open>
  \<open>admission.py\<close>: the lease-counted pool of per-key semaphores (\<open>_KeyedPool\<close>), \<open>KeyedAdmission\<close>
  (one global semaphore behind the keyed one) and \<open>KeyedDirectionalAdmission\<close> (one global
  semaphore per direction). The two classes run the same code once the global semaphore is
  chosen, so the state has a dictionary of global semaphores; \<open>KeyedAdmission\<close> has a single one.

  A semaphore is its counter, an acquisition is enabled when the counter is positive. A call of
  \<open>acquire\<close> is a record with its phase: waiting for the keyed semaphore, waiting for the global
  one, both acquired but not yet handed over, owned by an \<open>AdmissionLease\<close>, or closed. The
  timeout and a cancellation may strike in each of the first three phases. Timeouts in
  seconds are integers here: the code only compares them with zero.
\<close>

datatype admission_error = AdmissionTimeoutError | AdmissionValueError string

datatype admission_phase = WaitKeyed | WaitGlobal | BothAcquired | Owned | Closed

record admission_entry =
  ae_semaphore :: int
  ae_leases :: int

record ('k, 'd) admission_call =
  c_key :: 'k
  c_entry :: nat
  c_gate :: 'd
  c_phase :: admission_phase

record ('k, 'd) admission =
  ad_capacity :: int
  ad_entries :: "('k, nat) dict"
  ad_objs :: "admission_entry list"
  ad_gates :: "('d, int) dict"
  ad_calls :: "('k, 'd) admission_call list"

definition ad_entry_count :: "('k, 'd) admission \<Rightarrow> nat" where
  "ad_entry_count s = length (ad_entries s)"

definition pool_lease :: "'k \<Rightarrow> ('k, 'd) admission \<Rightarrow> nat \<times> ('k, 'd) admission" where
  "pool_lease key s =
     (let (e, s1) = (case dict_get (ad_entries s) key of
            Some e \<Rightarrow> (e, s)
          | None \<Rightarrow> (length (ad_objs s),
              s\<lparr>ad_objs := ad_objs s @ [\<lparr>ae_semaphore = ad_capacity s, ae_leases = 0\<rparr>],
                ad_entries := dict_set key (length (ad_objs s)) (ad_entries s)\<rparr>))
      in (e, s1\<lparr>ad_objs := (ad_objs s1)[e := (ad_objs s1 ! e)\<lparr>ae_leases := ae_leases (ad_objs s1 ! e) + 1\<rparr>]\<rparr>))"

definition pool_release :: "'k \<Rightarrow> nat \<Rightarrow> ('k, 'd) admission \<Rightarrow> ('k, 'd) admission" where
  "pool_release key e s =
     (let s1 = s\<lparr>ad_objs := (ad_objs s)[e := (ad_objs s ! e)\<lparr>ae_leases := ae_leases (ad_objs s ! e) - 1\<rparr>]\<rparr>
      in if ae_leases (ad_objs s1 ! e) = 0 \<and> dict_get (ad_entries s1) key = Some e
         then s1\<lparr>ad_entries := dict_del key (ad_entries s1)\<rparr> else s1)"

definition add_semaphore :: "nat \<Rightarrow> int \<Rightarrow> ('k, 'd) admission \<Rightarrow> ('k, 'd) admission" where
  "add_semaphore e n s =
     s\<lparr>ad_objs := (ad_objs s)[e := (ad_objs s ! e)\<lparr>ae_semaphore := ae_semaphore (ad_objs s ! e) + n\<rparr>]\<rparr>"

definition add_gate :: "'d \<Rightarrow> int \<Rightarrow> ('k, 'd) admission \<Rightarrow> ('k, 'd) admission" where
  "add_gate d n s = s\<lparr>ad_gates := dict_set d (dict_get_default (ad_gates s) d 0 + n) (ad_gates s)\<rparr>"

definition set_call_phase :: "nat \<Rightarrow> admission_phase \<Rightarrow> ('k, 'd) admission \<Rightarrow> ('k, 'd) admission" where
  "set_call_phase i p s = s\<lparr>ad_calls := (ad_calls s)[i := (ad_calls s ! i)\<lparr>c_phase := p\<rparr>]\<rparr>"

text \<open>The constructors, with their argument checks in order.\<close>

definition ka_new :: "int \<Rightarrow> int \<Rightarrow> int \<Rightarrow> admission_error + ('k, unit) admission" where
  "ka_new global_limit per_key_limit timeout_seconds =
     (if global_limit < 1 \<or> per_key_limit < 1
        then Inl (AdmissionValueError ''admission limits must be positive'')
      else if per_key_limit > global_limit
        then Inl (AdmissionValueError ''per-key admission limit cannot exceed the global limit'')
      else if timeout_seconds \<le> 0 then Inl (AdmissionValueError ''admission timeout must be positive'')
      else Inr \<lparr>ad_capacity = per_key_limit, ad_entries = [], ad_objs = [],
                ad_gates = [((), global_limit)], ad_calls = []\<rparr>)"

definition kd_new :: "(string, int) dict \<Rightarrow> int \<Rightarrow> int \<Rightarrow> admission_error + ('k, string) admission" where
  "kd_new direction_limits per_key_limit timeout_seconds =
     (if direction_limits = [] \<or> (\<exists>limit \<in> set (dict_values direction_limits). limit < 1)
        then Inl (AdmissionValueError ''direction admission limits must be positive'')
      else if per_key_limit < 1
        then Inl (AdmissionValueError ''per-key admission limit must be positive'')
      else if timeout_seconds \<le> 0 then Inl (AdmissionValueError ''admission timeout must be positive'')
      else Inr \<lparr>ad_capacity = per_key_limit, ad_entries = [], ad_objs = [],
                ad_gates = direction_limits, ad_calls = []\<rparr>)"

text \<open>\<open>acquire\<close> up to the first await: the unknown direction, else a leased entry.\<close>

definition ad_acquire :: "'k \<Rightarrow> 'd \<Rightarrow> ('k, 'd) admission \<Rightarrow> admission_error + ('k, 'd) admission" where
  "ad_acquire key d s =
     (case dict_get (ad_gates s) d of
        None \<Rightarrow> Inl (AdmissionValueError ''unknown admission direction'')
      | Some _ \<Rightarrow>
          (let (e, s1) = pool_lease key s
           in Inr (s1\<lparr>ad_calls := ad_calls s1 @ [\<lparr>c_key = key, c_entry = e, c_gate = d, c_phase = WaitKeyed\<rparr>]\<rparr>)))"

definition ad_acquire_keyed :: "nat \<Rightarrow> ('k, 'd) admission \<Rightarrow> ('k, 'd) admission" where
  "ad_acquire_keyed i s =
     (let c = ad_calls s ! i
      in if c_phase c = WaitKeyed \<and> 0 < ae_semaphore (ad_objs s ! c_entry c)
         then set_call_phase i WaitGlobal (add_semaphore (c_entry c) (-1) s) else s)"

definition ad_acquire_global :: "nat \<Rightarrow> ('k, 'd) admission \<Rightarrow> ('k, 'd) admission" where
  "ad_acquire_global i s =
     (let c = ad_calls s ! i
      in if c_phase c = WaitGlobal \<and> 0 < dict_get_default (ad_gates s) (c_gate c) 0
         then set_call_phase i BothAcquired (add_gate (c_gate c) (-1) s) else s)"

definition ad_transfer :: "nat \<Rightarrow> ('k, 'd) admission \<Rightarrow> ('k, 'd) admission" where
  "ad_transfer i s = (if c_phase (ad_calls s ! i) = BothAcquired then set_call_phase i Owned s else s)"

text \<open>The \<open>finally\<close> block of an \<open>acquire\<close> that timed out or was cancelled.\<close>

definition ad_abandon :: "nat \<Rightarrow> ('k, 'd) admission \<Rightarrow> ('k, 'd) admission" where
  "ad_abandon i s =
     (let c = ad_calls s ! i;
          s1 = (if c_phase c = BothAcquired then add_gate (c_gate c) 1 s else s);
          s2 = (if c_phase c = WaitGlobal \<or> c_phase c = BothAcquired then add_semaphore (c_entry c) 1 s1 else s1)
      in if c_phase c = Owned \<or> c_phase c = Closed then s
         else set_call_phase i Closed (pool_release (c_key c) (c_entry c) s2))"

definition ad_release_capacity :: "nat \<Rightarrow> ('k, 'd) admission \<Rightarrow> ('k, 'd) admission" where
  "ad_release_capacity i s =
     (let c = ad_calls s ! i
      in pool_release (c_key c) (c_entry c) (add_semaphore (c_entry c) 1 (add_gate (c_gate c) 1 s)))"

definition ad_aclose :: "nat \<Rightarrow> ('k, 'd) admission \<Rightarrow> ('k, 'd) admission" where
  "ad_aclose i s =
     (if c_phase (ad_calls s ! i) = Owned then set_call_phase i Closed (ad_release_capacity i s) else s)"

inductive ad_step :: "('k, 'd) admission \<Rightarrow> ('k, 'd) admission \<Rightarrow> bool" where
  ad_acquire_step: "ad_acquire key d s = Inr t \<Longrightarrow> ad_step s t"
| ad_keyed_step: "i < length (ad_calls s) \<Longrightarrow> ad_step s (ad_acquire_keyed i s)"
| ad_global_step: "i < length (ad_calls s) \<Longrightarrow> ad_step s (ad_acquire_global i s)"
| ad_transfer_step: "i < length (ad_calls s) \<Longrightarrow> ad_step s (ad_transfer i s)"
| ad_abandon_step: "i < length (ad_calls s) \<Longrightarrow> ad_step s (ad_abandon i s)"
| ad_aclose_step: "i < length (ad_calls s) \<Longrightarrow> ad_step s (ad_aclose i s)"

abbreviation ka_reachable :: "int \<Rightarrow> int \<Rightarrow> ('k, unit) admission \<Rightarrow> bool" where
  "ka_reachable global_limit per_key_limit \<equiv>
     reachable (\<lambda>s. \<exists>t. ka_new global_limit per_key_limit t = Inr s) ad_step"

abbreviation kd_reachable :: "(string, int) dict \<Rightarrow> int \<Rightarrow> ('k, string) admission \<Rightarrow> bool" where
  "kd_reachable direction_limits per_key_limit \<equiv>
     reachable (\<lambda>s. \<exists>t. kd_new direction_limits per_key_limit t = Inr s) ad_step"

text \<open>Which phases hold a keyed and which a global permit.\<close>

definition holds_keyed :: "admission_phase \<Rightarrow> bool" where
  "holds_keyed p \<longleftrightarrow> p = WaitGlobal \<or> p = BothAcquired \<or> p = Owned"

definition holds_global :: "admission_phase \<Rightarrow> bool" where
  "holds_global p \<longleftrightarrow> p = BothAcquired \<or> p = Owned"

definition keyed_permits :: "('k, 'd) admission \<Rightarrow> nat \<Rightarrow> int" where
  "keyed_permits s e = int (length (filter (\<lambda>c. holds_keyed (c_phase c) \<and> c_entry c = e) (ad_calls s)))"

definition global_permits :: "('k, 'd) admission \<Rightarrow> 'd \<Rightarrow> int" where
  "global_permits s d = int (length (filter (\<lambda>c. holds_global (c_phase c) \<and> c_gate c = d) (ad_calls s)))"

abbreviation call_live :: "('k, 'd) admission_call \<Rightarrow> bool" where
  "call_live c \<equiv> c_phase c \<noteq> Closed"

definition ad_inv :: "('d, int) dict \<Rightarrow> int \<Rightarrow> ('k, 'd) admission \<Rightarrow> bool" where
  "ad_inv limits cap s \<longleftrightarrow>
     ad_capacity s = cap \<and> dict_wf (ad_entries s) \<and>
     table_ok (ad_entries s) (\<lambda>e. ae_leases (ad_objs s ! e)) (uses call_live c_key c_entry (ad_calls s)) \<and>
     (\<forall>c \<in> set (ad_calls s). c_entry c < length (ad_objs s) \<and> dict_get limits (c_gate c) \<noteq> None) \<and>
     (\<forall>e < length (ad_objs s). ae_semaphore (ad_objs s ! e) = cap - keyed_permits s e \<and>
        0 \<le> ae_semaphore (ad_objs s ! e)) \<and>
     (\<forall>d. dict_get (ad_gates s) d = map_option (\<lambda>l. l - global_permits s d) (dict_get limits d)) \<and>
     (\<forall>d v. dict_get (ad_gates s) d = Some v \<longrightarrow> 0 \<le> v)"


subsection \<open>The invariant\<close>

lemma ad_invD:
  assumes "ad_inv limits cap s"
  shows "ad_capacity s = cap" "dict_wf (ad_entries s)"
    "table_ok (ad_entries s) (\<lambda>e. ae_leases (ad_objs s ! e)) (uses call_live c_key c_entry (ad_calls s))"
    "c \<in> set (ad_calls s) \<Longrightarrow> c_entry c < length (ad_objs s)"
    "c \<in> set (ad_calls s) \<Longrightarrow> dict_get limits (c_gate c) \<noteq> None"
    "e < length (ad_objs s) \<Longrightarrow> ae_semaphore (ad_objs s ! e) = cap - keyed_permits s e"
    "e < length (ad_objs s) \<Longrightarrow> 0 \<le> ae_semaphore (ad_objs s ! e)"
    "dict_get (ad_gates s) d = map_option (\<lambda>l. l - global_permits s d) (dict_get limits d)"
    "dict_get (ad_gates s) d = Some v \<Longrightarrow> 0 \<le> v"
  using assms unfolding ad_inv_def by blast+

lemma ad_invI:
  assumes "ad_capacity s = cap" "dict_wf (ad_entries s)"
    "table_ok (ad_entries s) (\<lambda>e. ae_leases (ad_objs s ! e)) (uses call_live c_key c_entry (ad_calls s))"
    "\<And>c. c \<in> set (ad_calls s) \<Longrightarrow> c_entry c < length (ad_objs s) \<and> dict_get limits (c_gate c) \<noteq> None"
    "\<And>e. e < length (ad_objs s) \<Longrightarrow> ae_semaphore (ad_objs s ! e) = cap - keyed_permits s e \<and>
      0 \<le> ae_semaphore (ad_objs s ! e)"
    "\<And>d. dict_get (ad_gates s) d = map_option (\<lambda>l. l - global_permits s d) (dict_get limits d)"
    "\<And>d v. dict_get (ad_gates s) d = Some v \<Longrightarrow> 0 \<le> v"
  shows "ad_inv limits cap s"
  using assms unfolding ad_inv_def by blast

lemma dict_set_same: "dict_get d k = Some v \<Longrightarrow> dict_set k v d = d"
  by (induction d) (auto simp: dict_set_def dict_get_def split: if_splits)

lemma add_semaphore_zero [simp]: "add_semaphore e 0 s = s"
  by (simp add: add_semaphore_def)

lemma add_gate_zero: "dict_get (ad_gates s) d \<noteq> None \<Longrightarrow> add_gate d 0 s = s"
  by (auto simp: add_gate_def dict_get_default_def dict_set_same)

lemma ad_calls_update:
  assumes "c \<in> set ((ad_calls s)[i := (ad_calls s ! i)\<lparr>c_phase := p\<rparr>])" "i < length (ad_calls s)"
  obtains c' where "c' \<in> set (ad_calls s)" "c_entry c = c_entry c'" "c_gate c = c_gate c'"
proof -
  consider "c = (ad_calls s ! i)\<lparr>c_phase := p\<rparr>" | "c \<in> set (ad_calls s)"
    using assms(1) set_update_subset_insert [of "ad_calls s" i "(ad_calls s ! i)\<lparr>c_phase := p\<rparr>"] by auto
  then show ?thesis
  proof cases
    case 1
    then show ?thesis using that [of "ad_calls s ! i"] assms(2) by simp
  next
    case 2
    then show ?thesis using that [of c] by simp
  qed
qed

text \<open>How the permits change when call \<open>i\<close> goes from one phase to another.\<close>

lemma permits_update:
  fixes s :: "('k, 'd) admission"
  assumes "i < length (ad_calls s)" "ad_calls t = (ad_calls s)[i := (ad_calls s ! i)\<lparr>c_phase := p\<rparr>]"
  shows "keyed_permits t e = keyed_permits s e +
      (if c_entry (ad_calls s ! i) = e then of_bool (holds_keyed p) - of_bool (holds_keyed (c_phase (ad_calls s ! i))) else 0)"
    and "global_permits t d = global_permits s d +
      (if c_gate (ad_calls s ! i) = d then of_bool (holds_global p) - of_bool (holds_global (c_phase (ad_calls s ! i))) else 0)"
  using length_filter_update [OF assms(1), of "\<lambda>c. holds_keyed (c_phase c) \<and> c_entry c = e"
      "(ad_calls s ! i)\<lparr>c_phase := p\<rparr>"]
    length_filter_update [OF assms(1), of "\<lambda>c. holds_global (c_phase c) \<and> c_gate c = d"
      "(ad_calls s ! i)\<lparr>c_phase := p\<rparr>"]
  by (auto simp: keyed_permits_def global_permits_def assms(2) split: if_splits)

lemma ad_move_inv:
  fixes s :: "('k, 'd) admission"
  assumes inv: "ad_inv limits cap s" and i: "i < length (ad_calls s)" and c: "c = ad_calls s ! i"
    and live: "c_phase c \<noteq> Closed" "p \<noteq> Closed"
    and a: "a = of_bool (holds_keyed (c_phase c)) - of_bool (holds_keyed p)"
    and b: "b = of_bool (holds_global (c_phase c)) - of_bool (holds_global p)"
    and sem: "0 \<le> ae_semaphore (ad_objs s ! c_entry c) + a"
    and gate: "0 \<le> dict_get_default (ad_gates s) (c_gate c) 0 + b"
    and t: "t = set_call_phase i p (add_semaphore (c_entry c) a (add_gate (c_gate c) b s))"
  shows "ad_inv limits cap t"
proof (rule ad_invI)
  have eb: "c_entry c < length (ad_objs s)" using ad_invD(4) [OF inv] i c by simp
  have calls: "ad_calls t = (ad_calls s)[i := (ad_calls s ! i)\<lparr>c_phase := p\<rparr>]"
    by (simp add: t set_call_phase_def add_semaphore_def add_gate_def)
  have objs: "ad_objs t = (ad_objs s)[c_entry c := (ad_objs s ! c_entry c)\<lparr>ae_semaphore := ae_semaphore (ad_objs s ! c_entry c) + a\<rparr>]"
    by (simp add: t set_call_phase_def add_semaphore_def add_gate_def)
  have rest: "ad_entries t = ad_entries s" "ad_capacity t = ad_capacity s"
    "ad_gates t = dict_set (c_gate c) (dict_get_default (ad_gates s) (c_gate c) 0 + b) (ad_gates s)"
    by (simp_all add: t set_call_phase_def add_semaphore_def add_gate_def)
  show "ad_capacity t = cap" "dict_wf (ad_entries t)" using ad_invD(1,2) [OF inv] by (simp_all add: rest)
  have "ae_leases (ad_objs t ! x) = ae_leases (ad_objs s ! x)" for x
    using eb by (cases "x = c_entry c") (simp_all add: objs)
  moreover have "uses call_live c_key c_entry (ad_calls t) = uses call_live c_key c_entry (ad_calls s)"
    using uses_update_same [OF i, of call_live "(ad_calls s ! i)\<lparr>c_phase := p\<rparr>" c_key c_entry] live c
    by (simp add: calls)
  ultimately show "table_ok (ad_entries t) (\<lambda>e. ae_leases (ad_objs t ! e)) (uses call_live c_key c_entry (ad_calls t))"
    using ad_invD(3) [OF inv] by (simp add: rest)
  show "x \<in> set (ad_calls t) \<Longrightarrow> c_entry x < length (ad_objs t) \<and> dict_get limits (c_gate x) \<noteq> None" for x
    unfolding calls by (erule ad_calls_update [OF _ i]) (use ad_invD(4,5) [OF inv] in \<open>simp add: objs\<close>)
  show "ae_semaphore (ad_objs t ! e) = cap - keyed_permits t e \<and> 0 \<le> ae_semaphore (ad_objs t ! e)"
    if "e < length (ad_objs t)" for e
    using that ad_invD(6,7) [OF inv, of e] permits_update(1) [OF i calls, of e] sem a c
    by (cases "e = c_entry c") (simp_all add: objs)
  have some: "dict_get (ad_gates s) (c_gate c) = Some v \<Longrightarrow> dict_get_default (ad_gates s) (c_gate c) 0 = v" for v
    by (simp add: dict_get_default_def)
  show "dict_get (ad_gates t) d = map_option (\<lambda>l. l - global_permits t d) (dict_get limits d)" for d
  proof (cases "d = c_gate c")
    case True
    moreover obtain l where "dict_get limits (c_gate c) = Some l" using ad_invD(5) [OF inv] i c by fastforce
    ultimately show ?thesis
      using ad_invD(8) [OF inv, of d] some permits_update(2) [OF i calls, of d] b c by (simp add: rest)
  next
    case False
    then show ?thesis using ad_invD(8) [OF inv, of d] permits_update(2) [OF i calls, of d] c by (simp add: rest)
  qed
  show "dict_get (ad_gates t) d = Some v \<Longrightarrow> 0 \<le> v" for d v
    using ad_invD(9) [OF inv, of d v] gate by (auto simp: rest split: if_splits)
qed

lemma ad_gate_known: "ad_inv limits cap s \<Longrightarrow> i < length (ad_calls s) \<Longrightarrow>
    \<exists>v. dict_get (ad_gates s) (c_gate (ad_calls s ! i)) = Some v \<and> 0 \<le> v"
  using ad_invD(5) [of limits cap s "ad_calls s ! i"] ad_invD(8,9) [of limits cap s] by fastforce

lemma ad_sem_known: "ad_inv limits cap s \<Longrightarrow> i < length (ad_calls s) \<Longrightarrow>
    0 \<le> ae_semaphore (ad_objs s ! c_entry (ad_calls s ! i))"
  using ad_invD(4,7) [of limits cap s] by simp

lemmas phase_holds = holds_keyed_def holds_global_def

lemma ad_acquire_keyed_inv:
  assumes inv: "ad_inv limits cap s" and i: "i < length (ad_calls s)"
  shows "ad_inv limits cap (ad_acquire_keyed i s)"
proof (cases "c_phase (ad_calls s ! i) = WaitKeyed \<and> 0 < ae_semaphore (ad_objs s ! c_entry (ad_calls s ! i))")
  case True
  then show ?thesis
    using ad_gate_known [OF inv i]
    by (intro ad_move_inv [OF inv i refl, where p = WaitGlobal and a = "-1" and b = 0])
      (auto simp: ad_acquire_keyed_def Let_def phase_holds add_gate_zero dict_get_default_def)
next
  case False
  with inv show ?thesis by (auto simp: ad_acquire_keyed_def Let_def)
qed

lemma ad_acquire_global_inv:
  assumes inv: "ad_inv limits cap s" and i: "i < length (ad_calls s)"
  shows "ad_inv limits cap (ad_acquire_global i s)"
proof (cases "c_phase (ad_calls s ! i) = WaitGlobal \<and> 0 < dict_get_default (ad_gates s) (c_gate (ad_calls s ! i)) 0")
  case True
  then show ?thesis
    using ad_sem_known [OF inv i]
    by (intro ad_move_inv [OF inv i refl, where p = BothAcquired and a = 0 and b = "-1"])
      (auto simp: ad_acquire_global_def Let_def phase_holds)
next
  case False
  with inv show ?thesis by (auto simp: ad_acquire_global_def Let_def)
qed

lemma ad_transfer_inv:
  assumes inv: "ad_inv limits cap s" and i: "i < length (ad_calls s)"
  shows "ad_inv limits cap (ad_transfer i s)"
proof (cases "c_phase (ad_calls s ! i) = BothAcquired")
  case True
  then show ?thesis
    using ad_gate_known [OF inv i] ad_sem_known [OF inv i]
    by (intro ad_move_inv [OF inv i refl, where p = Owned and a = 0 and b = 0])
      (auto simp: ad_transfer_def phase_holds add_gate_zero dict_get_default_def)
next
  case False
  with inv show ?thesis by (simp add: ad_transfer_def)
qed


lemma table_ok_cong:
  assumes "table_ok entries leases n" "\<And>k e. dict_get entries k = Some e \<Longrightarrow> leases' e = leases e"
  shows "table_ok entries leases' n"
proof (rule table_okI)
  show "dict_get entries k = Some e \<Longrightarrow> leases' e = int (n k e)" for k e
    using table_okD(1) [OF assms(1), of k e] assms(2) [of k e] by simp
qed (use table_okD(2-4) [OF assms(1)] in blast)+

lemma ad_pool_release_inv:
  fixes s :: "('k, 'd) admission"
  assumes inv: "ad_inv limits cap s" and i: "i < length (ad_calls s)" and c: "c = ad_calls s ! i"
    and phase: "c_phase c = WaitKeyed"
    and t: "t = set_call_phase i Closed (pool_release (c_key c) (c_entry c) s)"
  shows "ad_inv limits cap t"
proof (rule ad_invI)
  define e where "e = c_entry c"
  define k where "k = c_key c"
  define n where "n = uses call_live c_key c_entry (ad_calls s)"
  define leases where "leases x = ae_leases (ad_objs s ! x)" for x
  define leases' where "leases' = leases(e := leases e - 1)"
  have eb: "e < length (ad_objs s)" using ad_invD(4) [OF inv] i c by (simp add: e_def)
  have ok: "table_ok (ad_entries s) leases n" using ad_invD(3) [OF inv] by (simp add: n_def leases_def [abs_def])
  have pos: "0 < n k e" unfolding n_def k_def e_def c using i phase c by (intro uses_pos) simp_all
  have get: "dict_get (ad_entries s) k = Some e" by (rule table_okD(3) [OF ok pos])
  have objs: "ad_objs t = (ad_objs s)[e := (ad_objs s ! e)\<lparr>ae_leases := ae_leases (ad_objs s ! e) - 1\<rparr>]"
    and calls: "ad_calls t = (ad_calls s)[i := (ad_calls s ! i)\<lparr>c_phase := Closed\<rparr>]"
    and rest: "ad_capacity t = ad_capacity s" "ad_gates t = ad_gates s"
    by (simp_all add: t set_call_phase_def pool_release_def Let_def e_def)
  have ents: "ad_entries t = (if leases' e = 0 then dict_del k (ad_entries s) else ad_entries s)"
    using get eb by (simp add: t set_call_phase_def pool_release_def Let_def e_def k_def leases'_def leases_def)
  have "(\<lambda>x. ae_leases (ad_objs t ! x)) = leases'"
    using eb by (auto simp: objs leases'_def leases_def fun_eq_iff nth_list_update)
  moreover have "uses call_live c_key c_entry (ad_calls t) =
      (\<lambda>k' e'. n k' e' - (if k' = k \<and> e' = e then 1 else 0))"
    using uses_update_end [OF i, of call_live "(ad_calls s ! i)\<lparr>c_phase := Closed\<rparr>" c_key c_entry] phase
    by (simp add: calls c n_def k_def e_def)
  ultimately show "table_ok (ad_entries t) (\<lambda>e. ae_leases (ad_objs t ! e)) (uses call_live c_key c_entry (ad_calls t))"
    unfolding ents using table_ok_leave [OF ok pos refl leases'_def] by simp
  show "ad_capacity t = cap" "dict_wf (ad_entries t)" using ad_invD(1,2) [OF inv] by (simp_all add: rest ents)
  show "x \<in> set (ad_calls t) \<Longrightarrow> c_entry x < length (ad_objs t) \<and> dict_get limits (c_gate x) \<noteq> None" for x
    unfolding calls by (erule ad_calls_update [OF _ i]) (use ad_invD(4,5) [OF inv] in \<open>simp add: objs\<close>)
  have no_permit: "\<not> holds_keyed (c_phase (ad_calls s ! i))" "\<not> holds_global (c_phase (ad_calls s ! i))"
    "\<not> holds_keyed Closed" "\<not> holds_global Closed"
    using phase c by (simp_all add: phase_holds)
  have same: "keyed_permits t x = keyed_permits s x" "global_permits t d = global_permits s d" for x d
    using permits_update [OF i calls] no_permit by simp_all
  show "ae_semaphore (ad_objs t ! x) = cap - keyed_permits t x \<and> 0 \<le> ae_semaphore (ad_objs t ! x)"
    if "x < length (ad_objs t)" for x
    using that ad_invD(6,7) [OF inv, of x] same(1) [of x] by (cases "x = e") (simp_all add: objs)
  show "dict_get (ad_gates t) d = map_option (\<lambda>l. l - global_permits t d) (dict_get limits d)" for d
    using ad_invD(8) [OF inv, of d] same(2) [of d] by (simp add: rest)
  show "dict_get (ad_gates t) d = Some v \<Longrightarrow> 0 \<le> v" for d v
    using ad_invD(9) [OF inv, of d v] by (simp add: rest)
qed

text \<open>Giving permits back and leaving the pool is a move to the permit-free phase, then the release.\<close>

lemma ad_close_inv:
  fixes s :: "('k, 'd) admission"
  assumes inv: "ad_inv limits cap s" and i: "i < length (ad_calls s)" and c: "c = ad_calls s ! i"
    and live: "c_phase c \<noteq> Closed"
    and a: "a = of_bool (holds_keyed (c_phase c))" and b: "b = of_bool (holds_global (c_phase c))"
    and t: "t = set_call_phase i Closed (pool_release (c_key c) (c_entry c)
      (add_semaphore (c_entry c) a (add_gate (c_gate c) b s)))"
  shows "ad_inv limits cap t"
proof -
  define u where "u = set_call_phase i WaitKeyed (add_semaphore (c_entry c) a (add_gate (c_gate c) b s))"
  have u: "ad_inv limits cap u"
    using live a b ad_gate_known [OF inv i] ad_sem_known [OF inv i] c
    by (intro ad_move_inv [OF inv i c, where p = WaitKeyed and a = a and b = b])
      (auto simp: u_def phase_holds dict_get_default_def)
  have ui: "i < length (ad_calls u)" "ad_calls u ! i = c\<lparr>c_phase := WaitKeyed\<rparr>"
    using i c by (simp_all add: u_def set_call_phase_def add_semaphore_def add_gate_def)
  have "t = set_call_phase i Closed (pool_release (c_key c) (c_entry c) u)"
    using i by (simp add: t u_def set_call_phase_def pool_release_def Let_def add_semaphore_def add_gate_def)
  then show ?thesis
    using ui by (intro ad_pool_release_inv [OF u ui(1) refl]) simp_all
qed

lemma ad_abandon_inv:
  assumes inv: "ad_inv limits cap s" and i: "i < length (ad_calls s)"
  shows "ad_inv limits cap (ad_abandon i s)"
proof -
  obtain v where gate: "dict_get (ad_gates s) (c_gate (ad_calls s ! i)) = Some v"
    using ad_gate_known [OF inv i] by blast
  note close = ad_close_inv [OF inv i refl _ refl refl refl]
  show ?thesis
    using close inv add_gate_zero [of s "c_gate (ad_calls s ! i)"] gate
    by (cases "c_phase (ad_calls s ! i)") (simp_all add: ad_abandon_def Let_def phase_holds)
qed

lemma ad_aclose_inv:
  assumes inv: "ad_inv limits cap s" and i: "i < length (ad_calls s)"
  shows "ad_inv limits cap (ad_aclose i s)"
  using ad_close_inv [OF inv i refl _ refl refl refl] inv
  by (auto simp: ad_aclose_def ad_release_capacity_def Let_def phase_holds)

lemma ad_entry_bound: "ad_inv limits cap s \<Longrightarrow> dict_get (ad_entries s) k = Some e \<Longrightarrow> e < length (ad_objs s)"
proof -
  assume inv: "ad_inv limits cap s" and get: "dict_get (ad_entries s) k = Some e"
  have "0 < uses call_live c_key c_entry (ad_calls s) k e"
    using table_okD(2) [OF ad_invD(3) [OF inv] get] .
  then obtain c where "c \<in> set (ad_calls s)" "c_entry c = e" by (auto simp: uses_def filter_empty_conv)
  then show ?thesis using ad_invD(4) [OF inv] by auto
qed

text \<open>A new call changes the table and adds no permit.\<close>

lemma ad_acquire_inv:
  fixes s :: "('k, 'd) admission"
  assumes inv: "ad_inv limits cap s" and acq: "ad_acquire key d s = Inr t" and cap: "0 \<le> cap"
  shows "ad_inv limits cap t"
proof -
  define n where "n = uses call_live c_key c_entry (ad_calls s)"
  define leases where "leases x = ae_leases (ad_objs s ! x)" for x
  have ok: "table_ok (ad_entries s) leases n" using ad_invD(3) [OF inv] by (simp add: n_def leases_def [abs_def])
  obtain e where e: "ad_calls t = ad_calls s @ [\<lparr>c_key = key, c_entry = e, c_gate = d, c_phase = WaitKeyed\<rparr>]"
      "e < length (ad_objs t)" "length (ad_objs s) \<le> length (ad_objs t)"
      "dict_wf (ad_entries t)" "ad_capacity t = ad_capacity s" "ad_gates t = ad_gates s"
      "\<And>x. x < length (ad_objs t) \<Longrightarrow> ae_semaphore (ad_objs t ! x) =
        (if x < length (ad_objs s) then ae_semaphore (ad_objs s ! x) else cap)"
    and tab: "table_ok (ad_entries t) (\<lambda>e. ae_leases (ad_objs t ! e))
      (\<lambda>k' e'. n k' e' + (if k' = key \<and> e' = e then 1 else 0))"
  proof (cases "dict_get (ad_entries s) key")
    case None
    define e where "e = length (ad_objs s)"
    have t: "ad_objs t = ad_objs s @ [\<lparr>ae_semaphore = cap, ae_leases = 1\<rparr>]"
      "ad_entries t = dict_set key e (ad_entries s)"
      using None acq ad_invD(1) [OF inv]
      by (auto simp: ad_acquire_def pool_lease_def e_def split: option.splits)
    have fresh: "dict_get (ad_entries s) k \<noteq> Some e" for k
      using ad_entry_bound [OF inv, of k e] by (auto simp: e_def)
    have "table_ok (ad_entries t) (leases(e := 1)) (\<lambda>k' e'. n k' e' + (if k' = key \<and> e' = e then 1 else 0))"
      unfolding t by (rule table_ok_fresh [OF ok None fresh refl refl])
    then have "table_ok (ad_entries t) (\<lambda>x. ae_leases (ad_objs t ! x)) (\<lambda>k' e'. n k' e' + (if k' = key \<and> e' = e then 1 else 0))"
    proof (rule table_ok_cong)
      fix k x
      assume "dict_get (ad_entries t) k = Some x"
      then show "ae_leases (ad_objs t ! x) = (leases(e := 1)) x"
        using ad_entry_bound [OF inv, of k x] by (auto simp: t e_def leases_def nth_append split: if_splits)
    qed
    then show ?thesis
      using None acq ad_invD(1,2) [OF inv]
      by (intro that [of e])
        (auto simp: ad_acquire_def pool_lease_def e_def nth_append less_Suc_eq split: option.splits)
  next
    case (Some e)
    have eb: "e < length (ad_objs s)" by (rule ad_entry_bound [OF inv Some])
    have t: "ad_objs t = (ad_objs s)[e := (ad_objs s ! e)\<lparr>ae_leases := ae_leases (ad_objs s ! e) + 1\<rparr>]"
      "ad_entries t = ad_entries s"
      using Some acq by (auto simp: ad_acquire_def pool_lease_def split: option.splits)
    have "(\<lambda>x. ae_leases (ad_objs t ! x)) = leases(e := leases e + 1)"
      using eb by (auto simp: t leases_def fun_eq_iff nth_list_update)
    then have "table_ok (ad_entries t) (\<lambda>x. ae_leases (ad_objs t ! x)) (\<lambda>k' e'. n k' e' + (if k' = key \<and> e' = e then 1 else 0))"
      using table_ok_join [OF ok Some refl refl] by (simp add: t)
    then show ?thesis
      using Some acq eb ad_invD(1,2) [OF inv]
      by (intro that [of e]) (auto simp: ad_acquire_def pool_lease_def nth_list_update split: option.splits)
  qed
  have known: "dict_get limits d \<noteq> None"
    using acq ad_invD(8) [OF inv, of d] by (auto simp: ad_acquire_def split: option.splits)
  have permits: "keyed_permits t = keyed_permits s" "global_permits t = global_permits s"
    by (simp_all add: keyed_permits_def global_permits_def e(1) phase_holds fun_eq_iff)
  have none: "keyed_permits s x = 0" if "\<not> x < length (ad_objs s)" for x
    using that ad_invD(4) [OF inv] by (fastforce simp: keyed_permits_def filter_empty_conv)
  show ?thesis
  proof (rule ad_invI)
    show "ad_capacity t = cap" "dict_wf (ad_entries t)" using ad_invD(1) [OF inv] e by simp_all
    show "table_ok (ad_entries t) (\<lambda>e. ae_leases (ad_objs t ! e)) (uses call_live c_key c_entry (ad_calls t))"
    proof -
      have "uses call_live c_key c_entry (ad_calls t) = (\<lambda>k' e'. n k' e' + (if k' = key \<and> e' = e then 1 else 0))"
        by (auto simp: e(1) uses_append n_def fun_eq_iff)
      with tab show ?thesis by simp
    qed
    show "x \<in> set (ad_calls t) \<Longrightarrow> c_entry x < length (ad_objs t) \<and> dict_get limits (c_gate x) \<noteq> None" for x
      using ad_invD(4,5) [OF inv, of x] e(1-3) known by auto
    show "ae_semaphore (ad_objs t ! x) = cap - keyed_permits t x \<and> 0 \<le> ae_semaphore (ad_objs t ! x)"
      if "x < length (ad_objs t)" for x
      using e(7) [OF that] ad_invD(6,7) [OF inv, of x] none [of x] cap permits by (simp split: if_splits)
    show "dict_get (ad_gates t) x = map_option (\<lambda>l. l - global_permits t x) (dict_get limits x)" for x
      using ad_invD(8) [OF inv, of x] by (simp add: e(6) permits)
    show "dict_get (ad_gates t) x = Some v \<Longrightarrow> 0 \<le> v" for x v
      using ad_invD(9) [OF inv, of x v] by (simp add: e(6))
  qed
qed


lemma ad_step_inv: "ad_inv limits cap s \<and> 0 \<le> cap \<Longrightarrow> ad_step s t \<Longrightarrow> ad_inv limits cap t \<and> 0 \<le> cap"
  by (erule ad_step.cases)
    (auto simp: ad_acquire_inv ad_acquire_keyed_inv ad_acquire_global_inv ad_transfer_inv ad_abandon_inv ad_aclose_inv)

lemma ad_inv_fresh:
  assumes "0 \<le> cap" "\<And>d l. dict_get limits d = Some l \<Longrightarrow> 0 \<le> l"
  shows "ad_inv limits cap \<lparr>ad_capacity = cap, ad_entries = [], ad_objs = [], ad_gates = limits, ad_calls = []\<rparr>"
  using assms
  by (auto simp: ad_inv_def table_ok_def uses_def global_permits_def option.map_ident)

interpretation keyed_admission: inductive_invariant
  "\<lambda>s. \<exists>t. ka_new global_limit per_key_limit t = Inr s" ad_step
  "\<lambda>s. ad_inv [((), global_limit)] per_key_limit s \<and> 0 \<le> per_key_limit"
  for global_limit per_key_limit
proof
  fix s t :: "('a, unit) admission"
  show "\<exists>t. ka_new global_limit per_key_limit t = Inr s \<Longrightarrow>
      ad_inv [((), global_limit)] per_key_limit s \<and> 0 \<le> per_key_limit"
    by (auto simp: ka_new_def dict_get_def intro!: ad_inv_fresh split: if_splits)
  show "ad_inv [((), global_limit)] per_key_limit s \<and> 0 \<le> per_key_limit \<Longrightarrow> ad_step s t \<Longrightarrow>
      ad_inv [((), global_limit)] per_key_limit t \<and> 0 \<le> per_key_limit"
    by (rule ad_step_inv)
qed

interpretation directional_admission: inductive_invariant
  "\<lambda>s. \<exists>t. kd_new direction_limits per_key_limit t = Inr s" ad_step
  "\<lambda>s. ad_inv direction_limits per_key_limit s \<and> 0 \<le> per_key_limit"
  for direction_limits per_key_limit
proof
  fix s t :: "('a, string) admission"
  show "ad_inv direction_limits per_key_limit s \<and> 0 \<le> per_key_limit"
    if new: "\<exists>t. kd_new direction_limits per_key_limit t = Inr s"
  proof
    from new show "0 \<le> per_key_limit" by (auto simp: kd_new_def split: if_splits)
    have "0 \<le> l" if "dict_get direction_limits d = Some l" for d l
      using new dict_get_in [OF that] by (force simp: kd_new_def dict_values_def split: if_splits)
    with new show "ad_inv direction_limits per_key_limit s"
      by (auto simp: kd_new_def intro!: ad_inv_fresh split: if_splits)
  qed
  show "ad_inv direction_limits per_key_limit s \<and> 0 \<le> per_key_limit \<Longrightarrow> ad_step s t \<Longrightarrow>
      ad_inv direction_limits per_key_limit t \<and> 0 \<le> per_key_limit"
    by (rule ad_step_inv)
qed

text \<open>What the invariant says of the calls that hold permits.\<close>

lemma ad_key_bound:
  assumes inv: "ad_inv limits cap s" and cap: "0 \<le> cap"
  shows "int (length (filter (\<lambda>c. holds_keyed (c_phase c) \<and> c_key c = k) (ad_calls s))) \<le> cap"
proof (cases "\<exists>c \<in> set (ad_calls s). holds_keyed (c_phase c) \<and> c_key c = k")
  case True
  note ok = ad_invD(3) [OF inv]
  have entry: "dict_get (ad_entries s) (c_key c) = Some (c_entry c)"
    if c: "c \<in> set (ad_calls s)" and holds: "holds_keyed (c_phase c)" for c
  proof -
    obtain i where "i < length (ad_calls s)" "c = ad_calls s ! i" using c unfolding in_set_conv_nth by blast
    with holds show ?thesis
      using table_okD(3) [OF ok uses_pos [of i "ad_calls s" call_live c_key c_entry]] by (auto simp: phase_holds)
  qed
  obtain e where e: "dict_get (ad_entries s) k = Some e" using True entry by blast
  have "filter (\<lambda>c. holds_keyed (c_phase c) \<and> c_key c = k) (ad_calls s) =
      filter (\<lambda>c. holds_keyed (c_phase c) \<and> c_entry c = e) (ad_calls s)"
  proof (rule filter_cong)
    fix c
    assume c: "c \<in> set (ad_calls s)"
    show "(holds_keyed (c_phase c) \<and> c_key c = k) = (holds_keyed (c_phase c) \<and> c_entry c = e)"
      using entry [OF c] table_okD(4) [OF ok _ e, of "c_key c"] e by auto
  qed simp
  moreover have "e < length (ad_objs s)" by (rule ad_entry_bound [OF inv e])
  ultimately show ?thesis using ad_invD(6,7) [OF inv, of e] by (simp add: keyed_permits_def)
next
  case False
  then have "filter (\<lambda>c. holds_keyed (c_phase c) \<and> c_key c = k) (ad_calls s) = []"
    by (auto simp: filter_empty_conv)
  with cap show ?thesis by simp
qed

lemma ad_gate_bound:
  assumes "ad_inv limits cap s" "dict_get limits d = Some l"
  shows "global_permits s d \<le> l"
  using assms ad_invD(8,9) [OF assms(1), of d] by simp

lemma ad_quiescent:
  assumes inv: "ad_inv limits cap s" and closed: "\<forall>c \<in> set (ad_calls s). c_phase c = Closed"
  shows "ad_entries s = []" "dict_get (ad_gates s) d = dict_get limits d"
proof -
  have "dict_get (ad_entries s) k = None" for k
    using table_okD(2) [OF ad_invD(3) [OF inv], of k] closed
    by (cases "dict_get (ad_entries s) k") (auto simp: uses_def filter_empty_conv)
  then have "set (dict_keys (ad_entries s)) = {}" by (intro equals0I) (simp add: dict_keys_iff)
  then show "ad_entries s = []" by (simp add: dict_keys_def)
  have "global_permits s d = 0" using closed by (auto simp: global_permits_def filter_empty_conv phase_holds)
  then show "dict_get (ad_gates s) d = dict_get limits d"
    using ad_invD(8) [OF inv, of d] by (simp add: option.map_ident)
qed

text \<open>
  C11. \<open>KeyedAdmission\<close> enforces both limits and leaks nothing. In every reachable state at most
  \<open>per_key_limit\<close> owned leases belong to one key and at most \<open>global_limit\<close> leases are owned in
  all, whatever the interleaving of acquisitions, timeouts, cancellations and closes; once every
  call has ended the table of entries is empty and the global semaphore is back at its limit.
\<close>

theorem keyed_admission_limits:
  assumes "ka_reachable global_limit per_key_limit s"
  shows "(\<forall>k. int (length (filter (\<lambda>c. c_phase c = Owned \<and> c_key c = k) (ad_calls s))) \<le> per_key_limit) \<and>
    int (length (filter (\<lambda>c. c_phase c = Owned) (ad_calls s))) \<le> global_limit \<and>
    ((\<forall>c \<in> set (ad_calls s). c_phase c = Closed) \<longrightarrow>
       ad_entry_count s = 0 \<and> dict_get (ad_gates s) () = Some global_limit)"
proof (intro conjI allI impI)
  have inv: "ad_inv [((), global_limit)] per_key_limit s" "0 \<le> per_key_limit"
    using keyed_admission.inv_reachable [OF assms] by simp_all
  have sub: "length (filter (\<lambda>c. c_phase c = Owned \<and> Q c) cs) \<le> length (filter (\<lambda>c. holds_keyed (c_phase c) \<and> Q c) cs)"
    "length (filter (\<lambda>c. c_phase c = Owned) cs) \<le> length (filter (\<lambda>c. holds_global (c_phase c)) cs)"
    for Q and cs :: "('a, unit) admission_call list"
    by (induction cs) (auto simp: phase_holds)
  show "int (length (filter (\<lambda>c. c_phase c = Owned \<and> c_key c = k) (ad_calls s))) \<le> per_key_limit" for k
    using ad_key_bound [OF inv, of k] sub(1) [of "\<lambda>c. c_key c = k" "ad_calls s"] by linarith
  show "int (length (filter (\<lambda>c. c_phase c = Owned) (ad_calls s))) \<le> global_limit"
    using ad_gate_bound [OF inv(1), of "()" global_limit] sub(2) [of "ad_calls s"]
    by (simp add: global_permits_def dict_get_def)
  assume "\<forall>c \<in> set (ad_calls s). c_phase c = Closed"
  from ad_quiescent [OF inv(1) this]
  show "ad_entry_count s = 0" "dict_get (ad_gates s) () = Some global_limit"
    by (simp_all add: ad_entry_count_def dict_get_def)
qed

definition ka_demo :: "(nat, unit) admission" where
  "ka_demo = ad_transfer 0 (ad_acquire_global 0 (ad_acquire_keyed 0
     (projr (ad_acquire 7 () (projr (ka_new 2 1 30))))))"

lemma ka_demo_reachable: "ka_reachable 2 1 ka_demo"
proof -
  define s0 :: "(nat, unit) admission" where "s0 = projr (ka_new 2 1 30)"
  define s1 where "s1 = projr (ad_acquire 7 () s0)"
  have s0: "ka_reachable 2 1 s0" by (rule reach_start) (rule exI [of _ 30], simp add: s0_def ka_new_def)
  have "ad_acquire 7 () s0 = Inr s1"
    by (simp add: s1_def s0_def ka_new_def ad_acquire_def pool_lease_def dict_get_def)
  with s0 have s1: "ka_reachable 2 1 s1" by (blast intro: reach_step ad_acquire_step)
  have len: "length (ad_calls s1) = 1"
    by (simp add: s1_def s0_def ka_new_def ad_acquire_def pool_lease_def dict_get_def)
  have s2: "ka_reachable 2 1 (ad_acquire_keyed 0 s1)"
    using s1 by (rule reach_step) (rule ad_keyed_step, simp add: len)
  have len2: "length (ad_calls (ad_acquire_keyed 0 s1)) = 1"
    by (simp add: len ad_acquire_keyed_def Let_def set_call_phase_def add_semaphore_def)
  have len3: "length (ad_calls (ad_acquire_global 0 (ad_acquire_keyed 0 s1))) = 1"
    using len2 by (simp add: ad_acquire_global_def [of _ "ad_acquire_keyed 0 s1"] Let_def set_call_phase_def add_gate_def)
  have s3: "ka_reachable 2 1 (ad_acquire_global 0 (ad_acquire_keyed 0 s1))"
    using s2 by (rule reach_step) (rule ad_global_step, simp add: len2)
  show ?thesis
    unfolding ka_demo_def s0_def [symmetric] s1_def [symmetric]
    using s3 by (rule reach_step) (rule ad_transfer_step, simp add: len3)
qed

lemmas ad_eval = ka_new_def kd_new_def ad_acquire_def pool_lease_def ad_acquire_keyed_def ad_acquire_global_def
  ad_transfer_def set_call_phase_def add_semaphore_def add_gate_def dict_get_default_def dict_get_def dict_set_def
  Let_def dict_values_def

theorem keyed_admission_limits_witness:
  "map c_phase (ad_calls ka_demo) = [Owned] \<and>
   int (length (filter (\<lambda>c. c_phase c = Owned \<and> c_key c = 7) (ad_calls ka_demo))) \<le> 1"
proof -
  have "map c_phase (ad_calls ka_demo) = [Owned]" by (simp add: ka_demo_def ad_eval)
  then show ?thesis using keyed_admission_limits [OF ka_demo_reachable] by blast
qed

text \<open>
  \<open>KeyedDirectionalAdmission\<close> bounds every direction by its own limit while the keyed limit is
  shared by all directions, and leaks nothing: in every reachable state the owned leases of a
  direction number at most its limit, the owned leases of a key in all directions together at
  most \<open>per_key_limit\<close>, and with every call ended each direction has its full limit again
  and the table is empty.
\<close>

theorem directional_admission_limits:
  assumes "kd_reachable direction_limits per_key_limit s"
  shows "(\<forall>d l. dict_get direction_limits d = Some l \<longrightarrow>
      int (length (filter (\<lambda>c. c_phase c = Owned \<and> c_gate c = d) (ad_calls s))) \<le> l) \<and>
    (\<forall>k. int (length (filter (\<lambda>c. c_phase c = Owned \<and> c_key c = k) (ad_calls s))) \<le> per_key_limit) \<and>
    ((\<forall>c \<in> set (ad_calls s). c_phase c = Closed) \<longrightarrow>
       ad_entry_count s = 0 \<and> (\<forall>d. dict_get (ad_gates s) d = dict_get direction_limits d))"
proof (intro conjI allI impI)
  have inv: "ad_inv direction_limits per_key_limit s" "0 \<le> per_key_limit"
    using directional_admission.inv_reachable [OF assms] by simp_all
  have sub: "length (filter (\<lambda>c. c_phase c = Owned \<and> Q c) cs) \<le> length (filter (\<lambda>c. holds_keyed (c_phase c) \<and> Q c) cs)"
    "length (filter (\<lambda>c. c_phase c = Owned \<and> Q c) cs) \<le> length (filter (\<lambda>c. holds_global (c_phase c) \<and> Q c) cs)"
    for Q and cs :: "('a, string) admission_call list"
    by (induction cs) (auto simp: phase_holds)
  show "int (length (filter (\<lambda>c. c_phase c = Owned \<and> c_key c = k) (ad_calls s))) \<le> per_key_limit" for k
    using ad_key_bound [OF inv, of k] sub(1) [of "\<lambda>c. c_key c = k" "ad_calls s"] by linarith
  show "int (length (filter (\<lambda>c. c_phase c = Owned \<and> c_gate c = d) (ad_calls s))) \<le> l"
    if "dict_get direction_limits d = Some l" for d l
    using ad_gate_bound [OF inv(1) that] sub(2) [of "\<lambda>c. c_gate c = d" "ad_calls s"]
    by (simp add: global_permits_def)
  assume "\<forall>c \<in> set (ad_calls s). c_phase c = Closed"
  from ad_quiescent [OF inv(1) this]
  show "ad_entry_count s = 0" "dict_get (ad_gates s) d = dict_get direction_limits d" for d
    by (simp_all add: ad_entry_count_def)
qed

definition kd_demo :: "(nat, string) admission" where
  "kd_demo = ad_acquire_keyed 0 (projr (ad_acquire 7 ''inbound'' (projr (kd_new [(''inbound'', 2), (''outbound'', 2)] 3 30))))"

lemma kd_demo_reachable: "kd_reachable [(''inbound'', 2), (''outbound'', 2)] 3 kd_demo"
proof -
  define s0 :: "(nat, string) admission" where "s0 = projr (kd_new [(''inbound'', 2), (''outbound'', 2)] 3 30)"
  define s1 where "s1 = projr (ad_acquire 7 ''inbound'' s0)"
  have s0: "kd_reachable [(''inbound'', 2), (''outbound'', 2)] 3 s0"
    by (rule reach_start) (rule exI [of _ 30], simp add: s0_def kd_new_def dict_values_def)
  have "ad_acquire 7 ''inbound'' s0 = Inr s1" by (simp add: s1_def s0_def ad_eval)
  with s0 have s1: "kd_reachable [(''inbound'', 2), (''outbound'', 2)] 3 s1"
    by (blast intro: reach_step ad_acquire_step)
  have len: "length (ad_calls s1) = 1" by (simp add: s1_def s0_def ad_eval)
  show ?thesis
    unfolding kd_demo_def s0_def [symmetric] s1_def [symmetric]
    using s1 by (rule reach_step) (rule ad_keyed_step, simp add: len)
qed

theorem directional_admission_limits_witness:
  "map c_phase (ad_calls kd_demo) = [WaitGlobal] \<and>
   int (length (filter (\<lambda>c. c_phase c = Owned \<and> c_key c = 7) (ad_calls kd_demo))) \<le> 3"
proof -
  have "map c_phase (ad_calls kd_demo) = [WaitGlobal]" by (simp add: kd_demo_def ad_eval)
  then show ?thesis using directional_admission_limits [OF kd_demo_reachable] by blast
qed

end
