(* ===== verification/Chat_Public.thy ===== *)
theory Chat_Public
  imports Chat_Blocks
begin

text \<open>
  Attachments of browser messages (\<open>chat/attachments.py\<close>) and the public projection of messages
  (\<open>chat/public_projection.py\<close>). Expanding a message puts marker texts and images in front of the
  user's blocks for the provider; the public projection takes the markers out again and redacts
  provider-private data. Reads of the workspace and SHA-256 are parameters; Base64 is defined
  here as the Python library defines it, with strict decoding.
\<close>

section \<open>Base64\<close>

definition b64_char :: "nat \<Rightarrow> nat" where
  "b64_char v = (if v < 26 then 65 + v else if v < 52 then 97 + (v - 26) else if v < 62 then 48 + (v - 52)
     else if v = 62 then 43 else 47)"

definition b64_value :: "nat \<Rightarrow> nat option" where
  "b64_value c = (if 65 \<le> c \<and> c \<le> 90 then Some (c - 65) else if 97 \<le> c \<and> c \<le> 122 then Some (c - 97 + 26)
     else if 48 \<le> c \<and> c \<le> 57 then Some (c - 48 + 52) else if c = 43 then Some 62
     else if c = 47 then Some 63 else None)"

fun b64encode :: "nat list \<Rightarrow> ustr" where
  "b64encode [] = []"
| "b64encode [a] = [b64_char (a div 4), b64_char (a mod 4 * 16), 61, 61]"
| "b64encode [a, b] = [b64_char (a div 4), b64_char (a mod 4 * 16 + b div 16), b64_char (b mod 16 * 4), 61]"
| "b64encode (a # b # c # ds) =
     [b64_char (a div 4), b64_char (a mod 4 * 16 + b div 16), b64_char (b mod 16 * 4 + c div 64), b64_char (c mod 64)]
     @ b64encode ds"

definition b64_group :: "nat \<Rightarrow> nat \<Rightarrow> nat \<Rightarrow> nat \<Rightarrow> nat list" where
  "b64_group p q r s = [p * 4 + q div 16, q mod 16 * 16 + r div 4, r mod 4 * 64 + s]"

text \<open>\<open>base64.b64decode(_, validate=True)\<close>: whole groups, padding only in the last one.\<close>

fun b64decode :: "ustr \<Rightarrow> nat list option" where
  "b64decode [] = Some []"
| "b64decode (w # x # y # z # rest) =
     (case (b64_value w, b64_value x, b64_value y, b64_value z) of
        (Some p, Some q, Some r, Some s) \<Rightarrow> map_option (\<lambda>ds. b64_group p q r s @ ds) (b64decode rest)
      | (Some p, Some q, Some r, None) \<Rightarrow>
          if z = 61 \<and> rest = [] then Some (take 2 (b64_group p q r 0)) else None
      | (Some p, Some q, None, _) \<Rightarrow>
          if y = 61 \<and> z = 61 \<and> rest = [] then Some (take 1 (b64_group p q 0 0)) else None
      | _ \<Rightarrow> None)"
| "b64decode _ = None"

section \<open>Attachment references and markers\<close>

definition MAX_BROWSER_ATTACHMENTS :: nat where "MAX_BROWSER_ATTACHMENTS = 10"
definition MAX_ATTACHMENT_IMAGE_BYTES :: nat where "MAX_ATTACHMENT_IMAGE_BYTES = 8 * 1024 * 1024"
definition IMAGE_SIGNATURE_BYTES :: nat where "IMAGE_SIGNATURE_BYTES = 12"

record attachment_ref =
  at_device :: ustr
  at_path :: ustr
  at_device_id :: "ustr option"

definition validate_attachments :: "attachment_ref list \<Rightarrow> projection_error + unit" where
  "validate_attachments attachments =
     (if length attachments > MAX_BROWSER_ATTACHMENTS
        then Inl (InvalidMessageContent ''Browser messages accept at most 10 attachments'')
      else if \<exists>a \<in> set attachments. \<not> (1 \<le> length (at_path a) \<and> length (at_path a) \<le> 4096)
        then Inl (InvalidMessageContent ''Browser attachment paths must contain 1 to 4096 characters'')
      else Inr ())"

definition ref_block :: "attachment_ref \<Rightarrow> block" where
  "ref_block a =
     [(ustr_of ''openoctopus_device'', JStr (at_device a)), (ustr_of ''path'', JStr (at_path a))] @
     (case at_device_id a of None \<Rightarrow> [] | Some d \<Rightarrow> [(ustr_of ''device_id'', JStr d)])"

text \<open>\<open>owned\<close> is the query for the user's devices with the names of the client references.\<close>

definition normalize_browser_attachment_refs ::
  "(ustr, ustr) dict \<Rightarrow> attachment_ref list \<Rightarrow> projection_error + block list" where
  "normalize_browser_attachment_refs owned attachments =
     bind_result (validate_attachments attachments) (\<lambda>_.
       if \<exists>a \<in> set attachments. at_device a \<noteq> ustr_of ''server'' \<and> dict_get owned (at_device a) \<noteq> at_device_id a
         then Inl (ProjectionRuntimeError ''Attachment device is unavailable'')
       else Inr (map ref_block attachments))"

definition attachment_marker :: "ustr \<Rightarrow> block" where
  "attachment_marker path =
     text_block (ustr_of ''User uploaded file to device='' @ [39] @ ustr_of ''server'' @ [39] @
       ustr_of '', path='' @ json_string path)"

definition device_attachment_marker :: "ustr \<Rightarrow> ustr \<Rightarrow> block" where
  "device_attachment_marker device path =
     text_block (ustr_of ''User attached existing file from device='' @ [39] @ device @ [39] @
       ustr_of '', path='' @ json_string path @ ustr_of ''. '' @
       ustr_of ''Use read_file on that device to inspect it.'')"

definition marker_of :: "ustr \<Rightarrow> ustr \<Rightarrow> block" where
  "marker_of device path =
     (if device = ustr_of ''server'' then attachment_marker path else device_attachment_marker device path)"

definition count_marker :: "block \<Rightarrow> (ustr, nat) dict \<Rightarrow> (ustr, nat) dict" where
  "count_marker ref counts =
     (case (block_get ref ''openoctopus_device'', block_get ref ''path'') of
        (Some (JStr device), Some (JStr path)) \<Rightarrow>
          (let marker = the (block_text (marker_of device path))
           in dict_set marker (dict_get_default counts marker 0 + 1) counts)
      | _ \<Rightarrow> counts)"

fun strip_loop :: "(ustr, nat) dict \<Rightarrow> block list \<Rightarrow> block list" where
  "strip_loop counts [] = []"
| "strip_loop counts (b # bs) =
     (case block_text b of
        Some t \<Rightarrow> if dict_get_default counts t 0 \<noteq> 0
                  then strip_loop (dict_set t (dict_get_default counts t 0 - 1) counts) bs
                  else b # strip_loop counts bs
      | None \<Rightarrow> b # strip_loop counts bs)"

definition strip_provider_attachment_markers :: "block list \<Rightarrow> block list \<Rightarrow> block list" where
  "strip_provider_attachment_markers content attachment_refs =
     strip_loop (fold count_marker attachment_refs []) content"

section \<open>Expanding attachments for the provider\<close>

definition IMAGE_SIGNATURES :: "(nat list \<times> string) list" where
  "IMAGE_SIGNATURES =
     [([137, 80, 78, 71, 13, 10, 26, 10], ''image/png''), ([255, 216, 255], ''image/jpeg''),
      (ustr_of ''GIF87a'', ''image/gif''), (ustr_of ''GIF89a'', ''image/gif''), (ustr_of ''RIFF'', ''image/webp'')]"

fun match_signature :: "nat list \<Rightarrow> (nat list \<times> string) list \<Rightarrow> string option" where
  "match_signature data [] = None"
| "match_signature data ((signature, media_type) # rest) =
     (if py_startswith data signature
        then if media_type = ''image/webp'' \<and> take 4 (drop 8 data) \<noteq> ustr_of ''WEBP''
             then match_signature data rest else Some media_type
      else match_signature data rest)"

definition image_media_type :: "nat list \<Rightarrow> string option" where
  "image_media_type data = match_signature data IMAGE_SIGNATURES"

definition direct_image_data :: "block \<Rightarrow> nat list option" where
  "direct_image_data b =
     (case block_get b ''source'' of
        Some (JObj source) \<Rightarrow>
          (case block_get source ''data'' of Some (JStr encoded) \<Rightarrow> b64decode encoded | _ \<Rightarrow> None)
      | _ \<Rightarrow> None)"

fun direct_positions_loop ::
  "(nat list \<Rightarrow> nat list) \<Rightarrow> nat \<Rightarrow> block list \<Rightarrow> (nat list, nat) dict \<Rightarrow> projection_error + (nat list, nat) dict" where
  "direct_positions_loop sha256 i [] positions = Inr positions"
| "direct_positions_loop sha256 i (b # bs) positions =
     (if \<not> block_is b ''image'' then direct_positions_loop sha256 (Suc i) bs positions
      else case direct_image_data b of
             None \<Rightarrow> Inl (InvalidMessageContent ''Direct image content is malformed'')
           | Some decoded \<Rightarrow> direct_positions_loop sha256 (Suc i) bs
               (if dict_get positions (sha256 decoded) = None
                then dict_set (sha256 decoded) i positions else positions))"

definition direct_image_positions ::
  "(nat list \<Rightarrow> nat list) \<Rightarrow> block list \<Rightarrow> projection_error + (nat list, nat) dict" where
  "direct_image_positions sha256 content = direct_positions_loop sha256 0 content []"

definition image_block :: "string \<Rightarrow> nat list \<Rightarrow> block" where
  "image_block media_type data =
     [(ustr_of ''type'', JStr (ustr_of ''image'')),
      (ustr_of ''source'', JObj [(ustr_of ''type'', JStr (ustr_of ''base64'')),
         (ustr_of ''media_type'', JStr (ustr_of media_type)), (ustr_of ''data'', JStr (b64encode data))])]"

text \<open>
  The workspace: \<open>read_header\<close> returns the first bytes of a file, \<open>read_snapshot\<close> its data and
  whether they are truncated. The state of the loop is the prefix, the markers before a direct
  image, and the bytes of images so far.
\<close>

record expansion =
  ex_prefix :: "block list"
  ex_markers_before :: "(nat, block list) dict"
  ex_image_bytes :: nat

definition add_prefix :: "block list \<Rightarrow> expansion \<Rightarrow> expansion" where
  "add_prefix bs x = x\<lparr>ex_prefix := ex_prefix x @ bs\<rparr>"

definition expand_image ::
  "(nat list \<Rightarrow> nat list) \<Rightarrow> (nat list, nat) dict \<Rightarrow> block \<Rightarrow> string \<Rightarrow> nat list \<Rightarrow> bool \<Rightarrow> expansion \<Rightarrow>
     projection_error + expansion" where
  "expand_image sha256 direct marker media_type data truncated x =
     (if truncated then Inl (InvalidMessageContent ''Browser attachment image exceeds the 8 MiB limit'')
      else if ex_image_bytes x + length data > MAX_ATTACHMENT_IMAGE_BYTES
        then Inl (InvalidMessageContent ''Browser attachment images exceed the 8 MiB aggregate limit'')
      else
        let x1 = x\<lparr>ex_image_bytes := ex_image_bytes x + length data\<rparr>
        in case dict_get direct (sha256 data) of
             Some i \<Rightarrow> Inr (x1\<lparr>ex_markers_before := dict_set i
                 (dict_get_default (ex_markers_before x1) i [] @ [marker]) (ex_markers_before x1)\<rparr>)
           | None \<Rightarrow> Inr (add_prefix [marker, image_block media_type data] x1))"

definition expand_one ::
  "(nat list \<Rightarrow> nat list) \<Rightarrow> (ustr \<Rightarrow> nat list) \<Rightarrow> (ustr \<Rightarrow> nat list \<times> bool) \<Rightarrow> (nat list, nat) dict \<Rightarrow>
     attachment_ref \<Rightarrow> expansion \<Rightarrow> projection_error + expansion" where
  "expand_one sha256 read_header read_snapshot direct a x =
     (if at_device a \<noteq> ustr_of ''server''
        then Inr (add_prefix [device_attachment_marker (at_device a) (at_path a)] x)
      else if image_media_type (take IMAGE_SIGNATURE_BYTES (read_header (at_path a))) = None
        then Inr (add_prefix [attachment_marker (at_path a)] x)
      else case read_snapshot (at_path a) of (data, truncated) \<Rightarrow>
        (case image_media_type data of
           None \<Rightarrow> Inr (add_prefix [attachment_marker (at_path a)] x)
         | Some media_type \<Rightarrow> expand_image sha256 direct (attachment_marker (at_path a)) media_type data truncated x))"

fun expand_loop ::
  "(nat list \<Rightarrow> nat list) \<Rightarrow> (ustr \<Rightarrow> nat list) \<Rightarrow> (ustr \<Rightarrow> nat list \<times> bool) \<Rightarrow> (nat list, nat) dict \<Rightarrow>
     attachment_ref list \<Rightarrow> expansion \<Rightarrow> projection_error + expansion" where
  "expand_loop sha256 read_header read_snapshot direct [] x = Inr x"
| "expand_loop sha256 read_header read_snapshot direct (a # as) x =
     bind_result (expand_one sha256 read_header read_snapshot direct a x)
       (expand_loop sha256 read_header read_snapshot direct as)"

fun interleave_markers :: "(nat, block list) dict \<Rightarrow> nat \<Rightarrow> block list \<Rightarrow> block list" where
  "interleave_markers before i [] = []"
| "interleave_markers before i (b # bs) =
     dict_get_default before i [] @ b # interleave_markers before (Suc i) bs"

definition expand_server_workspace_attachments ::
  "(nat list \<Rightarrow> nat list) \<Rightarrow> (ustr \<Rightarrow> nat list) \<Rightarrow> (ustr \<Rightarrow> nat list \<times> bool) \<Rightarrow>
     block list \<Rightarrow> attachment_ref list \<Rightarrow> projection_error + block list" where
  "expand_server_workspace_attachments sha256 read_header read_snapshot content attachments =
     bind_result (validate_attachments attachments) (\<lambda>_.
       if attachments = [] then Inr content
       else bind_result (direct_image_positions sha256 content) (\<lambda>direct.
         bind_result (expand_loop sha256 read_header read_snapshot direct attachments
             \<lparr>ex_prefix = [], ex_markers_before = [], ex_image_bytes = 0\<rparr>) (\<lambda>x.
           Inr (ex_prefix x @ interleave_markers (ex_markers_before x) 0 content))))"

section \<open>The public projection\<close>

definition redact_block :: "block \<Rightarrow> block" where
  "redact_block b =
     (let b1 = block_pop b ''_sdk''
      in if block_is b1 ''thinking'' then block_pop b1 ''signature''
         else if block_is b1 ''redacted_thinking'' then block_pop b1 ''data'' else b1)"

definition public_content :: "block list \<Rightarrow> session \<Rightarrow> bool \<Rightarrow> block list" where
  "public_content content session human =
     map redact_block
       (if human \<and> content \<noteq> [] \<and> runtime_matches_session (hd content) session then tl content else content)"

definition provider_role :: "string \<Rightarrow> projection_error + string" where
  "provider_role kind =
     (if kind \<in> {''human'', ''tool_result'', ''synthetic_tool_result''} then Inr ''user''
      else if kind \<in> {''assistant'', ''synthetic_assistant_error''} then Inr ''assistant''
      else Inl (ProjectionValueError ''Unsupported message kind''))"

record sender_response =
  sr_id :: ustr
  sr_display_name :: "ustr option"
  sr_classification :: string

definition sender_response_of :: "message_row \<Rightarrow> projection_error + sender_response" where
  "sender_response_of m =
     (case (m_sender_id m, m_sender_classification m) of
        (Some i, Some c) \<Rightarrow> Inr \<lparr>sr_id = i, sr_display_name = m_sender_display_name m, sr_classification = c\<rparr>
      | _ \<Rightarrow> Inl (ProjectionRuntimeError ''Human message sender authority is missing''))"

text \<open>A JSON true or false is an \<open>int\<close> to Python's \<open>isinstance\<close>.\<close>

definition omitted_marker :: "block \<Rightarrow> int option" where
  "omitted_marker raw =
     (case block_get raw ''_openoctopus_omitted_count'' of
        Some (JInt n) \<Rightarrow> if 0 \<le> n then Some n else None
      | Some (JBool b) \<Rightarrow> Some (of_bool b)
      | _ \<Rightarrow> None)"

fun channel_context_loop :: "block list \<Rightarrow> context_entry list \<Rightarrow> int \<Rightarrow> context_entry list \<times> int" where
  "channel_context_loop [] entries omitted = (entries, omitted)"
| "channel_context_loop (raw # raws) entries omitted =
     (case omitted_marker raw of
        Some n \<Rightarrow> channel_context_loop raws entries (omitted + n)
      | None \<Rightarrow> (case block_get raw ''text'' of
            Some (JStr t) \<Rightarrow> channel_context_loop raws (entries @ [sanitized_entry raw t]) omitted
          | _ \<Rightarrow> channel_context_loop raws entries omitted))"

record message_response =
  mr_id :: uuid
  mr_role :: string
  mr_kind :: string
  mr_content :: "block list"
  mr_attachment_refs :: "block list"
  mr_sender :: "sender_response option"
  mr_entries :: "context_entry list"
  mr_included_count :: nat
  mr_omitted_count :: int
  mr_created_at :: int

definition message_response_of ::
  "message_row \<Rightarrow> block list option \<Rightarrow> session \<Rightarrow> projection_error + message_response" where
  "message_response_of m refs session =
     (let attachment_refs = (case refs of None \<Rightarrow> [] | Some rs \<Rightarrow> rs);
          human = (m_kind m = ''human'');
          content = public_content (strip_provider_attachment_markers (m_content m) attachment_refs) session human;
          (entries, omitted) = channel_context_loop
            (case m_channel_context m of None \<Rightarrow> [] | Some es \<Rightarrow> es) [] 0
      in bind_result (provider_role (m_kind m)) (\<lambda>role.
         bind_result (if human then bind_result (sender_response_of m) (\<lambda>s. Inr (Some s)) else Inr None) (\<lambda>sender.
           Inr \<lparr>mr_id = m_id m, mr_role = role, mr_kind = m_kind m, mr_content = content,
                mr_attachment_refs = attachment_refs, mr_sender = sender, mr_entries = entries,
                mr_included_count = length entries, mr_omitted_count = omitted, mr_created_at = m_created_at m\<rparr>)))"


section \<open>Markers come out again\<close>

definition text_count :: "ustr \<Rightarrow> block list \<Rightarrow> nat" where
  "text_count t bs = length (filter (\<lambda>b. block_text b = Some t) bs)"

lemma text_count_simps [simp]:
  "text_count t [] = 0"
  "text_count t (b # bs) = (if block_text b = Some t then 1 else 0) + text_count t bs"
  "text_count t (bs @ cs) = text_count t bs + text_count t cs"
  by (simp_all add: text_count_def)

lemma strip_loop_filter:
  assumes "\<And>t. dict_get_default counts t 0 \<noteq> 0 \<Longrightarrow> text_count t bs = dict_get_default counts t 0"
  shows "strip_loop counts bs =
    filter (\<lambda>b. \<forall>t. block_text b = Some t \<longrightarrow> dict_get_default counts t 0 = 0) bs"
  using assms
proof (induction bs arbitrary: counts)
  case (Cons b bs)
  show ?case
  proof (cases "\<exists>t. block_text b = Some t \<and> dict_get_default counts t 0 \<noteq> 0")
    case True
    then obtain t where t: "block_text b = Some t" "dict_get_default counts t 0 \<noteq> 0" by blast
    define counts' where "counts' = dict_set t (dict_get_default counts t 0 - 1) counts"
    have bs: "text_count t bs = dict_get_default counts t 0 - 1"
      using Cons.prems [OF t(2)] t(1) by simp
    have "strip_loop counts' bs =
        filter (\<lambda>b. \<forall>t. block_text b = Some t \<longrightarrow> dict_get_default counts' t 0 = 0) bs"
    proof (rule Cons.IH)
      show "text_count u bs = dict_get_default counts' u 0" if "dict_get_default counts' u 0 \<noteq> 0" for u
        using that bs Cons.prems [of u] t(1) by (auto simp: counts'_def split: if_splits)
    qed
    moreover have "block_text c \<noteq> Some t" if "c \<in> set bs" "text_count t bs = 0" for c
      using that by (auto simp: text_count_def filter_empty_conv)
    ultimately have "strip_loop counts' bs =
        filter (\<lambda>b. \<forall>t. block_text b = Some t \<longrightarrow> dict_get_default counts t 0 = 0) bs"
      using bs t(2) by (auto simp: counts'_def intro!: filter_cong split: if_splits)
    with t show ?thesis by (simp add: counts'_def)
  next
    case False
    then have "text_count u bs = dict_get_default counts u 0" if "dict_get_default counts u 0 \<noteq> 0" for u
      using Cons.prems [OF that] that by (auto split: if_splits)
    then have "strip_loop counts bs =
        filter (\<lambda>b. \<forall>t. block_text b = Some t \<longrightarrow> dict_get_default counts t 0 = 0) bs"
      by (rule Cons.IH)
    with False show ?thesis by (cases "block_text b") auto
  qed
qed simp

definition ref_marker :: "attachment_ref \<Rightarrow> block" where
  "ref_marker a = marker_of (at_device a) (at_path a)"

lemma block_text_text_block [simp]: "block_text (text_block t) = Some t"
  by (simp add: block_text_def optional_string_def)

lemma marker_text: "\<exists>t. block_text (marker_of d p) = Some t"
  by (simp add: marker_of_def attachment_marker_def device_attachment_marker_def)

lemma ref_block_get [simp]:
  "block_get (ref_block a) ''openoctopus_device'' = Some (JStr (at_device a))"
  "block_get (ref_block a) ''path'' = Some (JStr (at_path a))"
  by (simp_all add: block_get_def ref_block_def dict_get_def ustr_of_def)

lemma count_markers:
  "dict_get_default (fold count_marker (map ref_block as) counts) t 0 =
    dict_get_default counts t 0 + text_count t (map ref_marker as)"
proof (induction as arbitrary: counts)
  case (Cons a as)
  obtain u where u: "block_text (ref_marker a) = Some u" using marker_text by (auto simp: ref_marker_def)
  then have "count_marker (ref_block a) counts = dict_set u (dict_get_default counts u 0 + 1) counts"
    by (simp add: count_marker_def ref_marker_def)
  then show ?case using Cons.IH [of "count_marker (ref_block a) counts"] u by simp
qed simp

lemma interleave_count:
  "text_count t (interleave_markers (dict_set k (dict_get_default before k [] @ [m]) before) i bs) =
    text_count t (interleave_markers before i bs) +
    (if i \<le> k \<and> k < i + length bs then text_count t [m] else 0)"
  by (induction bs arbitrary: i) auto

lemma interleave_empty [simp]: "interleave_markers [] i bs = bs"
  by (induction bs arbitrary: i) auto

lemma interleave_filter:
  assumes "\<And>k b. b \<in> set (dict_get_default before k []) \<Longrightarrow> P b" "\<And>b. b \<in> set bs \<Longrightarrow> \<not> P b"
  shows "filter (\<lambda>b. \<not> P b) (interleave_markers before i bs) = bs"
  using assms(2)
proof (induction bs arbitrary: i)
  case (Cons b bs)
  have "filter (\<lambda>b. \<not> P b) (dict_get_default before i []) = []"
    using assms(1) by (auto simp: filter_empty_conv)
  then show ?case using Cons by simp
qed simp

lemma direct_positions_bound:
  assumes "direct_positions_loop sha256 i bs positions = Inr positions'"
    and "\<forall>d k. dict_get positions d = Some k \<longrightarrow> k < i + length bs"
    and "dict_get positions' d = Some k"
  shows "k < i + length bs"
  using assms
proof (induction bs arbitrary: i positions)
  case (Cons b bs)
  then show ?case
  proof (cases "block_is b ''image''")
    case True
    then obtain decoded where dec: "direct_image_data b = Some decoded" using Cons.prems by (auto split: option.splits)
    show ?thesis
      using Cons.IH [OF _ _ Cons.prems(3), of "Suc i"
          "if dict_get positions (sha256 decoded) = None then dict_set (sha256 decoded) i positions else positions"]
        Cons.prems True dec by (auto split: if_splits)
  next
    case False
    then show ?thesis using Cons.IH [of "Suc i" positions] Cons.prems by simp
  qed
qed simp

lemma image_block_get [simp]: "block_text (image_block mt data) = None"
  by (simp add: block_text_def block_is_def block_get_def image_block_def dict_get_def ustr_of_def)

text \<open>What one attachment adds: its marker, and at most one image.\<close>

definition expansion_ok :: "block list \<Rightarrow> attachment_ref list \<Rightarrow> attachment_ref list \<Rightarrow> expansion \<Rightarrow> bool" where
  "expansion_ok content all processed x \<longleftrightarrow>
     (\<forall>t. text_count t (ex_prefix x @ interleave_markers (ex_markers_before x) 0 content) =
        text_count t content + text_count t (map ref_marker processed)) \<and>
     (\<forall>k. \<forall>b \<in> set (dict_get_default (ex_markers_before x) k []). b \<in> ref_marker ` set all) \<and>
     (\<forall>b \<in> set (ex_prefix x). b \<in> ref_marker ` set all \<or> (\<exists>mt data. b = image_block mt data))"

lemma expansion_ok_prefix:
  assumes "expansion_ok content all processed x" "a \<in> set all"
    and "images = [] \<or> (\<exists>mt data. images = [image_block mt data])"
    and "ex_prefix y = ex_prefix x @ [ref_marker a] @ images" "ex_markers_before y = ex_markers_before x"
  shows "expansion_ok content all (processed @ [a]) y"
proof -
  have none: "text_count t images = 0" for t using assms(3) by auto
  have "text_count t (ex_prefix y @ interleave_markers (ex_markers_before y) 0 content) =
      text_count t content + text_count t (map ref_marker (processed @ [a]))" for t
    using assms(1) none unfolding expansion_ok_def by (simp add: assms(4,5))
  then show ?thesis using assms unfolding expansion_ok_def by (auto split: if_splits)
qed

lemma expand_one_ok:
  assumes ok: "expansion_ok content all processed x" and a: "a \<in> set all"
    and one: "expand_one sha256 read_header read_snapshot direct a x = Inr y"
    and direct: "\<And>d k. dict_get direct d = Some k \<Longrightarrow> k < length content"
  shows "expansion_ok content all (processed @ [a]) y"
proof -
  have marker: "at_device a \<noteq> ustr_of ''server'' \<Longrightarrow> device_attachment_marker (at_device a) (at_path a) = ref_marker a"
    "at_device a = ustr_of ''server'' \<Longrightarrow> attachment_marker (at_path a) = ref_marker a"
    by (simp_all add: ref_marker_def marker_of_def)
  have "(\<exists>images. (images = [] \<or> (\<exists>mt data. images = [image_block mt data])) \<and>
      ex_prefix y = ex_prefix x @ [ref_marker a] @ images \<and> ex_markers_before y = ex_markers_before x) \<or>
    (\<exists>k d. dict_get direct d = Some k \<and> ex_prefix y = ex_prefix x \<and>
      ex_markers_before y = dict_set k (dict_get_default (ex_markers_before x) k [] @ [ref_marker a]) (ex_markers_before x))"
    using one marker
    by (auto simp: expand_one_def expand_image_def add_prefix_def Let_def
        split: if_splits option.splits prod.splits) blast
  then show ?thesis
  proof
    assume "\<exists>images. (images = [] \<or> (\<exists>mt data. images = [image_block mt data])) \<and>
      ex_prefix y = ex_prefix x @ [ref_marker a] @ images \<and> ex_markers_before y = ex_markers_before x"
    then show ?thesis using expansion_ok_prefix [OF ok a] by blast
  next
    assume "\<exists>k d. dict_get direct d = Some k \<and> ex_prefix y = ex_prefix x \<and>
      ex_markers_before y = dict_set k (dict_get_default (ex_markers_before x) k [] @ [ref_marker a]) (ex_markers_before x)"
    then obtain k d where get: "dict_get direct d = Some k" and before: "ex_prefix y = ex_prefix x"
      "ex_markers_before y = dict_set k (dict_get_default (ex_markers_before x) k [] @ [ref_marker a]) (ex_markers_before x)"
      by blast
    have "text_count t (ex_prefix y @ interleave_markers (ex_markers_before y) 0 content) =
        text_count t content + text_count t (map ref_marker (processed @ [a]))" for t
      using ok direct [OF get] unfolding expansion_ok_def by (simp add: before interleave_count)
    then show ?thesis using ok a unfolding expansion_ok_def by (auto simp: before split: if_splits)
  qed
qed

lemma expand_loop_ok:
  assumes "expansion_ok content all processed x" "set as \<subseteq> set all"
    and "expand_loop sha256 read_header read_snapshot direct as x = Inr y"
    and "\<And>d k. dict_get direct d = Some k \<Longrightarrow> k < length content"
  shows "expansion_ok content all (processed @ as) y"
  using assms(1-3)
proof (induction as arbitrary: processed x)
  case (Cons a as)
  obtain z where z: "expand_one sha256 read_header read_snapshot direct a x = Inr z"
      "expand_loop sha256 read_header read_snapshot direct as z = Inr y"
    using Cons.prems(3) by (auto simp: bind_result_Inr_iff)
  have "expansion_ok content all (processed @ [a]) z"
    using Cons.prems(2) by (intro expand_one_ok [OF Cons.prems(1) _ z(1) assms(4)]) simp
  from Cons.IH [OF this _ z(2)] Cons.prems(2) show ?case by simp
qed simp

text \<open>
  C14. Expanding a message for the provider and projecting it back to the public loses and adds
  nothing but images: when no block of the user's content is itself the text of a marker,
  stripping the markers from the expanded content leaves exactly the user's blocks in
  their order, after the images that were read from the workspace.
\<close>

theorem attachment_markers_roundtrip:
  assumes expand: "expand_server_workspace_attachments sha256 read_header read_snapshot content attachments = Inr expanded"
    and plain: "\<forall>b \<in> set content. \<forall>a \<in> set attachments. block_text b \<noteq> block_text (marker_of (at_device a) (at_path a))"
  shows "\<exists>images. strip_provider_attachment_markers expanded (map ref_block attachments) = images @ content \<and>
    (\<forall>b \<in> set images. \<exists>media_type data. b = image_block media_type data)"
proof -
  define counts where "counts = fold count_marker (map ref_block attachments) []"
  have counts: "dict_get_default counts t 0 = text_count t (map ref_marker attachments)" for t
    by (simp add: counts_def count_markers)
  define marked where "marked b \<longleftrightarrow> (\<exists>t. block_text b = Some t \<and> dict_get_default counts t 0 \<noteq> 0)" for b
  have marked: "marked b \<longleftrightarrow> (\<exists>a \<in> set attachments. block_text b = block_text (ref_marker a))" for b
    using marker_text unfolding marked_def counts text_count_def ref_marker_def
    by (fastforce simp: filter_empty_conv)
  have free: "\<not> marked b" if "b \<in> set content" for b
    using plain that by (auto simp: marked ref_marker_def)
  obtain x where x: "expanded = ex_prefix x @ interleave_markers (ex_markers_before x) 0 content"
    and ok: "expansion_ok content attachments attachments x"
  proof (cases "attachments = []")
    case True
    then have "expanded = content" using expand by (auto simp: expand_server_workspace_attachments_def bind_result_Inr_iff)
    with True show ?thesis
      by (intro that [of "\<lparr>ex_prefix = [], ex_markers_before = [], ex_image_bytes = 0\<rparr>"])
        (simp_all add: expansion_ok_def)
  next
    case False
    then obtain direct x where d: "direct_image_positions sha256 content = Inr direct"
      and l: "expand_loop sha256 read_header read_snapshot direct attachments
        \<lparr>ex_prefix = [], ex_markers_before = [], ex_image_bytes = 0\<rparr> = Inr x"
      and e: "expanded = ex_prefix x @ interleave_markers (ex_markers_before x) 0 content"
      using expand by (auto simp: expand_server_workspace_attachments_def bind_result_Inr_iff)
    have "k < length content" if "dict_get direct h = Some k" for h k
      using direct_positions_bound [OF d [unfolded direct_image_positions_def] _ that] by simp
    then have "expansion_ok content attachments ([] @ attachments) x"
      by (intro expand_loop_ok [OF _ order_refl l]) (simp_all add: expansion_ok_def)
    with e show ?thesis by (intro that [of x]) simp_all
  qed
  have zero: "text_count t content = 0" if "dict_get_default counts t 0 \<noteq> 0" for t
    using free that by (auto simp: text_count_def filter_empty_conv marked_def)
  have "strip_loop counts expanded = filter (\<lambda>b. \<forall>t. block_text b = Some t \<longrightarrow> dict_get_default counts t 0 = 0) expanded"
  proof (rule strip_loop_filter)
    show "text_count t expanded = dict_get_default counts t 0" if "dict_get_default counts t 0 \<noteq> 0" for t
      using ok zero [OF that] unfolding expansion_ok_def x by (simp add: counts)
  qed
  also have "\<dots> = filter (\<lambda>b. \<not> marked b) expanded"
    by (rule filter_cong) (auto simp: marked_def)
  also have "\<dots> = filter (\<lambda>b. \<not> marked b) (ex_prefix x) @ content"
  proof -
    have "marked b" if "b \<in> set (dict_get_default (ex_markers_before x) k [])" for b k
    proof -
      have "b \<in> ref_marker ` set attachments" using ok that unfolding expansion_ok_def by blast
      then show ?thesis by (auto simp: marked)
    qed
    from interleave_filter [of "ex_markers_before x" marked, OF this free] show ?thesis by (simp add: x)
  qed
  finally have "strip_provider_attachment_markers expanded (map ref_block attachments) =
      filter (\<lambda>b. \<not> marked b) (ex_prefix x) @ content"
    by (simp add: strip_provider_attachment_markers_def counts_def)
  moreover have "\<exists>mt data. b = image_block mt data" if "b \<in> set (filter (\<lambda>b. \<not> marked b) (ex_prefix x))" for b
  proof -
    have "b \<in> ref_marker ` set attachments \<or> (\<exists>mt data. b = image_block mt data)" "\<not> marked b"
      using ok that unfolding expansion_ok_def by auto
    then show ?thesis by (auto simp: marked)
  qed
  ultimately show ?thesis by blast
qed

definition demo_ref :: attachment_ref where
  "demo_ref = \<lparr>at_device = ustr_of ''server'', at_path = ustr_of ''a.png'', at_device_id = None\<rparr>"

definition demo_png :: "nat list" where "demo_png = [137, 80, 78, 71, 13, 10, 26, 10]"

definition demo_content :: "block list" where "demo_content = [text_block (ustr_of ''hi'')]"

lemma demo_expand:
  "expand_server_workspace_attachments id (\<lambda>_. demo_png) (\<lambda>_. (demo_png, False)) demo_content [demo_ref] =
    Inr ([attachment_marker (ustr_of ''a.png''), image_block ''image/png'' demo_png] @ demo_content)"
proof -
  have "image_media_type demo_png = Some ''image/png''"
    "image_media_type (take IMAGE_SIGNATURE_BYTES demo_png) = Some ''image/png''"
    by (simp_all add: image_media_type_def IMAGE_SIGNATURES_def demo_png_def py_startswith_def IMAGE_SIGNATURE_BYTES_def)
  moreover have "direct_image_positions id demo_content = Inr []"
    by (simp add: direct_image_positions_def demo_content_def block_is_def ustr_of_def)
  moreover have "length demo_png \<le> MAX_ATTACHMENT_IMAGE_BYTES"
    by (simp add: demo_png_def MAX_ATTACHMENT_IMAGE_BYTES_def)
  ultimately show ?thesis
    by (simp add: expand_server_workspace_attachments_def validate_attachments_def demo_ref_def expand_one_def
        expand_image_def add_prefix_def MAX_BROWSER_ATTACHMENTS_def)
qed

theorem attachment_markers_roundtrip_witness:
  "\<exists>images. strip_provider_attachment_markers
     ([attachment_marker (ustr_of ''a.png''), image_block ''image/png'' demo_png] @ demo_content)
     (map ref_block [demo_ref]) = images @ demo_content"
proof -
  have "\<forall>b \<in> set demo_content. \<forall>a \<in> set [demo_ref]. block_text b \<noteq> block_text (marker_of (at_device a) (at_path a))"
    by (simp add: demo_content_def demo_ref_def marker_of_def attachment_marker_def ustr_of_def)
  from attachment_markers_roundtrip [OF demo_expand this] show ?thesis by blast
qed

text \<open>An image block carries its bytes back through Base64.\<close>

lemma b64_value_char: "v < 64 \<Longrightarrow> b64_value (b64_char v) = Some v"
  by (auto simp: b64_value_def b64_char_def)

lemma b64_value_pad [simp]: "b64_value 61 = None"
  by (simp add: b64_value_def)

lemma b64_roundtrip: "\<forall>d \<in> set data. d < 256 \<Longrightarrow> b64decode (b64encode data) = Some data"
proof (induction data rule: b64encode.induct)
  case (2 a)
  then have "b64_value (b64_char (a div 4)) = Some (a div 4)" "b64_value (b64_char (a mod 4 * 16)) = Some (a mod 4 * 16)"
    by (auto intro!: b64_value_char)
  then show ?case by (simp add: b64_group_def)
next
  case (3 a b)
  have "a mod 4 * 16 + b div 16 < 64" using 3 by (simp, linarith)
  moreover have "b mod 16 * 4 < 64" "a div 4 < 64" using 3 by auto
  moreover have "(a mod 4 * 16 + b div 16) div 16 = a mod 4" "(a mod 4 * 16 + b div 16) mod 16 = b div 16"
    using 3 by auto
  ultimately show ?case by (simp add: b64_group_def b64_value_char)
next
  case (4 a b c ds)
  have "a mod 4 * 16 + b div 16 < 64" "b mod 16 * 4 + c div 64 < 64" using 4 by (simp_all, linarith+)
  moreover have "c mod 64 < 64" "a div 4 < 64" using 4 by auto
  moreover have "(a mod 4 * 16 + b div 16) div 16 = a mod 4" "(a mod 4 * 16 + b div 16) mod 16 = b div 16"
    "(b mod 16 * 4 + c div 64) div 4 = b mod 16" "(b mod 16 * 4 + c div 64) mod 4 = c div 64"
    using 4 by auto
  ultimately show ?case using 4 by (simp add: b64_group_def b64_value_char)
qed simp

section \<open>What the public sees\<close>

lemma block_get_pop [simp]: "block_get (block_pop b k) k' = (if ustr_of k' = ustr_of k then None else block_get b k')"
  by (simp add: block_get_def block_pop_def)

lemma ustr_of_inject [simp]: "ustr_of s = ustr_of t \<longleftrightarrow> s = t"
proof
  assume "ustr_of s = ustr_of t"
  then have "map (of_char :: char \<Rightarrow> nat) s = map of_char t" by (simp add: ustr_of_def)
  then show "s = t" by (rule map_injective) (simp add: inj_on_def)
qed simp

lemma redact_block_get:
  "block_get (redact_block b) k =
    (if k = ''_sdk'' \<or> k = ''signature'' \<and> block_is b ''thinking'' \<or> k = ''data'' \<and> block_is b ''redacted_thinking''
     then None else block_get b k)"
  by (auto simp: redact_block_def Let_def block_is_def)

lemma strip_loop_subseq: "subseq (strip_loop counts bs) bs"
  by (induction counts bs rule: strip_loop.induct) (auto split: option.splits)

text \<open>
  C15. The public view of a message leaks no provider-private data and invents nothing. Every block
  of a \<open>MessageResponse\<close> comes, in order, from a stored block of the message, with all its fields but
  these: no block has the SDK payload \<open>_sdk\<close>, no thinking block its signature, no redacted
  thinking block its encrypted data. A human message never shows the runtime header of its session.
\<close>

theorem public_message_redacted:
  assumes "message_response_of m refs session = Inr r"
  shows "(\<exists>source. mr_content r = map redact_block source \<and> subseq source (m_content m)) \<and>
    (\<forall>b \<in> set (mr_content r). block_get b ''_sdk'' = None \<and>
      (block_is b ''thinking'' \<longrightarrow> block_get b ''signature'' = None) \<and>
      (block_is b ''redacted_thinking'' \<longrightarrow> block_get b ''data'' = None)) \<and>
    (mr_kind r = ''human'' \<and> strip_provider_attachment_markers (m_content m) (case refs of None \<Rightarrow> [] | Some rs \<Rightarrow> rs) = h # rest \<and>
      runtime_matches_session h session \<longrightarrow> mr_content r = map redact_block rest)"
proof -
  define stripped where "stripped = strip_provider_attachment_markers (m_content m) (case refs of None \<Rightarrow> [] | Some rs \<Rightarrow> rs)"
  define source where "source = (if m_kind m = ''human'' \<and> stripped \<noteq> [] \<and> runtime_matches_session (hd stripped) session
      then tl stripped else stripped)"
  have r: "mr_content r = map redact_block source" "mr_kind r = m_kind m"
    using assms
    by (auto simp: message_response_of_def Let_def bind_result_Inr_iff public_content_def source_def stripped_def
        split: prod.splits)
  have "subseq stripped (m_content m)"
    unfolding stripped_def strip_provider_attachment_markers_def by (rule strip_loop_subseq)
  moreover have "subseq source stripped" by (cases stripped) (auto simp: source_def)
  ultimately have "subseq source (m_content m)" using subseq_order.order_trans by blast
  moreover have "block_get b ''_sdk'' = None \<and> (block_is b ''thinking'' \<longrightarrow> block_get b ''signature'' = None) \<and>
      (block_is b ''redacted_thinking'' \<longrightarrow> block_get b ''data'' = None)" if "b \<in> set (mr_content r)" for b
    using that by (auto simp: r redact_block_get block_is_def split: if_splits)
  moreover have "mr_content r = map redact_block rest"
    if "mr_kind r = ''human''" "stripped = h # rest" "runtime_matches_session h session"
    using that by (simp add: r source_def)
  ultimately show ?thesis using r stripped_def by blast
qed

definition demo_thought :: block where
  "demo_thought = [(ustr_of ''type'', JStr (ustr_of ''thinking'')), (ustr_of ''signature'', JNull)]"

definition demo_assistant :: message_row where
  "demo_assistant = \<lparr>m_id = 1, m_kind = ''assistant'', m_content = [demo_thought],
     m_created_at = 0, m_fingerprint = None, m_channel_context = None, m_sender_id = None,
     m_sender_display_name = None, m_sender_classification = None, m_ingress_tool_profile = None\<rparr>"

theorem public_message_redacted_witness:
  "\<exists>b. mr_content (projr (message_response_of demo_assistant None demo_session)) = [b] \<and>
     block_is b ''thinking'' \<and> block_get b ''signature'' = None"
proof -
  let ?r = "projr (message_response_of demo_assistant None demo_session)"
  have ok: "message_response_of demo_assistant None demo_session = Inr ?r"
    by (simp add: message_response_of_def demo_assistant_def provider_role_def)
  have content: "mr_content ?r = [redact_block demo_thought]"
    by (simp add: message_response_of_def public_content_def demo_assistant_def provider_role_def
        strip_provider_attachment_markers_def split: option.splits)
  have "block_is demo_thought ''thinking''"
    by (simp add: demo_thought_def block_is_def block_get_def dict_get_Cons)
  then have kind: "block_is (redact_block demo_thought) ''thinking''"
    by (simp add: redact_block_get block_is_def)
  show ?thesis
    using public_message_redacted [OF ok, of demo_thought "[]"] content kind by simp
qed

end
