(* ===== verification/Chat_History.thy ===== *)
theory Chat_History
  imports Chat_Public "HOL-Library.Multiset"
begin

text \<open>
  Persisted conversations: \<open>chat/repair.py\<close> closes a batch of tool calls that a restart left
  without results, and \<open>chat/context.py\<close> projects the stored rows into the messages sent to the
  provider, refusing histories in which tool results do not follow their calls. The rows are
  the result of the query, ordered by creation time. A failing projection returns an error value;
  a block whose \<open>type\<close> is a list or an object raises a \<open>TypeError\<close> in the set lookups, since such
  values are not hashable.
\<close>

datatype history_error = InvalidHistory string | HistoryProjection projection_error

definition lift_projection :: "projection_error + 'a \<Rightarrow> history_error + 'a" where
  "lift_projection r = (case r of Inl e \<Rightarrow> Inl (HistoryProjection e) | Inr x \<Rightarrow> Inr x)"

definition invalid_history :: "string \<Rightarrow> history_error + 'a" where
  "invalid_history message = Inl (InvalidHistory message)"

section \<open>Repair\<close>

definition batch_message :: string where
  "batch_message = ''incomplete tool batch is not at the active tail''"

definition string_field :: "block \<Rightarrow> string \<Rightarrow> ustr option" where
  "string_field b k = optional_string (block_get b k)"

definition repair_tool_uses :: "block list \<Rightarrow> ustr list" where
  "repair_tool_uses content =
     concat (map (\<lambda>b. if block_is b ''tool_use''
                      then (case string_field b ''id'' of Some i \<Rightarrow> [i] | None \<Rightarrow> []) else []) content)"

fun repair_results :: "block list \<Rightarrow> ustr list \<Rightarrow> history_error + ustr list" where
  "repair_results [] unresolved = Inr unresolved"
| "repair_results (b # bs) unresolved =
     (case string_field b ''tool_use_id'' of
        Some i \<Rightarrow> if block_is b ''tool_result'' \<and> i \<in> set unresolved
                  then repair_results bs (remove1 i unresolved) else invalid_history batch_message
      | None \<Rightarrow> invalid_history batch_message)"

definition tool_result_kind :: "string \<Rightarrow> bool" where
  "tool_result_kind kind \<longleftrightarrow> kind = ''tool_result'' \<or> kind = ''synthetic_tool_result''"

definition repair_row :: "message_row \<Rightarrow> ustr list \<Rightarrow> history_error + ustr list" where
  "repair_row row unresolved =
     (if m_kind row = ''assistant''
        then if unresolved \<noteq> [] then invalid_history batch_message else Inr (repair_tool_uses (m_content row))
      else if tool_result_kind (m_kind row)
        then if m_content row = [] \<or> unresolved = [] then invalid_history batch_message
             else repair_results (m_content row) unresolved
      else if unresolved \<noteq> [] then invalid_history batch_message else Inr unresolved)"

fun repair_loop :: "message_row list \<Rightarrow> ustr list \<Rightarrow> history_error + ustr list" where
  "repair_loop [] unresolved = Inr unresolved"
| "repair_loop (row # rows) unresolved = bind_result (repair_row row unresolved) (repair_loop rows)"

definition tail_missing_tool_uses :: "message_row list \<Rightarrow> history_error + ustr list" where
  "tail_missing_tool_uses rows = repair_loop rows []"

definition RESTART_TEXT :: ustr where
  "RESTART_TEXT = ustr_of ''[server restart: tool execution outcome is unknown because the OpenOctopus '' @
     ustr_of ''server restarted before recording its result]''"

definition synthetic_tool_result :: "ustr \<Rightarrow> ustr \<Rightarrow> ustr \<Rightarrow> block" where
  "synthetic_tool_result tool_id code t =
     [(ustr_of ''type'', JStr (ustr_of ''tool_result'')), (ustr_of ''tool_use_id'', JStr tool_id),
      (ustr_of ''content'', JList [JObj (text_block t)]), (ustr_of ''is_error'', JBool True),
      (ustr_of ''code'', JStr code)]"

definition repair_message :: "uuid \<Rightarrow> int \<Rightarrow> ustr \<Rightarrow> message_row" where
  "repair_message new_id created_at tool_id =
     \<lparr>m_id = new_id, m_kind = ''synthetic_tool_result'',
      m_content = [synthetic_tool_result tool_id (ustr_of ''tool_execution_outcome_unknown'') RESTART_TEXT],
      m_created_at = created_at, m_fingerprint = None, m_channel_context = None, m_sender_id = None,
      m_sender_display_name = None, m_sender_classification = None, m_ingress_tool_profile = None\<rparr>"

text \<open>
  \<open>repair_unpaired_tool_uses\<close>: \<open>now\<close> is the clock and \<open>new_id\<close> the fresh identifiers; times are in
  microseconds. The result is the rows to add; an empty list commits nothing.
\<close>

definition repair_unpaired_tool_uses ::
  "int \<Rightarrow> (nat \<Rightarrow> uuid) \<Rightarrow> message_row list \<Rightarrow> history_error + message_row list" where
  "repair_unpaired_tool_uses now new_id rows =
     bind_result (tail_missing_tool_uses rows) (\<lambda>missing.
       if missing = [] then Inr []
       else let created_at = max now (m_created_at (last rows) + 1)
            in Inr (map (\<lambda>(i, tool_id). repair_message (new_id i) (created_at + int i) tool_id)
                      (enumerate 0 missing)))"

section \<open>The provider's messages\<close>

record provider_message =
  pm_role :: string
  pm_content :: "block list"

definition provider_block :: "block \<Rightarrow> block" where
  "provider_block b = (if block_is b ''tool_result'' then block_pop b ''code'' else b)"

definition unhashable_type :: "block \<Rightarrow> bool" where
  "unhashable_type b \<longleftrightarrow>
     (case block_get b ''type'' of Some (JList _) \<Rightarrow> True | Some (JObj _) \<Rightarrow> True | _ \<Rightarrow> False)"

definition without_thinking :: "block list \<Rightarrow> history_error + block list" where
  "without_thinking content =
     (if \<exists>b \<in> set content. unhashable_type b then Inl (HistoryProjection ProjectionTypeError)
      else Inr (filter (\<lambda>b. \<not> block_is b ''thinking'' \<and> \<not> block_is b ''redacted_thinking'') content))"

definition row_context_limit :: "(uuid \<Rightarrow> int option) \<Rightarrow> message_row \<Rightarrow> int option" where
  "row_context_limit limits row = limits (m_id row)"

definition row_content ::
  "ustr \<Rightarrow> (uuid \<Rightarrow> int option) \<Rightarrow> message_row \<Rightarrow> history_error + (string \<times> block list)" where
  "row_content fingerprint limits row =
     bind_result (if m_kind row = ''human''
                  then lift_projection (project_channel_human_content row (row_context_limit limits row))
                  else Inr (map provider_block (m_content row))) (\<lambda>content.
     bind_result (lift_projection (provider_role (m_kind row))) (\<lambda>role.
     bind_result (if role = ''assistant'' \<and> m_fingerprint row \<noteq> Some fingerprint
                  then without_thinking content else Inr content) (\<lambda>content.
       Inr (role, content))))"

fun result_ids :: "block list \<Rightarrow> history_error + ustr list" where
  "result_ids [] = Inr []"
| "result_ids (b # bs) =
     (case string_field b ''tool_use_id'' of
        None \<Rightarrow> invalid_history ''tool-result row contains an invalid tool_use_id''
      | Some i \<Rightarrow> bind_result (result_ids bs) (\<lambda>is. Inr (i # is)))"

fun resolve_ids :: "ustr list \<Rightarrow> ustr list \<Rightarrow> history_error + ustr list" where
  "resolve_ids [] unresolved = Inr unresolved"
| "resolve_ids (i # is) unresolved =
     (if i \<in> set unresolved then resolve_ids is (remove1 i unresolved)
      else invalid_history ''tool-result row is duplicate or belongs to another batch'')"

fun use_ids :: "block list \<Rightarrow> history_error + ustr list" where
  "use_ids [] = Inr []"
| "use_ids (b # bs) =
     (if \<not> block_is b ''tool_use'' then use_ids bs
      else case string_field b ''id'' of
             Some i \<Rightarrow> if i = [] then invalid_history ''assistant row contains an invalid tool-use id''
                       else bind_result (use_ids bs) (\<lambda>is. Inr (i # is))
           | None \<Rightarrow> invalid_history ''assistant row contains an invalid tool-use id'')"

record projection =
  pj_messages :: "provider_message list"
  pj_unresolved :: "ustr list"
  pj_previous :: bool

definition extend_last :: "block list \<Rightarrow> provider_message list \<Rightarrow> provider_message list" where
  "extend_last content ms = butlast ms @ [(last ms)\<lparr>pm_content := pm_content (last ms) @ content\<rparr>]"

definition project_tool_results :: "block list \<Rightarrow> projection \<Rightarrow> history_error + projection" where
  "project_tool_results content p =
     (if pj_unresolved p = [] \<or> (\<exists>b \<in> set content. \<not> block_is b ''tool_result'')
        then invalid_history ''tool-result row has no adjacent assistant tool-use batch''
      else bind_result (result_ids content) (\<lambda>is.
        bind_result (resolve_ids is (pj_unresolved p)) (\<lambda>unresolved.
          Inr \<lparr>pj_messages = (if pj_previous p then extend_last content (pj_messages p)
                              else pj_messages p @ [\<lparr>pm_role = ''user'', pm_content = content\<rparr>]),
               pj_unresolved = unresolved, pj_previous = True\<rparr>)))"

definition project_plain :: "string \<Rightarrow> block list \<Rightarrow> projection \<Rightarrow> history_error + projection" where
  "project_plain role content p =
     (if pj_unresolved p \<noteq> []
        then invalid_history ''message boundary splits an incomplete tool-result batch''
      else bind_result
        (if role = ''assistant''
         then bind_result (use_ids content) (\<lambda>is.
           if \<not> distinct is then invalid_history ''assistant row contains duplicate tool-use ids'' else Inr is)
         else Inr []) (\<lambda>unresolved.
          Inr \<lparr>pj_messages = pj_messages p @ [\<lparr>pm_role = role, pm_content = content\<rparr>],
               pj_unresolved = unresolved, pj_previous = False\<rparr>))"

definition project_empty :: "message_row \<Rightarrow> projection \<Rightarrow> history_error + projection" where
  "project_empty row p =
     (if tool_result_kind (m_kind row) then invalid_history ''tool-result row is empty''
      else if pj_unresolved p \<noteq> []
        then invalid_history ''message boundary splits an incomplete tool-result batch''
      else Inr (p\<lparr>pj_previous := False\<rparr>))"

definition project_row ::
  "ustr \<Rightarrow> (uuid \<Rightarrow> int option) \<Rightarrow> message_row \<Rightarrow> projection \<Rightarrow> history_error + projection" where
  "project_row fingerprint limits row p =
     bind_result (row_content fingerprint limits row) (\<lambda>(role, content).
       if content = [] then project_empty row p
       else if tool_result_kind (m_kind row) then project_tool_results content p
       else project_plain role content p)"

fun project_loop ::
  "ustr \<Rightarrow> (uuid \<Rightarrow> int option) \<Rightarrow> message_row list \<Rightarrow> projection \<Rightarrow> history_error + projection" where
  "project_loop fingerprint limits [] p = Inr p"
| "project_loop fingerprint limits (row # rows) p =
     bind_result (project_row fingerprint limits row p) (project_loop fingerprint limits rows)"

definition project_message_rows ::
  "ustr \<Rightarrow> (uuid \<Rightarrow> int option) \<Rightarrow> message_row list \<Rightarrow> history_error + provider_message list" where
  "project_message_rows fingerprint limits rows =
     bind_result (project_loop fingerprint limits rows \<lparr>pj_messages = [], pj_unresolved = [], pj_previous = False\<rparr>) (\<lambda>p.
       if pj_unresolved p \<noteq> []
         then invalid_history ''assistant tool-use batch is missing persisted results''
       else Inr (pj_messages p))"

definition project_provider_messages ::
  "ustr \<Rightarrow> (uuid \<Rightarrow> int option) \<Rightarrow> message_row list \<Rightarrow> message_row list \<Rightarrow> history_error + provider_message list" where
  "project_provider_messages fingerprint limits rows pending =
     bind_result (project_message_rows fingerprint limits rows) (\<lambda>projected.
       bind_result (map_result (\<lambda>row. bind_result
           (lift_projection (project_channel_human_content row (row_context_limit limits row)))
           (\<lambda>content. Inr \<lparr>pm_role = ''user'', pm_content = content\<rparr>)) pending) (\<lambda>extra.
         Inr (projected @ extra)))"


section \<open>Tool calls and their results are paired\<close>

text \<open>The ids of the calls and of the results in a content, as the provider reads them.\<close>

definition call_ids :: "block list \<Rightarrow> ustr list" where
  "call_ids content = repair_tool_uses content"

definition answer_ids :: "block list \<Rightarrow> ustr list" where
  "answer_ids content = concat (map (\<lambda>b. case string_field b ''tool_use_id'' of
     Some i \<Rightarrow> if block_is b ''tool_result'' then [i] else [] | None \<Rightarrow> []) content)"

definition answers :: "provider_message \<Rightarrow> provider_message list \<Rightarrow> bool" where
  "answers m ms \<longleftrightarrow> pm_role m = ''assistant'' \<and> call_ids (pm_content m) \<noteq> [] \<longrightarrow>
     (case ms of [] \<Rightarrow> False
      | n # _ \<Rightarrow> pm_role n = ''user'' \<and> mset (answer_ids (pm_content n)) = mset (call_ids (pm_content m)))"

fun well_paired :: "provider_message list \<Rightarrow> bool" where
  "well_paired [] = True"
| "well_paired (m # ms) = (answers m ms \<and> well_paired ms)"

text \<open>All but the last message are answered; the last may still be open.\<close>

fun paired_before :: "provider_message list \<Rightarrow> bool" where
  "paired_before [] = True"
| "paired_before [m] = True"
| "paired_before (m # n # ms) = (answers m [n] \<and> paired_before (n # ms))"

lemma answers_cong: "ms \<noteq> [] \<Longrightarrow> answers m ms \<longleftrightarrow> answers m [hd ms]"
  by (cases ms) (simp_all add: answers_def)

lemma well_paired_iff: "well_paired ms \<longleftrightarrow> paired_before ms \<and> (ms = [] \<or> answers (last ms) [])"
proof (induction ms rule: paired_before.induct)
  case (3 m n ms)
  have "answers m (n # ms) \<longleftrightarrow> answers m [n]" by (simp add: answers_def)
  with 3 show ?case by auto
qed simp_all

lemma paired_before_snoc: "paired_before (ms @ [m]) \<longleftrightarrow> paired_before ms \<and> (ms = [] \<or> answers (last ms) [m])"
proof (induction ms rule: paired_before.induct)
  case (3 m' n ms)
  then show ?case by (cases ms) auto
qed simp_all

lemma answer_ids_append [simp]: "answer_ids (xs @ ys) = answer_ids xs @ answer_ids ys"
  by (simp add: answer_ids_def)

lemma result_ids_answers:
  "result_ids content = Inr is \<Longrightarrow> \<forall>b \<in> set content. block_is b ''tool_result'' \<Longrightarrow> answer_ids content = is"
  by (induction content arbitrary: "is")
    (auto simp: answer_ids_def bind_result_Inr_iff invalid_history_def split: option.splits)

lemma use_ids_calls: "use_ids content = Inr is \<Longrightarrow> call_ids content = is"
  by (induction content arbitrary: "is")
    (auto simp: call_ids_def repair_tool_uses_def bind_result_Inr_iff invalid_history_def split: option.splits if_splits)

lemma resolve_ids_mset: "resolve_ids is unresolved = Inr rest \<Longrightarrow> mset unresolved = mset is + mset rest"
proof (induction "is" arbitrary: unresolved)
  case (Cons i "is")
  then have i: "i \<in> set unresolved" "resolve_ids is (remove1 i unresolved) = Inr rest"
    by (auto simp: invalid_history_def split: if_splits)
  from Cons.IH [OF i(2)] i(1) show ?case using insert_DiffM [of i "mset unresolved"] by simp
qed simp

text \<open>The invariant of the loop.\<close>

definition projection_ok :: "projection \<Rightarrow> bool" where
  "projection_ok p \<longleftrightarrow>
     (if pj_previous p
      then \<exists>ms a u. pj_messages p = ms @ [a, u] \<and> paired_before (ms @ [a]) \<and>
        pm_role a = ''assistant'' \<and> pm_role u = ''user'' \<and>
        mset (call_ids (pm_content a)) = mset (answer_ids (pm_content u)) + mset (pj_unresolved p)
      else paired_before (pj_messages p) \<and>
        (pj_unresolved p \<noteq> [] \<longrightarrow> pj_messages p \<noteq> [] \<and> pm_role (last (pj_messages p)) = ''assistant'') \<and>
        (pj_messages p \<noteq> [] \<and> pm_role (last (pj_messages p)) = ''assistant'' \<longrightarrow>
          call_ids (pm_content (last (pj_messages p))) = pj_unresolved p))"

lemma projection_ok_closed: "projection_ok p \<Longrightarrow> pj_unresolved p = [] \<Longrightarrow> well_paired (pj_messages p)"
proof (cases "pj_previous p")
  case True
  assume "projection_ok p" "pj_unresolved p = []"
  with True obtain ms a u where p: "pj_messages p = ms @ [a, u]" "paired_before (ms @ [a])"
      "pm_role a = ''assistant''" "pm_role u = ''user''"
      "mset (call_ids (pm_content a)) = mset (answer_ids (pm_content u))"
    by (auto simp: projection_ok_def)
  have "pj_messages p = (ms @ [a]) @ [u]" using p by simp
  moreover have "answers a [u]" using p by (simp add: answers_def)
  ultimately have "paired_before (pj_messages p)" using p(2) paired_before_snoc [of "ms @ [a]" u] by simp
  then show ?thesis using p by (simp add: well_paired_iff answers_def)
next
  case False
  assume "projection_ok p" "pj_unresolved p = []"
  with False show ?thesis by (auto simp: projection_ok_def well_paired_iff answers_def)
qed

lemma answers_last:
  "projection_ok p \<Longrightarrow> pj_unresolved p = [] \<Longrightarrow> paired_before (pj_messages p @ [m])"
  using projection_ok_closed [of p] answers_def by (auto simp: well_paired_iff paired_before_snoc)

lemma project_tool_results_ok:
  assumes ok: "projection_ok p" and step: "project_tool_results content p = Inr q"
  shows "projection_ok q"
proof -
  from step obtain "is" unresolved where ids: "result_ids content = Inr is"
      "resolve_ids is (pj_unresolved p) = Inr unresolved"
      "\<forall>b \<in> set content. block_is b ''tool_result''" "pj_unresolved p \<noteq> []"
    and q: "q = \<lparr>pj_messages = (if pj_previous p then extend_last content (pj_messages p)
                              else pj_messages p @ [\<lparr>pm_role = ''user'', pm_content = content\<rparr>]),
               pj_unresolved = unresolved, pj_previous = True\<rparr>"
    by (auto simp: project_tool_results_def bind_result_Inr_iff invalid_history_def split: if_splits)
  have mset: "mset (pj_unresolved p) = mset (answer_ids content) + mset unresolved"
    using resolve_ids_mset [OF ids(2)] result_ids_answers [OF ids(1,3)] by simp
  show ?thesis
  proof (cases "pj_previous p")
    case True
    with ok obtain ms a u where p: "pj_messages p = ms @ [a, u]" "paired_before (ms @ [a])"
        "pm_role a = ''assistant''" "pm_role u = ''user''"
        "mset (call_ids (pm_content a)) = mset (answer_ids (pm_content u)) + mset (pj_unresolved p)"
      by (auto simp: projection_ok_def)
    have "pj_messages q = ms @ [a, u\<lparr>pm_content := pm_content u @ content\<rparr>]"
      using True by (simp add: q extend_last_def p(1) butlast_append)
    then show ?thesis
      unfolding projection_ok_def using p mset
      by (auto simp: q intro!: exI [of _ ms] exI [of _ a] exI [of _ "u\<lparr>pm_content := pm_content u @ content\<rparr>"])
  next
    case False
    with ok ids(4) have p: "paired_before (pj_messages p)" "pj_messages p \<noteq> []"
        "pm_role (last (pj_messages p)) = ''assistant''"
        "call_ids (pm_content (last (pj_messages p))) = pj_unresolved p"
      by (auto simp: projection_ok_def)
    then have "pj_messages p = butlast (pj_messages p) @ [last (pj_messages p)]" by simp
    then obtain ms a where split: "pj_messages p = ms @ [a]" by blast
    with p mset show ?thesis
      using False unfolding projection_ok_def
      by (auto simp: q intro!: exI [of _ ms] exI [of _ a] exI [of _ "\<lparr>pm_role = ''user'', pm_content = content\<rparr>"])
  qed
qed

lemma project_plain_ok:
  assumes ok: "projection_ok p" and step: "project_plain role content p = Inr q"
  shows "projection_ok q"
proof -
  have none: "pj_unresolved p = []" using step by (auto simp: project_plain_def invalid_history_def split: if_splits)
  from step obtain unresolved where
      u: "if role = ''assistant'' then use_ids content = Inr unresolved else unresolved = []"
    and q: "q = \<lparr>pj_messages = pj_messages p @ [\<lparr>pm_role = role, pm_content = content\<rparr>],
               pj_unresolved = unresolved, pj_previous = False\<rparr>"
    by (auto simp: project_plain_def bind_result_Inr_iff invalid_history_def split: if_splits)
  have "paired_before (pj_messages q)" using answers_last [OF ok none] by (simp add: q)
  with u use_ids_calls [of content unresolved] show ?thesis
    by (auto simp: projection_ok_def q split: if_splits)
qed

lemma project_empty_ok:
  assumes ok: "projection_ok p" and step: "project_empty row p = Inr q"
  shows "projection_ok q"
proof -
  have none: "pj_unresolved p = []" and q: "q = p\<lparr>pj_previous := False\<rparr>"
    using step by (auto simp: project_empty_def invalid_history_def split: if_splits)
  have "well_paired (pj_messages p)" using projection_ok_closed [OF ok none] .
  then show ?thesis by (auto simp: projection_ok_def q none well_paired_iff answers_def)
qed

lemma project_loop_ok:
  "projection_ok p \<Longrightarrow> project_loop fingerprint limits rows p = Inr q \<Longrightarrow> projection_ok q"
proof (induction rows arbitrary: p)
  case (Cons row rows)
  obtain r where r: "project_row fingerprint limits row p = Inr r" "project_loop fingerprint limits rows r = Inr q"
    using Cons.prems(2) by (auto simp: bind_result_Inr_iff)
  have "projection_ok r"
    using r(1) Cons.prems(1)
    by (auto simp: project_row_def bind_result_Inr_iff split: if_splits
        intro: project_empty_ok project_tool_results_ok project_plain_ok)
  with r(2) show ?case by (rule Cons.IH [rotated])
qed simp

lemma project_rows_paired:
  assumes "project_message_rows fingerprint limits rows = Inr ms"
  shows "well_paired ms"
proof -
  obtain p where p: "project_loop fingerprint limits rows \<lparr>pj_messages = [], pj_unresolved = [], pj_previous = False\<rparr> = Inr p"
      "pj_unresolved p = []" "ms = pj_messages p"
    using assms by (auto simp: project_message_rows_def bind_result_Inr_iff invalid_history_def split: if_splits)
  have "projection_ok p" by (rule project_loop_ok [OF _ p(1)]) (simp add: projection_ok_def)
  then show ?thesis using projection_ok_closed p by simp
qed

lemma well_paired_append_user:
  "well_paired ms \<Longrightarrow> \<forall>m \<in> set ns. pm_role m = ''user'' \<Longrightarrow> well_paired (ms @ ns)"
proof (induction ms)
  case Nil
  have "well_paired ns" using Nil(2) by (induction ns) (auto simp: answers_def)
  then show ?case by simp
next
  case (Cons m ms)
  then have "answers m (ms @ ns)" by (cases ms) (auto simp: answers_def)
  with Cons show ?case by simp
qed

text \<open>
  C16. What the provider receives is well paired: whenever the projection of stored and pending rows
  succeeds, every assistant message that calls tools is directly followed by a user message that
  answers exactly its calls, each once, and nothing is sent with an open call.
\<close>

theorem provider_messages_paired:
  assumes "project_provider_messages fingerprint limits rows pending = Inr ms"
  shows "well_paired ms"
proof -
  obtain projected extra where p: "project_message_rows fingerprint limits rows = Inr projected"
    and extra: "map_result (\<lambda>row. bind_result
           (lift_projection (project_channel_human_content row (row_context_limit limits row)))
           (\<lambda>content. Inr \<lparr>pm_role = ''user'', pm_content = content\<rparr>)) pending = Inr extra"
    and ms: "ms = projected @ extra"
    using assms by (auto simp: project_provider_messages_def bind_result_Inr_iff)
  have "pm_role m = ''user''" if "m \<in> set extra" for m
  proof -
    obtain i where "i < length extra" "m = extra ! i" using \<open>m \<in> set extra\<close> unfolding in_set_conv_nth by blast
    then show ?thesis
      using map_result_Inr_nth [OF extra, of i] map_result_Inr_length [OF extra]
      by (auto simp: bind_result_Inr_iff dest: sym)
  qed
  with project_rows_paired [OF p] show ?thesis unfolding ms by (blast intro: well_paired_append_user)
qed

section \<open>Repaired histories can be sent\<close>

definition sendable :: "ustr \<Rightarrow> (uuid \<Rightarrow> int option) \<Rightarrow> message_row \<Rightarrow> bool" where
  "sendable fingerprint limits row \<longleftrightarrow>
     (case row_content fingerprint limits row of
        Inl _ \<Rightarrow> False
      | Inr (role, content) \<Rightarrow>
          role = ''assistant'' \<longrightarrow>
            (case use_ids content of
               Inl _ \<Rightarrow> False
             | Inr is \<Rightarrow> distinct is \<and> (m_kind row \<noteq> ''assistant'' \<longrightarrow> is = [])))"

lemma provider_block_is [simp]: "block_is (provider_block b) t \<longleftrightarrow> block_is b t"
  by (simp add: provider_block_def block_is_def)

lemma provider_block_field [simp]: "string_field (provider_block b) ''tool_use_id'' = string_field b ''tool_use_id''"
  by (simp add: provider_block_def string_field_def)

lemma repair_tool_uses_provider: "repair_tool_uses (map provider_block content) = repair_tool_uses content"
proof -
  have "block_is b ''tool_use'' \<Longrightarrow> provider_block b = b" for b by (simp add: provider_block_def block_is_def)
  then show ?thesis by (induction content) (simp_all add: repair_tool_uses_def)
qed

lemma repair_tool_uses_thinking:
  "without_thinking content = Inr content' \<Longrightarrow> repair_tool_uses content' = repair_tool_uses content"
proof -
  assume "without_thinking content = Inr content'"
  then have "content' = filter (\<lambda>b. \<not> block_is b ''thinking'' \<and> \<not> block_is b ''redacted_thinking'') content"
    by (auto simp: without_thinking_def split: if_splits)
  then show ?thesis by (induction content arbitrary: content') (auto simp: repair_tool_uses_def block_is_def)
qed

lemma row_content_assistant:
  assumes "row_content fingerprint limits row = Inr (role, content)" "m_kind row = ''assistant''"
  shows "role = ''assistant''" "repair_tool_uses content = repair_tool_uses (m_content row)"
  using assms repair_tool_uses_provider [of "m_content row"]
    repair_tool_uses_thinking [of "map provider_block (m_content row)"]
  by (auto simp: row_content_def bind_result_Inr_iff provider_role_def lift_projection_def split: if_splits)

lemma row_content_tool_result:
  assumes "tool_result_kind (m_kind row)"
  shows "row_content fingerprint limits row = Inr (''user'', map provider_block (m_content row))"
  using assms by (auto simp: row_content_def provider_role_def lift_projection_def tool_result_kind_def)

lemma row_content_user:
  assumes "row_content fingerprint limits row = Inr (role, content)"
    and "m_kind row \<noteq> ''assistant''" "m_kind row \<noteq> ''synthetic_assistant_error''"
  shows "role = ''user''"
  using assms by (auto simp: row_content_def bind_result_Inr_iff provider_role_def lift_projection_def split: if_splits)

lemma repair_results_resolve:
  "repair_results content unresolved = Inr rest \<Longrightarrow>
    (\<forall>b \<in> set content. block_is b ''tool_result'') \<and>
    (\<exists>is. result_ids (map provider_block content) = Inr is \<and> resolve_ids is unresolved = Inr rest)"
proof (induction content arbitrary: unresolved)
  case (Cons b bs)
  from Cons.prems obtain i where i: "string_field b ''tool_use_id'' = Some i" "block_is b ''tool_result''" "i \<in> set unresolved"
      "repair_results bs (remove1 i unresolved) = Inr rest"
    by (auto simp: invalid_history_def split: option.splits if_splits)
  from Cons.IH [OF i(4)] i show ?case by auto
qed simp

lemma project_row_follows:
  assumes send: "sendable fingerprint limits row" and rep: "repair_row row (pj_unresolved p) = Inr unresolved"
  shows "\<exists>q. project_row fingerprint limits row p = Inr q \<and> pj_unresolved q = unresolved"
proof -
  obtain role content where rc: "row_content fingerprint limits row = Inr (role, content)"
    using send by (auto simp: sendable_def split: sum.splits)
  consider "m_kind row = ''assistant''" | "tool_result_kind (m_kind row)"
    | "m_kind row \<noteq> ''assistant''" "\<not> tool_result_kind (m_kind row)" by blast
  then show ?thesis
  proof cases
    case 1
    have role: "role = ''assistant''" and uses: "repair_tool_uses content = repair_tool_uses (m_content row)"
      using row_content_assistant [OF rc 1] by simp_all
    obtain "is" where ids: "use_ids content = Inr is" "distinct is"
      using send rc role by (auto simp: sendable_def split: sum.splits)
    have "pj_unresolved p = []" "unresolved = is"
      using rep 1 uses use_ids_calls [OF ids(1)]
      by (auto simp: repair_row_def call_ids_def invalid_history_def split: if_splits)
    moreover have "\<not> tool_result_kind (m_kind row)" using 1 by (simp add: tool_result_kind_def)
    ultimately show ?thesis
      using rc role ids by (auto simp: project_row_def project_empty_def project_plain_def)
  next
    case 2
    then have "m_kind row \<noteq> ''assistant''" by (auto simp: tool_result_kind_def)
    with 2 rep have "m_content row \<noteq> []" "pj_unresolved p \<noteq> []" "repair_results (m_content row) (pj_unresolved p) = Inr unresolved"
      by (auto simp: repair_row_def invalid_history_def split: if_splits)
    with repair_results_resolve [OF this(3)] 2 show ?thesis
      by (auto simp: project_row_def row_content_tool_result project_tool_results_def)
  next
    case 3
    with rep have none: "pj_unresolved p = []" "unresolved = []"
      by (auto simp: repair_row_def invalid_history_def split: if_splits)
    have "role = ''assistant'' \<longrightarrow> use_ids content = Inr []"
      using send rc 3 by (auto simp: sendable_def split: sum.splits)
    with none rc 3 show ?thesis
      by (auto simp: project_row_def project_empty_def project_plain_def)
  qed
qed

lemma project_loop_follows:
  "\<forall>row \<in> set rows. sendable fingerprint limits row \<Longrightarrow> repair_loop rows (pj_unresolved p) = Inr unresolved \<Longrightarrow>
    \<exists>q. project_loop fingerprint limits rows p = Inr q \<and> pj_unresolved q = unresolved"
proof (induction rows arbitrary: p)
  case (Cons row rows)
  obtain u where u: "repair_row row (pj_unresolved p) = Inr u" "repair_loop rows u = Inr unresolved"
    using Cons.prems(2) by (auto simp: bind_result_Inr_iff)
  from project_row_follows [OF _ u(1)] Cons.prems(1)
  obtain q where q: "project_row fingerprint limits row p = Inr q" "pj_unresolved q = u" by auto
  with Cons.IH [of q] Cons.prems(1) u(2) show ?case by auto
qed simp

lemma project_loop_append:
  "project_loop fingerprint limits (xs @ ys) p =
    bind_result (project_loop fingerprint limits xs p) (project_loop fingerprint limits ys)"
  by (induction xs arbitrary: p) (auto simp: bind_result_def split: sum.splits)

lemma synthetic_get [simp]:
  "block_is (synthetic_tool_result i code t) ''tool_result''"
  "string_field (synthetic_tool_result i code t) ''tool_use_id'' = Some i"
  by (simp_all add: block_is_def block_get_def synthetic_tool_result_def dict_get_def ustr_of_def
      string_field_def optional_string_def)

lemma project_repair_message:
  assumes "pj_unresolved p = i # is"
  shows "\<exists>q. project_row fingerprint limits (repair_message n c i) p = Inr q \<and> pj_unresolved q = is"
proof -
  have "tool_result_kind (m_kind (repair_message n c i))" by (simp add: tool_result_kind_def repair_message_def)
  moreover have "m_content (repair_message n c i) =
      [synthetic_tool_result i (ustr_of ''tool_execution_outcome_unknown'') RESTART_TEXT]"
    by (simp add: repair_message_def)
  ultimately show ?thesis
    using assms by (simp add: project_row_def row_content_tool_result project_tool_results_def)
qed

lemma project_repair_loop:
  "pj_unresolved p = is \<Longrightarrow>
    \<exists>q. project_loop fingerprint limits
      (map (\<lambda>(k, i). repair_message (new_id k) (c + int k) i) (enumerate n is)) p = Inr q \<and> pj_unresolved q = []"
proof (induction "is" arbitrary: p n)
  case (Cons i "is")
  obtain q where q: "project_row fingerprint limits (repair_message (new_id n) (c + int n) i) p = Inr q" "pj_unresolved q = is"
    using project_repair_message [OF Cons.prems] by blast
  from Cons.IH [OF q(2), of "Suc n"] q(1) show ?case by simp
qed simp

lemma repaired_times:
  "sorted_wrt (<) (map m_created_at (map (\<lambda>(k, i). repair_message (new_id k) (c + int k) i) (enumerate n is)))"
  "r \<in> set (map (\<lambda>(k, i). repair_message (new_id k) (c + int k) i) (enumerate n is)) \<Longrightarrow> c + int n \<le> m_created_at r"
proof -
  show bound: "r \<in> set (map (\<lambda>(k, i). repair_message (new_id k) (c + int k) i) (enumerate n is)) \<Longrightarrow>
      c + int n \<le> m_created_at r" for r n "is"
    by (auto simp: in_set_enumerate_eq repair_message_def)
  show "sorted_wrt (<) (map m_created_at (map (\<lambda>(k, i). repair_message (new_id k) (c + int k) i) (enumerate n is)))"
  proof (induction "is" arbitrary: n)
    case (Cons i "is")
    have "c + int n < m_created_at r"
      if "r \<in> set (map (\<lambda>(k, i). repair_message (new_id k) (c + int k) i) (enumerate (Suc n) is))" for r
      using bound [OF that] by simp
    then show ?case using Cons.IH [of "Suc n"] by (auto simp: repair_message_def)
  qed simp
qed

text \<open>
  C17. Repair makes a conversation sendable. When \<open>repair_unpaired_tool_uses\<close> accepts the rows of a
  session and each row can be projected on its own (its kind is known, its human content is
  valid, its tool-call ids are distinct non-empty strings), then the rows with the repair appended
  always project to provider messages, and these are well paired. The added rows are strictly later
  than the last stored row and than each other, so the query returns them at the end, in order.
\<close>

theorem repair_makes_sendable:
  assumes repair: "repair_unpaired_tool_uses now new_id rows = Inr added"
    and send: "\<forall>row \<in> set rows. sendable fingerprint limits row"
  shows "(\<exists>ms. project_message_rows fingerprint limits (rows @ added) = Inr ms \<and> well_paired ms) \<and>
    sorted_wrt (<) (map m_created_at added) \<and>
    (\<forall>r \<in> set added. m_created_at (last rows) < m_created_at r)"
proof -
  define p0 where "p0 = \<lparr>pj_messages = [], pj_unresolved = [], pj_previous = False\<rparr>"
  obtain missing where missing: "repair_loop rows [] = Inr missing"
    using repair by (auto simp: repair_unpaired_tool_uses_def tail_missing_tool_uses_def bind_result_Inr_iff)
  define c where "c = max now (m_created_at (last rows) + 1)"
  have added: "added = map (\<lambda>(k, i). repair_message (new_id k) (c + int k) i) (enumerate 0 missing)"
    using repair missing
    by (auto simp: repair_unpaired_tool_uses_def tail_missing_tool_uses_def c_def Let_def split: if_splits)
  obtain q where q: "project_loop fingerprint limits rows p0 = Inr q" "pj_unresolved q = missing"
    using project_loop_follows [OF send, of p0 missing] missing by (auto simp: p0_def)
  obtain r where r: "project_loop fingerprint limits added q = Inr r" "pj_unresolved r = []"
    using project_repair_loop [OF q(2)] unfolding added by blast
  have "project_message_rows fingerprint limits (rows @ added) = Inr (pj_messages r)"
    using q(1) r by (simp add: project_message_rows_def p0_def [symmetric] project_loop_append)
  moreover note project_rows_paired [OF this]
  moreover have "sorted_wrt (<) (map m_created_at added)" unfolding added by (rule repaired_times)
  moreover have "m_created_at (last rows) < m_created_at r" if "r \<in> set added" for r
    using repaired_times(2) [OF that [unfolded added]] by (simp add: c_def)
  ultimately show ?thesis by blast
qed


definition demo_tool_use :: block where
  "demo_tool_use = [(ustr_of ''type'', JStr (ustr_of ''tool_use'')), (ustr_of ''id'', JStr [97])]"

definition demo_call_row :: message_row where
  "demo_call_row = \<lparr>m_id = 1, m_kind = ''assistant'', m_content = [demo_tool_use],
     m_created_at = 5, m_fingerprint = Some [7], m_channel_context = None, m_sender_id = None,
     m_sender_display_name = None, m_sender_classification = None, m_ingress_tool_profile = None\<rparr>"

lemma demo_tool_use_get:
  "block_is demo_tool_use ''tool_use''" "string_field demo_tool_use ''id'' = Some [97]"
  "\<not> block_is demo_tool_use ''tool_result''"
  by (simp_all add: demo_tool_use_def block_is_def block_get_def dict_get_def ustr_of_def string_field_def optional_string_def)

lemma demo_call_content: "row_content [7] (\<lambda>_. None) demo_call_row = Inr (''assistant'', [demo_tool_use])"
  by (simp add: row_content_def demo_call_row_def provider_role_def lift_projection_def provider_block_def demo_tool_use_get)

lemma demo_call_sendable: "\<forall>row \<in> set [demo_call_row]. sendable [7] (\<lambda>_. None) row"
  by (simp add: sendable_def demo_call_content demo_tool_use_get) (simp add: demo_call_row_def)

definition demo_repair :: "message_row list" where
  "demo_repair = [repair_message 9 7 [97]]"

lemma demo_repair_ok: "repair_unpaired_tool_uses 7 (\<lambda>_. 9) [demo_call_row] = Inr demo_repair"
  by (simp add: repair_unpaired_tool_uses_def tail_missing_tool_uses_def repair_row_def demo_call_row_def
      repair_tool_uses_def demo_tool_use_get demo_repair_def)

theorem repair_makes_sendable_witness:
  "tail_missing_tool_uses [demo_call_row] = Inr [[97]] \<and>
   (\<exists>ms. project_message_rows [7] (\<lambda>_. None) ([demo_call_row] @ demo_repair) = Inr ms \<and> well_paired ms)"
proof -
  have "tail_missing_tool_uses [demo_call_row] = Inr [[97]]"
    by (simp add: tail_missing_tool_uses_def repair_row_def demo_call_row_def repair_tool_uses_def demo_tool_use_get)
  then show ?thesis using repair_makes_sendable [OF demo_repair_ok demo_call_sendable] by blast
qed

lemma demo_project:
  "project_provider_messages [7] (\<lambda>_. None) ([demo_call_row] @ demo_repair) [] =
    Inr [\<lparr>pm_role = ''assistant'', pm_content = [demo_tool_use]\<rparr>,
         \<lparr>pm_role = ''user'', pm_content =
            [provider_block (synthetic_tool_result [97] (ustr_of ''tool_execution_outcome_unknown'') RESTART_TEXT)]\<rparr>]"
proof -
  have kinds: "tool_result_kind (m_kind (repair_message 9 7 [97]))" "\<not> tool_result_kind (m_kind demo_call_row)"
    "m_content (repair_message 9 7 [97]) =
      [synthetic_tool_result [97] (ustr_of ''tool_execution_outcome_unknown'') RESTART_TEXT]"
    by (simp_all add: tool_result_kind_def repair_message_def demo_call_row_def)
  show ?thesis
    by (simp add: project_provider_messages_def project_message_rows_def project_row_def demo_repair_def
        demo_call_content row_content_tool_result kinds project_plain_def project_tool_results_def demo_tool_use_get)
qed

theorem provider_messages_paired_witness:
  "\<exists>ms. project_provider_messages [7] (\<lambda>_. None) ([demo_call_row] @ demo_repair) [] = Inr ms \<and>
     length ms = 2 \<and> well_paired ms"
  using demo_project provider_messages_paired [OF demo_project] by simp

end
