(* ===== verification/Session_Streams.thy ===== *)
theory Session_Streams
  imports Octo_Prelude
begin

text \<open>
  Live previews of a session: the bounded event queue of a subscriber (\<open>chat/stream.py\<close>), the
  ownership of subscribers by running turns and queued messages (\<open>chat/session_streams.py\<close>), and
  the places of \<open>chat/runner.py\<close> that register, publish to and unregister subscribers. Every
  operation runs under the lock of the session, so one operation is one step. Subscriber objects
  are indices into a store; \<open>sb_ended\<close> records that the consumer has read the terminator, and
  \<open>sb_on_close\<close> counts the calls of the close callback.
\<close>

section \<open>Subscribers\<close>

datatype stream_event = StreamReplaced uuid uuid | StreamEvent nat

record subscriber =
  sb_message_id :: uuid
  sb_accepted_at :: int
  sb_queue :: "stream_event option list"
  sb_closed :: bool
  sb_on_close :: nat
  sb_ended :: bool

definition STREAM_QUEUE_MAX_EVENTS :: nat where "STREAM_QUEUE_MAX_EVENTS = 256"

definition new_subscriber :: "uuid \<Rightarrow> int \<Rightarrow> subscriber" where
  "new_subscriber message_id accepted_at =
     \<lparr>sb_message_id = message_id, sb_accepted_at = accepted_at, sb_queue = [], sb_closed = False,
      sb_on_close = 0, sb_ended = False\<rparr>"

definition disconnect_slow_consumer :: "subscriber \<Rightarrow> subscriber" where
  "disconnect_slow_consumer b =
     b\<lparr>sb_closed := True, sb_on_close := sb_on_close b + 1, sb_queue := [None]\<rparr>"

definition sub_send :: "stream_event \<Rightarrow> subscriber \<Rightarrow> subscriber" where
  "sub_send e b =
     (if sb_closed b then b
      else if length (sb_queue b) < STREAM_QUEUE_MAX_EVENTS then b\<lparr>sb_queue := sb_queue b @ [Some e]\<rparr>
      else disconnect_slow_consumer b)"

definition sub_close :: "subscriber \<Rightarrow> subscriber" where
  "sub_close b =
     (if sb_closed b then b
      else b\<lparr>sb_closed := True, sb_on_close := sb_on_close b + 1,
             sb_queue := (if length (sb_queue b) < STREAM_QUEUE_MAX_EVENTS then sb_queue b @ [None] else [None])\<rparr>)"

text \<open>One turn of the loop in \<open>ndjson\<close>: take an event; the terminator ends the stream.\<close>

definition sub_next :: "subscriber \<Rightarrow> subscriber" where
  "sub_next b =
     (case sb_queue b of
        [] \<Rightarrow> b
      | None # rest \<Rightarrow> if sb_ended b then b else b\<lparr>sb_queue := rest, sb_ended := True\<rparr>
      | Some _ # rest \<Rightarrow> if sb_ended b then b else b\<lparr>sb_queue := rest\<rparr>)"

section \<open>The streams of a session\<close>

record session_streams =
  ss_subs :: "subscriber list"
  ss_turns :: "(uuid, nat) dict"
  ss_queued :: "(uuid, nat) dict"
  ss_active_turn :: "uuid option"
  ss_preview :: "uuid list"
  ss_detached :: "nat list"

record turn_start =
  ts_turn_id :: uuid
  ts_message_ids :: "uuid list"

definition ss_new :: session_streams where
  "ss_new = \<lparr>ss_subs = [], ss_turns = [], ss_queued = [], ss_active_turn = None, ss_preview = [], ss_detached = []\<rparr>"

definition upd_sub :: "(subscriber \<Rightarrow> subscriber) \<Rightarrow> nat \<Rightarrow> session_streams \<Rightarrow> session_streams" where
  "upd_sub f i s = s\<lparr>ss_subs := (ss_subs s)[i := f (ss_subs s ! i)]\<rparr>"

abbreviation sub :: "session_streams \<Rightarrow> nat \<Rightarrow> subscriber" where
  "sub s i \<equiv> ss_subs s ! i"

definition retire_loser :: "nat \<Rightarrow> nat \<Rightarrow> session_streams \<Rightarrow> session_streams" where
  "retire_loser winner loser s =
     upd_sub sub_close loser
       (upd_sub (sub_send (StreamReplaced (sb_message_id (sub s loser)) (sb_message_id (sub s winner)))) loser s)"

definition replace_older :: "nat \<Rightarrow> nat \<Rightarrow> session_streams \<Rightarrow> nat \<times> session_streams" where
  "replace_older l r s =
     (let (winner, loser) = (if sb_accepted_at (sub s l) \<le> sb_accepted_at (sub s r) then (r, l) else (l, r))
      in (winner, retire_loser winner loser s))"

definition detach :: "session_streams \<Rightarrow> nat list \<times> session_streams" where
  "detach s =
     (let subscribers = dict_values (ss_turns s) @ dict_values (ss_queued s)
      in (subscribers, s\<lparr>ss_turns := [], ss_queued := [], ss_active_turn := None, ss_preview := [],
                         ss_detached := ss_detached s @ subscribers\<rparr>))"

definition unregister :: "nat \<Rightarrow> session_streams \<Rightarrow> session_streams" where
  "unregister i s =
     (let m = sb_message_id (sub s i);
          s1 = (if dict_get (ss_queued s) m = Some i then s\<lparr>ss_queued := dict_del m (ss_queued s)\<rparr> else s)
      in s1\<lparr>ss_turns := fold (\<lambda>(t, c) d. if c = i then dict_del t d else d) (ss_turns s1) (ss_turns s1)\<rparr>)"

definition set_active_turn :: "turn_start \<Rightarrow> bool \<Rightarrow> session_streams \<Rightarrow> session_streams" where
  "set_active_turn turn inherit_preview s =
     s\<lparr>ss_active_turn := Some (ts_turn_id turn),
       ss_preview := (if ts_message_ids turn \<noteq> [] then ts_message_ids turn
                      else if \<not> inherit_preview then [] else ss_preview s)\<rparr>"

definition clear_active_turn :: "uuid \<Rightarrow> session_streams \<Rightarrow> session_streams" where
  "clear_active_turn turn_id s =
     (if ss_active_turn s \<noteq> Some turn_id then s else s\<lparr>ss_active_turn := None, ss_preview := []\<rparr>)"

fun take_queued :: "uuid list \<Rightarrow> session_streams \<Rightarrow> nat list \<times> session_streams" where
  "take_queued [] s = ([], s)"
| "take_queued (m # ms) s =
     (case dict_get (ss_queued s) m of
        None \<Rightarrow> take_queued ms s
      | Some i \<Rightarrow>
          (let (rest, s') = take_queued ms (s\<lparr>ss_queued := dict_del m (ss_queued s)\<rparr>)
           in (if sb_closed (sub s i) then rest else i # rest, s')))"

definition install :: "uuid \<Rightarrow> nat \<Rightarrow> session_streams \<Rightarrow> session_streams" where
  "install turn_id i s =
     (case dict_get (ss_turns s) turn_id of
        None \<Rightarrow> s\<lparr>ss_turns := dict_set turn_id i (ss_turns s)\<rparr>
      | Some current \<Rightarrow>
          (let (winner, s1) = replace_older current i s
           in s1\<lparr>ss_turns := dict_set turn_id winner (ss_turns s1)\<rparr>))"

definition ss_queue :: "nat \<Rightarrow> session_streams \<Rightarrow> session_streams" where
  "ss_queue i s =
     (let m = sb_message_id (sub s i)
      in case dict_get (ss_queued s) m of
           None \<Rightarrow> s\<lparr>ss_queued := dict_set m i (ss_queued s)\<rparr>
         | Some current \<Rightarrow>
             (let (winner, s1) = replace_older current i s
              in s1\<lparr>ss_queued := dict_set m winner (ss_queued s1)\<rparr>))"

fun install_all :: "uuid \<Rightarrow> nat list \<Rightarrow> session_streams \<Rightarrow> session_streams" where
  "install_all turn_id [] s = s"
| "install_all turn_id (i # is) s = install_all turn_id is (install turn_id i s)"

definition claim :: "turn_start \<Rightarrow> session_streams \<Rightarrow> session_streams" where
  "claim turn s = (let (is, s1) = take_queued (ts_message_ids turn) s in install_all (ts_turn_id turn) is s1)"

text \<open>\<open>max(candidates, key=...)\<close>: the first of the latest.\<close>

fun latest :: "session_streams \<Rightarrow> nat list \<Rightarrow> nat" where
  "latest s [i] = i"
| "latest s (i # j # is) =
     (if sb_accepted_at (sub s i) < sb_accepted_at (sub s j) then latest s (j # is) else latest s (i # is))"
| "latest s [] = 0"

definition retire_others :: "nat \<Rightarrow> nat list \<Rightarrow> session_streams \<Rightarrow> session_streams" where
  "retire_others winner is s = fold (\<lambda>i s. if i = winner then s else retire_loser winner i s) is s"

definition pop_turn :: "uuid \<Rightarrow> session_streams \<Rightarrow> nat list \<times> session_streams" where
  "pop_turn t s = ((case dict_get (ss_turns s) t of None \<Rightarrow> [] | Some i \<Rightarrow> [i]), s\<lparr>ss_turns := dict_del t (ss_turns s)\<rparr>)"

definition transfer :: "uuid \<Rightarrow> turn_start \<Rightarrow> session_streams \<Rightarrow> session_streams" where
  "transfer old_turn_id new_turn s =
     (let s0 = set_active_turn new_turn True s;
          (a, s1) = pop_turn old_turn_id s0;
          (b, s2) = pop_turn (ts_turn_id new_turn) s1;
          (c, s3) = take_queued (ts_message_ids new_turn) s2;
          candidates = filter (\<lambda>i. \<not> sb_closed (sub s3 i)) (a @ b @ c)
      in if candidates = [] then s3
         else let winner = latest s3 candidates; s4 = retire_others winner candidates s3
              in s4\<lparr>ss_turns := dict_set (ts_turn_id new_turn) winner (ss_turns s4)\<rparr>)"

definition close_all :: "nat list \<Rightarrow> session_streams \<Rightarrow> session_streams" where
  "close_all is s = fold (upd_sub sub_close) is s"

definition close_turn :: "uuid \<Rightarrow> session_streams \<Rightarrow> session_streams" where
  "close_turn turn_id s = (let (is, s1) = pop_turn turn_id s in clear_active_turn turn_id (close_all is s1))"

definition close_chain :: "session_streams \<Rightarrow> session_streams" where
  "close_chain s = close_all (dict_values (ss_turns s)) (s\<lparr>ss_turns := [], ss_active_turn := None, ss_preview := []\<rparr>)"

definition close_queued :: "session_streams \<Rightarrow> session_streams" where
  "close_queued s = close_all (dict_values (ss_queued s)) (s\<lparr>ss_queued := []\<rparr>)"

fun replace_fold :: "nat \<Rightarrow> nat list \<Rightarrow> session_streams \<Rightarrow> nat \<times> session_streams" where
  "replace_fold winner [] s = (winner, s)"
| "replace_fold winner (i # is) s = (let (w, s1) = replace_older winner i s in replace_fold w is s1)"

definition adopt_running :: "uuid \<Rightarrow> session_streams \<Rightarrow> session_streams" where
  "adopt_running turn_id s =
     (let candidates = filter (\<lambda>i. \<not> sb_closed (sub s i)) (dict_values (ss_turns s));
          s1 = s\<lparr>ss_turns := [], ss_active_turn := Some turn_id\<rparr>
      in case candidates of
           [] \<Rightarrow> s1
         | w # rest \<Rightarrow> (let (winner, s2) = replace_fold w rest s1 in s2\<lparr>ss_turns := dict_set turn_id winner (ss_turns s2)\<rparr>))"

section \<open>The runner\<close>

text \<open>
  \<open>register\<close>: what the database says about the accepted message decides where the new
  subscriber goes.
\<close>

datatype registration = AcceptedTurn turn_start bool | QueuedRunning uuid | QueuedDone | QueuedWaiting

definition add_subscriber :: "uuid \<Rightarrow> int \<Rightarrow> session_streams \<Rightarrow> session_streams" where
  "add_subscriber message_id accepted_at s =
     s\<lparr>ss_subs := ss_subs s @ [sub_send (StreamEvent 0) (new_subscriber message_id accepted_at)]\<rparr>"

definition register :: "uuid \<Rightarrow> int \<Rightarrow> registration \<Rightarrow> session_streams \<Rightarrow> session_streams" where
  "register message_id accepted_at location s0 =
     (let i = length (ss_subs s0); s = add_subscriber message_id accepted_at s0
      in case location of
           QueuedRunning turn_id \<Rightarrow>
             if ss_active_turn s \<noteq> Some turn_id \<or> message_id \<notin> set (ss_preview s)
             then upd_sub sub_close i s else install turn_id i s
         | QueuedDone \<Rightarrow> upd_sub sub_close i s
         | QueuedWaiting \<Rightarrow> ss_queue i s
         | AcceptedTurn turn running \<Rightarrow>
             if \<not> running then upd_sub sub_close i s
             else let s1 = set_active_turn turn False s;
                      (queued, s2) = take_queued (ts_message_ids turn) s1
                  in install_all (ts_turn_id turn) (i # queued) s2)"

definition publish :: "uuid \<Rightarrow> stream_event \<Rightarrow> session_streams \<Rightarrow> session_streams" where
  "publish turn_id e s =
     (case dict_get (ss_turns s) turn_id of None \<Rightarrow> s | Some i \<Rightarrow> upd_sub (sub_send e) i s)"

definition unregister_close :: "nat \<Rightarrow> session_streams \<Rightarrow> session_streams" where
  "unregister_close i s = upd_sub sub_close i (unregister i s)"

inductive ss_step :: "session_streams \<Rightarrow> session_streams \<Rightarrow> bool" where
  ss_register: "ss_step s (register message_id accepted_at location s)"
| ss_publish: "ss_step s (publish turn_id e s)"
| ss_unregister: "i < length (ss_subs s) \<Longrightarrow> ss_step s (unregister_close i s)"
| ss_transfer: "ss_step s (transfer old_turn new_turn s)"
| ss_close_turn: "ss_step s (close_turn turn_id s)"
| ss_close_chain: "ss_step s (close_chain s)"
| ss_close_queued: "ss_step s (close_queued s)"
| ss_adopt: "ss_step s (adopt_running turn_id s)"
| ss_claim: "ss_step s (claim turn s)"
| ss_active: "ss_step s (set_active_turn turn inherit s)"
| ss_detach: "ss_step s (snd (detach s))"
| ss_consume: "i < length (ss_subs s) \<Longrightarrow> ss_step s (upd_sub sub_next i s)"

abbreviation ss_reachable :: "session_streams \<Rightarrow> bool" where
  "ss_reachable \<equiv> reachable (\<lambda>s. s = ss_new) ss_step"


section \<open>Event queues\<close>

definition sub_ok :: "subscriber \<Rightarrow> bool" where
  "sub_ok b \<longleftrightarrow> length (sb_queue b) \<le> STREAM_QUEUE_MAX_EVENTS \<and>
     sb_on_close b = (if sb_closed b then 1 else 0) \<and>
     (if sb_ended b then sb_closed b \<and> sb_queue b = []
      else if sb_closed b then \<exists>es. sb_queue b = map Some es @ [None]
      else \<exists>es. sb_queue b = map Some es)"

lemma sub_send_fields [simp]:
  "sb_message_id (sub_send e b) = sb_message_id b" "sb_accepted_at (sub_send e b) = sb_accepted_at b"
  "sb_closed b \<Longrightarrow> sb_closed (sub_send e b)"
  by (simp_all add: sub_send_def disconnect_slow_consumer_def)

lemma sub_close_fields [simp]:
  "sb_message_id (sub_close b) = sb_message_id b" "sb_accepted_at (sub_close b) = sb_accepted_at b"
  "sb_closed (sub_close b)"
  by (simp_all add: sub_close_def)

lemma sub_next_fields [simp]:
  "sb_message_id (sub_next b) = sb_message_id b" "sb_closed (sub_next b) = sb_closed b"
  by (simp_all add: sub_next_def split: list.splits option.splits)

lemma sub_send_ok: "sub_ok b \<Longrightarrow> sub_ok (sub_send e b)"
  by (auto simp: sub_ok_def sub_send_def disconnect_slow_consumer_def STREAM_QUEUE_MAX_EVENTS_def
      intro: exI [of _ "_ @ [e]"] split: if_splits)

lemma sub_close_ok: "sub_ok b \<Longrightarrow> sub_ok (sub_close b)"
  by (auto simp: sub_ok_def sub_close_def STREAM_QUEUE_MAX_EVENTS_def split: if_splits)

lemma map_Some_Cons: "x # xs = map Some es \<Longrightarrow> \<exists>e es'. x = Some e \<and> xs = map Some es' \<and> es = e # es'"
  by (cases es) auto

lemma sub_next_ok:
  assumes ok: "sub_ok b"
  shows "sub_ok (sub_next b)"
proof (cases "sb_queue b")
  case Nil
  with ok show ?thesis by (simp add: sub_next_def)
next
  case (Cons x rest)
  show ?thesis
  proof (cases "sb_closed b \<and> \<not> sb_ended b")
    case True
    then obtain es where es: "x # rest = map Some es @ [None]" using ok Cons by (auto simp: sub_ok_def)
    then show ?thesis
      using ok True Cons by (cases es) (auto simp: sub_ok_def sub_next_def)
  next
    case False
    then show ?thesis
      using ok Cons by (auto simp: sub_ok_def sub_next_def dest!: map_Some_Cons split: if_splits option.splits)
  qed
qed

section \<open>Ownership\<close>

text \<open>
  \<open>own s X\<close>: every subscriber is installed for one turn, or queued under its message, or in the
  hands of the running operation (\<open>X\<close>), or closed, or detached, and in only one of the first three.
\<close>

definition own :: "session_streams \<Rightarrow> nat set \<Rightarrow> bool" where
  "own s X \<longleftrightarrow>
     dict_wf (ss_turns s) \<and> dict_wf (ss_queued s) \<and> X \<subseteq> {..<length (ss_subs s)} \<and>
     (\<forall>t t' i. dict_get (ss_turns s) t = Some i \<and> dict_get (ss_turns s) t' = Some i \<longrightarrow> t = t') \<and>
     (\<forall>t k i. dict_get (ss_turns s) t = Some i \<longrightarrow> dict_get (ss_queued s) k \<noteq> Some i) \<and>
     (\<forall>t i. dict_get (ss_turns s) t = Some i \<longrightarrow> i < length (ss_subs s) \<and> i \<notin> X) \<and>
     (\<forall>k i. dict_get (ss_queued s) k = Some i \<longrightarrow> i < length (ss_subs s) \<and> i \<notin> X \<and> sb_message_id (sub s i) = k) \<and>
     (\<forall>i < length (ss_subs s). sub_ok (sub s i)) \<and>
     (\<forall>i < length (ss_subs s). (\<exists>t. dict_get (ss_turns s) t = Some i) \<or> (\<exists>k. dict_get (ss_queued s) k = Some i) \<or>
        i \<in> X \<or> sb_closed (sub s i) \<or> i \<in> set (ss_detached s))"

lemma ownD:
  assumes "own s X"
  shows "dict_wf (ss_turns s)" "dict_wf (ss_queued s)" "X \<subseteq> {..<length (ss_subs s)}"
    "dict_get (ss_turns s) t = Some i \<Longrightarrow> dict_get (ss_turns s) t' = Some i \<Longrightarrow> t = t'"
    "dict_get (ss_turns s) t = Some i \<Longrightarrow> dict_get (ss_queued s) k \<noteq> Some i"
    "dict_get (ss_turns s) t = Some i \<Longrightarrow> i < length (ss_subs s)"
    "dict_get (ss_turns s) t = Some i \<Longrightarrow> i \<notin> X"
    "dict_get (ss_queued s) k = Some i \<Longrightarrow> i < length (ss_subs s)"
    "dict_get (ss_queued s) k = Some i \<Longrightarrow> i \<notin> X"
    "dict_get (ss_queued s) k = Some i \<Longrightarrow> sb_message_id (sub s i) = k"
    "i < length (ss_subs s) \<Longrightarrow> sub_ok (sub s i)"
    "i < length (ss_subs s) \<Longrightarrow> (\<exists>t. dict_get (ss_turns s) t = Some i) \<or> (\<exists>k. dict_get (ss_queued s) k = Some i) \<or>
        i \<in> X \<or> sb_closed (sub s i) \<or> i \<in> set (ss_detached s)"
  using assms unfolding own_def by blast+

lemma ownI:
  assumes "dict_wf (ss_turns s)" "dict_wf (ss_queued s)" "X \<subseteq> {..<length (ss_subs s)}"
    "\<And>t t' i. dict_get (ss_turns s) t = Some i \<Longrightarrow> dict_get (ss_turns s) t' = Some i \<Longrightarrow> t = t'"
    "\<And>t k i. dict_get (ss_turns s) t = Some i \<Longrightarrow> dict_get (ss_queued s) k = Some i \<Longrightarrow> False"
    "\<And>t i. dict_get (ss_turns s) t = Some i \<Longrightarrow> i < length (ss_subs s) \<and> i \<notin> X"
    "\<And>k i. dict_get (ss_queued s) k = Some i \<Longrightarrow> i < length (ss_subs s) \<and> i \<notin> X \<and> sb_message_id (sub s i) = k"
    "\<And>i. i < length (ss_subs s) \<Longrightarrow> sub_ok (sub s i)"
    "\<And>i. i < length (ss_subs s) \<Longrightarrow> (\<And>t. dict_get (ss_turns s) t \<noteq> Some i) \<Longrightarrow> (\<And>k. dict_get (ss_queued s) k \<noteq> Some i) \<Longrightarrow>
        i \<in> X \<or> sb_closed (sub s i) \<or> i \<in> set (ss_detached s)"
  shows "own s X"
  unfolding own_def
proof (intro conjI)
  show "\<forall>i < length (ss_subs s). (\<exists>t. dict_get (ss_turns s) t = Some i) \<or> (\<exists>k. dict_get (ss_queued s) k = Some i) \<or>
        i \<in> X \<or> sb_closed (sub s i) \<or> i \<in> set (ss_detached s)"
    using assms(9) by meson
qed (use assms(1-8) in blast)+

lemma own_place:
  assumes "own s X" "i < length (ss_subs s)" "\<And>t. dict_get (ss_turns s) t \<noteq> Some i" "\<And>k. dict_get (ss_queued s) k \<noteq> Some i"
  shows "i \<in> X \<or> sb_closed (sub s i) \<or> i \<in> set (ss_detached s)"
  using ownD(12) [OF assms(1,2)] assms(3,4) by blast

lemma own_active [simp]:
  "own (s\<lparr>ss_active_turn := a\<rparr>) X \<longleftrightarrow> own s X" "own (s\<lparr>ss_preview := p\<rparr>) X \<longleftrightarrow> own s X"
  by (simp_all add: own_def)

lemma own_drop:
  assumes own: "own s X" and Y: "Y \<subseteq> X" "\<And>i. i \<in> X - Y \<Longrightarrow> sb_closed (sub s i)"
  shows "own s Y"
proof (rule ownI)
  show "i \<in> Y \<or> sb_closed (sub s i) \<or> i \<in> set (ss_detached s)"
    if "i < length (ss_subs s)" "\<And>t. dict_get (ss_turns s) t \<noteq> Some i" "\<And>k. dict_get (ss_queued s) k \<noteq> Some i" for i
    using own_place [OF own that] Y(2) by blast
  show "Y \<subseteq> {..<length (ss_subs s)}" using ownD(3) [OF own] Y(1) by blast
  show "dict_get (ss_turns s) t = Some i \<Longrightarrow> dict_get (ss_queued s) k = Some i \<Longrightarrow> False" for t k i
    using ownD(5) [OF own] by blast
  show "dict_get (ss_turns s) t = Some i \<Longrightarrow> i < length (ss_subs s) \<and> i \<notin> Y" for t i
    using ownD(6,7) [OF own] Y(1) by blast
  show "dict_get (ss_queued s) k = Some i \<Longrightarrow> i < length (ss_subs s) \<and> i \<notin> Y \<and> sb_message_id (sub s i) = k" for k i
    using ownD(8,9,10) [OF own] Y(1) by blast
qed (rule ownD [OF own]; assumption)+

lemma upd_sub_fields [simp]:
  "ss_turns (upd_sub f i s) = ss_turns s" "ss_queued (upd_sub f i s) = ss_queued s"
  "ss_detached (upd_sub f i s) = ss_detached s" "length (ss_subs (upd_sub f i s)) = length (ss_subs s)"
  by (simp_all add: upd_sub_def)

lemma sub_upd_sub: "j < length (ss_subs s) \<Longrightarrow> sub (upd_sub f i s) j = (if j = i then f (sub s j) else sub s j)"
  by (auto simp: upd_sub_def nth_list_update)

text \<open>The facts about the tables do not depend on the queues of events.\<close>

lemma own_subs:
  assumes own: "own s X" and same: "ss_turns t = ss_turns s" "ss_queued t = ss_queued s" "ss_detached t = ss_detached s"
      "length (ss_subs t) = length (ss_subs s)"
    and j: "\<And>j. j < length (ss_subs s) \<Longrightarrow> sb_message_id (sub t j) = sb_message_id (sub s j)"
      "\<And>j. j < length (ss_subs s) \<Longrightarrow> sb_closed (sub s j) \<Longrightarrow> sb_closed (sub t j)"
      "\<And>j. j < length (ss_subs s) \<Longrightarrow> sub_ok (sub t j)"
  shows "own t X"
proof (rule ownI, unfold same)
  show "i \<in> X \<or> sb_closed (sub t i) \<or> i \<in> set (ss_detached s)"
    if "i < length (ss_subs s)" "\<And>t. dict_get (ss_turns s) t \<noteq> Some i" "\<And>k. dict_get (ss_queued s) k \<noteq> Some i" for i
    using own_place [OF own that] j(2) that(1) by blast
  show "dict_get (ss_turns s) t = Some i \<Longrightarrow> dict_get (ss_queued s) k = Some i \<Longrightarrow> False" for t k i
    using ownD(5) [OF own] by blast
  show "dict_get (ss_turns s) t = Some i \<Longrightarrow> i < length (ss_subs s) \<and> i \<notin> X" for t i
    using ownD(6,7) [OF own] by blast
  show "dict_get (ss_queued s) k = Some i \<Longrightarrow> i < length (ss_subs s) \<and> i \<notin> X \<and> sb_message_id (sub t i) = k" for k i
    using ownD(8,9,10) [OF own] j(1) by metis
qed (rule ownD [OF own] j; assumption)+

lemma own_upd:
  assumes own: "own s X"
    and f: "\<And>b. sb_message_id (f b) = sb_message_id b" "\<And>b. sb_closed b \<Longrightarrow> sb_closed (f b)"
      "\<And>b. sub_ok b \<Longrightarrow> sub_ok (f b)"
  shows "own (upd_sub f i s) X"
  by (rule own_subs [OF own]) (use f ownD(11) [OF own] in \<open>auto simp: sub_upd_sub\<close>)

lemma own_send: "own s X \<Longrightarrow> own (upd_sub (sub_send e) i s) X"
  by (rule own_upd) (simp_all add: sub_send_ok)

lemma own_close:
  assumes own: "own s X"
  shows "own (upd_sub sub_close i s) (X - {i})"
proof (rule own_drop)
  show "own (upd_sub sub_close i s) X" by (rule own_upd [OF own]) (simp_all add: sub_close_ok)
  show "sb_closed (sub (upd_sub sub_close i s) j)" if "j \<in> X - (X - {i})" for j
    using that ownD(3) [OF own] by (subst sub_upd_sub) auto
qed simp

text \<open>Entries leave a table into the hands of the operation.\<close>

lemma own_turns:
  assumes own: "own s X" and d: "dict_wf d" "\<And>t j. dict_get d t = Some j \<Longrightarrow> dict_get (ss_turns s) t = Some j"
    and u: "ss_turns u = d" "ss_queued u = ss_queued s" "ss_subs u = ss_subs s" "ss_detached u = ss_detached s"
    and Y: "Y = X \<union> {j. \<exists>t. dict_get (ss_turns s) t = Some j \<and> dict_get d t \<noteq> Some j}"
  shows "own u Y"
proof (rule ownI, unfold u)
  show "dict_wf d" "dict_wf (ss_queued s)" by (rule d(1), rule ownD(2) [OF own])
  show "Y \<subseteq> {..<length (ss_subs s)}" using ownD(3,6) [OF own] by (auto simp: Y)
  show "dict_get d t = Some i \<Longrightarrow> dict_get d t' = Some i \<Longrightarrow> t = t'" for t t' i
    using ownD(4) [OF own] d(2) by blast
  show "dict_get d t = Some i \<Longrightarrow> dict_get (ss_queued s) k = Some i \<Longrightarrow> False" for t k i
    using ownD(5) [OF own] d(2) by blast
  show "i < length (ss_subs s) \<and> i \<notin> Y" if "dict_get d t = Some i" for t i
  proof -
    have t: "dict_get (ss_turns s) t = Some i" using d(2) that by blast
    have "dict_get d t' = Some i" if "dict_get (ss_turns s) t' = Some i" for t'
      using ownD(4) [OF own t that] \<open>dict_get d t = Some i\<close> by simp
    then show ?thesis using ownD(6,7) [OF own t] by (auto simp: Y)
  qed
  show "dict_get (ss_queued s) k = Some i \<Longrightarrow> i < length (ss_subs s) \<and> i \<notin> Y \<and> sb_message_id (sub s i) = k" for k i
    using ownD(5,8,9,10) [OF own] by (auto simp: Y)
  show "i < length (ss_subs s) \<Longrightarrow> sub_ok (sub s i)" for i by (rule ownD(11) [OF own])
  show "i \<in> Y \<or> sb_closed (sub s i) \<or> i \<in> set (ss_detached s)"
    if "i < length (ss_subs s)" "\<And>t. dict_get d t \<noteq> Some i" "\<And>k. dict_get (ss_queued s) k \<noteq> Some i" for i
    using own_place [OF own that(1) _ that(3)] that(2) by (auto simp: Y)
qed

lemma own_queued:
  assumes own: "own s X" and d: "dict_wf d" "\<And>t j. dict_get d t = Some j \<Longrightarrow> dict_get (ss_queued s) t = Some j"
    and u: "ss_turns u = ss_turns s" "ss_queued u = d" "ss_subs u = ss_subs s" "ss_detached u = ss_detached s"
    and Y: "Y = X \<union> {j. \<exists>t. dict_get (ss_queued s) t = Some j \<and> dict_get d t \<noteq> Some j}"
  shows "own u Y"
proof (rule ownI, unfold u)
  show "dict_wf (ss_turns s)" "dict_wf d" by (rule ownD(1) [OF own], rule d(1))
  show "Y \<subseteq> {..<length (ss_subs s)}" using ownD(3,8) [OF own] by (auto simp: Y)
  show "dict_get (ss_turns s) t = Some i \<Longrightarrow> dict_get (ss_turns s) t' = Some i \<Longrightarrow> t = t'" for t t' i
    by (rule ownD(4) [OF own])
  show "dict_get (ss_turns s) t = Some i \<Longrightarrow> dict_get d k = Some i \<Longrightarrow> False" for t k i
    using ownD(5) [OF own] d(2) by blast
  show "dict_get (ss_turns s) t = Some i \<Longrightarrow> i < length (ss_subs s) \<and> i \<notin> Y" for t i
    using ownD(5,6,7) [OF own] by (auto simp: Y)
  show "i < length (ss_subs s) \<and> i \<notin> Y \<and> sb_message_id (sub s i) = k" if "dict_get d k = Some i" for k i
  proof -
    have k: "dict_get (ss_queued s) k = Some i" using d(2) that by blast
    have "dict_get d k' = Some i" if "dict_get (ss_queued s) k' = Some i" for k'
      using ownD(10) [OF own k] ownD(10) [OF own that] \<open>dict_get d k = Some i\<close> by simp
    then show ?thesis using ownD(8,9,10) [OF own k] by (auto simp: Y)
  qed
  show "i < length (ss_subs s) \<Longrightarrow> sub_ok (sub s i)" for i by (rule ownD(11) [OF own])
  show "i \<in> Y \<or> sb_closed (sub s i) \<or> i \<in> set (ss_detached s)"
    if "i < length (ss_subs s)" "\<And>t. dict_get (ss_turns s) t \<noteq> Some i" "\<And>k. dict_get d k \<noteq> Some i" for i
    using own_place [OF own that(1,2)] that(3) by (auto simp: Y)
qed

text \<open>An entry of the operation enters a table, in place of the one that was there.\<close>

lemma own_set_turn:
  assumes own: "own s X" and i: "i \<in> X \<union> set_option (dict_get (ss_turns s) t)"
    and Y: "Y = X \<union> set_option (dict_get (ss_turns s) t) - {i}"
    and u: "ss_turns u = dict_set t i (ss_turns s)" "ss_queued u = ss_queued s" "ss_subs u = ss_subs s"
      "ss_detached u = ss_detached s"
  shows "own u Y"
proof (rule ownI, unfold u dict_get_set)
  have old: "dict_get (ss_turns s) t' \<noteq> Some i" if "t' \<noteq> t" for t'
    using i that ownD(4,7) [OF own, of t' i] by (cases "dict_get (ss_turns s) t") auto
  have noq: "dict_get (ss_queued s) k \<noteq> Some i" for k
    using i ownD(5) [OF own, of t i k] ownD(9) [OF own, of k i] by (cases "dict_get (ss_turns s) t") auto
  have ib: "i < length (ss_subs s)" using i ownD(3) [OF own] ownD(6) [OF own, of t i] by (cases "dict_get (ss_turns s) t") auto
  show "dict_wf (dict_set t i (ss_turns s))" "dict_wf (ss_queued s)" using ownD(1,2) [OF own] by simp_all
  show "Y \<subseteq> {..<length (ss_subs s)}"
    using ownD(3) [OF own] ownD(6) [OF own, of t] by (cases "dict_get (ss_turns s) t") (auto simp: Y)
  show "a = b" if "(if a = t then Some i else dict_get (ss_turns s) a) = Some j"
      "(if b = t then Some i else dict_get (ss_turns s) b) = Some j" for a b j
    using that old ownD(4) [OF own, of a j b] by (auto split: if_splits)
  show False if "(if a = t then Some i else dict_get (ss_turns s) a) = Some j" "dict_get (ss_queued s) k = Some j" for a k j
    using that noq ownD(5) [OF own, of a j k] by (auto split: if_splits)
  show "j < length (ss_subs s) \<and> j \<notin> Y" if "(if a = t then Some i else dict_get (ss_turns s) a) = Some j" for a j
  proof (cases "a = t")
    case True
    then show ?thesis using that ib by (simp add: Y)
  next
    case False
    then have a: "dict_get (ss_turns s) a = Some j" using that by simp
    have "dict_get (ss_turns s) t \<noteq> Some j" using ownD(4) [OF own a] False by blast
    then show ?thesis using ownD(6,7) [OF own a] by (auto simp: Y)
  qed
  show "j < length (ss_subs s) \<and> j \<notin> Y \<and> sb_message_id (sub s j) = k" if "dict_get (ss_queued s) k = Some j" for k j
    using ownD(8,9,10) [OF own that] ownD(5) [OF own, of t j k] that by (cases "dict_get (ss_turns s) t") (auto simp: Y)
  show "j < length (ss_subs s) \<Longrightarrow> sub_ok (sub s j)" for j by (rule ownD(11) [OF own])
  show "j \<in> Y \<or> sb_closed (sub s j) \<or> j \<in> set (ss_detached s)"
    if "j < length (ss_subs s)" "\<And>a. (if a = t then Some i else dict_get (ss_turns s) a) \<noteq> Some j"
      "\<And>k. dict_get (ss_queued s) k \<noteq> Some j" for j
  proof (cases "dict_get (ss_turns s) t = Some j")
    case True
    then show ?thesis using that(2) [of t] by (auto simp: Y)
  next
    case False
    then have "dict_get (ss_turns s) a \<noteq> Some j" for a using that(2) [of a] by (auto split: if_splits)
    from own_place [OF own that(1) this that(3)] that(2) [of t] show ?thesis by (auto simp: Y)
  qed
qed

lemma own_set_queued:
  assumes own: "own s X" and i: "i \<in> X \<union> set_option (dict_get (ss_queued s) k)" and m: "sb_message_id (sub s i) = k"
    and Y: "Y = X \<union> set_option (dict_get (ss_queued s) k) - {i}"
    and u: "ss_turns u = ss_turns s" "ss_queued u = dict_set k i (ss_queued s)" "ss_subs u = ss_subs s"
      "ss_detached u = ss_detached s"
  shows "own u Y"
proof (rule ownI, unfold u dict_get_set)
  have nott: "dict_get (ss_turns s) t \<noteq> Some i" for t
    using i ownD(5) [OF own, of t i k] ownD(7) [OF own, of t i] by (cases "dict_get (ss_queued s) k") auto
  have ib: "i < length (ss_subs s)" using i ownD(3) [OF own] ownD(8) [OF own, of k i] by (cases "dict_get (ss_queued s) k") auto
  show "dict_wf (ss_turns s)" "dict_wf (dict_set k i (ss_queued s))" using ownD(1,2) [OF own] by simp_all
  show "Y \<subseteq> {..<length (ss_subs s)}"
    using ownD(3) [OF own] ownD(8) [OF own, of k] by (cases "dict_get (ss_queued s) k") (auto simp: Y)
  show "dict_get (ss_turns s) a = Some j \<Longrightarrow> dict_get (ss_turns s) b = Some j \<Longrightarrow> a = b" for a b j by (rule ownD(4) [OF own])
  show False if "dict_get (ss_turns s) a = Some j" "(if k' = k then Some i else dict_get (ss_queued s) k') = Some j" for a k' j
    using that nott ownD(5) [OF own, of a j k'] by (auto split: if_splits)
  show "j < length (ss_subs s) \<and> j \<notin> Y" if "dict_get (ss_turns s) a = Some j" for a j
    using ownD(6,7) [OF own that] ownD(5) [OF own that, of k] by (cases "dict_get (ss_queued s) k") (auto simp: Y)
  show "j < length (ss_subs s) \<and> j \<notin> Y \<and> sb_message_id (sub s j) = k'"
    if "(if k' = k then Some i else dict_get (ss_queued s) k') = Some j" for k' j
  proof (cases "k' = k")
    case True
    then show ?thesis using that ib m by (simp add: Y)
  next
    case False
    then have a: "dict_get (ss_queued s) k' = Some j" using that by simp
    have "dict_get (ss_queued s) k \<noteq> Some j" using ownD(10) [OF own a] ownD(10) [OF own, of k j] False by blast
    then show ?thesis using ownD(8,9,10) [OF own a] by (auto simp: Y)
  qed
  show "j < length (ss_subs s) \<Longrightarrow> sub_ok (sub s j)" for j by (rule ownD(11) [OF own])
  show "j \<in> Y \<or> sb_closed (sub s j) \<or> j \<in> set (ss_detached s)"
    if "j < length (ss_subs s)" "\<And>a. dict_get (ss_turns s) a \<noteq> Some j"
      "\<And>k'. (if k' = k then Some i else dict_get (ss_queued s) k') \<noteq> Some j" for j
  proof (cases "dict_get (ss_queued s) k = Some j")
    case True
    then show ?thesis using that(3) [of k] by (auto simp: Y)
  next
    case False
    then have "dict_get (ss_queued s) a \<noteq> Some j" for a using that(3) [of a] by (auto split: if_splits)
    from own_place [OF own that(1,2) this] that(3) [of k] show ?thesis by (auto simp: Y)
  qed
qed


section \<open>Operations keep ownership\<close>

text \<open>Fields that the retirement of subscribers leaves alone.\<close>

definition same_tables :: "session_streams \<Rightarrow> session_streams \<Rightarrow> bool" where
  "same_tables s t \<longleftrightarrow> ss_turns t = ss_turns s \<and> ss_queued t = ss_queued s \<and> ss_detached t = ss_detached s \<and>
     length (ss_subs t) = length (ss_subs s) \<and>
     (\<forall>j < length (ss_subs s). sb_message_id (sub t j) = sb_message_id (sub s j) \<and>
        sb_accepted_at (sub t j) = sb_accepted_at (sub s j) \<and> (sb_closed (sub s j) \<longrightarrow> sb_closed (sub t j)))"

lemma same_tables_trans: "same_tables s t \<Longrightarrow> same_tables t u \<Longrightarrow> same_tables s u"
  by (auto simp: same_tables_def)

lemma same_tables_refl [simp]: "same_tables s s"
  by (simp add: same_tables_def)

lemma same_tables_upd:
  "same_tables s (upd_sub sub_close i s)" "same_tables s (upd_sub (sub_send e) i s)"
  by (auto simp: same_tables_def sub_upd_sub)

lemma retire_loser_same: "same_tables s (retire_loser w l s)"
  unfolding retire_loser_def by (rule same_tables_trans [OF same_tables_upd(2) same_tables_upd(1)])

lemma retire_loser_own: "own s X \<Longrightarrow> own (retire_loser w l s) (X - {l})"
  unfolding retire_loser_def by (intro own_close own_send)

lemma retire_loser_closed: "l < length (ss_subs s) \<Longrightarrow> sb_closed (sub (retire_loser w l s) l)"
  by (simp add: retire_loser_def sub_upd_sub)

lemma replace_older_cases:
  obtains w l where "replace_older a b s = (w, retire_loser w l s)" "(w = b \<and> l = a) \<or> (w = a \<and> l = b)"
  by (cases "sb_accepted_at (sub s a) \<le> sb_accepted_at (sub s b)") (auto simp: replace_older_def)

lemma take_queued_own:
  "own s X \<Longrightarrow> take_queued ms s = (is, t) \<Longrightarrow>
    own t (X \<union> set is) \<and> set is \<inter> X = {} \<and> distinct is \<and>
    ss_turns t = ss_turns s \<and> ss_subs t = ss_subs s \<and> ss_detached t = ss_detached s"
proof (induction ms arbitrary: s X "is")
  case (Cons m ms)
  show ?case
  proof (cases "dict_get (ss_queued s) m")
    case None
    with Cons.prems have "take_queued ms s = (is, t)" by simp
    from Cons.IH [OF Cons.prems(1) this] show ?thesis .
  next
    case (Some i)
    define s1 where "s1 = s\<lparr>ss_queued := dict_del m (ss_queued s)\<rparr>"
    obtain rest where rest: "take_queued ms s1 = (rest, t)" "is = (if sb_closed (sub s i) then rest else i # rest)"
      using Cons.prems(2) Some by (auto simp: s1_def split: prod.splits if_splits)
    have iX: "i \<notin> X" using ownD(9) [OF Cons.prems(1) Some] .
    have own1: "own s1 (X \<union> {i})"
    proof (rule own_queued [OF Cons.prems(1), where d = "dict_del m (ss_queued s)"])
      show "dict_wf (dict_del m (ss_queued s))" using ownD(2) [OF Cons.prems(1)] by simp
      show "X \<union> {i} = X \<union> {j. \<exists>t. dict_get (ss_queued s) t = Some j \<and> dict_get (dict_del m (ss_queued s)) t \<noteq> Some j}"
        using Some by (auto split: if_splits)
    qed (auto simp: s1_def split: if_splits)
    from Cons.IH [OF own1 rest(1)]
    have t: "own t (X \<union> {i} \<union> set rest)" "set rest \<inter> (X \<union> {i}) = {}" "distinct rest" "ss_turns t = ss_turns s"
      "ss_subs t = ss_subs s" "ss_detached t = ss_detached s"
      by (simp_all add: s1_def)
    show ?thesis
    proof (cases "sb_closed (sub s i)")
      case True
      have "own t (X \<union> set rest)"
        by (rule own_drop [OF t(1)]) (use True t(5) in auto)
      then show ?thesis using t True rest(2) by auto
    next
      case False
      then show ?thesis using t rest(2) iX by (auto simp: insert_commute Un_assoc)
    qed
  qed
qed simp

lemma install_own:
  assumes own: "own s X" and i: "i \<in> X"
  shows "own (install t i s) (X - {i})"
proof (cases "dict_get (ss_turns s) t")
  case None
  then show ?thesis
    using i by (intro own_set_turn [OF own, where i = i and t = t]) (simp_all add: install_def)
next
  case (Some c)
  have cX: "c \<notin> X" using ownD(7) [OF own Some] .
  obtain w l where r: "replace_older c i s = (w, retire_loser w l s)" "(w = i \<and> l = c) \<or> (w = c \<and> l = i)"
    by (rule replace_older_cases)
  define s1 where "s1 = retire_loser w l s"
  have same: "same_tables s s1" unfolding s1_def by (rule retire_loser_same)
  have own1: "own s1 (X - {l})" unfolding s1_def by (rule retire_loser_own [OF own])
  have get1: "dict_get (ss_turns s1) t = Some c" using same Some by (simp add: same_tables_def)
  have inst: "install t i s = s1\<lparr>ss_turns := dict_set t w (ss_turns s1)\<rparr>"
    using Some r by (simp add: install_def s1_def)
  have "own (install t i s) (X - {l} \<union> {c} - {w})"
    unfolding inst by (rule own_set_turn [OF own1, where i = w and t = t]) (use get1 r(2) i cX in auto)
  then show ?thesis
  proof (rule own_drop)
    show "X - {i} \<subseteq> X - {l} \<union> {c} - {w}" using r(2) cX i by auto
    fix j
    assume "j \<in> X - {l} \<union> {c} - {w} - (X - {i})"
    then have "j = l" using r(2) cX by auto
    moreover have "l < length (ss_subs s)" using r(2) ownD(3) [OF own] ownD(6) [OF own Some] i by auto
    ultimately show "sb_closed (sub (install t i s) j)" unfolding inst s1_def by (simp add: retire_loser_closed)
  qed
qed

lemma install_all_own:
  "own s X \<Longrightarrow> set is \<subseteq> X \<Longrightarrow> distinct is \<Longrightarrow> own (install_all t is s) (X - set is)"
proof (induction "is" arbitrary: s X)
  case (Cons i "is")
  have "own (install t i s) (X - {i})" using Cons.prems by (intro install_own) auto
  from Cons.IH [OF this] Cons.prems have "own (install_all t is (install t i s)) (X - {i} - set is)" by auto
  moreover have "X - {i} - set is = X - set (i # is)" by auto
  ultimately show ?case by simp
qed simp

lemma ss_queue_own:
  assumes own: "own s X" and i: "i \<in> X"
  shows "own (ss_queue i s) (X - {i})"
proof (cases "dict_get (ss_queued s) (sb_message_id (sub s i))")
  case None
  then show ?thesis
    using i by (intro own_set_queued [OF own, where i = i and k = "sb_message_id (sub s i)"]) (simp_all add: ss_queue_def)
next
  case (Some c)
  define m where "m = sb_message_id (sub s i)"
  have cX: "c \<notin> X" using ownD(9) [OF own Some] .
  obtain w l where r: "replace_older c i s = (w, retire_loser w l s)" "(w = i \<and> l = c) \<or> (w = c \<and> l = i)"
    by (rule replace_older_cases)
  define s1 where "s1 = retire_loser w l s"
  have same: "same_tables s s1" unfolding s1_def by (rule retire_loser_same)
  have own1: "own s1 (X - {l})" unfolding s1_def by (rule retire_loser_own [OF own])
  have get1: "dict_get (ss_queued s1) m = Some c" using same Some by (simp add: same_tables_def m_def)
  have ib: "i < length (ss_subs s)" "c < length (ss_subs s)" using ownD(3) [OF own] ownD(8) [OF own Some] i by auto
  have msg: "sb_message_id (sub s1 w) = m"
    using same r(2) ib ownD(10) [OF own Some] by (auto simp: same_tables_def m_def)
  have que: "ss_queue i s = s1\<lparr>ss_queued := dict_set m w (ss_queued s1)\<rparr>"
    using Some r by (simp add: ss_queue_def s1_def m_def)
  have "own (ss_queue i s) (X - {l} \<union> {c} - {w})"
    unfolding que by (rule own_set_queued [OF own1, where i = w and k = m]) (use get1 r(2) i cX msg in auto)
  then show ?thesis
  proof (rule own_drop)
    show "X - {i} \<subseteq> X - {l} \<union> {c} - {w}" using r(2) cX i by auto
    fix j
    assume "j \<in> X - {l} \<union> {c} - {w} - (X - {i})"
    then have "j = l" using r(2) cX by auto
    moreover have "l < length (ss_subs s)" using r(2) ib by auto
    ultimately show "sb_closed (sub (ss_queue i s) j)" unfolding que s1_def by (simp add: retire_loser_closed)
  qed
qed

lemma close_all_own: "own s X \<Longrightarrow> own (close_all is s) (X - set is)"
proof (induction "is" arbitrary: s X)
  case (Cons i "is")
  have "own (close_all is (upd_sub sub_close i s)) (X - {i} - set is)" by (rule Cons.IH [OF own_close [OF Cons.prems]])
  moreover have "X - {i} - set is = X - set (i # is)" by auto
  ultimately show ?case by (simp add: close_all_def)
qed (simp add: close_all_def)

lemma pop_turn_own:
  assumes own: "own s X" and p: "pop_turn t s = (is, u)"
  shows "own u (X \<union> set is)" "dict_get (ss_turns u) t = None"
    "t' \<noteq> t \<Longrightarrow> dict_get (ss_turns u) t' = dict_get (ss_turns s) t'" "ss_subs u = ss_subs s" "ss_detached u = ss_detached s"
proof -
  have u: "u = s\<lparr>ss_turns := dict_del t (ss_turns s)\<rparr>" "set is = set_option (dict_get (ss_turns s) t)"
    using p by (auto simp: pop_turn_def split: option.splits)
  show "own u (X \<union> set is)"
  proof (rule own_turns [OF own, where d = "dict_del t (ss_turns s)"])
    show "dict_wf (dict_del t (ss_turns s))" using ownD(1) [OF own] by simp
    show "X \<union> set is = X \<union> {j. \<exists>a. dict_get (ss_turns s) a = Some j \<and> dict_get (dict_del t (ss_turns s)) a \<noteq> Some j}"
      by (auto simp: u split: if_splits)
  qed (auto simp: u split: if_splits)
qed (use p in \<open>auto simp: pop_turn_def\<close>)

lemma dict_values_get: "dict_wf d \<Longrightarrow> set (dict_values d) = {j. \<exists>t. dict_get d t = Some j}"
  by (force simp: dict_values_def dict_wf_get_iff)

lemma clear_turns_own:
  assumes own: "own s X" and u: "ss_turns u = []" "ss_queued u = ss_queued s" "ss_subs u = ss_subs s" "ss_detached u = ss_detached s"
  shows "own u (X \<union> set (dict_values (ss_turns s)))"
  using dict_values_get [OF ownD(1) [OF own]] by (intro own_turns [OF own _ _ u]) auto

lemma clear_queued_own:
  assumes own: "own s X" and u: "ss_turns u = ss_turns s" "ss_queued u = []" "ss_subs u = ss_subs s" "ss_detached u = ss_detached s"
  shows "own u (X \<union> set (dict_values (ss_queued s)))"
  using dict_values_get [OF ownD(2) [OF own]] by (intro own_queued [OF own _ _ u]) auto

lemma own_values_distinct: "own s X \<Longrightarrow> distinct (dict_values (ss_turns s))"
proof -
  assume own: "own s X"
  have "inj_on snd (set (ss_turns s))"
  proof (rule inj_onI)
    fix p q
    assume p: "p \<in> set (ss_turns s)" and q: "q \<in> set (ss_turns s)" and eq: "snd p = snd q"
    obtain x i where pi: "p = (x, i)" by fastforce
    obtain y where qi: "q = (y, i)" using eq pi by (cases q) simp
    have "dict_get (ss_turns s) x = Some i" "dict_get (ss_turns s) y = Some i"
      using p q by (simp_all add: dict_wf_get_iff [OF ownD(1) [OF own]] pi qi)
    then have "x = y" by (rule ownD(4) [OF own])
    then show "p = q" by (simp add: pi qi)
  qed
  then show ?thesis using ownD(1) [OF own] by (simp add: dict_values_def distinct_map dict_wf_def)
qed

lemma fold_retire_own:
  "own s X \<Longrightarrow> own (retire_others w is s) (X - (set is - {w})) \<and> same_tables s (retire_others w is s)"
proof (induction "is" arbitrary: s X)
  case (Cons i "is")
  define s1 where "s1 = (if i = w then s else retire_loser w i s)"
  have own1: "own s1 (X - ({i} - {w}))" and same1: "same_tables s s1"
    using Cons.prems retire_loser_own [OF Cons.prems, of w i] retire_loser_same [of s w i] by (auto simp: s1_def)
  have eq: "retire_others w (i # is) s = retire_others w is s1" by (simp add: retire_others_def s1_def)
  have "X - ({i} - {w}) - (set is - {w}) = X - (set (i # is) - {w})" by auto
  then show ?case unfolding eq using Cons.IH [OF own1] same_tables_trans [OF same1] by auto
qed (simp add: retire_others_def)

lemma replace_fold_own:
  "own s X \<Longrightarrow> distinct (w # is) \<Longrightarrow> set (w # is) \<subseteq> X \<Longrightarrow> replace_fold w is s = (v, u) \<Longrightarrow>
    own u (X - (set (w # is) - {v})) \<and> v \<in> set (w # is) \<and> same_tables s u"
proof (induction "is" arbitrary: s X w)
  case (Cons i "is")
  obtain a l where r: "replace_older w i s = (a, retire_loser a l s)" "(a = i \<and> l = w) \<or> (a = w \<and> l = i)"
    by (rule replace_older_cases)
  define s1 where "s1 = retire_loser a l s"
  have own1: "own s1 (X - {l})" unfolding s1_def by (rule retire_loser_own [OF Cons.prems(1)])
  have fold1: "replace_fold a is s1 = (v, u)" using Cons.prems(4) r(1) by (simp add: s1_def)
  have "own u (X - {l} - (set (a # is) - {v})) \<and> v \<in> set (a # is) \<and> same_tables s1 u"
    by (rule Cons.IH [OF own1 _ _ fold1]) (use Cons.prems(2,3) r(2) in auto)
  moreover have "X - {l} - (set (a # is) - {v}) = X - (set (w # i # is) - {v})" if "v \<in> set (a # is)"
    using that Cons.prems(2) r(2) by auto
  ultimately show ?case
    using r(2) same_tables_trans [OF retire_loser_same [of s a l]] unfolding s1_def by auto
qed auto

lemma latest_mem: "is \<noteq> [] \<Longrightarrow> latest s is \<in> set is"
  by (induction s "is" rule: latest.induct) auto

lemma transfer_own:
  assumes own: "own s {}"
  shows "own (transfer old_turn new_turn s) {}"
proof -
  define s0 where "s0 = set_active_turn new_turn True s"
  obtain a s1 where a: "pop_turn old_turn s0 = (a, s1)" by fastforce
  obtain b s2 where b: "pop_turn (ts_turn_id new_turn) s1 = (b, s2)" by fastforce
  obtain c s3 where c: "take_queued (ts_message_ids new_turn) s2 = (c, s3)" by fastforce
  define candidates where "candidates = filter (\<lambda>i. \<not> sb_closed (sub s3 i)) (a @ b @ c)"
  have "own s0 {}" using own by (simp add: s0_def set_active_turn_def)
  note own1 = pop_turn_own(1) [OF this a]
  note own2 = pop_turn_own(1,2) [OF own1 b]
  note own3 = take_queued_own [OF own2(1) c]
  have own4: "own s3 (set candidates)"
    by (rule own_drop [OF own3 [THEN conjunct1]]) (auto simp: candidates_def)
  have none: "dict_get (ss_turns s3) (ts_turn_id new_turn) = None" using own3 own2(2) by simp
  have tr: "transfer old_turn new_turn s =
      (if candidates = [] then s3
       else let winner = latest s3 candidates; s4 = retire_others winner candidates s3
            in s4\<lparr>ss_turns := dict_set (ts_turn_id new_turn) winner (ss_turns s4)\<rparr>)"
    unfolding transfer_def s0_def [symmetric] Let_def a b c prod.case candidates_def [symmetric] ..
  show ?thesis
  proof (cases "candidates = []")
    case True
    then show ?thesis using own4 by (simp add: tr)
  next
    case False
    define w where "w = latest s3 candidates"
    have w: "w \<in> set candidates" unfolding w_def by (rule latest_mem [OF False])
    have own5: "own (retire_others w candidates s3) (set candidates - (set candidates - {w}))"
      and same5: "same_tables s3 (retire_others w candidates s3)" using fold_retire_own [OF own4] by simp_all
    have "dict_get (ss_turns (retire_others w candidates s3)) (ts_turn_id new_turn) = None"
      using none same5 by (simp add: same_tables_def)
    then show ?thesis
      unfolding tr w_def [symmetric] Let_def using False w
      by (simp, intro own_set_turn [OF own5, where i = w and t = "ts_turn_id new_turn"]) auto
  qed
qed

lemma adopt_running_own:
  assumes own: "own s {}"
  shows "own (adopt_running turn_id s) {}"
proof -
  define candidates where "candidates = filter (\<lambda>i. \<not> sb_closed (sub s i)) (dict_values (ss_turns s))"
  define s1 where "s1 = s\<lparr>ss_turns := [], ss_active_turn := Some turn_id\<rparr>"
  have "own s1 ({} \<union> set (dict_values (ss_turns s)))" by (rule clear_turns_own [OF own]) (simp_all add: s1_def)
  then have own1: "own s1 (set candidates)"
    by (rule own_drop) (auto simp: candidates_def s1_def)
  show ?thesis
  proof (cases candidates)
    case Nil
    then have "adopt_running turn_id s = s1" by (simp add: adopt_running_def candidates_def s1_def)
    then show ?thesis using own1 Nil by simp
  next
    case (Cons w rest)
    obtain v u where f: "replace_fold w rest s1 = (v, u)" by fastforce
    have "distinct candidates" using own_values_distinct [OF own] by (simp add: candidates_def)
    then have "own u (set candidates - (set (w # rest) - {v})) \<and> v \<in> set (w # rest) \<and> same_tables s1 u"
      using Cons by (intro replace_fold_own [OF own1 _ _ f]) auto
    moreover from this have "set candidates - (set (w # rest) - {v}) = {v}" using Cons by auto
    moreover have "adopt_running turn_id s = u\<lparr>ss_turns := dict_set turn_id v (ss_turns u)\<rparr>"
      using Cons f by (simp add: adopt_running_def candidates_def s1_def)
    moreover have "ss_turns s1 = []" by (simp add: s1_def)
    ultimately show ?thesis
      by (auto simp: same_tables_def intro!: own_set_turn [where s = u and X = "{v}" and i = v and t = turn_id])
  qed
qed

lemma unregister_turns_get:
  "dict_get (fold (\<lambda>(t, c) d. if c = i then dict_del t d else d) xs d) t =
    (if (t, i) \<in> set xs then None else dict_get d t)"
  by (induction xs arbitrary: d) (auto split: if_splits)

lemma unregister_turns_wf:
  "dict_wf d \<Longrightarrow> dict_wf (fold (\<lambda>(t, c) d. if c = i then dict_del t d else d) xs d)"
  by (induction xs arbitrary: d) auto

lemma unregister_close_own:
  assumes own: "own s {}"
  shows "own (unregister_close i s) {}"
proof -
  define m where "m = sb_message_id (sub s i)"
  define s1 where "s1 = (if dict_get (ss_queued s) m = Some i then s\<lparr>ss_queued := dict_del m (ss_queued s)\<rparr> else s)"
  define d where "d = fold (\<lambda>(t, c) d. if c = i then dict_del t d else d) (ss_turns s1) (ss_turns s1)"
  obtain X1 where X1: "own s1 X1" "X1 \<subseteq> {i}"
  proof (cases "dict_get (ss_queued s) m = Some i")
    case True
    have "own s1 ({} \<union> {j. \<exists>t. dict_get (ss_queued s) t = Some j \<and> dict_get (dict_del m (ss_queued s)) t \<noteq> Some j})"
      by (rule own_queued [OF own, where d = "dict_del m (ss_queued s)"])
        (use True ownD(2) [OF own] in \<open>auto simp: s1_def split: if_splits\<close>)
    then show ?thesis using True by (intro that) (auto split: if_splits)
  next
    case False
    then show ?thesis using own by (intro that [of "{}"]) (simp_all add: s1_def)
  qed
  have get: "dict_get d t = (if dict_get (ss_turns s1) t = Some i then None else dict_get (ss_turns s1) t)" for t
    unfolding d_def unregister_turns_get using dict_wf_get_iff [OF ownD(1) [OF X1(1)]] by auto
  have "own (s1\<lparr>ss_turns := d\<rparr>) (X1 \<union> {j. \<exists>t. dict_get (ss_turns s1) t = Some j \<and> dict_get d t \<noteq> Some j})"
    by (rule own_turns [OF X1(1), where d = d])
      (use get unregister_turns_wf [OF ownD(1) [OF X1(1)]] in \<open>auto simp: d_def split: if_splits\<close>)
  from own_close [OF this, of i]
  have "own (upd_sub sub_close i (s1\<lparr>ss_turns := d\<rparr>))
      (X1 \<union> {j. \<exists>t. dict_get (ss_turns s1) t = Some j \<and> dict_get d t \<noteq> Some j} - {i})" .
  moreover have "X1 \<union> {j. \<exists>t. dict_get (ss_turns s1) t = Some j \<and> dict_get d t \<noteq> Some j} - {i} = {}"
    using X1(2) by (auto simp: get split: if_splits)
  moreover have "unregister_close i s = upd_sub sub_close i (s1\<lparr>ss_turns := d\<rparr>)"
    by (simp add: unregister_close_def unregister_def Let_def d_def s1_def m_def)
  ultimately show ?thesis by simp
qed


lemma claim_own:
  assumes own: "own s {}"
  shows "own (claim turn s) {}"
proof -
  obtain "is" s1 where t: "take_queued (ts_message_ids turn) s = (is, s1)" by fastforce
  have "own s1 (set is)" "distinct is" using take_queued_own [OF own t] by auto
  from install_all_own [OF this(1) subset_refl this(2)] show ?thesis by (simp add: claim_def t)
qed

lemma close_ops_own:
  assumes own: "own s {}"
  shows "own (close_turn turn_id s) {}" "own (close_chain s) {}" "own (close_queued s) {}"
proof -
  obtain "is" s1 where p: "pop_turn turn_id s = (is, s1)" by fastforce
  have "own (close_all is s1) ({} \<union> set is - set is)" by (rule close_all_own [OF pop_turn_own(1) [OF own p]])
  then show "own (close_turn turn_id s) {}" by (simp add: close_turn_def p clear_active_turn_def)
  have "own (s\<lparr>ss_turns := [], ss_active_turn := None, ss_preview := []\<rparr>) ({} \<union> set (dict_values (ss_turns s)))"
    by (rule clear_turns_own [OF own]) simp_all
  from close_all_own [OF this, of "dict_values (ss_turns s)"] show "own (close_chain s) {}" by (simp add: close_chain_def)
  have "own (s\<lparr>ss_queued := []\<rparr>) ({} \<union> set (dict_values (ss_queued s)))"
    by (rule clear_queued_own [OF own]) simp_all
  from close_all_own [OF this, of "dict_values (ss_queued s)"] show "own (close_queued s) {}" by (simp add: close_queued_def)
qed

lemma own_detached:
  assumes own: "own s X" and u: "ss_turns u = ss_turns s" "ss_queued u = ss_queued s" "ss_subs u = ss_subs s"
      "set (ss_detached u) = set (ss_detached s) \<union> D"
  shows "own u (X - D)"
proof (rule ownI, unfold u)
  show "i \<in> X - D \<or> sb_closed (sub s i) \<or> i \<in> set (ss_detached s) \<union> D"
    if "i < length (ss_subs s)" "\<And>t. dict_get (ss_turns s) t \<noteq> Some i" "\<And>k. dict_get (ss_queued s) k \<noteq> Some i" for i
    using own_place [OF own that] by blast
  show "X - D \<subseteq> {..<length (ss_subs s)}" using ownD(3) [OF own] by blast
  show "dict_get (ss_turns s) t = Some i \<Longrightarrow> dict_get (ss_queued s) k = Some i \<Longrightarrow> False" for t k i
    using ownD(5) [OF own] by blast
  show "dict_get (ss_turns s) t = Some i \<Longrightarrow> i < length (ss_subs s) \<and> i \<notin> X - D" for t i
    using ownD(6,7) [OF own] by blast
  show "dict_get (ss_queued s) k = Some i \<Longrightarrow> i < length (ss_subs s) \<and> i \<notin> X - D \<and> sb_message_id (sub s i) = k" for k i
    using ownD(8,9,10) [OF own] by blast
qed (rule ownD [OF own]; assumption)+

lemma detach_own:
  assumes own: "own s {}"
  shows "own (snd (detach s)) {}"
proof -
  define s1 where "s1 = s\<lparr>ss_turns := []\<rparr>"
  define s2 where "s2 = s1\<lparr>ss_queued := []\<rparr>"
  define D where "D = set (dict_values (ss_turns s)) \<union> set (dict_values (ss_queued s))"
  have "own s1 ({} \<union> set (dict_values (ss_turns s)))" by (rule clear_turns_own [OF own]) (simp_all add: s1_def)
  then have "own s2 ({} \<union> set (dict_values (ss_turns s)) \<union> set (dict_values (ss_queued s1)))"
    by (rule clear_queued_own) (simp_all add: s1_def s2_def)
  then have "own s2 D" by (simp add: s1_def D_def)
  then have "own (snd (detach s)) (D - D)"
    by (rule own_detached) (auto simp: detach_def s1_def s2_def D_def Let_def)
  then show ?thesis by simp
qed

lemma add_subscriber_own:
  assumes own: "own s {}"
  shows "own (add_subscriber m a s) {length (ss_subs s)}"
proof -
  define b where "b = sub_send (StreamEvent 0) (new_subscriber m a)"
  have b: "sub_ok b" unfolding b_def by (rule sub_send_ok) (simp add: sub_ok_def new_subscriber_def)
  define u where "u = add_subscriber m a s"
  have u: "ss_turns u = ss_turns s" "ss_queued u = ss_queued s" "ss_detached u = ss_detached s"
      "length (ss_subs u) = Suc (length (ss_subs s))"
    by (simp_all add: u_def add_subscriber_def)
  have old: "sub u i = sub s i" if "i < length (ss_subs s)" for i
    using that by (simp add: u_def add_subscriber_def nth_append)
  have "own u {length (ss_subs s)}"
  proof (rule ownI, unfold u)
    show "sub_ok (sub u i)" if "i < Suc (length (ss_subs s))" for i
      using that ownD(11) [OF own] old b by (cases "i = length (ss_subs s)") (auto simp: u_def add_subscriber_def b_def)
    show "i \<in> {length (ss_subs s)} \<or> sb_closed (sub u i) \<or> i \<in> set (ss_detached s)"
      if "i < Suc (length (ss_subs s))" "\<And>t. dict_get (ss_turns s) t \<noteq> Some i" "\<And>k. dict_get (ss_queued s) k \<noteq> Some i" for i
      using that own_place [OF own _ that(2,3)] old by (cases "i = length (ss_subs s)") auto
    show "dict_get (ss_turns s) t = Some i \<Longrightarrow> dict_get (ss_queued s) k = Some i \<Longrightarrow> False" for t k i
      using ownD(5) [OF own] by blast
    show "i < Suc (length (ss_subs s)) \<and> i \<notin> {length (ss_subs s)}" if "dict_get (ss_turns s) t = Some i" for t i
      using ownD(6) [OF own that] by simp
    show "i < Suc (length (ss_subs s)) \<and> i \<notin> {length (ss_subs s)} \<and> sb_message_id (sub u i) = k"
      if "dict_get (ss_queued s) k = Some i" for k i
      using ownD(8,10) [OF own that] old by simp
  qed (auto intro: ownD [OF own])
  then show ?thesis by (simp add: u_def)
qed

lemma register_own:
  assumes own: "own s0 {}"
  shows "own (register m a location s0) {}"
proof -
  define i where "i = length (ss_subs s0)"
  define s where "s = add_subscriber m a s0"
  have s: "own s {i}" unfolding s_def i_def by (rule add_subscriber_own [OF own])
  have close: "own (upd_sub sub_close i s) {}" using own_close [OF s, of i] by simp
  show ?thesis
  proof (cases location)
    case (AcceptedTurn turn running)
    define s1 where "s1 = set_active_turn turn False s"
    obtain queued s2 where q: "take_queued (ts_message_ids turn) s1 = (queued, s2)" by fastforce
    have "own s1 {i}" using s by (simp add: s1_def set_active_turn_def)
    note taken = take_queued_own [OF this q]
    have "own (install_all (ts_turn_id turn) (i # queued) s2) ({i} \<union> set queued - set (i # queued))"
      by (rule install_all_own) (use taken in auto)
    then show ?thesis
      using close AcceptedTurn by (simp add: register_def i_def [symmetric] s_def [symmetric] s1_def [symmetric] q)
  next
    case (QueuedRunning turn_id)
    then show ?thesis
      using close install_own [OF s, of i turn_id] by (simp add: register_def i_def [symmetric] s_def [symmetric] Let_def)
  next
    case QueuedDone
    then show ?thesis using close by (simp add: register_def i_def [symmetric] s_def [symmetric] Let_def)
  next
    case QueuedWaiting
    then show ?thesis
      using ss_queue_own [OF s, of i] by (simp add: register_def i_def [symmetric] s_def [symmetric] Let_def)
  qed
qed

lemma publish_own: "own s {} \<Longrightarrow> own (publish turn_id e s) {}"
  by (simp add: publish_def own_send split: option.splits)

lemma ss_step_own: "own s {} \<Longrightarrow> ss_step s t \<Longrightarrow> own t {}"
  by (erule ss_step.cases)
    (simp_all add: register_own publish_own unregister_close_own transfer_own close_ops_own adopt_running_own claim_own
      detach_own set_active_turn_def own_upd sub_next_ok)

interpretation session_streams: inductive_invariant "\<lambda>s. s = ss_new" ss_step "\<lambda>s. own s {}"
proof
  fix s t
  show "s = ss_new \<Longrightarrow> own s {}" by (simp add: own_def ss_new_def)
  show "own s {} \<Longrightarrow> ss_step s t \<Longrightarrow> own t {}" by (rule ss_step_own)
qed

text \<open>
  C18. No preview client is lost. In every reachable state of a session a subscriber that is neither
  closed nor handed over by a detach is held in exactly one place: as the subscriber of exactly one
  turn, or queued under its own message. Whenever replacing, transferring, adopting, claiming or closing
  removes a subscriber from its place, it has been closed or installed elsewhere.
\<close>

theorem stream_subscribers_owned:
  assumes "ss_reachable s" and i: "i < length (ss_subs s)"
    and live: "\<not> sb_closed (sub s i)" "i \<notin> set (ss_detached s)"
  shows "(\<exists>!t. dict_get (ss_turns s) t = Some i) \<noteq> (dict_get (ss_queued s) (sb_message_id (sub s i)) = Some i)"
proof -
  have own: "own s {}" using session_streams.inv_reachable [OF assms(1)] .
  show ?thesis
  proof (cases "\<exists>t. dict_get (ss_turns s) t = Some i")
    case True
    then obtain t where t: "dict_get (ss_turns s) t = Some i" by blast
    have "\<exists>!t. dict_get (ss_turns s) t = Some i"
    proof (rule ex1I)
      show "dict_get (ss_turns s) t = Some i" by (rule t)
      show "u = t" if "dict_get (ss_turns s) u = Some i" for u by (rule ownD(4) [OF own that t])
    qed
    then show ?thesis using ownD(5) [OF own t] by blast
  next
    case False
    then obtain k where k: "dict_get (ss_queued s) k = Some i" using ownD(12) [OF own i] live by auto
    have "dict_get (ss_queued s) (sb_message_id (sub s i)) = Some i" using k ownD(10) [OF own k] by simp
    with False show ?thesis by blast
  qed
qed

definition ss_demo :: session_streams where
  "ss_demo = register 3 20 QueuedWaiting (register 3 10 QueuedWaiting ss_new)"

lemma ss_demo_reachable: "ss_reachable ss_demo"
proof -
  have "ss_reachable ss_new" by (rule reach_start) simp
  then have "ss_reachable (register 3 10 QueuedWaiting ss_new)" by (rule reach_step) (rule ss_register)
  then show ?thesis unfolding ss_demo_def by (rule reach_step) (rule ss_register)
qed

lemmas ss_eval = ss_demo_def register_def add_subscriber_def ss_queue_def replace_older_def retire_loser_def upd_sub_def
  sub_send_def sub_close_def new_subscriber_def ss_new_def STREAM_QUEUE_MAX_EVENTS_def dict_get_def dict_set_def Let_def

lemma ss_demo_eval: "length (ss_subs ss_demo) = 2" "sb_closed (sub ss_demo 0)" "\<not> sb_closed (sub ss_demo 1)"
  "ss_detached ss_demo = []" "ss_turns ss_demo = []"
  by (simp_all add: ss_eval)

theorem stream_subscribers_owned_witness:
  "sb_closed (sub ss_demo 0) \<and>
   (\<exists>!t. dict_get (ss_turns ss_demo) t = Some 1) \<noteq> (dict_get (ss_queued ss_demo) (sb_message_id (sub ss_demo 1)) = Some 1)"
  using stream_subscribers_owned [OF ss_demo_reachable, of 1] ss_demo_eval by simp

text \<open>
  C19. Event queues are bounded and every closed stream ends. A queue never holds more than 256
  entries, however slow the consumer; the close callback runs exactly once; after a close the queue
  ends with the one terminator, so the consumer always finishes, and an open stream has no
  terminator yet.
\<close>

theorem stream_queue_bounded:
  assumes "ss_reachable s" and i: "i < length (ss_subs s)"
  shows "length (sb_queue (sub s i)) \<le> 256 \<and>
    sb_on_close (sub s i) = (if sb_closed (sub s i) then 1 else 0) \<and>
    (\<not> sb_closed (sub s i) \<longrightarrow> None \<notin> set (sb_queue (sub s i))) \<and>
    (sb_closed (sub s i) \<and> \<not> sb_ended (sub s i) \<longrightarrow>
       (\<exists>es. sb_queue (sub s i) = map Some es @ [None])) \<and>
    (sb_ended (sub s i) \<longrightarrow> sb_closed (sub s i) \<and> sb_queue (sub s i) = [])"
proof -
  have "own s {}" using session_streams.inv_reachable [OF assms(1)] .
  from ownD(11) [OF this i] show ?thesis
    by (auto simp: sub_ok_def STREAM_QUEUE_MAX_EVENTS_def split: if_splits)
qed

theorem stream_queue_bounded_witness:
  "\<exists>es. sb_queue (sub ss_demo 0) = map Some es @ [None] \<and> sb_on_close (sub ss_demo 0) = 1"
proof -
  have "\<not> sb_ended (sub ss_demo 0)" by (simp add: ss_eval)
  then show ?thesis using stream_queue_bounded [OF ss_demo_reachable, of 0] ss_demo_eval by simp
qed

end
