(* ===== verification/Token_Estimator.thy ===== *)
theory Token_Estimator
  imports Py_Json "HOL-Library.Multiset"
begin

text \<open>
  \<open>chat/token_estimator.py\<close>: the size of a provider request in tokens. The request is written as
  JSON, piece by piece, into a counter that encodes at most 65536 characters at a time, with the data
  of images left out and counted separately. The encoding is a parameter: \<open>enc t\<close> is the number of
  tokens of \<open>t\<close>. The loop of \<open>write\<close> would not end on a counter whose buffer is full, so it is
  a partial function; such counters do not arise.
\<close>

definition MAX_ENCODE_CHARS :: nat where "MAX_ENCODE_CHARS = 64 * 1024"
definition MAX_JSON_SOURCE_CHARS :: nat where "MAX_JSON_SOURCE_CHARS = MAX_ENCODE_CHARS div 6"
definition BINARY_IMAGE_TOKENS :: nat where "BINARY_IMAGE_TOKENS = 2000"

section \<open>The bounded counter\<close>

record token_counter =
  tc_parts :: "ustr list"
  tc_length :: nat
  tc_tokens :: nat

definition tc_new :: token_counter where
  "tc_new = \<lparr>tc_parts = [], tc_length = 0, tc_tokens = 0\<rparr>"

definition tc_flush :: "(ustr \<Rightarrow> nat) \<Rightarrow> token_counter \<Rightarrow> token_counter" where
  "tc_flush enc c =
     (if tc_parts c = [] then c
      else c\<lparr>tc_tokens := tc_tokens c + enc (concat (tc_parts c)), tc_parts := [], tc_length := 0\<rparr>)"

definition tc_push :: "(ustr \<Rightarrow> nat) \<Rightarrow> ustr \<Rightarrow> token_counter \<Rightarrow> token_counter" where
  "tc_push enc part c =
     (let c1 = c\<lparr>tc_parts := tc_parts c @ [part], tc_length := tc_length c + length part\<rparr>
      in if tc_length c1 = MAX_ENCODE_CHARS then tc_flush enc c1 else c1)"

partial_function (option) write_loop ::
  "(ustr \<Rightarrow> nat) \<Rightarrow> ustr \<Rightarrow> nat \<Rightarrow> token_counter \<Rightarrow> token_counter option" where
  "write_loop enc t offset c =
     (if offset < length t
      then let remaining = MAX_ENCODE_CHARS - tc_length c;
               stop = min (offset + remaining) (length t)
           in write_loop enc t stop (tc_push enc (take (stop - offset) (drop offset t)) c)
      else Some c)"

definition tc_write :: "(ustr \<Rightarrow> nat) \<Rightarrow> ustr \<Rightarrow> token_counter \<Rightarrow> token_counter option" where
  "tc_write enc t c = write_loop enc t 0 c"

definition tc_finish :: "(ustr \<Rightarrow> nat) \<Rightarrow> token_counter \<Rightarrow> nat" where
  "tc_finish enc c = tc_tokens (tc_flush enc c)"

definition count_text :: "(ustr \<Rightarrow> nat) \<Rightarrow> ustr \<Rightarrow> nat option" where
  "count_text enc t = map_option (tc_finish enc) (tc_write enc t tc_new)"

section \<open>Writing JSON\<close>

type_synonym writer = "token_counter \<Rightarrow> (nat \<times> token_counter) option"

definition write_text :: "(ustr \<Rightarrow> nat) \<Rightarrow> ustr \<Rightarrow> writer" where
  "write_text enc t c = map_option (Pair 0) (tc_write enc t c)"

definition then_write :: "writer \<Rightarrow> writer \<Rightarrow> writer" where
  "then_write w v c = (case w c of None \<Rightarrow> None
     | Some (m, c1) \<Rightarrow> (case v c1 of None \<Rightarrow> None | Some (n, c2) \<Rightarrow> Some (m + n, c2)))"

definition write_nothing :: writer where "write_nothing c = Some (0, c)"

fun source_chunks :: "nat \<Rightarrow> ustr \<Rightarrow> ustr list" where
  "source_chunks k t = (if k = 0 \<or> t = [] then [] else take k t # source_chunks k (drop k t))"

declare source_chunks.simps [simp del]

text \<open>\<open>json.dumps(piece)[1:-1]\<close>.\<close>

definition json_inner :: "ustr \<Rightarrow> ustr" where
  "json_inner t = butlast (tl (json_string t))"

definition write_json_string :: "(ustr \<Rightarrow> nat) \<Rightarrow> ustr \<Rightarrow> writer" where
  "write_json_string enc t =
     then_write (write_text enc [34])
       (then_write (foldr (\<lambda>piece w. then_write (write_text enc (json_inner piece)) w)
                      (source_chunks MAX_JSON_SOURCE_CHARS t) write_nothing)
          (write_text enc [34]))"

fun run_items :: "(ustr \<Rightarrow> nat) \<Rightarrow> bool \<Rightarrow> writer list \<Rightarrow> writer" where
  "run_items enc first [] = write_nothing"
| "run_items enc first (w # ws) =
     then_write (if first then write_nothing else write_text enc [44]) (then_write w (run_items enc False ws))"

definition is_object :: "json \<Rightarrow> bool" where
  "is_object v = (case v of JObj _ \<Rightarrow> True | _ \<Rightarrow> False)"

definition is_image :: "bool \<Rightarrow> (ustr \<times> json) list \<Rightarrow> bool" where
  "is_image redact kvs \<longleftrightarrow> redact \<and> dict_get kvs (ustr_of ''type'') = Some (JStr (ustr_of ''image''))"

definition omitted :: "bool \<Rightarrow> ustr \<Rightarrow> bool" where
  "omitted omit_data k \<longleftrightarrow> omit_data \<and> k = ustr_of ''data''"

definition write_member :: "(ustr \<Rightarrow> nat) \<Rightarrow> ustr \<times> writer \<Rightarrow> writer" where
  "write_member enc kw = then_write (write_json_string enc (fst kw)) (then_write (write_text enc [58]) (snd kw))"

definition add_images :: "nat \<Rightarrow> writer \<Rightarrow> writer" where
  "add_images n w c = map_option (\<lambda>(m, c1). (n + m, c1)) (w c)"

fun write_json :: "(ustr \<Rightarrow> nat) \<Rightarrow> bool \<Rightarrow> bool \<Rightarrow> json \<Rightarrow> writer" where
  "write_json enc redact omit_data (JObj kvs) =
     add_images (of_bool (is_image redact kvs))
       (then_write (write_text enc [123])
         (then_write
           (run_items enc True (map (write_member enc)
             (filter (\<lambda>kw. \<not> omitted (is_image redact kvs \<or> omit_data) (fst kw))
               (sort_key fst (map (\<lambda>(k, v). (k, write_json enc redact
                   (is_image redact kvs \<and> k = ustr_of ''source'' \<and> is_object v) v)) kvs)))))
           (write_text enc [125])))"
| "write_json enc redact omit_data (JList vs) =
     then_write (write_text enc [91])
       (then_write (run_items enc True (map (write_json enc redact False) vs)) (write_text enc [93]))"
| "write_json enc redact omit_data (JStr s) = write_json_string enc s"
| "write_json enc redact omit_data v = write_text enc (json_dumps v)"

definition estimate_request :: "(ustr \<Rightarrow> nat) \<Rightarrow> ustr \<Rightarrow> json list \<Rightarrow> json list \<Rightarrow> nat option" where
  "estimate_request enc system messages tools =
     map_option (\<lambda>(image_count, c). tc_finish enc c + image_count * BINARY_IMAGE_TOKENS)
       (then_write (write_text enc (ustr_of ''{'' @ [34] @ ustr_of ''messages'' @ [34] @ ustr_of '':''))
       (then_write (write_json enc True False (JList messages))
       (then_write (write_text enc (ustr_of '','' @ [34] @ ustr_of ''system'' @ [34] @ ustr_of '':''))
       (then_write (write_json enc False False (JStr system))
       (then_write (write_text enc (ustr_of '','' @ [34] @ ustr_of ''tools'' @ [34] @ ustr_of '':''))
       (then_write (write_json enc False False (JList tools)) (write_text enc (ustr_of ''}''))))))) tc_new)"

section \<open>The reference: the JSON text in chunks\<close>

definition chunks :: "ustr \<Rightarrow> ustr list" where
  "chunks t = source_chunks MAX_ENCODE_CHARS t"

fun redacted :: "bool \<Rightarrow> bool \<Rightarrow> json \<Rightarrow> json" where
  "redacted redact omit_data (JObj kvs) =
     JObj (filter (\<lambda>kv. \<not> omitted (is_image redact kvs \<or> omit_data) (fst kv))
       (map (\<lambda>(k, v). (k, redacted redact (is_image redact kvs \<and> k = ustr_of ''source'' \<and> is_object v) v)) kvs))"
| "redacted redact omit_data (JList vs) = JList (map (redacted redact False) vs)"
| "redacted redact omit_data v = v"

fun image_count :: "bool \<Rightarrow> bool \<Rightarrow> json \<Rightarrow> nat" where
  "image_count redact omit_data (JObj kvs) =
     of_bool (is_image redact kvs) +
     sum_list (map snd (filter (\<lambda>kn. \<not> omitted (is_image redact kvs \<or> omit_data) (fst kn))
       (map (\<lambda>(k, v). (k, image_count redact (is_image redact kvs \<and> k = ustr_of ''source'' \<and> is_object v) v)) kvs)))"
| "image_count redact omit_data (JList vs) = sum_list (map (image_count redact False) vs)"
| "image_count redact omit_data v = 0"


section \<open>The counter refines a running text\<close>

lemma max_encode_pos [simp]: "0 < MAX_ENCODE_CHARS"
  by (simp add: MAX_ENCODE_CHARS_def)

lemma max_source_pos [simp]: "0 < MAX_JSON_SOURCE_CHARS"
  by (simp add: MAX_JSON_SOURCE_CHARS_def MAX_ENCODE_CHARS_def)

text \<open>The abstract counter: tokens so far and the text that is not encoded yet.\<close>

function drain :: "(ustr \<Rightarrow> nat) \<Rightarrow> nat \<Rightarrow> ustr \<Rightarrow> nat \<times> ustr" where
  "drain enc n q =
     (if length q < MAX_ENCODE_CHARS then (n, q)
      else drain enc (n + enc (take MAX_ENCODE_CHARS q)) (drop MAX_ENCODE_CHARS q))"
  by pat_completeness auto
termination
proof (relation "measure (\<lambda>(enc, n, q). length q)", simp)
  fix enc :: "ustr \<Rightarrow> nat" and n :: nat and q :: ustr
  assume "\<not> length q < MAX_ENCODE_CHARS"
  then have "0 < length q" using max_encode_pos by linarith
  then show "((enc, n + enc (take MAX_ENCODE_CHARS q), drop MAX_ENCODE_CHARS q), enc, n, q)
      \<in> measure (\<lambda>(enc, n, q). length q)" by simp
qed

declare drain.simps [simp del]

lemma drain_short [simp]: "length q < MAX_ENCODE_CHARS \<Longrightarrow> drain enc n q = (n, q)"
  by (simp add: drain.simps)

lemma drain_append: "drain enc n q = (m, r) \<Longrightarrow> drain enc m (r @ t) = drain enc n (q @ t)"
proof (induction enc n q arbitrary: m r rule: drain.induct)
  case (1 enc n q)
  show ?case
  proof (cases "length q < MAX_ENCODE_CHARS")
    case True
    then show ?thesis using 1 by simp
  next
    case False
    then have "drain enc m (r @ t) = drain enc (n + enc (take MAX_ENCODE_CHARS q)) (drop MAX_ENCODE_CHARS q @ t)"
      using 1 by (simp add: drain.simps [of enc n q])
    also have "\<dots> = drain enc n (q @ t)"
      using False by (subst (2) drain.simps) simp
    finally show ?thesis .
  qed
qed

definition tc_view :: "token_counter \<Rightarrow> nat \<times> ustr" where
  "tc_view c = (tc_tokens c, concat (tc_parts c))"

definition tc_ok :: "token_counter \<Rightarrow> bool" where
  "tc_ok c \<longleftrightarrow> tc_length c = length (concat (tc_parts c)) \<and> tc_length c < MAX_ENCODE_CHARS \<and> [] \<notin> set (tc_parts c)"

definition absorbs :: "(ustr \<Rightarrow> nat) \<Rightarrow> token_counter \<Rightarrow> ustr \<Rightarrow> token_counter \<Rightarrow> bool" where
  "absorbs enc c t c' \<longleftrightarrow> tc_ok c' \<and> tc_view c' = drain enc (fst (tc_view c)) (snd (tc_view c) @ t)"

lemma tc_push_absorbs:
  assumes ok: "tc_ok c" and part: "part \<noteq> []" "tc_length c + length part \<le> MAX_ENCODE_CHARS"
  shows "absorbs enc c part (tc_push enc part c)"
proof (cases "tc_length c + length part = MAX_ENCODE_CHARS")
  case True
  have "length (concat (tc_parts c) @ part) = MAX_ENCODE_CHARS" using ok True by (simp add: tc_ok_def)
  then have "drain enc (tc_tokens c) (concat (tc_parts c) @ part) = (tc_tokens c + enc (concat (tc_parts c) @ part), [])"
    by (subst drain.simps) simp
  then show ?thesis
    using True by (simp add: absorbs_def tc_push_def Let_def tc_flush_def tc_view_def tc_ok_def)
next
  case False
  then have "length (concat (tc_parts c) @ part) < MAX_ENCODE_CHARS" using ok part(2) by (simp add: tc_ok_def)
  then show ?thesis
    using False ok part(1) by (simp add: absorbs_def tc_push_def Let_def tc_view_def tc_ok_def)
qed

lemma absorbs_trans: "absorbs enc c s d \<Longrightarrow> absorbs enc d t e \<Longrightarrow> absorbs enc c (s @ t) e"
  using drain_append [of enc "fst (tc_view c)" "snd (tc_view c) @ s" "fst (tc_view d)" "snd (tc_view d)" t]
  by (simp add: absorbs_def)

lemma absorbs_refl: "tc_ok c \<Longrightarrow> absorbs enc c [] c"
  by (simp add: absorbs_def tc_view_def tc_ok_def)

lemma write_loop_absorbs:
  "tc_ok c \<Longrightarrow> \<exists>c'. write_loop enc t offset c = Some c' \<and> absorbs enc c (drop offset t) c'"
proof (induction "length t - offset" arbitrary: offset c rule: less_induct)
  case less
  show ?case
  proof (cases "offset < length t")
    case True
    define stop where "stop = min (offset + (MAX_ENCODE_CHARS - tc_length c)) (length t)"
    define part where "part = take (stop - offset) (drop offset t)"
    have stop: "offset < stop" "stop \<le> length t" "stop - offset \<le> MAX_ENCODE_CHARS - tc_length c"
      using True less.prems by (auto simp: stop_def tc_ok_def)
    have part: "part \<noteq> []" "tc_length c + length part \<le> MAX_ENCODE_CHARS"
      using stop less.prems by (auto simp: part_def tc_ok_def)
    have push: "absorbs enc c part (tc_push enc part c)" by (rule tc_push_absorbs [OF less.prems part])
    obtain c' where c': "write_loop enc t stop (tc_push enc part c) = Some c'"
        "absorbs enc (tc_push enc part c) (drop stop t) c'"
    proof -
      have "length t - stop < length t - offset" using stop True by linarith
      moreover have "tc_ok (tc_push enc part c)" using push by (simp add: absorbs_def)
      ultimately show ?thesis using less.hyps that by blast
    qed
    have "write_loop enc t offset c = Some c'"
      using True c'(1) by (subst write_loop.simps) (simp add: Let_def stop_def part_def)
    moreover have "part @ drop stop t = drop offset t"
      using stop(1) append_take_drop_id [of "stop - offset" "drop offset t"] by (simp add: part_def)
    ultimately show ?thesis using absorbs_trans [OF push c'(2)] by simp
  next
    case False
    then show ?thesis using absorbs_refl [OF less.prems] by (subst write_loop.simps) simp
  qed
qed

section \<open>What the writers write\<close>

definition writes :: "(ustr \<Rightarrow> nat) \<Rightarrow> writer \<Rightarrow> nat \<Rightarrow> ustr \<Rightarrow> bool" where
  "writes enc w n t \<longleftrightarrow> (\<forall>c. tc_ok c \<longrightarrow> (\<exists>c'. w c = Some (n, c') \<and> absorbs enc c t c'))"

named_theorems writes_intros "what each writer writes"

lemma writes_nothing [writes_intros]: "writes enc write_nothing 0 []"
  by (simp add: writes_def write_nothing_def absorbs_refl)

lemma writes_text [writes_intros]: "writes enc (write_text enc t) 0 t"
  unfolding writes_def
proof (intro allI impI)
  fix c
  assume "tc_ok c"
  from write_loop_absorbs [OF this, of enc t 0]
  show "\<exists>c'. write_text enc t c = Some (0, c') \<and> absorbs enc c t c'" by (auto simp: write_text_def tc_write_def)
qed

lemma writes_then: "writes enc w m s \<Longrightarrow> writes enc v n t \<Longrightarrow> writes enc (then_write w v) (m + n) (s @ t)"
  unfolding writes_def
proof (intro allI impI)
  fix c
  assume w: "\<forall>c. tc_ok c \<longrightarrow> (\<exists>c'. w c = Some (m, c') \<and> absorbs enc c s c')"
    and v: "\<forall>c. tc_ok c \<longrightarrow> (\<exists>c'. v c = Some (n, c') \<and> absorbs enc c t c')" and c: "tc_ok c"
  obtain d where d: "w c = Some (m, d)" "absorbs enc c s d" using w c by blast
  then have "tc_ok d" by (simp add: absorbs_def)
  then obtain e where e: "v d = Some (n, e)" "absorbs enc d t e" using v by blast
  from absorbs_trans [OF d(2) e(2)] d(1) e(1)
  show "\<exists>c'. then_write w v c = Some (m + n, c') \<and> absorbs enc c (s @ t) c'" by (simp add: then_write_def)
qed

lemma concat_source_chunks: "0 < k \<Longrightarrow> concat (source_chunks k t) = t"
proof (induction k t rule: source_chunks.induct)
  case (1 k t)
  then show ?case by (subst source_chunks.simps) simp
qed

lemma json_inner_eq: "json_inner t = concat (map json_escape t)"
  by (simp add: json_inner_def json_string_def butlast_append)

lemma writes_pieces:
  "writes enc (foldr (\<lambda>piece w. then_write (write_text enc (json_inner piece)) w) ps write_nothing) 0
    (concat (map json_escape (concat ps)))"
proof (induction ps)
  case Nil
  then show ?case by (simp add: writes_nothing)
next
  case (Cons p ps)
  show ?case using writes_then [OF writes_text Cons, of "json_inner p"] by (simp add: json_inner_eq)
qed

lemma writes_json_string [writes_intros]: "writes enc (write_json_string enc t) 0 (json_string t)"
proof -
  have "writes enc (write_json_string enc t) (0 + (0 + 0)) ([34] @ (concat (map json_escape (concat (source_chunks MAX_JSON_SOURCE_CHARS t))) @ [34]))"
    unfolding write_json_string_def by (intro writes_then writes_text writes_pieces)
  then show ?thesis by (simp add: concat_source_chunks json_string_def)
qed

lemma writes_items:
  "\<forall>x \<in> set xs. writes enc (w x) (n x) (t x) \<Longrightarrow>
    writes enc (run_items enc first (map w xs)) (sum_list (map n xs))
      ((if first \<or> xs = [] then [] else [44]) @ py_join [44] (map t xs))"
proof (induction xs arbitrary: first)
  case Nil
  then show ?case by (simp add: writes_nothing)
next
  case (Cons x xs)
  have sep: "writes enc (if first then write_nothing else write_text enc [44]) 0 (if first then [] else [44])"
    by (simp add: writes_nothing writes_text)
  have rest: "writes enc (run_items enc False (map w xs)) (sum_list (map n xs))
      ((if xs = [] then [] else [44]) @ py_join [44] (map t xs))"
    using Cons.IH [of False] Cons.prems by simp
  have "writes enc (run_items enc first (map w (x # xs))) (0 + (n x + sum_list (map n xs)))
      ((if first then [] else [44]) @ t x @ (if xs = [] then [] else [44]) @ py_join [44] (map t xs))"
    using Cons.prems unfolding list.map run_items.simps by (intro writes_then sep rest) simp
  moreover have "t x @ (if xs = [] then [] else [44]) @ py_join [44] (map t xs) = py_join [44] (map t (x # xs))"
    by (cases xs) simp_all
  ultimately show ?case by simp
qed

lemma writes_add_images: "writes enc w n t \<Longrightarrow> writes enc (add_images k w) (k + n) t"
  by (fastforce simp: writes_def add_images_def)

lemma writes_member:
  "writes enc w n t \<Longrightarrow> writes enc (write_member enc (k, w)) n (json_string k @ [58] @ t)"
  using writes_then [OF writes_json_string [of enc k] writes_then [OF writes_text [of enc "[58]"]], of w n t]
  by (simp add: write_member_def)

lemma sum_list_sort_key: "sum_list (map f (sort_key g xs)) = (sum_list (map f xs) :: nat)"
proof -
  have "mset (map f (sort_key g xs)) = mset (map f xs)" by simp
  then have "sum_mset (mset (map f (sort_key g xs))) = sum_mset (mset (map f xs))" by (rule arg_cong)
  then show ?thesis by (simp only: sum_mset_sum_list)
qed

lemma sum_list_filter_sort_key:
  "sum_list (map f (filter P (sort_key g xs))) = (sum_list (map f (filter P xs)) :: nat)"
  by (simp add: filter_sort sum_list_sort_key)

text \<open>
  The writer of a value writes the JSON text of the value without the data of its images, and
  counts the images.
\<close>

lemma writes_object:
  fixes kvs :: "(ustr \<times> json) list"
  assumes members: "\<And>k v. (k, v) \<in> set kvs \<Longrightarrow> writes enc (w k v) (n k v) (json_dumps (r k v))"
  shows "writes enc (add_images i (then_write (write_text enc [123])
      (then_write (run_items enc True (map (write_member enc)
          (filter (\<lambda>kw. P (fst kw)) (sort_key fst (map (\<lambda>(k, v). (k, w k v)) kvs)))))
        (write_text enc [125]))))
    (i + sum_list (map snd (filter (\<lambda>kn. P (fst kn)) (map (\<lambda>(k, v). (k, n k v)) kvs))))
    (json_dumps (JObj (filter (\<lambda>kv. P (fst kv)) (map (\<lambda>(k, v). (k, r k v)) kvs))))"
proof -
  define xs where "xs = filter (\<lambda>kv. P (fst kv)) (sort_key fst kvs)"
  have fst_case: "(\<lambda>y. fst (case y of (k, v) \<Rightarrow> (k, h k v))) = fst" for h :: "ustr \<Rightarrow> json \<Rightarrow> 'z"
    by (simp add: fun_eq_iff split: prod.splits)
  have order: "filter (\<lambda>kw. P (fst kw)) (sort_key fst (map (\<lambda>(k, v). (k, h k v)) kvs)) = map (\<lambda>(k, v). (k, h k v)) xs"
    for h :: "ustr \<Rightarrow> json \<Rightarrow> 'z"
    by (simp add: sort_key_map fst_case filter_map xs_def comp_def split_def)
  have "writes enc (run_items enc True (map (\<lambda>(k, v). write_member enc (k, w k v)) xs))
      (sum_list (map (\<lambda>(k, v). n k v) xs))
      ((if True \<or> xs = [] then [] else [44]) @ py_join [44] (map (\<lambda>(k, v). json_string k @ [58] @ json_dumps (r k v)) xs))"
    using members by (intro writes_items) (auto simp: xs_def intro!: writes_member [unfolded append.simps])
  then have items: "writes enc (run_items enc True (map (write_member enc) (map (\<lambda>(k, v). (k, w k v)) xs)))
      (sum_list (map (\<lambda>(k, v). n k v) xs))
      (py_join [44] (map (\<lambda>(k, v). json_string k @ [58] @ json_dumps (r k v)) xs))"
    by (simp add: comp_def split_def)
  have "writes enc (add_images i (then_write (write_text enc [123])
      (then_write (run_items enc True (map (write_member enc) (map (\<lambda>(k, v). (k, w k v)) xs))) (write_text enc [125]))))
    (i + (0 + (sum_list (map (\<lambda>(k, v). n k v) xs) + 0)))
    ([123] @ py_join [44] (map (\<lambda>(k, v). json_string k @ [58] @ json_dumps (r k v)) xs) @ [125])"
    by (intro writes_add_images writes_then writes_text items)
  moreover have "sum_list (map (\<lambda>(k, v). n k v) xs) =
      sum_list (map snd (filter (\<lambda>kn. P (fst kn)) (map (\<lambda>(k, v). (k, n k v)) kvs)))"
    by (simp add: xs_def sum_list_filter_sort_key filter_map comp_def split_def)
  moreover have "[123] @ py_join [44] (map (\<lambda>(k, v). json_string k @ [58] @ json_dumps (r k v)) xs) @ [125] =
      json_dumps (JObj (filter (\<lambda>kv. P (fst kv)) (map (\<lambda>(k, v). (k, r k v)) kvs)))"
  proof -
    have "sort_key fst (map (\<lambda>(k, v). (k, json_dumps v)) (filter (\<lambda>kv. P (fst kv)) (map (\<lambda>(k, v). (k, r k v)) kvs))) =
        map (\<lambda>(k, v). (k, json_dumps (r k v))) xs"
      by (simp add: filter_map sort_key_map comp_def split_def xs_def filter_sort)
    then show ?thesis
      by (simp add: json_object_text_def json_member_def comp_def split_def)
  qed
  ultimately show ?thesis unfolding order by simp
qed

lemma writes_list:
  assumes "\<And>v. v \<in> set vs \<Longrightarrow> writes enc (w v) (n v) (json_dumps (r v))"
  shows "writes enc (then_write (write_text enc [91]) (then_write (run_items enc True (map w vs)) (write_text enc [93])))
    (sum_list (map n vs)) (json_dumps (JList (map r vs)))"
proof -
  have "writes enc (run_items enc True (map w vs)) (sum_list (map n vs))
      ((if True \<or> vs = [] then [] else [44]) @ py_join [44] (map (\<lambda>v. json_dumps (r v)) vs))"
    using assms by (intro writes_items) auto
  from writes_then [OF writes_text writes_then [OF this writes_text], of "[91]" "[93]"]
  show ?thesis by (simp add: json_list_text_def comp_def)
qed

lemma writes_json: "writes enc (write_json enc redact omit v) (image_count redact omit v) (json_dumps (redacted redact omit v))"
proof (induction enc redact omit v rule: write_json.induct)
  case (1 enc redact omit kvs)
  show ?case
    unfolding write_json.simps image_count.simps redacted.simps
    by (rule writes_object [where P = "\<lambda>k. \<not> omitted (is_image redact kvs \<or> omit) k"]) (use 1 in force)
next
  case (2 enc redact omit vs)
  show ?case
    unfolding write_json.simps image_count.simps redacted.simps by (rule writes_list) (use 2 in blast)
qed (simp_all add: writes_json_string writes_text)

section \<open>Estimates\<close>

lemma finish_view:
  assumes "tc_ok c"
  shows "tc_finish enc c = tc_tokens c + (if snd (tc_view c) = [] then 0 else enc (snd (tc_view c)))"
proof (cases "tc_parts c = []")
  case True
  then show ?thesis by (simp add: tc_finish_def tc_flush_def tc_view_def)
next
  case False
  then have "concat (tc_parts c) \<noteq> []" using assms by (cases "tc_parts c") (auto simp: tc_ok_def)
  then show ?thesis using False by (simp add: tc_finish_def tc_flush_def tc_view_def del: concat_eq_Nil_conv)
qed

lemma drain_chunks:
  "drain enc n q = (m, r) \<Longrightarrow> m + (if r = [] then 0 else enc r) = n + sum_list (map enc (chunks q))"
proof (induction enc n q arbitrary: m r rule: drain.induct)
  case (1 enc n q)
  show ?case
  proof (cases "length q < MAX_ENCODE_CHARS")
    case True
    then have "chunks q = (if q = [] then [] else [q])"
      unfolding chunks_def by (subst source_chunks.simps) (simp add: source_chunks.simps [of _ "[]"])
    then show ?thesis using 1 True by auto
  next
    case False
    then have "chunks q = take MAX_ENCODE_CHARS q # chunks (drop MAX_ENCODE_CHARS q)"
      unfolding chunks_def by (subst source_chunks.simps) auto
    then show ?thesis using 1 False by (simp add: drain.simps [of enc n q])
  qed
qed

lemma absorbs_finish: "absorbs enc tc_new t c \<Longrightarrow> tc_finish enc c = sum_list (map enc (chunks t))"
proof -
  assume c: "absorbs enc tc_new t c"
  then have v: "tc_view c = drain enc 0 t" "tc_ok c" by (simp_all add: absorbs_def tc_new_def tc_view_def)
  have "drain enc 0 t = (tc_tokens c, snd (tc_view c))" unfolding v(1) [symmetric] by (simp add: tc_view_def)
  note this v(2)
  from drain_chunks [OF this(1)] finish_view [OF this(2), of enc] show ?thesis by simp
qed

lemma tc_new_ok: "tc_ok tc_new"
  by (simp add: tc_ok_def tc_new_def)

lemma chunks_bound: "x \<in> set (chunks t) \<Longrightarrow> length x \<le> MAX_ENCODE_CHARS"
  unfolding chunks_def
proof (induction MAX_ENCODE_CHARS t rule: source_chunks.induct)
  case (1 t)
  then show ?case by (subst (asm) (2) source_chunks.simps) (auto split: if_splits)
qed

text \<open>
  C20. The streaming estimate is the estimate of the whole request. \<open>estimate_request\<close> always
  returns, and its result is the number of tokens of the JSON text of the request, with image data
  left out, cut into pieces of 65536 characters, plus 2000 for each image; no call of the encoder sees
  more than 65536 characters, and neither the pieces in which the text is produced nor the
  splitting of long strings before escaping makes a difference.
\<close>

theorem estimate_request_reference:
  "estimate_request enc system messages tools =
    Some (sum_list (map enc (chunks (json_dumps (JObj
        [(ustr_of ''messages'', redacted True False (JList messages)), (ustr_of ''system'', JStr system),
         (ustr_of ''tools'', redacted False False (JList tools))])))) +
      2000 * (image_count True False (JList messages) + image_count False False (JList tools)))"
proof -
  define T where "T = json_dumps (JObj
        [(ustr_of ''messages'', redacted True False (JList messages)), (ustr_of ''system'', JStr system),
         (ustr_of ''tools'', redacted False False (JList tools))])"
  have sorted: "sort_key fst [(ustr_of ''messages'', a), (ustr_of ''system'', b), (ustr_of ''tools'', c)] =
      [(ustr_of ''messages'', a), (ustr_of ''system'', b), (ustr_of ''tools'', c)]" for a b c :: ustr
    by (simp add: ustr_of_def)
  have keys: "json_string (ustr_of ''messages'') = [34] @ ustr_of ''messages'' @ [34]"
    "json_string (ustr_of ''system'') = [34] @ ustr_of ''system'' @ [34]"
    "json_string (ustr_of ''tools'') = [34] @ ustr_of ''tools'' @ [34]"
    by (simp_all add: json_string_def json_escape_def ustr_of_def)
  have "writes enc
       (then_write (write_text enc (ustr_of ''{'' @ [34] @ ustr_of ''messages'' @ [34] @ ustr_of '':''))
       (then_write (write_json enc True False (JList messages))
       (then_write (write_text enc (ustr_of '','' @ [34] @ ustr_of ''system'' @ [34] @ ustr_of '':''))
       (then_write (write_json enc False False (JStr system))
       (then_write (write_text enc (ustr_of '','' @ [34] @ ustr_of ''tools'' @ [34] @ ustr_of '':''))
       (then_write (write_json enc False False (JList tools)) (write_text enc (ustr_of ''}''))))))))
       (0 + (image_count True False (JList messages) + (0 + (image_count False False (JStr system) + (0 +
         (image_count False False (JList tools) + 0))))))
       ((ustr_of ''{'' @ [34] @ ustr_of ''messages'' @ [34] @ ustr_of '':'') @ (json_dumps (redacted True False (JList messages)) @
        ((ustr_of '','' @ [34] @ ustr_of ''system'' @ [34] @ ustr_of '':'') @ (json_dumps (redacted False False (JStr system)) @
        ((ustr_of '','' @ [34] @ ustr_of ''tools'' @ [34] @ ustr_of '':'') @ (json_dumps (redacted False False (JList tools)) @ ustr_of ''}''))))))"
    by (intro writes_then writes_text writes_json)
  moreover have "(ustr_of ''{'' @ [34] @ ustr_of ''messages'' @ [34] @ ustr_of '':'') @ (json_dumps (redacted True False (JList messages)) @
        ((ustr_of '','' @ [34] @ ustr_of ''system'' @ [34] @ ustr_of '':'') @ (json_dumps (redacted False False (JStr system)) @
        ((ustr_of '','' @ [34] @ ustr_of ''tools'' @ [34] @ ustr_of '':'') @ (json_dumps (redacted False False (JList tools)) @ ustr_of ''}''))))) = T"
    unfolding T_def json_dumps.simps(7) json_object_text_def list.map prod.case sorted json_member_def fst_conv snd_conv keys
    by (simp add: ustr_of_def)
  ultimately obtain c where c: "then_write (write_text enc (ustr_of ''{'' @ [34] @ ustr_of ''messages'' @ [34] @ ustr_of '':''))
       (then_write (write_json enc True False (JList messages))
       (then_write (write_text enc (ustr_of '','' @ [34] @ ustr_of ''system'' @ [34] @ ustr_of '':''))
       (then_write (write_json enc False False (JStr system))
       (then_write (write_text enc (ustr_of '','' @ [34] @ ustr_of ''tools'' @ [34] @ ustr_of '':''))
       (then_write (write_json enc False False (JList tools)) (write_text enc (ustr_of ''}''))))))) tc_new =
       Some (image_count True False (JList messages) + image_count False False (JList tools), c)" "absorbs enc tc_new T c"
    using tc_new_ok by (auto simp: writes_def)
  show ?thesis
    unfolding estimate_request_def c(1) T_def [symmetric]
    using absorbs_finish [OF c(2)] by (simp add: BINARY_IMAGE_TOKENS_def)
qed

text \<open>
  Counting a text refines counting its pieces: \<open>count_text\<close> always returns the sum over the
  consecutive pieces of the text, each of at most 65536 characters, and the pieces make up the text.
\<close>

theorem count_text_reference:
  "count_text enc t = Some (sum_list (map enc (chunks t))) \<and> concat (chunks t) = t \<and>
    list_all (\<lambda>x. length x \<le> 65536) (chunks t)"
proof -
  obtain c where "write_loop enc t 0 tc_new = Some c" "absorbs enc tc_new t c"
    using write_loop_absorbs [OF tc_new_ok, of enc t 0] by auto
  then have "count_text enc t = Some (sum_list (map enc (chunks t)))"
    by (simp add: count_text_def tc_write_def absorbs_finish)
  moreover have "concat (chunks t) = t" by (simp add: chunks_def concat_source_chunks)
  moreover have "list_all (\<lambda>x. length x \<le> 65536) (chunks t)"
    using chunks_bound by (auto simp: list_all_iff MAX_ENCODE_CHARS_def)
  ultimately show ?thesis by blast
qed

end
