(* ===== verification/Mcp_Scheduler.thy ===== *)
theory Mcp_Scheduler
  imports Octo_Prelude
begin

text \<open>
  \<open>mcp/scheduler.py\<close>: admission of server-side MCP calls. A coordinator counts the reservations of
  all runtimes (at most 32 in all, at most 4 per user); a runtime has a limit of its own and a bounded
  queue per user, served round robin; a reservation is a lease that is active, draining or released.

  Every method runs under the lock of the coordinator, so one call is one step. Runtimes, calls and
  leases are objects in stores, referred to by index. An operation returns \<open>None\<close> where the code would
  escape with a \<open>KeyError\<close>, an \<open>IndexError\<close> or an \<open>InvalidStateError\<close>. Times are in microseconds;
  \<open>clock k\<close> is the \<open>k\<close>-th reading of the clock, so that readings within one step may differ.
  The callback \<open>start\<close> of a call gets the lease and returns an invocation or raises; its
  contract in the source is to register a task and touch nothing here.
\<close>

definition GLOBAL_MAX_RESERVED :: int where "GLOBAL_MAX_RESERVED = 32"
definition PER_USER_MAX_RESERVED :: int where "PER_USER_MAX_RESERVED = 4"
definition QUEUE_DEADLINE :: int where "QUEUE_DEADLINE = 5000000"
definition PUBLIC_DEADLINE :: int where "PUBLIC_DEADLINE = 60000000"

datatype mcp_error = ServerMcpBusyError | ServerMcpUnavailableError | StartRaised nat | RuntimeLimitError

definition validate_runtime_limit :: "int \<Rightarrow> bool" where
  "validate_runtime_limit n \<longleftrightarrow> 1 \<le> n \<and> n \<le> 32"

definition runtime_waiting_capacity :: "int \<Rightarrow> int" where
  "runtime_waiting_capacity n = min 128 (max 8 (4 * n))"

datatype lease_phase = LeaseActive | LeaseDraining | LeaseReleased

datatype call_state = CallQueued | CallIssued | CallFailed | CallCancelled

record mcp_lease =
  l_runtime :: nat
  l_user :: uuid
  l_phase :: lease_phase

record issued_admission =
  ia_invocation :: nat
  ia_lease :: nat
  ia_enqueued_at :: int
  ia_issued_at :: int
  ia_public_deadline :: int

definition remaining_public_seconds :: "issued_admission \<Rightarrow> int \<Rightarrow> int" where
  "remaining_public_seconds a now = max 0 (ia_public_deadline a - now)"

record queued_call =
  q_runtime :: nat
  q_user :: uuid
  q_sequence :: nat
  q_enqueued_at :: int
  q_queue_deadline :: int
  q_public_deadline :: int
  q_start :: "nat \<Rightarrow> nat + nat"
  q_future :: "(mcp_error, issued_admission) py_future"
  q_state :: call_state

record runtime_admission =
  r_max :: int
  r_capacity :: int
  r_accepting :: bool
  r_active :: int
  r_draining :: int
  r_waiting :: int
  r_next_sequence :: nat
  r_waiters :: "(uuid, nat list) dict"
  r_ready_users :: "uuid list"
  r_ready :: bool

record mcp_coordinator =
  m_active :: int
  m_draining :: int
  m_reserved :: "(uuid, int) dict"
  m_slots :: "nat list"
  m_ready_slots :: "nat list"
  m_closed :: bool
  m_runtimes :: "runtime_admission list"
  m_calls :: "queued_call list"
  m_leases :: "mcp_lease list"
  m_reads :: nat

definition mc_new :: mcp_coordinator where
  "mc_new = \<lparr>m_active = 0, m_draining = 0, m_reserved = [], m_slots = [], m_ready_slots = [], m_closed = False,
     m_runtimes = [], m_calls = [], m_leases = [], m_reads = 0\<rparr>"

abbreviation rt :: "mcp_coordinator \<Rightarrow> nat \<Rightarrow> runtime_admission" where
  "rt s r \<equiv> m_runtimes s ! r"

abbreviation call :: "mcp_coordinator \<Rightarrow> nat \<Rightarrow> queued_call" where
  "call s i \<equiv> m_calls s ! i"

definition upd_rt :: "nat \<Rightarrow> (runtime_admission \<Rightarrow> runtime_admission) \<Rightarrow> mcp_coordinator \<Rightarrow> mcp_coordinator" where
  "upd_rt r f s = s\<lparr>m_runtimes := (m_runtimes s)[r := f (rt s r)]\<rparr>"

definition upd_call :: "nat \<Rightarrow> (queued_call \<Rightarrow> queued_call) \<Rightarrow> mcp_coordinator \<Rightarrow> mcp_coordinator" where
  "upd_call i f s = s\<lparr>m_calls := (m_calls s)[i := f (call s i)]\<rparr>"

definition read_clock :: "(nat \<Rightarrow> int) \<Rightarrow> mcp_coordinator \<Rightarrow> int \<times> mcp_coordinator" where
  "read_clock clock s = (clock (m_reads s), s\<lparr>m_reads := m_reads s + 1\<rparr>)"

definition reserved_count :: "runtime_admission \<Rightarrow> int" where
  "reserved_count t = r_active t + r_draining t"

definition global_reserved :: "mcp_coordinator \<Rightarrow> int" where
  "global_reserved s = m_active s + m_draining s"

section \<open>The coordinator\<close>

definition create_runtime :: "int \<Rightarrow> mcp_coordinator \<Rightarrow> mcp_error + mcp_coordinator" where
  "create_runtime n s =
     (if \<not> validate_runtime_limit n then Inl RuntimeLimitError
      else Inr (s\<lparr>m_runtimes := m_runtimes s @
          [\<lparr>r_max = n, r_capacity = runtime_waiting_capacity n, r_accepting = (\<not> m_closed s), r_active = 0,
            r_draining = 0, r_waiting = 0, r_next_sequence = 0, r_waiters = [], r_ready_users = [], r_ready = False\<rparr>],
        m_slots := (if m_closed s then m_slots s else m_slots s @ [length (m_runtimes s)])\<rparr>))"

definition mark_ready :: "nat \<Rightarrow> mcp_coordinator \<Rightarrow> mcp_coordinator" where
  "mark_ready r s =
     (if r_ready (rt s r) \<or> \<not> r_accepting (rt s r) \<or> r_waiting (rt s r) = 0 then s
      else upd_rt r (\<lambda>t. t\<lparr>r_ready := True\<rparr>) (s\<lparr>m_ready_slots := m_ready_slots s @ [r]\<rparr>))"

definition remove_ready :: "nat \<Rightarrow> mcp_coordinator \<Rightarrow> mcp_coordinator" where
  "remove_ready r s =
     (if \<not> r_ready (rt s r) then s
      else upd_rt r (\<lambda>t. t\<lparr>r_ready := False\<rparr>) (s\<lparr>m_ready_slots := remove1 r (m_ready_slots s)\<rparr>))"

definition can_reserve_for_user :: "uuid \<Rightarrow> mcp_coordinator \<Rightarrow> bool" where
  "can_reserve_for_user u s \<longleftrightarrow> dict_get_default (m_reserved s) u 0 < PER_USER_MAX_RESERVED"

definition reserve :: "nat \<Rightarrow> uuid \<Rightarrow> mcp_coordinator \<Rightarrow> nat \<times> mcp_coordinator" where
  "reserve r u s =
     (length (m_leases s),
      upd_rt r (\<lambda>t. t\<lparr>r_active := r_active t + 1\<rparr>)
        (s\<lparr>m_active := m_active s + 1,
           m_reserved := dict_set u (dict_get_default (m_reserved s) u 0 + 1) (m_reserved s),
           m_leases := m_leases s @ [\<lparr>l_runtime = r, l_user = u, l_phase = LeaseActive\<rparr>]\<rparr>))"

definition set_lease_phase :: "nat \<Rightarrow> lease_phase \<Rightarrow> mcp_coordinator \<Rightarrow> mcp_coordinator" where
  "set_lease_phase l p s = s\<lparr>m_leases := (m_leases s)[l := (m_leases s ! l)\<lparr>l_phase := p\<rparr>]\<rparr>"

definition drop_reserved :: "uuid \<Rightarrow> (uuid, int) dict \<Rightarrow> (uuid, int) dict option" where
  "drop_reserved u d =
     (case dict_get d u of None \<Rightarrow> None
      | Some n \<Rightarrow> Some (if n = 1 then dict_del u d else dict_set u (n - 1) d))"

definition release_counters :: "nat \<Rightarrow> mcp_coordinator \<Rightarrow> mcp_coordinator option" where
  "release_counters l s =
     (let lease = m_leases s ! l;
          s1 = (if l_phase lease = LeaseActive
                then upd_rt (l_runtime lease) (\<lambda>t. t\<lparr>r_active := r_active t - 1\<rparr>) (s\<lparr>m_active := m_active s - 1\<rparr>)
                else upd_rt (l_runtime lease) (\<lambda>t. t\<lparr>r_draining := r_draining t - 1\<rparr>) (s\<lparr>m_draining := m_draining s - 1\<rparr>))
      in if l_phase lease = LeaseReleased then Some s
         else map_option (\<lambda>d. set_lease_phase l LeaseReleased (s1\<lparr>m_reserved := d\<rparr>)) (drop_reserved (l_user lease) (m_reserved s1)))"

section \<open>Issuing from a runtime's queue\<close>

definition fail_call :: "mcp_error \<Rightarrow> call_state \<Rightarrow> nat \<Rightarrow> mcp_coordinator \<Rightarrow> mcp_coordinator" where
  "fail_call e st i s =
     upd_call i (\<lambda>c. c\<lparr>q_state := st,
       q_future := (if future_done (q_future c) then q_future c
                    else if st = CallCancelled then Cancelled else Raised e)\<rparr>) s"

text \<open>\<open>_expire_queue_head_locked\<close>: the expired head of the queue fails; the rest stays.\<close>

definition expired_head :: "mcp_coordinator \<Rightarrow> int \<Rightarrow> nat list \<Rightarrow> nat list" where
  "expired_head s now queue = takeWhile (\<lambda>i. q_queue_deadline (call s i) \<le> now) queue"

definition expire_queue_head :: "(nat \<Rightarrow> int) \<Rightarrow> nat \<Rightarrow> uuid \<Rightarrow> nat list \<Rightarrow> mcp_coordinator \<Rightarrow> nat list \<times> mcp_coordinator" where
  "expire_queue_head clock r u queue s =
     (let (now, s1) = read_clock clock s;
          old = expired_head s1 now queue;
          rest = drop (length old) queue
      in (rest, upd_rt r (\<lambda>t. t\<lparr>r_waiters := dict_set u rest (r_waiters t), r_waiting := r_waiting t - int (length old)\<rparr>)
            (fold (fail_call ServerMcpBusyError CallFailed) old s1)))"

datatype issue_loop = IssueCrash | IssueNext nat mcp_coordinator | IssueDone bool mcp_coordinator

text \<open>The body of the loop after its head user was taken and has a call to issue.\<close>

definition pop_call :: "nat \<Rightarrow> uuid \<Rightarrow> nat list \<Rightarrow> mcp_coordinator \<Rightarrow> mcp_coordinator" where
  "pop_call r u rest s =
     upd_rt r (\<lambda>t. t\<lparr>r_waiting := r_waiting t - 1,
       r_ready_users := (if rest \<noteq> [] then r_ready_users t @ [u] else r_ready_users t),
       r_waiters := (if rest \<noteq> [] then dict_set u rest (r_waiters t) else dict_del u (r_waiters t))\<rparr>) s"

definition finish_issue :: "nat \<Rightarrow> nat \<Rightarrow> int \<Rightarrow> nat \<Rightarrow> mcp_coordinator \<Rightarrow> mcp_coordinator" where
  "finish_issue i l issued_at invocation s =
     upd_call i (\<lambda>c. c\<lparr>q_state := CallIssued, q_future := Result
       \<lparr>ia_invocation = invocation, ia_lease = l, ia_enqueued_at = q_enqueued_at c, ia_issued_at = issued_at,
        ia_public_deadline = q_public_deadline c\<rparr>\<rparr>) s"

definition issue_call :: "(nat \<Rightarrow> int) \<Rightarrow> nat \<Rightarrow> uuid \<Rightarrow> nat \<Rightarrow> nat list \<Rightarrow> mcp_coordinator \<Rightarrow> issue_loop" where
  "issue_call clock r u i rest s =
     (let s1 = pop_call r u rest s;
          (l, s2) = reserve r u s1;
          (issued_at, s3) = read_clock clock s2
      in case q_start (call s3 i) l of
           Inl exn \<Rightarrow>
             (case release_counters l s3 of
                None \<Rightarrow> IssueCrash
              | Some s4 \<Rightarrow> IssueNext 0 (fail_call (StartRaised exn) CallFailed i s4))
         | Inr invocation \<Rightarrow>
             if future_done (q_future (call s3 i)) then IssueCrash
             else IssueDone True (finish_issue i l issued_at invocation s3))"

definition try_issue_body :: "(nat \<Rightarrow> int) \<Rightarrow> nat \<Rightarrow> nat \<Rightarrow> mcp_coordinator \<Rightarrow> issue_loop" where
  "try_issue_body clock r checked s =
     (case r_ready_users (rt s r) of
        [] \<Rightarrow> IssueDone False s
      | u # us \<Rightarrow>
          if \<not> checked < length (u # us) then IssueDone False s
          else case dict_get (r_waiters (rt s r)) u of
                 None \<Rightarrow> IssueCrash
               | Some queue \<Rightarrow>
                   (case expire_queue_head clock r u queue (upd_rt r (\<lambda>t. t\<lparr>r_ready_users := us\<rparr>) s) of
                      ([], s1) \<Rightarrow> IssueNext 0 (upd_rt r (\<lambda>t. t\<lparr>r_waiters := dict_del u (r_waiters t)\<rparr>) s1)
                    | (i # rest, s1) \<Rightarrow>
                        if \<not> can_reserve_for_user u s1
                        then IssueNext (checked + 1) (upd_rt r (\<lambda>t. t\<lparr>r_ready_users := r_ready_users t @ [u]\<rparr>) s1)
                        else issue_call clock r u i rest s1))"

text \<open>How much work a state has: used for the termination of the loops.\<close>

definition rt_queued :: "runtime_admission \<Rightarrow> nat" where
  "rt_queued t = dict_sum length (r_waiters t)"

definition queued_total :: "mcp_coordinator \<Rightarrow> nat" where
  "queued_total s = sum_list (map rt_queued (m_runtimes s))"

lemma fail_calls_fields [simp]:
  "m_runtimes (fold (fail_call e st) xs s) = m_runtimes s"
  "m_leases (fold (fail_call e st) xs s) = m_leases s"
  "m_reserved (fold (fail_call e st) xs s) = m_reserved s"
  "m_active (fold (fail_call e st) xs s) = m_active s"
  "m_draining (fold (fail_call e st) xs s) = m_draining s"
  "m_slots (fold (fail_call e st) xs s) = m_slots s"
  "m_ready_slots (fold (fail_call e st) xs s) = m_ready_slots s"
  "m_closed (fold (fail_call e st) xs s) = m_closed s"
  "m_reads (fold (fail_call e st) xs s) = m_reads s"
  by (induction xs arbitrary: s) (simp_all add: fail_call_def upd_call_def)

lemma upd_rt_fields [simp]:
  "m_leases (upd_rt r f s) = m_leases s" "m_reserved (upd_rt r f s) = m_reserved s"
  "m_active (upd_rt r f s) = m_active s" "m_draining (upd_rt r f s) = m_draining s"
  "m_slots (upd_rt r f s) = m_slots s" "m_ready_slots (upd_rt r f s) = m_ready_slots s"
  "m_closed (upd_rt r f s) = m_closed s" "m_reads (upd_rt r f s) = m_reads s" "m_calls (upd_rt r f s) = m_calls s"
  "m_runtimes (upd_rt r f s) = (m_runtimes s)[r := f (rt s r)]"
  by (simp_all add: upd_rt_def)

lemma upd_call_fields [simp]:
  "m_leases (upd_call i f s) = m_leases s" "m_reserved (upd_call i f s) = m_reserved s"
  "m_active (upd_call i f s) = m_active s" "m_draining (upd_call i f s) = m_draining s"
  "m_slots (upd_call i f s) = m_slots s" "m_ready_slots (upd_call i f s) = m_ready_slots s"
  "m_closed (upd_call i f s) = m_closed s" "m_reads (upd_call i f s) = m_reads s"
  "m_runtimes (upd_call i f s) = m_runtimes s" "m_calls (upd_call i f s) = (m_calls s)[i := f (call s i)]"
  by (simp_all add: upd_call_def)

lemma set_lease_phase_fields [simp]:
  "m_runtimes (set_lease_phase l p s) = m_runtimes s" "m_calls (set_lease_phase l p s) = m_calls s"
  "m_reserved (set_lease_phase l p s) = m_reserved s" "m_active (set_lease_phase l p s) = m_active s"
  "m_draining (set_lease_phase l p s) = m_draining s" "m_slots (set_lease_phase l p s) = m_slots s"
  "m_ready_slots (set_lease_phase l p s) = m_ready_slots s" "m_closed (set_lease_phase l p s) = m_closed s"
  "m_reads (set_lease_phase l p s) = m_reads s"
  "m_leases (set_lease_phase l p s) = (m_leases s)[l := (m_leases s ! l)\<lparr>l_phase := p\<rparr>]"
  by (simp_all add: set_lease_phase_def)

text \<open>Two records of a runtime that differ at most in the two counters of leases.\<close>

definition same_queues :: "runtime_admission \<Rightarrow> runtime_admission \<Rightarrow> bool" where
  "same_queues t t' \<longleftrightarrow> t'\<lparr>r_active := r_active t, r_draining := r_draining t\<rparr> = t"

lemma same_queues_fields:
  assumes "same_queues t t'"
  shows "r_max t' = r_max t" "r_capacity t' = r_capacity t" "r_accepting t' = r_accepting t"
    "r_waiting t' = r_waiting t" "r_waiters t' = r_waiters t" "r_ready_users t' = r_ready_users t" "r_ready t' = r_ready t"
    "r_next_sequence t' = r_next_sequence t"
  using assms by (cases t; cases t'; simp add: same_queues_def)+

lemma same_queues_simps [simp]:
  "same_queues t t" "same_queues t (t\<lparr>r_active := a\<rparr>)" "same_queues t (t\<lparr>r_draining := a\<rparr>)"
  "same_queues t (t\<lparr>r_active := a, r_draining := d\<rparr>)"
  by (simp_all add: same_queues_def)

lemma release_counters_runtimes:
  assumes "release_counters l s = Some t"
  shows "length (m_runtimes t) = length (m_runtimes s)"
    and "r < length (m_runtimes s) \<Longrightarrow> same_queues (rt s r) (rt t r)"
  using assms by (auto simp: release_counters_def Let_def nth_list_update_if split: if_splits)

lemma rt_queued_update [simp]:
  "rt_queued (t\<lparr>r_active := a\<rparr>) = rt_queued t" "rt_queued (t\<lparr>r_draining := a\<rparr>) = rt_queued t"
  "rt_queued (t\<lparr>r_waiting := w\<rparr>) = rt_queued t" "rt_queued (t\<lparr>r_ready := b\<rparr>) = rt_queued t"
  "rt_queued (t\<lparr>r_ready_users := us\<rparr>) = rt_queued t"
  "rt_queued (t\<lparr>r_waiters := d\<rparr>) = dict_sum length d"
  by (simp_all add: rt_queued_def)

text \<open>The effect of one turn of the loop on the waiting calls, whatever the state.\<close>

lemma expire_queue_head_eq:
  assumes "expire_queue_head clock r u queue s = (rest, s1)"
  defines "old \<equiv> expired_head s (clock (m_reads s)) queue"
  shows "rest = drop (length old) queue"
    and "s1 = upd_rt r (\<lambda>t. t\<lparr>r_waiters := dict_set u rest (r_waiters t), r_waiting := r_waiting t - int (length old)\<rparr>)
            (fold (fail_call ServerMcpBusyError CallFailed) old (s\<lparr>m_reads := m_reads s + 1\<rparr>))"
  using assms by (auto simp: expire_queue_head_def read_clock_def Let_def expired_head_def)

lemma expired_head_length: "length (expired_head s now queue) \<le> length queue"
  by (simp add: expired_head_def length_takeWhile_le)

lemma issue_call_less:
  assumes r: "r < length (m_runtimes s)" and get: "dict_get (r_waiters (rt s r)) u = Some (i # rest)"
  shows "issue_call clock r u i rest s = IssueNext c t \<Longrightarrow>
      length (m_runtimes t) = length (m_runtimes s) \<and> rt_queued (rt t r) < rt_queued (rt s r) \<and>
      length (r_ready_users (rt t r)) \<le> Suc (length (r_ready_users (rt s r))) \<and>
      (\<forall>r'. r' \<noteq> r \<longrightarrow> r' < length (m_runtimes s) \<longrightarrow> rt_queued (rt t r') = rt_queued (rt s r'))"
    and "issue_call clock r u i rest s = IssueDone b t \<Longrightarrow>
      length (m_runtimes t) = length (m_runtimes s) \<and> rt_queued (rt t r) < rt_queued (rt s r) \<and> b \<and>
      (\<forall>r'. r' \<noteq> r \<longrightarrow> r' < length (m_runtimes s) \<longrightarrow> rt_queued (rt t r') = rt_queued (rt s r'))"
proof -
  define s3 where "s3 = snd (read_clock clock (snd (reserve r u (pop_call r u rest s))))"
  have len: "length (m_runtimes s3) = length (m_runtimes s)"
    by (simp add: s3_def read_clock_def reserve_def pop_call_def)
  have less: "rt_queued (rt s3 r) < rt_queued (rt s r)"
    using r dict_sum_set_old [OF get, of length rest] dict_sum_del_le_get [OF get, of length]
    by (auto simp: s3_def read_clock_def reserve_def pop_call_def) (auto simp: rt_queued_def)
  have users: "length (r_ready_users (rt s3 r)) \<le> Suc (length (r_ready_users (rt s r)))"
    using r by (simp add: s3_def read_clock_def reserve_def pop_call_def)
  have other: "rt s3 r' = rt s r'" if "r' \<noteq> r" for r'
    using that by (simp add: s3_def read_clock_def reserve_def pop_call_def)
  have rel: "length (m_runtimes s4) = length (m_runtimes s) \<and>
      (\<forall>r' < length (m_runtimes s). rt_queued (rt s4 r') = rt_queued (rt s3 r') \<and>
        r_ready_users (rt s4 r') = r_ready_users (rt s3 r'))"
    if "release_counters l s3 = Some s4" for l s4
    using release_counters_runtimes [OF that] len same_queues_fields(5,6) [OF release_counters_runtimes(2) [OF that]]
    by (simp add: rt_queued_def)
  show "length (m_runtimes t) = length (m_runtimes s) \<and> rt_queued (rt t r) < rt_queued (rt s r) \<and>
      length (r_ready_users (rt t r)) \<le> Suc (length (r_ready_users (rt s r))) \<and>
      (\<forall>r'. r' \<noteq> r \<longrightarrow> r' < length (m_runtimes s) \<longrightarrow> rt_queued (rt t r') = rt_queued (rt s r'))"
    if "issue_call clock r u i rest s = IssueNext c t"
    using that r rel less users other len
    by (auto simp: issue_call_def Let_def s3_def fail_call_def split: prod.splits sum.splits option.splits if_splits)
  show "length (m_runtimes t) = length (m_runtimes s) \<and> rt_queued (rt t r) < rt_queued (rt s r) \<and> b \<and>
      (\<forall>r'. r' \<noteq> r \<longrightarrow> r' < length (m_runtimes s) \<longrightarrow> rt_queued (rt t r') = rt_queued (rt s r'))"
    if "issue_call clock r u i rest s = IssueDone b t"
    using that r less other len
    by (auto simp: issue_call_def Let_def s3_def finish_issue_def split: prod.splits sum.splits option.splits if_splits)
qed

lemma expire_then_queued:
  assumes r: "r < length (m_runtimes s)" and get: "dict_get (r_waiters (rt s r)) u = Some queue"
    and e: "expire_queue_head clock r u queue (upd_rt r (\<lambda>t. t\<lparr>r_ready_users := us\<rparr>) s) = (rest, s1)"
  shows "length (m_runtimes s1) = length (m_runtimes s)"
    and "r_ready_users (rt s1 r) = us"
    and "rt_queued (rt s1 r) \<le> rt_queued (rt s r)"
    and "dict_get (r_waiters (rt s1 r)) u = Some rest"
    and "r' \<noteq> r \<Longrightarrow> rt s1 r' = rt s r'"
proof -
  note e' = expire_queue_head_eq [OF e]
  show "length (m_runtimes s1) = length (m_runtimes s)" by (simp add: e'(2))
  show "r_ready_users (rt s1 r) = us" using r by (simp add: e'(2))
  have "length rest \<le> length queue" by (simp add: e'(1))
  then show "rt_queued (rt s1 r) \<le> rt_queued (rt s r)"
    using r dict_sum_set_old [OF get, of length rest] by (simp add: e'(2)) (simp add: rt_queued_def)
  show "dict_get (r_waiters (rt s1 r)) u = Some rest" using r by (simp add: e'(2))
  show "r' \<noteq> r \<Longrightarrow> rt s1 r' = rt s r'" by (simp add: e'(2))
qed

text \<open>
  A turn leaves no more calls in the queue and does not touch other queues; one that goes on
  has fewer calls, fewer users or one more user checked, and one that issued a call has fewer calls.
\<close>

definition queues_shrink :: "nat \<Rightarrow> mcp_coordinator \<Rightarrow> mcp_coordinator \<Rightarrow> bool" where
  "queues_shrink r s t \<longleftrightarrow> length (m_runtimes t) = length (m_runtimes s) \<and> rt_queued (rt t r) \<le> rt_queued (rt s r) \<and>
     (\<forall>r'. r' \<noteq> r \<longrightarrow> r' < length (m_runtimes s) \<longrightarrow> rt_queued (rt t r') = rt_queued (rt s r'))"

definition loop_less :: "nat \<Rightarrow> nat \<Rightarrow> nat \<Rightarrow> mcp_coordinator \<Rightarrow> mcp_coordinator \<Rightarrow> bool" where
  "loop_less r checked c s t \<longleftrightarrow>
     rt_queued (rt t r) + length (r_ready_users (rt t r)) < rt_queued (rt s r) + length (r_ready_users (rt s r)) \<or>
     rt_queued (rt t r) + length (r_ready_users (rt t r)) \<le> rt_queued (rt s r) + length (r_ready_users (rt s r)) \<and>
     length (r_ready_users (rt t r)) - c < length (r_ready_users (rt s r)) - checked"

definition turn_shrinks :: "nat \<Rightarrow> nat \<Rightarrow> mcp_coordinator \<Rightarrow> issue_loop \<Rightarrow> bool" where
  "turn_shrinks r checked s out =
     (case out of IssueCrash \<Rightarrow> True
      | IssueNext c t \<Rightarrow> queues_shrink r s t \<and> loop_less r checked c s t
      | IssueDone g t \<Rightarrow> queues_shrink r s t \<and> (g \<longrightarrow> rt_queued (rt t r) < rt_queued (rt s r)))"

lemma issue_call_shrinks:
  assumes r: "r < length (m_runtimes s)" and get: "dict_get (r_waiters (rt s r)) u = Some (i # rest)"
    and s0: "queues_shrink r s0 s" and users: "length (r_ready_users (rt s r)) < length (r_ready_users (rt s0 r))"
  shows "turn_shrinks r checked s0 (issue_call clock r u i rest s)"
proof (cases "issue_call clock r u i rest s")
  case IssueCrash
  then show ?thesis by (simp add: turn_shrinks_def)
next
  case (IssueNext c t)
  from issue_call_less(1) [OF r get this] show ?thesis
    using s0 users by (simp add: turn_shrinks_def queues_shrink_def loop_less_def IssueNext)
next
  case (IssueDone g t)
  from issue_call_less(2) [OF r get this] show ?thesis
    using s0 users by (simp add: turn_shrinks_def queues_shrink_def IssueDone)
qed

lemma try_issue_body_shrinks:
  assumes r: "r < length (m_runtimes s)"
  shows "turn_shrinks r checked s (try_issue_body clock r checked s)"
proof (cases "r_ready_users (rt s r)")
  case Nil
  then show ?thesis by (simp add: try_issue_body_def turn_shrinks_def queues_shrink_def)
next
  case users: (Cons u us)
  show ?thesis
  proof (cases "checked < length (u # us) \<and> dict_get (r_waiters (rt s r)) u \<noteq> None")
    case False
    then show ?thesis using users by (auto simp: try_issue_body_def turn_shrinks_def queues_shrink_def)
  next
    case True
    then obtain queue where get: "dict_get (r_waiters (rt s r)) u = Some queue" by auto
    obtain rest s1 where e: "expire_queue_head clock r u queue (upd_rt r (\<lambda>t. t\<lparr>r_ready_users := us\<rparr>) s) = (rest, s1)"
      by fastforce
    note x = expire_then_queued [OF r get e]
    have r1: "r < length (m_runtimes s1)" using r x(1) by simp
    have del: "dict_sum length (dict_del u (r_waiters (rt s1 r))) \<le> rt_queued (rt s r)"
      using x(3) dict_sum_del_le [of length u "r_waiters (rt s1 r)"] by (simp add: rt_queued_def)
    have body: "try_issue_body clock r checked s =
        (case rest of [] \<Rightarrow> IssueNext 0 (upd_rt r (\<lambda>t. t\<lparr>r_waiters := dict_del u (r_waiters t)\<rparr>) s1)
         | i # rest' \<Rightarrow>
             if \<not> can_reserve_for_user u s1
             then IssueNext (checked + 1) (upd_rt r (\<lambda>t. t\<lparr>r_ready_users := r_ready_users t @ [u]\<rparr>) s1)
             else issue_call clock r u i rest' s1)"
      using users True get e by (simp add: try_issue_body_def split: list.split)
    show ?thesis
    proof (cases rest)
      case Nil
      then show ?thesis using r1 x del users
        by (simp add: body turn_shrinks_def queues_shrink_def loop_less_def)
    next
      case (Cons i rest')
      have "queues_shrink r s s1" using x by (simp add: queues_shrink_def)
      then have "turn_shrinks r checked s (issue_call clock r u i rest' s1)"
        using issue_call_shrinks [OF r1 x(4) [unfolded Cons]] x(2) users by simp
      then show ?thesis
        using Cons r1 x users True Suc_diff_le [of checked "length us"]
        by (simp add: body) (simp add: turn_shrinks_def queues_shrink_def loop_less_def)
    qed
  qed
qed

function try_issue_loop :: "(nat \<Rightarrow> int) \<Rightarrow> nat \<Rightarrow> nat \<Rightarrow> mcp_coordinator \<Rightarrow> (bool \<times> mcp_coordinator) option" where
  "try_issue_loop clock r checked s =
     (if \<not> r < length (m_runtimes s) then None
      else case try_issue_body clock r checked s of
             IssueCrash \<Rightarrow> None
           | IssueDone granted t \<Rightarrow> Some (granted, t)
           | IssueNext c t \<Rightarrow> try_issue_loop clock r c t)"
  by pat_completeness auto

termination
proof (relation "measures [\<lambda>(clock, r, checked, s). rt_queued (rt s r) + length (r_ready_users (rt s r)),
    \<lambda>(clock, r, checked, s). length (r_ready_users (rt s r)) - checked]", goal_cases)
  case 1
  show ?case by simp
next
  case (2 clock r checked s c t)
  then show ?case
    using try_issue_body_shrinks [of r s checked clock] by (auto simp: turn_shrinks_def loop_less_def)
qed

declare try_issue_loop.simps [simp del]

definition try_issue :: "(nat \<Rightarrow> int) \<Rightarrow> nat \<Rightarrow> mcp_coordinator \<Rightarrow> (bool \<times> mcp_coordinator) option" where
  "try_issue clock r s =
     (if \<not> r_accepting (rt s r) \<or> reserved_count (rt s r) \<ge> r_max (rt s r) then Some (False, s)
      else if global_reserved s \<ge> GLOBAL_MAX_RESERVED then Some (False, s)
      else try_issue_loop clock r 0 s)"

text \<open>
  \<open>_drain_locked\<close>: one pass over the ready runtimes stops at the first that issues a call;
  the loop ends when no runtime of a whole pass did.
\<close>

fun drain_round :: "(nat \<Rightarrow> int) \<Rightarrow> nat \<Rightarrow> mcp_coordinator \<Rightarrow> (bool \<times> mcp_coordinator) option" where
  "drain_round clock 0 s = Some (False, s)"
| "drain_round clock (Suc attempts) s =
     (case m_ready_slots s of
        [] \<Rightarrow> None
      | r # ready \<Rightarrow>
          (case try_issue clock r (upd_rt r (\<lambda>t. t\<lparr>r_ready := False\<rparr>) (s\<lparr>m_ready_slots := ready\<rparr>)) of
             None \<Rightarrow> None
           | Some (granted, t) \<Rightarrow>
               if granted then Some (True, mark_ready r t) else drain_round clock attempts (mark_ready r t)))"

lemma queued_total_eq: "queued_total s = (\<Sum>r < length (m_runtimes s). rt_queued (rt s r))"
  by (simp add: queued_total_def sum_list_sum_nth atLeast0LessThan)

lemma queues_shrink_total:
  assumes "queues_shrink r s t" and "r < length (m_runtimes s)"
  shows "queued_total t + rt_queued (rt s r) = queued_total s + rt_queued (rt t r)"
proof -
  have split: "queued_total s' = rt_queued (rt s' r) + (\<Sum>r' \<in> {..<length (m_runtimes s)} - {r}. rt_queued (rt s' r'))"
    if "length (m_runtimes s') = length (m_runtimes s)" for s'
    using that assms(2) by (simp add: queued_total_eq sum.remove [of _ r])
  have "(\<Sum>r' \<in> {..<length (m_runtimes s)} - {r}. rt_queued (rt t r')) =
      (\<Sum>r' \<in> {..<length (m_runtimes s)} - {r}. rt_queued (rt s r'))"
    using assms(1) by (intro sum.cong) (auto simp: queues_shrink_def)
  then show ?thesis using split [of s] split [of t] assms(1) by (simp add: queues_shrink_def)
qed

lemma try_issue_loop_shrinks:
  assumes "try_issue_loop clock r checked s = Some (g, t)"
  shows "queues_shrink r s t \<and> (g \<longrightarrow> rt_queued (rt t r) < rt_queued (rt s r)) \<and> r < length (m_runtimes s)"
  using assms
proof (induction clock r checked s rule: try_issue_loop.induct)
  case (1 clock r checked s)
  have r: "r < length (m_runtimes s)" using 1(2) by (simp add: try_issue_loop.simps [of clock r checked s] split: if_splits)
  note turn = try_issue_body_shrinks [OF r, of checked clock]
  show ?case
  proof (cases "try_issue_body clock r checked s")
    case IssueCrash
    then show ?thesis using 1(2) r by (simp add: try_issue_loop.simps [of clock r checked s])
  next
    case (IssueDone g' t')
    then show ?thesis using 1(2) r turn by (simp add: try_issue_loop.simps [of clock r checked s] turn_shrinks_def)
  next
    case (IssueNext c t')
    then have "try_issue_loop clock r c t' = Some (g, t)" using 1(2) r by (simp add: try_issue_loop.simps [of clock r checked s])
    then have IH: "queues_shrink r t' t" "g \<Longrightarrow> rt_queued (rt t r) < rt_queued (rt t' r)"
      using 1(1) [OF _ IssueNext] r by blast+
    have "queues_shrink r s t'" using turn by (simp add: turn_shrinks_def IssueNext)
    then show ?thesis using IH r by (simp add: queues_shrink_def) linarith
  qed
qed

lemma try_issue_total:
  assumes "try_issue clock r s = Some (g, t)"
  shows "queued_total t \<le> queued_total s" and "g \<Longrightarrow> queued_total t < queued_total s"
proof -
  have "\<not> g \<and> t = s \<or> try_issue_loop clock r 0 s = Some (g, t)"
    using assms by (simp add: try_issue_def split: if_splits)
  then have "queued_total t \<le> queued_total s \<and> (g \<longrightarrow> queued_total t < queued_total s)"
  proof
    assume "try_issue_loop clock r 0 s = Some (g, t)"
    note loop = try_issue_loop_shrinks [OF this]
    have "queued_total t + rt_queued (rt s r) = queued_total s + rt_queued (rt t r)"
      using queues_shrink_total loop by blast
    moreover have "rt_queued (rt t r) \<le> rt_queued (rt s r)" using loop by (simp add: queues_shrink_def)
    ultimately show ?thesis using loop by linarith
  qed simp
  then show "queued_total t \<le> queued_total s" and "g \<Longrightarrow> queued_total t < queued_total s" by blast+
qed

lemma queued_total_upd:
  assumes "rt_queued (f (rt s r)) = rt_queued (rt s r)"
  shows "queued_total (upd_rt r f s) = queued_total s"
proof -
  have "map rt_queued ((m_runtimes s)[r := f (rt s r)]) = map rt_queued (m_runtimes s)"
    using assms by (intro nth_equalityI) (auto simp: nth_list_update_if)
  then show ?thesis by (simp add: queued_total_def)
qed

lemma queued_total_ready [simp]: "queued_total (s\<lparr>m_ready_slots := x\<rparr>) = queued_total s"
  by (simp add: queued_total_def)

lemma queued_total_mark_ready [simp]: "queued_total (mark_ready r s) = queued_total s"
  by (simp add: mark_ready_def queued_total_upd)

lemma drain_round_total:
  "drain_round clock n s = Some (g, t) \<Longrightarrow> queued_total t \<le> queued_total s \<and> (g \<longrightarrow> queued_total t < queued_total s)"
proof (induction n arbitrary: s)
  case 0
  then show ?case by simp
next
  case (Suc n)
  obtain r ready where ready: "m_ready_slots s = r # ready" using Suc.prems by (auto split: list.splits)
  let ?s = "upd_rt r (\<lambda>t. t\<lparr>r_ready := False\<rparr>) (s\<lparr>m_ready_slots := ready\<rparr>)"
  obtain g1 t1 where issue: "try_issue clock r ?s = Some (g1, t1)"
    using Suc.prems ready by (auto split: option.splits)
  have s: "queued_total ?s = queued_total s" by (simp add: queued_total_upd)
  show ?case
  proof (cases g1)
    case True
    then show ?thesis using Suc.prems ready issue try_issue_total(2) [OF issue] s by auto
  next
    case False
    then have "drain_round clock n (mark_ready r t1) = Some (g, t)" using Suc.prems ready issue by simp
    from Suc.IH [OF this] show ?thesis using try_issue_total(1) [OF issue] s by auto
  qed
qed

function mc_drain :: "(nat \<Rightarrow> int) \<Rightarrow> mcp_coordinator \<Rightarrow> mcp_coordinator option" where
  "mc_drain clock s =
     (if global_reserved s < GLOBAL_MAX_RESERVED \<and> m_ready_slots s \<noteq> []
      then (case drain_round clock (length (m_ready_slots s)) s of
              None \<Rightarrow> None
            | Some (granted, t) \<Rightarrow> if granted then mc_drain clock t else Some t)
      else Some s)"
  by pat_completeness auto

termination
  by (relation "measure (\<lambda>(clock, s). queued_total s)") (auto dest: drain_round_total)

declare mc_drain.simps [simp del]

section \<open>The operations\<close>

record coordinator_snapshot =
  cs_active :: int
  cs_draining :: int
  cs_reserved :: int
  cs_reserved_by_user :: "(uuid, int) dict"

definition mc_snapshot :: "mcp_coordinator \<Rightarrow> coordinator_snapshot" where
  "mc_snapshot s = \<lparr>cs_active = m_active s, cs_draining = m_draining s, cs_reserved = m_active s + m_draining s,
     cs_reserved_by_user = m_reserved s\<rparr>"

definition mc_mark_draining :: "nat \<Rightarrow> mcp_coordinator \<Rightarrow> mcp_coordinator" where
  "mc_mark_draining l s =
     (let lease = m_leases s ! l
      in if l_phase lease \<noteq> LeaseActive then s
         else set_lease_phase l LeaseDraining
           (upd_rt (l_runtime lease) (\<lambda>t. t\<lparr>r_active := r_active t - 1, r_draining := r_draining t + 1\<rparr>)
             (s\<lparr>m_active := m_active s - 1, m_draining := m_draining s + 1\<rparr>)))"

definition mc_release :: "(nat \<Rightarrow> int) \<Rightarrow> nat \<Rightarrow> mcp_coordinator \<Rightarrow> mcp_coordinator option" where
  "mc_release clock l s =
     (if l_phase (m_leases s ! l) = LeaseReleased then Some s
      else case release_counters l s of None \<Rightarrow> None | Some t \<Rightarrow> mc_drain clock t)"

definition mc_admit_now ::
  "(nat \<Rightarrow> int) \<Rightarrow> nat \<Rightarrow> uuid \<Rightarrow> (nat \<Rightarrow> nat + nat) \<Rightarrow> mcp_coordinator \<Rightarrow>
   ((mcp_error + issued_admission) \<times> mcp_coordinator) option" where
  "mc_admit_now clock r u start s =
     (if \<not> r_accepting (rt s r) \<or> m_closed s then Some (Inl ServerMcpUnavailableError, s)
      else if reserved_count (rt s r) \<ge> r_max (rt s r) \<or> global_reserved s \<ge> GLOBAL_MAX_RESERVED \<or>
              \<not> can_reserve_for_user u s
      then Some (Inl ServerMcpBusyError, s)
      else let (l, s1) = reserve r u s; (now, s2) = read_clock clock s1
           in case start l of
                Inl exn \<Rightarrow> map_option (\<lambda>t. (Inl (StartRaised exn), t)) (release_counters l s2)
              | Inr invocation \<Rightarrow>
                  Some (Inr \<lparr>ia_invocation = invocation, ia_lease = l, ia_enqueued_at = now, ia_issued_at = now,
                             ia_public_deadline = now + PUBLIC_DEADLINE\<rparr>, s2))"

definition enqueue_call :: "nat \<Rightarrow> uuid \<Rightarrow> (nat \<Rightarrow> nat + nat) \<Rightarrow> int \<Rightarrow> mcp_coordinator \<Rightarrow> mcp_coordinator" where
  "enqueue_call r u start now s =
     (let t = rt s r; i = length (m_calls s);
          c = \<lparr>q_runtime = r, q_user = u, q_sequence = r_next_sequence t, q_enqueued_at = now,
               q_queue_deadline = now + QUEUE_DEADLINE, q_public_deadline = now + PUBLIC_DEADLINE,
               q_start = start, q_future = Pending, q_state = CallQueued\<rparr>
      in upd_rt r (\<lambda>t. t\<lparr>r_next_sequence := r_next_sequence t + 1,
             r_waiters := dict_set u (dict_get_default (r_waiters t) u [] @ [i]) (r_waiters t),
             r_ready_users := (if dict_get (r_waiters t) u = None then r_ready_users t @ [u] else r_ready_users t),
             r_waiting := r_waiting t + 1\<rparr>)
           (s\<lparr>m_calls := m_calls s @ [c]\<rparr>))"

definition mc_submit ::
  "(nat \<Rightarrow> int) \<Rightarrow> nat \<Rightarrow> uuid \<Rightarrow> (nat \<Rightarrow> nat + nat) \<Rightarrow> mcp_coordinator \<Rightarrow> ((mcp_error + nat) \<times> mcp_coordinator) option" where
  "mc_submit clock r u start s =
     (if \<not> r_accepting (rt s r) \<or> m_closed s then Some (Inl ServerMcpUnavailableError, s)
      else if r_waiting (rt s r) \<ge> r_capacity (rt s r) then Some (Inl ServerMcpBusyError, s)
      else let (now, s1) = read_clock clock s
           in map_option (\<lambda>t. (Inr (length (m_calls s)), t)) (mc_drain clock (mark_ready r (enqueue_call r u start now s1))))"

definition retire_locked :: "nat \<Rightarrow> mcp_coordinator \<Rightarrow> mcp_coordinator" where
  "retire_locked r s =
     (let s1 = remove_ready r (upd_rt r (\<lambda>t. t\<lparr>r_accepting := False\<rparr>) s);
          s2 = fold (fail_call ServerMcpUnavailableError CallFailed) (concat (dict_values (r_waiters (rt s1 r)))) s1
      in upd_rt r (\<lambda>t. t\<lparr>r_waiters := [], r_ready_users := [], r_waiting := 0\<rparr>) s2)"

definition mc_retire :: "(nat \<Rightarrow> int) \<Rightarrow> nat \<Rightarrow> mcp_coordinator \<Rightarrow> mcp_coordinator option" where
  "mc_retire clock r s =
     (if \<not> r_accepting (rt s r) then Some s
      else let s1 = retire_locked r s in mc_drain clock (s1\<lparr>m_slots := removeAll r (m_slots s1)\<rparr>))"

text \<open>
  \<open>_slots\<close> is a set and its order of iteration is unspecified; the model takes the order of creation.
  Retiring a runtime changes only its own queue, its own calls and its place in the ready deque.
\<close>

definition mc_close :: "mcp_coordinator \<Rightarrow> mcp_coordinator" where
  "mc_close s =
     (if m_closed s then s
      else (fold retire_locked (m_slots s) (s\<lparr>m_closed := True\<rparr>))\<lparr>m_slots := [], m_ready_slots := []\<rparr>)"

definition remove_queued :: "nat \<Rightarrow> mcp_coordinator \<Rightarrow> mcp_coordinator" where
  "remove_queued i s =
     (let r = q_runtime (call s i); u = q_user (call s i)
      in case dict_get (r_waiters (rt s r)) u of
           None \<Rightarrow> s
         | Some queue \<Rightarrow>
             if i \<notin> set queue then s
             else let rest = remove1 i queue;
                      s1 = upd_rt r (\<lambda>t. t\<lparr>r_waiting := r_waiting t - 1,
                        r_waiters := (if rest = [] then dict_del u (r_waiters t) else dict_set u rest (r_waiters t)),
                        r_ready_users := (if rest = [] then remove1 u (r_ready_users t) else r_ready_users t)\<rparr>) s
                  in if r_waiting (rt s1 r) = 0 then remove_ready r s1 else s1)"

definition mc_expire :: "(nat \<Rightarrow> int) \<Rightarrow> nat \<Rightarrow> mcp_coordinator \<Rightarrow> mcp_coordinator option" where
  "mc_expire clock i s =
     (if q_state (call s i) \<noteq> CallQueued then Some s
      else let (now, s1) = read_clock clock s
           in if now < q_queue_deadline (call s i) then Some s1
              else mc_drain clock (fail_call ServerMcpBusyError CallFailed i (remove_queued i s1)))"

definition mc_cancel :: "(nat \<Rightarrow> int) \<Rightarrow> nat \<Rightarrow> mcp_coordinator \<Rightarrow> (bool \<times> mcp_coordinator) option" where
  "mc_cancel clock i s =
     (if q_state (call s i) \<noteq> CallQueued then Some (False, s)
      else map_option (Pair True) (mc_drain clock (fail_call ServerMcpBusyError CallCancelled i (remove_queued i s))))"

text \<open>
  \<open>AdmissionTicket.wait\<close>. A coroutine that waits for a future or a deadline is resumed once: woken,
  because the future is done or the sleep until the queue deadline has ended, or cancelled. A
  future that is done is answered, also when it was done before the wait began; otherwise the
  call is expired and its future read, which raises \<open>InvalidStateError\<close> if it is still pending. A
  cancelled wait cancels the call and raises \<open>CancelledError\<close>. Between the wake-up and the lock of
  \<open>_expire\<close> and \<open>_cancel\<close> other operations may run: the step is taken in the state in which the lock
  is got, where a future that was finished in between is simply read.
\<close>

datatype wait_event = WaitWoken | WaitCancelled

datatype wait_answer =
    WaitIssued issued_admission
  | WaitRaised mcp_error
  | WaitCancelledError
  | WaitInvalidStateError

fun ticket_result :: "(mcp_error, issued_admission) py_future \<Rightarrow> wait_answer" where
  "ticket_result Pending = WaitInvalidStateError"
| "ticket_result (Result a) = WaitIssued a"
| "ticket_result (Raised e) = WaitRaised e"
| "ticket_result Cancelled = WaitCancelledError"

fun ticket_wait ::
  "(nat \<Rightarrow> int) \<Rightarrow> nat \<Rightarrow> wait_event \<Rightarrow> mcp_coordinator \<Rightarrow> (wait_answer \<times> mcp_coordinator) option" where
  "ticket_wait clock i WaitWoken s =
     (if future_done (q_future (call s i)) then Some (ticket_result (q_future (call s i)), s)
      else map_option (\<lambda>t. (ticket_result (q_future (call t i)), t)) (mc_expire clock i s))"
| "ticket_wait clock i WaitCancelled s =
     map_option (\<lambda>(_, t). (WaitCancelledError, t)) (mc_cancel clock i s)"

text \<open>
  \<open>admit\<close> submits and, without giving up control, begins to wait: an answer if the call was
  finished at once, otherwise the call it waits for.
\<close>

definition mc_admit ::
  "(nat \<Rightarrow> int) \<Rightarrow> nat \<Rightarrow> uuid \<Rightarrow> (nat \<Rightarrow> nat + nat) \<Rightarrow> mcp_coordinator \<Rightarrow>
   ((mcp_error + nat \<times> wait_answer option) \<times> mcp_coordinator) option" where
  "mc_admit clock r u start s =
     (case mc_submit clock r u start s of
        None \<Rightarrow> None
      | Some (Inl e, t) \<Rightarrow> Some (Inl e, t)
      | Some (Inr i, t) \<Rightarrow>
          Some (Inr (i, if future_done (q_future (call t i)) then Some (ticket_result (q_future (call t i)))
                        else None), t))"

datatype mcp_op =
    OpCreate int
  | OpAdmitNow nat uuid "nat \<Rightarrow> nat + nat"
  | OpSubmit nat uuid "nat \<Rightarrow> nat + nat"
  | OpMarkDraining nat
  | OpRelease nat
  | OpRetire nat
  | OpClose
  | OpExpire nat
  | OpCancel nat
  | OpAdmit nat uuid "nat \<Rightarrow> nat + nat"
  | OpWait nat wait_event

text \<open>A caller has the runtimes, leases and calls it names.\<close>

fun op_ok :: "mcp_op \<Rightarrow> mcp_coordinator \<Rightarrow> bool" where
  "op_ok (OpAdmitNow r u start) s = (r < length (m_runtimes s))"
| "op_ok (OpSubmit r u start) s = (r < length (m_runtimes s))"
| "op_ok (OpMarkDraining l) s = (l < length (m_leases s))"
| "op_ok (OpRelease l) s = (l < length (m_leases s))"
| "op_ok (OpRetire r) s = (r < length (m_runtimes s))"
| "op_ok (OpExpire i) s = (i < length (m_calls s))"
| "op_ok (OpCancel i) s = (i < length (m_calls s))"
| "op_ok (OpAdmit r u start) s = (r < length (m_runtimes s))"
| "op_ok (OpWait i event) s = (i < length (m_calls s))"
| "op_ok _ s = True"

fun mc_exec :: "(nat \<Rightarrow> int) \<Rightarrow> mcp_op \<Rightarrow> mcp_coordinator \<Rightarrow> mcp_coordinator option" where
  "mc_exec clock (OpCreate n) s = (case create_runtime n s of Inl _ \<Rightarrow> Some s | Inr t \<Rightarrow> Some t)"
| "mc_exec clock (OpAdmitNow r u start) s = map_option snd (mc_admit_now clock r u start s)"
| "mc_exec clock (OpSubmit r u start) s = map_option snd (mc_submit clock r u start s)"
| "mc_exec clock (OpMarkDraining l) s = Some (mc_mark_draining l s)"
| "mc_exec clock (OpRelease l) s = mc_release clock l s"
| "mc_exec clock (OpRetire r) s = mc_retire clock r s"
| "mc_exec clock OpClose s = Some (mc_close s)"
| "mc_exec clock (OpExpire i) s = mc_expire clock i s"
| "mc_exec clock (OpCancel i) s = map_option snd (mc_cancel clock i s)"
| "mc_exec clock (OpAdmit r u start) s = map_option snd (mc_admit clock r u start s)"
| "mc_exec clock (OpWait i event) s = map_option snd (ticket_wait clock i event s)"

inductive mc_step :: "(nat \<Rightarrow> int) \<Rightarrow> mcp_coordinator \<Rightarrow> mcp_coordinator \<Rightarrow> bool" for clock :: "nat \<Rightarrow> int" where
  mc_stepI: "op_ok op s \<Longrightarrow> mc_exec clock op s = Some t \<Longrightarrow> mc_step clock s t"

inductive_cases mc_stepE: "mc_step clock s t"

abbreviation mc_reachable :: "(nat \<Rightarrow> int) \<Rightarrow> mcp_coordinator \<Rightarrow> bool" where
  "mc_reachable clock \<equiv> reachable (\<lambda>s. s = mc_new) (mc_step clock)"

end
