(* ===== verification/Mcp_Invariant.thy ===== *)
theory Mcp_Invariant
  imports Mcp_Scheduler
begin

text \<open>
  The invariant of the admission of MCP calls (\<open>Mcp_Scheduler\<close>): the counters are the numbers of
  leases, the limits hold, the queues hold exactly the waiting calls, the ready deque holds every
  runtime with work, and no call waits while it could be issued. No operation escapes with an
  internal error.
\<close>

section \<open>Counters and leases\<close>

definition n_of :: "(mcp_lease \<Rightarrow> bool) \<Rightarrow> mcp_coordinator \<Rightarrow> int" where
  "n_of P s = int (length (filter P (m_leases s)))"

abbreviation held_by :: "uuid \<Rightarrow> mcp_lease \<Rightarrow> bool" where
  "held_by u l \<equiv> l_phase l \<noteq> LeaseReleased \<and> l_user l = u"

abbreviation in_phase :: "lease_phase \<Rightarrow> mcp_lease \<Rightarrow> bool" where
  "in_phase p l \<equiv> l_phase l = p"

abbreviation of_runtime :: "nat \<Rightarrow> lease_phase \<Rightarrow> mcp_lease \<Rightarrow> bool" where
  "of_runtime r p l \<equiv> l_phase l = p \<and> l_runtime l = r"

definition cnt_ok :: "mcp_coordinator \<Rightarrow> bool" where
  "cnt_ok s \<longleftrightarrow>
     m_active s = n_of (in_phase LeaseActive) s \<and> m_draining s = n_of (in_phase LeaseDraining) s \<and>
     (\<forall>r < length (m_runtimes s). r_active (rt s r) = n_of (of_runtime r LeaseActive) s \<and>
        r_draining (rt s r) = n_of (of_runtime r LeaseDraining) s) \<and>
     (\<forall>u. dict_get (m_reserved s) u = (if n_of (held_by u) s = 0 then None else Some (n_of (held_by u) s))) \<and>
     (\<forall>l < length (m_leases s). l_runtime (m_leases s ! l) < length (m_runtimes s))"

lemma cnt_okI:
  assumes "m_active s = n_of (in_phase LeaseActive) s" and "m_draining s = n_of (in_phase LeaseDraining) s"
    and "\<And>r. r < length (m_runtimes s) \<Longrightarrow> r_active (rt s r) = n_of (of_runtime r LeaseActive) s"
    and "\<And>r. r < length (m_runtimes s) \<Longrightarrow> r_draining (rt s r) = n_of (of_runtime r LeaseDraining) s"
    and "\<And>u. dict_get (m_reserved s) u = (if n_of (held_by u) s = 0 then None else Some (n_of (held_by u) s))"
    and "\<And>l. l < length (m_leases s) \<Longrightarrow> l_runtime (m_leases s ! l) < length (m_runtimes s)"
  shows "cnt_ok s"
  using assms by (simp add: cnt_ok_def)

lemma cnt_okD:
  assumes "cnt_ok s"
  shows "m_active s = n_of (in_phase LeaseActive) s" and "m_draining s = n_of (in_phase LeaseDraining) s"
    and "r < length (m_runtimes s) \<Longrightarrow> r_active (rt s r) = n_of (of_runtime r LeaseActive) s"
    and "r < length (m_runtimes s) \<Longrightarrow> r_draining (rt s r) = n_of (of_runtime r LeaseDraining) s"
    and "dict_get (m_reserved s) u = (if n_of (held_by u) s = 0 then None else Some (n_of (held_by u) s))"
    and "l < length (m_leases s) \<Longrightarrow> l_runtime (m_leases s ! l) < length (m_runtimes s)"
  using assms by (simp_all add: cnt_ok_def)

lemma cnt_ok_reserved: "cnt_ok s \<Longrightarrow> dict_get_default (m_reserved s) u 0 = n_of (held_by u) s"
  by (simp add: cnt_okD(5) dict_get_default_def)

lemma n_of_nonneg [simp]: "0 \<le> n_of P s" by (simp add: n_of_def)

lemma n_of_cong: "m_leases t = m_leases s \<Longrightarrow> n_of P t = n_of P s"
  by (simp add: n_of_def)

lemma cnt_ok_cong:
  assumes "cnt_ok s" and "m_active t = m_active s" and "m_draining t = m_draining s"
    and "m_reserved t = m_reserved s" and l: "m_leases t = m_leases s"
    and "length (m_runtimes t) = length (m_runtimes s)"
    and "\<And>r. r < length (m_runtimes s) \<Longrightarrow> r_active (rt t r) = r_active (rt s r) \<and> r_draining (rt t r) = r_draining (rt s r)"
  shows "cnt_ok t"
  using assms by (simp add: cnt_ok_def n_of_cong [OF l])

lemma n_of_set_lease_phase:
  assumes "l < length (m_leases s)" and "m_leases t = (m_leases s)[l := (m_leases s ! l)\<lparr>l_phase := p\<rparr>]"
  shows "n_of P t = n_of P s - (if P (m_leases s ! l) then 1 else 0) + (if P ((m_leases s ! l)\<lparr>l_phase := p\<rparr>) then 1 else 0)"
  using length_filter_update [OF assms(1), of P "(m_leases s ! l)\<lparr>l_phase := p\<rparr>"] assms(2)
  by (simp add: n_of_def split: if_splits)

lemma n_of_pos:
  assumes "l < length (m_leases s)" and "P (m_leases s ! l)"
  shows "0 < n_of P s"
  using assms by (auto simp: n_of_def filter_empty_conv)

lemma reserve_cnt:
  assumes "cnt_ok s" and r: "r < length (m_runtimes s)"
  shows "cnt_ok (snd (reserve r u s))"
    and "n_of P (snd (reserve r u s)) = n_of P s + (if P \<lparr>l_runtime = r, l_user = u, l_phase = LeaseActive\<rparr> then 1 else 0)"
proof -
  let ?t = "snd (reserve r u s)"
  show n: "n_of P ?t = n_of P s + (if P \<lparr>l_runtime = r, l_user = u, l_phase = LeaseActive\<rparr> then 1 else 0)" for P
    by (simp add: n_of_def reserve_def)
  note d = cnt_okD [OF assms(1)]
  have nonneg: "n_of (held_by u) s + 1 \<noteq> 0" using n_of_nonneg [of "held_by u" s] by linarith
  have len: "length (m_runtimes ?t) = length (m_runtimes s)" by (simp add: reserve_def)
  show "cnt_ok ?t"
  proof (rule cnt_okI)
    show "m_active ?t = n_of (in_phase LeaseActive) ?t" "m_draining ?t = n_of (in_phase LeaseDraining) ?t"
      unfolding n using d(1,2) by (simp_all add: reserve_def)
    show "r_active (rt ?t r') = n_of (of_runtime r' LeaseActive) ?t"
      "r_draining (rt ?t r') = n_of (of_runtime r' LeaseDraining) ?t" if "r' < length (m_runtimes ?t)" for r'
      unfolding n using that d(3,4) [of r'] by (auto simp: reserve_def nth_list_update_if)
    show "dict_get (m_reserved ?t) v = (if n_of (held_by v) ?t = 0 then None else Some (n_of (held_by v) ?t))" for v
      unfolding n using cnt_ok_reserved [OF assms(1), of u] d(5) [of v] nonneg by (auto simp: reserve_def)
    show "l_runtime (m_leases ?t ! l) < length (m_runtimes ?t)" if "l < length (m_leases ?t)" for l
      using that r d(6) [of l] len by (auto simp: reserve_def nth_append)
  qed
qed

lemma drop_reserved_cnt:
  assumes "cnt_ok s" and "l < length (m_leases s)" and "l_phase (m_leases s ! l) \<noteq> LeaseReleased"
  obtains d where "drop_reserved (l_user (m_leases s ! l)) (m_reserved s) = Some d"
    and "\<And>v. dict_get d v = (let n = n_of (held_by v) s - (if v = l_user (m_leases s ! l) then 1 else 0)
                              in if n = 0 then None else Some n)"
proof -
  let ?u = "l_user (m_leases s ! l)"
  have pos: "0 < n_of (held_by ?u) s" using assms by (intro n_of_pos) auto
  then have "dict_get (m_reserved s) ?u = Some (n_of (held_by ?u) s)" using cnt_okD(5) [OF assms(1)] by simp
  with pos show ?thesis
    using that cnt_okD(5) [OF assms(1)] by (fastforce simp: drop_reserved_def Let_def)
qed

lemma release_counters_cnt:
  assumes "cnt_ok s" and l: "l < length (m_leases s)" and held: "l_phase (m_leases s ! l) \<noteq> LeaseReleased"
  obtains t where "release_counters l s = Some t" and "cnt_ok t"
    and "\<And>P. n_of P t = n_of P s - (if P (m_leases s ! l) then 1 else 0)
      + (if P ((m_leases s ! l)\<lparr>l_phase := LeaseReleased\<rparr>) then 1 else 0)"
proof -
  let ?lease = "m_leases s ! l"
  obtain d where drop: "drop_reserved (l_user ?lease) (m_reserved s) = Some d"
    and d: "\<And>v. dict_get d v = (let n = n_of (held_by v) s - (if v = l_user (m_leases s ! l) then 1 else 0)
                              in if n = 0 then None else Some n)"
    using drop_reserved_cnt [OF assms] by blast
  note c = cnt_okD [OF assms(1)]
  define t where "t = (if l_phase ?lease = LeaseActive
      then set_lease_phase l LeaseReleased ((upd_rt (l_runtime ?lease) (\<lambda>t. t\<lparr>r_active := r_active t - 1\<rparr>) (s\<lparr>m_active := m_active s - 1\<rparr>))\<lparr>m_reserved := d\<rparr>)
      else set_lease_phase l LeaseReleased ((upd_rt (l_runtime ?lease) (\<lambda>t. t\<lparr>r_draining := r_draining t - 1\<rparr>) (s\<lparr>m_draining := m_draining s - 1\<rparr>))\<lparr>m_reserved := d\<rparr>))"
  have rel: "release_counters l s = Some t"
    using held drop by (simp add: release_counters_def Let_def t_def)
  have leases: "m_leases t = (m_leases s)[l := ?lease\<lparr>l_phase := LeaseReleased\<rparr>]" by (simp add: t_def)
  note n = n_of_set_lease_phase [OF l leases]
  have drain: "l_phase ?lease = LeaseDraining" if "l_phase ?lease \<noteq> LeaseActive"
    using that held by (cases "l_phase ?lease") auto
  have len: "length (m_runtimes t) = length (m_runtimes s)" by (simp add: t_def)
  have rt: "r_active (rt t r) = n_of (of_runtime r LeaseActive) t" "r_draining (rt t r) = n_of (of_runtime r LeaseDraining) t"
    if "r < length (m_runtimes t)" for r
    unfolding n using that c(3,4) [of r] drain by (auto simp: t_def nth_list_update_if)
  have res: "dict_get (m_reserved t) u = (if n_of (held_by u) t = 0 then None else Some (n_of (held_by u) t))" for u
  proof -
    have "m_reserved t = d" by (simp add: t_def)
    then show ?thesis unfolding n using held d [of u] by (auto simp: Let_def)
  qed
  have "cnt_ok t"
  proof (rule cnt_okI [OF _ _ rt res])
    show "m_active t = n_of (in_phase LeaseActive) t" "m_draining t = n_of (in_phase LeaseDraining) t"
      unfolding n using c(1,2) drain by (auto simp: t_def)
    show "l_runtime (m_leases t ! l') < length (m_runtimes t)" if "l' < length (m_leases t)" for l'
      using that c(6) by (simp add: leases len nth_list_update_if)
  qed
  with rel n that show ?thesis by blast
qed

lemma mark_draining_cnt:
  assumes "cnt_ok s" and l: "l < length (m_leases s)" and held: "l_phase (m_leases s ! l) = LeaseActive"
  shows "cnt_ok (mc_mark_draining l s)"
proof -
  let ?lease = "m_leases s ! l" and ?t = "mc_mark_draining l s"
  note c = cnt_okD [OF assms(1)]
  have leases: "m_leases ?t = (m_leases s)[l := ?lease\<lparr>l_phase := LeaseDraining\<rparr>]" by (simp add: mc_mark_draining_def held)
  have len: "length (m_runtimes ?t) = length (m_runtimes s)" by (simp add: mc_mark_draining_def held)
  note n = n_of_set_lease_phase [OF l leases]
  show ?thesis
  proof (rule cnt_okI)
    show "m_active ?t = n_of (in_phase LeaseActive) ?t" "m_draining ?t = n_of (in_phase LeaseDraining) ?t"
      unfolding n using c(1,2) by (auto simp: mc_mark_draining_def held)
    show "r_active (rt ?t r) = n_of (of_runtime r LeaseActive) ?t" "r_draining (rt ?t r) = n_of (of_runtime r LeaseDraining) ?t"
      if "r < length (m_runtimes ?t)" for r
      unfolding n using that c(3,4) [of r] held by (auto simp: mc_mark_draining_def nth_list_update_if)
    show "dict_get (m_reserved ?t) u = (if n_of (held_by u) ?t = 0 then None else Some (n_of (held_by u) ?t))" for u
      unfolding n using c(5) [of u] held by (auto simp: mc_mark_draining_def)
    show "l_runtime (m_leases ?t ! l') < length (m_runtimes ?t)" if "l' < length (m_leases ?t)" for l'
      using that c(6) by (simp add: leases len nth_list_update_if)
  qed
qed

section \<open>The waiting calls\<close>

lemma dict_sum_ext:
  assumes "dict_wf d" and "dict_wf d'" and "\<And>k. dict_get d k = dict_get d' k"
  shows "dict_sum f d = dict_sum f d'"
proof -
  have "distinct d" "distinct d'" using assms(1,2) by (auto simp: dict_wf_def distinct_map)
  moreover have "set d = set d'" using dict_wf_get_iff [OF assms(1)] dict_wf_get_iff [OF assms(2)] assms(3) by auto
  ultimately show ?thesis by (simp add: dict_sum_def sum_list_distinct_conv_sum_set)
qed

definition waits :: "queued_call list \<Rightarrow> nat \<Rightarrow> uuid \<Rightarrow> nat \<Rightarrow> bool" where
  "waits cs r u i \<longleftrightarrow> i < length cs \<and> q_runtime (cs ! i) = r \<and> q_user (cs ! i) = u \<and> q_state (cs ! i) = CallQueued"

definition q_ok :: "queued_call list \<Rightarrow> nat \<Rightarrow> runtime_admission \<Rightarrow> bool" where
  "q_ok cs r t \<longleftrightarrow>
     dict_wf (r_waiters t) \<and> distinct (r_ready_users t) \<and> set (r_ready_users t) = set (dict_keys (r_waiters t)) \<and>
     (\<forall>u q. dict_get (r_waiters t) u = Some q \<longrightarrow> q \<noteq> [] \<and> sorted_wrt (<) q) \<and>
     (\<forall>u. set (dict_get_default (r_waiters t) u []) = {i. waits cs r u i}) \<and>
     r_waiting t = int (rt_queued t) \<and> r_waiting t \<le> r_capacity t \<and> (\<not> r_accepting t \<longrightarrow> r_waiters t = [])"

lemma q_okI:
  assumes "dict_wf (r_waiters t)" and "distinct (r_ready_users t)"
    and "set (r_ready_users t) = set (dict_keys (r_waiters t))"
    and "\<And>u q. dict_get (r_waiters t) u = Some q \<Longrightarrow> q \<noteq> [] \<and> sorted_wrt (<) q"
    and "\<And>u. set (dict_get_default (r_waiters t) u []) = {i. waits cs r u i}"
    and "r_waiting t = int (rt_queued t)" and "r_waiting t \<le> r_capacity t"
    and "\<not> r_accepting t \<Longrightarrow> r_waiters t = []"
  shows "q_ok cs r t"
  using assms by (simp add: q_ok_def)

lemma q_okD:
  assumes "q_ok cs r t"
  shows "dict_wf (r_waiters t)" and "distinct (r_ready_users t)"
    and "set (r_ready_users t) = set (dict_keys (r_waiters t))"
    and "dict_get (r_waiters t) u = Some q \<Longrightarrow> q \<noteq> []"
    and "dict_get (r_waiters t) u = Some q \<Longrightarrow> sorted_wrt (<) q"
    and "set (dict_get_default (r_waiters t) u []) = {i. waits cs r u i}"
    and "r_waiting t = int (rt_queued t)" and "r_waiting t \<le> r_capacity t"
    and "\<not> r_accepting t \<Longrightarrow> r_waiters t = []"
  using assms by (simp_all add: q_ok_def)

lemma q_ok_queue: "q_ok cs r t \<Longrightarrow> dict_get (r_waiters t) u = Some q \<Longrightarrow> i \<in> set q \<longleftrightarrow> waits cs r u i"
  using q_okD(6) [of cs r t u] by (auto simp: dict_get_default_def)

lemma q_ok_waits: "q_ok cs r t \<Longrightarrow> waits cs r u i \<Longrightarrow> \<exists>q. dict_get (r_waiters t) u = Some q \<and> i \<in> set q"
  using q_okD(6) [of cs r t u] by (cases "dict_get (r_waiters t) u") (auto simp: dict_get_default_def)

lemma q_ok_cong:
  assumes "q_ok cs r t" and "\<And>u i. waits cs' r u i = waits cs r u i" and "same_queues t t'"
  shows "q_ok cs' r t'"
  using assms(1,2) same_queues_fields [OF assms(3)] by (simp add: q_ok_def rt_queued_def)

definition calls_ok :: "mcp_coordinator \<Rightarrow> bool" where
  "calls_ok s \<longleftrightarrow> (\<forall>i < length (m_calls s). (q_state (call s i) = CallQueued \<longleftrightarrow> q_future (call s i) = Pending) \<and>
     q_runtime (call s i) < length (m_runtimes s))"

text \<open>Calls that leave the queue: they are finished, all others stay as they are.\<close>

definition finished :: "nat set \<Rightarrow> queued_call list \<Rightarrow> queued_call list \<Rightarrow> bool" where
  "finished S cs cs' \<longleftrightarrow> length cs' = length cs \<and>
     (\<forall>i < length cs. if i \<in> S
        then q_runtime (cs' ! i) = q_runtime (cs ! i) \<and> q_user (cs' ! i) = q_user (cs ! i) \<and>
             q_state (cs' ! i) \<noteq> CallQueued \<and> q_future (cs' ! i) \<noteq> Pending
        else cs' ! i = cs ! i)"

lemma finished_waits: "finished S cs cs' \<Longrightarrow> waits cs' r u i \<longleftrightarrow> waits cs r u i \<and> i \<notin> S"
  by (auto simp: finished_def waits_def split: if_splits)

lemma finished_empty [simp]: "finished {} cs cs" by (simp add: finished_def)

lemma finished_trans: "finished S cs cs' \<Longrightarrow> finished S' cs' cs'' \<Longrightarrow> finished (S \<union> S') cs cs''"
  unfolding finished_def by (smt (verit) Un_iff)

lemma finished_calls_ok:
  assumes "calls_ok s" and "finished S (m_calls s) (m_calls t)" and "length (m_runtimes t) = length (m_runtimes s)"
  shows "calls_ok t"
  using assms by (fastforce simp: calls_ok_def finished_def split: if_splits)

lemma fail_call_finished:
  assumes "st \<noteq> CallQueued"
  shows "finished {i} (m_calls s) (m_calls (fail_call e st i s))"
  using assms by (auto simp: finished_def fail_call_def nth_list_update_if future_done_def)

lemma fail_calls_finished:
  assumes "st \<noteq> CallQueued"
  shows "finished (set xs) (m_calls s) (m_calls (fold (fail_call e st) xs s))"
proof (induction xs arbitrary: s)
  case (Cons i xs)
  from finished_trans [OF fail_call_finished [OF assms, of i s e] Cons] show ?case by simp
qed simp

lemma q_ok_shrink:
  assumes ok: "q_ok cs r t" and fin: "finished S cs cs'"
    and get: "dict_get (r_waiters t) u = Some q" and S: "S \<subseteq> set q"
    and w: "dict_wf (r_waiters t')" "\<And>v. dict_get (r_waiters t') v =
        (if v = u then (if q' = [] then None else Some q') else dict_get (r_waiters t) v)"
    and q': "set q' = set q - S" "sorted_wrt (<) q'"
    and users: "distinct (r_ready_users t')" "set (r_ready_users t') = set (dict_keys (r_waiters t'))"
    and t': "r_waiting t' = r_waiting t - int (length q) + int (length q')" "r_capacity t' = r_capacity t"
      "r_accepting t' = r_accepting t"
  shows "q_ok cs' r t'"
proof (rule q_okI)
  note d = q_okD [OF ok]
  show "dict_wf (r_waiters t')" "distinct (r_ready_users t')" "set (r_ready_users t') = set (dict_keys (r_waiters t'))"
    by fact+
  show "p \<noteq> [] \<and> sorted_wrt (<) p" if "dict_get (r_waiters t') v = Some p" for v p
    using that q'(2) d(4,5) [of v p] by (auto simp: w(2) split: if_splits)
  show "set (dict_get_default (r_waiters t') v []) = {i. waits cs' r v i}" for v
  proof (cases "v = u")
    case True
    then show ?thesis
      using q' q_ok_queue [OF ok get] by (auto simp: finished_waits [OF fin] dict_get_default_def w(2))
  next
    case False
    have "i \<notin> S" if "waits cs r v i" for i
      using that S q_ok_queue [OF ok get, of i] False by (auto simp: waits_def)
    then show ?thesis
      using d(6) [of v] False by (auto simp: finished_waits [OF fin] dict_get_default_def w(2))
  qed
  have le: "length q' \<le> length q"
    using q' d(5) [OF get] by (metis Diff_subset List.finite_set card_mono distinct_card sorted_wrt_less_idx strict_sorted_iff)
  define d' where "d' = (if q' = [] then dict_del u (r_waiters t) else dict_set u q' (r_waiters t))"
  have "dict_sum length (r_waiters t') = dict_sum length d'"
    using d(1) by (intro dict_sum_ext) (simp_all add: w d'_def)
  moreover have "dict_sum length d' + length q = dict_sum length (r_waiters t) + length q'"
    using dict_sum_del [OF d(1) get, of length] dict_sum_set_old [OF get, of length q'] by (simp add: d'_def)
  ultimately show "r_waiting t' = int (rt_queued t')" using d(7) t'(1) by (simp add: rt_queued_def)
  show "r_waiting t' \<le> r_capacity t'" using d(8) t'(1,2) le by simp
  show "\<not> r_accepting t' \<Longrightarrow> r_waiters t' = []" using d(9) get t'(3) by auto
qed

lemma q_ok_other:
  assumes "q_ok cs r' t" and "finished S cs cs'" and "\<And>i. i \<in> S \<Longrightarrow> i < length cs \<Longrightarrow> q_runtime (cs ! i) \<noteq> r'"
    and "same_queues t t'"
  shows "q_ok cs' r' t'"
proof (rule q_ok_cong [OF assms(1) _ assms(4)])
  show "waits cs' r' u i = waits cs r' u i" for u i
    using assms(3) [of i] unfolding finished_waits [OF assms(2)] by (auto simp: waits_def)
qed
section \<open>The invariant of the state\<close>

definition limit_ok :: "mcp_coordinator \<Rightarrow> bool" where
  "limit_ok s \<longleftrightarrow> global_reserved s \<le> GLOBAL_MAX_RESERVED \<and> (\<forall>u. n_of (held_by u) s \<le> PER_USER_MAX_RESERVED) \<and>
     (\<forall>r < length (m_runtimes s). reserved_count (rt s r) \<le> r_max (rt s r) \<and> validate_runtime_limit (r_max (rt s r)) \<and>
        r_capacity (rt s r) = runtime_waiting_capacity (r_max (rt s r)))"

definition slots_ok :: "mcp_coordinator \<Rightarrow> bool" where
  "slots_ok s \<longleftrightarrow> (\<forall>r. r \<in> set (m_slots s) \<longleftrightarrow> r < length (m_runtimes s) \<and> r_accepting (rt s r)) \<and>
     (m_closed s \<longrightarrow> m_slots s = [])"

definition core :: "mcp_coordinator \<Rightarrow> bool" where
  "core s \<longleftrightarrow> cnt_ok s \<and> limit_ok s \<and> calls_ok s \<and> slots_ok s \<and> (\<forall>r < length (m_runtimes s). q_ok (m_calls s) r (rt s r))"

lemma coreI:
  assumes "cnt_ok s" and "limit_ok s" and "calls_ok s" and "slots_ok s"
    and "\<And>r. r < length (m_runtimes s) \<Longrightarrow> q_ok (m_calls s) r (rt s r)"
  shows "core s"
  using assms by (simp add: core_def)

lemma coreD:
  assumes "core s"
  shows "cnt_ok s" and "limit_ok s" and "calls_ok s" and "slots_ok s"
    and "r < length (m_runtimes s) \<Longrightarrow> q_ok (m_calls s) r (rt s r)"
  using assms by (simp_all add: core_def)

text \<open>A step that changes only the queue and the counters of one runtime.\<close>

definition only_rt :: "nat \<Rightarrow> mcp_coordinator \<Rightarrow> mcp_coordinator \<Rightarrow> bool" where
  "only_rt r s t \<longleftrightarrow> length (m_runtimes t) = length (m_runtimes s) \<and> (\<forall>r'. r' \<noteq> r \<longrightarrow> r' < length (m_runtimes s) \<longrightarrow> rt t r' = rt s r') \<and>
     r_max (rt t r) = r_max (rt s r) \<and> r_capacity (rt t r) = r_capacity (rt s r) \<and>
     r_accepting (rt t r) = r_accepting (rt s r) \<and> r_ready (rt t r) = r_ready (rt s r) \<and>
     m_ready_slots t = m_ready_slots s \<and> m_slots t = m_slots s \<and> m_closed t = m_closed s"

lemma only_rtD:
  assumes "only_rt r s t"
  shows "length (m_runtimes t) = length (m_runtimes s)"
    and "r' \<noteq> r \<Longrightarrow> r' < length (m_runtimes s) \<Longrightarrow> rt t r' = rt s r'"
    and "r' < length (m_runtimes s) \<Longrightarrow> r_max (rt t r') = r_max (rt s r') \<and> r_capacity (rt t r') = r_capacity (rt s r') \<and>
      r_accepting (rt t r') = r_accepting (rt s r') \<and> r_ready (rt t r') = r_ready (rt s r')"
    and "m_ready_slots t = m_ready_slots s" and "m_slots t = m_slots s" and "m_closed t = m_closed s"
  using assms by (auto simp: only_rt_def)

lemma only_rt_refl [simp]: "only_rt r s s" by (simp add: only_rt_def)

lemma only_rt_trans: "only_rt r s t \<Longrightarrow> only_rt r t t' \<Longrightarrow> only_rt r s t'"
  by (simp add: only_rt_def)

text \<open>A step after which nobody holds more or less than before.\<close>

definition same_load :: "mcp_coordinator \<Rightarrow> mcp_coordinator \<Rightarrow> bool" where
  "same_load s t \<longleftrightarrow> m_active t = m_active s \<and> m_draining t = m_draining s \<and> (\<forall>u. n_of (held_by u) t = n_of (held_by u) s) \<and>
     (\<forall>r < length (m_runtimes s). r_active (rt t r) = r_active (rt s r) \<and> r_draining (rt t r) = r_draining (rt s r))"

lemma same_load_refl [simp]: "same_load s s" by (simp add: same_load_def)

lemma same_load_trans:
  "same_load s t \<Longrightarrow> same_load t t' \<Longrightarrow> length (m_runtimes t) = length (m_runtimes s) \<Longrightarrow> same_load s t'"
  by (simp add: same_load_def)

lemma same_load_can_reserve:
  "same_load s t \<Longrightarrow> cnt_ok s \<Longrightarrow> cnt_ok t \<Longrightarrow> can_reserve_for_user u t = can_reserve_for_user u s"
  by (simp add: can_reserve_for_user_def cnt_ok_reserved same_load_def)

lemma same_load_limit:
  assumes "limit_ok s" and "same_load s t" and "only_rt r s t"
  shows "limit_ok t"
  using assms(1,2) only_rtD(1,3) [OF assms(3)]
  by (auto simp: limit_ok_def same_load_def global_reserved_def reserved_count_def)

lemma core_turn:
  assumes core: "core s" and r: "r < length (m_runtimes s)" and frame: "only_rt r s t"
    and cnt: "cnt_ok t" "limit_ok t"
    and get: "dict_get (r_waiters (rt s r)) u = Some q"
    and fin: "finished S (m_calls s) (m_calls t)" "S \<subseteq> set q"
    and w: "dict_wf (r_waiters (rt t r))" "\<And>v. dict_get (r_waiters (rt t r)) v =
        (if v = u then (if q' = [] then None else Some q') else dict_get (r_waiters (rt s r)) v)"
    and q': "set q' = set q - S" "sorted_wrt (<) q'"
    and users: "distinct (r_ready_users (rt t r))" "set (r_ready_users (rt t r)) = set (dict_keys (r_waiters (rt t r)))"
    and waiting: "r_waiting (rt t r) = r_waiting (rt s r) - int (length q) + int (length q')"
  shows "core t"
proof (rule coreI [OF cnt])
  note o = only_rtD [OF frame]
  show "calls_ok t" using finished_calls_ok [OF coreD(3) [OF core] fin(1)] o(1) by simp
  show "slots_ok t" using coreD(4) [OF core] o(1,3,5,6) by (auto simp: slots_ok_def)
  fix r' assume r': "r' < length (m_runtimes t)"
  show "q_ok (m_calls t) r' (rt t r')"
  proof (cases "r' = r")
    case True
    then show ?thesis
      using q_ok_shrink [OF coreD(5) [OF core r] fin(1) get fin(2) w q' users waiting] o(3) [OF r] by simp
  next
    case False
    have "q_runtime (call s i) \<noteq> r'" if "i \<in> S" for i
      using that fin(2) q_ok_queue [OF coreD(5) [OF core r] get, of i] False by (auto simp: waits_def)
    then show ?thesis
      using q_ok_other [OF coreD(5) [OF core] fin(1)] r' o(1) o(2) [OF False] by simp
  qed
qed

section \<open>One turn of the issuing loop\<close>

lemma sorted_append_diff:
  fixes xs :: "nat list"
  assumes "sorted_wrt (<) (xs @ ys)"
  shows "set ys = set (xs @ ys) - set xs"
  using assms by (auto simp: sorted_wrt_append)

lemma expire_facts:
  assumes r: "r < length (m_runtimes s)"
    and e: "expire_queue_head clock r u q (upd_rt r (\<lambda>t. t\<lparr>r_ready_users := us\<rparr>) s) = (rest, s1)"
  obtains old where "q = old @ rest" and "finished (set old) (m_calls s) (m_calls s1)"
    and "rt s1 r = (rt s r)\<lparr>r_ready_users := us, r_waiters := dict_set u rest (r_waiters (rt s r)),
           r_waiting := r_waiting (rt s r) - int (length old)\<rparr>"
    and "only_rt r s s1" and "m_leases s1 = m_leases s" and "m_reserved s1 = m_reserved s"
    and "m_active s1 = m_active s" and "m_draining s1 = m_draining s"
proof -
  let ?s0 = "upd_rt r (\<lambda>t. t\<lparr>r_ready_users := us\<rparr>) s"
  define old where "old = expired_head ?s0 (clock (m_reads ?s0)) q"
  note x = expire_queue_head_eq [OF e, folded old_def]
  have "q = old @ rest" by (simp add: x(1) old_def expired_head_def flip: dropWhile_eq_drop)
  moreover have "finished (set old) (m_calls s) (m_calls s1)"
    using fail_calls_finished [of CallFailed old "?s0\<lparr>m_reads := m_reads ?s0 + 1\<rparr>" ServerMcpBusyError] by (simp add: x(2))
  moreover have "rt s1 r = (rt s r)\<lparr>r_ready_users := us, r_waiters := dict_set u rest (r_waiters (rt s r)),
           r_waiting := r_waiting (rt s r) - int (length old)\<rparr>"
    using r by (simp add: x(2))
  moreover have "only_rt r s s1" using r by (simp add: x(2) only_rt_def)
  ultimately show ?thesis using that by (simp add: x(2))
qed
definition has_room :: "nat \<Rightarrow> mcp_coordinator \<Rightarrow> bool" where
  "has_room r s \<longleftrightarrow> global_reserved s < GLOBAL_MAX_RESERVED \<and> reserved_count (rt s r) < r_max (rt s r)"

text \<open>The users counted by \<open>checked_users\<close> are the last ones of the deque; all are at their limit.\<close>

definition tail_blocked :: "nat \<Rightarrow> nat \<Rightarrow> mcp_coordinator \<Rightarrow> bool" where
  "tail_blocked r c s \<longleftrightarrow>
     (\<forall>u \<in> set (drop (length (r_ready_users (rt s r)) - c) (r_ready_users (rt s r))). \<not> can_reserve_for_user u s)"

text \<open>A call that has left the queue is never touched again.\<close>

definition kept :: "mcp_coordinator \<Rightarrow> mcp_coordinator \<Rightarrow> bool" where
  "kept s t \<longleftrightarrow> length (m_calls t) = length (m_calls s) \<and>
     (\<forall>i < length (m_calls s). q_state (call s i) \<noteq> CallQueued \<longrightarrow> call t i = call s i)"

lemma kept_refl [simp]: "kept s s" by (simp add: kept_def)

lemma kept_trans: "kept s t \<Longrightarrow> kept t t' \<Longrightarrow> kept s t'" by (simp add: kept_def)

lemma kept_finished:
  assumes "q_ok (m_calls s) r t'" and "dict_get (r_waiters t') u = Some q" and "S \<subseteq> set q"
    and "finished S (m_calls s) (m_calls t)"
  shows "kept s t"
  unfolding kept_def
proof (intro conjI allI impI)
  show "length (m_calls t) = length (m_calls s)" using assms(4) by (simp add: finished_def)
  fix i assume i: "i < length (m_calls s)" "q_state (call s i) \<noteq> CallQueued"
  then have "i \<notin> S" using assms(3) q_ok_queue [OF assms(1,2), of i] by (auto simp: waits_def)
  then show "call t i = call s i" using assms(4) i by (simp add: finished_def)
qed

definition turn_ok :: "nat \<Rightarrow> mcp_coordinator \<Rightarrow> issue_loop \<Rightarrow> bool" where
  "turn_ok r s out =
     (case out of
        IssueCrash \<Rightarrow> False
      | IssueNext c t \<Rightarrow> core t \<and> only_rt r s t \<and> kept s t \<and> same_load s t \<and> tail_blocked r c t
      | IssueDone g t \<Rightarrow> core t \<and> only_rt r s t \<and> kept s t \<and>
          (\<not> g \<longrightarrow> same_load s t \<and> (\<forall>u \<in> set (r_ready_users (rt t r)). \<not> can_reserve_for_user u t)))"

lemma tail_blocked_0 [simp]: "tail_blocked r 0 s" by (simp add: tail_blocked_def)

lemma reserve_room:
  assumes "cnt_ok s" and "limit_ok s" and r: "r < length (m_runtimes s)" and "has_room r s" and "can_reserve_for_user u s"
  shows "limit_ok (snd (reserve r u s))"
proof -
  have "n_of (held_by v) (snd (reserve r u s)) \<le> PER_USER_MAX_RESERVED" for v
    using assms cnt_ok_reserved [OF assms(1), of u] unfolding reserve_cnt(2) [OF assms(1) r]
    by (auto simp: limit_ok_def can_reserve_for_user_def)
  then show ?thesis
    using assms by (auto simp: limit_ok_def has_room_def global_reserved_def reserve_def reserved_count_def nth_list_update_if)
qed

lemma limit_ok_cong:
  assumes "limit_ok s" and "m_active t = m_active s" and "m_draining t = m_draining s" and l: "m_leases t = m_leases s"
    and "length (m_runtimes t) = length (m_runtimes s)"
    and "\<And>r. r < length (m_runtimes s) \<Longrightarrow> r_active (rt t r) = r_active (rt s r) \<and> r_draining (rt t r) = r_draining (rt s r) \<and>
      r_max (rt t r) = r_max (rt s r) \<and> r_capacity (rt t r) = r_capacity (rt s r)"
  shows "limit_ok t"
  using assms by (simp add: limit_ok_def global_reserved_def reserved_count_def n_of_cong [OF l])

lemma same_queues_trans: "same_queues a b \<Longrightarrow> same_queues b c \<Longrightarrow> same_queues a c"
  by (cases a; cases b; cases c) (simp add: same_queues_def)

text \<open>A reservation whose start fails leaves the load as it was.\<close>

lemma reserve_release:
  assumes "cnt_ok s" and r: "r < length (m_runtimes s)" and s3: "s3 = snd (read_clock clock (snd (reserve r u s)))"
  obtains t where "release_counters (length (m_leases s)) s3 = Some t" and "cnt_ok t" and "same_load s t"
    and "\<And>r. r < length (m_runtimes s) \<Longrightarrow> same_queues (rt s r) (rt t r)"
    and "length (m_runtimes t) = length (m_runtimes s)" and "m_calls t = m_calls s" and "m_slots t = m_slots s"
    and "m_ready_slots t = m_ready_slots s" and "m_closed t = m_closed s"
proof -
  let ?l = "length (m_leases s)" and ?lease = "\<lparr>l_runtime = r, l_user = u, l_phase = LeaseActive\<rparr>"
  have leases: "m_leases s3 = m_leases s @ [?lease]" by (simp add: s3 read_clock_def reserve_def)
  have c3: "cnt_ok s3"
    by (rule cnt_ok_cong [OF reserve_cnt(1) [OF assms(1) r, of u]]) (simp_all add: s3 read_clock_def)
  obtain t where rel: "release_counters ?l s3 = Some t" and cnt: "cnt_ok t"
    and n: "\<And>P. n_of P t = n_of P s3 - (if P (m_leases s3 ! ?l) then 1 else 0)
      + (if P ((m_leases s3 ! ?l)\<lparr>l_phase := LeaseReleased\<rparr>) then 1 else 0)"
    using release_counters_cnt [OF c3, of ?l] leases by (auto simp: nth_append)
  have n3: "n_of P s3 = n_of P s + (if P ?lease then 1 else 0)" for P
    by (simp add: n_of_def leases)
  have nt: "n_of P t = n_of P s + (if P (?lease\<lparr>l_phase := LeaseReleased\<rparr>) then 1 else 0)" for P
    by (simp add: n n3 leases)
  have len: "length (m_runtimes t) = length (m_runtimes s)"
    using release_counters_runtimes(1) [OF rel] by (simp add: s3 read_clock_def reserve_def)
  have load: "same_load s t"
    using cnt_okD(1-4) [OF cnt] cnt_okD(1-4) [OF assms(1)] len by (simp add: same_load_def nt)
  have sq: "same_queues (rt s r') (rt t r')" if "r' < length (m_runtimes s)" for r'
  proof -
    have "same_queues (rt s r') (rt s3 r')"
      using that by (simp add: s3 read_clock_def reserve_def nth_list_update_if)
    moreover have "same_queues (rt s3 r') (rt t r')"
      using release_counters_runtimes(2) [OF rel, of r'] that by (simp add: s3 read_clock_def reserve_def)
    ultimately show ?thesis by (rule same_queues_trans)
  qed
  have "m_calls t = m_calls s" "m_slots t = m_slots s" "m_ready_slots t = m_ready_slots s" "m_closed t = m_closed s"
    using rel by (auto simp: release_counters_def Let_def s3 read_clock_def reserve_def split: if_splits)
  with rel cnt load sq len that show ?thesis by blast
qed
lemma fail_call_fields [simp]:
  "m_runtimes (fail_call e st i s) = m_runtimes s"
  "m_leases (fail_call e st i s) = m_leases s"
  "m_reserved (fail_call e st i s) = m_reserved s"
  "m_active (fail_call e st i s) = m_active s"
  "m_draining (fail_call e st i s) = m_draining s"
  "m_slots (fail_call e st i s) = m_slots s"
  "m_ready_slots (fail_call e st i s) = m_ready_slots s"
  "m_closed (fail_call e st i s) = m_closed s"
  "m_reads (fail_call e st i s) = m_reads s"
  by (simp_all add: fail_call_def)

lemma finish_issue_fields [simp]:
  "m_runtimes (finish_issue i l now k s) = m_runtimes s"
  "m_leases (finish_issue i l now k s) = m_leases s"
  "m_reserved (finish_issue i l now k s) = m_reserved s"
  "m_active (finish_issue i l now k s) = m_active s"
  "m_draining (finish_issue i l now k s) = m_draining s"
  "m_slots (finish_issue i l now k s) = m_slots s"
  "m_ready_slots (finish_issue i l now k s) = m_ready_slots s"
  "m_closed (finish_issue i l now k s) = m_closed s"
  "m_reads (finish_issue i l now k s) = m_reads s"
  by (simp_all add: finish_issue_def)

lemma core_popped:
  assumes core: "core s" and r: "r < length (m_runtimes s)" and users: "r_ready_users (rt s r) = u # us"
    and get: "dict_get (r_waiters (rt s r)) u = Some (old @ i # rest)"
    and fin: "finished (set old) (m_calls s) (m_calls s1)" "finished {i} (m_calls s1) (m_calls t)"
    and s1: "rt s1 r = (rt s r)\<lparr>r_ready_users := us, r_waiters := dict_set u (i # rest) (r_waiters (rt s r)),
           r_waiting := r_waiting (rt s r) - int (length old)\<rparr>" "r < length (m_runtimes s1)"
    and t: "same_queues (rt (pop_call r u rest s1) r) (rt t r)" "only_rt r s t" "cnt_ok t" "limit_ok t"
  shows "core t" and "kept s t"
proof -
  note q = coreD(5) [OF core r]
  let ?p = "rt (pop_call r u rest s1) r"
  have p: "?p = (rt s1 r)\<lparr>r_waiting := r_waiting (rt s1 r) - 1,
       r_ready_users := (if rest \<noteq> [] then r_ready_users (rt s1 r) @ [u] else r_ready_users (rt s1 r)),
       r_waiters := (if rest \<noteq> [] then dict_set u rest (r_waiters (rt s1 r)) else dict_del u (r_waiters (rt s1 r)))\<rparr>"
    using s1(2) by (simp add: pop_call_def)
  note tf = same_queues_fields [OF t(1)]
  have w: "r_waiters (rt t r) = (if rest \<noteq> [] then dict_set u rest (dict_set u (i # rest) (r_waiters (rt s r)))
      else dict_del u (dict_set u (i # rest) (r_waiters (rt s r))))"
    by (simp add: tf p s1(1))
  have sorted: "sorted_wrt (<) (old @ i # rest)" using q_okD(5) [OF q get] .
  have dist: "u \<notin> set us" "distinct us" "insert u (set us) = set (dict_keys (r_waiters (rt s r)))"
    using q_okD(2,3) [OF q] users by auto
  show "kept s t" by (rule kept_finished [OF q get _ finished_trans [OF fin]]) auto
  show "core t"
  proof (rule core_turn [OF core r t(2-4) get finished_trans [OF fin], where q' = rest])
    show "set old \<union> {i} \<subseteq> set (old @ i # rest)" by auto
    show "dict_wf (r_waiters (rt t r))" using q_okD(1) [OF q] by (simp add: w)
    show "dict_get (r_waiters (rt t r)) v = (if v = u then if rest = [] then None else Some rest else dict_get (r_waiters (rt s r)) v)" for v
      by (simp add: w)
    show "set rest = set (old @ i # rest) - (set old \<union> {i})" "sorted_wrt (<) rest"
      using sorted by (auto simp: sorted_wrt_append)
    show "distinct (r_ready_users (rt t r))" using dist by (simp add: tf p s1(1))
    show "set (r_ready_users (rt t r)) = set (dict_keys (r_waiters (rt t r)))"
      unfolding w using dist by (auto simp: tf p s1(1))
    show "r_waiting (rt t r) = r_waiting (rt s r) - int (length (old @ i # rest)) + int (length rest)"
      by (simp add: tf p s1(1))
  qed
qed

lemma pop_call_frame:
  assumes "r < length (m_runtimes s1)" and "only_rt r s s1"
  shows "only_rt r s (pop_call r u rest s1)"
  using assms by (simp add: pop_call_def only_rt_def)

lemma only_rt_queues:
  assumes "only_rt r s p" and "length (m_runtimes t) = length (m_runtimes p)" and "\<And>r'. r' \<noteq> r \<Longrightarrow> r' < length (m_runtimes p) \<Longrightarrow> rt t r' = rt p r'"
    and "same_queues (rt p r) (rt t r)" and "m_slots t = m_slots p" and "m_ready_slots t = m_ready_slots p" and "m_closed t = m_closed p"
  shows "only_rt r s t"
  using assms(1-3,5-) same_queues_fields [OF assms(4)] by (simp add: only_rt_def)

lemma same_runtime_eq:
  assumes "same_queues a b" and "r_active b = r_active a" and "r_draining b = r_draining a"
  shows "b = a"
  using assms by (cases a; cases b) (simp add: same_queues_def)

lemma issue_call_turn:
  assumes core: "core s" and r: "r < length (m_runtimes s)" and users: "r_ready_users (rt s r) = u # us"
    and room: "has_room r s" "can_reserve_for_user u s1"
    and get: "dict_get (r_waiters (rt s r)) u = Some (old @ i # rest)"
    and fin: "finished (set old) (m_calls s) (m_calls s1)"
    and s1: "rt s1 r = (rt s r)\<lparr>r_ready_users := us, r_waiters := dict_set u (i # rest) (r_waiters (rt s r)),
           r_waiting := r_waiting (rt s r) - int (length old)\<rparr>"
    and frame: "only_rt r s s1" and same: "m_leases s1 = m_leases s" "m_reserved s1 = m_reserved s"
      "m_active s1 = m_active s" "m_draining s1 = m_draining s"
  shows "turn_ok r s (issue_call clock r u i rest s1)"
proof -
  note o = only_rtD [OF frame]
  have r1: "r < length (m_runtimes s1)" using r o(1) by simp
  define p where "p = pop_call r u rest s1"
  define s3 where "s3 = snd (read_clock clock (snd (reserve r u p)))"
  have fp: "only_rt r s p" unfolding p_def by (rule pop_call_frame [OF r1 frame])
  have rp: "r < length (m_runtimes p)" using r1 by (simp add: p_def pop_call_def)
  have same_p: "m_leases p = m_leases s" "m_reserved p = m_reserved s" "m_active p = m_active s" "m_draining p = m_draining s"
    "m_calls p = m_calls s1" using same by (simp_all add: p_def pop_call_def)
  have cnts: "r_active (rt p r') = r_active (rt s r') \<and> r_draining (rt p r') = r_draining (rt s r')"
    if "r' < length (m_runtimes s)" for r'
    using that o(1,2) r1 s1 by (simp add: p_def pop_call_def nth_list_update_if)
  have cp: "cnt_ok p"
    by (rule cnt_ok_cong [OF coreD(1) [OF core]]) (use same_p cnts only_rtD(1) [OF fp] in simp_all)
  have lp: "limit_ok p"
    by (rule limit_ok_cong [OF coreD(2) [OF core]]) (use same_p cnts only_rtD(1,3) [OF fp] in simp_all)
  have load_p: "same_load s p" using same_p cnts by (simp add: same_load_def n_of_cong [OF same_p(1)])
  have waiting: "waits (m_calls s) r u i" using q_ok_queue [OF coreD(5) [OF core r] get, of i] by simp
  have "i \<notin> set old" using q_okD(5) [OF coreD(5) [OF core r] get] by (auto simp: sorted_wrt_append)
  then have call: "i < length (m_calls s1)" "q_future (call s1 i) = Pending"
    using fin waiting coreD(3) [OF core] by (auto simp: finished_def waits_def calls_ok_def)
  have calls3: "m_calls s3 = m_calls s1" by (simp add: s3_def read_clock_def reserve_def same_p)
  have unfold: "issue_call clock r u i rest s1 =
      (case q_start (call s3 i) (length (m_leases p)) of
         Inl exn \<Rightarrow> (case release_counters (length (m_leases p)) s3 of None \<Rightarrow> IssueCrash
            | Some s4 \<Rightarrow> IssueNext 0 (fail_call (StartRaised exn) CallFailed i s4))
       | Inr invocation \<Rightarrow> if future_done (q_future (call s3 i)) then IssueCrash
            else IssueDone True (finish_issue i (length (m_leases p)) (clock (m_reads (snd (reserve r u p)))) invocation s3))"
    by (simp add: issue_call_def Let_def s3_def p_def read_clock_def reserve_def split: sum.split)
  show ?thesis
  proof (cases "q_start (call s3 i) (length (m_leases p))")
    case (Inl exn)
    obtain t4 where rel: "release_counters (length (m_leases p)) s3 = Some t4" and c4: "cnt_ok t4" and load4: "same_load p t4"
      and sq: "\<And>r. r < length (m_runtimes p) \<Longrightarrow> same_queues (rt p r) (rt t4 r)"
      and t4: "length (m_runtimes t4) = length (m_runtimes p)" "m_calls t4 = m_calls p" "m_slots t4 = m_slots p"
        "m_ready_slots t4 = m_ready_slots p" "m_closed t4 = m_closed p"
      using reserve_release [OF cp rp s3_def] by metis
    let ?t = "fail_call (StartRaised exn) CallFailed i t4"
    have other: "rt t4 r' = rt p r'" if "r' < length (m_runtimes p)" for r'
      using same_runtime_eq [OF sq [OF that]] load4 that by (simp add: same_load_def)
    have ft: "only_rt r s ?t" by (rule only_rt_queues [OF fp]) (use t4 other sq [OF rp] in simp_all)
    have lt: "same_load s ?t"
      using same_load_trans [OF load_p load4] only_rtD(1) [OF fp] by (simp add: same_load_def n_of_def)
    have "cnt_ok ?t" by (rule cnt_ok_cong [OF c4]) simp_all
    moreover have "limit_ok ?t" by (rule same_load_limit [OF coreD(2) [OF core] lt ft])
    moreover have "finished {i} (m_calls s1) (m_calls ?t)"
      using fail_call_finished [of CallFailed i t4 "StartRaised exn"] t4(2) same_p(5) by simp
    moreover have "same_queues (rt p r) (rt ?t r)" using sq [OF rp] by simp
    ultimately have "core ?t" "kept s ?t"
      using core_popped [OF core r users get fin _ s1 r1] ft by (simp_all add: p_def)
    then show ?thesis using Inl rel ft lt by (simp add: unfold turn_ok_def)
  next
    case (Inr invocation)
    let ?t = "finish_issue i (length (m_leases p)) (clock (m_reads (snd (reserve r u p)))) invocation s3"
    have rt3: "m_runtimes s3 = m_runtimes (snd (reserve r u p))" by (simp add: s3_def read_clock_def)
    have "cnt_ok ?t"
      by (rule cnt_ok_cong [OF reserve_cnt(1) [OF cp rp, of u]]) (simp_all add: s3_def read_clock_def)
    moreover have "limit_ok ?t"
    proof (rule limit_ok_cong [OF reserve_room [OF cp lp rp]])
      show "has_room r p" using room(1) same_p cnts [OF r] only_rtD(3) [OF fp r]
        by (simp add: has_room_def global_reserved_def reserved_count_def)
      show "can_reserve_for_user u p" using room(2) same same_p by (simp add: can_reserve_for_user_def)
    qed (simp_all add: s3_def read_clock_def)
    moreover have "finished {i} (m_calls s1) (m_calls ?t)"
      using call(1) by (auto simp: finish_issue_def finished_def calls3 nth_list_update_if)
    moreover have sq: "same_queues (rt p r) (rt ?t r)" using rp by (simp add: rt3 reserve_def)
    moreover have ft: "only_rt r s ?t"
      by (rule only_rt_queues [OF fp _ _ sq]) (simp_all add: s3_def read_clock_def reserve_def)
    ultimately have "core ?t" "kept s ?t"
      using core_popped [OF core r users get fin _ s1 r1] by (simp_all add: p_def)
    then show ?thesis using Inr ft call(2) calls3 by (simp add: unfold turn_ok_def future_done_def)
  qed
qed
lemma core_requeued:
  assumes core: "core s" and r: "r < length (m_runtimes s)" and users: "r_ready_users (rt s r) = u # us"
    and get: "dict_get (r_waiters (rt s r)) u = Some (old @ rest)"
    and fin: "finished (set old) (m_calls s) (m_calls s1)"
    and s1: "rt s1 r = (rt s r)\<lparr>r_ready_users := us, r_waiters := dict_set u rest (r_waiters (rt s r)),
           r_waiting := r_waiting (rt s r) - int (length old)\<rparr>"
    and frame: "only_rt r s s1" and same: "m_leases s1 = m_leases s" "m_reserved s1 = m_reserved s"
      "m_active s1 = m_active s" "m_draining s1 = m_draining s"
  defines "t \<equiv> (if rest = [] then upd_rt r (\<lambda>t. t\<lparr>r_waiters := dict_del u (r_waiters t)\<rparr>) s1
      else upd_rt r (\<lambda>t. t\<lparr>r_ready_users := r_ready_users t @ [u]\<rparr>) s1)"
  shows "core t" and "only_rt r s t" and "same_load s t" and "kept s t" and "can_reserve_for_user v t = can_reserve_for_user v s"
proof -
  note q = coreD(5) [OF core r] and o = only_rtD [OF frame]
  have r1: "r < length (m_runtimes s1)" using r o(1) by simp
  have ft: "only_rt r s t" using frame r1 by (simp add: t_def only_rt_def)
  have fields: "m_leases t = m_leases s" "m_reserved t = m_reserved s" "m_active t = m_active s" "m_draining t = m_draining s"
    "m_calls t = m_calls s1" using same by (simp_all add: t_def)
  have cnts: "r_active (rt t r') = r_active (rt s r') \<and> r_draining (rt t r') = r_draining (rt s r')"
    if "r' < length (m_runtimes s)" for r'
    using that o(1,2) r1 s1 by (simp add: t_def nth_list_update_if)
  have load: "same_load s t" using fields cnts by (simp add: same_load_def n_of_def)
  have cnt: "cnt_ok t"
    by (rule cnt_ok_cong [OF coreD(1) [OF core]]) (use fields cnts only_rtD(1) [OF ft] in simp_all)
  have rt: "r_waiters (rt t r) = (if rest = [] then dict_del u (dict_set u rest (r_waiters (rt s r)))
      else dict_set u rest (r_waiters (rt s r)))"
    "r_ready_users (rt t r) = (if rest = [] then us else us @ [u])" "r_waiting (rt t r) = r_waiting (rt s r) - int (length old)"
    using r1 s1 by (simp_all add: t_def)
  have sorted: "sorted_wrt (<) (old @ rest)" using q_okD(5) [OF q get] .
  have dist: "u \<notin> set us" "distinct us" "insert u (set us) = set (dict_keys (r_waiters (rt s r)))"
    using q_okD(2,3) [OF q] users by auto
  show "core t"
  proof (rule core_turn [OF core r ft cnt same_load_limit [OF coreD(2) [OF core] load ft] get, where q' = rest])
    show "finished (set old) (m_calls s) (m_calls t)" using fin fields(5) by simp
    show "set old \<subseteq> set (old @ rest)" by simp
    show "dict_wf (r_waiters (rt t r))" using q_okD(1) [OF q] by (simp add: rt)
    show "dict_get (r_waiters (rt t r)) v = (if v = u then if rest = [] then None else Some rest else dict_get (r_waiters (rt s r)) v)" for v
      by (simp add: rt)
    show "set rest = set (old @ rest) - set old" "sorted_wrt (<) rest"
      using sorted_append_diff [OF sorted] sorted by (auto simp: sorted_wrt_append)
    show "distinct (r_ready_users (rt t r))" using dist by (simp add: rt)
    show "set (r_ready_users (rt t r)) = set (dict_keys (r_waiters (rt t r)))" using dist by (auto simp: rt)
    show "r_waiting (rt t r) = r_waiting (rt s r) - int (length (old @ rest)) + int (length rest)" by (simp add: rt)
  qed
  show "only_rt r s t" "same_load s t" by fact+
  show "kept s t" by (rule kept_finished [OF q get, of "set old"]) (use fin fields(5) in simp_all)
  show "can_reserve_for_user v t = can_reserve_for_user v s"
    by (rule same_load_can_reserve [OF load coreD(1) [OF core] cnt])
qed

lemma tail_blocked_rotate:
  assumes "tail_blocked r c s" and "r_ready_users (rt s r) = u # us" and "r_ready_users (rt t r) = us @ [u]"
    and "c < length (u # us)" and "\<not> can_reserve_for_user u t" and "\<And>v. can_reserve_for_user v t = can_reserve_for_user v s"
  shows "tail_blocked r (c + 1) t"
proof -
  have "drop (length us - c) (us @ [u]) = drop (length us - c) us @ [u]" by simp
  moreover have "drop (Suc (length us) - c) (u # us) = drop (length us - c) us"
    using assms(4) by (simp add: Suc_diff_le)
  ultimately show ?thesis using assms by (simp add: tail_blocked_def)
qed

lemma try_issue_body_turn:
  assumes core: "core s" and r: "r < length (m_runtimes s)" and room: "has_room r s" and tail: "tail_blocked r checked s"
  shows "turn_ok r s (try_issue_body clock r checked s)"
proof (cases "r_ready_users (rt s r)")
  case Nil
  then show ?thesis using core by (simp add: try_issue_body_def turn_ok_def)
next
  case users: (Cons u us)
  show ?thesis
  proof (cases "checked < length (u # us)")
    case False
    then have "\<forall>v \<in> set (u # us). \<not> can_reserve_for_user v s" using tail users by (simp add: tail_blocked_def)
    then show ?thesis using core users False by (simp add: try_issue_body_def turn_ok_def)
  next
    case True
    have "u \<in> set (dict_keys (r_waiters (rt s r)))" using q_okD(3) [OF coreD(5) [OF core r]] users by auto
    then obtain q where get: "dict_get (r_waiters (rt s r)) u = Some q" by (auto simp: dict_keys_iff)
    obtain rest s1 where e: "expire_queue_head clock r u q (upd_rt r (\<lambda>t. t\<lparr>r_ready_users := us\<rparr>) s) = (rest, s1)"
      by fastforce
    obtain old where x: "q = old @ rest" "finished (set old) (m_calls s) (m_calls s1)"
      "rt s1 r = (rt s r)\<lparr>r_ready_users := us, r_waiters := dict_set u rest (r_waiters (rt s r)),
           r_waiting := r_waiting (rt s r) - int (length old)\<rparr>"
      "only_rt r s s1" "m_leases s1 = m_leases s" "m_reserved s1 = m_reserved s" "m_active s1 = m_active s" "m_draining s1 = m_draining s"
      using expire_facts [OF r e] by metis
    have body: "try_issue_body clock r checked s =
        (case rest of [] \<Rightarrow> IssueNext 0 (upd_rt r (\<lambda>t. t\<lparr>r_waiters := dict_del u (r_waiters t)\<rparr>) s1)
         | i # rest' \<Rightarrow>
             if \<not> can_reserve_for_user u s1
             then IssueNext (checked + 1) (upd_rt r (\<lambda>t. t\<lparr>r_ready_users := r_ready_users t @ [u]\<rparr>) s1)
             else issue_call clock r u i rest' s1)"
      using users True get e by (simp add: try_issue_body_def split: list.split)
    note re = core_requeued [OF core r users get [unfolded x(1)] x(2-8)]
    show ?thesis
    proof (cases rest)
      case Nil
      then show ?thesis using re by (simp add: body turn_ok_def)
    next
      case (Cons i rest')
      show ?thesis
      proof (cases "can_reserve_for_user u s1")
        case True
        then show ?thesis
          using issue_call_turn [OF core r users room True get [unfolded x(1) Cons] x(2) x(3) [unfolded Cons] x(4-8)]
          by (simp add: body Cons)
      next
        case False
        let ?t = "upd_rt r (\<lambda>t. t\<lparr>r_ready_users := r_ready_users t @ [u]\<rparr>) s1"
        have "r_ready_users (rt ?t r) = us @ [u]" using r only_rtD(1) [OF x(4)] x(3) by simp
        then have "tail_blocked r (checked + 1) ?t"
          using tail_blocked_rotate [OF tail users _ True] False re(5) Cons by (simp add: can_reserve_for_user_def)
        then show ?thesis using re(1-4) Cons False by (simp add: body turn_ok_def)
      qed
    qed
  qed
qed

lemma has_room_cong:
  assumes "only_rt r s t" and "same_load s t" and "r < length (m_runtimes s)"
  shows "has_room r t = has_room r s"
  using assms(2,3) only_rtD(3) [OF assms(1,3)]
  by (simp add: has_room_def same_load_def global_reserved_def reserved_count_def)

lemma try_issue_loop_turn:
  assumes "core s" and "r < length (m_runtimes s)" and "has_room r s" and "tail_blocked r checked s"
  shows "\<exists>g t. try_issue_loop clock r checked s = Some (g, t) \<and> core t \<and> only_rt r s t \<and> kept s t \<and>
    (\<not> g \<longrightarrow> same_load s t \<and> (\<forall>u \<in> set (r_ready_users (rt t r)). \<not> can_reserve_for_user u t))"
  using assms
proof (induction clock r checked s rule: try_issue_loop.induct)
  case (1 clock r checked s)
  note turn = try_issue_body_turn [OF 1(2-5), of clock]
  note loop = try_issue_loop.simps [of clock r checked s]
  show ?case
  proof (cases "try_issue_body clock r checked s")
    case IssueCrash
    then show ?thesis using turn by (simp add: turn_ok_def)
  next
    case (IssueDone g t)
    then show ?thesis using turn 1(3) by (simp add: loop turn_ok_def)
  next
    case (IssueNext c t)
    then have t: "core t" "only_rt r s t" "same_load s t" "tail_blocked r c t" "kept s t" using turn by (simp_all add: turn_ok_def)
    have "r < length (m_runtimes t)" using 1(3) only_rtD(1) [OF t(2)] by simp
    moreover have "has_room r t" using has_room_cong [OF t(2,3) 1(3)] 1(4) by simp
    ultimately obtain g t' where "try_issue_loop clock r c t = Some (g, t')" "core t'" "only_rt r t t'" "kept t t'"
      "\<not> g \<longrightarrow> same_load t t' \<and> (\<forall>u \<in> set (r_ready_users (rt t' r)). \<not> can_reserve_for_user u t')"
      using 1(1) [OF _ IssueNext t(1)] t(4) 1(3) by blast
    then show ?thesis
      using IssueNext 1(3) only_rt_trans [OF t(2)] kept_trans [OF t(5)] same_load_trans [OF t(3)] only_rtD(1) [OF t(2)]
      by (auto simp: loop)
  qed
qed

text \<open>The runtime cannot issue anything: it is full, closed, or all its waiting users are at their limit.\<close>

definition blocked_rt :: "nat \<Rightarrow> mcp_coordinator \<Rightarrow> bool" where
  "blocked_rt r s \<longleftrightarrow> r_accepting (rt s r) \<and> has_room r s \<longrightarrow>
     (\<forall>u \<in> set (dict_keys (r_waiters (rt s r))). \<not> can_reserve_for_user u s)"

lemma try_issue_turn:
  assumes core: "core s" and r: "r < length (m_runtimes s)"
  obtains g t where "try_issue clock r s = Some (g, t)" and "core t" and "only_rt r s t" and "kept s t"
    and "\<not> g \<Longrightarrow> same_load s t \<and> blocked_rt r t"
proof (cases "r_accepting (rt s r) \<and> has_room r s")
  case False
  then have "try_issue clock r s = Some (False, s)" "blocked_rt r s"
    by (auto simp: try_issue_def has_room_def blocked_rt_def)
  then show ?thesis using that [of False s] core by simp
next
  case True
  then have eq: "try_issue clock r s = try_issue_loop clock r 0 s" by (simp add: try_issue_def has_room_def)
  obtain g t where t: "try_issue_loop clock r 0 s = Some (g, t)" "core t" "only_rt r s t" "kept s t"
    "\<not> g \<longrightarrow> same_load s t \<and> (\<forall>u \<in> set (r_ready_users (rt t r)). \<not> can_reserve_for_user u t)"
    using try_issue_loop_turn [OF core r, of 0 clock] True by auto
  have "set (r_ready_users (rt t r)) = set (dict_keys (r_waiters (rt t r)))"
    using q_okD(3) [OF coreD(5) [OF t(2)]] r only_rtD(1) [OF t(3)] by simp
  then show ?thesis using that t eq by (simp add: blocked_rt_def)
qed
section \<open>The ready deque and the drain\<close>

text \<open>All runtimes with waiting calls are in the deque, those of \<open>X\<close> excepted.\<close>

definition ready_ok :: "nat set \<Rightarrow> mcp_coordinator \<Rightarrow> bool" where
  "ready_ok X s \<longleftrightarrow> distinct (m_ready_slots s) \<and>
     (\<forall>r. r \<in> set (m_ready_slots s) \<longrightarrow> r < length (m_runtimes s) \<and> r_accepting (rt s r)) \<and>
     (\<forall>r < length (m_runtimes s). r_ready (rt s r) \<longleftrightarrow> r \<in> set (m_ready_slots s)) \<and>
     (\<forall>r < length (m_runtimes s). r_accepting (rt s r) \<and> r_waiting (rt s r) \<noteq> 0 \<and> r \<notin> X \<longrightarrow> r \<in> set (m_ready_slots s))"

lemma ready_okI:
  assumes "distinct (m_ready_slots s)"
    and "\<And>r. r \<in> set (m_ready_slots s) \<Longrightarrow> r < length (m_runtimes s) \<and> r_accepting (rt s r)"
    and "\<And>r. r < length (m_runtimes s) \<Longrightarrow> r_ready (rt s r) \<longleftrightarrow> r \<in> set (m_ready_slots s)"
    and "\<And>r. r < length (m_runtimes s) \<Longrightarrow> r_accepting (rt s r) \<Longrightarrow> r_waiting (rt s r) \<noteq> 0 \<Longrightarrow> r \<notin> X \<Longrightarrow>
      r \<in> set (m_ready_slots s)"
  shows "ready_ok X s"
  using assms by (simp add: ready_ok_def)

lemma ready_okD:
  assumes "ready_ok X s"
  shows "distinct (m_ready_slots s)"
    and "r \<in> set (m_ready_slots s) \<Longrightarrow> r < length (m_runtimes s)"
    and "r \<in> set (m_ready_slots s) \<Longrightarrow> r_accepting (rt s r)"
    and "r < length (m_runtimes s) \<Longrightarrow> r_ready (rt s r) \<longleftrightarrow> r \<in> set (m_ready_slots s)"
    and "r < length (m_runtimes s) \<Longrightarrow> r_accepting (rt s r) \<Longrightarrow> r_waiting (rt s r) \<noteq> 0 \<Longrightarrow> r \<notin> X \<Longrightarrow>
      r \<in> set (m_ready_slots s)"
  using assms by (simp_all add: ready_ok_def)

text \<open>Changing only the ready flags and the deque.\<close>

definition same_but_ready :: "mcp_coordinator \<Rightarrow> mcp_coordinator \<Rightarrow> bool" where
  "same_but_ready s t \<longleftrightarrow> m_active t = m_active s \<and> m_draining t = m_draining s \<and> m_reserved t = m_reserved s \<and>
     m_slots t = m_slots s \<and> m_closed t = m_closed s \<and> m_calls t = m_calls s \<and> m_leases t = m_leases s \<and>
     length (m_runtimes t) = length (m_runtimes s) \<and>
     (\<forall>r < length (m_runtimes s). \<exists>b. rt t r = (rt s r)\<lparr>r_ready := b\<rparr>)"

lemma same_but_ready_rt:
  assumes "same_but_ready s t" and "r < length (m_runtimes s)"
  shows "r_active (rt t r) = r_active (rt s r)" "r_draining (rt t r) = r_draining (rt s r)" "r_max (rt t r) = r_max (rt s r)"
    "r_capacity (rt t r) = r_capacity (rt s r)" "r_accepting (rt t r) = r_accepting (rt s r)" "r_waiting (rt t r) = r_waiting (rt s r)"
    "r_waiters (rt t r) = r_waiters (rt s r)" "r_ready_users (rt t r) = r_ready_users (rt s r)"
  using assms by (auto simp: same_but_ready_def)

lemma same_but_ready_core:
  assumes "same_but_ready s t" and "core s"
  shows "core t"
proof (rule coreI)
  note e = same_but_ready_rt [OF assms(1)] and c = coreD [OF assms(2)]
  have len: "length (m_runtimes t) = length (m_runtimes s)" and calls: "m_calls t = m_calls s"
    using assms(1) by (simp_all add: same_but_ready_def)
  show "cnt_ok t" by (rule cnt_ok_cong [OF c(1)]) (use assms(1) e in \<open>simp_all add: same_but_ready_def\<close>)
  show "limit_ok t" by (rule limit_ok_cong [OF c(2)]) (use assms(1) e in \<open>simp_all add: same_but_ready_def\<close>)
  show "calls_ok t" using c(3) len calls by (simp add: calls_ok_def)
  show "slots_ok t" using c(4) assms(1) e(5) by (auto simp: slots_ok_def same_but_ready_def)
  show "q_ok (m_calls t) r (rt t r)" if "r < length (m_runtimes t)" for r
    using that c(5) [of r] len calls e [of r] by (simp add: q_ok_def rt_queued_def)
qed

lemma same_but_ready_blocked:
  assumes "same_but_ready s t" and "r < length (m_runtimes s)"
  shows "blocked_rt r t = blocked_rt r s"
  using assms(1) same_but_ready_rt [OF assms]
  by (simp add: blocked_rt_def has_room_def global_reserved_def reserved_count_def can_reserve_for_user_def same_but_ready_def)

lemma mark_ready_same: "same_but_ready s (mark_ready r s)"
proof -
  have "\<exists>b. t = t\<lparr>r_ready := b\<rparr>" for t :: runtime_admission by (rule exI [of _ "r_ready t"]) simp
  then show ?thesis
    by (auto simp: mark_ready_def same_but_ready_def nth_list_update_if)
qed

lemma pop_ready_same: "same_but_ready s (upd_rt r (\<lambda>t. t\<lparr>r_ready := False\<rparr>) (s\<lparr>m_ready_slots := ready\<rparr>))"
proof -
  have "\<exists>b. t = t\<lparr>r_ready := b\<rparr>" for t :: runtime_admission by (rule exI [of _ "r_ready t"]) simp
  then show ?thesis
    by (auto simp: same_but_ready_def nth_list_update_if)
qed

lemma mark_ready_slots:
  "m_ready_slots (mark_ready r s) =
    (if r_ready (rt s r) \<or> \<not> r_accepting (rt s r) \<or> r_waiting (rt s r) = 0 then m_ready_slots s else m_ready_slots s @ [r])"
  by (simp add: mark_ready_def)

lemma mark_ready_ok:
  assumes "ready_ok {r} s" and r: "r < length (m_runtimes s)"
  shows "ready_ok {} (mark_ready r s)"
proof (cases "r_ready (rt s r) \<or> \<not> r_accepting (rt s r) \<or> r_waiting (rt s r) = 0")
  case True
  then have "mark_ready r s = s" by (simp add: mark_ready_def)
  moreover have "ready_ok {} s"
  proof (rule ready_okI)
    show "r' \<in> set (m_ready_slots s)"
      if "r' < length (m_runtimes s)" "r_accepting (rt s r')" "r_waiting (rt s r') \<noteq> 0" for r'
      using that True ready_okD(4,5) [OF assms(1), of r'] by (cases "r' = r") auto
  qed (use ready_okD [OF assms(1)] in blast)+
  ultimately show ?thesis by simp
next
  case False
  note d = ready_okD [OF assms(1)]
  have "r \<notin> set (m_ready_slots s)" using d(4) [OF r] False by simp
  moreover have "mark_ready r s = upd_rt r (\<lambda>t. t\<lparr>r_ready := True\<rparr>) (s\<lparr>m_ready_slots := m_ready_slots s @ [r]\<rparr>)" (is "_ = ?t")
    using False by (simp add: mark_ready_def)
  moreover have "ready_ok {} ?t"
  proof (rule ready_okI)
    show "distinct (m_ready_slots ?t)" using d(1) calculation(1) by simp
    show "r' < length (m_runtimes ?t) \<and> r_accepting (rt ?t r')" if "r' \<in> set (m_ready_slots ?t)" for r'
      using that d(2,3) [of r'] r False by (auto simp: nth_list_update_if)
    show "r_ready (rt ?t r') = (r' \<in> set (m_ready_slots ?t))" if "r' < length (m_runtimes ?t)" for r'
      using that d(4) [of r'] r by (auto simp: nth_list_update_if)
    show "r' \<in> set (m_ready_slots ?t)"
      if "r' < length (m_runtimes ?t)" "r_accepting (rt ?t r')" "r_waiting (rt ?t r') \<noteq> 0" for r'
      using that d(5) [of r'] by (auto simp: nth_list_update_if split: if_splits)
  qed
  ultimately show ?thesis by simp
qed

lemma pop_ready_ok:
  assumes "ready_ok {} s" and "m_ready_slots s = r # ready"
  shows "ready_ok {r} (upd_rt r (\<lambda>t. t\<lparr>r_ready := False\<rparr>) (s\<lparr>m_ready_slots := ready\<rparr>))"
proof -
  note d = ready_okD [OF assms(1), unfolded assms(2)]
  show ?thesis using d by (intro ready_okI) (auto simp: nth_list_update_if)
qed

lemma only_rt_ready:
  assumes "ready_ok {r} s" and "only_rt r s t"
  shows "ready_ok {r} t"
proof -
  note d = ready_okD [OF assms(1)] and o = only_rtD [OF assms(2)]
  show ?thesis
  proof (rule ready_okI, unfold o(1,4))
    show "distinct (m_ready_slots s)" by (rule d(1))
    show "r' < length (m_runtimes s) \<and> r_accepting (rt t r')" if "r' \<in> set (m_ready_slots s)" for r'
      using that d(2,3) [OF that] o(3) by simp
    show "r_ready (rt t r') = (r' \<in> set (m_ready_slots s))" if "r' < length (m_runtimes s)" for r'
      using that d(4) [OF that] o(3) by simp
    show "r' \<in> set (m_ready_slots s)"
      if "r' < length (m_runtimes s)" "r_accepting (rt t r')" "r_waiting (rt t r') \<noteq> 0" "r' \<notin> {r}" for r'
      using that d(5) [of r'] o(2) [of r'] by simp
  qed
qed

text \<open>A runtime with no waiting call has nothing to issue.\<close>

lemma q_ok_idle:
  assumes "q_ok cs r t" and "r_waiting t = 0"
  shows "r_waiters t = []"
proof (rule ccontr)
  assume "r_waiters t \<noteq> []"
  then obtain u q d where w: "r_waiters t = (u, q) # d" by (metis list.exhaust surj_pair)
  then have "dict_get (r_waiters t) u = Some q" by (simp add: dict_get_Cons)
  then have "q \<noteq> []" using q_okD(4) [OF assms(1)] by blast
  moreover have "int (length q + dict_sum length d) = 0"
    using q_okD(7) [OF assms(1)] assms(2) w by (simp only: rt_queued_def dict_sum_Cons snd_conv)
  ultimately show False unfolding of_nat_eq_0_iff by simp
qed

lemma idle_blocked:
  assumes "core s" and "ready_ok {} s" and "r < length (m_runtimes s)" and "r \<notin> set (m_ready_slots s)"
  shows "blocked_rt r s"
proof (cases "r_waiting (rt s r) = 0")
  case True
  then show ?thesis using q_ok_idle [OF coreD(5) [OF assms(1,3)]] by (simp add: blocked_rt_def dict_keys_def)
next
  case False
  then show ?thesis using ready_okD(5) [OF assms(2,3)] assms(4) by (auto simp: blocked_rt_def)
qed

lemma blocked_other:
  assumes "blocked_rt r' s" and "only_rt r s t" and "same_load s t" and "r' \<noteq> r" and "r' < length (m_runtimes s)"
    and "cnt_ok s" and "cnt_ok t"
  shows "blocked_rt r' t"
proof -
  have rt: "rt t r' = rt s r'" by (rule only_rtD(2) [OF assms(2,4,5)])
  have "has_room r' t = has_room r' s" using assms(3) rt by (simp add: has_room_def global_reserved_def same_load_def)
  then show ?thesis
    using assms(1) by (simp add: blocked_rt_def rt same_load_can_reserve [OF assms(3,6,7)])
qed

lemma drain_round_ok:
  assumes "core s" and "ready_ok {} s" and "n \<le> length (m_ready_slots s)"
    and "\<And>r. r < length (m_runtimes s) \<Longrightarrow> r \<notin> set (take n (m_ready_slots s)) \<Longrightarrow> blocked_rt r s"
  shows "\<exists>g t. drain_round clock n s = Some (g, t) \<and> core t \<and> ready_ok {} t \<and> kept s t \<and>
    (\<not> g \<longrightarrow> (\<forall>r < length (m_runtimes t). blocked_rt r t))"
  using assms
proof (induction n arbitrary: s)
  case 0
  then show ?case by auto
next
  case (Suc n)
  obtain r ready where ready: "m_ready_slots s = r # ready" using Suc.prems(3) by (cases "m_ready_slots s") auto
  let ?s = "upd_rt r (\<lambda>t. t\<lparr>r_ready := False\<rparr>) (s\<lparr>m_ready_slots := ready\<rparr>)"
  note same = pop_ready_same [of s r ready]
  have rs: "r < length (m_runtimes s)" using ready_okD(2) [OF Suc.prems(2)] ready by simp
  then have r: "r < length (m_runtimes ?s)" by simp
  have core0: "core ?s" by (rule same_but_ready_core [OF same Suc.prems(1)])
  obtain g t where t: "try_issue clock r ?s = Some (g, t)" "core t" "only_rt r ?s t" "kept ?s t"
    "\<not> g \<Longrightarrow> same_load ?s t \<and> blocked_rt r t"
    using try_issue_turn [OF core0 r] by metis
  let ?t = "mark_ready r t"
  have len: "length (m_runtimes t) = length (m_runtimes s)" using only_rtD(1) [OF t(3)] by simp
  have core_t: "core ?t" by (rule same_but_ready_core [OF mark_ready_same t(2)])
  have ready_t: "ready_ok {} ?t"
    using mark_ready_ok [OF only_rt_ready [OF pop_ready_ok [OF Suc.prems(2) ready] t(3)]] rs len by simp
  have kept_t: "kept s ?t" using t(4) mark_ready_same [of t r] by (simp add: kept_def same_but_ready_def)
  show ?case
  proof (cases g)
    case True
    then show ?thesis using ready t(1) core_t ready_t kept_t by auto
  next
    case False
    have slots: "m_ready_slots t = ready" using only_rtD(4) [OF t(3)] by simp
    have take: "take n (m_ready_slots ?t) = take n ready" "n \<le> length (m_ready_slots ?t)"
      using Suc.prems(3) ready by (auto simp: mark_ready_slots slots)
    have "blocked_rt r' ?t" if r': "r' < length (m_runtimes ?t)" "r' \<notin> set (take n (m_ready_slots ?t))" for r'
    proof -
      have lt: "r' < length (m_runtimes s)" using r'(1) len mark_ready_same [of t r] by (simp add: same_but_ready_def)
      have "blocked_rt r' t"
      proof (cases "r' = r")
        case True
        then show ?thesis using t(5) False by simp
      next
        case other: False
        then have "blocked_rt r' s" using Suc.prems(4) [OF lt] r'(2) ready take by simp
        then have "blocked_rt r' ?s" using same_but_ready_blocked [OF same lt] by simp
        then show ?thesis
          using blocked_other [OF _ t(3) _ other _ coreD(1) [OF core0] coreD(1) [OF t(2)]] t(5) False lt by simp
      qed
      then show ?thesis using same_but_ready_blocked [OF mark_ready_same] lt len by simp
    qed
    from Suc.IH [OF core_t ready_t take(2) this]
    show ?thesis using ready t(1) False kept_trans [OF kept_t] by auto
  qed
qed

lemma drain_ok:
  assumes "core s" and "ready_ok {} s"
  shows "\<exists>t. mc_drain clock s = Some t \<and> core t \<and> ready_ok {} t \<and> kept s t \<and> (\<forall>r < length (m_runtimes t). blocked_rt r t)"
  using assms
proof (induction clock s rule: mc_drain.induct)
  case (1 clock s)
  note unfold = mc_drain.simps [of clock s]
  show ?case
  proof (cases "global_reserved s < GLOBAL_MAX_RESERVED \<and> m_ready_slots s \<noteq> []")
    case False
    have "blocked_rt r s" if "r < length (m_runtimes s)" for r
      using False idle_blocked [OF 1(2,3) that] by (auto simp: blocked_rt_def has_room_def)
    then show ?thesis using False 1(2,3) by (auto simp: unfold)
  next
    case True
    obtain g t where t: "drain_round clock (length (m_ready_slots s)) s = Some (g, t)" "core t" "ready_ok {} t" "kept s t"
      "\<not> g \<longrightarrow> (\<forall>r < length (m_runtimes t). blocked_rt r t)"
      using drain_round_ok [OF 1(2,3), of "length (m_ready_slots s)" clock] idle_blocked [OF 1(2,3)] by auto
    show ?thesis
    proof (cases g)
      case False
      then show ?thesis using True t by (auto simp: unfold)
    next
      case granted: True
      obtain t' where "mc_drain clock t = Some t'" "core t'" "ready_ok {} t'" "kept t t'" "\<forall>r < length (m_runtimes t'). blocked_rt r t'"
        using 1(1) [OF True t(1) _ granted t(2,3)] by auto
      then show ?thesis using True granted t kept_trans [OF t(4)] by (auto simp: unfold)
    qed
  qed
qed
section \<open>The operations keep the invariant\<close>

definition mc_inv :: "mcp_coordinator \<Rightarrow> bool" where
  "mc_inv s \<longleftrightarrow> core s \<and> ready_ok {} s \<and> (\<forall>r < length (m_runtimes s). blocked_rt r s)"

lemma mc_invD:
  assumes "mc_inv s"
  shows "core s" and "ready_ok {} s" and "r < length (m_runtimes s) \<Longrightarrow> blocked_rt r s"
  using assms by (simp_all add: mc_inv_def)

lemma drain_inv:
  assumes "core s" and "ready_ok {} s"
  obtains t where "mc_drain clock s = Some t" and "mc_inv t" and "kept s t"
  using drain_ok [OF assms, of clock] that by (auto simp: mc_inv_def)

text \<open>Steps that change only leases and counters.\<close>

lemma core_lease:
  assumes core: "core s" and cnt: "cnt_ok t" "limit_ok t" and len: "length (m_runtimes t) = length (m_runtimes s)"
    and sq: "\<And>r. r < length (m_runtimes s) \<Longrightarrow> same_queues (rt s r) (rt t r)"
    and same: "m_calls t = m_calls s" "m_slots t = m_slots s" "m_closed t = m_closed s"
  shows "core t"
proof (rule coreI [OF cnt])
  note c = coreD [OF core] and f = same_queues_fields [OF sq]
  show "calls_ok t" using c(3) len same by (simp add: calls_ok_def)
  show "slots_ok t" using c(4) len same f(3) by (auto simp: slots_ok_def)
  show "q_ok (m_calls t) r (rt t r)" if "r < length (m_runtimes t)" for r
    using that q_ok_cong [OF c(5) _ sq] len same by simp
qed

lemma ready_lease:
  assumes ready: "ready_ok X s" and len: "length (m_runtimes t) = length (m_runtimes s)"
    and sq: "\<And>r. r < length (m_runtimes s) \<Longrightarrow> same_queues (rt s r) (rt t r)"
    and same: "m_ready_slots t = m_ready_slots s"
  shows "ready_ok X t"
proof (rule ready_okI, unfold len same)
  note d = ready_okD [OF ready] and f = same_queues_fields [OF sq]
  show "distinct (m_ready_slots s)" by (rule d(1))
  show "r < length (m_runtimes s) \<and> r_accepting (rt t r)" if "r \<in> set (m_ready_slots s)" for r
    using d(2,3) [OF that] f(3) by simp
  show "r_ready (rt t r) = (r \<in> set (m_ready_slots s))" if "r < length (m_runtimes s)" for r
    using d(4) [OF that] f(7) [OF that] by simp
  show "r \<in> set (m_ready_slots s)"
    if "r < length (m_runtimes s)" "r_accepting (rt t r)" "r_waiting (rt t r) \<noteq> 0" "r \<notin> X" for r
    using d(5) [of r] that f [OF that(1)] by simp
qed

lemma release_counters_core:
  assumes core: "core s" and l: "l < length (m_leases s)" and held: "l_phase (m_leases s ! l) \<noteq> LeaseReleased"
  obtains t where "release_counters l s = Some t" and "core t"
    and "\<And>X. ready_ok X s \<Longrightarrow> ready_ok X t"
proof -
  note c = coreD [OF core]
  obtain t where rel: "release_counters l s = Some t" and cnt: "cnt_ok t"
    and n: "\<And>P. n_of P t = n_of P s - (if P (m_leases s ! l) then 1 else 0)
      + (if P ((m_leases s ! l)\<lparr>l_phase := LeaseReleased\<rparr>) then 1 else 0)"
    using release_counters_cnt [OF c(1) l held] by blast
  note len = release_counters_runtimes(1) [OF rel] and sq = release_counters_runtimes(2) [OF rel]
  have same: "m_calls t = m_calls s" "m_slots t = m_slots s" "m_closed t = m_closed s" "m_ready_slots t = m_ready_slots s"
    using rel held by (auto simp: release_counters_def Let_def split: if_splits)
  have lim: "limit_ok t"
    unfolding limit_ok_def
  proof (intro conjI allI impI)
    show "global_reserved t \<le> GLOBAL_MAX_RESERVED"
      using c(2) cnt_okD(1,2) [OF cnt] cnt_okD(1,2) [OF c(1)] by (auto simp: limit_ok_def global_reserved_def n split: if_splits)
    show "n_of (held_by u) t \<le> PER_USER_MAX_RESERVED" for u
      using c(2) [unfolded limit_ok_def] by (auto simp: n intro: order_trans [of _ "n_of (held_by u) s"])
    fix r assume "r < length (m_runtimes t)"
    then have r: "r < length (m_runtimes s)" using len by simp
    note f = same_queues_fields(1,2) [OF sq [OF r]]
    show "reserved_count (rt t r) \<le> r_max (rt t r)"
      using c(2) cnt_okD(3,4) [OF cnt, of r] cnt_okD(3,4) [OF c(1) r] r len f
      by (auto simp: limit_ok_def reserved_count_def n split: if_splits)
    show "validate_runtime_limit (r_max (rt t r))" "r_capacity (rt t r) = runtime_waiting_capacity (r_max (rt t r))"
      using c(2) r f by (simp_all add: limit_ok_def)
  qed
  show ?thesis
    using that [OF rel core_lease [OF core cnt lim len sq same(1-3)]] ready_lease [OF _ len sq same(4)] by blast
qed

lemma mc_release_inv:
  assumes "mc_inv s" and "l < length (m_leases s)"
  obtains t where "mc_release clock l s = Some t" and "mc_inv t"
proof (cases "l_phase (m_leases s ! l) = LeaseReleased")
  case True
  then show ?thesis using that assms(1) by (simp add: mc_release_def)
next
  case False
  note i = mc_invD [OF assms(1)]
  obtain t where t: "release_counters l s = Some t" "core t" "ready_ok {} t"
    using release_counters_core [OF i(1) assms(2) False] i(2) by blast
  obtain t' where "mc_drain clock t = Some t'" "mc_inv t'" using drain_inv [OF t(2,3)] by blast
  then show ?thesis using that t(1) False by (simp add: mc_release_def)
qed

lemma blocked_lease:
  assumes "blocked_rt r s" and "cnt_ok s" and "cnt_ok t" and "same_queues (rt s r) (rt t r)"
    and "global_reserved s \<le> global_reserved t" and "reserved_count (rt s r) \<le> reserved_count (rt t r)"
    and "\<And>u. n_of (held_by u) s \<le> n_of (held_by u) t"
  shows "blocked_rt r t"
proof -
  note f = same_queues_fields [OF assms(4)]
  have room: "has_room r t \<Longrightarrow> has_room r s" using assms(5,6) f(1) by (simp add: has_room_def)
  have "can_reserve_for_user u t \<Longrightarrow> can_reserve_for_user u s" for u
    using assms(7) [of u] by (simp add: can_reserve_for_user_def cnt_ok_reserved [OF assms(2)] cnt_ok_reserved [OF assms(3)])
  then show ?thesis using assms(1) room f(3,5) by (auto simp: blocked_rt_def)
qed

lemma mc_mark_draining_inv:
  assumes "mc_inv s" and l: "l < length (m_leases s)"
  shows "mc_inv (mc_mark_draining l s)"
proof (cases "l_phase (m_leases s ! l) = LeaseActive")
  case False
  then show ?thesis using assms(1) by (simp add: mc_mark_draining_def)
next
  case True
  let ?t = "mc_mark_draining l s"
  note i = mc_invD [OF assms(1)] and c = coreD [OF mc_invD(1) [OF assms(1)]]
  have cnt: "cnt_ok ?t" by (rule mark_draining_cnt [OF c(1) l True])
  have len: "length (m_runtimes ?t) = length (m_runtimes s)" by (simp add: mc_mark_draining_def Let_def)
  have same: "m_calls ?t = m_calls s" "m_slots ?t = m_slots s" "m_closed ?t = m_closed s" "m_ready_slots ?t = m_ready_slots s"
    by (simp_all add: mc_mark_draining_def Let_def)
  have sq: "same_queues (rt s r) (rt ?t r)" if "r < length (m_runtimes s)" for r
    using that by (simp add: mc_mark_draining_def Let_def True nth_list_update_if)
  have leases: "m_leases ?t = (m_leases s)[l := (m_leases s ! l)\<lparr>l_phase := LeaseDraining\<rparr>]"
    by (simp add: mc_mark_draining_def True)
  have held: "n_of (held_by u) ?t = n_of (held_by u) s" for u using n_of_set_lease_phase [OF l leases] True by simp
  have glob: "global_reserved ?t = global_reserved s" by (simp add: mc_mark_draining_def Let_def global_reserved_def)
  have res: "reserved_count (rt ?t r) = reserved_count (rt s r)" if "r < length (m_runtimes s)" for r
    using that by (simp add: mc_mark_draining_def Let_def reserved_count_def nth_list_update_if)
  have "limit_ok ?t"
    using c(2) same_queues_fields [OF sq] by (simp add: limit_ok_def held glob res len)
  then have "core ?t" using core_lease [OF i(1) cnt _ len sq same(1-3)] by blast
  moreover have "ready_ok {} ?t" by (rule ready_lease [OF i(2) len sq same(4)])
  moreover have "blocked_rt r ?t" if "r < length (m_runtimes s)" for r
    using blocked_lease [OF i(3) [OF that] c(1) cnt sq [OF that]] glob res [OF that] held by simp
  ultimately show ?thesis by (simp add: mc_inv_def len)
qed

lemma mc_admit_now_inv:
  assumes "mc_inv s" and r: "r < length (m_runtimes s)"
  obtains a t where "mc_admit_now clock r u start s = Some (a, t)" and "mc_inv t"
proof (cases "\<not> r_accepting (rt s r) \<or> m_closed s \<or> \<not> has_room r s \<or> \<not> can_reserve_for_user u s")
  case True
  then have "\<exists>a. mc_admit_now clock r u start s = Some (a, s)" by (auto simp: mc_admit_now_def has_room_def)
  then show ?thesis using that assms(1) by blast
next
  case ok: False
  note i = mc_invD [OF assms(1)] and c = coreD [OF mc_invD(1) [OF assms(1)]]
  define s3 where "s3 = snd (read_clock clock (snd (reserve r u s)))"
  define now where "now = clock (m_reads (snd (reserve r u s)))"
  have unfold: "mc_admit_now clock r u start s =
      (case start (length (m_leases s)) of
         Inl exn \<Rightarrow> map_option (\<lambda>t. (Inl (StartRaised exn), t)) (release_counters (length (m_leases s)) s3)
       | Inr invocation \<Rightarrow> Some (Inr \<lparr>ia_invocation = invocation, ia_lease = length (m_leases s), ia_enqueued_at = now,
             ia_issued_at = now, ia_public_deadline = now + PUBLIC_DEADLINE\<rparr>, s3))"
    using ok by (simp add: mc_admit_now_def has_room_def reserve_def s3_def now_def read_clock_def Let_def split: sum.split)
  show ?thesis
  proof (cases "start (length (m_leases s))")
    case (Inl exn)
    obtain t where t: "release_counters (length (m_leases s)) s3 = Some t" "cnt_ok t" "same_load s t"
      and sq: "\<And>r. r < length (m_runtimes s) \<Longrightarrow> same_queues (rt s r) (rt t r)"
      and same: "length (m_runtimes t) = length (m_runtimes s)" "m_calls t = m_calls s" "m_slots t = m_slots s"
        "m_ready_slots t = m_ready_slots s" "m_closed t = m_closed s"
      using reserve_release [OF c(1) r s3_def] by metis
    have "limit_ok t"
      using c(2) t(3) same(1) same_queues_fields(1,2) [OF sq]
      by (simp add: limit_ok_def same_load_def global_reserved_def reserved_count_def)
    then have "core t" using core_lease [OF i(1) t(2) _ same(1) sq same(2,3,5)] by blast
    moreover have "ready_ok {} t" by (rule ready_lease [OF i(2) same(1) sq same(4)])
    moreover have "blocked_rt r t" if "r < length (m_runtimes s)" for r
      using blocked_lease [OF i(3) [OF that] c(1) t(2) sq [OF that]] t(3) that
      by (simp add: same_load_def global_reserved_def reserved_count_def)
    ultimately have "mc_inv t" by (simp add: mc_inv_def same(1))
    then show ?thesis using that t(1) Inl by (simp add: unfold)
  next
    case (Inr invocation)
    have len: "length (m_runtimes s3) = length (m_runtimes s)" by (simp add: s3_def read_clock_def reserve_def)
    have cnt: "cnt_ok s3"
      by (rule cnt_ok_cong [OF reserve_cnt(1) [OF c(1) r, of u]]) (simp_all add: s3_def read_clock_def)
    have lim: "limit_ok s3"
      by (rule limit_ok_cong [OF reserve_room [OF c(1,2) r]]) (use ok in \<open>simp_all add: s3_def read_clock_def\<close>)
    have sq: "same_queues (rt s r') (rt s3 r')" if "r' < length (m_runtimes s)" for r'
      using that by (simp add: s3_def read_clock_def reserve_def nth_list_update_if)
    have same: "m_calls s3 = m_calls s" "m_slots s3 = m_slots s" "m_closed s3 = m_closed s" "m_ready_slots s3 = m_ready_slots s"
      by (simp_all add: s3_def read_clock_def reserve_def)
    have "core s3" by (rule core_lease [OF i(1) cnt lim len sq same(1-3)])
    moreover have "ready_ok {} s3" by (rule ready_lease [OF i(2) len sq same(4)])
    moreover have "blocked_rt r' s3" if "r' < length (m_runtimes s)" for r'
    proof (rule blocked_lease [OF i(3) [OF that] c(1) cnt sq [OF that]])
      show "global_reserved s \<le> global_reserved s3" by (simp add: s3_def read_clock_def reserve_def global_reserved_def)
      show "reserved_count (rt s r') \<le> reserved_count (rt s3 r')"
        using that by (simp add: s3_def read_clock_def reserve_def reserved_count_def nth_list_update_if)
      show "n_of (held_by v) s \<le> n_of (held_by v) s3" for v by (simp add: n_of_def s3_def read_clock_def reserve_def)
    qed
    ultimately have "mc_inv s3" by (simp add: mc_inv_def len)
    then show ?thesis using that Inr by (simp add: unfold)
  qed
qed
subsection \<open>New runtimes and new calls\<close>

lemma runtime_waiting_capacity_pos: "0 < runtime_waiting_capacity n"
  by (simp add: runtime_waiting_capacity_def)

lemma n_of_new_runtime:
  assumes "cnt_ok s"
  shows "n_of (of_runtime (length (m_runtimes s)) p) s = 0"
  using cnt_okD(6) [OF assms] by (fastforce simp: n_of_def filter_empty_conv in_set_conv_nth)

lemma create_runtime_inv:
  assumes "mc_inv s" and ok: "create_runtime n s = Inr t"
  shows "mc_inv t"
proof -
  note i = mc_invD [OF assms(1)] and c = coreD [OF mc_invD(1) [OF assms(1)]]
  define r where "r = length (m_runtimes s)"
  obtain t0 where rts: "m_runtimes t = m_runtimes s @ [t0]" "r_max t0 = n" "r_capacity t0 = runtime_waiting_capacity n"
    "r_accepting t0 = (\<not> m_closed s)" "r_active t0 = 0" "r_draining t0 = 0" "r_waiting t0 = 0" "r_waiters t0 = []"
    "r_ready_users t0 = []" "\<not> r_ready t0"
    using ok by (auto simp: create_runtime_def split: if_splits)
  have n: "validate_runtime_limit n" using ok by (simp add: create_runtime_def split: if_splits)
  have same: "m_leases t = m_leases s" "m_active t = m_active s" "m_draining t = m_draining s" "m_reserved t = m_reserved s"
    "m_calls t = m_calls s" "m_ready_slots t = m_ready_slots s" "m_closed t = m_closed s"
    "m_slots t = (if m_closed s then m_slots s else m_slots s @ [r])"
    using ok by (auto simp: create_runtime_def r_def split: if_splits)
  have rt: "rt t r' = (if r' < r then rt s r' else t0)" if "r' < length (m_runtimes t)" for r'
    using that rts(1) by (auto simp: nth_append r_def less_Suc_eq)
  have len: "length (m_runtimes t) = Suc r" by (simp add: rts r_def)
  have nt: "n_of P t = n_of P s" for P by (rule n_of_cong [OF same(1)])
  have cnt: "cnt_ok t"
  proof (rule cnt_okI)
    show "r_active (rt t r') = n_of (of_runtime r' LeaseActive) t" "r_draining (rt t r') = n_of (of_runtime r' LeaseDraining) t"
      if "r' < length (m_runtimes t)" for r'
    proof -
      have "r' < r \<or> r' = r" using that len by auto
      then show "r_active (rt t r') = n_of (of_runtime r' LeaseActive) t" "r_draining (rt t r') = n_of (of_runtime r' LeaseDraining) t"
        using rt [OF that] cnt_okD(3,4) [OF c(1), of r'] n_of_new_runtime [OF c(1)] rts by (auto simp: nt r_def)
    qed
    show "l_runtime (m_leases t ! l) < length (m_runtimes t)" if "l < length (m_leases t)" for l
      using cnt_okD(6) [OF c(1), of l] that same(1) len by (simp add: r_def)
  qed (use cnt_okD [OF c(1)] same nt in simp_all)
  have lim: "limit_ok t"
    using c(2) n rts rt len
    by (auto simp: limit_ok_def nt global_reserved_def same reserved_count_def r_def validate_runtime_limit_def less_Suc_eq)
  have "core t"
  proof (rule coreI [OF cnt lim])
    show "calls_ok t" using c(3) by (auto simp: calls_ok_def same len r_def)
    have "r' \<in> set (m_slots t) \<longleftrightarrow> r' < length (m_runtimes t) \<and> r_accepting (rt t r')" for r'
    proof (cases "r' < r")
      case True
      have "rt t r' = rt s r'" using rt [of r'] True len by simp
      moreover have "r' \<in> set (m_slots s) \<longleftrightarrow> r' < r \<and> r_accepting (rt s r')" using c(4) by (simp add: slots_ok_def r_def)
      ultimately show ?thesis using True len by (simp add: same(8))
    next
      case False
      then have "r' \<notin> set (m_slots s)" using c(4) by (simp add: slots_ok_def r_def)
      then show ?thesis using False rt [of r'] len rts(4) by (cases "r' = r") (auto simp: same)
    qed
    then show "slots_ok t" using c(4) by (simp add: slots_ok_def same)
    show "q_ok (m_calls t) r' (rt t r')" if "r' < length (m_runtimes t)" for r'
    proof (cases "r' < r")
      case True
      then show ?thesis using c(5) [of r'] rt [OF that] by (simp add: same r_def)
    next
      case False
      then have "r' = length (m_runtimes s)" using that len by (simp add: r_def)
      then have "\<not> waits (m_calls s) r' u j" for u j using c(3) by (auto simp: waits_def calls_ok_def)
      then show ?thesis
        using rt [OF that] False rts runtime_waiting_capacity_pos [of n]
        by (intro q_okI) (simp_all add: same dict_keys_def rt_queued_def less_imp_le)
    qed
  qed
  moreover have "ready_ok {} t"
  proof (rule ready_okI, unfold same(6))
    note d = ready_okD [OF i(2)]
    show "distinct (m_ready_slots s)" by (rule d(1))
    have new: "r \<notin> set (m_ready_slots s)" using d(2) by (auto simp: r_def)
    show "r' < length (m_runtimes t) \<and> r_accepting (rt t r')" if "r' \<in> set (m_ready_slots s)" for r'
      using d(2,3) [OF that] rt [of r'] len by (simp add: r_def)
    show "r_ready (rt t r') = (r' \<in> set (m_ready_slots s))" if "r' < length (m_runtimes t)" for r'
      using that d(4) [of r'] rt [OF that] len new rts(10) by (cases "r' = r") (simp_all add: r_def)
    show "r' \<in> set (m_ready_slots s)"
      if "r' < length (m_runtimes t)" "r_accepting (rt t r')" "r_waiting (rt t r') \<noteq> 0" for r'
      using that d(5) [of r'] rt [OF that(1)] len rts(7) by (cases "r' = r") (simp_all add: r_def)
  qed
  moreover have "blocked_rt r' t" if "r' < length (m_runtimes t)" for r'
  proof (cases "r' < r")
    case True
    then have "blocked_rt r' s" using i(3) by (simp add: r_def)
    then show ?thesis using rt [OF that] True by (simp add: blocked_rt_def has_room_def global_reserved_def can_reserve_for_user_def same)
  next
    case False
    then show ?thesis using rt [OF that] rts by (simp add: blocked_rt_def dict_keys_def)
  qed
  ultimately show ?thesis by (simp add: mc_inv_def)
qed

lemma dict_sum_append_queue:
  assumes "dict_wf d"
  shows "dict_sum length (dict_set u (dict_get_default d u [] @ [i]) d) = dict_sum length d + 1"
proof (cases "dict_get d u")
  case None
  then show ?thesis by (simp add: dict_sum_set_fresh dict_get_default_def)
next
  case (Some q)
  then show ?thesis using dict_sum_set_old [OF Some, of length "q @ [i]"] by (simp add: dict_get_default_def)
qed

lemma enqueue_call_ok:
  assumes core: "core s" and r: "r < length (m_runtimes s)" and acc: "r_accepting (rt s r)"
    and room: "r_waiting (rt s r) < r_capacity (rt s r)"
  shows "core (enqueue_call r u start now s)" and "ready_ok {} s \<Longrightarrow> ready_ok {r} (enqueue_call r u start now s)"
proof -
  let ?t = "enqueue_call r u start now s" and ?i = "length (m_calls s)"
  note c = coreD [OF core] and q = coreD(5) [OF core r]
  obtain k where k: "m_calls ?t = m_calls s @ [k]" "q_runtime k = r" "q_user k = u" "q_state k = CallQueued" "q_future k = Pending"
    by (simp add: enqueue_call_def Let_def)
  have len: "length (m_runtimes ?t) = length (m_runtimes s)" by (simp add: enqueue_call_def Let_def)
  have other: "rt ?t r' = rt s r'" if "r' \<noteq> r" for r' using that by (simp add: enqueue_call_def Let_def)
  have same: "m_leases ?t = m_leases s" "m_active ?t = m_active s" "m_draining ?t = m_draining s" "m_reserved ?t = m_reserved s"
    "m_slots ?t = m_slots s" "m_ready_slots ?t = m_ready_slots s" "m_closed ?t = m_closed s"
    by (simp_all add: enqueue_call_def Let_def)
  have rt: "r_active (rt ?t r) = r_active (rt s r)" "r_draining (rt ?t r) = r_draining (rt s r)" "r_max (rt ?t r) = r_max (rt s r)"
    "r_capacity (rt ?t r) = r_capacity (rt s r)" "r_accepting (rt ?t r) = r_accepting (rt s r)" "r_ready (rt ?t r) = r_ready (rt s r)"
    "r_waiting (rt ?t r) = r_waiting (rt s r) + 1"
    "r_waiters (rt ?t r) = dict_set u (dict_get_default (r_waiters (rt s r)) u [] @ [?i]) (r_waiters (rt s r))"
    "r_ready_users (rt ?t r) = (if dict_get (r_waiters (rt s r)) u = None then r_ready_users (rt s r) @ [u] else r_ready_users (rt s r))"
    using r by (simp_all add: enqueue_call_def Let_def)
  have flds: "r_active (rt ?t r') = r_active (rt s r') \<and> r_draining (rt ?t r') = r_draining (rt s r') \<and>
      r_max (rt ?t r') = r_max (rt s r') \<and> r_capacity (rt ?t r') = r_capacity (rt s r')" for r'
    using other [of r'] rt by (cases "r' = r") simp_all
  have cnt: "cnt_ok ?t" by (rule cnt_ok_cong [OF c(1)]) (use same len flds in simp_all)
  have lim: "limit_ok ?t" by (rule limit_ok_cong [OF c(2)]) (use same len flds in simp_all)
  have waits: "waits (m_calls ?t) r' v j \<longleftrightarrow> waits (m_calls s) r' v j \<or> j = ?i \<and> r' = r \<and> v = u" for r' v j
    by (auto simp: waits_def k nth_append less_Suc_eq)
  show "core ?t"
  proof (rule coreI [OF cnt lim])
    show "calls_ok ?t" using c(3) r by (auto simp: calls_ok_def k len nth_append less_Suc_eq)
    have "r_accepting (rt ?t r') = r_accepting (rt s r')" for r' using other [of r'] rt(5) by (cases "r' = r") simp_all
    then show "slots_ok ?t" using c(4) by (simp add: slots_ok_def same len)
    fix r' assume r': "r' < length (m_runtimes ?t)"
    show "q_ok (m_calls ?t) r' (rt ?t r')"
    proof (cases "r' = r")
      case False
      then show ?thesis using q_ok_cong [OF c(5), of r' "m_calls ?t" "rt s r'"] r' len other [OF False] waits by simp
    next
      case True
      have "q_ok (m_calls ?t) r (rt ?t r)"
      proof (rule q_okI)
        show "dict_wf (r_waiters (rt ?t r))" using q_okD(1) [OF q] by (simp add: rt)
        show "distinct (r_ready_users (rt ?t r))" using q_okD(2,3) [OF q] by (simp add: rt dict_keys_iff)
        show "set (r_ready_users (rt ?t r)) = set (dict_keys (r_waiters (rt ?t r)))"
          unfolding rt(8,9) dict_keys_set_set using q_okD(3) [OF q] dict_keys_iff [of u "r_waiters (rt s r)"]
          by (simp add: insert_absorb)
        show "set (dict_get_default (r_waiters (rt ?t r)) v []) = {j. waits (m_calls ?t) r v j}" for v
          using q_okD(6) [OF q, of v] by (auto simp: rt waits)
        show "p \<noteq> [] \<and> sorted_wrt (<) p" if "dict_get (r_waiters (rt ?t r)) v = Some p" for v p
        proof (cases "v = u")
          case False
          then show ?thesis using that q_okD(4,5) [OF q, of v p] by (simp add: rt)
        next
          case True
          then have p: "p = dict_get_default (r_waiters (rt s r)) u [] @ [?i]" using that by (simp add: rt)
          have "sorted_wrt (<) (dict_get_default (r_waiters (rt s r)) u [])"
            using q_okD(5) [OF q, of u] by (cases "dict_get (r_waiters (rt s r)) u") (auto simp: dict_get_default_def)
          then show ?thesis using q_okD(6) [OF q, of u] by (simp add: p sorted_wrt_append waits_def)
        qed
        show "r_waiting (rt ?t r) = int (rt_queued (rt ?t r))"
          using q_okD(7) [OF q] dict_sum_append_queue [OF q_okD(1) [OF q]] by (simp add: rt rt_queued_def)
        show "r_waiting (rt ?t r) \<le> r_capacity (rt ?t r)" using room by (simp add: rt)
        show "\<not> r_accepting (rt ?t r) \<Longrightarrow> r_waiters (rt ?t r) = []" using acc rt(5) by simp
      qed
      then show ?thesis using True by simp
    qed
  qed
  show "ready_ok {r} ?t" if "ready_ok {} s"
  proof (rule ready_okI, unfold len same)
    note d = ready_okD [OF that]
    show "distinct (m_ready_slots s)" by (rule d(1))
    show "r' < length (m_runtimes s) \<and> r_accepting (rt ?t r')" if "r' \<in> set (m_ready_slots s)" for r'
      using d(2,3) [OF that] other [of r'] rt(5) by (cases "r' = r") auto
    show "r_ready (rt ?t r') = (r' \<in> set (m_ready_slots s))" if "r' < length (m_runtimes s)" for r'
      using d(4) [OF that] other [of r'] rt(6) by (cases "r' = r") auto
    show "r' \<in> set (m_ready_slots s)"
      if "r' < length (m_runtimes s)" "r_accepting (rt ?t r')" "r_waiting (rt ?t r') \<noteq> 0" "r' \<notin> {r}" for r'
      using d(5) [of r'] other [of r'] that by simp
  qed
qed

lemma core_reads: "core s \<Longrightarrow> core (s\<lparr>m_reads := k\<rparr>)"
proof (rule same_but_ready_core)
  have "\<exists>b. t = t\<lparr>r_ready := b\<rparr>" for t :: runtime_admission by (rule exI [of _ "r_ready t"]) simp
  then show "same_but_ready s (s\<lparr>m_reads := k\<rparr>)" by (simp add: same_but_ready_def)
qed

lemma ready_reads: "ready_ok X s \<Longrightarrow> ready_ok X (s\<lparr>m_reads := k\<rparr>)"
  by (simp add: ready_ok_def)

lemma mc_submit_inv:
  assumes "mc_inv s" and r: "r < length (m_runtimes s)"
  obtains a t where "mc_submit clock r u start s = Some (a, t)" and "mc_inv t"
proof (cases "\<not> r_accepting (rt s r) \<or> m_closed s \<or> r_waiting (rt s r) \<ge> r_capacity (rt s r)")
  case True
  then have "\<exists>a. mc_submit clock r u start s = Some (a, s)" by (auto simp: mc_submit_def)
  then show ?thesis using that assms(1) by blast
next
  case False
  note i = mc_invD [OF assms(1)]
  let ?s = "s\<lparr>m_reads := m_reads s + 1\<rparr>" and ?now = "clock (m_reads s)"
  let ?t = "enqueue_call r u start ?now ?s"
  have "core ?t" "ready_ok {r} ?t"
    using enqueue_call_ok [OF core_reads [OF i(1)], of r "m_reads s + 1" u start ?now] r False ready_reads [OF i(2)] by simp_all
  moreover have "r < length (m_runtimes ?t)" using r by (simp add: enqueue_call_def Let_def)
  ultimately have "core (mark_ready r ?t)" "ready_ok {} (mark_ready r ?t)"
    using same_but_ready_core [OF mark_ready_same] mark_ready_ok by blast+
  then obtain t where "mc_drain clock (mark_ready r ?t) = Some t" "mc_inv t" using drain_inv by blast
  then show ?thesis using that False by (simp add: mc_submit_def read_clock_def)
qed
subsection \<open>Expiry and cancellation\<close>

lemma remove_ready_same: "same_but_ready s (remove_ready r s)"
proof -
  have "\<exists>b. t = t\<lparr>r_ready := b\<rparr>" for t :: runtime_admission by (rule exI [of _ "r_ready t"]) simp
  then show ?thesis by (auto simp: remove_ready_def same_but_ready_def nth_list_update_if)
qed

lemma remove_ready_slots:
  assumes "ready_ok X s" and "r < length (m_runtimes s)"
  shows "set (m_ready_slots (remove_ready r s)) = set (m_ready_slots s) - {r}" and "distinct (m_ready_slots (remove_ready r s))"
  using ready_okD(1,4) [OF assms(1)] assms(2) by (simp_all add: remove_ready_def)

lemma remove_ready_flag:
  assumes "r' < length (m_runtimes s)"
  shows "r_ready (rt (remove_ready r s) r') = (r_ready (rt s r') \<and> r' \<noteq> r)"
  using assms by (auto simp: remove_ready_def nth_list_update_if)

lemma remove_ready_ok:
  assumes "ready_ok {} s" and "r < length (m_runtimes s)" and "\<not> r_accepting (rt s r) \<or> r_waiting (rt s r) = 0"
  shows "ready_ok {} (remove_ready r s)"
proof -
  note d = ready_okD [OF assms(1)] and e = same_but_ready_rt [OF remove_ready_same [of s r]]
  have len: "length (m_runtimes (remove_ready r s)) = length (m_runtimes s)"
    using remove_ready_same [of s r] by (simp add: same_but_ready_def)
  show ?thesis
  proof (rule ready_okI, unfold remove_ready_slots(1) [OF assms(1,2)] len)
    show "distinct (m_ready_slots (remove_ready r s))" by (rule remove_ready_slots(2) [OF assms(1,2)])
    show "r' < length (m_runtimes s) \<and> r_accepting (rt (remove_ready r s) r')" if "r' \<in> set (m_ready_slots s) - {r}" for r'
      using that d(2,3) [of r'] e(5) [of r'] by auto
    show "r_ready (rt (remove_ready r s) r') = (r' \<in> set (m_ready_slots s) - {r})" if "r' < length (m_runtimes s)" for r'
      using d(4) [OF that] remove_ready_flag [OF that] by auto
    show "r' \<in> set (m_ready_slots s) - {r}"
      if "r' < length (m_runtimes s)" "r_accepting (rt (remove_ready r s) r')" "r_waiting (rt (remove_ready r s) r') \<noteq> 0" for r'
      using that d(5) [of r'] e(5,6) [OF that(1)] assms(3) by auto
  qed
qed

lemma fail_call_remove_ready: "fail_call e st i (remove_ready r s) = remove_ready r (fail_call e st i s)"
  by (simp add: remove_ready_def fail_call_def upd_rt_def upd_call_def)

lemma sorted_remove1:
  fixes q :: "nat list"
  assumes "sorted_wrt (<) q"
  shows "sorted_wrt (<) (remove1 i q)" and "set (remove1 i q) = set q - {i}"
proof -
  show "sorted_wrt (<) (remove1 i q)"
    using assms by (induction q) (auto dest: notin_set_remove1 set_remove1_subset [THEN subsetD])
  have "distinct q" using assms by (induction q) auto
  then show "set (remove1 i q) = set q - {i}" by (rule set_remove1_eq)
qed

lemma remove_queued_ok:
  assumes core: "core s" and ready: "ready_ok {} s" and i: "i < length (m_calls s)" "q_state (call s i) = CallQueued"
    and st: "st \<noteq> CallQueued"
  shows "core (fail_call e st i (remove_queued i s))" and "ready_ok {} (fail_call e st i (remove_queued i s))"
    and "m_calls (remove_queued i s) = m_calls s"
proof -
  define r where "r = q_runtime (call s i)"
  define u where "u = q_user (call s i)"
  note c = coreD [OF core]
  have r: "r < length (m_runtimes s)" using c(3) i by (simp add: calls_ok_def r_def)
  note qk = c(5) [OF r]
  have wait: "waits (m_calls s) r u i" using i by (simp add: waits_def r_def u_def)
  obtain q where get: "dict_get (r_waiters (rt s r)) u = Some q" and iq: "i \<in> set q" using q_ok_waits [OF qk wait] by blast
  define rest where "rest = remove1 i q"
  define s1 where "s1 = upd_rt r (\<lambda>t. t\<lparr>r_waiting := r_waiting t - 1,
       r_waiters := (if rest = [] then dict_del u (r_waiters t) else dict_set u rest (r_waiters t)),
       r_ready_users := (if rest = [] then remove1 u (r_ready_users t) else r_ready_users t)\<rparr>) s"
  have rq: "remove_queued i s = (if r_waiting (rt s1 r) = 0 then remove_ready r s1 else s1)"
    using get iq by (simp add: remove_queued_def Let_def s1_def rest_def r_def u_def)
  have calls: "m_calls s1 = m_calls s" by (simp add: s1_def)
  then show "m_calls (remove_queued i s) = m_calls s"
    using remove_ready_same [of s1 r] by (simp add: rq same_but_ready_def)
  let ?t = "fail_call e st i s1"
  have rt: "r_waiting (rt ?t r) = r_waiting (rt s r) - 1"
    "r_waiters (rt ?t r) = (if rest = [] then dict_del u (r_waiters (rt s r)) else dict_set u rest (r_waiters (rt s r)))"
    "r_ready_users (rt ?t r) = (if rest = [] then remove1 u (r_ready_users (rt s r)) else r_ready_users (rt s r))"
    using r by (simp_all add: s1_def)
  have frame: "only_rt r s ?t" using r by (simp add: s1_def only_rt_def)
  have cnts: "r_active (rt ?t r') = r_active (rt s r') \<and> r_draining (rt ?t r') = r_draining (rt s r')"
    if "r' < length (m_runtimes s)" for r' using that by (simp add: s1_def nth_list_update_if)
  have load: "same_load s ?t" using cnts by (simp add: same_load_def n_of_def s1_def)
  have cnt: "cnt_ok ?t" by (rule cnt_ok_cong [OF c(1)]) (use cnts in \<open>simp_all add: s1_def\<close>)
  note srt = sorted_remove1 [OF q_okD(5) [OF qk get], of i, folded rest_def]
  have dist: "distinct (r_ready_users (rt s r))" "set (r_ready_users (rt s r)) = set (dict_keys (r_waiters (rt s r)))"
    using q_okD(2,3) [OF qk] .
  have u: "u \<in> set (dict_keys (r_waiters (rt s r)))" using get by (simp add: dict_keys_iff)
  have lq: "length q = Suc (length rest)" using iq length_pos_if_in_set [OF iq] by (simp add: rest_def length_remove1)
  have core_t: "core ?t"
  proof (rule core_turn [OF core r frame cnt same_load_limit [OF c(2) load frame] get, where q' = rest and S = "{i}"])
    show "finished {i} (m_calls s) (m_calls ?t)" using fail_call_finished [OF st, of i s1 e] calls by simp
    show "{i} \<subseteq> set q" using iq by simp
    show "dict_wf (r_waiters (rt ?t r))" unfolding rt using q_okD(1) [OF qk] by simp
    show "dict_get (r_waiters (rt ?t r)) v = (if v = u then if rest = [] then None else Some rest else dict_get (r_waiters (rt s r)) v)" for v
      unfolding rt by simp
    show "set rest = set q - {i}" "sorted_wrt (<) rest" using srt by auto
    show "distinct (r_ready_users (rt ?t r))" unfolding rt using dist by simp
    show "set (r_ready_users (rt ?t r)) = set (dict_keys (r_waiters (rt ?t r)))"
      unfolding rt using dist u by (simp add: insert_absorb)
    show "r_waiting (rt ?t r) = r_waiting (rt s r) - int (length q) + int (length rest)"
      unfolding rt using lq by simp
  qed
  have "0 < rt_queued (rt s r)"
    using dict_sum_set_old [OF get, of length "[]"] lq unfolding rt_queued_def list.size(3) by linarith
  then have pos: "0 < r_waiting (rt s r)" using q_okD(7) [OF qk] by simp
  have ready_t: "ready_ok {} ?t"
  proof (rule ready_okI, unfold only_rtD(1,4) [OF frame])
    note d = ready_okD [OF ready] and o = only_rtD [OF frame]
    show "distinct (m_ready_slots s)" by (rule d(1))
    show "r' < length (m_runtimes s) \<and> r_accepting (rt ?t r')" if "r' \<in> set (m_ready_slots s)" for r'
      using d(2,3) [OF that] o(3) by simp
    show "r_ready (rt ?t r') = (r' \<in> set (m_ready_slots s))" if "r' < length (m_runtimes s)" for r'
      using d(4) [OF that] o(3) [OF that] by simp
    show "r' \<in> set (m_ready_slots s)"
      if "r' < length (m_runtimes s)" "r_accepting (rt ?t r')" "r_waiting (rt ?t r') \<noteq> 0" for r'
    proof (cases "r' = r")
      case True
      then show ?thesis using d(5) [OF r] pos that(2) o(3) [OF r] by simp
    next
      case False
      then show ?thesis using d(5) [OF that(1)] o(2) [OF False that(1)] that(2,3) by simp
    qed
  qed
  have eq: "fail_call e st i (remove_queued i s) = (if r_waiting (rt ?t r) = 0 then remove_ready r ?t else ?t)"
    by (simp add: rq fail_call_remove_ready)
  have rt': "r < length (m_runtimes ?t)" using r only_rtD(1) [OF frame] by simp
  show "core (fail_call e st i (remove_queued i s))"
    unfolding eq using core_t same_but_ready_core [OF remove_ready_same core_t] by simp
  show "ready_ok {} (fail_call e st i (remove_queued i s))"
    unfolding eq using ready_t remove_ready_ok [OF ready_t rt'] by simp
qed

lemma remove_queued_fails:
  assumes "core s" and "ready_ok {} s" and "i < length (m_calls s)" and "q_state (call s i) = CallQueued" and "st \<noteq> CallQueued"
  obtains t where "mc_drain clock (fail_call e st i (remove_queued i s)) = Some t" and "mc_inv t"
    and "q_future (call t i) = (if st = CallCancelled then Cancelled else Raised e)" and "q_state (call t i) = st"
proof -
  let ?t = "fail_call e st i (remove_queued i s)"
  note k = remove_queued_ok [OF assms]
  obtain t where t: "mc_drain clock ?t = Some t" "mc_inv t" "kept ?t t" using drain_inv [OF k(1) [of e] k(2) [of e]] by blast
  have "q_future (call s i) = Pending" using coreD(3) [OF assms(1)] assms(3,4) by (simp add: calls_ok_def)
  then have "q_state (call ?t i) = st" "q_future (call ?t i) = (if st = CallCancelled then Cancelled else Raised e)"
    "i < length (m_calls ?t)"
    using assms(3) k(3) by (simp_all add: fail_call_def future_done_def)
  then have "q_state (call t i) = st" "q_future (call t i) = (if st = CallCancelled then Cancelled else Raised e)"
    using t(3) assms(5) by (simp_all add: kept_def)
  then show ?thesis using that t by blast
qed

lemma inv_reads: "mc_inv s \<Longrightarrow> mc_inv (s\<lparr>m_reads := k\<rparr>)"
  using core_reads ready_reads
  by (simp add: mc_inv_def blocked_rt_def has_room_def global_reserved_def can_reserve_for_user_def)

lemma mc_expire_inv:
  assumes "mc_inv s" and i: "i < length (m_calls s)"
  obtains t where "mc_expire clock i s = Some t" and "mc_inv t"
    and "q_state (call s i) = CallQueued \<Longrightarrow> clock (m_reads s) \<ge> q_queue_deadline (call s i) \<Longrightarrow>
      q_future (call t i) = Raised ServerMcpBusyError"
    and "q_state (call s i) \<noteq> CallQueued \<or> clock (m_reads s) < q_queue_deadline (call s i) \<Longrightarrow> call t i = call s i"
proof -
  let ?s = "s\<lparr>m_reads := m_reads s + 1\<rparr>"
  have inv: "mc_inv ?s" by (rule inv_reads [OF assms(1)])
  consider "q_state (call s i) \<noteq> CallQueued" | "q_state (call s i) = CallQueued" "clock (m_reads s) < q_queue_deadline (call s i)"
    | "q_state (call s i) = CallQueued" "clock (m_reads s) \<ge> q_queue_deadline (call s i)" by linarith
  then show ?thesis
  proof cases
    case 1
    then show ?thesis using that [of s] assms(1) by (simp add: mc_expire_def)
  next
    case 2
    then show ?thesis using that [of ?s] inv by (simp add: mc_expire_def read_clock_def)
  next
    case 3
    obtain t where "mc_drain clock (fail_call ServerMcpBusyError CallFailed i (remove_queued i ?s)) = Some t" "mc_inv t"
      "q_future (call t i) = Raised ServerMcpBusyError"
      using remove_queued_fails [OF mc_invD(1,2) [OF inv], of i CallFailed clock ServerMcpBusyError] i 3 by auto
    then show ?thesis using that [of t] 3 by (simp add: mc_expire_def read_clock_def)
  qed
qed

lemma mc_cancel_inv:
  assumes "mc_inv s" and i: "i < length (m_calls s)"
  obtains t where "mc_cancel clock i s = Some (q_state (call s i) = CallQueued, t)" and "mc_inv t"
    and "q_state (call s i) = CallQueued \<Longrightarrow> q_future (call t i) = Cancelled"
    and "q_state (call s i) \<noteq> CallQueued \<Longrightarrow> t = s"
proof (cases "q_state (call s i) = CallQueued")
  case False
  then show ?thesis using that [of s] assms(1) by (simp add: mc_cancel_def)
next
  case True
  obtain t where "mc_drain clock (fail_call ServerMcpBusyError CallCancelled i (remove_queued i s)) = Some t" "mc_inv t"
    "q_future (call t i) = Cancelled"
    using remove_queued_fails [OF mc_invD(1,2) [OF assms(1)] i True, of CallCancelled clock ServerMcpBusyError] by auto
  then show ?thesis using that [of t] True by (simp add: mc_cancel_def)
qed
subsection \<open>Retirement and closing\<close>

definition core0 :: "mcp_coordinator \<Rightarrow> bool" where
  "core0 s \<longleftrightarrow> cnt_ok s \<and> limit_ok s \<and> calls_ok s \<and> (\<forall>r < length (m_runtimes s). q_ok (m_calls s) r (rt s r))"

lemma core_core0: "core s \<longleftrightarrow> core0 s \<and> slots_ok s"
  by (auto simp: core_def core0_def)

lemma core0_slots [simp]: "core0 (s\<lparr>m_slots := x\<rparr>) = core0 s" "core0 (s\<lparr>m_closed := b\<rparr>) = core0 s"
  "core0 (s\<lparr>m_slots := x, m_ready_slots := y\<rparr>) = core0 s"
  by (simp_all add: core0_def cnt_ok_def limit_ok_def calls_ok_def n_of_def global_reserved_def)

lemma waiting_calls:
  assumes "q_ok cs r t"
  shows "set (concat (dict_values (r_waiters t))) = {i. \<exists>u. waits cs r u i}"
proof -
  have "i \<in> set (concat (dict_values (r_waiters t))) \<longleftrightarrow> (\<exists>u. waits cs r u i)" for i
  proof
    assume "i \<in> set (concat (dict_values (r_waiters t)))"
    then obtain u q where "(u, q) \<in> set (r_waiters t)" "i \<in> set q" by (auto simp: dict_values_def)
    then show "\<exists>u. waits cs r u i"
      using q_ok_queue [OF assms] dict_wf_get_iff [OF q_okD(1) [OF assms]] by blast
  next
    assume "\<exists>u. waits cs r u i"
    then obtain u q where "dict_get (r_waiters t) u = Some q" "i \<in> set q" using q_ok_waits [OF assms] by blast
    then show "i \<in> set (concat (dict_values (r_waiters t)))"
      using dict_get_in [of "r_waiters t" u q] by (force simp: dict_values_def)
  qed
  then show ?thesis by blast
qed

lemma retire_locked_facts:
  assumes r: "r < length (m_runtimes s)" and ready: "ready_ok {} s"
  defines "t \<equiv> retire_locked r s" and "S \<equiv> set (concat (dict_values (r_waiters (rt s r))))"
  shows "length (m_runtimes t) = length (m_runtimes s)"
    and "rt t r = (rt s r)\<lparr>r_accepting := False, r_waiters := [], r_ready_users := [], r_waiting := 0, r_ready := False\<rparr>"
    and "r' \<noteq> r \<Longrightarrow> rt t r' = rt s r'"
    and "finished S (m_calls s) (m_calls t)"
    and "m_leases t = m_leases s" "m_active t = m_active s" "m_draining t = m_draining s" "m_reserved t = m_reserved s"
      "m_slots t = m_slots s" "m_closed t = m_closed s"
    and "set (m_ready_slots t) = set (m_ready_slots s) - {r}" and "distinct (m_ready_slots t)"
proof -
  let ?s0 = "upd_rt r (\<lambda>t. t\<lparr>r_accepting := False\<rparr>) s"
  have flag: "r_ready (rt ?s0 r) = r_ready (rt s r)" using r by simp
  define s1 where "s1 = remove_ready r ?s0"
  have s1: "m_runtimes s1 = (m_runtimes s)[r := (rt s r)\<lparr>r_accepting := False, r_ready := False\<rparr>]"
    "m_calls s1 = m_calls s" "m_leases s1 = m_leases s" "m_active s1 = m_active s" "m_draining s1 = m_draining s"
    "m_reserved s1 = m_reserved s" "m_slots s1 = m_slots s" "m_closed s1 = m_closed s"
    "m_ready_slots s1 = (if r_ready (rt s r) then remove1 r (m_ready_slots s) else m_ready_slots s)"
    using r by (auto simp: s1_def remove_ready_def intro!: arg_cong [where f = "list_update _ _"])
  have w: "r_waiters (rt s1 r) = r_waiters (rt s r)" using r by (simp add: s1)
  have t: "t = upd_rt r (\<lambda>t. t\<lparr>r_waiters := [], r_ready_users := [], r_waiting := 0\<rparr>)
      (fold (fail_call ServerMcpUnavailableError CallFailed) (concat (dict_values (r_waiters (rt s r)))) s1)"
    using w by (simp add: t_def retire_locked_def s1_def)
  show "length (m_runtimes t) = length (m_runtimes s)" by (simp add: t s1)
  show "rt t r = (rt s r)\<lparr>r_accepting := False, r_waiters := [], r_ready_users := [], r_waiting := 0, r_ready := False\<rparr>"
    using r by (simp add: t s1)
  show "r' \<noteq> r \<Longrightarrow> rt t r' = rt s r'" by (simp add: t s1)
  show "finished S (m_calls s) (m_calls t)"
    using fail_calls_finished [of CallFailed "concat (dict_values (r_waiters (rt s r)))" s1 ServerMcpUnavailableError]
    by (simp add: t s1 S_def)
  show "m_leases t = m_leases s" "m_active t = m_active s" "m_draining t = m_draining s" "m_reserved t = m_reserved s"
      "m_slots t = m_slots s" "m_closed t = m_closed s"
    by (simp_all add: t s1)
  show "set (m_ready_slots t) = set (m_ready_slots s) - {r}" "distinct (m_ready_slots t)"
    using ready_okD(1,4) [OF ready] r by (simp_all add: t s1)
qed

lemma retire_locked_ok:
  assumes core: "core0 s" and ready: "ready_ok {} s" and r: "r < length (m_runtimes s)"
  shows "core0 (retire_locked r s)" and "ready_ok {} (retire_locked r s)"
proof -
  let ?t = "retire_locked r s"
  note f = retire_locked_facts [OF r ready]
  note q = core [unfolded core0_def]
  have flds: "r_active (rt ?t r') = r_active (rt s r') \<and> r_draining (rt ?t r') = r_draining (rt s r') \<and>
      r_max (rt ?t r') = r_max (rt s r') \<and> r_capacity (rt ?t r') = r_capacity (rt s r')" for r'
    using f(2) f(3) [of r'] by (cases "r' = r") simp_all
  have qr: "q_ok (m_calls s) r (rt s r)" using q r by simp
  note calls = waiting_calls [OF qr]
  have "cnt_ok ?t" by (rule cnt_ok_cong [of s]) (use q f(1,5-) flds in simp_all)
  moreover have "limit_ok ?t" by (rule limit_ok_cong [of s]) (use q f(1,5-) flds in simp_all)
  moreover have "calls_ok ?t" by (rule finished_calls_ok [of s]) (use q f(1,4) in simp_all)
  moreover have "q_ok (m_calls ?t) r' (rt ?t r')" if r': "r' < length (m_runtimes s)" for r'
  proof (cases "r' = r")
    case True
    have "\<not> waits (m_calls ?t) r u i" for u i using finished_waits [OF f(4)] calls by blast
    then have "q_ok (m_calls ?t) r (rt ?t r)"
      using q_okD(8) [OF qr] q_okD(7) [OF qr] by (intro q_okI) (simp_all add: f(2) dict_keys_def rt_queued_def)
    then show ?thesis using True by simp
  next
    case False
    then have "q_runtime (call s i) \<noteq> r'" if "i \<in> set (concat (dict_values (r_waiters (rt s r))))" for i
      using that unfolding calls by (auto simp: waits_def)
    then show ?thesis using q_ok_other [OF _ f(4), of r' "rt s r'"] q r' f(3) [OF False] by simp
  qed
  ultimately show "core0 ?t" using f(1) by (simp add: core0_def)
  show "ready_ok {} ?t"
  proof (rule ready_okI, unfold f(1,11))
    note d = ready_okD [OF ready]
    show "distinct (m_ready_slots ?t)" by (rule f(12))
    show "r' < length (m_runtimes s) \<and> r_accepting (rt ?t r')" if "r' \<in> set (m_ready_slots s) - {r}" for r'
      using that d(2,3) [of r'] f(3) [of r'] by auto
    show "r_ready (rt ?t r') = (r' \<in> set (m_ready_slots s) - {r})" if "r' < length (m_runtimes s)" for r'
      using d(4) [OF that] f(2) f(3) [of r'] by (cases "r' = r") auto
    show "r' \<in> set (m_ready_slots s) - {r}"
      if "r' < length (m_runtimes s)" "r_accepting (rt ?t r')" "r_waiting (rt ?t r') \<noteq> 0" for r'
      using that d(5) [OF that(1)] f(2) f(3) [of r'] by (cases "r' = r") auto
  qed
qed

lemma mc_retire_inv:
  assumes "mc_inv s" and r: "r < length (m_runtimes s)"
  obtains t where "mc_retire clock r s = Some t" and "mc_inv t"
proof (cases "r_accepting (rt s r)")
  case False
  then show ?thesis using that assms(1) by (simp add: mc_retire_def)
next
  case True
  note i = mc_invD [OF assms(1)]
  note f = retire_locked_facts [OF r i(2)]
  let ?t = "retire_locked r s" and ?u = "(retire_locked r s)\<lparr>m_slots := removeAll r (m_slots (retire_locked r s))\<rparr>"
  have k: "core0 ?t" "ready_ok {} ?t" using retire_locked_ok [OF _ i(2) r] i(1) by (simp_all add: core_core0)
  have "slots_ok ?u"
  proof -
    have "r' \<in> set (m_slots s) \<and> r' \<noteq> r \<longleftrightarrow> r' < length (m_runtimes s) \<and> r_accepting (rt ?t r')" for r'
      using coreD(4) [OF i(1)] f(2) f(3) [of r'] by (cases "r' = r") (simp_all add: slots_ok_def)
    moreover have "m_closed s \<longrightarrow> m_slots s = []" using coreD(4) [OF i(1)] by (simp add: slots_ok_def)
    ultimately show ?thesis by (simp add: slots_ok_def f(1,9,10))
  qed
  then have "core ?u" "ready_ok {} ?u" using k by (simp_all add: core_core0 ready_ok_def)
  then obtain t where "mc_drain clock ?u = Some t" "mc_inv t" using drain_inv by blast
  then show ?thesis using that True by (simp add: mc_retire_def Let_def)
qed

lemma retire_all_ok:
  assumes "core0 s" and "ready_ok {} s" and "\<And>r. r \<in> set rs \<Longrightarrow> r < length (m_runtimes s)"
  shows "core0 (fold retire_locked rs s) \<and> ready_ok {} (fold retire_locked rs s) \<and>
    length (m_runtimes (fold retire_locked rs s)) = length (m_runtimes s) \<and> m_closed (fold retire_locked rs s) = m_closed s \<and>
    (\<forall>r < length (m_runtimes s). r_accepting (rt (fold retire_locked rs s) r) = (r_accepting (rt s r) \<and> r \<notin> set rs))"
  using assms
proof (induction rs arbitrary: s)
  case Nil
  then show ?case by simp
next
  case (Cons r rs)
  have r: "r < length (m_runtimes s)" using Cons.prems(3) by simp
  note f = retire_locked_facts [OF r Cons.prems(2)]
  have acc: "r_accepting (rt (retire_locked r s) r') = (r_accepting (rt s r') \<and> r' \<noteq> r)" for r'
    using f(2) f(3) [of r'] by (cases "r' = r") simp_all
  have "core0 (retire_locked r s)" "ready_ok {} (retire_locked r s)"
    using retire_locked_ok [OF Cons.prems(1,2) r] by blast+
  from Cons.IH [OF this] show ?case using Cons.prems(3) f(1,10) acc by auto
qed

lemma mc_close_inv:
  assumes "mc_inv s"
  shows "mc_inv (mc_close s)"
proof (cases "m_closed s")
  case True
  then show ?thesis using assms by (simp add: mc_close_def)
next
  case False
  note i = mc_invD [OF assms] and c = coreD [OF mc_invD(1) [OF assms]]
  let ?s = "s\<lparr>m_closed := True\<rparr>"
  define t where "t = fold retire_locked (m_slots s) ?s"
  have "core0 ?s" "ready_ok {} ?s" using i(1,2) by (simp_all add: core_core0 ready_ok_def)
  moreover have in_slots: "r \<in> set (m_slots s) \<longleftrightarrow> r < length (m_runtimes s) \<and> r_accepting (rt s r)" for r
    using c(4) by (simp add: slots_ok_def)
  ultimately have t: "core0 t" "ready_ok {} t" "length (m_runtimes t) = length (m_runtimes s)" "m_closed t"
    "\<And>r. r < length (m_runtimes s) \<Longrightarrow> \<not> r_accepting (rt t r)"
    using retire_all_ok [of ?s "m_slots s"] unfolding t_def by auto
  have "m_ready_slots t = []"
  proof (rule ccontr)
    assume "m_ready_slots t \<noteq> []"
    then obtain r where "r \<in> set (m_ready_slots t)" by (meson hd_in_set)
    then show False using ready_okD(2,3) [OF t(2)] t(3,5) by auto
  qed
  then have eq: "mc_close s = t\<lparr>m_slots := [], m_ready_slots := []\<rparr>" using False by (simp add: mc_close_def t_def)
  have "core (mc_close s)" using t by (simp add: eq core_core0 slots_ok_def)
  moreover have "ready_ok {} (mc_close s)" using t \<open>m_ready_slots t = []\<close> by (simp add: eq ready_ok_def)
  moreover have "blocked_rt r (mc_close s)" if "r < length (m_runtimes s)" for r
    using t(5) [OF that] by (simp add: eq blocked_rt_def)
  ultimately show ?thesis by (simp add: mc_inv_def eq t(3))
qed

section \<open>The invariant holds and nothing crashes\<close>

text \<open>A wait is answered, and leaves its call unanswered only by an \<open>InvalidStateError\<close>.\<close>

lemma ticket_wait_inv:
  assumes "mc_inv s" and i: "i < length (m_calls s)"
  obtains answer t where "ticket_wait clock i event s = Some (answer, t)" and "mc_inv t"
    and "answer = (case event of
        WaitCancelled \<Rightarrow> WaitCancelledError
      | WaitWoken \<Rightarrow> if future_done (q_future (call s i)) then ticket_result (q_future (call s i))
                     else if clock (m_reads s) < q_queue_deadline (call s i) then WaitInvalidStateError
                     else WaitRaised ServerMcpBusyError)"
    and "q_future (call t i) = Pending \<longleftrightarrow> answer = WaitInvalidStateError"
proof -
  have st: "q_state (call s i) = CallQueued \<longleftrightarrow> q_future (call s i) = Pending"
    using coreD(3) [OF mc_invD(1) [OF assms(1)]] i by (simp add: calls_ok_def)
  have done_iff: "ticket_result f = WaitInvalidStateError \<longleftrightarrow> f = Pending" for f
    by (cases f) simp_all
  show ?thesis
  proof (cases event)
    case WaitCancelled
    obtain t where t: "mc_cancel clock i s = Some (q_state (call s i) = CallQueued, t)" "mc_inv t"
      "q_state (call s i) = CallQueued \<Longrightarrow> q_future (call t i) = Cancelled"
      "q_state (call s i) \<noteq> CallQueued \<Longrightarrow> t = s"
      using mc_cancel_inv [OF assms, of clock] by metis
    then have "q_future (call t i) \<noteq> Pending" using st by (cases "q_state (call s i) = CallQueued") auto
    with t(1,2) show ?thesis using that [of WaitCancelledError t] WaitCancelled by simp
  next
    case WaitWoken
    obtain t where t: "mc_expire clock i s = Some t" "mc_inv t"
      "q_state (call s i) = CallQueued \<Longrightarrow> clock (m_reads s) \<ge> q_queue_deadline (call s i) \<Longrightarrow>
        q_future (call t i) = Raised ServerMcpBusyError"
      "q_state (call s i) \<noteq> CallQueued \<or> clock (m_reads s) < q_queue_deadline (call s i) \<Longrightarrow> call t i = call s i"
      using mc_expire_inv [OF assms, of clock] by metis
    show ?thesis
    proof (cases "q_future (call s i) = Pending")
      case True
      then show ?thesis
        using that [of "ticket_result (q_future (call t i))" t] WaitWoken t st
        by (cases "clock (m_reads s) < q_queue_deadline (call s i)") (simp_all add: future_done_def)
    next
      case False
      then show ?thesis
        using that [of "ticket_result (q_future (call s i))" s] WaitWoken assms(1)
        by (simp add: future_done_def done_iff)
    qed
  qed
qed

lemma mc_admit_inv:
  assumes "mc_inv s" and "r < length (m_runtimes s)"
  obtains a t where "mc_admit clock r u start s = Some (a, t)" and "mc_inv t"
proof -
  obtain a t where "mc_submit clock r u start s = Some (a, t)" "mc_inv t"
    using mc_submit_inv [OF assms, of clock u start] by metis
  then show ?thesis using that by (cases a) (auto simp: mc_admit_def)
qed

lemma mc_exec_inv:
  assumes "mc_inv s" and "op_ok op s"
  shows "\<exists>t. mc_exec clock op s = Some t \<and> mc_inv t"
proof (cases op)
  case (OpCreate n)
  then show ?thesis using assms(1) create_runtime_inv [OF assms(1), of n] by (cases "create_runtime n s") auto
next
  case (OpAdmitNow r u start)
  then have "r < length (m_runtimes s)" using assms(2) by simp
  from assms(1) this show ?thesis by (rule mc_admit_now_inv [of s r clock u start]) (simp add: OpAdmitNow)
next
  case (OpSubmit r u start)
  then have "r < length (m_runtimes s)" using assms(2) by simp
  from assms(1) this show ?thesis by (rule mc_submit_inv [of s r clock u start]) (simp add: OpSubmit)
next
  case (OpMarkDraining l)
  then show ?thesis using mc_mark_draining_inv [OF assms(1)] assms(2) by simp
next
  case (OpRelease l)
  then have "l < length (m_leases s)" using assms(2) by simp
  from assms(1) this show ?thesis by (rule mc_release_inv [of s l clock]) (simp add: OpRelease)
next
  case (OpRetire r)
  then have "r < length (m_runtimes s)" using assms(2) by simp
  from assms(1) this show ?thesis by (rule mc_retire_inv [of s r clock]) (simp add: OpRetire)
next
  case OpClose
  then show ?thesis using mc_close_inv [OF assms(1)] by simp
next
  case (OpExpire i)
  then have "i < length (m_calls s)" using assms(2) by simp
  from assms(1) this show ?thesis by (rule mc_expire_inv [of s i clock]) (simp add: OpExpire)
next
  case (OpCancel i)
  then have "i < length (m_calls s)" using assms(2) by simp
  from assms(1) this show ?thesis by (rule mc_cancel_inv [of s i clock]) (simp add: OpCancel)
next
  case (OpAdmit r u start)
  then have "r < length (m_runtimes s)" using assms(2) by simp
  from assms(1) this show ?thesis by (rule mc_admit_inv [of s r clock u start]) (simp add: OpAdmit)
next
  case (OpWait i event)
  then have "i < length (m_calls s)" using assms(2) by simp
  from assms(1) this show ?thesis by (rule ticket_wait_inv [of s i clock event]) (simp add: OpWait)
qed

lemma mc_new_inv: "mc_inv mc_new"
  by (simp add: mc_inv_def core_def cnt_ok_def limit_ok_def calls_ok_def slots_ok_def ready_ok_def mc_new_def n_of_def
      global_reserved_def GLOBAL_MAX_RESERVED_def PER_USER_MAX_RESERVED_def)

lemma mc_step_inv: "mc_inv s \<Longrightarrow> mc_step clock s t \<Longrightarrow> mc_inv t"
  by (erule mc_stepE, drule (1) mc_exec_inv [where clock = clock], simp)

interpretation mc: inductive_invariant "\<lambda>s. s = mc_new" "mc_step clock" mc_inv for clock
  by unfold_locales (auto simp: mc_new_inv intro: mc_step_inv)
fun mc_run :: "(nat \<Rightarrow> int) \<Rightarrow> mcp_op list \<Rightarrow> mcp_coordinator \<Rightarrow> mcp_coordinator option" where
  "mc_run clock [] s = Some s"
| "mc_run clock (op # ops) s =
     (if op_ok op s then (case mc_exec clock op s of None \<Rightarrow> None | Some t \<Rightarrow> mc_run clock ops t) else None)"

lemma mc_run_reachable: "mc_reachable clock s \<Longrightarrow> mc_run clock ops s = Some t \<Longrightarrow> mc_reachable clock t"
proof (induction ops arbitrary: s)
  case (Cons op ops)
  then obtain s' where "op_ok op s" "mc_exec clock op s = Some s'" "mc_run clock ops s' = Some t"
    by (auto split: if_splits option.splits)
  then show ?case using Cons.IH Cons.prems(1) by (blast intro: reach_step mc_stepI)
qed simp

text \<open>A runtime with room for eight calls and a user that submits five: the fifth waits.\<close>

definition demo_clock :: "nat \<Rightarrow> int" where "demo_clock k = (if k < 14 then 0 else 9000000)"

definition demo_ops :: "mcp_op list" where
  "demo_ops = OpCreate 8 # map (\<lambda>k. OpSubmit 0 7 (\<lambda>l. Inr k)) [0, 2, 3, 4, 5]"

definition demo_sched :: mcp_coordinator where
  "demo_sched = the (mc_run demo_clock demo_ops mc_new)"

lemma demo_run: "\<not> Option.is_none (mc_run demo_clock demo_ops mc_new)"
  by code_simp

lemma demo_facts:
  "q_state (call demo_sched 4) = CallQueued \<and> length (m_calls demo_sched) = 5 \<and> m_reads demo_sched = 14 \<and>
   q_runtime (call demo_sched 4) = 0 \<and> q_user (call demo_sched 4) = 7 \<and> q_queue_deadline (call demo_sched 4) = 5000000 \<and>
   length (m_runtimes demo_sched) = 1 \<and> r_accepting (rt demo_sched 0) \<and> global_reserved demo_sched = 4 \<and>
   r_active (rt demo_sched 0) = 4 \<and> r_draining (rt demo_sched 0) = 0 \<and> r_max (rt demo_sched 0) = 8"
proof -
  have "(let s = demo_sched in q_state (call s 4) = CallQueued \<and> length (m_calls s) = 5 \<and> m_reads s = 14 \<and>
     q_runtime (call s 4) = 0 \<and> q_user (call s 4) = 7 \<and> q_queue_deadline (call s 4) = 5000000 \<and>
     length (m_runtimes s) = 1 \<and> r_accepting (rt s 0) \<and> global_reserved s = 4 \<and>
     r_active (rt s 0) = 4 \<and> r_draining (rt s 0) = 0 \<and> r_max (rt s 0) = 8)"
    by code_simp
  then show ?thesis by (simp only: Let_def)
qed


lemma demo_reachable: "mc_reachable demo_clock demo_sched"
  using demo_run mc_run_reachable [OF reach_start, of mc_new demo_clock demo_ops demo_sched]
  by (simp add: demo_sched_def Option.is_none_def split: option.splits)

section \<open>The properties\<close>

text \<open>
  C21. Admission never exceeds a limit, whatever the callers do and whatever the clock says. In every
  state that operations can reach, the counters are the true numbers of unreleased leases: at most 32
  in all, at most 4 of one user, at most \<open>max_concurrent_calls\<close> of one runtime; and a
  runtime never has more calls waiting than its capacity.
\<close>

theorem mcp_admission_limits:
  assumes "mc_reachable clock s"
  shows "global_reserved s = int (length (filter (\<lambda>l. l_phase l \<noteq> LeaseReleased) (m_leases s))) \<and> global_reserved s \<le> 32 \<and>
    (\<forall>u. dict_get_default (m_reserved s) u 0 = int (length (filter (held_by u) (m_leases s))) \<and>
       length (filter (held_by u) (m_leases s)) \<le> 4) \<and>
    (\<forall>r. r < length (m_runtimes s) \<longrightarrow>
       reserved_count (rt s r) = int (length (filter (\<lambda>l. l_phase l \<noteq> LeaseReleased \<and> l_runtime l = r) (m_leases s))) \<and>
       reserved_count (rt s r) \<le> r_max (rt s r) \<and> r_max (rt s r) \<le> 32 \<and>
       r_waiting (rt s r) \<le> runtime_waiting_capacity (r_max (rt s r)))"
proof -
  have inv: "mc_inv s" by (rule mc.inv_reachable [OF assms])
  note c = coreD [OF mc_invD(1) [OF inv]]
  note lim = c(2) [unfolded limit_ok_def]
  have split: "length (filter (\<lambda>l. P l \<and> l_phase l = LeaseActive) xs) + length (filter (\<lambda>l. P l \<and> l_phase l = LeaseDraining) xs) =
      length (filter (\<lambda>l. P l \<and> l_phase l \<noteq> LeaseReleased) xs)" for P and xs :: "mcp_lease list"
  proof (induction xs)
    case (Cons x xs)
    then show ?case by (cases "l_phase x") auto
  qed simp
  have "global_reserved s = int (length (filter (\<lambda>l. l_phase l \<noteq> LeaseReleased) (m_leases s)))"
    using cnt_okD(1,2) [OF c(1)] split [of "\<lambda>_. True" "m_leases s"] by (simp add: global_reserved_def n_of_def)
  moreover have "dict_get_default (m_reserved s) u 0 = int (length (filter (held_by u) (m_leases s))) \<and>
       length (filter (held_by u) (m_leases s)) \<le> 4" for u
    using cnt_ok_reserved [OF c(1), of u] lim by (auto simp: n_of_def PER_USER_MAX_RESERVED_def)
  moreover have count: "reserved_count (rt s r) =
      int (length (filter (\<lambda>l. l_phase l \<noteq> LeaseReleased \<and> l_runtime l = r) (m_leases s)))" if "r < length (m_runtimes s)" for r
    using cnt_okD(3,4) [OF c(1) that] split [of "\<lambda>l. l_runtime l = r" "m_leases s"]
    by (simp add: reserved_count_def n_of_def conj_commute flip: of_nat_add)
  moreover have "reserved_count (rt s r) \<le> r_max (rt s r) \<and> r_max (rt s r) \<le> 32 \<and>
       r_waiting (rt s r) \<le> runtime_waiting_capacity (r_max (rt s r))" if r: "r < length (m_runtimes s)" for r
    using lim r q_okD(8) [OF c(5) [OF r]] by (simp add: validate_runtime_limit_def)
  ultimately show ?thesis using lim by (simp add: GLOBAL_MAX_RESERVED_def)
qed

theorem mcp_admission_limits_witness:
  "global_reserved demo_sched = 4 \<and> length (filter (held_by 7) (m_leases demo_sched)) \<le> 4 \<and> reserved_count (rt demo_sched 0) \<le> 8"
  using mcp_admission_limits [OF demo_reachable] demo_facts by auto



text \<open>
  The exception is real: with a clock that still reads 0 when the sleep of the fifth call ends
  (an event loop may fire a timer early by its resolution), the wait ends with
  \<open>InvalidStateError\<close> and the call stays in the queue, where it may still be issued for nobody.
\<close>

lemma early_timer_leaves_call_queued:
  "case mc_run (\<lambda>_. 0) demo_ops mc_new of
     None \<Rightarrow> False
   | Some s \<Rightarrow>
       (case ticket_wait (\<lambda>_. 0) 4 WaitWoken s of
          Some (answer, t) \<Rightarrow> answer = WaitInvalidStateError \<and> q_state (call t 4) = CallQueued
        | None \<Rightarrow> False)"
  by code_simp

text \<open>
  C23. No call waits while it could be issued. In every reachable state, a call is queued at an
  accepting runtime that is below its own limit, while fewer than 32 reservations exist,
  only if its user already holds 4 reservations. And the queue of a user is in order of
  submission and holds exactly its waiting calls, so that calls of one user are issued first come first served.
\<close>

theorem mcp_work_conserving:
  assumes "mc_reachable clock s" and "i < length (m_calls s)" and "q_state (call s i) = CallQueued"
  defines "r \<equiv> q_runtime (call s i)" and "u \<equiv> q_user (call s i)"
  shows "(reserved_count (rt s r) < r_max (rt s r) \<and> global_reserved s < 32 \<longrightarrow>
      length (filter (held_by u) (m_leases s)) = 4) \<and>
    (\<exists>q. dict_get (r_waiters (rt s r)) u = Some q \<and> i \<in> set q \<and> sorted_wrt (<) q \<and>
       (\<forall>j \<in> set q. q_user (call s j) = u \<and> q_runtime (call s j) = r \<and> q_state (call s j) = CallQueued))"
proof -
  have inv: "mc_inv s" by (rule mc.inv_reachable [OF assms(1)])
  note c = coreD [OF mc_invD(1) [OF inv]]
  have r: "r < length (m_runtimes s)" using c(3) assms(2) by (simp add: calls_ok_def r_def)
  note qk = c(5) [OF r]
  have "waits (m_calls s) r u i" using assms(2,3) by (simp add: waits_def r_def u_def)
  then obtain q where q: "dict_get (r_waiters (rt s r)) u = Some q" "i \<in> set q" using q_ok_waits [OF qk] by blast
  have acc: "r_accepting (rt s r)" using q_okD(9) [OF qk] q(1) by (metis dict_get_empty option.distinct(1))
  have "length (filter (held_by u) (m_leases s)) = 4"
    if "reserved_count (rt s r) < r_max (rt s r)" "global_reserved s < 32"
  proof -
    have "\<not> can_reserve_for_user u s"
      using mc_invD(3) [OF inv r] acc that q(1) by (auto simp: blocked_rt_def has_room_def GLOBAL_MAX_RESERVED_def dict_keys_iff)
    then have "4 \<le> n_of (held_by u) s"
      by (simp add: can_reserve_for_user_def cnt_ok_reserved [OF c(1)] PER_USER_MAX_RESERVED_def)
    moreover have "n_of (held_by u) s \<le> 4" using c(2) by (simp add: limit_ok_def PER_USER_MAX_RESERVED_def)
    ultimately show ?thesis by (simp add: n_of_def)
  qed
  moreover have "\<forall>j \<in> set q. q_user (call s j) = u \<and> q_runtime (call s j) = r \<and> q_state (call s j) = CallQueued"
    using q_ok_queue [OF qk q(1)] by (simp add: waits_def)
  ultimately show ?thesis using q q_okD(5) [OF qk q(1)] by blast
qed

theorem mcp_work_conserving_witness: "length (filter (held_by 7) (m_leases demo_sched)) = 4"
  using mcp_work_conserving [OF demo_reachable, of 4] demo_facts by (simp add: reserved_count_def)

end
