(* ===== verification/Local_Transfer.thy ===== *)
theory Local_Transfer
  imports Octo_Prelude
begin

text \<open>
  \<open>transfer_admission.py\<close> of the client: the slots for transfers that run on the device, a queue first
  come first served, leases that can be handed over to work that outlives its caller, and the registry
  that keeps such work alive.

  Leases, calls of \<open>acquire\<close> and drain tasks are objects in stores. The event loop runs the code between two
  awaits as one step. A task that is cancelled while it waits first has its future cancelled, if that is still
  pending, and is resumed with the exception later; so a cancelled call has two steps, and a slot may be
  granted before, between or after them.
\<close>

definition LOCAL_TRANSFER_CAPACITY :: int where "LOCAL_TRANSFER_CAPACITY = 2"

datatype local_error = LocalValueError | LeaseNotOwned | ExcessCapacity

record acquire_call =
  ac_future :: "(local_error, nat) py_future"
  ac_active :: bool

record drain_task =
  dt_lease :: nat
  dt_left :: nat
  dt_done :: bool

record local_admission =
  la_capacity :: int
  la_available :: int
  la_waiters :: "nat list"
  la_calls :: "acquire_call list"
  la_leases :: "bool list"
  la_tasks :: "drain_task list"
  la_owners :: "nat list"

definition la_new :: "int \<Rightarrow> local_error + local_admission" where
  "la_new capacity =
     (if capacity < 1 then Inl LocalValueError
      else Inr \<lparr>la_capacity = capacity, la_available = capacity, la_waiters = [], la_calls = [], la_leases = [],
                la_tasks = [], la_owners = []\<rparr>)"

abbreviation la_future :: "local_admission \<Rightarrow> nat \<Rightarrow> (local_error, nat) py_future" where
  "la_future s i \<equiv> ac_future (la_calls s ! i)"

definition la_active_count :: "local_admission \<Rightarrow> int" where
  "la_active_count s = la_capacity s - la_available s"

definition discard_finished_waiters :: "local_admission \<Rightarrow> local_admission" where
  "discard_finished_waiters s = s\<lparr>la_waiters := filter (\<lambda>i. \<not> future_done (la_future s i)) (la_waiters s)\<rparr>"

definition la_waiting_count :: "local_admission \<Rightarrow> nat \<times> local_admission" where
  "la_waiting_count s = (let s1 = discard_finished_waiters s in (length (la_waiters s1), s1))"

text \<open>A lease object: its index and its flag \<open>_owned\<close> in the store.\<close>

definition new_lease :: "local_admission \<Rightarrow> nat \<times> local_admission" where
  "new_lease s = (length (la_leases s), s\<lparr>la_leases := la_leases s @ [True]\<rparr>)"

definition la_try_acquire :: "local_admission \<Rightarrow> nat option \<times> local_admission" where
  "la_try_acquire s =
     (let s1 = discard_finished_waiters s
      in if la_available s1 = 0 \<or> la_waiters s1 \<noteq> [] then (None, s1)
         else let (l, s2) = new_lease (s1\<lparr>la_available := la_available s1 - 1\<rparr>) in (Some l, s2))"

definition set_future :: "nat \<Rightarrow> (local_error, nat) py_future \<Rightarrow> local_admission \<Rightarrow> local_admission" where
  "set_future i f s = s\<lparr>la_calls := (la_calls s)[i := (la_calls s ! i)\<lparr>ac_future := f\<rparr>]\<rparr>"

text \<open>\<open>_release\<close>: the loop over the queue skips futures that are done; \<open>None\<close> is its \<open>RuntimeError\<close>.\<close>

fun grant_loop :: "nat list \<Rightarrow> local_admission \<Rightarrow> local_admission option" where
  "grant_loop [] s = (if la_available s \<ge> la_capacity s then None
     else Some (s\<lparr>la_waiters := [], la_available := la_available s + 1\<rparr>))"
| "grant_loop (i # rest) s =
     (if future_done (la_future s i) then grant_loop rest s
      else let (l, s1) = new_lease (s\<lparr>la_waiters := rest\<rparr>) in Some (set_future i (Result l) s1))"

definition la_release :: "local_admission \<Rightarrow> local_admission option" where
  "la_release s = (let s1 = discard_finished_waiters s in grant_loop (la_waiters s1) s1)"

definition lease_release :: "nat \<Rightarrow> local_admission \<Rightarrow> local_admission option" where
  "lease_release l s =
     (if \<not> la_leases s ! l then Some s else la_release (s\<lparr>la_leases := (la_leases s)[l := False]\<rparr>))"

definition lease_handoff :: "nat \<Rightarrow> local_admission \<Rightarrow> (local_error + nat) \<times> local_admission" where
  "lease_handoff l s =
     (if \<not> la_leases s ! l then (Inl LeaseNotOwned, s)
      else let (l', s1) = new_lease (s\<lparr>la_leases := (la_leases s)[l := False]\<rparr>) in (Inr l', s1))"

section \<open>Acquisition\<close>

datatype acquire_result = AcquireFailed local_error | AcquireNow nat | AcquireWaits nat

definition la_acquire :: "int option \<Rightarrow> local_admission \<Rightarrow> acquire_result \<times> local_admission" where
  "la_acquire timeout s =
     (if (case timeout of None \<Rightarrow> False | Some t \<Rightarrow> t < 0) then (AcquireFailed LocalValueError, s)
      else case la_try_acquire s of
             (Some l, s1) \<Rightarrow> (AcquireNow l, s1)
           | (None, s1) \<Rightarrow>
               (AcquireWaits (length (la_calls s1)),
                s1\<lparr>la_calls := la_calls s1 @ [\<lparr>ac_future = Pending, ac_active = True\<rparr>],
                   la_waiters := la_waiters s1 @ [length (la_calls s1)]\<rparr>))"

definition finish_call :: "nat \<Rightarrow> local_admission \<Rightarrow> local_admission" where
  "finish_call i s = s\<lparr>la_calls := (la_calls s)[i := (la_calls s ! i)\<lparr>ac_active := False\<rparr>],
     la_waiters := remove1 i (la_waiters s)\<rparr>"

text \<open>The future has a lease and the caller resumes.\<close>

definition la_resume :: "nat \<Rightarrow> local_admission \<Rightarrow> local_admission" where
  "la_resume i s =
     (case la_future s i of Result l \<Rightarrow> if ac_active (la_calls s ! i) then finish_call i s else s | _ \<Rightarrow> s)"

text \<open>Cancelling a waiting task, or its timeout, cancels a pending future at once.\<close>

definition la_cancel :: "nat \<Rightarrow> local_admission \<Rightarrow> local_admission" where
  "la_cancel i s = (if ac_active (la_calls s ! i) \<and> la_future s i = Pending then set_future i Cancelled s else s)"

text \<open>The exception arrives in \<open>acquire\<close>: give a granted slot back, or cancel the future; then the \<open>finally\<close>.\<close>

definition la_abort :: "nat \<Rightarrow> local_admission \<Rightarrow> local_admission option" where
  "la_abort i s =
     (if \<not> ac_active (la_calls s ! i) then Some s
      else map_option (finish_call i)
        (case la_future s i of
           Result l \<Rightarrow> lease_release l s
         | Pending \<Rightarrow> Some (set_future i Cancelled s)
         | _ \<Rightarrow> Some s))"

section \<open>The drain registry\<close>

text \<open>
  \<open>adopt\<close>: with no work left the lease is released; otherwise it is handed over to a new task that
  is retained until it finished. \<open>n\<close> is the number of drains to wait for.
\<close>

definition la_adopt :: "nat \<Rightarrow> nat \<Rightarrow> local_admission \<Rightarrow> (local_error option \<times> local_admission) option" where
  "la_adopt l n s =
     (if n = 0 then map_option (Pair None) (lease_release l s)
      else case lease_handoff l s of
             (Inl e, s1) \<Rightarrow> Some (Some e, s1)
           | (Inr l', s1) \<Rightarrow>
               Some (None, s1\<lparr>la_tasks := la_tasks s1 @ [\<lparr>dt_lease = l', dt_left = n, dt_done = False\<rparr>],
                              la_owners := la_owners s1 @ [length (la_tasks s1)]\<rparr>))"

definition la_drained :: "nat \<Rightarrow> local_admission \<Rightarrow> local_admission" where
  "la_drained k s = s\<lparr>la_tasks := (la_tasks s)[k := (la_tasks s ! k)\<lparr>dt_left := dt_left (la_tasks s ! k) - 1\<rparr>]\<rparr>"

text \<open>All drains are complete: \<open>finish\<close> releases the lease and the task is done.\<close>

definition la_finish_task :: "nat \<Rightarrow> local_admission \<Rightarrow> local_admission option" where
  "la_finish_task k s =
     (let task = la_tasks s ! k
      in if dt_done task \<or> 0 < dt_left task then Some s
         else lease_release (dt_lease task) (s\<lparr>la_tasks := (la_tasks s)[k := task\<lparr>dt_done := True\<rparr>]\<rparr>))"

definition purge_done :: "local_admission \<Rightarrow> local_admission" where
  "purge_done s = s\<lparr>la_owners := filter (\<lambda>k. \<not> dt_done (la_tasks s ! k)) (la_owners s)\<rparr>"

definition la_pending_count :: "local_admission \<Rightarrow> nat \<times> local_admission" where
  "la_pending_count s = (let s1 = purge_done s in (length (la_owners s1), s1))"

text \<open>The done callback of a retained task.\<close>

definition la_task_callback :: "nat \<Rightarrow> local_admission \<Rightarrow> local_admission" where
  "la_task_callback k s = (if dt_done (la_tasks s ! k) then s\<lparr>la_owners := filter (\<lambda>j. j \<noteq> k) (la_owners s)\<rparr> else s)"

text \<open>A lease that a task has taken over is known to that task only.\<close>

definition lease_private :: "local_admission \<Rightarrow> nat \<Rightarrow> bool" where
  "lease_private s l \<longleftrightarrow> list_ex (\<lambda>task. dt_lease task = l) (la_tasks s)"

text \<open>A caller may use a lease it was given: not one that is private, nor one of a call that has not resumed.\<close>

definition lease_usable :: "local_admission \<Rightarrow> nat \<Rightarrow> bool" where
  "lease_usable s l \<longleftrightarrow> l < length (la_leases s) \<and> \<not> lease_private s l \<and>
     \<not> list_ex (\<lambda>c. ac_active c \<and> ac_future c = Result l) (la_calls s)"

inductive la_step :: "local_admission \<Rightarrow> local_admission \<Rightarrow> bool" where
  la_count: "la_step s (snd (la_waiting_count s))"
| la_try: "la_step s (snd (la_try_acquire s))"
| la_acq: "la_step s (snd (la_acquire timeout s))"
| la_res: "i < length (la_calls s) \<Longrightarrow> la_step s (la_resume i s)"
| la_can: "i < length (la_calls s) \<Longrightarrow> la_step s (la_cancel i s)"
| la_abo: "i < length (la_calls s) \<Longrightarrow> la_abort i s = Some t \<Longrightarrow> la_step s t"
| la_rel: "lease_usable s l \<Longrightarrow> lease_release l s = Some t \<Longrightarrow> la_step s t"
| la_hand: "lease_usable s l \<Longrightarrow> la_step s (snd (lease_handoff l s))"
| la_ado: "lease_usable s l \<Longrightarrow> la_adopt l n s = Some (e, t) \<Longrightarrow> la_step s t"
| la_drn: "k < length (la_tasks s) \<Longrightarrow> la_step s (la_drained k s)"
| la_fin: "k < length (la_tasks s) \<Longrightarrow> la_finish_task k s = Some t \<Longrightarrow> la_step s t"
| la_pend: "la_step s (snd (la_pending_count s))"
| la_call: "k < length (la_tasks s) \<Longrightarrow> la_step s (la_task_callback k s)"

abbreviation la_reachable :: "local_admission \<Rightarrow> bool" where
  "la_reachable \<equiv> reachable (\<lambda>s. \<exists>capacity. la_new capacity = Inr s) la_step"

section \<open>The invariant\<close>

definition owned :: "local_admission \<Rightarrow> nat" where
  "owned s = length (filter id (la_leases s))"

text \<open>
  \<open>d\<close> slots are on their way back, and the calls of \<open>X\<close> are giving their lease back.
\<close>

definition count_ok :: "int \<Rightarrow> local_admission \<Rightarrow> bool" where
  "count_ok d s \<longleftrightarrow> la_available s + int (owned s) + d = la_capacity s \<and> 0 \<le> la_available s"

definition queue_ok :: "local_admission \<Rightarrow> bool" where
  "queue_ok s \<longleftrightarrow> sorted_wrt (<) (la_waiters s) \<and> (\<forall>i \<in> set (la_waiters s). i < length (la_calls s)) \<and>
     (\<forall>i < length (la_calls s). la_future s i = Pending \<longrightarrow> i \<in> set (la_waiters s) \<and> ac_active (la_calls s ! i)) \<and>
     (0 < la_available s \<longrightarrow> (\<forall>i \<in> set (la_waiters s). la_future s i \<noteq> Pending))"

definition grants_ok :: "nat set \<Rightarrow> local_admission \<Rightarrow> bool" where
  "grants_ok X s \<longleftrightarrow>
     (\<forall>i l. i < length (la_calls s) \<longrightarrow> la_future s i = Result l \<longrightarrow> l < length (la_leases s) \<and>
        (ac_active (la_calls s ! i) \<and> i \<notin> X \<longrightarrow> la_leases s ! l \<and> \<not> lease_private s l)) \<and>
     (\<forall>i j l. i < length (la_calls s) \<longrightarrow> j < length (la_calls s) \<longrightarrow> la_future s i = Result l \<longrightarrow> la_future s j = Result l \<longrightarrow> i = j)"

definition tasks_ok :: "local_admission \<Rightarrow> bool" where
  "tasks_ok s \<longleftrightarrow>
     (\<forall>k < length (la_tasks s). dt_lease (la_tasks s ! k) < length (la_leases s) \<and>
        (\<not> dt_done (la_tasks s ! k) \<longrightarrow> la_leases s ! dt_lease (la_tasks s ! k) \<and> k \<in> set (la_owners s))) \<and>
     (\<forall>k j. k < length (la_tasks s) \<longrightarrow> j < length (la_tasks s) \<longrightarrow> dt_lease (la_tasks s ! k) = dt_lease (la_tasks s ! j) \<longrightarrow> k = j)"

definition la_ok :: "int \<Rightarrow> nat set \<Rightarrow> local_admission \<Rightarrow> bool" where
  "la_ok d X s \<longleftrightarrow> count_ok d s \<and> queue_ok s \<and> grants_ok X s \<and> tasks_ok s"

lemma la_okD:
  assumes "la_ok d X s"
  shows "count_ok d s" and "queue_ok s" and "grants_ok X s" and "tasks_ok s"
  using assms by (simp_all add: la_ok_def)

lemma lease_private_iff: "lease_private s l \<longleftrightarrow> (\<exists>k < length (la_tasks s). dt_lease (la_tasks s ! k) = l)"
  by (simp add: lease_private_def list_ex_length)

definition pending_waiters :: "local_admission \<Rightarrow> nat list" where
  "pending_waiters s = filter (\<lambda>i. la_future s i = Pending) (la_waiters s)"

lemma discard_eq: "discard_finished_waiters s = s\<lparr>la_waiters := pending_waiters s\<rparr>"
  by (simp add: discard_finished_waiters_def pending_waiters_def future_done_def)

lemma discard_ok: "la_ok d X s \<Longrightarrow> la_ok d X (discard_finished_waiters s)"
  by (auto simp: la_ok_def discard_eq count_ok_def queue_ok_def grants_ok_def tasks_ok_def owned_def lease_private_def
      pending_waiters_def sorted_wrt_filter)

lemma la_release_eq:
  "la_release s =
    (case pending_waiters s of
       [] \<Rightarrow> if la_available s \<ge> la_capacity s then None
             else Some (s\<lparr>la_waiters := [], la_available := la_available s + 1\<rparr>)
     | i # rest \<Rightarrow> Some (set_future i (Result (length (la_leases s)))
         (s\<lparr>la_waiters := rest, la_leases := la_leases s @ [True]\<rparr>)))"
proof (cases "pending_waiters s")
  case Nil
  then show ?thesis by (simp add: la_release_def discard_eq)
next
  case (Cons i rest)
  then have "i \<in> set (pending_waiters s)" by simp
  then have "la_future s i = Pending" by (simp add: pending_waiters_def)
  then show ?thesis using Cons by (simp add: la_release_def discard_eq future_done_def new_lease_def Let_def)
qed

lemma la_release_ok:
  assumes ok: "la_ok 1 X s" and X: "\<And>i. i \<in> X \<Longrightarrow> la_future s i \<noteq> Pending"
  obtains t where "la_release s = Some t" and "la_ok 0 X t"
proof (cases "pending_waiters s")
  case Nil
  note k = la_okD [OF ok]
  let ?t = "s\<lparr>la_waiters := [], la_available := la_available s + 1\<rparr>"
  have none: "la_future s i \<noteq> Pending" if "i < length (la_calls s)" for i
    using that Nil k(2) by (auto simp: queue_ok_def pending_waiters_def filter_empty_conv)
  have "la_available s < la_capacity s" using k(1) by (simp add: count_ok_def)
  then have "la_release s = Some ?t" using Nil by (simp add: la_release_eq)
  moreover have "la_ok 0 X ?t"
    using k none by (simp add: la_ok_def count_ok_def queue_ok_def grants_ok_def tasks_ok_def owned_def lease_private_def)
  ultimately show ?thesis using that by blast
next
  case (Cons i rest)
  note k = la_okD [OF ok]
  let ?l = "length (la_leases s)"
  let ?t = "set_future i (Result ?l) (s\<lparr>la_waiters := rest, la_leases := la_leases s @ [True]\<rparr>)"
  have srt: "sorted_wrt (<) (i # rest)"
    using k(2) sorted_wrt_filter [of "(<)" "la_waiters s" "\<lambda>i. la_future s i = Pending"] Cons
    by (simp add: queue_ok_def pending_waiters_def)
  have mem: "j \<in> set (i # rest) \<longleftrightarrow> j \<in> set (la_waiters s) \<and> la_future s j = Pending" for j
    unfolding Cons [symmetric] by (auto simp: pending_waiters_def)
  have i: "i < length (la_calls s)" "la_future s i = Pending" "ac_active (la_calls s ! i)" "i \<notin> X"
    using mem [of i] k(2) X by (auto simp: queue_ok_def)
  have ni: "i \<notin> set rest" using srt by auto
  have av: "la_available s = 0" using mem [of i] k(1,2) by (force simp: queue_ok_def count_ok_def)
  have fut: "la_future ?t j = (if j = i then Result ?l else la_future s j)" if "j < length (la_calls s)" for j
    using that i by (simp add: set_future_def nth_list_update_if)
  have act: "ac_active (la_calls ?t ! j) = ac_active (la_calls s ! j)" if "j < length (la_calls s)" for j
    using that i by (simp add: set_future_def nth_list_update_if)
  have flds: "length (la_calls ?t) = length (la_calls s)" "la_leases ?t = la_leases s @ [True]" "la_waiters ?t = rest"
    "la_available ?t = la_available s" "la_capacity ?t = la_capacity s" "la_tasks ?t = la_tasks s" "la_owners ?t = la_owners s"
    by (simp_all add: set_future_def)
  have "count_ok 0 ?t" using k(1) by (simp add: count_ok_def owned_def flds)
  moreover have "queue_ok ?t"
    unfolding queue_ok_def flds
  proof (intro conjI ballI allI impI)
    show "sorted_wrt (<) rest" using srt by simp
    show "j < length (la_calls s)" if "j \<in> set rest" for j using that mem [of j] k(2) by (auto simp: queue_ok_def)
    show "j \<in> set rest" "ac_active (la_calls ?t ! j)" if "j < length (la_calls s)" "la_future ?t j = Pending" for j
      using that mem [of j] k(2) fut [of j] act [of j] by (auto simp: queue_ok_def split: if_splits)
    show "la_future ?t j \<noteq> Pending" if "0 < la_available s" for j using that av by simp
  qed
  moreover have "grants_ok X ?t"
    unfolding grants_ok_def flds
  proof (intro conjI allI impI)
    fix j l assume j: "j < length (la_calls s)" "la_future ?t j = Result l"
    have old: "la_future s j = Result l \<Longrightarrow> l < ?l" using k(3) j(1) by (auto simp: grants_ok_def)
    show "l < length (la_leases s @ [True])" using j old fut [OF j(1)] by (auto split: if_splits)
    assume a: "ac_active (la_calls ?t ! j) \<and> j \<notin> X"
    show "(la_leases s @ [True]) ! l" using j old a fut [OF j(1)] act [OF j(1)] k(3)
      by (auto simp: grants_ok_def nth_append split: if_splits)
    have "\<not> lease_private s l"
    proof (cases "j = i")
      case True
      then show ?thesis using j fut [OF j(1)] k(4) by (auto simp: lease_private_iff tasks_ok_def)
    next
      case False
      then show ?thesis using j a fut [OF j(1)] act [OF j(1)] k(3) by (auto simp: grants_ok_def)
    qed
    then show "\<not> lease_private ?t l" by (simp add: lease_private_def flds)
  next
    fix j j' l assume j: "j < length (la_calls s)" "j' < length (la_calls s)" "la_future ?t j = Result l" "la_future ?t j' = Result l"
    have old: "\<And>j. j < length (la_calls s) \<Longrightarrow> la_future s j = Result l \<Longrightarrow> l < ?l" using k(3) by (auto simp: grants_ok_def)
    show "j = j'" using j old [of j] old [of j'] fut [OF j(1)] fut [OF j(2)] k(3)
      by (auto simp: grants_ok_def split: if_splits)
  qed
  moreover have "tasks_ok ?t" using k(4) by (auto simp: tasks_ok_def flds nth_append)
  ultimately have "la_ok 0 X ?t" by (simp add: la_ok_def)
  then show ?thesis using that Cons by (simp add: la_release_eq)
qed

lemma clear_lease:
  assumes ok: "la_ok 0 X s" and l: "l < length (la_leases s)" "la_leases s ! l"
    and task: "\<And>k. k < length (la_tasks s) \<Longrightarrow> \<not> dt_done (la_tasks s ! k) \<Longrightarrow> dt_lease (la_tasks s ! k) \<noteq> l"
    and call: "\<And>i. i < length (la_calls s) \<Longrightarrow> ac_active (la_calls s ! i) \<Longrightarrow> la_future s i = Result l \<Longrightarrow> i \<in> X"
  shows "la_ok 1 X (s\<lparr>la_leases := (la_leases s)[l := False]\<rparr>)"
proof -
  note k = la_okD [OF ok]
  have "owned (s\<lparr>la_leases := (la_leases s)[l := False]\<rparr>) + 1 = owned s"
    using length_filter_update [OF l(1), of id False] l(2) by (simp add: owned_def)
  then have "count_ok 1 (s\<lparr>la_leases := (la_leases s)[l := False]\<rparr>)"
    using k(1) by (simp add: count_ok_def flip: of_nat_Suc)
  moreover have "grants_ok X (s\<lparr>la_leases := (la_leases s)[l := False]\<rparr>)"
    using k(3) call by (simp add: grants_ok_def lease_private_def nth_list_update_if)
  moreover have "tasks_ok (s\<lparr>la_leases := (la_leases s)[l := False]\<rparr>)"
    using k(4) task by (simp add: tasks_ok_def nth_list_update_if) metis
  ultimately show ?thesis using k(2) by (simp add: la_ok_def queue_ok_def)
qed

lemma lease_release_ok:
  assumes ok: "la_ok 0 X s" and l: "l < length (la_leases s)"
    and task: "\<And>k. k < length (la_tasks s) \<Longrightarrow> \<not> dt_done (la_tasks s ! k) \<Longrightarrow> dt_lease (la_tasks s ! k) \<noteq> l"
    and call: "\<And>i. i < length (la_calls s) \<Longrightarrow> ac_active (la_calls s ! i) \<Longrightarrow> la_future s i = Result l \<Longrightarrow> i \<in> X"
    and X: "\<And>i. i \<in> X \<Longrightarrow> la_future s i \<noteq> Pending"
  obtains t where "lease_release l s = Some t" and "la_ok 0 X t"
proof (cases "la_leases s ! l")
  case False
  then show ?thesis using that ok by (simp add: lease_release_def)
next
  case True
  have "la_ok 1 X (s\<lparr>la_leases := (la_leases s)[l := False]\<rparr>)" by (rule clear_lease [OF ok l True task call])
  then show ?thesis using la_release_ok [of X "s\<lparr>la_leases := (la_leases s)[l := False]\<rparr>"] X that True
    by (simp add: lease_release_def) blast
qed

lemma usable_lease:
  assumes "lease_usable s l"
  shows "l < length (la_leases s)" and "k < length (la_tasks s) \<Longrightarrow> dt_lease (la_tasks s ! k) \<noteq> l"
    and "i < length (la_calls s) \<Longrightarrow> ac_active (la_calls s ! i) \<Longrightarrow> la_future s i \<noteq> Result l"
  using assms by (auto simp: lease_usable_def lease_private_iff list_ex_length)

lemma new_lease_ok:
  assumes "la_ok 1 X s"
  shows "la_ok 0 X (snd (new_lease s))"
proof -
  note k = la_okD [OF assms]
  have "count_ok 0 (snd (new_lease s))" using k(1) by (simp add: count_ok_def new_lease_def owned_def)
  moreover have "queue_ok (snd (new_lease s))" using k(2) by (simp add: queue_ok_def new_lease_def)
  moreover have "grants_ok X (snd (new_lease s))"
    using k(3) by (auto simp: grants_ok_def new_lease_def lease_private_def nth_append)
  moreover have "tasks_ok (snd (new_lease s))" using k(4) by (auto simp: tasks_ok_def new_lease_def nth_append)
  ultimately show ?thesis by (simp add: la_ok_def)
qed

lemma la_try_acquire_ok:
  assumes "la_ok 0 {} s"
  shows "la_ok 0 {} (snd (la_try_acquire s))"
proof -
  let ?s = "discard_finished_waiters s"
  note ok = discard_ok [OF assms]
  show ?thesis
  proof (cases "la_available ?s = 0 \<or> la_waiters ?s \<noteq> []")
    case True
    then show ?thesis using ok by (simp add: la_try_acquire_def Let_def)
  next
    case False
    then have "la_ok 1 {} (?s\<lparr>la_available := la_available ?s - 1\<rparr>)"
      using ok by (auto simp: la_ok_def count_ok_def queue_ok_def grants_ok_def tasks_ok_def owned_def lease_private_def)
    then show ?thesis
      using new_lease_ok [of "{}" "?s\<lparr>la_available := la_available ?s - 1\<rparr>"] False
      by (simp add: la_try_acquire_def Let_def split_def)
  qed
qed

lemma la_try_acquire_none:
  assumes "la_try_acquire s = (None, s1)"
  shows "s1 = discard_finished_waiters s" and "la_available s1 = 0 \<or> la_waiters s1 \<noteq> []"
  using assms by (auto simp: la_try_acquire_def Let_def split_def split: if_splits)

lemma la_acquire_ok:
  assumes "la_ok 0 {} s"
  shows "la_ok 0 {} (snd (la_acquire timeout s))"
proof (cases "case timeout of None \<Rightarrow> False | Some t \<Rightarrow> t < 0")
  case True
  then show ?thesis using assms by (simp add: la_acquire_def)
next
  case False
  obtain r s1 where r: "la_try_acquire s = (r, s1)" by fastforce
  have ok: "la_ok 0 {} s1" using la_try_acquire_ok [OF assms] by (simp add: r)
  show ?thesis
  proof (cases r)
    case (Some l)
    then show ?thesis using False r ok by (simp add: la_acquire_def)
  next
    case None
    note none = la_try_acquire_none [OF r [unfolded None]]
    note k = la_okD [OF ok]
    have pend: "la_future s1 i = Pending" if "i \<in> set (la_waiters s1)" for i
      using that by (simp add: none(1) discard_eq pending_waiters_def)
    then have av: "\<not> 0 < la_available s1"
      using none(2) k(2) by (metis hd_in_set less_irrefl queue_ok_def)
    let ?t = "s1\<lparr>la_calls := la_calls s1 @ [\<lparr>ac_future = Pending, ac_active = True\<rparr>],
                   la_waiters := la_waiters s1 @ [length (la_calls s1)]\<rparr>"
    have "queue_ok ?t"
      using k(2) av by (auto simp: queue_ok_def sorted_wrt_append nth_append less_Suc_eq)
    moreover have "grants_ok {} ?t"
      using k(3) by (auto simp: grants_ok_def nth_append lease_private_def less_Suc_eq)
    ultimately have "la_ok 0 {} ?t"
      using k(1,4) by (simp add: la_ok_def count_ok_def tasks_ok_def owned_def)
    then show ?thesis using False r None by (simp add: la_acquire_def)
  qed
qed

lemma finish_call_ok:
  assumes ok: "la_ok d {i} s" and i: "i < length (la_calls s)" "la_future s i \<noteq> Pending"
  shows "la_ok d {} (finish_call i s)"
proof -
  note k = la_okD [OF ok]
  have fut: "la_future (finish_call i s) j = la_future s j" if "j < length (la_calls s)" for j
    using that by (simp add: finish_call_def nth_list_update_if)
  have act: "ac_active (la_calls (finish_call i s) ! j) = (ac_active (la_calls s ! j) \<and> j \<noteq> i)" if "j < length (la_calls s)" for j
    using that by (auto simp: finish_call_def nth_list_update_if)
  have flds: "length (la_calls (finish_call i s)) = length (la_calls s)" "la_waiters (finish_call i s) = remove1 i (la_waiters s)"
    "la_leases (finish_call i s) = la_leases s" "la_tasks (finish_call i s) = la_tasks s" "la_owners (finish_call i s) = la_owners s"
    "la_available (finish_call i s) = la_available s" "la_capacity (finish_call i s) = la_capacity s"
    by (simp_all add: finish_call_def)
  have srt: "sorted_wrt (<) (la_waiters s)" using k(2) by (simp add: queue_ok_def)
  have dist: "distinct (la_waiters s)" using srt by (metis strict_sorted_iff)
  have srt1: "sorted_wrt (<) (remove1 i (la_waiters s))"
    using srt dist by (metis distinct_remove1 sorted_remove1 strict_sorted_iff)
  have "queue_ok (finish_call i s)"
    unfolding queue_ok_def flds using k(2) i(2) srt1 fut act
    by (auto simp: queue_ok_def set_remove1_eq [OF dist])
  moreover have "grants_ok {} (finish_call i s)"
    using k(3) fut act by (simp add: grants_ok_def flds lease_private_def)
  ultimately show ?thesis
    using k(1,4) by (simp add: la_ok_def count_ok_def tasks_ok_def owned_def flds)
qed

lemma la_ok_mono: "la_ok d {} s \<Longrightarrow> la_ok d X s"
  by (simp add: la_ok_def grants_ok_def)

lemma cancel_future_ok:
  assumes ok: "la_ok d X s" and i: "i < length (la_calls s)" "la_future s i = Pending"
  shows "la_ok d X (set_future i Cancelled s)"
proof -
  note k = la_okD [OF ok]
  have fut: "la_future (set_future i Cancelled s) j = (if j = i then Cancelled else la_future s j)" if "j < length (la_calls s)" for j
    using that i(1) by (simp add: set_future_def nth_list_update_if)
  have act: "ac_active (la_calls (set_future i Cancelled s) ! j) = ac_active (la_calls s ! j)" if "j < length (la_calls s)" for j
    using that by (simp add: set_future_def nth_list_update_if)
  have flds: "length (la_calls (set_future i Cancelled s)) = length (la_calls s)" "la_waiters (set_future i Cancelled s) = la_waiters s"
    "la_leases (set_future i Cancelled s) = la_leases s" "la_tasks (set_future i Cancelled s) = la_tasks s"
    "la_owners (set_future i Cancelled s) = la_owners s"
    "la_available (set_future i Cancelled s) = la_available s" "la_capacity (set_future i Cancelled s) = la_capacity s"
    by (simp_all add: set_future_def)
  have "queue_ok (set_future i Cancelled s)"
    unfolding queue_ok_def flds using k(2) fut act by (auto simp: queue_ok_def)
  moreover have "grants_ok X (set_future i Cancelled s)"
    unfolding grants_ok_def flds lease_private_def using k(3) fut act by (auto simp: grants_ok_def lease_private_def)
  ultimately show ?thesis
    using k(1,4) by (simp add: la_ok_def count_ok_def tasks_ok_def owned_def flds)
qed

lemma la_resume_ok:
  assumes "la_ok 0 {} s" and "i < length (la_calls s)"
  shows "la_ok 0 {} (la_resume i s)"
  using assms finish_call_ok [OF la_ok_mono [OF assms(1)] assms(2)]
  by (auto simp: la_resume_def split: py_future.split)

lemma la_cancel_ok: "la_ok 0 {} s \<Longrightarrow> i < length (la_calls s) \<Longrightarrow> la_ok 0 {} (la_cancel i s)"
  using cancel_future_ok by (simp add: la_cancel_def)

lemma la_release_calls:
  assumes "la_release s = Some t"
  shows "length (la_calls t) = length (la_calls s)"
    and "j < length (la_calls s) \<Longrightarrow> la_future s j \<noteq> Pending \<Longrightarrow> la_future t j = la_future s j"
  using assms by (auto simp: la_release_eq set_future_def nth_list_update_if pending_waiters_def filter_eq_Cons_iff
      split: list.splits if_splits)

lemma la_abort_ok:
  assumes ok: "la_ok 0 {} s" and i: "i < length (la_calls s)"
  obtains t where "la_abort i s = Some t" and "la_ok 0 {} t"
proof (cases "ac_active (la_calls s ! i)")
  case False
  then show ?thesis using that ok by (simp add: la_abort_def)
next
  case True
  show ?thesis
  proof (cases "la_future s i")
    case Pending
    let ?t = "set_future i Cancelled s"
    have "la_ok 0 {} ?t" by (rule cancel_future_ok [OF ok i Pending])
    moreover have "i < length (la_calls ?t)" "la_future ?t i \<noteq> Pending" using i by (simp_all add: set_future_def)
    ultimately show ?thesis using that finish_call_ok [OF la_ok_mono] True Pending by (simp add: la_abort_def)
  next
    case (Result l)
    have g: "l < length (la_leases s)" "\<not> lease_private s l" "la_leases s ! l"
      using la_okD(3) [OF ok] i True Result by (auto simp: grants_ok_def)
    have call: "j \<in> {i}" if "j < length (la_calls s)" "la_future s j = Result l" for j
      using la_okD(3) [OF ok] i Result that by (auto simp: grants_ok_def)
    obtain t where t: "lease_release l s = Some t" "la_ok 0 {i} t"
    proof (rule lease_release_ok [OF la_ok_mono [OF ok] g(1)])
      show "dt_lease (la_tasks s ! k) \<noteq> l" if "k < length (la_tasks s)" for k using g(2) that by (auto simp: lease_private_iff)
      show "la_future s j \<noteq> Pending" if "j \<in> {i}" for j using that Result by simp
    qed (use call that in blast)+
    have "la_release (s\<lparr>la_leases := (la_leases s)[l := False]\<rparr>) = Some t" using t(1) g(3) by (simp add: lease_release_def)
    from la_release_calls(1) [OF this] la_release_calls(2) [OF this, of i] have "i < length (la_calls t)" "la_future t i \<noteq> Pending" using i Result by simp_all
    then have "la_ok 0 {} (finish_call i t)" by (rule finish_call_ok [OF t(2)])
    then show ?thesis using that t(1) True Result by (simp add: la_abort_def)
  next
    case (Raised e)
    then show ?thesis using that finish_call_ok [OF la_ok_mono [OF ok] i] True by (simp add: la_abort_def)
  next
    case Cancelled
    then show ?thesis using that finish_call_ok [OF la_ok_mono [OF ok] i] True by (simp add: la_abort_def)
  qed
qed

lemma lease_handoff_ok:
  assumes ok: "la_ok 0 {} s" and u: "lease_usable s l"
  shows "la_ok 0 {} (snd (lease_handoff l s))"
proof (cases "la_leases s ! l")
  case True
  have "la_ok 1 {} (s\<lparr>la_leases := (la_leases s)[l := False]\<rparr>)"
    by (rule clear_lease [OF ok usable_lease(1) [OF u] True]) (use usable_lease(2,3) [OF u] in auto)
  from new_lease_ok [OF this] show ?thesis using True by (simp add: lease_handoff_def split_def Let_def)
qed (use ok in \<open>simp add: lease_handoff_def\<close>)

lemma la_adopt_ok:
  assumes ok: "la_ok 0 {} s" and u: "lease_usable s l"
  obtains e t where "la_adopt l n s = Some (e, t)" and "la_ok 0 {} t"
proof (cases "n = 0")
  case True
  obtain t where "lease_release l s = Some t" "la_ok 0 {} t"
    by (rule lease_release_ok [OF ok usable_lease(1) [OF u]]) (use usable_lease(2,3) [OF u] in auto)
  then show ?thesis using that True by (simp add: la_adopt_def)
next
  case False
  note h = lease_handoff_ok [OF ok u]
  show ?thesis
  proof (cases "la_leases s ! l")
    case no: False
    then show ?thesis using that ok False by (simp add: la_adopt_def lease_handoff_def)
  next
    case True
    define s1 where "s1 = snd (lease_handoff l s)"
    let ?l = "length (la_leases s)"
    let ?t = "s1\<lparr>la_tasks := la_tasks s1 @ [\<lparr>dt_lease = ?l, dt_left = n, dt_done = False\<rparr>],
      la_owners := la_owners s1 @ [length (la_tasks s1)]\<rparr>"
    have s1: "la_leases s1 = (la_leases s)[l := False] @ [True]" "la_calls s1 = la_calls s" "la_tasks s1 = la_tasks s"
      using True by (simp_all add: s1_def lease_handoff_def new_lease_def)
    note k = la_okD [OF h [folded s1_def]] and k0 = la_okD [OF ok]
    have old: "l' < ?l" if "i < length (la_calls s)" "la_future s i = Result l'" for i l'
      using k0(3) that by (auto simp: grants_ok_def)
    have oldt: "dt_lease (la_tasks s ! j) < ?l" if "j < length (la_tasks s)" for j using k0(4) that by (auto simp: tasks_ok_def)
    have "grants_ok {} ?t"
      unfolding grants_ok_def
    proof (intro conjI allI impI)
      fix i l' assume i: "i < length (la_calls ?t)" "la_future ?t i = Result l'"
      then have i': "i < length (la_calls s1)" "la_future s1 i = Result l'" by simp_all
      have l': "l' < ?l" using old [of i l'] i' s1(2) by simp
      show "l' < length (la_leases ?t)" using l' s1(1) by simp
      assume "ac_active (la_calls ?t ! i) \<and> i \<notin> {}"
      then have "la_leases s1 ! l' \<and> \<not> lease_private s1 l'" using k(3) i' by (simp add: grants_ok_def)
      then show "la_leases ?t ! l'" "\<not> lease_private ?t l'" using l' by (simp_all add: lease_private_def)
    next
      show "i = j" if "i < length (la_calls ?t)" "j < length (la_calls ?t)" "la_future ?t i = Result l'" "la_future ?t j = Result l'" for i j l'
        using k(3) that by (auto simp: grants_ok_def)
    qed
    moreover have "tasks_ok ?t"
      unfolding tasks_ok_def using k(4) oldt
      by (simp add: tasks_ok_def nth_append less_Suc_eq s1) (metis less_irrefl)
    ultimately have "la_ok 0 {} ?t" using k(1,2) by (simp add: la_ok_def count_ok_def queue_ok_def owned_def)
    moreover have "la_adopt l n s = Some (None, ?t)"
      using False True by (simp add: la_adopt_def lease_handoff_def s1_def new_lease_def Let_def)
    ultimately show ?thesis using that by blast
  qed
qed

lemma la_tasks_update:
  assumes ok: "la_ok 0 {} s" and k: "k < length (la_tasks s)" and task: "dt_lease task = dt_lease (la_tasks s ! k)"
    and done_ok: "dt_done (la_tasks s ! k) \<longrightarrow> dt_done task"
  shows "la_ok 0 {} (s\<lparr>la_tasks := (la_tasks s)[k := task]\<rparr>)"
proof -
  note d = la_okD [OF ok]
  have lease: "dt_lease ((la_tasks s)[k := task] ! j) = dt_lease (la_tasks s ! j)" if "j < length (la_tasks s)" for j
    using that task by (auto simp: nth_list_update_if)
  have dn: "\<not> dt_done ((la_tasks s)[k := task] ! j) \<Longrightarrow> \<not> dt_done (la_tasks s ! j)" if "j < length (la_tasks s)" for j
    using that done_ok by (auto simp: nth_list_update_if split: if_splits)
  have "lease_private (s\<lparr>la_tasks := (la_tasks s)[k := task]\<rparr>) l = lease_private s l" for l
    using lease by (auto simp: lease_private_iff)
  then have "grants_ok {} (s\<lparr>la_tasks := (la_tasks s)[k := task]\<rparr>)" using d(3) by (simp add: grants_ok_def)
  moreover have "tasks_ok (s\<lparr>la_tasks := (la_tasks s)[k := task]\<rparr>)"
    using d(4) lease dn by (simp add: tasks_ok_def)
  ultimately show ?thesis using d(1,2) by (simp add: la_ok_def count_ok_def queue_ok_def owned_def)
qed

lemma la_finish_task_ok:
  assumes ok: "la_ok 0 {} s" and k: "k < length (la_tasks s)"
  obtains t where "la_finish_task k s = Some t" and "la_ok 0 {} t"
proof (cases "dt_done (la_tasks s ! k) \<or> 0 < dt_left (la_tasks s ! k)")
  case True
  then show ?thesis using that ok by (auto simp: la_finish_task_def)
next
  case False
  let ?s = "s\<lparr>la_tasks := (la_tasks s)[k := (la_tasks s ! k)\<lparr>dt_done := True\<rparr>]\<rparr>" and ?l = "dt_lease (la_tasks s ! k)"
  note d = la_okD [OF ok]
  have ok': "la_ok 0 {} ?s" by (rule la_tasks_update [OF ok k]) simp_all
  obtain t where "lease_release ?l ?s = Some t" "la_ok 0 {} t"
  proof (rule lease_release_ok [OF ok'])
    show "?l < length (la_leases ?s)" using d(4) k by (simp add: tasks_ok_def)
    show "dt_lease (la_tasks ?s ! j) \<noteq> ?l" if "j < length (la_tasks ?s)" "\<not> dt_done (la_tasks ?s ! j)" for j
      using that d(4) k by (auto simp: tasks_ok_def nth_list_update_if split: if_splits)
    show "i \<in> {}" if "i < length (la_calls ?s)" "ac_active (la_calls ?s ! i)" "la_future ?s i = Result ?l" for i
      using that d(3) k by (auto simp: grants_ok_def lease_private_iff)
  qed (use that in auto)
  then show ?thesis using that False by (simp add: la_finish_task_def Let_def)
qed

lemma owners_ok:
  assumes "la_ok 0 {} s" and "\<And>k. k \<in> set (la_owners s) \<Longrightarrow> k < length (la_tasks s) \<Longrightarrow> \<not> dt_done (la_tasks s ! k) \<Longrightarrow> P k"
  shows "la_ok 0 {} (s\<lparr>la_owners := filter P (la_owners s)\<rparr>)"
  using assms by (auto simp: la_ok_def count_ok_def queue_ok_def grants_ok_def tasks_ok_def owned_def lease_private_def)

lemma la_step_ok:
  assumes "la_step s t" and "la_ok 0 {} s"
  shows "la_ok 0 {} t"
  using assms
proof (cases rule: la_step.cases)
  case la_count
  then show ?thesis using discard_ok assms(2) by (simp add: la_waiting_count_def Let_def)
next
  case la_try
  then show ?thesis using la_try_acquire_ok assms(2) by simp
next
  case (la_acq timeout)
  then show ?thesis using la_acquire_ok assms(2) by simp
next
  case (la_res i)
  then show ?thesis using la_resume_ok assms(2) by simp
next
  case (la_can i)
  then show ?thesis using la_cancel_ok assms(2) by simp
next
  case (la_abo i)
  then show ?thesis using la_abort_ok [OF assms(2)] by (metis option.inject)
next
  case (la_rel l)
  show ?thesis
    by (rule lease_release_ok [OF assms(2) usable_lease(1) [OF la_rel(1)]]) (use usable_lease(2,3) [OF la_rel(1)] la_rel(2) in auto)
next
  case (la_hand l)
  then show ?thesis using lease_handoff_ok assms(2) by simp
next
  case (la_ado l n e)
  then show ?thesis using la_adopt_ok [OF assms(2) la_ado(1), of n] by (metis option.inject prod.inject)
next
  case (la_drn k)
  then show ?thesis using la_tasks_update [OF assms(2)] by (simp add: la_drained_def)
next
  case (la_fin k)
  then show ?thesis using la_finish_task_ok [OF assms(2)] by (metis option.inject)
next
  case la_pend
  then show ?thesis using owners_ok [OF assms(2)] by (simp add: la_pending_count_def purge_done_def Let_def)
next
  case (la_call k)
  then show ?thesis using owners_ok [OF assms(2), of "\<lambda>j. j \<noteq> k"] assms(2) by (auto simp: la_task_callback_def)
qed

lemma la_new_ok: "la_new capacity = Inr s \<Longrightarrow> la_ok 0 {} s"
  by (auto simp: la_new_def la_ok_def count_ok_def queue_ok_def grants_ok_def tasks_ok_def owned_def split: if_splits)

interpretation la: inductive_invariant "\<lambda>s. \<exists>capacity. la_new capacity = Inr s" la_step "la_ok 0 {}"
  by unfold_locales (auto intro: la_new_ok la_step_ok)

section \<open>The properties\<close>

text \<open>
  C24. Slots are neither lost nor invented, whatever the order of grants, cancellations, timeouts,
  hand-overs and drains. In every reachable state the number of slots in use is the number of
  leases that are owned, including those granted to a call that has not resumed yet, and is at
  most the capacity; nobody waits while a slot is free; and a task that took over a lease
  owns its slot and is retained by the registry until it is done.
\<close>

theorem local_transfer_slots:
  assumes "la_reachable s"
  shows "la_active_count s = int (length (filter id (la_leases s))) \<and> length (filter id (la_leases s)) \<le> nat (la_capacity s) \<and>
    (\<forall>i. i < length (la_calls s) \<and> la_future s i = Pending \<longrightarrow> la_available s = 0) \<and>
    (\<forall>k. k < length (la_tasks s) \<and> \<not> dt_done (la_tasks s ! k) \<longrightarrow>
       la_leases s ! dt_lease (la_tasks s ! k) \<and> k \<in> set (la_owners s))"
proof -
  note k = la_okD [OF la.inv_reachable [OF assms]]
  have "la_available s = 0" if "i < length (la_calls s)" "la_future s i = Pending" for i
    using that k(1,2) by (fastforce simp: queue_ok_def count_ok_def)
  then show ?thesis
    using k(1,4) by (auto simp: count_ok_def owned_def la_active_count_def tasks_ok_def)
qed

text \<open>
  A slot goes to whoever waited longest. In every reachable state, releasing a lease that its
  holder owns succeeds, so the \<open>RuntimeError\<close> for excess capacity is never raised; if calls
  are waiting, the slot is handed as a new, owned lease to the one that came first among those not
  cancelled, and no other call changes; otherwise it becomes free.
\<close>

theorem local_release_fifo:
  assumes "la_reachable s" and "lease_usable s l" and "la_leases s ! l"
  shows "\<exists>t. lease_release l s = Some t \<and>
    ((\<exists>i < length (la_calls s). la_future s i = Pending \<and> (\<forall>j < i. la_future s j \<noteq> Pending) \<and>
        la_future t i = Result (length (la_leases s)) \<and> la_leases t ! length (la_leases s) \<and> la_available t = la_available s \<and>
        (\<forall>j < length (la_calls s). j \<noteq> i \<longrightarrow> la_calls t ! j = la_calls s ! j)) \<or>
     (\<forall>i < length (la_calls s). la_future s i \<noteq> Pending) \<and> la_available t = la_available s + 1 \<and> la_calls t = la_calls s)"
proof -
  note k = la_okD [OF la.inv_reachable [OF assms(1)]]
  let ?s = "s\<lparr>la_leases := (la_leases s)[l := False]\<rparr>"
  have l: "l < length (la_leases s)" by (rule usable_lease(1) [OF assms(2)])
  have pw: "pending_waiters ?s = pending_waiters s" by (simp add: pending_waiters_def)
  have mem: "i \<in> set (pending_waiters s) \<longleftrightarrow> i < length (la_calls s) \<and> la_future s i = Pending" for i
    using k(2) by (auto simp: pending_waiters_def queue_ok_def)
  have rel: "lease_release l s = la_release ?s" using assms(3) by (simp add: lease_release_def)
  show ?thesis
  proof (cases "pending_waiters s")
    case Nil
    have "la_leases s ! l \<in> set (filter id (la_leases s))" using l assms(3) nth_mem [OF l] by simp
    then have "0 < owned s" unfolding owned_def by (rule length_pos_if_in_set)
    then have "la_available s < la_capacity s" using k(1) by (simp add: count_ok_def)
    then have "lease_release l s = Some (?s\<lparr>la_waiters := [], la_available := la_available s + 1\<rparr>)"
      using Nil pw by (simp add: rel la_release_eq)
    then show ?thesis using mem Nil by auto
  next
    case (Cons i rest)
    have "sorted_wrt (<) (pending_waiters s)"
      using k(2) by (simp add: queue_ok_def pending_waiters_def sorted_wrt_filter)
    then have below: "i < j" if "j \<in> set rest" for j using that Cons by simp
    have first: "la_future s j \<noteq> Pending" if "j < i" for j
    proof
      assume "la_future s j = Pending"
      then have "j \<in> set (pending_waiters s)" using mem [of j] mem [of i] Cons that by simp
      then show False using Cons that below [of j] by auto
    qed
    have i: "i < length (la_calls s)" "la_future s i = Pending" using mem [of i] Cons by auto
    define t where "t = set_future i (Result (length (la_leases s))) (?s\<lparr>la_waiters := rest, la_leases := (la_leases s)[l := False] @ [True]\<rparr>)"
    have "lease_release l s = Some t" using Cons pw by (simp add: rel la_release_eq t_def)
    moreover have "la_future t i = Result (length (la_leases s))" "la_leases t ! length (la_leases s)" "la_available t = la_available s"
      "\<forall>j < length (la_calls s). j \<noteq> i \<longrightarrow> la_calls t ! j = la_calls s ! j"
      using i by (simp_all add: t_def set_future_def nth_append nth_list_update_if)
    ultimately show ?thesis using i first by blast
  qed
qed

text \<open>One slot: the first caller holds it, two wait, the first of them is cancelled.\<close>

definition demo_local :: local_admission where
  "demo_local = la_cancel 0 (snd (la_acquire None (snd (la_acquire None (snd (la_acquire None (projr (la_new 1))))))))"

lemma demo_local_facts:
  "length (la_calls demo_local) = 2 \<and> length (la_leases demo_local) = 1 \<and> la_leases demo_local ! 0 \<and> lease_usable demo_local 0 \<and>
   la_available demo_local = 0 \<and> la_future demo_local 0 = Cancelled \<and> la_future demo_local 1 = Pending"
  by code_simp

lemma demo_local_reachable: "la_reachable demo_local"
proof -
  have "la_reachable (projr (la_new 1))" by (rule reach_start) (auto simp: la_new_def intro: exI [of _ 1])
  moreover have acq: "la_reachable (snd (la_acquire None s))" if "la_reachable s" for s
    using that la_acq by (rule reach_step)
  ultimately have "la_reachable (snd (la_acquire None (snd (la_acquire None (snd (la_acquire None (projr (la_new 1))))))))" (is "la_reachable ?s")
    by blast
  moreover have "0 < length (la_calls ?s)" by code_simp
  then have "la_step ?s (la_cancel 0 ?s)" by (rule la_can)
  ultimately show ?thesis unfolding demo_local_def by (rule reach_step)
qed

theorem local_transfer_slots_witness: "la_active_count demo_local = 1 \<and> la_available demo_local = 0"
  using local_transfer_slots [OF demo_local_reachable] demo_local_facts
  by (cases "la_leases demo_local") auto

theorem local_release_fifo_witness: "\<exists>t. lease_release 0 demo_local = Some t \<and> la_future t 1 = Result 1"
proof -
  note f = demo_local_facts
  have "i = 1" if "i < length (la_calls demo_local)" "la_future demo_local i = Pending" for i
    using that f by (cases i) auto
  moreover have "1 < length (la_calls demo_local)" "la_future demo_local 1 = Pending" "length (la_leases demo_local) = 1" using f by auto
  ultimately show ?thesis
    using local_release_fifo [OF demo_local_reachable, of 0] f by metis
qed

end
