(* ===== verification/Provider_Policy.thy ===== *)
theory Provider_Policy
  imports Octo_Prelude
begin

text \<open>
  \<open>provider/policy.py\<close> and \<open>compatible_history\<close> of \<open>provider/models.py\<close>: which history a provider gets,
  when a failed request is repeated, and which events of a repeated stream are passed on.

  The messages, errors and events of the SDK are reduced to what the policy looks at; everything else of an
  object is an opaque number. The wrapped model is a parameter: \<open>model k messages\<close> is the outcome of its
  \<open>k\<close>-th call, so it may answer differently each time. Delays are in milliseconds.
\<close>

section \<open>Messages\<close>

datatype content_item = ImageUrl nat | BinaryContent bool nat | OtherItem nat

datatype part_content = ContentList "content_item list" | ContentValue nat

datatype request_part = UserPromptPart part_content | ToolReturnPart part_content | OtherRequestPart nat

datatype response_part = ThinkingPart nat | OtherResponsePart nat

record model_response =
  mr_provider_url :: "ustr option"
  mr_model_name :: "ustr option"
  mr_provider_name :: "ustr option"
  mr_parts :: "response_part list"

datatype model_message = ModelRequest "request_part list" | ModelResponse model_response

fun is_image_item :: "content_item \<Rightarrow> bool" where
  "is_image_item (ImageUrl _) = True"
| "is_image_item (BinaryContent img _) = img"
| "is_image_item (OtherItem _) = False"

fun strip_content :: "part_content \<Rightarrow> part_content" where
  "strip_content (ContentList items) = ContentList (filter (\<lambda>x. \<not> is_image_item x) items)"
| "strip_content (ContentValue v) = ContentValue v"

fun strip_part :: "request_part \<Rightarrow> request_part" where
  "strip_part (UserPromptPart c) = UserPromptPart (strip_content c)"
| "strip_part (ToolReturnPart c) = ToolReturnPart (strip_content c)"
| "strip_part (OtherRequestPart v) = OtherRequestPart v"

fun strip_message :: "model_message \<Rightarrow> model_message" where
  "strip_message (ModelRequest parts) = ModelRequest (map strip_part parts)"
| "strip_message (ModelResponse r) = ModelResponse r"

definition without_images :: "model_message list \<Rightarrow> model_message list" where
  "without_images messages = map strip_message messages"

fun content_has_images :: "part_content \<Rightarrow> bool" where
  "content_has_images (ContentList items) = list_ex is_image_item items"
| "content_has_images (ContentValue _) = False"

fun part_has_images :: "request_part \<Rightarrow> bool" where
  "part_has_images (UserPromptPart c) = content_has_images c"
| "part_has_images (ToolReturnPart c) = content_has_images c"
| "part_has_images (OtherRequestPart _) = False"

fun message_has_images :: "model_message \<Rightarrow> bool" where
  "message_has_images (ModelRequest parts) = list_ex part_has_images parts"
| "message_has_images (ModelResponse _) = False"

definition has_images :: "model_message list \<Rightarrow> bool" where
  "has_images messages = list_ex message_has_images messages"

text \<open>\<open>str.rstrip("/")\<close>, and \<open>compatible_history\<close>.\<close>

definition rstrip_slash :: "ustr \<Rightarrow> ustr" where
  "rstrip_slash t = rev (dropWhile (\<lambda>c. c = 47) (rev t))"

definition foreign_response :: "ustr \<Rightarrow> ustr \<Rightarrow> ustr \<Rightarrow> model_response \<Rightarrow> bool" where
  "foreign_response url name provider r \<longleftrightarrow>
     rstrip_slash (case mr_provider_url r of None \<Rightarrow> [] | Some u \<Rightarrow> u) \<noteq> rstrip_slash url \<or>
     mr_model_name r \<noteq> Some name \<or> mr_provider_name r \<noteq> Some provider"

fun is_thinking :: "response_part \<Rightarrow> bool" where
  "is_thinking (ThinkingPart _) = True"
| "is_thinking (OtherResponsePart _) = False"

fun compatible_history :: "ustr \<Rightarrow> ustr \<Rightarrow> ustr \<Rightarrow> model_message list \<Rightarrow> model_message list" where
  "compatible_history url name provider [] = []"
| "compatible_history url name provider (ModelRequest ps # rest) =
     ModelRequest ps # compatible_history url name provider rest"
| "compatible_history url name provider (ModelResponse r # rest) =
     (if foreign_response url name provider r
      then let parts = filter (\<lambda>p. \<not> is_thinking p) (mr_parts r)
           in (if parts \<noteq> [] then [ModelResponse (r\<lparr>mr_parts := parts\<rparr>)] else []) @ compatible_history url name provider rest
      else ModelResponse r # compatible_history url name provider rest)"

section \<open>Errors and retries\<close>

text \<open>
  A failure of the SDK: a \<open>ModelHTTPError\<close> with its status and its body as lower-case text, another
  \<open>ModelAPIError\<close>, or any other exception. \<open>se_connection\<close>: the cause of a \<open>ModelAPIError\<close> (which a
  \<open>ModelHTTPError\<close> is), or the exception itself, is a connection or transport error.
\<close>

datatype error_kind = ModelHTTPError int ustr | ModelAPIError | OtherException

record sdk_error =
  se_kind :: error_kind
  se_connection :: bool

definition substring :: "ustr \<Rightarrow> ustr \<Rightarrow> bool" where
  "substring w t = list_ex (\<lambda>k. take (length w) (drop k t) = w) [0..<Suc (length t)]"

definition image_words :: "ustr list" where
  "image_words = map (map of_char) [''image'', ''vision'', ''media'', ''payload'']"

fun image_rejection :: "sdk_error \<Rightarrow> bool" where
  "image_rejection e =
     (case se_kind e of
        ModelHTTPError status detail \<Rightarrow>
          status \<in> {400, 413, 415, 422} \<and> list_ex (\<lambda>w. substring w detail) image_words
      | _ \<Rightarrow> False)"

definition transient :: "sdk_error \<Rightarrow> bool" where
  "transient e \<longleftrightarrow>
     (case se_kind e of ModelHTTPError status _ \<Rightarrow> status \<in> {408, 429} \<or> 500 \<le> status | _ \<Rightarrow> False) \<or> se_connection e"

record attempts =
  at_messages :: "model_message list"
  at_stripped :: bool
  at_attempt :: nat
  at_slept :: nat

definition new_attempts :: "model_message list \<Rightarrow> attempts" where
  "new_attempts messages = \<lparr>at_messages = messages, at_stripped = False, at_attempt = 0, at_slept = 0\<rparr>"

text \<open>\<open>_Attempts.retry\<close>: \<open>None\<close> re-raises the error; \<open>at_slept\<close> adds up the delays.\<close>

definition retry :: "sdk_error \<Rightarrow> attempts \<Rightarrow> attempts option" where
  "retry e a =
     (if \<not> at_stripped a \<and> has_images (at_messages a) \<and> image_rejection e
      then Some (a\<lparr>at_messages := without_images (at_messages a), at_stripped := True, at_attempt := 0\<rparr>)
      else if at_attempt a < 2 \<and> transient e
      then Some (a\<lparr>at_slept := at_slept a + 250 * 2 ^ at_attempt a, at_attempt := at_attempt a + 1\<rparr>)
      else None)"

text \<open>How many more retries there can be.\<close>

definition retries_left :: "attempts \<Rightarrow> nat" where
  "retries_left a = (if at_stripped a then 0 else 3) + (2 - at_attempt a)"

lemma retry_less: "retry e a = Some b \<Longrightarrow> retries_left b < retries_left a"
  by (auto simp: retry_def retries_left_def split: if_splits)




section \<open>Streams\<close>

datatype model_event =
    PartStartText ustr nat
  | PartStartThinking ustr nat
  | TextDelta ustr nat
  | ThinkingDelta "ustr option" nat
  | OtherEvent nat

fun visible :: "model_event \<Rightarrow> bool" where
  "visible (PartStartText content _) = (content \<noteq> [])"
| "visible (PartStartThinking content _) = (content \<noteq> [])"
| "visible (TextDelta content _) = (content \<noteq> [])"
| "visible (ThinkingDelta content _) = (content \<noteq> None \<and> content \<noteq> Some [])"
| "visible (OtherEvent _) = False"

text \<open>
  One attempt: the events it delivers and how it ends. It completes; or it is broken by an error
  when it is opened or while its events are read; or all its events have been read and an error
  follows, from reading the attributes of the stream or from leaving its \<open>async with\<close>. The error is
  the one that leaves the \<open>async with\<close>, which does not swallow exceptions.
\<close>

datatype attempt_end = Attempt_Completed | Attempt_Broken sdk_error | Attempt_Close_Failed sdk_error

fun attempt_error :: "attempt_end \<Rightarrow> sdk_error option" where
  "attempt_error Attempt_Completed = None"
| "attempt_error (Attempt_Broken e) = Some e"
| "attempt_error (Attempt_Close_Failed e) = Some e"

type_synonym stream_attempt = "model_event list \<times> attempt_end"

record forwarding =
  fw_visible :: bool
  fw_buffered :: "model_event list"
  fw_yielded :: "model_event list"

definition forward_event :: "model_event \<Rightarrow> forwarding \<Rightarrow> forwarding" where
  "forward_event e f =
     (let shown = fw_visible f \<or> visible e
      in if shown then f\<lparr>fw_visible := True, fw_yielded := fw_yielded f @ fw_buffered f @ [e], fw_buffered := []\<rparr>
         else f\<lparr>fw_visible := False, fw_buffered := fw_buffered f @ [e]\<rparr>)"

record stream_run =
  sr_yielded :: "model_event list"
  sr_error :: "sdk_error option"
  sr_calls :: "attempts list"

text \<open>
  \<open>_get_event_iterator\<close>, read to its end. The buffered events are passed on when the stream is
  exhausted, inside the \<open>try\<close>: an error after that finds them already passed on.
\<close>

function stream_loop ::
  "(nat \<Rightarrow> model_message list \<Rightarrow> stream_attempt) \<Rightarrow> nat \<Rightarrow> bool \<Rightarrow> model_event list \<Rightarrow> attempts \<Rightarrow> stream_run" where
  "stream_loop model k shown yielded a =
     (case model k (at_messages a) of
        (events, outcome) \<Rightarrow>
          (let f = fold forward_event events \<lparr>fw_visible = shown, fw_buffered = [], fw_yielded = yielded\<rparr>;
               passed = (case outcome of Attempt_Broken _ \<Rightarrow> fw_yielded f | _ \<Rightarrow> fw_yielded f @ fw_buffered f)
           in case attempt_error outcome of
                None \<Rightarrow> \<lparr>sr_yielded = passed, sr_error = None, sr_calls = [a]\<rparr>
              | Some e \<Rightarrow>
                  if fw_visible f then \<lparr>sr_yielded = passed, sr_error = Some e, sr_calls = [a]\<rparr>
                  else (case retry e a of
                          None \<Rightarrow> \<lparr>sr_yielded = passed, sr_error = Some e, sr_calls = [a]\<rparr>
                        | Some b \<Rightarrow>
                            (let run = stream_loop model (Suc k) False passed b
                             in run\<lparr>sr_calls := a # sr_calls run\<rparr>))))"
  by pat_completeness auto

termination
  by (relation "measure (\<lambda>(model, k, shown, yielded, a). retries_left a)") (auto dest: retry_less)

declare stream_loop.simps [simp del]

definition policy_stream ::
  "(nat \<Rightarrow> model_message list \<Rightarrow> stream_attempt) \<Rightarrow> ustr \<Rightarrow> ustr \<Rightarrow> ustr \<Rightarrow> model_message list \<Rightarrow> stream_run" where
  "policy_stream model url name provider messages =
     stream_loop model 0 False [] (new_attempts (compatible_history url name provider messages))"

section \<open>What the provider receives\<close>
















section \<open>Retries\<close>

text \<open>What holds of every attempt of a request with history \<open>h\<close>.\<close>

definition attempt_ok :: "model_message list \<Rightarrow> attempts \<Rightarrow> bool" where
  "attempt_ok h a \<longleftrightarrow> at_messages a = (if at_stripped a then without_images h else h) \<and> at_attempt a \<le> 2 \<and>
     at_slept a + 250 \<le> (if at_stripped a then 750 else 0) + 250 * 2 ^ at_attempt a"

lemma new_attempts_ok: "attempt_ok h (new_attempts h)"
  by (simp add: attempt_ok_def new_attempts_def)

lemma pow_le_4: "n \<le> 2 \<Longrightarrow> (2::nat) ^ n \<le> 4"
  using power_increasing [of n 2 "2::nat"] by simp

lemma retry_ok: "attempt_ok h a \<Longrightarrow> retry e a = Some b \<Longrightarrow> attempt_ok h b"
  using pow_le_4 [of "at_attempt a"] by (auto simp: attempt_ok_def retry_def split: if_splits)




section \<open>Streams\<close>

lemma forward_shown:
  "fold forward_event es \<lparr>fw_visible = True, fw_buffered = [], fw_yielded = ys\<rparr> =
   \<lparr>fw_visible = True, fw_buffered = [], fw_yielded = ys @ es\<rparr>"
  by (induction es arbitrary: ys) (simp_all add: forward_event_def)

lemma forward_hidden:
  "fold forward_event es \<lparr>fw_visible = False, fw_buffered = bs, fw_yielded = ys\<rparr> =
   (if list_ex visible es then \<lparr>fw_visible = True, fw_buffered = [], fw_yielded = ys @ bs @ es\<rparr>
    else \<lparr>fw_visible = False, fw_buffered = bs @ es, fw_yielded = ys\<rparr>)"
proof (induction es arbitrary: bs)
  case Nil
  then show ?case by simp
next
  case (Cons e es)
  show ?case
  proof (cases "visible e")
    case True
    then have "forward_event e \<lparr>fw_visible = False, fw_buffered = bs, fw_yielded = ys\<rparr> =
        \<lparr>fw_visible = True, fw_buffered = [], fw_yielded = ys @ bs @ [e]\<rparr>" by (simp add: forward_event_def)
    then show ?thesis using True forward_shown [of es "ys @ bs @ [e]"] by simp
  next
    case False
    then have "forward_event e \<lparr>fw_visible = False, fw_buffered = bs, fw_yielded = ys\<rparr> =
        \<lparr>fw_visible = False, fw_buffered = bs @ [e], fw_yielded = ys\<rparr>" by (simp add: forward_event_def)
    then show ?thesis using False Cons [of "bs @ [e]"] by simp
  qed
qed

text \<open>
  What an attempt passes on, what an attempt that is repeated leaves behind, and when an attempt
  has failed without text or reasoning.
\<close>

fun passed_on :: "stream_attempt \<Rightarrow> model_event list" where
  "passed_on (events, Attempt_Broken _) = (if list_ex visible events then events else [])"
| "passed_on (events, Attempt_Completed) = events"
| "passed_on (events, Attempt_Close_Failed _) = events"

fun left_behind :: "stream_attempt \<Rightarrow> model_event list" where
  "left_behind (events, Attempt_Close_Failed _) = events"
| "left_behind (events, Attempt_Broken _) = []"
| "left_behind (events, Attempt_Completed) = []"

definition silent_failure :: "stream_attempt \<Rightarrow> bool" where
  "silent_failure attempt \<longleftrightarrow> attempt_error (snd attempt) \<noteq> None \<and> \<not> list_ex visible (fst attempt)"

lemma silent_left_behind: "silent_failure attempt \<Longrightarrow> passed_on attempt = left_behind attempt"
  by (cases attempt rule: passed_on.cases) (simp_all add: silent_failure_def)

lemma left_behind_hidden: "silent_failure attempt \<Longrightarrow> filter visible (left_behind attempt) = []"
  by (cases attempt rule: passed_on.cases) (auto simp: silent_failure_def list_ex_iff filter_empty_conv)

lemma passed_on_visible: "filter visible (passed_on attempt) = filter visible (fst attempt)"
  by (cases attempt rule: passed_on.cases) (auto simp: list_ex_iff filter_empty_conv)

lemma forward_passed:
  "(case outcome of
      Attempt_Broken _ \<Rightarrow> fw_yielded (fold forward_event es \<lparr>fw_visible = False, fw_buffered = [], fw_yielded = ys\<rparr>)
    | _ \<Rightarrow> fw_yielded (fold forward_event es \<lparr>fw_visible = False, fw_buffered = [], fw_yielded = ys\<rparr>) @
           fw_buffered (fold forward_event es \<lparr>fw_visible = False, fw_buffered = [], fw_yielded = ys\<rparr>)) =
   ys @ passed_on (es, outcome)"
  "fw_visible (fold forward_event es \<lparr>fw_visible = False, fw_buffered = [], fw_yielded = ys\<rparr>) = list_ex visible es"
  by (cases outcome; simp add: forward_hidden)+

lemma stream_loop_hidden:
  "stream_loop model k False ys a =
     (case model k (at_messages a) of
        (events, outcome) \<Rightarrow>
          (case attempt_error outcome of
             None \<Rightarrow> \<lparr>sr_yielded = ys @ passed_on (events, outcome), sr_error = None, sr_calls = [a]\<rparr>
           | Some e \<Rightarrow>
               if list_ex visible events
               then \<lparr>sr_yielded = ys @ passed_on (events, outcome), sr_error = Some e, sr_calls = [a]\<rparr>
               else (case retry e a of
                       None \<Rightarrow> \<lparr>sr_yielded = ys @ passed_on (events, outcome), sr_error = Some e, sr_calls = [a]\<rparr>
                     | Some b \<Rightarrow>
                         (let run = stream_loop model (Suc k) False (ys @ passed_on (events, outcome)) b
                          in run\<lparr>sr_calls := a # sr_calls run\<rparr>))))"
  by (subst stream_loop.simps, cases "model k (at_messages a)") (simp only: prod.case Let_def forward_passed)

text \<open>The attempts of a run: the \<open>j\<close>-th call of the model with the messages of the \<open>j\<close>-th entry.\<close>

definition run_attempt ::
  "(nat \<Rightarrow> model_message list \<Rightarrow> stream_attempt) \<Rightarrow> nat \<Rightarrow> attempts list \<Rightarrow> nat \<Rightarrow> stream_attempt" where
  "run_attempt model k calls j = model (k + j) (at_messages (calls ! j))"

lemma run_attempt_Cons:
  "run_attempt model k (a # calls) 0 = model k (at_messages a)"
  "run_attempt model k (a # calls) (Suc j) = run_attempt model (Suc k) calls j"
  by (simp_all add: run_attempt_def)

definition run_ok :: "(nat \<Rightarrow> model_message list \<Rightarrow> stream_attempt) \<Rightarrow> nat \<Rightarrow> model_event list \<Rightarrow> stream_run \<Rightarrow> bool" where
  "run_ok model k ys run \<longleftrightarrow>
     (let n = length (sr_calls run) - 1; attempt = run_attempt model k (sr_calls run)
      in sr_calls run \<noteq> [] \<and> list_all (\<lambda>j. silent_failure (attempt j)) [0..<n] \<and>
         sr_error run = attempt_error (snd (attempt n)) \<and>
         sr_yielded run = ys @ concat (map (\<lambda>j. left_behind (attempt j)) [0..<n]) @ passed_on (attempt n))"

lemma run_ok_single:
  "run_ok model k ys \<lparr>sr_yielded = ys @ passed_on (model k (at_messages a)),
     sr_error = attempt_error (snd (model k (at_messages a))), sr_calls = [a]\<rparr>"
  by (simp add: run_ok_def run_attempt_def)

lemma run_ok_Cons:
  assumes "run_ok model (Suc k) (ys @ passed_on (model k (at_messages a))) run"
    and "silent_failure (model k (at_messages a))"
  shows "run_ok model k ys (run\<lparr>sr_calls := a # sr_calls run\<rparr>)"
proof -
  obtain b calls where calls: "sr_calls run = b # calls"
    using assms(1) by (cases "sr_calls run") (auto simp: run_ok_def Let_def)
  have upt: "[0..<Suc (length calls)] = 0 # map Suc [0..<length calls]" by (simp add: map_Suc_upt upt_conv_Cons del: upt_Suc)
  show ?thesis
    using assms silent_left_behind [OF assms(2)]
    by (simp add: run_ok_def Let_def calls run_attempt_Cons upt list.pred_map comp_def del: upt_Suc)
qed

lemma stream_loop_facts:
  assumes "attempt_ok h a"
  shows "length (sr_calls (stream_loop model k False ys a)) \<le> retries_left a + 1 \<and>
    list_all (attempt_ok h) (sr_calls (stream_loop model k False ys a)) \<and>
    run_ok model k ys (stream_loop model k False ys a)"
  using assms
proof (induction "retries_left a" arbitrary: a k ys rule: less_induct)
  case less
  obtain events outcome where model: "model k (at_messages a) = (events, outcome)" by fastforce
  note unfold = stream_loop_hidden [of model k ys a] model
  show ?case
  proof (cases "\<exists>e b. attempt_error outcome = Some e \<and> \<not> list_ex visible events \<and> retry e a = Some b")
    case False
    then have "stream_loop model k False ys a =
        \<lparr>sr_yielded = ys @ passed_on (events, outcome), sr_error = attempt_error outcome, sr_calls = [a]\<rparr>"
      by (auto simp: unfold split: option.splits)
    then show ?thesis using less.prems run_ok_single [of model k ys a] model by simp
  next
    case True
    then obtain e b where out: "attempt_error outcome = Some e" "\<not> list_ex visible events" and b: "retry e a = Some b" by blast
    define rest where "rest = stream_loop model (Suc k) False (ys @ passed_on (events, outcome)) b"
    have run: "stream_loop model k False ys a = rest\<lparr>sr_calls := a # sr_calls rest\<rparr>"
      using out b by (simp add: unfold Let_def rest_def)
    note IH = less.hyps [OF retry_less [OF b] retry_ok [OF less.prems b], of "Suc k" "ys @ passed_on (events, outcome)", folded rest_def]
    have "silent_failure (model k (at_messages a))" using out by (simp add: silent_failure_def model)
    then have "run_ok model k ys (stream_loop model k False ys a)"
      unfolding run using IH by (intro run_ok_Cons) (simp_all add: model)
    then show ?thesis using IH retry_less [OF b] less.prems by (simp add: run)
  qed
qed

section \<open>The properties\<close>

text \<open>
  C25. The text and reasoning a stream shows come from exactly one attempt. Whatever the provider
  does, the visible events passed on are precisely the visible events of the last attempt, in
  order, and every earlier attempt failed without a visible event. Of the last attempt all events
  are passed on, except that nothing is if it broke before a visible event. An earlier attempt
  leaves nothing behind if it was broken before its end; but if its events were all read and it
  failed afterwards, when the stream was closed, its buffered events, none of them visible, were
  passed on and stay in front of those of the later attempts. The stream ends as its last attempt
  does, after at most six attempts.
\<close>

theorem stream_shows_one_attempt:
  "let run = policy_stream model url name provider messages;
       n = length (sr_calls run) - 1;
       attempt = (\<lambda>j. model j (at_messages (sr_calls run ! j)))
   in sr_calls run \<noteq> [] \<and> length (sr_calls run) \<le> 6 \<and>
      sr_error run = attempt_error (snd (attempt n)) \<and>
      filter visible (sr_yielded run) = filter visible (fst (attempt n)) \<and>
      list_all (\<lambda>j. attempt_error (snd (attempt j)) \<noteq> None \<and> \<not> list_ex visible (fst (attempt j))) [0..<n] \<and>
      sr_yielded run =
        concat (map (\<lambda>j. case attempt j of (events, Attempt_Close_Failed _) \<Rightarrow> events | _ \<Rightarrow> []) [0..<n]) @
        (case attempt n of
           (events, Attempt_Broken _) \<Rightarrow> if list_ex visible events then events else []
         | (events, _) \<Rightarrow> events)"
proof -
  let ?h = "compatible_history url name provider messages"
  define run where "run = policy_stream model url name provider messages"
  define n where "n = length (sr_calls run) - 1"
  define attempt where "attempt j = model j (at_messages (sr_calls run ! j))" for j
  have at: "run_attempt model 0 (sr_calls run) = attempt" by (simp add: run_attempt_def attempt_def fun_eq_iff)
  have left: "retries_left (new_attempts ?h) + 1 = 6" by (simp add: retries_left_def new_attempts_def)
  note facts = stream_loop_facts [OF new_attempts_ok [of ?h], of model 0 "[]", folded policy_stream_def, folded run_def, unfolded left]
  then have ok: "sr_calls run \<noteq> []" "list_all (\<lambda>j. silent_failure (attempt j)) [0..<n]"
    "sr_error run = attempt_error (snd (attempt n))"
    "sr_yielded run = concat (map (\<lambda>j. left_behind (attempt j)) [0..<n]) @ passed_on (attempt n)"
    by (simp_all add: run_ok_def at n_def Let_def)
  have "filter visible (concat (map (\<lambda>j. left_behind (attempt j)) [0..<n])) = []"
    using ok(2) left_behind_hidden by (simp add: filter_concat list_all_iff comp_def)
  then have vis: "filter visible (sr_yielded run) = filter visible (fst (attempt n))"
    by (simp add: ok(4) passed_on_visible)
  have lb: "left_behind x = (case x of (events, Attempt_Close_Failed _) \<Rightarrow> events | _ \<Rightarrow> [])" for x
    by (cases x rule: left_behind.cases) simp_all
  have po: "passed_on x = (case x of
      (events, Attempt_Broken _) \<Rightarrow> if list_ex visible events then events else [] | (events, _) \<Rightarrow> events)" for x
    by (cases x rule: passed_on.cases) simp_all
  show ?thesis
    unfolding Let_def run_def [symmetric] n_def [symmetric] attempt_def [symmetric]
    using facts ok(1,3) vis ok(2) [unfolded silent_failure_def] ok(4) [unfolded lb po]
    by (intro conjI) simp_all
qed

text \<open>
  The events left behind are real: an attempt that delivers a tool call and whose connection fails
  when it is closed is repeated, and the consumer gets the tool calls of both attempts.
\<close>

lemma close_failure_repeats_tool_call:
  "let failed = \<lparr>se_kind = OtherException, se_connection = True\<rparr>;
       model = (\<lambda>k _. if k = 0 then ([OtherEvent 1], Attempt_Close_Failed failed) else ([OtherEvent 2], Attempt_Completed))
   in sr_yielded (policy_stream model url name provider []) = [OtherEvent 1, OtherEvent 2] \<and>
      sr_error (policy_stream model url name provider []) = None"
  by (simp add: policy_stream_def stream_loop_hidden new_attempts_def retry_def has_images_def transient_def)


end
