(* ===== verification/Serialized_Writer.thy ===== *)
theory Serialized_Writer
  imports Py_Strings
begin

text \<open>
  \<open>writer.py\<close> of the client: the one writer of a connection, with bounded queues for critical
  controls, normal controls and the binary chunks of each transfer, and the loop that sends them.

  The queues are changed by callers between two awaits of the loop, so each method is one step, and
  the loop is cut at its awaits: waiting for work, notifying the producers of chunks, sending. The two events and
  the flag are in the state. Payloads are text (code points) or bytes; sizes are as the code counts them.
\<close>

definition MAX_BINARY_CHUNK_BYTES :: nat where "MAX_BINARY_CHUNK_BYTES = 65536"
definition CRITICAL_MAX :: nat where "CRITICAL_MAX = 16"
definition NORMAL_MAX :: nat where "NORMAL_MAX = 64"
definition NORMAL_BYTES_MAX :: nat where "NORMAL_BYTES_MAX = 33554432"
definition BINARY_LANE_MAX :: nat where "BINARY_LANE_MAX = 4"
definition BINARY_LANE_BYTES_MAX :: nat where "BINARY_LANE_BYTES_MAX = BINARY_LANE_MAX * MAX_BINARY_CHUNK_BYTES"
definition BINARY_LANES_MAX :: nat where "BINARY_LANES_MAX = 2"

type_synonym bytes = "nat list"

datatype writer_error = WriterOverflowError | ProtocolError

datatype payload = TextPayload ustr | BinaryPayload bytes

text \<open>Where the loop is: at the wait for work, at the notification before a chunk is sent, at a send, or ended.\<close>

datatype writer_phase = WaitWork | Notifying payload | Sending payload | Ended

record serialized_writer =
  sw_critical :: "ustr list"
  sw_normal :: "ustr list"
  sw_normal_bytes :: int
  sw_binary :: "(uuid, bytes list) dict"
  sw_binary_bytes :: "(uuid, int) dict"
  sw_round_robin :: "uuid list"
  sw_available :: bool
  sw_idle :: bool
  sw_stopping :: bool
  sw_phase :: writer_phase
  sw_normal_turn :: bool
  sw_sent :: "payload list"

definition sw_new :: serialized_writer where
  "sw_new = \<lparr>sw_critical = [], sw_normal = [], sw_normal_bytes = 0, sw_binary = [], sw_binary_bytes = [], sw_round_robin = [],
     sw_available = False, sw_idle = True, sw_stopping = False, sw_phase = WaitWork, sw_normal_turn = True, sw_sent = []\<rparr>"

text \<open>\<open>encode_binary_chunk\<close> of \<open>protocol.py\<close>: a UUID is its 128-bit number.\<close>

definition uuid_bytes :: "uuid \<Rightarrow> bytes" where
  "uuid_bytes u = map (\<lambda>k. u div 256 ^ k mod 256) (rev [0..<16])"

definition uuid_version :: "uuid \<Rightarrow> nat" where
  "uuid_version u = u div 2 ^ 76 mod 16"

definition encode_binary_chunk :: "uuid \<Rightarrow> bytes \<Rightarrow> writer_error + bytes" where
  "encode_binary_chunk slot p =
     (if uuid_version slot \<noteq> 7 then Inl ProtocolError
      else if length p > MAX_BINARY_CHUNK_BYTES then Inl ProtocolError
      else Inr (uuid_bytes slot @ p))"

section \<open>The queues\<close>

definition set_idle_if_empty :: "serialized_writer \<Rightarrow> serialized_writer" where
  "set_idle_if_empty w =
     (if sw_critical w = [] \<and> sw_normal w = [] \<and> sw_round_robin w = [] then w\<lparr>sw_available := False, sw_idle := True\<rparr> else w)"

definition register_binary_lane :: "uuid \<Rightarrow> serialized_writer \<Rightarrow> writer_error + serialized_writer" where
  "register_binary_lane slot w =
     (if dict_get (sw_binary w) slot \<noteq> None then Inr w
      else if length (sw_binary w) \<ge> BINARY_LANES_MAX then Inl WriterOverflowError
      else Inr (w\<lparr>sw_binary := dict_set slot [] (sw_binary w), sw_binary_bytes := dict_set slot 0 (sw_binary_bytes w)\<rparr>))"

definition unregister_binary_lane :: "uuid \<Rightarrow> serialized_writer \<Rightarrow> writer_error + serialized_writer" where
  "unregister_binary_lane slot w =
     (case dict_get (sw_binary w) slot of
        None \<Rightarrow> Inr w
      | Some lane \<Rightarrow>
          if lane \<noteq> [] then Inl WriterOverflowError
          else Inr (set_idle_if_empty (w\<lparr>sw_binary := dict_del slot (sw_binary w),
                 sw_binary_bytes := dict_del slot (sw_binary_bytes w), sw_round_robin := remove1 slot (sw_round_robin w)\<rparr>)))"

definition discard_binary_lane :: "uuid \<Rightarrow> serialized_writer \<Rightarrow> serialized_writer" where
  "discard_binary_lane slot w =
     set_idle_if_empty (w\<lparr>sw_binary := dict_del slot (sw_binary w), sw_binary_bytes := dict_del slot (sw_binary_bytes w),
       sw_round_robin := filter (\<lambda>i. i \<noteq> slot) (sw_round_robin w)\<rparr>)"

definition binary_queued_chunks :: "serialized_writer \<Rightarrow> nat" where
  "binary_queued_chunks w = dict_sum length (sw_binary w)"

definition enqueue_critical :: "ustr \<Rightarrow> serialized_writer \<Rightarrow> writer_error + serialized_writer" where
  "enqueue_critical p w =
     (if sw_stopping w \<or> length (sw_critical w) \<ge> CRITICAL_MAX then Inl WriterOverflowError
      else Inr (w\<lparr>sw_critical := sw_critical w @ [p], sw_idle := False, sw_available := True\<rparr>))"

definition enqueue_normal :: "ustr \<Rightarrow> serialized_writer \<Rightarrow> writer_error + serialized_writer" where
  "enqueue_normal p w =
     (if sw_stopping w \<or> length (sw_normal w) \<ge> NORMAL_MAX \<or> sw_normal_bytes w + int (length (utf8_encode p)) > int NORMAL_BYTES_MAX
      then Inl WriterOverflowError
      else Inr (w\<lparr>sw_normal := sw_normal w @ [p], sw_normal_bytes := sw_normal_bytes w + int (length (utf8_encode p)),
                  sw_idle := False, sw_available := True\<rparr>))"

text \<open>The \<open>KeyError\<close> of a lane without its byte count does not occur; the model reads 0 there.\<close>

definition enqueue_binary :: "uuid \<Rightarrow> bytes \<Rightarrow> serialized_writer \<Rightarrow> writer_error + serialized_writer" where
  "enqueue_binary slot p w =
     (if length p > MAX_BINARY_CHUNK_BYTES then Inl WriterOverflowError
      else case dict_get (sw_binary w) slot of
             None \<Rightarrow> Inl WriterOverflowError
           | Some lane \<Rightarrow>
               (let queued_bytes = dict_get_default (sw_binary_bytes w) slot 0
                in if sw_stopping w then Inl WriterOverflowError
                   else if length lane \<ge> BINARY_LANE_MAX \<or> queued_bytes + int (length p) > int BINARY_LANE_BYTES_MAX
                   then Inl WriterOverflowError
                   else bind_result (encode_binary_chunk slot p) (\<lambda>frame.
                     Inr (w\<lparr>sw_binary := dict_set slot (lane @ [frame]) (sw_binary w),
                            sw_binary_bytes := dict_set slot (queued_bytes + int (length p)) (sw_binary_bytes w),
                            sw_round_robin := (if slot \<in> set (sw_round_robin w) then sw_round_robin w else sw_round_robin w @ [slot]),
                            sw_idle := False, sw_available := True\<rparr>))))"

text \<open>One turn of \<open>wait_enqueue_binary\<close>: \<open>None\<close> waits for the lane to change.\<close>

definition wait_enqueue_binary :: "uuid \<Rightarrow> bytes \<Rightarrow> serialized_writer \<Rightarrow> (writer_error + serialized_writer) option" where
  "wait_enqueue_binary slot p w =
     (if length p > MAX_BINARY_CHUNK_BYTES then Some (Inl WriterOverflowError)
      else case dict_get (sw_binary w) slot of
             None \<Rightarrow> Some (Inl WriterOverflowError)
           | Some lane \<Rightarrow>
               if sw_stopping w then Some (Inl WriterOverflowError)
               else if length lane < BINARY_LANE_MAX \<and>
                       dict_get_default (sw_binary_bytes w) slot 0 + int (length p) \<le> int BINARY_LANE_BYTES_MAX
               then Some (enqueue_binary slot p w) else None)"

section \<open>The loop\<close>

fun pop_binary_loop :: "uuid list \<Rightarrow> serialized_writer \<Rightarrow> bytes option \<times> serialized_writer" where
  "pop_binary_loop [] w = (None, w\<lparr>sw_round_robin := []\<rparr>)"
| "pop_binary_loop (slot # rest) w =
     (case dict_get (sw_binary w) slot of
        None \<Rightarrow> pop_binary_loop rest w
      | Some [] \<Rightarrow> pop_binary_loop rest w
      | Some (frame # lane) \<Rightarrow>
          (Some frame,
           w\<lparr>sw_binary := dict_set slot lane (sw_binary w),
             sw_binary_bytes := dict_set slot (dict_get_default (sw_binary_bytes w) slot 0 - (int (length frame) - 16)) (sw_binary_bytes w),
             sw_round_robin := (if lane \<noteq> [] then rest @ [slot] else rest)\<rparr>))"

definition pop_binary :: "serialized_writer \<Rightarrow> bytes option \<times> serialized_writer" where
  "pop_binary w = pop_binary_loop (sw_round_robin w) w"

text \<open>
  From the head of the inner loop to the next await: take a payload, or find nothing to do, be idle, and end
  or wait. With no chunk in any lane the loop goes round once more with an empty round robin.
\<close>

definition next_control :: "serialized_writer \<Rightarrow> serialized_writer option" where
  "next_control w =
     (case sw_critical w of
        p # rest \<Rightarrow> Some (w\<lparr>sw_critical := rest, sw_phase := Sending (TextPayload p)\<rparr>)
      | [] \<Rightarrow>
          (case sw_normal w of
             p # rest \<Rightarrow>
               if sw_normal_turn w \<or> sw_round_robin w = []
               then Some (w\<lparr>sw_normal := rest, sw_normal_bytes := sw_normal_bytes w - int (length (utf8_encode p)),
                            sw_normal_turn := False, sw_phase := Sending (TextPayload p)\<rparr>)
               else None
           | [] \<Rightarrow> None))"

definition loop_exit :: "serialized_writer \<Rightarrow> serialized_writer" where
  "loop_exit w = (let w1 = set_idle_if_empty w in w1\<lparr>sw_phase := (if sw_stopping w1 then Ended else WaitWork)\<rparr>)"

definition writer_next :: "serialized_writer \<Rightarrow> serialized_writer" where
  "writer_next w =
     (case next_control w of
        Some w1 \<Rightarrow> w1
      | None \<Rightarrow>
          if sw_round_robin w = [] then loop_exit w
          else (case pop_binary w of
                  (Some frame, w1) \<Rightarrow> w1\<lparr>sw_normal_turn := True, sw_phase := Notifying (BinaryPayload frame)\<rparr>
                | (None, w1) \<Rightarrow> (case next_control w1 of Some w2 \<Rightarrow> w2 | None \<Rightarrow> loop_exit w1)))"

text \<open>The loop resumes from an await; a wait for work returns only when the event is set.\<close>

definition run_resume :: "serialized_writer \<Rightarrow> serialized_writer" where
  "run_resume w =
     (case sw_phase w of
        WaitWork \<Rightarrow> if sw_available w then writer_next w else w
      | Notifying p \<Rightarrow> w\<lparr>sw_phase := Sending p\<rparr>
      | Sending p \<Rightarrow> writer_next (w\<lparr>sw_sent := sw_sent w @ [p]\<rparr>)
      | Ended \<Rightarrow> w)"

text \<open>An exception in the loop: the socket failed or the task was cancelled.\<close>

definition run_fail :: "serialized_writer \<Rightarrow> serialized_writer" where
  "run_fail w =
     (if sw_phase w = Ended then w
      else w\<lparr>sw_critical := [], sw_normal := [], sw_normal_bytes := 0, sw_round_robin := [],
             sw_binary := map (\<lambda>(slot, _). (slot, [])) (sw_binary w),
             sw_binary_bytes := fold (\<lambda>slot d. dict_set slot 0 d) (dict_keys (sw_binary w)) (sw_binary_bytes w),
             sw_available := False, sw_idle := True, sw_phase := Ended\<rparr>)"

definition writer_stop :: "serialized_writer \<Rightarrow> serialized_writer" where
  "writer_stop w = w\<lparr>sw_stopping := True, sw_available := True\<rparr>"

inductive sw_step :: "serialized_writer \<Rightarrow> serialized_writer \<Rightarrow> bool" where
  sw_register: "register_binary_lane slot w = Inr t \<Longrightarrow> sw_step w t"
| sw_unregister: "unregister_binary_lane slot w = Inr t \<Longrightarrow> sw_step w t"
| sw_discard: "sw_step w (discard_binary_lane slot w)"
| sw_crit: "enqueue_critical p w = Inr t \<Longrightarrow> sw_step w t"
| sw_norm: "enqueue_normal p w = Inr t \<Longrightarrow> sw_step w t"
| sw_bin: "enqueue_binary slot b w = Inr t \<Longrightarrow> sw_step w t"
| sw_resume: "sw_step w (run_resume w)"
| sw_fail: "sw_step w (run_fail w)"
| sw_stop: "sw_step w (writer_stop w)"

abbreviation sw_reachable :: "serialized_writer \<Rightarrow> bool" where
  "sw_reachable \<equiv> reachable (\<lambda>w. w = sw_new) sw_step"

section \<open>The invariant\<close>

definition lane_bytes :: "bytes list \<Rightarrow> int" where
  "lane_bytes lane = sum_list (map (\<lambda>f. int (length f) - 16) lane)"

definition controls_ok :: "serialized_writer \<Rightarrow> bool" where
  "controls_ok w \<longleftrightarrow> length (sw_critical w) \<le> CRITICAL_MAX \<and> length (sw_normal w) \<le> NORMAL_MAX \<and>
     sw_normal_bytes w = int (sum_list (map (\<lambda>p. length (utf8_encode p)) (sw_normal w))) \<and> sw_normal_bytes w \<le> int NORMAL_BYTES_MAX"

definition lanes_ok :: "serialized_writer \<Rightarrow> bool" where
  "lanes_ok w \<longleftrightarrow> dict_wf (sw_binary w) \<and> length (sw_binary w) \<le> BINARY_LANES_MAX \<and>
     (\<forall>slot lane. dict_get (sw_binary w) slot = Some lane \<longrightarrow> length lane \<le> BINARY_LANE_MAX \<and>
        dict_get (sw_binary_bytes w) slot = Some (lane_bytes lane) \<and> lane_bytes lane \<le> int BINARY_LANE_BYTES_MAX \<and>
        list_all (\<lambda>f. 16 \<le> length f) lane)"

definition robin_ok :: "serialized_writer \<Rightarrow> bool" where
  "robin_ok w \<longleftrightarrow> distinct (sw_round_robin w) \<and>
     (\<forall>slot. slot \<in> set (sw_round_robin w) \<longleftrightarrow> (\<exists>f lane. dict_get (sw_binary w) slot = Some (f # lane)))"

definition all_empty :: "serialized_writer \<Rightarrow> bool" where
  "all_empty w \<longleftrightarrow> sw_critical w = [] \<and> sw_normal w = [] \<and> sw_round_robin w = []"

definition events_ok :: "serialized_writer \<Rightarrow> bool" where
  "events_ok w \<longleftrightarrow> (sw_idle w \<longrightarrow> all_empty w) \<and> (\<not> all_empty w \<longrightarrow> sw_available w) \<and>
     ((\<exists>b. sw_phase w = Notifying (BinaryPayload b) \<or> sw_phase w = Sending (BinaryPayload b)) \<longrightarrow> sw_normal_turn w) \<and>
     (\<forall>p. sw_phase w \<noteq> Notifying (TextPayload p))"

definition sw_inv :: "serialized_writer \<Rightarrow> bool" where
  "sw_inv w \<longleftrightarrow> controls_ok w \<and> lanes_ok w \<and> robin_ok w \<and> events_ok w"

lemma sw_invD:
  assumes "sw_inv w"
  shows "controls_ok w" and "lanes_ok w" and "robin_ok w" and "events_ok w"
  using assms by (simp_all add: sw_inv_def)

lemma sw_new_inv: "sw_inv sw_new"
  by (simp add: sw_inv_def sw_new_def controls_ok_def lanes_ok_def robin_ok_def events_ok_def all_empty_def)

lemma lane_bytes_nonneg: "list_all (\<lambda>f. 16 \<le> length f) lane \<Longrightarrow> 0 \<le> lane_bytes lane"
  by (induction lane) (auto simp: lane_bytes_def)

lemma set_idle_ok:
  assumes "controls_ok w" and "lanes_ok w" and "robin_ok w"
    and "\<not> all_empty w \<Longrightarrow> sw_available w \<and> \<not> sw_idle w"
    and "(\<exists>b. sw_phase w = Notifying (BinaryPayload b) \<or> sw_phase w = Sending (BinaryPayload b)) \<Longrightarrow> sw_normal_turn w"
    and "\<And>p. sw_phase w \<noteq> Notifying (TextPayload p)"
  shows "sw_inv (set_idle_if_empty w)"
  using assms by (auto simp: sw_inv_def set_idle_if_empty_def controls_ok_def lanes_ok_def robin_ok_def events_ok_def all_empty_def)

lemma events_keep:
  assumes "events_ok w" and "\<not> all_empty t \<Longrightarrow> \<not> all_empty w" and "sw_available t = sw_available w" "sw_idle t = sw_idle w"
    and "sw_phase t = sw_phase w" "sw_normal_turn t = sw_normal_turn w"
  shows "\<not> all_empty t \<Longrightarrow> sw_available t \<and> \<not> sw_idle t"
    and "(\<exists>b. sw_phase t = Notifying (BinaryPayload b) \<or> sw_phase t = Sending (BinaryPayload b)) \<Longrightarrow> sw_normal_turn t"
    and "sw_phase t \<noteq> Notifying (TextPayload p)"
  using assms by (auto simp: events_ok_def)

lemma register_inv:
  assumes "sw_inv w" and "register_binary_lane slot w = Inr t"
  shows "sw_inv t"
proof (cases "dict_get (sw_binary w) slot")
  case (Some lane)
  then show ?thesis using assms by (simp add: register_binary_lane_def)
next
  case None
  note i = sw_invD [OF assms(1)]
  have t: "length (sw_binary w) < BINARY_LANES_MAX"
    "t = w\<lparr>sw_binary := dict_set slot [] (sw_binary w), sw_binary_bytes := dict_set slot 0 (sw_binary_bytes w)\<rparr>"
    using assms(2) None by (auto simp: register_binary_lane_def split: if_splits)
  have "lanes_ok t"
    using i(2) t None by (auto simp: lanes_ok_def dict_length_set lane_bytes_def BINARY_LANE_MAX_def split: if_splits)
  moreover have "robin_ok t" using i(3) None by (auto simp: robin_ok_def t)
  ultimately show ?thesis using i(1,4) by (simp add: sw_inv_def t controls_ok_def events_ok_def all_empty_def)
qed

lemma dict_length_del_le: "dict_wf d \<Longrightarrow> length (dict_del k d) \<le> length d"
  by (simp add: dict_del_def length_delete_le)

lemma drop_lane_inv:
  assumes "sw_inv w" and "robin = filter (\<lambda>i. i \<noteq> slot) (sw_round_robin w)"
  shows "sw_inv (set_idle_if_empty (w\<lparr>sw_binary := dict_del slot (sw_binary w), sw_binary_bytes := dict_del slot (sw_binary_bytes w),
       sw_round_robin := robin\<rparr>))"
proof -
  note i = sw_invD [OF assms(1)]
  let ?t = "w\<lparr>sw_binary := dict_del slot (sw_binary w), sw_binary_bytes := dict_del slot (sw_binary_bytes w), sw_round_robin := robin\<rparr>"
  have empty: "\<not> all_empty ?t \<Longrightarrow> \<not> all_empty w" by (auto simp: all_empty_def assms(2))
  note keep = events_keep [OF i(4), of ?t, OF empty]
  show ?thesis
  proof (rule set_idle_ok)
    show "controls_ok ?t" using i(1) by (simp add: controls_ok_def)
    show "lanes_ok ?t"
      using i(2) dict_length_del_le [of "sw_binary w" slot] by (auto simp: lanes_ok_def intro: order_trans)
    show "robin_ok ?t" using i(3) by (auto simp: robin_ok_def assms(2))
  qed (use keep in simp_all)
qed

lemma remove1_distinct_filter: "distinct xs \<Longrightarrow> remove1 x xs = filter (\<lambda>i. i \<noteq> x) xs"
  by (simp add: distinct_remove1_removeAll removeAll_filter_not_eq) metis

lemma unregister_inv:
  assumes "sw_inv w" and "unregister_binary_lane slot w = Inr t"
  shows "sw_inv t"
proof (cases "dict_get (sw_binary w) slot")
  case None
  then show ?thesis using assms by (simp add: unregister_binary_lane_def)
next
  case (Some lane)
  have "distinct (sw_round_robin w)" using sw_invD(3) [OF assms(1)] by (simp add: robin_ok_def)
  from drop_lane_inv [OF assms(1) remove1_distinct_filter [OF this]] show ?thesis
    using assms(2) Some by (auto simp: unregister_binary_lane_def split: if_splits)
qed

lemma discard_inv: "sw_inv w \<Longrightarrow> sw_inv (discard_binary_lane slot w)"
  unfolding discard_binary_lane_def by (rule drop_lane_inv) simp_all

lemma enqueue_critical_inv: "sw_inv w \<Longrightarrow> enqueue_critical p w = Inr t \<Longrightarrow> sw_inv t"
  by (auto simp: sw_inv_def enqueue_critical_def controls_ok_def lanes_ok_def robin_ok_def events_ok_def all_empty_def split: if_splits)

lemma enqueue_normal_inv: "sw_inv w \<Longrightarrow> enqueue_normal p w = Inr t \<Longrightarrow> sw_inv t"
  by (auto simp: sw_inv_def enqueue_normal_def controls_ok_def lanes_ok_def robin_ok_def events_ok_def all_empty_def split: if_splits)

lemma length_uuid_bytes [simp]: "length (uuid_bytes u) = 16"
  by (simp add: uuid_bytes_def)

lemma enqueue_binary_inv:
  assumes "sw_inv w" and "enqueue_binary slot p w = Inr t"
  shows "sw_inv t"
proof -
  note i = sw_invD [OF assms(1)]
  obtain lane where lane: "dict_get (sw_binary w) slot = Some lane" "length lane < BINARY_LANE_MAX"
    and bytes: "dict_get_default (sw_binary_bytes w) slot 0 + int (length p) \<le> int BINARY_LANE_BYTES_MAX"
    and t: "t = w\<lparr>sw_binary := dict_set slot (lane @ [uuid_bytes slot @ p]) (sw_binary w),
      sw_binary_bytes := dict_set slot (dict_get_default (sw_binary_bytes w) slot 0 + int (length p)) (sw_binary_bytes w),
      sw_round_robin := (if slot \<in> set (sw_round_robin w) then sw_round_robin w else sw_round_robin w @ [slot]),
      sw_idle := False, sw_available := True\<rparr>"
    using assms(2) by (auto simp: enqueue_binary_def encode_binary_chunk_def Let_def bind_result_Inr_iff split: if_splits option.splits)
  have b: "dict_get_default (sw_binary_bytes w) slot 0 = lane_bytes lane"
    using i(2) lane(1) by (simp add: lanes_ok_def dict_get_default_def)
  have "lane_bytes (lane @ [uuid_bytes slot @ p]) = lane_bytes lane + int (length p)" by (simp add: lane_bytes_def)
  then have "lanes_ok t"
    using i(2) lane bytes b by (auto simp: lanes_ok_def t dict_length_set)
  moreover have "robin_ok t"
    using i(3) lane(1) by (cases lane) (auto simp: robin_ok_def t)
  ultimately show ?thesis using i(1,4) by (simp add: sw_inv_def t controls_ok_def events_ok_def)
qed

lemma lanes_okD:
  assumes "lanes_ok w" and "dict_get (sw_binary w) slot = Some lane"
  shows "length lane \<le> BINARY_LANE_MAX" and "dict_get (sw_binary_bytes w) slot = Some (lane_bytes lane)"
    and "lane_bytes lane \<le> int BINARY_LANE_BYTES_MAX" and "list_all (\<lambda>f. 16 \<le> length f) lane"
  using assms unfolding lanes_ok_def by blast+

lemma pop_binary_ok:
  assumes i: "lanes_ok w" "robin_ok w" and rr: "sw_round_robin w = slot # rest"
  obtains frame lane where "dict_get (sw_binary w) slot = Some (frame # lane)"
    and "pop_binary w = (Some frame, w\<lparr>sw_binary := dict_set slot lane (sw_binary w),
             sw_binary_bytes := dict_set slot (lane_bytes lane) (sw_binary_bytes w),
             sw_round_robin := (if lane \<noteq> [] then rest @ [slot] else rest)\<rparr>)"
proof -
  obtain frame lane where get: "dict_get (sw_binary w) slot = Some (frame # lane)"
    using i(2) rr unfolding robin_ok_def by (metis list.set_intros(1))
  then have "dict_get_default (sw_binary_bytes w) slot 0 = lane_bytes (frame # lane)"
    using lanes_okD(2) [OF i(1) get] by (simp add: dict_get_default_def)
  then show ?thesis using that get by (simp add: pop_binary_def rr lane_bytes_def)
qed

lemma next_control_none:
  "next_control w = None \<longleftrightarrow> sw_critical w = [] \<and> (sw_normal w = [] \<or> \<not> sw_normal_turn w \<and> sw_round_robin w \<noteq> [])"
  by (auto simp: next_control_def split: list.splits)

text \<open>
  The next payload: the oldest critical control; else the oldest normal control, if it is its turn or there
  is no chunk; else the oldest chunk of the first lane.
\<close>

lemma writer_next_cases:
  assumes "lanes_ok w" and "robin_ok w"
  obtains
    (Critical) p rest where "sw_critical w = p # rest" "writer_next w = w\<lparr>sw_critical := rest, sw_phase := Sending (TextPayload p)\<rparr>"
  | (Normal) p rest where "sw_critical w = []" "sw_normal w = p # rest" "sw_normal_turn w \<or> sw_round_robin w = []"
      "writer_next w = w\<lparr>sw_normal := rest, sw_normal_bytes := sw_normal_bytes w - int (length (utf8_encode p)),
                            sw_normal_turn := False, sw_phase := Sending (TextPayload p)\<rparr>"
  | (Binary) slot rest frame lane where "sw_critical w = []" "sw_normal w = [] \<or> \<not> sw_normal_turn w" "sw_round_robin w = slot # rest"
      "dict_get (sw_binary w) slot = Some (frame # lane)"
      "writer_next w = w\<lparr>sw_binary := dict_set slot lane (sw_binary w),
             sw_binary_bytes := dict_set slot (lane_bytes lane) (sw_binary_bytes w),
             sw_round_robin := (if lane \<noteq> [] then rest @ [slot] else rest),
             sw_normal_turn := True, sw_phase := Notifying (BinaryPayload frame)\<rparr>"
  | (Exit) "all_empty w" "writer_next w = loop_exit w"
proof (cases "next_control w")
  case (Some w1)
  then show ?thesis using that(1,2) by (auto simp: writer_next_def next_control_def split: list.splits if_splits)
next
  case None
  then have c: "sw_critical w = []" "sw_normal w = [] \<or> \<not> sw_normal_turn w \<and> sw_round_robin w \<noteq> []"
    by (simp_all add: next_control_none)
  show ?thesis
  proof (cases "sw_round_robin w")
    case Nil
    then show ?thesis using that(4) None c by (simp add: writer_next_def all_empty_def)
  next
    case (Cons slot rest)
    obtain frame lane where "dict_get (sw_binary w) slot = Some (frame # lane)"
      "pop_binary w = (Some frame, w\<lparr>sw_binary := dict_set slot lane (sw_binary w),
             sw_binary_bytes := dict_set slot (lane_bytes lane) (sw_binary_bytes w),
             sw_round_robin := (if lane \<noteq> [] then rest @ [slot] else rest)\<rparr>)"
      using pop_binary_ok [OF assms Cons] by blast
    then show ?thesis using that(3) None c Cons by (simp add: writer_next_def)
  qed
qed

lemma writer_next_inv:
  assumes i: "controls_ok w" "lanes_ok w" "robin_ok w" and e: "sw_idle w \<longrightarrow> all_empty w" "\<not> all_empty w \<longrightarrow> sw_available w"
  shows "sw_inv (writer_next w)"
  using i(2,3)
proof (cases rule: writer_next_cases)
  case (Critical p rest)
  then have "\<not> sw_idle w" "sw_available w" using e by (auto simp: all_empty_def)
  then show ?thesis
    using Critical i by (auto simp: sw_inv_def controls_ok_def lanes_ok_def robin_ok_def events_ok_def)
next
  case (Normal p rest)
  then have "\<not> sw_idle w" "sw_available w" using e by (auto simp: all_empty_def)
  then show ?thesis
    using Normal i by (auto simp: sw_inv_def controls_ok_def lanes_ok_def robin_ok_def events_ok_def)
next
  case (Binary slot rest frame lane)
  then have ev: "\<not> sw_idle w" "sw_available w" using e by (auto simp: all_empty_def)
  have rr: "distinct (slot # rest)" using i(3) Binary(3) by (simp add: robin_ok_def)
  have lane: "length (frame # lane) \<le> BINARY_LANE_MAX" "lane_bytes (frame # lane) \<le> int BINARY_LANE_BYTES_MAX"
    "list_all (\<lambda>f. 16 \<le> length f) (frame # lane)"
    using lanes_okD [OF i(2) Binary(4)] by simp_all
  have "lane_bytes lane \<le> lane_bytes (frame # lane)" using lane(3) by (simp add: lane_bytes_def)
  then have "lane_bytes lane \<le> int BINARY_LANE_BYTES_MAX" using lane(2) by linarith
  then have "lanes_ok (writer_next w)"
    using i(2) lane Binary(4) by (auto simp: lanes_ok_def Binary(5) dict_length_set)
  moreover have "s \<in> set (sw_round_robin (writer_next w)) \<longleftrightarrow> (\<exists>f l. dict_get (sw_binary (writer_next w)) s = Some (f # l))" for s
  proof -
    have "s \<in> set (slot # rest) \<longleftrightarrow> (\<exists>f l. dict_get (sw_binary w) s = Some (f # l))" using i(3) Binary(3) by (simp add: robin_ok_def)
    then show ?thesis using rr by (cases lane) (auto simp: Binary(5))
  qed
  then have "robin_ok (writer_next w)" using rr by (simp add: robin_ok_def Binary(5))
  ultimately show ?thesis
    using i(1) ev by (simp add: sw_inv_def controls_ok_def events_ok_def Binary(5))
next
  case Exit
  then show ?thesis
    using i by (simp add: loop_exit_def set_idle_if_empty_def sw_inv_def controls_ok_def lanes_ok_def robin_ok_def events_ok_def all_empty_def Let_def)
qed

lemma run_resume_inv:
  assumes "sw_inv w"
  shows "sw_inv (run_resume w)"
proof -
  note i = sw_invD [OF assms]
  show ?thesis
  proof (cases "sw_phase w")
    case WaitWork
    then show ?thesis using writer_next_inv [OF i(1-3)] i(4) assms by (simp add: run_resume_def events_ok_def)
  next
    case (Notifying p)
    then show ?thesis using i by (cases p) (auto simp: run_resume_def sw_inv_def controls_ok_def lanes_ok_def robin_ok_def events_ok_def all_empty_def)
  next
    case (Sending p)
    have "sw_inv (writer_next (w\<lparr>sw_sent := sw_sent w @ [p]\<rparr>))"
      using i by (intro writer_next_inv) (simp_all add: controls_ok_def lanes_ok_def robin_ok_def events_ok_def all_empty_def)
    then show ?thesis using Sending by (simp add: run_resume_def)
  next
    case Ended
    then show ?thesis using assms by (simp add: run_resume_def)
  qed
qed

lemma clear_lanes_get: "dict_get (map (\<lambda>(slot, _). (slot, [])) d) s = map_option (\<lambda>_. []) (dict_get d s)"
  by (induction d) (auto simp: dict_get_def)

lemma clear_bytes_get: "dict_get (fold (\<lambda>slot d. dict_set slot 0 d) ks d) s = (if s \<in> set ks then Some 0 else dict_get d s)"
  by (induction ks arbitrary: d) auto

lemma run_fail_inv:
  assumes "sw_inv w"
  shows "sw_inv (run_fail w)"
proof (cases "sw_phase w = Ended")
  case True
  then show ?thesis using assms by (simp add: run_fail_def)
next
  case False
  note i = sw_invD [OF assms]
  let ?d = "map (\<lambda>(slot, _). (slot, [])) (sw_binary w) :: (uuid, bytes list) dict"
  have "dict_wf ?d" using i(2) by (simp add: lanes_ok_def dict_wf_def comp_def case_prod_beta)
  moreover have "length ?d \<le> BINARY_LANES_MAX" using i(2) by (simp add: lanes_ok_def)
  ultimately have "lanes_ok (run_fail w)"
    using False by (auto simp: run_fail_def lanes_ok_def clear_lanes_get clear_bytes_get dict_keys_iff lane_bytes_def)
  then show ?thesis
    using False by (simp add: sw_inv_def run_fail_def controls_ok_def robin_ok_def events_ok_def all_empty_def clear_lanes_get)
qed

lemma sw_step_inv:
  assumes "sw_step w t" and "sw_inv w"
  shows "sw_inv t"
  using assms
proof (cases rule: sw_step.cases)
  case sw_stop
  then show ?thesis using assms(2)
    by (simp add: writer_stop_def sw_inv_def controls_ok_def lanes_ok_def robin_ok_def events_ok_def all_empty_def)
qed (auto intro: register_inv unregister_inv discard_inv enqueue_critical_inv enqueue_normal_inv enqueue_binary_inv
    run_resume_inv run_fail_inv)

interpretation sw: inductive_invariant "\<lambda>w. w = sw_new" sw_step sw_inv
  by unfold_locales (auto simp: sw_new_inv intro: sw_step_inv)

section \<open>The properties\<close>

text \<open>
  C27. The writer's memory is bounded, its counts are exact, and no lane is forgotten or starved. In
  every reachable state at most 16 critical and 64 normal controls of at most 32 MiB are
  queued, at most two transfers have at most four chunks of at most 64 KiB each, and the byte counts
  are those of the queued payloads; the round robin has exactly the transfers with chunks;
  while anything is queued the loop's event is set, and the writer is reported idle only with
  empty queues. When a chunk has been sent, the next payload is a control if there is one: a
  heartbeat or a result waits for at most one chunk.
\<close>

theorem writer_bounded_and_fair:
  assumes "sw_reachable w"
  shows "length (sw_critical w) \<le> 16 \<and> length (sw_normal w) \<le> 64 \<and>
    sw_normal_bytes w = int (sum_list (map (\<lambda>p. length (utf8_encode p)) (sw_normal w))) \<and> sw_normal_bytes w \<le> 33554432 \<and>
    length (sw_binary w) \<le> 2 \<and>
    (\<forall>slot lane. dict_get (sw_binary w) slot = Some lane \<longrightarrow> length lane \<le> 4 \<and> lane_bytes lane \<le> 4 * 65536 \<and>
       dict_get (sw_binary_bytes w) slot = Some (lane_bytes lane)) \<and>
    (\<forall>slot. slot \<in> set (sw_round_robin w) \<longleftrightarrow> (\<exists>f lane. dict_get (sw_binary w) slot = Some (f # lane))) \<and>
    (sw_available w \<or> sw_critical w = [] \<and> sw_normal w = [] \<and> sw_round_robin w = []) \<and>
    (sw_idle w \<longrightarrow> sw_critical w = [] \<and> sw_normal w = [] \<and> sw_round_robin w = []) \<and>
    (\<forall>chunk. sw_phase w = Sending (BinaryPayload chunk) \<and> (sw_critical w \<noteq> [] \<or> sw_normal w \<noteq> []) \<longrightarrow>
       sw_phase (run_resume w) = Sending (TextPayload (hd (sw_critical w @ sw_normal w))))"
proof -
  note i = sw_invD [OF sw.inv_reachable [OF assms]]
  have "sw_phase (run_resume w) = Sending (TextPayload (hd (sw_critical w @ sw_normal w)))"
    if "sw_phase w = Sending (BinaryPayload chunk)" "sw_critical w \<noteq> [] \<or> sw_normal w \<noteq> []" for chunk
  proof -
    have "sw_normal_turn w" using i(4) that(1) by (auto simp: events_ok_def)
    then show ?thesis
      using that by (auto simp: run_resume_def writer_next_def next_control_def split: list.splits)
  qed
  then show ?thesis
    using i by (auto simp: controls_ok_def lanes_ok_def robin_ok_def events_ok_def all_empty_def CRITICAL_MAX_def NORMAL_MAX_def
        NORMAL_BYTES_MAX_def BINARY_LANES_MAX_def BINARY_LANE_MAX_def BINARY_LANE_BYTES_MAX_def MAX_BINARY_CHUNK_BYTES_def)
qed

text \<open>A lane with a chunk that is being sent while a control is queued.\<close>

definition demo_slot :: uuid where "demo_slot = 7 * 2 ^ 76"

lemma demo_slot_version: "uuid_version demo_slot = 7"
  by (simp add: uuid_version_def demo_slot_def)

lemmas writer_eval = register_binary_lane_def unregister_binary_lane_def enqueue_critical_def enqueue_normal_def enqueue_binary_def
  encode_binary_chunk_def sw_new_def run_resume_def writer_next_def next_control_def pop_binary_def set_idle_if_empty_def
  dict_set_def dict_del_def dict_get_Cons dict_get_default_def CRITICAL_MAX_def NORMAL_MAX_def NORMAL_BYTES_MAX_def
  BINARY_LANES_MAX_def BINARY_LANE_MAX_def BINARY_LANE_BYTES_MAX_def MAX_BINARY_CHUNK_BYTES_def demo_slot_version
  length_utf8_encode utf8_character_size_def

definition demo_lane :: serialized_writer where
  "demo_lane = projr (register_binary_lane demo_slot sw_new)"

lemma demo_lane_reachable: "sw_reachable demo_lane"
proof -
  have "sw_reachable sw_new" by (rule reach_start) simp
  moreover have "register_binary_lane demo_slot sw_new = Inr demo_lane" by (simp add: demo_lane_def writer_eval)
  then have "sw_step sw_new demo_lane" by (rule sw_register)
  ultimately show ?thesis by (rule reach_step)
qed

lemma demo_lane_eq: "demo_lane = sw_new\<lparr>sw_binary := [(demo_slot, [])], sw_binary_bytes := [(demo_slot, 0)]\<rparr>"
  by (simp add: demo_lane_def writer_eval)

definition demo_sending :: serialized_writer where
  "demo_sending = run_resume (run_resume (projr (enqueue_binary demo_slot [9] demo_lane)))"

lemma demo_sending_reachable: "sw_reachable demo_sending"
proof -
  have "enqueue_binary demo_slot [9] demo_lane = Inr (projr (enqueue_binary demo_slot [9] demo_lane))"
    by (simp add: demo_lane_eq writer_eval)
  then have "sw_step demo_lane (projr (enqueue_binary demo_slot [9] demo_lane))" by (rule sw_bin)
  with demo_lane_reachable have "sw_reachable (projr (enqueue_binary demo_slot [9] demo_lane))" by (rule reach_step)
  then have "sw_reachable (run_resume (projr (enqueue_binary demo_slot [9] demo_lane)))" using sw_resume by (rule reach_step)
  then show ?thesis unfolding demo_sending_def using sw_resume by (rule reach_step)
qed

lemma demo_sending_eq:
  "demo_sending = demo_lane\<lparr>sw_binary_bytes := [(demo_slot, 0)], sw_available := True, sw_idle := False,
     sw_phase := Sending (BinaryPayload (uuid_bytes demo_slot @ [9]))\<rparr>"
  by (simp add: demo_sending_def demo_lane_eq writer_eval)

theorem writer_bounded_and_fair_witness:
  "sw_phase (run_resume (projr (enqueue_normal [112] demo_sending))) = Sending (TextPayload [112])"
proof -
  let ?w = "projr (enqueue_normal [112] demo_sending)"
  have w: "enqueue_normal [112] demo_sending = Inr ?w"
    by (simp add: demo_sending_eq demo_lane_eq writer_eval)
  then have "sw_step demo_sending ?w" by (rule sw_norm)
  with demo_sending_reachable have "sw_reachable ?w" by (rule reach_step)
  moreover have "sw_phase ?w = Sending (BinaryPayload (uuid_bytes demo_slot @ [9]))" "sw_critical ?w = []" "sw_normal ?w = [[112]]"
    by (simp_all add: demo_sending_eq demo_lane_eq writer_eval)
  ultimately show ?thesis using writer_bounded_and_fair [of ?w] by simp
qed

text \<open>
  The writer may be reported idle while a payload is still being sent: removing the empty lane of a finished
  transfer sets the event although the loop is at its send, so \<open>drain\<close> and \<open>stop\<close> return too early.
\<close>

lemma writer_idle_in_flight:
  "\<exists>w. sw_reachable w \<and> sw_idle w \<and> sw_phase w = Sending (TextPayload [98]) \<and> sw_sent w = []"
proof -
  let ?w2 = "projr (enqueue_critical [98] demo_lane)"
  let ?w3 = "run_resume ?w2"
  let ?w = "projr (unregister_binary_lane demo_slot ?w3)"
  have "enqueue_critical [98] demo_lane = Inr ?w2" by (simp add: demo_lane_eq writer_eval)
  then have "sw_step demo_lane ?w2" by (rule sw_crit)
  with demo_lane_reachable have "sw_reachable ?w2" by (rule reach_step)
  then have "sw_reachable ?w3" using sw_resume by (rule reach_step)
  moreover have "unregister_binary_lane demo_slot ?w3 = Inr ?w" by (simp add: demo_lane_eq writer_eval)
  then have "sw_step ?w3 ?w" by (rule sw_unregister)
  ultimately have "sw_reachable ?w" by (rule reach_step)
  moreover have "sw_idle ?w \<and> sw_phase ?w = Sending (TextPayload [98]) \<and> sw_sent ?w = []"
    by (simp add: demo_lane_eq writer_eval)
  ultimately show ?thesis by blast
qed

end
