(* ===== verification/Py_Paths.thy ===== *)
theory Py_Paths
  imports Py_Json
begin

text \<open>
  The parts of the Python library that the workspace code uses on paths and bytes: the strict
  UTF-8 decoder, the lines of a \<open>StringIO\<close>, \<open>str.strip\<close> and \<open>str.split\<close> with their arguments,
  and \<open>PurePosixPath\<close> with its parts, name, suffix and parent.
\<close>

section \<open>Decoding UTF-8\<close>

definition utf8_cont :: "nat \<Rightarrow> bool" where
  "utf8_cont b \<longleftrightarrow> 128 \<le> b \<and> b < 192"

text \<open>\<open>bytes.decode("utf-8")\<close>: no overlong forms, no surrogates, nothing above U+10FFFF.\<close>

fun utf8_decode :: "nat list \<Rightarrow> ustr option" where
  "utf8_decode [] = Some []"
| "utf8_decode (a # bs) =
     (if a < 128 then map_option ((#) a) (utf8_decode bs)
      else case bs of
        [] \<Rightarrow> None
      | b # cs \<Rightarrow>
          (if \<not> utf8_cont b then None
           else if 192 \<le> a \<and> a < 224
             then (let u = (a - 192) * 64 + (b - 128)
                   in if u < 128 then None else map_option ((#) u) (utf8_decode cs))
           else case cs of
             [] \<Rightarrow> None
           | c # ds \<Rightarrow>
               (if \<not> utf8_cont c then None
                else if 224 \<le> a \<and> a < 240
                  then (let u = (a - 224) * 4096 + (b - 128) * 64 + (c - 128)
                        in if u < 2048 \<or> 55296 \<le> u \<and> u \<le> 57343 then None
                           else map_option ((#) u) (utf8_decode ds))
                else case ds of
                  [] \<Rightarrow> None
                | d # es \<Rightarrow>
                    (if \<not> utf8_cont d then None
                     else if 240 \<le> a \<and> a < 248
                       then (let u = (a - 240) * 262144 + (b - 128) * 4096 + (c - 128) * 64 + (d - 128)
                             in if u < 65536 \<or> 1114111 < u then None
                                else map_option ((#) u) (utf8_decode es))
                     else None))))"

declare utf8_decode.simps(2) [simp del]

lemma utf8_decode_encode_char_append:
  assumes "\<not> (55296 \<le> u \<and> u \<le> 57343)" "u \<le> 1114111"
  shows "utf8_decode (utf8_encode_char u @ bs) = map_option ((#) u) (utf8_decode bs)"
proof -
  have dec: "utf8_decode_char (utf8_encode_char u) = u" by (rule utf8_decode_encode_char)
  consider "u < 128" | "128 \<le> u" "u < 2048" | "2048 \<le> u" "u < 65536" | "65536 \<le> u" by linarith
  then show ?thesis
  proof cases
    case 1
    then show ?thesis by (simp add: utf8_encode_char_def utf8_decode.simps)
  next
    case 2
    then have "u div 64 < 32" by (simp add: less_mult_imp_div_less)
    with 2 dec show ?thesis
      by (simp add: utf8_encode_char_def utf8_decode.simps utf8_cont_def Let_def)
  next
    case 3
    then have "u div 4096 < 16" by (simp add: less_mult_imp_div_less)
    with 3 dec assms(1) show ?thesis
      by (auto simp add: utf8_encode_char_def utf8_decode.simps utf8_cont_def Let_def)
  next
    case 4
    then have "u div 262144 < 8" using assms(2) by (simp add: less_mult_imp_div_less)
    with 4 dec assms(2) show ?thesis
      by (simp add: utf8_encode_char_def utf8_decode.simps utf8_cont_def Let_def)
  qed
qed

lemma utf8_decode_encode: "utf8_encodable s \<Longrightarrow> utf8_decode (utf8_encode s) = Some s"
  by (induction s) (simp_all add: utf8_encode_Cons utf8_encodable_def utf8_decode_encode_char_append)

section \<open>Lines and characters\<close>

text \<open>
  Iterating over \<open>io.StringIO(text)\<close>: its default \<open>newline="\n"\<close> ends a line at each line feed
  only and keeps the terminator.
\<close>

fun stringio_acc :: "ustr \<Rightarrow> ustr \<Rightarrow> ustr list" where
  "stringio_acc cur [] = (if cur = [] then [] else [rev cur])"
| "stringio_acc cur (c # cs) =
     (if c = 10 then rev (c # cur) # stringio_acc [] cs else stringio_acc (c # cur) cs)"

definition stringio_lines :: "ustr \<Rightarrow> ustr list" where
  "stringio_lines s = stringio_acc [] s"

lemma concat_stringio_acc: "concat (stringio_acc cur s) = rev cur @ s"
  by (induction cur s rule: stringio_acc.induct) auto

lemma concat_stringio_lines: "concat (stringio_lines s) = s"
  by (simp add: stringio_lines_def concat_stringio_acc)

definition py_lstrip_chars :: "nat list \<Rightarrow> ustr \<Rightarrow> ustr" where
  "py_lstrip_chars cs s = dropWhile (\<lambda>c. c \<in> set cs) s"

definition py_rstrip_chars :: "nat list \<Rightarrow> ustr \<Rightarrow> ustr" where
  "py_rstrip_chars cs s = rev (dropWhile (\<lambda>c. c \<in> set cs) (rev s))"

definition py_strip_chars :: "nat list \<Rightarrow> ustr \<Rightarrow> ustr" where
  "py_strip_chars cs s = py_rstrip_chars cs (py_lstrip_chars cs s)"

text \<open>\<open>str.split()\<close>: the maximal runs without white space.\<close>

fun py_words_acc :: "ustr \<Rightarrow> ustr \<Rightarrow> ustr list" where
  "py_words_acc cur [] = (if cur = [] then [] else [rev cur])"
| "py_words_acc cur (c # cs) =
     (if py_isspace_char c
      then (if cur = [] then py_words_acc [] cs else rev cur # py_words_acc [] cs)
      else py_words_acc (c # cur) cs)"

definition py_words :: "ustr \<Rightarrow> ustr list" where
  "py_words s = py_words_acc [] s"

definition py_removeprefix :: "ustr \<Rightarrow> ustr \<Rightarrow> ustr" where
  "py_removeprefix s p = (if py_startswith s p then drop (length p) s else s)"

definition py_endswith :: "ustr \<Rightarrow> ustr \<Rightarrow> bool" where
  "py_endswith s p \<longleftrightarrow> p = drop (length s - length p) s"

section \<open>\<open>PurePosixPath\<close>\<close>

text \<open>A path is its root (\<open>""\<close>, \<open>"/"\<close> or \<open>"//"\<close>) and its components.\<close>

record posix_path =
  px_root :: ustr
  px_tail :: "ustr list"

definition posix_root :: "ustr \<Rightarrow> ustr" where
  "posix_root s =
     (if py_startswith s [47, 47] \<and> \<not> py_startswith s [47, 47, 47] then [47, 47]
      else if py_startswith s [47] then [47] else [])"

definition posix_path :: "ustr \<Rightarrow> posix_path" where
  "posix_path s = \<lparr>px_root = posix_root s,
     px_tail = filter (\<lambda>p. p \<noteq> [] \<and> p \<noteq> [46]) (py_split 47 s)\<rparr>"

definition px_parts :: "posix_path \<Rightarrow> ustr list" where
  "px_parts p = (if px_root p = [] then px_tail p else px_root p # px_tail p)"

definition px_str :: "posix_path \<Rightarrow> ustr" where
  "px_str p = (if px_root p = [] \<and> px_tail p = [] then [46] else px_root p @ py_join [47] (px_tail p))"

definition px_name :: "posix_path \<Rightarrow> ustr" where
  "px_name p = (if px_tail p = [] then [] else last (px_tail p))"

definition px_parent :: "posix_path \<Rightarrow> posix_path" where
  "px_parent p = p\<lparr>px_tail := butlast (px_tail p)\<rparr>"

text \<open>The text from the last dot of the name, when that is neither its first nor last character.\<close>

definition px_suffix :: "posix_path \<Rightarrow> ustr" where
  "px_suffix p =
     (let name = px_name p; ext = rev (takeWhile (\<lambda>c. c \<noteq> 46) (rev name))
      in if 46 \<in> set name \<and> ext \<noteq> [] \<and> length ext + 1 < length name then 46 # ext else [])"

lemma px_tail_components: "p \<in> set (px_tail (posix_path s)) \<Longrightarrow> p \<noteq> [] \<and> p \<noteq> [46]"
  by (simp add: posix_path_def)

end
