(* ===== verification/Workspace_Search.thy ===== *)
theory Workspace_Search
  imports Py_Paths Error_Codes "HOL-Library.Product_Lexorder" "HOL-Library.Multiset"
begin

text \<open>
  Listing, finding and grepping workspace files: \<open>workspace/search.py\<close>.

  The functions work on a bounded sequence of objects held in memory and return one page of a
  larger result, with the offset of the next page. \<open>regex\<close> and \<open>pathspec\<close> are packages outside
  the sources; with Unicode case folding, the glob matcher and the lossy decoder they are the
  fields of \<open>search_lib\<close>, of which nothing is assumed. A search may time out, so
  \<open>regex_search\<close> may return \<open>None\<close>.

  Generators are lazy: \<open>_iter_matching_lines\<close> is the list of matches it yields together with a
  flag that says that it then raises instead of ending. A consumer that stops early never sees
  the exception.
\<close>

section \<open>Data\<close>

definition MAX_SCAN_OBJECTS :: int where "MAX_SCAN_OBJECTS = 10000"
definition MAX_GREP_BYTES :: nat where "MAX_GREP_BYTES = 2 * 1024 * 1024"
definition MAX_REGEX_PATTERN_CHARS :: nat where "MAX_REGEX_PATTERN_CHARS = 4096"
definition MAX_GREP_LINE_CHARS :: nat where "MAX_GREP_LINE_CHARS = 16000"
definition MAX_GREP_RESULT_CHARS :: nat where "MAX_GREP_RESULT_CHARS = 1000000"

definition NOISE_DIRECTORIES :: "ustr list" where
  "NOISE_DIRECTORIES = map ustr_of
     [''.git'', ''node_modules'', ''__pycache__'', ''.venv'', ''venv'', ''dist'', ''build'',
      ''.tox'', ''.mypy_cache'', ''.pytest_cache'', ''.ruff_cache'', ''.coverage'', ''htmlcov'']"

definition TYPE_EXTENSIONS :: "(ustr, ustr list) dict" where
  "TYPE_EXTENSIONS = map (\<lambda>(t, es). (ustr_of t, map ustr_of es))
     [(''c'', [''.c'', ''.h'']),
      (''cpp'', [''.cc'', ''.cpp'', ''.cxx'', ''.hh'', ''.hpp'', ''.hxx'']),
      (''js'', [''.js'', ''.jsx'', ''.mjs'', ''.cjs'']),
      (''json'', [''.json'', ''.jsonl'']),
      (''md'', [''.md'', ''.markdown'']),
      (''py'', [''.py'', ''.pyi'']),
      (''rs'', [''.rs'']),
      (''ts'', [''.ts'', ''.tsx'', ''.mts'', ''.cts'']),
      (''yaml'', [''.yaml'', ''.yml''])]"

record search_object =
  so_path :: ustr
  so_size :: int
  so_modified :: "int option"
  so_content :: "nat list option"

record search_entry =
  se_path :: ustr
  se_is_directory :: bool
  se_size :: "int option"
  se_modified :: "int option"

record content_match =
  gm_path :: ustr
  gm_line_number :: nat
  gm_line :: ustr
  gm_before :: "(nat \<times> ustr) list"
  gm_after :: "(nat \<times> ustr) list"

datatype grep_item = GrepPath ustr | GrepCount ustr nat | GrepContent content_match

record 'a result_page =
  rp_items :: "'a list"
  rp_next_offset :: "nat option"
  rp_truncated :: bool

record ('re, 'spec) search_lib =
  fnmatchcase :: "ustr \<Rightarrow> ustr \<Rightarrow> bool"
  casefold :: "ustr \<Rightarrow> ustr"
  regex_escape :: "ustr \<Rightarrow> ustr"
  regex_compile :: "ustr \<Rightarrow> bool \<Rightarrow> 're option"
  regex_search :: "'re \<Rightarrow> ustr \<Rightarrow> int \<Rightarrow> bool option"
  decode_replace :: "nat list \<Rightarrow> ustr"
  spec_from_lines :: "ustr list \<Rightarrow> 'spec"
  spec_check_file :: "'spec \<Rightarrow> ustr \<Rightarrow> bool option"

section \<open>Arguments and paths\<close>

definition validate_search_page :: "int \<Rightarrow> int \<Rightarrow> int \<Rightarrow> bool \<Rightarrow> error_code + unit" where
  "validate_search_page limit offset scan_limit allow_zero_limit =
     guard_result (\<not> (limit < (if allow_zero_limit then 0 else 1) \<or> offset < 0 \<or> scan_limit < 1))
       TOOL_INVALID_ARGS"

definition normalize_root :: "ustr \<Rightarrow> ustr" where
  "normalize_root root =
     (let normalized = py_strip_chars [47] root
      in if normalized \<in> {[], [46]} then [] else px_str (posix_path normalized))"

definition relative_to_root :: "ustr \<Rightarrow> ustr \<Rightarrow> ustr option" where
  "relative_to_root path root =
     (if root = [] then Some path
      else if path = root then Some (px_name (posix_path path))
      else let pre = root @ [47]
           in if py_startswith path pre then Some (py_removeprefix path pre) else None)"

definition contains_noise :: "ustr \<Rightarrow> bool" where
  "contains_noise relative =
     list_ex (\<lambda>part. part \<in> set NOISE_DIRECTORIES) (butlast (px_parts (posix_path relative)))"

fun glob_depth :: "ustr \<Rightarrow> nat \<Rightarrow> nat option" where
  "glob_depth [] depth = Some depth"
| "glob_depth (c # cs) depth =
     (if c = 91 then glob_depth cs (depth + 1)
      else if c = 93 then (if depth = 0 then None else glob_depth cs (depth - 1))
      else glob_depth cs depth)"

definition validate_glob :: "ustr option \<Rightarrow> error_code + ustr option" where
  "validate_glob pattern =
     (case pattern of
        None \<Rightarrow> Inr None
      | Some p \<Rightarrow> (if glob_depth p 0 = Some 0 then Inr (Some p) else Inl TOOL_INVALID_GLOB))"

definition extensions_for ::
  "('re, 'spec) search_lib \<Rightarrow> ustr option \<Rightarrow> ustr list option" where
  "extensions_for lib file_type =
     (case file_type of
        None \<Rightarrow> None
      | Some t \<Rightarrow>
          let normalized = py_lstrip_chars [46] (casefold lib t)
          in Some (dict_get_default TYPE_EXTENSIONS normalized [46 # normalized]))"

definition bounded_objects :: "search_object list \<Rightarrow> nat \<Rightarrow> search_object list \<times> bool" where
  "bounded_objects objects scan_limit = (take scan_limit objects, scan_limit < length objects)"

definition latest_modified :: "int option \<Rightarrow> int option \<Rightarrow> int option" where
  "latest_modified left right =
     (case left of None \<Rightarrow> right
      | Some l \<Rightarrow> (case right of None \<Rightarrow> left | Some r \<Rightarrow> Some (max l r)))"

section \<open>Entries\<close>

definition file_entry :: "search_object \<Rightarrow> search_entry" where
  "file_entry item = \<lparr>se_path = so_path item, se_is_directory = False,
     se_size = Some (so_size item), se_modified = so_modified item\<rparr>"

definition ancestor_path :: "ustr \<Rightarrow> ustr list \<Rightarrow> nat \<Rightarrow> ustr" where
  "ancestor_path root parts index =
     (let child = py_join [47] (take index parts) in if root = [] then child else root @ [47] @ child)"

fun add_directories ::
  "ustr \<Rightarrow> ustr list \<Rightarrow> int option \<Rightarrow> nat list \<Rightarrow> (ustr, int option) dict \<Rightarrow>
   (ustr, int option) dict" where
  "add_directories root parts modified [] dirs = dirs"
| "add_directories root parts modified (index # rest) dirs =
     (let path = ancestor_path root parts index
      in add_directories root parts modified rest
           (dict_set path (latest_modified (dict_get_default dirs path None) modified) dirs))"

fun recursive_loop ::
  "ustr \<Rightarrow> search_object list \<Rightarrow> search_entry list \<Rightarrow> (ustr, int option) dict \<Rightarrow>
   search_entry list \<times> (ustr, int option) dict" where
  "recursive_loop root [] files dirs = (files, dirs)"
| "recursive_loop root (item # items) files dirs =
     (case relative_to_root (so_path item) root of
        None \<Rightarrow> recursive_loop root items files dirs
      | Some relative \<Rightarrow>
          (if relative = [] \<or> contains_noise relative then recursive_loop root items files dirs
           else let parts = px_parts (posix_path relative)
                in recursive_loop root items (files @ [file_entry item])
                     (add_directories root parts (so_modified item) [1..<length parts] dirs)))"

definition directory_entry :: "ustr \<times> int option \<Rightarrow> search_entry" where
  "directory_entry d = \<lparr>se_path = fst d, se_is_directory = True, se_size = None, se_modified = snd d\<rparr>"

definition recursive_entries :: "search_object list \<Rightarrow> ustr \<Rightarrow> search_entry list" where
  "recursive_entries objects root =
     (case recursive_loop root (sort_key so_path objects) [] [] of
        (files, dirs) \<Rightarrow> files @ map directory_entry dirs)"

definition file_entries :: "search_object list \<Rightarrow> ustr \<Rightarrow> search_entry list" where
  "file_entries objects root =
     map file_entry (filter (\<lambda>item.
       case relative_to_root (so_path item) root of
         None \<Rightarrow> False
       | Some relative \<Rightarrow> relative \<noteq> [] \<and> \<not> contains_noise relative) objects)"

section \<open>Pages of sorted results\<close>

definition sequence_page :: "'a list \<Rightarrow> nat \<Rightarrow> nat \<Rightarrow> bool \<Rightarrow> 'a result_page" where
  "sequence_page entries limit offset truncated =
     \<lparr>rp_items = take limit (drop offset entries),
      rp_next_offset = (if truncated \<or> \<not> offset + limit < length entries then None
                        else Some (offset + limit)),
      rp_truncated = truncated\<rparr>"

text \<open>\<open>heapq.nsmallest(n, xs, key)\<close> is documented as \<open>sorted(xs, key=key)[:n]\<close>.\<close>

definition nsmallest :: "nat \<Rightarrow> ('a \<Rightarrow> 'k::linorder) \<Rightarrow> 'a list \<Rightarrow> 'a list" where
  "nsmallest n key xs = take n (sort_key key xs)"

definition sorted_page ::
  "'a list \<Rightarrow> ('a \<Rightarrow> 'k::linorder) \<Rightarrow> nat \<Rightarrow> nat \<Rightarrow> bool \<Rightarrow> 'a result_page" where
  "sorted_page entries key limit offset truncated =
     (let wanted = offset + limit + 1; selected = nsmallest wanted key entries
      in sequence_page selected limit offset truncated)"

definition list_recursive ::
  "search_object list \<Rightarrow> ustr \<Rightarrow> int \<Rightarrow> int \<Rightarrow> int \<Rightarrow> error_code + search_entry result_page" where
  "list_recursive objects root limit offset scan_limit =
     bind_result (validate_search_page limit offset scan_limit False) (\<lambda>_.
       let root = normalize_root root
       in case bounded_objects objects (nat scan_limit) of
         (scanned, truncated) \<Rightarrow>
           Inr (sorted_page (recursive_entries scanned root) se_path
                  (nat limit) (nat offset) truncated))"

definition matches_find ::
  "('re, 'spec) search_lib \<Rightarrow> ustr list \<Rightarrow> ustr option \<Rightarrow> ustr list option \<Rightarrow> search_entry \<Rightarrow> bool"
where
  "matches_find lib terms glob extensions entry =
     (let folded = casefold lib (se_path entry)
      in if list_ex (\<lambda>term. \<not> py_contains folded term) terms then False
         else if (case glob of None \<Rightarrow> False | Some g \<Rightarrow> \<not> fnmatchcase lib (se_path entry) g) then False
         else case extensions of
             None \<Rightarrow> True
           | Some es \<Rightarrow> \<not> (se_is_directory entry \<or>
                casefold lib (px_suffix (posix_path (se_path entry))) \<notin> set es))"

definition modified_sort_key :: "search_entry \<Rightarrow> int \<times> int \<times> ustr" where
  "modified_sort_key entry =
     (case se_modified entry of
        None \<Rightarrow> (1, 0, se_path entry)
      | Some t \<Rightarrow> (0, - t, se_path entry))"

record find_request =
  fr_root :: ustr
  fr_query :: ustr
  fr_glob :: "ustr option"
  fr_file_type :: "ustr option"
  fr_include_dirs :: bool
  fr_sort :: ustr
  fr_limit :: int
  fr_offset :: int
  fr_scan_limit :: int

definition find_matching ::
  "('re, 'spec) search_lib \<Rightarrow> find_request \<Rightarrow> ustr option \<Rightarrow> search_object list \<Rightarrow>
   search_entry list" where
  "find_matching lib q glob scanned =
     (let root = normalize_root (fr_root q);
          extensions = extensions_for lib (fr_file_type q);
          terms = map (casefold lib) (filter (\<lambda>t. t \<noteq> []) (py_words (fr_query q)));
          source = (if fr_include_dirs q then recursive_entries scanned root
                    else file_entries scanned root)
      in filter (matches_find lib terms glob extensions) source)"

definition find_files ::
  "('re, 'spec) search_lib \<Rightarrow> search_object list \<Rightarrow> find_request \<Rightarrow>
   error_code + search_entry result_page" where
  "find_files lib objects q =
     bind_result (validate_search_page (fr_limit q) (fr_offset q) (fr_scan_limit q) False) (\<lambda>_.
     bind_result (validate_glob (fr_glob q)) (\<lambda>glob.
       case bounded_objects objects (nat (fr_scan_limit q)) of
         (scanned, truncated) \<Rightarrow>
           let entries = find_matching lib q glob scanned;
               limit = nat (fr_limit q); offset = nat (fr_offset q)
           in if fr_sort q = ustr_of ''path''
              then Inr (sorted_page entries se_path limit offset truncated)
              else if fr_sort q = ustr_of ''modified''
              then Inr (sorted_page entries modified_sort_key limit offset truncated)
              else Inl TOOL_INVALID_ARGS))"

section \<open>Grep\<close>

definition grep_invalid_regex :: error_code where
  "grep_invalid_regex = TOOL_INVALID_REGEX"

definition compile_pattern ::
  "('re, 'spec) search_lib \<Rightarrow> ustr \<Rightarrow> bool \<Rightarrow> bool \<Rightarrow> int \<Rightarrow> error_code + 're" where
  "compile_pattern lib pattern case_insensitive fixed_strings timeout =
     (if pattern = [] \<or> MAX_REGEX_PATTERN_CHARS < length pattern \<or> timeout \<le> 0
      then Inl grep_invalid_regex
      else let source = (if fixed_strings then regex_escape lib pattern else pattern)
           in case regex_compile lib source case_insensitive of
                None \<Rightarrow> Inl grep_invalid_regex | Some re \<Rightarrow> Inr re)"

definition searchable_text :: "search_object \<Rightarrow> ustr option" where
  "searchable_text item =
     (case so_content item of
        None \<Rightarrow> None
      | Some content \<Rightarrow>
          (if int MAX_GREP_BYTES < so_size item \<or> MAX_GREP_BYTES < length content then None
           else if 0 \<in> set content then None else utf8_decode content))"

record pending_match =
  pm_path :: ustr
  pm_line_number :: nat
  pm_line :: ustr
  pm_before :: "(nat \<times> ustr) list"
  pm_after :: "(nat \<times> ustr) list"
  pm_remaining :: nat

definition pm_complete :: "pending_match \<Rightarrow> content_match" where
  "pm_complete p = \<lparr>gm_path = pm_path p, gm_line_number = pm_line_number p, gm_line = pm_line p,
     gm_before = pm_before p, gm_after = pm_after p\<rparr>"

definition pm_feed :: "nat \<times> ustr \<Rightarrow> pending_match \<Rightarrow> pending_match" where
  "pm_feed context_line p =
     (if 0 < pm_remaining p
      then p\<lparr>pm_after := pm_after p @ [context_line], pm_remaining := pm_remaining p - 1\<rparr> else p)"

fun pop_completed :: "pending_match list \<Rightarrow> content_match list \<times> pending_match list" where
  "pop_completed [] = ([], [])"
| "pop_completed (p # ps) =
     (if pm_remaining p = 0
      then (case pop_completed ps of (ys, qs) \<Rightarrow> (pm_complete p # ys, qs)) else ([], p # ps))"

text \<open>\<open>deque(maxlen=n).append\<close>\<close>

definition deque_append :: "nat \<Rightarrow> 'a list \<Rightarrow> 'a \<Rightarrow> 'a list" where
  "deque_append n d x = drop (length d + 1 - n) (d @ [x])"

record line_search =
  ls_search :: "ustr \<Rightarrow> bool option"
  ls_path :: ustr
  ls_before :: nat
  ls_after :: nat

definition grep_line :: "ustr \<Rightarrow> ustr" where
  "grep_line raw_line = py_rstrip_chars [13, 10] raw_line"

definition line_matched :: "line_search \<Rightarrow> ustr \<Rightarrow> bool option" where
  "line_matched q line = (if length line \<le> MAX_GREP_LINE_CHARS then ls_search q line else Some False)"

fun iter_lines ::
  "line_search \<Rightarrow> nat \<Rightarrow> (nat \<times> ustr) list \<Rightarrow> pending_match list \<Rightarrow> ustr list \<Rightarrow>
   content_match list \<times> bool" where
  "iter_lines q number before pending [] = (map pm_complete pending, False)"
| "iter_lines q number before pending (raw_line # rest) =
     (let line = grep_line raw_line;
          context_line = take MAX_GREP_LINE_CHARS line;
          fed = map (pm_feed (number, context_line)) pending
      in case line_matched q line of
           None \<Rightarrow> ([], True)
         | Some matched \<Rightarrow>
             let queue = (if matched
                          then fed @ [\<lparr>pm_path = ls_path q, pm_line_number = number, pm_line = line,
                                       pm_before = before, pm_after = [], pm_remaining = ls_after q\<rparr>]
                          else fed)
             in case pop_completed queue of
                  (yielded, left) \<Rightarrow>
                    (case iter_lines q (Suc number)
                            (deque_append (ls_before q) before (number, context_line)) left rest of
                       (later, raises) \<Rightarrow> (yielded @ later, raises)))"

definition iter_matching_lines :: "line_search \<Rightarrow> ustr \<Rightarrow> content_match list \<times> bool" where
  "iter_matching_lines q text = iter_lines q 1 [] [] (stringio_lines text)"

type_synonym 'spec ignore_rules = "(ustr \<times> 'spec) list"

definition ignore_add ::
  "('re, 'spec) search_lib \<Rightarrow> ustr \<Rightarrow> nat list \<Rightarrow> 'spec ignore_rules \<Rightarrow> 'spec ignore_rules" where
  "ignore_add lib path content rules =
     (if 0 \<in> set content then rules
      else let base_path = px_str (px_parent (posix_path path));
               base = (if base_path = [46] then [] else base_path);
               lines = py_splitlines (decode_replace lib content)
           in rules @ [(base, spec_from_lines lib lines)])"

fun ignore_loop ::
  "('re, 'spec) search_lib \<Rightarrow> ustr \<Rightarrow> 'spec ignore_rules \<Rightarrow> bool \<Rightarrow> bool" where
  "ignore_loop lib path [] ignored = ignored"
| "ignore_loop lib path ((base, spec) # rules) ignored =
     (case relative_to_root path base of
        None \<Rightarrow> ignore_loop lib path rules ignored
      | Some relative \<Rightarrow>
          (case spec_check_file lib spec relative of
             None \<Rightarrow> ignore_loop lib path rules ignored
           | Some decision \<Rightarrow> ignore_loop lib path rules decision))"

definition ignore_matches :: "('re, 'spec) search_lib \<Rightarrow> 'spec ignore_rules \<Rightarrow> ustr \<Rightarrow> bool" where
  "ignore_matches lib rules path = ignore_loop lib path rules False"

definition matches_path_filters ::
  "('re, 'spec) search_lib \<Rightarrow> ustr \<Rightarrow> ustr option \<Rightarrow> ustr list option \<Rightarrow> bool" where
  "matches_path_filters lib path glob extensions =
     (if (case glob of None \<Rightarrow> False | Some g \<Rightarrow> \<not> fnmatchcase lib path g) then False
      else case extensions of
          None \<Rightarrow> True | Some es \<Rightarrow> casefold lib (px_suffix (posix_path path)) \<in> set es)"

definition grep_result_chars :: "grep_item \<Rightarrow> nat" where
  "grep_result_chars item =
     (case item of
        GrepPath p \<Rightarrow> length p
      | GrepCount p n \<Rightarrow> length p + 32
      | GrepContent m \<Rightarrow>
          length (gm_path m) + length (gm_line m)
          + sum_list (map (\<lambda>(n, line). length line + 16) (gm_before m))
          + sum_list (map (\<lambda>(n, line). length line + 16) (gm_after m)) + 32)"

record grep_state =
  gs_page :: "grep_item list"
  gs_matched :: nat
  gs_chars :: nat
  gs_has_more :: bool
  gs_stopped :: bool

fun collect_results :: "nat \<Rightarrow> nat \<Rightarrow> grep_state \<Rightarrow> grep_item list \<Rightarrow> grep_state" where
  "collect_results offset limit s [] = s"
| "collect_results offset limit s (r # rs) =
     (if gs_matched s < offset
        then collect_results offset limit (s\<lparr>gs_matched := gs_matched s + 1\<rparr>) rs
      else if length (gs_page s) = limit then s\<lparr>gs_has_more := True, gs_stopped := True\<rparr>
      else if MAX_GREP_RESULT_CHARS < gs_chars s + grep_result_chars r
        then s\<lparr>gs_has_more := True, gs_stopped := True\<rparr>
      else collect_results offset limit
             (s\<lparr>gs_page := gs_page s @ [r], gs_chars := gs_chars s + grep_result_chars r,
               gs_matched := gs_matched s + 1\<rparr>) rs)"

record grep_request =
  gr_pattern :: ustr
  gr_root :: ustr
  gr_glob :: "ustr option"
  gr_file_type :: "ustr option"
  gr_case_insensitive :: bool
  gr_fixed_strings :: bool
  gr_output_mode :: ustr
  gr_context_before :: int
  gr_context_after :: int
  gr_limit :: int
  gr_offset :: int
  gr_scan_limit :: int
  gr_timeout :: int

text \<open>What one file contributes in an output mode, and whether asking for more then raises.\<close>

definition file_produced :: "ustr \<Rightarrow> ustr \<Rightarrow> content_match list \<times> bool \<Rightarrow> grep_item list \<times> bool" where
  "file_produced mode path matches =
     (case matches of (ms, raises) \<Rightarrow>
        if mode = ustr_of ''files_with_matches''
          then (if ms \<noteq> [] then ([GrepPath path], False) else ([], raises))
        else if mode = ustr_of ''count''
          then (if raises then ([], True)
                else if ms = [] then ([], False) else ([GrepCount path (length ms)], False))
        else (map GrepContent ms, raises))"

record ('re, 'spec) grep_run =
  ru_lib :: "('re, 'spec) search_lib"
  ru_re :: 're
  ru_root :: ustr
  ru_glob :: "ustr option"
  ru_extensions :: "ustr list option"
  ru_request :: grep_request

text \<open>
  One file of the scan: the ignore rules after it, and what it produces. The condition of the
  source's \<open>continue\<close> statements comes first.
\<close>

definition grep_file ::
  "('re, 'spec) grep_run \<Rightarrow> 'spec ignore_rules \<Rightarrow> search_object \<Rightarrow>
   'spec ignore_rules \<times> grep_item list \<times> bool" where
  "grep_file ru rules item =
     (let lib = ru_lib ru; path = so_path item; q = ru_request ru; skip = (rules, [], False)
      in case relative_to_root path (ru_root ru) of
           None \<Rightarrow> skip
         | Some relative \<Rightarrow>
             (if contains_noise relative then skip
              else if ignore_matches lib rules path then skip
              else if px_name (posix_path path) = ustr_of ''.gitignore''
                then (case so_content item of
                        None \<Rightarrow> skip
                      | Some content \<Rightarrow>
                          (if so_size item \<le> int MAX_GREP_BYTES
                           then (ignore_add lib path content rules, [], False) else skip))
              else if \<not> matches_path_filters lib path (ru_glob ru) (ru_extensions ru) then skip
              else case searchable_text item of
                  None \<Rightarrow> skip
                | Some text \<Rightarrow>
                    (rules, file_produced (gr_output_mode q) path
                       (iter_matching_lines
                          \<lparr>ls_search = (\<lambda>line. regex_search lib (ru_re ru) line (gr_timeout q)),
                           ls_path = path, ls_before = nat (gr_context_before q),
                           ls_after = nat (gr_context_after q)\<rparr> text))))"

fun grep_loop ::
  "('re, 'spec) grep_run \<Rightarrow> nat \<Rightarrow> nat \<Rightarrow> 'spec ignore_rules \<Rightarrow> grep_state \<Rightarrow> search_object list \<Rightarrow>
   error_code + grep_state" where
  "grep_loop ru offset limit rules s [] = Inr s"
| "grep_loop ru offset limit rules s (item # items) =
     (case grep_file ru rules item of
        (rules', produced, raises) \<Rightarrow>
          let s' = collect_results offset limit s produced
          in if gs_stopped s' then Inr s'
             else if raises then Inl grep_invalid_regex
             else grep_loop ru offset limit rules' s' items)"

definition grep_run_of ::
  "('re, 'spec) search_lib \<Rightarrow> 're \<Rightarrow> ustr option \<Rightarrow> grep_request \<Rightarrow> ('re, 'spec) grep_run" where
  "grep_run_of lib compiled glob q =
     \<lparr>ru_lib = lib, ru_re = compiled, ru_root = normalize_root (gr_root q), ru_glob = glob,
      ru_extensions = extensions_for lib (gr_file_type q), ru_request = q\<rparr>"

definition effective_limit :: "grep_request \<Rightarrow> nat" where
  "effective_limit q = nat (if gr_limit q = 0 then gr_scan_limit q else gr_limit q)"

definition grep_start :: grep_state where
  "grep_start = \<lparr>gs_page = [], gs_matched = 0, gs_chars = 0, gs_has_more = False, gs_stopped = False\<rparr>"

definition grep_files ::
  "('re, 'spec) search_lib \<Rightarrow> search_object list \<Rightarrow> grep_request \<Rightarrow>
   error_code + grep_item result_page" where
  "grep_files lib objects q =
     bind_result (validate_search_page (gr_limit q) (gr_offset q) (gr_scan_limit q) True) (\<lambda>_.
     bind_result (guard_result (\<not> (gr_context_before q < 0 \<or> gr_context_after q < 0))
       TOOL_INVALID_ARGS) (\<lambda>_.
     bind_result (guard_result (gr_output_mode q \<in>
         {ustr_of ''content'', ustr_of ''files_with_matches'', ustr_of ''count''}) TOOL_INVALID_ARGS) (\<lambda>_.
     bind_result (compile_pattern lib (gr_pattern q) (gr_case_insensitive q) (gr_fixed_strings q)
       (gr_timeout q)) (\<lambda>compiled.
     bind_result (validate_glob (gr_glob q)) (\<lambda>glob.
       case bounded_objects objects (nat (gr_scan_limit q)) of
         (scanned, truncated) \<Rightarrow>
           bind_result (grep_loop (grep_run_of lib compiled glob q) (nat (gr_offset q))
             (effective_limit q) [] grep_start (sort_key so_path scanned)) (\<lambda>s.
             let ceiling = truncated \<and> \<not> gs_stopped s
             in Inr \<lparr>rp_items = gs_page s,
                     rp_next_offset = (if ceiling \<or> \<not> gs_has_more s then None else Some (gs_matched s)),
                     rp_truncated = ceiling\<rparr>))))))"

section \<open>Context lines against a reference\<close>

lemma sorted_takeWhile_filter:
  assumes "sorted xs" and "\<And>x y. x \<le> y \<Longrightarrow> P y \<Longrightarrow> P x"
  shows "takeWhile P xs = filter P xs" "dropWhile P xs = filter (\<lambda>x. \<not> P x) xs"
proof -
  have "takeWhile P xs = filter P xs \<and> dropWhile P xs = filter (\<lambda>x. \<not> P x) xs"
    using assms(1)
  proof (induction xs)
    case (Cons x xs)
    show ?case
    proof (cases "P x")
      case False
      then have "\<not> P y" if "y \<in> set xs" for y using Cons.prems that assms(2) [of x y] by auto
      with False show ?thesis by simp
    qed (use Cons in simp)
  qed simp
  then show "takeWhile P xs = filter P xs" "dropWhile P xs = filter (\<lambda>x. \<not> P x) xs" by simp_all
qed

lemma pop_completed_eq:
  "pop_completed ps = (map pm_complete (takeWhile (\<lambda>p. pm_remaining p = 0) ps),
                       dropWhile (\<lambda>p. pm_remaining p = 0) ps)"
  by (induction ps) auto

text \<open>
  The numbered context lines of a range, the match at a line with its context, and the lines
  that are searched before the first search that fails.
\<close>

definition grep_context_lines :: "ustr list \<Rightarrow> nat \<Rightarrow> nat \<Rightarrow> (nat \<times> ustr) list" where
  "grep_context_lines raws lo hi =
     map (\<lambda>i. (Suc i, take MAX_GREP_LINE_CHARS (grep_line (raws ! i)))) [lo..<hi]"

definition match_at :: "line_search \<Rightarrow> ustr list \<Rightarrow> nat \<Rightarrow> content_match" where
  "match_at q raws i =
     \<lparr>gm_path = ls_path q, gm_line_number = Suc i, gm_line = grep_line (raws ! i),
      gm_before = grep_context_lines raws (i - ls_before q) i,
      gm_after = grep_context_lines raws (Suc i) (min (length raws) (Suc i + ls_after q))\<rparr>"

definition line_hit :: "line_search \<Rightarrow> ustr list \<Rightarrow> nat \<Rightarrow> bool" where
  "line_hit q raws i \<longleftrightarrow> line_matched q (grep_line (raws ! i)) = Some True"

definition searched_lines :: "line_search \<Rightarrow> ustr list \<Rightarrow> nat" where
  "searched_lines q raws = length (takeWhile (\<lambda>raw. line_matched q (grep_line raw) \<noteq> None) raws)"

definition matching_lines_reference :: "line_search \<Rightarrow> ustr \<Rightarrow> content_match list \<times> bool" where
  "matching_lines_reference q text =
     (let raws = stringio_lines text; m = searched_lines q raws; fails = m < length raws
      in (map (match_at q raws)
            (filter (\<lambda>i. line_hit q raws i \<and> (fails \<longrightarrow> i + ls_after q < m)) [0..<m]), fails))"

definition pending_at :: "line_search \<Rightarrow> ustr list \<Rightarrow> nat \<Rightarrow> nat \<Rightarrow> pending_match" where
  "pending_at q raws n i =
     \<lparr>pm_path = ls_path q, pm_line_number = Suc i, pm_line = grep_line (raws ! i),
      pm_before = grep_context_lines raws (i - ls_before q) i,
      pm_after = grep_context_lines raws (Suc i) n, pm_remaining = i + ls_after q + 1 - n\<rparr>"

lemma grep_context_lines_Suc:
  "lo \<le> hi \<Longrightarrow> grep_context_lines raws lo (Suc hi) =
     grep_context_lines raws lo hi @ [(Suc hi, take MAX_GREP_LINE_CHARS (grep_line (raws ! hi)))]"
  by (simp add: grep_context_lines_def)

lemma deque_append_context:
  "deque_append b (grep_context_lines raws (n - b) n)
     (Suc n, take MAX_GREP_LINE_CHARS (grep_line (raws ! n))) = grep_context_lines raws (Suc n - b) (Suc n)"
proof -
  have len: "length (grep_context_lines raws (n - b) n) = n - (n - b)" by (simp add: grep_context_lines_def)
  have "deque_append b (grep_context_lines raws (n - b) n)
     (Suc n, take MAX_GREP_LINE_CHARS (grep_line (raws ! n))) =
     drop (Suc (n - (n - b)) - b) (grep_context_lines raws (n - b) (Suc n))"
    by (simp add: deque_append_def len grep_context_lines_Suc)
  also have "\<dots> = grep_context_lines raws (n - b + (Suc (n - (n - b)) - b)) (Suc n)"
    by (simp only: grep_context_lines_def drop_map drop_upt)
  also have "n - b + (Suc (n - (n - b)) - b) = Suc n - b" by linarith
  finally show ?thesis .
qed

lemma pm_feed_pending_at:
  assumes "i < n" "n \<le> i + ls_after q"
  shows "pm_feed (Suc n, take MAX_GREP_LINE_CHARS (grep_line (raws ! n))) (pending_at q raws n i) =
    pending_at q raws (Suc n) i"
  using assms by (simp add: pm_feed_def pending_at_def grep_context_lines_Suc Suc_diff_le)

lemma pending_at_new:
  "pending_at q raws (Suc n) n =
     \<lparr>pm_path = ls_path q, pm_line_number = Suc n, pm_line = grep_line (raws ! n),
      pm_before = grep_context_lines raws (n - ls_before q) n, pm_after = [], pm_remaining = ls_after q\<rparr>"
  by (simp add: pending_at_def grep_context_lines_def)

lemma pm_complete_pending_at:
  assumes "i + ls_after q + 1 \<le> n \<and> n \<le> Suc i + ls_after q \<or> n = length raws \<and> n \<le> i + ls_after q"
    and "n \<le> length raws"
  shows "pm_complete (pending_at q raws n i) = match_at q raws i"
proof -
  have "n = min (length raws) (Suc i + ls_after q)" using assms by linarith
  then show ?thesis by (simp add: pm_complete_def pending_at_def match_at_def)
qed

lemma pop_pending:
  fixes q :: line_search
  assumes "n < length raws"
  defines "xs \<equiv> filter (\<lambda>i. line_hit q raws i \<and> n \<le> i + ls_after q) [0..<Suc n]"
  shows "pop_completed (map (pending_at q raws (Suc n)) xs) =
    (map (match_at q raws) (filter (\<lambda>i. i + ls_after q \<le> n) xs),
     map (pending_at q raws (Suc n)) (filter (\<lambda>i. \<not> i + ls_after q \<le> n) xs))"
proof -
  have sorted: "sorted xs" by (simp add: xs_def sorted_wrt_filter del: upt_Suc)
  have zero: "(\<lambda>p. pm_remaining p = 0) \<circ> pending_at q raws (Suc n) = (\<lambda>i. i + ls_after q \<le> n)"
    by (auto simp: pending_at_def fun_eq_iff)
  have tw: "takeWhile (\<lambda>i. i + ls_after q \<le> n) xs = filter (\<lambda>i. i + ls_after q \<le> n) xs"
    and dw: "dropWhile (\<lambda>i. i + ls_after q \<le> n) xs = filter (\<lambda>i. \<not> i + ls_after q \<le> n) xs"
    using sorted_takeWhile_filter [OF sorted, of "\<lambda>i. i + ls_after q \<le> n"] by simp_all
  have "map pm_complete (map (pending_at q raws (Suc n)) (filter (\<lambda>i. i + ls_after q \<le> n) xs)) =
    map (match_at q raws) (filter (\<lambda>i. i + ls_after q \<le> n) xs)"
    using assms(1) by (auto simp: xs_def intro!: pm_complete_pending_at)
  then show ?thesis
    unfolding pop_completed_eq takeWhile_map dropWhile_map zero tw dw by simp
qed

lemma searched_lines_nth:
  "n < searched_lines q raws \<Longrightarrow> line_matched q (grep_line (raws ! n)) \<noteq> None"
  unfolding searched_lines_def by (metis (mono_tags, lifting) nth_mem set_takeWhileD takeWhile_nth)

lemma searched_lines_fails:
  "searched_lines q raws < length raws \<Longrightarrow>
   line_matched q (grep_line (raws ! searched_lines q raws)) = None"
  unfolding searched_lines_def using nth_length_takeWhile by blast

lemma searched_lines_le: "searched_lines q raws \<le> length raws"
  by (simp add: searched_lines_def length_takeWhile_le)

lemma filter_window_split:
  fixes a n m :: nat
  assumes "n < m"
  shows "filter (\<lambda>i. H i \<and> n \<le> i + a \<and> (f \<longrightarrow> i + a < m)) [0..<m] =
    filter (\<lambda>i. i + a \<le> n) (filter (\<lambda>i. H i \<and> n \<le> i + a) [0..<Suc n]) @
    filter (\<lambda>i. H i \<and> Suc n \<le> i + a \<and> (f \<longrightarrow> i + a < m)) [0..<m]" (is "?L = ?A @ ?B")
proof -
  have sorted: "sorted ?L" by (simp add: sorted_wrt_filter)
  let ?P = "\<lambda>i. i + a \<le> n"
  have "?L = takeWhile ?P ?L @ dropWhile ?P ?L" by simp
  also have "\<dots> = filter ?P ?L @ filter (\<lambda>i. \<not> ?P i) ?L"
    using sorted_takeWhile_filter [OF sorted, of ?P] by simp
  also have "filter (\<lambda>i. \<not> ?P i) ?L = ?B" by (auto intro: filter_cong)
  also have "filter ?P ?L = ?A"
  proof -
    have up: "[0..<m] = [0..<Suc n] @ [Suc n..<m]" using assms by (metis Suc_leI upt_add_eq_append zero_le le_add_diff_inverse add_0)
    show ?thesis using assms unfolding up by (auto intro: filter_cong)
  qed
  finally show ?thesis .
qed

lemma iter_lines_reference:
  assumes "n \<le> searched_lines q raws"
  shows "iter_lines q (Suc n) (grep_context_lines raws (n - ls_before q) n)
     (map (pending_at q raws n) (filter (\<lambda>i. line_hit q raws i \<and> n \<le> i + ls_after q) [0..<n]))
     (drop n raws) =
   (map (match_at q raws)
      (filter (\<lambda>i. line_hit q raws i \<and> n \<le> i + ls_after q \<and>
          (searched_lines q raws < length raws \<longrightarrow> i + ls_after q < searched_lines q raws))
        [0..<searched_lines q raws]), searched_lines q raws < length raws)"
  (is "iter_lines q (Suc n) _ (map _ ?old) _ = (map _ ?hits, ?fails)")
  using assms
proof (induction "length raws - n" arbitrary: n)
  case 0
  then have n: "n = length raws" "searched_lines q raws = length raws"
    using searched_lines_le [of q raws] by simp_all
  then show ?case by (auto simp: pm_complete_pending_at)
next
  case (Suc k)
  let ?m = "searched_lines q raws"
  let ?old = "filter (\<lambda>i. line_hit q raws i \<and> n \<le> i + ls_after q) [0..<n]"
  let ?new = "filter (\<lambda>i. line_hit q raws i \<and> n \<le> i + ls_after q) [0..<Suc n]"
  let ?left = "filter (\<lambda>i. line_hit q raws i \<and> Suc n \<le> i + ls_after q) [0..<Suc n]"
  have n: "n < length raws" using Suc.hyps(2) by simp
  have dr: "drop n raws = raws ! n # drop (Suc n) raws" using n by (simp add: Cons_nth_drop_Suc)
  let ?ctx = "(Suc n, take MAX_GREP_LINE_CHARS (grep_line (raws ! n)))"
  have fed: "map (pm_feed ?ctx) (map (pending_at q raws n) ?old) = map (pending_at q raws (Suc n)) ?old"
    by (auto intro!: pm_feed_pending_at)
  show ?case
  proof (cases "n = ?m")
    case True
    then have "line_matched q (grep_line (raws ! n)) = None" using searched_lines_fails n by metis
    moreover have "filter (\<lambda>i. line_hit q raws i \<and> n \<le> i + ls_after q \<and>
        (?m < length raws \<longrightarrow> i + ls_after q < ?m)) [0..<?m] = []" using True n by auto
    ultimately show ?thesis
      using True n unfolding dr iter_lines.simps(2) Let_def by (simp only: option.case list.map)
  next
    case False
    then have m: "n < ?m" using Suc.prems by simp
    then obtain matched where hit: "line_matched q (grep_line (raws ! n)) = Some matched"
      using searched_lines_nth by blast
    have queue: "(if matched then map (pending_at q raws (Suc n)) ?old @ [pending_at q raws (Suc n) n]
       else map (pending_at q raws (Suc n)) ?old) = map (pending_at q raws (Suc n)) ?new"
      using hit by (auto simp: line_hit_def)
    have left: "filter (\<lambda>i. \<not> i + ls_after q \<le> n) ?new = ?left" by (auto intro: filter_cong)
    have IH: "iter_lines q (Suc (Suc n)) (grep_context_lines raws (Suc n - ls_before q) (Suc n))
       (map (pending_at q raws (Suc n)) ?left) (drop (Suc n) raws) =
       (map (match_at q raws)
          (filter (\<lambda>i. line_hit q raws i \<and> Suc n \<le> i + ls_after q \<and>
             (?m < length raws \<longrightarrow> i + ls_after q < ?m)) [0..<?m]), ?m < length raws)"
      using m Suc.hyps(2) by (intro Suc.hyps(1)) simp_all
    have "iter_lines q (Suc n) (grep_context_lines raws (n - ls_before q) n)
       (map (pending_at q raws n) ?old) (drop n raws) =
       (map (match_at q raws) (filter (\<lambda>i. i + ls_after q \<le> n) ?new) @
        map (match_at q raws) (filter (\<lambda>i. line_hit q raws i \<and> Suc n \<le> i + ls_after q \<and>
             (?m < length raws \<longrightarrow> i + ls_after q < ?m)) [0..<?m]), ?m < length raws)"
      unfolding dr iter_lines.simps(2) Let_def fed hit option.case
        pending_at_new [symmetric] queue pop_pending [OF n] left prod.case
        deque_append_context IH by simp
    then show ?thesis
      unfolding filter_window_split [OF m, of "line_hit q raws" "ls_after q" "?m < length raws"] map_append .
  qed
qed

lemma iter_matching_lines_eq: "iter_matching_lines q text = matching_lines_reference q text"
  using iter_lines_reference [of 0 q "stringio_lines text"]
  by (simp add: iter_matching_lines_def matching_lines_reference_def Let_def grep_context_lines_def)

end
