(* ===== verification/Search_Pages.thy ===== *)
theory Search_Pages
  imports Workspace_Search
begin

text \<open>
  The pages of the searches of \<open>workspace/search.py\<close>: what a client gets that asks for page after page.
  A locale states what a paged operation promises; listings and finds of files satisfy
  it because they are slices of one sorted list. The pages of a grep are bounded by the number of
  characters too, so that they are shorter than the limit, and the offset of the next page is
  computed while the matches are streamed.
\<close>

section \<open>Following pages\<close>

text \<open>A client that starts at an offset and asks for the next page until there is none.\<close>

fun follow_pages :: "(nat \<Rightarrow> 'e + 'a result_page) \<Rightarrow> nat \<Rightarrow> nat \<Rightarrow> 'a list option" where
  "follow_pages page 0 offset = None"
| "follow_pages page (Suc fuel) offset =
     (case page offset of
        Inl e \<Rightarrow> None
      | Inr p \<Rightarrow>
          (case rp_next_offset p of
             None \<Rightarrow> Some (rp_items p)
           | Some k \<Rightarrow> map_option (\<lambda>later. rp_items p @ later) (follow_pages page fuel k)))"

text \<open>
  The contract of a paged operation: each page is a piece of one complete result, the next
  offset is where the piece ends, and a page that is not the last one is not empty.
\<close>

locale offset_pages =
  fixes page :: "nat \<Rightarrow> 'e + 'a result_page" and complete :: "'a list"
  assumes page_piece: "offset \<le> length complete \<Longrightarrow>
    \<exists>p n. page offset = Inr p \<and> offset + n \<le> length complete \<and>
      rp_items p = take n (drop offset complete) \<and>
      (if rp_next_offset p = None then offset + n = length complete
       else rp_next_offset p = Some (offset + n) \<and> 0 < n)"
begin

lemma follow_from:
  "offset \<le> length complete \<Longrightarrow> length complete - offset < fuel \<Longrightarrow>
   follow_pages page fuel offset = Some (drop offset complete)"
proof (induction fuel arbitrary: offset)
  case (Suc fuel)
  obtain p n where p: "page offset = Inr p" "offset + n \<le> length complete"
    "rp_items p = take n (drop offset complete)"
    "if rp_next_offset p = None then offset + n = length complete
     else rp_next_offset p = Some (offset + n) \<and> 0 < n"
    using page_piece [OF Suc.prems(1)] by blast
  have join: "take n (drop offset complete) @ drop (offset + n) complete = drop offset complete"
    by (metis add.commute append_take_drop_id drop_drop)
  show ?case
  proof (cases "rp_next_offset p")
    case None
    with p show ?thesis by simp
  next
    case (Some k)
    with p(4) have k: "k = offset + n" "0 < n" by auto
    then have "follow_pages page fuel k = Some (drop k complete)"
      using Suc.prems p(2) by (intro Suc.IH) linarith+
    with Some p(1,3) k join show ?thesis by simp
  qed
qed simp

lemma follow_all: "follow_pages page (Suc (length complete)) 0 = Some complete"
  using follow_from [of 0 "Suc (length complete)"] by (simp del: follow_pages.simps)

end

lemma sorted_page_eq:
  "sorted_page entries key limit offset truncated =
     sequence_page (sort_key key entries) limit offset truncated"
  by (simp add: sorted_page_def nsmallest_def sequence_page_def Let_def drop_take min_def)

lemma sequence_page_piece:
  assumes "offset \<le> length complete" "0 < limit"
  shows "\<exists>n. offset + n \<le> length complete \<and>
    rp_items (sequence_page complete limit offset False) = take n (drop offset complete) \<and>
    (if rp_next_offset (sequence_page complete limit offset False) = None then offset + n = length complete
     else rp_next_offset (sequence_page complete limit offset False) = Some (offset + n) \<and> 0 < n)"
  using assms
  by (intro exI [of _ "min limit (length complete - offset)"])
    (auto simp: sequence_page_def min_def)

interpretation sorted_pages: offset_pages
  "\<lambda>offset. Inr (sorted_page entries key (Suc limit) offset False)" "sort_key key entries"
  for entries :: "'a list" and key :: "'a \<Rightarrow> 'k::linorder" and limit
proof (unfold_locales, unfold sorted_page_eq)
  fix offset
  assume "offset \<le> length (sort_key key entries)"
  from sequence_page_piece [OF this zero_less_Suc [of limit]]
  show "\<exists>p n. Inr (sequence_page (sort_key key entries) (Suc limit) offset False) = Inr p \<and>
      offset + n \<le> length (sort_key key entries) \<and>
      rp_items p = take n (drop offset (sort_key key entries)) \<and>
      (if rp_next_offset p = None then offset + n = length (sort_key key entries)
       else rp_next_offset p = Some (offset + n) \<and> 0 < n)"
    by blast
qed

section \<open>Finding\<close>

definition find_complete ::
  "('re, 'spec) search_lib \<Rightarrow> find_request \<Rightarrow> ustr option \<Rightarrow> search_object list \<Rightarrow> search_entry list" where
  "find_complete lib q glob objects =
     (let entries = find_matching lib q glob objects
      in if fr_sort q = ustr_of ''path'' then sort_key se_path entries
         else sort_key modified_sort_key entries)"

lemma find_matching_offset [simp]:
  "find_matching lib (q\<lparr>fr_offset := i\<rparr>) glob objects = find_matching lib q glob objects"
  by (simp add: find_matching_def)

lemma sort_names_differ: "ustr_of ''path'' \<noteq> ustr_of ''modified''"
  by (simp add: ustr_of_def)

lemma follow_find:
  assumes "1 \<le> fr_limit q" "1 \<le> fr_scan_limit q" "int (length objects) \<le> fr_scan_limit q"
    and "validate_glob (fr_glob q) = Inr glob"
    and "fr_sort q = ustr_of ''path'' \<or> fr_sort q = ustr_of ''modified''"
  shows "follow_pages (\<lambda>offset. find_files lib objects (q\<lparr>fr_offset := int offset\<rparr>))
      (Suc (length (find_complete lib q glob objects))) 0 = Some (find_complete lib q glob objects)"
proof -
  obtain l where l: "nat (fr_limit q) = Suc l" using assms(1) by (metis Suc_pred' zero_less_nat_eq zero_less_one order_less_le_trans)
  have scan: "take (nat (fr_scan_limit q)) objects = objects" "\<not> nat (fr_scan_limit q) < length objects"
    using assms(3) by simp_all
  have ok: "validate_search_page (fr_limit q) (int n) (fr_scan_limit q) False = Inr ()" for n
    using assms(1,2) by (simp add: validate_search_page_def)
  show ?thesis
  proof (cases "fr_sort q = ustr_of ''path''")
    case True
    then have "(\<lambda>offset. find_files lib objects (q\<lparr>fr_offset := int offset\<rparr>)) =
       (\<lambda>offset. Inr (sorted_page (find_matching lib q glob objects) se_path (Suc l) offset False))"
      by (simp add: find_files_def ok assms(4) bounded_objects_def scan l Let_def fun_eq_iff)
    then show ?thesis using True sorted_pages.follow_all by (simp add: find_complete_def Let_def)
  next
    case False
    then have "(\<lambda>offset. find_files lib objects (q\<lparr>fr_offset := int offset\<rparr>)) =
       (\<lambda>offset. Inr (sorted_page (find_matching lib q glob objects) modified_sort_key (Suc l) offset False))"
      using assms(5)
      by (simp add: find_files_def ok assms(4) bounded_objects_def scan l Let_def fun_eq_iff)
    then show ?thesis using False sorted_pages.follow_all by (simp add: find_complete_def Let_def)
  qed
qed

section \<open>Grepping over pages\<close>

text \<open>All results of a scan in order, and whether a search fails after them.\<close>

fun grep_stream ::
  "('re, 'spec) grep_run \<Rightarrow> 'spec ignore_rules \<Rightarrow> search_object list \<Rightarrow> grep_item list \<times> bool" where
  "grep_stream ru rules [] = ([], False)"
| "grep_stream ru rules (item # items) =
     (case grep_file ru rules item of
        (rules', produced, raises) \<Rightarrow>
          (if raises then (produced, True)
           else (case grep_stream ru rules' items of (later, r) \<Rightarrow> (produced @ later, r))))"

lemma collect_append:
  "\<not> gs_stopped s \<Longrightarrow> collect_results offset limit s (xs @ ys) =
     (let s' = collect_results offset limit s xs
      in if gs_stopped s' then s' else collect_results offset limit s' ys)"
  by (induction xs arbitrary: s) (auto simp: Let_def)

lemma grep_loop_stream:
  "\<not> gs_stopped s \<Longrightarrow> grep_loop ru offset limit rules s items =
     (case grep_stream ru rules items of (results, raises) \<Rightarrow>
        let s' = collect_results offset limit s results
        in if gs_stopped s' then Inr s' else if raises then Inl grep_invalid_regex else Inr s')"
proof (induction items arbitrary: rules s)
  case (Cons item items)
  obtain rules' produced raises where f: "grep_file ru rules item = (rules', produced, raises)"
    by (cases "grep_file ru rules item")
  obtain later r where g: "grep_stream ru rules' items = (later, r)"
    by (cases "grep_stream ru rules' items")
  let ?s = "collect_results offset limit s produced"
  show ?case
  proof (cases "gs_stopped ?s")
    case True
    then show ?thesis using Cons.prems by (simp add: f g collect_append Let_def)
  next
    case False
    then show ?thesis using Cons.prems Cons.IH [of ?s rules']
      by (simp add: f g collect_append Let_def)
  qed
qed (simp add: Let_def)

text \<open>Where a page that starts with \<open>page\<close> results of \<open>chars\<close> characters ends.\<close>

lemma collect_taken:
  fixes results :: "grep_item list"
  assumes "offset \<le> gs_matched s" "\<not> gs_stopped s" "\<not> gs_has_more s" "length (gs_page s) \<le> limit"
  shows "\<exists>n. n \<le> length results \<and>
    gs_page (collect_results offset limit s results) = gs_page s @ take n results \<and>
    gs_matched (collect_results offset limit s results) = gs_matched s + n \<and>
    gs_stopped (collect_results offset limit s results) = (n < length results) \<and>
    gs_has_more (collect_results offset limit s results) = (n < length results) \<and>
    (n < length results \<longrightarrow> length (gs_page s) + n = limit \<or>
       MAX_GREP_RESULT_CHARS < gs_chars s + sum_list (map grep_result_chars (take (Suc n) results)))"
  using assms
proof (induction results arbitrary: s)
  case (Cons r rs)
  show ?case
  proof (cases "length (gs_page s) = limit \<or> MAX_GREP_RESULT_CHARS < gs_chars s + grep_result_chars r")
    case True
    with Cons.prems show ?thesis by (intro exI [of _ 0]) auto
  next
    case False
    let ?s = "s\<lparr>gs_page := gs_page s @ [r], gs_chars := gs_chars s + grep_result_chars r,
               gs_matched := gs_matched s + 1\<rparr>"
    have step: "collect_results offset limit s (r # rs) = collect_results offset limit ?s rs"
      using False Cons.prems by simp
    obtain n where n: "n \<le> length rs"
      "gs_page (collect_results offset limit ?s rs) = gs_page ?s @ take n rs"
      "gs_matched (collect_results offset limit ?s rs) = gs_matched ?s + n"
      "gs_stopped (collect_results offset limit ?s rs) = (n < length rs)"
      "gs_has_more (collect_results offset limit ?s rs) = (n < length rs)"
      "n < length rs \<longrightarrow> length (gs_page ?s) + n = limit \<or>
         MAX_GREP_RESULT_CHARS < gs_chars ?s + sum_list (map grep_result_chars (take (Suc n) rs))"
      using Cons.IH [of ?s] Cons.prems False by (auto simp: not_less_eq_eq)
    show ?thesis
      by (intro exI [of _ "Suc n"], simp only: step) (use n in \<open>simp add: ac_simps\<close>)
  qed
qed auto

lemma collect_skip:
  "gs_matched s + k \<le> offset \<Longrightarrow> k \<le> length results \<Longrightarrow>
   collect_results offset limit s results =
     collect_results offset limit (s\<lparr>gs_matched := gs_matched s + k\<rparr>) (drop k results)"
proof (induction k arbitrary: s results)
  case (Suc k)
  then obtain r rs where "results = r # rs" by (cases results) auto
  with Suc.prems Suc.IH [of "s\<lparr>gs_matched := gs_matched s + 1\<rparr>" rs] show ?case by simp
qed simp

lemma collect_page:
  assumes "offset \<le> length results" "0 < limit"
    and "\<And>r. r \<in> set results \<Longrightarrow> grep_result_chars r \<le> MAX_GREP_RESULT_CHARS"
  obtains n where "offset + n \<le> length results"
    "gs_page (collect_results offset limit grep_start results) = take n (drop offset results)"
    "gs_matched (collect_results offset limit grep_start results) = offset + n"
    "gs_stopped (collect_results offset limit grep_start results) = (offset + n < length results)"
    "gs_has_more (collect_results offset limit grep_start results) = (offset + n < length results)"
    "offset + n < length results \<Longrightarrow> 0 < n"
proof -
  let ?s = "grep_start\<lparr>gs_matched := offset\<rparr>"
  have eq: "collect_results offset limit grep_start results = collect_results offset limit ?s (drop offset results)"
    using collect_skip [of grep_start offset offset results limit] assms(1) by (simp add: grep_start_def)
  obtain n where n: "n \<le> length (drop offset results)"
    "gs_page (collect_results offset limit ?s (drop offset results)) = gs_page ?s @ take n (drop offset results)"
    "gs_matched (collect_results offset limit ?s (drop offset results)) = gs_matched ?s + n"
    "gs_stopped (collect_results offset limit ?s (drop offset results)) = (n < length (drop offset results))"
    "gs_has_more (collect_results offset limit ?s (drop offset results)) = (n < length (drop offset results))"
    "n < length (drop offset results) \<longrightarrow> length (gs_page ?s) + n = limit \<or>
       MAX_GREP_RESULT_CHARS < gs_chars ?s + sum_list (map grep_result_chars (take (Suc n) (drop offset results)))"
    using collect_taken [of offset ?s limit "drop offset results"] assms(2) by (auto simp: grep_start_def)
  have "0 < n" if less: "offset + n < length results"
  proof (rule ccontr)
    assume "\<not> 0 < n"
    then have zero: "n = 0" by simp
    with less obtain r rs where r: "drop offset results = r # rs" by (cases "drop offset results") auto
    then have "grep_result_chars r \<le> MAX_GREP_RESULT_CHARS"
      using assms(3) by (metis in_set_dropD list.set_intros(1))
    with n(6) zero r assms(2) show False by (simp add: grep_start_def)
  qed
  moreover have "(n < length (drop offset results)) = (offset + n < length results)"
    using assms(1) by auto
  moreover have "offset + n \<le> length results" using n(1) assms(1) by simp
  moreover have "gs_page ?s = []" "gs_matched ?s = offset" by (simp_all add: grep_start_def)
  ultimately show ?thesis using n(2-5) by (intro that [of n]) (simp_all only: eq append_Nil)
qed

section \<open>Every result fits a page\<close>

lemma grep_context_lines_chars:
  "sum_list (map (\<lambda>(n, line). length line + 16) (grep_context_lines raws lo hi)) \<le> (hi - lo) * 16016"
proof (induction hi)
  case (Suc hi)
  show ?case
  proof (cases "lo \<le> hi")
    case True
    then show ?thesis using Suc by (simp add: grep_context_lines_Suc MAX_GREP_LINE_CHARS_def Suc_diff_le)
  qed (simp add: grep_context_lines_def)
qed (simp add: grep_context_lines_def)

lemma matching_line_chars:
  assumes "m \<in> set (fst (iter_matching_lines q text))"
    and "ls_before q \<le> 20" "ls_after q \<le> 20" "length (ls_path q) \<le> 300000"
  shows "grep_result_chars (GrepContent m) \<le> MAX_GREP_RESULT_CHARS"
proof -
  let ?raws = "stringio_lines text"
  obtain i where i: "m = match_at q ?raws i" "line_hit q ?raws i"
    using assms(1) by (auto simp: iter_matching_lines_eq matching_lines_reference_def Let_def)
  have line: "length (grep_line (?raws ! i)) \<le> 16000"
    using i(2) by (auto simp: line_hit_def line_matched_def MAX_GREP_LINE_CHARS_def split: if_splits)
  have before: "sum_list (map (\<lambda>(n, line). length line + 16) (grep_context_lines ?raws (i - ls_before q) i)) \<le> 20 * 16016"
    by (rule order_trans [OF grep_context_lines_chars mult_le_mono1]) (use assms(2) in simp)
  have "sum_list (map (\<lambda>(n, line). length line + 16)
      (grep_context_lines ?raws (Suc i) (min (length ?raws) (Suc i + ls_after q)))) \<le> 20 * 16016"
    by (rule order_trans [OF grep_context_lines_chars mult_le_mono1]) (use assms(3) in simp)
  with before line assms(4) show ?thesis
    by (simp add: i(1) grep_result_chars_def match_at_def MAX_GREP_RESULT_CHARS_def)
qed

lemma file_produced_chars:
  assumes "r \<in> set (fst (file_produced mode (ls_path q) (iter_matching_lines q text)))"
    and "ls_before q \<le> 20" "ls_after q \<le> 20" "length (ls_path q) \<le> 300000"
  shows "grep_result_chars r \<le> MAX_GREP_RESULT_CHARS"
proof -
  have "r = GrepPath (ls_path q) \<or> (\<exists>n. r = GrepCount (ls_path q) n) \<or>
      (\<exists>m\<in>set (fst (iter_matching_lines q text)). r = GrepContent m)"
    using assms(1) by (auto simp: file_produced_def split: prod.splits if_splits)
  then show ?thesis
    using matching_line_chars [OF _ assms(2-4)] assms(4)
    by (auto simp: grep_result_chars_def MAX_GREP_RESULT_CHARS_def)
qed

lemma grep_file_chars:
  assumes "r \<in> set (fst (snd (grep_file ru rules item)))" "length (so_path item) \<le> 300000"
    and "gr_context_before (ru_request ru) \<le> 20" "gr_context_after (ru_request ru) \<le> 20"
  shows "grep_result_chars r \<le> MAX_GREP_RESULT_CHARS"
proof -
  let ?q = "\<lparr>ls_search = (\<lambda>line. regex_search (ru_lib ru) (ru_re ru) line (gr_timeout (ru_request ru))),
     ls_path = so_path item, ls_before = nat (gr_context_before (ru_request ru)),
     ls_after = nat (gr_context_after (ru_request ru))\<rparr>"
  obtain body where "r \<in> set (fst (file_produced (gr_output_mode (ru_request ru)) (ls_path ?q)
      (iter_matching_lines ?q body)))"
    using assms(1) by (simp add: grep_file_def Let_def split: option.splits if_splits)
  then show ?thesis by (rule file_produced_chars) (use assms in simp_all)
qed

lemma grep_stream_chars:
  assumes "r \<in> set (fst (grep_stream ru rules items))"
    and "\<And>item. item \<in> set items \<Longrightarrow> length (so_path item) \<le> 300000"
    and "gr_context_before (ru_request ru) \<le> 20" "gr_context_after (ru_request ru) \<le> 20"
  shows "grep_result_chars r \<le> MAX_GREP_RESULT_CHARS"
  using assms(1,2)
proof (induction items arbitrary: rules)
  case (Cons item items)
  obtain rules' produced raises where f: "grep_file ru rules item = (rules', produced, raises)"
    by (cases "grep_file ru rules item")
  have "r \<in> set produced \<or> r \<in> set (fst (grep_stream ru rules' items))"
    using Cons.prems(1) by (auto simp: f split: if_splits prod.splits)
  then show ?case
  proof
    assume "r \<in> set produced"
    then show ?thesis using grep_file_chars [of r ru rules item] Cons.prems(2) assms(3,4) by (simp add: f)
  next
    assume "r \<in> set (fst (grep_stream ru rules' items))"
    then show ?thesis by (rule Cons.IH) (use Cons.prems(2) in simp)
  qed
qed simp

section \<open>Pages of a grep\<close>

lemma grep_run_offset:
  "grep_stream (grep_run_of lib re glob (q\<lparr>gr_offset := i\<rparr>)) rules items =
   grep_stream (grep_run_of lib re glob q) rules items"
proof -
  have "grep_file (grep_run_of lib re glob (q\<lparr>gr_offset := i\<rparr>)) rules item =
      grep_file (grep_run_of lib re glob q) rules item" for rules item
    by (simp add: grep_file_def grep_run_of_def Let_def split: option.split)
  then show ?thesis by (induction items arbitrary: rules) (simp_all split: prod.split)
qed

definition grep_arguments_ok :: "('re, 'spec) search_lib \<Rightarrow> grep_request \<Rightarrow> 're \<Rightarrow> ustr option \<Rightarrow> bool" where
  "grep_arguments_ok lib q re glob \<longleftrightarrow>
     0 \<le> gr_limit q \<and> 1 \<le> gr_scan_limit q \<and> 0 \<le> gr_context_before q \<and> 0 \<le> gr_context_after q \<and>
     gr_output_mode q \<in> {ustr_of ''content'', ustr_of ''files_with_matches'', ustr_of ''count''} \<and>
     compile_pattern lib (gr_pattern q) (gr_case_insensitive q) (gr_fixed_strings q) (gr_timeout q) = Inr re \<and>
     validate_glob (gr_glob q) = Inr glob"

lemma grep_files_eq:
  assumes "grep_arguments_ok lib q re glob" "int (length objects) \<le> gr_scan_limit q"
    and "grep_stream (grep_run_of lib re glob q) [] (sort_key so_path objects) = (results, False)"
  shows "grep_files lib objects (q\<lparr>gr_offset := int offset\<rparr>) =
    (let s = collect_results offset (effective_limit q) grep_start results
     in Inr \<lparr>rp_items = gs_page s,
             rp_next_offset = (if gs_has_more s then Some (gs_matched s) else None),
             rp_truncated = False\<rparr>)"
proof -
  have scan: "take (nat (gr_scan_limit q)) objects = objects" "\<not> nat (gr_scan_limit q) < length objects"
    using assms(2) by simp_all
  have "\<not> gs_stopped grep_start" by (simp add: grep_start_def)
  note loop = grep_loop_stream [OF this, where rules = "[]" and items = "sort_key so_path objects"
      and ru = "grep_run_of lib re glob (q\<lparr>gr_offset := int offset\<rparr>)", unfolded grep_run_offset assms(3)]
  show ?thesis
    using assms(1)
    by (simp add: grep_files_def grep_arguments_ok_def validate_search_page_def bounded_objects_def scan
        guard_result_def loop Let_def effective_limit_def)
qed

lemma grep_offset_pages:
  assumes "grep_arguments_ok lib q re glob" "int (length objects) \<le> gr_scan_limit q"
    and "gr_context_before q \<le> 20" "gr_context_after q \<le> 20"
    and "\<And>item. item \<in> set objects \<Longrightarrow> length (so_path item) \<le> 300000"
    and "grep_stream (grep_run_of lib re glob q) [] (sort_key so_path objects) = (results, False)"
  shows "offset_pages (\<lambda>offset. grep_files lib objects (q\<lparr>gr_offset := int offset\<rparr>)) results"
proof (unfold_locales, unfold grep_files_eq [OF assms(1,2,6)] Let_def)
  fix offset
  assume off: "offset \<le> length results"
  have lim: "0 < effective_limit q" using assms(1) by (auto simp: grep_arguments_ok_def effective_limit_def)
  have fits: "grep_result_chars r \<le> MAX_GREP_RESULT_CHARS" if "r \<in> set results" for r
    by (rule grep_stream_chars [of r "grep_run_of lib re glob q" "[]" "sort_key so_path objects"])
      (use that assms in \<open>simp_all add: grep_run_of_def\<close>)
  obtain n where n: "offset + n \<le> length results"
    "gs_page (collect_results offset (effective_limit q) grep_start results) = take n (drop offset results)"
    "gs_matched (collect_results offset (effective_limit q) grep_start results) = offset + n"
    "gs_has_more (collect_results offset (effective_limit q) grep_start results) = (offset + n < length results)"
    "offset + n < length results \<Longrightarrow> 0 < n"
    using collect_page [OF off lim fits] by metis
  show "\<exists>p k. Inr \<lparr>rp_items = gs_page (collect_results offset (effective_limit q) grep_start results),
      rp_next_offset = (if gs_has_more (collect_results offset (effective_limit q) grep_start results)
        then Some (gs_matched (collect_results offset (effective_limit q) grep_start results)) else None),
      rp_truncated = False\<rparr> = Inr p \<and> offset + k \<le> length results \<and>
      rp_items p = take k (drop offset results) \<and>
      (if rp_next_offset p = None then offset + k = length results
       else rp_next_offset p = Some (offset + k) \<and> 0 < k)"
    by (rule exI, rule exI [of _ n], intro conjI, rule refl)
      (use n in auto)
qed

section \<open>Recursive listings\<close>

definition listed :: "ustr \<Rightarrow> search_object \<Rightarrow> bool" where
  "listed root item \<longleftrightarrow>
     (case relative_to_root (so_path item) root of
        None \<Rightarrow> False | Some relative \<Rightarrow> relative \<noteq> [] \<and> \<not> contains_noise relative)"

text \<open>The directories between the root and an object.\<close>

definition ancestors :: "ustr \<Rightarrow> search_object \<Rightarrow> ustr list" where
  "ancestors root item =
     (case relative_to_root (so_path item) root of
        None \<Rightarrow> []
      | Some relative \<Rightarrow>
          let parts = px_parts (posix_path relative)
          in map (ancestor_path root parts) [1..<length parts])"

definition latest_of :: "int option list \<Rightarrow> int option" where
  "latest_of ts = foldl latest_modified None ts"

lemma latest_modified_idem [simp]:
  "latest_modified (latest_modified x m) m = latest_modified x m"
  by (cases x; cases m) (simp_all add: latest_modified_def)

lemma add_directories_get:
  "dict_get (add_directories root parts m idxs dirs) d =
     (if d \<in> ancestor_path root parts ` set idxs then Some (latest_modified (dict_get_default dirs d None) m)
      else dict_get dirs d)"
  by (induction root parts m idxs dirs rule: add_directories.induct)
    (auto simp: Let_def dict_get_default_def split: if_splits option.splits)

lemma add_directories_wf: "dict_wf dirs \<Longrightarrow> dict_wf (add_directories root parts m idxs dirs)"
  by (induction root parts m idxs dirs rule: add_directories.induct) (simp_all add: Let_def)

lemma recursive_loop_spec:
  assumes "dict_wf dirs"
  shows "\<exists>dirs'. recursive_loop root items files dirs =
      (files @ map file_entry (filter (listed root) items), dirs') \<and> dict_wf dirs' \<and>
    (\<forall>d. dict_get dirs' d =
      (if \<exists>item\<in>set items. listed root item \<and> d \<in> set (ancestors root item)
       then Some (foldl latest_modified (dict_get_default dirs d None)
         (map so_modified (filter (\<lambda>item. listed root item \<and> d \<in> set (ancestors root item)) items)))
       else dict_get dirs d))"
  using assms
proof (induction items arbitrary: files dirs)
  case (Cons item items)
  show ?case
  proof (cases "listed root item")
    case False
    then have "recursive_loop root (item # items) files dirs = recursive_loop root items files dirs"
      by (auto simp: listed_def split: option.splits)
    then show ?thesis using Cons.IH [OF Cons.prems, of files] False by (simp split del: if_split cong: if_cong)
  next
    case True
    then obtain relative where rel: "relative_to_root (so_path item) root = Some relative"
      "relative \<noteq> []" "\<not> contains_noise relative" by (auto simp: listed_def split: option.splits)
    let ?parts = "px_parts (posix_path relative)"
    let ?dirs = "add_directories root ?parts (so_modified item) [1..<length ?parts] dirs"
    have anc: "set (ancestors root item) = ancestor_path root ?parts ` set [1..<length ?parts]"
      by (simp add: ancestors_def rel Let_def)
    have step: "recursive_loop root (item # items) files dirs =
        recursive_loop root items (files @ [file_entry item]) ?dirs"
      by (simp add: rel Let_def)
    obtain dirs' where d: "recursive_loop root items (files @ [file_entry item]) ?dirs =
        ((files @ [file_entry item]) @ map file_entry (filter (listed root) items), dirs')" "dict_wf dirs'"
      "\<forall>d. dict_get dirs' d =
        (if \<exists>item\<in>set items. listed root item \<and> d \<in> set (ancestors root item)
         then Some (foldl latest_modified (dict_get_default ?dirs d None)
           (map so_modified (filter (\<lambda>item. listed root item \<and> d \<in> set (ancestors root item)) items)))
         else dict_get ?dirs d)"
      using Cons.IH [OF add_directories_wf [OF Cons.prems], of "files @ [file_entry item]"] by blast
    have get: "dict_get ?dirs d = (if d \<in> set (ancestors root item)
        then Some (latest_modified (dict_get_default dirs d None) (so_modified item)) else dict_get dirs d)" for d
      unfolding anc by (rule add_directories_get)
    then have default: "dict_get_default ?dirs d None = (if d \<in> set (ancestors root item)
        then latest_modified (dict_get_default dirs d None) (so_modified item)
        else dict_get_default dirs d None)" for d
      by (simp add: dict_get_default_def)
    show ?thesis
    proof (intro exI conjI allI)
      show "recursive_loop root (item # items) files dirs =
          (files @ map file_entry (filter (listed root) (item # items)), dirs')"
        unfolding step d(1) using True by simp
      show "dict_wf dirs'" by (rule d(2))
    next
      fix d
      show "dict_get dirs' d =
        (if \<exists>i\<in>set (item # items). listed root i \<and> d \<in> set (ancestors root i)
         then Some (foldl latest_modified (dict_get_default dirs d None)
           (map so_modified (filter (\<lambda>i. listed root i \<and> d \<in> set (ancestors root i)) (item # items))))
         else dict_get dirs d)"
        unfolding d(3) [rule_format] get default using True by (auto simp: filter_empty_conv)
    qed
  qed
qed simp

lemma recursive_entries_spec:
  obtains dirs where "recursive_entries objects root =
      map file_entry (filter (listed root) (sort_key so_path objects)) @ map directory_entry dirs"
    "distinct (map fst dirs)"
    "\<And>d m. (d, m) \<in> set dirs \<longleftrightarrow>
      (\<exists>item\<in>set objects. listed root item \<and> d \<in> set (ancestors root item)) \<and>
      m = latest_of (map so_modified
        (filter (\<lambda>item. listed root item \<and> d \<in> set (ancestors root item)) (sort_key so_path objects)))"
proof -
  let ?xs = "sort_key so_path objects"
  obtain dirs where d: "recursive_loop root ?xs [] [] =
      ([] @ map file_entry (filter (listed root) ?xs), dirs)" "dict_wf dirs"
    "\<forall>d. dict_get dirs d =
      (if \<exists>item\<in>set ?xs. listed root item \<and> d \<in> set (ancestors root item)
       then Some (foldl latest_modified (dict_get_default [] d None)
         (map so_modified (filter (\<lambda>item. listed root item \<and> d \<in> set (ancestors root item)) ?xs)))
       else dict_get [] d)"
    using recursive_loop_spec [OF dict_wf_empty, of root ?xs "[]"] by blast
  have "(e, m) \<in> set dirs \<longleftrightarrow>
      (\<exists>item\<in>set objects. listed root item \<and> e \<in> set (ancestors root item)) \<and>
      m = latest_of (map so_modified
        (filter (\<lambda>item. listed root item \<and> e \<in> set (ancestors root item)) (sort_key so_path objects)))"
    for e m
    unfolding dict_wf_get_iff [OF d(2), symmetric] d(3) [rule_format] latest_of_def by auto
  then show ?thesis
    by (intro that [of dirs]) (use d(1,2) in \<open>simp_all add: recursive_entries_def dict_wf_def\<close>)
qed

lemma follow_list:
  assumes "1 \<le> limit" "1 \<le> scan_limit" "int (length objects) \<le> scan_limit"
  shows "follow_pages (\<lambda>offset. list_recursive objects root limit (int offset) scan_limit)
      (Suc (length (recursive_entries objects (normalize_root root)))) 0 =
    Some (sort_key se_path (recursive_entries objects (normalize_root root)))"
proof -
  obtain l where l: "nat limit = Suc l" using assms(1) by (metis Suc_pred' zero_less_nat_eq zero_less_one order_less_le_trans)
  have scan: "take (nat scan_limit) objects = objects" "\<not> nat scan_limit < length objects"
    using assms(3) by simp_all
  have "(\<lambda>offset. list_recursive objects root limit (int offset) scan_limit) =
     (\<lambda>offset. Inr (sorted_page (recursive_entries objects (normalize_root root)) se_path (Suc l) offset False))"
    using assms(1,2)
    by (simp add: list_recursive_def validate_search_page_def guard_result_def bounded_objects_def scan l
        Let_def fun_eq_iff)
  then show ?thesis
    using sorted_pages.follow_all [of "recursive_entries objects (normalize_root root)" se_path l] by simp
qed

section \<open>Properties\<close>

definition demo_lib :: "(ustr, ustr) search_lib" where
  "demo_lib = \<lparr>fnmatchcase = (\<lambda>path pattern. path = pattern), casefold = (\<lambda>s. s),
     regex_escape = (\<lambda>s. s), regex_compile = (\<lambda>s ci. Some s),
     regex_search = (\<lambda>re line t. Some (py_contains line re)), decode_replace = (\<lambda>bs. bs),
     spec_from_lines = (\<lambda>ls. concat ls),
     spec_check_file = (\<lambda>spec relative. if spec = [42] \<or> spec = relative then Some True else None)\<rparr>"

definition demo_object :: "ustr \<Rightarrow> nat list \<Rightarrow> search_object" where
  "demo_object path content = \<lparr>so_path = path, so_size = int (length content), so_modified = None,
     so_content = Some content\<rparr>"

definition demo_grep :: "ustr \<Rightarrow> int \<Rightarrow> grep_request" where
  "demo_grep mode limit = \<lparr>gr_pattern = [120], gr_root = [], gr_glob = None, gr_file_type = None,
     gr_case_insensitive = False, gr_fixed_strings = True, gr_output_mode = mode, gr_context_before = 1,
     gr_context_after = 1, gr_limit = limit, gr_offset = 0, gr_scan_limit = 10, gr_timeout = 50000\<rparr>"

lemmas search_eval = demo_lib_def demo_object_def demo_grep_def grep_run_of_def grep_file_def
  relative_to_root_def normalize_root_def py_strip_chars_def py_lstrip_chars_def py_rstrip_chars_def
  contains_noise_def NOISE_DIRECTORIES_def px_parts_def posix_path_def posix_root_def px_name_def
  py_split_def ignore_matches_def searchable_text_def MAX_GREP_BYTES_def matches_path_filters_def
  extensions_for_def utf8_decode.simps file_produced_def iter_matching_lines_def stringio_lines_def
  grep_line_def line_matched_def MAX_GREP_LINE_CHARS_def pm_feed_def pm_complete_def deque_append_def
  py_startswith_def py_contains_def ustr_of_def

lemma demo_stream:
  "grep_stream (grep_run_of demo_lib [120] None (demo_grep (ustr_of ''count'') 1)) []
     (sort_key so_path [demo_object [98] [120], demo_object [97] [120, 10, 121, 10, 120]]) =
   ([GrepCount [97] 2, GrepCount [98] 1], False)"
  by (simp add: search_eval Let_def)

lemma demo_stream_alone:
  "grep_stream (grep_run_of demo_lib [120] None (demo_grep (ustr_of ''files_with_matches'') 0)) []
     (sort_key so_path [demo_object (ustr_of ''.gitignore'') [42], demo_object (ustr_of ''+x'') [120],
        demo_object (ustr_of ''y'') [120]]) = ([GrepPath (ustr_of ''+x'')], False)"
  by (simp add: search_eval Let_def ignore_add_def px_str_def px_parent_def py_splitlines_def
      py_is_linebreak_def)

text \<open>
  The scan reads the \<open>.gitignore\<close> of a directory when it reaches it in the order of paths, so a
  file whose name sorts before \<open>.gitignore\<close> (a name that starts with one of the characters from
  the space to the minus sign) is searched although the rules ignore it: here the rules ignore
  everything, and \<open>+x\<close> is found while \<open>y\<close> is not.
\<close>

lemma gitignore_order_gap:
  "rp_items (projr (grep_files demo_lib
      [demo_object (ustr_of ''.gitignore'') [42], demo_object (ustr_of ''+x'') [120],
       demo_object (ustr_of ''y'') [120]] (demo_grep (ustr_of ''files_with_matches'') 0))) =
   [GrepPath (ustr_of ''+x'')]"
proof -
  have ok: "grep_arguments_ok demo_lib (demo_grep (ustr_of ''files_with_matches'') 0) [120] None"
    by (simp add: grep_arguments_ok_def demo_grep_def demo_lib_def compile_pattern_def
        MAX_REGEX_PATTERN_CHARS_def validate_glob_def)
  have start: "collect_results 0 10 grep_start [GrepPath (ustr_of ''+x'')] =
      \<lparr>gs_page = [GrepPath (ustr_of ''+x'')], gs_matched = 1, gs_chars = 2, gs_has_more = False,
       gs_stopped = False\<rparr>"
    by (simp add: grep_start_def grep_result_chars_def MAX_GREP_RESULT_CHARS_def ustr_of_def)
  show ?thesis
    using grep_files_eq [OF ok _ demo_stream_alone, of 0] start
    by (simp add: demo_grep_def effective_limit_def)
qed

text \<open>
  C28. Grep with context. The matches that the streaming search of a text yields, with its bounded
  deque of lines before and its queue of matches that still wait for lines after, are exactly
  those of the reference: for every line that matches and has at most 16000 characters, in order,
  one match with the up to \<open>context_before\<close> numbered lines before it and the up to
  \<open>context_after\<close> lines after it, cut to 16000 characters. If the search of a line fails or times
  out, the generator has yielded exactly the matches whose context was complete before that
  line, and then raises.
\<close>

theorem grep_context_reference: "iter_matching_lines q text = matching_lines_reference q text"
  by (rule iter_matching_lines_eq)

text \<open>
  Pages of \<open>find_files\<close>. A client that starts at offset 0 and follows \<open>next_offset\<close> ends after
  finitely many pages, for every page size, and receives every entry that matches the request
  exactly once, in the requested order, as long as the objects fit the scan limit.
\<close>

theorem find_pages_complete:
  assumes "1 \<le> fr_limit q" "1 \<le> fr_scan_limit q" "int (length objects) \<le> fr_scan_limit q"
    and "validate_glob (fr_glob q) = Inr glob"
    and "fr_sort q = ustr_of ''path'' \<or> fr_sort q = ustr_of ''modified''"
  shows "\<exists>entries fuel. follow_pages (\<lambda>offset. find_files lib objects (q\<lparr>fr_offset := int offset\<rparr>)) fuel 0 =
      Some entries \<and> mset entries = mset (find_matching lib q glob objects) \<and>
    (if fr_sort q = ustr_of ''path'' then sorted (map se_path entries)
     else sorted (map modified_sort_key entries))"
proof (intro exI conjI)
  show "follow_pages (\<lambda>offset. find_files lib objects (q\<lparr>fr_offset := int offset\<rparr>))
      (Suc (length (find_complete lib q glob objects))) 0 = Some (find_complete lib q glob objects)"
    by (rule follow_find [OF assms])
qed (simp_all add: find_complete_def Let_def)

definition demo_find :: find_request where
  "demo_find = \<lparr>fr_root = [], fr_query = [97], fr_glob = None, fr_file_type = None,
     fr_include_dirs = False, fr_sort = ustr_of ''path'', fr_limit = 1, fr_offset = 0, fr_scan_limit = 5\<rparr>"

theorem find_pages_complete_witness:
  "\<exists>entries fuel. follow_pages
      (\<lambda>offset. find_files demo_lib [demo_object [97, 98] [], demo_object [97] []]
         (demo_find\<lparr>fr_offset := int offset\<rparr>)) fuel 0 = Some entries \<and>
    mset entries = mset (map file_entry [demo_object [97, 98] [], demo_object [97] []]) \<and>
    sorted (map se_path entries)"
proof -
  have "find_matching demo_lib demo_find None [demo_object [97, 98] [], demo_object [97] []] =
      map file_entry [demo_object [97, 98] [], demo_object [97] []]"
    by code_simp
  moreover have "fr_sort demo_find = ustr_of ''path''" by (simp add: demo_find_def)
  moreover have "1 \<le> fr_limit demo_find" "1 \<le> fr_scan_limit demo_find"
    "int (length [demo_object [97, 98] [], demo_object [97] []]) \<le> fr_scan_limit demo_find"
    "validate_glob (fr_glob demo_find) = Inr None"
    by (simp_all add: demo_find_def validate_glob_def)
  ultimately show ?thesis
    using find_pages_complete [of demo_find "[demo_object [97, 98] [], demo_object [97] []]" None demo_lib]
    by (simp only: simp_thms if_True)
qed

text \<open>
  Recursive listings. Following the pages of \<open>list_recursive\<close> yields, sorted by path, one entry
  for each object below the root that is not inside a noise directory, and one directory entry,
  never two, for each directory between the root and such an object, with the latest time of
  modification below it.
\<close>

theorem recursive_listing_complete:
  assumes "1 \<le> limit" "1 \<le> scan_limit" "int (length objects) \<le> scan_limit" "r = normalize_root root"
  shows "\<exists>entries dirs fuel.
    follow_pages (\<lambda>offset. list_recursive objects root limit (int offset) scan_limit) fuel 0 = Some entries \<and>
    sorted (map se_path entries) \<and>
    mset entries = mset (map file_entry (filter (listed r) objects)) + mset (map directory_entry dirs) \<and>
    distinct (map fst dirs) \<and>
    (\<forall>d m. (d, m) \<in> set dirs \<longleftrightarrow>
      (\<exists>item\<in>set objects. listed r item \<and> d \<in> set (ancestors r item)) \<and>
      m = latest_of (map so_modified
        (filter (\<lambda>item. listed r item \<and> d \<in> set (ancestors r item)) (sort_key so_path objects))))"
proof -
  obtain dirs where dirs: "recursive_entries objects r =
      map file_entry (filter (listed r) (sort_key so_path objects)) @ map directory_entry dirs"
    "distinct (map fst dirs)"
    "\<And>d m. (d, m) \<in> set dirs \<longleftrightarrow>
      (\<exists>item\<in>set objects. listed r item \<and> d \<in> set (ancestors r item)) \<and>
      m = latest_of (map so_modified
        (filter (\<lambda>item. listed r item \<and> d \<in> set (ancestors r item)) (sort_key so_path objects)))"
    using recursive_entries_spec [of objects r] by blast
  have "mset (sort_key se_path (recursive_entries objects r)) =
      mset (map file_entry (filter (listed r) objects)) + mset (map directory_entry dirs)"
    by (simp add: dirs(1) mset_map mset_filter)
  with follow_list [OF assms(1-3), of root] dirs(2,3) show ?thesis
    unfolding assms(4) [symmetric]
    by (intro exI [of _ "sort_key se_path (recursive_entries objects r)"] exI [of _ dirs] exI conjI allI)
      (assumption | rule sorted_sort_key)+
qed

theorem recursive_listing_complete_witness:
  "\<exists>entries dirs fuel.
    follow_pages (\<lambda>offset. list_recursive [demo_object [97, 47, 98] [], demo_object [99] []] [] 1
        (int offset) 5) fuel 0 = Some entries \<and>
    mset entries = mset (map file_entry [demo_object [97, 47, 98] [], demo_object [99] []]) +
      mset (map directory_entry dirs) \<and> ([97], None) \<in> set dirs"
proof -
  let ?objs = "[demo_object [97, 47, 98] [], demo_object [99] []]"
  have root: "[] = normalize_root []"
    by (simp add: normalize_root_def py_strip_chars_def py_lstrip_chars_def py_rstrip_chars_def)
  have bounds: "(1::int) \<le> 1" "(1::int) \<le> 5" "int (length ?objs) \<le> 5" by simp_all
  have facts: "filter (listed []) ?objs = ?objs"
    "(\<exists>item\<in>set ?objs. listed [] item \<and> [97] \<in> set (ancestors [] item)) = True"
    "latest_of (map so_modified (filter (\<lambda>item. listed [] item \<and> [97] \<in> set (ancestors [] item))
       (sort_key so_path ?objs))) = None"
    by code_simp+
  obtain entries dirs fuel where run:
    "follow_pages (\<lambda>offset. list_recursive ?objs [] 1 (int offset) 5) fuel 0 = Some entries"
    "mset entries = mset (map file_entry (filter (listed []) ?objs)) + mset (map directory_entry dirs)"
    "\<forall>d m. (d, m) \<in> set dirs \<longleftrightarrow>
      (\<exists>item\<in>set ?objs. listed [] item \<and> d \<in> set (ancestors [] item)) \<and>
      m = latest_of (map so_modified (filter (\<lambda>item. listed [] item \<and> d \<in> set (ancestors [] item))
        (sort_key so_path ?objs)))"
    using recursive_listing_complete [OF bounds root] by blast
  have "([97], None) \<in> set dirs" unfolding run(3) [rule_format] facts by simp
  with run(1,2) show ?thesis unfolding facts(1) by blast
qed

text \<open>
  C29. Pages of \<open>grep_files\<close>. If no search fails and the objects fit the scan limit, a client that
  follows \<open>next_offset\<close> from 0 ends and receives exactly the results of the whole scan in order,
  for every page size and output mode. A page also ends when it holds a million characters; with
  the 20 lines of context that every caller allows at most, and paths of up to 300000 characters,
  a single result always fits, so no page is empty before the end and the offset always advances.
\<close>

theorem grep_pages_complete:
  assumes "grep_arguments_ok lib q re glob" "int (length objects) \<le> gr_scan_limit q"
    and "gr_context_before q \<le> 20" "gr_context_after q \<le> 20"
    and "\<forall>item\<in>set objects. length (so_path item) \<le> 300000"
    and "grep_stream (grep_run_of lib re glob q) [] (sort_key so_path objects) = (results, False)"
  shows "follow_pages (\<lambda>offset. grep_files lib objects (q\<lparr>gr_offset := int offset\<rparr>))
    (Suc (length results)) 0 = Some results"
  by (rule offset_pages.follow_all [OF grep_offset_pages [OF assms(1-4) _ assms(6)]]) (use assms(5) in blast)

theorem grep_pages_complete_witness:
  "follow_pages (\<lambda>offset. grep_files demo_lib
      [demo_object [98] [120], demo_object [97] [120, 10, 121, 10, 120]]
      (demo_grep (ustr_of ''count'') 1\<lparr>gr_offset := int offset\<rparr>)) 3 0 =
    Some [GrepCount [97] 2, GrepCount [98] 1]"
proof -
  have ok: "grep_arguments_ok demo_lib (demo_grep (ustr_of ''count'') 1) [120] None"
    by (simp add: grep_arguments_ok_def demo_grep_def demo_lib_def compile_pattern_def
        MAX_REGEX_PATTERN_CHARS_def validate_glob_def)
  have "Suc (length [GrepCount [97] 2, GrepCount [98] 1]) = 3" by simp
  with grep_pages_complete [OF ok _ _ _ _ demo_stream] show ?thesis
    by (simp add: demo_grep_def demo_object_def numeral_3_eq_3 del: follow_pages.simps)
qed

end
