(* ===== verification/Notebook_Edit.thy ===== *)
theory Notebook_Edit
  imports Py_Json Error_Codes
begin

text \<open>
  Editing Jupyter notebooks: \<open>workspace/notebook.py\<close>.

  A parsed document is a \<open>json\<close> value. The reader and the writer of the \<open>json\<close> module are the
  parameters \<open>loads\<close> and \<open>dumps\<close>; the theorems hold for all of them. A \<open>ToolError\<close> is \<open>ToolFault\<close>
  with its code. \<open>UnhashableFault\<close> is the \<open>TypeError\<close> of testing a list or an object for
  membership in a set, which the source does not catch.
\<close>

datatype notebook_fault = ToolFault error_code | UnhashableFault

fun is_json_dict :: "json \<Rightarrow> bool" where
  "is_json_dict (JObj d) = True"
| "is_json_dict _ = False"

fun is_json_list :: "json \<Rightarrow> bool" where
  "is_json_list (JList xs) = True"
| "is_json_list _ = False"

fun is_json_str :: "json \<Rightarrow> bool" where
  "is_json_str (JStr s) = True"
| "is_json_str _ = False"

abbreviation k_cells :: ustr where "k_cells \<equiv> ustr_of ''cells''"
abbreviation k_metadata :: ustr where "k_metadata \<equiv> ustr_of ''metadata''"
abbreviation k_cell_type :: ustr where "k_cell_type \<equiv> ustr_of ''cell_type''"
abbreviation k_source :: ustr where "k_source \<equiv> ustr_of ''source''"
abbreviation k_outputs :: ustr where "k_outputs \<equiv> ustr_of ''outputs''"
abbreviation v_code :: ustr where "v_code \<equiv> ustr_of ''code''"
abbreviation v_markdown :: ustr where "v_markdown \<equiv> ustr_of ''markdown''"
abbreviation v_raw :: ustr where "v_raw \<equiv> ustr_of ''raw''"

abbreviation invalid_notebook :: "notebook_fault + 'a" where
  "invalid_notebook \<equiv> Inl (ToolFault TOOL_INVALID_NOTEBOOK)"

definition source_ok :: "json option \<Rightarrow> bool" where
  "source_ok source =
     (case source of
        Some (JStr s) \<Rightarrow> True
      | Some (JList parts) \<Rightarrow> list_all is_json_str parts
      | _ \<Rightarrow> False)"

definition metadata_ok :: "(ustr, json) dict \<Rightarrow> bool" where
  "metadata_ok d = (case dict_get d k_metadata of None \<Rightarrow> True | Some m \<Rightarrow> is_json_dict m)"

definition validate_cell :: "json \<Rightarrow> notebook_fault + unit" where
  "validate_cell v =
     (case v of
        JObj d \<Rightarrow>
          (case dict_get d k_cell_type of
             Some (JList xs) \<Rightarrow> Inl UnhashableFault
           | Some (JObj o') \<Rightarrow> Inl UnhashableFault
           | Some (JStr t) \<Rightarrow>
               (if t \<notin> {v_code, v_markdown, v_raw} then invalid_notebook
                else if \<not> source_ok (dict_get d k_source) then invalid_notebook
                else if \<not> metadata_ok d then invalid_notebook
                else if t = v_code \<and> \<not> (case dict_get d k_outputs of None \<Rightarrow> False | Some x \<Rightarrow> is_json_list x)
                  then invalid_notebook
                else Inr ())
           | _ \<Rightarrow> invalid_notebook)
      | _ \<Rightarrow> invalid_notebook)"

fun validate_cells :: "json list \<Rightarrow> notebook_fault + unit" where
  "validate_cells [] = Inr ()"
| "validate_cells (c # cs) = bind_result (validate_cell c) (\<lambda>_. validate_cells cs)"

text \<open>The notebook with its cells, which the caller edits in place.\<close>

definition check_notebook :: "json \<Rightarrow> notebook_fault + (ustr, json) dict \<times> json list" where
  "check_notebook v =
     (case v of
        JObj d \<Rightarrow>
          (case dict_get d k_cells of
             Some (JList cells) \<Rightarrow>
               (if \<not> metadata_ok d then invalid_notebook
                else bind_result (validate_cells cells) (\<lambda>_. Inr (d, cells)))
           | _ \<Rightarrow> invalid_notebook)
      | _ \<Rightarrow> invalid_notebook)"

definition parse_notebook ::
  "(ustr \<Rightarrow> json option) \<Rightarrow> ustr \<Rightarrow> notebook_fault + (ustr, json) dict \<times> json list" where
  "parse_notebook loads content =
     (case loads content of None \<Rightarrow> invalid_notebook | Some v \<Rightarrow> check_notebook v)"

definition new_cell :: "ustr \<Rightarrow> ustr \<Rightarrow> json" where
  "new_cell cell_type source =
     (let cell = [(k_cell_type, JStr cell_type), (k_metadata, JObj []), (k_source, JStr source)]
      in JObj (if cell_type = v_code
               then cell @ [(ustr_of ''execution_count'', JNull), (k_outputs, JList [])] else cell))"

definition insert_cell :: "nat \<Rightarrow> 'a \<Rightarrow> 'a list \<Rightarrow> 'a list" where
  "insert_cell i x xs = take i xs @ [x] @ drop i xs"

fun set_cell_source :: "ustr \<Rightarrow> json \<Rightarrow> json" where
  "set_cell_source source (JObj d) = JObj (dict_set k_source (JStr source) d)"
| "set_cell_source source v = v"

definition edit_cells :: "ustr \<Rightarrow> nat \<Rightarrow> ustr \<Rightarrow> ustr \<Rightarrow> json list \<Rightarrow> json list" where
  "edit_cells edit_mode i cell_type source cells =
     (if edit_mode = ustr_of ''delete'' then take i cells @ drop (Suc i) cells
      else if edit_mode = ustr_of ''insert'' then insert_cell (i + 1) (new_cell cell_type source) cells
      else cells[i := set_cell_source source (cells ! i)])"

definition edit_notebook ::
  "(ustr \<Rightarrow> json option) \<Rightarrow> (json \<Rightarrow> ustr) \<Rightarrow> ustr \<Rightarrow> int \<Rightarrow> ustr option \<Rightarrow> ustr \<Rightarrow> ustr \<Rightarrow>
   notebook_fault + ustr" where
  "edit_notebook loads dumps content cell_index new_source cell_type edit_mode =
     (if edit_mode \<notin> {ustr_of ''replace'', ustr_of ''insert'', ustr_of ''delete''}
        then Inl (ToolFault TOOL_INVALID_ARGS)
      else if cell_type \<notin> {v_code, v_markdown} then Inl (ToolFault TOOL_INVALID_ARGS)
      else if edit_mode \<in> {ustr_of ''replace'', ustr_of ''insert''} \<and> new_source = None
        then Inl (ToolFault TOOL_INVALID_ARGS)
      else bind_result (parse_notebook loads content) (\<lambda>(d, cells).
        if cell_index < 0 \<or> int (length cells) \<le> cell_index
        then Inl (ToolFault TOOL_CELL_INDEX_OUT_OF_RANGE)
        else Inr (dumps (JObj (dict_set k_cells
               (JList (edit_cells edit_mode (nat cell_index) cell_type
                  (case new_source of None \<Rightarrow> [] | Some s \<Rightarrow> s) cells)) d)))))"

section \<open>The schema is preserved\<close>

lemma keys_differ [simp]:
  "k_cells \<noteq> k_metadata" "k_metadata \<noteq> k_cells" "k_cell_type \<noteq> k_source" "k_source \<noteq> k_cell_type"
  "k_metadata \<noteq> k_source" "k_source \<noteq> k_metadata" "k_outputs \<noteq> k_source" "k_source \<noteq> k_outputs"
  "k_cell_type \<noteq> k_metadata" "k_metadata \<noteq> k_cell_type" "k_outputs \<noteq> k_cell_type"
  "k_outputs \<noteq> k_metadata" "v_markdown \<noteq> v_code" "v_raw \<noteq> v_code"
  "k_outputs \<noteq> ustr_of ''execution_count''"
  by (simp_all add: ustr_of_def)

lemma validate_cells_ok: "validate_cells cells = Inr () \<longleftrightarrow> (\<forall>c\<in>set cells. validate_cell c = Inr ())"
  by (induction cells) (auto simp: bind_result_Inr_iff)

lemma validate_cell_ok_iff:
  "validate_cell v = Inr () \<longleftrightarrow>
     (\<exists>d t. v = JObj d \<and> dict_get d k_cell_type = Some (JStr t) \<and> t \<in> {v_code, v_markdown, v_raw} \<and>
        source_ok (dict_get d k_source) \<and> metadata_ok d \<and>
        (t = v_code \<longrightarrow> (\<exists>xs. dict_get d k_outputs = Some (JList xs))))"
  by (cases v)
    (auto simp: validate_cell_def split: option.splits json.splits if_splits elim: is_json_list.elims)

lemma new_cell_ok: "t \<in> {v_code, v_markdown} \<Longrightarrow> validate_cell (new_cell t source) = Inr ()"
  by (auto simp: validate_cell_ok_iff new_cell_def source_ok_def metadata_ok_def dict_get_Cons Let_def)

lemma set_cell_source_ok:
  assumes "validate_cell c = Inr ()"
  shows "validate_cell (set_cell_source source c) = Inr ()"
proof -
  obtain d t where d: "c = JObj d" "dict_get d k_cell_type = Some (JStr t)" "t \<in> {v_code, v_markdown, v_raw}"
    "metadata_ok d" "t = v_code \<longrightarrow> (\<exists>xs. dict_get d k_outputs = Some (JList xs))"
    using assms by (auto simp: validate_cell_ok_iff)
  then show ?thesis by (simp add: validate_cell_ok_iff source_ok_def metadata_ok_def)
qed

lemma edit_cells_ok:
  assumes "\<forall>c\<in>set cells. validate_cell c = Inr ()" "i < length cells" "t \<in> {v_code, v_markdown}"
  shows "\<forall>c\<in>set (edit_cells mode i t source cells). validate_cell c = Inr ()"
proof -
  have "validate_cell (new_cell t source) = Inr ()" using assms(3) by (rule new_cell_ok)
  moreover have "validate_cell (set_cell_source source (cells ! i)) = Inr ()"
    using assms by (simp add: set_cell_source_ok)
  ultimately show ?thesis
    using assms(1)
    by (auto simp: edit_cells_def insert_cell_def dest: in_set_takeD in_set_dropD set_update_subset_insert [THEN subsetD])
qed

lemma check_notebook_Inr:
  "check_notebook v = Inr (d, cells) \<longleftrightarrow>
     v = JObj d \<and> dict_get d k_cells = Some (JList cells) \<and> metadata_ok d \<and>
     (\<forall>c\<in>set cells. validate_cell c = Inr ())"
  by (auto simp: check_notebook_def bind_result_Inr_iff validate_cells_ok
      split: json.splits option.splits if_splits)

lemma check_notebook_edited:
  assumes "check_notebook v = Inr (d, cells)" "\<forall>c\<in>set cells'. validate_cell c = Inr ()"
  shows "check_notebook (JObj (dict_set k_cells (JList cells') d)) =
    Inr (dict_set k_cells (JList cells') d, cells')"
  using assms by (simp add: check_notebook_Inr metadata_ok_def)

lemma edit_notebook_Inr:
  assumes "edit_notebook loads dumps content i source t mode = Inr out"
  obtains v d cells where "loads content = Some v" "check_notebook v = Inr (d, cells)"
    "0 \<le> i" "i < int (length cells)" "t \<in> {v_code, v_markdown}"
    "mode \<in> {ustr_of ''replace'', ustr_of ''insert'', ustr_of ''delete''}"
    "mode = ustr_of ''delete'' \<or> source \<noteq> None"
    "out = dumps (JObj (dict_set k_cells (JList (edit_cells mode (nat i) t
       (case source of None \<Rightarrow> [] | Some s \<Rightarrow> s) cells)) d))"
  using assms
  by (auto simp: edit_notebook_def parse_notebook_def bind_result_Inr_iff split: if_splits option.splits)

section \<open>What a cell is and what an edit does to it\<close>

text \<open>
  A cell of a notebook, told without the validation: an object with one of the three types, a
  source that is a string or a list of strings, metadata that are an object if there are any, and,
  if it is a code cell, a list of outputs.
\<close>

definition nbformat_cell :: "json \<Rightarrow> bool" where
  "nbformat_cell v \<longleftrightarrow>
     (\<exists>d t. v = JObj d \<and> dict_get d k_cell_type = Some (JStr t) \<and> t \<in> {v_code, v_markdown, v_raw} \<and>
        ((\<exists>src. dict_get d k_source = Some (JStr src)) \<or>
         (\<exists>parts. dict_get d k_source = Some (JList parts) \<and> set parts \<subseteq> range JStr)) \<and>
        (dict_get d k_metadata = None \<or> (\<exists>m. dict_get d k_metadata = Some (JObj m))) \<and>
        (t = v_code \<longrightarrow> (\<exists>xs. dict_get d k_outputs = Some (JList xs))))"

lemma is_json_iff:
  "is_json_str v \<longleftrightarrow> v \<in> range JStr" "is_json_dict v \<longleftrightarrow> (\<exists>m. v = JObj m)"
  by (cases v; simp add: image_iff)+

lemma source_ok_iff:
  "source_ok x \<longleftrightarrow> (\<exists>src. x = Some (JStr src)) \<or> (\<exists>parts. x = Some (JList parts) \<and> set parts \<subseteq> range JStr)"
  by (auto simp: source_ok_def list_all_iff is_json_iff split: option.splits json.splits)

lemma metadata_ok_iff: "metadata_ok d \<longleftrightarrow> dict_get d k_metadata = None \<or> (\<exists>m. dict_get d k_metadata = Some (JObj m))"
  by (auto simp: metadata_ok_def is_json_iff split: option.splits)

lemma validate_cell_nbformat: "validate_cell v = Inr () \<longleftrightarrow> nbformat_cell v"
  unfolding validate_cell_ok_iff nbformat_cell_def source_ok_iff metadata_ok_iff by (rule refl)

lemma replaced_cell:
  assumes "nbformat_cell c"
  shows "\<exists>d d'. c = JObj d \<and> set_cell_source source c = JObj d' \<and> dict_keys d' = dict_keys d \<and>
    (\<forall>k. dict_get d' k = (if k = k_source then Some (JStr source) else dict_get d k))"
proof -
  obtain d where d: "c = JObj d" "dict_get d k_source \<noteq> None" using assms unfolding nbformat_cell_def by auto
  then have "dict_keys (dict_set k_source (JStr source) d) = dict_keys d"
    by (simp add: dict_keys_set dict_keys_iff)
  then show ?thesis using d(1) by simp
qed

lemma inserted_cell:
  "\<exists>d. new_cell t source = JObj d \<and>
     (\<forall>k. dict_get d k =
       (if k = k_cell_type then Some (JStr t)
        else if k = k_metadata then Some (JObj [])
        else if k = k_source then Some (JStr source)
        else if t = v_code \<and> k = ustr_of ''execution_count'' then Some JNull
        else if t = v_code \<and> k = k_outputs then Some (JList [])
        else None))"
  by (auto simp: new_cell_def Let_def dict_get_Cons)

lemma edit_cells_effect:
  fixes t src :: ustr
  assumes "nbformat_cell (cells ! i)" and mode: "mode \<in> {ustr_of ''replace'', ustr_of ''insert'', ustr_of ''delete''}"
  defines "cells' \<equiv> edit_cells mode i t src cells"
  shows "if mode = ustr_of ''delete'' then cells' = take i cells @ drop (Suc i) cells
     else if mode = ustr_of ''insert''
       then (\<exists>c. cells' = take (Suc i) cells @ [JObj c] @ drop (Suc i) cells \<and>
         (\<forall>k. dict_get c k =
            (if k = k_cell_type then Some (JStr t)
             else if k = k_metadata then Some (JObj [])
             else if k = k_source then Some (JStr src)
             else if t = v_code \<and> k = ustr_of ''execution_count'' then Some JNull
             else if t = v_code \<and> k = k_outputs then Some (JList [])
             else None)))
     else mode = ustr_of ''replace'' \<and>
       (\<exists>c c'. cells ! i = JObj c \<and> cells' = cells[i := JObj c'] \<and> dict_keys c' = dict_keys c \<and>
         (\<forall>k. dict_get c' k = (if k = k_source then Some (JStr src) else dict_get c k)))"
proof (cases "mode = ustr_of ''delete''")
  case True
  show ?thesis unfolding if_P [OF True] by (simp add: cells'_def edit_cells_def True)
next
  case delete: False
  show ?thesis
  proof (cases "mode = ustr_of ''insert''")
    case True
    have "cells' = take (Suc i) cells @ [new_cell t src] @ drop (Suc i) cells"
      using delete True by (simp add: cells'_def edit_cells_def insert_cell_def)
    then show ?thesis
      unfolding if_not_P [OF delete] if_P [OF True] using inserted_cell [of t src] by auto
  next
    case insert: False
    obtain c c' where c: "cells ! i = JObj c" "set_cell_source src (cells ! i) = JObj c'" "dict_keys c' = dict_keys c"
      "\<forall>k. dict_get c' k = (if k = k_source then Some (JStr src) else dict_get c k)"
      using replaced_cell [OF assms(1), of src] by blast
    have "cells' = cells[i := JObj c']" using delete insert c(2) by (simp add: cells'_def edit_cells_def)
    then show ?thesis
      unfolding if_not_P [OF delete] if_not_P [OF insert] using c(1,3,4) mode delete insert by blast
  qed
qed

section \<open>Properties\<close>

text \<open>
  C30. An edit changes what it is asked to change and keeps everything else. Whatever the reader
  and the writer of JSON do: when \<open>edit_notebook\<close> returns, the document read was an object with a
  list of cells, each a valid cell, and it has written an object with the same fields in the same
  order and with the same values, except for the cells, which are again valid cells and pass every
  check a notebook is read with. Of the cells, \<open>delete\<close> removes exactly the addressed one; \<open>insert\<close>
  puts behind it one new cell with the given type and source, empty metadata and, if it is a code
  cell, no execution count and no outputs, and no other field; and the third mode, \<open>replace\<close>, sets
  the source of the addressed cell to the given one and keeps its other fields and their order.
\<close>

theorem edit_notebook_preserves_schema:
  assumes "edit_notebook loads dumps content i source t mode = Inr out"
  shows "\<exists>d cells d' cells'. loads content = Some (JObj d) \<and> dict_get d k_cells = Some (JList cells) \<and>
    list_all nbformat_cell cells \<and> 0 \<le> i \<and> nat i < length cells \<and>
    out = dumps (JObj d') \<and> dict_get d' k_cells = Some (JList cells') \<and> list_all nbformat_cell cells' \<and>
    check_notebook (JObj d') = Inr (d', cells') \<and>
    dict_keys d' = dict_keys d \<and> (\<forall>k. k \<noteq> k_cells \<longrightarrow> dict_get d' k = dict_get d k) \<and>
    (if mode = ustr_of ''delete'' then cells' = take (nat i) cells @ drop (Suc (nat i)) cells
     else if mode = ustr_of ''insert''
       then (\<exists>c. cells' = take (Suc (nat i)) cells @ [JObj c] @ drop (Suc (nat i)) cells \<and>
         (\<forall>k. dict_get c k =
            (if k = k_cell_type then Some (JStr t)
             else if k = k_metadata then Some (JObj [])
             else if k = k_source then Some (JStr (the source))
             else if t = v_code \<and> k = ustr_of ''execution_count'' then Some JNull
             else if t = v_code \<and> k = k_outputs then Some (JList [])
             else None)))
     else mode = ustr_of ''replace'' \<and>
       (\<exists>c c'. cells ! nat i = JObj c \<and> cells' = cells[nat i := JObj c'] \<and> dict_keys c' = dict_keys c \<and>
         (\<forall>k. dict_get c' k = (if k = k_source then Some (JStr (the source)) else dict_get c k))))"
proof -
  obtain v d cells where e: "loads content = Some v" "check_notebook v = Inr (d, cells)"
    "0 \<le> i" "i < int (length cells)" "t \<in> {v_code, v_markdown}"
    "mode \<in> {ustr_of ''replace'', ustr_of ''insert'', ustr_of ''delete''}"
    "mode = ustr_of ''delete'' \<or> source \<noteq> None"
    "out = dumps (JObj (dict_set k_cells (JList (edit_cells mode (nat i) t
       (case source of None \<Rightarrow> [] | Some s \<Rightarrow> s) cells)) d))"
    using edit_notebook_Inr [OF assms] by metis
  let ?cells = "edit_cells mode (nat i) t (case source of None \<Rightarrow> [] | Some s \<Rightarrow> s) cells"
  have i: "nat i < length cells" using e(3,4) by simp
  have d: "v = JObj d" "dict_get d k_cells = Some (JList cells)" "\<forall>c\<in>set cells. validate_cell c = Inr ()"
    using e(2) by (simp_all add: check_notebook_Inr)
  have ok: "\<forall>c\<in>set ?cells. validate_cell c = Inr ()"
    by (rule edit_cells_ok) (use d(3) e(5) i in auto)
  note edited = check_notebook_edited [OF e(2) ok]
  have same_keys: "dict_keys (dict_set k_cells (JList ?cells) d) = dict_keys d"
    using d(2) by (simp add: dict_keys_set dict_keys_iff)
  have old: "list_all nbformat_cell cells" and new: "list_all nbformat_cell ?cells"
    using d(3) ok by (simp_all add: list_all_iff validate_cell_nbformat)
  have "nbformat_cell (cells ! nat i)" using old i by (simp add: list_all_iff)
  note effect = edit_cells_effect [OF this e(6), of t "case source of None \<Rightarrow> [] | Some s \<Rightarrow> s"]
  have src: "(case source of None \<Rightarrow> [] | Some s \<Rightarrow> s) = the source" if "mode \<noteq> ustr_of ''delete''"
    using e(7) that by (cases source) simp_all
  have read: "loads content = Some (JObj d)" using e(1) d(1) by simp
  have written: "dict_get (dict_set k_cells (JList ?cells) d) k_cells = Some (JList ?cells)"
    "\<forall>k. k \<noteq> k_cells \<longrightarrow> dict_get (dict_set k_cells (JList ?cells) d) k = dict_get d k" by simp_all
  show ?thesis
    by (rule exI [of _ d], rule exI [of _ cells], rule exI [of _ "dict_set k_cells (JList ?cells) d"],
        rule exI [of _ ?cells], intro conjI, (fact read d(2) old e(3) i e(8) written new edited same_keys)+)
      (use effect src in \<open>cases "mode = ustr_of ''delete''"; simp only: if_True if_False simp_thms\<close>)
qed

definition demo_notebook :: json where
  "demo_notebook = JObj [(k_cells, JList [new_cell v_code [49], new_cell v_markdown [50]]), (k_metadata, JObj [])]"

theorem edit_notebook_preserves_schema_witness:
  "\<exists>d' a b c'. edit_notebook (\<lambda>_. Some demo_notebook) json_dumps [] 1 (Some [51]) v_markdown (ustr_of ''replace'') =
       Inr (json_dumps (JObj d')) \<and>
     dict_keys d' = [k_cells, k_metadata] \<and> dict_get d' k_cells = Some (JList [a, b]) \<and>
     a = new_cell v_code [49] \<and> b = JObj c' \<and> dict_get c' k_source = Some (JStr [51]) \<and>
     dict_get c' k_cell_type = Some (JStr v_markdown)"
proof -
  let ?a = "new_cell v_code [49]" and ?b = "new_cell v_markdown [50]"
  have check: "check_notebook demo_notebook = Inr ([(k_cells, JList [?a, ?b]), (k_metadata, JObj [])], [?a, ?b])"
    by (simp add: check_notebook_Inr demo_notebook_def dict_get_Cons metadata_ok_def new_cell_ok)
  obtain out where run: "edit_notebook (\<lambda>_. Some demo_notebook) json_dumps [] 1 (Some [51]) v_markdown (ustr_of ''replace'') = Inr out"
    by (simp add: edit_notebook_def parse_notebook_def check)
  have modes: "(ustr_of ''replace'' = ustr_of ''delete'') = False" "(ustr_of ''replace'' = ustr_of ''insert'') = False"
    by (simp_all add: ustr_of_def)
  obtain d cells d' cells' c c' where r: "demo_notebook = JObj d" "dict_get d k_cells = Some (JList cells)"
    "out = json_dumps (JObj d')" "dict_get d' k_cells = Some (JList cells')" "dict_keys d' = dict_keys d"
    "cells ! 1 = JObj c" "cells' = cells[1 := JObj c']" "dict_get c' k_source = Some (JStr [51])"
    "dict_get c' k_cell_type = dict_get c k_cell_type"
  proof -
    obtain d cells d' cells' c c' where f: "demo_notebook = JObj d" "dict_get d k_cells = Some (JList cells)"
      "out = json_dumps (JObj d')" "dict_get d' k_cells = Some (JList cells')" "dict_keys d' = dict_keys d"
      "cells ! nat 1 = JObj c" "cells' = cells[nat 1 := JObj c']"
      and k: "\<And>k. dict_get c' k = (if k = k_source then Some (JStr (the (Some [51]))) else dict_get c k)"
      using edit_notebook_preserves_schema [OF run, unfolded modes if_False option.inject] by blast
    show thesis by (rule that [of d cells d' cells' c c', OF f(1-5)]) (use f(6,7) in \<open>simp_all add: k [of k_source] k [of k_cell_type]\<close>)
  qed
  have d: "dict_keys d = [k_cells, k_metadata]" "cells = [?a, ?b]"
    using r(1,2) by (auto simp: demo_notebook_def dict_get_Cons dict_keys_def)
  have "dict_get c k_cell_type = Some (JStr v_markdown)"
    using r(6) d(2) by (auto simp: new_cell_def dict_get_Cons Let_def)
  with r d run show ?thesis by auto
qed

text \<open>
  A cell whose \<open>cell_type\<close> is a list or an object makes the membership test in a set raise a
  \<open>TypeError\<close>, which is not translated to \<open>tool_invalid_notebook\<close> like every other defect.
\<close>

lemma unhashable_cell_type:
  "edit_notebook (\<lambda>_. Some (JObj [(k_cells, JList [JObj [(k_cell_type, JList [])]])])) dumps
     content 0 None v_code (ustr_of ''delete'') = Inl UnhashableFault"
  by (simp add: edit_notebook_def parse_notebook_def check_notebook_def dict_get_Cons metadata_ok_def
      validate_cell_def ustr_of_def)

end
