(* ===== verification/Transfer_Slots.thy ===== *)
theory Transfer_Slots
  imports Py_Json
begin

text \<open>
  The shared table of device transfers: \<open>devices/transfer_slots.py\<close>, the types of
  \<open>devices/transfer_types.py\<close> it holds, and the operations of \<open>devices/transfer.py\<close> and
  \<open>devices/transfer_bridge.py\<close> that change it under its lock: registration, the tombstones that
  closed transfers leave behind, and the frames and chunks that arrive late for them.

  A key is a device, a connection generation and a slot id. Bridges are objects that tombstones
  refer to, so they live in a store and are named by their index. What the workers of a bridge
  learn is in \<open>bridge_facts\<close>, which the environment may change at any time; the modelled
  operations only read it, except for the acknowledgement futures that a late frame completes.
  A SHA-256 object is the bytes it has consumed, and \<open>sha256\<close> is a parameter. Times are
  integers read from the monotonic clock.
\<close>

section \<open>Data\<close>

definition TOMBSTONE_MAX_ENTRIES :: nat where "TOMBSTONE_MAX_ENTRIES = 4096"
definition LATE_PROGRESS_MAX :: nat where "LATE_PROGRESS_MAX = 64"
definition TRANSFER_TIMEOUT_CODE :: ustr where
  "TRANSFER_TIMEOUT_CODE = ustr_of ''workspace_transfer_timeout''"

type_synonym transfer_key = "uuid \<times> nat \<times> uuid"

record transfer_end =
  te_id :: uuid
  te_ack :: bool
  te_ok :: bool
  te_code :: "ustr option"
  te_bytes_sent :: "nat option"
  te_sha256 :: "ustr option"
  te_etag :: "ustr option"
  te_created :: "bool option"

datatype transfer_frame = ProgressFrame uuid nat | EndFrame transfer_end | OtherFrame uuid

fun frame_id :: "transfer_frame \<Rightarrow> uuid" where
  "frame_id (ProgressFrame i n) = i"
| "frame_id (EndFrame e) = te_id e"
| "frame_id (OtherFrame i) = i"

datatype bridge_role = SourceRole | DestinationRole

datatype source_resolution = ResolutionOpen | DestinationAck | TimeoutAck

datatype slots_error = TransferBusyError | TransferProtocolError | TransferDisconnectedError
  | CapacityViolated | ReservationLost

type_synonym ack_future = "(unit, transfer_end) py_future option"

text \<open>What the workers of a bridge record about the transfer.\<close>

record bridge_facts =
  bf_source_issued :: bool
  bf_destination_issued :: bool
  bf_source_ready_issued :: bool
  bf_destination_terminal_issued :: bool
  bf_destination_committed :: bool
  bf_source_end :: "transfer_end option"
  bf_source_drain_failure :: "transfer_end option"
  bf_destination_ack :: "transfer_end option"
  bf_destination_failure :: "transfer_end option"
  bf_source_failure_terminal :: "transfer_end option"
  bf_destination_failure_terminal :: "transfer_end option"
  bf_source_failure_issued :: bool
  bf_destination_failure_issued :: bool
  bf_source_resolution :: source_resolution
  bf_timeout_ack_attempted :: bool
  bf_timeout_ack_sent :: bool
  bf_timeout_ack_in_flight :: bool
  bf_declared_bytes :: "nat option"
  bf_bytes_received :: nat
  bf_digest :: "nat list"
  bf_late_binary_bytes :: nat
  bf_late_binary_digest :: "nat list option"
  bf_last_progress :: nat
  bf_late_progress_remaining :: nat
  bf_late_source_success_terminal :: "transfer_end option"
  bf_source_ack_future :: ack_future
  bf_destination_ack_future :: ack_future
  bf_activity :: bool

record bridge_slot =
  br_slot_id :: uuid
  br_source_key :: transfer_key
  br_destination_key :: transfer_key
  br_tombstone_credits :: nat
  br_tombstones_published :: bool
  br_facts :: bridge_facts

record bridge_tombstone =
  bt_role :: bridge_role
  bt_pinned :: bool
  bt_expires_at :: "int option"
  bt_expected_terminals :: "transfer_end list"
  bt_sender_success_terminal :: "transfer_end option"
  bt_source_resolution :: "source_resolution option"
  bt_timeout_ack_attempted :: bool
  bt_timeout_ack_sent :: bool
  bt_timeout_ack_in_flight :: bool
  bt_failed :: bool
  bt_failure_terminal :: "transfer_end option"
  bt_failure_issued :: bool
  bt_source_ready_issued :: bool
  bt_failure_ack_in_flight :: bool
  bt_failure_ack_sent :: bool
  bt_binary_bytes_seen :: nat
  bt_binary_digest :: "nat list"
  bt_progress_remaining :: nat
  bt_last_progress :: nat
  bt_declared_bytes :: "nat option"
  bt_bridge :: "nat option"
  bt_accept_late_destination_ack :: bool
  bt_late_destination_ack :: "transfer_end option"
  bt_late_source_success_terminal :: "transfer_end option"

text \<open>A direct transfer, as far as the table reads it.\<close>

record transfer_slot =
  sl_client_to_server :: bool
  sl_committed :: bool
  sl_terminal_ack :: "transfer_end option"
  sl_fenced :: bool
  sl_aborted :: bool

type_synonym final_tombstone = "int \<times> transfer_end option \<times> bool"

record transfer_slots =
  sx_slots :: "(transfer_key, transfer_slot) dict"
  sx_bridges :: "(uuid, nat) dict"
  sx_bridge_endpoints :: "(transfer_key, nat \<times> bridge_role) dict"
  sx_bridge_tombstones :: "(transfer_key, bridge_tombstone) dict"
  sx_reserved_credits :: nat
  sx_tombstones :: "(transfer_key, final_tombstone) dict"
  sx_acknowledged :: "transfer_key list"
  sx_store :: "bridge_slot list"

definition slots_new :: transfer_slots where
  "slots_new = \<lparr>sx_slots = [], sx_bridges = [], sx_bridge_endpoints = [], sx_bridge_tombstones = [],
     sx_reserved_credits = 0, sx_tombstones = [], sx_acknowledged = [], sx_store = []\<rparr>"

section \<open>\<open>TransferSlots\<close>\<close>

definition key_in_use :: "transfer_slots \<Rightarrow> transfer_key \<Rightarrow> bool" where
  "key_in_use s k \<longleftrightarrow>
     dict_get (sx_slots s) k \<noteq> None \<or> dict_get (sx_bridge_endpoints s) k \<noteq> None \<or>
     dict_get (sx_tombstones s) k \<noteq> None \<or> dict_get (sx_bridge_tombstones s) k \<noteq> None"

definition tombstone_occupancy :: "transfer_slots \<Rightarrow> nat" where
  "tombstone_occupancy s =
     length (sx_tombstones s) + length (sx_bridge_tombstones s) + sx_reserved_credits s"

definition discard_key :: "'a \<Rightarrow> 'a list \<Rightarrow> 'a list" where
  "discard_key k ks = removeAll k ks"

definition drop_tombstone :: "transfer_key \<Rightarrow> transfer_slots \<Rightarrow> transfer_slots" where
  "drop_tombstone k s = s\<lparr>sx_tombstones := dict_del k (sx_tombstones s),
     sx_acknowledged := discard_key k (sx_acknowledged s)\<rparr>"

fun first_evictable :: "(transfer_key, bridge_tombstone) dict \<Rightarrow> transfer_key option" where
  "first_evictable [] = None"
| "first_evictable ((k, t) # rest) =
     (if \<not> bt_pinned t \<and> \<not> bt_timeout_ack_in_flight t then Some k else first_evictable rest)"

text \<open>\<open>None\<close> means that nothing could be evicted.\<close>

definition evict_one :: "transfer_slots \<Rightarrow> transfer_slots option" where
  "evict_one s =
     (case sx_tombstones s of
        (k, v) # rest \<Rightarrow> Some (drop_tombstone k s)
      | [] \<Rightarrow>
          (case first_evictable (sx_bridge_tombstones s) of
             Some k \<Rightarrow> Some (s\<lparr>sx_bridge_tombstones := dict_del k (sx_bridge_tombstones s)\<rparr>)
           | None \<Rightarrow> None))"

lemma length_dict_del_less: "dict_get d k \<noteq> None \<Longrightarrow> length (dict_del k d) < length d"
  by (induction d) (auto simp: dict_get_def dict_del_def le_imp_less_Suc length_delete_le split: if_splits)

lemma first_evictable_get:
  "first_evictable d = Some k \<Longrightarrow> \<exists>t. dict_get d k \<noteq> None \<and> (k, t) \<in> set d \<and> \<not> bt_pinned t"
  by (induction d rule: first_evictable.induct) (auto simp: dict_get_Cons split: if_splits)

lemma length_dict_del_hd: "length (dict_del k ((k, v) # d)) < Suc (length d)"
  by (simp add: dict_del_def length_delete_le le_imp_less_Suc)

lemma evict_one_shrinks:
  "evict_one s = Some t \<Longrightarrow>
   length (sx_tombstones t) + length (sx_bridge_tombstones t) <
   length (sx_tombstones s) + length (sx_bridge_tombstones s)"
  by (auto simp: evict_one_def drop_tombstone_def split: list.splits option.splits
      intro!: length_dict_del_less length_dict_del_hd dest!: first_evictable_get)

text \<open>
  An operation returns the state it leaves behind, also when it raises: what was expired or
  evicted before the exception stays so.
\<close>

type_synonym slots_outcome = "transfer_slots \<times> slots_error option"

definition then_do :: "slots_outcome \<Rightarrow> (transfer_slots \<Rightarrow> slots_outcome) \<Rightarrow> slots_outcome" where
  "then_do r f = (case r of (s, None) \<Rightarrow> f s | (s, Some e) \<Rightarrow> (s, Some e))"

function reserve_credits :: "nat \<Rightarrow> transfer_slots \<Rightarrow> slots_outcome" where
  "reserve_credits count s =
     (if TOMBSTONE_MAX_ENTRIES < tombstone_occupancy s + count
      then (case evict_one s of None \<Rightarrow> (s, Some TransferBusyError) | Some t \<Rightarrow> reserve_credits count t)
      else (s\<lparr>sx_reserved_credits := sx_reserved_credits s + count\<rparr>, None))"
  by pat_completeness auto
termination
  by (relation "measure (\<lambda>(c, s). length (sx_tombstones s) + length (sx_bridge_tombstones s))")
    (auto dest: evict_one_shrinks)

declare reserve_credits.simps [simp del]

function evict_excess :: "transfer_slots \<Rightarrow> slots_outcome" where
  "evict_excess s =
     (if TOMBSTONE_MAX_ENTRIES < tombstone_occupancy s
      then (case evict_one s of None \<Rightarrow> (s, Some CapacityViolated) | Some t \<Rightarrow> evict_excess t)
      else (s, None))"
  by pat_completeness auto
termination
  by (relation "measure (\<lambda>s. length (sx_tombstones s) + length (sx_bridge_tombstones s))")
    (auto dest: evict_one_shrinks)

declare evict_excess.simps [simp del]

definition remember_tombstone ::
  "transfer_key \<Rightarrow> final_tombstone \<Rightarrow> transfer_slots \<Rightarrow> slots_outcome" where
  "remember_tombstone k v s =
     (let t = drop_tombstone k s
      in evict_excess (t\<lparr>sx_tombstones := dict_set k v (sx_tombstones t)\<rparr>))"

definition bridge_tombstone_expired :: "int \<Rightarrow> bridge_tombstone \<Rightarrow> bool" where
  "bridge_tombstone_expired now t \<longleftrightarrow>
     \<not> bt_pinned t \<and> \<not> bt_timeout_ack_in_flight t \<and> \<not> bt_failure_ack_in_flight t \<and>
     (case bt_expires_at t of None \<Rightarrow> False | Some e \<Rightarrow> e \<le> now)"

definition expire_tombstones :: "int \<Rightarrow> transfer_slots \<Rightarrow> transfer_slots" where
  "expire_tombstones now s =
     (let gone = map fst (filter (\<lambda>(k, (e, a, b)). e \<le> now) (sx_tombstones s))
      in s\<lparr>sx_tombstones := filter (\<lambda>e. fst e \<notin> set gone) (sx_tombstones s),
          sx_acknowledged := filter (\<lambda>k. k \<notin> set gone) (sx_acknowledged s),
          sx_bridge_tombstones :=
            filter (\<lambda>(k, t). \<not> bridge_tombstone_expired now t) (sx_bridge_tombstones s)\<rparr>)"

section \<open>Terminal frames\<close>

definition is_sender_timeout :: "transfer_end \<Rightarrow> bool" where
  "is_sender_timeout f \<longleftrightarrow>
     f = \<lparr>te_id = te_id f, te_ack = False, te_ok = False, te_code = Some TRANSFER_TIMEOUT_CODE,
          te_bytes_sent = None, te_sha256 = None, te_etag = None, te_created = None\<rparr>"

definition ack_resolves_success_terminal :: "transfer_end option \<Rightarrow> transfer_end \<Rightarrow> bool" where
  "ack_resolves_success_terminal terminal ack =
     (case terminal of
        None \<Rightarrow> False
      | Some t \<Rightarrow>
          (if te_ack t \<or> \<not> te_ok t \<or> \<not> te_ack ack then False
           else if \<not> te_ok ack then True
           else te_bytes_sent ack = te_bytes_sent t \<and> te_sha256 ack = te_sha256 t \<and>
                te_etag ack = None \<and> te_created ack = None))"

section \<open>Direct transfers\<close>

definition new_slot ::
  "int \<Rightarrow> transfer_key \<Rightarrow> transfer_slot \<Rightarrow> transfer_slots \<Rightarrow> slots_outcome" where
  "new_slot now k slot s =
     (let t = expire_tombstones now s
      in if key_in_use t k then (t, Some TransferProtocolError)
         else (t\<lparr>sx_slots := dict_set k slot (sx_slots t)\<rparr>, None))"

definition get_slot ::
  "int \<Rightarrow> transfer_key \<Rightarrow> transfer_slots \<Rightarrow> transfer_slots \<times> (slots_error + transfer_slot)" where
  "get_slot now k s =
     (let t = expire_tombstones now s
      in (t, case dict_get (sx_slots t) k of
               Some slot \<Rightarrow> (if sl_fenced slot then Inl TransferDisconnectedError else Inr slot)
             | None \<Rightarrow> Inl TransferProtocolError))"

text \<open>
  The locked section of \<open>_abort\<close>, and the one of \<open>_cleanup\<close>. The task that runs them holds the
  slot; its key may have left the table.
\<close>

definition abort_slot ::
  "int \<Rightarrow> int \<Rightarrow> transfer_key \<Rightarrow> transfer_slot \<Rightarrow> transfer_end option \<Rightarrow> transfer_slots \<Rightarrow> slots_outcome" where
  "abort_slot now ttl k slot terminal s =
     (if sl_aborted slot then (s, None)
      else if sl_committed slot then (s, None)
      else let ack = (case terminal of None \<Rightarrow> sl_terminal_ack slot
                      | Some e \<Rightarrow> Some (e\<lparr>te_ack := True\<rparr>));
               slot' = slot\<lparr>sl_aborted := True, sl_terminal_ack := ack\<rparr>
           in remember_tombstone k (now + ttl, ack, False)
                (if dict_get (sx_slots s) k = None then s
                 else s\<lparr>sx_slots := dict_set k slot' (sx_slots s)\<rparr>))"

definition cleanup_slot ::
  "int \<Rightarrow> int \<Rightarrow> transfer_key \<Rightarrow> transfer_slot \<Rightarrow> transfer_slots \<Rightarrow> slots_outcome" where
  "cleanup_slot now ttl k slot s =
     (let t = s\<lparr>sx_slots := dict_del k (sx_slots s)\<rparr>
      in if dict_get (sx_tombstones t) k \<noteq> None then (t, None)
         else remember_tombstone k
                (now + ttl, sl_terminal_ack slot, sl_client_to_server slot \<and> sl_committed slot) t)"

text \<open>\<open>Inr True\<close>: the frame was the expected acknowledgement of a closed transfer.\<close>

definition matches_tombstone ::
  "int \<Rightarrow> transfer_key \<Rightarrow> transfer_end \<Rightarrow> transfer_slots \<Rightarrow> transfer_slots \<times> (slots_error + bool)" where
  "matches_tombstone now k f s =
     (let t = expire_tombstones now s
      in case dict_get (sx_tombstones t) k of
           None \<Rightarrow> (t, Inr False)
         | Some (e, expected, b) \<Rightarrow>
             (if expected = Some f
              then (t\<lparr>sx_acknowledged := List.insert k (sx_acknowledged t)\<rparr>, Inr True)
              else (t, Inl TransferProtocolError)))"

definition matches_committed_sender_timeout ::
  "int \<Rightarrow> transfer_key \<Rightarrow> transfer_end \<Rightarrow> transfer_slots \<Rightarrow> transfer_slots \<times> bool" where
  "matches_committed_sender_timeout now k f s =
     (if \<not> is_sender_timeout f then (s, False)
      else let t = expire_tombstones now s
           in (t, (case dict_get (sx_slots t) k of
                     Some slot \<Rightarrow> sl_client_to_server slot \<and> sl_committed slot | None \<Rightarrow> False) \<or>
                  (case dict_get (sx_tombstones t) k of Some (e, a, b) \<Rightarrow> b | None \<Rightarrow> False)))"

definition is_failed_tombstone ::
  "int \<Rightarrow> transfer_key \<Rightarrow> transfer_slots \<Rightarrow> transfer_slots \<times> bool" where
  "is_failed_tombstone now k s =
     (let t = expire_tombstones now s
      in (t, case dict_get (sx_tombstones t) k of
               None \<Rightarrow> False
             | Some (e, expected_ack, b) \<Rightarrow>
                 k \<notin> set (sx_acknowledged t) \<and>
                 (case expected_ack of None \<Rightarrow> False | Some a \<Rightarrow> te_ack a \<and> \<not> te_ok a)))"

section \<open>Bridges\<close>

abbreviation bridge_at :: "transfer_slots \<Rightarrow> nat \<Rightarrow> bridge_slot" where
  "bridge_at s b \<equiv> sx_store s ! b"

definition set_bridge :: "nat \<Rightarrow> bridge_slot \<Rightarrow> transfer_slots \<Rightarrow> transfer_slots" where
  "set_bridge b br s = s\<lparr>sx_store := (sx_store s)[b := br]\<rparr>"

definition new_bridge ::
  "int \<Rightarrow> uuid \<Rightarrow> uuid \<times> nat \<Rightarrow> uuid \<times> nat \<Rightarrow> bridge_facts \<Rightarrow> transfer_slots \<Rightarrow> slots_outcome" where
  "new_bridge now slot_id source destination facts s =
     (let source_key = (fst source, snd source, slot_id);
          destination_key = (fst destination, snd destination, slot_id);
          t = expire_tombstones now s
      in if dict_get (sx_bridges t) slot_id \<noteq> None \<or> key_in_use t source_key \<or> key_in_use t destination_key
         then (t, Some TransferProtocolError)
         else then_do (reserve_credits 2 t) (\<lambda>t.
           let b = length (sx_store t)
           in (t\<lparr>sx_store := sx_store t @ [\<lparr>br_slot_id = slot_id, br_source_key = source_key,
                      br_destination_key = destination_key, br_tombstone_credits = 2,
                      br_tombstones_published = False, br_facts = facts\<rparr>],
                  sx_bridges := dict_set slot_id b (sx_bridges t),
                  sx_bridge_endpoints := dict_set destination_key (b, DestinationRole)
                    (dict_set source_key (b, SourceRole) (sx_bridge_endpoints t))\<rparr>, None)))"

definition append_new :: "'a \<Rightarrow> 'a list \<Rightarrow> 'a list" where
  "append_new x xs = (if x \<in> set xs then xs else xs @ [x])"

definition expected_terminals :: "bridge_facts \<Rightarrow> bridge_role \<Rightarrow> transfer_end list" where
  "expected_terminals f role =
     (let inbound = (if role = SourceRole then [bf_source_end f, bf_source_drain_failure f]
                     else [bf_destination_failure f, bf_destination_ack f]);
          expected = foldl (\<lambda>xs o'. case o' of None \<Rightarrow> xs | Some x \<Rightarrow> append_new x xs) [] inbound;
          failure = (if role = SourceRole then bf_source_failure_terminal f
                     else bf_destination_failure_terminal f)
      in case failure of None \<Rightarrow> expected | Some e \<Rightarrow> append_new (e\<lparr>te_ack := True\<rparr>) expected)"

definition bridge_failed :: "bridge_facts \<Rightarrow> bool \<Rightarrow> bool" where
  "bridge_failed f error \<longleftrightarrow>
     \<not> bf_destination_terminal_issued f \<and> \<not> bf_destination_committed f \<and>
     (error \<or> bf_source_failure_terminal f \<noteq> None \<or> bf_destination_failure_terminal f \<noteq> None)"

definition bridge_tombstone_for ::
  "int \<Rightarrow> nat \<Rightarrow> bridge_facts \<Rightarrow> bridge_role \<Rightarrow> bool \<Rightarrow> bool \<Rightarrow> bridge_tombstone" where
  "bridge_tombstone_for expiry b f role pinned error =
     (let failed = bridge_failed f error
      in \<lparr>bt_role = role, bt_pinned = pinned,
          bt_expires_at = (if pinned then None else Some expiry),
          bt_expected_terminals = expected_terminals f role,
          bt_sender_success_terminal =
            (case bf_source_end f of
               Some e \<Rightarrow> (if role = DestinationRole \<and> te_ok e then Some e else None) | None \<Rightarrow> None),
          bt_source_resolution = (if role = SourceRole then Some (bf_source_resolution f) else None),
          bt_timeout_ack_attempted = bf_timeout_ack_attempted f,
          bt_timeout_ack_sent = bf_timeout_ack_sent f,
          bt_timeout_ack_in_flight = bf_timeout_ack_in_flight f,
          bt_failed = failed,
          bt_failure_terminal = (if role = SourceRole then bf_source_failure_terminal f
                                 else bf_destination_failure_terminal f),
          bt_failure_issued = (if role = SourceRole then bf_source_failure_issued f
                               else bf_destination_failure_issued f),
          bt_source_ready_issued = bf_source_ready_issued f,
          bt_failure_ack_in_flight = False, bt_failure_ack_sent = False,
          bt_binary_bytes_seen = bf_bytes_received f + bf_late_binary_bytes f,
          bt_binary_digest = (case bf_late_binary_digest f of None \<Rightarrow> bf_digest f | Some d \<Rightarrow> d),
          bt_progress_remaining = (if failed \<and> role = SourceRole then bf_late_progress_remaining f else 0),
          bt_last_progress = bf_last_progress f,
          bt_declared_bytes = bf_declared_bytes f,
          bt_bridge = (if pinned then Some b else None),
          bt_accept_late_destination_ack =
            (role = DestinationRole \<and> bf_destination_terminal_issued f \<and> bf_destination_ack f = None \<and>
             bf_source_resolution f = TimeoutAck),
          bt_late_destination_ack = None,
          bt_late_source_success_terminal = bf_late_source_success_terminal f\<rparr>)"

text \<open>One endpoint of \<open>_publish_bridge_tombstones\<close>.\<close>

definition publish_one ::
  "nat \<Rightarrow> bool \<Rightarrow> transfer_key \<Rightarrow> bridge_role \<Rightarrow> transfer_slots \<Rightarrow> slots_outcome" where
  "publish_one b issued k role s =
     (if \<not> issued then (s, None)
      else let br = bridge_at s b
           in if br_tombstone_credits br = 0 \<or> sx_reserved_credits s = 0 then (s, Some ReservationLost)
              else ((set_bridge b (br\<lparr>br_tombstone_credits := br_tombstone_credits br - 1\<rparr>) s)
                     \<lparr>sx_reserved_credits := sx_reserved_credits s - 1,
                      sx_bridge_tombstones := dict_set k
                        (bridge_tombstone_for 0 b (br_facts br) role True False) (sx_bridge_tombstones s)\<rparr>, None))"

definition return_credits :: "nat \<Rightarrow> transfer_slots \<Rightarrow> transfer_slots" where
  "return_credits b s =
     (let br = bridge_at s b
      in (set_bridge b (br\<lparr>br_tombstone_credits := 0, br_tombstones_published := True\<rparr>) s)
           \<lparr>sx_reserved_credits := sx_reserved_credits s - br_tombstone_credits br\<rparr>)"

definition publish_bridge_tombstones :: "nat \<Rightarrow> transfer_slots \<Rightarrow> slots_outcome" where
  "publish_bridge_tombstones b s =
     (let br = bridge_at s b; f = br_facts br
      in if br_tombstones_published br then (s, None)
         else then_do (publish_one b (bf_source_issued f) (br_source_key br) SourceRole s) (\<lambda>t.
              then_do (publish_one b (bf_destination_issued f) (br_destination_key br) DestinationRole t) (\<lambda>u.
              (return_credits b u, None))))"

text \<open>What the final tombstone keeps of the pinned one.\<close>

definition merge_tombstone :: "bridge_tombstone \<Rightarrow> bridge_tombstone \<Rightarrow> bridge_tombstone" where
  "merge_tombstone current finalized =
     (let g = (if bt_failed current \<and> bt_failed finalized
               then finalized
                 \<lparr>bt_binary_digest := (if bt_binary_bytes_seen finalized \<le> bt_binary_bytes_seen current
                                       then bt_binary_digest current else bt_binary_digest finalized),
                  bt_binary_bytes_seen := max (bt_binary_bytes_seen current) (bt_binary_bytes_seen finalized),
                  bt_progress_remaining := min (bt_progress_remaining current) (bt_progress_remaining finalized),
                  bt_last_progress := max (bt_last_progress current) (bt_last_progress finalized)\<rparr>
               else finalized)
      in g\<lparr>bt_timeout_ack_sent := bt_timeout_ack_sent current \<or> bt_timeout_ack_sent g,
           bt_timeout_ack_attempted := bt_timeout_ack_attempted current \<or> bt_timeout_ack_attempted g,
           bt_timeout_ack_in_flight := bt_timeout_ack_in_flight current \<or> bt_timeout_ack_in_flight g,
           bt_failure_issued := bt_failure_issued current \<or> bt_failure_issued g,
           bt_failure_ack_in_flight := bt_failure_ack_in_flight current \<or> bt_failure_ack_in_flight g,
           bt_failure_ack_sent := bt_failure_ack_sent current \<or> bt_failure_ack_sent g,
           bt_late_destination_ack := bt_late_destination_ack current,
           bt_late_source_success_terminal :=
             (case bt_late_source_success_terminal current of
                None \<Rightarrow> bt_late_source_success_terminal g | Some e \<Rightarrow> Some e)\<rparr>)"

definition finalize_one ::
  "int \<Rightarrow> nat \<Rightarrow> bool \<Rightarrow> transfer_key \<Rightarrow> bridge_role \<Rightarrow> transfer_slots \<Rightarrow> transfer_slots" where
  "finalize_one expiry b error k role s =
     (case dict_get (sx_bridge_tombstones s) k of
        None \<Rightarrow> s
      | Some current \<Rightarrow>
          s\<lparr>sx_bridge_tombstones := dict_set k
              (merge_tombstone current (bridge_tombstone_for expiry b (br_facts (bridge_at s b)) role False error))
              (sx_bridge_tombstones s)\<rparr>)"

definition finalize_bridge_tombstones :: "int \<Rightarrow> nat \<Rightarrow> bool \<Rightarrow> transfer_slots \<Rightarrow> transfer_slots" where
  "finalize_bridge_tombstones expiry b error s =
     finalize_one expiry b error (br_destination_key (bridge_at s b)) DestinationRole
       (finalize_one expiry b error (br_source_key (bridge_at s b)) SourceRole s)"

text \<open>The locked section of \<open>_finish_bridge_once\<close>, which runs after the publication.\<close>

definition finish_bridge :: "int \<Rightarrow> nat \<Rightarrow> bool \<Rightarrow> transfer_slots \<Rightarrow> transfer_slots" where
  "finish_bridge expiry b error s =
     (let br = bridge_at s b
      in finalize_bridge_tombstones expiry b error
           (s\<lparr>sx_bridges := dict_del (br_slot_id br) (sx_bridges s),
              sx_bridge_endpoints := dict_del (br_destination_key br)
                (dict_del (br_source_key br) (sx_bridge_endpoints s))\<rparr>))"

section \<open>Late frames of a closed bridge\<close>

datatype late_result = NotClosed | LateHandled | LateRejected | SendAck bool transfer_end

definition late_source_ready :: "transfer_slots \<Rightarrow> bridge_tombstone \<Rightarrow> bool" where
  "late_source_ready s t \<longleftrightarrow> bt_source_ready_issued t \<or>
     (case bt_bridge t of None \<Rightarrow> False | Some b \<Rightarrow> bf_source_ready_issued (br_facts (bridge_at s b)))"

definition late_progress :: "transfer_slots \<Rightarrow> bridge_tombstone \<Rightarrow> nat \<Rightarrow> bridge_tombstone option" where
  "late_progress s t n =
     (if bt_role t = SourceRole \<and> bt_failed t \<and> late_source_ready s t \<and> 0 < bt_progress_remaining t \<and>
         (case bt_declared_bytes t of None \<Rightarrow> False | Some d \<Rightarrow> bt_last_progress t \<le> n \<and> n \<le> d)
      then Some (t\<lparr>bt_last_progress := n, bt_progress_remaining := bt_progress_remaining t - 1\<rparr>)
      else None)"

definition late_failure_issued :: "transfer_slots \<Rightarrow> bridge_tombstone \<Rightarrow> bool" where
  "late_failure_issued s t \<longleftrightarrow> bt_failure_issued t \<or>
     (case bt_bridge t of
        None \<Rightarrow> False
      | Some b \<Rightarrow> (if bt_role t = SourceRole then bf_source_failure_issued (br_facts (bridge_at s b))
                   else bf_destination_failure_issued (br_facts (bridge_at s b))))"

definition complete_ack_future :: "bridge_role \<Rightarrow> transfer_end \<Rightarrow> bridge_facts \<Rightarrow> bridge_facts" where
  "complete_ack_future role e f =
     (if role = SourceRole
      then (if bf_source_ack_future f = Some Pending
            then f\<lparr>bf_source_ack_future := Some (Result e), bf_activity := True\<rparr> else f)
      else (if bf_destination_ack_future f = Some Pending
            then f\<lparr>bf_destination_ack_future := Some (Result e), bf_activity := True\<rparr> else f))"

definition complete_bridge_ack :: "nat option \<Rightarrow> bridge_role \<Rightarrow> transfer_end \<Rightarrow> transfer_slots \<Rightarrow> transfer_slots" where
  "complete_bridge_ack bo role e s =
     (case bo of
        None \<Rightarrow> s
      | Some b \<Rightarrow>
          set_bridge b ((bridge_at s b)\<lparr>br_facts := complete_ack_future role e (br_facts (bridge_at s b))\<rparr>) s)"

definition late_success_matches :: "(nat list \<Rightarrow> ustr) \<Rightarrow> bridge_tombstone \<Rightarrow> transfer_end \<Rightarrow> bool" where
  "late_success_matches sha256 t e \<longleftrightarrow>
     bt_role t = SourceRole \<and> bt_failed t \<and> bt_source_ready_issued t \<and> \<not> te_ack e \<and> te_ok e \<and>
     bt_declared_bytes t \<noteq> None \<and> Some (bt_binary_bytes_seen t) = bt_declared_bytes t \<and>
     te_bytes_sent e = bt_declared_bytes t \<and> te_sha256 e = Some (sha256 (bt_binary_digest t))"

definition same_or_first :: "'a option \<Rightarrow> 'a \<Rightarrow> bool" where
  "same_or_first seen x = (case seen of None \<Rightarrow> True | Some y \<Rightarrow> x = y)"

definition late_end ::
  "(nat list \<Rightarrow> ustr) \<Rightarrow> transfer_slots \<Rightarrow> bridge_tombstone \<Rightarrow> transfer_end \<Rightarrow>
   bridge_tombstone \<times> late_result \<times> bool" where
  "late_end sha256 s t e =
     (if e \<in> set (bt_expected_terminals t)
      then (if te_ack e \<and> (case bt_failure_terminal t of None \<Rightarrow> False | Some f \<Rightarrow> e = f\<lparr>te_ack := True\<rparr>) \<and>
               \<not> late_failure_issued s t
            then (t, LateRejected, False) else (t, LateHandled, te_ack e))
      else if bt_role t = SourceRole \<and> is_sender_timeout e \<and> bt_source_resolution t = Some DestinationAck
      then (t, LateHandled, False)
      else if bt_role t = SourceRole \<and> is_sender_timeout e \<and> bt_source_resolution t = Some TimeoutAck
      then (if bt_timeout_ack_attempted t \<or> bt_timeout_ack_sent t \<or> bt_timeout_ack_in_flight t
            then (t, LateHandled, False)
            else (t\<lparr>bt_timeout_ack_attempted := True, bt_timeout_ack_in_flight := True\<rparr>,
                  SendAck True (e\<lparr>te_ack := True\<rparr>), False))
      else if bt_failed t \<and> bt_failure_terminal t = Some e
      then (if bt_failure_ack_in_flight t \<or> bt_failure_ack_sent t then (t, LateHandled, False)
            else (t\<lparr>bt_failure_ack_in_flight := True\<rparr>, SendAck False (e\<lparr>te_ack := True\<rparr>), False))
      else if late_success_matches sha256 t e
      then (if same_or_first (bt_late_source_success_terminal t) e
            then (t\<lparr>bt_late_source_success_terminal := Some e\<rparr>, LateHandled, False)
            else (t, LateRejected, False))
      else if bt_role t = DestinationRole \<and> bt_accept_late_destination_ack t \<and>
              ack_resolves_success_terminal (bt_sender_success_terminal t) e
      then (if same_or_first (bt_late_destination_ack t) e
            then (t\<lparr>bt_late_destination_ack := Some e\<rparr>, LateHandled, False)
            else (t, LateRejected, False))
      else (t, LateRejected, False))"

definition set_tombstone :: "transfer_key \<Rightarrow> bridge_tombstone \<Rightarrow> transfer_slots \<Rightarrow> transfer_slots" where
  "set_tombstone k t s = s\<lparr>sx_bridge_tombstones := dict_set k t (sx_bridge_tombstones s)\<rparr>"

text \<open>\<open>_handle_bridge_tombstone_frame\<close> up to the sending of an acknowledgement.\<close>

definition handle_tombstone_frame ::
  "(nat list \<Rightarrow> ustr) \<Rightarrow> int \<Rightarrow> uuid \<times> nat \<Rightarrow> transfer_frame \<Rightarrow> transfer_slots \<Rightarrow>
   transfer_slots \<times> late_result" where
  "handle_tombstone_frame sha256 now handle frame s0 =
     (let k = (fst handle, snd handle, frame_id frame); s = expire_tombstones now s0
      in case dict_get (sx_bridge_tombstones s) k of
           None \<Rightarrow> (s, NotClosed)
         | Some t \<Rightarrow>
             (case frame of
                ProgressFrame i n \<Rightarrow>
                  (case late_progress s t n of
                     None \<Rightarrow> (s, LateRejected) | Some t' \<Rightarrow> (set_tombstone k t' s, LateHandled))
              | EndFrame e \<Rightarrow>
                  (case late_end sha256 s t e of
                     (t', result, completes) \<Rightarrow>
                       ((if completes then complete_bridge_ack (bt_bridge t) (bt_role t) e
                         else (\<lambda>x. x)) (set_tombstone k t' s), result))
              | OtherFrame i \<Rightarrow> (s, LateRejected)))"

definition finish_timeout_ack :: "transfer_key \<Rightarrow> bool \<Rightarrow> transfer_slots \<Rightarrow> transfer_slots" where
  "finish_timeout_ack k delivered s =
     (case dict_get (sx_bridge_tombstones s) k of
        None \<Rightarrow> s
      | Some t \<Rightarrow> set_tombstone k (t\<lparr>bt_timeout_ack_sent := bt_timeout_ack_sent t \<or> delivered,
                                     bt_timeout_ack_in_flight := False\<rparr>) s)"

definition finish_failure_ack :: "transfer_key \<Rightarrow> transfer_end \<Rightarrow> bool \<Rightarrow> transfer_slots \<Rightarrow> transfer_slots" where
  "finish_failure_ack k ack delivered s =
     (case dict_get (sx_bridge_tombstones s) k of
        None \<Rightarrow> s
      | Some t \<Rightarrow>
          let s' = set_tombstone k (t\<lparr>bt_failure_ack_in_flight := False,
                                     bt_failure_ack_sent := bt_failure_ack_sent t \<or> delivered\<rparr>) s
          in if \<not> delivered then s' else complete_bridge_ack (bt_bridge t) (bt_role t) ack s')"

definition handle_tombstone_binary ::
  "int \<Rightarrow> uuid \<times> nat \<Rightarrow> uuid \<Rightarrow> nat list \<Rightarrow> transfer_slots \<Rightarrow> transfer_slots \<times> late_result" where
  "handle_tombstone_binary now handle slot_id chunk s0 =
     (let k = (fst handle, snd handle, slot_id); s = expire_tombstones now s0
      in case dict_get (sx_bridge_tombstones s) k of
           None \<Rightarrow> (s, NotClosed)
         | Some t \<Rightarrow>
             (if bt_role t = SourceRole \<and> bt_failed t \<and> late_source_ready s t \<and> chunk \<noteq> [] \<and>
                 (case bt_declared_bytes t of
                    None \<Rightarrow> False | Some d \<Rightarrow> bt_binary_bytes_seen t + length chunk \<le> d)
              then (set_tombstone k (t\<lparr>bt_binary_bytes_seen := bt_binary_bytes_seen t + length chunk,
                                      bt_binary_digest := bt_binary_digest t @ chunk\<rparr>) s, LateHandled)
              else (s, LateRejected)))"

end
