(* ===== verification/Transfer_Tombstones.thy ===== *)
theory Transfer_Tombstones
  imports Transfer_Slots
begin

text \<open>
  The invariant of the slot and tombstone tables over every interleaving of their operations, and
  what it gives: the number of remembered names stays within its budget, and a closed
  bridge acknowledges a late failure at most once on each side.
\<close>

section \<open>The invariant\<close>

definition credits_ok :: "transfer_slots \<Rightarrow> bool" where
  "credits_ok s \<longleftrightarrow>
     sx_reserved_credits s = sum_list (map br_tombstone_credits (sx_store s)) \<and>
     (\<forall>br\<in>set (sx_store s). br_tombstone_credits br = (if br_tombstones_published br then 0 else 2))"

definition bridge_keys :: "bridge_slot \<Rightarrow> transfer_key set" where
  "bridge_keys br = {br_source_key br, br_destination_key br}"

text \<open>
  A pinned tombstone belongs to an open bridge that has published it; the others have lost
  their bridge, and their key is no endpoint.
\<close>

definition tombstone_owned :: "transfer_slots \<Rightarrow> transfer_key \<Rightarrow> bridge_tombstone \<Rightarrow> bool" where
  "tombstone_owned s k t \<longleftrightarrow>
     (if bt_pinned t
      then \<exists>b. bt_bridge t = Some b \<and> dict_get (sx_bridges s) (snd (snd k)) = Some b \<and>
           k \<in> bridge_keys (bridge_at s b) \<and> br_tombstones_published (bridge_at s b)
      else bt_bridge t = None \<and> dict_get (sx_bridge_endpoints s) k = None)"

text \<open>The bridge registered under a slot id, and its endpoints.\<close>

definition bridge_registered :: "transfer_slots \<Rightarrow> uuid \<Rightarrow> nat \<Rightarrow> bool" where
  "bridge_registered s sid b \<longleftrightarrow>
     b < length (sx_store s) \<and> br_slot_id (bridge_at s b) = sid \<and>
     (\<forall>k\<in>bridge_keys (bridge_at s b). snd (snd k) = sid \<and> dict_get (sx_bridge_endpoints s) k \<noteq> None)"

definition names_ok :: "transfer_slots \<Rightarrow> bool" where
  "names_ok s \<longleftrightarrow>
     dict_wf (sx_bridge_tombstones s) \<and> dict_wf (sx_tombstones s) \<and>
     (\<forall>sid b. dict_get (sx_bridges s) sid = Some b \<longrightarrow> bridge_registered s sid b) \<and>
     (\<forall>k. dict_get (sx_bridge_endpoints s) k \<noteq> None \<longrightarrow>
        dict_get (sx_slots s) k = None \<and> dict_get (sx_tombstones s) k = None \<and>
        (\<exists>b. dict_get (sx_bridges s) (snd (snd k)) = Some b \<and> k \<in> bridge_keys (bridge_at s b))) \<and>
     (\<forall>k t. dict_get (sx_bridge_tombstones s) k = Some t \<longrightarrow>
        dict_get (sx_slots s) k = None \<and> dict_get (sx_tombstones s) k = None \<and> tombstone_owned s k t) \<and>
     set (sx_acknowledged s) \<subseteq> set (dict_keys (sx_tombstones s))"

lemma names_okI:
  assumes "dict_wf (sx_bridge_tombstones s)" "dict_wf (sx_tombstones s)"
    and "\<And>sid b. dict_get (sx_bridges s) sid = Some b \<Longrightarrow> bridge_registered s sid b"
    and "\<And>k. dict_get (sx_bridge_endpoints s) k \<noteq> None \<Longrightarrow>
        dict_get (sx_slots s) k = None \<and> dict_get (sx_tombstones s) k = None \<and>
        (\<exists>b. dict_get (sx_bridges s) (snd (snd k)) = Some b \<and> k \<in> bridge_keys (bridge_at s b))"
    and "\<And>k t. dict_get (sx_bridge_tombstones s) k = Some t \<Longrightarrow>
        dict_get (sx_slots s) k = None \<and> dict_get (sx_tombstones s) k = None \<and> tombstone_owned s k t"
    and "set (sx_acknowledged s) \<subseteq> set (dict_keys (sx_tombstones s))"
  shows "names_ok s"
  using assms unfolding names_ok_def by blast

lemma names_okD:
  assumes "names_ok s"
  shows "dict_wf (sx_bridge_tombstones s)" "dict_wf (sx_tombstones s)"
    and "dict_get (sx_bridges s) sid = Some b \<Longrightarrow> bridge_registered s sid b"
    and "dict_get (sx_bridge_endpoints s) k \<noteq> None \<Longrightarrow>
        dict_get (sx_slots s) k = None \<and> dict_get (sx_tombstones s) k = None \<and>
        (\<exists>b. dict_get (sx_bridges s) (snd (snd k)) = Some b \<and> k \<in> bridge_keys (bridge_at s b))"
    and "dict_get (sx_bridge_tombstones s) k = Some t \<Longrightarrow>
        dict_get (sx_slots s) k = None \<and> dict_get (sx_tombstones s) k = None \<and> tombstone_owned s k t"
    and "set (sx_acknowledged s) \<subseteq> set (dict_keys (sx_tombstones s))"
  using assms unfolding names_ok_def by blast+

section \<open>Removing tombstones\<close>

text \<open>
  Expiry and eviction only remove final tombstones, with their acknowledgement marks, and bridge
  tombstones that are not pinned.
\<close>

definition shrunk :: "transfer_slots \<Rightarrow> transfer_slots \<Rightarrow> bool" where
  "shrunk s t \<longleftrightarrow>
     (\<exists>P Q. t = s\<lparr>sx_tombstones := filter (\<lambda>e. P (fst e)) (sx_tombstones s),
                 sx_acknowledged := filter P (sx_acknowledged s),
                 sx_bridge_tombstones := filter Q (sx_bridge_tombstones s)\<rparr> \<and>
            (\<forall>k t. bt_pinned t \<longrightarrow> Q (k, t)))"

lemma dict_get_filter_keys: "dict_get (filter (\<lambda>e. P (fst e)) d) k = (if P k then dict_get d k else None)"
  by (induction d) (auto simp: dict_get_def)

lemma dict_get_filter_Some:
  "dict_wf d \<Longrightarrow> dict_get (filter Q d) k = Some v \<longleftrightarrow> dict_get d k = Some v \<and> Q (k, v)"
  by (subst dict_wf_get_iff) (auto simp: dict_wf_get_iff dict_wf_def distinct_map_filter)

lemma dict_wf_filter [simp]: "dict_wf d \<Longrightarrow> dict_wf (filter Q d)"
  by (simp add: dict_wf_def distinct_map_filter)

lemma shrunk_same:
  assumes "shrunk s t"
  shows "sx_slots t = sx_slots s" "sx_bridges t = sx_bridges s" "sx_bridge_endpoints t = sx_bridge_endpoints s"
    "sx_store t = sx_store s" "sx_reserved_credits t = sx_reserved_credits s"
    "length (sx_tombstones t) \<le> length (sx_tombstones s)"
    "length (sx_bridge_tombstones t) \<le> length (sx_bridge_tombstones s)"
    "tombstone_occupancy t \<le> tombstone_occupancy s"
  using assms by (auto simp: shrunk_def tombstone_occupancy_def intro!: add_le_mono)

lemma shrunk_names:
  assumes "names_ok s" "shrunk s t"
  shows "names_ok t"
proof -
  obtain P Q where t: "t = s\<lparr>sx_tombstones := filter (\<lambda>e. P (fst e)) (sx_tombstones s),
      sx_acknowledged := filter P (sx_acknowledged s),
      sx_bridge_tombstones := filter Q (sx_bridge_tombstones s)\<rparr>"
    using assms(2) unfolding shrunk_def by blast
  have same: "bridge_registered t = bridge_registered s" "tombstone_owned t = tombstone_owned s"
    by (simp_all add: t fun_eq_iff bridge_registered_def tombstone_owned_def)
  note inv = names_okD [OF assms(1)]
  have keys: "k \<in> set (dict_keys (filter (\<lambda>e. P (fst e)) (sx_tombstones s))) \<longleftrightarrow>
      P k \<and> k \<in> set (dict_keys (sx_tombstones s))" for k
    by (simp add: dict_keys_iff dict_get_filter_keys)
  show ?thesis
  proof (rule names_okI, unfold same)
    show "dict_wf (sx_bridge_tombstones t)" "dict_wf (sx_tombstones t)" using inv(1,2) by (simp_all add: t)
  next
    fix k e
    assume "dict_get (sx_bridge_tombstones t) k = Some e"
    then have "dict_get (sx_bridge_tombstones s) k = Some e"
      using dict_get_filter_Some [OF inv(1)] by (simp add: t)
    from inv(5) [OF this]
    show "dict_get (sx_slots t) k = None \<and> dict_get (sx_tombstones t) k = None \<and> tombstone_owned s k e"
      by (simp add: t dict_get_filter_keys)
  next
    show "set (sx_acknowledged t) \<subseteq> set (dict_keys (sx_tombstones t))"
      using inv(6) by (auto simp: t keys)
  qed (use inv(3,4) in \<open>auto simp: t dict_get_filter_keys\<close>)
qed

lemma shrunk_credits: "credits_ok s \<Longrightarrow> shrunk s t \<Longrightarrow> credits_ok t"
  by (simp add: credits_ok_def shrunk_same)

lemma dict_del_filter: "dict_del k d = filter (\<lambda>e. fst e \<noteq> k) d"
  by (induction d) (auto simp: dict_del_def)

lemma drop_tombstone_shrunk: "shrunk s (drop_tombstone k s)"
  unfolding shrunk_def drop_tombstone_def
  by (rule exI [of _ "\<lambda>k'. k' \<noteq> k"], rule exI [of _ "\<lambda>_. True"])
    (simp add: dict_del_filter discard_key_def removeAll_filter_not_eq eq_commute)

lemma first_evictable_unpinned:
  "dict_wf d \<Longrightarrow> first_evictable d = Some k \<Longrightarrow> (k, t) \<in> set d \<Longrightarrow> \<not> bt_pinned t"
  by (metis dict_wf_def eq_key_imp_eq_value first_evictable_get)

lemma evict_one_shrunk:
  assumes "dict_wf (sx_bridge_tombstones s)" "evict_one s = Some t"
  shows "shrunk s t"
proof (cases "sx_tombstones s")
  case (Cons e rest)
  then show ?thesis using assms(2) drop_tombstone_shrunk by (cases e) (auto simp: evict_one_def)
next
  case Nil
  then obtain k where k: "first_evictable (sx_bridge_tombstones s) = Some k"
    "t = s\<lparr>sx_bridge_tombstones := dict_del k (sx_bridge_tombstones s)\<rparr>"
    using assms(2) by (auto simp: evict_one_def split: option.splits)
  have "dict_del k (sx_bridge_tombstones s) =
      filter (\<lambda>(k', e). bt_pinned e \<or> k' \<noteq> k) (sx_bridge_tombstones s)"
    unfolding dict_del_filter
    by (rule filter_cong) (use first_evictable_unpinned [OF assms(1) k(1)] in auto)
  then show ?thesis
    unfolding shrunk_def k(2)
    by (intro exI [of _ "\<lambda>_. True"] exI [of _ "\<lambda>(k', e). bt_pinned e \<or> k' \<noteq> k"]) simp
qed

lemma expire_shrunk: "shrunk s (expire_tombstones now s)"
proof -
  let ?gone = "map fst (filter (\<lambda>(k, (e, a, b)). e \<le> now) (sx_tombstones s))"
  show ?thesis
    unfolding shrunk_def expire_tombstones_def Let_def
    by (intro exI [of _ "\<lambda>k. k \<notin> set ?gone"] exI [of _ "\<lambda>(k, t). \<not> bridge_tombstone_expired now t"]
        conjI refl) (auto simp: bridge_tombstone_expired_def)
qed

lemma shrunk_refl: "shrunk s s"
  unfolding shrunk_def by (intro exI [of _ "\<lambda>_. True"]) simp

lemma evict_excess_steps:
  assumes "names_ok s" "credits_ok s"
  shows "names_ok (fst (evict_excess s)) \<and> credits_ok (fst (evict_excess s)) \<and>
    sx_slots (fst (evict_excess s)) = sx_slots s \<and> sx_store (fst (evict_excess s)) = sx_store s"
  using assms
proof (induction s rule: evict_excess.induct)
  case (1 s)
  show ?case
  proof (cases "TOMBSTONE_MAX_ENTRIES < tombstone_occupancy s")
    case True
    show ?thesis
    proof (cases "evict_one s")
      case (Some t)
      have sh: "shrunk s t" using evict_one_shrunk [OF names_okD(1) [OF 1(2)] Some] .
      from 1(1) [OF True Some shrunk_names [OF 1(2) sh] shrunk_credits [OF 1(3) sh]]
      show ?thesis using True Some shrunk_same [OF sh] by (simp add: evict_excess.simps [of s])
    qed (use True 1 in \<open>simp add: evict_excess.simps [of s]\<close>)
  qed (use 1 in \<open>simp add: evict_excess.simps [of s]\<close>)
qed

lemma evict_excess_fits:
  assumes "sx_tombstones s \<noteq> []" "tombstone_occupancy s \<le> Suc TOMBSTONE_MAX_ENTRIES"
  shows "snd (evict_excess s) = None" "tombstone_occupancy (fst (evict_excess s)) \<le> TOMBSTONE_MAX_ENTRIES"
proof -
  have "snd (evict_excess s) = None \<and> tombstone_occupancy (fst (evict_excess s)) \<le> TOMBSTONE_MAX_ENTRIES"
  proof (cases "TOMBSTONE_MAX_ENTRIES < tombstone_occupancy s")
    case True
    obtain k v rest where ts: "sx_tombstones s = (k, v) # rest" using assms(1) by (cases "sx_tombstones s") auto
    have ev: "evict_one s = Some (drop_tombstone k s)" by (simp add: evict_one_def ts)
    have "tombstone_occupancy (drop_tombstone k s) < tombstone_occupancy s"
      using evict_one_shrinks [OF ev] shrunk_same(5) [OF drop_tombstone_shrunk, of k s]
      by (simp add: tombstone_occupancy_def)
    then have "\<not> TOMBSTONE_MAX_ENTRIES < tombstone_occupancy (drop_tombstone k s)" using assms(2) by simp
    then show ?thesis using True ev
      by (simp add: evict_excess.simps [of s] evict_excess.simps [of "drop_tombstone k s"])
  qed (simp add: evict_excess.simps [of s])
  then show "snd (evict_excess s) = None" "tombstone_occupancy (fst (evict_excess s)) \<le> TOMBSTONE_MAX_ENTRIES"
    by simp_all
qed

lemma reserve_credits_steps:
  assumes "names_ok s"
  shows "\<exists>t. names_ok t \<and> (credits_ok s \<longrightarrow> credits_ok t) \<and> sx_slots t = sx_slots s \<and> sx_bridges t = sx_bridges s \<and>
    sx_bridge_endpoints t = sx_bridge_endpoints s \<and> sx_store t = sx_store s \<and>
    set (dict_keys (sx_tombstones t)) \<subseteq> set (dict_keys (sx_tombstones s)) \<and>
    set (dict_keys (sx_bridge_tombstones t)) \<subseteq> set (dict_keys (sx_bridge_tombstones s)) \<and>
    tombstone_occupancy t \<le> tombstone_occupancy s \<and>
    (reserve_credits n s = (t, Some TransferBusyError) \<or>
     reserve_credits n s = (t\<lparr>sx_reserved_credits := sx_reserved_credits t + n\<rparr>, None) \<and>
     tombstone_occupancy t + n \<le> TOMBSTONE_MAX_ENTRIES)"
  using assms
proof (induction n s rule: reserve_credits.induct)
  case (1 n s)
  show ?case
  proof (cases "TOMBSTONE_MAX_ENTRIES < tombstone_occupancy s + n")
    case True
    show ?thesis
    proof (cases "evict_one s")
      case None
      then show ?thesis using True 1(2) by (intro exI [of _ s]) (simp add: reserve_credits.simps [of n s])
    next
      case (Some u)
      have sh: "shrunk s u" using evict_one_shrunk [OF names_okD(1) [OF 1(2)] Some] .
      have keys: "set (dict_keys (sx_tombstones u)) \<subseteq> set (dict_keys (sx_tombstones s))"
        "set (dict_keys (sx_bridge_tombstones u)) \<subseteq> set (dict_keys (sx_bridge_tombstones s))"
        using sh by (auto simp: shrunk_def dict_keys_def)
      have eq: "reserve_credits n s = reserve_credits n u" using True Some by (simp add: reserve_credits.simps [of n s])
      from 1(1) [OF True Some shrunk_names [OF 1(2) sh]] obtain t where
        "names_ok t \<and> (credits_ok u \<longrightarrow> credits_ok t) \<and> sx_slots t = sx_slots u \<and> sx_bridges t = sx_bridges u \<and>
    sx_bridge_endpoints t = sx_bridge_endpoints u \<and> sx_store t = sx_store u \<and>
    set (dict_keys (sx_tombstones t)) \<subseteq> set (dict_keys (sx_tombstones u)) \<and>
    set (dict_keys (sx_bridge_tombstones t)) \<subseteq> set (dict_keys (sx_bridge_tombstones u)) \<and>
    tombstone_occupancy t \<le> tombstone_occupancy u \<and>
    (reserve_credits n u = (t, Some TransferBusyError) \<or>
     reserve_credits n u = (t\<lparr>sx_reserved_credits := sx_reserved_credits t + n\<rparr>, None) \<and>
     tombstone_occupancy t + n \<le> TOMBSTONE_MAX_ENTRIES)" by blast
      then show ?thesis
        using shrunk_same [OF sh] shrunk_credits [OF _ sh] keys unfolding eq
        by (intro exI [of _ t]) (simp, blast intro: order_trans)
    qed
  next
    case False
    then show ?thesis using 1(2) by (intro exI [of _ s]) (simp add: reserve_credits.simps [of n s])
  qed
qed

section \<open>Every operation keeps the invariant\<close>

definition slots_inv :: "transfer_slots \<Rightarrow> bool" where
  "slots_inv s \<longleftrightarrow> names_ok s \<and> credits_ok s \<and> tombstone_occupancy s \<le> TOMBSTONE_MAX_ENTRIES"

lemma slots_invD:
  "slots_inv s \<Longrightarrow> names_ok s" "slots_inv s \<Longrightarrow> credits_ok s"
  "slots_inv s \<Longrightarrow> tombstone_occupancy s \<le> TOMBSTONE_MAX_ENTRIES"
  by (simp_all add: slots_inv_def)

lemma shrunk_inv: "slots_inv s \<Longrightarrow> shrunk s t \<Longrightarrow> slots_inv t"
  using shrunk_names shrunk_credits shrunk_same(8) unfolding slots_inv_def by (metis order_trans)

lemma expire_inv: "slots_inv s \<Longrightarrow> slots_inv (expire_tombstones now s)"
  using shrunk_inv expire_shrunk by blast

lemma length_dict_set: "length (dict_set k v d) \<le> Suc (length d)"
  by (induction d) (auto simp: dict_set_def)

lemma length_dict_set_old: "dict_get d k \<noteq> None \<Longrightarrow> length (dict_set k v d) = length d"
  by (induction d) (auto simp: dict_set_def dict_get_def)

lemma names_slots:
  assumes "names_ok s" "\<And>k. dict_get slots' k \<noteq> None \<Longrightarrow>
      dict_get (sx_bridge_endpoints s) k = None \<and> dict_get (sx_bridge_tombstones s) k = None"
  shows "names_ok (s\<lparr>sx_slots := slots'\<rparr>)"
proof -
  note inv = names_okD [OF assms(1)]
  have "dict_get slots' k = None" if "dict_get (sx_bridge_endpoints s) k \<noteq> None" for k
    using assms(2) [of k] that by blast
  moreover have "dict_get slots' k = None" if "dict_get (sx_bridge_tombstones s) k = Some t" for k t
    using assms(2) [of k] that by force
  ultimately show ?thesis
    by (intro names_okI) (use inv in \<open>simp_all add: bridge_registered_def tombstone_owned_def\<close>)
qed

lemma slot_key_free:
  assumes "names_ok s" "dict_get (sx_slots s) k = Some slot"
  shows "dict_get (sx_bridge_endpoints s) k = None" "dict_get (sx_bridge_tombstones s) k = None"
proof -
  show "dict_get (sx_bridge_endpoints s) k = None"
    using names_okD(4) [OF assms(1), of k] assms(2) by (cases "dict_get (sx_bridge_endpoints s) k") auto
  show "dict_get (sx_bridge_tombstones s) k = None"
    using names_okD(5) [OF assms(1), of k] assms(2) by (cases "dict_get (sx_bridge_tombstones s) k") auto
qed

lemma names_slots_sub:
  assumes "names_ok s" "\<And>k. dict_get slots' k \<noteq> None \<Longrightarrow> dict_get (sx_slots s) k \<noteq> None"
  shows "names_ok (s\<lparr>sx_slots := slots'\<rparr>)"
  by (rule names_slots [OF assms(1)]) (use assms(2) slot_key_free [OF assms(1)] in blast)

lemma names_tombstone:
  assumes "names_ok s" "dict_get (sx_bridge_endpoints s) k = None" "dict_get (sx_bridge_tombstones s) k = None"
  shows "names_ok (s\<lparr>sx_tombstones := dict_set k v (sx_tombstones s)\<rparr>)"
proof -
  note inv = names_okD [OF assms(1)]
  show ?thesis
    by (intro names_okI) (use inv assms(2,3) in \<open>auto simp: bridge_registered_def tombstone_owned_def\<close>)
qed

lemma credits_other [simp]:
  "credits_ok (s\<lparr>sx_slots := a\<rparr>) = credits_ok s" "credits_ok (s\<lparr>sx_tombstones := ts\<rparr>) = credits_ok s"
  "credits_ok (s\<lparr>sx_acknowledged := ks\<rparr>) = credits_ok s"
  "credits_ok (s\<lparr>sx_bridge_tombstones := bts\<rparr>) = credits_ok s"
  by (simp_all add: credits_ok_def)

lemma occupancy_slots [simp]:
  "tombstone_occupancy (s\<lparr>sx_slots := a\<rparr>) = tombstone_occupancy s"
  "tombstone_occupancy (s\<lparr>sx_acknowledged := ks\<rparr>) = tombstone_occupancy s"
  "tombstone_occupancy (s\<lparr>sx_store := st\<rparr>) = tombstone_occupancy s"
  by (simp_all add: tombstone_occupancy_def)

lemma remember_tombstone_inv:
  assumes "slots_inv s" "dict_get (sx_bridge_endpoints s) k = None" "dict_get (sx_bridge_tombstones s) k = None"
  shows "snd (remember_tombstone k v s) = None \<and> slots_inv (fst (remember_tombstone k v s))"
proof -
  let ?t = "drop_tombstone k s"
  let ?u = "?t\<lparr>sx_tombstones := dict_set k v (sx_tombstones ?t)\<rparr>"
  have t: "slots_inv ?t" using shrunk_inv [OF assms(1) drop_tombstone_shrunk] .
  have "dict_get (sx_bridge_endpoints ?t) k = None" "dict_get (sx_bridge_tombstones ?t) k = None"
    using assms(2,3) by (simp_all add: drop_tombstone_def)
  then have u: "names_ok ?u" "credits_ok ?u"
    using names_tombstone [OF slots_invD(1) [OF t]] slots_invD(2) [OF t] by simp_all
  have ne: "sx_tombstones ?u \<noteq> []" by (simp add: dict_set_def update_nonempty)
  have "tombstone_occupancy ?u \<le> Suc (tombstone_occupancy ?t)"
    using length_dict_set [of k v "sx_tombstones ?t"] by (simp add: tombstone_occupancy_def)
  then have occ: "tombstone_occupancy ?u \<le> Suc TOMBSTONE_MAX_ENTRIES" using slots_invD(3) [OF t] by simp
  show ?thesis
    using evict_excess_fits [OF ne occ] evict_excess_steps [OF u]
    by (simp add: remember_tombstone_def Let_def slots_inv_def)
qed

lemma new_slot_inv:
  assumes "slots_inv s"
  shows "slots_inv (fst (new_slot now k slot s))"
proof -
  let ?t = "expire_tombstones now s"
  have t: "slots_inv ?t" using assms by (rule expire_inv)
  have "slots_inv (?t\<lparr>sx_slots := dict_set k slot (sx_slots ?t)\<rparr>)" if free: "\<not> key_in_use ?t k"
  proof -
    have "names_ok (?t\<lparr>sx_slots := dict_set k slot (sx_slots ?t)\<rparr>)"
    proof (rule names_slots [OF slots_invD(1) [OF t]])
      fix k'
      assume "dict_get (dict_set k slot (sx_slots ?t)) k' \<noteq> None"
      then consider "k' = k" | slot' where "dict_get (sx_slots ?t) k' = Some slot'"
        by (auto split: if_splits)
      then show "dict_get (sx_bridge_endpoints ?t) k' = None \<and> dict_get (sx_bridge_tombstones ?t) k' = None"
      proof cases
        case 1
        then show ?thesis using free unfolding key_in_use_def by blast
      next
        case 2
        then show ?thesis using slot_key_free [OF slots_invD(1) [OF t] 2] by blast
      qed
    qed
    then show ?thesis using slots_invD(2,3) [OF t] by (simp add: slots_inv_def)
  qed
  then show ?thesis using t by (simp add: new_slot_def Let_def)
qed

lemma set_slot_inv:
  assumes "slots_inv s" "dict_get (sx_slots s) k \<noteq> None"
  shows "slots_inv (s\<lparr>sx_slots := dict_set k slot (sx_slots s)\<rparr>)"
proof -
  have "names_ok (s\<lparr>sx_slots := dict_set k slot (sx_slots s)\<rparr>)"
    by (rule names_slots_sub [OF slots_invD(1) [OF assms(1)]]) (use assms(2) in \<open>simp split: if_splits\<close>)
  then show ?thesis using assms(1) by (simp add: slots_inv_def)
qed

text \<open>
  A task holds a slot: it is in the table, or it has left it and, as every transfer gets a new
  identifier, no bridge uses its key.
\<close>

definition slot_held :: "transfer_key \<Rightarrow> transfer_slot \<Rightarrow> transfer_slots \<Rightarrow> bool" where
  "slot_held k slot s \<longleftrightarrow>
     dict_get (sx_slots s) k = Some slot \<or>
     dict_get (sx_slots s) k = None \<and> dict_get (sx_bridge_endpoints s) k = None \<and>
     dict_get (sx_bridge_tombstones s) k = None"

lemma slot_held_free:
  assumes "slots_inv s" "slot_held k slot s"
  shows "dict_get (sx_bridge_endpoints s) k = None" "dict_get (sx_bridge_tombstones s) k = None"
  using assms(2) slot_key_free [OF slots_invD(1) [OF assms(1)], of k slot] by (auto simp: slot_held_def)

definition slot_written :: "transfer_key \<Rightarrow> transfer_slot \<Rightarrow> transfer_slots \<Rightarrow> transfer_slots" where
  "slot_written k slot s =
     (if dict_get (sx_slots s) k = None then s else s\<lparr>sx_slots := dict_set k slot (sx_slots s)\<rparr>)"

lemma slot_written_inv: "slots_inv s \<Longrightarrow> slots_inv (slot_written k slot s)"
  by (simp add: slot_written_def set_slot_inv)

lemma slot_written_same [simp]:
  "sx_bridge_endpoints (slot_written k slot s) = sx_bridge_endpoints s"
  "sx_bridge_tombstones (slot_written k slot s) = sx_bridge_tombstones s"
  by (simp_all add: slot_written_def)

lemma slot_deleted_inv:
  assumes "slots_inv s"
  shows "slots_inv (s\<lparr>sx_slots := dict_del k (sx_slots s)\<rparr>)"
proof -
  have "names_ok (s\<lparr>sx_slots := dict_del k (sx_slots s)\<rparr>)"
    by (rule names_slots_sub [OF slots_invD(1) [OF assms]]) (simp split: if_splits)
  then show ?thesis using assms by (simp add: slots_inv_def)
qed

lemma abort_slot_inv:
  assumes "slots_inv s" "slot_held k slot s"
  shows "slots_inv (fst (abort_slot now ttl k slot terminal s)) \<and> snd (abort_slot now ttl k slot terminal s) = None"
proof -
  have "snd (remember_tombstone k v (slot_written k slot' s)) = None \<and>
      slots_inv (fst (remember_tombstone k v (slot_written k slot' s)))" for v slot'
    by (rule remember_tombstone_inv [OF slot_written_inv [OF assms(1)]])
      (simp_all add: slot_held_free [OF assms])
  then show ?thesis using assms(1) by (simp add: abort_slot_def Let_def flip: slot_written_def)
qed

lemma cleanup_slot_inv:
  assumes "slots_inv s" "slot_held k slot s"
  shows "slots_inv (fst (cleanup_slot now ttl k slot s)) \<and> snd (cleanup_slot now ttl k slot s) = None"
  using slot_deleted_inv [OF assms(1), of k] remember_tombstone_inv [OF slot_deleted_inv [OF assms(1), of k]]
    slot_held_free [OF assms]
  by (simp add: cleanup_slot_def Let_def)

lemma acknowledge_inv:
  assumes "slots_inv s" "dict_get (sx_tombstones s) k \<noteq> None"
  shows "slots_inv (s\<lparr>sx_acknowledged := List.insert k (sx_acknowledged s)\<rparr>)"
proof -
  note inv = names_okD [OF slots_invD(1) [OF assms(1)]]
  have "names_ok (s\<lparr>sx_acknowledged := List.insert k (sx_acknowledged s)\<rparr>)"
    by (intro names_okI)
      (use inv assms(2) in \<open>auto simp: bridge_registered_def tombstone_owned_def dict_keys_iff\<close>)
  then show ?thesis using assms(1) by (simp add: slots_inv_def)
qed

lemma matches_tombstone_inv: "slots_inv s \<Longrightarrow> slots_inv (fst (matches_tombstone now k f s))"
  using expire_inv [of s now] acknowledge_inv [of "expire_tombstones now s" k]
  by (auto simp: matches_tombstone_def Let_def split: option.splits)

section \<open>Bridges keep the invariant\<close>

lemma names_store:
  assumes "names_ok s" "length st = length (sx_store s)"
    and "\<And>b. b < length st \<Longrightarrow> br_slot_id (st ! b) = br_slot_id (bridge_at s b) \<and>
      bridge_keys (st ! b) = bridge_keys (bridge_at s b) \<and>
      (br_tombstones_published (bridge_at s b) \<longrightarrow> br_tombstones_published (st ! b))"
  shows "names_ok (s\<lparr>sx_store := st\<rparr>)"
proof -
  note inv = names_okD [OF assms(1)]
  have len: "b < length st" if "dict_get (sx_bridges s) sid = Some b" for sid b
    using inv(3) [OF that] assms(2) by (simp add: bridge_registered_def)
  have own: "tombstone_owned (s\<lparr>sx_store := st\<rparr>) k t" if "tombstone_owned s k t" for k t
    using that len assms(3) by (fastforce simp: tombstone_owned_def split: if_splits)
  show ?thesis
  proof (rule names_okI)
    fix sid b
    assume "dict_get (sx_bridges (s\<lparr>sx_store := st\<rparr>)) sid = Some b"
    then show "bridge_registered (s\<lparr>sx_store := st\<rparr>) sid b"
      using inv(3) [of sid b] len [of sid b] assms(3) [of b] by (simp add: bridge_registered_def)
  next
    fix k
    assume "dict_get (sx_bridge_endpoints (s\<lparr>sx_store := st\<rparr>)) k \<noteq> None"
    then show "dict_get (sx_slots (s\<lparr>sx_store := st\<rparr>)) k = None \<and>
        dict_get (sx_tombstones (s\<lparr>sx_store := st\<rparr>)) k = None \<and>
        (\<exists>b. dict_get (sx_bridges (s\<lparr>sx_store := st\<rparr>)) (snd (snd k)) = Some b \<and>
           k \<in> bridge_keys (bridge_at (s\<lparr>sx_store := st\<rparr>) b))"
      using inv(4) [of k] len assms(3) by auto
  qed (use inv own in auto)
qed

lemma set_facts_inv:
  assumes "slots_inv s" "b < length (sx_store s)"
  shows "slots_inv (set_bridge b ((bridge_at s b)\<lparr>br_facts := f\<rparr>) s)"
proof -
  let ?br = "(bridge_at s b)\<lparr>br_facts := f\<rparr>"
  have names: "names_ok (s\<lparr>sx_store := (sx_store s)[b := ?br]\<rparr>)"
    by (rule names_store [OF slots_invD(1) [OF assms(1)]]) (use assms(2) in \<open>auto simp: nth_list_update bridge_keys_def\<close>)
  have map: "map br_tombstone_credits ((sx_store s)[b := ?br]) = map br_tombstone_credits (sx_store s)"
    by (rule nth_equalityI) (use assms(2) in \<open>auto simp: nth_list_update\<close>)
  have "credits_ok (s\<lparr>sx_store := (sx_store s)[b := ?br]\<rparr>)"
    using slots_invD(2) [OF assms(1)] assms(2) unfolding credits_ok_def
    by (auto simp: map dest!: set_update_subset_insert [THEN subsetD])
  with names slots_invD(3) [OF assms(1)] show ?thesis by (simp add: slots_inv_def set_bridge_def)
qed

lemma set_tombstone_inv:
  assumes "slots_inv s" "dict_get (sx_bridge_tombstones s) k = Some t"
    and "bt_pinned t' = bt_pinned t" "bt_bridge t' = bt_bridge t"
  shows "slots_inv (set_tombstone k t' s)"
proof -
  note inv = names_okD [OF slots_invD(1) [OF assms(1)]]
  have own: "tombstone_owned s k t'" using inv(5) [OF assms(2)] assms(3,4) by (simp add: tombstone_owned_def)
  have same: "bridge_registered (set_tombstone k t' s) = bridge_registered s"
    "tombstone_owned (set_tombstone k t' s) = tombstone_owned s"
    by (simp_all add: fun_eq_iff set_tombstone_def bridge_registered_def tombstone_owned_def)
  have "names_ok (set_tombstone k t' s)"
  proof (rule names_okI, unfold same)
    fix k' u
    assume "dict_get (sx_bridge_tombstones (set_tombstone k t' s)) k' = Some u"
    then show "dict_get (sx_slots (set_tombstone k t' s)) k' = None \<and>
        dict_get (sx_tombstones (set_tombstone k t' s)) k' = None \<and> tombstone_owned s k' u"
      using inv(5) [of k' u] inv(5) [OF assms(2)] own
      by (cases "k' = k") (simp_all add: set_tombstone_def)
  qed (use inv(1,2,3,4,6) in \<open>simp_all add: set_tombstone_def\<close>)
  moreover have "length (dict_set k t' (sx_bridge_tombstones s)) = length (sx_bridge_tombstones s)"
    using length_dict_set_old assms(2) by (metis option.distinct(1))
  ultimately show ?thesis
    using slots_invD(2,3) [OF assms(1)] by (simp add: slots_inv_def set_tombstone_def tombstone_occupancy_def)
qed

lemma names_reserved: "names_ok (s\<lparr>sx_reserved_credits := n\<rparr>) = names_ok s"
  by (simp add: names_ok_def bridge_registered_def tombstone_owned_def)

lemma fresh_bridge_names:
  fixes s :: transfer_slots
  assumes "names_ok s" "dict_get (sx_bridges s) sid = None"
    and "\<forall>k\<in>bridge_keys br. \<not> key_in_use s k \<and> snd (snd k) = sid" "br_slot_id br = sid"
  defines "b \<equiv> length (sx_store s)"
  shows "names_ok (s\<lparr>sx_store := sx_store s @ [br], sx_bridges := dict_set sid b (sx_bridges s),
    sx_bridge_endpoints := dict_set (br_destination_key br) (b, DestinationRole)
      (dict_set (br_source_key br) (b, SourceRole) (sx_bridge_endpoints s))\<rparr>)" (is "names_ok ?t")
proof -
  note inv = names_okD [OF assms(1)]
  have ends: "dict_get (sx_bridge_endpoints ?t) k \<noteq> None \<longleftrightarrow>
      k \<in> bridge_keys br \<or> dict_get (sx_bridge_endpoints s) k \<noteq> None" for k
    by (auto simp: bridge_keys_def)
  have old: "b' < b" if "dict_get (sx_bridges s) i = Some b'" for i b'
    using inv(3) [OF that] by (simp add: bridge_registered_def b_def)
  have free: "dict_get (sx_slots s) k = None" "dict_get (sx_tombstones s) k = None" if "k \<in> bridge_keys br" for k
    using assms(3) that unfolding key_in_use_def by blast+
  show ?thesis
  proof (rule names_okI)
    fix i b'
    assume reg: "dict_get (sx_bridges ?t) i = Some b'"
    show "bridge_registered ?t i b'"
    proof (cases "i = sid")
      case True
      then have "b' = b" using reg by simp
      then show ?thesis unfolding bridge_registered_def ends
        using assms(3,4) True by (simp add: b_def)
    next
      case False
      then have "dict_get (sx_bridges s) i = Some b'" using reg by simp
      then show ?thesis using inv(3) [of i b'] old [of i b'] unfolding bridge_registered_def ends
        by (simp add: nth_append b_def)
    qed
  next
    fix k
    assume "dict_get (sx_bridge_endpoints ?t) k \<noteq> None"
    then consider "k \<in> bridge_keys br" | "k \<notin> bridge_keys br" "dict_get (sx_bridge_endpoints s) k \<noteq> None"
      unfolding ends by blast
    then show "dict_get (sx_slots ?t) k = None \<and> dict_get (sx_tombstones ?t) k = None \<and>
        (\<exists>b. dict_get (sx_bridges ?t) (snd (snd k)) = Some b \<and> k \<in> bridge_keys (bridge_at ?t b))"
    proof cases
      case 1
      then show ?thesis using assms(3) free [OF 1] by (simp add: b_def)
    next
      case 2
      obtain b' where b': "dict_get (sx_bridges s) (snd (snd k)) = Some b'" "k \<in> bridge_keys (bridge_at s b')"
        using inv(4) [OF 2(2)] by blast
      then have "snd (snd k) \<noteq> sid" using assms(2) by auto
      then show ?thesis using inv(4) [OF 2(2)] b' old [OF b'(1)] by (simp add: nth_append b_def)
    qed
  next
    fix k t
    assume "dict_get (sx_bridge_tombstones ?t) k = Some t"
    then have t: "dict_get (sx_bridge_tombstones s) k = Some t" by simp
    have "tombstone_owned ?t k t"
    proof (cases "bt_pinned t")
      case True
      then obtain b' where b': "bt_bridge t = Some b'" "dict_get (sx_bridges s) (snd (snd k)) = Some b'"
        "k \<in> bridge_keys (bridge_at s b')" "br_tombstones_published (bridge_at s b')"
        using inv(5) [OF t] by (auto simp: tombstone_owned_def)
      then have "snd (snd k) \<noteq> sid" using assms(2) by auto
      then show ?thesis using True b' old [OF b'(2)] by (simp add: tombstone_owned_def nth_append b_def)
    next
      case False
      have "k \<notin> bridge_keys br" using assms(3) t by (auto simp: key_in_use_def)
      moreover have "dict_get (sx_bridge_endpoints s) k = None"
        using inv(5) [OF t] False by (simp add: tombstone_owned_def)
      ultimately have "dict_get (sx_bridge_endpoints ?t) k = None" using ends [of k] by blast
      then show ?thesis using inv(5) [OF t] False by (simp add: tombstone_owned_def)
    qed
    then show "dict_get (sx_slots ?t) k = None \<and> dict_get (sx_tombstones ?t) k = None \<and> tombstone_owned ?t k t"
      using inv(5) [OF t] by simp
  qed (use inv(1,2,6) in simp_all)
qed

lemma new_bridge_inv:
  assumes "slots_inv s"
  shows "slots_inv (fst (new_bridge now sid source destination f s))"
proof -
  let ?src = "(fst source, snd source, sid)" and ?dst = "(fst destination, snd destination, sid)"
  let ?t = "expire_tombstones now s"
  let ?br = "\<lparr>br_slot_id = sid, br_source_key = ?src, br_destination_key = ?dst, br_tombstone_credits = 2,
      br_tombstones_published = False, br_facts = f\<rparr>"
  have t: "slots_inv ?t" using assms by (rule expire_inv)
  show ?thesis
  proof (cases "dict_get (sx_bridges ?t) sid \<noteq> None \<or> key_in_use ?t ?src \<or> key_in_use ?t ?dst")
    case True
    then show ?thesis using t by (simp add: new_bridge_def Let_def)
  next
    case False
    obtain u where u: "names_ok u" "credits_ok u" "sx_slots u = sx_slots ?t" "sx_bridges u = sx_bridges ?t"
      "sx_bridge_endpoints u = sx_bridge_endpoints ?t" "sx_store u = sx_store ?t"
      "set (dict_keys (sx_tombstones u)) \<subseteq> set (dict_keys (sx_tombstones ?t))"
      "set (dict_keys (sx_bridge_tombstones u)) \<subseteq> set (dict_keys (sx_bridge_tombstones ?t))"
      "tombstone_occupancy u \<le> tombstone_occupancy ?t"
      "reserve_credits 2 ?t = (u, Some TransferBusyError) \<or>
       reserve_credits 2 ?t = (u\<lparr>sx_reserved_credits := sx_reserved_credits u + 2\<rparr>, None) \<and>
       tombstone_occupancy u + 2 \<le> TOMBSTONE_MAX_ENTRIES"
      using reserve_credits_steps [OF slots_invD(1) [OF t], of 2] slots_invD(2) [OF t] by blast
    have occ: "tombstone_occupancy u \<le> TOMBSTONE_MAX_ENTRIES" using u(9) slots_invD(3) [OF t] by simp
    from u(10) show ?thesis
    proof
      assume "reserve_credits 2 ?t = (u, Some TransferBusyError)"
      then show ?thesis using False u(1,2) occ by (simp add: new_bridge_def Let_def then_do_def slots_inv_def)
    next
      let ?v = "u\<lparr>sx_reserved_credits := sx_reserved_credits u + 2\<rparr>"
      assume r: "reserve_credits 2 ?t = (?v, None) \<and> tombstone_occupancy u + 2 \<le> TOMBSTONE_MAX_ENTRIES"
      have keys: "\<forall>k\<in>bridge_keys ?br. \<not> key_in_use ?v k \<and> snd (snd k) = sid"
      proof
        fix k
        assume "k \<in> bridge_keys ?br"
        then have "\<not> key_in_use ?t k" "snd (snd k) = sid" using False by (auto simp: bridge_keys_def)
        moreover from this(1) have "k \<notin> set (dict_keys (sx_tombstones u))" "k \<notin> set (dict_keys (sx_bridge_tombstones u))"
          using u(7,8) unfolding key_in_use_def dict_keys_iff [symmetric] by blast+
        ultimately show "\<not> key_in_use ?v k \<and> snd (snd k) = sid"
          using u(3,5) unfolding key_in_use_def dict_keys_iff [symmetric] by simp
      qed
      let ?w = "?v\<lparr>sx_store := sx_store ?v @ [?br], sx_bridges := dict_set sid (length (sx_store ?v)) (sx_bridges ?v),
          sx_bridge_endpoints := dict_set (br_destination_key ?br) (length (sx_store ?v), DestinationRole)
            (dict_set (br_source_key ?br) (length (sx_store ?v), SourceRole) (sx_bridge_endpoints ?v))\<rparr>"
      have "names_ok ?w"
        by (rule fresh_bridge_names) (use False u(1,4) keys in \<open>simp_all add: names_reserved\<close>)
      moreover have "credits_ok ?w" using u(2) by (auto simp: credits_ok_def)
      moreover have "tombstone_occupancy ?w \<le> TOMBSTONE_MAX_ENTRIES" using r by (simp add: tombstone_occupancy_def)
      moreover have "fst (new_bridge now sid source destination f s) = ?w"
        using False r by (simp add: new_bridge_def Let_def then_do_def)
      ultimately show ?thesis by (simp only: slots_inv_def)
    qed
  qed
qed

text \<open>What the publication does to an open bridge that has its two credits.\<close>

definition published_table :: "nat \<Rightarrow> transfer_slots \<Rightarrow> (transfer_key, bridge_tombstone) dict" where
  "published_table b s =
     (let br = bridge_at s b; f = br_facts br;
          d = (if bf_source_issued f
               then dict_set (br_source_key br) (bridge_tombstone_for 0 b f SourceRole True False)
                      (sx_bridge_tombstones s) else sx_bridge_tombstones s)
      in if bf_destination_issued f
         then dict_set (br_destination_key br) (bridge_tombstone_for 0 b f DestinationRole True False) d
         else d)"

lemma publish_eq:
  assumes "b < length (sx_store s)" "\<not> br_tombstones_published (bridge_at s b)"
    and "br_tombstone_credits (bridge_at s b) = 2" "2 \<le> sx_reserved_credits s"
  shows "publish_bridge_tombstones b s =
    (s\<lparr>sx_store := (sx_store s)[b := (bridge_at s b)\<lparr>br_tombstone_credits := 0, br_tombstones_published := True\<rparr>],
       sx_reserved_credits := sx_reserved_credits s - 2,
       sx_bridge_tombstones := published_table b s\<rparr>, None)"
proof -
  obtain r where "sx_reserved_credits s = r + 2" using assms(4) by (metis le_add_diff_inverse2)
  then show ?thesis using assms
    by (simp add: publish_bridge_tombstones_def publish_one_def return_credits_def then_do_def set_bridge_def
        published_table_def Let_def)
qed

lemma published_table_length: "length (published_table b s) \<le> length (sx_bridge_tombstones s) + 2"
  by (auto simp: published_table_def Let_def intro: order_trans [OF length_dict_set] le_SucI)

lemma published_table_get:
  assumes "dict_get (published_table b s) k = Some t"
  shows "dict_get (sx_bridge_tombstones s) k = Some t \<or>
    k \<in> bridge_keys (bridge_at s b) \<and> bt_pinned t \<and> bt_bridge t = Some b"
  using assms
  by (auto simp: published_table_def Let_def bridge_keys_def bridge_tombstone_for_def split: if_splits)

lemma publish_inv:
  assumes "slots_inv s" "dict_get (sx_bridges s) sid = Some b \<or> b < length (sx_store s) \<and> br_tombstones_published (bridge_at s b)"
  shows "slots_inv (fst (publish_bridge_tombstones b s)) \<and> snd (publish_bridge_tombstones b s) = None"
proof (cases "br_tombstones_published (bridge_at s b)")
  case True
  then show ?thesis using assms(1) by (simp add: publish_bridge_tombstones_def Let_def)
next
  case False
  let ?br = "(bridge_at s b)\<lparr>br_tombstone_credits := 0, br_tombstones_published := True\<rparr>"
  let ?s = "s\<lparr>sx_store := (sx_store s)[b := ?br]\<rparr>"
  let ?t = "s\<lparr>sx_store := (sx_store s)[b := ?br], sx_reserved_credits := sx_reserved_credits s - 2,
       sx_bridge_tombstones := published_table b s\<rparr>"
  note inv = names_okD [OF slots_invD(1) [OF assms(1)]]
  have sid: "dict_get (sx_bridges s) sid = Some b" using assms(2) False by blast
  have reg: "bridge_registered s sid b" by (rule inv(3) [OF sid])
  then have b: "b < length (sx_store s)" by (simp add: bridge_registered_def)
  have two: "br_tombstone_credits (bridge_at s b) = 2"
    using slots_invD(2) [OF assms(1)] b False by (simp add: credits_ok_def)
  have sum: "sx_reserved_credits s = sum_list (map br_tombstone_credits (sx_store s))"
    using slots_invD(2) [OF assms(1)] by (simp add: credits_ok_def)
  have res: "2 \<le> sx_reserved_credits s"
  proof -
    have "br_tombstone_credits (bridge_at s b) \<in> set (map br_tombstone_credits (sx_store s))"
      using b by simp
    from member_le_sum_list [OF this] show ?thesis unfolding sum two by simp
  qed
  have names: "names_ok ?s"
    by (rule names_store [OF slots_invD(1) [OF assms(1)]]) (use b in \<open>auto simp: nth_list_update bridge_keys_def\<close>)
  have "names_ok ?t"
  proof (rule names_okI)
    show "dict_wf (sx_bridge_tombstones ?t)" using inv(1) by (simp add: published_table_def Let_def)
  next
    fix k t
    assume "dict_get (sx_bridge_tombstones ?t) k = Some t"
    then consider "dict_get (sx_bridge_tombstones s) k = Some t"
      | "k \<in> bridge_keys (bridge_at s b)" "bt_pinned t" "bt_bridge t = Some b"
      using published_table_get [of b s k t] by (simp, blast)
    then show "dict_get (sx_slots ?t) k = None \<and> dict_get (sx_tombstones ?t) k = None \<and> tombstone_owned ?t k t"
    proof cases
      case 1
      moreover have "tombstone_owned ?t k t = tombstone_owned ?s k t" by (simp add: tombstone_owned_def)
      ultimately show ?thesis using names_okD(5) [OF names, of k t] by simp
    next
      case 2
      then have "dict_get (sx_bridge_endpoints s) k \<noteq> None" "snd (snd k) = sid"
        using reg by (auto simp: bridge_registered_def)
      then show ?thesis using inv(4) [of k] 2 sid b
        by (simp add: tombstone_owned_def bridge_keys_def)
    qed
  qed (use names_okD(2,3,4,6) [OF names] in \<open>simp_all add: bridge_registered_def\<close>)
  moreover have "credits_ok ?t"
    using slots_invD(2) [OF assms(1)] b two
    by (auto simp: credits_ok_def map_update sum_list_update sum [symmetric]
        dest!: set_update_subset_insert [THEN subsetD])
  moreover have "tombstone_occupancy ?t \<le> TOMBSTONE_MAX_ENTRIES"
    using slots_invD(3) [OF assms(1)] published_table_length [of b s] res by (simp add: tombstone_occupancy_def)
  ultimately show ?thesis by (simp add: publish_eq [OF b False two res] slots_inv_def)
qed

lemma finalize_one_get:
  "dict_get (sx_bridge_tombstones (finalize_one expiry b error k role s)) k' =
     (if k' = k
      then map_option (\<lambda>current. merge_tombstone current
             (bridge_tombstone_for expiry b (br_facts (bridge_at s b)) role False error))
             (dict_get (sx_bridge_tombstones s) k)
      else dict_get (sx_bridge_tombstones s) k')"
  by (auto simp: finalize_one_def split: option.splits)

lemma finalize_one_same [simp]:
  "sx_slots (finalize_one expiry b error k role s) = sx_slots s"
  "sx_bridges (finalize_one expiry b error k role s) = sx_bridges s"
  "sx_bridge_endpoints (finalize_one expiry b error k role s) = sx_bridge_endpoints s"
  "sx_store (finalize_one expiry b error k role s) = sx_store s"
  "sx_tombstones (finalize_one expiry b error k role s) = sx_tombstones s"
  "sx_acknowledged (finalize_one expiry b error k role s) = sx_acknowledged s"
  "sx_reserved_credits (finalize_one expiry b error k role s) = sx_reserved_credits s"
  "length (sx_bridge_tombstones (finalize_one expiry b error k role s)) = length (sx_bridge_tombstones s)"
  "dict_wf (sx_bridge_tombstones s) \<Longrightarrow> dict_wf (sx_bridge_tombstones (finalize_one expiry b error k role s))"
  by (auto simp: finalize_one_def length_dict_set_old split: option.splits)

lemma merge_tombstone_final [simp]:
  "bt_pinned (merge_tombstone c (bridge_tombstone_for expiry b f role False error)) = False"
  "bt_bridge (merge_tombstone c (bridge_tombstone_for expiry b f role False error)) = None"
  by (simp_all add: merge_tombstone_def bridge_tombstone_for_def Let_def)

lemma finish_bridge_inv:
  assumes "slots_inv s" "dict_get (sx_bridges s) sid = Some b" "br_tombstones_published (bridge_at s b)"
  shows "slots_inv (finish_bridge expiry b error s)"
proof -
  note inv = names_okD [OF slots_invD(1) [OF assms(1)]]
  let ?t = "finish_bridge expiry b error s"
  have reg: "bridge_registered s sid b" by (rule inv(3) [OF assms(2)])
  then have slot: "br_slot_id (bridge_at s b) = sid" by (simp add: bridge_registered_def)
  have same: "sx_slots ?t = sx_slots s" "sx_tombstones ?t = sx_tombstones s" "sx_store ?t = sx_store s"
    "sx_acknowledged ?t = sx_acknowledged s" "sx_reserved_credits ?t = sx_reserved_credits s"
    "sx_bridges ?t = dict_del sid (sx_bridges s)"
    by (simp_all add: finish_bridge_def finalize_bridge_tombstones_def Let_def slot)
  have ends: "dict_get (sx_bridge_endpoints ?t) k =
      (if k \<in> bridge_keys (bridge_at s b) then None else dict_get (sx_bridge_endpoints s) k)" for k
    by (simp add: finish_bridge_def finalize_bridge_tombstones_def Let_def bridge_keys_def)
  have get: "(\<exists>u. dict_get (sx_bridge_tombstones s) k = Some u) \<and>
      (if k \<in> bridge_keys (bridge_at s b) then \<not> bt_pinned t \<and> bt_bridge t = None
       else dict_get (sx_bridge_tombstones s) k = Some t)"
    if "dict_get (sx_bridge_tombstones ?t) k = Some t" for k t
    using that
    by (auto simp: finish_bridge_def finalize_bridge_tombstones_def Let_def finalize_one_get bridge_keys_def
        split: if_splits)
  have "names_ok ?t"
  proof (rule names_okI, unfold same)
    show "dict_wf (sx_bridge_tombstones ?t)"
      using inv(1) by (simp add: finish_bridge_def finalize_bridge_tombstones_def Let_def)
  next
    fix i b'
    assume "dict_get (dict_del sid (sx_bridges s)) i = Some b'"
    then have i: "i \<noteq> sid" "dict_get (sx_bridges s) i = Some b'" by (simp_all split: if_splits)
    have "k \<notin> bridge_keys (bridge_at s b)" if "k \<in> bridge_keys (bridge_at s b')" for k
      using reg inv(3) [OF i(2)] i(1) that by (auto simp: bridge_registered_def)
    then show "bridge_registered ?t i b'"
      using inv(3) [OF i(2)] by (simp add: bridge_registered_def same ends)
  next
    fix k
    assume "dict_get (sx_bridge_endpoints ?t) k \<noteq> None"
    then have k: "k \<notin> bridge_keys (bridge_at s b)" "dict_get (sx_bridge_endpoints s) k \<noteq> None"
      by (simp_all add: ends split: if_splits)
    obtain b' where b': "dict_get (sx_bridges s) (snd (snd k)) = Some b'" "k \<in> bridge_keys (bridge_at s b')"
      using inv(4) [OF k(2)] by blast
    then have "snd (snd k) \<noteq> sid" using assms(2) k(1) by auto
    then show "dict_get (sx_slots s) k = None \<and> dict_get (sx_tombstones s) k = None \<and>
        (\<exists>b. dict_get (dict_del sid (sx_bridges s)) (snd (snd k)) = Some b \<and> k \<in> bridge_keys (bridge_at s b))"
      using inv(4) [OF k(2)] b' by simp
  next
    fix k t
    assume t: "dict_get (sx_bridge_tombstones ?t) k = Some t"
    obtain u where u: "dict_get (sx_bridge_tombstones s) k = Some u" using get [OF t] by blast
    have "tombstone_owned ?t k t"
    proof (cases "k \<in> bridge_keys (bridge_at s b)")
      case True
      then show ?thesis using get [OF t] by (simp add: tombstone_owned_def ends)
    next
      case False
      then have old: "tombstone_owned s k t" using get [OF t] inv(5) by simp
      show ?thesis
      proof (cases "bt_pinned t")
        case True
        then obtain b' where b': "bt_bridge t = Some b'" "dict_get (sx_bridges s) (snd (snd k)) = Some b'"
          "k \<in> bridge_keys (bridge_at s b')" "br_tombstones_published (bridge_at s b')"
          using old by (auto simp: tombstone_owned_def)
        then have "snd (snd k) \<noteq> sid" using assms(2) False by auto
        then show ?thesis using True b' by (simp add: tombstone_owned_def same)
      next
        case False
        then show ?thesis using old by (simp add: tombstone_owned_def ends)
      qed
    qed
    then show "dict_get (sx_slots s) k = None \<and> dict_get (sx_tombstones s) k = None \<and> tombstone_owned ?t k t"
      using inv(5) [OF u] by simp
  qed (use inv(2,6) in simp_all)
  moreover have "credits_ok ?t" using slots_invD(2) [OF assms(1)] by (simp add: credits_ok_def same)
  moreover have "tombstone_occupancy ?t = tombstone_occupancy s"
    by (simp add: tombstone_occupancy_def finish_bridge_def finalize_bridge_tombstones_def Let_def)
  ultimately show ?thesis using slots_invD(3) [OF assms(1)] by (simp add: slots_inv_def)
qed

section \<open>Late frames keep the invariant\<close>

lemma late_end_same:
  "late_end sha256 s t e = (t', r, c) \<Longrightarrow> bt_pinned t' = bt_pinned t \<and> bt_bridge t' = bt_bridge t"
  by (auto simp: late_end_def split: if_splits)

lemma late_progress_same:
  "late_progress s t n = Some t' \<Longrightarrow> bt_pinned t' = bt_pinned t \<and> bt_bridge t' = bt_bridge t"
  by (auto simp: late_progress_def split: if_splits)

lemma complete_bridge_ack_inv:
  assumes "slots_inv s" "dict_get (sx_bridge_tombstones s) k = Some t"
  shows "slots_inv (complete_bridge_ack (bt_bridge t) role e s)"
proof (cases "bt_bridge t")
  case (Some b)
  note inv = names_okD [OF slots_invD(1) [OF assms(1)]]
  have "dict_get (sx_bridges s) (snd (snd k)) = Some b"
    using inv(5) [OF assms(2)] Some by (auto simp: tombstone_owned_def split: if_splits)
  then have "b < length (sx_store s)" using inv(3) by (auto simp: bridge_registered_def)
  then show ?thesis using set_facts_inv [OF assms(1)] Some by (simp add: complete_bridge_ack_def)
qed (use assms in \<open>simp add: complete_bridge_ack_def\<close>)

lemma set_tombstone_ack_inv:
  assumes "slots_inv s" "dict_get (sx_bridge_tombstones s) k = Some t"
    and "bt_pinned t' = bt_pinned t" "bt_bridge t' = bt_bridge t"
  shows "slots_inv (complete_bridge_ack (bt_bridge t) role e (set_tombstone k t' s))"
proof -
  have "slots_inv (set_tombstone k t' s)" by (rule set_tombstone_inv [OF assms])
  moreover have "dict_get (sx_bridge_tombstones (set_tombstone k t' s)) k = Some t'"
    by (simp add: set_tombstone_def)
  ultimately show ?thesis using complete_bridge_ack_inv assms(4) by metis
qed

lemma handle_tombstone_frame_inv:
  assumes "slots_inv s"
  shows "slots_inv (fst (handle_tombstone_frame sha256 now handle frame s))"
proof -
  let ?s = "expire_tombstones now s" and ?k = "(fst handle, snd handle, frame_id frame)"
  have inv: "slots_inv ?s" using assms by (rule expire_inv)
  show ?thesis
  proof (cases "dict_get (sx_bridge_tombstones ?s) ?k")
    case None
    then show ?thesis using inv by (simp add: handle_tombstone_frame_def Let_def)
  next
    case (Some t)
    show ?thesis
    proof (cases frame)
      case (ProgressFrame i n)
      then show ?thesis
        using Some inv set_tombstone_inv [OF inv] late_progress_same [of ?s t n]
        by (cases "late_progress ?s t n") (simp_all add: handle_tombstone_frame_def Let_def)
    next
      case (EndFrame e)
      obtain t' r c where l: "late_end sha256 ?s t e = (t', r, c)" by (cases "late_end sha256 ?s t e")
      show ?thesis
        using EndFrame Some l late_end_same [OF l] set_tombstone_inv [OF inv Some]
          set_tombstone_ack_inv [OF inv Some]
        by (simp add: handle_tombstone_frame_def Let_def)
    next
      case (OtherFrame i)
      then show ?thesis using Some inv by (simp add: handle_tombstone_frame_def Let_def)
    qed
  qed
qed

lemma handle_tombstone_binary_inv:
  assumes "slots_inv s"
  shows "slots_inv (fst (handle_tombstone_binary now handle sid chunk s))"
  using expire_inv [OF assms, of now] set_tombstone_inv [OF expire_inv [OF assms, of now]]
  by (auto simp: handle_tombstone_binary_def Let_def split: option.split)

lemma finish_timeout_ack_inv: "slots_inv s \<Longrightarrow> slots_inv (finish_timeout_ack k d s)"
  using set_tombstone_inv by (auto simp: finish_timeout_ack_def split: option.split)

lemma finish_failure_ack_inv: "slots_inv s \<Longrightarrow> slots_inv (finish_failure_ack k ack d s)"
  using set_tombstone_inv set_tombstone_ack_inv
  by (auto simp: finish_failure_ack_def Let_def split: option.split)

section \<open>Steps\<close>

text \<open>
  Every interleaving of the operations, of the changes that the workers make to the facts of a
  slot or a bridge, and of clock readings. A bridge publishes while it is open, and finishes once
  it has published.
\<close>

inductive table_step :: "transfer_slots \<Rightarrow> transfer_slots \<Rightarrow> bool" where
  step_expire: "table_step s (expire_tombstones now s)"
| step_new_slot: "table_step s (fst (new_slot now k slot s))"
| step_set_slot: "dict_get (sx_slots s) k \<noteq> None \<Longrightarrow>
    table_step s (s\<lparr>sx_slots := dict_set k slot (sx_slots s)\<rparr>)"
| step_abort: "slot_held k slot s \<Longrightarrow> table_step s (fst (abort_slot now ttl k slot terminal s))"
| step_cleanup: "slot_held k slot s \<Longrightarrow> table_step s (fst (cleanup_slot now ttl k slot s))"
| step_matches: "table_step s (fst (matches_tombstone now k f s))"
| step_new_bridge: "table_step s (fst (new_bridge now sid source destination facts s))"
| step_facts: "b < length (sx_store s) \<Longrightarrow> table_step s (set_bridge b ((bridge_at s b)\<lparr>br_facts := facts\<rparr>) s)"
| step_publish: "dict_get (sx_bridges s) sid = Some b \<Longrightarrow> table_step s (fst (publish_bridge_tombstones b s))"
| step_finish: "dict_get (sx_bridges s) sid = Some b \<Longrightarrow> br_tombstones_published (bridge_at s b) \<Longrightarrow>
    table_step s (finish_bridge expiry b error s)"
| step_binary: "table_step s (fst (handle_tombstone_binary now handle sid chunk s))"

text \<open>The steps that send and finish acknowledgements are kept apart.\<close>

inductive slots_step :: "transfer_slots \<Rightarrow> transfer_slots \<Rightarrow> bool" where
  step_table: "table_step s s' \<Longrightarrow> slots_step s s'"
| step_frame: "slots_step s (fst (handle_tombstone_frame sha256 now handle frame s))"
| step_timeout_ack: "slots_step s (finish_timeout_ack k delivered s)"
| step_failure_ack: "slots_step s (finish_failure_ack k ack delivered s)"

lemma slots_new_inv: "slots_inv slots_new"
  by (simp add: slots_inv_def names_ok_def credits_ok_def tombstone_occupancy_def slots_new_def)

lemma table_step_inv: "table_step s t \<Longrightarrow> slots_inv s \<Longrightarrow> slots_inv t"
  by (induction rule: table_step.induct)
    (simp_all add: expire_inv new_slot_inv set_slot_inv abort_slot_inv cleanup_slot_inv matches_tombstone_inv
      new_bridge_inv set_facts_inv finish_bridge_inv handle_tombstone_binary_inv, use publish_inv in blast)

lemma slots_step_inv: "slots_step s t \<Longrightarrow> slots_inv s \<Longrightarrow> slots_inv t"
  by (induction rule: slots_step.induct)
    (simp_all add: table_step_inv handle_tombstone_frame_inv finish_timeout_ack_inv finish_failure_ack_inv)

interpretation slots_machine: inductive_invariant "\<lambda>s. s = slots_new" slots_step slots_inv
  by unfold_locales (auto simp: slots_new_inv intro: slots_step_inv)

abbreviation slots_reachable :: "transfer_slots \<Rightarrow> bool" where
  "slots_reachable \<equiv> reachable (\<lambda>s. s = slots_new) slots_step"

section \<open>What late frames leave behind\<close>

text \<open>
  Marks that a tombstone keeps as long as it exists, except that the end of the acknowledgement of
  a failure takes away the mark that it is in flight.
\<close>

definition marks_kept :: "bridge_tombstone \<Rightarrow> bridge_tombstone \<Rightarrow> bool" where
  "marks_kept t t' \<longleftrightarrow>
     (bt_timeout_ack_attempted t \<longrightarrow> bt_timeout_ack_attempted t') \<and>
     (bt_failure_ack_in_flight t \<longrightarrow> bt_failure_ack_in_flight t') \<and>
     (bt_failure_ack_sent t \<longrightarrow> bt_failure_ack_sent t')"

definition table_keeps_marks :: "transfer_slots \<Rightarrow> transfer_slots \<Rightarrow> bool" where
  "table_keeps_marks s s' \<longleftrightarrow>
     (\<forall>k t t'. dict_get (sx_bridge_tombstones s) k = Some t \<longrightarrow>
        dict_get (sx_bridge_tombstones s') k = Some t' \<longrightarrow> marks_kept t t')"

lemma marks_refl [simp]: "marks_kept t t"
  by (simp add: marks_kept_def)

lemma shrunk_table:
  assumes "dict_wf (sx_bridge_tombstones s)" "shrunk s u" "dict_get (sx_bridge_tombstones u) k = Some t"
  shows "dict_get (sx_bridge_tombstones s) k = Some t"
proof -
  obtain Q where "sx_bridge_tombstones u = filter Q (sx_bridge_tombstones s)"
    using assms(2) by (auto simp: shrunk_def)
  then show ?thesis using dict_get_filter_Some [OF assms(1), of Q k t] assms(3) by simp
qed

lemma shrunk_marks:
  assumes "slots_inv s" "shrunk s s'"
  shows "table_keeps_marks s s'"
proof -
  have wf: "dict_wf (sx_bridge_tombstones s)" using names_okD(1) slots_invD(1) assms(1) by blast
  show ?thesis
    using shrunk_table [OF wf assms(2)] by (fastforce simp: table_keeps_marks_def)
qed

lemma same_table_marks: "sx_bridge_tombstones s' = sx_bridge_tombstones s \<Longrightarrow> table_keeps_marks s s'"
  by (simp add: table_keeps_marks_def)

text \<open>
  An operation that first removes tombstones and then changes the one of a key, if at all,
  keeps the marks if that change does.
\<close>

lemma marks_after_shrink:
  assumes "slots_inv s" "shrunk s u"
    and "\<And>k t t'. dict_get (sx_bridge_tombstones u) k = Some t \<Longrightarrow>
      dict_get (sx_bridge_tombstones s') k = Some t' \<Longrightarrow> marks_kept t t'"
    and "\<And>k. dict_get (sx_bridge_tombstones s') k \<noteq> None \<Longrightarrow> dict_get (sx_bridge_tombstones u) k \<noteq> None"
  shows "table_keeps_marks s s'"
  unfolding table_keeps_marks_def
proof (intro allI impI)
  fix k t t'
  assume t: "dict_get (sx_bridge_tombstones s) k = Some t" "dict_get (sx_bridge_tombstones s') k = Some t'"
  then obtain u' where u: "dict_get (sx_bridge_tombstones u) k = Some u'" using assms(4) [of k] by auto
  have wf: "dict_wf (sx_bridge_tombstones s)" using names_okD(1) slots_invD(1) assms(1) by blast
  have "dict_get (sx_bridge_tombstones s) k = Some u'"
    by (rule shrunk_table [OF wf assms(2) u])
  with t(1) assms(3) [OF u t(2)] show "marks_kept t t'" by simp
qed

lemma set_tombstone_marks:
  assumes "slots_inv s" "shrunk s u" "dict_get (sx_bridge_tombstones u) k = Some t" "marks_kept t t'"
    and "sx_bridge_tombstones s' = dict_set k t' (sx_bridge_tombstones u)"
  shows "table_keeps_marks s s'"
  by (rule marks_after_shrink [OF assms(1,2)]) (use assms(3-5) in \<open>auto split: if_splits\<close>)

lemma evict_excess_table:
  "names_ok s \<Longrightarrow> credits_ok s \<Longrightarrow> dict_get (sx_bridge_tombstones (fst (evict_excess s))) k = Some t \<Longrightarrow>
   dict_get (sx_bridge_tombstones s) k = Some t"
proof (induction s rule: evict_excess.induct)
  case (1 s)
  show ?case
  proof (cases "TOMBSTONE_MAX_ENTRIES < tombstone_occupancy s \<and> evict_one s \<noteq> None")
    case True
    then obtain u where u: "evict_one s = Some u" by auto
    have wf: "dict_wf (sx_bridge_tombstones s)" by (rule names_okD(1) [OF 1(2)])
    have sh: "shrunk s u" by (rule evict_one_shrunk [OF wf u])
    have "dict_get (sx_bridge_tombstones u) k = Some t"
      using 1(1) [OF _ u shrunk_names [OF 1(2) sh] shrunk_credits [OF 1(3) sh]] 1(4) True u
      by (simp add: evict_excess.simps [of s])
    then show ?thesis by (rule shrunk_table [OF wf sh])
  next
    case False
    then have "fst (evict_excess s) = s" by (auto simp: evict_excess.simps [of s] split: option.split)
    then show ?thesis using 1(4) by simp
  qed
qed

lemma table_sub_marks:
  assumes "\<And>k t. dict_get (sx_bridge_tombstones s') k = Some t \<Longrightarrow> dict_get (sx_bridge_tombstones s) k = Some t"
  shows "table_keeps_marks s s'"
  using assms by (fastforce simp: table_keeps_marks_def)

lemma remember_table:
  assumes "slots_inv s" "dict_get (sx_bridge_endpoints s) k = None" "dict_get (sx_bridge_tombstones s) k = None"
    and "dict_get (sx_bridge_tombstones (fst (remember_tombstone k v s))) k' = Some t"
  shows "dict_get (sx_bridge_tombstones s) k' = Some t"
proof -
  let ?t = "drop_tombstone k s"
  let ?u = "?t\<lparr>sx_tombstones := dict_set k v (sx_tombstones ?t)\<rparr>"
  have t: "slots_inv ?t" using shrunk_inv [OF assms(1) drop_tombstone_shrunk] .
  have "dict_get (sx_bridge_endpoints ?t) k = None" "dict_get (sx_bridge_tombstones ?t) k = None"
    using assms(2,3) by (simp_all add: drop_tombstone_def)
  then have u: "names_ok ?u" "credits_ok ?u"
    using names_tombstone [OF slots_invD(1) [OF t]] slots_invD(2) [OF t] by simp_all
  show ?thesis
    using evict_excess_table [OF u, of k' t] assms(4) by (simp add: remember_tombstone_def Let_def drop_tombstone_def)
qed

lemma reserve_table:
  "names_ok s \<Longrightarrow> dict_get (sx_bridge_tombstones (fst (reserve_credits n s))) k = Some t \<Longrightarrow>
   dict_get (sx_bridge_tombstones s) k = Some t"
proof (induction n s rule: reserve_credits.induct)
  case (1 n s)
  show ?case
  proof (cases "TOMBSTONE_MAX_ENTRIES < tombstone_occupancy s + n \<and> evict_one s \<noteq> None")
    case True
    then obtain u where u: "evict_one s = Some u" by auto
    have wf: "dict_wf (sx_bridge_tombstones s)" by (rule names_okD(1) [OF 1(2)])
    have sh: "shrunk s u" by (rule evict_one_shrunk [OF wf u])
    have "dict_get (sx_bridge_tombstones u) k = Some t"
      using 1(1) [OF _ u shrunk_names [OF 1(2) sh]] 1(3) True u by (simp add: reserve_credits.simps [of n s])
    then show ?thesis by (rule shrunk_table [OF wf sh])
  next
    case False
    then have "sx_bridge_tombstones (fst (reserve_credits n s)) = sx_bridge_tombstones s"
      by (auto simp: reserve_credits.simps [of n s] split: option.split)
    then show ?thesis using 1(3) by simp
  qed
qed

lemma expire_table:
  assumes "slots_inv s" "dict_get (sx_bridge_tombstones (expire_tombstones now s)) k = Some t"
  shows "dict_get (sx_bridge_tombstones s) k = Some t"
  using shrunk_table [OF names_okD(1) [OF slots_invD(1) [OF assms(1)]] expire_shrunk assms(2)] .

lemma expire_then_same_marks:
  "slots_inv s \<Longrightarrow> sx_bridge_tombstones s' = sx_bridge_tombstones (expire_tombstones now s) \<Longrightarrow>
   table_keeps_marks s s'"
  using expire_table by (intro table_sub_marks) simp

lemma new_bridge_marks:
  assumes "slots_inv s"
  shows "table_keeps_marks s (fst (new_bridge now sid source destination facts s))"
proof (rule table_sub_marks)
  fix k t
  let ?u = "expire_tombstones now s"
  assume "dict_get (sx_bridge_tombstones (fst (new_bridge now sid source destination facts s))) k = Some t"
  then have "dict_get (sx_bridge_tombstones ?u) k = Some t \<or>
      dict_get (sx_bridge_tombstones (fst (reserve_credits 2 ?u))) k = Some t"
    by (auto simp: new_bridge_def Let_def then_do_def split: if_splits prod.splits option.splits)
  then show "dict_get (sx_bridge_tombstones s) k = Some t"
    using reserve_table [OF slots_invD(1) [OF expire_inv [OF assms]]] expire_table [OF assms] by blast
qed

lemma abort_marks:
  assumes "slots_inv s" "slot_held k slot s"
  shows "table_keeps_marks s (fst (abort_slot now ttl k slot terminal s))"
proof (rule table_sub_marks)
  fix k' t
  assume get: "dict_get (sx_bridge_tombstones (fst (abort_slot now ttl k slot terminal s))) k' = Some t"
  have "dict_get (sx_bridge_tombstones s) k' = Some t"
    if "dict_get (sx_bridge_tombstones (fst (remember_tombstone k v (slot_written k slot' s)))) k' = Some t" for v slot'
    using remember_table [OF slot_written_inv [OF assms(1)] _ _ that] slot_held_free [OF assms] by simp
  then show "dict_get (sx_bridge_tombstones s) k' = Some t"
    using get by (auto simp: abort_slot_def Let_def simp flip: slot_written_def split: if_splits)
qed

lemma cleanup_marks:
  assumes "slots_inv s" "slot_held k slot s"
  shows "table_keeps_marks s (fst (cleanup_slot now ttl k slot s))"
proof (rule table_sub_marks)
  fix k' t
  assume "dict_get (sx_bridge_tombstones (fst (cleanup_slot now ttl k slot s))) k' = Some t"
  then show "dict_get (sx_bridge_tombstones s) k' = Some t"
    using remember_table [OF slot_deleted_inv [OF assms(1), of k]] slot_held_free [OF assms]
    by (auto simp: cleanup_slot_def Let_def split: if_splits)
qed

lemma publish_marks:
  assumes "slots_inv s" "dict_get (sx_bridges s) sid = Some b"
  shows "table_keeps_marks s (fst (publish_bridge_tombstones b s))"
proof (cases "br_tombstones_published (bridge_at s b)")
  case True
  then show ?thesis by (intro same_table_marks) (simp add: publish_bridge_tombstones_def Let_def)
next
  case False
  note inv = names_okD [OF slots_invD(1) [OF assms(1)]]
  have reg: "bridge_registered s sid b" by (rule inv(3) [OF assms(2)])
  have none: "dict_get (sx_bridge_tombstones s) k = None" if k: "k \<in> bridge_keys (bridge_at s b)" for k
  proof (cases "dict_get (sx_bridge_tombstones s) k")
    case (Some t)
    have "dict_get (sx_bridge_endpoints s) k \<noteq> None" "snd (snd k) = sid"
      using reg k by (auto simp: bridge_registered_def)
    then show ?thesis using inv(5) [OF Some] assms(2) False by (auto simp: tombstone_owned_def split: if_splits)
  qed
  have two: "br_tombstone_credits (bridge_at s b) = 2" and len: "b < length (sx_store s)"
    using slots_invD(2) [OF assms(1)] reg False by (auto simp: credits_ok_def bridge_registered_def)
  have "br_tombstone_credits (bridge_at s b) \<in> set (map br_tombstone_credits (sx_store s))" using len by simp
  then have res: "2 \<le> sx_reserved_credits s"
    using member_le_sum_list slots_invD(2) [OF assms(1)] two unfolding credits_ok_def by fastforce
  show ?thesis
    unfolding publish_eq [OF len False two res] table_keeps_marks_def
  proof (intro allI impI)
    fix k t t'
    assume t: "dict_get (sx_bridge_tombstones s) k = Some t"
      and t': "dict_get (sx_bridge_tombstones (fst (s\<lparr>sx_store := (sx_store s)[b := (bridge_at s b)
          \<lparr>br_tombstone_credits := 0, br_tombstones_published := True\<rparr>],
          sx_reserved_credits := sx_reserved_credits s - 2,
          sx_bridge_tombstones := published_table b s\<rparr>, None))) k = Some t'"
    have "k \<notin> bridge_keys (bridge_at s b)" using none [of k] t by auto
    then have "dict_get (sx_bridge_tombstones s) k = Some t'" using published_table_get [of b s k t'] t' by simp
    with t show "marks_kept t t'" by simp
  qed
qed

lemma merge_marks: "marks_kept c (merge_tombstone c f)"
  by (simp add: marks_kept_def merge_tombstone_def Let_def)

lemma marks_trans: "marks_kept a b \<Longrightarrow> marks_kept b c \<Longrightarrow> marks_kept a c"
  by (auto simp: marks_kept_def)

lemma finish_marks: "table_keeps_marks s (finish_bridge expiry b error s)"
  unfolding table_keeps_marks_def
  by (auto simp: finish_bridge_def finalize_bridge_tombstones_def Let_def finalize_one_get
      intro: merge_marks marks_trans split: if_splits)

lemma late_end_marks: "late_end sha256 s t e = (t', r, c) \<Longrightarrow> marks_kept t t'"
  by (auto simp: late_end_def marks_kept_def split: if_splits)

lemma complete_bridge_ack_table [simp]:
  "sx_bridge_tombstones (complete_bridge_ack bo role e s) = sx_bridge_tombstones s"
  by (simp add: complete_bridge_ack_def set_bridge_def split: option.split)

lemma frame_marks:
  assumes "slots_inv s"
  shows "table_keeps_marks s (fst (handle_tombstone_frame sha256 now handle frame s))"
proof -
  let ?u = "expire_tombstones now s" and ?k = "(fst handle, snd handle, frame_id frame)"
  show ?thesis
  proof (cases "dict_get (sx_bridge_tombstones ?u) ?k")
    case None
    then show ?thesis by (intro expire_then_same_marks [OF assms]) (simp add: handle_tombstone_frame_def Let_def)
  next
    case (Some t)
    show ?thesis
    proof (cases frame)
      case (ProgressFrame i n)
      show ?thesis
      proof (cases "late_progress ?u t n")
        case None
        then show ?thesis using ProgressFrame Some
          by (intro expire_then_same_marks [OF assms]) (simp add: handle_tombstone_frame_def Let_def)
      next
        case prog: (Some t')
        then have "marks_kept t t'" by (auto simp: late_progress_def marks_kept_def split: if_splits)
        then show ?thesis
          by (rule set_tombstone_marks [OF assms expire_shrunk Some])
            (use ProgressFrame prog Some in \<open>simp add: handle_tombstone_frame_def Let_def set_tombstone_def\<close>)
      qed
    next
      case (EndFrame e)
      obtain t' r c where l: "late_end sha256 ?u t e = (t', r, c)" by (cases "late_end sha256 ?u t e")
      show ?thesis
        by (rule set_tombstone_marks [OF assms expire_shrunk Some late_end_marks [OF l]])
          (use EndFrame l Some in \<open>simp add: handle_tombstone_frame_def Let_def set_tombstone_def\<close>)
    next
      case (OtherFrame i)
      then show ?thesis using Some
        by (intro expire_then_same_marks [OF assms]) (simp add: handle_tombstone_frame_def Let_def)
    qed
  qed
qed

lemma binary_marks:
  assumes "slots_inv s"
  shows "table_keeps_marks s (fst (handle_tombstone_binary now handle sid chunk s))"
proof (cases "dict_get (sx_bridge_tombstones (expire_tombstones now s)) (fst handle, snd handle, sid)")
  case (Some t)
  show ?thesis
  proof (cases "snd (handle_tombstone_binary now handle sid chunk s) = LateHandled")
    case True
    let ?t = "t\<lparr>bt_binary_bytes_seen := bt_binary_bytes_seen t + length chunk,
        bt_binary_digest := bt_binary_digest t @ chunk\<rparr>"
    have "marks_kept t ?t" by (simp add: marks_kept_def)
    then show ?thesis
      by (rule set_tombstone_marks [OF assms expire_shrunk Some])
        (use True Some in \<open>auto simp: handle_tombstone_binary_def Let_def set_tombstone_def split: if_splits\<close>)
  next
    case False
    then show ?thesis using Some
      by (intro expire_then_same_marks [OF assms])
        (auto simp: handle_tombstone_binary_def Let_def split: if_splits)
  qed
qed (intro expire_then_same_marks [OF assms], simp add: handle_tombstone_binary_def Let_def)

lemma timeout_ack_marks: "table_keeps_marks s (finish_timeout_ack k d s)"
  by (auto simp: table_keeps_marks_def finish_timeout_ack_def set_tombstone_def marks_kept_def
      split: option.splits if_splits)

lemma failure_ack_other: "k \<noteq> k' \<Longrightarrow> dict_get (sx_bridge_tombstones (finish_failure_ack k' ack d s)) k =
    dict_get (sx_bridge_tombstones s) k"
  by (simp add: finish_failure_ack_def set_tombstone_def Let_def split: option.split)

lemma failure_ack_own:
  assumes "dict_get (sx_bridge_tombstones s) k = Some t"
    and "dict_get (sx_bridge_tombstones (finish_failure_ack k ack d s)) k = Some t'"
  shows "bt_timeout_ack_attempted t' = bt_timeout_ack_attempted t" "bt_failure_ack_sent t' = (bt_failure_ack_sent t \<or> d)"
  using assms by (auto simp: finish_failure_ack_def set_tombstone_def Let_def split: if_splits)

lemma table_step_marks:
  assumes "table_step s s'" "slots_inv s"
  shows "table_keeps_marks s s'"
  using assms
proof (induction rule: table_step.induct)
  case (step_new_slot s now k slot)
  then show ?case by (intro expire_then_same_marks) (auto simp: new_slot_def Let_def)
next
  case (step_matches s now k f)
  then show ?case
    by (intro expire_then_same_marks) (auto simp: matches_tombstone_def Let_def split: option.splits)
qed (simp_all add: expire_then_same_marks same_table_marks set_bridge_def abort_marks cleanup_marks new_bridge_marks
    publish_marks finish_marks binary_marks)

section \<open>The acknowledgements of an endpoint\<close>

text \<open>
  What happens to the acknowledgements of one endpoint: the server sends one, of a timeout or of a
  failure, or the sending ends, delivered or not. A run keeps the tombstone of the endpoint and
  records these events; all other operations may happen in between.
\<close>

datatype ack_event = AckSent bool | TimeoutAckFinished bool | FailureAckFinished bool

fun frame_event :: "transfer_key \<Rightarrow> transfer_key \<Rightarrow> late_result \<Rightarrow> ack_event list" where
  "frame_event k k' (SendAck is_timeout e) = (if k' = k then [AckSent is_timeout] else [])"
| "frame_event k k' _ = []"

inductive endpoint_step :: "transfer_key \<Rightarrow> transfer_slots \<Rightarrow> ack_event list \<Rightarrow> transfer_slots \<Rightarrow> bool" for k where
  end_table: "table_step s s' \<Longrightarrow> endpoint_step k s [] s'"
| end_frame: "handle_tombstone_frame sha256 now (d, g) frame s = (s', result) \<Longrightarrow>
    endpoint_step k s (frame_event k (d, g, frame_id frame) result) s'"
| end_timeout: "endpoint_step k s (if k' = k then [TimeoutAckFinished delivered] else [])
    (finish_timeout_ack k' delivered s)"
| end_failure: "endpoint_step k s (if k' = k then [FailureAckFinished delivered] else [])
    (finish_failure_ack k' ack delivered s)"

inductive endpoint_run :: "transfer_key \<Rightarrow> transfer_slots \<Rightarrow> ack_event list \<Rightarrow> transfer_slots \<Rightarrow> bool" for k s where
  run_start: "dict_get (sx_bridge_tombstones s) k \<noteq> None \<Longrightarrow> endpoint_run k s [] s"
| run_step: "endpoint_run k s trace u \<Longrightarrow> endpoint_step k u events u' \<Longrightarrow>
    dict_get (sx_bridge_tombstones u') k \<noteq> None \<Longrightarrow> endpoint_run k s (trace @ events) u'"

lemma endpoint_step_slots: "endpoint_step k s events s' \<Longrightarrow> slots_step s s'"
proof (induction rule: endpoint_step.induct)
  case (end_frame sha256 now d g frame s s' result)
  then show ?case using step_frame [of s sha256 now "(d, g)" frame] by simp
qed (simp_all add: slots_step.intros)

text \<open>What the trace says about the marks: a failure is open if its last sending has not ended.\<close>

definition failure_open :: "ack_event list \<Rightarrow> bool" where
  "failure_open trace \<longleftrightarrow> (\<exists>xs ys. trace = xs @ AckSent False # ys \<and> (\<forall>d. FailureAckFinished d \<notin> set ys))"

definition marks_match :: "ack_event list \<Rightarrow> bridge_tombstone \<Rightarrow> bool" where
  "marks_match trace t \<longleftrightarrow>
     (AckSent True \<in> set trace \<longrightarrow> bt_timeout_ack_attempted t) \<and>
     (FailureAckFinished True \<in> set trace \<longrightarrow> bt_failure_ack_sent t) \<and>
     (failure_open trace \<longrightarrow> bt_failure_ack_in_flight t)"

lemma failure_open_snoc:
  "failure_open (trace @ [event]) \<longleftrightarrow>
     event = AckSent False \<or> failure_open trace \<and> (\<forall>d. event \<noteq> FailureAckFinished d)"
proof
  assume "failure_open (trace @ [event])"
  then obtain xs ys where "trace @ [event] = xs @ AckSent False # ys" "\<forall>d. FailureAckFinished d \<notin> set ys"
    by (auto simp: failure_open_def)
  then show "event = AckSent False \<or> failure_open trace \<and> (\<forall>d. event \<noteq> FailureAckFinished d)"
    by (cases ys rule: rev_cases) (auto simp: failure_open_def)
next
  assume "event = AckSent False \<or> failure_open trace \<and> (\<forall>d. event \<noteq> FailureAckFinished d)"
  then show "failure_open (trace @ [event])"
  proof
    assume "failure_open trace \<and> (\<forall>d. event \<noteq> FailureAckFinished d)"
    then obtain xs ys where "trace = xs @ AckSent False # ys" "\<forall>d. FailureAckFinished d \<notin> set ys"
      "\<forall>d. event \<noteq> FailureAckFinished d" by (auto simp: failure_open_def)
    then show ?thesis
      unfolding failure_open_def by (intro exI [of _ xs] exI [of _ "ys @ [event]"]) auto
  next
    assume "event = AckSent False"
    then show ?thesis unfolding failure_open_def by (intro exI [of _ trace] exI [of _ "[]"]) simp
  qed
qed

lemma marks_match_kept: "marks_match trace t \<Longrightarrow> marks_kept t t' \<Longrightarrow> marks_match trace t'"
  by (auto simp: marks_match_def marks_kept_def)

text \<open>A frame that makes the server send an acknowledgement: the marks before and after.\<close>

lemma handle_frame_sends:
  assumes "slots_inv s" "handle_tombstone_frame sha256 now (d, g) frame s = (s', SendAck is_timeout e)"
  shows "\<exists>t t'. dict_get (sx_bridge_tombstones s) (d, g, frame_id frame) = Some t \<and>
    dict_get (sx_bridge_tombstones s') (d, g, frame_id frame) = Some t' \<and> marks_kept t t' \<and>
    (if is_timeout then \<not> bt_timeout_ack_attempted t \<and> bt_timeout_ack_attempted t'
     else \<not> bt_failure_ack_sent t \<and> \<not> bt_failure_ack_in_flight t \<and> bt_failure_ack_in_flight t')"
proof -
  let ?u = "expire_tombstones now s" and ?k = "(d, g, frame_id frame)"
  obtain t where t: "dict_get (sx_bridge_tombstones ?u) ?k = Some t"
    using assms(2) by (auto simp: handle_tombstone_frame_def Let_def split: option.splits)
  obtain f where f: "frame = EndFrame f"
    using assms(2) t
    by (cases frame) (auto simp: handle_tombstone_frame_def Let_def split: option.splits)
  obtain t' c where l: "late_end sha256 ?u t f = (t', SendAck is_timeout e, c)"
    using assms(2) t f
    by (cases "late_end sha256 ?u t f") (auto simp: handle_tombstone_frame_def Let_def)
  then have "if is_timeout then \<not> bt_timeout_ack_attempted t \<and> bt_timeout_ack_attempted t'
      else \<not> bt_failure_ack_sent t \<and> \<not> bt_failure_ack_in_flight t \<and> bt_failure_ack_in_flight t'"
    by (auto simp: late_end_def split: if_splits)
  moreover have "dict_get (sx_bridge_tombstones s') ?k = Some t'"
    using assms(2) t f l by (auto simp: handle_tombstone_frame_def Let_def set_tombstone_def)
  ultimately show ?thesis using expire_table [OF assms(1) t] late_end_marks [OF l] by blast
qed

lemma table_keeps_marksD:
  "table_keeps_marks s s' \<Longrightarrow> dict_get (sx_bridge_tombstones s) k = Some t \<Longrightarrow>
   dict_get (sx_bridge_tombstones s') k = Some t' \<Longrightarrow> marks_kept t t'"
  unfolding table_keeps_marks_def by blast

text \<open>One step: the marks agree with the longer trace, and an acknowledgement is sent only if they allow it.\<close>

lemma endpoint_step_marks:
  assumes "endpoint_step k s events s'" "slots_inv s" "marks_match trace t"
    and "dict_get (sx_bridge_tombstones s) k = Some t" "dict_get (sx_bridge_tombstones s') k = Some t'"
  shows "marks_match (trace @ events) t' \<and>
    (\<forall>b. events = [AckSent b] \<longrightarrow>
      (if b then \<not> bt_timeout_ack_attempted t else \<not> bt_failure_ack_sent t \<and> \<not> bt_failure_ack_in_flight t)) \<and>
    (events = [] \<or> (\<exists>a. events = [a]))"
  using assms
proof (induction rule: endpoint_step.induct)
  case (end_table s s')
  then show ?case using marks_match_kept table_keeps_marksD [OF table_step_marks] by auto
next
  case (end_frame sha256 now d g frame s s' result)
  have kept: "marks_kept t t'"
    using table_keeps_marksD [OF frame_marks [OF end_frame(2), of sha256 now "(d, g)" frame]] end_frame(1,4,5) by simp
  show ?case
  proof (cases "frame_event k (d, g, frame_id frame) result")
    case Nil
    then show ?thesis using kept marks_match_kept [OF end_frame(3)] by simp
  next
    case (Cons ev rest)
    then obtain is_timeout e where r: "result = SendAck is_timeout e" "k = (d, g, frame_id frame)"
      by (cases result) (auto split: if_splits)
    obtain u u' where u: "dict_get (sx_bridge_tombstones s) k = Some u" "dict_get (sx_bridge_tombstones s') k = Some u'"
      "if is_timeout then \<not> bt_timeout_ack_attempted u \<and> bt_timeout_ack_attempted u'
       else \<not> bt_failure_ack_sent u \<and> \<not> bt_failure_ack_in_flight u \<and> bt_failure_ack_in_flight u'"
      using handle_frame_sends [OF end_frame(2) end_frame(1) [unfolded r(1)]] r(2) by blast
    have "u = t" "u' = t'" using u(1,2) end_frame(4,5) by simp_all
    then show ?thesis
      using u(3) end_frame(3) kept r
      by (cases is_timeout) (auto simp: marks_match_def marks_kept_def failure_open_snoc)
  qed
next
  case (end_timeout s k' delivered)
  have "marks_kept t t'" using table_keeps_marksD [OF timeout_ack_marks end_timeout(3,4)] .
  then show ?case
    using marks_match_kept [OF end_timeout(2)]
    by (auto simp: marks_match_def failure_open_snoc)
next
  case (end_failure s k' delivered ack)
  show ?case
  proof (cases "k' = k")
    case True
    then show ?thesis
      using end_failure failure_ack_own [of s k t ack delivered t']
      by (auto simp: marks_match_def failure_open_snoc)
  next
    case False
    then have "t' = t" using end_failure failure_ack_other [of k k' ack delivered s] by simp
    then show ?thesis using False end_failure by simp
  qed
qed

lemma endpoint_run_facts:
  assumes "endpoint_run k s trace u" "slots_inv s"
  shows "slots_inv u \<and> (\<exists>t. dict_get (sx_bridge_tombstones u) k = Some t \<and> marks_match trace t) \<and>
    (\<forall>xs b ys zs. trace = xs @ AckSent b # ys @ AckSent b # zs \<longrightarrow>
      \<not> b \<and> FailureAckFinished False \<in> set ys \<and> FailureAckFinished True \<notin> set (xs @ ys))"
  using assms(1)
proof (induction rule: endpoint_run.induct)
  case run_start
  then show ?case using assms(2) by (auto simp: marks_match_def failure_open_def)
next
  case (run_step trace u events u')
  obtain t where inv: "slots_inv u" and t: "dict_get (sx_bridge_tombstones u) k = Some t" "marks_match trace t"
    using run_step.IH by blast
  obtain t' where t': "dict_get (sx_bridge_tombstones u') k = Some t'" using run_step.hyps(3) by blast
  note st = endpoint_step_marks [OF run_step.hyps(2) inv t(2,1) t']
  have new: "\<not> b \<and> FailureAckFinished False \<in> set ys \<and> FailureAckFinished True \<notin> set (xs @ ys)"
    if e: "events = [AckSent b]" and tr: "trace = xs @ AckSent b # ys" for xs b ys
  proof -
    have free: "if b then \<not> bt_timeout_ack_attempted t else \<not> bt_failure_ack_sent t \<and> \<not> bt_failure_ack_in_flight t"
      using st e by blast
    then have b: "\<not> b" using t(2) tr by (cases b) (simp_all add: marks_match_def)
    have undelivered: "FailureAckFinished True \<notin> set (xs @ ys)" and ended: "\<not> failure_open trace"
      using free b t(2) tr by (auto simp: marks_match_def)
    obtain d where "FailureAckFinished d \<in> set ys" using ended b tr unfolding failure_open_def by auto
    then show ?thesis using b undelivered by (cases d) auto
  qed
  have "\<not> b \<and> FailureAckFinished False \<in> set ys \<and> FailureAckFinished True \<notin> set (xs @ ys)"
    if tr: "trace @ events = xs @ AckSent b # ys @ AckSent b # zs" for xs b ys zs
  proof (cases "events = []")
    case True
    then have "trace = xs @ AckSent b # ys @ AckSent b # zs" using tr by simp
    then show ?thesis using run_step.IH by blast
  next
    case False
    then obtain a where a: "events = [a]" using st by blast
    show ?thesis
    proof (cases zs rule: rev_cases)
      case Nil
      then have "trace = xs @ AckSent b # ys" "a = AckSent b" using tr a by auto
      then show ?thesis using new a by blast
    next
      case (snoc zs' z)
      then have "trace = xs @ AckSent b # ys @ AckSent b # zs'" using tr a by auto
      then show ?thesis using run_step.IH by blast
    qed
  qed
  then show ?case using st t' slots_step_inv [OF endpoint_step_slots [OF run_step.hyps(2)] inv] by blast
qed

text \<open>A late failure of a closed bridge is answered, unless an answer is under way or was delivered.\<close>

lemma dict_get_filter_kept: "dict_get d k = Some t \<Longrightarrow> Q (k, t) \<Longrightarrow> dict_get (filter Q d) k = Some t"
  by (induction d) (auto simp: dict_get_Cons split: if_splits)

lemma pinned_not_expired:
  assumes "dict_get (sx_bridge_tombstones s) k = Some t" "bt_pinned t"
  shows "dict_get (sx_bridge_tombstones (expire_tombstones now s)) k = Some t"
  using assms by (simp add: expire_tombstones_def Let_def dict_get_filter_kept bridge_tombstone_expired_def)

lemma late_failure_answered:
  assumes "dict_get (sx_bridge_tombstones s) (d, g, te_id e) = Some t" "bt_pinned t" "bt_failed t"
    and "bt_failure_terminal t = Some e" "e \<notin> set (bt_expected_terminals t)" "\<not> is_sender_timeout e"
    and "\<not> bt_failure_ack_in_flight t" "\<not> bt_failure_ack_sent t"
  shows "\<exists>s'. handle_tombstone_frame sha256 now (d, g) (EndFrame e) s = (s', SendAck False (e\<lparr>te_ack := True\<rparr>)) \<and>
    dict_get (sx_bridge_tombstones s') (d, g, te_id e) = Some (t\<lparr>bt_failure_ack_in_flight := True\<rparr>)"
  using assms pinned_not_expired [OF assms(1,2), of now]
  by (simp add: handle_tombstone_frame_def Let_def late_end_def set_tombstone_def)

section \<open>Properties\<close>

text \<open>
  C31. The budget of terminal records. In every reachable state of the table the final tombstones,
  the bridge tombstones and the credits reserved for open bridges together never exceed 4096; the
  reserved credits are exactly those that open bridges still hold, two before a bridge publishes
  its tombstones and none afterwards; aborting, cleaning up and publishing never fail for want of
  room or of a reservation; and a tombstone is pinned only while its bridge is open, so none
  escapes expiry for ever.
\<close>

theorem transfer_slots_budget:
  assumes "slots_reachable s"
  shows "tombstone_occupancy s \<le> 4096 \<and>
    sx_reserved_credits s = sum_list (map br_tombstone_credits (sx_store s)) \<and>
    list_all (\<lambda>br. br_tombstone_credits br = (if br_tombstones_published br then 0 else 2)) (sx_store s) \<and>
    (slot_held k slot s \<longrightarrow> snd (abort_slot now ttl k slot terminal s) = None \<and> snd (cleanup_slot now ttl k slot s) = None) \<and>
    (dict_get (sx_bridges s) sid = Some b \<longrightarrow> snd (publish_bridge_tombstones b s) = None) \<and>
    (dict_get (sx_bridge_tombstones s) k = Some t \<longrightarrow> bt_pinned t \<longrightarrow>
      (\<exists>b. dict_get (sx_bridges s) (snd (snd k)) = Some b \<and> bt_bridge t = Some b \<and>
         k \<in> {br_source_key (bridge_at s b), br_destination_key (bridge_at s b)}))"
proof -
  have inv: "slots_inv s" using assms by (rule slots_machine.inv_reachable)
  have "snd (publish_bridge_tombstones b s) = None" if "dict_get (sx_bridges s) sid = Some b"
    using publish_inv [OF inv] that by blast
  moreover have "\<exists>b. dict_get (sx_bridges s) (snd (snd k)) = Some b \<and> bt_bridge t = Some b \<and>
      k \<in> {br_source_key (bridge_at s b), br_destination_key (bridge_at s b)}"
    if "dict_get (sx_bridge_tombstones s) k = Some t" "bt_pinned t"
    using names_okD(5) [OF slots_invD(1) [OF inv] that(1)] that(2)
    by (auto simp: tombstone_owned_def bridge_keys_def)
  ultimately show ?thesis
    using slots_invD(2,3) [OF inv] abort_slot_inv [OF inv] cleanup_slot_inv [OF inv]
    by (simp add: credits_ok_def TOMBSTONE_MAX_ENTRIES_def list_all_iff)
qed

definition demo_facts :: bridge_facts where
  "demo_facts = \<lparr>bf_source_issued = True, bf_destination_issued = False, bf_source_ready_issued = False,
     bf_destination_terminal_issued = False, bf_destination_committed = False, bf_source_end = None,
     bf_source_drain_failure = None, bf_destination_ack = None, bf_destination_failure = None,
     bf_source_failure_terminal = None, bf_destination_failure_terminal = None,
     bf_source_failure_issued = False, bf_destination_failure_issued = False,
     bf_source_resolution = TimeoutAck, bf_timeout_ack_attempted = False, bf_timeout_ack_sent = False,
     bf_timeout_ack_in_flight = False, bf_declared_bytes = None, bf_bytes_received = 0, bf_digest = [],
     bf_late_binary_bytes = 0, bf_late_binary_digest = None, bf_last_progress = 0,
     bf_late_progress_remaining = LATE_PROGRESS_MAX, bf_late_source_success_terminal = None,
     bf_source_ack_future = None, bf_destination_ack_future = None, bf_activity = False\<rparr>"

definition demo_open :: transfer_slots where
  "demo_open = fst (new_bridge 0 7 (1, 1) (2, 1) demo_facts slots_new)"

definition demo_published :: transfer_slots where
  "demo_published = fst (publish_bridge_tombstones 0 demo_open)"

lemma demo_open_eq:
  "demo_open = slots_new\<lparr>sx_reserved_credits := 2,
     sx_store := [\<lparr>br_slot_id = 7, br_source_key = (1, 1, 7), br_destination_key = (2, 1, 7),
       br_tombstone_credits = 2, br_tombstones_published = False, br_facts = demo_facts\<rparr>],
     sx_bridges := [(7, 0)],
     sx_bridge_endpoints := [((1, 1, 7), (0, SourceRole)), ((2, 1, 7), (0, DestinationRole))]\<rparr>"
  by (simp add: demo_open_def new_bridge_def Let_def expire_tombstones_def slots_new_def key_in_use_def
      reserve_credits.simps tombstone_occupancy_def TOMBSTONE_MAX_ENTRIES_def then_do_def dict_set_def)

lemma demo_published_get:
  "dict_get (sx_bridge_tombstones demo_published) (1, 1, 7) =
     Some (bridge_tombstone_for 0 0 demo_facts SourceRole True False)"
  by (simp add: demo_published_def publish_eq demo_open_eq published_table_def Let_def demo_facts_def)

lemma demo_slots_reachable: "slots_reachable demo_open" "slots_reachable demo_published"
proof -
  show open_reachable: "slots_reachable demo_open"
    unfolding demo_open_def
    by (rule reach_step [where s = slots_new], rule reach_start, rule refl, rule step_table, rule step_new_bridge)
  show "slots_reachable demo_published"
    unfolding demo_published_def
    by (rule reach_step [where s = demo_open, OF open_reachable], rule step_table, rule step_publish [where sid = 7])
      (simp add: demo_open_eq dict_get_Cons)
qed

theorem transfer_slots_budget_witness:
  "tombstone_occupancy demo_published \<le> 4096 \<and>
   (\<exists>b. dict_get (sx_bridges demo_published) 7 = Some b \<and>
      (1, 1, 7) \<in> {br_source_key (bridge_at demo_published b), br_destination_key (bridge_at demo_published b)})"
proof -
  have "bt_pinned (bridge_tombstone_for 0 0 demo_facts SourceRole True False)"
    by (simp add: bridge_tombstone_for_def Let_def)
  moreover note transfer_slots_budget [OF demo_slots_reachable(2), where k = "(1, 1, 7)"
      and t = "bridge_tombstone_for 0 0 demo_facts SourceRole True False"]
  ultimately show ?thesis unfolding demo_published_get snd_conv by blast
qed

text \<open>
  C32. A closed bridge does not answer twice. Take any run from a reachable state in which the
  tombstone of a bridge endpoint exists throughout, with any other operations in between, also one
  that finishes the bridge and replaces the tombstone by the final one; and two
  acknowledgements of the same kind that late frames of the endpoint make the server send. They
  are not acknowledgements of a timeout: that is attempted once. If they are acknowledgements
  of a failure, the sending of the first had ended undelivered before the second was sent, and no
  acknowledgement of a failure had been delivered to the endpoint before. So at most one is under
  way at any time, an undelivered one is sent again when the peer repeats its frame, and a
  delivered one never is.
\<close>

theorem closed_bridge_acks_once:
  assumes "slots_reachable s"
    and "endpoint_run k s (xs @ AckSent is_timeout # ys @ AckSent is_timeout # zs) s'"
  shows "\<not> is_timeout \<and> FailureAckFinished False \<in> set ys \<and> FailureAckFinished True \<notin> set (xs @ ys)"
  using endpoint_run_facts [OF assms(2) slots_machine.inv_reachable [OF assms(1)]] by blast

definition demo_failure :: transfer_end where
  "demo_failure = \<lparr>te_id = 7, te_ack = False, te_ok = False, te_code = Some [],
     te_bytes_sent = None, te_sha256 = None, te_etag = None, te_created = None\<rparr>"

definition demo_refused :: transfer_slots where
  "demo_refused = fst (publish_bridge_tombstones 0
     (set_bridge 0 ((bridge_at demo_open 0)\<lparr>br_facts := demo_facts\<lparr>bf_source_failure_terminal := Some demo_failure\<rparr>\<rparr>) demo_open))"

lemma demo_refused_reachable: "slots_reachable demo_refused"
  unfolding demo_refused_def
  by (rule reach_step [OF reach_step [OF demo_slots_reachable(1)]], rule step_table,
      rule step_facts [where s = demo_open], simp add: demo_open_eq,
      rule step_table, rule step_publish [where sid = 7], simp add: demo_open_eq set_bridge_def dict_get_Cons)

lemma demo_refused_get:
  "dict_get (sx_bridge_tombstones demo_refused) (1, 1, 7) =
     Some (bridge_tombstone_for 0 0 (demo_facts\<lparr>bf_source_failure_terminal := Some demo_failure\<rparr>) SourceRole True False)"
  by (simp add: demo_refused_def publish_eq demo_open_eq set_bridge_def published_table_def Let_def demo_facts_def)

theorem closed_bridge_acks_once_witness:
  "\<exists>s'. endpoint_run (1, 1, 7) demo_refused ([] @ AckSent False # [FailureAckFinished False] @ AckSent False # []) s' \<and>
     FailureAckFinished True \<notin> set ([] @ [FailureAckFinished False])"
proof -
  let ?k = "(1, 1, 7)" and ?t = "bridge_tombstone_for 0 0 (demo_facts\<lparr>bf_source_failure_terminal := Some demo_failure\<rparr>) SourceRole True False"
  have t: "bt_pinned ?t" "bt_failed ?t" "bt_failure_terminal ?t = Some demo_failure"
    "demo_failure \<notin> set (bt_expected_terminals ?t)" "\<not> is_sender_timeout demo_failure"
    "\<not> bt_failure_ack_in_flight ?t" "\<not> bt_failure_ack_sent ?t" "te_id demo_failure = 7"
    by (simp_all add: bridge_tombstone_for_def bridge_failed_def expected_terminals_def append_new_def demo_facts_def
        demo_failure_def is_sender_timeout_def TRANSFER_TIMEOUT_CODE_def ustr_of_def Let_def)
  have frame: "\<exists>s'. endpoint_step ?k s [AckSent False] s' \<and>
      dict_get (sx_bridge_tombstones s') ?k = Some (?t\<lparr>bt_failure_ack_in_flight := True\<rparr>)"
    if "dict_get (sx_bridge_tombstones s) ?k = Some ?t" for s
    using late_failure_answered [of s 1 1 demo_failure ?t "\<lambda>_. []" 0] that t
      end_frame [of "\<lambda>_. []" 0 1 1 "EndFrame demo_failure" s _ "SendAck False (demo_failure\<lparr>te_ack := True\<rparr>)" ?k]
    by auto
  obtain s1 where s1: "endpoint_step ?k demo_refused [AckSent False] s1"
    "dict_get (sx_bridge_tombstones s1) ?k = Some (?t\<lparr>bt_failure_ack_in_flight := True\<rparr>)"
    using frame [OF demo_refused_get] by blast
  let ?s2 = "finish_failure_ack ?k demo_failure False s1"
  have s2: "endpoint_step ?k s1 [FailureAckFinished False] ?s2" "dict_get (sx_bridge_tombstones ?s2) ?k = Some ?t"
    using end_failure [of ?k s1 ?k False demo_failure] s1(2) t(6,7) by (simp_all add: finish_failure_ack_def set_tombstone_def)
  obtain s3 where s3: "endpoint_step ?k ?s2 [AckSent False] s3" "dict_get (sx_bridge_tombstones s3) ?k \<noteq> None"
    using frame [OF s2(2)] by auto
  have "endpoint_run ?k demo_refused [] demo_refused" by (rule run_start, unfold demo_refused_get) simp
  from run_step [OF this s1(1)] s1(2) have "endpoint_run ?k demo_refused ([] @ [AckSent False]) s1" by simp
  from run_step [OF this s2(1)] s2(2)
  have "endpoint_run ?k demo_refused (([] @ [AckSent False]) @ [FailureAckFinished False]) ?s2" by simp
  from run_step [OF this s3]
  have "endpoint_run ?k demo_refused ((([] @ [AckSent False]) @ [FailureAckFinished False]) @ [AckSent False]) s3" .
  then have run: "endpoint_run ?k demo_refused ([] @ AckSent False # [FailureAckFinished False] @ AckSent False # []) s3" by simp
  show ?thesis using closed_bridge_acks_once [OF demo_refused_reachable run] run by blast
qed

end
