(* ===== verification/Transfer_Bridge.thy ===== *)
theory Transfer_Bridge
  imports Transfer_Slots
begin

text \<open>
  The relay of one file between two devices: the worker, the relay task, the finish task and the
  frame handlers of \<open>devices/transfer_bridge.py\<close>.

  A bridge is a record; what the tombstones read of it are its \<open>bridge_facts\<close>, shared with
  \<open>Transfer_Slots\<close>. Tasks are cut at their awaits: a task is in a phase, and the code up to its next
  await is one operation. Locks are never held over an await, so that they do not suspend. A send over the transport
  first issues the frame and then returns; it may fail before or after the issue. The frames of one device are handled one after the other, and a
  handler that raises ends the connection. A received chunk is kept as its bytes; the digest is a
  function of them. Time is left out: a timeout may happen whenever a task waits. What is sent to the
  destination, and each call of \<open>delete_source\<close>, is recorded.
\<close>

section \<open>Data\<close>

datatype bridge_state = Admitted | SourceRequested | SourceBegun | DestinationBegun | BridgeReady | Streaming
  | SourceEnded | DestinationCommitted | DestinationFailed | Completed | Aborting | Aborted | OutcomeUnknown

datatype bridge_error = TransferErr ustr | UnavailableErr | DisconnectedErr | IntegrityErr | StageTimeout | AssertErr

definition bridge_error_code :: "bridge_error \<Rightarrow> ustr" where
  "bridge_error_code e =
     (case e of
        TransferErr code \<Rightarrow> if code = [] then ustr_of ''transfer_failed'' else code
      | UnavailableErr \<Rightarrow> ustr_of ''tool_device_unreachable''
      | DisconnectedErr \<Rightarrow> ustr_of ''peer_disconnected''
      | IntegrityErr \<Rightarrow> ustr_of ''workspace_transfer_integrity_failed''
      | StageTimeout \<Rightarrow> TRANSFER_TIMEOUT_CODE
      | AssertErr \<Rightarrow> ustr_of ''transfer_failed'')"

record transfer_begin =
  tb_client_to_server :: bool
  tb_file_transfer :: bool
  tb_src_device :: "ustr option"
  tb_src_path :: "ustr option"
  tb_dst_device :: "ustr option"
  tb_dst_path :: "ustr option"
  tb_total_bytes :: "nat option"
  tb_etag :: "ustr option"

record transfer_result =
  tr_bytes_transferred :: nat
  tr_sha256 :: ustr
  tr_warnings :: "string list"
  tr_etag :: "ustr option"
  tr_created :: "bool option"

datatype begin_result = BeginFrame transfer_begin | BeginEnd transfer_end
datatype ready_result = ReadyFrame | ReadyEnd transfer_end

text \<open>The stages at which the worker waits, and what \<open>_wait_bridge_stage\<close> gets there.\<close>

datatype bridge_stage = StageBegin | StageReady | StageEnd | StageDrain transfer_end
  | StageSourceAck transfer_end | StageDestinationAck transfer_end

datatype stage_result = GotBegin begin_result | GotReady ready_result | GotSourceEnd transfer_end
  | GotDestinationFailure transfer_end | GotDrainFailure transfer_end | GotRelayDone | GotAck transfer_end
  | GotError bridge_error | GotCancelled

datatype worker_phase =
    SendRequest | Waiting bridge_stage | Resuming bridge_stage stage_result
  | SendBegin transfer_begin | SendReady | SendTerminal transfer_end | AwaitAck
  | SendSourceAck transfer_end | DeleteSource transfer_end
  | RejectSend transfer_end | RejectAck transfer_end transfer_end
  | FailSend transfer_end | FailAck transfer_end transfer_end
  | Finishing | WorkerDone

datatype relay_phase = NoRelay | RelayGet | RelaySend "nat list" | RelayDone | RelayFailed bridge_error | RelayCancelled

datatype finish_phase =
    NoFinish | AbortStart ustr bridge_error bool | AbortAuthoritative transfer_end
  | AbortJoinWorker ustr bridge_error bool | AbortJoinRelay ustr bridge_error | AbortSend ustr bridge_error
  | FinishStart "bridge_error + transfer_result" | FinishJoin "bridge_error + transfer_result"
  | FinishLease "bridge_error + transfer_result" | FinishDone

datatype put_phase = NoPut | Putting "nat list option"

datatype sent_item = SentChunk "nat list" | SentEnd transfer_end | SentProgress nat

record bridge =
  bg_slot_id :: uuid
  bg_src_path :: ustr
  bg_dst_path :: ustr
  bg_source_device :: ustr
  bg_move :: bool
  bg_has_delete :: bool
  bg_directory_child :: bool
  bg_expected_size :: "nat option"
  bg_expected_fingerprint :: "ustr option"
  bg_state :: bridge_state
  bg_queue :: "nat list option list"
  bg_source_begin_future :: "(bridge_error, begin_result) py_future"
  bg_ready_future :: "(bridge_error, ready_result) py_future"
  bg_source_end_future :: "(bridge_error, transfer_end) py_future"
  bg_drain_future :: "(bridge_error, transfer_end) py_future"
  bg_failure_future :: "(bridge_error, transfer_end) py_future"
  bg_abort :: bool
  bg_source_begin :: "transfer_begin option"
  bg_authoritative :: "transfer_end option"
  bg_fingerprint :: "ustr option"
  bg_bytes_forwarded :: nat
  bg_source_ack_delivered :: bool
  bg_source_ack_impossible :: bool
  bg_source_fenced :: bool
  bg_destination_fenced :: bool
  bg_cleanup_started :: bool
  bg_published :: bool
  bg_source_tombstone :: "transfer_end list option"
  bg_destination_tombstone :: "transfer_end list option"
  bg_registered :: bool
  bg_source_closed :: bool
  bg_destination_closed :: bool
  bg_worker :: worker_phase
  bg_worker_cancel :: bool
  bg_relay :: relay_phase
  bg_relay_cancel :: bool
  bg_finish :: finish_phase
  bg_put :: put_phase
  bg_completion :: "(bridge_error, transfer_result) py_future"
  bg_facts :: bridge_facts
  bg_sent :: "sent_item list"
  bg_deletes :: "ustr list"

definition TRANSFER_QUEUE_CHUNKS :: nat where "TRANSFER_QUEUE_CHUNKS = 4"

abbreviation upd_facts :: "(bridge_facts \<Rightarrow> bridge_facts) \<Rightarrow> bridge \<Rightarrow> bridge" where
  "upd_facts f b \<equiv> b\<lparr>bg_facts := f (bg_facts b)\<rparr>"

definition facts_new :: bridge_facts where
  "facts_new = \<lparr>bf_source_issued = False, bf_destination_issued = False, bf_source_ready_issued = False,
     bf_destination_terminal_issued = False, bf_destination_committed = False, bf_source_end = None,
     bf_source_drain_failure = None, bf_destination_ack = None, bf_destination_failure = None,
     bf_source_failure_terminal = None, bf_destination_failure_terminal = None,
     bf_source_failure_issued = False, bf_destination_failure_issued = False,
     bf_source_resolution = ResolutionOpen, bf_timeout_ack_attempted = False, bf_timeout_ack_sent = False,
     bf_timeout_ack_in_flight = False, bf_declared_bytes = None, bf_bytes_received = 0, bf_digest = [],
     bf_late_binary_bytes = 0, bf_late_binary_digest = None, bf_last_progress = 0,
     bf_late_progress_remaining = LATE_PROGRESS_MAX, bf_late_source_success_terminal = None,
     bf_source_ack_future = Some Pending, bf_destination_ack_future = Some Pending, bf_activity = False\<rparr>"

text \<open>A bridge as \<open>start_client_to_client\<close> has set it up when it starts the worker.\<close>

definition bridge_new ::
  "uuid \<Rightarrow> ustr \<Rightarrow> ustr \<Rightarrow> ustr \<Rightarrow> bool \<Rightarrow> bool \<Rightarrow> bool \<Rightarrow> nat option \<Rightarrow> ustr option \<Rightarrow> bridge" where
  "bridge_new slot_id src dst device move has_delete child expected_size fingerprint =
     \<lparr>bg_slot_id = slot_id, bg_src_path = src, bg_dst_path = dst, bg_source_device = device, bg_move = move,
      bg_has_delete = has_delete, bg_directory_child = child, bg_expected_size = expected_size,
      bg_expected_fingerprint = fingerprint, bg_state = Admitted, bg_queue = [],
      bg_source_begin_future = Pending, bg_ready_future = Pending, bg_source_end_future = Pending,
      bg_drain_future = Pending, bg_failure_future = Pending, bg_abort = False, bg_source_begin = None,
      bg_authoritative = None, bg_fingerprint = None, bg_bytes_forwarded = 0, bg_source_ack_delivered = False,
      bg_source_ack_impossible = False, bg_source_fenced = False, bg_destination_fenced = False,
      bg_cleanup_started = False, bg_published = False, bg_source_tombstone = None,
      bg_destination_tombstone = None, bg_registered = True, bg_source_closed = False,
      bg_destination_closed = False, bg_worker = SendRequest, bg_worker_cancel = False, bg_relay = NoRelay,
      bg_relay_cancel = False, bg_finish = NoFinish, bg_put = NoPut, bg_completion = Pending,
      bg_facts = facts_new, bg_sent = [], bg_deletes = []\<rparr>"

section \<open>Finishing and aborting\<close>

text \<open>
  \<open>_publish_bridge_tombstones\<close>, as far as the bridge sees it: the endpoints that were issued get a
  tombstone, with the terminals that are expected at that time.
\<close>

definition publish_bridge :: "bridge \<Rightarrow> bridge" where
  "publish_bridge b =
     (if bg_published b then b
      else b\<lparr>bg_published := True,
             bg_source_tombstone := (if bf_source_issued (bg_facts b)
               then Some (expected_terminals (bg_facts b) SourceRole) else bg_source_tombstone b),
             bg_destination_tombstone := (if bf_destination_issued (bg_facts b)
               then Some (expected_terminals (bg_facts b) DestinationRole) else bg_destination_tombstone b)\<rparr>)"

definition relay_running :: "bridge \<Rightarrow> bool" where
  "relay_running b \<longleftrightarrow> (case bg_relay b of RelayGet \<Rightarrow> True | RelaySend c \<Rightarrow> True | _ \<Rightarrow> False)"

definition cancel_relay :: "bridge \<Rightarrow> bridge" where
  "cancel_relay b = (if relay_running b then b\<lparr>bg_relay_cancel := True\<rparr> else b)"

definition cancel_worker :: "bridge \<Rightarrow> bridge" where
  "cancel_worker b = (if bg_worker b = WorkerDone then b else b\<lparr>bg_worker_cancel := True\<rparr>)"

definition abort_bridge :: "ustr \<Rightarrow> bridge_error \<Rightarrow> bool \<Rightarrow> bridge \<Rightarrow> bridge" where
  "abort_bridge code error skip_worker b =
     (if bg_finish b = NoFinish then b\<lparr>bg_finish := AbortStart code error skip_worker\<rparr> else b)"

definition complete_bridge :: "bridge_error + transfer_result \<Rightarrow> bridge \<Rightarrow> bridge" where
  "complete_bridge outcome b =
     (if bg_finish b = NoFinish then b\<lparr>bg_finish := FinishStart outcome\<rparr> else b)"

definition rejected :: "transfer_end \<Rightarrow> bridge_error" where
  "rejected e = TransferErr (case te_code e of Some c \<Rightarrow> if c = [] then ustr_of ''transfer_rejected'' else c
     | None \<Rightarrow> ustr_of ''transfer_rejected'')"

definition bridge_result :: "(nat list \<Rightarrow> ustr) \<Rightarrow> string list \<Rightarrow> transfer_end \<Rightarrow> bridge \<Rightarrow> transfer_result" where
  "bridge_result sha256 warnings ack b =
     \<lparr>tr_bytes_transferred = bf_bytes_received (bg_facts b), tr_sha256 = sha256 (bf_digest (bg_facts b)),
      tr_warnings = warnings,
      tr_etag = (if bg_directory_child b then te_etag ack else None),
      tr_created = (if bg_directory_child b then te_created ack else None)\<rparr>"

definition unacknowledged_warnings :: "bridge \<Rightarrow> string list" where
  "unacknowledged_warnings b = ''transfer_ack_failed'' # (if bg_move b then [''source_delete_failed''] else [])"

definition fence_bridge :: "bridge_role \<Rightarrow> bridge \<Rightarrow> bridge" where
  "fence_bridge role b =
     (let c = (if role = SourceRole then b\<lparr>bg_source_fenced := True\<rparr> else b\<lparr>bg_destination_fenced := True\<rparr>)
                \<lparr>bg_abort := True\<rparr>
      in if bf_destination_terminal_issued (bg_facts c) then c else cancel_worker c)"

definition disconnect_bridge :: "ustr \<Rightarrow> bridge \<Rightarrow> bridge" where
  "disconnect_bridge code b =
     (if bf_destination_terminal_issued (bg_facts b) then b
      else if bf_source_issued (bg_facts b) then abort_bridge code DisconnectedErr False b
      else abort_bridge (bridge_error_code UnavailableErr) UnavailableErr False b)"

text \<open>The caller of \<open>start_client_to_client\<close> is cancelled.\<close>

definition cancel_transfer :: "bridge \<Rightarrow> bridge" where
  "cancel_transfer b =
     (if bf_destination_terminal_issued (bg_facts b) then b
      else abort_bridge (ustr_of ''cancelled'') (TransferErr (ustr_of ''cancelled'')) False b)"

text \<open>The abort task, up to its first await; then the joined tasks, and the sends.\<close>

definition abort_outcome :: "(nat list \<Rightarrow> ustr) \<Rightarrow> bridge \<Rightarrow> bridge_error + transfer_result" where
  "abort_outcome sha256 b =
     (case bf_destination_ack (bg_facts b) of
        None \<Rightarrow> Inl DisconnectedErr
      | Some ack \<Rightarrow> if te_ok ack then Inr (bridge_result sha256 (unacknowledged_warnings b) ack b) else Inl (rejected ack))"

definition abort_terminal :: "ustr \<Rightarrow> bridge \<Rightarrow> transfer_end" where
  "abort_terminal code b = \<lparr>te_id = bg_slot_id b, te_ack = False, te_ok = False, te_code = Some code, te_bytes_sent = None,
     te_sha256 = None, te_etag = None, te_created = None\<rparr>"

definition abort_start :: "(nat list \<Rightarrow> ustr) \<Rightarrow> ustr \<Rightarrow> bridge_error \<Rightarrow> bool \<Rightarrow> bridge \<Rightarrow> bridge" where
  "abort_start sha256 code error skip_worker b0 =
     (let b = b0\<lparr>bg_cleanup_started := True, bg_abort := True\<rparr>
      in if bf_destination_terminal_issued (bg_facts b)
         then (let c = (if bf_source_resolution (bg_facts b) = ResolutionOpen
                        then upd_facts (\<lambda>f. f\<lparr>bf_source_resolution := TimeoutAck\<rparr>) b\<lparr>bg_source_ack_impossible := True\<rparr>
                        else b)
               in (publish_bridge c)\<lparr>bg_state := OutcomeUnknown, bg_finish := FinishStart (abort_outcome sha256 c)\<rparr>)
         else case bg_authoritative b of
             Some failure \<Rightarrow> (publish_bridge b)\<lparr>bg_state := Aborting, bg_finish := AbortAuthoritative failure\<rparr>
           | None \<Rightarrow>
               let terminal = abort_terminal code b;
                   c = upd_facts (\<lambda>f. f
                     \<lparr>bf_source_failure_terminal := (if bf_source_issued f then Some terminal else bf_source_failure_terminal f),
                      bf_destination_failure_terminal := (if bf_destination_issued f then Some terminal
                        else bf_destination_failure_terminal f)\<rparr>) b
               in (if skip_worker then publish_bridge c else cancel_worker (publish_bridge c))
                    \<lparr>bg_state := Aborting, bg_finish := AbortJoinWorker code error skip_worker\<rparr>)"

definition abort_final_error :: "ustr \<Rightarrow> bridge_error \<Rightarrow> bool \<Rightarrow> bridge \<Rightarrow> bridge_error" where
  "abort_final_error code error confirmed b =
     (if code = TRANSFER_TIMEOUT_CODE \<and> bf_source_issued (bg_facts b) \<and> \<not> confirmed then DisconnectedErr else error)"

definition finish_start :: "bridge_error + transfer_result \<Rightarrow> bridge \<Rightarrow> bridge" where
  "finish_start outcome b =
     (cancel_relay (publish_bridge (b\<lparr>bg_cleanup_started := True\<rparr>)))\<lparr>bg_finish := FinishJoin outcome\<rparr>"

definition finish_table :: "bridge_error + transfer_result \<Rightarrow> bridge \<Rightarrow> bridge" where
  "finish_table outcome b = b\<lparr>bg_registered := False, bg_queue := [], bg_finish := FinishLease outcome\<rparr>"

definition finish_complete :: "bridge_error + transfer_result \<Rightarrow> bridge \<Rightarrow> bridge" where
  "finish_complete outcome b =
     (let c = (if bg_completion b = Pending
               then b\<lparr>bg_completion := (case outcome of Inl e \<Rightarrow> Raised e | Inr r \<Rightarrow> Result r)\<rparr> else b)
      in (cancel_worker c)\<lparr>bg_finish := FinishDone\<rparr>)"

section \<open>The worker\<close>

fun future_result :: "('a \<Rightarrow> stage_result) \<Rightarrow> (bridge_error, 'a) py_future \<Rightarrow> stage_result option" where
  "future_result f Pending = None"
| "future_result f (Result x) = Some (f x)"
| "future_result f (Raised e) = Some (GotError e)"
| "future_result f Cancelled = Some GotCancelled"

fun relay_result :: "relay_phase \<Rightarrow> stage_result option" where
  "relay_result RelayDone = Some GotRelayDone"
| "relay_result (RelayFailed e) = Some (GotError e)"
| "relay_result RelayCancelled = Some GotCancelled"
| "relay_result p = None"

definition ack_result :: "ack_future \<Rightarrow> stage_result option" where
  "ack_result fo = (case fo of Some (Result e) \<Rightarrow> Some (GotAck e) | _ \<Rightarrow> None)"

fun stage_futures :: "bridge_stage \<Rightarrow> bridge \<Rightarrow> stage_result option list" where
  "stage_futures StageBegin b = [future_result GotBegin (bg_source_begin_future b)]"
| "stage_futures StageReady b =
     [future_result GotReady (bg_ready_future b), future_result GotSourceEnd (bg_source_end_future b),
      future_result GotDestinationFailure (bg_failure_future b)]"
| "stage_futures StageEnd b =
     [future_result GotSourceEnd (bg_source_end_future b),
      future_result GotDestinationFailure (bg_failure_future b), relay_result (bg_relay b)]"
| "stage_futures (StageDrain e) b =
     [future_result GotDrainFailure (bg_drain_future b),
      future_result GotDestinationFailure (bg_failure_future b), relay_result (bg_relay b)]"
| "stage_futures (StageSourceAck failure) b = [ack_result (bf_source_ack_future (bg_facts b))]"
| "stage_futures (StageDestinationAck failure) b = [ack_result (bf_destination_ack_future (bg_facts b))]"

text \<open>The first future that is done, in the order of the call.\<close>

fun first_done :: "stage_result option list \<Rightarrow> stage_result option" where
  "first_done [] = None"
| "first_done (None # rs) = first_done rs"
| "first_done (Some r # rs) = Some r"

text \<open>
  An exception in the worker: \<open>_run_bridge\<close> aborts the bridge and waits. In the resolution of a
  failure the \<open>finally\<close> clause completes the bridge first, so that the abort has no effect.
\<close>

definition worker_raise :: "bridge_error \<Rightarrow> bridge \<Rightarrow> bridge" where
  "worker_raise e b = (abort_bridge (bridge_error_code e) e True b)\<lparr>bg_worker := Finishing\<rparr>"

definition worker_cancelled :: "bridge \<Rightarrow> bridge" where
  "worker_cancelled b0 =
     (let b = b0\<lparr>bg_worker_cancel := False\<rparr>
      in if bg_cleanup_started b then b\<lparr>bg_worker := WorkerDone\<rparr>
         else let e = (if bf_source_issued (bg_facts b) then DisconnectedErr else UnavailableErr)
              in (if bg_abort b then abort_bridge (bridge_error_code e) e True b
                  else abort_bridge (ustr_of ''cancelled'') (TransferErr (ustr_of ''cancelled'')) True b)
                   \<lparr>bg_worker := Finishing\<rparr>)"

text \<open>The failure that a resolution reports in its \<open>finally\<close> clause.\<close>

fun resolving :: "worker_phase \<Rightarrow> transfer_end option" where
  "resolving (RejectSend failure) = Some failure"
| "resolving (RejectAck failure ack) = Some failure"
| "resolving (FailSend failure) = Some failure"
| "resolving (FailAck failure ack) = Some failure"
| "resolving (Waiting (StageSourceAck failure)) = Some failure"
| "resolving (Waiting (StageDestinationAck failure)) = Some failure"
| "resolving (Resuming (StageSourceAck failure) r) = Some failure"
| "resolving (Resuming (StageDestinationAck failure) r) = Some failure"
| "resolving p = None"

definition worker_error :: "bridge_error \<Rightarrow> bridge \<Rightarrow> bridge" where
  "worker_error e b =
     (case resolving (bg_worker b) of
        Some failure \<Rightarrow> (complete_bridge (Inl (rejected failure)) b)\<lparr>bg_worker := Finishing\<rparr>
      | None \<Rightarrow> worker_raise e b)"

definition worker_cancel :: "bridge \<Rightarrow> bridge" where
  "worker_cancel b =
     (case resolving (bg_worker b) of
        Some failure \<Rightarrow> (complete_bridge (Inl (rejected failure)) b)\<lparr>bg_worker := Finishing, bg_worker_cancel := False\<rparr>
      | None \<Rightarrow> worker_cancelled b)"

definition resolve_source_failure :: "transfer_end \<Rightarrow> bridge \<Rightarrow> bridge" where
  "resolve_source_failure failure b =
     (let f = bg_facts b
      in if bf_destination_issued f
         then (publish_bridge (upd_facts (\<lambda>f. f\<lparr>bf_destination_failure_terminal := Some failure\<rparr>) b))\<lparr>bg_worker := FailSend failure\<rparr>
         else (publish_bridge b)\<lparr>bg_worker := FailAck failure (failure\<lparr>te_ack := True\<rparr>)\<rparr>)"

definition resolve_destination_rejection :: "transfer_end \<Rightarrow> bridge \<Rightarrow> bridge" where
  "resolve_destination_rejection failure b =
     (publish_bridge (upd_facts (\<lambda>f. f\<lparr>bf_source_failure_terminal := Some failure\<rparr>) b))\<lparr>bg_worker := RejectSend failure\<rparr>"

text \<open>What the worker does with the result of a stage, up to its next await.\<close>

fun stage_resume :: "bridge_stage \<Rightarrow> stage_result \<Rightarrow> bridge \<Rightarrow> bridge" where
  "stage_resume st (GotError e) b = worker_error e b"
| "stage_resume st GotCancelled b = worker_cancel b"
| "stage_resume StageBegin (GotBegin (BeginEnd e)) b = resolve_source_failure e b"
| "stage_resume StageBegin (GotBegin (BeginFrame t)) b = b\<lparr>bg_worker := SendBegin t\<rparr>"
| "stage_resume StageReady (GotSourceEnd e) b = resolve_source_failure e b"
| "stage_resume StageReady (GotReady (ReadyEnd e)) b = resolve_destination_rejection e b"
| "stage_resume StageReady (GotDestinationFailure e) b = resolve_destination_rejection e b"
| "stage_resume StageReady (GotReady ReadyFrame) b =
     (case bg_failure_future b of
        Result e \<Rightarrow> resolve_destination_rejection e b
      | _ \<Rightarrow> b\<lparr>bg_relay := RelayGet, bg_worker := SendReady\<rparr>)"
| "stage_resume StageEnd (GotDestinationFailure e) b = resolve_destination_rejection e b"
| "stage_resume StageEnd (GotSourceEnd e) b =
     (if \<not> te_ok e then resolve_source_failure e b else b\<lparr>bg_worker := Waiting (StageDrain e)\<rparr>)"
| "stage_resume (StageDrain e) (GotDestinationFailure d) b = resolve_destination_rejection d b"
| "stage_resume (StageDrain e) (GotDrainFailure d) b = resolve_source_failure d b"
| "stage_resume (StageDrain e) GotRelayDone b =
     (case bg_drain_future b of
        Result d \<Rightarrow> resolve_source_failure d b
      | _ \<Rightarrow>
          (case bg_failure_future b of
             Result d \<Rightarrow> resolve_destination_rejection d b
           | _ \<Rightarrow> b\<lparr>bg_state := SourceEnded, bg_worker := SendTerminal e\<rparr>))"
| "stage_resume (StageSourceAck failure) (GotAck ack) b = b\<lparr>bg_worker := RejectAck failure ack\<rparr>"
| "stage_resume (StageDestinationAck failure) (GotAck ack) b = b\<lparr>bg_worker := FailAck failure ack\<rparr>"
| "stage_resume st r b = worker_raise AssertErr b"

text \<open>The callbacks that the transport calls when it issues a frame.\<close>

definition request_issued :: "bridge \<Rightarrow> bridge" where
  "request_issued b =
     (if bf_source_issued (bg_facts b) then b
      else (upd_facts (\<lambda>f. f\<lparr>bf_source_issued := True\<rparr>) b)\<lparr>bg_state := SourceRequested\<rparr>)"

definition begin_issued :: "bridge \<Rightarrow> bridge" where
  "begin_issued b = (upd_facts (\<lambda>f. f\<lparr>bf_destination_issued := True\<rparr>) b)\<lparr>bg_state := DestinationBegun\<rparr>"

definition ready_issued :: "bridge \<Rightarrow> bridge" where
  "ready_issued b =
     (let c = upd_facts (\<lambda>f. f\<lparr>bf_source_ready_issued := True\<rparr>) b
      in if bg_abort c then c else c\<lparr>bg_state := BridgeReady\<rparr>)"

definition terminal_issued :: "transfer_end \<Rightarrow> bridge \<Rightarrow> bridge" where
  "terminal_issued e b =
     (upd_facts (\<lambda>f. f\<lparr>bf_destination_terminal_issued := True\<rparr>) b)\<lparr>bg_sent := bg_sent b @ [SentEnd e]\<rparr>"

definition failure_issued :: "bridge_role \<Rightarrow> transfer_end \<Rightarrow> bridge \<Rightarrow> bridge" where
  "failure_issued role e b =
     (if role = SourceRole then upd_facts (\<lambda>f. f\<lparr>bf_source_failure_issued := True\<rparr>) b
      else (upd_facts (\<lambda>f. f\<lparr>bf_destination_failure_issued := True\<rparr>) b)\<lparr>bg_sent := bg_sent b @ [SentEnd e]\<rparr>)"

text \<open>The end of a send that succeeded.\<close>

definition ack_chosen :: "transfer_end \<Rightarrow> bridge \<Rightarrow> bridge" where
  "ack_chosen ack b0 =
     (let b = (if bf_source_resolution (bg_facts b0) = ResolutionOpen
               then upd_facts (\<lambda>f. f\<lparr>bf_source_resolution := DestinationAck\<rparr>) b0 else b0)
      in b\<lparr>bg_worker := SendSourceAck ack\<rparr>)"

definition finish_after_timeout :: "(nat list \<Rightarrow> ustr) \<Rightarrow> transfer_end \<Rightarrow> bridge \<Rightarrow> bridge" where
  "finish_after_timeout sha256 ack b =
     (if \<not> te_ok ack then (complete_bridge (Inl (rejected ack)) b)\<lparr>bg_worker := Finishing\<rparr>
      else (complete_bridge (Inr (bridge_result sha256 (unacknowledged_warnings b) ack b)) (b\<lparr>bg_state := Completed\<rparr>))
             \<lparr>bg_worker := Finishing\<rparr>)"

definition ack_received :: "(nat list \<Rightarrow> ustr) \<Rightarrow> transfer_end \<Rightarrow> bridge \<Rightarrow> bridge" where
  "ack_received sha256 ack b =
     (if bf_source_resolution (bg_facts b) = TimeoutAck then finish_after_timeout sha256 ack b
      else ack_chosen ack b)"

definition worker_success :: "(nat list \<Rightarrow> ustr) \<Rightarrow> string list \<Rightarrow> transfer_end \<Rightarrow> bridge \<Rightarrow> bridge" where
  "worker_success sha256 warnings ack b =
     (complete_bridge (Inr (bridge_result sha256 warnings ack b)) (b\<lparr>bg_state := Completed\<rparr>))\<lparr>bg_worker := Finishing\<rparr>"

definition source_ack_sent :: "(nat list \<Rightarrow> ustr) \<Rightarrow> bool \<Rightarrow> transfer_end \<Rightarrow> bridge \<Rightarrow> bridge" where
  "source_ack_sent sha256 delivered ack b0 =
     (let b = b0\<lparr>bg_source_ack_delivered := delivered\<rparr>
      in if \<not> te_ok ack
         then (complete_bridge (Inl (rejected ack)) (b\<lparr>bg_state := DestinationFailed\<rparr>))\<lparr>bg_worker := Finishing\<rparr>
         else let c = (upd_facts (\<lambda>f. f\<lparr>bf_destination_committed := True\<rparr>) b)\<lparr>bg_state := DestinationCommitted\<rparr>
              in if \<not> delivered then worker_success sha256 (unacknowledged_warnings c) ack c
                 else if \<not> bg_move c then worker_success sha256 [] ack c
                 else (case bg_fingerprint c of
                     Some fp \<Rightarrow>
                       if bg_has_delete c then c\<lparr>bg_deletes := bg_deletes c @ [fp], bg_worker := DeleteSource ack\<rparr>
                       else worker_success sha256 [''source_delete_failed''] ack c
                   | None \<Rightarrow> worker_success sha256 [''source_delete_failed''] ack c))"

definition source_deleted :: "(nat list \<Rightarrow> ustr) \<Rightarrow> bool \<Rightarrow> transfer_end \<Rightarrow> bridge \<Rightarrow> bridge" where
  "source_deleted sha256 ok ack b = worker_success sha256 (if ok then [] else [''source_delete_failed'']) ack b"

section \<open>Frames of the source\<close>

text \<open>A handler that raises ends the connection of its device.\<close>

definition source_error :: "bridge \<Rightarrow> bridge" where
  "source_error b = b\<lparr>bg_source_closed := True\<rparr>"

definition destination_error :: "bridge \<Rightarrow> bridge" where
  "destination_error b = b\<lparr>bg_destination_closed := True\<rparr>"

definition declared :: "bridge \<Rightarrow> nat option" where
  "declared b = (case bg_source_begin b of None \<Rightarrow> None | Some t \<Rightarrow> tb_total_bytes t)"

definition begin_mismatch :: "transfer_begin \<Rightarrow> bridge \<Rightarrow> bool" where
  "begin_mismatch t b \<longleftrightarrow>
     \<not> tb_client_to_server t \<or> \<not> tb_file_transfer t \<or> tb_src_path t \<noteq> Some (bg_src_path b) \<or>
     tb_dst_path t \<noteq> Some (bg_dst_path b) \<or> tb_total_bytes t = None \<or>
     (tb_src_device t \<noteq> None \<and> tb_src_device t \<noteq> Some (bg_source_device b)) \<or>
     tb_dst_device t \<notin> {None, Some (ustr_of ''server'')}"

definition begin_changed :: "transfer_begin \<Rightarrow> bridge \<Rightarrow> bool" where
  "begin_changed t b \<longleftrightarrow>
     (bg_expected_size b \<noteq> None \<and> tb_total_bytes t \<noteq> bg_expected_size b) \<or>
     (bg_expected_fingerprint b \<noteq> None \<and> tb_etag t \<noteq> bg_expected_fingerprint b)"

definition handle_source_begin :: "transfer_begin \<Rightarrow> bridge \<Rightarrow> bridge" where
  "handle_source_begin t b =
     (if bg_state b \<noteq> SourceRequested then source_error b
      else if begin_mismatch t b then source_error b
      else let c = (upd_facts (\<lambda>f. f\<lparr>bf_declared_bytes := tb_total_bytes t, bf_activity := True\<rparr>) b)
             \<lparr>bg_source_begin := Some t, bg_fingerprint := tb_etag t, bg_state := SourceBegun\<rparr>
           in if bg_source_begin_future c \<noteq> Pending then source_error c
              else if begin_changed t c
              then c\<lparr>bg_source_begin_future := Raised (TransferErr (ustr_of ''workspace_file_changed''))\<rparr>
              else c\<lparr>bg_source_begin_future := Result (BeginFrame t)\<rparr>)"

definition bridge_stopping :: "bridge \<Rightarrow> bool" where
  "bridge_stopping b \<longleftrightarrow> bg_abort b \<or> bg_source_fenced b \<or> bg_destination_fenced b"

text \<open>\<open>forwarded\<close>: whether the destination connection took the frame.\<close>

definition handle_progress :: "bool \<Rightarrow> nat \<Rightarrow> bridge \<Rightarrow> bridge" where
  "handle_progress forwarded n b =
     (let f = bg_facts b
      in if bridge_stopping b
         then (if bf_source_ready_issued f \<and> \<not> bf_destination_terminal_issued f \<and> 0 < bf_late_progress_remaining f \<and>
                  (case declared b of None \<Rightarrow> False | Some d \<Rightarrow> bf_last_progress f \<le> n \<and> n \<le> d)
               then upd_facts (\<lambda>f. f\<lparr>bf_last_progress := n,
                      bf_late_progress_remaining := bf_late_progress_remaining f - 1\<rparr>) b
               else source_error b)
         else if bg_state b \<notin> {BridgeReady, Streaming} then source_error b
         else if n < bf_last_progress f \<or> (case declared b of None \<Rightarrow> False | Some d \<Rightarrow> d < n) then source_error b
         else let c = upd_facts (\<lambda>f. f\<lparr>bf_last_progress := n\<rparr>) b
              in if bf_destination_issued f
                 then (if forwarded then c\<lparr>bg_sent := bg_sent c @ [SentProgress n]\<rparr> else source_error c)
                 else c)"

definition handle_binary :: "nat list \<Rightarrow> bridge \<Rightarrow> bridge" where
  "handle_binary chunk b =
     (let f = bg_facts b
      in if bridge_stopping b
         then (if bf_source_ready_issued f \<and> chunk \<noteq> [] \<and>
                  (case declared b of None \<Rightarrow> False
                   | Some d \<Rightarrow> bf_bytes_received f + bf_late_binary_bytes f + length chunk \<le> d)
               then upd_facts (\<lambda>f. f\<lparr>bf_late_binary_bytes := bf_late_binary_bytes f + length chunk,
                      bf_late_binary_digest := Some ((case bf_late_binary_digest f of
                        None \<Rightarrow> bf_digest f | Some d \<Rightarrow> d) @ chunk)\<rparr>) b
               else source_error b)
         else if bg_state b \<notin> {BridgeReady, Streaming} then source_error b
         else if bf_source_end f \<noteq> None then source_error b
         else if chunk = [] then b
         else if (case declared b of None \<Rightarrow> True | Some d \<Rightarrow> d < bf_bytes_received f + length chunk)
         then source_error (abort_bridge (bridge_error_code IntegrityErr) IntegrityErr False b)
         else (upd_facts (\<lambda>f. f\<lparr>bf_bytes_received := bf_bytes_received f + length chunk,
                 bf_digest := bf_digest f @ chunk\<rparr>) b)\<lparr>bg_state := Streaming, bg_put := Putting (Some chunk)\<rparr>)"

definition source_timeout :: "bridge \<Rightarrow> bridge" where
  "source_timeout b =
     (let f = bg_facts b
      in if bf_source_resolution f = DestinationAck then b
         else let c = (if bf_source_resolution f = ResolutionOpen
                       then upd_facts (\<lambda>f. f\<lparr>bf_source_resolution := TimeoutAck\<rparr>) b\<lparr>bg_source_ack_impossible := True\<rparr>
                       else b)
              in if bf_timeout_ack_attempted f \<or> bf_timeout_ack_sent f \<or> bf_timeout_ack_in_flight f then c
                 else upd_facts (\<lambda>f. f\<lparr>bf_timeout_ack_attempted := True, bf_timeout_ack_in_flight := True\<rparr>) c)"

definition timeout_ack_done :: "bool \<Rightarrow> bridge \<Rightarrow> bridge" where
  "timeout_ack_done delivered b =
     (let c = upd_facts (\<lambda>f. f\<lparr>bf_timeout_ack_in_flight := False,
                bf_timeout_ack_sent := bf_timeout_ack_sent f \<or> delivered\<rparr>) b
      in if delivered then c else c\<lparr>bg_source_ack_impossible := True\<rparr>)"

definition late_source_success :: "(nat list \<Rightarrow> ustr) \<Rightarrow> transfer_end \<Rightarrow> bridge \<Rightarrow> bridge" where
  "late_source_success sha256 e b =
     (let f = bg_facts b;
          digest = (case bf_late_binary_digest f of None \<Rightarrow> bf_digest f | Some d \<Rightarrow> d)
      in if declared b = None \<or> Some (bf_bytes_received f + bf_late_binary_bytes f) \<noteq> declared b \<or>
            te_bytes_sent e \<noteq> declared b \<or> te_sha256 e \<noteq> Some (sha256 digest) \<or>
            \<not> same_or_first (bf_late_source_success_terminal f) e
         then source_error b
         else upd_facts (\<lambda>f. f\<lparr>bf_late_source_success_terminal := Some e\<rparr>) b)"

definition drain_failed :: "transfer_end \<Rightarrow> bridge \<Rightarrow> bridge" where
  "drain_failed e b =
     (if bg_drain_future b \<noteq> Pending then source_error b
      else publish_bridge (cancel_relay ((upd_facts (\<lambda>f. f\<lparr>bf_source_drain_failure := Some e,
             bf_destination_failure_terminal := (if bf_destination_issued f then Some e else bf_destination_failure_terminal f),
             bf_activity := True\<rparr>) b)
           \<lparr>bg_authoritative := Some e, bg_abort := True, bg_drain_future := Result e\<rparr>)))"

definition source_failed :: "transfer_end \<Rightarrow> bridge \<Rightarrow> bridge" where
  "source_failed e b =
     (let c = (upd_facts (\<lambda>f. f
                \<lparr>bf_destination_failure_terminal := (if bf_destination_issued f then Some e else bf_destination_failure_terminal f),
                 bf_source_end := Some e, bf_activity := True\<rparr>) b)
              \<lparr>bg_authoritative := Some e, bg_abort := True, bg_state := SourceEnded, bg_source_end_future := Result e,
               bg_source_begin_future := (if bg_source_begin_future b = Pending then Result (BeginEnd e)
                 else bg_source_begin_future b)\<rparr>;
          d = cancel_relay c
      in publish_bridge (if bf_destination_issued (bg_facts d) then d else cancel_worker d))"

definition source_succeeded :: "transfer_end \<Rightarrow> bridge \<Rightarrow> bridge" where
  "source_succeeded e b =
     (let c = (upd_facts (\<lambda>f. f\<lparr>bf_source_end := Some e, bf_activity := True\<rparr>) b)
              \<lparr>bg_state := SourceEnded, bg_source_end_future := Result e\<rparr>
      in if bg_abort c then c else c\<lparr>bg_put := Putting None\<rparr>)"

definition handle_source_end :: "(nat list \<Rightarrow> ustr) \<Rightarrow> transfer_end \<Rightarrow> bridge \<Rightarrow> bridge" where
  "handle_source_end sha256 e b =
     (let f = bg_facts b
      in if te_ack e
         then (if (case bf_source_failure_terminal f of None \<Rightarrow> True | Some t \<Rightarrow> e \<noteq> t\<lparr>te_ack := True\<rparr>) \<or>
                  bf_source_ack_future f \<noteq> Some Pending
               then source_error b
               else upd_facts (\<lambda>f. f\<lparr>bf_source_ack_future := Some (Result e), bf_activity := True\<rparr>) b)
         else if bg_abort b \<and> bf_source_end f = None \<and> bf_source_ready_issued f \<and> \<not> bf_destination_terminal_issued f \<and> te_ok e
         then late_source_success sha256 e b
         else if bf_destination_terminal_issued f \<and> is_sender_timeout e then source_timeout b
         else if is_sender_timeout e \<and> (case bf_source_end f of None \<Rightarrow> False | Some s \<Rightarrow> te_ok s) \<and> bg_state b = SourceEnded
         then drain_failed e b
         else if te_ok e \<and> bg_state b \<notin> {BridgeReady, Streaming} then source_error b
         else if te_ok e \<and> (te_bytes_sent e \<noteq> Some (bf_bytes_received f) \<or> te_sha256 e \<noteq> Some (sha256 (bf_digest f)) \<or>
                 declared b \<noteq> Some (bf_bytes_received f))
         then source_error (abort_bridge (bridge_error_code IntegrityErr) IntegrityErr False b)
         else if \<not> te_ok e \<and> bg_state b \<notin> {SourceRequested, SourceBegun, DestinationBegun, BridgeReady, Streaming}
         then source_error b
         else if bf_source_end f \<noteq> None then source_error b
         else if te_ok e then source_succeeded e b
         else source_failed e b)"

section \<open>Frames of the destination\<close>

definition handle_ready :: "bridge \<Rightarrow> bridge" where
  "handle_ready b =
     (if bg_state b \<noteq> DestinationBegun \<or> bg_ready_future b \<noteq> Pending then destination_error b
      else (upd_facts (\<lambda>f. f\<lparr>bf_activity := True\<rparr>) b)\<lparr>bg_ready_future := Result ReadyFrame\<rparr>)"

definition destination_failed :: "transfer_end \<Rightarrow> bridge \<Rightarrow> bridge" where
  "destination_failed e b =
     (let c = (upd_facts (\<lambda>f. f\<lparr>bf_destination_failure := Some e, bf_source_failure_terminal := Some e\<rparr>) b)
              \<lparr>bg_authoritative := Some e, bg_abort := True\<rparr>
      in if bg_failure_future c \<noteq> Pending then destination_error c
         else publish_bridge (cancel_relay ((upd_facts (\<lambda>f. f\<lparr>bf_activity := True\<rparr>) c)
                \<lparr>bg_failure_future := Result e,
                 bg_ready_future := (if bg_state c = DestinationBegun \<and> bg_ready_future c = Pending
                   then Result (ReadyEnd e) else bg_ready_future c)\<rparr>)))"

definition failure_acknowledged :: "transfer_end \<Rightarrow> transfer_end \<Rightarrow> bridge \<Rightarrow> bridge" where
  "failure_acknowledged failure e b =
     (if e \<noteq> failure\<lparr>te_ack := True\<rparr> \<or> bf_destination_ack_future (bg_facts b) \<noteq> Some Pending then destination_error b
      else upd_facts (\<lambda>f. f\<lparr>bf_destination_ack := Some e, bf_destination_ack_future := Some (Result e), bf_activity := True\<rparr>) b)"

definition ack_mismatch :: "(nat list \<Rightarrow> ustr) \<Rightarrow> transfer_end \<Rightarrow> bridge \<Rightarrow> bool" where
  "ack_mismatch sha256 e b \<longleftrightarrow>
     te_bytes_sent e \<noteq> Some (bf_bytes_received (bg_facts b)) \<or> te_sha256 e \<noteq> Some (sha256 (bf_digest (bg_facts b))) \<or>
     (if bg_directory_child b then te_etag e = None \<or> te_created e \<noteq> Some True
      else te_etag e \<noteq> None \<or> te_created e \<noteq> None)"

definition destination_acked :: "transfer_end \<Rightarrow> bridge \<Rightarrow> bridge" where
  "destination_acked e b =
     (if bf_destination_ack (bg_facts b) \<noteq> None then destination_error b
      else upd_facts (\<lambda>f. f\<lparr>bf_destination_ack := Some e,
             bf_destination_committed := bf_destination_committed f \<or> te_ok e,
             bf_source_resolution := (if bf_source_resolution f = ResolutionOpen then DestinationAck else bf_source_resolution f),
             bf_destination_ack_future := (if bf_destination_ack_future f = Some Pending then Some (Result e)
               else bf_destination_ack_future f)\<rparr>) b)"

definition handle_destination_end :: "(nat list \<Rightarrow> ustr) \<Rightarrow> transfer_end \<Rightarrow> bridge \<Rightarrow> bridge" where
  "handle_destination_end sha256 e b =
     (let f = bg_facts b
      in if \<not> te_ack e
         then (if te_ok e \<or> bg_state b \<notin> {DestinationBegun, BridgeReady, Streaming, SourceEnded} then destination_error b
               else destination_failed e b)
         else (case bf_destination_failure_terminal f of
             Some failure \<Rightarrow>
               if \<not> bf_destination_terminal_issued f then failure_acknowledged failure e b
               else if te_ok e \<and> ack_mismatch sha256 e b then destination_error b else destination_acked e b
           | None \<Rightarrow>
               if \<not> bf_destination_terminal_issued f then destination_error b
               else if te_ok e \<and> ack_mismatch sha256 e b then destination_error b else destination_acked e b))"

text \<open>
  The tombstone of an endpoint, once it is published, takes its frames. It passes on an expected
  acknowledgement (\<open>complete_ack_future\<close>).
\<close>

definition tombstone :: "bridge_role \<Rightarrow> bridge \<Rightarrow> transfer_end list option" where
  "tombstone role b = (if role = SourceRole then bg_source_tombstone b else bg_destination_tombstone b)"

definition takes_frames :: "bridge_role \<Rightarrow> bridge \<Rightarrow> bool" where
  "takes_frames role b \<longleftrightarrow> bg_registered b \<and> tombstone role b = None \<and>
     (if role = SourceRole then \<not> bg_source_closed b \<and> bg_put b = NoPut else \<not> bg_destination_closed b)"

section \<open>Steps\<close>

datatype bridge_frame = FrameBegin transfer_begin | FrameReady | FrameProgress bool nat | FrameEnd transfer_end

definition handle_bridge_frame :: "(nat list \<Rightarrow> ustr) \<Rightarrow> bridge_role \<Rightarrow> bridge_frame \<Rightarrow> bridge \<Rightarrow> bridge" where
  "handle_bridge_frame sha256 role frame b =
     (if role = SourceRole
      then (if bg_source_fenced b then source_error b
            else case frame of
                FrameBegin t \<Rightarrow> handle_source_begin t b
              | FrameReady \<Rightarrow> source_error b
              | FrameProgress forwarded n \<Rightarrow> handle_progress forwarded n b
              | FrameEnd e \<Rightarrow> handle_source_end sha256 e b)
      else (if bg_destination_fenced b then destination_error b
            else case frame of
                FrameReady \<Rightarrow> handle_ready b
              | FrameEnd e \<Rightarrow> handle_destination_end sha256 e b
              | _ \<Rightarrow> destination_error b))"

definition handle_bridge_binary :: "bridge_role \<Rightarrow> nat list \<Rightarrow> bridge \<Rightarrow> bridge" where
  "handle_bridge_binary role chunk b = (if role = SourceRole then handle_binary chunk b else destination_error b)"

text \<open>The relay takes a chunk, and has sent it. A send that fails may have issued the chunk.\<close>

definition relay_get :: "bridge \<Rightarrow> bridge" where
  "relay_get b =
     (case bg_queue b of
        [] \<Rightarrow> b
      | None # rest \<Rightarrow> b\<lparr>bg_queue := rest, bg_relay := RelayDone\<rparr>
      | Some chunk # rest \<Rightarrow> b\<lparr>bg_queue := rest, bg_relay := RelaySend chunk\<rparr>)"

definition relay_sent :: "nat list \<Rightarrow> bridge \<Rightarrow> bridge" where
  "relay_sent chunk b =
     (upd_facts (\<lambda>f. f\<lparr>bf_activity := True\<rparr>) b)
       \<lparr>bg_sent := bg_sent b @ [SentChunk chunk], bg_bytes_forwarded := bg_bytes_forwarded b + length chunk,
        bg_relay := RelayGet\<rparr>"

definition relay_stopped :: "relay_phase \<Rightarrow> bool \<Rightarrow> bridge \<Rightarrow> bridge" where
  "relay_stopped how issued b =
     b\<lparr>bg_relay := how, bg_relay_cancel := False,
       bg_sent := (case bg_relay b of
         RelaySend chunk \<Rightarrow> if issued then bg_sent b @ [SentChunk chunk] else bg_sent b | _ \<Rightarrow> bg_sent b)\<rparr>"

text \<open>Where a task sends, or may still send, the failure of the other side.\<close>

definition sends_failure :: "bridge_role \<Rightarrow> transfer_end \<Rightarrow> bridge \<Rightarrow> bool" where
  "sends_failure role e b \<longleftrightarrow>
     (role = SourceRole \<and> bg_worker b = RejectSend e) \<or> (role = DestinationRole \<and> bg_worker b = FailSend e) \<or>
     (\<exists>failure. bg_finish b = AbortAuthoritative failure \<and>
        (if bf_destination_failure (bg_facts b) = Some failure
         then role = SourceRole \<and> bf_source_issued (bg_facts b) \<and> bf_source_failure_terminal (bg_facts b) = Some e
         else role = DestinationRole \<and> bf_destination_issued (bg_facts b) \<and>
              bf_destination_failure_terminal (bg_facts b) = Some e)) \<or>
     (\<exists>code error. bg_finish b = AbortSend code error \<and> e = abort_terminal code b \<and>
        (if role = SourceRole then bf_source_issued (bg_facts b)
         else bf_destination_issued (bg_facts b) \<and> \<not> bf_destination_terminal_issued (bg_facts b)))"

text \<open>
  The sends of the worker with what they need to succeed: the frame has been issued.
\<close>

fun send_succeeded :: "(nat list \<Rightarrow> ustr) \<Rightarrow> bridge \<Rightarrow> bridge option" where
  "send_succeeded sha256 b =
     (case bg_worker b of
        SendRequest \<Rightarrow> if bf_source_issued (bg_facts b) then Some (b\<lparr>bg_worker := Waiting StageBegin\<rparr>) else None
      | SendBegin t \<Rightarrow> if bf_destination_issued (bg_facts b) then Some (b\<lparr>bg_worker := Waiting StageReady\<rparr>) else None
      | SendReady \<Rightarrow> if bf_source_ready_issued (bg_facts b) then Some (b\<lparr>bg_worker := Waiting StageEnd\<rparr>) else None
      | SendTerminal e \<Rightarrow> if bf_destination_terminal_issued (bg_facts b) then Some (b\<lparr>bg_worker := AwaitAck\<rparr>) else None
      | SendSourceAck ack \<Rightarrow> Some (source_ack_sent sha256 True ack b)
      | RejectSend failure \<Rightarrow>
          if bf_source_failure_issued (bg_facts b) then Some (b\<lparr>bg_worker := Waiting (StageSourceAck failure)\<rparr>) else None
      | FailSend failure \<Rightarrow>
          if bf_destination_failure_issued (bg_facts b) then Some (b\<lparr>bg_worker := Waiting (StageDestinationAck failure)\<rparr>) else None
      | RejectAck failure ack \<Rightarrow>
          Some ((complete_bridge (Inl (rejected failure)) (b\<lparr>bg_sent := bg_sent b @ [SentEnd ack]\<rparr>))\<lparr>bg_worker := Finishing\<rparr>)
      | FailAck failure ack \<Rightarrow> Some ((complete_bridge (Inl (rejected failure)) b)\<lparr>bg_worker := Finishing\<rparr>)
      | _ \<Rightarrow> None)"

text \<open>A send that reports that the connection is gone.\<close>

fun send_refused :: "(nat list \<Rightarrow> ustr) \<Rightarrow> bridge \<Rightarrow> bridge option" where
  "send_refused sha256 b =
     (case bg_worker b of
        SendRequest \<Rightarrow> Some (worker_error UnavailableErr b)
      | SendSourceAck ack \<Rightarrow> Some (source_ack_sent sha256 False ack b)
      | SendBegin t \<Rightarrow> Some (worker_error DisconnectedErr b)
      | SendReady \<Rightarrow> Some (worker_error DisconnectedErr b)
      | SendTerminal e \<Rightarrow> Some (worker_error DisconnectedErr b)
      | RejectSend failure \<Rightarrow> Some (worker_error DisconnectedErr b)
      | FailSend failure \<Rightarrow> Some (worker_error DisconnectedErr b)
      | RejectAck failure ack \<Rightarrow> Some (worker_error DisconnectedErr b)
      | FailAck failure ack \<Rightarrow> Some (worker_error DisconnectedErr b)
      | _ \<Rightarrow> None)"

definition sending :: "worker_phase \<Rightarrow> bool" where
  "sending p =
     (case p of SendRequest \<Rightarrow> True | SendBegin t \<Rightarrow> True | SendReady \<Rightarrow> True | SendTerminal e \<Rightarrow> True
      | SendSourceAck a \<Rightarrow> True | RejectSend e \<Rightarrow> True | FailSend e \<Rightarrow> True | RejectAck e a \<Rightarrow> True | FailAck e a \<Rightarrow> True
      | _ \<Rightarrow> False)"

text \<open>\<open>_send_bridge_abort_and_wait_for_acks\<close> is confirmed only by the acknowledgements of all devices that know of the transfer.\<close>

definition abort_confirmed :: "ustr \<Rightarrow> bridge \<Rightarrow> bool" where
  "abort_confirmed code b \<longleftrightarrow>
     (let f = bg_facts b
      in code = TRANSFER_TIMEOUT_CODE \<and>
         (bf_source_issued f \<longrightarrow> bf_source_failure_issued f \<and> ack_result (bf_source_ack_future f) \<noteq> None) \<and>
         (bf_destination_issued f \<and> \<not> bf_destination_terminal_issued f \<longrightarrow>
            bf_destination_failure_issued f \<and> ack_result (bf_destination_ack_future f) \<noteq> None))"

text \<open>All interleavings of the tasks, the frames of both devices, and what the connections do.\<close>

inductive bridge_step :: "(nat list \<Rightarrow> ustr) \<Rightarrow> bridge \<Rightarrow> bridge \<Rightarrow> bool" for sha256 where
  request_issue: "bg_worker b = SendRequest \<Longrightarrow> bridge_step sha256 b (request_issued b)"
| begin_issue: "bg_worker b = SendBegin t \<Longrightarrow> \<not> bf_destination_issued (bg_facts b) \<Longrightarrow> bridge_step sha256 b (begin_issued b)"
| ready_issue: "bg_worker b = SendReady \<Longrightarrow> \<not> bf_source_ready_issued (bg_facts b) \<Longrightarrow> bridge_step sha256 b (ready_issued b)"
| terminal_issue: "bg_worker b = SendTerminal e \<Longrightarrow> \<not> bf_destination_terminal_issued (bg_facts b) \<Longrightarrow>
    bridge_step sha256 b (terminal_issued e b)"
| failure_issue: "sends_failure role e b \<Longrightarrow> bridge_step sha256 b (failure_issued role e b)"
| send_success: "send_succeeded sha256 b = Some c \<Longrightarrow> bridge_step sha256 b c"
| send_refusal: "send_refused sha256 b = Some c \<Longrightarrow> bridge_step sha256 b c"
| send_exception: "sending (bg_worker b) \<Longrightarrow> bridge_step sha256 b (worker_error DisconnectedErr b)"
| stage_wake: "bg_worker b = Waiting st \<Longrightarrow> first_done (stage_futures st b) = Some r \<Longrightarrow>
    bridge_step sha256 b (b\<lparr>bg_worker := Resuming st r\<rparr>)"
| stage_timeout: "bg_worker b = Waiting st \<Longrightarrow> bridge_step sha256 b (worker_error StageTimeout b)"
| stage_continue: "bg_worker b = Resuming st r \<Longrightarrow> bridge_step sha256 b (stage_resume st r b)"
| ack_wake: "bg_worker b = AwaitAck \<Longrightarrow> bf_destination_ack_future (bg_facts b) = Some (Result ack) \<Longrightarrow>
    bridge_step sha256 b (ack_received sha256 ack b)"
| ack_timeout: "bg_worker b = AwaitAck \<Longrightarrow> bridge_step sha256 b (worker_raise StageTimeout b)"
| delete_end: "bg_worker b = DeleteSource ack \<Longrightarrow> bridge_step sha256 b (source_deleted sha256 ok ack b)"
| worker_interrupt: "bg_worker_cancel b \<Longrightarrow> bg_worker b \<notin> {Finishing, WorkerDone} \<Longrightarrow> bridge_step sha256 b (worker_cancel b)"
| worker_end: "bg_worker b = Finishing \<Longrightarrow> bg_finish b = FinishDone \<Longrightarrow> bridge_step sha256 b (b\<lparr>bg_worker := WorkerDone\<rparr>)"
| relay_take: "bg_relay b = RelayGet \<Longrightarrow> bridge_step sha256 b (relay_get b)"
| relay_send_end: "bg_relay b = RelaySend chunk \<Longrightarrow> bridge_step sha256 b (relay_sent chunk b)"
| relay_failure: "relay_running b \<Longrightarrow> bridge_step sha256 b (relay_stopped (RelayFailed error) issued b)"
| relay_interrupt: "relay_running b \<Longrightarrow> bg_relay_cancel b \<Longrightarrow> bridge_step sha256 b (relay_stopped RelayCancelled issued b)"
| frame: "takes_frames role b \<Longrightarrow> bridge_step sha256 b (handle_bridge_frame sha256 role fr b)"
| binary: "takes_frames role b \<Longrightarrow> bridge_step sha256 b (handle_bridge_binary role chunk b)"
| late_ack: "bg_registered b \<Longrightarrow> tombstone role b = Some expected \<Longrightarrow> e \<in> set expected \<Longrightarrow> te_ack e \<Longrightarrow>
    bridge_step sha256 b (upd_facts (complete_ack_future role e) b)"
| put_end: "bg_put b = Putting item \<Longrightarrow> length (bg_queue b) < TRANSFER_QUEUE_CHUNKS \<Longrightarrow>
    bridge_step sha256 b (b\<lparr>bg_queue := bg_queue b @ [item], bg_put := NoPut\<rparr>)"
| put_abort: "bg_put b = Putting item \<Longrightarrow> bg_abort b \<Longrightarrow> bridge_step sha256 b (b\<lparr>bg_put := NoPut\<rparr>)"
| put_timeout: "bg_put b = Putting item \<Longrightarrow> bridge_step sha256 b (source_error (b\<lparr>bg_put := NoPut\<rparr>))"
| timeout_ack_end: "bf_timeout_ack_in_flight (bg_facts b) \<Longrightarrow> bridge_step sha256 b (timeout_ack_done delivered b)"
| fence: "bg_registered b \<Longrightarrow> bridge_step sha256 b (fence_bridge role b)"
| disconnect: "bg_registered b \<Longrightarrow> bridge_step sha256 b (disconnect_bridge code b)"
| caller_cancel: "bridge_step sha256 b (cancel_transfer b)"
| abort_run: "bg_finish b = AbortStart code error skip \<Longrightarrow> bridge_step sha256 b (abort_start sha256 code error skip b)"
| abort_told: "bg_finish b = AbortAuthoritative failure \<Longrightarrow>
    bridge_step sha256 b (b\<lparr>bg_state := Aborted, bg_finish := FinishStart (Inl (rejected failure))\<rparr>)"
| abort_ack: "bg_finish b = AbortAuthoritative failure \<Longrightarrow> bf_destination_failure (bg_facts b) = Some failure \<Longrightarrow>
    bridge_step sha256 b (b\<lparr>bg_sent := bg_sent b @ [SentEnd (failure\<lparr>te_ack := True\<rparr>)]\<rparr>)"
| abort_worker: "bg_finish b = AbortJoinWorker code error skip \<Longrightarrow> skip \<or> bg_worker b = WorkerDone \<Longrightarrow>
    bridge_step sha256 b ((cancel_relay b)\<lparr>bg_finish := AbortJoinRelay code error\<rparr>)"
| abort_relay: "bg_finish b = AbortJoinRelay code error \<Longrightarrow> \<not> relay_running b \<Longrightarrow>
    bridge_step sha256 b (b\<lparr>bg_finish := AbortSend code error\<rparr>)"
| abort_sent: "bg_finish b = AbortSend code error \<Longrightarrow> confirmed \<longrightarrow> abort_confirmed code b \<Longrightarrow>
    bridge_step sha256 b (b\<lparr>bg_state := Aborted, bg_finish := FinishStart (Inl (abort_final_error code error confirmed b))\<rparr>)"
| finish_run: "bg_finish b = FinishStart outcome \<Longrightarrow> bridge_step sha256 b (finish_start outcome b)"
| finish_joined: "bg_finish b = FinishJoin outcome \<Longrightarrow> \<not> relay_running b \<Longrightarrow> \<not> bf_timeout_ack_in_flight (bg_facts b) \<Longrightarrow>
    bridge_step sha256 b (finish_table outcome b)"
| finish_end: "bg_finish b = FinishLease outcome \<Longrightarrow> bridge_step sha256 b (finish_complete outcome b)"

end
