(* ===== verification/Bridge_Stream.thy ===== *)
theory Bridge_Stream
  imports Transfer_Bridge
begin

text \<open>
  The invariant of a relayed transfer, and that every step keeps the part about the stream: the start of
  the transfer, the flow of the chunks from the source handler through the queue and the relay to the
  destination, and the log of what was sent.

  Most operations touch neither the stream nor the acknowledgement of the destination; \<open>still\<close> and
  \<open>quiet\<close> say so, and the case rule \<open>step_stream_cases\<close> names the others.
\<close>

section \<open>The invariant\<close>

fun sent_bytes :: "sent_item list \<Rightarrow> nat list" where
  "sent_bytes [] = []"
| "sent_bytes (SentChunk c # xs) = c @ sent_bytes xs"
| "sent_bytes (SentEnd e # xs) = sent_bytes xs"
| "sent_bytes (SentProgress n # xs) = sent_bytes xs"

lemma sent_bytes_append [simp]: "sent_bytes (xs @ ys) = sent_bytes xs @ sent_bytes ys"
  by (induction xs rule: sent_bytes.induct) auto

definition chunk_bytes :: "nat list option \<Rightarrow> nat list" where
  "chunk_bytes i = (case i of None \<Rightarrow> [] | Some c \<Rightarrow> c)"

lemma chunk_bytes_simps [simp]: "chunk_bytes None = []" "chunk_bytes (Some c) = c"
  by (simp_all add: chunk_bytes_def)

fun put_items :: "put_phase \<Rightarrow> nat list option list" where
  "put_items NoPut = []"
| "put_items (Putting i) = [i]"

fun relay_bytes :: "relay_phase \<Rightarrow> nat list" where
  "relay_bytes (RelaySend c) = c"
| "relay_bytes p = []"

fun relay_ok :: "relay_phase \<Rightarrow> bool" where
  "relay_ok (RelayFailed e) = False"
| "relay_ok RelayCancelled = False"
| "relay_ok p = True"

text \<open>What is between the source handler and the relay, and all bytes on their way.\<close>

definition pipeline :: "bridge \<Rightarrow> nat list option list" where
  "pipeline b = bg_queue b @ put_items (bg_put b)"

definition in_transit :: "bridge \<Rightarrow> nat list" where
  "in_transit b = sent_bytes (bg_sent b) @ relay_bytes (bg_relay b) @ concat (map chunk_bytes (pipeline b))"

abbreviation content :: "bridge \<Rightarrow> nat list" where
  "content b \<equiv> bf_digest (bg_facts b)"

definition source_matches :: "(nat list \<Rightarrow> ustr) \<Rightarrow> transfer_end \<Rightarrow> bridge \<Rightarrow> bool" where
  "source_matches sha256 e b \<longleftrightarrow>
     te_bytes_sent e = Some (length (content b)) \<and> te_sha256 e = Some (sha256 (content b)) \<and>
     declared b = Some (length (content b))"

fun early :: "worker_phase \<Rightarrow> bool" where
  "early SendRequest = True"
| "early (Waiting StageBegin) = True"
| "early (Resuming StageBegin r) = True"
| "early (SendBegin t) = True"
| "early (Waiting StageReady) = True"
| "early (Resuming StageReady r) = True"
| "early p = False"

text \<open>Before the source is told to start, nothing has been received and nothing has ended well.\<close>

definition start_ok :: "bridge \<Rightarrow> bool" where
  "start_ok b \<longleftrightarrow>
     bf_bytes_received (bg_facts b) = length (content b) \<and>
     (\<not> bf_source_ready_issued (bg_facts b) \<longrightarrow>
        bg_state b \<notin> {BridgeReady, Streaming} \<and> content b = [] \<and> pipeline b = [] \<and> sent_bytes (bg_sent b) = [] \<and>
        relay_bytes (bg_relay b) = [] \<and> bg_relay b \<noteq> RelayDone \<and>
        (\<forall>e. bf_source_end (bg_facts b) = Some e \<longrightarrow> \<not> te_ok e \<and> bg_abort b)) \<and>
     (bg_relay b = NoRelay \<longrightarrow> \<not> bf_source_ready_issued (bg_facts b)) \<and>
     (bg_state b = SourceRequested \<longrightarrow> bg_relay b = NoRelay \<and> \<not> bf_destination_issued (bg_facts b)) \<and>
     bg_source_end_future b = (case bf_source_end (bg_facts b) of None \<Rightarrow> Pending | Some e \<Rightarrow> Result e)"

text \<open>
  The pipeline carries the end of the stream last, and only after the source ended well. As long as nothing was lost, the bytes on
  their way are those received.
\<close>

definition flow_ok :: "(nat list \<Rightarrow> ustr) \<Rightarrow> bridge \<Rightarrow> bool" where
  "flow_ok sha256 b \<longleftrightarrow>
     (None \<in> set (pipeline b) \<or> bg_relay b = RelayDone \<longrightarrow>
        (\<exists>e. bf_source_end (bg_facts b) = Some e \<and> te_ok e) \<and> (relay_ok (bg_relay b) \<longrightarrow> in_transit b = content b)) \<and>
     None \<notin> set (butlast (pipeline b)) \<and>
     (bg_relay b = RelayDone \<longrightarrow> pipeline b = []) \<and>
     (\<forall>e. bf_source_end (bg_facts b) = Some e \<longrightarrow> te_ok e \<longrightarrow> source_matches sha256 e b) \<and>
     (relay_ok (bg_relay b) \<and> bf_source_end (bg_facts b) = None \<and> \<not> bg_abort b \<and> \<not> bg_source_closed b \<and> bg_registered b \<longrightarrow>
        in_transit b = content b)"

text \<open>What each phase of the worker relies on.\<close>

definition phase_ok :: "bridge \<Rightarrow> worker_phase \<Rightarrow> bool" where
  "phase_ok b p \<longleftrightarrow>
     (case p of
        SendRequest \<Rightarrow> \<not> bf_destination_issued (bg_facts b)
      | Waiting StageReady \<Rightarrow> bf_destination_issued (bg_facts b)
      | Resuming StageReady r \<Rightarrow> bf_destination_issued (bg_facts b)
      | Waiting (StageDrain e) \<Rightarrow> bf_source_end (bg_facts b) = Some e \<and> te_ok e
      | Resuming (StageDrain e) r \<Rightarrow> bf_source_end (bg_facts b) = Some e \<and> te_ok e \<and> (r = GotRelayDone \<longrightarrow> bg_relay b = RelayDone)
      | Resuming StageEnd (GotSourceEnd e) \<Rightarrow> bf_source_end (bg_facts b) = Some e
      | SendTerminal e \<Rightarrow> bf_source_end (bg_facts b) = Some e \<and> te_ok e \<and> bg_relay b = RelayDone
      | SendReady \<Rightarrow> bg_relay b \<noteq> NoRelay
      | AwaitAck \<Rightarrow> bf_destination_terminal_issued (bg_facts b)
      | SendSourceAck a \<Rightarrow> te_ok a \<longrightarrow> bf_destination_ack (bg_facts b) = Some a
      | DeleteSource a \<Rightarrow> te_ok a \<and> bf_destination_ack (bg_facts b) = Some a
      | _ \<Rightarrow> True)"

definition worker_ok :: "bridge \<Rightarrow> bool" where
  "worker_ok b \<longleftrightarrow>
     phase_ok b (bg_worker b) \<and> (early (bg_worker b) \<longrightarrow> bg_relay b = NoRelay) \<and>
     (bf_destination_terminal_issued (bg_facts b) \<longrightarrow> bg_relay b = RelayDone)"

text \<open>The terminals that report a failure are failures.\<close>

definition failures_ok :: "bridge \<Rightarrow> bool" where
  "failures_ok b \<longleftrightarrow>
     (\<forall>e. bf_destination_failure_terminal (bg_facts b) = Some e \<longrightarrow> \<not> te_ok e) \<and>
     (\<forall>e. bf_destination_failure (bg_facts b) = Some e \<longrightarrow> \<not> te_ok e) \<and>
     (\<forall>e. bg_source_begin_future b = Result (BeginEnd e) \<longrightarrow> \<not> te_ok e) \<and>
     (\<forall>e. bg_drain_future b = Result e \<longrightarrow> \<not> te_ok e)"

fun reported :: "bridge_stage \<Rightarrow> stage_result \<Rightarrow> transfer_end option" where
  "reported StageBegin (GotBegin (BeginEnd e)) = Some e"
| "reported StageReady (GotSourceEnd e) = Some e"
| "reported (StageDrain s) (GotDrainFailure e) = Some e"
| "reported st r = None"

definition failure_ok :: "bridge \<Rightarrow> bool" where
  "failure_ok b \<longleftrightarrow>
     failures_ok b \<and> (\<forall>st r e. bg_worker b = Resuming st r \<longrightarrow> reported st r = Some e \<longrightarrow> \<not> te_ok e)"

text \<open>A positive acknowledgement answers the terminal, and states the length and the digest of what was received.\<close>

definition acked :: "(nat list \<Rightarrow> ustr) \<Rightarrow> bridge \<Rightarrow> bool" where
  "acked sha256 b \<longleftrightarrow>
     bf_destination_terminal_issued (bg_facts b) \<and>
     (case bf_destination_ack (bg_facts b) of
        None \<Rightarrow> False
      | Some a \<Rightarrow> te_ok a \<and> te_bytes_sent a = Some (length (content b)) \<and> te_sha256 a = Some (sha256 (content b)))"

definition ack_ok :: "(nat list \<Rightarrow> ustr) \<Rightarrow> bridge \<Rightarrow> bool" where
  "ack_ok sha256 b \<longleftrightarrow>
     (\<forall>a. bf_destination_ack (bg_facts b) = Some a \<longrightarrow> te_ok a \<longrightarrow> acked sha256 b) \<and>
     (bf_destination_ack (bg_facts b) \<noteq> None \<longrightarrow> bf_destination_ack_future (bg_facts b) \<noteq> Some Pending) \<and>
     (\<forall>a. bf_destination_ack_future (bg_facts b) = Some (Result a) \<longrightarrow> te_ok a \<longrightarrow> bf_destination_ack (bg_facts b) = Some a) \<and>
     (\<forall>xs. bg_destination_tombstone b = Some xs \<longrightarrow>
        (\<forall>a\<in>set xs. te_ok a \<longrightarrow> bf_destination_ack (bg_facts b) = Some a))"

text \<open>The terminal follows exactly the content, and no chunk follows it.\<close>

definition delivered :: "nat list \<Rightarrow> transfer_end \<Rightarrow> sent_item list \<Rightarrow> bool" where
  "delivered bytes e xs \<longleftrightarrow>
     (\<exists>i<length xs. xs ! i = SentEnd e \<and> sent_bytes (take i xs) = bytes \<and> sent_bytes (drop i xs) = [])"

definition log_ok :: "bridge \<Rightarrow> bool" where
  "log_ok b \<longleftrightarrow>
     (bf_destination_terminal_issued (bg_facts b) \<longrightarrow>
        (\<exists>e. bf_source_end (bg_facts b) = Some e \<and> te_ok e \<and> delivered (content b) e (bg_sent b)))"

definition result_ok :: "(nat list \<Rightarrow> ustr) \<Rightarrow> bridge \<Rightarrow> transfer_result \<Rightarrow> bool" where
  "result_ok sha256 b r \<longleftrightarrow>
     acked sha256 b \<and> tr_bytes_transferred r = length (content b) \<and> tr_sha256 r = sha256 (content b)"

fun finish_result :: "finish_phase \<Rightarrow> transfer_result option" where
  "finish_result (FinishStart (Inr r)) = Some r"
| "finish_result (FinishJoin (Inr r)) = Some r"
| "finish_result (FinishLease (Inr r)) = Some r"
| "finish_result p = None"

definition outcome_ok :: "(nat list \<Rightarrow> ustr) \<Rightarrow> bridge \<Rightarrow> bool" where
  "outcome_ok sha256 b \<longleftrightarrow>
     (\<forall>r. finish_result (bg_finish b) = Some r \<longrightarrow> result_ok sha256 b r) \<and>
     (\<forall>r. bg_completion b = Result r \<longrightarrow> result_ok sha256 b r)"

definition deleting :: "worker_phase \<Rightarrow> bool" where
  "deleting p = (case p of DeleteSource a \<Rightarrow> True | Finishing \<Rightarrow> True | WorkerDone \<Rightarrow> True | _ \<Rightarrow> False)"

text \<open>The source is deleted once, for a move, with its fingerprint, after both acknowledgements.\<close>

definition delete_ok :: "(nat list \<Rightarrow> ustr) \<Rightarrow> bridge \<Rightarrow> bool" where
  "delete_ok sha256 b \<longleftrightarrow>
     bg_deletes b \<noteq> [] \<longrightarrow>
       bg_move b \<and> bg_source_ack_delivered b \<and> acked sha256 b \<and>
       bg_fingerprint b = Some (hd (bg_deletes b)) \<and> tl (bg_deletes b) = [] \<and>
       deleting (bg_worker b)"

definition bridge_inv :: "(nat list \<Rightarrow> ustr) \<Rightarrow> bridge \<Rightarrow> bool" where
  "bridge_inv sha256 b \<longleftrightarrow>
     start_ok b \<and> flow_ok sha256 b \<and> worker_ok b \<and> failure_ok b \<and> ack_ok sha256 b \<and> log_ok b \<and>
     outcome_ok sha256 b \<and> delete_ok sha256 b \<and> length (bg_queue b) \<le> TRANSFER_QUEUE_CHUNKS"

section \<open>What the operations leave alone\<close>

text \<open>Forms of the shared updates in which the conditions are at the fields.\<close>

lemma publish_bridge_upd:
  "publish_bridge b = b\<lparr>bg_published := True,
     bg_source_tombstone := (if \<not> bg_published b \<and> bf_source_issued (bg_facts b)
       then Some (expected_terminals (bg_facts b) SourceRole) else bg_source_tombstone b),
     bg_destination_tombstone := (if \<not> bg_published b \<and> bf_destination_issued (bg_facts b)
       then Some (expected_terminals (bg_facts b) DestinationRole) else bg_destination_tombstone b)\<rparr>"
  by (simp add: publish_bridge_def)

lemma cancel_relay_upd: "cancel_relay b = b\<lparr>bg_relay_cancel := relay_running b \<or> bg_relay_cancel b\<rparr>"
  by (simp add: cancel_relay_def)

lemma cancel_worker_upd: "cancel_worker b = b\<lparr>bg_worker_cancel := bg_worker b \<noteq> WorkerDone \<or> bg_worker_cancel b\<rparr>"
  by (simp add: cancel_worker_def)

lemma abort_bridge_upd:
  "abort_bridge code error skip b =
     b\<lparr>bg_finish := (if bg_finish b = NoFinish then AbortStart code error skip else bg_finish b)\<rparr>"
  by (simp add: abort_bridge_def)

lemma complete_bridge_upd:
  "complete_bridge outcome b = b\<lparr>bg_finish := (if bg_finish b = NoFinish then FinishStart outcome else bg_finish b)\<rparr>"
  by (simp add: complete_bridge_def)

lemmas small_updates = publish_bridge_upd cancel_relay_upd cancel_worker_upd abort_bridge_upd complete_bridge_upd
  source_error_def destination_error_def Let_def

lemmas failing_updates = worker_raise_def worker_cancelled_def worker_error_def worker_cancel_def
  resolve_source_failure_def resolve_destination_rejection_def

lemmas ending_updates = finish_after_timeout_def ack_received_def ack_chosen_def worker_success_def source_ack_sent_def
  source_deleted_def

lemmas abort_updates = fence_bridge_def disconnect_bridge_def cancel_transfer_def abort_start_def finish_start_def
  finish_complete_def

lemmas source_updates = handle_progress_def source_timeout_def timeout_ack_done_def late_source_success_def drain_failed_def

lemmas destination_updates = handle_ready_def destination_failed_def

text \<open>
  Most operations do not touch the stream (the chunks, what has been received, and the terminal) nor the
  acknowledgement of the destination.
\<close>

definition still :: "bridge \<Rightarrow> bridge \<Rightarrow> bool" where
  "still b c \<longleftrightarrow>
     bg_queue c = bg_queue b \<and> bg_put c = bg_put b \<and> bg_relay c = bg_relay b \<and>
     (\<exists>ys. bg_sent c = bg_sent b @ ys \<and> sent_bytes ys = []) \<and>
     bf_bytes_received (bg_facts c) = bf_bytes_received (bg_facts b) \<and> content c = content b \<and>
     bf_destination_issued (bg_facts c) = bf_destination_issued (bg_facts b) \<and>
     bf_source_ready_issued (bg_facts c) = bf_source_ready_issued (bg_facts b) \<and>
     bf_destination_terminal_issued (bg_facts c) = bf_destination_terminal_issued (bg_facts b) \<and>
     bf_source_end (bg_facts c) = bf_source_end (bg_facts b) \<and> bg_source_end_future c = bg_source_end_future b \<and>
     bg_source_begin c = bg_source_begin b \<and> bg_fingerprint c = bg_fingerprint b \<and> bg_move c = bg_move b \<and>
     (bg_abort b \<longrightarrow> bg_abort c) \<and> (bg_source_closed b \<longrightarrow> bg_source_closed c) \<and> (bg_registered c \<longrightarrow> bg_registered b) \<and>
     (bg_state c = bg_state b \<or> bg_state c \<notin> {BridgeReady, Streaming, SourceRequested})"

definition quiet :: "bridge \<Rightarrow> bridge \<Rightarrow> bool" where
  "quiet b c \<longleftrightarrow>
     still b c \<and> bf_destination_ack (bg_facts c) = bf_destination_ack (bg_facts b) \<and>
     bf_destination_ack_future (bg_facts c) = bf_destination_ack_future (bg_facts b) \<and>
     (bg_destination_tombstone c = bg_destination_tombstone b \<or>
      bg_destination_tombstone c = Some (expected_terminals (bg_facts c) DestinationRole))"

lemmas quiet_defs = quiet_def still_def

lemma quiet_refl [simp]: "quiet b b"
  by (simp add: quiet_defs)

lemma quiet_failing [simp]:
  "quiet b (worker_raise e b)" "quiet b (worker_error e b)" "quiet b (worker_cancel b)"
  "quiet b (resolve_source_failure f b)" "quiet b (resolve_destination_rejection f b)"
  by (simp_all add: quiet_defs failing_updates small_updates split: option.split)

lemma quiet_ending [simp]:
  "quiet b (ack_received sha256 ack b)" "quiet b (source_ack_sent sha256 d ack b)" "quiet b (source_deleted sha256 ok ack b)"
  by (simp_all add: quiet_defs ending_updates small_updates split: option.split)

lemma quiet_resume:
  "st \<noteq> StageReady \<or> r \<noteq> GotReady ReadyFrame \<Longrightarrow> quiet b (stage_resume st r b)"
  by (induction st r b rule: stage_resume.induct) (simp_all add: quiet_defs failing_updates small_updates split: py_future.split option.split)

lemma quiet_source [simp]:
  "quiet b (source_error b)" "quiet b (handle_progress forwarded n b)" "quiet b (source_timeout b)"
  "quiet b (timeout_ack_done d b)" "quiet b (late_source_success sha256 e b)" "quiet b (drain_failed e b)"
  "quiet b (source_error (abort_bridge code err skip b))"
  by (simp_all add: quiet_defs source_updates small_updates)

lemma quiet_destination [simp]:
  "quiet b (destination_error b)" "quiet b (handle_ready b)" "quiet b (destination_failed e b)"
  by (simp_all add: quiet_defs destination_updates small_updates)

lemma quiet_abort [simp]:
  "quiet b (fence_bridge role b)" "quiet b (disconnect_bridge code b)" "quiet b (cancel_transfer b)"
  "quiet b (abort_start sha256 code e skip b)" "quiet b (finish_start outcome b)" "quiet b (finish_complete outcome b)"
  by (simp_all add: quiet_defs abort_updates small_updates split: option.split)

lemma quiet_issue [simp]: "quiet b (failure_issued role e b)"
  by (simp add: quiet_defs failure_issued_def)

lemma quiet_worker [simp]: "quiet b (b\<lparr>bg_worker := p\<rparr>)"
  by (simp add: quiet_defs)

lemma quiet_reject_ack [simp]:
  "quiet b (complete_bridge outcome b\<lparr>bg_worker := p\<rparr>)"
  "quiet b (complete_bridge outcome (b\<lparr>bg_sent := bg_sent b @ [SentEnd ack]\<rparr>)\<lparr>bg_worker := p\<rparr>)"
  by (simp_all add: quiet_defs complete_bridge_upd)

lemma quiet_send:
  "send_refused sha256 b = Some c \<Longrightarrow> quiet b c"
  "send_succeeded sha256 b = Some c \<Longrightarrow> quiet b c"
  by (auto split: worker_phase.splits if_splits)

lemma quiet_phases [simp]:
  "quiet b (b\<lparr>bg_finish := p\<rparr>)"
  "quiet b (b\<lparr>bg_state := Aborted, bg_finish := p\<rparr>)"
  "quiet b (b\<lparr>bg_sent := bg_sent b @ [SentEnd e]\<rparr>)"
  "quiet b (cancel_relay b\<lparr>bg_finish := p\<rparr>)"
  by (simp_all add: quiet_defs cancel_relay_upd)

lemma is_sender_timeout_failure: "is_sender_timeout e \<Longrightarrow> \<not> te_ok e"
  unfolding is_sender_timeout_def by (metis transfer_end.select_convs(3))


lemma quiet_ack_future [simp]:
  "quiet b (upd_facts (\<lambda>f. f\<lparr>bf_source_ack_future := x, bf_activity := True\<rparr>) b)"
  by (simp add: quiet_defs)

lemmas quiet_source_end = quiet_refl quiet_source quiet_ack_future

lemma handle_source_end_cases:
  obtains (quiet) "quiet b (handle_source_end sha256 e b)"
  | (failed) "handle_source_end sha256 e b = source_failed e b" "\<not> te_ok e" "bf_source_end (bg_facts b) = None"
      "bg_state b \<in> {SourceRequested, SourceBegun, DestinationBegun, BridgeReady, Streaming}"
  | (succeeded) "handle_source_end sha256 e b = source_succeeded e b" "te_ok e" "bf_source_end (bg_facts b) = None"
      "bg_state b \<in> {BridgeReady, Streaming}" "te_bytes_sent e = Some (bf_bytes_received (bg_facts b))"
      "te_sha256 e = Some (sha256 (content b))" "declared b = Some (bf_bytes_received (bg_facts b))"
      "\<not> (bg_abort b \<and> bf_source_ready_issued (bg_facts b) \<and> \<not> bf_destination_terminal_issued (bg_facts b))"
proof -
  obtain h where h: "handle_source_end sha256 e b = h" by simp
  from h show thesis
    unfolding handle_source_end_def Let_def
    apply (simp only: split: if_split_asm)
    apply (elim disjE conjE)
    apply (fold h)
    apply (rule quiet, erule subst, simp only: quiet_source_end; fail)+
    apply (rule succeeded, erule sym; blast)
    apply (rule failed, erule sym; blast)
    done
qed

lemma quiet_late_binary [simp]:
  "quiet b (upd_facts (\<lambda>f. f\<lparr>bf_late_binary_bytes := x, bf_late_binary_digest := y\<rparr>) b)"
  by (simp add: quiet_defs)

lemma handle_binary_cases:
  obtains (quiet) "quiet b (handle_binary chunk b)"
  | (taken) "\<not> bg_abort b" "bg_state b \<in> {BridgeReady, Streaming}" "bf_source_end (bg_facts b) = None"
      "handle_binary chunk b = (upd_facts (\<lambda>f. f\<lparr>bf_bytes_received := bf_bytes_received f + length chunk,
         bf_digest := bf_digest f @ chunk\<rparr>) b)\<lparr>bg_state := Streaming, bg_put := Putting (Some chunk)\<rparr>"
proof -
  obtain h where h: "handle_binary chunk b = h" by simp
  from h show thesis
    unfolding handle_binary_def Let_def bridge_stopping_def
    apply (simp only: split: if_split_asm)
    apply (elim disjE conjE)
    apply (fold h)
    apply (rule quiet, erule subst, simp only: quiet_refl quiet_source quiet_late_binary; fail)+
    apply (rule taken, blast+, erule sym)
    done
qed

lemma handle_destination_end_cases:
  obtains (quiet) "quiet b (handle_destination_end sha256 e b)"
  | (failure_acked) failure where "bf_destination_failure_terminal (bg_facts b) = Some failure"
      "bf_destination_ack_future (bg_facts b) = Some Pending" "\<not> bf_destination_terminal_issued (bg_facts b)"
      "e = failure\<lparr>te_ack := True\<rparr>"
      "handle_destination_end sha256 e b = upd_facts (\<lambda>f. f\<lparr>bf_destination_ack := Some e,
         bf_destination_ack_future := Some (Result e), bf_activity := True\<rparr>) b"
  | (acked) "bf_destination_terminal_issued (bg_facts b)" "te_ok e \<Longrightarrow> \<not> ack_mismatch sha256 e b"
      "bf_destination_ack (bg_facts b) = None" "handle_destination_end sha256 e b = destination_acked e b"
proof (cases "te_ack e")
  case False
  then show thesis by (intro quiet) (simp add: handle_destination_end_def)
next
  case ack: True
  show thesis
  proof (cases "bf_destination_terminal_issued (bg_facts b)")
    case True
    then have h: "handle_destination_end sha256 e b =
        (if te_ok e \<and> ack_mismatch sha256 e b then destination_error b else destination_acked e b)"
      using ack by (simp add: handle_destination_end_def Let_def split: option.split)
    show thesis
    proof (cases "te_ok e \<and> ack_mismatch sha256 e b \<or> bf_destination_ack (bg_facts b) \<noteq> None")
      case bad: True
      then show thesis by (intro quiet) (auto simp: h destination_acked_def)
    next
      case False
      then show thesis by (intro acked) (use True h in auto)
    qed
  next
    case unissued: False
    show thesis
    proof (cases "bf_destination_failure_terminal (bg_facts b)")
      case None
      then show thesis by (intro quiet) (simp add: unissued ack handle_destination_end_def Let_def)
    next
      case (Some failure)
      then have h: "handle_destination_end sha256 e b = failure_acknowledged failure e b"
        using unissued ack by (simp add: handle_destination_end_def Let_def)
      show thesis
      proof (cases "e = failure\<lparr>te_ack := True\<rparr> \<and> bf_destination_ack_future (bg_facts b) = Some Pending")
        case True
        then show thesis by (intro failure_acked [OF Some]) (use unissued h in \<open>simp_all add: failure_acknowledged_def\<close>)
      next
        case False
        then show thesis by (intro quiet) (auto simp: h failure_acknowledged_def)
      qed
    qed
  qed
qed

text \<open>The steps that touch the stream.\<close>

lemma step_stream_cases:
  assumes "bridge_step sha256 b c"
  obtains (quiet) "quiet b c"
  | (request) "bg_worker b = SendRequest" "c = request_issued b"
  | (begins) t where "bg_worker b = SendBegin t" "c = begin_issued b"
  | (ready) "bg_worker b = SendReady" "c = ready_issued b"
  | (terminal) e where "bg_worker b = SendTerminal e" "\<not> bf_destination_terminal_issued (bg_facts b)" "c = terminal_issued e b"
  | (relay_start) "bg_worker b = Resuming StageReady (GotReady ReadyFrame)" "c = b\<lparr>bg_relay := RelayGet, bg_worker := SendReady\<rparr>"
  | (get) "bg_relay b = RelayGet" "c = relay_get b"
  | (chunk_sent) chunk where "bg_relay b = RelaySend chunk" "c = relay_sent chunk b"
  | (stopped) how issued where "relay_running b" "\<not> relay_ok how" "c = relay_stopped how issued b"
  | (source_begin) t where "bg_state b = SourceRequested" "c = handle_source_begin t b"
  | (chunk) chunk where "takes_frames SourceRole b" "c = handle_binary chunk b"
  | (failed) e where "\<not> te_ok e" "bf_source_end (bg_facts b) = None" "c = source_failed e b"
  | (succeeded) e where "takes_frames SourceRole b" "te_ok e" "bf_source_end (bg_facts b) = None"
      "bg_state b \<in> {BridgeReady, Streaming}" "te_bytes_sent e = Some (bf_bytes_received (bg_facts b))"
      "te_sha256 e = Some (sha256 (content b))" "declared b = Some (bf_bytes_received (bg_facts b))"
      "\<not> (bg_abort b \<and> bf_source_ready_issued (bg_facts b) \<and> \<not> bf_destination_terminal_issued (bg_facts b))"
      "c = source_succeeded e b"
  | (put) item where "bg_put b = Putting item" "length (bg_queue b) < TRANSFER_QUEUE_CHUNKS"
      "c = b\<lparr>bg_queue := bg_queue b @ [item], bg_put := NoPut\<rparr>"
  | (put_drop) item closed where "bg_put b = Putting item" "bg_abort b \<or> closed" "bg_source_closed b \<longrightarrow> closed"
      "c = b\<lparr>bg_put := NoPut, bg_source_closed := closed\<rparr>"
  | (destination_end) e where "takes_frames DestinationRole b" "c = handle_destination_end sha256 e b"
  | (late_acked) role expected e where "tombstone role b = Some expected" "e \<in> set expected" "te_ack e"
      "c = upd_facts (complete_ack_future role e) b"
  | (table) outcome where "\<not> relay_running b" "c = finish_table outcome b"
  using assms
proof (cases rule: bridge_step.cases)
  case (stage_continue st r)
  show thesis
  proof (cases "st = StageReady \<and> r = GotReady ReadyFrame")
    case True
    show thesis
    proof (cases "bg_failure_future b")
      case (Result e)
      then show thesis using True stage_continue(1) by (intro quiet) simp
    qed (use True stage_continue relay_start in simp_all)
  next
    case False
    then show thesis using stage_continue(1) quiet_resume quiet by blast
  qed
next
  case (frame role fr)
  show thesis
  proof (cases "role = SourceRole \<and> \<not> bg_source_fenced b")
    case True
    show thesis
    proof (cases fr)
      case (FrameBegin t)
      have c: "c = handle_source_begin t b" using True FrameBegin frame(1) by (simp add: handle_bridge_frame_def)
      show thesis
      proof (cases "bg_state b = SourceRequested")
        case False
        then show thesis using c quiet by (simp add: handle_source_begin_def)
      qed (use c source_begin in blast)
    next
      case (FrameEnd e)
      then have "c = handle_source_end sha256 e b" using True frame(1) by (simp add: handle_bridge_frame_def)
      then show thesis using True frame(2) quiet failed succeeded
        by (cases rule: handle_source_end_cases [of b sha256 e]) blast+
    qed (use True frame quiet in \<open>simp_all add: handle_bridge_frame_def\<close>)
  next
    case False
    show thesis
    proof (cases "\<exists>e. role = DestinationRole \<and> fr = FrameEnd e \<and> \<not> bg_destination_fenced b")
      case True
      then show thesis using frame destination_end by (auto simp: handle_bridge_frame_def)
    next
      case no_end: False
      then show thesis using False frame(1) quiet
        by (cases role; cases "bg_destination_fenced b"; cases fr) (simp_all add: handle_bridge_frame_def)
    qed
  qed
next
  case (binary role ch)
  show thesis
  proof (cases role)
    case SourceRole
    then show thesis using binary chunk by (simp add: handle_bridge_binary_def)
  next
    case DestinationRole
    then show thesis using binary(1) quiet by (simp add: handle_bridge_binary_def)
  qed
next
  case (put_abort item)
  then show thesis by (intro put_drop [of item "bg_source_closed b"]) simp_all
next
  case (put_timeout item)
  then show thesis by (intro put_drop [of item True]) (simp_all add: source_error_def)
next
  case request_issue
  then show thesis using request by blast
next
  case (begin_issue t)
  then show thesis using begins by blast
next
  case ready_issue
  then show thesis using ready by blast
next
  case (terminal_issue e)
  then show thesis using terminal by blast
next
  case relay_take
  then show thesis using get by blast
next
  case (relay_send_end ch)
  then show thesis using chunk_sent by blast
next
  case (relay_failure error issued)
  then show thesis using stopped [of "RelayFailed error"] by simp
next
  case (relay_interrupt issued)
  then show thesis using stopped [of RelayCancelled] by simp
next
  case (put_end item)
  then show thesis using put by blast
next
  case (finish_joined outcome)
  then show thesis using table by blast
next
  case (late_ack role expected e)
  then show thesis using late_acked by blast
next
  case send_success
  then show thesis using quiet quiet_send(2) by blast
next
  case send_refusal
  then show thesis using quiet quiet_send(1) by blast
qed (rule quiet, simp (no_asm_simp))+

section \<open>The stream\<close>

lemma still_same:
  assumes "still b c"
  shows "pipeline c = pipeline b" "in_transit c = in_transit b" "source_matches sha256 e c = source_matches sha256 e b"
    "content c = content b" "bg_relay c = bg_relay b" "bf_source_end (bg_facts c) = bf_source_end (bg_facts b)"
    "bg_source_end_future c = bg_source_end_future b" "sent_bytes (bg_sent c) = sent_bytes (bg_sent b)"
    "bf_bytes_received (bg_facts c) = bf_bytes_received (bg_facts b)"
    "bf_source_ready_issued (bg_facts c) = bf_source_ready_issued (bg_facts b)"
    "bf_destination_issued (bg_facts c) = bf_destination_issued (bg_facts b)"
    "bf_destination_terminal_issued (bg_facts c) = bf_destination_terminal_issued (bg_facts b)"
    "bg_fingerprint c = bg_fingerprint b" "bg_move c = bg_move b" "bg_queue c = bg_queue b"
proof -
  obtain ys where "bg_sent c = bg_sent b @ ys" "sent_bytes ys = []" using assms by (auto simp: still_def)
  then show sent: "sent_bytes (bg_sent c) = sent_bytes (bg_sent b)" by simp
  show "pipeline c = pipeline b" "in_transit c = in_transit b"
    using assms sent by (simp_all add: still_def pipeline_def in_transit_def)
qed (use assms in \<open>simp_all add: still_def source_matches_def declared_def\<close>)

lemma still_flags:
  assumes "still b c"
  shows "bg_abort b \<longrightarrow> bg_abort c" "bg_source_closed b \<longrightarrow> bg_source_closed c" "bg_registered c \<longrightarrow> bg_registered b"
    "bg_state c = bg_state b \<or> bg_state c \<notin> {BridgeReady, Streaming, SourceRequested}"
  using assms by (simp_all add: still_def)

lemma quiet_still: "quiet b c \<Longrightarrow> still b c"
  by (simp add: quiet_def)

lemma still_acks [simp]:
  "still b (handle_destination_end sha256 e b)" "still b (upd_facts (complete_ack_future role e) b)"
proof -
  show "still b (handle_destination_end sha256 e b)"
  proof (cases rule: handle_destination_end_cases [of b sha256 e])
    case quiet
    then show ?thesis by (rule quiet_still)
  qed (simp_all add: still_def destination_acked_def destination_error_def)
  show "still b (upd_facts (complete_ack_future role e) b)"
    by (simp add: still_def complete_ack_future_def)
qed

lemma start_still: "still b c \<Longrightarrow> start_ok b \<Longrightarrow> start_ok c"
  unfolding start_ok_def still_same using still_flags [of b c] by (auto split: option.split)

lemma flow_still: "still b c \<Longrightarrow> flow_ok sha256 b \<Longrightarrow> flow_ok sha256 c"
  unfolding flow_ok_def still_same using still_flags [of b c] by blast

lemma delivered_append:
  assumes "delivered bytes e xs" "sent_bytes ys = []"
  shows "delivered bytes e (xs @ ys)"
proof -
  obtain i where "i < length xs" "xs ! i = SentEnd e" "sent_bytes (take i xs) = bytes" "sent_bytes (drop i xs) = []"
    using assms(1) by (auto simp: delivered_def)
  then show ?thesis using assms(2) by (auto simp: delivered_def nth_append intro!: exI [of _ i])
qed

lemma delivered_snoc: "sent_bytes xs = bytes \<Longrightarrow> delivered bytes e (xs @ [SentEnd e])"
  by (auto simp: delivered_def intro: exI [of _ "length xs"])

lemma log_still:
  assumes "still b c" "log_ok b"
  shows "log_ok c"
proof -
  obtain ys where "bg_sent c = bg_sent b @ ys" "sent_bytes ys = []" using assms(1) by (auto simp: still_def)
  then show ?thesis using assms(2) unfolding log_ok_def still_same [OF assms(1)] by (auto intro: delivered_append)
qed

subsection \<open>The stream operations\<close>

lemma bridge_invD:
  assumes "bridge_inv sha256 b"
  shows "start_ok b" "flow_ok sha256 b" "worker_ok b" "failure_ok b" "ack_ok sha256 b" "log_ok b" "outcome_ok sha256 b"
    "delete_ok sha256 b" "length (bg_queue b) \<le> TRANSFER_QUEUE_CHUNKS"
  using assms by (simp_all add: bridge_inv_def)

lemma start_okD:
  assumes "start_ok b"
  shows "bf_bytes_received (bg_facts b) = length (content b)"
    "\<not> bf_source_ready_issued (bg_facts b) \<Longrightarrow> pipeline b = [] \<and> content b = [] \<and> bg_state b \<notin> {BridgeReady, Streaming} \<and>
       bg_relay b \<noteq> RelayDone \<and> relay_bytes (bg_relay b) = [] \<and> sent_bytes (bg_sent b) = []"
    "\<not> bf_source_ready_issued (bg_facts b) \<Longrightarrow> bf_source_end (bg_facts b) = Some e \<Longrightarrow> \<not> te_ok e \<and> bg_abort b"
    "bg_relay b = NoRelay \<Longrightarrow> \<not> bf_source_ready_issued (bg_facts b)"
    "bg_state b = SourceRequested \<Longrightarrow> bg_relay b = NoRelay \<and> \<not> bf_destination_issued (bg_facts b)"
    "bg_source_end_future b = (case bf_source_end (bg_facts b) of None \<Rightarrow> Pending | Some e \<Rightarrow> Result e)"
  using assms by (auto simp: start_ok_def)

lemma worker_okD:
  assumes "worker_ok b"
  shows "early (bg_worker b) \<Longrightarrow> bg_relay b = NoRelay"
    "bf_destination_terminal_issued (bg_facts b) \<Longrightarrow> bg_relay b = RelayDone"
    "bg_worker b = SendRequest \<Longrightarrow> \<not> bf_destination_issued (bg_facts b)"
    "bg_worker b = Resuming StageReady r \<Longrightarrow> bf_destination_issued (bg_facts b)"
    "bg_worker b = SendReady \<Longrightarrow> bg_relay b \<noteq> NoRelay"
    "bg_worker b = SendTerminal e \<Longrightarrow> bf_source_end (bg_facts b) = Some e \<and> te_ok e \<and> bg_relay b = RelayDone"
  using assms by (auto simp: worker_ok_def phase_ok_def)

lemma start_ok_step:
  assumes "bridge_step sha256 b c" and inv: "bridge_inv sha256 b"
  shows "start_ok c"
proof -
  note start = bridge_invD(1) [OF inv] and wk = bridge_invD(3) [OF inv]
  note sd = start_okD [OF start] and wd = worker_okD [OF wk]
  show ?thesis
    using assms(1)
  proof (cases rule: step_stream_cases)
    case quiet
    then show ?thesis using start by (blast intro: quiet_still start_still)
  next
    case request
    then show ?thesis using start wd(1,3) by (simp add: start_ok_def request_issued_def pipeline_def)
  next
    case (begins t)
    then show ?thesis using start by (simp add: start_ok_def begin_issued_def pipeline_def)
  next
    case ready
    then show ?thesis using start wd(5) by (simp add: start_ok_def ready_issued_def Let_def pipeline_def split: option.splits)
  next
    case (terminal e)
    then show ?thesis using start by (simp add: start_ok_def terminal_issued_def pipeline_def)
  next
    case relay_start
    then show ?thesis using start wd(1,4) sd(2) by (simp add: start_ok_def pipeline_def)
  next
    case get
    then show ?thesis using start by (simp add: start_ok_def relay_get_def pipeline_def split: list.splits option.splits)
  next
    case (chunk_sent chunk)
    then show ?thesis using start by (simp add: start_ok_def relay_sent_def pipeline_def)
  next
    case (stopped how issued)
    then show ?thesis using start
      by (cases how) (simp_all add: start_ok_def relay_stopped_def relay_running_def pipeline_def split: relay_phase.splits)
  next
    case (source_begin t)
    then show ?thesis using start
      by (simp add: start_ok_def handle_source_begin_def Let_def source_error_def pipeline_def)
  next
    case (chunk ch)
    show ?thesis
    proof (cases rule: handle_binary_cases [of b ch])
      case quiet
      then show ?thesis using start chunk(2) by (blast intro: quiet_still start_still)
    next
      case taken
      then show ?thesis using start chunk(2) sd(2) by (auto simp: start_ok_def)
    qed
  next
    case (failed e)
    then show ?thesis using start sd(2,4) by (simp add: start_ok_def source_failed_def Let_def small_updates pipeline_def)
  next
    case (succeeded e)
    then have "bf_source_ready_issued (bg_facts b)" "bg_relay b \<noteq> NoRelay" using sd(2,4) by blast+
    then show ?thesis using start succeeded(9) by (simp add: start_ok_def source_succeeded_def Let_def pipeline_def)
  next
    case (put item)
    then have "bf_source_ready_issued (bg_facts b)" "bg_relay b \<noteq> NoRelay" using sd(2,4) by (auto simp: pipeline_def)
    then show ?thesis using start put(3) by (simp add: start_ok_def)
  next
    case (put_drop item closed)
    then have "bf_source_ready_issued (bg_facts b)" "bg_relay b \<noteq> NoRelay" using sd(2,4) by (auto simp: pipeline_def)
    then show ?thesis using start put_drop(4) by (simp add: start_ok_def)
  next
    case (destination_end e)
    then show ?thesis using start_still [OF still_acks(1) start] by blast
  next
    case (late_acked role expected e)
    then show ?thesis using start_still [OF still_acks(2) start] by blast
  next
    case (table outcome)
    then show ?thesis using start by (simp add: start_ok_def finish_table_def pipeline_def)
  qed
qed

lemma flow_okD:
  assumes "flow_ok sha256 b"
  shows "None \<in> set (pipeline b) \<or> bg_relay b = RelayDone \<Longrightarrow> \<exists>e. bf_source_end (bg_facts b) = Some e \<and> te_ok e"
    "None \<in> set (pipeline b) \<or> bg_relay b = RelayDone \<Longrightarrow> relay_ok (bg_relay b) \<Longrightarrow> in_transit b = content b"
    "None \<notin> set (butlast (pipeline b))" "bg_relay b = RelayDone \<Longrightarrow> pipeline b = []"
    "bf_source_end (bg_facts b) = Some e \<Longrightarrow> te_ok e \<Longrightarrow> source_matches sha256 e b"
    "relay_ok (bg_relay b) \<Longrightarrow> bf_source_end (bg_facts b) = None \<Longrightarrow> \<not> bg_abort b \<Longrightarrow> \<not> bg_source_closed b \<Longrightarrow>
       bg_registered b \<Longrightarrow> in_transit b = content b"
  using assms unfolding flow_ok_def by blast+

lemma flow_okI:
  assumes "None \<in> set (pipeline b) \<or> bg_relay b = RelayDone \<Longrightarrow> \<exists>e. bf_source_end (bg_facts b) = Some e \<and> te_ok e"
    "None \<in> set (pipeline b) \<or> bg_relay b = RelayDone \<Longrightarrow> relay_ok (bg_relay b) \<Longrightarrow> in_transit b = content b"
    "None \<notin> set (butlast (pipeline b))" "bg_relay b = RelayDone \<Longrightarrow> pipeline b = []"
    "\<And>e. bf_source_end (bg_facts b) = Some e \<Longrightarrow> te_ok e \<Longrightarrow> source_matches sha256 e b"
    "relay_ok (bg_relay b) \<Longrightarrow> bf_source_end (bg_facts b) = None \<Longrightarrow> \<not> bg_abort b \<Longrightarrow> \<not> bg_source_closed b \<Longrightarrow>
       bg_registered b \<Longrightarrow> in_transit b = content b"
  shows "flow_ok sha256 b"
  using assms unfolding flow_ok_def by blast

text \<open>Operations that change no byte of the stream.\<close>

lemma flow_keep:
  assumes "flow_ok sha256 b" "pipeline c = pipeline b" "in_transit c = in_transit b" "bg_relay c = bg_relay b"
    and "content c = content b" "bf_source_end (bg_facts c) = bf_source_end (bg_facts b)" "bg_source_begin c = bg_source_begin b"
    and "bg_abort b \<longrightarrow> bg_abort c" "bg_source_closed b \<longrightarrow> bg_source_closed c" "bg_registered c \<longrightarrow> bg_registered b"
  shows "flow_ok sha256 c"
  using assms unfolding flow_ok_def source_matches_def declared_def by (simp split: option.split) blast

lemma in_transit_simps:
  "in_transit b = sent_bytes (bg_sent b) @ relay_bytes (bg_relay b) @ concat (map chunk_bytes (bg_queue b)) @
     concat (map chunk_bytes (put_items (bg_put b)))"
  by (simp add: in_transit_def pipeline_def)

lemma flow_relay_get:
  assumes "flow_ok sha256 b" and get: "bg_relay b = RelayGet"
  shows "flow_ok sha256 (relay_get b)"
proof (cases "bg_queue b")
  case Nil
  then show ?thesis using assms(1) by (simp add: relay_get_def)
next
  case (Cons item rest)
  note fd = flow_okD [OF assms(1)]
  have same: "in_transit (relay_get b) = in_transit b" "content (relay_get b) = content b"
    "bf_source_end (bg_facts (relay_get b)) = bf_source_end (bg_facts b)" "bg_abort (relay_get b) = bg_abort b"
    "bg_source_closed (relay_get b) = bg_source_closed b" "bg_registered (relay_get b) = bg_registered b"
    "source_matches sha256 e (relay_get b) = source_matches sha256 e b" "pipeline b = item # pipeline (relay_get b)" for e
    using get Cons
    by (simp_all add: relay_get_def in_transit_simps source_matches_def declared_def pipeline_def split: option.split)
  have last: "item = None \<Longrightarrow> pipeline (relay_get b) = []" using fd(3) unfolding same(8) by (auto split: if_splits)
  have relay: "bg_relay (relay_get b) = RelayDone \<longleftrightarrow> item = None" "relay_ok (bg_relay (relay_get b))"
    using Cons by (auto simp: relay_get_def split: option.split)
  have ended: "None \<in> set (pipeline (relay_get b)) \<or> bg_relay (relay_get b) = RelayDone \<Longrightarrow> None \<in> set (pipeline b)"
    using relay(1) unfolding same(8) by auto
  have ok: "relay_ok (bg_relay b)" using get by simp
  show ?thesis
  proof (rule flow_okI, goal_cases)
    case 1
    then show ?case using fd(1) ended unfolding same by blast
  next
    case 2
    then show ?case using fd(2) ended ok unfolding same by blast
  next
    case 3
    show ?case using fd(3) unfolding same(8) by (auto split: if_splits)
  next
    case 4
    then show ?case using last relay by blast
  next
    case (5 e)
    then show ?case using fd(5) unfolding same by blast
  next
    case 6
    then show ?case using fd(6) ok unfolding same by blast
  qed
qed

lemma flow_stopped:
  assumes "flow_ok sha256 b" "\<not> relay_ok how"
  shows "flow_ok sha256 (relay_stopped how issued b)"
proof -
  have "how \<noteq> RelayDone" using assms(2) by auto
  then show ?thesis
    using assms flow_okD [OF assms(1)]
    by (intro flow_okI) (auto simp: relay_stopped_def pipeline_def source_matches_def declared_def)
qed

lemma flow_taken:
  assumes "flow_ok sha256 b" "bf_source_end (bg_facts b) = None" "bg_put b = NoPut"
    and c: "c = (upd_facts (\<lambda>f. f\<lparr>bf_bytes_received := n, bf_digest := bf_digest f @ chunk\<rparr>) b)
      \<lparr>bg_state := Streaming, bg_put := Putting (Some chunk)\<rparr>"
  shows "flow_ok sha256 c"
proof -
  note fd = flow_okD [OF assms(1)]
  have none: "None \<notin> set (pipeline b)" "bg_relay b \<noteq> RelayDone" using fd(1) assms(2) by auto
  have same: "pipeline c = pipeline b @ [Some chunk]" "in_transit c = in_transit b @ chunk" "content c = content b @ chunk"
    "bg_relay c = bg_relay b" "bf_source_end (bg_facts c) = None" "bg_abort c = bg_abort b"
    "bg_source_closed c = bg_source_closed b" "bg_registered c = bg_registered b"
    using c assms(2,3) by (simp_all add: pipeline_def in_transit_simps)
  show ?thesis by (rule flow_okI) (use none fd(6) assms(2) in \<open>simp_all add: same\<close>)
qed

lemma flow_succeeded:
  assumes "flow_ok sha256 b" "bf_source_end (bg_facts b) = None" "bg_put b = NoPut" "\<not> bg_abort b" "\<not> bg_source_closed b"
    "bg_registered b" "te_ok e" "source_matches sha256 e b"
  shows "flow_ok sha256 (source_succeeded e b)"
proof -
  note fd = flow_okD [OF assms(1)]
  let ?c = "source_succeeded e b"
  have none: "None \<notin> set (pipeline b)" "bg_relay b \<noteq> RelayDone" using fd(1) assms(2) by auto
  have same: "pipeline ?c = pipeline b @ [None]" "in_transit ?c = in_transit b" "content ?c = content b"
    "bg_relay ?c = bg_relay b" "bf_source_end (bg_facts ?c) = Some e" "source_matches sha256 e ?c = source_matches sha256 e b"
    using assms(3,4) by (simp_all add: source_succeeded_def pipeline_def in_transit_simps source_matches_def declared_def)
  show ?thesis by (rule flow_okI) (use none fd(6) assms in \<open>simp_all add: same\<close>)
qed

lemma flow_table:
  assumes "flow_ok sha256 b" "\<not> relay_running b" "bg_relay b = NoRelay \<Longrightarrow> pipeline b = []"
  shows "flow_ok sha256 (finish_table outcome b)"
proof -
  note fd = flow_okD [OF assms(1)]
  let ?c = "finish_table outcome b"
  have same: "bg_relay ?c = bg_relay b" "content ?c = content b" "bf_source_end (bg_facts ?c) = bf_source_end (bg_facts b)"
    "source_matches sha256 e ?c = source_matches sha256 e b" "\<not> bg_registered ?c" for e
    by (simp_all add: finish_table_def source_matches_def declared_def)
  have sub: "set (pipeline ?c) \<subseteq> set (pipeline b)" by (auto simp: finish_table_def pipeline_def)
  have put: "None \<notin> set (butlast (pipeline ?c))" by (cases "bg_put b") (simp_all add: finish_table_def pipeline_def)
  have idle: "relay_ok (bg_relay b) \<Longrightarrow> pipeline b = []"
    using assms(2,3) fd(4) by (cases "bg_relay b") (simp_all add: relay_running_def)
  then have transit: "relay_ok (bg_relay b) \<Longrightarrow> in_transit ?c = in_transit b"
    by (simp add: finish_table_def in_transit_def pipeline_def)
  show ?thesis by (rule flow_okI) (use fd sub put idle transit same in auto)
qed

lemma handle_source_begin_same [simp]:
  "bg_queue (handle_source_begin t b) = bg_queue b" "bg_put (handle_source_begin t b) = bg_put b"
  "bg_sent (handle_source_begin t b) = bg_sent b" "bg_relay (handle_source_begin t b) = bg_relay b"
  "content (handle_source_begin t b) = content b"
  "bf_source_end (bg_facts (handle_source_begin t b)) = bf_source_end (bg_facts b)"
  "bf_destination_terminal_issued (bg_facts (handle_source_begin t b)) = bf_destination_terminal_issued (bg_facts b)"
  "bf_destination_ack (bg_facts (handle_source_begin t b)) = bf_destination_ack (bg_facts b)"
  by (simp_all add: handle_source_begin_def Let_def source_error_def)

lemma source_failed_same [simp]:
  "bg_queue (source_failed e b) = bg_queue b" "bg_put (source_failed e b) = bg_put b"
  "bg_sent (source_failed e b) = bg_sent b" "bg_relay (source_failed e b) = bg_relay b"
  "content (source_failed e b) = content b" "bf_source_end (bg_facts (source_failed e b)) = Some e"
  "bg_abort (source_failed e b)"
  "bf_destination_terminal_issued (bg_facts (source_failed e b)) = bf_destination_terminal_issued (bg_facts b)"
  "bf_destination_ack (bg_facts (source_failed e b)) = bf_destination_ack (bg_facts b)"
  by (simp_all add: source_failed_def small_updates)

lemma flow_ok_step:
  assumes "bridge_step sha256 b c" and inv: "bridge_inv sha256 b"
  shows "flow_ok sha256 c"
proof -
  note start = bridge_invD(1) [OF inv] and flow = bridge_invD(2) [OF inv] and wk = bridge_invD(3) [OF inv]
  note sd = start_okD [OF start] and fd = flow_okD [OF flow] and wd = worker_okD [OF wk]
  show ?thesis
    using assms(1)
  proof (cases rule: step_stream_cases)
    case quiet
    then show ?thesis using flow by (blast intro: quiet_still flow_still)
  next
    case request
    then show ?thesis by (intro flow_keep [OF flow]) (simp_all add: request_issued_def in_transit_simps pipeline_def)
  next
    case (begins t)
    then show ?thesis by (intro flow_keep [OF flow]) (simp_all add: begin_issued_def in_transit_simps pipeline_def)
  next
    case ready
    then show ?thesis by (intro flow_keep [OF flow]) (simp_all add: ready_issued_def Let_def in_transit_simps pipeline_def)
  next
    case (terminal e)
    then show ?thesis by (intro flow_keep [OF flow]) (simp_all add: terminal_issued_def in_transit_simps pipeline_def)
  next
    case relay_start
    then have "bg_relay b = NoRelay" using wd(1) by simp
    then show ?thesis using flow relay_start(2)
      by (simp add: flow_ok_def pipeline_def in_transit_def source_matches_def declared_def)
  next
    case get
    then show ?thesis using flow_relay_get [OF flow] by blast
  next
    case (chunk_sent chunk)
    then show ?thesis using flow
      by (simp add: flow_ok_def relay_sent_def pipeline_def in_transit_def source_matches_def declared_def)
  next
    case (stopped how issued)
    then show ?thesis using flow_stopped [OF flow] by blast
  next
    case (source_begin t)
    then have "bg_relay b = NoRelay" "\<not> bf_source_ready_issued (bg_facts b)" using sd(4,5) by blast+
    then show ?thesis using sd(2,3) source_begin(2)
      by (intro flow_okI) (auto simp: pipeline_def in_transit_simps)
  next
    case (chunk ch)
    show ?thesis
    proof (cases rule: handle_binary_cases [of b ch])
      case quiet
      then show ?thesis using flow chunk(2) by (blast intro: quiet_still flow_still)
    next
      case taken
      then show ?thesis using chunk by (intro flow_taken [OF flow]) (simp_all add: takes_frames_def)
    qed
  next
    case (failed e)
    then have "None \<notin> set (pipeline b)" "bg_relay b \<noteq> RelayDone" using fd(1) by auto
    then show ?thesis using failed fd(3) by (intro flow_okI) (simp_all add: pipeline_def)
  next
    case (succeeded e)
    have "bf_source_ready_issued (bg_facts b)" using sd(2) succeeded(4) by blast
    moreover have "\<not> bf_destination_terminal_issued (bg_facts b)" using wd(2) fd(1) succeeded(3) by fastforce
    ultimately have "\<not> bg_abort b" using succeeded(8) by blast
    then show ?thesis unfolding succeeded(9) using succeeded(1-3,5-7) sd(1)
      by (intro flow_succeeded [OF flow]) (simp_all add: takes_frames_def source_matches_def)
  next
    case (put item)
    then show ?thesis by (intro flow_keep [OF flow]) (simp_all add: in_transit_simps pipeline_def)
  next
    case (put_drop item closed)
    then show ?thesis using fd
      by (intro flow_okI) (auto simp: pipeline_def source_matches_def declared_def dest: in_set_butlastD)
  next
    case (destination_end e)
    then show ?thesis using flow_still [OF still_acks(1) flow] by blast
  next
    case (late_acked role expected e)
    then show ?thesis using flow_still [OF still_acks(2) flow] by blast
  next
    case (table outcome)
    then show ?thesis using flow_table [OF flow] sd(2,4) by blast
  qed
qed

subsection \<open>What every step keeps\<close>

definition persists :: "bridge \<Rightarrow> bridge \<Rightarrow> bool" where
  "persists b c \<longleftrightarrow>
     (\<forall>e. bf_source_end (bg_facts b) = Some e \<longrightarrow> bf_source_end (bg_facts c) = Some e) \<and>
     (bg_relay b = RelayDone \<longrightarrow> bg_relay c = RelayDone) \<and> (bg_relay b \<noteq> NoRelay \<longrightarrow> bg_relay c \<noteq> NoRelay) \<and>
     (bf_destination_terminal_issued (bg_facts b) \<longrightarrow> bf_destination_terminal_issued (bg_facts c) \<and> content c = content b \<and>
        bg_fingerprint c = bg_fingerprint b) \<and> bg_move c = bg_move b \<and>
     (bf_destination_terminal_issued (bg_facts c) \<longrightarrow> bg_relay c = RelayDone) \<and>
     (bf_destination_ack (bg_facts b) \<noteq> None \<longrightarrow> bf_destination_ack (bg_facts c) = bf_destination_ack (bg_facts b)) \<and>
     (bf_destination_issued (bg_facts b) \<longrightarrow> bf_destination_issued (bg_facts c)) \<and>
     (bg_worker b = SendRequest \<longrightarrow> bf_destination_issued (bg_facts c) = bf_destination_issued (bg_facts b)) \<and>
     (bg_relay b = NoRelay \<longrightarrow> bg_relay c = NoRelay \<or> bg_worker c = SendReady)"

lemma ack_okD:
  assumes "ack_ok sha256 b"
  shows "bf_destination_ack (bg_facts b) = Some a \<Longrightarrow> te_ok a \<Longrightarrow> acked sha256 b"
    "bf_destination_ack_future (bg_facts b) = Some Pending \<Longrightarrow> bf_destination_ack (bg_facts b) = None"
    "bf_destination_ack_future (bg_facts b) = Some (Result a) \<Longrightarrow> te_ok a \<Longrightarrow> bf_destination_ack (bg_facts b) = Some a"
    "bg_destination_tombstone b = Some xs \<Longrightarrow> a \<in> set xs \<Longrightarrow> te_ok a \<Longrightarrow> bf_destination_ack (bg_facts b) = Some a"
  using assms unfolding ack_ok_def by blast+

lemma persists_still:
  assumes "still b c" "worker_ok b"
    "bf_destination_ack (bg_facts b) \<noteq> None \<Longrightarrow> bf_destination_ack (bg_facts c) = bf_destination_ack (bg_facts b)"
  shows "persists b c"
  using assms(3) worker_okD(2) [OF assms(2)] unfolding persists_def still_same [OF assms(1)] by simp

lemma step_persists:
  assumes "bridge_step sha256 b c" and inv: "bridge_inv sha256 b"
  shows "persists b c"
proof -
  note start = bridge_invD(1) [OF inv] and flow = bridge_invD(2) [OF inv] and wk = bridge_invD(3) [OF inv]
  note sd = start_okD [OF start] and fd = flow_okD [OF flow] and wd = worker_okD [OF wk] and ad = ack_okD [OF bridge_invD(5) [OF inv]]
  have live: "\<not> bf_destination_terminal_issued (bg_facts b)" if "bg_relay b \<noteq> RelayDone"
    using wd(2) that by blast
  have unended: "bg_relay b \<noteq> RelayDone" if "bf_source_end (bg_facts b) = None"
    using fd(1) that by fastforce
  show ?thesis
    using assms(1)
  proof (cases rule: step_stream_cases)
    case quiet
    then show ?thesis using wk by (intro persists_still) (simp_all add: quiet_def)
  next
    case request
    then show ?thesis using wd(2) by (simp add: persists_def request_issued_def)
  next
    case (begins t)
    then show ?thesis using wd(2) by (simp add: persists_def begin_issued_def)
  next
    case ready
    then show ?thesis using wd(2) by (simp add: persists_def ready_issued_def Let_def)
  next
    case (terminal e)
    then show ?thesis using wd(6) by (simp add: persists_def terminal_issued_def)
  next
    case relay_start
    then show ?thesis using wd(1) live by (simp add: persists_def)
  next
    case get
    then show ?thesis using live by (simp add: persists_def relay_get_def split: list.split option.split)
  next
    case (chunk_sent chunk)
    then show ?thesis using live by (simp add: persists_def relay_sent_def)
  next
    case (stopped how issued)
    then have "bg_relay b \<noteq> RelayDone" "bg_relay b \<noteq> NoRelay" "how \<noteq> NoRelay" by (auto simp: relay_running_def)
    then show ?thesis using stopped live by (simp add: persists_def relay_stopped_def)
  next
    case (source_begin t)
    then have "bg_relay b = NoRelay" using sd(5) by blast
    then show ?thesis using source_begin live
      by (simp add: persists_def handle_source_begin_def Let_def source_error_def)
  next
    case (chunk ch)
    show ?thesis
    proof (cases rule: handle_binary_cases [of b ch])
      case quiet
      then show ?thesis using wk chunk(2) by (intro persists_still) (simp_all add: quiet_def)
    next
      case taken
      then show ?thesis using chunk(2) live unended by (simp add: persists_def)
    qed
  next
    case (failed e)
    then show ?thesis using live unended by (simp add: persists_def source_failed_def small_updates)
  next
    case (succeeded e)
    then show ?thesis using live unended by (simp add: persists_def source_succeeded_def Let_def)
  next
    case (put item)
    then show ?thesis using wd(2) by (simp add: persists_def)
  next
    case (put_drop item closed)
    then show ?thesis using wd(2) by (simp add: persists_def)
  next
    case (destination_end e)
    then have st: "still b c" by simp
    show ?thesis
    proof (cases rule: handle_destination_end_cases [of b sha256 e])
      case quiet
      then show ?thesis using destination_end(2) by (intro persists_still [OF st wk]) (simp add: quiet_def)
    next
      case (failure_acked failure)
      then show ?thesis using ad(2) by (intro persists_still [OF st wk]) simp
    next
      case acked
      then show ?thesis by (intro persists_still [OF st wk]) simp
    qed
  next
    case (late_acked role expected e)
    then show ?thesis by (intro persists_still [OF _ wk]) (simp, simp add: complete_ack_future_def)
  next
    case (table outcome)
    then show ?thesis using wd(2) by (simp add: persists_def finish_table_def)
  qed
qed

lemma log_ok_step:
  assumes step: "bridge_step sha256 b c" and inv: "bridge_inv sha256 b"
  shows "log_ok c"
proof -
  note flow = bridge_invD(2) [OF inv] and wk = bridge_invD(3) [OF inv] and log = bridge_invD(6) [OF inv]
  note fd = flow_okD [OF flow] and wd = worker_okD [OF wk]
  have per: "persists b c" using step inv by (rule step_persists)
  have keep: "log_ok c" if "bg_sent c = bg_sent b"
    "bf_destination_terminal_issued (bg_facts c) = bf_destination_terminal_issued (bg_facts b)"
    using log per that unfolding log_ok_def persists_def by auto
  have busy: "log_ok c" if "bg_relay b \<noteq> RelayDone"
    "bf_destination_terminal_issued (bg_facts c) = bf_destination_terminal_issued (bg_facts b)"
    using wd(2) that unfolding log_ok_def by blast
  show ?thesis
    using step
  proof (cases rule: step_stream_cases)
    case quiet
    then show ?thesis using log by (blast intro: quiet_still log_still)
  next
    case (terminal e)
    then have relay: "bg_relay b = RelayDone" "bf_source_end (bg_facts b) = Some e" "te_ok e" using wd(6) by blast+
    then have "sent_bytes (bg_sent b) = content b" using fd(2,4) by (simp add: in_transit_def)
    then show ?thesis using relay terminal(3) by (simp add: log_ok_def terminal_issued_def delivered_snoc)
  next
    case (chunk ch)
    then show ?thesis
      by (cases rule: handle_binary_cases [of b ch]) (use log chunk keep in \<open>auto intro: quiet_still log_still\<close>)
  next
    case (destination_end e)
    then show ?thesis using log_still [OF still_acks(1) log] by blast
  next
    case (late_acked role expected e)
    then show ?thesis using log_still [OF still_acks(2) log] by blast
  next
    case (chunk_sent chunk)
    then show ?thesis by (intro busy) (simp_all add: relay_sent_def)
  next
    case (stopped how issued)
    then show ?thesis by (intro busy) (auto simp: relay_stopped_def relay_running_def)
  qed (rule keep; simp add: request_issued_def begin_issued_def ready_issued_def Let_def relay_get_def source_succeeded_def
      finish_table_def split: list.split option.split)+
qed

text \<open>A confirmed transfer stays confirmed.\<close>

lemma acked_persists: "persists b c \<Longrightarrow> acked sha256 b \<Longrightarrow> acked sha256 c"
  by (auto simp: persists_def acked_def split: option.splits)

lemma result_persists: "persists b c \<Longrightarrow> result_ok sha256 b r \<Longrightarrow> result_ok sha256 c r"
  unfolding result_ok_def using acked_persists [of b c sha256] by (auto simp: persists_def acked_def)

end
