(* ===== verification/Bridge_Relay.thy ===== *)
theory Bridge_Relay
  imports Bridge_Stream
begin

text \<open>
  What the relay of a file between two devices promises, proved of every run of \<open>Transfer_Bridge\<close>: every
  step keeps the parts of the invariant about the phases of the worker, the terminals that report
  failures, the acknowledgement of the destination, the outcome and the deletion of the source. The case
  rule \<open>step_worker_cases\<close> names the steps that touch these.
\<close>

section \<open>The worker, the failures and the outcome\<close>

text \<open>
  Operations that neither delete the source nor produce a result, and report as failures only failures.
\<close>

definition carries :: "bridge \<Rightarrow> bridge \<Rightarrow> bool" where
  "carries b c \<longleftrightarrow>
     bg_deletes c = bg_deletes b \<and> bg_source_ack_delivered c = bg_source_ack_delivered b \<and>
     bg_completion c = bg_completion b \<and>
     (finish_result (bg_finish c) = finish_result (bg_finish b) \<or> finish_result (bg_finish c) = None) \<and>
     (failures_ok b \<longrightarrow> failures_ok c)"

definition idle :: "bridge \<Rightarrow> bridge \<Rightarrow> bool" where
  "idle b c \<longleftrightarrow> carries b c \<and> bg_worker c = bg_worker b"

definition ending :: "bridge \<Rightarrow> bridge \<Rightarrow> bool" where
  "ending b c \<longleftrightarrow> carries b c \<and> bg_worker c \<in> {Finishing, WorkerDone}"

lemmas carries_defs = idle_def ending_def carries_def failures_ok_def small_updates

lemma carries_refl [simp]: "idle b b" "carries b (b\<lparr>bg_worker := p\<rparr>)"
  by (simp_all add: carries_defs)

lemma ending_failing [simp]: "ending b (worker_raise e b)" "ending b (worker_error e b)" "ending b (worker_cancel b)"
  by (simp_all add: carries_defs worker_raise_def worker_error_def worker_cancel_def worker_cancelled_def split: option.split)

lemma ending_complete [simp]:
  "ending b (b\<lparr>bg_worker := WorkerDone\<rparr>)"
  "ending b (complete_bridge (Inl e) b\<lparr>bg_worker := Finishing\<rparr>)"
  "ending b (complete_bridge (Inl e) (b\<lparr>bg_sent := xs\<rparr>)\<lparr>bg_worker := Finishing\<rparr>)"
  by (simp_all add: carries_defs)

lemma idle_issue [simp]:
  "idle b (request_issued b)" "idle b (begin_issued b)" "idle b (ready_issued b)" "idle b (terminal_issued e b)"
  "idle b (failure_issued role e b)"
  by (simp_all add: carries_defs request_issued_def begin_issued_def ready_issued_def terminal_issued_def failure_issued_def)

lemma idle_relay [simp]:
  "idle b (relay_get b)" "idle b (relay_sent chunk b)" "idle b (relay_stopped how issued b)"
  by (simp_all add: carries_defs relay_get_def relay_sent_def relay_stopped_def split: list.split option.split)

lemma idle_source [simp]:
  "idle b (source_error b)" "idle b (source_error (abort_bridge code err skip b))" "idle b (handle_source_begin t b)"
  "idle b (handle_progress forwarded n b)" "idle b (handle_binary chunk b)" "idle b (source_timeout b)"
  "idle b (timeout_ack_done d b)" "idle b (late_source_success sha256 e b)" "idle b (source_succeeded e b)"
  by (simp_all add: carries_defs source_updates handle_source_begin_def handle_binary_def source_succeeded_def split: option.split)

lemma idle_source_failed [simp]:
  "\<not> te_ok e \<Longrightarrow> idle b (source_failed e b)" "\<not> te_ok e \<Longrightarrow> idle b (drain_failed e b)"
  by (simp_all add: carries_defs source_failed_def drain_failed_def)

lemma idle_destination [simp]:
  "idle b (destination_error b)" "idle b (handle_ready b)" "idle b (failure_acknowledged f e b)" "idle b (destination_acked e b)"
  "\<not> te_ok e \<Longrightarrow> idle b (destination_failed e b)"
  by (simp_all add: carries_defs handle_ready_def failure_acknowledged_def destination_acked_def destination_failed_def)

lemma idle_acks [simp]: "idle b (upd_facts (complete_ack_future role e) b)"
  by (simp add: carries_defs complete_ack_future_def)

lemma idle_source_end [simp]: "idle b (handle_source_end sha256 e b)"
proof -
  have ack: "idle b (upd_facts (\<lambda>f. f\<lparr>bf_source_ack_future := x, bf_activity := True\<rparr>) b)" for x
    by (simp add: carries_defs)
  have split: "idle b (if p then x else y)" if "p \<Longrightarrow> idle b x" "\<not> p \<Longrightarrow> idle b y" for p x y
    using that by simp
  show ?thesis
    unfolding handle_source_end_def Let_def
    by (intro split) (simp_all add: ack is_sender_timeout_failure)
qed

lemma idle_destination_end [simp]: "idle b (handle_destination_end sha256 e b)"
  unfolding handle_destination_end_def Let_def by (simp split: option.split)

lemma idle_frame [simp]: "idle b (handle_bridge_frame sha256 role fr b)" "idle b (handle_bridge_binary role chunk b)"
  by (simp_all add: handle_bridge_frame_def handle_bridge_binary_def split: bridge_frame.split)

lemma idle_put [simp]:
  "idle b (b\<lparr>bg_queue := q, bg_put := p\<rparr>)" "idle b (b\<lparr>bg_put := p\<rparr>)" "idle b (source_error (b\<lparr>bg_put := p\<rparr>))"
  by (simp_all add: carries_defs)

lemma idle_stop [simp]:
  "idle b (fence_bridge role b)" "idle b (disconnect_bridge code b)" "idle b (cancel_transfer b)"
  "idle b (b\<lparr>bg_state := s, bg_finish := FinishStart (Inl e)\<rparr>)" "idle b (b\<lparr>bg_sent := xs\<rparr>)"
  "idle b (cancel_relay b\<lparr>bg_finish := AbortJoinRelay code e'\<rparr>)" "idle b (b\<lparr>bg_finish := AbortSend code e'\<rparr>)"
  by (simp_all add: carries_defs fence_bridge_def disconnect_bridge_def cancel_transfer_def)

lemma finish_result_outcome:
  "finish_result (FinishStart p) = finish_result (FinishJoin p)" "finish_result (FinishJoin p) = finish_result (FinishLease p)"
  by (cases p; simp)+

lemma idle_finish:
  "bg_finish b = FinishStart p \<Longrightarrow> idle b (finish_start p b)" "bg_finish b = FinishJoin p \<Longrightarrow> idle b (finish_table p b)"
  by (simp_all add: carries_defs finish_start_def finish_table_def finish_result_outcome)

lemma send_succeeded_ack:
  "bg_worker b = SendSourceAck a \<Longrightarrow> send_succeeded sha256 b = Some (source_ack_sent sha256 True a b)"
  by simp

lemma send_refused_ack:
  "bg_worker b = SendSourceAck a \<Longrightarrow> send_refused sha256 b = Some (source_ack_sent sha256 False a b)"
  by simp

text \<open>The steps of the worker, and those of the finish task that may carry a result.\<close>

lemma step_worker_cases:
  assumes "bridge_step sha256 b c"
  obtains (idle) "idle b c"
  | (ending) "ending b c"
  | (sent) p where "c = b\<lparr>bg_worker := p\<rparr>"
      "p = Waiting StageBegin \<and> bg_worker b = SendRequest \<or>
       p = Waiting StageReady \<and> bf_destination_issued (bg_facts b) \<and> early (bg_worker b) \<or>
       p = Waiting StageEnd \<and> bg_worker b = SendReady \<or>
       p = AwaitAck \<and> bf_destination_terminal_issued (bg_facts b) \<and> \<not> early (bg_worker b) \<or>
       (\<exists>failure. p = Waiting (StageSourceAck failure) \<or> p = Waiting (StageDestinationAck failure))"
      "bg_worker b \<notin> {Finishing, WorkerDone}" "\<forall>a. bg_worker b \<noteq> DeleteSource a"
  | (woken) st r where "bg_worker b = Waiting st" "first_done (stage_futures st b) = Some r" "c = b\<lparr>bg_worker := Resuming st r\<rparr>"
  | (resumed) st r where "bg_worker b = Resuming st r" "c = stage_resume st r b"
  | (answered) ack where "bg_worker b = AwaitAck" "bf_destination_ack_future (bg_facts b) = Some (Result ack)"
      "c = ack_received sha256 ack b"
  | (source_acked) ack delivered where "bg_worker b = SendSourceAck ack" "c = source_ack_sent sha256 delivered ack b"
  | (deleted) ack ok where "bg_worker b = DeleteSource ack" "c = source_deleted sha256 ok ack b"
  | (aborted) code e skip where "c = abort_start sha256 code e skip b"
  | (completed) p where "bg_finish b = FinishLease p" "c = finish_complete p b"
  using assms
proof (cases rule: bridge_step.cases)
  case send_success
  then show thesis
  proof (cases "bg_worker b")
    case (SendSourceAck a)
    then show thesis using send_success source_acked by (metis option.inject send_succeeded_ack)
  next
    case (RejectAck f a)
    then show thesis using send_success by (intro ending) auto
  next
    case (FailAck f a)
    then show thesis using send_success by (intro ending) auto
  qed (simp split: if_splits; rule sent [OF sym], assumption, simp, simp, simp)+
next
  case send_refusal
  then show thesis
  proof (cases "bg_worker b")
    case (SendSourceAck a)
    then show thesis using send_refusal source_acked by (metis option.inject send_refused_ack)
  qed (simp; rule ending, erule subst, simp)+
next
  case (stage_wake st r)
  then show thesis using woken by blast
next
  case (stage_continue st r)
  then show thesis using resumed by blast
next
  case (ack_wake ack)
  then show thesis using answered by blast
next
  case (delete_end ack ok)
  then show thesis using deleted by blast
next
  case (abort_run code e skip)
  then show thesis using aborted by blast
next
  case (finish_end p)
  then show thesis using completed by blast
next
  case (finish_run p)
  then show thesis using idle idle_finish(1) by blast
next
  case (finish_joined p)
  then show thesis using idle idle_finish(2) by blast
qed (rule idle, simp (no_asm_simp); fail | rule ending, simp (no_asm_simp); fail)+

subsection \<open>Waking up\<close>

lemma future_result_Some:
  "Some r = future_result f p \<longleftrightarrow> (\<exists>x. p = Result x \<and> r = f x) \<or> (\<exists>e. p = Raised e \<and> r = GotError e) \<or> (p = Cancelled \<and> r = GotCancelled)"
  by (cases p) auto

lemma relay_result_Some:
  "Some r = relay_result p \<longleftrightarrow> (p = RelayDone \<and> r = GotRelayDone) \<or> (\<exists>e. p = RelayFailed e \<and> r = GotError e) \<or>
     (p = RelayCancelled \<and> r = GotCancelled)"
  by (cases p) auto

lemma ack_result_Some: "Some r = ack_result p \<longleftrightarrow> (\<exists>e. p = Some (Result e) \<and> r = GotAck e)"
  by (auto simp: ack_result_def split: option.split py_future.split)

lemma first_done_in: "first_done rs = Some r \<Longrightarrow> Some r \<in> set rs"
  by (induction rs rule: first_done.induct) auto

lemma woken_results:
  assumes "first_done (stage_futures st b) = Some r"
  shows "st = StageBegin \<Longrightarrow> r = GotBegin x \<Longrightarrow> bg_source_begin_future b = Result x"
    "r = GotSourceEnd e \<Longrightarrow> bg_source_end_future b = Result e"
    "r = GotDrainFailure e \<Longrightarrow> bg_drain_future b = Result e"
    "r = GotRelayDone \<Longrightarrow> bg_relay b = RelayDone"
  using first_done_in [OF assms]
  by (cases st; auto simp: future_result_Some relay_result_Some ack_result_Some)+

subsection \<open>Failures\<close>

lemma failures_resolve:
  "failures_ok b \<Longrightarrow> \<not> te_ok e \<Longrightarrow> failure_ok (resolve_source_failure e b)"
  "failures_ok b \<Longrightarrow> failure_ok (resolve_destination_rejection e b)"
  by (simp_all add: failure_ok_def failures_ok_def resolve_source_failure_def resolve_destination_rejection_def small_updates)

lemma failure_ending: "failures_ok b \<Longrightarrow> ending b c \<Longrightarrow> failure_ok c"
  by (auto simp: ending_def carries_def failure_ok_def)

lemma failure_resume:
  assumes "failures_ok b" "\<forall>e. reported st r = Some e \<longrightarrow> \<not> te_ok e"
  shows "failure_ok (stage_resume st r b)"
proof -
  have drain: "bg_drain_future b = Result e \<Longrightarrow> \<not> te_ok e" for e using assms(1) by (simp add: failures_ok_def)
  have phase: "failure_ok (b\<lparr>bg_worker := p\<rparr>)" "failure_ok (b\<lparr>bg_relay := q, bg_worker := p\<rparr>)"
    "failure_ok (b\<lparr>bg_state := s, bg_worker := p\<rparr>)" if "\<forall>st r. p \<noteq> Resuming st r" for p q s
    using assms(1) that by (simp_all add: failure_ok_def failures_ok_def)
  have fail: "failure_ok (worker_raise e b)" "failure_ok (worker_error e b)" "failure_ok (worker_cancel b)" for e
    using failure_ending [OF assms(1)] ending_failing by blast+
  show ?thesis
    using assms(2) phase drain fail failures_resolve [OF assms(1)]
    by (induction st r b rule: stage_resume.induct) (simp_all split: py_future.split)
qed

lemma failures_same:
  "failures_ok (ack_received sha256 ack b) = failures_ok b" "failures_ok (source_ack_sent sha256 d ack b) = failures_ok b"
  "failures_ok (source_deleted sha256 ok ack b) = failures_ok b" "failures_ok (finish_complete p b) = failures_ok b"
  by (simp_all add: failures_ok_def ending_updates finish_complete_def small_updates split: option.split)

lemma failures_abort: "failures_ok b \<Longrightarrow> failures_ok (abort_start sha256 code e skip b)"
  by (simp add: failures_ok_def abort_start_def abort_terminal_def small_updates split: option.split)

lemma worker_ends:
  "bg_worker (ack_received sha256 ack b) \<in> {Finishing, SendSourceAck ack}"
  "bg_worker (source_ack_sent sha256 d ack b) \<in> {Finishing, DeleteSource ack}"
  "bg_worker (source_deleted sha256 ok ack b) = Finishing" "bg_worker (finish_complete p b) = bg_worker b"
  "bg_worker (abort_start sha256 code e skip b) = bg_worker b"
  by (simp_all add: ending_updates finish_complete_def abort_start_def small_updates split: option.split)

lemma failure_ok_step:
  assumes step: "bridge_step sha256 b c" and inv: "bridge_inv sha256 b"
  shows "failure_ok c"
proof -
  note sd = start_okD [OF bridge_invD(1) [OF inv]] and wd = worker_okD [OF bridge_invD(3) [OF inv]]
  have failures: "failures_ok b" and rep: "\<And>st r e. bg_worker b = Resuming st r \<Longrightarrow> reported st r = Some e \<Longrightarrow> \<not> te_ok e"
    using bridge_invD(4) [OF inv] by (auto simp: failure_ok_def)
  show ?thesis
    using step
  proof (cases rule: step_worker_cases)
    case idle
    then show ?thesis using failures rep by (auto simp: idle_def carries_def failure_ok_def)
  next
    case ending
    then show ?thesis using failures by (blast intro: failure_ending)
  next
    case (sent p)
    then show ?thesis using failures by (auto simp: failure_ok_def failures_ok_def)
  next
    case (woken st r)
    have "\<not> te_ok e" if "reported st r = Some e" for e
      using that
    proof (cases rule: reported.elims)
      case 1
      then show ?thesis using failures woken_results(1) [OF woken(2)] by (auto simp: failures_ok_def)
    next
      case 2
      then have "bg_source_end_future b = Result e" "early (bg_worker b)"
        using woken woken_results(2) [OF woken(2)] by auto
      then show ?thesis using wd(1) sd(3,4,6) by (auto split: option.splits)
    next
      case (3 s)
      then show ?thesis using failures woken_results(3) [OF woken(2)] by (auto simp: failures_ok_def)
    qed simp_all
    then show ?thesis using failures woken(3) by (auto simp: failure_ok_def failures_ok_def)
  next
    case (resumed st r)
    then show ?thesis using failure_resume [OF failures] rep by blast
  next
    case (answered ack)
    then show ?thesis using failures worker_ends(1) [of sha256 ack b] by (auto simp: failure_ok_def failures_same)
  next
    case (source_acked ack d)
    then show ?thesis using failures worker_ends(2) [of sha256 d ack b] by (auto simp: failure_ok_def failures_same)
  next
    case (deleted ack ok)
    then show ?thesis using failures by (simp add: failure_ok_def failures_same worker_ends)
  next
    case (aborted code e skip)
    then show ?thesis using failures_abort [OF failures] rep by (simp add: failure_ok_def worker_ends)
  next
    case (completed p)
    then show ?thesis using failures rep by (simp add: failure_ok_def failures_same worker_ends)
  qed
qed

subsection \<open>Acknowledgements\<close>

lemma expected_destination:
  assumes "a \<in> set (expected_terminals f DestinationRole)" "te_ok a"
    and "\<forall>e. bf_destination_failure_terminal f = Some e \<longrightarrow> \<not> te_ok e" "\<forall>e. bf_destination_failure f = Some e \<longrightarrow> \<not> te_ok e"
  shows "bf_destination_ack f = Some a"
  using assms by (auto simp: expected_terminals_def append_new_def Let_def split: option.splits if_splits)

lemma ack_okI:
  assumes "\<And>a. bf_destination_ack (bg_facts b) = Some a \<Longrightarrow> te_ok a \<Longrightarrow> acked sha256 b"
    "bf_destination_ack_future (bg_facts b) = Some Pending \<Longrightarrow> bf_destination_ack (bg_facts b) = None"
    "\<And>a. bf_destination_ack_future (bg_facts b) = Some (Result a) \<Longrightarrow> te_ok a \<Longrightarrow> bf_destination_ack (bg_facts b) = Some a"
    "\<And>a xs. bg_destination_tombstone b = Some xs \<Longrightarrow> a \<in> set xs \<Longrightarrow> te_ok a \<Longrightarrow> bf_destination_ack (bg_facts b) = Some a"
  shows "ack_ok sha256 b"
  unfolding ack_ok_def using assms by (intro conjI allI ballI impI) auto

lemma ack_keep:
  assumes "ack_ok sha256 b" "persists b c" "failures_ok c"
    and same: "bf_destination_ack (bg_facts c) = bf_destination_ack (bg_facts b)"
    "bf_destination_ack_future (bg_facts c) = bf_destination_ack_future (bg_facts b)"
    and tomb: "bg_destination_tombstone c = bg_destination_tombstone b \<or>
      bg_destination_tombstone c = Some (expected_terminals (bg_facts c) DestinationRole)"
  shows "ack_ok sha256 c"
proof -
  note ad = ack_okD [OF assms(1)]
  have expected: "bf_destination_ack (bg_facts c) = Some a" if "bg_destination_tombstone c = Some xs" "a \<in> set xs" "te_ok a" for a xs
    using tomb
  proof
    assume "bg_destination_tombstone c = bg_destination_tombstone b"
    then show ?thesis using that ad(4) [of xs a] same(1) by simp
  next
    assume "bg_destination_tombstone c = Some (expected_terminals (bg_facts c) DestinationRole)"
    then show ?thesis using that assms(3) by (intro expected_destination) (auto simp: failures_ok_def)
  qed
  have "acked sha256 c" if "bf_destination_ack (bg_facts c) = Some a" "te_ok a" for a
    using that same(1) ad(1) acked_persists [OF assms(2)] by simp
  then show ?thesis using expected ad(2,3) by (intro ack_okI) (auto simp: same)
qed

lemma ack_acked:
  assumes "ack_ok sha256 b" "start_ok b" "bf_destination_terminal_issued (bg_facts b)" "te_ok e \<Longrightarrow> \<not> ack_mismatch sha256 e b"
    "bf_destination_ack (bg_facts b) = None"
  shows "ack_ok sha256 (destination_acked e b)"
proof -
  note ad = ack_okD [OF assms(1)] and len = start_okD(1) [OF assms(2)]
  have no: "bf_destination_ack_future (bg_facts b) = Some (Result a) \<Longrightarrow> \<not> te_ok a"
    "bg_destination_tombstone b = Some xs \<Longrightarrow> a \<in> set xs \<Longrightarrow> \<not> te_ok a" for a xs
    using ad(3,4) assms(5) by auto
  show ?thesis
    using assms(3-5) no len by (auto simp: ack_ok_def destination_acked_def acked_def ack_mismatch_def)
qed

lemma ack_ok_step:
  assumes step: "bridge_step sha256 b c" and inv: "bridge_inv sha256 b"
  shows "ack_ok sha256 c"
proof -
  have per: "persists b c" and fail: "failures_ok c"
    using step_persists [OF assms] failure_ok_step [OF assms] by (simp_all add: failure_ok_def)
  note ack = bridge_invD(5) [OF inv]
  note keep = ack_keep [OF ack per fail] and ad = ack_okD [OF ack]
  have fails: "bf_destination_failure_terminal (bg_facts b) = Some e \<Longrightarrow> \<not> te_ok e" for e
    using bridge_invD(4) [OF inv] by (simp add: failure_ok_def failures_ok_def)
  have quiet_keep: "ack_ok sha256 c" if "quiet b c" using that by (intro keep) (simp_all add: quiet_def)
  show ?thesis
    using step
  proof (cases rule: step_stream_cases)
    case quiet
    then show ?thesis by (rule quiet_keep)
  next
    case (chunk ch)
    then show ?thesis by (cases rule: handle_binary_cases [of b ch]) (use chunk quiet_keep keep in auto)
  next
    case (destination_end e)
    show ?thesis
    proof (cases rule: handle_destination_end_cases [of b sha256 e])
      case quiet
      then show ?thesis using destination_end(2) quiet_keep by simp
    next
      case (failure_acked failure)
      then show ?thesis using ad(4) ad(2) fails [of failure] destination_end(2)
        by (auto simp: ack_ok_def)
    next
      case acked
      then show ?thesis using ack_acked [OF ack bridge_invD(1) [OF inv]] destination_end(2) by simp
    qed
  next
    case (late_acked role expected e)
    then have "role \<noteq> SourceRole \<Longrightarrow> te_ok e \<Longrightarrow> bf_destination_ack (bg_facts b) = Some e"
      using ad(4) [of expected e] by (simp add: tombstone_def)
    then have "bf_destination_ack_future (bg_facts c) = Some (Result a) \<Longrightarrow> te_ok a \<Longrightarrow> bf_destination_ack (bg_facts b) = Some a" for a
      using ad(3) late_acked(4) by (auto simp: complete_ack_future_def split: if_splits)
    moreover have "bf_destination_ack_future (bg_facts c) = Some Pending \<Longrightarrow> bf_destination_ack_future (bg_facts b) = Some Pending"
      using late_acked(4) by (simp add: complete_ack_future_def split: if_splits)
    moreover have same: "bf_destination_ack (bg_facts c) = bf_destination_ack (bg_facts b)"
      "bg_destination_tombstone c = bg_destination_tombstone b"
      using late_acked(4) by (simp_all add: complete_ack_future_def)
    ultimately show ?thesis using ad(1,2,4) acked_persists [OF per] by (intro ack_okI) (auto simp only: same)
  qed (rule keep; simp add: request_issued_def begin_issued_def ready_issued_def terminal_issued_def Let_def relay_get_def
      relay_sent_def relay_stopped_def handle_source_begin_def source_error_def source_failed_def small_updates
      source_succeeded_def finish_table_def split: list.split option.split)+
qed

subsection \<open>Phases of the worker\<close>

lemma phase_persists:
  assumes "persists b c" "phase_ok b (bg_worker b)"
  shows "phase_ok c (bg_worker b)"
  using assms by (auto simp: persists_def phase_ok_def split: worker_phase.splits bridge_stage.splits stage_result.splits)

lemma worker_okI:
  assumes "persists b c" "early (bg_worker c) \<Longrightarrow> bg_relay c = NoRelay" "phase_ok c (bg_worker c)"
  shows "worker_ok c"
  using assms by (auto simp: worker_ok_def persists_def)

lemma worker_idle:
  assumes "persists b c" "worker_ok b" "bg_worker c = bg_worker b"
  shows "worker_ok c"
proof (rule worker_okI [OF assms(1)])
  have "bg_worker b = SendReady \<Longrightarrow> bg_relay b \<noteq> NoRelay" using worker_okD(5) [OF assms(2)] by blast
  then show "early (bg_worker c) \<Longrightarrow> bg_relay c = NoRelay" using assms by (auto simp: persists_def worker_ok_def)
  show "phase_ok c (bg_worker c)" using assms phase_persists by (simp add: worker_ok_def)
qed

lemma worker_resume:
  assumes "worker_ok b" "bg_worker b = Resuming st r" "persists b (stage_resume st r b)"
  shows "worker_ok (stage_resume st r b)"
proof (rule worker_okI [OF assms(3)])
  have "phase_ok (stage_resume st r b) (bg_worker (stage_resume st r b)) \<and>
    (early (bg_worker (stage_resume st r b)) \<longrightarrow> bg_relay (stage_resume st r b) = NoRelay)"
    using assms(1,2) 
    by (induction st r b rule: stage_resume.induct)
      (simp_all add: worker_ok_def phase_ok_def failing_updates small_updates split: option.split py_future.split)
  then show "phase_ok (stage_resume st r b) (bg_worker (stage_resume st r b))"
    "early (bg_worker (stage_resume st r b)) \<Longrightarrow> bg_relay (stage_resume st r b) = NoRelay" by blast+
qed

lemma source_ack_sent_cases:
  "bg_worker (source_ack_sent sha256 d ack b) = Finishing \<and> bg_deletes (source_ack_sent sha256 d ack b) = bg_deletes b \<or>
   bg_worker (source_ack_sent sha256 d ack b) = DeleteSource ack \<and> te_ok ack \<and> d \<and> bg_move b \<and>
   (\<exists>fp. bg_fingerprint b = Some fp \<and> bg_deletes (source_ack_sent sha256 d ack b) = bg_deletes b @ [fp])"
  by (simp add: source_ack_sent_def worker_success_def small_updates split: option.split)

lemma worker_ok_step:
  assumes step: "bridge_step sha256 b c" and inv: "bridge_inv sha256 b"
  shows "worker_ok c"
proof -
  note wk = bridge_invD(3) [OF inv] and per = step_persists [OF assms]
  note wd = worker_okD [OF wk] and sd = start_okD [OF bridge_invD(1) [OF inv]]
  have phase: "phase_ok b (bg_worker b)" using wk by (simp add: worker_ok_def)
  note intro = worker_okI [OF per]
  have acks: "bf_destination_ack (bg_facts c) = Some a" if "bf_destination_ack (bg_facts b) = Some a" for a
    using per that by (simp add: persists_def)
  show ?thesis
    using step
  proof (cases rule: step_worker_cases)
    case idle
    then show ?thesis by (intro worker_idle [OF per wk]) (simp add: idle_def)
  next
    case ending
    then show ?thesis by (intro intro) (auto simp: ending_def phase_ok_def)
  next
    case (sent p)
    then show ?thesis using wd(1) by (intro intro) (auto simp: phase_ok_def)
  next
    case (woken st r)
    have "phase_ok c (Resuming st r)"
    proof (cases st)
      case StageEnd
      then show ?thesis using woken_results(2) [OF woken(2)] sd(6) woken(3)
        by (auto simp: phase_ok_def split: stage_result.splits option.splits)
    next
      case (StageDrain e)
      then show ?thesis using woken_results(4) [OF woken(2)] phase woken(1,3) by (auto simp: phase_ok_def)
    qed (use phase woken(1,3) in \<open>simp_all add: phase_ok_def\<close>)
    then show ?thesis using wd(1) woken by (intro intro) (cases st; simp)+
  next
    case (resumed st r)
    then show ?thesis using worker_resume [OF wk] per by blast
  next
    case (answered ack)
    then have "te_ok ack \<Longrightarrow> bf_destination_ack (bg_facts c) = Some ack"
      using ack_okD(3) [OF bridge_invD(5) [OF inv]] acks by blast
    then show ?thesis using worker_ends(1) [of sha256 ack b] answered(3) by (intro intro) (auto simp: phase_ok_def)
  next
    case (source_acked ack d)
    then have "te_ok ack \<Longrightarrow> bf_destination_ack (bg_facts c) = Some ack" using phase acks by (simp add: phase_ok_def)
    then show ?thesis using source_ack_sent_cases [of sha256 d ack b] source_acked(2) by (intro intro) (auto simp: phase_ok_def)
  next
    case (deleted ack ok)
    then show ?thesis by (intro intro) (simp_all add: worker_ends phase_ok_def)
  next
    case (aborted code e skip)
    then show ?thesis by (intro worker_idle [OF per wk]) (simp add: worker_ends)
  next
    case (completed p)
    then show ?thesis by (intro worker_idle [OF per wk]) (simp add: worker_ends)
  qed
qed

subsection \<open>The deletion of the source\<close>

lemma resume_same:
  "bg_deletes (stage_resume st r b) = bg_deletes b \<and> bg_completion (stage_resume st r b) = bg_completion b \<and>
   finish_result (bg_finish (stage_resume st r b)) \<in> {finish_result (bg_finish b), None}"
  by (induction st r b rule: stage_resume.induct) (simp_all add: failing_updates small_updates split: option.split py_future.split)

lemma deletes_same:
  "bg_deletes (ack_received sha256 ack b) = bg_deletes b" "bg_deletes (source_deleted sha256 ok ack b) = bg_deletes b"
  "bg_deletes (finish_complete p b) = bg_deletes b" "bg_deletes (abort_start sha256 code e skip b) = bg_deletes b"
  "bg_source_ack_delivered (source_deleted sha256 ok ack b) = bg_source_ack_delivered b"
  "bg_source_ack_delivered (finish_complete p b) = bg_source_ack_delivered b"
  "bg_source_ack_delivered (abort_start sha256 code e skip b) = bg_source_ack_delivered b"
  "bg_source_ack_delivered (source_ack_sent sha256 d ack b) = d"
  by (simp_all add: ending_updates finish_complete_def abort_start_def small_updates split: option.split)

lemma delete_keep:
  assumes "delete_ok sha256 b" "persists b c" "bg_deletes c = bg_deletes b" "bg_source_ack_delivered c = bg_source_ack_delivered b"
    "deleting (bg_worker b) \<Longrightarrow> deleting (bg_worker c)"
  shows "delete_ok sha256 c"
  using assms acked_persists [OF assms(2)] unfolding delete_ok_def
  by (auto simp: persists_def acked_def)

lemma delete_none:
  assumes "delete_ok sha256 b" "\<not> deleting (bg_worker b)"
  shows "bg_deletes b = []"
  using assms unfolding delete_ok_def by blast

lemma delete_ok_step:
  assumes step: "bridge_step sha256 b c" and inv: "bridge_inv sha256 b"
  shows "delete_ok sha256 c"
proof -
  note del = bridge_invD(8) [OF inv] and per = step_persists [OF assms]
  note keep = delete_keep [OF del per] and none = delete_none [OF del]
  have empty: "delete_ok sha256 c" if "\<not> deleting (bg_worker b)" "bg_deletes c = bg_deletes b"
    using none that by (simp add: delete_ok_def)
  show ?thesis
    using step
  proof (cases rule: step_worker_cases)
    case idle
    then show ?thesis by (intro keep) (simp_all add: idle_def carries_def)
  next
    case ending
    then show ?thesis by (intro keep) (auto simp: ending_def carries_def deleting_def)
  next
    case (sent p)
    then show ?thesis by (intro empty) (auto simp: deleting_def split: worker_phase.splits)
  next
    case (woken st r)
    then show ?thesis by (intro empty) (simp_all add: deleting_def)
  next
    case (resumed st r)
    then show ?thesis by (intro empty) (simp_all add: deleting_def resume_same)
  next
    case (answered ack)
    then show ?thesis by (intro empty) (simp_all add: deleting_def deletes_same)
  next
    case (source_acked ack d)
    then have none: "bg_deletes b = []" using none by (simp add: deleting_def)
    show ?thesis
    proof (cases "bg_deletes c = bg_deletes b")
      case True
      then show ?thesis using none by (simp add: delete_ok_def)
    next
      case False
      then obtain fp where fp: "bg_worker c = DeleteSource ack" "te_ok ack" "d" "bg_move b" "bg_fingerprint b = Some fp" "bg_deletes c = [fp]"
        using source_ack_sent_cases [of sha256 d ack b] source_acked(2) none by auto
      have "bf_destination_ack (bg_facts b) = Some ack"
        using bridge_invD(3) [OF inv] fp(2) source_acked(1) by (simp add: worker_ok_def phase_ok_def)
      then have "acked sha256 b" using ack_okD(1) [OF bridge_invD(5) [OF inv]] fp(2) by blast
      then show ?thesis using fp acked_persists [OF per] per source_acked(2)
        by (simp add: delete_ok_def deleting_def persists_def acked_def deletes_same)
    qed
  next
    case (deleted ack ok)
    then show ?thesis by (intro keep) (simp_all add: deletes_same worker_ends deleting_def)
  next
    case (aborted code e skip)
    then show ?thesis by (intro keep) (simp_all add: deletes_same worker_ends)
  next
    case (completed p)
    then show ?thesis by (intro keep) (simp_all add: deletes_same worker_ends)
  qed
qed

subsection \<open>The outcome\<close>

lemma outcome_okI:
  assumes "outcome_ok sha256 b" "persists b c"
    "finish_result (bg_finish c) \<in> {finish_result (bg_finish b), None} \<or>
     (\<exists>r. finish_result (bg_finish c) = Some r \<and> result_ok sha256 c r)"
    "bg_completion c = bg_completion b"
  shows "outcome_ok sha256 c"
  using assms result_persists [OF assms(2)] by (auto simp: outcome_ok_def)

lemma bridge_result_ok: "start_ok b \<Longrightarrow> acked sha256 b \<Longrightarrow> result_ok sha256 b (bridge_result sha256 w ack b)"
  by (simp add: result_ok_def bridge_result_def start_okD(1))

text \<open>A result that the worker reports is computed from the bridge as it is.\<close>

definition reports :: "(nat list \<Rightarrow> ustr) \<Rightarrow> bridge \<Rightarrow> bridge \<Rightarrow> bool" where
  "reports sha256 b c \<longleftrightarrow> bg_completion c = bg_completion b \<and>
     (finish_result (bg_finish c) \<in> {finish_result (bg_finish b), None} \<or>
      (\<exists>w ack. finish_result (bg_finish c) = Some (bridge_result sha256 w ack b)))"

lemma reports_ends:
  "te_ok ack \<Longrightarrow> reports sha256 b (source_ack_sent sha256 d ack b)" "reports sha256 b (source_deleted sha256 ok ack b)"
  "te_ok ack \<Longrightarrow> reports sha256 b (ack_received sha256 ack b)"
  by (auto simp: reports_def ending_updates small_updates bridge_result_def split: option.split)

lemma reports_failed:
  "\<not> te_ok ack \<Longrightarrow> carries b (source_ack_sent sha256 d ack b\<lparr>bg_source_ack_delivered := bg_source_ack_delivered b\<rparr>)"
  "\<not> te_ok ack \<Longrightarrow> carries b (ack_received sha256 ack b)"
  by (simp_all add: carries_defs ending_updates)

lemma abort_reports:
  "bg_completion (abort_start sha256 code e skip b) = bg_completion b \<and>
   (finish_result (bg_finish (abort_start sha256 code e skip b)) = None \<or>
    (\<exists>w ack. finish_result (bg_finish (abort_start sha256 code e skip b)) = Some (bridge_result sha256 w ack b) \<and>
       bf_destination_ack (bg_facts b) = Some ack \<and> te_ok ack))"
  by (auto simp: abort_start_def abort_outcome_def small_updates bridge_result_def split: option.split)

lemma outcome_ok_step:
  assumes step: "bridge_step sha256 b c" and inv: "bridge_inv sha256 b"
  shows "outcome_ok sha256 c"
proof -
  note out = bridge_invD(7) [OF inv] and per = step_persists [OF assms] and ad = ack_okD [OF bridge_invD(5) [OF inv]]
  note intro = outcome_okI [OF out per]
  have phase: "phase_ok b (bg_worker b)" using bridge_invD(3) [OF inv] by (simp add: worker_ok_def)
  have result: "result_ok sha256 c (bridge_result sha256 w ack b)" if "acked sha256 b" for w ack
    using bridge_result_ok [OF bridge_invD(1) [OF inv] that] by (rule result_persists [OF per])
  have reported: "outcome_ok sha256 c" if "reports sha256 b c" "acked sha256 b"
    using that result unfolding reports_def by (intro intro) auto
  have carried: "outcome_ok sha256 c" if "carries b c" using that by (intro intro) (auto simp: carries_def)
  show ?thesis
    using step
  proof (cases rule: step_worker_cases)
    case idle
    then show ?thesis by (intro carried) (simp add: idle_def)
  next
    case ending
    then show ?thesis by (intro carried) (simp add: ending_def)
  next
    case (sent p)
    then show ?thesis by (intro intro) simp_all
  next
    case (woken st r)
    then show ?thesis by (intro intro) simp_all
  next
    case (resumed st r)
    then show ?thesis using resume_same [of st r b] by (intro intro) simp_all
  next
    case (answered ack)
    show ?thesis
    proof (cases "te_ok ack")
      case True
      then have "acked sha256 b" using answered(2) ad(1,3) by blast
      then show ?thesis using reported reports_ends(3) True answered(3) by blast
    next
      case False
      then show ?thesis using carried reports_failed(2) answered(3) by blast
    qed
  next
    case (source_acked ack d)
    show ?thesis
    proof (cases "te_ok ack")
      case True
      then have "acked sha256 b" using phase source_acked(1) ad(1) [of ack] by (simp add: phase_ok_def)
      then show ?thesis using reported reports_ends(1) True source_acked(2) by blast
    next
      case False
      then show ?thesis using reports_failed(1) [OF False, of b sha256 d] source_acked(2)
        by (intro intro) (auto simp: carries_def)
    qed
  next
    case (deleted ack ok)
    then have "acked sha256 b" using phase ad(1) [of ack] by (simp add: phase_ok_def)
    then show ?thesis using reported reports_ends(2) deleted(2) by blast
  next
    case (aborted code e skip)
    then show ?thesis using abort_reports [of sha256 code e skip b] result ad(1) by (intro intro) auto
  next
    case (completed p)
    then have "outcome_ok sha256 b" "p = Inr r \<Longrightarrow> result_ok sha256 b r" for r using out by (auto simp: outcome_ok_def)
    then show ?thesis using completed(2) result_persists [OF per, of sha256]
      by (auto simp: outcome_ok_def finish_complete_def small_updates split: sum.splits if_splits)
  qed
qed

section \<open>The invariant holds\<close>

lemma queue_step:
  assumes "bridge_step sha256 b c" "length (bg_queue b) \<le> TRANSFER_QUEUE_CHUNKS"
  shows "length (bg_queue c) \<le> TRANSFER_QUEUE_CHUNKS"
  using assms(1)
proof (cases rule: step_stream_cases)
  case quiet
  then show ?thesis using assms(2) still_same(15) [OF quiet_still [OF quiet]] by simp
next
  case (chunk ch)
  show ?thesis
  proof (cases rule: handle_binary_cases [of b ch])
    case quiet
    then show ?thesis using assms(2) chunk(2) still_same(15) [OF quiet_still [OF quiet]] by simp
  next
    case taken
    then show ?thesis using assms(2) chunk(2) by simp
  qed
next
  case (destination_end e)
  then show ?thesis using assms(2) still_same(15) [OF still_acks(1)] by simp
next
  case get
  then show ?thesis using assms(2) by (auto simp: relay_get_def split: list.split option.split)
qed (use assms(2) in \<open>simp_all add: request_issued_def begin_issued_def ready_issued_def terminal_issued_def Let_def
    relay_sent_def relay_stopped_def source_succeeded_def finish_table_def\<close>)

lemma bridge_inv_step:
  assumes inv: "bridge_inv sha256 b" and step: "bridge_step sha256 b c"
  shows "bridge_inv sha256 c"
  unfolding bridge_inv_def
  using start_ok_step [OF step inv] flow_ok_step [OF step inv] worker_ok_step [OF step inv] failure_ok_step [OF step inv]
    ack_ok_step [OF step inv] log_ok_step [OF step inv] outcome_ok_step [OF step inv] delete_ok_step [OF step inv]
    queue_step [OF step bridge_invD(9) [OF inv]]
  by simp

definition bridge_init :: "bridge \<Rightarrow> bool" where
  "bridge_init b \<longleftrightarrow>
     b = bridge_new (bg_slot_id b) (bg_src_path b) (bg_dst_path b) (bg_source_device b) (bg_move b) (bg_has_delete b)
       (bg_directory_child b) (bg_expected_size b) (bg_expected_fingerprint b)"

lemma bridge_inv_new: "bridge_inv sha256 (bridge_new i src dst dev move del child expected fp)"
  by (simp add: bridge_new_def facts_new_def bridge_inv_def start_ok_def flow_ok_def worker_ok_def phase_ok_def failure_ok_def
    failures_ok_def ack_ok_def log_ok_def outcome_ok_def delete_ok_def pipeline_def in_transit_def)

lemma bridge_inv_init: "bridge_init b \<Longrightarrow> bridge_inv sha256 b"
  using bridge_inv_new unfolding bridge_init_def by metis

interpretation bridge_relay: inductive_invariant bridge_init "bridge_step sha256" "bridge_inv sha256" for sha256
  by unfold_locales (simp_all add: bridge_inv_init bridge_inv_step)

section \<open>Runs\<close>

text \<open>Moves of a run in which nothing fails, as a function; each is a step.\<close>

datatype bridge_move = MoveIssue | MoveSent | MoveWake | MoveFrame bridge_role bridge_frame | MoveChunk "nat list" | MovePut
  | MoveRelay | MoveFinish

definition issue_move :: "bridge \<Rightarrow> bridge option" where
  "issue_move b =
     (case bg_worker b of
        SendRequest \<Rightarrow> Some (request_issued b)
      | SendBegin t \<Rightarrow> if bf_destination_issued (bg_facts b) then None else Some (begin_issued b)
      | SendReady \<Rightarrow> if bf_source_ready_issued (bg_facts b) then None else Some (ready_issued b)
      | SendTerminal e \<Rightarrow> if bf_destination_terminal_issued (bg_facts b) then None else Some (terminal_issued e b)
      | _ \<Rightarrow> None)"

definition wake_move :: "(nat list \<Rightarrow> ustr) \<Rightarrow> bridge \<Rightarrow> bridge option" where
  "wake_move sha256 b =
     (case bg_worker b of
        Waiting st \<Rightarrow> map_option (\<lambda>r. b\<lparr>bg_worker := Resuming st r\<rparr>) (first_done (stage_futures st b))
      | Resuming st r \<Rightarrow> Some (stage_resume st r b)
      | AwaitAck \<Rightarrow> (case bf_destination_ack_future (bg_facts b) of
            Some (Result ack) \<Rightarrow> Some (ack_received sha256 ack b) | _ \<Rightarrow> None)
      | DeleteSource ack \<Rightarrow> Some (source_deleted sha256 True ack b)
      | _ \<Rightarrow> None)"

definition finish_move :: "bridge \<Rightarrow> bridge option" where
  "finish_move b =
     (case bg_finish b of
        FinishStart p \<Rightarrow> Some (finish_start p b)
      | FinishJoin p \<Rightarrow> if relay_running b \<or> bf_timeout_ack_in_flight (bg_facts b) then None else Some (finish_table p b)
      | FinishLease p \<Rightarrow> Some (finish_complete p b)
      | _ \<Rightarrow> None)"

fun bridge_moves :: "(nat list \<Rightarrow> ustr) \<Rightarrow> bridge_move \<Rightarrow> bridge \<Rightarrow> bridge option" where
  "bridge_moves sha256 MoveIssue b = issue_move b"
| "bridge_moves sha256 MoveSent b = send_succeeded sha256 b"
| "bridge_moves sha256 MoveWake b = wake_move sha256 b"
| "bridge_moves sha256 (MoveFrame role fr) b = (if takes_frames role b then Some (handle_bridge_frame sha256 role fr b) else None)"
| "bridge_moves sha256 (MoveChunk chunk) b = (if takes_frames SourceRole b then Some (handle_bridge_binary SourceRole chunk b) else None)"
| "bridge_moves sha256 MovePut b =
     (case bg_put b of
        Putting item \<Rightarrow> if length (bg_queue b) < TRANSFER_QUEUE_CHUNKS
          then Some (b\<lparr>bg_queue := bg_queue b @ [item], bg_put := NoPut\<rparr>) else None
      | NoPut \<Rightarrow> None)"
| "bridge_moves sha256 MoveRelay b =
     (case bg_relay b of RelayGet \<Rightarrow> Some (relay_get b) | RelaySend chunk \<Rightarrow> Some (relay_sent chunk b) | _ \<Rightarrow> None)"
| "bridge_moves sha256 MoveFinish b = finish_move b"

fun bridge_run :: "(nat list \<Rightarrow> ustr) \<Rightarrow> bridge_move list \<Rightarrow> bridge \<Rightarrow> bridge option" where
  "bridge_run sha256 [] b = Some b"
| "bridge_run sha256 (m # ms) b = Option.bind (bridge_moves sha256 m b) (bridge_run sha256 ms)"

lemma bridge_moves_step: "bridge_moves sha256 m b = Some c \<Longrightarrow> bridge_step sha256 b c"
  by (cases m) (auto simp: issue_move_def wake_move_def finish_move_def simp del: send_succeeded.simps intro: bridge_step.intros
    split: worker_phase.splits put_phase.splits relay_phase.splits finish_phase.splits if_splits option.splits py_future.splits)

lemma bridge_run_reachable:
  "reachable bridge_init (bridge_step sha256) b \<Longrightarrow> bridge_run sha256 ms b = Some c \<Longrightarrow> reachable bridge_init (bridge_step sha256) c"
proof (induction ms arbitrary: b)
  case (Cons m ms)
  then obtain d where d: "bridge_moves sha256 m b = Some d" "bridge_run sha256 ms d = Some c"
    by (auto split: bind_splits)
  have "reachable bridge_init (bridge_step sha256) d"
    using Cons.prems(1) bridge_moves_step [OF d(1)] by (rule reach_step)
  then show ?case using d(2) by (rule Cons.IH)
qed simp

lemma bridge_init_new: "bridge_init (bridge_new i src dst dev move del child expected fp)"
  by (simp add: bridge_init_def bridge_new_def)

text \<open>A move of two bytes that succeeds, with a digest that is the bytes themselves.\<close>

definition example_begin :: transfer_begin where
  "example_begin = \<lparr>tb_client_to_server = True, tb_file_transfer = True, tb_src_device = None, tb_src_path = Some [1],
     tb_dst_device = None, tb_dst_path = Some [2], tb_total_bytes = Some 2, tb_etag = Some [7]\<rparr>"

definition example_terminal :: "bool \<Rightarrow> transfer_end" where
  "example_terminal ack = \<lparr>te_id = 5, te_ack = ack, te_ok = True, te_code = None, te_bytes_sent = Some 2, te_sha256 = Some [65, 66],
     te_etag = None, te_created = None\<rparr>"

definition example_moves :: "bridge_move list" where
  "example_moves =
     [MoveIssue, MoveSent, MoveFrame SourceRole (FrameBegin example_begin), MoveWake, MoveWake, MoveIssue, MoveSent,
      MoveFrame DestinationRole FrameReady, MoveWake, MoveWake, MoveIssue, MoveSent, MoveChunk [65, 66], MovePut, MoveRelay,
      MoveRelay, MoveFrame SourceRole (FrameEnd (example_terminal False)), MovePut, MoveRelay, MoveWake, MoveWake, MoveWake,
      MoveWake, MoveIssue, MoveSent, MoveFrame DestinationRole (FrameEnd (example_terminal True)), MoveWake, MoveSent,
      MoveWake, MoveFinish, MoveFinish, MoveFinish]"

definition example_bridge :: "bridge option" where
  "example_bridge = bridge_run (\<lambda>bs. bs) example_moves (bridge_new 5 [1] [2] [3] True True False None None)"

lemma example_outcome:
  "map_option (\<lambda>b. (bg_completion b, bg_deletes b)) example_bridge =
     Some (Result \<lparr>tr_bytes_transferred = 2, tr_sha256 = [65, 66], tr_warnings = [], tr_etag = None, tr_created = None\<rparr>, [[7]])"
  by code_simp

section \<open>What a bridge promises\<close>

lemma acked_delivered:
  assumes "bridge_inv sha256 b" "acked sha256 b"
  shows "\<exists>e ack. bf_source_end (bg_facts b) = Some e \<and> te_ok e \<and> source_matches sha256 e b \<and>
    delivered (content b) e (bg_sent b) \<and>
    bf_destination_ack (bg_facts b) = Some ack \<and> te_ok ack \<and> te_bytes_sent ack = Some (length (content b)) \<and>
    te_sha256 ack = Some (sha256 (content b))"
proof -
  obtain ack where ack: "bf_destination_ack (bg_facts b) = Some ack" "te_ok ack" "te_bytes_sent ack = Some (length (content b))"
      "te_sha256 ack = Some (sha256 (content b))" "bf_destination_terminal_issued (bg_facts b)"
    using assms(2) by (auto simp: acked_def split: option.splits)
  obtain e where e: "bf_source_end (bg_facts b) = Some e" "te_ok e" "delivered (content b) e (bg_sent b)"
    using bridge_invD(6) [OF assms(1)] ack(5) by (auto simp: log_ok_def)
  then have "source_matches sha256 e b" using flow_okD(5) [OF bridge_invD(2) [OF assms(1)]] by blast
  then show ?thesis using e ack by blast
qed

text \<open>
  C36. A relayed transfer reports a result only if the destination was sent exactly the bytes that were
  received from the source, in order, followed by the success terminal of the source and no further
  chunk, whose length and digest are those of the bytes and of the size that the source declared; the
  destination has acknowledged the same length and digest, and the result states them. This holds for
  every interleaving of the worker, the relay, the frames of both devices, lost connections,
  cancellations and timeouts.
\<close>

theorem bridge_result_faithful:
  assumes "reachable bridge_init (bridge_step sha256) b" "bg_completion b = Result r"
  shows "\<exists>e ack. bf_source_end (bg_facts b) = Some e \<and> te_ok e \<and> source_matches sha256 e b \<and>
    delivered (content b) e (bg_sent b) \<and>
    bf_destination_ack (bg_facts b) = Some ack \<and> te_ok ack \<and> te_bytes_sent ack = Some (length (content b)) \<and>
    te_sha256 ack = Some (sha256 (content b)) \<and>
    tr_bytes_transferred r = length (content b) \<and> tr_sha256 r = sha256 (content b)"
proof -
  have inv: "bridge_inv sha256 b" using assms(1) by (rule bridge_relay.inv_reachable)
  then have "result_ok sha256 b r" using bridge_invD(7) assms(2) by (auto simp: outcome_ok_def)
  then show ?thesis using acked_delivered [OF inv] by (auto simp: result_ok_def)
qed

lemma example_reachable: "example_bridge = Some b \<Longrightarrow> reachable bridge_init (bridge_step (\<lambda>bs. bs)) b"
  using bridge_run_reachable [OF reach_start [of bridge_init, OF bridge_init_new]] unfolding example_bridge_def by blast

lemma example_final:
  obtains b where "example_bridge = Some b" "bg_deletes b = [[7]]"
    "bg_completion b = Result \<lparr>tr_bytes_transferred = 2, tr_sha256 = [65, 66], tr_warnings = [], tr_etag = None, tr_created = None\<rparr>"
  using example_outcome by auto

theorem bridge_result_faithful_witness:
  "\<exists>b e. example_bridge = Some b \<and> delivered (content b) e (bg_sent b) \<and> length (content b) = 2 \<and> content b = [65, 66]"
proof -
  obtain b where b: "example_bridge = Some b"
    "bg_completion b = Result \<lparr>tr_bytes_transferred = 2, tr_sha256 = [65, 66], tr_warnings = [], tr_etag = None, tr_created = None\<rparr>"
    by (rule example_final)
  show ?thesis using bridge_result_faithful [OF example_reachable [OF b(1)] b(2)] b(1) by fastforce
qed

text \<open>
  C37. A relay deletes the source file at most once, only for a move, with the fingerprint that the source
  declared, after the source was sent the acknowledgement, and only when the destination was sent all
  bytes and the terminal and has acknowledged their length and digest.
\<close>

theorem bridge_delete_confirmed:
  assumes "reachable bridge_init (bridge_step sha256) b" "bg_deletes b \<noteq> []"
  shows "bg_move b \<and> bg_source_ack_delivered b \<and> (\<exists>fp. bg_deletes b = [fp] \<and> bg_fingerprint b = Some fp) \<and>
    (\<exists>e ack. bf_source_end (bg_facts b) = Some e \<and> te_ok e \<and> source_matches sha256 e b \<and>
      delivered (content b) e (bg_sent b) \<and>
      bf_destination_ack (bg_facts b) = Some ack \<and> te_ok ack \<and> te_bytes_sent ack = Some (length (content b)) \<and>
      te_sha256 ack = Some (sha256 (content b)))"
proof -
  have inv: "bridge_inv sha256 b" using assms(1) by (rule bridge_relay.inv_reachable)
  note del = bridge_invD(8) [OF inv, unfolded delete_ok_def, rule_format, OF assms(2)]
  then have "bg_deletes b = [hd (bg_deletes b)]" using assms(2) by (cases "bg_deletes b") auto
  then show ?thesis using del acked_delivered [OF inv] by blast
qed

theorem bridge_delete_confirmed_witness:
  "\<exists>b. example_bridge = Some b \<and> bg_deletes b = [[7]] \<and> bg_fingerprint b = Some [7] \<and> bg_move b"
proof -
  obtain b where b: "example_bridge = Some b" "bg_deletes b = [[7]]" by (rule example_final)
  show ?thesis using bridge_delete_confirmed [OF example_reachable [OF b(1)]] b by auto
qed

end
