(* ===== verification/Network_Policy.thy ===== *)
theory Network_Policy
  imports Py_Json Error_Codes "HOL-Library.Product_Lexorder" "HOL-Library.Disjoint_Sets"
begin

text \<open>
  The outbound network policy: \<open>network_policy.py\<close>.

  A network is its version, the number of its first address and its prefix length, and the
  operations of \<open>ipaddress\<close> that the source uses on networks are arithmetic on them. The textual
  forms of addresses and networks and the IDNA codec are the fields of \<open>ip_text\<close>.
\<close>

section \<open>Networks\<close>

datatype ip_version = V4 | V6

fun version_bits :: "ip_version \<Rightarrow> nat" where
  "version_bits V4 = 32"
| "version_bits V6 = 128"

record ip_address =
  ia_version :: ip_version
  ia_value :: int
  ia_scope :: "ustr option"

record ip_network =
  nw_version :: ip_version
  nw_address :: int
  nw_prefixlen :: nat
  nw_scope :: "ustr option"

definition nw_size :: "ip_network \<Rightarrow> int" where
  "nw_size n = 2 ^ (version_bits (nw_version n) - nw_prefixlen n)"

definition nw_broadcast :: "ip_network \<Rightarrow> int" where
  "nw_broadcast n = nw_address n + nw_size n - 1"

definition in_network :: "ip_address \<Rightarrow> ip_network \<Rightarrow> bool" where
  "in_network a n \<longleftrightarrow>
     ia_version a = nw_version n \<and> nw_address n \<le> ia_value a \<and> ia_value a \<le> nw_broadcast n"

text \<open>\<open>_subnet_of\<close>, with \<open>IPv4Network.subnet_of\<close> and \<open>IPv6Network.subnet_of\<close>.\<close>

definition subnet_of :: "ip_network \<Rightarrow> ip_network \<Rightarrow> bool" where
  "subnet_of n parent \<longleftrightarrow>
     nw_version n = nw_version parent \<and>
     nw_address parent \<le> nw_address n \<and> nw_broadcast n \<le> nw_broadcast parent"

definition lower_half :: "ip_network \<Rightarrow> ip_network" where
  "lower_half n = n\<lparr>nw_prefixlen := Suc (nw_prefixlen n), nw_scope := None\<rparr>"

definition upper_half :: "ip_network \<Rightarrow> ip_network" where
  "upper_half n = n\<lparr>nw_address := nw_address n + nw_size (lower_half n), nw_prefixlen := Suc (nw_prefixlen n),
     nw_scope := None\<rparr>"

text \<open>
  The loop of \<open>address_exclude\<close> on the two halves of a network that properly contains \<open>other\<close>.
  \<open>None\<close> is an exception, which cannot happen there.
\<close>

function exclude_from :: "ip_network \<Rightarrow> ip_network \<Rightarrow> ip_network list option" where
  "exclude_from n other =
     (if version_bits (nw_version n) \<le> nw_prefixlen n then None
      else let s1 = lower_half n; s2 = upper_half n
           in if s1 = other then Some [s2]
              else if s2 = other then Some [s1]
              else if subnet_of other s1 then map_option ((#) s2) (exclude_from s1 other)
              else if subnet_of other s2 then map_option ((#) s1) (exclude_from s2 other)
              else None)"
  by pat_completeness auto
termination
  by (relation "measure (\<lambda>(n, other). version_bits (nw_version n) - nw_prefixlen n)")
    (auto simp: lower_half_def upper_half_def)

declare exclude_from.simps [simp del]

definition address_exclude :: "ip_network \<Rightarrow> ip_network \<Rightarrow> ip_network list option" where
  "address_exclude n other =
     (if \<not> subnet_of other n then None else if other = n then Some [] else exclude_from n other)"

fun exclude_step :: "ip_network \<Rightarrow> ip_network list \<Rightarrow> ip_network list option" where
  "exclude_step exclusion [] = Some []"
| "exclude_step exclusion (n # ns) =
     (case (if subnet_of exclusion n then address_exclude n exclusion else Some [n]) of
        None \<Rightarrow> None | Some pieces \<Rightarrow> map_option (\<lambda>later. pieces @ later) (exclude_step exclusion ns))"

fun exclude_all :: "ip_network \<Rightarrow> ip_network list \<Rightarrow> ip_network list \<Rightarrow> ip_network list option" where
  "exclude_all base [] remaining = Some remaining"
| "exclude_all base (e # es) remaining =
     (if \<not> subnet_of e base then None
      else case exclude_step e remaining of None \<Rightarrow> None | Some next' \<Rightarrow> exclude_all base es next')"

text \<open>\<open>_network_without\<close> before the networks are written out.\<close>

definition network_without :: "ip_network \<Rightarrow> ip_network list \<Rightarrow> ip_network list option" where
  "network_without base exclusions =
     map_option (sort_key (\<lambda>n. (nw_address n, nw_prefixlen n))) (exclude_all base exclusions [base])"

section \<open>Aligned blocks\<close>

definition nw_ok :: "ip_network \<Rightarrow> bool" where
  "nw_ok n \<longleftrightarrow> nw_scope n = None \<and> nw_prefixlen n \<le> version_bits (nw_version n) \<and> 0 \<le> nw_address n \<and> nw_size n dvd nw_address n"

definition nw_addresses :: "ip_network \<Rightarrow> int set" where
  "nw_addresses n = {nw_address n..<nw_address n + nw_size n}"

lemma nw_size_pos [simp]: "0 < nw_size n" by (simp add: nw_size_def)

lemma nw_addresses_nonempty: "nw_address n \<in> nw_addresses n"
  by (simp add: nw_addresses_def)

lemma subnet_of_iff:
  "subnet_of n m \<longleftrightarrow> nw_version n = nw_version m \<and> nw_addresses n \<subseteq> nw_addresses m"
proof -
  have "\<not> nw_address n + nw_size n \<le> nw_address n" by (simp add: not_le)
  then show ?thesis
    by (auto simp: subnet_of_def nw_broadcast_def nw_addresses_def atLeastLessThan_subset_iff)
qed

lemma multiple_below:
  fixes a b d :: int
  assumes "d dvd a" "d dvd b" "0 < d" "a < b"
  shows "a + d \<le> b"
proof -
  obtain x y where "a = d * x" "b = d * y" using assms by (auto elim!: dvdE)
  then show ?thesis using assms(3,4) by (metis mult_less_cancel_left_pos zless_imp_add1_zle
        distrib_left mult.right_neutral mult_le_cancel_left_pos)
qed

lemma nw_size_dvd:
  "nw_version n = nw_version m \<Longrightarrow> nw_prefixlen m \<le> nw_prefixlen n \<Longrightarrow> nw_size n dvd nw_size m"
  by (simp add: nw_size_def le_imp_power_dvd)

text \<open>Two aligned blocks are nested or disjoint.\<close>

lemma blocks_nested:
  assumes "nw_ok n" "nw_ok m" "nw_version n = nw_version m" "nw_prefixlen m \<le> nw_prefixlen n"
  shows "nw_addresses n \<subseteq> nw_addresses m \<or> nw_addresses n \<inter> nw_addresses m = {}"
proof -
  have d: "nw_size n dvd nw_size m" using assms(3,4) by (rule nw_size_dvd)
  have n: "nw_size n dvd nw_address n" and m: "nw_size n dvd nw_address m"
    using assms(1,2) d by (auto simp: nw_ok_def intro: dvd_trans)
  have "nw_size n dvd nw_address m + nw_size m" using m d by simp
  consider "nw_address n < nw_address m" | "nw_address m + nw_size m \<le> nw_address n"
    | "nw_address m \<le> nw_address n" "nw_address n < nw_address m + nw_size m" by linarith
  then show ?thesis
  proof cases
    case 1
    from multiple_below [OF n m nw_size_pos this] show ?thesis by (auto simp: nw_addresses_def)
  next
    case 2
    then show ?thesis by (auto simp: nw_addresses_def)
  next
    case 3
    from multiple_below [OF n \<open>nw_size n dvd nw_address m + nw_size m\<close> nw_size_pos 3(2)] 3
    show ?thesis by (auto simp: nw_addresses_def)
  qed
qed

lemma block_eqI:
  assumes "nw_ok n" "nw_ok m" "nw_version n = nw_version m" "nw_addresses n = nw_addresses m"
  shows "n = m"
proof -
  have "nw_address n = nw_address m \<and> nw_size n = nw_size m"
    using assms(4) atLeastLessThan_eq_iff [of "nw_address n" "nw_address n + nw_size n"
        "nw_address m" "nw_address m + nw_size m"] by (simp add: nw_addresses_def)
  moreover from this have "nw_prefixlen n = nw_prefixlen m"
    using assms(1-3) by (simp add: nw_size_def nw_ok_def) linarith
  ultimately show ?thesis using assms(1-3) by (simp add: nw_ok_def)
qed

lemma prefix_of_subset:
  assumes "nw_ok n" "nw_ok m" "nw_version n = nw_version m" "nw_addresses n \<subset> nw_addresses m"
  shows "nw_prefixlen m < nw_prefixlen n"
proof (rule ccontr)
  assume "\<not> nw_prefixlen m < nw_prefixlen n"
  then have "nw_addresses m \<subseteq> nw_addresses n \<or> nw_addresses m \<inter> nw_addresses n = {}"
    by (intro blocks_nested) (use assms in simp_all)
  then show False using assms(4) nw_addresses_nonempty [of n] by blast
qed

lemma blocks_nested_or_disjoint:
  assumes "nw_ok n" "nw_ok m" "nw_version n = nw_version m"
  shows "nw_addresses n \<subseteq> nw_addresses m \<or> nw_addresses m \<subset> nw_addresses n \<or> nw_addresses n \<inter> nw_addresses m = {}"
proof (cases "nw_prefixlen m \<le> nw_prefixlen n")
  case True
  then show ?thesis using blocks_nested [OF assms] by blast
next
  case False
  then show ?thesis using blocks_nested [OF assms(2,1)] assms(3) by force
qed

section \<open>Halves\<close>

lemma halves_version [simp]:
  "nw_version (lower_half n) = nw_version n" "nw_version (upper_half n) = nw_version n"
  by (simp_all add: lower_half_def upper_half_def)

lemma halves_size:
  assumes "nw_prefixlen n < version_bits (nw_version n)"
  shows "nw_size n = 2 * nw_size (lower_half n)" "nw_size (upper_half n) = nw_size (lower_half n)"
proof -
  have "version_bits (nw_version n) - nw_prefixlen n = Suc (version_bits (nw_version n) - Suc (nw_prefixlen n))"
    using assms by simp
  then show "nw_size n = 2 * nw_size (lower_half n)" by (simp add: nw_size_def lower_half_def)
  show "nw_size (upper_half n) = nw_size (lower_half n)" by (simp add: nw_size_def lower_half_def upper_half_def)
qed

lemma halves_ok:
  assumes "nw_ok n" "nw_prefixlen n < version_bits (nw_version n)"
  shows "nw_ok (lower_half n)" "nw_ok (upper_half n)"
proof -
  have "nw_size (lower_half n) dvd nw_address n"
    using assms(1) halves_size(1) [OF assms(2)] by (auto simp: nw_ok_def dest: dvd_mult_right)
  then show "nw_ok (lower_half n)" "nw_ok (upper_half n)"
    using assms halves_size [OF assms(2)] nw_size_pos [of "lower_half n"]
    by (auto simp: nw_ok_def) (auto simp: lower_half_def upper_half_def less_imp_le)
qed

lemma halves_addresses:
  assumes "nw_prefixlen n < version_bits (nw_version n)"
  shows "nw_addresses (lower_half n) \<union> nw_addresses (upper_half n) = nw_addresses n"
    and "nw_addresses (lower_half n) \<inter> nw_addresses (upper_half n) = {}"
  using halves_size [OF assms] nw_size_pos [of "lower_half n"]
  by (auto simp: nw_addresses_def) (auto simp: lower_half_def upper_half_def)

section \<open>Excluding networks\<close>

text \<open>
  A list of blocks inside a base that are the maximal blocks avoiding the exclusions: they are
  disjoint, cover what is left, and every larger block inside the base meets an exclusion.
\<close>

definition covers_rest :: "ip_network \<Rightarrow> ip_network list \<Rightarrow> ip_network list \<Rightarrow> bool" where
  "covers_rest base exclusions ns \<longleftrightarrow>
     (\<forall>n\<in>set ns. nw_ok n \<and> nw_version n = nw_version base) \<and>
     (\<Union>n\<in>set ns. nw_addresses n) = nw_addresses base - (\<Union>e\<in>set exclusions. nw_addresses e) \<and>
     sorted_wrt (\<lambda>m n. nw_addresses m \<inter> nw_addresses n = {}) ns \<and>
     (\<forall>n\<in>set ns. \<forall>m. nw_ok m \<longrightarrow> nw_version m = nw_version base \<longrightarrow> nw_addresses n \<subset> nw_addresses m \<longrightarrow>
        nw_addresses m \<subseteq> nw_addresses base \<longrightarrow> (\<exists>e\<in>set exclusions. nw_addresses m \<inter> nw_addresses e \<noteq> {}))"

text \<open>A block that properly contains a half contains the whole.\<close>

lemma above_half:
  assumes "nw_ok n" "nw_prefixlen n < version_bits (nw_version n)" "s = lower_half n \<or> s = upper_half n"
    and "nw_ok m" "nw_version m = nw_version n" "nw_addresses s \<subset> nw_addresses m"
  shows "nw_addresses n \<subseteq> nw_addresses m"
proof -
  have s: "nw_ok s" "nw_version s = nw_version n" "nw_addresses s \<subseteq> nw_addresses n" "nw_prefixlen s = Suc (nw_prefixlen n)"
    using assms(3) halves_ok [OF assms(1,2)] halves_addresses [OF assms(2)] by (auto simp: lower_half_def upper_half_def)
  have "nw_prefixlen m < nw_prefixlen s" by (rule prefix_of_subset) (use s assms in simp_all)
  then have "nw_prefixlen m \<le> nw_prefixlen n" using s(4) by simp
  then have "nw_addresses n \<subseteq> nw_addresses m \<or> nw_addresses n \<inter> nw_addresses m = {}"
    by (intro blocks_nested) (use assms in simp_all)
  then show ?thesis using s(3) assms(6) nw_addresses_nonempty [of s] by blast
qed

lemma inside_half:
  assumes "nw_ok n" "nw_ok e" "nw_version e = nw_version n" "nw_addresses e \<subset> nw_addresses n"
  shows "nw_prefixlen n < version_bits (nw_version n)"
    and "nw_addresses e \<subseteq> nw_addresses (lower_half n) \<or> nw_addresses e \<subseteq> nw_addresses (upper_half n)"
proof -
  have p: "nw_prefixlen n < nw_prefixlen e" by (rule prefix_of_subset) (use assms in simp_all)
  then show b: "nw_prefixlen n < version_bits (nw_version n)" using assms(2,3) by (simp add: nw_ok_def)
  have "nw_addresses e \<subseteq> nw_addresses (lower_half n) \<or> nw_addresses e \<inter> nw_addresses (lower_half n) = {}"
    by (rule blocks_nested) (use assms p halves_ok [OF assms(1) b] in \<open>simp_all add: lower_half_def\<close>)
  then show "nw_addresses e \<subseteq> nw_addresses (lower_half n) \<or> nw_addresses e \<subseteq> nw_addresses (upper_half n)"
    using halves_addresses(1) [OF b] assms(4) by blast
qed

lemma covers_single:
  assumes "nw_ok n" "nw_prefixlen n < version_bits (nw_version n)"
    and "s = lower_half n \<and> e = upper_half n \<or> s = upper_half n \<and> e = lower_half n"
  shows "covers_rest n [e] [s]"
proof -
  have "nw_ok s" "nw_version s = nw_version n" "nw_addresses s = nw_addresses n - nw_addresses e"
    "nw_addresses e \<subseteq> nw_addresses n"
    using assms(3) halves_ok [OF assms(1,2)] halves_addresses [OF assms(2)] by auto
  moreover have "nw_addresses m \<inter> nw_addresses e \<noteq> {}"
    if "nw_ok m" "nw_version m = nw_version n" "nw_addresses s \<subset> nw_addresses m" for m
    using above_half [OF assms(1,2) _ that] assms(3) calculation(4) nw_addresses_nonempty [of e] by blast
  ultimately show ?thesis by (simp add: covers_rest_def)
qed

lemma covers_Cons_half:
  assumes "nw_ok n" "nw_prefixlen n < version_bits (nw_version n)"
    and "s = lower_half n \<and> t = upper_half n \<or> s = upper_half n \<and> t = lower_half n"
    and "nw_addresses e \<subseteq> nw_addresses s" "covers_rest s [e] ns"
  shows "covers_rest n [e] (t # ns)"
proof -
  have st: "nw_ok t" "nw_ok s" "nw_version t = nw_version n" "nw_version s = nw_version n"
    "nw_addresses s \<union> nw_addresses t = nw_addresses n" "nw_addresses s \<inter> nw_addresses t = {}"
    using assms(3) halves_ok [OF assms(1,2)] halves_addresses [OF assms(2)] by auto
  have ns: "\<forall>n\<in>set ns. nw_ok n \<and> nw_version n = nw_version s"
    "(\<Union>n\<in>set ns. nw_addresses n) = nw_addresses s - nw_addresses e"
    "sorted_wrt (\<lambda>m n. nw_addresses m \<inter> nw_addresses n = {}) ns"
    "\<And>x m. x \<in> set ns \<Longrightarrow> nw_ok m \<Longrightarrow> nw_version m = nw_version s \<Longrightarrow> nw_addresses x \<subset> nw_addresses m \<Longrightarrow>
        nw_addresses m \<subseteq> nw_addresses s \<Longrightarrow> nw_addresses m \<inter> nw_addresses e \<noteq> {}"
    using assms(5) by (auto simp: covers_rest_def)
  have meets: "nw_addresses m \<inter> nw_addresses e \<noteq> {}"
    if m: "nw_ok m" "nw_version m = nw_version n" "nw_addresses s \<subseteq> nw_addresses m" for m
    using m(3) assms(4) nw_addresses_nonempty [of e] by blast
  have large: "nw_addresses m \<inter> nw_addresses e \<noteq> {}"
    if x: "x \<in> set (t # ns)" and m: "nw_ok m" "nw_version m = nw_version n" "nw_addresses x \<subset> nw_addresses m" for x m
  proof (cases "x = t")
    case True
    then show ?thesis using above_half [OF assms(1,2) _ m(1,2)] m(3) assms(3) meets [OF m(1,2)] st(5) by blast
  next
    case False
    then have "x \<in> set ns" using x by simp
    then have sub: "nw_addresses x \<subseteq> nw_addresses s" using ns(2) by blast
    consider "nw_addresses m \<subseteq> nw_addresses s" | "nw_addresses s \<subset> nw_addresses m"
      using blocks_nested_or_disjoint [OF m(1) st(2)] m(2,3) sub st(4) nw_addresses_nonempty [of x] by fastforce
    then show ?thesis
      using ns(4) [OF \<open>x \<in> set ns\<close> m(1)] m(2,3) st(4) meets [OF m(1,2)] by cases auto
  qed
  have "nw_addresses e \<inter> nw_addresses t = {}" using assms(4) st(6) by blast
  then have cover: "(\<Union>n\<in>set (t # ns). nw_addresses n) = nw_addresses n - nw_addresses e"
    using ns(2) st(5) by auto
  have "sorted_wrt (\<lambda>m n. nw_addresses m \<inter> nw_addresses n = {}) (t # ns)"
    using ns(2,3) st(6) by auto
  with cover large ns(1) st(1,3,4) show ?thesis by (simp add: covers_rest_def)
qed

lemma exclude_from_covers:
  assumes "nw_ok n" "nw_ok e" "nw_version e = nw_version n" "nw_addresses e \<subset> nw_addresses n"
  shows "\<exists>ns. exclude_from n e = Some ns \<and> covers_rest n [e] ns"
  using assms
proof (induction n e rule: exclude_from.induct)
  case (1 n e)
  have b: "nw_prefixlen n < version_bits (nw_version n)"
    and half: "nw_addresses e \<subseteq> nw_addresses (lower_half n) \<or> nw_addresses e \<subseteq> nw_addresses (upper_half n)"
    using inside_half [OF 1(3-6)] by blast+
  note ok = halves_ok [OF 1(3) b]
  have disj: "\<not> (nw_addresses e \<subseteq> nw_addresses (lower_half n) \<and> nw_addresses e \<subseteq> nw_addresses (upper_half n))"
    using halves_addresses(2) [OF b] nw_addresses_nonempty [of e] by blast
  consider "lower_half n = e" | "upper_half n = e" "lower_half n \<noteq> e"
    | "lower_half n \<noteq> e" "upper_half n \<noteq> e" "nw_addresses e \<subset> nw_addresses (lower_half n)"
    | "lower_half n \<noteq> e" "upper_half n \<noteq> e" "nw_addresses e \<subset> nw_addresses (upper_half n)"
      "\<not> nw_addresses e \<subseteq> nw_addresses (lower_half n)"
    using half disj block_eqI [OF ok(1) 1(4)] block_eqI [OF ok(2) 1(4)] 1(5)
    by (metis halves_version psubsetI)
  then show ?case
  proof cases
    case 1
    then show ?thesis using covers_single [OF \<open>nw_ok n\<close> b, of "upper_half n" e] b
      by (simp add: exclude_from.simps [of n e] Let_def)
  next
    case 2
    then show ?thesis using covers_single [OF \<open>nw_ok n\<close> b, of "lower_half n" e] b
      by (simp add: exclude_from.simps [of n e] Let_def)
  next
    case 3
    then have sub: "subnet_of e (lower_half n)" using 1(5) by (simp add: subnet_of_iff)
    then obtain ns where ns: "exclude_from (lower_half n) e = Some ns" "covers_rest (lower_half n) [e] ns"
      using 1(1) [of "lower_half n" "upper_half n"] b 3 ok 1(4,5) by auto
    then show ?thesis using covers_Cons_half [OF \<open>nw_ok n\<close> b, of "lower_half n" "upper_half n" e ns] 3 b sub
      by (simp add: exclude_from.simps [of n e] Let_def psubset_imp_subset)
  next
    case 4
    then have sub: "subnet_of e (upper_half n)" "\<not> subnet_of e (lower_half n)" using 1(5) by (simp_all add: subnet_of_iff)
    then obtain ns where ns: "exclude_from (upper_half n) e = Some ns" "covers_rest (upper_half n) [e] ns"
      using 1(2) [of "lower_half n" "upper_half n"] b 4 ok 1(4,5) by auto
    then show ?thesis using covers_Cons_half [OF \<open>nw_ok n\<close> b, of "upper_half n" "lower_half n" e ns] 4 b sub
      by (simp add: exclude_from.simps [of n e] Let_def psubset_imp_subset)
  qed
qed

lemma address_exclude_covers:
  assumes "nw_ok n" "nw_ok e" "nw_version e = nw_version n" "nw_addresses e \<subseteq> nw_addresses n"
  shows "\<exists>ns. address_exclude n e = Some ns \<and> covers_rest n [e] ns"
proof (cases "e = n")
  case True
  then show ?thesis by (simp add: address_exclude_def covers_rest_def subnet_of_iff)
next
  case False
  then have "nw_addresses e \<subset> nw_addresses n" using assms block_eqI by blast
  with False assms exclude_from_covers [OF assms(1-3)] show ?thesis
    by (simp add: address_exclude_def subnet_of_iff)
qed

lemma exclude_step_append:
  "exclude_step e (xs @ ys) =
     (case exclude_step e xs of None \<Rightarrow> None
      | Some a \<Rightarrow> map_option (\<lambda>b. a @ b) (exclude_step e ys))"
proof (induction xs)
  case Nil
  show ?case by (cases "exclude_step e ys") auto
next
  case (Cons x xs)
  then show ?case by (cases "exclude_step e ys") (auto split: option.splits)
qed

lemma exclude_step_unchanged: "\<forall>n\<in>set ns. \<not> subnet_of e n \<Longrightarrow> exclude_step e ns = Some ns"
  by (induction ns) auto

lemma covers_restD:
  assumes "covers_rest base es ns"
  shows "n \<in> set ns \<Longrightarrow> nw_ok n" "n \<in> set ns \<Longrightarrow> nw_version n = nw_version base"
    and "(\<Union>n\<in>set ns. nw_addresses n) = nw_addresses base - (\<Union>e\<in>set es. nw_addresses e)"
    and "sorted_wrt (\<lambda>m n. nw_addresses m \<inter> nw_addresses n = {}) ns"
    and "n \<in> set ns \<Longrightarrow> nw_ok m \<Longrightarrow> nw_version m = nw_version base \<Longrightarrow> nw_addresses n \<subset> nw_addresses m \<Longrightarrow>
        nw_addresses m \<subseteq> nw_addresses base \<Longrightarrow> \<exists>e\<in>set es. nw_addresses m \<inter> nw_addresses e \<noteq> {}"
  using assms unfolding covers_rest_def by blast+

lemma covers_replace:
  assumes "covers_rest base es (xs @ r # ys)" "covers_rest r [e] ps" "nw_addresses e \<subseteq> nw_addresses r"
  shows "covers_rest base (es @ [e]) (xs @ ps @ ys)"
proof -
  note old = covers_restD [OF assms(1)] and new = covers_restD [OF assms(2)]
  have r: "nw_ok r" "nw_version r = nw_version base" using old(1,2) [of r] by simp_all
  have within: "nw_addresses p \<subseteq> nw_addresses r" if "p \<in> set ps" for p using new(3) that by auto
  have apart: "nw_addresses x \<inter> nw_addresses r = {}" if "x \<in> set xs \<union> set ys" for x
    using old(4) that by (auto simp: sorted_wrt_append)
  have sorted: "sorted_wrt (\<lambda>m n. nw_addresses m \<inter> nw_addresses n = {}) (xs @ ps @ ys)"
    using old(4) new(4) within by (auto simp: sorted_wrt_append) blast+
  have cover: "(\<Union>n\<in>set (xs @ ps @ ys). nw_addresses n) =
      nw_addresses base - (\<Union>x\<in>set (es @ [e]). nw_addresses x)"
  proof -
    have "(\<Union>n\<in>set (xs @ ps @ ys). nw_addresses n) =
        ((\<Union>n\<in>set xs \<union> set ys. nw_addresses n) \<union> nw_addresses r) - nw_addresses e"
    proof -
      have "(\<Union>n\<in>set xs \<union> set ys. nw_addresses n) \<inter> nw_addresses e = {}" using apart assms(3) by blast
      then show ?thesis using new(3) by auto
    qed
    also have "(\<Union>n\<in>set xs \<union> set ys. nw_addresses n) \<union> nw_addresses r = (\<Union>n\<in>set (xs @ r # ys). nw_addresses n)"
      by auto
    finally show ?thesis using old(3) by auto
  qed
  have large: "\<exists>x\<in>set (es @ [e]). nw_addresses m \<inter> nw_addresses x \<noteq> {}"
    if n: "n \<in> set (xs @ ps @ ys)" and m: "nw_ok m" "nw_version m = nw_version base"
      "nw_addresses n \<subset> nw_addresses m" "nw_addresses m \<subseteq> nw_addresses base" for n m
  proof (cases "n \<in> set ps")
    case False
    then have "n \<in> set (xs @ r # ys)" using n by auto
    from old(5) [OF this m] show ?thesis by auto
  next
    case True
    then have sub: "nw_addresses n \<subseteq> nw_addresses r" by (rule within)
    consider "nw_addresses m \<subseteq> nw_addresses r" | "nw_addresses r \<subset> nw_addresses m"
      using blocks_nested_or_disjoint [OF m(1) r(1)] r(2) m(2,3) sub nw_addresses_nonempty [of n] by fastforce
    then show ?thesis
    proof cases
      case 1
      then show ?thesis using new(5) [OF True m(1)] m(2,3) r(2) by auto
    next
      case 2
      then show ?thesis using old(5) [of r m] m by auto
    qed
  qed
  have "\<forall>n\<in>set (xs @ ps @ ys). nw_ok n \<and> nw_version n = nw_version base"
  proof
    fix n
    assume "n \<in> set (xs @ ps @ ys)"
    then consider "n \<in> set ps" | "n \<in> set (xs @ r # ys)" by auto
    then show "nw_ok n \<and> nw_version n = nw_version base"
      using old(1,2) [of n] new(1,2) [of n] r(2) by cases simp_all
  qed
  with cover sorted large show ?thesis unfolding covers_rest_def by blast
qed

lemma exclude_step_covers:
  assumes "covers_rest base es ns" "nw_ok e" "subnet_of e base"
    and "\<forall>f\<in>set es. nw_ok f \<and> nw_version f = nw_version base \<and> \<not> nw_addresses f \<subset> nw_addresses e"
  shows "\<exists>ns'. exclude_step e ns = Some ns' \<and> covers_rest base (es @ [e]) ns'"
proof -
  note old = covers_restD [OF assms(1)]
  have e: "nw_version e = nw_version base" "nw_addresses e \<subseteq> nw_addresses base"
    using assms(3) by (simp_all add: subnet_of_iff)
  show ?thesis
  proof (cases "\<exists>f\<in>set es. nw_addresses f \<inter> nw_addresses e \<noteq> {}")
    case True
    then obtain f where f: "f \<in> set es" "nw_addresses f \<inter> nw_addresses e \<noteq> {}" by blast
    have fok: "nw_ok f" "nw_version e = nw_version f" "\<not> nw_addresses f \<subset> nw_addresses e"
      using assms(4) f(1) e(1) by simp_all
    have gone: "nw_addresses e \<subseteq> nw_addresses f"
      using blocks_nested_or_disjoint [OF assms(2) fok(1,2)] fok(3) f(2) by (simp add: Int_commute)
    then have none: "\<not> subnet_of e n" if "n \<in> set ns" for n
      using old(3) f(1) that nw_addresses_nonempty [of e] by (auto simp: subnet_of_iff)
    have "covers_rest base (es @ [e]) ns"
    proof -
      have "(\<Union>x\<in>set (es @ [e]). nw_addresses x) = (\<Union>x\<in>set es. nw_addresses x)" using gone f(1) by auto
      then show ?thesis using assms(1) unfolding covers_rest_def by (metis Un_iff set_append)
    qed
    then show ?thesis using exclude_step_unchanged [of ns e] none by blast
  next
    case False
    have "nw_address e \<notin> nw_addresses f" if "f \<in> set es" for f
      using False that nw_addresses_nonempty [of e] by blast
    moreover have "nw_address e \<in> nw_addresses base" using e(2) nw_addresses_nonempty [of e] by blast
    ultimately have "nw_address e \<in> (\<Union>n\<in>set ns. nw_addresses n)" unfolding old(3) by simp
    then obtain r where r: "r \<in> set ns" "nw_address e \<in> nw_addresses r" by blast
    then obtain xs ys where ns: "ns = xs @ r # ys" by (auto dest: split_list)
    have rok: "nw_ok r" "nw_version r = nw_version base" using old(1,2) r(1) by blast+
    have sub: "nw_addresses e \<subseteq> nw_addresses r"
    proof (rule ccontr)
      assume "\<not> nw_addresses e \<subseteq> nw_addresses r"
      then have "nw_addresses r \<subset> nw_addresses e"
        using blocks_nested_or_disjoint [OF assms(2) rok(1)] e(1) rok(2) r(2) nw_addresses_nonempty [of e] by auto
      from old(5) [OF r(1) assms(2) e(1) this e(2)] show False using False by (auto simp: Int_commute)
    qed
    obtain ps where ps: "address_exclude r e = Some ps" "covers_rest r [e] ps"
      using address_exclude_covers [OF rok(1) assms(2)] sub e(1) rok(2) by auto
    have "\<not> subnet_of e x" if "x \<in> set xs \<union> set ys" for x
    proof -
      have "nw_addresses x \<inter> nw_addresses r = {}"
        using old(4) that unfolding ns by (auto simp: sorted_wrt_append)
      then show ?thesis using r(2) nw_addresses_nonempty [of e] unfolding subnet_of_iff by blast
    qed
    then have "exclude_step e xs = Some xs" "exclude_step e ys = Some ys"
      by (auto intro!: exclude_step_unchanged)
    then have "exclude_step e ns = Some (xs @ ps @ ys)"
      using ps(1) sub e(1) rok(2) by (simp add: ns exclude_step_append subnet_of_iff)
    then show ?thesis using covers_replace [OF _ ps(2) sub] assms(1) ns by blast
  qed
qed

lemma exclude_all_covers:
  assumes "covers_rest base done' ns" "\<forall>e\<in>set (done' @ es). nw_ok e \<and> subnet_of e base"
    and "sorted_wrt (\<lambda>f e. \<not> nw_addresses f \<subset> nw_addresses e) (done' @ es)"
  shows "\<exists>ns'. exclude_all base es ns = Some ns' \<and> covers_rest base (done' @ es) ns'"
  using assms
proof (induction es arbitrary: done' ns)
  case (Cons e es)
  have e: "nw_ok e" "subnet_of e base" using Cons.prems(2) by simp_all
  have "\<forall>f\<in>set done'. nw_ok f \<and> nw_version f = nw_version base \<and> \<not> nw_addresses f \<subset> nw_addresses e"
    using Cons.prems(2,3) by (auto simp: sorted_wrt_append subnet_of_iff)
  then obtain ns' where ns': "exclude_step e ns = Some ns'" "covers_rest base (done' @ [e]) ns'"
    using exclude_step_covers [OF Cons.prems(1) e] by blast
  have "\<exists>ns''. exclude_all base es ns' = Some ns'' \<and> covers_rest base ((done' @ [e]) @ es) ns''"
    by (rule Cons.IH [OF ns'(2)]) (use Cons.prems(2,3) in simp_all)
  with ns'(1) e(2) show ?case by simp
qed simp

lemma network_without_covers:
  assumes "nw_ok base" "\<forall>e\<in>set es. nw_ok e \<and> subnet_of e base"
    and "sorted_wrt (\<lambda>f e. \<not> nw_addresses f \<subset> nw_addresses e) es"
  obtains ns where "network_without base es = Some ns" "\<forall>n\<in>set ns. nw_ok n \<and> nw_version n = nw_version base"
    "(\<Union>n\<in>set ns. nw_addresses n) = nw_addresses base - (\<Union>e\<in>set es. nw_addresses e)"
    "disjoint_family_on nw_addresses (set ns)"
proof -
  have "covers_rest base [] [base]" using assms(1) by (auto simp: covers_rest_def)
  then obtain ns where ns: "exclude_all base es [base] = Some ns" "covers_rest base es ns"
    using exclude_all_covers [of base "[]" "[base]" es] assms(2,3) by auto
  note c = covers_restD [OF ns(2)]
  have "nw_addresses m \<inter> nw_addresses n = {}" if mn: "m \<in> set ns" "n \<in> set ns" "m \<noteq> n" for m n
  proof -
    obtain i j where ij: "i < length ns" "ns ! i = m" "j < length ns" "ns ! j = n" "i \<noteq> j"
      using mn by (metis in_set_conv_nth)
    then show ?thesis using sorted_wrt_nth_less [OF c(4), of i j] sorted_wrt_nth_less [OF c(4), of j i]
      by (cases "i < j") (auto simp: Int_commute)
  qed
  then have "disjoint_family_on nw_addresses (set ns)" by (auto simp: disjoint_family_on_def)
  with c(1-3) ns(1) show ?thesis
    by (intro that [of "sort_key (\<lambda>n. (nw_address n, nw_prefixlen n)) ns"]) (simp_all add: network_without_def)
qed

section \<open>The policy\<close>

record ip_text =
  parse_network :: "bool \<Rightarrow> ustr \<Rightarrow> ip_network option"
  parse_address :: "ustr \<Rightarrow> ip_address option"
  str_address :: "ip_address \<Rightarrow> ustr"
  with_prefixlen :: "ip_network \<Rightarrow> ustr"
  idna_encode :: "ustr \<Rightarrow> ustr option"

text \<open>The networks of the default list, written as numbers.\<close>

definition net4 :: "int \<Rightarrow> int \<Rightarrow> int \<Rightarrow> int \<Rightarrow> nat \<Rightarrow> ip_network" where
  "net4 a b c d p = \<lparr>nw_version = V4, nw_address = ((a * 256 + b) * 256 + c) * 256 + d, nw_prefixlen = p, nw_scope = None\<rparr>"

definition net6 :: "int list \<Rightarrow> nat \<Rightarrow> ip_network" where
  "net6 hextets p = \<lparr>nw_version = V6, nw_address = foldl (\<lambda>x h. x * 65536 + h) 0 hextets, nw_prefixlen = p, nw_scope = None\<rparr>"

definition IPV4_IETF_PROTOCOL_ASSIGNMENTS :: "ip_network list option" where
  "IPV4_IETF_PROTOCOL_ASSIGNMENTS = network_without (net4 192 0 0 0 24) [net4 192 0 0 9 32, net4 192 0 0 10 32]"

definition IPV6_IETF_PROTOCOL_ASSIGNMENTS :: "ip_network list option" where
  "IPV6_IETF_PROTOCOL_ASSIGNMENTS = network_without (net6 [0x2001, 0, 0, 0, 0, 0, 0, 0] 23)
     [net6 [0x2001, 1, 0, 0, 0, 0, 0, 1] 128, net6 [0x2001, 1, 0, 0, 0, 0, 0, 2] 128,
      net6 [0x2001, 1, 0, 0, 0, 0, 0, 3] 128, net6 [0x2001, 3, 0, 0, 0, 0, 0, 0] 32,
      net6 [0x2001, 4, 0x112, 0, 0, 0, 0, 0] 48, net6 [0x2001, 0x20, 0, 0, 0, 0, 0, 0] 28,
      net6 [0x2001, 0x30, 0, 0, 0, 0, 0, 0] 28]"

definition DEFAULT_SSRF_NETWORKS :: "ip_network list option" where
  "DEFAULT_SSRF_NETWORKS =
     (case (IPV4_IETF_PROTOCOL_ASSIGNMENTS, IPV6_IETF_PROTOCOL_ASSIGNMENTS) of
        (Some v4, Some v6) \<Rightarrow> Some (
          [net4 0 0 0 0 8, net4 10 0 0 0 8, net4 100 64 0 0 10, net4 127 0 0 0 8, net4 169 254 0 0 16,
           net4 172 16 0 0 12] @ v4 @
          [net4 192 0 2 0 24, net4 192 88 99 2 32, net4 192 168 0 0 16, net4 198 18 0 0 15,
           net4 198 51 100 0 24, net4 203 0 113 0 24, net4 224 0 0 0 4, net4 240 0 0 0 4,
           net6 [0, 0, 0, 0, 0, 0, 0, 0] 128, net6 [0, 0, 0, 0, 0, 0, 0, 1] 128,
           net6 [0, 0, 0, 0, 0, 0xffff, 0, 0] 96, net6 [0x64, 0xff9b, 1, 0, 0, 0, 0, 0] 48,
           net6 [0x100, 0, 0, 0, 0, 0, 0, 0] 64, net6 [0x100, 0, 0, 1, 0, 0, 0, 0] 64] @ v6 @
          [net6 [0x2001, 0xdb8, 0, 0, 0, 0, 0, 0] 32, net6 [0x2002, 0, 0, 0, 0, 0, 0, 0] 16,
           net6 [0x3fff, 0, 0, 0, 0, 0, 0, 0] 20, net6 [0x5f00, 0, 0, 0, 0, 0, 0, 0] 16,
           net6 [0xfc00, 0, 0, 0, 0, 0, 0, 0] 7, net6 [0xfe80, 0, 0, 0, 0, 0, 0, 0] 10,
           net6 [0xff00, 0, 0, 0, 0, 0, 0, 0] 8])
      | _ \<Rightarrow> None)"

definition SSRF_MAX_ENTRIES :: nat where "SSRF_MAX_ENTRIES = 256"
definition SSRF_MAX_ENTRY_BYTES :: nat where "SSRF_MAX_ENTRY_BYTES = 512"

record ssrf_policy =
  sp_canonical_entries :: "ustr list"
  sp_networks :: "ip_network list"
  sp_hosts :: "ustr list"
  sp_host_ports :: "(ustr \<times> int) list"

definition denies_host :: "ssrf_policy \<Rightarrow> ustr \<Rightarrow> int \<Rightarrow> bool" where
  "denies_host pol hostname port \<longleftrightarrow>
     hostname \<in> set (sp_hosts pol) \<or> (hostname, port) \<in> set (sp_host_ports pol)"

definition ipv4_mapped :: "ip_address \<Rightarrow> ip_address option" where
  "ipv4_mapped a =
     (if ia_version a = V6 \<and> ia_value a div 2 ^ 32 = 0xffff
      then Some \<lparr>ia_version = V4, ia_value = ia_value a mod 2 ^ 32, ia_scope = None\<rparr> else None)"

definition denies_address :: "ip_text \<Rightarrow> ssrf_policy \<Rightarrow> ip_address \<Rightarrow> int \<Rightarrow> bool" where
  "denies_address tx pol address port =
     (let candidates = address # (case ipv4_mapped address of None \<Rightarrow> [] | Some m \<Rightarrow> [m])
      in list_ex (\<lambda>candidate. (str_address tx candidate, port) \<in> set (sp_host_ports pol) \<or>
           list_ex (in_network candidate) (sp_networks pol)) candidates)"

text \<open>\<open>ConfigError\<close>, and the encoding error of a lone surrogate, which is not translated.\<close>

datatype policy_error = PolicyInvalid | EntryNotEncodable

definition split_port :: "ustr \<Rightarrow> ustr \<Rightarrow> policy_error + ustr \<times> int option" where
  "split_port host port_text =
     (if port_text = [] \<or> \<not> list_all (\<lambda>c. 48 \<le> c \<and> c \<le> 57) port_text then Inl PolicyInvalid
      else let port = int (digits_value port_text 0)
           in if 1 \<le> port \<and> port \<le> 65535 then Inr (host, Some port) else Inl PolicyInvalid)"

definition split_host_port :: "ustr \<Rightarrow> policy_error + ustr \<times> int option" where
  "split_host_port v =
     (if py_startswith v [91]
      then (let closing = py_find v [93] 0
            in if closing \<le> 1 \<or> int (length v) \<le> closing + 1 \<or> v ! nat (closing + 1) \<noteq> 58
               then Inl PolicyInvalid
               else split_port (drop 1 (take (nat closing) v)) (drop (nat closing + 2) v))
      else if py_count [58] v = 1
      then (let i = nat (py_find v [58] 0) in split_port (take i v) (drop (i + 1) v))
      else if 58 \<in> set v then Inl PolicyInvalid
      else Inr (v, None))"

definition host_label_ok :: "ustr \<Rightarrow> bool" where
  "host_label_ok l \<longleftrightarrow>
     l \<noteq> [] \<and> length l \<le> 63 \<and> hd l \<noteq> 45 \<and> last l \<noteq> 45 \<and>
     list_all (\<lambda>c. 97 \<le> c \<and> c \<le> 122 \<or> 48 \<le> c \<and> c \<le> 57 \<or> c = 45) l"

definition ascii_lower :: "ustr \<Rightarrow> ustr" where
  "ascii_lower s = map (\<lambda>c. if 65 \<le> c \<and> c \<le> 90 then c + 32 else c) s"

definition strip_dots :: "ustr \<Rightarrow> ustr" where
  "strip_dots s = rev (dropWhile (\<lambda>c. c = 46) (rev s))"

definition canonical_host :: "ip_text \<Rightarrow> ustr \<Rightarrow> policy_error + ustr" where
  "canonical_host tx v =
     (if v = [] \<or> list_ex (\<lambda>c. c \<in> set (ustr_of [CHR ''/'', CHR 0x5C, CHR ''@'', CHR ''?'', CHR ''#'', CHR ''*''])) v
      then Inl PolicyInvalid
      else case parse_address tx v of
          Some a \<Rightarrow> Inr (str_address tx a)
        | None \<Rightarrow>
            (case idna_encode tx v of
               None \<Rightarrow> Inl PolicyInvalid
             | Some encoded \<Rightarrow>
                 let hostname = ascii_lower (strip_dots encoded)
                 in if hostname = [] \<or> 253 < length hostname \<or> \<not> list_all host_label_ok (py_split 46 hostname)
                    then Inl PolicyInvalid else Inr hostname))"

definition rendered_host :: "ustr \<Rightarrow> ustr" where
  "rendered_host h = (if 58 \<in> set h then [91] @ h @ [93] else h)"

definition canonical_entry :: "ip_text \<Rightarrow> ustr \<Rightarrow> policy_error + ustr" where
  "canonical_entry tx v =
     (if v = [] \<or> v \<noteq> py_strip v then Inl PolicyInvalid
      else if 0 \<in> set v then Inl PolicyInvalid
      else if \<not> utf8_encodable v then Inl EntryNotEncodable
      else if SSRF_MAX_ENTRY_BYTES < length (utf8_encode v) then Inl PolicyInvalid
      else case parse_network tx False v of
          Some n \<Rightarrow> Inr (with_prefixlen tx n)
        | None \<Rightarrow>
            bind_result (split_host_port v) (\<lambda>(host, port).
            bind_result (canonical_host tx host) (\<lambda>canonical.
              case port of
                None \<Rightarrow> Inr canonical
              | Some p \<Rightarrow> Inr (rendered_host canonical @ [58] @ py_str_int p))))"

fun canonicalize_loop :: "ip_text \<Rightarrow> ustr list \<Rightarrow> ustr list \<Rightarrow> policy_error + ustr list" where
  "canonicalize_loop tx [] seen = Inr seen"
| "canonicalize_loop tx (v # vs) seen =
     bind_result (canonical_entry tx v) (\<lambda>normalized.
       if normalized \<in> set seen then Inl PolicyInvalid
       else canonicalize_loop tx vs (seen @ [normalized]))"

definition canonicalize_ssrf_denylist :: "ip_text \<Rightarrow> ustr list \<Rightarrow> policy_error + ustr list" where
  "canonicalize_ssrf_denylist tx values =
     (if SSRF_MAX_ENTRIES < length values then Inl PolicyInvalid else canonicalize_loop tx values [])"

fun compile_loop :: "ip_text \<Rightarrow> ustr list \<Rightarrow> ssrf_policy \<Rightarrow> policy_error + ssrf_policy" where
  "compile_loop tx [] pol = Inr pol"
| "compile_loop tx (entry # entries) pol =
     (case parse_network tx True entry of
        Some n \<Rightarrow> compile_loop tx entries (pol\<lparr>sp_networks := sp_networks pol @ [n]\<rparr>)
      | None \<Rightarrow>
          bind_result (split_host_port entry) (\<lambda>(host, port).
            case port of
              None \<Rightarrow> compile_loop tx entries (pol\<lparr>sp_hosts := List.insert host (sp_hosts pol)\<rparr>)
            | Some p \<Rightarrow> compile_loop tx entries
                (pol\<lparr>sp_host_ports := List.insert (host, p) (sp_host_ports pol)\<rparr>)))"

definition compile_ssrf_policy :: "ip_text \<Rightarrow> ustr list \<Rightarrow> policy_error + ssrf_policy" where
  "compile_ssrf_policy tx entries =
     bind_result (canonicalize_ssrf_denylist tx entries) (\<lambda>canonical.
       compile_loop tx canonical
         \<lparr>sp_canonical_entries = canonical, sp_networks = [], sp_hosts = [], sp_host_ports = []\<rparr>)"

definition default_ssrf_policy :: "ip_text \<Rightarrow> policy_error + ssrf_policy" where
  "default_ssrf_policy tx =
     (case DEFAULT_SSRF_NETWORKS of
        None \<Rightarrow> Inl PolicyInvalid | Some ns \<Rightarrow> compile_ssrf_policy tx (map (with_prefixlen tx) ns))"

section \<open>What the policy relies on\<close>

text \<open>
  The documented behaviour of \<open>ipaddress\<close> on texts: a canonical network text is read back, also
  strictly; a text that starts with a bracket or has exactly one colon is no network; the text
  of an address is not empty, does not start with a bracket, has a colon or a closing bracket only if the text
  it was read from has one, and is read back.
\<close>

definition ip_text_laws :: "ip_text \<Rightarrow> bool" where
  "ip_text_laws tx \<longleftrightarrow>
     (\<forall>v n. parse_network tx False v = Some n \<longrightarrow> parse_network tx True (with_prefixlen tx n) = Some n) \<and>
     (\<forall>v strict. py_startswith v [91] \<or> count_list v 58 = 1 \<longrightarrow> parse_network tx strict v = None) \<and>
     (\<forall>v a. parse_address tx v = Some a \<longrightarrow>
        str_address tx a \<noteq> [] \<and> hd (str_address tx a) \<noteq> 91 \<and>
        set (str_address tx a) \<inter> {58, 93} \<subseteq> set v \<and> parse_address tx (str_address tx a) = Some a)"

lemma ip_text_lawsD:
  assumes "ip_text_laws tx"
  shows "parse_network tx False v = Some n \<Longrightarrow> parse_network tx True (with_prefixlen tx n) = Some n"
    and "py_startswith v [91] \<or> count_list v 58 = 1 \<Longrightarrow> parse_network tx strict v = None"
    and "parse_address tx v = Some a \<Longrightarrow> str_address tx a \<noteq> [] \<and> hd (str_address tx a) \<noteq> 91 \<and>
      set (str_address tx a) \<inter> {58, 93} \<subseteq> set v \<and> parse_address tx (str_address tx a) = Some a"
  using assms unfolding ip_text_laws_def by blast+

section \<open>Hosts and ports\<close>

lemma py_find_single: "c \<notin> set xs \<Longrightarrow> py_find (xs @ c # ys) [c] 0 = int (length xs)"
  by (simp add: py_find_def py_index_single_append)

lemma py_find_before: "py_find v [c] 0 = int i \<Longrightarrow> c \<notin> set (take i v)"
  by (rule py_index_single_notin) (auto simp: py_find_def split: option.splits if_splits)

lemma join_chars: "c \<in> set (py_join sep xs) \<Longrightarrow> c \<in> set sep \<or> (\<exists>x\<in>set xs. c \<in> set x)"
  by (induction sep xs rule: py_join.induct) auto

lemma label_chars:
  assumes "list_all host_label_ok (py_split 46 h)"
  shows "58 \<notin> set h" "91 \<notin> set h" "93 \<notin> set h"
proof -
  have "c = 46 \<or> 97 \<le> c \<and> c \<le> 122 \<or> 48 \<le> c \<and> c \<le> 57 \<or> c = 45" if "c \<in> set h" for c
  proof -
    have "c = 46 \<or> (\<exists>l\<in>set (py_split 46 h). c \<in> set l)"
      using join_chars [of c "[46]" "py_split 46 h"] that by (simp add: py_join_split)
    then show ?thesis using assms by (auto simp: host_label_ok_def list_all_iff)
  qed
  then show "58 \<notin> set h" "91 \<notin> set h" "93 \<notin> set h" by force+
qed

lemma canonical_host_text:
  assumes "ip_text_laws tx" "canonical_host tx v = Inr h"
  shows "h \<noteq> [] \<and> hd h \<noteq> 91 \<and> set h \<inter> {58, 93} \<subseteq> set v"
proof (cases "parse_address tx v")
  case None
  then have "h \<noteq> [] \<and> list_all host_label_ok (py_split 46 h)"
    using assms(2) by (auto simp: canonical_host_def Let_def split: if_splits option.splits)
  then show ?thesis using label_chars [of h] by (cases h) auto
next
  case (Some a)
  then have "h = str_address tx a"
    using assms(2) by (auto simp: canonical_host_def split: if_splits)
  then show ?thesis using ip_text_lawsD(3) [OF assms(1) Some] by simp
qed

lemma split_plain: "split_host_port v = Inr (host, None) \<longleftrightarrow> host = v \<and> 58 \<notin> set v \<and> \<not> py_startswith v [91]"
proof -
  have "py_count [58] v \<noteq> 1" if "58 \<notin> set v" using that by (simp add: py_count_single)
  then show ?thesis by (auto simp: split_host_port_def split_port_def Let_def)
qed

lemma split_with_port:
  assumes "split_host_port v = Inr (host, Some p)"
  shows "1 \<le> p \<and> p \<le> 65535 \<and> (93 \<notin> set host \<or> 58 \<notin> set host)"
proof (cases "py_startswith v [91]")
  case True
  define i where "i = nat (py_find v [93] 0)"
  have i: "py_find v [93] 0 = int i" "split_port (drop 1 (take i v)) (drop (i + 2) v) = Inr (host, Some p)"
    using assms True unfolding i_def by (auto simp: split_host_port_def Let_def split: if_splits)
  then have "host = drop 1 (take i v)" "1 \<le> p \<and> p \<le> 65535"
    by (auto simp: split_port_def Let_def split: if_splits)
  then show ?thesis using py_find_before [OF i(1)] by (auto dest: in_set_dropD)
next
  case False
  define i where "i = nat (py_find v [58] 0)"
  have one: "py_count [58] v = 1" and s: "split_port (take i v) (drop (i + 1) v) = Inr (host, Some p)"
    using assms False unfolding i_def by (auto simp: split_host_port_def Let_def split: if_splits)
  then have "58 \<in> set v" by (metis count_notin py_count_single zero_neq_one)
  then obtain xs ys where v: "v = xs @ 58 # ys" "58 \<notin> set xs" by (metis split_list_first)
  have "i = length xs" using v by (simp add: i_def py_find_single)
  then have "host = xs" "1 \<le> p \<and> p \<le> 65535"
    using s v(1) by (auto simp: split_port_def Let_def split: if_splits)
  then show ?thesis using v(2) by blast
qed

lemma split_port_printed:
  "1 \<le> p \<Longrightarrow> p \<le> 65535 \<Longrightarrow> split_port host (py_str_int p) = Inr (host, Some p)"
  using nat_digits_ascii [of _ "nat p"]
  by (auto simp: split_port_def py_str_int_def digits_value_nat_digits list_all_iff)

lemma printed_port_digits: "0 \<le> p \<Longrightarrow> 58 \<notin> set (py_str_int p)"
  using nat_digits_ascii [of 58 "nat p"] by (auto simp: py_str_int_def)

text \<open>An entry that was written out with its port is read back as it was.\<close>

lemma split_rendered:
  assumes "h \<noteq> []" "hd h \<noteq> 91" "93 \<notin> set h \<or> 58 \<notin> set h" "1 \<le> p" "p \<le> 65535"
  defines "e \<equiv> rendered_host h @ [58] @ py_str_int p"
  shows "split_host_port e = Inr (h, Some p)" and "py_startswith e [91] \<or> count_list e 58 = 1"
proof -
  have p: "58 \<notin> set (py_str_int p)" using assms(4) by (intro printed_port_digits) simp
  have "split_host_port e = Inr (h, Some p) \<and> (py_startswith e [91] \<or> count_list e 58 = 1)"
  proof (cases "58 \<in> set h")
    case True
    then have e: "e = (91 # h) @ 93 # 58 # py_str_int p" and "93 \<notin> set h"
      using assms(3) by (simp_all add: e_def rendered_host_def)
    then have "py_find e [93] 0 = int (length (91 # h))"
      unfolding e by (intro py_find_single) simp
    then show ?thesis
      using assms(1) split_port_printed [OF assms(4,5)]
      by (simp add: split_host_port_def e py_startswith_def nth_append nat_add_distrib)
  next
    case False
    then have e: "e = h @ 58 # py_str_int p" by (simp add: e_def rendered_host_def)
    have c: "count_list e 58 = 1" using False p by (simp add: e count_notin)
    have "\<not> py_startswith e [91]" using assms(1,2) by (cases h) (auto simp: e py_startswith_def)
    then show ?thesis using c False split_port_printed [OF assms(4,5)]
      by (simp add: split_host_port_def py_count_single py_find_single e)
  qed
  then show "split_host_port e = Inr (h, Some p)" "py_startswith e [91] \<or> count_list e 58 = 1" by blast+
qed

section \<open>Compilation\<close>

lemma canonicalize_loop_entries:
  assumes "canonicalize_loop tx vs seen = Inr out"
  shows "\<exists>cs. out = seen @ cs \<and> list_all2 (\<lambda>v c. canonical_entry tx v = Inr c) vs cs"
  using assms
proof (induction vs arbitrary: seen)
  case (Cons v vs)
  then obtain c where c: "canonical_entry tx v = Inr c" "canonicalize_loop tx vs (seen @ [c]) = Inr out"
    by (auto simp: bind_result_Inr_iff split: if_splits)
  from Cons.IH [OF c(2)] obtain cs where "out = (seen @ [c]) @ cs" "list_all2 (\<lambda>v c. canonical_entry tx v = Inr c) vs cs"
    by blast
  then show ?case using c(1) by (intro exI [of _ "c # cs"]) simp
qed simp

text \<open>What the second pass makes of a canonical entry.\<close>

definition rule_of :: "ip_text \<Rightarrow> ustr \<Rightarrow> (ip_network + ustr \<times> int option) option" where
  "rule_of tx e =
     (case parse_network tx True e of
        Some n \<Rightarrow> Some (Inl n)
      | None \<Rightarrow> (case split_host_port e of Inl err \<Rightarrow> None | Inr hp \<Rightarrow> Some (Inr hp)))"

definition has_rule :: "ssrf_policy \<Rightarrow> ip_network + ustr \<times> int option \<Rightarrow> bool" where
  "has_rule pol r =
     (case r of
        Inl n \<Rightarrow> n \<in> set (sp_networks pol)
      | Inr (h, None) \<Rightarrow> h \<in> set (sp_hosts pol)
      | Inr (h, Some p) \<Rightarrow> (h, p) \<in> set (sp_host_ports pol))"

lemma compile_loop_rules:
  assumes "\<forall>e\<in>set es. rule_of tx e \<noteq> None"
  shows "\<exists>pol'. compile_loop tx es pol = Inr pol' \<and> sp_canonical_entries pol' = sp_canonical_entries pol \<and>
    (\<forall>r. has_rule pol' r \<longleftrightarrow> has_rule pol r \<or> Some r \<in> rule_of tx ` set es)"
  using assms
proof (induction es arbitrary: pol)
  case (Cons e es)
  have ex: "\<exists>pol1. compile_loop tx (e # es) pol = compile_loop tx es pol1 \<and>
    sp_canonical_entries pol1 = sp_canonical_entries pol \<and>
    (\<forall>r. has_rule pol1 r \<longleftrightarrow> has_rule pol r \<or> rule_of tx e = Some r)"
  proof (cases "parse_network tx True e")
    case None
    then obtain h port where "split_host_port e = Inr (h, port)" using Cons.prems by (auto simp: rule_of_def split: sum.splits)
    with None show ?thesis
      by (cases port) (auto simp: rule_of_def has_rule_def split: sum.splits option.splits)
  qed (auto simp: rule_of_def has_rule_def split: sum.splits option.splits)
  then obtain pol1 where p1: "compile_loop tx (e # es) pol = compile_loop tx es pol1"
    "sp_canonical_entries pol1 = sp_canonical_entries pol"
    "\<And>r. has_rule pol1 r \<longleftrightarrow> has_rule pol r \<or> rule_of tx e = Some r" by blast
  have "\<forall>e\<in>set es. rule_of tx e \<noteq> None" using Cons.prems by simp
  from Cons.IH [OF this, of pol1] obtain pol' where "compile_loop tx es pol1 = Inr pol'"
    "sp_canonical_entries pol' = sp_canonical_entries pol1"
    "\<And>r. has_rule pol' r \<longleftrightarrow> has_rule pol1 r \<or> Some r \<in> rule_of tx ` set es" by blast
  with p1 show ?case by (intro exI [of _ pol']) auto
qed simp

lemma canonical_entry_rule:
  assumes "ip_text_laws tx" "canonical_entry tx v = Inr c"
  shows "case parse_network tx False v of
      Some n \<Rightarrow> rule_of tx c = Some (Inl n)
    | None \<Rightarrow> \<exists>host port h. split_host_port v = Inr (host, port) \<and> canonical_host tx host = Inr h \<and>
        rule_of tx c = Some (case (port, parse_network tx True h) of (None, Some n) \<Rightarrow> Inl n | _ \<Rightarrow> Inr (h, port))"
proof (cases "parse_network tx False v")
  case None
  then obtain host port h where h: "split_host_port v = Inr (host, port)" "canonical_host tx host = Inr h"
    "c = (case port of None \<Rightarrow> h | Some p \<Rightarrow> rendered_host h @ [58] @ py_str_int p)"
    using assms(2) by (auto simp: canonical_entry_def bind_result_Inr_iff split: if_splits option.splits)
  note t = canonical_host_text [OF assms(1) h(2)]
  have "rule_of tx c = Some (case (port, parse_network tx True h) of (None, Some n) \<Rightarrow> Inl n | _ \<Rightarrow> Inr (h, port))"
  proof (cases port)
    case None
    then have "host = v" "58 \<notin> set v" using h(1) by (simp_all add: split_plain)
    then have "58 \<notin> set h" "\<not> py_startswith h [91]" using t by (cases h; auto simp: py_startswith_def)+
    then have "split_host_port h = Inr (h, None)" by (simp add: split_plain)
    then show ?thesis using None h(3) by (simp add: rule_of_def split: option.split)
  next
    case (Some p)
    have "1 \<le> p \<and> p \<le> 65535 \<and> (93 \<notin> set host \<or> 58 \<notin> set host)"
      using split_with_port h(1) Some by blast
    then have s: "1 \<le> p" "p \<le> 65535" "93 \<notin> set h \<or> 58 \<notin> set h" using t by auto
    have r: "split_host_port c = Inr (h, Some p)" "py_startswith c [91] \<or> count_list c 58 = 1"
      using split_rendered [OF _ _ s(3,1,2)] t h(3) Some by simp_all
    then show ?thesis using ip_text_lawsD(2) [OF assms(1) r(2)] Some by (simp add: rule_of_def)
  qed
  with None h(1,2) show ?thesis by auto
next
  case (Some n)
  then have "c = with_prefixlen tx n" using assms(2) by (auto simp: canonical_entry_def split: if_splits)
  then show ?thesis using ip_text_lawsD(1) [OF assms(1) Some] Some by (simp add: rule_of_def)
qed

text \<open>
  The connections an entry of the deny list names: those to an address of a network, also one that is mapped into
  IPv6; those to a host, or to a host or address at the given port. A host that is written like an
  address, once its final dot is gone, names that address.
\<close>

definition entry_matches :: "ip_text \<Rightarrow> ustr \<Rightarrow> ustr \<Rightarrow> int \<Rightarrow> ip_address \<Rightarrow> bool" where
  "entry_matches tx v hostname port a =
     (case parse_network tx False v of
        Some n \<Rightarrow> in_network a n \<or> (case ipv4_mapped a of None \<Rightarrow> False | Some m \<Rightarrow> in_network m n)
      | None \<Rightarrow>
          (case split_host_port v of
             Inl e \<Rightarrow> False
           | Inr (host, given) \<Rightarrow>
               (case canonical_host tx host of
                  Inl e \<Rightarrow> False
                | Inr h \<Rightarrow>
                    (case given of
                       Some p \<Rightarrow> port = p \<and> (hostname = h \<or> str_address tx a = h)
                     | None \<Rightarrow>
                         (case parse_network tx True h of Some n \<Rightarrow> in_network a n | None \<Rightarrow> hostname = h)))))"

definition policy_refuses :: "ip_text \<Rightarrow> ssrf_policy \<Rightarrow> ustr \<Rightarrow> int \<Rightarrow> ip_address \<Rightarrow> bool" where
  "policy_refuses tx pol hostname port a \<longleftrightarrow> denies_host pol hostname port \<or> denies_address tx pol a port"

lemma refuses_network:
  "n \<in> set (sp_networks pol) \<Longrightarrow> in_network a n \<or> (case ipv4_mapped a of None \<Rightarrow> False | Some m \<Rightarrow> in_network m n) \<Longrightarrow>
   policy_refuses tx pol hostname port a"
  by (auto simp: policy_refuses_def denies_address_def list_ex_iff split: option.splits)

lemma refuses_host:
  "h \<in> set (sp_hosts pol) \<Longrightarrow> policy_refuses tx pol h port a"
  "(h, p) \<in> set (sp_host_ports pol) \<Longrightarrow> hostname = h \<or> str_address tx a = h \<Longrightarrow> policy_refuses tx pol hostname p a"
  by (auto simp: policy_refuses_def denies_host_def denies_address_def)

lemma refused_by_rule:
  assumes "ip_text_laws tx" "canonical_entry tx v = Inr c" "\<And>r. rule_of tx c = Some r \<Longrightarrow> has_rule pol r"
    and m: "entry_matches tx v hostname port a"
  shows "policy_refuses tx pol hostname port a"
proof (cases "parse_network tx False v")
  case None
  from canonical_entry_rule [OF assms(1,2)] None obtain host given h
    where h: "split_host_port v = Inr (host, given)" "canonical_host tx host = Inr h"
      "rule_of tx c = Some (case (given, parse_network tx True h) of (None, Some n) \<Rightarrow> Inl n | _ \<Rightarrow> Inr (h, given))"
    by auto
  note r = assms(3) [OF h(3)]
  show ?thesis
  proof (cases given)
    case (Some p)
    then show ?thesis using m None h(1,2) r refuses_host(2)
      by (auto simp: entry_matches_def has_rule_def)
  next
    case g: None
    show ?thesis
    proof (cases "parse_network tx True h")
      case None
      then show ?thesis using m \<open>parse_network tx False v = None\<close> g h(1,2) r refuses_host(1)
        by (auto simp: entry_matches_def has_rule_def)
    next
      case (Some n)
      then have "n \<in> set (sp_networks pol)" "in_network a n"
        using m \<open>parse_network tx False v = None\<close> g h(1,2) r by (auto simp: entry_matches_def has_rule_def)
      then show ?thesis by (blast intro: refuses_network)
    qed
  qed
next
  case (Some n)
  then have "rule_of tx c = Some (Inl n)" using canonical_entry_rule [OF assms(1,2)] by simp
  then have "n \<in> set (sp_networks pol)" using assms(3) by (force simp: has_rule_def)
  then show ?thesis using Some m by (intro refuses_network) (auto simp: entry_matches_def)
qed

lemma compile_enforces:
  assumes "ip_text_laws tx" "canonicalize_ssrf_denylist tx entries = Inr canonical"
  obtains pol where "compile_ssrf_policy tx entries = Inr pol" "sp_canonical_entries pol = canonical"
    "\<And>v hostname port a. v \<in> set entries \<Longrightarrow> entry_matches tx v hostname port a \<Longrightarrow>
      policy_refuses tx pol hostname port a"
proof -
  have ok: "list_all2 (\<lambda>v c. canonical_entry tx v = Inr c) entries canonical"
    using assms(2) canonicalize_loop_entries [of tx entries "[]" canonical]
    by (auto simp: canonicalize_ssrf_denylist_def split: if_splits)
  have "rule_of tx c \<noteq> None" if c: "c \<in> set canonical" for c
  proof -
    obtain v where "canonical_entry tx v = Inr c" using ok c unfolding list_all2_conv_all_nth in_set_conv_nth by metis
    from canonical_entry_rule [OF assms(1) this] show ?thesis by (auto split: option.splits)
  qed
  then obtain pol where pol: "compile_loop tx canonical
      \<lparr>sp_canonical_entries = canonical, sp_networks = [], sp_hosts = [], sp_host_ports = []\<rparr> = Inr pol"
    "sp_canonical_entries pol = canonical" "\<And>r. Some r \<in> rule_of tx ` set canonical \<Longrightarrow> has_rule pol r"
    using compile_loop_rules [of canonical tx "\<lparr>sp_canonical_entries = canonical, sp_networks = [], sp_hosts = [], sp_host_ports = []\<rparr>"]
    by auto
  have "policy_refuses tx pol hostname port a"
    if v: "v \<in> set entries" "entry_matches tx v hostname port a" for v hostname port a
  proof -
    obtain c where c: "c \<in> set canonical" "canonical_entry tx v = Inr c"
      using ok v(1) unfolding list_all2_conv_all_nth in_set_conv_nth by metis
    show ?thesis
    proof (rule refused_by_rule [OF assms(1) c(2) _ v(2)])
      show "has_rule pol r" if "rule_of tx c = Some r" for r
        using pol(3) [of r] c(1) that by (metis imageI)
    qed
  qed
  moreover have "compile_ssrf_policy tx entries = Inr pol" using pol(1) assms(2) by (simp add: compile_ssrf_policy_def)
  ultimately show ?thesis using that pol(2) by blast
qed

section \<open>Properties\<close>

text \<open>
  C34. \<open>_network_without\<close> removes exactly the exclusions: for a valid network and valid exclusions inside it,
  of which no later one properly contains an earlier one, it returns networks of the same version that
  are disjoint, in ascending order, and together hold exactly the addresses of the parent outside all
  exclusions. So the default list neither blocks an excepted address nor forgets one between two exceptions.
\<close>

theorem network_without_exact:
  assumes "nw_ok base" "\<forall>e\<in>set exclusions. nw_ok e \<and> subnet_of e base"
    and "sorted_wrt (\<lambda>earlier later. \<not> nw_addresses earlier \<subset> nw_addresses later) exclusions"
  shows "\<exists>ns. network_without base exclusions = Some ns \<and>
    (\<forall>n\<in>set ns. nw_ok n \<and> nw_version n = nw_version base) \<and>
    (\<Union>n\<in>set ns. nw_addresses n) = nw_addresses base - (\<Union>e\<in>set exclusions. nw_addresses e) \<and>
    disjoint_family_on nw_addresses (set ns) \<and> sorted (map nw_address ns)"
proof -
  obtain ns where ns: "network_without base exclusions = Some ns" "\<forall>n\<in>set ns. nw_ok n \<and> nw_version n = nw_version base"
    "(\<Union>n\<in>set ns. nw_addresses n) = nw_addresses base - (\<Union>e\<in>set exclusions. nw_addresses e)"
    "disjoint_family_on nw_addresses (set ns)"
    by (rule network_without_covers [OF assms])
  have "sorted (map (\<lambda>n. (nw_address n, nw_prefixlen n)) ns)"
    using ns(1) by (auto simp: network_without_def)
  then have "sorted (map nw_address ns)"
    by (simp add: sorted_map) (auto elim!: sorted_wrt_mono_rel [rotated] simp: less_eq_prod_def)
  with ns show ?thesis by blast
qed

theorem network_without_exact_witness:
  "\<exists>ns. network_without (net4 192 0 0 0 24) [net4 192 0 0 9 32, net4 192 0 0 10 32] = Some ns \<and>
     (\<Union>n\<in>set ns. nw_addresses n) =
       nw_addresses (net4 192 0 0 0 24) - (nw_addresses (net4 192 0 0 9 32) \<union> nw_addresses (net4 192 0 0 10 32))"
proof -
  have "nw_ok (net4 192 0 0 0 24)"
    "\<forall>e\<in>set [net4 192 0 0 9 32, net4 192 0 0 10 32]. nw_ok e \<and> subnet_of e (net4 192 0 0 0 24)"
    by (simp_all add: nw_ok_def net4_def nw_size_def subnet_of_def nw_broadcast_def)
  moreover have "sorted_wrt (\<lambda>earlier later. \<not> nw_addresses earlier \<subset> nw_addresses later)
      [net4 192 0 0 9 32, net4 192 0 0 10 32]"
    by (auto simp: nw_addresses_def net4_def nw_size_def)
  ultimately show ?thesis
    using network_without_exact [of "net4 192 0 0 0 24" "[net4 192 0 0 9 32, net4 192 0 0 10 32]"] by auto
qed

text \<open>
  C33. Every configured entry is enforced: when the validation accepts a deny list, compiling it
  succeeds, keeps the canonical entries, and refuses every connection that an entry of the list names: to the addresses of a
  network, also mapped into IPv6, at all ports; to a host at every port, or at the one given; to an
  address with a port at that port. In particular the second reading of the canonical texts
  never fails and never turns an entry into something weaker.
\<close>

theorem compile_enforces_entries:
  assumes "ip_text_laws tx" "canonicalize_ssrf_denylist tx entries = Inr canonical"
  shows "\<exists>pol. compile_ssrf_policy tx entries = Inr pol \<and> sp_canonical_entries pol = canonical \<and>
    (\<forall>v\<in>set entries. \<forall>hostname port a. entry_matches tx v hostname port a \<longrightarrow> policy_refuses tx pol hostname port a)"
proof -
  obtain pol where "compile_ssrf_policy tx entries = Inr pol" "sp_canonical_entries pol = canonical"
    "\<And>v hostname port a. v \<in> set entries \<Longrightarrow> entry_matches tx v hostname port a \<Longrightarrow> policy_refuses tx pol hostname port a"
    by (rule compile_enforces [OF assms]) blast
  then show ?thesis by blast
qed

definition demo_host_network :: ip_network where
  "demo_host_network = net4 10 0 0 1 32"

definition demo_text :: ip_text where
  "demo_text = \<lparr>
     parse_network = (\<lambda>strict v.
       if v = ustr_of ''10.0.0.0/8'' \<or> \<not> strict \<and> v = ustr_of ''10.1.2.3/8'' then Some (net4 10 0 0 0 8)
       else if v = ustr_of ''10.0.0.1'' \<or> v = ustr_of ''10.0.0.1/32'' then Some demo_host_network else None),
     parse_address = (\<lambda>v. if v = ustr_of ''::1'' then Some \<lparr>ia_version = V6, ia_value = 1, ia_scope = None\<rparr>
       else if v = ustr_of ''8.8.8.8'' then Some \<lparr>ia_version = V4, ia_value = 134744072, ia_scope = None\<rparr>
       else if v = ustr_of ''10.0.0.1'' then Some \<lparr>ia_version = V4, ia_value = 167772161, ia_scope = None\<rparr> else None),
     str_address = (\<lambda>a. if ia_version a = V6 then ustr_of ''::1''
       else if ia_value a = 134744072 then ustr_of ''8.8.8.8'' else ustr_of ''10.0.0.1''),
     with_prefixlen = (\<lambda>n. if n = demo_host_network then ustr_of ''10.0.0.1/32'' else ustr_of ''10.0.0.0/8''),
     idna_encode = (\<lambda>v. Some v)\<rparr>"

lemma demo_texts:
  "ustr_of ''10.0.0.0/8'' = [49, 48, 46, 48, 46, 48, 46, 48, 47, 56]"
  "ustr_of ''10.1.2.3/8'' = [49, 48, 46, 49, 46, 50, 46, 51, 47, 56]"
  "ustr_of ''10.0.0.1'' = [49, 48, 46, 48, 46, 48, 46, 49]"
  "ustr_of ''10.0.0.1/32'' = [49, 48, 46, 48, 46, 48, 46, 49, 47, 51, 50]"
  "ustr_of ''::1'' = [58, 58, 49]" "ustr_of ''8.8.8.8'' = [56, 46, 56, 46, 56, 46, 56]"
  by (simp_all add: ustr_of_def)

lemma demo_text_laws: "ip_text_laws demo_text"
  unfolding ip_text_laws_def
proof (intro conjI allI impI)
  fix v n strict a
  show "parse_network demo_text True (with_prefixlen demo_text n) = Some n" if "parse_network demo_text False v = Some n"
    using that by (simp add: demo_text_def demo_texts demo_host_network_def net4_def split: if_splits)
  show "parse_network demo_text strict v = None" if "py_startswith v [91] \<or> count_list v 58 = 1"
    using that by (auto simp: demo_text_def demo_texts py_startswith_def)
  assume "parse_address demo_text v = Some a"
  then show "str_address demo_text a \<noteq> []" "hd (str_address demo_text a) \<noteq> 91"
    "set (str_address demo_text a) \<inter> {58, 93} \<subseteq> set v" "parse_address demo_text (str_address demo_text a) = Some a"
    by (auto simp: demo_text_def demo_texts split: if_splits)
qed

definition demo_entries :: "ustr list" where
  "demo_entries = map ustr_of [''10.1.2.3/8'', ''[::1]:080'', ''Example.com.'', ''internal:8080'', ''10.0.0.1.'']"

lemmas policy_eval = canonicalize_ssrf_denylist_def SSRF_MAX_ENTRIES_def SSRF_MAX_ENTRY_BYTES_def canonical_entry_def
  demo_text_def ustr_of_def py_strip_def py_rstrip_def py_lstrip_def py_isspace_char_def utf8_encodable_def utf8_encode_def
  utf8_encode_char_def split_host_port_def split_port_def py_startswith_def py_find_def py_count_single
  canonical_host_def host_label_ok_def ascii_lower_def strip_dots_def rendered_host_def py_split_def
  py_str_int_def nat_digits.simps demo_host_network_def net4_def

lemma demo_entries_canonical:
  "canonicalize_ssrf_denylist demo_text demo_entries =
     Inr (map ustr_of [''10.0.0.0/8'', ''[::1]:80'', ''example.com'', ''internal:8080'', ''10.0.0.1''])"
  by (simp add: demo_entries_def policy_eval)

definition demo_loopback :: ip_address where
  "demo_loopback = \<lparr>ia_version = V6, ia_value = 1, ia_scope = None\<rparr>"

lemma demo_loopback_matches: "entry_matches demo_text (ustr_of ''[::1]:080'') (ustr_of ''localhost'') 80 demo_loopback"
  by (simp add: entry_matches_def demo_loopback_def policy_eval)

theorem compile_enforces_entries_witness:
  "\<exists>pol. compile_ssrf_policy demo_text demo_entries = Inr pol \<and>
     sp_canonical_entries pol = map ustr_of [''10.0.0.0/8'', ''[::1]:80'', ''example.com'', ''internal:8080'', ''10.0.0.1''] \<and>
     policy_refuses demo_text pol (ustr_of ''localhost'') 80 demo_loopback"
proof -
  have "ustr_of ''[::1]:080'' \<in> set demo_entries" by (simp add: demo_entries_def)
  then show ?thesis
    using compile_enforces_entries [OF demo_text_laws demo_entries_canonical] demo_loopback_matches by blast
qed

text \<open>
  The canonical form is not canonical: an accepted list may have a canonical form that is then rejected as a
  duplicate when it is read again, because an address with a final dot is kept as a host name.
\<close>

lemma stored_denylist_rejected:
  "canonicalize_ssrf_denylist demo_text (map ustr_of [''10.0.0.1'', ''10.0.0.1.'']) =
     Inr (map ustr_of [''10.0.0.1/32'', ''10.0.0.1''])"
  "canonicalize_ssrf_denylist demo_text (map ustr_of [''10.0.0.1/32'', ''10.0.0.1'']) = Inl PolicyInvalid"
  by (simp_all add: policy_eval)

end
