(* ===== verification/Web_Fetch.thy ===== *)
theory Web_Fetch
  imports Network_Policy
begin

text \<open>
  The \<open>web_fetch\<close> tool: \<open>tools/web_fetch.py\<close>, with \<open>truncate_head\<close> of \<open>tools/truncate.py\<close>.

  The network is an environment: what the name service and the transport answer to the n-th
  request is a function of n, so that answers may change between requests. \<open>urllib.parse\<close>,
  \<open>httpx\<close>, the codecs and the HTML converter are the fields of \<open>web_lib\<close>; nothing is assumed of
  them. The loop returns the requests it has sent together with its outcome.
\<close>

section \<open>Data\<close>

definition DEFAULT_MAX_CHARS :: nat where "DEFAULT_MAX_CHARS = 50000"
definition MAX_RESPONSE_BYTES :: nat where "MAX_RESPONSE_BYTES = 5000000"
definition MAX_REDIRECTS :: nat where "MAX_REDIRECTS = 10"

datatype fetch_error =
  NetworkErr error_code ustr
| ToolErr error_code ustr
| AdmissionTimeout
| HttpxTimeout
| HttpxRequestError ustr
| AsyncTimeout
| ValueErr
| OsOrUnicodeErr
| AssertionErr

record split_url =
  su_scheme :: ustr
  su_username :: "ustr option"
  su_password :: "ustr option"
  su_hostname :: "ustr option"
  su_port :: "unit + int option"
  su_path :: ustr
  su_query :: ustr

record web_target =
  wt_parsed :: split_url
  wt_hostname :: ustr
  wt_port :: int

record web_request =
  rq_url :: ustr
  rq_host :: ustr
  rq_sni_hostname :: ustr

record web_response =
  rs_status_code :: int
  rs_location :: "ustr option"
  rs_content_type :: "ustr option"
  rs_content_encoding :: "ustr option"
  rs_encoding :: "ustr option"
  rs_raw_chunks :: "nat list list"
  rs_stream_error :: "fetch_error option"

datatype extract_mode = Markdown | PlainText

record web_args =
  wa_url :: ustr
  wa_extract_mode :: extract_mode
  wa_max_chars :: nat

record web_lib =
  urlsplit :: "ustr \<Rightarrow> split_url option"
  urljoin :: "ustr \<Rightarrow> ustr \<Rightarrow> ustr option"
  urlunsplit :: "ustr \<Rightarrow> ustr \<Rightarrow> ustr \<Rightarrow> ustr \<Rightarrow> ustr"
  unicode_lower :: "ustr \<Rightarrow> ustr"
  resolver :: "nat \<Rightarrow> ustr \<Rightarrow> int \<Rightarrow> fetch_error + ustr list"
  client_send :: "nat \<Rightarrow> web_request \<Rightarrow> fetch_error + web_response"
  parse_html :: "nat list \<Rightarrow> ustr \<Rightarrow> ustr \<Rightarrow> extract_mode \<Rightarrow> nat \<Rightarrow> fetch_error + ustr"
  bytes_decode_replace :: "ustr \<Rightarrow> nat list \<Rightarrow> ustr option"
  utf8_decode_replace :: "nat list \<Rightarrow> ustr"

section \<open>Targets\<close>

definition parse_target :: "ip_text \<Rightarrow> web_lib \<Rightarrow> ustr \<Rightarrow> fetch_error + web_target" where
  "parse_target tx lib url =
     (case urlsplit lib url of
        None \<Rightarrow> Inl ValueErr
      | Some parsed \<Rightarrow>
          if su_scheme parsed \<notin> {ustr_of ''http'', ustr_of ''https''} then Inl ValueErr
          else if su_username parsed \<noteq> None \<or> su_password parsed \<noteq> None then Inl ValueErr
          else (case su_hostname parsed of
              None \<Rightarrow> Inl ValueErr
            | Some name \<Rightarrow>
                if 37 \<in> set name then Inl ValueErr
                else (case (idna_encode tx name, su_port parsed) of
                    (Some encoded, Inr given) \<Rightarrow>
                      let hostname = ascii_lower (strip_dots encoded);
                          port = (case given of
                              Some p \<Rightarrow> if p = 0 then None else Some p | None \<Rightarrow> None)
                      in if hostname = [] then Inl ValueErr
                         else Inr \<lparr>wt_parsed = parsed, wt_hostname = hostname,
                           wt_port = (case port of Some p \<Rightarrow> p
                             | None \<Rightarrow> if su_scheme parsed = ustr_of ''https'' then 443 else 80)\<rparr>
                  | _ \<Rightarrow> Inl ValueErr)))"

definition resolve_dns :: "ip_text \<Rightarrow> (ustr \<Rightarrow> int \<Rightarrow> fetch_error + ustr list) \<Rightarrow> ustr \<Rightarrow> int \<Rightarrow> fetch_error + ustr list" where
  "resolve_dns tx getaddrinfo hostname port =
     (case parse_address tx hostname of
        None \<Rightarrow> getaddrinfo hostname port
      | Some a \<Rightarrow> Inr [str_address tx a])"

definition literal_host :: "ip_text \<Rightarrow> ip_address \<Rightarrow> ustr" where
  "literal_host tx a = (if ia_version a = V6 then [91] @ str_address tx a @ [93] else str_address tx a)"

definition with_port :: "ustr \<Rightarrow> int \<Rightarrow> ustr \<Rightarrow> ustr" where
  "with_port host port scheme =
     (if port = (if scheme = ustr_of ''https'' then 443 else 80) then host else host @ [58] @ py_str_int port)"

definition pinned_url :: "ip_text \<Rightarrow> web_lib \<Rightarrow> split_url \<Rightarrow> ustr \<Rightarrow> int \<Rightarrow> fetch_error + ustr" where
  "pinned_url tx lib parsed address port =
     (case parse_address tx address of
        None \<Rightarrow> Inl ValueErr
      | Some ip \<Rightarrow> Inr (urlunsplit lib (su_scheme parsed) (with_port (literal_host tx ip) port (su_scheme parsed))
          (if su_path parsed = [] then [47] else su_path parsed) (su_query parsed)))"

definition host_header :: "ip_text \<Rightarrow> ustr \<Rightarrow> int \<Rightarrow> ustr \<Rightarrow> ustr" where
  "host_header tx hostname port scheme =
     with_port (case parse_address tx hostname of None \<Rightarrow> hostname | Some a \<Rightarrow> literal_host tx a) port scheme"

fun validate_addresses :: "ip_text \<Rightarrow> ssrf_policy \<Rightarrow> ustr \<Rightarrow> int \<Rightarrow> ustr list \<Rightarrow> ustr list \<Rightarrow> fetch_error + ustr list" where
  "validate_addresses tx pol hostname port [] parsed_addresses = Inr parsed_addresses"
| "validate_addresses tx pol hostname port (address # addresses) parsed_addresses =
     (case parse_address tx address of
        None \<Rightarrow> Inl (NetworkErr NETWORK_DNS_FAILED (ustr_of ''Resolver returned an invalid address for '' @ hostname))
      | Some parsed \<Rightarrow>
          if denies_address tx pol parsed port
          then Inl (NetworkErr NETWORK_SSRF_BLOCKED (ustr_of ''Blocked address for '' @ hostname))
          else validate_addresses tx pol hostname port addresses
                 (let normalized = str_address tx parsed
                  in if normalized \<in> set parsed_addresses then parsed_addresses
                     else parsed_addresses @ [normalized]))"

definition resolve_and_validate :: "ip_text \<Rightarrow> web_lib \<Rightarrow> ssrf_policy \<Rightarrow> nat \<Rightarrow> ustr \<Rightarrow> int \<Rightarrow> fetch_error + ustr list" where
  "resolve_and_validate tx lib pol k hostname port =
     (case resolver lib k hostname port of
        Inl OsOrUnicodeErr \<Rightarrow> Inl (NetworkErr NETWORK_DNS_FAILED (ustr_of ''Could not resolve '' @ hostname))
      | Inl e \<Rightarrow> Inl e
      | Inr [] \<Rightarrow> Inl (NetworkErr NETWORK_DNS_FAILED (ustr_of ''Could not resolve '' @ hostname))
      | Inr addresses \<Rightarrow> validate_addresses tx pol hostname port addresses [])"

section \<open>Requests\<close>

definition request_once :: "ip_text \<Rightarrow> web_lib \<Rightarrow> ssrf_policy \<Rightarrow> nat \<Rightarrow> ustr \<Rightarrow> web_request list \<times> (fetch_error + web_response)" where
  "request_once tx lib pol k url =
     (case parse_target tx lib url of
        Inl e \<Rightarrow> ([], Inl e)
      | Inr target \<Rightarrow>
          if denies_host pol (wt_hostname target) (wt_port target)
          then ([], Inl (NetworkErr NETWORK_SSRF_BLOCKED (ustr_of ''Blocked target '' @ wt_hostname target)))
          else (case resolve_and_validate tx lib pol k (wt_hostname target) (wt_port target) of
              Inl e \<Rightarrow> ([], Inl e)
            | Inr connect_addresses \<Rightarrow>
                (case pinned_url tx lib (wt_parsed target) (hd connect_addresses) (wt_port target) of
                   Inl e \<Rightarrow> ([], Inl e)
                 | Inr pinned \<Rightarrow>
                     let request = \<lparr>rq_url = pinned,
                           rq_host = host_header tx (wt_hostname target) (wt_port target) (su_scheme (wt_parsed target)),
                           rq_sni_hostname = wt_hostname target\<rparr>
                     in ([request], client_send lib k request))))"

fun read_chunks :: "nat list \<Rightarrow> nat list list \<Rightarrow> fetch_error option \<Rightarrow> fetch_error + nat list" where
  "read_chunks body [] error = (case error of None \<Rightarrow> Inr body | Some e \<Rightarrow> Inl e)"
| "read_chunks body (chunk # chunks) error =
     (if MAX_RESPONSE_BYTES \<le> length body then Inr body
      else let remaining = MAX_RESPONSE_BYTES - length body; body' = body @ take remaining chunk
           in if remaining \<le> length chunk then Inr body' else read_chunks body' chunks error)"

definition header_or_empty :: "ustr option \<Rightarrow> ustr" where
  "header_or_empty h = (case h of None \<Rightarrow> [] | Some v \<Rightarrow> v)"

definition read_limited :: "web_lib \<Rightarrow> web_response \<Rightarrow> fetch_error + nat list" where
  "read_limited lib response =
     (let content_encoding = unicode_lower lib (py_strip (header_or_empty (rs_content_encoding response)))
      in if content_encoding \<notin> {[], ustr_of ''identity''}
         then Inl (NetworkErr NETWORK_HTTP_ERROR (ustr_of ''web_fetch does not support Content-Encoding: '' @ content_encoding))
         else read_chunks [] (rs_raw_chunks response) (rs_stream_error response))"

definition decode_body :: "web_lib \<Rightarrow> nat list \<Rightarrow> ustr \<Rightarrow> ustr" where
  "decode_body lib body encoding =
     (case bytes_decode_replace lib encoding body of
        Some t \<Rightarrow> t | None \<Rightarrow> utf8_decode_replace lib body)"

definition read_body :: "web_lib \<Rightarrow> web_args \<Rightarrow> ustr \<Rightarrow> web_response \<Rightarrow> fetch_error + ustr" where
  "read_body lib args url response =
     (let content_type = unicode_lower lib (header_or_empty (rs_content_type response));
          encoding = (case rs_encoding response of
              None \<Rightarrow> ustr_of ''utf-8'' | Some e \<Rightarrow> if e = [] then ustr_of ''utf-8'' else e)
      in bind_result (read_limited lib response) (\<lambda>body.
           if py_contains content_type (ustr_of ''text/html'') \<or>
              py_contains content_type (ustr_of ''application/xhtml+xml'')
           then parse_html lib body encoding url (wa_extract_mode args) (wa_max_chars args)
           else Inr (decode_body lib body encoding)))"

fun fetch_loop :: "ip_text \<Rightarrow> web_lib \<Rightarrow> ssrf_policy \<Rightarrow> web_args \<Rightarrow> nat \<Rightarrow> ustr \<Rightarrow> web_request list \<Rightarrow> web_request list \<times> (fetch_error + ustr)" where
  "fetch_loop tx lib pol args 0 url sent = (sent, Inl AssertionErr)"
| "fetch_loop tx lib pol args (Suc left) url sent =
     (case request_once tx lib pol (length sent) url of
        (requests, Inl e) \<Rightarrow> (sent @ requests, Inl e)
      | (requests, Inr response) \<Rightarrow>
          if rs_status_code response \<in> {301, 302, 303, 307, 308}
          then (case rs_location response of
              None \<Rightarrow> (sent @ requests, Inl (NetworkErr NETWORK_HTTP_ERROR (ustr_of ''web_fetch redirect omitted the Location header'')))
            | Some location \<Rightarrow>
                if left = 0
                then (sent @ requests, Inl (NetworkErr NETWORK_HTTP_ERROR (ustr_of ''web_fetch exceeded the redirect limit'')))
                else (case urljoin lib url location of
                    None \<Rightarrow> (sent @ requests, Inl ValueErr)
                  | Some next_url \<Rightarrow> fetch_loop tx lib pol args left next_url (sent @ requests)))
          else if 400 \<le> rs_status_code response
          then (sent @ requests, Inl (NetworkErr NETWORK_HTTP_ERROR
                  (ustr_of ''web_fetch received HTTP '' @ py_str_int (rs_status_code response))))
          else (sent @ requests, read_body lib args url response))"

definition web_fetch_url :: "ip_text \<Rightarrow> web_lib \<Rightarrow> ssrf_policy \<Rightarrow> web_args \<Rightarrow> web_request list \<times> (fetch_error + ustr)" where
  "web_fetch_url tx lib pol args = fetch_loop tx lib pol args (MAX_REDIRECTS + 1) (wa_url args) []"

section \<open>The tool\<close>

definition TRUNCATION_MARKER :: ustr where
  "TRUNCATION_MARKER = 10 # ustr_of ''... (truncated)''"

definition truncate_head :: "ustr \<Rightarrow> nat \<Rightarrow> ustr" where
  "truncate_head t max_chars = (if length t \<le> max_chars then t else take max_chars t @ TRUNCATION_MARKER)"

record web_result =
  wr_content :: ustr
  wr_code :: "error_code option"

definition error_result :: "error_code \<Rightarrow> ustr \<Rightarrow> web_result" where
  "error_result code message =
     \<lparr>wr_content = [91] @ ustr_of (case code of ErrorCode v \<Rightarrow> v) @ ustr_of ''] '' @ message, wr_code = Some code\<rparr>"

text \<open>The handlers of \<open>execute\<close>; an error without a handler escapes.\<close>

fun handle_fetch_error :: "fetch_error \<Rightarrow> fetch_error + web_result" where
  "handle_fetch_error AdmissionTimeout = Inr (error_result NETWORK_TIMEOUT (ustr_of ''web_fetch admission timed out''))"
| "handle_fetch_error (ToolErr code message) = Inr (error_result code message)"
| "handle_fetch_error (NetworkErr code message) = Inr (error_result code message)"
| "handle_fetch_error HttpxTimeout = Inr (error_result NETWORK_TIMEOUT (ustr_of ''web_fetch timed out''))"
| "handle_fetch_error AsyncTimeout = Inr (error_result NETWORK_TIMEOUT (ustr_of ''web_fetch timed out''))"
| "handle_fetch_error (HttpxRequestError text') = Inr (error_result NETWORK_HTTP_ERROR (ustr_of ''web_fetch request failed: '' @ text'))"
| "handle_fetch_error e = Inl e"

text \<open>
  \<open>execute\<close>: the arguments after their validation (\<open>Inl\<close> the text of a validation error), the outcome of
  the admission, and the policy that is loaded.
\<close>

definition web_fetch_execute ::
  "ip_text \<Rightarrow> web_lib \<Rightarrow> (fetch_error + unit) \<Rightarrow> (fetch_error + ssrf_policy) \<Rightarrow> ustr + web_args \<Rightarrow> ustr \<Rightarrow>
   web_request list \<times> (fetch_error + web_result)" where
  "web_fetch_execute tx lib admission policy_loader validated value_error_text =
     (case validated of
        Inl message \<Rightarrow> ([], Inr (error_result TOOL_INVALID_ARGS (ustr_of ''Invalid web_fetch arguments: '' @ message)))
      | Inr args \<Rightarrow>
          (case parse_target tx lib (wa_url args) of
             Inl e \<Rightarrow> ([], Inr (error_result TOOL_INVALID_ARGS (ustr_of ''Invalid web_fetch arguments: '' @ value_error_text)))
           | Inr target \<Rightarrow>
               (case bind_result admission (\<lambda>_. policy_loader) of
                  Inl e \<Rightarrow> ([], handle_fetch_error e)
                | Inr pol \<Rightarrow>
                    (case web_fetch_url tx lib pol args of
                       (sent, Inl e) \<Rightarrow> (sent, handle_fetch_error e)
                     | (sent, Inr t) \<Rightarrow>
                         (sent, Inr \<lparr>wr_content = truncate_head t (wa_max_chars args), wr_code = None\<rparr>)))))"

section \<open>Every request is allowed\<close>

lemma validate_addresses_allowed:
  assumes "validate_addresses tx pol hostname port addresses acc = Inr out"
  shows "set acc \<subseteq> set out \<and> (addresses \<noteq> [] \<longrightarrow> out \<noteq> []) \<and>
    (\<forall>x\<in>set out - set acc. \<exists>v a. v \<in> set addresses \<and> parse_address tx v = Some a \<and> x = str_address tx a \<and> \<not> denies_address tx pol a port)"
  using assms
proof (induction addresses arbitrary: acc)
  case (Cons v vs)
  then obtain a where a: "parse_address tx v = Some a" "\<not> denies_address tx pol a port"
    "validate_addresses tx pol hostname port vs (let x = str_address tx a in if x \<in> set acc then acc else acc @ [x]) = Inr out"
    by (auto split: option.splits if_splits)
  let ?acc = "let x = str_address tx a in if x \<in> set acc then acc else acc @ [x]"
  have s: "set ?acc = insert (str_address tx a) (set acc)" by (auto simp: Let_def)
  from Cons.IH [OF a(3)] have ih: "set ?acc \<subseteq> set out"
    "\<forall>x\<in>set out - set ?acc. \<exists>v a. v \<in> set vs \<and> parse_address tx v = Some a \<and> x = str_address tx a \<and> \<not> denies_address tx pol a port"
    by blast+
  have "str_address tx a \<in> set out" "set acc \<subseteq> set out" using ih(1) unfolding s by auto
  moreover have "\<exists>v' a. v' \<in> set (v # vs) \<and> parse_address tx v' = Some a \<and> x = str_address tx a \<and> \<not> denies_address tx pol a port"
    if "x \<in> set out - set acc" for x
  proof (cases "x = str_address tx a")
    case False
    then have "x \<in> set out - set ?acc" using that unfolding s by simp
    with ih(2) show ?thesis by (meson list.set_intros(2))
  qed (use a(1,2) in auto)
  ultimately show ?case by (cases out) auto
qed simp

text \<open>A request goes to a host and an address that the policy allows at the port of the request.\<close>

definition allowed_request :: "ip_text \<Rightarrow> web_lib \<Rightarrow> (ustr \<Rightarrow> int \<Rightarrow> ip_address \<Rightarrow> bool) \<Rightarrow> web_request \<Rightarrow> bool" where
  "allowed_request tx lib refused r \<longleftrightarrow>
     (\<exists>(parsed :: split_url) port a. \<not> refused (rq_sni_hostname r) port a \<and>
        rq_url r = urlunsplit lib (su_scheme parsed) (with_port (literal_host tx a) port (su_scheme parsed))
          (if su_path parsed = [] then [47] else su_path parsed) (su_query parsed))"

lemma request_once_allowed:
  assumes "ip_text_laws tx" "request_once tx lib pol k url = (requests, outcome)"
  shows "length requests \<le> 1 \<and> (\<forall>r\<in>set requests. allowed_request tx lib (policy_refuses tx pol) r)"
proof (cases requests)
  case (Cons r rest)
  from assms(2) Cons obtain target where t: "parse_target tx lib url = Inr target"
    by (auto simp: request_once_def split: sum.splits)
  let ?h = "wt_hostname target" and ?p = "wt_port target"
  from assms(2) Cons t obtain cs where host: "\<not> denies_host pol ?h ?p"
    and cs: "resolve_and_validate tx lib pol k ?h ?p = Inr cs"
    by (auto simp: request_once_def split: sum.splits if_splits)
  from assms(2) Cons t host cs obtain url' where u: "pinned_url tx lib (wt_parsed target) (hd cs) ?p = Inr url'"
    "requests = [\<lparr>rq_url = url', rq_host = host_header tx ?h ?p (su_scheme (wt_parsed target)), rq_sni_hostname = ?h\<rparr>]"
    by (auto simp: request_once_def Let_def split: sum.splits if_splits)
  obtain vs where vs: "vs \<noteq> []" "validate_addresses tx pol ?h ?p vs [] = Inr cs"
    using cs unfolding resolve_and_validate_def
    by (auto simp del: validate_addresses.simps split: sum.splits fetch_error.splits list.splits)
  have "cs \<noteq> []" and "\<forall>x\<in>set cs. \<exists>v a. v \<in> set vs \<and> parse_address tx v = Some a \<and> x = str_address tx a \<and> \<not> denies_address tx pol a ?p"
    using validate_addresses_allowed [OF vs(2)] vs(1) by simp_all
  then obtain v a where a: "parse_address tx v = Some a" "hd cs = str_address tx a" "\<not> denies_address tx pol a ?p"
    by (meson hd_in_set)
  have "parse_address tx (hd cs) = Some a" using ip_text_lawsD(3) [OF assms(1) a(1)] a(2) by simp
  with u(1) have "url' = urlunsplit lib (su_scheme (wt_parsed target)) (with_port (literal_host tx a) ?p (su_scheme (wt_parsed target)))
      (if su_path (wt_parsed target) = [] then [47] else su_path (wt_parsed target)) (su_query (wt_parsed target))"
    by (simp add: pinned_url_def)
  with u(2) host a(3) show ?thesis by (auto simp: allowed_request_def policy_refuses_def)
qed simp

lemma fetch_loop_allowed:
  assumes "ip_text_laws tx" "fetch_loop tx lib pol args left url sent = (sent', outcome)"
  shows "length sent' \<le> length sent + left \<and>
    (\<forall>r\<in>set sent'. r \<in> set sent \<or> allowed_request tx lib (policy_refuses tx pol) r)"
  using assms(2)
proof (induction left arbitrary: url sent)
  case (Suc left)
  obtain requests out where r: "request_once tx lib pol (length sent) url = (requests, out)" by fastforce
  note one = request_once_allowed [OF assms(1) r]
  consider (final) "sent' = sent @ requests" |
    (redirect) u where "fetch_loop tx lib pol args left u (sent @ requests) = (sent', outcome)"
    using Suc.prems unfolding fetch_loop.simps r by (cases out) (auto split: if_splits option.splits)
  then show ?case
  proof cases
    case final
    then show ?thesis using one by auto
  next
    case redirect
    from Suc.IH [OF redirect] one show ?thesis by auto
  qed
qed simp

lemma read_chunks_take:
  "read_chunks body chunks None = Inr (if MAX_RESPONSE_BYTES \<le> length body then body
     else take MAX_RESPONSE_BYTES (body @ concat chunks))"
proof (induction chunks arbitrary: body)
  case (Cons c cs)
  show ?case
  proof (cases "MAX_RESPONSE_BYTES \<le> length body + length c")
    case True
    then show ?thesis by (auto simp: Let_def)
  next
    case False
    then show ?thesis by (simp add: Let_def Cons.IH)
  qed
qed auto

lemma read_chunks_bounded:
  "length body \<le> MAX_RESPONSE_BYTES \<Longrightarrow> read_chunks body chunks error = Inr out \<Longrightarrow> length out \<le> MAX_RESPONSE_BYTES"
  by (induction body chunks error rule: read_chunks.induct) (auto simp: Let_def split: if_splits option.splits)

lemma execute_sent:
  assumes "web_fetch_execute tx lib admission policy_loader validated msg = (sent, outcome)" "r \<in> set sent"
  obtains pol args where "policy_loader = Inr pol" "validated = Inr args" "fst (web_fetch_url tx lib pol args) = sent"
  using assms by (auto simp: web_fetch_execute_def bind_result_def split: sum.splits prod.splits)

lemma read_limited_prefix:
  assumes "read_limited lib response = Inr body"
  shows "length body \<le> MAX_RESPONSE_BYTES"
    and "rs_stream_error response = None \<Longrightarrow> body = take MAX_RESPONSE_BYTES (concat (rs_raw_chunks response))"
  using assms read_chunks_bounded [of "[]" "rs_raw_chunks response" "rs_stream_error response" body]
  by (auto simp: read_limited_def Let_def read_chunks_take MAX_RESPONSE_BYTES_def split: if_splits)

lemma execute_content_bounded:
  assumes "web_fetch_execute tx lib admission policy_loader (Inr args) msg = (sent, Inr result)" "wr_code result = None"
  shows "length (wr_content result) \<le> wa_max_chars args + length TRUNCATION_MARKER"
proof -
  have "wr_code result \<noteq> None" if "handle_fetch_error e = Inr result" for e
    using that by (cases e) (auto simp: error_result_def)
  then obtain t where "result = \<lparr>wr_content = truncate_head t (wa_max_chars args), wr_code = None\<rparr>"
    using assms by (auto simp: web_fetch_execute_def error_result_def split: sum.splits prod.splits)
  then show ?thesis by (simp add: truncate_head_def)
qed

section \<open>Properties\<close>

text \<open>
  C35. A fetch obeys the deny list of the administrator: whatever the name service and the servers
  answer, and through all redirects, the tool sends at most eleven requests, and each of them goes to a
  host, a port and a numeric address that no entry of the configured list names. The
  address is the one that was checked, so a second answer of the name service cannot replace it.
\<close>

theorem web_fetch_obeys_denylist:
  assumes "ip_text_laws tx" "compile_ssrf_policy tx entries = Inr pol"
    and "web_fetch_execute tx lib admission (Inr pol) validated msg = (sent, outcome)"
  shows "length sent \<le> MAX_REDIRECTS + 1 \<and>
    (\<forall>r\<in>set sent. allowed_request tx lib (\<lambda>hostname port a. \<exists>v\<in>set entries. entry_matches tx v hostname port a) r)"
proof (cases sent)
  case (Cons first rest)
  then obtain args where args: "fst (web_fetch_url tx lib pol args) = sent"
    using execute_sent [OF assms(3), of first] by force
  then obtain out where "fetch_loop tx lib pol args (MAX_REDIRECTS + 1) (wa_url args) [] = (sent, out)"
    by (cases "web_fetch_url tx lib pol args") (simp add: web_fetch_url_def)
  note loop = fetch_loop_allowed [OF assms(1) this]
  obtain canonical where "canonicalize_ssrf_denylist tx entries = Inr canonical"
    using assms(2) by (auto simp: compile_ssrf_policy_def bind_result_Inr_iff)
  then have refuses: "policy_refuses tx pol hostname port a"
    if "v \<in> set entries" "entry_matches tx v hostname port a" for v hostname port a
    using compile_enforces [OF assms(1)] that assms(2) by (metis sum.inject(2))
  have "allowed_request tx lib (\<lambda>hostname port a. \<exists>v\<in>set entries. entry_matches tx v hostname port a) r"
    if "allowed_request tx lib (policy_refuses tx pol) r" for r
    using that refuses unfolding allowed_request_def by metis
  with loop show ?thesis by auto
qed simp

definition demo_web :: web_lib where
  "demo_web = \<lparr>
     urlsplit = (\<lambda>u. Some \<lparr>su_scheme = ustr_of ''http'', su_username = None, su_password = None, su_hostname = Some u,
       su_port = (if u = ustr_of ''bad'' then Inl () else Inr None), su_path = [], su_query = []\<rparr>),
     urljoin = (\<lambda>u location. Some location),
     urlunsplit = (\<lambda>scheme netloc path query. scheme @ ustr_of ''://'' @ netloc @ path @ query),
     unicode_lower = (\<lambda>s. s),
     resolver = (\<lambda>k hostname port. Inr [ustr_of (if k = 0 then ''8.8.8.8'' else ''10.0.0.1'')]),
     client_send = (\<lambda>k request. Inr \<lparr>rs_status_code = 302,
       rs_location = Some (if rq_sni_hostname request = ustr_of ''a'' then ustr_of ''b'' else ustr_of ''bad''),
       rs_content_type = None, rs_content_encoding = None, rs_encoding = None, rs_raw_chunks = [], rs_stream_error = None\<rparr>),
     parse_html = (\<lambda>body encoding url mode n. Inr []),
     bytes_decode_replace = (\<lambda>encoding body. Some body), utf8_decode_replace = (\<lambda>body. body)\<rparr>"

definition demo_policy :: ssrf_policy where
  "demo_policy = \<lparr>sp_canonical_entries = map ustr_of [''10.0.0.0/8'', ''[::1]:80'', ''example.com'', ''internal:8080'', ''10.0.0.1''],
     sp_networks = [net4 10 0 0 0 8, demo_host_network], sp_hosts = [ustr_of ''example.com''],
     sp_host_ports = [(ustr_of ''internal'', 8080), (ustr_of ''::1'', 80)]\<rparr>"

lemma demo_policy_compiled: "compile_ssrf_policy demo_text demo_entries = Inr demo_policy"
  unfolding compile_ssrf_policy_def demo_entries_canonical
  by (simp add: demo_policy_def List.insert_def policy_eval)

lemmas fetch_rounds = fetch_loop.simps(2) [where left = 10, simplified] fetch_loop.simps(2) [where left = 9, simplified]

lemmas fetch_eval = web_fetch_execute_def web_fetch_url_def MAX_REDIRECTS_def fetch_rounds request_once_def parse_target_def
  resolve_and_validate_def pinned_url_def with_port_def literal_host_def host_header_def denies_host_def denies_address_def
  ipv4_mapped_def in_network_def nw_broadcast_def nw_size_def error_result_def demo_web_def demo_policy_def policy_eval Let_def

lemma demo_fetch:
  "web_fetch_execute demo_text demo_web (Inr ()) (Inr demo_policy)
     (Inr \<lparr>wa_url = ustr_of ''a'', wa_extract_mode = Markdown, wa_max_chars = 100\<rparr>) [] =
   ([\<lparr>rq_url = ustr_of ''http://8.8.8.8/'', rq_host = ustr_of ''a'', rq_sni_hostname = ustr_of ''a''\<rparr>],
    Inr (error_result NETWORK_SSRF_BLOCKED (ustr_of ''Blocked address for b'')))"
  by (simp add: fetch_eval)

theorem web_fetch_obeys_denylist_witness:
  "allowed_request demo_text demo_web (\<lambda>hostname port a. \<exists>v\<in>set demo_entries. entry_matches demo_text v hostname port a)
     \<lparr>rq_url = ustr_of ''http://8.8.8.8/'', rq_host = ustr_of ''a'', rq_sni_hostname = ustr_of ''a''\<rparr>"
  using web_fetch_obeys_denylist [OF demo_text_laws demo_policy_compiled demo_fetch] by simp

text \<open>
  A redirect to a URL that the tool does not support is not a network error of the tool: the \<open>ValueError\<close> of
  \<open>_parse_target\<close> has no handler there and escapes.
\<close>

lemma redirect_value_error_escapes:
  "snd (web_fetch_execute demo_text demo_web (Inr ()) (Inr demo_policy)
     (Inr \<lparr>wa_url = ustr_of ''c'', wa_extract_mode = Markdown, wa_max_chars = 100\<rparr>) []) = Inl ValueErr"
  by (simp add: fetch_eval)

end
