(* ===== verification/Schedules.thy ===== *)
theory Schedules
  imports Py_Paths Py_Json
begin

text \<open>
  The schedules of automations: \<open>automations/schedule.py\<close>.

  A moment is an integer of microseconds since the epoch; a naive datetime is the same of the wall clock.
  The time zone database, the package \<open>croniter\<close> and the ISO 8601 texts of datetimes are fields of
  \<open>schedule_lib\<close>: a zone maps moments to wall times and wall times with a fold to moments, an iterator
  of \<open>croniter\<close> is the wall time it stands at. None as a result of a zone is an OverflowError. The quotient of
  \<open>total_seconds\<close> is computed exactly, which it is for less than \<open>2 ^ 32\<close> seconds.
\<close>

section \<open>Datetimes, zones and the libraries\<close>

definition MIN_EVERY_SECONDS :: int where "MIN_EVERY_SECONDS = 60"
definition MAX_EVERY_SECONDS :: int where "MAX_EVERY_SECONDS = 31536000"
definition MAX_CRON_EXPRESSION_CHARS :: nat where "MAX_CRON_EXPRESSION_CHARS = 256"
definition MAX_TIMEZONE_CHARS :: nat where "MAX_TIMEZONE_CHARS = 64"

datatype schedule_error = InvalidScheduleError | InvalidTimezoneError | DateOverflow | ScheduleValueError
  | ScheduleZeroDivision | ZoneLookupError | CronLookupError

datatype py_datetime = Naive int | Aware int int

definition DATETIME_MIN :: int where "DATETIME_MIN = - 62135596800000000"
definition DATETIME_MAX :: int where "DATETIME_MAX = 253402300799999999"

definition in_calendar :: "int \<Rightarrow> bool" where
  "in_calendar u \<longleftrightarrow> DATETIME_MIN \<le> u \<and> u \<le> DATETIME_MAX"

definition dt_checked :: "int \<Rightarrow> schedule_error + int" where
  "dt_checked u = (if in_calendar u then Inr u else Inl DateOverflow)"

definition seconds :: "int \<Rightarrow> int" where
  "seconds s = s * 1000000"

record tz =
  tz_key :: ustr
  tz_local :: "int \<Rightarrow> int option"
  tz_utc :: "bool \<Rightarrow> int \<Rightarrow> int option"

datatype zone_result = Zone tz | ZoneMissing | ZoneInvalid | ZoneUnreadable

datatype cron_error = BadCron | BadDate | CronKeyError | CronValueError | CronOverflow

record schedule_lib =
  sl_zone :: "ustr \<Rightarrow> zone_result"
  sl_cron_new :: "ustr \<Rightarrow> int \<Rightarrow> cron_error option"
  sl_cron_next :: "ustr \<Rightarrow> int \<Rightarrow> cron_error + int"
  sl_cron_prev :: "ustr \<Rightarrow> int \<Rightarrow> cron_error + int"
  sl_fromiso :: "ustr \<Rightarrow> py_datetime option"
  sl_iso :: "int \<Rightarrow> ustr"
  sl_digit :: "nat \<Rightarrow> nat option"

datatype schedule_kind = Every | Cron | At

record schedule_spec =
  ss_kind :: schedule_kind
  ss_value :: ustr
  ss_timezone :: "ustr option"
  ss_next_fire_at :: int

definition as_utc :: "py_datetime \<Rightarrow> schedule_error + int" where
  "as_utc d = (case d of Naive w \<Rightarrow> Inl InvalidScheduleError | Aware u off \<Rightarrow> dt_checked u)"

text \<open>\<open>int\<close> of a string; digits of other scripts are in \<open>sl_digit\<close>.\<close>

definition digit_of :: "schedule_lib \<Rightarrow> nat \<Rightarrow> nat option" where
  "digit_of lib c = (if 48 \<le> c \<and> c \<le> 57 then Some (c - 48) else sl_digit lib c)"

fun int_digits :: "schedule_lib \<Rightarrow> bool \<Rightarrow> nat \<Rightarrow> ustr \<Rightarrow> nat option" where
  "int_digits lib after_digit acc [] = (if after_digit then Some acc else None)"
| "int_digits lib after_digit acc (c # cs) =
     (if c = 95 then (if after_digit then int_digits lib False acc cs else None)
      else case digit_of lib c of None \<Rightarrow> None | Some d \<Rightarrow> int_digits lib True (10 * acc + d) cs)"

definition py_int :: "schedule_lib \<Rightarrow> ustr \<Rightarrow> int option" where
  "py_int lib s =
     (let t = py_strip s;
          unsigned = (if t \<noteq> [] \<and> hd t \<in> {43, 45} then tl t else t)
      in if 4300 < length (filter (\<lambda>c. c \<noteq> 95) unsigned) then None
         else map_option (\<lambda>n. if t \<noteq> [] \<and> hd t = 45 then - int n else int n) (int_digits lib False 0 unsigned))"

section \<open>Time zones\<close>

definition validate_timezone_name :: "schedule_lib \<Rightarrow> ustr \<Rightarrow> schedule_error + ustr" where
  "validate_timezone_name lib name =
     (if \<not> (1 \<le> length name \<and> length name \<le> MAX_TIMEZONE_CHARS) \<or> name \<noteq> py_strip name then Inl InvalidTimezoneError
      else if name \<noteq> ustr_of ''UTC'' \<and> (47 \<notin> set name \<or> py_startswith name (ustr_of ''Etc/GMT''))
      then Inl InvalidTimezoneError
      else case sl_zone lib name of
          Zone z \<Rightarrow> Inr (tz_key z)
        | ZoneMissing \<Rightarrow> Inl InvalidTimezoneError
        | ZoneInvalid \<Rightarrow> Inl InvalidTimezoneError
        | ZoneUnreadable \<Rightarrow> Inl ZoneLookupError)"

definition zone_info :: "schedule_lib \<Rightarrow> ustr \<Rightarrow> schedule_error + tz" where
  "zone_info lib name = (case sl_zone lib name of Zone z \<Rightarrow> Inr z | _ \<Rightarrow> Inl ZoneLookupError)"

definition fold_candidate :: "tz \<Rightarrow> int \<Rightarrow> bool \<Rightarrow> schedule_error + int list" where
  "fold_candidate z w second =
     (case tz_utc z second w of
        None \<Rightarrow> Inl DateOverflow
      | Some u \<Rightarrow> (case tz_local z u of None \<Rightarrow> Inl DateOverflow | Some w' \<Rightarrow> Inr (if w' = w then [u] else [])))"

definition local_utc_candidates :: "tz \<Rightarrow> int \<Rightarrow> schedule_error + int list" where
  "local_utc_candidates z w =
     bind_result (fold_candidate z w False) (\<lambda>a. bind_result (fold_candidate z w True) (\<lambda>b. Inr (sort (remdups (a @ b)))))"

section \<open>Cron expressions\<close>

definition MONTH_NAMES :: "(ustr \<times> int) list" where
  "MONTH_NAMES = zip (map ustr_of [''JAN'', ''FEB'', ''MAR'', ''APR'', ''MAY'', ''JUN'', ''JUL'', ''AUG'', ''SEP'', ''OCT'', ''NOV'', ''DEC''])
     [1..12]"

definition WEEKDAY_NAMES :: "(ustr \<times> int) list" where
  "WEEKDAY_NAMES = zip (map ustr_of [''SUN'', ''MON'', ''TUE'', ''WED'', ''THU'', ''FRI'', ''SAT'']) [0..6]"

definition is_decimal :: "ustr \<Rightarrow> bool" where
  "is_decimal s \<longleftrightarrow> s \<noteq> [] \<and> list_all (\<lambda>c. 48 \<le> c \<and> c \<le> 57) s"

definition is_letter :: "nat \<Rightarrow> bool" where
  "is_letter c \<longleftrightarrow> (65 \<le> c \<and> c \<le> 90) \<or> (97 \<le> c \<and> c \<le> 122)"

definition ascii_upper :: "nat \<Rightarrow> nat" where
  "ascii_upper c = (if 97 \<le> c \<and> c \<le> 122 then c - 32 else c)"

definition cron_atom_value :: "ustr \<Rightarrow> int \<Rightarrow> int \<Rightarrow> (ustr \<times> int) list option \<Rightarrow> schedule_error + int" where
  "cron_atom_value atom minimum maximum names =
     bind_result
       (if is_decimal atom then Inr (int (digits_value atom 0))
        else case names of
            None \<Rightarrow> Inl InvalidScheduleError
          | Some ns \<Rightarrow>
              if length atom = 3 \<and> list_all is_letter atom
              then (case map_of ns (map ascii_upper atom) of None \<Rightarrow> Inl InvalidScheduleError | Some v \<Rightarrow> Inr v)
              else Inl InvalidScheduleError)
       (\<lambda>v. if minimum \<le> v \<and> v \<le> maximum then Inr v else Inl InvalidScheduleError)"

definition validate_cron_item :: "int \<Rightarrow> int \<Rightarrow> (ustr \<times> int) list option \<Rightarrow> ustr \<Rightarrow> schedule_error + unit" where
  "validate_cron_item minimum maximum names item =
     (if item = [] then Inl InvalidScheduleError
      else let pieces = py_split 47 item
           in if 2 < length pieces then Inl InvalidScheduleError
              else if length pieces = 2 \<and> (\<not> is_decimal (pieces ! 1) \<or> digits_value (pieces ! 1) 0 \<le> 0) then Inl InvalidScheduleError
              else if hd pieces = [42] then Inr ()
              else let endpoints = py_split 45 (hd pieces)
                   in if 2 < length endpoints then Inl InvalidScheduleError
                      else bind_result (map_result (\<lambda>a. cron_atom_value a minimum maximum names) endpoints)
                        (\<lambda>values. if length values = 2 \<and> values ! 1 < values ! 0 then Inl InvalidScheduleError else Inr ()))"

definition validate_cron_field :: "int \<Rightarrow> int \<Rightarrow> (ustr \<times> int) list option \<Rightarrow> ustr \<Rightarrow> schedule_error + unit" where
  "validate_cron_field minimum maximum names field =
     bind_result (map_result (validate_cron_item minimum maximum names) (py_split 44 field)) (\<lambda>us. Inr ())"

definition CRON_FIELDS :: "(int \<times> int \<times> (ustr \<times> int) list option) list" where
  "CRON_FIELDS = [(0, 59, None), (0, 23, None), (1, 31, None), (1, 12, Some MONTH_NAMES), (0, 7, Some WEEKDAY_NAMES)]"

definition CRON_PROBE :: int where "CRON_PROBE = 946684800000000"

definition canonical_cron_expression :: "schedule_lib \<Rightarrow> ustr \<Rightarrow> schedule_error + ustr" where
  "canonical_cron_expression lib raw =
     (let expression = py_join [32] (py_words (py_strip raw))
      in if expression = [] \<or> MAX_CRON_EXPRESSION_CHARS < length expression then Inl InvalidScheduleError
         else let fields = py_split 32 expression
              in if length fields \<noteq> 5 then Inl InvalidScheduleError
                 else bind_result
                   (map_result (\<lambda>(f, lo, hi, names). validate_cron_field lo hi names f) (zip fields CRON_FIELDS))
                   (\<lambda>us. case sl_cron_new lib expression CRON_PROBE of
                      None \<Rightarrow> Inr expression
                    | Some e \<Rightarrow> if e \<in> {BadCron, CronKeyError, CronValueError, BadDate} then Inl InvalidScheduleError
                                else Inl DateOverflow))"

text \<open>The exceptions that the searches translate; a KeyError escapes.\<close>

definition cron_failure :: "cron_error \<Rightarrow> schedule_error" where
  "cron_failure e = (if e = CronKeyError then CronLookupError else InvalidScheduleError)"

fun next_cron_loop :: "schedule_lib \<Rightarrow> tz \<Rightarrow> ustr \<Rightarrow> int \<Rightarrow> nat \<Rightarrow> int \<Rightarrow> schedule_error + int" where
  "next_cron_loop lib z expression now 0 w = Inl InvalidScheduleError"
| "next_cron_loop lib z expression now (Suc n) w =
     (case sl_cron_next lib expression w of
        Inl e \<Rightarrow> Inl (cron_failure e)
      | Inr w' \<Rightarrow>
          (case local_utc_candidates z w' of
             Inl e \<Rightarrow> Inl InvalidScheduleError
           | Inr [] \<Rightarrow> next_cron_loop lib z expression now n w'
           | Inr (earlier # rest) \<Rightarrow> if now < earlier then Inr earlier else next_cron_loop lib z expression now n w'))"

definition CRON_STEPS :: nat where "CRON_STEPS = 10000"

definition next_cron :: "schedule_lib \<Rightarrow> ustr \<Rightarrow> ustr \<Rightarrow> int \<Rightarrow> schedule_error + int" where
  "next_cron lib expression timezone now =
     bind_result (validate_timezone_name lib timezone) (\<lambda>key.
     bind_result (zone_info lib key) (\<lambda>z.
       case tz_local z now of
         None \<Rightarrow> Inl DateOverflow
       | Some base \<Rightarrow>
           (case sl_cron_new lib expression base of
              Some e \<Rightarrow> Inl (cron_failure e)
            | None \<Rightarrow> next_cron_loop lib z expression now CRON_STEPS base)))"

fun previous_loop :: "schedule_lib \<Rightarrow> tz \<Rightarrow> ustr \<Rightarrow> int \<Rightarrow> nat \<Rightarrow> int \<Rightarrow> schedule_error + int option" where
  "previous_loop lib z expression now 0 w = Inr None"
| "previous_loop lib z expression now (Suc n) w =
     (case sl_cron_prev lib expression w of
        Inl e \<Rightarrow> Inl (cron_failure e)
      | Inr w' \<Rightarrow>
          (case local_utc_candidates z w' of
             Inl e \<Rightarrow> Inl InvalidScheduleError
           | Inr [] \<Rightarrow> previous_loop lib z expression now n w'
           | Inr (earlier # rest) \<Rightarrow> if earlier \<le> now then Inr (Some earlier) else previous_loop lib z expression now n w'))"

fun forward_loop :: "schedule_lib \<Rightarrow> tz \<Rightarrow> ustr \<Rightarrow> int \<Rightarrow> int option \<Rightarrow> nat \<Rightarrow> int \<Rightarrow> schedule_error + int option" where
  "forward_loop lib z expression now previous 0 w = Inr previous"
| "forward_loop lib z expression now previous (Suc n) w =
     (case sl_cron_next lib expression w of
        Inl e \<Rightarrow> Inl (cron_failure e)
      | Inr w' \<Rightarrow>
          (case local_utc_candidates z w' of
             Inl e \<Rightarrow> Inl InvalidScheduleError
           | Inr [] \<Rightarrow> forward_loop lib z expression now previous n w'
           | Inr (earlier # rest) \<Rightarrow>
               if now < earlier then Inr previous
               else forward_loop lib z expression now
                 (case previous of None \<Rightarrow> Some earlier | Some p \<Rightarrow> if p < earlier then Some earlier else Some p) n w'))"

definition previous_cron :: "schedule_lib \<Rightarrow> ustr \<Rightarrow> ustr \<Rightarrow> int \<Rightarrow> schedule_error + int" where
  "previous_cron lib expression timezone now =
     bind_result (validate_timezone_name lib timezone) (\<lambda>key.
     bind_result (zone_info lib key) (\<lambda>z.
     bind_result (case tz_local z now of None \<Rightarrow> Inl DateOverflow | Some w \<Rightarrow> dt_checked (w + 1)) (\<lambda>base.
       case sl_cron_new lib expression base of
         Some e \<Rightarrow> Inl (cron_failure e)
       | None \<Rightarrow>
           bind_result (previous_loop lib z expression now CRON_STEPS base) (\<lambda>previous.
           bind_result (forward_loop lib z expression now previous CRON_STEPS base) (\<lambda>latest.
             case latest of None \<Rightarrow> Inl InvalidScheduleError | Some u \<Rightarrow> Inr u)))))"

section \<open>Schedules\<close>

datatype every_arg = EveryInt int | EveryBool bool | EveryOther
datatype cron_arg = CronStr ustr | CronOther
datatype at_arg = AtStr ustr | AtDatetime py_datetime | AtOther

definition parse_datetime :: "schedule_lib \<Rightarrow> at_arg \<Rightarrow> schedule_error + py_datetime" where
  "parse_datetime lib v =
     (case v of
        AtDatetime d \<Rightarrow> Inr d
      | AtOther \<Rightarrow> Inl InvalidScheduleError
      | AtStr s \<Rightarrow>
          if s = [] \<or> s \<noteq> py_strip s then Inl InvalidScheduleError
          else case sl_fromiso lib (py_replace (ustr_of ''Z'') (ustr_of ''+00:00'') s) of
              None \<Rightarrow> Inl InvalidScheduleError
            | Some d \<Rightarrow> Inr d)"

definition rfc3339_utc :: "schedule_lib \<Rightarrow> int \<Rightarrow> ustr" where
  "rfc3339_utc lib u = py_replace (ustr_of ''+00:00'') (ustr_of ''Z'') (sl_iso lib u)"

definition canonicalize_every :: "every_arg \<Rightarrow> ustr option \<Rightarrow> int \<Rightarrow> schedule_error + schedule_spec" where
  "canonicalize_every every_seconds timezone now =
     (if timezone \<noteq> None then Inl InvalidScheduleError
      else case every_seconds of
          EveryInt s \<Rightarrow>
            if MIN_EVERY_SECONDS \<le> s \<and> s \<le> MAX_EVERY_SECONDS
            then bind_result (dt_checked (now + seconds s)) (\<lambda>fire.
              Inr \<lparr>ss_kind = Every, ss_value = py_str_int s, ss_timezone = None, ss_next_fire_at = fire\<rparr>)
            else Inl InvalidScheduleError
        | _ \<Rightarrow> Inl InvalidScheduleError)"

definition canonicalize_cron :: "schedule_lib \<Rightarrow> cron_arg \<Rightarrow> ustr option \<Rightarrow> ustr \<Rightarrow> int \<Rightarrow> schedule_error + schedule_spec" where
  "canonicalize_cron lib cron_expr timezone user_timezone now =
     (case cron_expr of
        CronOther \<Rightarrow> Inl InvalidScheduleError
      | CronStr raw \<Rightarrow>
          bind_result (canonical_cron_expression lib raw) (\<lambda>expression.
          bind_result (validate_timezone_name lib (case timezone of None \<Rightarrow> user_timezone | Some t \<Rightarrow> t)) (\<lambda>effective.
          bind_result (next_cron lib expression effective now) (\<lambda>fire.
            Inr \<lparr>ss_kind = Cron, ss_value = expression, ss_timezone = Some effective, ss_next_fire_at = fire\<rparr>))))"

definition one_shot_instant :: "schedule_lib \<Rightarrow> py_datetime \<Rightarrow> ustr option \<Rightarrow> ustr \<Rightarrow> schedule_error + int \<times> ustr" where
  "one_shot_instant lib parsed timezone user_timezone =
     (case parsed of
        Naive w \<Rightarrow>
          bind_result (validate_timezone_name lib (case timezone of None \<Rightarrow> user_timezone | Some t \<Rightarrow> t)) (\<lambda>effective.
          bind_result (zone_info lib effective) (\<lambda>z.
          bind_result (local_utc_candidates z w) (\<lambda>candidates.
            case candidates of [u] \<Rightarrow> Inr (u, effective) | _ \<Rightarrow> Inl InvalidScheduleError)))
      | Aware u off \<Rightarrow>
          bind_result (dt_checked u) (\<lambda>instant.
            case timezone of
              None \<Rightarrow> Inr (instant, ustr_of ''UTC'')
            | Some t \<Rightarrow>
                bind_result (validate_timezone_name lib t) (\<lambda>effective.
                bind_result (zone_info lib effective) (\<lambda>z.
                  case tz_local z instant of
                    None \<Rightarrow> Inl DateOverflow
                  | Some w \<Rightarrow> if w - instant = off then Inr (instant, effective) else Inl InvalidScheduleError))))"

definition canonicalize_at :: "schedule_lib \<Rightarrow> at_arg \<Rightarrow> ustr option \<Rightarrow> ustr \<Rightarrow> int \<Rightarrow> schedule_error + schedule_spec" where
  "canonicalize_at lib v timezone user_timezone now =
     bind_result (parse_datetime lib v) (\<lambda>parsed.
     bind_result (one_shot_instant lib parsed timezone user_timezone) (\<lambda>(instant, effective).
       if instant \<le> now then Inl InvalidScheduleError
       else Inr \<lparr>ss_kind = At, ss_value = rfc3339_utc lib instant, ss_timezone = Some effective, ss_next_fire_at = instant\<rparr>))"

definition canonicalize_schedule ::
  "schedule_lib \<Rightarrow> every_arg option \<Rightarrow> cron_arg option \<Rightarrow> at_arg option \<Rightarrow> ustr option \<Rightarrow> ustr \<Rightarrow> py_datetime \<Rightarrow>
   schedule_error + schedule_spec" where
  "canonicalize_schedule lib every_seconds cron_expr at_time timezone user_timezone now =
     bind_result (as_utc now) (\<lambda>now_utc.
       case (every_seconds, cron_expr, at_time) of
         (Some e, None, None) \<Rightarrow> canonicalize_every e timezone now_utc
       | (None, Some c, None) \<Rightarrow> canonicalize_cron lib c timezone user_timezone now_utc
       | (None, None, Some v) \<Rightarrow> canonicalize_at lib v timezone user_timezone now_utc
       | _ \<Rightarrow> Inl InvalidScheduleError)"

definition advance_recurring :: "schedule_lib \<Rightarrow> schedule_spec \<Rightarrow> py_datetime \<Rightarrow> py_datetime \<Rightarrow> schedule_error + int" where
  "advance_recurring lib spec scheduled_at now =
     bind_result (as_utc now) (\<lambda>now_utc.
     bind_result (as_utc scheduled_at) (\<lambda>boundary.
       case ss_kind spec of
         Every \<Rightarrow>
           (case py_int lib (ss_value spec) of
              None \<Rightarrow> Inl ScheduleValueError
            | Some s \<Rightarrow>
                if s = 0 then Inl ScheduleZeroDivision
                else let elapsed = max 0 (now_utc - boundary); steps = elapsed div seconds s + 1
                     in dt_checked (boundary + seconds (steps * s)))
       | Cron \<Rightarrow>
           (case ss_timezone spec of
              None \<Rightarrow> Inl InvalidScheduleError
            | Some t \<Rightarrow> next_cron lib (ss_value spec) t now_utc)
       | At \<Rightarrow> Inl InvalidScheduleError))"

definition latest_due_occurrence :: "schedule_lib \<Rightarrow> schedule_spec \<Rightarrow> py_datetime \<Rightarrow> py_datetime \<Rightarrow> schedule_error + int" where
  "latest_due_occurrence lib spec scheduled_at now =
     bind_result (as_utc now) (\<lambda>now_utc.
     bind_result (as_utc scheduled_at) (\<lambda>boundary.
       if now_utc < boundary then Inl InvalidScheduleError
       else case ss_kind spec of
           Every \<Rightarrow>
             (case py_int lib (ss_value spec) of
                None \<Rightarrow> Inl ScheduleValueError
              | Some s \<Rightarrow>
                  if s = 0 then Inl ScheduleZeroDivision
                  else dt_checked (boundary + seconds ((now_utc - boundary) div seconds s * s)))
         | Cron \<Rightarrow>
             (case ss_timezone spec of
                None \<Rightarrow> Inl InvalidScheduleError
              | Some t \<Rightarrow> bind_result (previous_cron lib (ss_value spec) t now_utc) (\<lambda>candidate. Inr (max boundary candidate)))
         | At \<Rightarrow> Inr boundary))"

definition schedule_from_storage ::
  "schedule_lib \<Rightarrow> ustr \<Rightarrow> ustr \<Rightarrow> ustr option \<Rightarrow> py_datetime \<Rightarrow> schedule_error + schedule_spec" where
  "schedule_from_storage lib kind v timezone next_fire_at =
     (let spec = (\<lambda>k. bind_result (as_utc next_fire_at) (\<lambda>fire.
            Inr \<lparr>ss_kind = k, ss_value = v, ss_timezone = timezone, ss_next_fire_at = fire\<rparr>))
      in if kind = ustr_of ''every''
         then (if timezone \<noteq> None then Inl InvalidScheduleError
               else case py_int lib v of
                   None \<Rightarrow> Inl InvalidScheduleError
                 | Some s \<Rightarrow> if py_str_int s \<noteq> v \<or> \<not> (MIN_EVERY_SECONDS \<le> s \<and> s \<le> MAX_EVERY_SECONDS)
                     then Inl InvalidScheduleError else spec Every)
         else if kind = ustr_of ''cron''
         then (case timezone of
                 None \<Rightarrow> Inl InvalidScheduleError
               | Some t \<Rightarrow> bind_result (canonical_cron_expression lib v) (\<lambda>x.
                   bind_result (validate_timezone_name lib t) (\<lambda>key. spec Cron)))
         else if kind = ustr_of ''at''
         then (case timezone of
                 None \<Rightarrow> Inl InvalidScheduleError
               | Some t \<Rightarrow> bind_result (parse_datetime lib (AtStr v)) (\<lambda>parsed.
                   case parsed of
                     Naive w \<Rightarrow> Inl InvalidScheduleError
                   | Aware u off \<Rightarrow>
                       bind_result (dt_checked u) (\<lambda>instant.
                       bind_result (as_utc next_fire_at) (\<lambda>fire.
                         if instant \<noteq> fire then Inl InvalidScheduleError
                         else bind_result (validate_timezone_name lib t) (\<lambda>key. spec At)))))
         else Inl InvalidScheduleError)"

end
