(* ===== verification/Schedule_Search.thy ===== *)
theory Schedule_Search
  imports Schedules
begin

text \<open>
  The searches for the occurrences of a cron schedule: what the time zone and \<open>croniter\<close> are relied on, the
  occurrences of an expression in a zone, and that the next and the latest occurrence are found. The
  properties are shown on a zone that repeats an hour.
\<close>

section \<open>Occurrences\<close>

definition first_moment :: "tz \<Rightarrow> int \<Rightarrow> int option" where
  "first_moment z w = (case local_utc_candidates z w of Inr (u # us) \<Rightarrow> Some u | _ \<Rightarrow> None)"

text \<open>
  What a time zone is relied on: conversions succeed for the wall times of a window; a wall time that
  occurs is first read at the earlier fold; and first readings are in the order of the wall times.
\<close>

definition zone_contract :: "tz \<Rightarrow> int \<Rightarrow> int \<Rightarrow> bool" where
  "zone_contract z lo hi \<longleftrightarrow>
     (\<forall>w second. lo \<le> w \<longrightarrow> w \<le> hi \<longrightarrow> (\<exists>u w'. tz_utc z second w = Some u \<and> tz_local z u = Some w')) \<and>
     (\<forall>u w u0. tz_local z u = Some w \<longrightarrow> tz_utc z False w = Some u0 \<longrightarrow> tz_local z u0 = Some w \<and> u0 \<le> u) \<and>
     (\<forall>w u w' u'. tz_utc z False w = Some u \<longrightarrow> tz_local z u = Some w \<longrightarrow>
        tz_utc z False w' = Some u' \<longrightarrow> tz_local z u' = Some w' \<longrightarrow> w < w' \<longrightarrow> u < u')"

text \<open>
  What \<open>croniter\<close> is relied on for an expression and the wall times it matches: from a wall time of the
  window it finds the nearest match after it, or before it, when the window has one.
\<close>

definition cron_contract :: "schedule_lib \<Rightarrow> ustr \<Rightarrow> int set \<Rightarrow> int \<Rightarrow> int \<Rightarrow> bool" where
  "cron_contract lib expression matches lo hi \<longleftrightarrow>
     (\<forall>w. lo \<le> w \<longrightarrow> w \<le> hi \<longrightarrow> sl_cron_new lib expression w = None) \<and>
     (\<forall>w w'. lo \<le> w \<longrightarrow> w < w' \<longrightarrow> w' \<le> hi \<longrightarrow> w' \<in> matches \<longrightarrow> (\<forall>x\<in>matches. w < x \<longrightarrow> w' \<le> x) \<longrightarrow>
        sl_cron_next lib expression w = Inr w') \<and>
     (\<forall>w w'. lo \<le> w' \<longrightarrow> w' < w \<longrightarrow> w \<le> hi \<longrightarrow> w' \<in> matches \<longrightarrow> (\<forall>x\<in>matches. x < w \<longrightarrow> x \<le> w') \<longrightarrow>
        sl_cron_prev lib expression w = Inr w')"

text \<open>A schedule fires at the first moment that the wall clock shows a matching time.\<close>

definition occurrences :: "tz \<Rightarrow> int set \<Rightarrow> int set" where
  "occurrences z matches = {u. \<exists>w\<in>matches. first_moment z w = Some u}"

definition least_after :: "int set \<Rightarrow> int \<Rightarrow> int \<Rightarrow> bool" where
  "least_after os now v \<longleftrightarrow> v \<in> os \<and> now < v \<and> (\<forall>x\<in>os. now < x \<longrightarrow> v \<le> x)"

definition greatest_upto :: "int set \<Rightarrow> int \<Rightarrow> int \<Rightarrow> bool" where
  "greatest_upto os now v \<longleftrightarrow> v \<in> os \<and> v \<le> now \<and> (\<forall>x\<in>os. x \<le> now \<longrightarrow> x \<le> v)"

lemma zone_contractD:
  assumes "zone_contract z lo hi"
  shows "lo \<le> w \<Longrightarrow> w \<le> hi \<Longrightarrow> \<exists>u w'. tz_utc z second w = Some u \<and> tz_local z u = Some w'"
    "tz_local z u = Some w \<Longrightarrow> tz_utc z False w = Some u0 \<Longrightarrow> tz_local z u0 = Some w \<and> u0 \<le> u"
    "tz_utc z False w = Some u \<Longrightarrow> tz_local z u = Some w \<Longrightarrow> tz_utc z False w' = Some u' \<Longrightarrow> tz_local z u' = Some w' \<Longrightarrow>
       w < w' \<Longrightarrow> u < u'"
  using assms unfolding zone_contract_def by blast+

lemma fold_candidate_cases:
  assumes "fold_candidate z w second = Inr us"
  obtains u w' where "tz_utc z second w = Some u" "tz_local z u = Some w'" "us = (if w' = w then [u] else [])"
  using assms by (auto simp: fold_candidate_def split: option.splits)

lemma fold_candidate_total:
  assumes "zone_contract z lo hi" "lo \<le> w" "w \<le> hi"
  shows "\<exists>us. fold_candidate z w second = Inr us"
  using zone_contractD(1) [OF assms, of second] by (auto simp: fold_candidate_def)

lemma candidates_total:
  assumes "zone_contract z lo hi" "lo \<le> w" "w \<le> hi"
  shows "\<exists>us. local_utc_candidates z w = Inr us"
  using fold_candidate_total [OF assms, of False] fold_candidate_total [OF assms, of True]
  by (auto simp: local_utc_candidates_def)

lemma first_momentD:
  assumes "zone_contract z lo hi" "first_moment z w = Some u"
  shows "tz_utc z False w = Some u" "tz_local z u = Some w"
proof -
  from assms(2) obtain us where us: "local_utc_candidates z w = Inr (u # us)"
    by (auto simp: first_moment_def split: sum.splits list.splits)
  then obtain xs ys where folds: "fold_candidate z w False = Inr xs" "fold_candidate z w True = Inr ys"
    and cands: "sort (remdups (xs @ ys)) = u # us"
    by (auto simp: local_utc_candidates_def bind_result_def split: sum.splits)
  obtain a wa where a: "tz_utc z False w = Some a" "tz_local z a = Some wa" "xs = (if wa = w then [a] else [])"
    using folds(1) by (rule fold_candidate_cases)
  obtain b wb where b: "tz_utc z True w = Some b" "tz_local z b = Some wb" "ys = (if wb = w then [b] else [])"
    using folds(2) by (rule fold_candidate_cases)
  have "wa = w \<and> a \<le> b" if "wb = w" using zone_contractD(2) [OF assms(1), of b w a] a(1,2) b(2) that by simp
  then have "u = a \<and> wa = w" using cands unfolding a b by (auto split: if_splits)
  then show "tz_utc z False w = Some u" "tz_local z u = Some w" using a by simp_all
qed

lemma first_moment_mono:
  assumes "zone_contract z lo hi" "first_moment z w = Some u" "first_moment z w' = Some u'"
  shows "w < w' \<Longrightarrow> u < u'" "w \<le> w' \<Longrightarrow> u \<le> u'"
proof -
  show "w < w' \<Longrightarrow> u < u'"
    using zone_contractD(3) [OF assms(1)] first_momentD [OF assms(1,2)] first_momentD [OF assms(1,3)] by blast
  then show "w \<le> w' \<Longrightarrow> u \<le> u'" using assms(2,3) by (cases "w = w'") auto
qed

lemma first_moment_past:
  assumes "zone_contract z lo hi" "tz_local z now = Some base" "lo \<le> base" "base \<le> hi" "w \<le> base" "first_moment z w = Some u"
  shows "u \<le> now"
proof -
  obtain v where v: "tz_utc z False base = Some v" using zone_contractD(1) [OF assms(1,3,4)] by blast
  then have now: "tz_local z v = Some base" "v \<le> now" using zone_contractD(2) [OF assms(1,2)] by blast+
  show ?thesis
  proof (cases "w = base")
    case True
    then show ?thesis using first_momentD(1) [OF assms(1,6)] v now by simp
  next
    case False
    then have "u < v" using assms(5) zone_contractD(3) [OF assms(1) first_momentD [OF assms(1,6)] v now(1)] by simp
    then show ?thesis using now by simp
  qed
qed

lemma candidates_first_moment:
  "local_utc_candidates z w = Inr [] \<Longrightarrow> first_moment z w = None"
  "local_utc_candidates z w = Inr (u # us) \<Longrightarrow> first_moment z w = Some u"
  by (simp_all add: first_moment_def)

section \<open>The searches\<close>

lemma least_match:
  fixes cur :: int
  assumes "w \<in> matches" "cur < w"
  obtains w' where "w' \<in> matches" "cur < w'" "w' \<le> w" "\<forall>x\<in>matches. cur < x \<longrightarrow> w' \<le> x"
proof -
  let ?S = "matches \<inter> {cur<..w}"
  have S: "finite ?S" "?S \<noteq> {}" using assms by auto
  have low: "Min ?S \<le> x" if "x \<in> ?S" for x using S(1) that by (rule Min_le)
  have m: "Min ?S \<in> matches" "cur < Min ?S" "Min ?S \<le> w" using Min_in [OF S] by auto
  have "Min ?S \<le> x" if "x \<in> matches" "cur < x" for x
    using low [of x] that m(3) by (cases "x \<le> w") auto
  then show thesis using that m by blast
qed

lemma greatest_match:
  fixes cur :: int
  assumes "w \<in> matches" "w < cur"
  obtains w' where "w' \<in> matches" "w' < cur" "w \<le> w'" "\<forall>x\<in>matches. x < cur \<longrightarrow> x \<le> w'"
proof -
  let ?S = "matches \<inter> {w..<cur}"
  have S: "finite ?S" "?S \<noteq> {}" using assms by auto
  have up: "x \<le> Max ?S" if "x \<in> ?S" for x using S(1) that by (rule Max_ge)
  have m: "Max ?S \<in> matches" "Max ?S < cur" "w \<le> Max ?S" using Max_in [OF S] by auto
  have "x \<le> Max ?S" if "x \<in> matches" "x < cur" for x
    using up [of x] that m(3) by (cases "w \<le> x") auto
  then show thesis using that m by blast
qed

lemma next_match:
  assumes cron: "cron_contract lib expression matches lo hi" and w: "w \<in> matches" "cur < w" "w \<le> hi" "lo \<le> cur"
    and n: "card (matches \<inter> {cur<..w}) \<le> Suc n"
  obtains w' where "w' \<in> matches" "sl_cron_next lib expression cur = Inr w'" "cur < w'" "w' \<le> w"
    "\<forall>x\<in>matches. cur < x \<longrightarrow> w' \<le> x" "card (matches \<inter> {w'<..w}) \<le> n"
proof -
  obtain w' where m: "w' \<in> matches" "cur < w'" "w' \<le> w" "\<forall>x\<in>matches. cur < x \<longrightarrow> w' \<le> x"
    using w(1,2) by (rule least_match)
  have "sl_cron_next lib expression cur = Inr w'"
    using cron m w(3,4) unfolding cron_contract_def by (meson order_trans)
  moreover have "matches \<inter> {cur<..w} = insert w' (matches \<inter> {w'<..w})" using m by fastforce
  then have "card (matches \<inter> {w'<..w}) \<le> n" using n by simp
  ultimately show thesis using that m by blast
qed

lemma previous_match:
  assumes cron: "cron_contract lib expression matches lo hi" and w: "w \<in> matches" "w < cur" "lo \<le> w" "cur \<le> hi"
    and n: "card (matches \<inter> {w..<cur}) \<le> Suc n"
  obtains w' where "w' \<in> matches" "sl_cron_prev lib expression cur = Inr w'" "w' < cur" "w \<le> w'"
    "\<forall>x\<in>matches. x < cur \<longrightarrow> x \<le> w'" "card (matches \<inter> {w..<w'}) \<le> n"
proof -
  obtain w' where m: "w' \<in> matches" "w' < cur" "w \<le> w'" "\<forall>x\<in>matches. x < cur \<longrightarrow> x \<le> w'"
    using w(1,2) by (rule greatest_match)
  have "sl_cron_prev lib expression cur = Inr w'"
    using cron m w(3,4) unfolding cron_contract_def by (meson order_trans)
  moreover have "matches \<inter> {w..<cur} = insert w' (matches \<inter> {w..<w'})" using m by fastforce
  then have "card (matches \<inter> {w..<w'}) \<le> n" using n by simp
  ultimately show thesis using that m by blast
qed

lemma least_afterI:
  assumes "zone_contract z lo hi" "w' \<in> matches" "first_moment z w' = Some a" "now < a"
    "\<forall>x\<in>matches. x < w' \<longrightarrow> (\<forall>v. first_moment z x = Some v \<longrightarrow> v \<le> now)"
  shows "least_after (occurrences z matches) now a"
proof -
  have "a \<le> y" if y: "y \<in> occurrences z matches" "now < y" for y
  proof -
    obtain x where x: "x \<in> matches" "first_moment z x = Some y" using y(1) by (auto simp: occurrences_def)
    then have "w' \<le> x" using assms(5) y(2) by fastforce
    then show ?thesis using first_moment_mono(2) [OF assms(1,3) x(2)] by blast
  qed
  then show ?thesis using assms(2-4) by (auto simp: least_after_def occurrences_def)
qed

lemma next_cron_loop_least:
  assumes zone: "zone_contract z lo hi" and cron: "cron_contract lib expression matches lo hi"
    and w: "w \<in> matches" "w \<le> hi" "first_moment z w = Some u" "now < u"
  shows "lo \<le> cur \<Longrightarrow> \<forall>x\<in>matches. x \<le> cur \<longrightarrow> (\<forall>v. first_moment z x = Some v \<longrightarrow> v \<le> now) \<Longrightarrow>
    card (matches \<inter> {cur<..w}) \<le> n \<Longrightarrow>
    \<exists>v. next_cron_loop lib z expression now n cur = Inr v \<and> least_after (occurrences z matches) now v"
proof (induction n arbitrary: cur)
  case 0
  then have "matches \<inter> {cur<..w} = {}" by simp
  then show ?case using 0(2) w by fastforce
next
  case (Suc n)
  have "cur < w" using Suc.prems(2) w by fastforce
  then obtain w' where nxt: "w' \<in> matches" "sl_cron_next lib expression cur = Inr w'" "cur < w'" "w' \<le> w"
      "\<forall>x\<in>matches. cur < x \<longrightarrow> w' \<le> x" and left: "card (matches \<inter> {w'<..w}) \<le> n"
    using next_match [OF cron w(1) _ w(2) Suc.prems(1,3)] by blast
  have past: "\<forall>x\<in>matches. x < w' \<longrightarrow> (\<forall>v. first_moment z x = Some v \<longrightarrow> v \<le> now)"
    using Suc.prems(2) nxt(5) by (meson linorder_not_less)
  have "\<exists>us. local_utc_candidates z w' = Inr us"
    by (rule candidates_total [OF zone]) (use Suc.prems(1) nxt(3,4) w(2) in linarith)+
  then obtain us where us: "local_utc_candidates z w' = Inr us" by blast
  have skip: "\<exists>v. next_cron_loop lib z expression now n w' = Inr v \<and> least_after (occurrences z matches) now v"
    if "\<forall>v. first_moment z w' = Some v \<longrightarrow> v \<le> now"
  proof (rule Suc.IH [OF _ _ left])
    show "lo \<le> w'" using Suc.prems(1) nxt(3) by simp
    show "\<forall>x\<in>matches. x \<le> w' \<longrightarrow> (\<forall>v. first_moment z x = Some v \<longrightarrow> v \<le> now)" using past that by fastforce
  qed
  show ?case
  proof (cases us)
    case Nil
    then show ?thesis using skip us nxt(2) candidates_first_moment(1) [of z w'] by simp
  next
    case (Cons a as)
    then have a: "first_moment z w' = Some a" using us by (simp add: candidates_first_moment)
    show ?thesis
    proof (cases "now < a")
      case True
      then show ?thesis using least_afterI [OF zone nxt(1) a _ past] us Cons nxt(2) by simp
    next
      case False
      then show ?thesis using skip a us Cons nxt(2) by simp
    qed
  qed
qed

lemma previous_loop_greatest:
  assumes zone: "zone_contract z lo hi" and cron: "cron_contract lib expression matches lo hi"
    and w: "w \<in> matches" "lo \<le> w" "first_moment z w = Some u" "u \<le> now"
  shows "w < cur \<Longrightarrow> cur \<le> hi \<Longrightarrow> card (matches \<inter> {w..<cur}) \<le> n \<Longrightarrow>
    \<exists>v. previous_loop lib z expression now n cur = Inr (Some v) \<and> greatest_upto (occurrences z (matches \<inter> {..<cur})) now v"
proof (induction n arbitrary: cur)
  case 0
  then have "matches \<inter> {w..<cur} = {}" by simp
  then show ?case using 0(1) w by fastforce
next
  case (Suc n)
  obtain w' where prv: "w' \<in> matches" "sl_cron_prev lib expression cur = Inr w'" "w' < cur" "w \<le> w'"
      "\<forall>x\<in>matches. x < cur \<longrightarrow> x \<le> w'" and left: "card (matches \<inter> {w..<w'}) \<le> n"
    using previous_match [OF cron w(1) Suc.prems(1) w(2) Suc.prems(2,3)] by blast
  have below: "matches \<inter> {..<cur} = insert w' (matches \<inter> {..<w'})" using prv by fastforce
  have "\<exists>us. local_utc_candidates z w' = Inr us"
    by (rule candidates_total [OF zone]) (use Suc.prems(2) prv(3,4) w(2) in linarith)+
  then obtain us where us: "local_utc_candidates z w' = Inr us" by blast
  have skip: "\<exists>v. previous_loop lib z expression now n w' = Inr (Some v) \<and>
      greatest_upto (occurrences z (matches \<inter> {..<cur})) now v"
    if out: "\<forall>v. first_moment z w' = Some v \<longrightarrow> now < v"
  proof -
    have "w \<noteq> w'" using out w(3,4) by fastforce
    then have "w < w'" "w' \<le> hi" using prv(3,4) Suc.prems(2) by linarith+
    moreover have "greatest_upto (occurrences z (matches \<inter> {..<cur})) now v"
      if "greatest_upto (occurrences z (matches \<inter> {..<w'})) now v" for v
      using that out unfolding below greatest_upto_def occurrences_def by fastforce
    ultimately show ?thesis using Suc.IH [OF _ _ left] by blast
  qed
  show ?case
  proof (cases us)
    case Nil
    then show ?thesis using skip us prv(2) candidates_first_moment(1) [of z w'] by simp
  next
    case (Cons a as)
    then have a: "first_moment z w' = Some a" using us by (simp add: candidates_first_moment)
    have "greatest_upto (occurrences z (matches \<inter> {..<cur})) now a" if "a \<le> now"
      using that a prv(1,3,5) first_moment_mono(2) [OF zone _ a]
      unfolding greatest_upto_def occurrences_def by (auto intro: bexI [of _ w'])
    then show ?thesis using skip a us Cons prv(2) by (cases "a \<le> now") simp_all
  qed
qed

lemma forward_loop_greatest:
  assumes zone: "zone_contract z lo hi" and cron: "cron_contract lib expression matches lo hi"
    and w: "w \<in> matches" "w \<le> hi" "first_moment z w = Some u" "now < u"
  shows "lo \<le> cur \<Longrightarrow> cur < w \<Longrightarrow> greatest_upto (occurrences z (matches \<inter> {..cur})) now p \<Longrightarrow>
    card (matches \<inter> {cur<..w}) \<le> n \<Longrightarrow>
    \<exists>v. forward_loop lib z expression now (Some p) n cur = Inr (Some v) \<and> greatest_upto (occurrences z matches) now v"
proof (induction n arbitrary: cur p)
  case 0
  then have "matches \<inter> {cur<..w} = {}" by simp
  then show ?case using 0(2) w by fastforce
next
  case (Suc n)
  obtain w' where nxt: "w' \<in> matches" "sl_cron_next lib expression cur = Inr w'" "cur < w'" "w' \<le> w"
      "\<forall>x\<in>matches. cur < x \<longrightarrow> w' \<le> x" and left: "card (matches \<inter> {w'<..w}) \<le> n"
    using next_match [OF cron w(1) Suc.prems(2) w(2) Suc.prems(1,4)] by blast
  have below: "matches \<inter> {..w'} = insert w' (matches \<inter> {..cur})" using nxt by fastforce
  have "\<exists>us. local_utc_candidates z w' = Inr us"
    by (rule candidates_total [OF zone]) (use Suc.prems(1) nxt(3,4) w(2) in linarith)+
  then obtain us where us: "local_utc_candidates z w' = Inr us" by blast
  have go: "\<exists>v. forward_loop lib z expression now (Some q) n w' = Inr (Some v) \<and> greatest_upto (occurrences z matches) now v"
    if "\<forall>v. first_moment z w' = Some v \<longrightarrow> v \<le> now" "greatest_upto (occurrences z (matches \<inter> {..w'})) now q" for q
  proof (rule Suc.IH [OF _ _ that(2) left])
    show "lo \<le> w'" using Suc.prems(1) nxt(3) by simp
    have "w \<noteq> w'" using that(1) w(3,4) by fastforce
    then show "w' < w" using nxt(4) by simp
  qed
  show ?case
  proof (cases us)
    case Nil
    then have none: "first_moment z w' = None" using us by (simp add: candidates_first_moment)
    then have "occurrences z (matches \<inter> {..w'}) = occurrences z (matches \<inter> {..cur})"
      unfolding below occurrences_def by auto
    then show ?thesis using go [of p] Suc.prems(3) none us Nil nxt(2) by simp
  next
    case (Cons a as)
    then have a: "first_moment z w' = Some a" using us by (simp add: candidates_first_moment)
    then have occ: "occurrences z (matches \<inter> {..w'}) = insert a (occurrences z (matches \<inter> {..cur}))"
      unfolding below occurrences_def by auto
    show ?thesis
    proof (cases "now < a")
      case True
      have "x \<le> p" if x: "x \<in> occurrences z matches" "x \<le> now" for x
      proof -
        obtain y where y: "y \<in> matches" "first_moment z y = Some x" using x(1) by (auto simp: occurrences_def)
        have "y < w'" using first_moment_mono(2) [OF zone a y(2)] True x(2) by fastforce
        then have "y \<le> cur" using nxt(5) y(1) by fastforce
        then show ?thesis using Suc.prems(3) y x(2) by (auto simp: greatest_upto_def occurrences_def)
      qed
      then have "greatest_upto (occurrences z matches) now p"
        using Suc.prems(3) by (auto simp: greatest_upto_def occurrences_def)
      then show ?thesis using True us Cons nxt(2) by simp
    next
      case False
      then have "greatest_upto (occurrences z (matches \<inter> {..w'})) now (if p < a then a else p)"
        using Suc.prems(3) unfolding occ greatest_upto_def by fastforce
      then show ?thesis using go [of "if p < a then a else p"] False a us Cons nxt(2) by (simp split: if_splits)
    qed
  qed
qed

section \<open>Recurring schedules\<close>

text \<open>
  The setting of a search: the zone and the expression behave on a window of wall times around the
  present, and the window has a future occurrence not more than \<open>CRON_STEPS\<close> matches ahead.
\<close>

definition cron_setting ::
  "schedule_lib \<Rightarrow> schedule_spec \<Rightarrow> tz \<Rightarrow> int set \<Rightarrow> int \<Rightarrow> int \<Rightarrow> int \<Rightarrow> int \<Rightarrow> bool" where
  "cron_setting lib spec z matches lo hi now base \<longleftrightarrow>
     (\<exists>t key w u. ss_kind spec = Cron \<and> ss_timezone spec = Some t \<and> validate_timezone_name lib t = Inr key \<and>
        zone_info lib key = Inr z \<and> zone_contract z lo hi \<and> cron_contract lib (ss_value spec) matches lo hi \<and>
        in_calendar now \<and> tz_local z now = Some base \<and> lo \<le> base \<and> base \<le> hi \<and>
        w \<in> matches \<and> w \<le> hi \<and> first_moment z w = Some u \<and> now < u \<and> card (matches \<inter> {base<..w}) \<le> CRON_STEPS)"

lemma cron_settingE:
  assumes "cron_setting lib spec z matches lo hi now base"
  obtains t key w u where "ss_kind spec = Cron" "ss_timezone spec = Some t" "validate_timezone_name lib t = Inr key"
    "zone_info lib key = Inr z" "zone_contract z lo hi" "cron_contract lib (ss_value spec) matches lo hi"
    "in_calendar now" "tz_local z now = Some base" "lo \<le> base" "base \<le> hi"
    "w \<in> matches" "w \<le> hi" "first_moment z w = Some u" "now < u" "card (matches \<inter> {base<..w}) \<le> CRON_STEPS"
  using assms unfolding cron_setting_def by blast

lemma cron_contract_new: "cron_contract lib expression matches lo hi \<Longrightarrow> lo \<le> w \<Longrightarrow> w \<le> hi \<Longrightarrow> sl_cron_new lib expression w = None"
  by (simp add: cron_contract_def)

lemma as_utc_aware: "in_calendar u \<Longrightarrow> as_utc (Aware u off) = Inr u"
  by (simp add: as_utc_def dt_checked_def)

lemma cron_advance_least:
  assumes "cron_setting lib spec z matches lo hi now base" "in_calendar boundary"
  shows "\<exists>v. advance_recurring lib spec (Aware boundary boff) (Aware now off) = Inr v \<and>
    least_after (occurrences z matches) now v"
  using assms(1)
proof (rule cron_settingE)
  fix t key w u
  assume spec: "ss_kind spec = Cron" "ss_timezone spec = Some t" "validate_timezone_name lib t = Inr key" "zone_info lib key = Inr z"
    and zone: "zone_contract z lo hi" and cron: "cron_contract lib (ss_value spec) matches lo hi"
    and now: "in_calendar now" "tz_local z now = Some base" "lo \<le> base" "base \<le> hi"
    and w: "w \<in> matches" "w \<le> hi" "first_moment z w = Some u" "now < u" "card (matches \<inter> {base<..w}) \<le> CRON_STEPS"
  have "\<forall>x\<in>matches. x \<le> base \<longrightarrow> (\<forall>v. first_moment z x = Some v \<longrightarrow> v \<le> now)"
    using first_moment_past [OF zone now(2-4)] by blast
  then have "\<exists>v. next_cron_loop lib z (ss_value spec) now CRON_STEPS base = Inr v \<and> least_after (occurrences z matches) now v"
    using next_cron_loop_least [OF zone cron w(1-4) now(3)] w(5) by blast
  then show ?thesis
    using spec now cron_contract_new [OF cron now(3,4)] assms(2)
    by (simp add: advance_recurring_def next_cron_def as_utc_aware)
qed

lemma cron_latest_greatest:
  assumes setting: "cron_setting lib spec z matches lo hi now base" and boundary: "in_calendar boundary" "boundary \<le> now"
    and x: "x \<in> matches" "lo \<le> x" "x \<le> base" "first_moment z x = Some y" "card (matches \<inter> {x..base}) \<le> CRON_STEPS"
    and edge: "base + 1 \<notin> matches" "in_calendar (base + 1)"
  shows "\<exists>v. latest_due_occurrence lib spec (Aware boundary boff) (Aware now off) = Inr (max boundary v) \<and>
    greatest_upto (occurrences z matches) now v"
  using setting
proof (rule cron_settingE)
  fix t key w u
  assume spec: "ss_kind spec = Cron" "ss_timezone spec = Some t" "validate_timezone_name lib t = Inr key" "zone_info lib key = Inr z"
    and zone: "zone_contract z lo hi" and cron: "cron_contract lib (ss_value spec) matches lo hi"
    and now: "in_calendar now" "tz_local z now = Some base" "lo \<le> base" "base \<le> hi"
    and w: "w \<in> matches" "w \<le> hi" "first_moment z w = Some u" "now < u" "card (matches \<inter> {base<..w}) \<le> CRON_STEPS"
  have past: "y \<le> now" using first_moment_past [OF zone now(2-4) x(3,4)] .
  have "base < w" using first_moment_past [OF zone now(2-4) _ w(3)] w(4) by fastforce
  then have ahead: "base + 1 < w" using edge(1) w(1) by (cases "w = base + 1") auto
  have off: "base < m \<longleftrightarrow> base + 1 < m" if "m \<in> matches" for m
    using edge(1) that by (cases "m = base + 1") auto
  have sets: "matches \<inter> {x..<base + 1} = matches \<inter> {x..base}" "matches \<inter> {base + 1<..w} = matches \<inter> {base<..w}"
      "matches \<inter> {..<base + 1} = matches \<inter> {..base + 1}"
    using off edge(1) by (auto simp: order_le_less)
  have "\<exists>v. previous_loop lib z (ss_value spec) now CRON_STEPS (base + 1) = Inr (Some v) \<and>
      greatest_upto (occurrences z (matches \<inter> {..<base + 1})) now v"
    by (rule previous_loop_greatest [OF zone cron x(1,2,4) past]) (use x ahead w(2) sets(1) in auto)
  then obtain p where p: "previous_loop lib z (ss_value spec) now CRON_STEPS (base + 1) = Inr (Some p)"
      "greatest_upto (occurrences z (matches \<inter> {..base + 1})) now p" unfolding sets(3) by blast
  have "\<exists>v. forward_loop lib z (ss_value spec) now (Some p) CRON_STEPS (base + 1) = Inr (Some v) \<and>
      greatest_upto (occurrences z matches) now v"
    by (rule forward_loop_greatest [OF zone cron w(1-4) _ ahead p(2)]) (use now(3) w(5) sets(2) in auto)
  then obtain v where v: "forward_loop lib z (ss_value spec) now (Some p) CRON_STEPS (base + 1) = Inr (Some v)"
      "greatest_upto (occurrences z matches) now v" by blast
  have "sl_cron_new lib (ss_value spec) (base + 1) = None"
    by (rule cron_contract_new [OF cron]) (use now(3) ahead w(2) in linarith)+
  then have "latest_due_occurrence lib spec (Aware boundary boff) (Aware now off) = Inr (max boundary v)"
    using spec now p(1) v(1) boundary edge(2)
    by (simp add: latest_due_occurrence_def previous_cron_def as_utc_aware dt_checked_def)
  then show ?thesis using v(2) by blast
qed

text \<open>An interval schedule: the last boundary of the grid that is due, and the one after it.\<close>

lemma every_bracket:
  assumes "ss_kind spec = Every" "py_int lib (ss_value spec) = Some s" "0 < s" "boundary \<le> now"
    "in_calendar boundary" "in_calendar now" "in_calendar (now + seconds s)"
  shows "\<exists>k. latest_due_occurrence lib spec (Aware boundary boff) (Aware now off) = Inr (boundary + k * seconds s) \<and>
    advance_recurring lib spec (Aware boundary boff) (Aware now off) = Inr (boundary + (k + 1) * seconds s) \<and>
    0 \<le> k \<and> boundary + k * seconds s \<le> now \<and> now < boundary + (k + 1) * seconds s"
proof -
  define k where "k = (now - boundary) div seconds s"
  have s: "0 < seconds s" using assms(3) by (simp add: seconds_def)
  have "now - boundary = k * seconds s + (now - boundary) mod seconds s"
    unfolding k_def by (simp only: div_mult_mod_eq)
  moreover have "0 \<le> (now - boundary) mod seconds s" "(now - boundary) mod seconds s < seconds s" using s by simp_all
  moreover have "0 \<le> k" using s assms(4) unfolding k_def by (simp add: pos_imp_zdiv_nonneg_iff)
  ultimately have k: "0 \<le> k" "k * seconds s \<le> now - boundary" "now - boundary < (k + 1) * seconds s"
    by (simp_all add: distrib_right)
  have "0 \<le> k * seconds s" using k(1) s by simp
  then have "in_calendar (boundary + k * seconds s)" "in_calendar (boundary + (k + 1) * seconds s)"
    using k s assms(4-7) unfolding in_calendar_def distrib_right by linarith+
  moreover have "seconds (k * s) = k * seconds s" "seconds ((k + 1) * s) = (k + 1) * seconds s" by (simp_all add: seconds_def)
  ultimately show ?thesis
    using assms k
    by (intro exI [of _ k]) (simp add: latest_due_occurrence_def advance_recurring_def as_utc_aware dt_checked_def k_def [symmetric] Let_def)
qed

section \<open>A zone that turns its clocks back\<close>

text \<open>
  Berlin around 26 October 2025, 01:00 UTC, when 03:00 became 02:00, and an expression that matches
  half past every hour.
\<close>

definition clock_change :: int where "clock_change = 1761440400000000"
definition hour :: int where "hour = seconds 3600"

definition berlin :: tz where
  "berlin = \<lparr>tz_key = ustr_of ''Europe/Berlin'',
     tz_local = (\<lambda>u. let w = (if u < clock_change then u + 2 * hour else u + hour) in if in_calendar w then Some w else None),
     tz_utc = (\<lambda>second w. let u = (if w < clock_change + (if second then hour else 2 * hour) then w - 2 * hour else w - hour)
                in if in_calendar u then Some u else None)\<rparr>"

definition utc_zone :: tz where
  "utc_zone = \<lparr>tz_key = ustr_of ''UTC'', tz_local = Some, tz_utc = (\<lambda>second w. if in_calendar w then Some w else None)\<rparr>"

definition half_past :: "int set" where
  "half_past = {w. w mod hour = hour div 2}"

definition demo_iso :: "int \<Rightarrow> ustr" where
  "demo_iso u = nat_digits (nat (u - DATETIME_MIN)) @ ustr_of ''+00:00''"

definition demo_fromiso :: "ustr \<Rightarrow> py_datetime option" where
  "demo_fromiso s = Some (Aware (int (digits_value (take (length s - 6) s) 0) + DATETIME_MIN) 0)"

definition demo_schedule_lib :: schedule_lib where
  "demo_schedule_lib = \<lparr>
     sl_zone = (\<lambda>name. if name = ustr_of ''Europe/Berlin'' then Zone berlin else if name = ustr_of ''UTC'' then Zone utc_zone else ZoneMissing),
     sl_cron_new = (\<lambda>e w. None),
     sl_cron_next = (\<lambda>e w. Inr (((w - hour div 2) div hour + 1) * hour + hour div 2)),
     sl_cron_prev = (\<lambda>e w. Inr (((w - hour div 2 - 1) div hour) * hour + hour div 2)),
     sl_fromiso = demo_fromiso, sl_iso = demo_iso, sl_digit = (\<lambda>c. None)\<rparr>"

definition demo_spec :: schedule_spec where
  "demo_spec = \<lparr>ss_kind = Cron, ss_value = ustr_of ''30 * * * *'', ss_timezone = Some (ustr_of ''Europe/Berlin''),
     ss_next_fire_at = clock_change - 5400000000\<rparr>"

lemma hour_value: "hour = 3600000000" by (simp add: hour_def seconds_def)

lemma half_past_iff: "w \<in> half_past \<longleftrightarrow> (\<exists>k. w = k * 3600000000 + 1800000000)"
proof
  assume "w \<in> half_past"
  then have "w = (w div 3600000000) * 3600000000 + 1800000000"
    using div_mult_mod_eq [of w 3600000000] by (simp add: half_past_def hour_value)
  then show "\<exists>k. w = k * 3600000000 + 1800000000" by blast
qed (auto simp: half_past_def hour_value)

lemma half_past_card:
  "card (half_past \<inter> {a..b}) \<le> nat ((b - 1800000000) div 3600000000 - (a - 1800000000) div 3600000000 + 1)"
proof -
  let ?K = "{(a - 1800000000) div 3600000000 .. (b - 1800000000) div 3600000000}"
  have "half_past \<inter> {a..b} \<subseteq> (\<lambda>k. k * 3600000000 + 1800000000) ` ?K"
  proof
    fix w
    assume "w \<in> half_past \<inter> {a..b}"
    then obtain k where k: "w = k * 3600000000 + 1800000000" "a - 1800000000 \<le> k * 3600000000" "k * 3600000000 \<le> b - 1800000000"
      by (auto simp: half_past_iff)
    have "k \<in> ?K" using zdiv_mono1 [OF k(2), of 3600000000] zdiv_mono1 [OF k(3), of 3600000000] by simp
    then show "w \<in> (\<lambda>k. k * 3600000000 + 1800000000) ` ?K" using k(1) by blast
  qed
  then have "card (half_past \<inter> {a..b}) \<le> card ((\<lambda>k. k * 3600000000 + 1800000000) ` ?K)" by (rule card_mono [rotated]) simp
  also have "\<dots> \<le> card ?K" by (rule card_image_le) simp
  finally show ?thesis by simp
qed

lemma hours_split: "\<exists>r. v = v div 3600000000 * 3600000000 + r \<and> 0 \<le> r \<and> r < (3600000000 :: int)"
  using div_mult_mod_eq [of v 3600000000] by (intro exI [of _ "v mod 3600000000"]) simp

lemma half_past_next:
  assumes "w < w'" "w' \<in> half_past" "\<forall>x\<in>half_past. w < x \<longrightarrow> w' \<le> x"
  shows "((w - 1800000000) div 3600000000 + 1) * 3600000000 + 1800000000 = w'"
proof -
  define d where "d = (w - 1800000000) div 3600000000"
  obtain r where r: "w - 1800000000 = d * 3600000000 + r" "0 \<le> r" "r < 3600000000" unfolding d_def using hours_split by blast
  obtain k where k: "w' = k * 3600000000 + 1800000000" using assms(2) by (auto simp: half_past_iff)
  have "(d + 1) * 3600000000 + 1800000000 \<in> half_past" unfolding half_past_iff by blast
  then have "w' \<le> (d + 1) * 3600000000 + 1800000000" using assms(3) r by auto
  then have "k \<le> d + 1" using k by simp
  moreover have "d < k" using assms(1) k r by linarith
  ultimately have "k = d + 1" by simp
  then show ?thesis using k unfolding d_def by simp
qed

lemma half_past_previous:
  assumes "w' < w" "w' \<in> half_past" "\<forall>x\<in>half_past. x < w \<longrightarrow> x \<le> w'"
  shows "((w - 1800000000 - 1) div 3600000000) * 3600000000 + 1800000000 = w'"
proof -
  define d where "d = (w - 1800000000 - 1) div 3600000000"
  obtain r where r: "w - 1800000000 - 1 = d * 3600000000 + r" "0 \<le> r" "r < 3600000000" unfolding d_def using hours_split by blast
  obtain k where k: "w' = k * 3600000000 + 1800000000" using assms(2) by (auto simp: half_past_iff)
  have "d * 3600000000 + 1800000000 \<in> half_past" unfolding half_past_iff by blast
  then have "d * 3600000000 + 1800000000 \<le> w'" using assms(3) r by auto
  moreover have "k \<le> d" using assms(1) k r by linarith
  ultimately show ?thesis using k unfolding d_def [symmetric] by linarith
qed

lemma half_past_contract: "cron_contract demo_schedule_lib e half_past lo hi"
  unfolding cron_contract_def demo_schedule_lib_def
  using half_past_next half_past_previous by (simp add: hour_value del: distrib_right_numeral)

abbreviation demo_lo :: int where "demo_lo \<equiv> clock_change - 86400000000"
abbreviation demo_hi :: int where "demo_hi \<equiv> clock_change + 86400000000"

lemma berlin_contract: "zone_contract berlin demo_lo demo_hi"
  unfolding zone_contract_def berlin_def
  by (auto simp: Let_def hour_value clock_change_def in_calendar_def DATETIME_MIN_def DATETIME_MAX_def split: if_splits)

lemmas berlin_simps = berlin_def hour_value clock_change_def in_calendar_def DATETIME_MIN_def DATETIME_MAX_def
  local_utc_candidates_def fold_candidate_def first_moment_def

lemma demo_zone: "validate_timezone_name demo_schedule_lib (ustr_of ''Europe/Berlin'') = Inr (ustr_of ''Europe/Berlin'')"
    "zone_info demo_schedule_lib (ustr_of ''Europe/Berlin'') = Inr berlin"
  by (simp_all add: validate_timezone_name_def zone_info_def demo_schedule_lib_def MAX_TIMEZONE_CHARS_def ustr_of_def
      py_strip_def py_lstrip_def py_rstrip_def py_isspace_char_def py_startswith_def berlin_def)

lemma demo_setting:
  assumes "demo_lo \<le> base" "base \<le> clock_change + 9000000000" "tz_local berlin now = Some base" "now < clock_change + 5400000000"
    "in_calendar now"
  shows "cron_setting demo_schedule_lib demo_spec berlin half_past demo_lo demo_hi now base"
proof -
  let ?w = "clock_change + 9000000000"
  have "{base<..?w} \<subseteq> {demo_lo..?w}" using assms(1) by auto
  then have "card (half_past \<inter> {base<..?w}) \<le> card (half_past \<inter> {demo_lo..?w})"
    by (intro card_mono) auto
  also have "\<dots> \<le> CRON_STEPS" using half_past_card [of demo_lo ?w] by (simp add: clock_change_def CRON_STEPS_def)
  finally have "card (half_past \<inter> {base<..?w}) \<le> CRON_STEPS" .
  moreover have "?w \<in> half_past" by (simp add: half_past_def hour_value clock_change_def)
  moreover have "first_moment berlin ?w = Some (clock_change + 5400000000)" by (simp add: berlin_simps)
  ultimately show ?thesis
    using assms demo_zone berlin_contract half_past_contract unfolding cron_setting_def
    by (intro exI [of _ "ustr_of ''Europe/Berlin''"] exI [of _ ?w] exI [of _ "clock_change + 5400000000"])
       (simp add: demo_spec_def clock_change_def)
qed

section \<open>Properties\<close>

text \<open>
  C38. After a cron schedule fires, its next run is at the first occurrence after the present, for every
  zone: matching wall times that the clocks skip are passed over, and of a wall time that the
  clocks repeat only the first reading counts. It is found whenever one of the next \<open>CRON_STEPS\<close>
  matches is in the future.
\<close>

theorem next_occurrence_least:
  assumes "cron_setting lib spec z matches lo hi now base" "in_calendar boundary"
  shows "\<exists>v. advance_recurring lib spec (Aware boundary boff) (Aware now off) = Inr v \<and>
    least_after (occurrences z matches) now v"
  by (rule cron_advance_least [OF assms])

text \<open>At 02:15 of the repeated hour.\<close>

theorem next_occurrence_least_witness:
  "\<exists>v. advance_recurring demo_schedule_lib demo_spec (Aware (clock_change - 1800000000) 0) (Aware (clock_change + 900000000) 0) = Inr v \<and>
     least_after (occurrences berlin half_past) (clock_change + 900000000) v"
  by (rule next_occurrence_least [OF demo_setting [of "clock_change + 4500000000"]]) (simp_all add: berlin_simps)

text \<open>
  C39. However many runs of a cron schedule were missed, the run that is due is the last occurrence up to
  the present, or the stored boundary when that is later: also in an hour that the clocks repeat, whose later wall
  times have occurred already. The wall time a microsecond ahead must not be a match.
\<close>

theorem latest_occurrence_greatest:
  assumes "cron_setting lib spec z matches lo hi now base" "in_calendar boundary" "boundary \<le> now"
    "x \<in> matches" "lo \<le> x" "x \<le> base" "first_moment z x = Some y" "card (matches \<inter> {x..base}) \<le> CRON_STEPS"
    "base + 1 \<notin> matches" "in_calendar (base + 1)"
  shows "\<exists>v. latest_due_occurrence lib spec (Aware boundary boff) (Aware now off) = Inr (max boundary v) \<and>
    greatest_upto (occurrences z matches) now v"
  by (rule cron_latest_greatest [OF assms])

theorem latest_occurrence_greatest_witness:
  "\<exists>v. latest_due_occurrence demo_schedule_lib demo_spec (Aware (clock_change - 9000000000) 0) (Aware (clock_change + 900000000) 0) =
       Inr (max (clock_change - 9000000000) v) \<and> greatest_upto (occurrences berlin half_past) (clock_change + 900000000) v"
proof (rule latest_occurrence_greatest [OF demo_setting [of "clock_change + 4500000000"]])
  show "card (half_past \<inter> {clock_change + 1800000000..clock_change + 4500000000}) \<le> CRON_STEPS"
    using half_past_card [of "clock_change + 1800000000" "clock_change + 4500000000"] by (simp add: clock_change_def CRON_STEPS_def)
  show "first_moment berlin (clock_change + 1800000000) = Some (clock_change - 5400000000)" by (simp add: berlin_simps)
qed (simp_all add: berlin_simps half_past_def)

text \<open>
  Without that premise the result may be older: at 02:29:59.999999 of the repeated hour both searches
  start at 02:30 and look strictly before and after it, so the run of the first 02:30 is passed over.
\<close>

lemma latest_occurrence_skipped:
  "latest_due_occurrence demo_schedule_lib demo_spec (Aware (clock_change - 9000000000) 0) (Aware (clock_change + 1799999999) 0) =
     Inr (clock_change - 5400000000)"
  "clock_change - 1800000000 \<in> occurrences berlin half_past"
proof -
  have steps: "CRON_STEPS = Suc 9999" by (simp add: CRON_STEPS_def)
  have "previous_loop demo_schedule_lib berlin e (clock_change + 1799999999) CRON_STEPS (clock_change + 5400000000) =
      Inr (Some (clock_change - 5400000000))" for e
    unfolding steps previous_loop.simps by (simp add: demo_schedule_lib_def berlin_simps)
  moreover have "forward_loop demo_schedule_lib berlin e (clock_change + 1799999999) p CRON_STEPS (clock_change + 5400000000) = Inr p" for e p
    unfolding steps forward_loop.simps by (simp add: demo_schedule_lib_def berlin_simps)
  moreover have "tz_local berlin (clock_change + 1799999999) = Some (clock_change + 5399999999)" by (simp add: berlin_simps)
  moreover have "dt_checked (5400000000 + clock_change) = Inr (clock_change + 5400000000)" "in_calendar (clock_change + 1799999999)"
      "in_calendar (clock_change - 9000000000)"
    by (simp_all add: dt_checked_def berlin_simps)
  ultimately show "latest_due_occurrence demo_schedule_lib demo_spec (Aware (clock_change - 9000000000) 0) (Aware (clock_change + 1799999999) 0) =
      Inr (clock_change - 5400000000)"
    using demo_zone cron_contract_new [OF half_past_contract order_refl order_refl]
    by (simp add: latest_due_occurrence_def previous_cron_def demo_spec_def as_utc_aware)
  have "first_moment berlin (clock_change + 5400000000) = Some (clock_change - 1800000000)" by (simp add: berlin_simps)
  moreover have "clock_change + 5400000000 \<in> half_past" by (simp add: half_past_def hour_value clock_change_def)
  ultimately show "clock_change - 1800000000 \<in> occurrences berlin half_past" unfolding occurrences_def by blast
qed

end
