(* ===== verification/Schedule_Storage.thy ===== *)
theory Schedule_Storage
  imports Schedule_Search
begin

text \<open>
  Rows of schedules: the canonical value, time zone and moment of a schedule read back as the schedule.
\<close>

section \<open>Storing a schedule\<close>

definition kind_name :: "schedule_kind \<Rightarrow> ustr" where
  "kind_name k = (case k of Every \<Rightarrow> ustr_of ''every'' | Cron \<Rightarrow> ustr_of ''cron'' | At \<Rightarrow> ustr_of ''at'')"

text \<open>
  What the library is relied on: a zone keeps the name it is looked up by, moments are in the calendar,
  and the text of a moment in UTC ends in its only offset and reads back as the moment.
\<close>

definition storage_contract :: "schedule_lib \<Rightarrow> bool" where
  "storage_contract lib \<longleftrightarrow>
     (\<forall>name z. sl_zone lib name = Zone z \<longrightarrow> tz_key z = name \<and>
        (\<forall>second w u. tz_utc z second w = Some u \<longrightarrow> in_calendar u)) \<and>
     (\<forall>u. in_calendar u \<longrightarrow> sl_fromiso lib (sl_iso lib u) = Some (Aware u 0) \<and>
        (\<exists>body. sl_iso lib u = body @ ustr_of ''+00:00'' \<and> (\<forall>c\<in>set body. 45 \<le> c \<and> c \<le> 58 \<or> c = 84)))"

lemma storage_contractD:
  assumes "storage_contract lib"
  shows "sl_zone lib name = Zone z \<Longrightarrow> tz_key z = name"
    "sl_zone lib name = Zone z \<Longrightarrow> tz_utc z second w = Some u \<Longrightarrow> in_calendar u"
    "in_calendar u \<Longrightarrow> sl_fromiso lib (sl_iso lib u) = Some (Aware u 0)"
    "in_calendar u \<Longrightarrow> \<exists>body. sl_iso lib u = body @ ustr_of ''+00:00'' \<and> (\<forall>c\<in>set body. 45 \<le> c \<and> c \<le> 58 \<or> c = 84)"
  using assms unfolding storage_contract_def by blast+

subsection \<open>Texts\<close>

lemma strip_edges:
  assumes "s = [] \<or> \<not> py_isspace_char (hd s) \<and> \<not> py_isspace_char (last s)"
  shows "py_strip s = s"
proof (cases "s = []")
  case False
  then have "dropWhile py_isspace_char s = s" "dropWhile py_isspace_char (rev s) = rev s"
    using assms by (simp_all add: dropWhile_eq_self_iff hd_rev)
  then show ?thesis by (simp add: py_strip_def py_lstrip_def py_rstrip_def)
qed (simp add: py_strip_def py_lstrip_def py_rstrip_def)

lemma strip_plain: "\<forall>c\<in>set s. \<not> py_isspace_char c \<Longrightarrow> py_strip s = s"
  by (rule strip_edges) (cases "s = []", auto)

definition plain_word :: "ustr \<Rightarrow> bool" where
  "plain_word w \<longleftrightarrow> w \<noteq> [] \<and> (\<forall>c\<in>set w. \<not> py_isspace_char c)"

lemma plain_word_rev: "cur \<noteq> [] \<Longrightarrow> list_all (\<lambda>c. \<not> py_isspace_char c) cur \<Longrightarrow> plain_word (rev cur)"
  by (simp add: plain_word_def list_all_iff)

lemma words_acc_plain: "list_all (\<lambda>c. \<not> py_isspace_char c) cur \<Longrightarrow> list_all plain_word (py_words_acc cur s)"
  by (induction cur s rule: py_words_acc.induct) (simp_all add: plain_word_rev)

lemma words_plain: "\<forall>w\<in>set (py_words s). plain_word w"
  using words_acc_plain [of "[]" s] by (simp add: py_words_def list_all_iff)

lemma words_acc_append:
  "\<forall>c\<in>set w. \<not> py_isspace_char c \<Longrightarrow> py_words_acc cur (w @ s) = py_words_acc (rev w @ cur) s"
  by (induction w arbitrary: cur) auto

lemma words_join: "\<forall>w\<in>set ws. plain_word w \<Longrightarrow> py_words (py_join [32] ws) = ws"
proof (induction "[32::nat]" ws rule: py_join.induct)
  case (2 x)
  then show ?case using words_acc_append [of x "[]" "[]"] by (simp add: py_words_def plain_word_def)
next
  case (3 x v va)
  then show ?case
    using words_acc_append [of x "[]" "[32] @ py_join [32] (v # va)"]
    by (simp add: py_words_def plain_word_def py_isspace_char_def)
qed (simp add: py_words_def)

lemma join_edges:
  "\<forall>w\<in>set ws. plain_word w \<Longrightarrow> ws \<noteq> [] \<Longrightarrow>
   py_join [32] ws \<noteq> [] \<and> \<not> py_isspace_char (hd (py_join [32] ws)) \<and> \<not> py_isspace_char (last (py_join [32] ws))"
  by (induction "[32::nat]" ws rule: py_join.induct) (auto simp: plain_word_def)

lemma words_canonical:
  "py_join [32] (py_words (py_strip (py_join [32] (py_words s)))) = py_join [32] (py_words s)"
proof (cases "py_words s = []")
  case False
  then have "py_strip (py_join [32] (py_words s)) = py_join [32] (py_words s)"
    using join_edges [of "py_words s"] words_plain by (intro strip_edges) blast
  then show ?thesis using words_join words_plain by simp
qed (simp add: py_strip_def py_lstrip_def py_rstrip_def py_words_def)

lemma canonical_cron_idem:
  "canonical_cron_expression lib raw = Inr e \<Longrightarrow> canonical_cron_expression lib e = Inr e"
proof -
  assume h: "canonical_cron_expression lib raw = Inr e"
  then have e: "e = py_join [32] (py_words (py_strip raw))"
    by (auto simp: canonical_cron_expression_def Let_def bind_result_def split: if_splits sum.splits option.splits)
  then have "py_join [32] (py_words (py_strip e)) = py_join [32] (py_words (py_strip raw))" using words_canonical by simp
  then have "canonical_cron_expression lib e = canonical_cron_expression lib raw" unfolding canonical_cron_expression_def by simp
  then show ?thesis using h by simp
qed

lemma int_digits_decimal:
  "list_all (\<lambda>c. 48 \<le> c \<and> c \<le> 57) ds \<Longrightarrow> ds \<noteq> [] \<or> after_digit \<Longrightarrow>
   int_digits lib after_digit acc ds = Some (digits_value ds acc)"
  by (induction ds arbitrary: acc after_digit) (auto simp: digit_of_def)

lemma int_of_str:
  assumes "0 \<le> s" "s \<le> MAX_EVERY_SECONDS"
  shows "py_int lib (py_str_int s) = Some s"
proof -
  define ds where "ds = nat_digits (nat s)"
  have ds: "ds \<noteq> []" "list_all (\<lambda>c. 48 \<le> c \<and> c \<le> 57) ds" "digits_value ds 0 = nat s"
    by (simp_all add: ds_def list_all_iff nat_digits_ascii digits_value_nat_digits)
  have "length ds \<le> 8" unfolding ds_def using assms by (intro length_nat_digits) (auto simp: MAX_EVERY_SECONDS_def)
  then have len: "length (filter (\<lambda>c. c \<noteq> 95) ds) \<le> 4300" using length_filter_le [of "\<lambda>c. c \<noteq> 95" ds] by linarith
  have "48 \<le> hd ds" using ds by (cases ds) auto
  moreover have "py_strip ds = ds" using ds(2) by (intro strip_plain) (auto simp: list_all_iff py_isspace_char_def)
  ultimately show ?thesis
    using assms ds len int_digits_decimal [OF ds(2), of False lib 0]
    by (auto simp: py_int_def py_str_int_def ds_def [symmetric])
qed

lemma index_fresh_head: "c \<notin> set body \<Longrightarrow> py_index (c # rest) (body @ c # rest) = Some (length body)"
  by (induction body) (auto simp: py_startswith_def)

lemma replace_tail:
  assumes "c \<notin> set body"
  shows "py_replace (c # rest) new (body @ c # rest) = body @ new"
proof -
  have "py_replace (c # rest) new [] = []" by (subst py_replace.simps) simp
  then show ?thesis by (subst py_replace.simps) (simp add: index_fresh_head [OF assms])
qed

lemma parse_rfc3339:
  assumes "storage_contract lib" "in_calendar u"
  shows "parse_datetime lib (AtStr (rfc3339_utc lib u)) = Inr (Aware u 0)"
proof -
  obtain body where body: "sl_iso lib u = body @ ustr_of ''+00:00''" "\<forall>c\<in>set body. 45 \<le> c \<and> c \<le> 58 \<or> c = 84"
    using storage_contractD(4) [OF assms] by blast
  have "43 \<notin> set body" using body(2) by auto
  then have v: "rfc3339_utc lib u = body @ [90]"
    using replace_tail [of 43 body] by (simp add: rfc3339_utc_def body(1) ustr_of_def)
  have "90 \<notin> set body" using body(2) by auto
  then have "py_replace [90] (ustr_of ''+00:00'') (body @ [90]) = sl_iso lib u"
    using replace_tail [of 90 body "[]"] by (simp add: body(1))
  moreover have "py_strip (body @ [90]) = body @ [90]"
    using body(2) by (intro strip_plain) (auto simp: py_isspace_char_def)
  ultimately show ?thesis
    using storage_contractD(3) [OF assms] by (simp add: parse_datetime_def v ustr_of_def)
qed

subsection \<open>Zones and moments\<close>

lemma validated_name:
  assumes "storage_contract lib" "validate_timezone_name lib name = Inr key"
  shows "key = name"
  using assms(2) storage_contractD(1) [OF assms(1)]
  by (auto simp: validate_timezone_name_def split: if_splits zone_result.splits)

lemma candidate_calendar:
  assumes "storage_contract lib" "zone_info lib name = Inr z" "local_utc_candidates z w = Inr us" "u \<in> set us"
  shows "in_calendar u"
proof -
  obtain xs ys where folds: "fold_candidate z w False = Inr xs" "fold_candidate z w True = Inr ys" "us = sort (remdups (xs @ ys))"
    using assms(3) by (auto simp: local_utc_candidates_def bind_result_def split: sum.splits)
  have "u \<in> set xs \<or> u \<in> set ys" using assms(4) folds(3) by auto
  then have "\<exists>second. tz_utc z second w = Some u"
    using folds(1,2) by (auto elim!: fold_candidate_cases split: if_splits)
  moreover have "sl_zone lib name = Zone z" using assms(2) by (auto simp: zone_info_def split: zone_result.splits)
  ultimately show ?thesis using storage_contractD(2) [OF assms(1)] by blast
qed

lemma next_cron_loop_candidate:
  "next_cron_loop lib z expression now n w = Inr u \<Longrightarrow> now < u \<and> (\<exists>w' us. local_utc_candidates z w' = Inr (u # us))"
proof (induction n arbitrary: w)
  case (Suc n)
  then show ?case by (auto split: sum.splits list.splits if_splits)
qed simp

lemma next_cron_moment:
  assumes "storage_contract lib" "next_cron lib expression timezone now = Inr u"
  shows "in_calendar u" "now < u"
proof -
  obtain key z base where z: "zone_info lib key = Inr z" "next_cron_loop lib z expression now CRON_STEPS base = Inr u"
    using assms(2) by (auto simp: next_cron_def bind_result_def split: sum.splits option.splits)
  then obtain w us where "now < u" "local_utc_candidates z w = Inr (u # us)" using next_cron_loop_candidate by blast
  then show "in_calendar u" "now < u" using candidate_calendar [OF assms(1) z(1)] by auto
qed

subsection \<open>The round trip\<close>

lemma every_storage:
  assumes "canonicalize_every e timezone now = Inr spec"
  shows "schedule_from_storage lib (kind_name (ss_kind spec)) (ss_value spec) (ss_timezone spec) (Aware (ss_next_fire_at spec) 0) = Inr spec"
    "now < ss_next_fire_at spec"
proof -
  obtain s where s: "MIN_EVERY_SECONDS \<le> s" "s \<le> MAX_EVERY_SECONDS" "in_calendar (now + seconds s)"
      "spec = \<lparr>ss_kind = Every, ss_value = py_str_int s, ss_timezone = None, ss_next_fire_at = now + seconds s\<rparr>"
    using assms by (auto simp: canonicalize_every_def dt_checked_def bind_result_def split: if_splits every_arg.splits)
  then have "py_int lib (py_str_int s) = Some s" by (intro int_of_str) (auto simp: MIN_EVERY_SECONDS_def)
  then show "schedule_from_storage lib (kind_name (ss_kind spec)) (ss_value spec) (ss_timezone spec) (Aware (ss_next_fire_at spec) 0) = Inr spec"
    using s by (simp add: schedule_from_storage_def kind_name_def as_utc_aware)
  show "now < ss_next_fire_at spec" using s by (simp add: MIN_EVERY_SECONDS_def seconds_def)
qed

lemma kind_names [simp]:
  "ustr_of ''cron'' \<noteq> ustr_of ''every''" "ustr_of ''at'' \<noteq> ustr_of ''every''" "ustr_of ''at'' \<noteq> ustr_of ''cron''"
  by (simp_all add: ustr_of_def)

lemma cron_storage:
  assumes "storage_contract lib" "canonicalize_cron lib c timezone user_timezone now = Inr spec"
  shows "schedule_from_storage lib (kind_name (ss_kind spec)) (ss_value spec) (ss_timezone spec) (Aware (ss_next_fire_at spec) 0) = Inr spec"
    "now < ss_next_fire_at spec"
proof -
  obtain raw e t key u where h: "canonical_cron_expression lib raw = Inr e" "validate_timezone_name lib t = Inr key"
      "next_cron lib e key now = Inr u" "spec = \<lparr>ss_kind = Cron, ss_value = e, ss_timezone = Some key, ss_next_fire_at = u\<rparr>"
    using assms(2) unfolding canonicalize_cron_def bind_result_def by (auto split: cron_arg.splits sum.splits)
  have "key = t" using assms(1) h(2) by (rule validated_name)
  moreover have "in_calendar u" "now < u" using next_cron_moment [OF assms(1) h(3)] by simp_all
  ultimately show "schedule_from_storage lib (kind_name (ss_kind spec)) (ss_value spec) (ss_timezone spec) (Aware (ss_next_fire_at spec) 0) = Inr spec"
      "now < ss_next_fire_at spec"
    using h canonical_cron_idem [OF h(1)] by (simp_all add: schedule_from_storage_def kind_name_def as_utc_aware)
qed

lemma one_shot_moment:
  assumes "storage_contract lib" "one_shot_instant lib parsed timezone user_timezone = Inr (u, key)"
    "validate_timezone_name lib (ustr_of ''UTC'') = Inr (ustr_of ''UTC'')"
  shows "in_calendar u" "validate_timezone_name lib key = Inr key"
proof -
  have "in_calendar u \<and> validate_timezone_name lib key = Inr key"
  proof (cases parsed)
    case (Naive w)
    then obtain t z where t: "validate_timezone_name lib t = Inr key" "zone_info lib key = Inr z" "local_utc_candidates z w = Inr [u]"
      using assms(2) unfolding one_shot_instant_def bind_result_def by (auto split: sum.splits list.splits)
    then show ?thesis using candidate_calendar [OF assms(1) t(2,3)] validated_name [OF assms(1) t(1)] by simp
  next
    case (Aware v off)
    then have "in_calendar u \<and> (key = ustr_of ''UTC'' \<or> (\<exists>t. validate_timezone_name lib t = Inr key))"
      using assms(2) unfolding one_shot_instant_def bind_result_def dt_checked_def
      by (auto split: sum.splits option.splits if_splits)
    then show ?thesis using assms(3) validated_name [OF assms(1)] by auto
  qed
  then show "in_calendar u" "validate_timezone_name lib key = Inr key" by simp_all
qed

lemma at_storage:
  assumes "storage_contract lib" "canonicalize_at lib v timezone user_timezone now = Inr spec"
    "validate_timezone_name lib (ustr_of ''UTC'') = Inr (ustr_of ''UTC'')"
  shows "schedule_from_storage lib (kind_name (ss_kind spec)) (ss_value spec) (ss_timezone spec) (Aware (ss_next_fire_at spec) 0) = Inr spec"
    "now < ss_next_fire_at spec"
proof -
  obtain parsed u key where h: "one_shot_instant lib parsed timezone user_timezone = Inr (u, key)" "now < u"
      "spec = \<lparr>ss_kind = At, ss_value = rfc3339_utc lib u, ss_timezone = Some key, ss_next_fire_at = u\<rparr>"
    using assms(2) unfolding canonicalize_at_def bind_result_def by (auto split: sum.splits if_splits)
  note u = one_shot_moment [OF assms(1) h(1) assms(3)]
  show "schedule_from_storage lib (kind_name (ss_kind spec)) (ss_value spec) (ss_timezone spec) (Aware (ss_next_fire_at spec) 0) = Inr spec"
    using h u parse_rfc3339 [OF assms(1) u(1)] by (simp add: schedule_from_storage_def kind_name_def as_utc_aware dt_checked_def)
  show "now < ss_next_fire_at spec" using h by simp
qed

lemma canonical_storage:
  assumes "storage_contract lib" "validate_timezone_name lib (ustr_of ''UTC'') = Inr (ustr_of ''UTC'')"
    "canonicalize_schedule lib every_seconds cron_expr at_time timezone user_timezone now = Inr spec"
  shows "schedule_from_storage lib (kind_name (ss_kind spec)) (ss_value spec) (ss_timezone spec) (Aware (ss_next_fire_at spec) 0) = Inr spec"
    "\<exists>u. as_utc now = Inr u \<and> u < ss_next_fire_at spec"
proof -
  obtain u where u: "as_utc now = Inr u" using assms(3) by (auto simp: canonicalize_schedule_def bind_result_def split: sum.splits)
  then have h: "(case (every_seconds, cron_expr, at_time) of
         (Some e, None, None) \<Rightarrow> canonicalize_every e timezone u
       | (None, Some c, None) \<Rightarrow> canonicalize_cron lib c timezone user_timezone u
       | (None, None, Some v) \<Rightarrow> canonicalize_at lib v timezone user_timezone u
       | _ \<Rightarrow> Inl InvalidScheduleError) = Inr spec"
    using assms(3) unfolding canonicalize_schedule_def by simp
  consider e where "canonicalize_every e timezone u = Inr spec"
    | c where "canonicalize_cron lib c timezone user_timezone u = Inr spec"
    | v where "canonicalize_at lib v timezone user_timezone u = Inr spec"
    using h by (cases every_seconds; cases cron_expr; cases at_time; simp)
  then have "schedule_from_storage lib (kind_name (ss_kind spec)) (ss_value spec) (ss_timezone spec) (Aware (ss_next_fire_at spec) 0) = Inr spec
      \<and> u < ss_next_fire_at spec"
  proof cases
    case 1
    show ?thesis by (intro conjI every_storage [OF 1])
  next
    case 2
    show ?thesis by (intro conjI cron_storage [OF assms(1) 2])
  next
    case 3
    show ?thesis by (intro conjI at_storage [OF assms(1) 3 assms(2)])
  qed
  then show "schedule_from_storage lib (kind_name (ss_kind spec)) (ss_value spec) (ss_timezone spec) (Aware (ss_next_fire_at spec) 0) = Inr spec"
    "\<exists>u. as_utc now = Inr u \<and> u < ss_next_fire_at spec" using u by blast+
qed

lemma demo_storage: "storage_contract demo_schedule_lib"
proof -
  have "demo_fromiso (demo_iso u) = Some (Aware u 0)" if "in_calendar u" for u
    using that by (simp add: demo_fromiso_def demo_iso_def ustr_of_def digits_value_nat_digits in_calendar_def)
  moreover have "\<exists>body. demo_iso u = body @ ustr_of ''+00:00'' \<and> (\<forall>c\<in>set body. 45 \<le> c \<and> c \<le> 58 \<or> c = 84)" for u
    unfolding demo_iso_def using nat_digits_ascii by fastforce
  moreover have "tz_utc berlin second w = Some u \<Longrightarrow> in_calendar u" "tz_utc utc_zone second w = Some u \<Longrightarrow> in_calendar u" for second w u
    by (auto simp: berlin_def utc_zone_def Let_def split: if_splits)
  moreover have "tz_key berlin = ustr_of ''Europe/Berlin''" "tz_key utc_zone = ustr_of ''UTC''" by (simp_all add: berlin_def utc_zone_def)
  ultimately show ?thesis unfolding storage_contract_def by (simp add: demo_schedule_lib_def split: if_splits)
qed

lemma demo_utc: "validate_timezone_name demo_schedule_lib (ustr_of ''UTC'') = Inr (ustr_of ''UTC'')"
  by (simp add: validate_timezone_name_def demo_schedule_lib_def MAX_TIMEZONE_CHARS_def ustr_of_def
      py_strip_def py_lstrip_def py_rstrip_def py_isspace_char_def utc_zone_def)

text \<open>
  C40. A schedule that a request creates is in the future, and the kind, value, time zone and moment of
  its row read back as the same schedule.
\<close>

theorem stored_schedule_roundtrip:
  assumes "storage_contract lib" "validate_timezone_name lib (ustr_of ''UTC'') = Inr (ustr_of ''UTC'')"
    "canonicalize_schedule lib every_seconds cron_expr at_time timezone user_timezone now = Inr spec"
  shows "schedule_from_storage lib (kind_name (ss_kind spec)) (ss_value spec) (ss_timezone spec) (Aware (ss_next_fire_at spec) 0) = Inr spec \<and>
    (\<exists>u. as_utc now = Inr u \<and> u < ss_next_fire_at spec)"
  by (intro conjI canonical_storage [OF assms])

definition demo_once :: schedule_spec where
  "demo_once = \<lparr>ss_kind = At, ss_value = rfc3339_utc demo_schedule_lib (clock_change + 5400000000),
     ss_timezone = Some (ustr_of ''Europe/Berlin''), ss_next_fire_at = clock_change + 5400000000\<rparr>"

theorem stored_schedule_roundtrip_witness:
  "canonicalize_schedule demo_schedule_lib None None (Some (AtDatetime (Naive (clock_change + 9000000000)))) None
     (ustr_of ''Europe/Berlin'') (Aware clock_change 0) = Inr demo_once \<and>
   schedule_from_storage demo_schedule_lib (kind_name (ss_kind demo_once)) (ss_value demo_once) (ss_timezone demo_once)
     (Aware (ss_next_fire_at demo_once) 0) = Inr demo_once"
proof -
  have "local_utc_candidates berlin (clock_change + 9000000000) = Inr [clock_change + 5400000000]" "in_calendar clock_change"
    by (simp_all add: berlin_simps)
  then have c: "canonicalize_schedule demo_schedule_lib None None (Some (AtDatetime (Naive (clock_change + 9000000000)))) None
     (ustr_of ''Europe/Berlin'') (Aware clock_change 0) = Inr demo_once"
    using demo_zone
    by (simp add: canonicalize_schedule_def canonicalize_at_def one_shot_instant_def parse_datetime_def as_utc_aware demo_once_def)
  then show ?thesis using stored_schedule_roundtrip [OF demo_storage demo_utc c] by simp
qed

end
