(* ===== verification/Spec2Isabelle.thy ===== *)
theory Spec2Isabelle
  imports Fair_Admission Error_Codes Text_Edit Directory_Contract Subtree_Leases Path_Locks Keyed_Admission
    Chat_History Session_Streams Token_Estimator Mcp_Invariant Local_Transfer Provider_Policy Serialized_Writer
    Search_Pages Notebook_Edit Transfer_Tombstones Bridge_Relay Web_Fetch
    Schedule_Storage
begin

text \<open>
  A verification library of OpenOctopus, a server (\<open>src/server\<close>, package \<open>openctopus_server\<close>) that runs
  agent sessions for its users, and a client (\<open>src/client\<close>, package \<open>openoctopus_client\<close>) that
  gives a session access to a device. A user's message reaches the server through the
  API or a channel; the chat runtime projects the history for a model provider, executes the
  tools the model asks for (workspace files, devices, MCP servers) and streams a
  preview. The modelled parts are those that decide something by themselves: who may proceed, what
  a text becomes, what leaves the server. Code that only drives a database, a socket, a process or a third-party
  SDK is not modelled, as listed at the end.

  \<^bold>\<open>How the code is modelled.\<close> Python's dictionaries are association lists in insertion order,
  strings are lists of code points (\<open>Octo_Prelude\<close>, \<open>Py_Strings\<close>), integers are unbounded, exceptions
  are the \<open>Inl\<close> of a sum or a constructor of an outcome type. An object that several places share
  is an index into a store kept in the state. A coroutine is cut at its awaits: the code
  between two awaits, or under one lock, is one operation, and a state machine is the relation of all
  operations, so that every interleaving of tasks is a sequence of steps (\<open>reachable\<close> and the locale
  \<open>inductive_invariant\<close> of the prelude). Functions of the Python runtime or of a package that the source only
  calls (SHA-256, Unicode case folding, path canonicalisation, the tokenizer, the clock, callbacks) are
  parameters.

  \<^bold>\<open>Shared theories.\<close>
  \<^item> \<open>Octo_Prelude\<close>: dictionaries (locale \<open>ordered_dict\<close>, interpreted on association lists), fallible code,
    futures, invariants of step relations, lists.
  \<^item> \<open>Py_Strings\<close>: \<open>find\<close>, \<open>count\<close>, \<open>replace\<close>, \<open>split\<close>, \<open>strip\<close>, \<open>splitlines\<close>, \<open>join\<close> on code points, UTF-8 lengths.
  \<^item> \<open>Py_Json\<close>: JSON values, the canonical printer of \<open>json.dumps\<close>, sorting by key.
  \<^item> \<open>Py_Paths\<close>: the UTF-8 decoder, lines of a \<open>StringIO\<close>, \<open>PurePosixPath\<close>.
  \<^item> \<open>Kmp_Search\<close>: the failure function of Knuth, Morris and Pratt, for \<open>Text_Edit\<close>.
  \<^item> \<open>Lease_Exclusion\<close>: a locale for the exclusion of overlapping reservations, interpreted by both lock managers.

  \<^bold>\<open>Admission and locking.\<close>
  \<^item> \<open>Fair_Admission\<close> (\<open>devices/transfer_admission.py\<close>, server): counters, per-user queues and round robin of
    \<open>FairTransferAdmission\<close>. C1: the limits hold and counters equal the leases.
    C2: nobody waits while there is room.
  \<^item> \<open>Subtree_Leases\<close> (\<open>workspace/locks.py\<close>, \<open>SubtreeLeaseManager\<close>). C8: overlapping leases of
    different owners exclude each other. C9: a waiter that could proceed has been woken, or overlaps an
    active lease of its own owner whose release will wake it. In that second case it may sleep although it would be
    admitted (\<open>subtree_activation_lost_wakeup\<close>).
  \<^item> \<open>Path_Locks\<close> (\<open>tools/locks.py\<close>, client). C10: overlapping holds exclude each other, unless the same
    named owner reserved the subtree. \<open>path_locks_bookkeeping\<close>: no waiter is forgotten, the reference counts are exact,
    empty entries are dropped.
  \<^item> \<open>Keyed_Entries\<close> (\<open>workspace/locks.py\<close>, \<open>KeyedLockManager\<close>; the table of lease-counted entries shared with the
    next): one holder per key, no entry leaks (\<open>keyed_lock_exclusion\<close>).
  \<^item> \<open>Keyed_Admission\<close> (\<open>admission.py\<close>). C11: per-key and global limits with timeouts and cancellation in
    every phase; \<open>directional_admission_limits\<close> for the directions.
  \<^item> \<open>Mcp_Scheduler\<close> and \<open>Mcp_Invariant\<close> (\<open>mcp/scheduler.py\<close>): the admission of MCP calls, with per-user queues, two levels of
    round robin, deadlines, draining leases, retirement. C21: the limits of 32, 4 and of each runtime hold and
    counters equal the leases. C22: every operation, a wait included,
    returns, and a wait ends with \<open>InvalidStateError\<close> exactly if it is woken before its deadline. C23: no call waits
    while it could be issued, and queues are in order.
  \<^item> \<open>Local_Transfer\<close> (\<open>transfer_admission.py\<close>, client): slots of local transfers, leases that are handed over to drains.
    C24: no slot is lost or invented. \<open>local_release_fifo\<close>: a released slot goes to whoever waited longest.
  \<^item> \<open>Serialized_Writer\<close> (\<open>writer.py\<close>, client): the queues and the loop that send all frames of a connection.
    C27: memory is bounded, counts are exact, a control waits for at most one chunk. The lemma
    \<open>writer_idle_in_flight\<close> shows that the writer may be reported idle while a frame is still being sent.
  \<^item> \<open>Transfer_Slots\<close> and \<open>Transfer_Tombstones\<close> (\<open>devices/transfer_slots.py\<close> and the locked sections of \<open>transfer.py\<close> and
    \<open>transfer_bridge.py\<close>, server): which identifiers of transfers are in use or remembered, the credits that bridges
    reserve, and the answers to late frames. C31: at most 4096 records, no operation lacks room, only open
    bridges pin records. C32: a late timeout is acknowledged once, and a late failure
    again only if the acknowledgement before was not delivered.
  \<^item> \<open>Transfer_Bridge\<close>, \<open>Bridge_Stream\<close> and \<open>Bridge_Relay\<close> (\<open>devices/transfer_bridge.py\<close>, server): the relay of a file from one
    device to another. The worker, the relay task, the finish task, the frame handlers, lost connections, cancellations and
    timeouts are the steps of \<open>bridge_step\<close>, in any interleaving. C36: a reported result means that the
    destination got exactly the received bytes before the terminal and confirmed their length and digest.
    C37: only then, and once, the source of a move is deleted.

  \<^bold>\<open>Texts and contracts.\<close>
  \<^item> \<open>Error_Codes\<close> (\<open>errors/\<close>): the error codes, their HTTP status and the handlers. C3: status, code,
    message and headers of every error response, the same status whoever rejects the request.
  \<^item> \<open>Text_Edit\<close> (\<open>workspace/text_edit.py\<close>): the edit tool, with exact, trimmed and normalised matching. C4: the
    exact edit is the reference replacement of the selected occurrence. Its size is bounded too (\<open>edit_size_bound\<close>).
    C5: the search over trimmed lines finds what a naive search finds. \<open>edit_line_endings\<close>: line endings are
    preserved. \<open>overlapping_replace_all\<close>: overlapping matches with \<open>replace_all\<close>.
  \<^item> \<open>Notebook_Edit\<close> (\<open>workspace/notebook.py\<close>). C30: an edited notebook is a valid notebook in
    which only the addressed cell differs, and how.
  \<^item> \<open>Workspace_Search\<close> and \<open>Search_Pages\<close> (\<open>workspace/search.py\<close>). C28: grep with context is a reference
    search. C29: following the pages gives every result once (locale \<open>offset_pages\<close>), as for listings
    (\<open>recursive_listing_complete\<close>).
  \<^item> \<open>Directory_Contract\<close> (\<open>directory_contract.py\<close>, server and client): manifests of directory transfers.
    C6: paging is complete and bounded. C7: the digest input is injective.
    \<open>collision_keys_disjoint\<close>: collision keys.

  \<^bold>\<open>Automations.\<close>
  \<^item> \<open>Schedules\<close>, \<open>Schedule_Search\<close> and \<open>Schedule_Storage\<close> (\<open>automations/schedule.py\<close>): schedules by interval, cron expression
    or moment, in time zones whose clocks are changed. C38, C39: the searches find
    the nearest occurrences. C40: a stored schedule is read back. The lemma \<open>latest_occurrence_skipped\<close>
    shows the one microsecond in which an occurrence of a repeated hour is missed.

  \<^bold>\<open>Outbound requests.\<close>
  \<^item> \<open>Network_Policy\<close> (\<open>network_policy.py\<close>): the deny list of addresses and hosts. C33: every accepted
    entry is enforced. C34: the exceptions of the default list are exact.
  \<^item> \<open>Web_Fetch\<close> (\<open>tools/web_fetch.py\<close>) over it. C35: no request of the tool, redirects included, goes
    where an entry forbids.

  \<^bold>\<open>Conversations.\<close>
  \<^item> \<open>Chat_Blocks\<close> (\<open>chat/runtime_context.py\<close>, \<open>chat/channel_projection.py\<close>). C12: runtime headers round
    trip. C13: an untrusted message cannot escape its wrapper.
  \<^item> \<open>Chat_Public\<close> (\<open>chat/attachments.py\<close>, \<open>chat/public_projection.py\<close>). C14: attachment markers round
    trip. C15: the public view has no private field.
  \<^item> \<open>Chat_History\<close> (\<open>chat/repair.py\<close>, \<open>chat/context.py\<close>). C16: projected messages pair tool uses with
    results. C17: a repaired history can be projected.
  \<^item> \<open>Session_Streams\<close> (\<open>chat/stream.py\<close>, \<open>chat/session_streams.py\<close> and their use in \<open>chat/runner.py\<close>).
    C18: every open subscriber is owned exactly once. C19: queues are bounded and closed
    streams end.
  \<^item> \<open>Provider_Policy\<close> (\<open>provider/policy.py\<close>, \<open>provider/models.py\<close>): the history a provider gets, retries, and repeated
    streams. C25: the text and reasoning of a stream come from one attempt, and what an attempt that
    failed on closing leaves behind. C26: retries are bounded, made only when they can help, and send
    exactly the conversation without foreign reasoning.
  \<^item> \<open>Token_Estimator\<close> (\<open>chat/token_estimator.py\<close>). C20: the bounded streaming counter computes the
    sum over chunks of the printed request.

  \<^bold>\<open>Loops and fuel.\<close> No model uses fuel. Loops are structural, or have a termination proof (the drains of both
  admissions: the number of waiting calls; the issuing loop: waiting calls plus ready users, then users not yet
  checked; the page splitter: items left; the retry loops: retries left), or are \<open>partial_function (option)\<close> with a proof that they return.

  \<^bold>\<open>Not modelled.\<close> The turn loop of the runner, agents and prompts; construction of provider clients; MCP transports, runtimes and catalogues;
  device registry, the streaming of transfers and the protocol; workspace storage and service; channel adapters, ingress and
  delivery; the execution of automations (their schedules are); tools; database models and services; API routers, authentication and configuration; on the client the
  connection, transfers, processes and terminals. They are driven by sockets, files, SQL and
  third-party packages. Decision logic that could still be modelled: the results of MCP calls, the pairing of channels and
  \<open>hold_many\<close> of the keyed locks.
\<close>

end
